(* ===== verification/Prelude.thy ===== *)
theory Prelude
  imports Main "HOL-Library.Char_ord" "HOL-Library.List_Lexorder" "HOL-Library.Multiset"
begin

section \<open>Shared vocabulary of the development\<close>

text \<open>
  What every component uses: Go's \<open>int\<close> results and three-way comparisons, the operations on
  slices that the language and its standard library provide, association lists for Go maps, and
  the list lemmas that carry the component proofs.

  Conventions. A Go string is a byte sequence and is a \<^typ>\<open>string\<close>; its order is the byte order,
  which is the lexicographic order of \<open>HOL-Library.List_Lexorder\<close> over \<open>HOL-Library.Char_ord\<close>.
  A slice is a value (a list): functions that reuse the capacity of their argument return the new
  value, and a nil slice is the empty one. A Go map is an association list with distinct keys,
  so that a model can evaluate. A panic is \<^term>\<open>None\<close>.
\<close>

named_theorems go_defs \<open>definitions of thin wrappers, unfolded by the component proofs\<close>
named_theorems rt_simps \<open>rewrite rules for the round trips of diffs and events\<close>

subsection \<open>Three-way comparison\<close>

text \<open>\<open>cmp.Compare\<close> on an ordered type, and \<open>strings.Compare\<close>: -1, 0 or 1.\<close>

definition cmp :: "'a::linorder \<Rightarrow> 'a \<Rightarrow> int" where
  "cmp a b = (if a < b then -1 else if a = b then 0 else 1)"

lemma cmp_refl [simp]: "cmp a a = 0"
  by (simp add: cmp_def)

lemma cmp_eq_0 [simp]: "cmp a b = 0 \<longleftrightarrow> a = b"
  by (simp add: cmp_def)

lemma cmp_less [simp]: "a < b \<Longrightarrow> cmp a b = -1"
  by (simp add: cmp_def)

lemma cmp_greater [simp]: "b < a \<Longrightarrow> cmp a b = 1"
  by (auto simp: cmp_def)

lemma cmp_swap: "cmp b a = - cmp a b"
  by (auto simp: cmp_def)

lemma cmp_le_trans: "cmp a b \<le> 0 \<Longrightarrow> cmp b c \<le> 0 \<Longrightarrow> cmp a c \<le> 0"
  by (auto simp: cmp_def split: if_splits)

lemma cmp_range: "cmp a b \<in> {-1, 0, 1}"
  by (simp add: cmp_def)

text \<open>
  \<open>slices.Compare\<close>: elements are compared pairwise by \<open>c\<close>, the first difference decides, and a
  proper prefix is less.
\<close>

fun slices_Compare :: "('a \<Rightarrow> 'b \<Rightarrow> int) \<Rightarrow> 'a list \<Rightarrow> 'b list \<Rightarrow> int" where
  "slices_Compare c [] [] = 0"
| "slices_Compare c [] (y # ys) = -1"
| "slices_Compare c (x # xs) [] = 1"
| "slices_Compare c (x # xs) (y # ys) =
     (if c x y \<noteq> 0 then c x y else slices_Compare c xs ys)"

lemma slices_Compare_eq_0:
  "slices_Compare c xs ys = 0 \<longleftrightarrow> list_all2 (\<lambda>x y. c x y = 0) xs ys"
  by (induction c xs ys rule: slices_Compare.induct) auto

lemma slices_Compare_swap:
  assumes "\<And>x y. x \<in> set xs \<Longrightarrow> y \<in> set ys \<Longrightarrow> c y x = - c x y"
  shows "slices_Compare c ys xs = - slices_Compare c xs ys"
  using assms by (induction c xs ys rule: slices_Compare.induct) auto

lemma slices_Compare_range:
  assumes "\<And>x y. x \<in> set xs \<Longrightarrow> y \<in> set ys \<Longrightarrow> c x y \<in> {-1, 0, 1}"
  shows "slices_Compare c xs ys \<in> {-1, 0, 1}"
  using assms by (induction c xs ys rule: slices_Compare.induct) auto

text \<open>
  The contract of a comparison function on the values that satisfy \<open>ok\<close>: exchanging the arguments
  negates the result, and "not greater" is transitive. What sorting, filtering and the ordered
  subscriptions rely on follows from these two laws.
\<close>

locale comparison =
  fixes ok :: "'a \<Rightarrow> bool" and c :: "'a \<Rightarrow> 'a \<Rightarrow> int"
  assumes swap: "ok x \<Longrightarrow> ok y \<Longrightarrow> c y x = - c x y"
    and le_trans: "ok x \<Longrightarrow> ok y \<Longrightarrow> ok z \<Longrightarrow> c x y \<le> 0 \<Longrightarrow> c y z \<le> 0 \<Longrightarrow> c x z \<le> 0"
begin

lemma self_equal: "ok x \<Longrightarrow> c x x = 0"
  using swap [of x x] by simp

lemma ge_trans: "ok x \<Longrightarrow> ok y \<Longrightarrow> ok z \<Longrightarrow> c x y \<ge> 0 \<Longrightarrow> c y z \<ge> 0 \<Longrightarrow> c x z \<ge> 0"
  using le_trans [of z y x] swap [of x y] swap [of y z] swap [of x z] by simp

lemma eq_trans: "ok x \<Longrightarrow> ok y \<Longrightarrow> ok z \<Longrightarrow> c x y = 0 \<Longrightarrow> c y z = 0 \<Longrightarrow> c x z = 0"
  using le_trans [of x y z] ge_trans [of x y z] by simp

lemma eq_between:
  assumes "ok x" "ok y" "ok z" "c x y \<le> 0" "c y z \<le> 0" "c x z = 0"
  shows "c x y = 0 \<and> c y z = 0"
proof
  have zx: "c z x \<le> 0" using swap [of x z] assms by simp
  show "c x y = 0"
    using le_trans [of y z x] zx swap [of x y] assms by simp
  show "c y z = 0"
    using le_trans [of z x y] zx swap [of y z] assms by simp
qed

lemma slices_le_trans:
  assumes "list_all ok xs" "list_all ok ys" "list_all ok zs"
    and "slices_Compare c xs ys \<le> 0" "slices_Compare c ys zs \<le> 0"
  shows "slices_Compare c xs zs \<le> 0"
  using assms
proof (induction xs arbitrary: ys zs)
  case Nil
  then show ?case by (cases zs) auto
next
  case (Cons x xs)
  from Cons.prems obtain y ys' where ys: "ys = y # ys'" by (cases ys) auto
  with Cons.prems obtain z zs' where zs: "zs = z # zs'" by (cases zs) auto
  have xyz: "ok x" "ok y" "ok z" "c x y \<le> 0" "c y z \<le> 0"
    using Cons.prems by (auto simp: ys zs split: if_splits)
  show ?case
  proof (cases "c x z = 0")
    case True
    with eq_between [OF xyz True] have "slices_Compare c xs zs' \<le> 0"
      using Cons.prems by (intro Cons.IH [of ys' zs']) (auto simp: ys zs)
    with True show ?thesis by (simp add: zs)
  next
    case False
    with le_trans [OF xyz] show ?thesis by (simp add: zs)
  qed
qed

lemma slices_swap:
  "list_all ok xs \<Longrightarrow> list_all ok ys \<Longrightarrow> slices_Compare c ys xs = - slices_Compare c xs ys"
  by (rule slices_Compare_swap) (auto simp: list_all_iff intro: swap)

lemma on_slices: "comparison (list_all ok) (slices_Compare c)"
  by unfold_locales (auto intro: slices_swap slices_le_trans)

text \<open>The first comparison decides and a second one breaks its ties.\<close>

lemma then_by:
  assumes d: "comparison ok d"
  shows "comparison ok (\<lambda>x y. if c x y \<noteq> 0 then c x y else d x y)"
proof
  fix x y assume "ok x" "ok y"
  then show "(if c y x \<noteq> 0 then c y x else d y x) = - (if c x y \<noteq> 0 then c x y else d x y)"
    using swap [of x y] comparison.swap [OF d, of x y] by simp
next
  fix x y z assume o: "ok x" "ok y" "ok z"
    and xy: "(if c x y \<noteq> 0 then c x y else d x y) \<le> 0"
    and yz: "(if c y z \<noteq> 0 then c y z else d y z) \<le> 0"
  have cxy: "c x y \<le> 0" and cyz: "c y z \<le> 0" using xy yz by (auto split: if_splits)
  show "(if c x z \<noteq> 0 then c x z else d x z) \<le> 0"
    using le_trans [OF o cxy cyz] eq_between [OF o cxy cyz] comparison.le_trans [OF d o] xy yz
    by (auto split: if_splits)
qed

text \<open>Reversing the sign, or comparing images, keeps the contract.\<close>

lemma reversed: "comparison ok (\<lambda>x y. - c x y)"
proof
  fix x y z assume "ok x" "ok y" "ok z" "- c x y \<le> 0" "- c y z \<le> 0"
  then show "- c x z \<le> 0" using ge_trans [of x y z] by simp
next
  fix x y assume "ok x" "ok y"
  then show "- c y x = - (- c x y)" using swap [of x y] by simp
qed

lemma on_images: "(\<And>x. ok' x \<Longrightarrow> ok (f x)) \<Longrightarrow> comparison ok' (\<lambda>x y. c (f x) (f y))"
  by unfold_locales (auto intro: swap le_trans)

end

lemma cmp_comparison: "comparison ok cmp"
  by unfold_locales (auto intro: cmp_swap cmp_le_trans)

subsection \<open>Association lists for Go maps\<close>

text \<open>
  \<open>m[k] = v\<close> overwrites in place or appends: the order of an association list stands for one
  iteration order of the Go map, which no property relies on.
\<close>

fun put :: "'k \<Rightarrow> 'v \<Rightarrow> ('k \<times> 'v) list \<Rightarrow> ('k \<times> 'v) list" where
  "put k v [] = [(k, v)]"
| "put k v ((k', v') # m) = (if k' = k then (k, v) # m else (k', v') # put k v m)"

definition del :: "'k \<Rightarrow> ('k \<times> 'v) list \<Rightarrow> ('k \<times> 'v) list" where
  "del k m = filter (\<lambda>kv. fst kv \<noteq> k) m"

abbreviation keys :: "('k \<times> 'v) list \<Rightarrow> 'k list" where
  "keys m \<equiv> map fst m"

definition wf_map :: "('k \<times> 'v) list \<Rightarrow> bool" where
  "wf_map m \<longleftrightarrow> distinct (keys m)"

lemma map_of_put [simp]: "map_of (put k v m) = (map_of m)(k \<mapsto> v)"
  by (induction k v m rule: put.induct) (auto simp: fun_eq_iff)

lemma set_keys_put [simp]: "fst ` set (put k v m) = insert k (fst ` set m)"
  by (induction k v m rule: put.induct) auto

lemma wf_map_Nil [simp]: "wf_map []"
  by (simp add: wf_map_def)

lemma wf_map_put [simp]: "wf_map m \<Longrightarrow> wf_map (put k v m)"
  by (induction k v m rule: put.induct) (auto simp: wf_map_def)

lemma map_of_del [simp]: "map_of (del k m) = (map_of m)(k := None)"
  by (induction m) (auto simp: del_def fun_eq_iff)

lemma keys_filter_fst: "keys (filter (\<lambda>kv. P (fst kv)) m) = filter P (keys m)"
  by (induction m) auto

lemma wf_map_filter_fst [simp]: "wf_map m \<Longrightarrow> wf_map (filter (\<lambda>kv. P (fst kv)) m)"
  by (simp add: wf_map_def keys_filter_fst)

lemma wf_map_filter [simp]: "wf_map m \<Longrightarrow> wf_map (filter P m)"
  by (induction m) (auto simp: wf_map_def)

lemma wf_map_del [simp]: "wf_map m \<Longrightarrow> wf_map (del k m)"
  by (simp add: del_def)

lemma map_of_filter_fst:
  "map_of (filter (\<lambda>kv. P (fst kv)) m) k = (if P k then map_of m k else None)"
  by (induction m) auto

lemma wf_map_Cons [simp]: "wf_map ((k, v) # m) \<longleftrightarrow> k \<notin> fst ` set m \<and> wf_map m"
  by (simp add: wf_map_def)

lemma map_of_wf_in: "wf_map m \<Longrightarrow> (k, v) \<in> set m \<Longrightarrow> map_of m k = Some v"
  by (simp add: wf_map_def)

lemma map_of_size_less:
  "map_of m k = Some v \<Longrightarrow> f v < Suc (size_list (\<lambda>kv. f (snd kv)) m)"
  by (induction m) (auto split: if_splits)

lemma map_of_notin: "map_of m k = None \<longleftrightarrow> k \<notin> fst ` set m"
  by (rule map_of_eq_None_iff)

text \<open>
  The contract of a map as the components use it: reading after writing, reading after deleting.
  A patch, a sequence of writes followed by a sequence of deletes, is then read key by key.
\<close>

locale dict =
  fixes lookup :: "'m \<Rightarrow> 'k \<Rightarrow> 'v option" and update :: "'k \<Rightarrow> 'v \<Rightarrow> 'm \<Rightarrow> 'm"
    and delete :: "'k \<Rightarrow> 'm \<Rightarrow> 'm" and invar :: "'m \<Rightarrow> bool"
  assumes lookup_update: "invar m \<Longrightarrow> lookup (update k v m) = (lookup m)(k \<mapsto> v)"
    and lookup_delete: "invar m \<Longrightarrow> lookup (delete k m) = (lookup m)(k := None)"
    and invar_update: "invar m \<Longrightarrow> invar (update k v m)"
    and invar_delete: "invar m \<Longrightarrow> invar (delete k m)"
begin

lemma invar_updates: "invar m \<Longrightarrow> invar (fold (\<lambda>kv. update (fst kv) (snd kv)) kvs m)"
  by (induction kvs arbitrary: m) (auto intro: invar_update)

lemma invar_deletes: "invar m \<Longrightarrow> invar (fold delete ks m)"
  by (induction ks arbitrary: m) (auto intro: invar_delete)

lemma lookup_updates:
  "invar m \<Longrightarrow> lookup (fold (\<lambda>kv. update (fst kv) (snd kv)) kvs m) k =
     (case map_of (rev kvs) k of Some v \<Rightarrow> Some v | None \<Rightarrow> lookup m k)"
proof (induction kvs arbitrary: m)
  case (Cons kv kvs)
  then show ?case
    by (auto simp: invar_update lookup_update map_add_def split: option.split)
qed simp

lemma lookup_deletes: "invar m \<Longrightarrow> lookup (fold delete ks m) k = (if k \<in> set ks then None else lookup m k)"
  by (induction ks arbitrary: m) (auto simp: invar_delete lookup_delete)

lemma lookup_patch:
  "invar m \<Longrightarrow> lookup (fold delete ks (fold (\<lambda>kv. update (fst kv) (snd kv)) kvs m)) k =
     (if k \<in> set ks then None else case map_of (rev kvs) k of Some v \<Rightarrow> Some v | None \<Rightarrow> lookup m k)"
  by (simp add: lookup_deletes lookup_updates invar_updates)

end

interpretation go_map: dict map_of put del wf_map
  by unfold_locales simp_all

lemma map_of_rev_wf: "wf_map m \<Longrightarrow> map_of (rev m) = map_of m"
proof (rule ext)
  fix k assume wf: "wf_map m"
  show "map_of (rev m) k = map_of m k"
  proof (cases "map_of m k")
    case (Some v)
    then have "(k, v) \<in> set (rev m)" by (auto dest: map_of_SomeD)
    with Some wf show ?thesis by (simp add: wf_map_def rev_map [symmetric])
  qed (metis map_of_eq_None_iff set_rev)
qed

subsection \<open>Lists\<close>

lemma filter_not_in_Nil [simp]: "[x \<leftarrow> xs. x \<notin> set []] = xs"
  by simp

lemma sorted_eq_mset: "sort xs = sort ys \<longleftrightarrow> mset xs = mset ys"
  by (metis mset_sort properties_for_sort sorted_sort)

lemma filter_drop_take:
  "i \<le> j \<Longrightarrow> filter P (drop i xs) = filter P (take (j - i) (drop i xs)) @ filter P (drop j xs)"
  by (metis append_take_drop_id drop_drop filter_append le_add_diff_inverse2)

end
