(* ===== verification/Slices.thy ===== *)
theory Slices
  imports Prelude
begin

section \<open>Slice helpers (util/slice/slice.go)\<close>

text \<open>
  The generic slice functions the editor, the database and the subscriptions are written with.
  One definition per function, in the order of the file; a position is a Go \<open>int\<close>, with -1 for
  "not found", and an index that panics gives \<^term>\<open>None\<close>. Left out: the random string helper
  and the CID filter (third-party randomness and CID parsing), and the numeric conversions.
\<close>

subsection \<open>Set-like operations\<close>

definition Union_s :: "string list \<Rightarrow> string list \<Rightarrow> string list" where
  "Union_s a b = a @ [v \<leftarrow> b. v \<notin> set a]"

definition DifferenceRemovedAdded :: "string list \<Rightarrow> string list \<Rightarrow> string list \<times> string list" where
  "DifferenceRemovedAdded a b = ([x \<leftarrow> a. x \<notin> set b], [x \<leftarrow> b. x \<notin> set a])"

text \<open>The loop of \<open>FindPos\<close> and \<open>Find\<close>: the index of the first element that satisfies the test.\<close>

fun find_from :: "('a \<Rightarrow> bool) \<Rightarrow> int \<Rightarrow> 'a list \<Rightarrow> int" where
  "find_from p i [] = -1"
| "find_from p i (x # xs) = (if p x then i else find_from p (i + 1) xs)"

definition FindPos :: "'a list \<Rightarrow> 'a \<Rightarrow> int" where
  "FindPos s v = find_from (\<lambda>x. x = v) 0 s"

definition Find_s :: "'a list \<Rightarrow> ('a \<Rightarrow> bool) \<Rightarrow> int" where
  "Find_s s cond = find_from cond 0 s"

definition Difference :: "string list \<Rightarrow> string list \<Rightarrow> string list" where
  "Difference a b = [a1 \<leftarrow> a. FindPos b a1 = -1]"

subsection \<open>Insertion and removal\<close>

definition Insert_s :: "'a list \<Rightarrow> int \<Rightarrow> 'a list \<Rightarrow> 'a list option" where
  "Insert_s s pos v =
     (if int (length s) \<le> pos then Some (s @ v)
      else if pos = 0 then Some (v @ s)
      else if pos < 0 then None
      else Some (take (nat pos) s @ v @ drop (nat pos) s))"

definition RemoveMut :: "'a list \<Rightarrow> 'a \<Rightarrow> 'a list" where
  "RemoveMut s v = [x \<leftarrow> s. x \<noteq> v]"

definition Remove_s :: "'a list \<Rightarrow> 'a \<Rightarrow> 'a list" where
  "Remove_s s v = [x \<leftarrow> s. x \<noteq> v]"

fun remove_index_from :: "int \<Rightarrow> int \<Rightarrow> 'a list \<Rightarrow> 'a list" where
  "remove_index_from i idx [] = []"
| "remove_index_from i idx (x # xs) =
     (if i \<noteq> idx then x # remove_index_from (i + 1) idx xs
      else remove_index_from (i + 1) idx xs)"

definition RemoveIndex :: "'a list \<Rightarrow> int \<Rightarrow> 'a list" where
  "RemoveIndex s idx = remove_index_from 0 idx s"

definition RemoveN :: "'a list \<Rightarrow> 'a list \<Rightarrow> 'a list" where
  "RemoveN s vs = (if vs = [] then s else [x \<leftarrow> s. \<not> list_ex (\<lambda>v. x = v) vs])"

definition Filter_s :: "'a list \<Rightarrow> ('a \<Rightarrow> bool) \<Rightarrow> 'a list" where
  "Filter_s vals cond = [x \<leftarrow> vals. cond x]"

definition FilterMut :: "'a list \<Rightarrow> ('a \<Rightarrow> bool) \<Rightarrow> 'a list" where
  "FilterMut vals cond = [x \<leftarrow> vals. cond x]"

subsection \<open>Comparisons\<close>

fun equal_elements :: "'a list \<Rightarrow> 'a list \<Rightarrow> bool" where
  "equal_elements (x # xs) (y # ys) = (if x \<noteq> y then False else equal_elements xs ys)"
| "equal_elements _ _ = True"

definition SortedEquals :: "'a list \<Rightarrow> 'a list \<Rightarrow> bool" where
  "SortedEquals s1 s2 = (if length s1 \<noteq> length s2 then False else equal_elements s1 s2)"

definition UnsortedEqual :: "'a::linorder list \<Rightarrow> 'a list \<Rightarrow> bool" where
  "UnsortedEqual s1 s2 =
     (if length s1 \<noteq> length s2 then False else SortedEquals (sort s1) (sort s2))"

definition HasPrefix :: "string list \<Rightarrow> string list \<Rightarrow> bool" where
  "HasPrefix v p = (if length v < length p then False else equal_elements (take (length p) v) p)"

definition Copy_s :: "'a list \<Rightarrow> 'a list" where
  "Copy_s l = l"

text \<open>The merge loop of \<open>Intersection\<close> over the two sorted slices.\<close>

fun inter_loop :: "'a::linorder list \<Rightarrow> 'a list \<Rightarrow> 'a list" where
  "inter_loop (x # xs) (y # ys) =
     (if cmp x y = 0 then x # inter_loop xs ys
      else if cmp x y = -1 then inter_loop xs (y # ys)
      else inter_loop (x # xs) ys)"
| "inter_loop _ _ = []"

definition Intersection :: "string list \<Rightarrow> string list \<Rightarrow> string list" where
  "Intersection a b = inter_loop (sort a) (sort b)"

fun ReplaceFirstBy :: "'a list \<Rightarrow> 'a \<Rightarrow> ('a \<Rightarrow> bool) \<Rightarrow> 'a list" where
  "ReplaceFirstBy [] el pred = []"
| "ReplaceFirstBy (x # s) el pred = (if pred x then el # s else x # ReplaceFirstBy s el pred)"

definition MergeUniqBy :: "'a list \<Rightarrow> 'a list \<Rightarrow> ('a \<Rightarrow> 'a \<Rightarrow> bool) \<Rightarrow> 'a list" where
  "MergeUniqBy s1 s2 equal = s1 @ [v2 \<leftarrow> s2. \<not> list_ex (\<lambda>v1. equal v1 v2) s1]"

definition ContainsBySeq :: "'a list \<Rightarrow> 'a \<Rightarrow> bool" where
  "ContainsBySeq seq v1 = list_ex (\<lambda>v2. v1 = v2) seq"

subsection \<open>Positions\<close>

lemma find_from_bound: "find_from p i xs = -1 \<or> (i \<le> find_from p i xs \<and> find_from p i xs < i + int (length xs))"
  by (induction p i xs rule: find_from.induct) auto

lemma find_from_shift:
  "0 \<le> i \<Longrightarrow> find_from p i xs = (if list_ex p xs then i + find_from p 0 xs else -1)"
proof (induction xs arbitrary: i)
  case (Cons x xs)
  show ?case
    using Cons.IH [of "i + 1"] Cons.IH [of 1] Cons.prems by auto
qed simp

lemma find_from_none: "0 \<le> i \<Longrightarrow> find_from p i xs = -1 \<longleftrightarrow> \<not> list_ex p xs"
  by (induction p i xs rule: find_from.induct) auto

lemma FindPos_none [simp]: "FindPos s v = -1 \<longleftrightarrow> v \<notin> set s"
  by (auto simp: FindPos_def find_from_none list_ex_iff)

lemma FindPos_neg [simp]: "FindPos s v < 0 \<longleftrightarrow> v \<notin> set s"
  using find_from_bound [of "\<lambda>x. x = v" 0 s] FindPos_none [of s v] by (auto simp: FindPos_def)

lemma find_from_split:
  "\<not> list_ex p xs \<Longrightarrow> p x \<Longrightarrow> 0 \<le> i \<Longrightarrow> find_from p i (xs @ x # ys) = i + int (length xs)"
  by (induction xs arbitrary: i) auto

lemma FindPos_split: "v \<notin> set xs \<Longrightarrow> FindPos (xs @ v # ys) v = int (length xs)"
  by (simp add: FindPos_def find_from_split list_ex_iff)

lemma Difference_conv [simp]: "Difference a b = [x \<leftarrow> a. x \<notin> set b]"
  by (simp add: Difference_def)

subsection \<open>Insertion\<close>

lemma Insert_s_Some [simp]:
  "0 \<le> pos \<Longrightarrow> Insert_s s pos v = Some (take (nat pos) s @ v @ drop (nat pos) s)"
  by (auto simp: Insert_s_def)

lemma Insert_s_panics: "pos < 0 \<Longrightarrow> Insert_s s pos v = None"
  by (auto simp: Insert_s_def)

lemma Insert_s_split: "Insert_s (xs @ ys) (int (length xs)) v = Some (xs @ v @ ys)"
  by simp

lemma RemoveN_conv [simp]: "RemoveN s vs = [x \<leftarrow> s. x \<notin> set vs]"
  by (auto simp: RemoveN_def list_ex_iff intro: filter_cong)

lemma remove_index_beyond: "idx < i \<Longrightarrow> remove_index_from i idx xs = xs"
  by (induction xs arbitrary: i) auto

lemma remove_index_at: "remove_index_from i (i + int n) xs = take n xs @ drop (Suc n) xs"
proof (induction xs arbitrary: i n)
  case (Cons x xs)
  show ?case
  proof (cases n)
    case (Suc m)
    then show ?thesis using Cons.IH [of "i + 1" m] by (simp add: algebra_simps)
  qed (simp add: remove_index_beyond)
qed simp

lemma RemoveIndex_conv:
  "RemoveIndex s idx = (if 0 \<le> idx then take (nat idx) s @ drop (Suc (nat idx)) s else s)"
  using remove_index_at [of 0 "nat idx" s]
  by (cases "0 \<le> idx") (simp_all add: RemoveIndex_def remove_index_beyond)

subsection \<open>Comparisons\<close>

lemma equal_elements_conv: "length xs = length ys \<Longrightarrow> equal_elements xs ys \<longleftrightarrow> xs = ys"
  by (induction xs ys rule: equal_elements.induct) auto

lemma SortedEquals_conv [simp]: "SortedEquals s1 s2 \<longleftrightarrow> s1 = s2"
  by (auto simp: SortedEquals_def equal_elements_conv)

lemma HasPrefix_conv: "HasPrefix v p \<longleftrightarrow> (\<exists>ys. v = p @ ys)"
proof -
  have "length p \<le> length v \<Longrightarrow> HasPrefix v p \<longleftrightarrow> take (length p) v = p"
    by (auto simp: HasPrefix_def equal_elements_conv)
  then show ?thesis
    by (auto simp: HasPrefix_def not_less) (metis append_take_drop_id)
qed

lemma inter_loop_mset:
  "sorted xs \<Longrightarrow> sorted ys \<Longrightarrow> mset (inter_loop xs ys) = mset xs \<inter># mset ys"
proof (induction xs ys rule: inter_loop.induct)
  case (1 x xs y ys)
  consider "x = y" | "x < y" | "y < x" by fastforce
  then show ?case
  proof cases
    case 2
    with "1.prems" have "x \<notin># mset (y # ys)" by auto
    with 2 "1.IH"(2) "1.prems" show ?thesis
      by (simp add: inter_add_left1)
  next
    case 3
    with "1.prems" have "y \<notin># mset (x # xs)" by auto
    with 3 "1.IH"(3) "1.prems" show ?thesis
      by (simp add: inter_add_right1)
  qed (use 1 in simp)
qed simp_all

lemma inter_loop_sorted: "sorted xs \<Longrightarrow> sorted ys \<Longrightarrow> sorted (inter_loop xs ys)"
proof (induction xs ys rule: inter_loop.induct)
  case (1 x xs y ys)
  have "set (inter_loop xs ys) \<subseteq> set xs" if "sorted xs" "sorted ys"
    using arg_cong [OF inter_loop_mset [OF that], of set_mset] by auto
  with 1 show ?case by (auto simp: cmp_def)
qed simp_all

subsection \<open>Properties\<close>

text \<open>\<open>FindPos\<close> returns the first position that holds the value, or -1 exactly when no
  position does.\<close>

lemma FindPos_first:
  "FindPos s v = (if v \<in> set s then int (LEAST n. n < length s \<and> s ! n = v) else -1)"
proof (cases "v \<in> set s")
  case True
  then obtain xs ys where s: "s = xs @ v # ys" "v \<notin> set xs" by (meson split_list_first)
  have "(LEAST n. n < length s \<and> s ! n = v) = length xs"
  proof (rule Least_equality)
    fix n assume n: "n < length s \<and> s ! n = v"
    show "length xs \<le> n"
    proof (rule ccontr)
      assume "\<not> length xs \<le> n"
      then have "xs ! n = v" "n < length xs" using n s(1) by (auto simp: nth_append)
      with s(2) show False by auto
    qed
  qed (simp add: s(1))
  with True s show ?thesis by (simp add: FindPos_split)
qed (simp add: FindPos_none)

text \<open>\<open>UnsortedEqual\<close> decides equality as multisets: order is ignored, repetitions are not.\<close>

lemma UnsortedEqual_mset: "UnsortedEqual s1 s2 \<longleftrightarrow> mset s1 = mset s2"
  by (auto simp: UnsortedEqual_def sorted_eq_mset dest: mset_eq_length)

text \<open>\<open>Intersection\<close> merges its sorted copies into exactly the multiset intersection, in
  increasing order.\<close>

lemma Intersection_mset:
  "mset (Intersection a b) = mset a \<inter># mset b \<and> sorted (Intersection a b)"
  by (simp add: Intersection_def inter_loop_mset inter_loop_sorted)

end
