(* ===== verification/SliceDiff.thy ===== *)
theory SliceDiff
  imports Slices
begin

section \<open>Diff and patch of slices (util/slice/diff.go)\<close>

text \<open>
  \<open>Diff\<close> computes the changes that turn one slice into another, \<open>ApplyChanges\<close> applies them.
  Items are identified by \<open>getID\<close>. Two third-party functions are parameters: \<open>uniq\<close> is
  \<open>lo.UniqBy\<close> and \<open>edit\<close> is \<open>diff.Diff\<close> of mb0/diff, which returns the hunks of an edit script;
  what the code relies on is stated by \<open>uniq_doc\<close> and \<open>edit_script\<close>.
  The Go struct \<open>Change\<close> has four pointers of which the constructors set exactly one; the zero
  struct sets none. It is a datatype with one constructor for each case.
\<close>

datatype 'a change =
    NoChange
  | ChangeAdd "'a list" string
  | ChangeRemove "string list"
  | ChangeMove "string list" string
  | ChangeReplace 'a string

fun change_Len :: "'a change \<Rightarrow> nat" where
  "change_Len NoChange = 0"
| "change_Len (ChangeAdd items _) = length items"
| "change_Len (ChangeRemove ids) = length ids"
| "change_Len (ChangeMove ids _) = length ids"
| "change_Len (ChangeReplace _ _) = 1"

text \<open>A hunk of the edit script: positions in both slices, items deleted and inserted there.\<close>

record hunk =
  hA :: nat
  hB :: nat
  hDel :: nat
  hIns :: nat

text \<open>\<open>MixedInput.Equal\<close>: the comparison handed to the edit-script algorithm.\<close>

definition MixedInput_Equal :: "('a \<Rightarrow> string) \<Rightarrow> 'a list \<Rightarrow> 'a list \<Rightarrow> nat \<Rightarrow> nat \<Rightarrow> bool" where
  "MixedInput_Equal getID A B a b = (getID (A ! a) = getID (B ! b))"

subsection \<open>Diff\<close>

text \<open>The items present on both sides and not equal are replaced.\<close>

definition replaces :: "('a \<Rightarrow> string) \<Rightarrow> ('a \<Rightarrow> 'a \<Rightarrow> bool) \<Rightarrow> 'a list \<Rightarrow> 'a list \<Rightarrow> 'a change list" where
  "replaces getID equal origin changed =
     (let changedMap = map_of (rev (map (\<lambda>c. (getID c, c)) changed))
      in concat (map (\<lambda>c. case changedMap (getID c) of
                    None \<Rightarrow> []
                  | Some v \<Rightarrow> if \<not> equal c v then [ChangeReplace v (getID c)] else []) origin))"

text \<open>The ids of the items deleted by some hunk (the Go map \<open>delMap\<close>, without duplicates).\<close>

definition delMap :: "('a \<Rightarrow> string) \<Rightarrow> 'a list \<Rightarrow> hunk list \<Rightarrow> string list" where
  "delMap getID A changes =
     remdups (concat (map (\<lambda>c. map getID (take (hDel c) (drop (hA c) A))) changes))"

text \<open>
  One inserted item: a move when its id was deleted elsewhere, an addition otherwise; consecutive
  items of one kind are collected in one change. The state is the result so far, the change being
  collected, the remaining deleted ids and the id to insert after.
\<close>

type_synonym 'a diff_state = "'a change list \<times> 'a change \<times> string list \<times> string"

fun insert_item :: "('a \<Rightarrow> string) \<Rightarrow> 'a \<Rightarrow> 'a diff_state \<Rightarrow> 'a diff_state" where
  "insert_item getID it (result, oneCh, dels, afterID) =
     (let i = getID it;
          flushed = (if change_Len oneCh > 0 then result @ [oneCh] else result)
      in if i \<in> set dels
         then (case oneCh of
                 ChangeMove ids af \<Rightarrow> (result, ChangeMove (ids @ [i]) af, removeAll i dels, i)
               | _ \<Rightarrow> (flushed, ChangeMove [i] afterID, removeAll i dels, i))
         else (case oneCh of
                 ChangeAdd items af \<Rightarrow> (result, ChangeAdd (items @ [it]) af, dels, i)
               | _ \<Rightarrow> (flushed, ChangeAdd [it] afterID, dels, i)))"

definition diff_hunk :: "('a \<Rightarrow> string) \<Rightarrow> 'a list \<Rightarrow> 'a list \<Rightarrow> hunk \<Rightarrow>
    'a change list \<times> string list \<Rightarrow> 'a change list \<times> string list" where
  "diff_hunk getID A B c = (\<lambda>(result, dels).
     if hIns c \<le> 0 then (result, dels)
     else
       (let inserts = take (hIns c) (drop (hB c) B);
            afterID = (if hA c > 0 then getID (A ! (hA c - 1)) else []);
            (result', oneCh, dels', _) = fold (insert_item getID) inserts (result, NoChange, dels, afterID)
        in (if change_Len oneCh > 0 then result' @ [oneCh] else result', dels')))"

definition Diff :: "(('a \<Rightarrow> string) \<Rightarrow> 'a list \<Rightarrow> 'a list) \<Rightarrow>
    (nat \<Rightarrow> nat \<Rightarrow> (nat \<Rightarrow> nat \<Rightarrow> bool) \<Rightarrow> hunk list) \<Rightarrow>
    'a list \<Rightarrow> 'a list \<Rightarrow> ('a \<Rightarrow> string) \<Rightarrow> ('a \<Rightarrow> 'a \<Rightarrow> bool) \<Rightarrow> 'a change list" where
  "Diff uniq edit origin0 changed0 getID equal =
     (let A = uniq getID origin0;
          B = uniq getID changed0;
          changes = edit (length A) (length B) (MixedInput_Equal getID A B);
          (result, dels) = fold (diff_hunk getID A B) changes
             (replaces getID equal A B, delMap getID A changes)
      in if dels \<noteq> [] then result @ [ChangeRemove (sort dels)] else result)"

subsection \<open>ApplyChanges\<close>

definition findPos :: "'a list \<Rightarrow> ('a \<Rightarrow> string) \<Rightarrow> string \<Rightarrow> int" where
  "findPos s getID i = find_from (\<lambda>sv. getID sv = i) 0 s"

text \<open>The position after the item with a given id: the empty id and an absent one mean the front.\<close>

definition after_pos :: "'a list \<Rightarrow> ('a \<Rightarrow> string) \<Rightarrow> string \<Rightarrow> int" where
  "after_pos res getID afterID = (if afterID \<noteq> [] then findPos res getID afterID else -1)"

text \<open>
  The state of the loop is the slice being built and the map from ids to items; \<^term>\<open>None\<close> is a
  panic of \<open>Insert\<close>.
\<close>

type_synonym 'a apply_state = "'a list \<times> (string \<times> 'a) list"

fun apply_change :: "('a \<Rightarrow> string) \<Rightarrow> 'a change \<Rightarrow> 'a apply_state \<Rightarrow> 'a apply_state option" where
  "apply_change getID NoChange (res, itemsMap) = Some (res, itemsMap)"
| "apply_change getID (ChangeAdd items afterID) (res, itemsMap) =
     map_option (\<lambda>r. (r, itemsMap)) (Insert_s res (after_pos res getID afterID + 1) items)"
| "apply_change getID (ChangeMove ids afterID) (res, itemsMap) =
     (let res = FilterMut res (\<lambda>x. FindPos ids (getID x) < 0);
          items = List.map_filter (map_of itemsMap) ids
      in map_option (\<lambda>r. (r, itemsMap)) (Insert_s res (after_pos res getID afterID + 1) items))"
| "apply_change getID (ChangeRemove ids) (res, itemsMap) =
     Some (FilterMut res (\<lambda>x. FindPos ids (getID x) < 0), itemsMap)"
| "apply_change getID (ChangeReplace item i) (res, itemsMap) =
     (let pos = findPos res getID i
      in Some (if pos \<ge> 0 \<and> pos < int (length res) then res[nat pos := item] else res,
               put i item itemsMap))"

fun apply_loop :: "('a \<Rightarrow> string) \<Rightarrow> 'a change list \<Rightarrow> 'a apply_state \<Rightarrow> 'a apply_state option" where
  "apply_loop getID [] st = Some st"
| "apply_loop getID (ch # chs) st =
     (case apply_change getID ch st of None \<Rightarrow> None | Some st' \<Rightarrow> apply_loop getID chs st')"

definition ApplyChanges :: "(('a \<Rightarrow> string) \<Rightarrow> 'a list \<Rightarrow> 'a list) \<Rightarrow>
    'a list \<Rightarrow> 'a change list \<Rightarrow> ('a \<Rightarrow> string) \<Rightarrow> 'a list option" where
  "ApplyChanges uniq origin changes getID =
     map_option fst (apply_loop getID changes
       (uniq getID origin, fold (\<lambda>it. put (getID it) it) origin []))"

text \<open>\<open>UnwrapChanges\<close>: one call per change, for whichever kind is set.\<close>

fun unwrap_change :: "(string \<Rightarrow> 'a list \<Rightarrow> 'r) \<Rightarrow> (string list \<Rightarrow> 'r) \<Rightarrow>
    (string \<Rightarrow> string list \<Rightarrow> 'r) \<Rightarrow> (string \<Rightarrow> 'a \<Rightarrow> 'r) \<Rightarrow> 'a change \<Rightarrow> 'r list" where
  "unwrap_change add remove move update NoChange = []"
| "unwrap_change add remove move update (ChangeAdd items af) = [add af items]"
| "unwrap_change add remove move update (ChangeRemove ids) = [remove ids]"
| "unwrap_change add remove move update (ChangeMove ids af) = [move af ids]"
| "unwrap_change add remove move update (ChangeReplace item i) = [update i item]"

definition UnwrapChanges :: "'a change list \<Rightarrow> (string \<Rightarrow> 'a list \<Rightarrow> 'r) \<Rightarrow> (string list \<Rightarrow> 'r) \<Rightarrow>
    (string \<Rightarrow> string list \<Rightarrow> 'r) \<Rightarrow> (string \<Rightarrow> 'a \<Rightarrow> 'r) \<Rightarrow> 'r list" where
  "UnwrapChanges changes add remove move update =
     concat (map (unwrap_change add remove move update) changes)"

subsection \<open>What the third-party functions promise\<close>

text \<open>\<open>lo.UniqBy\<close> keeps the first item of every id, in order.\<close>

definition uniq_doc :: "(('a \<Rightarrow> string) \<Rightarrow> 'a list \<Rightarrow> 'a list) \<Rightarrow> bool" where
  "uniq_doc uniq \<longleftrightarrow>
     (\<forall>getID xs. distinct (map getID (uniq getID xs)) \<and> getID ` set (uniq getID xs) = getID ` set xs \<and>
        set (uniq getID xs) \<subseteq> set xs \<and> (distinct (map getID xs) \<longrightarrow> uniq getID xs = xs))"

text \<open>
  The hunks of an edit script between \<open>A\<close> and \<open>B\<close>, compared by id, from positions \<open>i\<close> and \<open>j\<close> on:
  what lies between two hunks is common to both sides, and two hunks are never adjacent (\<open>fresh\<close>
  holds for the first hunk only, which may start at once).
\<close>

fun edit_from :: "string list \<Rightarrow> string list \<Rightarrow> bool \<Rightarrow> nat \<Rightarrow> nat \<Rightarrow> hunk list \<Rightarrow> bool" where
  "edit_from A B fresh i j [] = (drop i A = drop j B)"
| "edit_from A B fresh i j (h # hs) =
     (i \<le> hA h \<and> hA h - i = hB h - j \<and> j \<le> hB h \<and> (fresh \<or> i < hA h) \<and>
      take (hA h - i) (drop i A) = take (hB h - j) (drop j B) \<and>
      hA h + hDel h \<le> length A \<and> hB h + hIns h \<le> length B \<and>
      edit_from A B False (hA h + hDel h) (hB h + hIns h) hs)"

definition edit_script :: "string list \<Rightarrow> string list \<Rightarrow> hunk list \<Rightarrow> bool" where
  "edit_script A B hs = edit_from A B True 0 0 hs"

definition edit_doc :: "(nat \<Rightarrow> nat \<Rightarrow> (nat \<Rightarrow> nat \<Rightarrow> bool) \<Rightarrow> hunk list) \<Rightarrow> ('a \<Rightarrow> string) \<Rightarrow> bool" where
  "edit_doc edit getID \<longleftrightarrow> (\<forall>A B. edit_script (map getID A) (map getID B)
     (edit (length A) (length B) (MixedInput_Equal getID A B)))"

subsection \<open>Positions after an anchor\<close>

text \<open>The id of the last item of a prefix: what the changes call \<open>AfterID\<close>.\<close>

definition anchor :: "('a \<Rightarrow> string) \<Rightarrow> 'a list \<Rightarrow> string" where
  "anchor getID L = (if L = [] then [] else getID (last L))"

lemma filter_splitE:
  assumes "filter P xs = us @ y # vs"
  obtains u v where "xs = u @ y # v" "filter P u = us" "filter P v = vs" "P y"
proof -
  from assms have "\<exists>u v. xs = u @ y # v \<and> filter P u = us \<and> filter P v = vs \<and> P y"
  proof (induction xs arbitrary: us)
    case (Cons x xs)
    show ?case
    proof (cases "P x")
      case False
      with Cons.prems have "filter P xs = us @ y # vs" by simp
      from Cons.IH [OF this] obtain u v where "xs = u @ y # v" "filter P u = us" "filter P v = vs" "P y"
        by blast
      with False show ?thesis by (intro exI [of _ "x # u"] exI [of _ v]) simp
    next
      case True
      show ?thesis
      proof (cases us)
        case Nil
        with Cons.prems True show ?thesis by (intro exI [of _ "[]"] exI [of _ xs]) simp
      next
        case (Cons w ws)
        with Cons.prems True have "filter P xs = ws @ y # vs" and "x = w" by simp_all
        from Cons.IH [OF this(1)] obtain u v
          where "xs = u @ y # v" "filter P u = ws" "filter P v = vs" "P y" by blast
        with True Cons \<open>x = w\<close> show ?thesis by (intro exI [of _ "x # u"] exI [of _ v]) simp
      qed
    qed
  qed simp
  then show thesis using that by blast
qed

lemma insert_position:
  assumes f: "filter P res = L @ T" and d: "distinct (map getID (L @ T))"
    and P: "\<And>x. P x \<longleftrightarrow> getID x \<notin> D" and D: "getID ` set L \<inter> D = {}"
    and ne: "[] \<notin> getID ` set L"
  obtains n where "after_pos res getID (anchor getID L) + 1 = int n"
    "filter P (take n res) = L" "filter P (drop n res) = T"
proof (cases "L = []")
  case True
  with f show thesis using that [of 0] by (simp add: anchor_def after_pos_def)
next
  case False
  define a where "a = last L"
  have L: "L = butlast L @ [a]" using False by (simp add: a_def)
  from f L have "filter P res = butlast L @ a # T" by (metis append.assoc append_Cons append_Nil)
  then obtain u v where uv: "res = u @ a # v" "filter P u = butlast L" "filter P v = T" "P a"
    by (rule filter_splitE)
  have "getID x \<noteq> getID a" if "x \<in> set u" for x
  proof
    assume eq: "getID x = getID a"
    have "P x" using P [of x] P [of a] uv(4) eq by metis
    with that have "x \<in> set (filter P u)" by simp
    with uv(2) have "x \<in> set (butlast L)" by simp
    then have "getID a \<in> getID ` set (butlast L)" using eq by (metis image_eqI)
    moreover have "distinct (map getID (butlast L @ [a]))"
      using d L by (metis distinct_append map_append)
    ultimately show False by simp
  qed
  then have "findPos res getID (getID a) = int (length u)"
    unfolding findPos_def uv(1) by (subst find_from_split) (auto simp: list_ex_iff)
  moreover have "getID a \<noteq> []" using ne False by (metis a_def last_in_set imageI)
  ultimately show thesis
    using that [of "Suc (length u)"] uv(1-4) False
    by (simp add: anchor_def after_pos_def flip: a_def) (simp add: a_def)
qed

subsection \<open>One change applied\<close>

text \<open>
  The invariant of the patched slice: without the ids that still have to be moved or removed it is
  the part of the new slice produced so far followed by the kept items to come.
\<close>

definition patched :: "('a \<Rightarrow> string) \<Rightarrow> 'a list \<Rightarrow> 'a list \<Rightarrow> 'a list \<Rightarrow> string set \<Rightarrow> bool" where
  "patched getID res L T D \<longleftrightarrow> filter (\<lambda>x. getID x \<notin> D) res = L @ T \<and>
     distinct (map getID (L @ T)) \<and> [] \<notin> getID ` set L"

lemma patched_disjoint: "patched getID res L T D \<Longrightarrow> getID ` set (L @ T) \<inter> D = {}"
proof -
  assume "patched getID res L T D"
  then have "set (L @ T) = set (filter (\<lambda>x. getID x \<notin> D) res)" by (simp add: patched_def)
  then show "getID ` set (L @ T) \<inter> D = {}" by auto
qed

lemma patched_position:
  assumes "patched getID res L T D"
  obtains n where "after_pos res getID (anchor getID L) + 1 = int n"
    "filter (\<lambda>x. getID x \<notin> D) (take n res) = L" "filter (\<lambda>x. getID x \<notin> D) (drop n res) = T"
  using insert_position [of "\<lambda>x. getID x \<notin> D" res L T getID D thesis] patched_disjoint [OF assms] assms
  unfolding patched_def by auto

lemma apply_add:
  assumes i: "patched getID res L T D" and d: "distinct (map getID (L @ items @ T))"
    and D: "getID ` set items \<inter> D = {}" and ne: "[] \<notin> getID ` set items"
  shows "\<exists>res'. apply_change getID (ChangeAdd items (anchor getID L)) (res, im) = Some (res', im) \<and>
           patched getID res' (L @ items) T D"
proof -
  obtain n where n: "after_pos res getID (anchor getID L) + 1 = int n"
    "filter (\<lambda>x. getID x \<notin> D) (take n res) = L" "filter (\<lambda>x. getID x \<notin> D) (drop n res) = T"
    using i by (rule patched_position)
  have f: "filter (\<lambda>x. getID x \<notin> D) items = items" using D by (auto intro: filter_True)
  show ?thesis
    using i d ne by (auto simp: Let_def n f patched_def)
qed

lemma apply_move:
  assumes i: "patched getID res L T (D \<union> getID ` set M)" and d: "distinct (map getID (L @ M @ T))"
    and D: "getID ` set M \<inter> D = {}" and ne: "[] \<notin> getID ` set M"
    and im: "\<And>x. x \<in> set M \<Longrightarrow> map_of im (getID x) = Some x"
  shows "\<exists>res'. apply_change getID (ChangeMove (map getID M) (anchor getID L)) (res, im) = Some (res', im) \<and>
           patched getID res' (L @ M) T D"
proof -
  define r where "r = FilterMut res (\<lambda>x. FindPos (map getID M) (getID x) < 0)"
  have "filter (\<lambda>x. getID x \<notin> D) r = filter (\<lambda>x. getID x \<notin> D \<union> getID ` set M) res"
    by (auto simp: r_def FilterMut_def intro: filter_cong)
  then have "patched getID r L T D" using i by (simp add: patched_def)
  then obtain n where n: "after_pos r getID (anchor getID L) + 1 = int n"
    "filter (\<lambda>x. getID x \<notin> D) (take n r) = L" "filter (\<lambda>x. getID x \<notin> D) (drop n r) = T"
    by (rule patched_position)
  have M: "List.map_filter (map_of im) (map getID M) = M"
    using im by (induction M) (auto simp: List.map_filter_def)
  have f: "filter (\<lambda>x. getID x \<notin> D) M = M" using D by (auto intro: filter_True)
  show ?thesis
    using i d ne M by (simp add: Let_def n f patched_def image_Un flip: r_def del: FindPos_neg)
qed

subsection \<open>The items of a hunk\<close>

text \<open>
  While a hunk is processed one change is being collected: it has not been applied to the slice
  yet, and \<open>L\<close> already counts its items as produced.
\<close>

fun pend :: "('a \<Rightarrow> string) \<Rightarrow> (string \<times> 'a) list \<Rightarrow> 'a list \<Rightarrow> 'a change \<Rightarrow> 'a list \<Rightarrow> 'a list \<Rightarrow>
    string set \<Rightarrow> bool" where
  "pend getID im res NoChange L T D = patched getID res L T D"
| "pend getID im res (ChangeAdd items af) L T D =
     (items \<noteq> [] \<and> (\<exists>K. L = K @ items \<and> af = anchor getID K \<and> patched getID res K T D))"
| "pend getID im res (ChangeMove ids af) L T D =
     (ids \<noteq> [] \<and> (\<exists>K M. L = K @ M \<and> ids = map getID M \<and> af = anchor getID K \<and>
        patched getID res K T (D \<union> getID ` set M) \<and> (\<forall>x\<in>set M. map_of im (getID x) = Some x)))"
| "pend getID im res _ L T D = False"

definition produced :: "('a \<Rightarrow> string) \<Rightarrow> 'a list \<Rightarrow> 'a list \<Rightarrow> string set \<Rightarrow> bool" where
  "produced getID L T D \<longleftrightarrow> distinct (map getID (L @ T)) \<and> [] \<notin> getID ` set L \<and> getID ` set L \<inter> D = {}"

lemma pend_Len: "pend getID im res ch L T D \<Longrightarrow> change_Len ch = 0 \<Longrightarrow> ch = NoChange"
  by (cases ch) auto

lemma flush:
  assumes "pend getID im res ch L T D" "produced getID L T D"
  shows "\<exists>res'. apply_change getID ch (res, im) = Some (res', im) \<and> patched getID res' L T D"
proof (cases ch)
  case (ChangeAdd items af)
  with assms obtain K where "L = K @ items" "af = anchor getID K" "patched getID res K T D" by auto
  with assms(2) ChangeAdd show ?thesis
    using apply_add [of getID res K T D items im] by (auto simp: produced_def image_Un Int_Un_distrib2)
next
  case (ChangeMove ids af)
  with assms obtain K M where "L = K @ M" "ids = map getID M" "af = anchor getID K"
    "patched getID res K T (D \<union> getID ` set M)" "\<forall>x\<in>set M. map_of im (getID x) = Some x" by auto
  with assms(2) ChangeMove show ?thesis
    using apply_move [of getID res K T D M im] by (auto simp: produced_def image_Un Int_Un_distrib2)
qed (use assms in auto)

lemma apply_loop_append:
  "apply_loop getID (xs @ ys) st = (case apply_loop getID xs st of None \<Rightarrow> None | Some st' \<Rightarrow> apply_loop getID ys st')"
  by (induction xs arbitrary: st) (auto split: option.splits)

definition collected :: "('a \<Rightarrow> string) \<Rightarrow> 'a apply_state \<Rightarrow> (string \<times> 'a) list \<Rightarrow> 'a list \<Rightarrow> 'a list \<Rightarrow>
    'a diff_state \<Rightarrow> bool" where
  "collected getID st im L T = (\<lambda>(result, oneCh, dels, afterID).
     (\<exists>res. apply_loop getID result st = Some (res, im) \<and> pend getID im res oneCh L T (set dels)) \<and>
     afterID = anchor getID L \<and> produced getID L T (set dels))"

lemma flushed:
  assumes "collected getID st im L T (result, oneCh, dels, afterID)"
  shows "\<exists>res. apply_loop getID (if change_Len oneCh > 0 then result @ [oneCh] else result) st = Some (res, im) \<and>
           patched getID res L T (set dels)"
proof -
  from assms obtain res where res: "apply_loop getID result st = Some (res, im)"
    and p: "pend getID im res oneCh L T (set dels)" "produced getID L T (set dels)"
    by (auto simp: collected_def)
  from flush [OF p] obtain res' where "apply_change getID oneCh (res, im) = Some (res', im)"
    "patched getID res' L T (set dels)" by blast
  with res show ?thesis using pend_Len [OF p(1)] by (auto simp: apply_loop_append)
qed

lemma insert_item_collected:
  assumes c: "collected getID st im L T (result, oneCh, dels, afterID)"
    and d: "distinct (map getID (L @ it # T))" and ne: "getID it \<noteq> []"
    and im: "getID it \<in> set dels \<Longrightarrow> map_of im (getID it) = Some it"
  shows "collected getID st im (L @ [it]) T (insert_item getID it (result, oneCh, dels, afterID))"
proof -
  let ?flushed = "if change_Len oneCh > 0 then result @ [oneCh] else result"
  from flushed [OF c] obtain res' where fl: "apply_loop getID ?flushed st = Some (res', im)"
    "patched getID res' L T (set dels)" by blast
  from c obtain res where res: "apply_loop getID result st = Some (res, im)"
    and p: "pend getID im res oneCh L T (set dels)" and af: "afterID = anchor getID L"
    and pr: "produced getID L T (set dels)" by (auto simp: collected_def)
  have pr1: "produced getID (L @ [it]) T (set dels - {getID it})"
    using d ne pr by (auto simp: produced_def)
  have an: "anchor getID (L @ [it]) = getID it" by (simp add: anchor_def)
  show ?thesis
  proof (cases "getID it \<in> set dels")
    case True
    then have ins: "insert (getID it) (set dels - {getID it}) = set dels" by auto
    have new: "pend getID im res' (ChangeMove [getID it] afterID) (L @ [it]) T (set dels - {getID it})"
      using fl(2) af im [OF True] True by (simp add: ins) (rule exI [of _ L], rule exI [of _ "[it]"], simp add: ins insert_absorb)
    have old: "pend getID im res (ChangeMove (ids @ [getID it]) af') (L @ [it]) T (set dels - {getID it})"
      if "oneCh = ChangeMove ids af'" for ids af'
    proof -
      from p that obtain K M where K: "L = K @ M" "ids = map getID M" "af' = anchor getID K"
        "patched getID res K T (set dels \<union> getID ` set M)" "\<forall>x\<in>set M. map_of im (getID x) = Some x" by auto
      have "set dels - {getID it} \<union> getID ` set (M @ [it]) = set dels \<union> getID ` set M" using True by auto
      with K im [OF True] show ?thesis
        by simp (rule exI [of _ K], rule exI [of _ "M @ [it]"], auto)
    qed
    from True new old fl(1) res pr1 an show ?thesis
      by (cases oneCh) (auto simp: Let_def collected_def simp del: pend.simps)
  next
    case False
    have pr2: "produced getID (L @ [it]) T (set dels)" using pr1 False by simp
    have new: "pend getID im res' (ChangeAdd [it] afterID) (L @ [it]) T (set dels)"
      using fl(2) af by auto
    have old: "pend getID im res (ChangeAdd (items @ [it]) af') (L @ [it]) T (set dels)"
      if "oneCh = ChangeAdd items af'" for items af' using p that by auto
    from False new old fl(1) res pr2 an show ?thesis
      by (cases oneCh) (auto simp: Let_def collected_def simp del: pend.simps)
  qed
qed

lemma insert_items_collected:
  assumes "collected getID st im L T s" "distinct (map getID (L @ its @ T))" "[] \<notin> getID ` set its"
    and "\<And>it. it \<in> set its \<Longrightarrow> getID it \<in> D \<Longrightarrow> map_of im (getID it) = Some it"
    and "set (fst (snd (snd s))) \<subseteq> D"
  shows "collected getID st im (L @ its) T (fold (insert_item getID) its s) \<and>
     set (fst (snd (snd (fold (insert_item getID) its s)))) \<subseteq> D"
  using assms
proof (induction its arbitrary: L s)
  case (Cons it its)
  obtain result oneCh dels afterID where s: "s = (result, oneCh, dels, afterID)" by (cases s)
  have "collected getID st im (L @ [it]) T (insert_item getID it s)"
    using Cons.prems unfolding s by (intro insert_item_collected) auto
  moreover have "set (fst (snd (snd (insert_item getID it s)))) \<subseteq> D"
    using Cons.prems(5) unfolding s by (cases oneCh) (auto simp: Let_def)
  ultimately show ?case
    using Cons.IH [of "L @ [it]" "insert_item getID it s"] Cons.prems(2-4) by simp
qed simp

text \<open>The whole hunk, started with the anchor that the code reads from the old slice.\<close>

lemma diff_hunk_patched:
  assumes r: "apply_loop getID result st = Some (res, im)" "patched getID res (take (hB c) B) T (set dels)"
    and an: "(if hA c > 0 then getID (A ! (hA c - 1)) else []) = anchor getID (take (hB c) B)"
    and d: "distinct (map getID (take (hB c + hIns c) B @ T))" and ne: "[] \<notin> getID ` set B"
    and im: "\<And>b. b \<in> set B \<Longrightarrow> getID b \<in> set dels \<Longrightarrow> map_of im (getID b) = Some b"
  obtains result' res' dels' where "diff_hunk getID A B c (result, dels) = (result', dels')"
    "apply_loop getID result' st = Some (res', im)"
    "patched getID res' (take (hB c + hIns c) B) T (set dels')" "set dels' \<subseteq> set dels"
proof (cases "hIns c \<le> 0")
  case True
  with r show thesis using that [of result dels res] by (simp add: diff_hunk_def)
next
  case False
  define its where "its = take (hIns c) (drop (hB c) B)"
  define s where "s = (result, NoChange :: 'a change, dels, if hA c > 0 then getID (A ! (hA c - 1)) else [])"
  have app: "take (hB c + hIns c) B = take (hB c) B @ its" by (simp add: its_def take_add)
  have sub: "set its \<subseteq> set B" by (metis its_def in_set_dropD in_set_takeD subsetI)
  have "produced getID (take (hB c) B) T (set dels)"
    using r(2) patched_disjoint [OF r(2)] by (auto simp: produced_def patched_def)
  then have "collected getID st im (take (hB c) B) T s"
    using r an by (auto simp: collected_def s_def)
  moreover have "[] \<notin> getID ` set its" using ne sub by (meson image_mono subsetD)
  ultimately have c: "collected getID st im (take (hB c) B @ its) T (fold (insert_item getID) its s)"
    "set (fst (snd (snd (fold (insert_item getID) its s)))) \<subseteq> set dels"
    using insert_items_collected [of getID st im "take (hB c) B" T s its "set dels"] d im subsetD [OF sub]
    by (simp_all add: app) (simp_all add: s_def)
  obtain result1 oneCh dels1 af1 where f: "fold (insert_item getID) its s = (result1, oneCh, dels1, af1)"
    by (cases "fold (insert_item getID) its s")
  from flushed [OF c(1) [unfolded f]] obtain res1 where
    "apply_loop getID (if change_Len oneCh > 0 then result1 @ [oneCh] else result1) st = Some (res1, im)"
    "patched getID res1 (take (hB c + hIns c) B) T (set dels1)" by (auto simp: app)
  moreover have "diff_hunk getID A B c (result, dels) =
      (if change_Len oneCh > 0 then result1 @ [oneCh] else result1, dels1)"
    using f False by (simp add: diff_hunk_def flip: its_def s_def)
  ultimately show thesis using that c(2) f by simp
qed

subsection \<open>All hunks\<close>

definition dset :: "string list \<Rightarrow> hunk list \<Rightarrow> string set" where
  "dset A hs = (\<Union>h\<in>set hs. set (take (hDel h) (drop (hA h) A)))"

lemma dset_Nil [simp]: "dset A [] = {}"
  and dset_Cons [simp]: "dset A (h # hs) = set (take (hDel h) (drop (hA h) A)) \<union> dset A hs"
  by (simp_all add: dset_def)

lemma set_delMap: "set (delMap getID A hs) = dset (map getID A) hs"
  by (auto simp: delMap_def dset_def take_map drop_map)

lemma set_drop_mono: "i \<le> j \<Longrightarrow> set (drop j xs) \<subseteq> set (drop i xs)"
  by (rule set_drop_subset_set_drop) 

lemma edit_from_dset: "edit_from A B fr i j hs \<Longrightarrow> dset A hs \<subseteq> set (drop i A)"
proof (induction hs arbitrary: fr i j)
  case (Cons h hs)
  have "dset A hs \<subseteq> set (drop (hA h + hDel h) A)" using Cons by auto
  also have "\<dots> \<subseteq> set (drop i A)" using Cons.prems by (intro set_drop_mono) auto
  finally have "dset A hs \<subseteq> set (drop i A)" .
  moreover have "set (take (hDel h) (drop (hA h) A)) \<subseteq> set (drop i A)"
    using set_take_subset set_drop_mono [of i "hA h" A] Cons.prems by fastforce
  ultimately show ?case by simp
qed simp

lemma drop_three:
  "i \<le> a \<Longrightarrow> drop i xs = take (a - i) (drop i xs) @ take n (drop a xs) @ drop (a + n) xs"
proof -
  assume "i \<le> a"
  then have "drop i xs = take (a - i) (drop i xs) @ drop a xs"
    by (metis append_take_drop_id drop_drop le_add_diff_inverse2)
  also have "drop a xs = take n (drop a xs) @ drop (a + n) xs"
    by (metis append_take_drop_id drop_drop add.commute)
  finally show ?thesis .
qed

text \<open>What is kept of the old slice from a hunk on, and where its items occur in the new one.\<close>

lemma kept_split:
  fixes getID :: "'a \<Rightarrow> string"
  assumes e: "edit_from (map getID A) (map getID B) fr i j (h # hs)"
    and d: "distinct (map getID A)"
    and D: "\<And>x. x \<in> set (drop i A) \<Longrightarrow> getID x \<in> D \<longleftrightarrow> getID x \<in> dset (map getID A) (h # hs)"
  shows "[x \<leftarrow> drop i A. getID x \<notin> D] = take (hA h - i) (drop i A) @ [x \<leftarrow> drop (hA h + hDel h) A. getID x \<notin> D]"
    and "\<And>x. x \<in> set (drop (hA h + hDel h) A) \<Longrightarrow> getID x \<in> D \<longleftrightarrow> getID x \<in> dset (map getID A) hs"
proof -
  define seg del rest where "seg = take (hA h - i) (drop i A)" and "del = take (hDel h) (drop (hA h) A)"
    and "rest = drop (hA h + hDel h) A"
  have split: "drop i A = seg @ del @ rest"
    unfolding seg_def del_def rest_def using e by (intro drop_three) simp
  have "distinct (map getID (drop i A))" using d by (metis distinct_drop drop_map)
  then have dd: "getID ` set seg \<inter> getID ` set del = {}" "getID ` set seg \<inter> getID ` set rest = {}"
    "getID ` set del \<inter> getID ` set rest = {}"
    unfolding split by auto
  have del: "set (take (hDel h) (drop (hA h) (map getID A))) = getID ` set del"
    by (simp add: del_def take_map drop_map)
  have "dset (map getID A) hs \<subseteq> set (drop (hA h + hDel h) (map getID A))"
    using e by (intro edit_from_dset [where fr = False]) auto
  then have ds: "dset (map getID A) hs \<subseteq> getID ` set rest" by (simp add: rest_def drop_map)
  have *: "getID x \<in> D \<longleftrightarrow> getID x \<in> getID ` set del \<or> getID x \<in> dset (map getID A) hs"
    if "x \<in> set (seg @ del @ rest)" for x
    using D [of x] that unfolding split dset_Cons del by blast
  have "filter (\<lambda>x. getID x \<notin> D) seg = seg" using * dd ds by (intro filter_True) fastforce
  moreover have "filter (\<lambda>x. getID x \<notin> D) del = []" using * by (auto simp: filter_empty_conv)
  ultimately have "[x \<leftarrow> drop i A. getID x \<notin> D] = seg @ [x \<leftarrow> rest. getID x \<notin> D]"
    unfolding split by simp
  then show "[x \<leftarrow> drop i A. getID x \<notin> D] = take (hA h - i) (drop i A) @ [x \<leftarrow> drop (hA h + hDel h) A. getID x \<notin> D]"
    unfolding seg_def rest_def .
  show "getID x \<in> D \<longleftrightarrow> getID x \<in> dset (map getID A) hs" if "x \<in> set (drop (hA h + hDel h) A)" for x
    using * [of x] that dd unfolding rest_def [symmetric] by auto
qed

lemma same_items:
  fixes getID :: "'a \<Rightarrow> string"
  assumes "map getID xs = map getID ys" "\<And>x y. x \<in> set xs \<Longrightarrow> y \<in> set ys \<Longrightarrow> getID x = getID y \<Longrightarrow> x = y"
  shows "xs = ys"
  using assms by (induction xs ys rule: list_induct2') auto

lemma segment_items:
  fixes getID :: "'a \<Rightarrow> string"
  assumes "take n (drop i (map getID A)) = take m (drop j (map getID B))"
    and "\<And>a b. a \<in> set A \<Longrightarrow> b \<in> set B \<Longrightarrow> getID a = getID b \<Longrightarrow> a = b"
  shows "take n (drop i A) = take m (drop j B)"
proof (rule same_items)
  show "map getID (take n (drop i A)) = map getID (take m (drop j B))"
    using assms(1) by (simp add: take_map drop_map)
  show "x = y" if "x \<in> set (take n (drop i A))" "y \<in> set (take m (drop j B))" "getID x = getID y" for x y
    using that assms(2) [of x y] by (meson in_set_dropD in_set_takeD)
qed

lemma kept_subset:
  fixes getID :: "'a \<Rightarrow> string"
  assumes "edit_from (map getID A) (map getID B) fr i j hs" "distinct (map getID A)"
    and "\<And>x. x \<in> set (drop i A) \<Longrightarrow> getID x \<in> D \<longleftrightarrow> getID x \<in> dset (map getID A) hs"
    and "\<And>a b. a \<in> set A \<Longrightarrow> b \<in> set B \<Longrightarrow> getID a = getID b \<Longrightarrow> a = b"
  shows "set [x \<leftarrow> drop i A. getID x \<notin> D] \<subseteq> set (drop j B)"
  using assms
proof (induction hs arbitrary: fr i j)
  case Nil
  have "drop i A = drop j B"
    using segment_items [of "length A" i getID A "length B" j B] Nil.prems by (simp add: drop_map)
  then show ?case by auto
next
  case (Cons h hs)
  note sp = kept_split [OF Cons.prems(1-3)]
  have "set [x \<leftarrow> drop (hA h + hDel h) A. getID x \<notin> D] \<subseteq> set (drop (hB h + hIns h) B)"
    using Cons.IH [of False "hA h + hDel h" "hB h + hIns h"] Cons.prems(1,2,4) sp(2) by simp
  also have "\<dots> \<subseteq> set (drop j B)" using Cons.prems(1) by (intro set_drop_mono) auto
  finally have "set [x \<leftarrow> drop (hA h + hDel h) A. getID x \<notin> D] \<subseteq> set (drop j B)" .
  moreover have "take (hA h - i) (drop i A) = take (hB h - j) (drop j B)"
    using Cons.prems(1,4) by (intro segment_items [where getID = getID]) auto
  then have "set (take (hA h - i) (drop i A)) \<subseteq> set (drop j B)" by (metis set_take_subset)
  ultimately have "set (take (hA h - i) (drop i A) @ [x \<leftarrow> drop (hA h + hDel h) A. getID x \<notin> D]) \<subseteq> set (drop j B)"
    by (metis Un_least set_append)
  then show ?case using sp(1) by metis
qed

lemma hunk_anchor:
  fixes getID :: "'a \<Rightarrow> string"
  assumes e: "edit_from (map getID A) (map getID B) fr i j (h # hs)" and fr: "fr \<Longrightarrow> i = 0 \<and> j = 0"
  shows "(if hA h > 0 then getID (A ! (hA h - 1)) else []) = anchor getID (take (hB h) B)"
proof (cases "hA h > 0")
  case True
  then have lt: "i < hA h" using e fr by auto
  define n where "n = hA h - i - 1"
  have n: "n < hA h - i" "i + n = hA h - 1" "hA h - i = hB h - j" "j + n = hB h - 1" "0 < hB h" "hB h \<le> length B"
    "hA h \<le> length A"
    using e lt by (auto simp: n_def)
  have "take (hA h - i) (drop i (map getID A)) ! n = take (hB h - j) (drop j (map getID B)) ! n"
    using e by (metis edit_from.simps(2))
  then have "getID (A ! (hA h - 1)) = getID (B ! (hB h - 1))" using n by simp
  moreover have "last (take (hB h) B) = B ! (hB h - 1)"
    using n(5,6) by (subst last_conv_nth) auto
  ultimately show ?thesis using True n by (auto simp: anchor_def)
next
  case False
  then show ?thesis using e fr by (auto simp: anchor_def)
qed

lemma hunks_patched:
  fixes getID :: "'a \<Rightarrow> string"
  assumes "edit_from (map getID A) (map getID B) fr i j hs" "fr \<Longrightarrow> i = 0 \<and> j = 0" "map getID A0 = map getID A"
    and d: "distinct (map getID A)" "distinct (map getID B)" and ne: "[] \<notin> getID ` set B"
    and im: "\<And>b. b \<in> set B \<Longrightarrow> getID b \<in> set dels \<Longrightarrow> map_of im (getID b) = Some b"
    and same: "\<And>a b. a \<in> set A \<Longrightarrow> b \<in> set B \<Longrightarrow> getID a = getID b \<Longrightarrow> a = b"
    and "\<And>x. x \<in> set (drop i A) \<Longrightarrow> getID x \<in> D \<longleftrightarrow> getID x \<in> dset (map getID A) hs"
    and "apply_loop getID result st = Some (res, im)"
    and "patched getID res (take j B) [x \<leftarrow> drop i A. getID x \<notin> D] (set dels)"
  shows "\<exists>result' dels' res'. fold (diff_hunk getID A0 B) hs (result, dels) = (result', dels') \<and>
     apply_loop getID result' st = Some (res', im) \<and> [x \<leftarrow> res'. getID x \<notin> set dels'] = B"
  using assms
proof (induction hs arbitrary: fr i j result dels res)
  case Nil
  have "drop i A = drop j B"
    using segment_items [of "length A" i getID A "length B" j B] Nil.prems by (simp add: drop_map)
  moreover have "[x \<leftarrow> drop i A. getID x \<notin> D] = drop i A" using Nil.prems(9) by (auto intro: filter_True)
  ultimately have "[x \<leftarrow> res. getID x \<notin> set dels] = B" using Nil.prems(11) by (simp add: patched_def)
  with Nil.prems(10) show ?case by auto
next
  case (Cons h hs)
  note e = Cons.prems(1) and sp = kept_split [OF Cons.prems(1,4,9)]
  let ?T = "[x \<leftarrow> drop (hA h + hDel h) A. getID x \<notin> D]"
  have seg: "take (hA h - i) (drop i A) = take (hB h - j) (drop j B)"
    using e same by (intro segment_items [where getID = getID]) auto
  have tk: "take j B @ take (hB h - j) (drop j B) = take (hB h) B"
    using e by (metis edit_from.simps(2) le_add_diff_inverse take_add)
  have "[] \<notin> getID ` set (take (hB h) B)" using ne by (meson image_mono set_take_subset subsetD)
  then have p: "patched getID res (take (hB h) B) ?T (set dels)"
    using Cons.prems(11) sp(1) seg tk unfolding patched_def by (metis append_assoc)
  have "set ?T \<subseteq> set (drop (hB h + hIns h) B)"
    using kept_subset [of getID A B False "hA h + hDel h" "hB h + hIns h" hs D] e d(1) sp(2) same by simp
  moreover have "distinct (map getID (take (hB h + hIns h) B @ drop (hB h + hIns h) B))" using d(2) by simp
  moreover have "distinct (map getID ?T)" using d(1) by (metis distinct_map_filter distinct_drop drop_map)
  ultimately have dT: "distinct (map getID (take (hB h + hIns h) B @ ?T))"
    unfolding map_append distinct_append set_map by blast
  have len: "length A0 = length A" using Cons.prems(3) by (metis length_map)
  have "(if hA h > 0 then getID (A0 ! (hA h - 1)) else []) = anchor getID (take (hB h) B)"
    using hunk_anchor [of getID A0 B fr i j h hs] e Cons.prems(2,3) by metis
  from diff_hunk_patched [OF Cons.prems(10) p this dT ne Cons.prems(7)]
  obtain result' res' dels' where n: "diff_hunk getID A0 B h (result, dels) = (result', dels')"
    "apply_loop getID result' st = Some (res', im)"
    "patched getID res' (take (hB h + hIns h) B) ?T (set dels')" "set dels' \<subseteq> set dels" by metis
  have im': "map_of im (getID b) = Some b" if "b \<in> set B" "getID b \<in> set dels'" for b
    using Cons.prems(7) that n(4) by blast
  have e': "edit_from (map getID A) (map getID B) False (hA h + hDel h) (hB h + hIns h) hs" using e by simp
  have "\<exists>result'' dels'' res''. fold (diff_hunk getID A0 B) hs (result', dels') = (result'', dels'') \<and>
     apply_loop getID result'' st = Some (res'', im) \<and> [x \<leftarrow> res''. getID x \<notin> set dels''] = B"
    by (rule Cons.IH [OF e' _ Cons.prems(3) d ne im' same sp(2) n(2,3)]) simp_all
  then show ?case by (simp only: fold_Cons comp_def n(1))
qed

subsection \<open>Replacements\<close>

text \<open>The version of an old item that the new slice has, when it has one.\<close>

definition version :: "('a \<Rightarrow> string) \<Rightarrow> 'a list \<Rightarrow> 'a \<Rightarrow> 'a" where
  "version getID B a = (case map_of (rev (map (\<lambda>c. (getID c, c)) B)) (getID a) of None \<Rightarrow> a | Some v \<Rightarrow> v)"

lemma map_of_ids:
  "map_of (rev (map (\<lambda>c. (getID c, c)) B)) k = Some v \<Longrightarrow> v \<in> set B \<and> getID v = k"
  by (auto dest!: map_of_SomeD)

lemma map_of_ids_distinct:
  "distinct (map getID B) \<Longrightarrow> b \<in> set B \<Longrightarrow> map_of (rev (map (\<lambda>c. (getID c, c)) B)) (getID b) = Some b"
  by (rule map_of_is_SomeI) (auto simp: rev_map [symmetric] comp_def simp flip: rev_map)

lemma getID_version [simp]: "getID (version getID B a) = getID a"
  by (auto simp: version_def split: option.split dest: map_of_ids)

lemma version_same:
  "distinct (map getID B) \<Longrightarrow> b \<in> set B \<Longrightarrow> getID (version getID B a) = getID b \<Longrightarrow> version getID B a = b"
proof -
  assume B: "distinct (map getID B)" "b \<in> set B" and "getID (version getID B a) = getID b"
  then have "getID a = getID b" by simp
  with map_of_ids_distinct [OF B] show "version getID B a = b" by (simp add: version_def)
qed

lemma apply_replace:
  assumes "distinct (map getID (xs @ a # ys))" "getID v = getID a"
  shows "apply_change getID (ChangeReplace v (getID a)) (xs @ a # ys, im) = Some (xs @ v # ys, put (getID a) v im)"
proof -
  have "findPos (xs @ a # ys) getID (getID a) = int (length xs)"
    unfolding findPos_def using assms(1) by (subst find_from_split) (auto simp: list_ex_iff rev_image_eqI)
  then show ?thesis by (simp add: Let_def)
qed

lemma apply_replaces:
  assumes "distinct (map getID (dn @ rest))"
    and "\<And>a b. a \<in> set rest \<Longrightarrow> b \<in> set B \<Longrightarrow> equal a b \<Longrightarrow> a = b"
    and "\<And>a. a \<in> set rest \<Longrightarrow> map_of im (getID a) = Some a"
  shows "\<exists>im'. apply_loop getID (replaces getID equal rest B) (dn @ rest, im) =
       Some (dn @ map (version getID B) rest, im') \<and>
     (\<forall>a\<in>set rest. map_of im' (getID a) = Some (version getID B a)) \<and>
     (\<forall>k. k \<notin> getID ` set rest \<longrightarrow> map_of im' k = map_of im k)"
  using assms
proof (induction rest arbitrary: dn im)
  case Nil
  then show ?case by (simp add: replaces_def)
next
  case (Cons a rest)
  let ?v = "version getID B a"
  define one where "one = (case map_of (rev (map (\<lambda>c. (getID c, c)) B)) (getID a) of None \<Rightarrow> []
    | Some v \<Rightarrow> if \<not> equal a v then [ChangeReplace v (getID a)] else [])"
  have "\<exists>im1. apply_loop getID one (dn @ a # rest, im) = Some (dn @ ?v # rest, im1) \<and>
     map_of im1 = (map_of im)(getID a \<mapsto> ?v)"
  proof (cases "one = []")
    case True
    then have "?v = a" using Cons.prems(2) [of a]
      by (auto simp: one_def version_def split: option.splits if_splits dest: map_of_ids)
    with True show ?thesis using Cons.prems(3) [of a] by (auto simp: fun_upd_idem)
  next
    case False
    then have "one = [ChangeReplace ?v (getID a)]"
      by (auto simp: one_def version_def split: option.splits if_splits)
    then show ?thesis using apply_replace [of getID dn a rest ?v im] Cons.prems(1) by simp
  qed
  then obtain im1 where im1: "apply_loop getID one (dn @ a # rest, im) = Some (dn @ ?v # rest, im1)"
    "map_of im1 = (map_of im)(getID a \<mapsto> ?v)" by blast
  have "\<exists>im'. apply_loop getID (replaces getID equal rest B) ((dn @ [?v]) @ rest, im1) =
       Some ((dn @ [?v]) @ map (version getID B) rest, im') \<and>
     (\<forall>a\<in>set rest. map_of im' (getID a) = Some (version getID B a)) \<and>
     (\<forall>k. k \<notin> getID ` set rest \<longrightarrow> map_of im' k = map_of im1 k)"
    using Cons.prems by (intro Cons.IH) (auto simp: im1(2) rev_image_eqI)
  moreover have "replaces getID equal (a # rest) B = one @ replaces getID equal rest B"
    by (simp add: replaces_def one_def Let_def)
  moreover have "getID a \<notin> getID ` set rest" using Cons.prems(1) by simp
  ultimately show ?case using im1 by (auto simp: apply_loop_append)
qed

subsection \<open>Round trip\<close>

lemma items_map:
  "distinct (map getID xs) \<Longrightarrow> a \<in> set xs \<Longrightarrow> map_of (fold (\<lambda>it. put (getID it) it) xs m) (getID a) = Some a"
proof (induction xs arbitrary: m)
  case (Cons x xs)
  have "k \<notin> getID ` set xs \<Longrightarrow> map_of (fold (\<lambda>it. put (getID it) it) xs m) k = map_of m k" for k m
    by (induction xs arbitrary: m) auto
  with Cons show ?case by auto
qed simp

lemma replaces_part:
  assumes "\<And>x. x \<in> set origin \<Longrightarrow> getID x \<in> getID ` set B \<Longrightarrow> P x"
  shows "replaces getID equal origin B = replaces getID equal (filter P origin) B"
  using assms
proof (induction origin)
  case (Cons x xs)
  then have IH: "replaces getID equal xs B = replaces getID equal (filter P xs) B" by simp
  show ?case
  proof (cases "P x")
    case True
    with IH show ?thesis by (simp add: replaces_def Let_def)
  next
    case False
    then have "getID x \<notin> getID ` set B" using Cons.prems [of x] by auto
    then have "map_of (rev (map (\<lambda>c. (getID c, c)) B)) (getID x) = None" by (simp add: map_of_eq_None_iff image_image)
    with IH False show ?thesis by (simp add: replaces_def Let_def)
  qed
qed (simp add: replaces_def)

text \<open>
  Items that the new slice does not have may be missing already when the changes are applied: the
  result is the same.
\<close>

lemma Diff_ApplyChanges_part:
  assumes u: "uniq_doc uniq" and e: "edit_doc edit getID"
    and d: "distinct (map getID origin)" and ne: "[] \<notin> getID ` set changed"
    and eq: "\<forall>x\<in>set origin. \<forall>y\<in>set changed. equal x y \<longrightarrow> x = y"
    and P: "\<And>x. x \<in> set origin \<Longrightarrow> getID x \<in> getID ` set changed \<Longrightarrow> P x"
  shows "ApplyChanges uniq (filter P origin) (Diff uniq edit origin changed getID equal) getID = Some (uniq getID changed)"
proof -
  define B where "B = uniq getID changed"
  define hs where "hs = edit (length origin) (length B) (MixedInput_Equal getID origin B)"
  define A where "A = map (version getID B) origin"
  define part where "part = filter P origin"
  define im where "im = fold (\<lambda>it. put (getID it) it) part []"
  have B: "distinct (map getID B)" "getID ` set B = getID ` set changed" "set B \<subseteq> set changed"
    using u by (auto simp: uniq_doc_def B_def)
  have dp: "distinct (map getID part)" using d by (simp add: part_def distinct_map_filter)
  have o: "uniq getID origin = origin" "uniq getID part = part" using u d dp by (simp_all add: uniq_doc_def)
  have ids: "map getID A = map getID origin" by (simp add: A_def)
  have rep: "replaces getID equal origin B = replaces getID equal part B"
    unfolding part_def by (rule replaces_part) (use P B(2) in blast)
  obtain im' where im': "apply_loop getID (replaces getID equal origin B) (part, im) = Some (map (version getID B) part, im')"
    "\<And>a. a \<in> set part \<Longrightarrow> map_of im' (getID a) = Some (version getID B a)"
  proof -
    have "\<exists>im'. apply_loop getID (replaces getID equal part B) ([] @ part, im) =
         Some ([] @ map (version getID B) part, im') \<and>
       (\<forall>a\<in>set part. map_of im' (getID a) = Some (version getID B a)) \<and>
       (\<forall>k. k \<notin> getID ` set part \<longrightarrow> map_of im' k = map_of im k)"
      using dp eq B(3) items_map [OF dp] by (intro apply_replaces) (auto simp: im_def part_def)
    then show thesis using that by (auto simp: rep)
  qed
  have dels: "set (delMap getID origin hs) = dset (map getID A) hs" by (simp add: set_delMap ids)
  have es: "edit_from (map getID A) (map getID B) True 0 0 hs"
    using e by (simp add: edit_doc_def edit_script_def hs_def ids)
  have same: "a = b" if "a \<in> set A" "b \<in> set B" "getID a = getID b" for a b
    using that version_same [OF B(1)] by (auto simp: A_def)
  have sub: "set [x \<leftarrow> drop 0 A. getID x \<notin> dset (map getID A) hs] \<subseteq> set (drop 0 B)"
    using es d same by (intro kept_subset) (simp_all add: ids)
  have kept: "P c" if "c \<in> set origin" "getID c \<notin> dset (map getID A) hs" for c
  proof -
    have "version getID B c \<in> set [x \<leftarrow> drop 0 A. getID x \<notin> dset (map getID A) hs]"
      using that by (simp add: A_def)
    with sub have "version getID B c \<in> set B" by auto
    then have "getID c \<in> getID ` set B" by (metis getID_version imageI)
    with P B(2) that(1) show ?thesis by blast
  qed
  have kf: "filter (\<lambda>c. getID c \<notin> dset (map getID A) hs \<and> P c) origin = filter (\<lambda>c. getID c \<notin> dset (map getID A) hs) origin"
    using kept by (intro filter_cong) auto
  have start: "[x \<leftarrow> map (version getID B) part. getID x \<notin> dset (map getID A) hs] = [x \<leftarrow> A. getID x \<notin> dset (map getID A) hs]"
    using kf by (simp add: A_def part_def filter_map comp_def conj_commute)
  have im: "map_of im' (getID b) = Some b" if "b \<in> set B" "getID b \<in> set (delMap getID origin hs)" for b
  proof -
    have "getID b \<in> getID ` set origin" using that edit_from_dset [OF es] by (auto simp: dels ids)
    then obtain c where c: "c \<in> set origin" "getID c = getID b" by auto
    have "P c" using P [OF c(1)] B(2) that(1) c(2) by (metis imageI)
    then have "c \<in> set part" using c(1) by (simp add: part_def)
    then show ?thesis using im'(2) [of c] version_same [OF B(1) that(1)] c(2) by simp
  qed
  have "\<exists>result dels res. fold (diff_hunk getID origin B) hs (replaces getID equal origin B, delMap getID origin hs) =
      (result, dels) \<and> apply_loop getID result (part, fold (\<lambda>it. put (getID it) it) part []) = Some (res, im') \<and>
      [x \<leftarrow> res. getID x \<notin> set dels] = B"
    using es im B(1) ne B(2) d im'(1) same start
    by (intro hunks_patched [where A = A and i = 0 and j = 0 and fr = True and D = "dset (map getID A) hs" and res = "map (version getID B) part"])
       (auto simp: ids dels patched_def im_def distinct_map_filter)
  then show ?thesis
    by (auto simp: ApplyChanges_def Diff_def o apply_loop_append FilterMut_def simp flip: B_def hs_def part_def)
qed

text \<open>C23: the changes computed by \<open>Diff\<close>, applied by \<open>ApplyChanges\<close> to the old slice, give the new
  slice (without repeated ids), and no insertion panics. Moves, additions, replacements and
  removals may all occur; ids of the old slice are distinct, new ids are not empty, and \<open>equal\<close>
  accepts identical items only.\<close>

theorem Diff_ApplyChanges:
  assumes u: "uniq_doc uniq" and e: "edit_doc edit getID"
    and d: "distinct (map getID origin)" and ne: "[] \<notin> getID ` set changed"
    and eq: "\<forall>x\<in>set origin. \<forall>y\<in>set changed. equal x y \<longrightarrow> x = y"
  shows "ApplyChanges uniq origin (Diff uniq edit origin changed getID equal) getID = Some (uniq getID changed)"
  using Diff_ApplyChanges_part [OF u e d ne eq, of "\<lambda>_. True"] by simp

text \<open>Concrete functions that keep the promises, for an evaluation of the round trip.\<close>

fun uniq_first :: "('a \<Rightarrow> string) \<Rightarrow> 'a list \<Rightarrow> 'a list" where
  "uniq_first getID [] = []"
| "uniq_first getID (x # xs) = x # [y \<leftarrow> uniq_first getID xs. getID y \<noteq> getID x]"

lemma uniq_first_doc: "uniq_doc uniq_first"
proof -
  have sub: "set (uniq_first getID xs) \<subseteq> set xs" for getID :: "'a \<Rightarrow> string" and xs
    by (induction xs) auto
  have ids: "getID ` set (uniq_first getID xs) = getID ` set xs" for getID :: "'a \<Rightarrow> string" and xs
  proof (induction xs)
    case (Cons x xs)
    have "getID ` {y \<in> set (uniq_first getID xs). getID y \<noteq> getID x} =
        getID ` set (uniq_first getID xs) - {getID x}" by auto
    with Cons show ?case by auto
  qed simp
  have d: "distinct (map getID (uniq_first getID xs))" for getID :: "'a \<Rightarrow> string" and xs
    by (induction xs) (auto simp: distinct_map_filter)
  have same: "distinct (map getID xs) \<Longrightarrow> uniq_first getID xs = xs" for getID :: "'a \<Rightarrow> string" and xs
    by (induction xs) (auto intro!: filter_True simp: rev_image_eqI)
  show ?thesis using sub ids d same by (simp add: uniq_doc_def)
qed

definition whole_hunk :: "nat \<Rightarrow> nat \<Rightarrow> (nat \<Rightarrow> nat \<Rightarrow> bool) \<Rightarrow> hunk list" where
  "whole_hunk n m eq = [\<lparr>hA = 0, hB = 0, hDel = n, hIns = m\<rparr>]"

lemma whole_hunk_doc: "edit_doc whole_hunk getID"
  by (simp add: edit_doc_def edit_script_def whole_hunk_def)

theorem Diff_ApplyChanges_witness:
  "ApplyChanges uniq_first [(''a'', 1), (''b'', 2), (''d'', 4 :: nat)]
     (Diff uniq_first whole_hunk [(''a'', 1), (''b'', 2), (''d'', 4)] [(''b'', 5), (''c'', 3), (''a'', 1)] fst (=)) fst
   = Some [(''b'', 5), (''c'', 3), (''a'', 1)]"
proof -
  let ?o = "[(''a'', 1), (''b'', 2), (''d'', 4 :: nat)]" and ?c = "[(''b'', 5), (''c'', 3), (''a'', 1 :: nat)]"
  have "distinct (map fst ?o)" "[] \<notin> fst ` set ?c" "\<forall>x\<in>set ?o. \<forall>y\<in>set ?c. x = y \<longrightarrow> x = y"
    by simp_all
  from Diff_ApplyChanges [OF uniq_first_doc whole_hunk_doc this]
  have "ApplyChanges uniq_first ?o (Diff uniq_first whole_hunk ?o ?c fst (=)) fst = Some (uniq_first fst ?c)" .
  moreover have "uniq_first fst ?c = ?c" by simp
  ultimately show ?thesis by (simp only:)
qed

end
