(* ===== verification/GoValue.thy ===== *)
theory GoValue
  imports Prelude Complex_Main
begin

section \<open>Relation values (core/domain/value.go)\<close>

text \<open>
  The dynamically typed values that object details are made of, their accessors, their order and
  equality, and their protobuf form. A Go \<open>Value\<close> is a flag and an \<open>any\<close>; the constructors of the
  package store seven dynamic types, which are the constructors of the datatype (\<open>VInvalid\<close> is the
  zero value). The default branches for other dynamic types cannot be reached.

  A float64 is a datatype: not-a-number, the infinities and the finite numbers, as rationals.
  The two zeros are identified, since no operation here tells them apart. Conversions from and to
  integers are written out: rounding to 53 bits, ties to even, and truncation. What \<open>int64(f)\<close>
  gives out of range is left open by the language: it is the parameter \<open>oor\<close>.
\<close>

subsection \<open>Floating point numbers\<close>

datatype f64 = NaN | NInf | Fin rat | PInf

fun f64_less :: "f64 \<Rightarrow> f64 \<Rightarrow> bool" where
  "f64_less NaN _ = False"
| "f64_less _ NaN = False"
| "f64_less NInf y = (y \<noteq> NInf)"
| "f64_less (Fin a) (Fin b) = (a < b)"
| "f64_less (Fin _) y = (y = PInf)"
| "f64_less PInf _ = False"

text \<open>The operator \<open>==\<close>: not-a-number differs from itself.\<close>

definition f64_eq :: "f64 \<Rightarrow> f64 \<Rightarrow> bool" where
  "f64_eq x y \<longleftrightarrow> x \<noteq> NaN \<and> x = y"

text \<open>\<open>cmp.Compare\<close> on floats: not-a-number is below everything and equal to itself.\<close>

definition f64_cmp :: "f64 \<Rightarrow> f64 \<Rightarrow> int" where
  "f64_cmp x y =
     (if x = NaN then (if y = NaN then 0 else -1)
      else if y = NaN then 1
      else if f64_less x y then -1
      else if f64_less y x then 1 else 0)"

fun bit_len :: "nat \<Rightarrow> nat" where
  "bit_len n = (if n = 0 then 0 else Suc (bit_len (n div 2)))"

declare bit_len.simps [simp del]

text \<open>The magnitude rounded to 53 significant bits, ties to even.\<close>

definition round53 :: "nat \<Rightarrow> nat" where
  "round53 a =
     (if a \<le> 2 ^ 53 then a
      else (let e = bit_len a - 53; q = a div 2 ^ e; r = a mod 2 ^ e; h = 2 ^ (e - 1)
            in (if h < r \<or> (r = h \<and> odd q) then q + 1 else q) * 2 ^ e))"

definition f64_of_int :: "int \<Rightarrow> f64" where
  "f64_of_int v = Fin (of_int (sgn v * int (round53 (nat \<bar>v\<bar>))))"

definition trunc_rat :: "rat \<Rightarrow> int" where
  "trunc_rat q = (if 0 \<le> q then \<lfloor>q\<rfloor> else - \<lfloor>- q\<rfloor>)"

definition int64_of_f64 :: "(f64 \<Rightarrow> int) \<Rightarrow> f64 \<Rightarrow> int" where
  "int64_of_f64 oor f =
     (case f of
        Fin q \<Rightarrow> (if - (2 ^ 63) \<le> trunc_rat q \<and> trunc_rat q < 2 ^ 63 then trunc_rat q else oor f)
      | _ \<Rightarrow> oor f)"

subsection \<open>Values and constructors\<close>

datatype Value =
    VInvalid
  | VNull
  | VBool bool
  | VString string
  | VFloat f64
  | VStringList "string list"
  | VFloatList "f64 list"
  | VMap "(string \<times> Value) list"

definition Int64 :: "int \<Rightarrow> Value" where
  "Int64 v = VFloat (f64_of_int v)"

definition Int64List :: "int list \<Rightarrow> Value" where
  "Int64List v = VFloatList (map f64_of_int v)"

subsection \<open>Accessors\<close>

fun Ok :: "Value \<Rightarrow> bool" where
  "Ok VInvalid = False"
| "Ok _ = True"

fun IsStringList :: "Value \<Rightarrow> bool" where
  "IsStringList (VStringList _) = True"
| "IsStringList _ = False"

fun IsFloat64List :: "Value \<Rightarrow> bool" where
  "IsFloat64List (VFloatList _) = True"
| "IsFloat64List _ = False"

fun IsNull :: "Value \<Rightarrow> bool" where
  "IsNull VNull = True"
| "IsNull _ = False"

fun IsBool :: "Value \<Rightarrow> bool" where
  "IsBool (VBool _) = True"
| "IsBool _ = False"

text \<open>A \<open>Try\<close> accessor returns \<^term>\<open>None\<close> for the Go pair of a zero value and false.\<close>

fun TryBool :: "Value \<Rightarrow> bool option" where
  "TryBool (VBool b) = Some b"
| "TryBool _ = None"

definition Bool_of :: "Value \<Rightarrow> bool" where
  "Bool_of v = (case TryBool v of Some res \<Rightarrow> res | None \<Rightarrow> False)"

fun IsString :: "Value \<Rightarrow> bool" where
  "IsString (VString _) = True"
| "IsString _ = False"

fun TryString :: "Value \<Rightarrow> string option" where
  "TryString (VString s) = Some s"
| "TryString _ = None"

definition String_of :: "Value \<Rightarrow> string" where
  "String_of v = (case TryString v of Some res \<Rightarrow> res | None \<Rightarrow> [])"

fun IsFloat64 :: "Value \<Rightarrow> bool" where
  "IsFloat64 (VFloat _) = True"
| "IsFloat64 _ = False"

definition IsInt64 :: "Value \<Rightarrow> bool" where
  "IsInt64 v = IsFloat64 v"

fun TryFloat64 :: "Value \<Rightarrow> f64 option" where
  "TryFloat64 (VFloat f) = Some f"
| "TryFloat64 _ = None"

definition Float64_of :: "Value \<Rightarrow> f64" where
  "Float64_of v = (case TryFloat64 v of Some res \<Rightarrow> res | None \<Rightarrow> Fin 0)"

definition TryInt64 :: "(f64 \<Rightarrow> int) \<Rightarrow> Value \<Rightarrow> int option" where
  "TryInt64 oor v = map_option (int64_of_f64 oor) (TryFloat64 v)"

definition Int64_of :: "(f64 \<Rightarrow> int) \<Rightarrow> Value \<Rightarrow> int" where
  "Int64_of oor v = (case TryInt64 oor v of Some res \<Rightarrow> res | None \<Rightarrow> 0)"

fun TryStringList :: "Value \<Rightarrow> string list option" where
  "TryStringList (VStringList l) = Some l"
| "TryStringList _ = None"

definition StringList_of :: "Value \<Rightarrow> string list" where
  "StringList_of v = (case TryStringList v of Some res \<Rightarrow> res | None \<Rightarrow> [])"

definition TryWrapToStringList :: "Value \<Rightarrow> string list option" where
  "TryWrapToStringList v =
     (case TryStringList v of
        Some res \<Rightarrow> Some res
      | None \<Rightarrow> (case TryString v of
            Some s \<Rightarrow> (if s = [] then Some [] else Some [s])
          | None \<Rightarrow> None))"

definition WrapToStringList :: "Value \<Rightarrow> string list" where
  "WrapToStringList v = (case TryWrapToStringList v of Some res \<Rightarrow> res | None \<Rightarrow> [])"

definition IsInt64List :: "Value \<Rightarrow> bool" where
  "IsInt64List v = IsFloat64List v"

fun TryFloat64List :: "Value \<Rightarrow> f64 list option" where
  "TryFloat64List (VFloatList l) = Some l"
| "TryFloat64List _ = None"

definition TryInt64List :: "(f64 \<Rightarrow> int) \<Rightarrow> Value \<Rightarrow> int list option" where
  "TryInt64List oor v = map_option (map (int64_of_f64 oor)) (TryFloat64List v)"

definition Int64List_of :: "(f64 \<Rightarrow> int) \<Rightarrow> Value \<Rightarrow> int list" where
  "Int64List_of oor v = (case TryInt64List oor v of Some res \<Rightarrow> res | None \<Rightarrow> [])"

definition Float64List_of :: "Value \<Rightarrow> f64 list" where
  "Float64List_of v = (case TryFloat64List v of Some res \<Rightarrow> res | None \<Rightarrow> [])"

definition TryListValues :: "Value \<Rightarrow> Value list option" where
  "TryListValues v =
     (case TryStringList v of
        Some l \<Rightarrow> Some (map VString l)
      | None \<Rightarrow> (case TryFloat64List v of Some l \<Rightarrow> Some (map VFloat l) | None \<Rightarrow> None))"

text \<open>The error "unsupported type" is \<^term>\<open>None\<close>.\<close>

definition TryWrapToList :: "Value \<Rightarrow> Value list option" where
  "TryWrapToList v =
     (case TryString v of
        Some s \<Rightarrow> Some [VString s]
      | None \<Rightarrow> (case TryFloat64 v of
            Some f \<Rightarrow> Some [VFloat f]
          | None \<Rightarrow> TryListValues v))"

definition WrapToList :: "Value \<Rightarrow> Value list" where
  "WrapToList v = (case TryWrapToList v of Some l \<Rightarrow> l | None \<Rightarrow> [])"

definition ValueList :: "Value list \<Rightarrow> Value" where
  "ValueList vs =
     (case vs of
        [] \<Rightarrow> VStringList []
      | v # _ \<Rightarrow>
          if IsString v then VStringList (map String_of vs)
          else if IsFloat64 v then VFloatList (map Float64_of vs)
          else VStringList [])"

fun IsMapValue :: "Value \<Rightarrow> bool" where
  "IsMapValue (VMap _) = True"
| "IsMapValue _ = False"

text \<open>A nil \<open>ValueMap\<close> is \<^term>\<open>None\<close>.\<close>

fun TryMapValue :: "Value \<Rightarrow> (string \<times> Value) list option" where
  "TryMapValue (VMap m) = Some m"
| "TryMapValue _ = None"

fun Type_of :: "Value \<Rightarrow> nat" where
  "Type_of VInvalid = 0"
| "Type_of VNull = 1"
| "Type_of (VBool _) = 2"
| "Type_of (VString _) = 3"
| "Type_of (VFloat _) = 4"
| "Type_of (VStringList _) = 5"
| "Type_of (VFloatList _) = 6"
| "Type_of (VMap _) = 7"

text \<open>\<open>m.data[key]\<close>: the zero value when the key is absent.\<close>

definition Get_data :: "(string \<times> Value) list \<Rightarrow> string \<Rightarrow> Value" where
  "Get_data m k = (case map_of m k of None \<Rightarrow> VInvalid | Some v \<Rightarrow> v)"

subsection \<open>Order\<close>

lemma Get_data_size: "size (Get_data m k) \<le> size_list (size_prod (\<lambda>_. 0) size) m"
  by (induction m) (auto simp: Get_data_def split: option.splits)

function (sequential) Compare :: "Value \<Rightarrow> Value \<Rightarrow> int"
  and compareMaps :: "(string \<times> Value) list \<Rightarrow> (string \<times> Value) list \<Rightarrow> int"
  and compare_entries :: "string list \<Rightarrow> (string \<times> Value) list \<Rightarrow> (string \<times> Value) list \<Rightarrow> int" where
  "Compare v other =
     (if \<not> Ok v \<and> Ok other then -1
      else if Ok v \<and> \<not> Ok other then 1
      else if \<not> Ok v then 0
      else if Type_of v < Type_of other then -1
      else if Type_of v > Type_of other then 1
      else (case (v, other) of
          (VNull, _) \<Rightarrow> 0
        | (VBool v1, VBool v2) \<Rightarrow> (if \<not> v1 \<and> v2 then -1 else if v1 = v2 then 0 else 1)
        | (VString v1, VString v2) \<Rightarrow> cmp v1 v2
        | (VFloat v1, VFloat v2) \<Rightarrow> (if f64_less v1 v2 then -1 else if f64_less v2 v1 then 1 else 0)
        | (VStringList v1, VStringList v2) \<Rightarrow> slices_Compare cmp v1 v2
        | (VFloatList v1, VFloatList v2) \<Rightarrow> slices_Compare f64_cmp v1 v2
        | (VMap v1, VMap v2) \<Rightarrow> compareMaps v1 v2
        | _ \<Rightarrow> 0))"
| "compareMaps a b =
     (if length a < length b then -1
      else if length a > length b then 1
      else (let keysA = sort (keys a); keysB = sort (keys b); res = slices_Compare cmp keysA keysB
            in if res \<noteq> 0 then res else compare_entries keysA a b))"
| "compare_entries [] a b = 0"
| "compare_entries (k # ks) a b =
     (let res = Compare (Get_data a k) (Get_data b k)
      in if res \<noteq> 0 then res else compare_entries ks a b)"
  by pat_completeness auto
termination
proof (relation "inv_image (less_than <*lex*> less_than)
    (\<lambda>p. case p of Inl (v, w) \<Rightarrow> (2 * size v + 1, 0)
       | Inr (Inl (a, b)) \<Rightarrow> (2 * size_list (size_prod (\<lambda>_. 0) size) a + 2, Suc (Suc (length a)))
       | Inr (Inr (ks, a, b)) \<Rightarrow> (2 * size_list (size_prod (\<lambda>_. 0) size) a + 2, Suc (length ks)))")
qed (auto simp: Get_data_size le_imp_less_Suc)

declare Compare.simps [simp del] compareMaps.simps [simp del]

subsection \<open>Equality\<close>

fun floats_equal :: "f64 list \<Rightarrow> f64 list \<Rightarrow> bool" where
  "floats_equal [] [] = True"
| "floats_equal (x # xs) (y # ys) = (f64_eq x y \<and> floats_equal xs ys)"
| "floats_equal _ _ = False"

text \<open>\<open>GenericMap.Equal\<close> on two maps, and its loop over the entries of the first.\<close>

function (sequential) Equal :: "Value \<Rightarrow> Value \<Rightarrow> bool"
  and equal_entries :: "(string \<times> Value) list \<Rightarrow> (string \<times> Value) list \<Rightarrow> bool" where
  "Equal v other =
     (if Ok v \<noteq> Ok other then False
      else if \<not> Ok v then True
      else if IsNull v \<and> IsNull other then True
      else if Type_of v \<noteq> Type_of other then False
      else (case (v, other) of
          (VBool v1, VBool v2) \<Rightarrow> v1 = v2
        | (VString v1, VString v2) \<Rightarrow> v1 = v2
        | (VFloat v1, VFloat v2) \<Rightarrow> f64_eq v1 v2
        | (VStringList v1, VStringList v2) \<Rightarrow> (if length v1 \<noteq> length v2 then False else v1 = v2)
        | (VFloatList v1, VFloatList v2) \<Rightarrow> (if length v1 \<noteq> length v2 then False else floats_equal v1 v2)
        | (VMap v1, VMap v2) \<Rightarrow> (if length v1 \<noteq> length v2 then False else equal_entries v1 v2)
        | _ \<Rightarrow> False))"
| "equal_entries [] b = True"
| "equal_entries ((k, v) # a) b =
     (case map_of b k of
        None \<Rightarrow> False
      | Some otherV \<Rightarrow> if \<not> Equal v otherV then False else equal_entries a b)"
  by pat_completeness auto
termination
  by (relation "measure (\<lambda>p. case p of Inl (v, w) \<Rightarrow> 2 * size v + 1
       | Inr (a, b) \<Rightarrow> 2 * size_list (size_prod (\<lambda>_. 0) size) a + 2)") auto

declare Equal.simps [simp del]

subsection \<open>Protobuf form\<close>

text \<open>
  \<open>types.Value\<close> of protobuf: \<open>PNil\<close> is a nil pointer, \<open>PKindNil\<close> a message whose kind is not set.
  A nil list or struct message has no elements.
\<close>

datatype pval =
    PNil
  | PKindNil
  | PNull
  | PBool bool
  | PString string
  | PNumber f64
  | PStruct "(string \<times> pval) list"
  | PList "pval list"

fun number_kind :: "pval \<Rightarrow> f64 option" where
  "number_kind (PNumber f) = Some f"
| "number_kind _ = None"

fun string_kind :: "pval \<Rightarrow> string option" where
  "string_kind (PString s) = Some s"
| "string_kind _ = None"

definition ListValueToFloats :: "pval list \<Rightarrow> f64 list" where
  "ListValueToFloats vs = List.map_filter number_kind vs"

definition ListValueToStrings :: "pval list \<Rightarrow> string list" where
  "ListValueToStrings vs = List.map_filter string_kind vs"

definition proto_StringList :: "string list \<Rightarrow> pval" where
  "proto_StringList s = PList (map PString s)"

definition proto_Float64List :: "f64 list \<Rightarrow> pval" where
  "proto_Float64List s = PList (map PNumber s)"

primrec ValueFromProto :: "pval \<Rightarrow> Value" where
  "ValueFromProto PNil = VNull"
| "ValueFromProto PKindNil = VNull"
| "ValueFromProto PNull = VNull"
| "ValueFromProto (PBool b) = VBool b"
| "ValueFromProto (PString s) = VString s"
| "ValueFromProto (PNumber f) = VFloat f"
| "ValueFromProto (PStruct m) = VMap (map (map_prod (\<lambda>k. k) ValueFromProto) m)"
| "ValueFromProto (PList l) =
     (let fs = ListValueToFloats l
      in if length fs > 0 then VFloatList fs else VStringList (ListValueToStrings l))"

primrec ToProto :: "Value \<Rightarrow> pval" where
  "ToProto VInvalid = PNull"
| "ToProto VNull = PNull"
| "ToProto (VBool b) = PBool b"
| "ToProto (VString s) = PString s"
| "ToProto (VFloat f) = PNumber f"
| "ToProto (VStringList l) = proto_StringList l"
| "ToProto (VFloatList l) = proto_Float64List l"
| "ToProto (VMap m) = PStruct (map (map_prod (\<lambda>k. k) ToProto) m)"

subsection \<open>Matching\<close>

text \<open>
  A matcher holds a callback for each type, possibly nil; the callbacks change the variables they
  close over, which is the state \<open>'r\<close>.
\<close>

record 'r ValueMatcher =
  mNull :: "('r \<Rightarrow> 'r) option"
  mBool :: "(bool \<Rightarrow> 'r \<Rightarrow> 'r) option"
  mFloat64 :: "(f64 \<Rightarrow> 'r \<Rightarrow> 'r) option"
  mInt64 :: "(int \<Rightarrow> 'r \<Rightarrow> 'r) option"
  mString :: "(string \<Rightarrow> 'r \<Rightarrow> 'r) option"
  mStringList :: "(string list \<Rightarrow> 'r \<Rightarrow> 'r) option"
  mFloat64List :: "(f64 list \<Rightarrow> 'r \<Rightarrow> 'r) option"
  mInt64List :: "(int list \<Rightarrow> 'r \<Rightarrow> 'r) option"
  mMapValue :: "((string \<times> Value) list \<Rightarrow> 'r \<Rightarrow> 'r) option"

definition call_if :: "bool \<Rightarrow> ('a \<Rightarrow> 'r \<Rightarrow> 'r) option \<Rightarrow> 'a \<Rightarrow> 'r \<Rightarrow> 'r" where
  "call_if b f x r = (case f of Some g \<Rightarrow> if b then g x r else r | None \<Rightarrow> r)"

definition Match :: "(f64 \<Rightarrow> int) \<Rightarrow> Value \<Rightarrow> 'r ValueMatcher \<Rightarrow> 'r \<Rightarrow> 'r" where
  "Match oor v m r0 =
     (if \<not> Ok v then r0
      else
       (let r1 = call_if (IsNull v) (map_option (\<lambda>f _. f) (mNull m)) () r0;
            r2 = call_if (IsBool v) (mBool m) (Bool_of v) r1;
            r3 = call_if (IsFloat64 v) (mFloat64 m) (Float64_of v) r2;
            r4 = call_if (IsInt64 v) (mInt64 m) (Int64_of oor v) r3;
            r5 = call_if (IsString v) (mString m) (String_of v) r4;
            r6 = call_if (IsStringList v) (mStringList m) (StringList_of v) r5;
            r7 = call_if (IsFloat64List v) (mFloat64List m) (Float64List_of v) r6;
            r8 = call_if (IsInt64List v) (mInt64List m) (Int64List_of oor v) r7
        in case TryMapValue v of Some vm \<Rightarrow> call_if (IsMapValue v) (mMapValue m) vm r8 | None \<Rightarrow> r8))"

text \<open>No integer callback is set here, so the conversion of \<open>Match\<close> is never run.\<close>

definition IsEmpty :: "Value \<Rightarrow> bool" where
  "IsEmpty v =
     (if \<not> Ok v then True
      else Match (\<lambda>_. 0) v
        \<lparr>mNull = Some (\<lambda>_. True), mBool = Some (\<lambda>b _. \<not> b), mFloat64 = Some (\<lambda>f _. f64_eq f (Fin 0)),
         mInt64 = None, mString = Some (\<lambda>s _. s = []), mStringList = Some (\<lambda>l _. length l = 0),
         mFloat64List = Some (\<lambda>l _. length l = 0), mInt64List = None,
         mMapValue = Some (\<lambda>m _. length m = 0)\<rparr> False)"

subsection \<open>Well-formed values\<close>

text \<open>Maps have distinct keys; a scalar is a number.\<close>

lemma size_snd_less: "kv \<in> set m \<Longrightarrow> size (snd kv) < Suc (size_list (size_prod (\<lambda>_. 0) size) m)"
  by (induction m) auto

function wf_value :: "Value \<Rightarrow> bool" where
  "wf_value v = (case v of VMap m \<Rightarrow> wf_map m \<and> (\<forall>kv\<in>set m. wf_value (snd kv)) | _ \<Rightarrow> True)"
  by auto
termination by (relation "measure size") (auto simp: size_snd_less)

function no_nan :: "Value \<Rightarrow> bool" where
  "no_nan v = (case v of VFloat f \<Rightarrow> f \<noteq> NaN | VMap m \<Rightarrow> (\<forall>kv\<in>set m. no_nan (snd kv)) | _ \<Rightarrow> True)"
  by auto
termination by (relation "measure size") (auto simp: size_snd_less)

function no_nan_lists :: "Value \<Rightarrow> bool" where
  "no_nan_lists v =
     (case v of VFloatList l \<Rightarrow> NaN \<notin> set l | VMap m \<Rightarrow> (\<forall>kv\<in>set m. no_nan_lists (snd kv)) | _ \<Rightarrow> True)"
  by auto
termination by (relation "measure size") (auto simp: size_snd_less)

declare wf_value.simps [simp del] no_nan.simps [simp del] no_nan_lists.simps [simp del]

definition ordered_value :: "Value \<Rightarrow> bool" where
  "ordered_value v \<longleftrightarrow> wf_value v \<and> no_nan v"

lemma ordered_value_simps [simp]:
  "ordered_value VInvalid" "ordered_value VNull" "ordered_value (VBool b)" "ordered_value (VString s)"
  "ordered_value (VFloat f) \<longleftrightarrow> f \<noteq> NaN" "ordered_value (VStringList sl)" "ordered_value (VFloatList fl)"
  "ordered_value (VMap m) \<longleftrightarrow> wf_map m \<and> (\<forall>kv\<in>set m. ordered_value (snd kv))"
  by (auto simp: ordered_value_def wf_value.simps [of VInvalid] no_nan.simps [of VInvalid]
      wf_value.simps [of VNull] no_nan.simps [of VNull] wf_value.simps [of "VBool _"] no_nan.simps [of "VBool _"]
      wf_value.simps [of "VString _"] no_nan.simps [of "VString _"] wf_value.simps [of "VFloat _"] no_nan.simps [of "VFloat _"]
      wf_value.simps [of "VStringList _"] no_nan.simps [of "VStringList _"]
      wf_value.simps [of "VFloatList _"] no_nan.simps [of "VFloatList _"]
      wf_value.simps [of "VMap _"] no_nan.simps [of "VMap _"])

lemma Get_data_in:
  "k \<in> fst ` set m \<Longrightarrow> (k, Get_data m k) \<in> set m"
  by (auto simp: Get_data_def split: option.splits dest: map_of_SomeD simp: map_of_eq_None_iff)

subsection \<open>The order on floats\<close>

lemma f64_less_trans: "f64_less x y \<Longrightarrow> f64_less y z \<Longrightarrow> f64_less x z"
  by (cases x; cases y; cases z) auto

lemma f64_less_asym: "f64_less x y \<Longrightarrow> \<not> f64_less y x"
  by (cases x; cases y) auto

lemma f64_less_linear: "x \<noteq> NaN \<Longrightarrow> y \<noteq> NaN \<Longrightarrow> f64_less x y \<or> x = y \<or> f64_less y x"
  by (cases x; cases y) auto

definition f64_compare :: "f64 \<Rightarrow> f64 \<Rightarrow> int" where
  "f64_compare x y = (if f64_less x y then -1 else if f64_less y x then 1 else 0)"

lemma f64_compare_comparison: "comparison (\<lambda>f. f \<noteq> NaN) f64_compare"
proof
  fix x y z :: f64
  assume "x \<noteq> NaN" "y \<noteq> NaN" "z \<noteq> NaN" "f64_compare x y \<le> 0" "f64_compare y z \<le> 0"
  then show "f64_compare x z \<le> 0"
    unfolding f64_compare_def
    using f64_less_linear [of x y] f64_less_linear [of y z] f64_less_linear [of x z]
      f64_less_trans f64_less_asym
    by (metis (full_types) less_eq_neg_nonpos not_one_le_zero order_refl)
next
  fix x y :: f64
  show "f64_compare y x = - f64_compare x y"
    using f64_less_asym [of x y] by (auto simp: f64_compare_def)
qed

lemma f64_cmp_comparison: "comparison (\<lambda>f. True) f64_cmp"
proof
  fix x y :: f64
  show "f64_cmp y x = - f64_cmp x y" using f64_less_asym [of x y] by (auto simp: f64_cmp_def)
next
  fix x y z :: f64 assume "f64_cmp x y \<le> 0" "f64_cmp y z \<le> 0"
  moreover have "x \<noteq> NaN \<Longrightarrow> y \<noteq> NaN \<Longrightarrow> f64_cmp x y = f64_compare x y" for x y
    by (simp add: f64_cmp_def f64_compare_def)
  ultimately show "f64_cmp x z \<le> 0"
    using comparison.le_trans [OF f64_compare_comparison, of x y z]
    by (cases "x = NaN"; cases "y = NaN"; cases "z = NaN") (auto simp: f64_cmp_def split: if_splits)
qed

lemma f64_cmp_eq_0: "f64_cmp x y = 0 \<longleftrightarrow> x = y"
  using f64_less_linear [of x y] f64_less_asym [of x x] by (auto simp: f64_cmp_def dest: f64_less_asym)

subsection \<open>The order on values\<close>

text \<open>\<open>Compare\<close> orders by type first, the zero value below every other.\<close>

lemma Compare_Type: "Type_of v \<noteq> Type_of w \<Longrightarrow> Compare v w = cmp (Type_of v) (Type_of w)"
proof -
  have "Ok v \<longleftrightarrow> Type_of v \<noteq> 0" for v by (cases v) simp_all
  then show "Type_of v \<noteq> Type_of w \<Longrightarrow> Compare v w = cmp (Type_of v) (Type_of w)"
    by (simp add: Compare.simps [of v w] cmp_def)
qed

lemma Compare_same [simp]:
  "Compare VInvalid VInvalid = 0"
  "Compare VNull VNull = 0"
  "Compare (VBool a) (VBool b) = cmp a b"
  "Compare (VString s) (VString t) = cmp s t"
  "Compare (VFloat f) (VFloat g) = f64_compare f g"
  "Compare (VStringList sl) (VStringList sl2) = slices_Compare cmp sl sl2"
  "Compare (VFloatList fl) (VFloatList gl) = slices_Compare f64_cmp fl gl"
  "Compare (VMap m) (VMap n) = compareMaps m n"
  by (simp_all add: Compare.simps [of VInvalid] Compare.simps [of VNull] Compare.simps [of "VBool _"]
      Compare.simps [of "VString _"] Compare.simps [of "VFloat _"] Compare.simps [of "VStringList _"]
      Compare.simps [of "VFloatList _"] Compare.simps [of "VMap _"] cmp_def f64_compare_def)

text \<open>
  The comparison of maps as a lexicographic combination of three comparisons: sizes, sorted keys,
  and the values in the order of the keys.
\<close>

definition by_values :: "(string \<times> Value) list \<Rightarrow> (string \<times> Value) list \<Rightarrow> int" where
  "by_values a b = slices_Compare Compare (map (Get_data a) (sort (keys a))) (map (Get_data b) (sort (keys b)))"

lemma compare_entries_conv: "compare_entries ks a b = slices_Compare Compare (map (Get_data a) ks) (map (Get_data b) ks)"
  by (induction ks) (auto simp: Let_def)

lemma slices_Compare_cmp_0: "slices_Compare cmp xs ys = 0 \<longleftrightarrow> xs = ys"
  by (simp add: slices_Compare_eq_0 list_all2_eq)

lemma compareMaps_conv:
  "compareMaps a b =
     (if cmp (length a) (length b) \<noteq> 0 then cmp (length a) (length b)
      else if slices_Compare cmp (sort (keys a)) (sort (keys b)) \<noteq> 0
        then slices_Compare cmp (sort (keys a)) (sort (keys b))
        else by_values a b)"
  by (auto simp: compareMaps.simps Let_def compare_entries_conv by_values_def cmp_def slices_Compare_cmp_0)

lemma size_Get_data: "k \<in> fst ` set m \<Longrightarrow> size (Get_data m k) < size (VMap m)"
  using size_snd_less [OF Get_data_in] by fastforce

lemma compareMaps_comparison:
  assumes "comparison ok Compare"
  shows "comparison (\<lambda>m. \<forall>kv\<in>set m. ok (snd kv)) compareMaps"
proof -
  have v: "comparison (\<lambda>m. \<forall>kv\<in>set m. ok (snd kv)) by_values"
    unfolding by_values_def
  proof (rule comparison.on_images [OF comparison.on_slices [OF assms]])
    fix m :: "(string \<times> Value) list" assume m: "\<forall>kv\<in>set m. ok (snd kv)"
    have "ok (Get_data m k)" if "k \<in> fst ` set m" for k using m Get_data_in [OF that] by force
    then show "list_all ok (map (Get_data m) (sort (keys m)))" by (simp add: list_all_iff)
  qed
  have k: "comparison (\<lambda>m. \<forall>kv\<in>set m. ok (snd kv)) (\<lambda>a b. slices_Compare cmp (sort (keys a)) (sort (keys b)))"
    by (rule comparison.on_images [OF comparison.on_slices [OF cmp_comparison [of "\<lambda>_. True"]]])
       (simp add: list_all_iff)
  have l: "comparison (\<lambda>m. \<forall>kv\<in>set m. ok (snd kv)) (\<lambda>a b. cmp (length a) (length b))"
    by (rule comparison.on_images [OF cmp_comparison [of "\<lambda>_. True"]]) simp
  from comparison.then_by [OF l comparison.then_by [OF k v]] show ?thesis
    unfolding compareMaps_conv .
qed

text \<open>Values of one type, by constructors.\<close>

lemma same_type_cases:
  assumes "Type_of v = Type_of w"
  obtains (Invalid) "v = VInvalid" "w = VInvalid" | (Null) "v = VNull" "w = VNull"
    | (Bool) a b where "v = VBool a" "w = VBool b" | (String) s t where "v = VString s" "w = VString t"
    | (Float) f g where "v = VFloat f" "w = VFloat g"
    | (StringList) sl sl2 where "v = VStringList sl" "w = VStringList sl2"
    | (FloatList) fl fl2 where "v = VFloatList fl" "w = VFloatList fl2"
    | (Map) m n where "v = VMap m" "w = VMap n"
  using assms by (cases v; cases w) simp_all

lemma Compare_le_Type: "Compare v w \<le> 0 \<Longrightarrow> Type_of v \<le> Type_of w"
  by (cases "Type_of v = Type_of w") (auto simp: Compare_Type cmp_def split: if_splits)

lemma strings_comparison: "comparison (\<lambda>_. True) (slices_Compare (cmp :: string \<Rightarrow> _))"
  by (rule comparison.on_images [OF comparison.on_slices [OF cmp_comparison [of "\<lambda>_. True"]]])
     (simp add: list_all_iff)

lemma floats_comparison: "comparison (\<lambda>_. True) (slices_Compare f64_cmp)"
  by (rule comparison.on_images [OF comparison.on_slices [OF f64_cmp_comparison]]) (simp add: list_all_iff)

definition bounded :: "nat \<Rightarrow> Value \<Rightarrow> bool" where
  "bounded n v \<longleftrightarrow> ordered_value v \<and> size v < n"

lemma bounded_map: "bounded (Suc n) (VMap m) \<Longrightarrow> kv \<in> set m \<Longrightarrow> bounded n (snd kv)"
  using size_snd_less [of kv m] by (auto simp: bounded_def)

lemma Compare_bounded_swap:
  assumes maps: "comparison (\<lambda>m. \<forall>kv\<in>set m. bounded n (snd kv)) compareMaps"
    and o: "bounded (Suc n) v" "bounded (Suc n) w"
  shows "Compare w v = - Compare v w"
proof (cases "Type_of v = Type_of w")
  case True
  then show ?thesis
  proof (cases rule: same_type_cases)
    case (Map a b)
    then have "\<forall>kv\<in>set a. bounded n (snd kv)" "\<forall>kv\<in>set b. bounded n (snd kv)" using o bounded_map by blast+
    from comparison.swap [OF maps this] show ?thesis using Map by simp
  next
    case (Float f g)
    with o show ?thesis using comparison.swap [OF f64_compare_comparison, of f g] by (simp add: bounded_def)
  next
    case (StringList sl sl2)
    then show ?thesis using comparison.swap [OF strings_comparison, of sl sl2] by simp
  next
    case (FloatList sl sl2)
    then show ?thesis using comparison.swap [OF floats_comparison, of sl sl2] by simp
  qed (auto intro: cmp_swap)
next
  case False
  then show ?thesis by (simp add: Compare_Type cmp_swap [of "Type_of w"])
qed

lemma Compare_bounded_le_trans:
  assumes maps: "comparison (\<lambda>m. \<forall>kv\<in>set m. bounded n (snd kv)) compareMaps"
    and o: "bounded (Suc n) v" "bounded (Suc n) w" "bounded (Suc n) z"
    and le: "Compare v w \<le> 0" "Compare w z \<le> 0"
  shows "Compare v z \<le> 0"
proof (cases "Type_of v = Type_of w \<and> Type_of w = Type_of z")
  case False
  with le have "Type_of v < Type_of z"
    using Compare_le_Type [of v w] Compare_le_Type [of w z] by linarith
  then show ?thesis by (simp add: Compare_Type)
next
  case True
  then have "Type_of v = Type_of w" and wz: "Type_of w = Type_of z" by simp_all
  then show ?thesis
  proof (cases rule: same_type_cases)
    case (Map a b)
    then obtain c where z: "z = VMap c" using wz by (cases z) auto
    have "\<forall>kv\<in>set a. bounded n (snd kv)" "\<forall>kv\<in>set b. bounded n (snd kv)" "\<forall>kv\<in>set c. bounded n (snd kv)"
      using o Map z bounded_map by blast+
    from comparison.le_trans [OF maps this] show ?thesis using Map z le by simp
  next
    case (Float f g)
    then obtain h where z: "z = VFloat h" using wz by (cases z) auto
    with Float o le show ?thesis
      using comparison.le_trans [OF f64_compare_comparison, of f g h] by (simp add: bounded_def)
  next
    case (StringList sl sl2)
    then obtain sl3 where z: "z = VStringList sl3" using wz by (cases z) auto
    with StringList le show ?thesis using comparison.le_trans [OF strings_comparison, of sl sl2 sl3] by simp
  next
    case (FloatList sl sl2)
    then obtain sl3 where z: "z = VFloatList sl3" using wz by (cases z) auto
    with FloatList le show ?thesis using comparison.le_trans [OF floats_comparison, of sl sl2 sl3] by simp
  next
    case (Bool a b)
    then obtain c where z: "z = VBool c" using wz by (cases z) auto
    with Bool le show ?thesis using cmp_le_trans [of a b c] by simp
  next
    case (String a b)
    then obtain c where z: "z = VString c" using wz by (cases z) auto
    with String le show ?thesis using cmp_le_trans [of a b c] by simp
  qed (use wz in \<open>cases z; simp\<close>)+
qed

lemma Compare_bounded: "comparison (bounded n) Compare"
proof (induction n)
  case 0
  show ?case by unfold_locales (auto simp: bounded_def)
next
  case (Suc n)
  note maps = compareMaps_comparison [OF Suc]
  show ?case
    by unfold_locales (rule Compare_bounded_swap [OF maps] Compare_bounded_le_trans [OF maps]; assumption)+
qed

interpretation val: comparison ordered_value Compare
proof
  fix v w assume "ordered_value v" "ordered_value w"
  then show "Compare w v = - Compare v w"
    using comparison.swap [OF Compare_bounded [of "Suc (max (size v) (size w))"], of v w]
    by (simp add: bounded_def less_Suc_eq_le)
next
  fix v w z assume "ordered_value v" "ordered_value w" "ordered_value z" "Compare v w \<le> 0" "Compare w z \<le> 0"
  then show "Compare v z \<le> 0"
    using comparison.le_trans [OF Compare_bounded [of "Suc (max (size v) (max (size w) (size z)))"], of v w z]
    by (simp add: bounded_def less_Suc_eq_le)
qed

subsection \<open>Equality and order agree\<close>

lemma Equal_Type: "Type_of v \<noteq> Type_of w \<Longrightarrow> \<not> Equal v w"
  by (cases v; cases w) (simp_all add: Equal.simps)

lemma Equal_same [simp]:
  "Equal VInvalid VInvalid"
  "Equal VNull VNull"
  "Equal (VBool a) (VBool b) \<longleftrightarrow> a = b"
  "Equal (VString s) (VString t) \<longleftrightarrow> s = t"
  "Equal (VFloat f) (VFloat g) \<longleftrightarrow> f64_eq f g"
  "Equal (VStringList sl) (VStringList sl2) \<longleftrightarrow> sl = sl2"
  "Equal (VFloatList fl) (VFloatList gl) \<longleftrightarrow> floats_equal fl gl"
  "Equal (VMap m) (VMap n) \<longleftrightarrow> length m = length n \<and> equal_entries m n"
proof -
  have "floats_equal fl gl \<Longrightarrow> length fl = length gl" for fl gl
    by (induction fl gl rule: floats_equal.induct) auto
  then show "Equal (VFloatList fl) (VFloatList gl) \<longleftrightarrow> floats_equal fl gl" by (auto simp: Equal.simps)
qed (auto simp: Equal.simps)

lemma floats_equal_conv: "NaN \<notin> set xs \<Longrightarrow> floats_equal xs ys \<longleftrightarrow> xs = ys"
  by (induction xs ys rule: floats_equal.induct) (auto simp: f64_eq_def)

lemma equal_entries_conv:
  "equal_entries a b \<longleftrightarrow> (\<forall>kv\<in>set a. \<exists>w. map_of b (fst kv) = Some w \<and> Equal (snd kv) w)"
  by (induction a) (auto split: option.splits if_splits)

lemma equal_keys:
  assumes "wf_map a" "wf_map b" "length a = length b" "\<forall>kv\<in>set a. \<exists>w. map_of b (fst kv) = Some w"
  shows "sort (keys a) = sort (keys b)"
proof -
  have "set (keys a) \<subseteq> set (keys b)"
    using assms(4) by (metis (no_types, lifting) image_iff map_of_notin option.distinct(1) set_map subsetI)
  moreover have "card (set (keys a)) = card (set (keys b))"
    using assms(1-3) by (simp add: wf_map_def distinct_card del: set_map)
  ultimately have "set (keys a) = set (keys b)" by (simp add: card_subset_eq)
  then show ?thesis using assms(1,2) unfolding wf_map_def by (metis sorted_list_of_set_sort_remdups distinct_remdups_id)
qed

lemma by_values_0:
  assumes "sort (keys a) = sort (keys b)" "wf_map a"
  shows "by_values a b = 0 \<longleftrightarrow> (\<forall>kv\<in>set a. Compare (snd kv) (Get_data b (fst kv)) = 0)"
proof -
  have g: "Get_data a (fst kv) = snd kv" if "kv \<in> set a" for kv
    using map_of_wf_in [OF assms(2)] that by (cases kv) (simp add: Get_data_def)
  have "by_values a b = 0 \<longleftrightarrow> (\<forall>k\<in>set (sort (keys a)). Compare (Get_data a k) (Get_data b k) = 0)"
    by (simp add: by_values_def slices_Compare_eq_0 list_all2_map1 list_all2_map2 list_all2_same flip: assms(1))
  also have "\<dots> \<longleftrightarrow> (\<forall>kv\<in>set a. Compare (snd kv) (Get_data b (fst kv)) = 0)" using g by auto
  finally show ?thesis .
qed

lemma no_nan_lists_map [simp]: "no_nan_lists (VMap m) \<longleftrightarrow> (\<forall>kv\<in>set m. no_nan_lists (snd kv))"
  by (simp add: no_nan_lists.simps)

lemma Compare_Equal_maps:
  assumes IH: "\<And>kv w. kv \<in> set m \<Longrightarrow> ordered_value w \<Longrightarrow> Compare (snd kv) w = 0 \<longleftrightarrow> Equal (snd kv) w"
    and wf: "wf_map m" "wf_map n" "\<forall>kv\<in>set n. ordered_value (snd kv)"
  shows "compareMaps m n = 0 \<longleftrightarrow> length m = length n \<and> equal_entries m n"
proof (cases "length m = length n \<and> sort (keys m) = sort (keys n)")
  case True
  have "map_of n (fst kv) = Some (Get_data n (fst kv)) \<and> ordered_value (Get_data n (fst kv))" if "kv \<in> set m" for kv
  proof -
    have "fst kv \<in> set (sort (keys n))" using True that by (metis image_eqI set_map set_sort)
    then have "(fst kv, Get_data n (fst kv)) \<in> set n" by (intro Get_data_in) simp
    then show ?thesis using wf map_of_wf_in by fastforce
  qed
  then have "equal_entries m n \<longleftrightarrow> (\<forall>kv\<in>set m. Compare (snd kv) (Get_data n (fst kv)) = 0)"
    using IH by (auto simp: equal_entries_conv)
  then show ?thesis using True wf by (simp add: compareMaps_conv by_values_0 slices_Compare_cmp_0)
next
  case False
  then have "\<not> (length m = length n \<and> equal_entries m n)"
    using equal_keys [OF wf(1,2)] by (auto simp: equal_entries_conv)
  with False show ?thesis by (auto simp: compareMaps_conv slices_Compare_cmp_0)
qed

lemma Compare_Equal_aux:
  "ordered_value v \<Longrightarrow> ordered_value w \<Longrightarrow> no_nan_lists v \<Longrightarrow> Compare v w = 0 \<longleftrightarrow> Equal v w"
proof (induction "size v" arbitrary: v w rule: less_induct)
  case less
  show ?case
  proof (cases "Type_of v = Type_of w")
    case True
    then show ?thesis
    proof (cases rule: same_type_cases)
      case (Map m n)
      have "Compare (snd kv) u = 0 \<longleftrightarrow> Equal (snd kv) u" if "kv \<in> set m" "ordered_value u" for kv u
        using less that Map size_snd_less [OF that(1)] by auto
      then show ?thesis using less.prems Map Compare_Equal_maps [of m n] by simp
    next
      case (Float f g)
      then show ?thesis using less.prems f64_less_linear [of f g] f64_less_asym [of f g] f64_less_asym [of f f]
        by (auto simp: f64_compare_def f64_eq_def)
    next
      case (FloatList fl gl)
      then show ?thesis using less.prems
        by (simp add: slices_Compare_eq_0 f64_cmp_eq_0 list_all2_eq floats_equal_conv no_nan_lists.simps)
    qed (simp_all add: slices_Compare_cmp_0)
  next
    case False
    then show ?thesis by (simp add: Compare_Type Equal_Type)
  qed
qed

subsection \<open>Properties\<close>

text \<open>C26: on well-formed values without a scalar not-a-number, \<open>Compare\<close> is a three-way order:
  exchanging the arguments negates the result, "not greater" is transitive, and a value equals
  itself. Maps are compared by size, then by sorted keys, then by their values.\<close>

theorem Compare_order:
  assumes "ordered_value u" "ordered_value v" "ordered_value w"
  shows "Compare v u = - Compare u v \<and> Compare u u = 0 \<and>
    (Compare u v \<le> 0 \<and> Compare v w \<le> 0 \<longrightarrow> Compare u w \<le> 0)"
  using assms val.swap val.self_equal val.le_trans by blast

theorem Compare_order_witness:
  "Compare (VString ''a'') (VFloat (Fin 2)) = - Compare (VFloat (Fin 2)) (VString ''a'') \<and>
   Compare (VString ''a'') (VMap [(''k'', VNull)]) \<le> 0"
  using Compare_order [of "VFloat (Fin 2)" "VString ''a''" VNull]
    Compare_order [of "VString ''a''" "VStringList []" "VMap [(''k'', VNull)]"]
  by (simp add: Compare_Type)

text \<open>C30: \<open>Compare\<close> returns 0 exactly for the values that \<open>Equal\<close> accepts, as long as no number in
  them is not-a-number.\<close>

theorem Compare_Equal:
  assumes "ordered_value v" "ordered_value w" "no_nan_lists v"
  shows "Compare v w = 0 \<longleftrightarrow> Equal v w"
  using assms by (rule Compare_Equal_aux)

theorem Compare_Equal_witness:
  "Compare (VMap [(''a'', VNull), (''b'', VBool True)]) (VMap [(''b'', VBool True), (''a'', VNull)]) = 0"
proof -
  have "no_nan_lists (VMap [(''a'', VNull), (''b'', VBool True)])" by (simp add: no_nan_lists.simps)
  from Compare_Equal [OF _ _ this, of "VMap [(''b'', VBool True), (''a'', VNull)]"]
  show ?thesis by simp
qed

text \<open>A scalar not-a-number compares as equal to every number although \<open>Equal\<close> rejects the
  pair, so \<open>Compare\<close> is not transitive on all values: 1 and 2 both equal not-a-number.\<close>

lemma Compare_NaN:
  "Compare (VFloat NaN) (VFloat f) = 0 \<and> Compare (VFloat f) (VFloat NaN) = 0 \<and> \<not> Equal (VFloat NaN) (VFloat f) \<and>
   Compare (VFloat (Fin 2)) (VFloat NaN) \<le> 0 \<and> Compare (VFloat NaN) (VFloat (Fin 1)) \<le> 0 \<and>
   Compare (VFloat (Fin 2)) (VFloat (Fin 1)) = 1"
  by (cases f) (simp_all add: f64_compare_def f64_eq_def)

text \<open>The values that the protobuf form can represent: no zero value and no empty list of numbers.\<close>

function proto_safe :: "Value \<Rightarrow> bool" where
  "proto_safe v =
     (case v of VInvalid \<Rightarrow> False | VFloatList l \<Rightarrow> l \<noteq> [] | VMap m \<Rightarrow> (\<forall>kv\<in>set m. proto_safe (snd kv)) | _ \<Rightarrow> True)"
  by auto
termination by (relation "measure size") (auto simp: size_snd_less)

declare proto_safe.simps [simp del]

lemma map_filter_all: "(\<And>x. f (g x) = Some x) \<Longrightarrow> List.map_filter f (map g xs) = xs"
  by (induction xs) (auto simp: List.map_filter_def)

lemma map_filter_none: "(\<And>x. f (h x) = None) \<Longrightarrow> List.map_filter f (map h xs) = []"
  by (induction xs) (auto simp: List.map_filter_def)

lemma list_kinds [simp]:
  "ListValueToFloats (map PNumber fs) = fs" "ListValueToFloats (map PString ss) = []"
  "ListValueToStrings (map PString ss) = ss"
  by (simp_all add: ListValueToFloats_def ListValueToStrings_def map_filter_all map_filter_none)

lemma read_back:
  "proto_safe v \<Longrightarrow> ValueFromProto (ToProto v) = v"
proof (induction v)
  case (VMap m)
  then have "map_prod (\<lambda>k. k) (\<lambda>x. ValueFromProto (ToProto x)) kv = kv" if "kv \<in> set m" for kv
    using that by (cases kv) (force simp: proto_safe.simps [of "VMap m"])
  then show ?case by (auto simp: comp_def map_prod.compositionality intro: map_idI)
qed (simp_all add: proto_safe.simps Let_def proto_StringList_def proto_Float64List_def)

text \<open>C31: a value written to protobuf and read back is unchanged, except the zero value and empty
  number lists, which read back as null and as an empty string list.\<close>

theorem ValueFromProto_ToProto:
  "(proto_safe v \<longrightarrow> ValueFromProto (ToProto v) = v) \<and>
   ValueFromProto (ToProto VInvalid) = VNull \<and> ValueFromProto (ToProto (VFloatList [])) = VStringList []"
  using read_back [of v] by (simp add: proto_StringList_def proto_Float64List_def ListValueToFloats_def
        ListValueToStrings_def Let_def List.map_filter_def)

theorem ValueFromProto_ToProto_witness:
  "ValueFromProto (ToProto (VMap [(''a'', VStringList [''x'', ''y'']), (''b'', VFloatList [Fin 1, NaN])])) =
   VMap [(''a'', VStringList [''x'', ''y'']), (''b'', VFloatList [Fin 1, NaN])]"
  using ValueFromProto_ToProto [of "VMap [(''a'', VStringList [''x'', ''y'']), (''b'', VFloatList [Fin 1, NaN])]"]
  by (simp add: proto_safe.simps)

text \<open>An integer of at most 53 bits survives storage as a value: \<open>Int64\<close> and then the integer
  accessor give it back, whatever out-of-range conversions do.\<close>

lemma Int64_round_trip:
  assumes "\<bar>n\<bar> \<le> 2 ^ 53"
  shows "Int64_of oor (Int64 n) = n \<and> Int64List_of oor (Int64List [n]) = [n]"
proof -
  have "round53 (nat \<bar>n\<bar>) = nat \<bar>n\<bar>" using assms by (simp add: round53_def nat_le_iff)
  then have f: "f64_of_int n = Fin (of_int n)"
    by (simp add: f64_of_int_def sgn_mult_abs del: of_int_mult)
  have "trunc_rat (of_int n) = n" by (simp add: trunc_rat_def)
  moreover have "- (2 ^ 63) \<le> n \<and> n < 2 ^ 63" using assms by (auto simp: abs_le_iff)
  ultimately show ?thesis
    by (simp add: Int64_of_def TryInt64_def Int64_def Int64List_of_def TryInt64List_def Int64List_def f int64_of_f64_def)
qed

lemma Int64_round_trip_example: "Int64_of (\<lambda>_. 0) (Int64 (- 9007199254740992)) = - 9007199254740992"
  using Int64_round_trip [of "- 9007199254740992"] by simp

text \<open>\<open>IsEmpty\<close> holds exactly for the zero value, null, false, the number zero, and empty
  strings, lists and maps; the callbacks of \<open>Match\<close> run for one type only.\<close>

lemma IsEmpty_iff:
  "IsEmpty v \<longleftrightarrow> v \<in> {VInvalid, VNull, VBool False, VFloat (Fin 0), VString [], VStringList [], VFloatList [], VMap []}"
  by (cases v) (auto simp: IsEmpty_def Match_def call_if_def Let_def Bool_of_def Float64_of_def String_of_def
      StringList_of_def Float64List_of_def IsInt64_def IsInt64List_def f64_eq_def)

end
