(* ===== verification/GenericMap.thy ===== *)
theory GenericMap
  imports GoValue
begin

section \<open>Maps of values: object details (core/domain/genericmap.go, details.go)\<close>

text \<open>
  A \<open>*GenericMap\<close> is a pointer to a map of values: \<^term>\<open>None\<close> is nil. Reading a nil map gives the
  zero value, writing one panics, which is the outer \<^term>\<open>None\<close> of \<open>Set\<close> and \<open>Delete\<close>. Details are
  the maps keyed by relation keys. Left out are the conversions to and from the storage encoding,
  a third-party format.
\<close>

type_synonym gmap = "(string \<times> Value) list option"

subsection \<open>Writing\<close>

definition NewGenericMap :: gmap where
  "NewGenericMap = Some []"

definition Set :: "gmap \<Rightarrow> string \<Rightarrow> Value \<Rightarrow> gmap option" where
  "Set d k v = (case d of None \<Rightarrow> None | Some m \<Rightarrow> Some (Some (put k v m)))"

definition SetNull :: "gmap \<Rightarrow> string \<Rightarrow> gmap option" where
  "SetNull d k = Set d k VNull"

definition SetBool :: "gmap \<Rightarrow> string \<Rightarrow> bool \<Rightarrow> gmap option" where
  "SetBool d k v = Set d k (VBool v)"

definition SetString :: "gmap \<Rightarrow> string \<Rightarrow> string \<Rightarrow> gmap option" where
  "SetString d k v = Set d k (VString v)"

definition SetInt64 :: "gmap \<Rightarrow> string \<Rightarrow> int \<Rightarrow> gmap option" where
  "SetInt64 d k v = Set d k (Int64 v)"

definition SetFloat64 :: "gmap \<Rightarrow> string \<Rightarrow> f64 \<Rightarrow> gmap option" where
  "SetFloat64 d k v = Set d k (VFloat v)"

definition SetStringList :: "gmap \<Rightarrow> string \<Rightarrow> string list \<Rightarrow> gmap option" where
  "SetStringList d k v = Set d k (VStringList v)"

definition SetFloat64List :: "gmap \<Rightarrow> string \<Rightarrow> f64 list \<Rightarrow> gmap option" where
  "SetFloat64List d k v = Set d k (VFloatList v)"

definition SetInt64List :: "gmap \<Rightarrow> string \<Rightarrow> int list \<Rightarrow> gmap option" where
  "SetInt64List d k v = Set d k (Int64List v)"

definition SetProtoValue :: "gmap \<Rightarrow> string \<Rightarrow> pval \<Rightarrow> gmap option" where
  "SetProtoValue d k v = Set d k (ValueFromProto v)"

definition Delete :: "gmap \<Rightarrow> string \<Rightarrow> gmap option" where
  "Delete d k = (case d of None \<Rightarrow> None | Some m \<Rightarrow> Some (Some (del k m)))"

subsection \<open>Reading\<close>

definition Len :: "gmap \<Rightarrow> nat" where
  "Len d = (case d of None \<Rightarrow> 0 | Some m \<Rightarrow> length m)"

definition Keys :: "gmap \<Rightarrow> string list" where
  "Keys d = (case d of None \<Rightarrow> [] | Some m \<Rightarrow> keys m)"

text \<open>The sequence that an iterator yields; the callback that stops early sees a prefix.\<close>

definition Iterate :: "gmap \<Rightarrow> (string \<times> Value) list" where
  "Iterate d = (case d of None \<Rightarrow> [] | Some m \<Rightarrow> m)"

definition IterateSorted :: "gmap \<Rightarrow> (string \<times> Value) list" where
  "IterateSorted d = (case d of None \<Rightarrow> [] | Some m \<Rightarrow> map (\<lambda>k. (k, Get_data m k)) (sort (keys m)))"

definition IterateKeys :: "gmap \<Rightarrow> string list" where
  "IterateKeys d = (case d of None \<Rightarrow> [] | Some m \<Rightarrow> keys m)"

definition Get :: "gmap \<Rightarrow> string \<Rightarrow> Value" where
  "Get d k = (case d of None \<Rightarrow> VInvalid | Some m \<Rightarrow> Get_data m k)"

definition TryGet :: "gmap \<Rightarrow> string \<Rightarrow> Value option" where
  "TryGet d k = (case d of None \<Rightarrow> None | Some m \<Rightarrow> map_of m k)"

definition Has :: "gmap \<Rightarrow> string \<Rightarrow> bool" where
  "Has d k = (case d of None \<Rightarrow> False | Some m \<Rightarrow> map_of m k \<noteq> None)"

definition GetNull :: "gmap \<Rightarrow> string \<Rightarrow> bool" where
  "GetNull d k = IsNull (Get d k)"

definition gm_TryBool :: "gmap \<Rightarrow> string \<Rightarrow> bool option" where
  "gm_TryBool d k = TryBool (Get d k)"

definition GetBool :: "gmap \<Rightarrow> string \<Rightarrow> bool" where
  "GetBool d k = Bool_of (Get d k)"

definition gm_TryString :: "gmap \<Rightarrow> string \<Rightarrow> string option" where
  "gm_TryString d k = TryString (Get d k)"

definition GetString :: "gmap \<Rightarrow> string \<Rightarrow> string" where
  "GetString d k = String_of (Get d k)"

definition gm_TryInt64 :: "(f64 \<Rightarrow> int) \<Rightarrow> gmap \<Rightarrow> string \<Rightarrow> int option" where
  "gm_TryInt64 oor d k = TryInt64 oor (Get d k)"

definition GetInt64 :: "(f64 \<Rightarrow> int) \<Rightarrow> gmap \<Rightarrow> string \<Rightarrow> int" where
  "GetInt64 oor d k = Int64_of oor (Get d k)"

definition gm_TryFloat64 :: "gmap \<Rightarrow> string \<Rightarrow> f64 option" where
  "gm_TryFloat64 d k = TryFloat64 (Get d k)"

definition GetFloat64 :: "gmap \<Rightarrow> string \<Rightarrow> f64" where
  "GetFloat64 d k = Float64_of (Get d k)"

definition gm_TryStringList :: "gmap \<Rightarrow> string \<Rightarrow> string list option" where
  "gm_TryStringList d k = TryStringList (Get d k)"

definition GetStringList :: "gmap \<Rightarrow> string \<Rightarrow> string list" where
  "GetStringList d k = StringList_of (Get d k)"

definition gm_WrapToStringList :: "gmap \<Rightarrow> string \<Rightarrow> string list" where
  "gm_WrapToStringList d k = WrapToStringList (Get d k)"

definition gm_TryFloat64List :: "gmap \<Rightarrow> string \<Rightarrow> f64 list option" where
  "gm_TryFloat64List d k = TryFloat64List (Get d k)"

definition GetFloat64List :: "gmap \<Rightarrow> string \<Rightarrow> f64 list" where
  "GetFloat64List d k = Float64List_of (Get d k)"

definition gm_TryInt64List :: "(f64 \<Rightarrow> int) \<Rightarrow> gmap \<Rightarrow> string \<Rightarrow> int list option" where
  "gm_TryInt64List oor d k = TryInt64List oor (Get d k)"

definition GetInt64List :: "(f64 \<Rightarrow> int) \<Rightarrow> gmap \<Rightarrow> string \<Rightarrow> int list" where
  "GetInt64List oor d k = Int64List_of oor (Get d k)"

definition gm_TryMapValue :: "gmap \<Rightarrow> string \<Rightarrow> (string \<times> Value) list option" where
  "gm_TryMapValue d k = TryMapValue (Get d k)"

subsection \<open>Copies, equality and merging\<close>

definition Copy :: "gmap \<Rightarrow> gmap" where
  "Copy d = (case d of None \<Rightarrow> NewGenericMap | Some m \<Rightarrow> Some (fold (\<lambda>kv. put (fst kv) (snd kv)) m []))"

definition CopyWithoutKeys :: "gmap \<Rightarrow> string list \<Rightarrow> gmap" where
  "CopyWithoutKeys d ks =
     (case d of None \<Rightarrow> NewGenericMap
      | Some m \<Rightarrow> Some (fold (\<lambda>kv. put (fst kv) (snd kv)) [kv \<leftarrow> m. fst kv \<notin> set ks] []))"

definition CopyOnlyKeys :: "gmap \<Rightarrow> string list \<Rightarrow> gmap" where
  "CopyOnlyKeys d ks =
     (case d of None \<Rightarrow> NewGenericMap
      | Some m \<Rightarrow> Some (fold (\<lambda>kv. put (fst kv) (snd kv)) [kv \<leftarrow> m. fst kv \<in> set ks] []))"

definition gm_Equal :: "gmap \<Rightarrow> gmap \<Rightarrow> bool" where
  "gm_Equal d other =
     (case (d, other) of
        (None, None) \<Rightarrow> True
      | (Some a, Some b) \<Rightarrow> (if length a \<noteq> length b then False else equal_entries a b)
      | _ \<Rightarrow> False)"

text \<open>The loop sets the entries of the other map in a fresh copy, which is never nil.\<close>

definition Merge :: "gmap \<Rightarrow> gmap \<Rightarrow> gmap" where
  "Merge d other =
     (case d of None \<Rightarrow> Copy other
      | Some _ \<Rightarrow> map_option (\<lambda>res. fold (\<lambda>kv. put (fst kv) (snd kv)) (Iterate other) res) (Copy d))"

definition gm_ToProto :: "gmap \<Rightarrow> pval" where
  "gm_ToProto d = (case d of None \<Rightarrow> PStruct [] | Some m \<Rightarrow> PStruct (map (map_prod (\<lambda>k. k) ToProto) m))"

definition NewDetailsFromProto :: "(string \<times> pval) list \<Rightarrow> gmap" where
  "NewDetailsFromProto fs = Some (fold (\<lambda>kv. put (fst kv) (ValueFromProto (snd kv))) fs [])"

text \<open>\<open>StructDiff\<close>: what to set and what to delete to get from the first map to the second.\<close>

definition StructDiff :: "gmap \<Rightarrow> gmap \<Rightarrow> gmap \<times> string list" where
  "StructDiff st1 st2 =
     (case st1 of
        None \<Rightarrow> (st2, [])
      | Some m1 \<Rightarrow>
         (case st2 of
            None \<Rightarrow> (None, keys (Iterate st1))
          | Some m2 \<Rightarrow>
              (fold (\<lambda>kv diff. let v1 = Get st1 (fst kv) in
                  if \<not> Ok v1 \<or> \<not> Equal v1 (snd kv)
                  then Some (put (fst kv) (snd kv) (case diff of None \<Rightarrow> [] | Some m \<Rightarrow> m))
                  else diff) m2 None,
               [k \<leftarrow> keys m1. \<not> Has st2 k])))"

subsection \<open>Lookups\<close>

definition wf_gmap :: "gmap \<Rightarrow> bool" where
  "wf_gmap d = (case d of None \<Rightarrow> True | Some m \<Rightarrow> wf_map m)"

lemma wf_gmap_simps [simp]: "wf_gmap None" "wf_gmap (Some m) \<longleftrightarrow> wf_map m"
  by (simp_all add: wf_gmap_def)

lemma puts_lookup:
  "wf_map m \<Longrightarrow> wf_map kvs \<Longrightarrow> map_of (fold (\<lambda>kv. put (fst kv) (snd kv)) kvs m) k =
     (case map_of kvs k of Some v \<Rightarrow> Some v | None \<Rightarrow> map_of m k)"
  by (simp add: go_map.lookup_updates map_of_rev_wf)

lemma puts_nil: "wf_map kvs \<Longrightarrow> map_of (fold (\<lambda>kv. put (fst kv) (snd kv)) kvs []) = map_of kvs"
  by (auto simp: fun_eq_iff puts_lookup split: option.split)

lemma TryGet_Copy: "wf_gmap d \<Longrightarrow> TryGet (Copy d) = TryGet d"
  by (auto simp: fun_eq_iff TryGet_def Copy_def NewGenericMap_def puts_nil split: option.split)

lemma wf_Copy: "wf_gmap d \<Longrightarrow> wf_gmap (Copy d)"
  by (auto simp: Copy_def NewGenericMap_def go_map.invar_updates split: option.split)

lemma TryGet_Merge:
  "wf_gmap d \<Longrightarrow> wf_gmap other \<Longrightarrow> TryGet (Merge d other) k = (case TryGet other k of Some v \<Rightarrow> Some v | None \<Rightarrow> TryGet d k)"
  by (auto simp: Merge_def TryGet_def Iterate_def Copy_def NewGenericMap_def puts_lookup puts_nil go_map.invar_updates
      split: option.split)

lemma Merge_Some: "\<exists>m. Merge d other = Some m"
  by (auto simp: Merge_def Copy_def NewGenericMap_def split: option.split)

subsection \<open>StructDiff\<close>

text \<open>The entries that \<open>StructDiff\<close> sets.\<close>

definition changed_entries :: "(string \<times> Value) list \<Rightarrow> (string \<times> Value) list \<Rightarrow> (string \<times> Value) list" where
  "changed_entries m1 m2 = [kv \<leftarrow> m2. let v1 = Get_data m1 (fst kv) in \<not> Ok v1 \<or> \<not> Equal v1 (snd kv)]"

lemma struct_diff_fold:
  "fold (\<lambda>kv diff. let v1 = Get (Some m1) (fst kv) in
      if \<not> Ok v1 \<or> \<not> Equal v1 (snd kv)
      then Some (put (fst kv) (snd kv) (case diff of None \<Rightarrow> [] | Some m \<Rightarrow> m)) else diff) m2 d =
   (if changed_entries m1 m2 = [] then d
    else Some (fold (\<lambda>kv. put (fst kv) (snd kv)) (changed_entries m1 m2) (case d of None \<Rightarrow> [] | Some m \<Rightarrow> m)))"
  by (induction m2 arbitrary: d) (auto simp: changed_entries_def Let_def Get_def)

lemma StructDiff_conv:
  "StructDiff (Some m1) (Some m2) =
     (if changed_entries m1 m2 = [] then None else Some (fold (\<lambda>kv. put (fst kv) (snd kv)) (changed_entries m1 m2) []),
      [k \<leftarrow> keys m1. map_of m2 k = None])"
  unfolding StructDiff_def option.case struct_diff_fold by (simp add: Has_def)

lemma wf_changed_entries: "wf_map m2 \<Longrightarrow> wf_map (changed_entries m1 m2)"
  by (simp add: changed_entries_def)

lemma map_of_filter_wf:
  "wf_map m \<Longrightarrow> map_of (filter P m) k = (case map_of m k of None \<Rightarrow> None | Some v \<Rightarrow> if P (k, v) then Some v else None)"
proof (induction m)
  case (Cons kv m)
  obtain k' v' where kv: "kv = (k', v')" by (cases kv)
  with Cons.prems have n: "k' \<notin> fst ` set m" by simp
  then have "k' \<notin> fst ` set (filter P m)" by auto
  with n have "map_of m k' = None" "map_of (filter P m) k' = None" by (metis map_of_eq_None_iff)+
  with Cons kv show ?case by simp
qed simp

lemma map_of_changed_entries:
  "wf_map m2 \<Longrightarrow> map_of (changed_entries m1 m2) k =
     (case map_of m2 k of None \<Rightarrow> None
      | Some v \<Rightarrow> if \<not> Ok (Get_data m1 k) \<or> \<not> Equal (Get_data m1 k) v then Some v else None)"
  by (auto simp: changed_entries_def map_of_filter_wf Let_def split: option.split)

subsection \<open>Properties\<close>

text \<open>\<open>Merge\<close> reads the second map first and falls back to the first; \<open>Copy\<close> reads like the
  original; neither returns nil.\<close>

lemma Merge_lookup:
  assumes "wf_gmap d" "wf_gmap other"
  shows "TryGet (Merge d other) k = (case TryGet other k of Some v \<Rightarrow> Some v | None \<Rightarrow> TryGet d k) \<and>
    Merge d other \<noteq> None \<and> TryGet (Copy d) k = TryGet d k \<and> Copy d \<noteq> None"
  using assms Merge_Some [of d other] TryGet_Copy [of d]
  by (auto simp: TryGet_Merge Copy_def NewGenericMap_def split: option.split)

lemma Merge_lookup_example:
  "TryGet (Merge (Some [(''a'', VNull), (''b'', VBool True)]) (Some [(''b'', VString ''x'')])) ''b'' = Some (VString ''x'')"
  using Merge_lookup [of "Some [(''a'', VNull), (''b'', VBool True)]" "Some [(''b'', VString ''x'')]" "''b''"]
  by (simp add: TryGet_def)

text \<open>C28: the result of \<open>StructDiff\<close> is a patch: setting the returned entries in the first map and
  deleting the returned keys gives, for every key, what the second map has (the old value may stay
  where \<open>Equal\<close> accepts the new one).\<close>

theorem StructDiff_patch:
  assumes "wf_map m1" "wf_map m2" "StructDiff (Some m1) (Some m2) = (diff, absentKeys)"
  shows "rel_option (\<lambda>x y. x = y \<or> Equal x y)
    (map_of (fold del absentKeys (Iterate (Merge (Some m1) diff))) k) (map_of m2 k)"
proof -
  have diff: "diff = (if changed_entries m1 m2 = [] then None
       else Some (fold (\<lambda>kv. put (fst kv) (snd kv)) (changed_entries m1 m2) []))"
    and ab: "absentKeys = [k \<leftarrow> keys m1. map_of m2 k = None]"
    using assms(3) by (simp_all add: StructDiff_conv split: if_splits)
  have wf: "wf_gmap diff" using wf_changed_entries [OF assms(2)] by (simp add: diff go_map.invar_updates)
  have d: "TryGet diff k = map_of (changed_entries m1 m2) k"
    using wf_changed_entries [OF assms(2)] by (simp add: diff TryGet_def puts_nil)
  have wm: "wf_map (Iterate (Merge (Some m1) diff))"
    using assms(1) by (simp add: Merge_def Iterate_def Copy_def go_map.invar_updates)
  have "TryGet e k = map_of (Iterate e) k" for e by (simp add: TryGet_def Iterate_def split: option.split)
  then have m: "map_of (Iterate (Merge (Some m1) diff)) k = (case map_of (changed_entries m1 m2) k of Some v \<Rightarrow> Some v | None \<Rightarrow> map_of m1 k)"
    using TryGet_Merge [of "Some m1" diff k] assms(1) wf d by (metis TryGet_def option.case(2) wf_gmap_simps(2))
  show ?thesis
    unfolding go_map.lookup_deletes [OF wm] ab m map_of_changed_entries [OF assms(2)]
    using map_of_notin [of m1 k] by (auto simp: Get_data_def split: option.splits)
qed

theorem StructDiff_patch_witness:
  "map_of (fold del [''a''] (Iterate (Merge (Some [(''a'', VNull), (''b'', VBool True)]) (Some [(''c'', VString ''x'')])))) ''b''
     \<noteq> None"
proof -
  have sd: "StructDiff (Some [(''a'', VNull), (''b'', VBool True)]) (Some [(''c'', VString ''x''), (''b'', VBool True)])
      = (Some [(''c'', VString ''x'')], [''a''])"
    by (simp add: StructDiff_conv changed_entries_def Get_data_def)
  from StructDiff_patch [OF _ _ sd, of "''b''"] show ?thesis by (auto simp: option_rel_Some2)
qed

text \<open>\<open>StructDiff\<close> of maps whose values are all set finds nothing to do exactly when \<open>Equal\<close>
  accepts the two maps.\<close>

lemma StructDiff_nothing:
  assumes "wf_map m1" "wf_map m2" "\<forall>kv\<in>set m1. Ok (snd kv)"
  shows "StructDiff (Some m1) (Some m2) = (None, []) \<longleftrightarrow> gm_Equal (Some m1) (Some m2)"
proof -
  have g: "Get_data m (fst kv) = snd kv" if "wf_map m" "kv \<in> set m" for m kv
    using map_of_wf_in [OF that(1)] that(2) by (cases kv) (simp add: Get_data_def)
  have *: "StructDiff (Some m1) (Some m2) = (None, []) \<longleftrightarrow>
      (\<forall>kv\<in>set m2. Ok (Get_data m1 (fst kv)) \<and> Equal (Get_data m1 (fst kv)) (snd kv)) \<and>
      fst ` set m1 \<subseteq> fst ` set m2"
    by (auto simp: StructDiff_conv changed_entries_def filter_empty_conv Let_def map_of_notin)
  have len: "length m1 = length m2 \<longleftrightarrow> card (fst ` set m1) = card (fst ` set m2)"
    using assms(1,2) unfolding wf_map_def by (metis distinct_card length_map set_map)
  show ?thesis
  proof
    assume "StructDiff (Some m1) (Some m2) = (None, [])"
    with * have l: "\<forall>kv\<in>set m2. Ok (Get_data m1 (fst kv)) \<and> Equal (Get_data m1 (fst kv)) (snd kv)"
      and sub: "fst ` set m1 \<subseteq> fst ` set m2" by blast+
    have "fst ` set m2 \<subseteq> fst ` set m1"
    proof
      fix k assume "k \<in> fst ` set m2"
      with l have "Ok (Get_data m1 k)" by auto
      then have "map_of m1 k \<noteq> None" by (cases "map_of m1 k") (simp_all add: Get_data_def)
      then show "k \<in> fst ` set m1" by (metis map_of_eq_None_iff)
    qed
    with sub have "length m1 = length m2" by (simp add: len)
    moreover have "\<exists>w. map_of m2 (fst kv) = Some w \<and> Equal (snd kv) w" if "kv \<in> set m1" for kv
    proof -
      obtain w where "(fst kv, w) \<in> set m2" using sub \<open>kv \<in> set m1\<close> by force
      with l g [OF assms(1) that] map_of_wf_in [OF assms(2)] show ?thesis by fastforce
    qed
    ultimately show "gm_Equal (Some m1) (Some m2)" by (simp add: gm_Equal_def equal_entries_conv)
  next
    assume e: "gm_Equal (Some m1) (Some m2)"
    then have l: "length m1 = length m2" "\<forall>kv\<in>set m1. \<exists>w. map_of m2 (fst kv) = Some w \<and> Equal (snd kv) w"
      by (auto simp: gm_Equal_def equal_entries_conv split: if_splits)
    have "sort (keys m1) = sort (keys m2)" using l assms by (intro equal_keys) auto
    then have ks: "fst ` set m1 = fst ` set m2" by (metis set_map set_sort)
    have "Ok (Get_data m1 (fst kv)) \<and> Equal (Get_data m1 (fst kv)) (snd kv)" if "kv \<in> set m2" for kv
    proof -
      have "fst kv \<in> fst ` set m1" using ks that by (metis imageI)
      then obtain v where v: "(fst kv, v) \<in> set m1" by auto
      with l(2) obtain w where "map_of m2 (fst kv) = Some w" "Equal v w" by fastforce
      then show ?thesis using g [OF assms(1) v] g [OF assms(2) that] assms(3) v by (auto simp: Get_data_def)
    qed
    with ks show "StructDiff (Some m1) (Some m2) = (None, [])" by (simp add: *)
  qed
qed

lemma StructDiff_nothing_example:
  "StructDiff (Some [(''a'', VNull), (''b'', VBool True)]) (Some [(''b'', VBool True), (''a'', VNull)]) = (None, [])"
  using StructDiff_nothing [of "[(''a'', VNull), (''b'', VBool True)]" "[(''b'', VBool True), (''a'', VNull)]"]
  by (simp add: gm_Equal_def)

end
