(* ===== verification/SimpleBlocks.thy ===== *)
theory SimpleBlocks
  imports Slices GoValue
begin

section \<open>Simple blocks (core/block/simple)\<close>

text \<open>
  The block types without text or views: base, div, link, bookmark, file, embed (latex), widget,
  relation and table row. Each block type has \<open>Diff\<close>, which compares two versions of a block and
  returns event messages, and \<open>ApplyEvent\<close>, which replays such a message; \<open>applyEvent\<close> of the editor
  state (core/block/editor/state/event.go) dispatches a message to the block it names. The contract
  that ties them together is the locale \<open>diff_apply\<close>, interpreted for every block type.

  A block is a record with the fields of \<open>model.Block\<close>; its dynamic Go type is given by the
  constructor of the content. Protobuf enums are integers, except the file type. A nil struct or
  slice is an empty one, nil restrictions are \<^term>\<open>None\<close>. The comparison of protobuf structs is
  third-party code: it is the parameter \<open>cmpS\<close>, which returns 0 for equal structs.
\<close>

type_synonym fields = "(string \<times> pval) list"

text \<open>A field of an event message: set when the two versions differ.\<close>

definition changed :: "'a \<Rightarrow> 'a \<Rightarrow> 'a option" where
  "changed old new = (if old \<noteq> new then Some new else None)"

lemma changed_simps [simp]: "changed x x = None" "x \<noteq> y \<Longrightarrow> changed x y = Some y"
  by (simp_all add: changed_def)

lemma if_Some_eq: "(if P then Some x else None) = Some y \<longleftrightarrow> P \<and> y = x"
  by auto

text \<open>The replay of one field: \<open>if e.F != nil { c.F = e.F.GetValue() }\<close>.\<close>

definition set_opt :: "'v option \<Rightarrow> ('v \<Rightarrow> 'c \<Rightarrow> 'c) \<Rightarrow> 'c \<Rightarrow> 'c" where
  "set_opt e f c = (case e of Some v \<Rightarrow> f v c | None \<Rightarrow> c)"

lemma set_opt_changed: "f x c = c \<Longrightarrow> set_opt (changed x y) f c = f y c"
  by (auto simp: changed_def set_opt_def)

subsection \<open>Contents and event messages\<close>

datatype file_type = FT_None | FT_File | FT_Image | FT_Video | FT_Audio | FT_PDF

record BlockContentDiv =
  div_Style :: int

record EventBlockSetDiv =
  ediv_Id :: string
  ediv_Style :: "int option"

record BlockContentLink =
  link_TargetBlockId :: string
  link_Style :: int
  link_Fields :: fields
  link_IconSize :: int
  link_CardStyle :: int
  link_Description :: int
  link_Relations :: "string list"

record EventBlockSetLink =
  elink_Id :: string
  elink_Style :: "int option"
  elink_TargetBlockId :: "string option"
  elink_IconSize :: "int option"
  elink_CardStyle :: "int option"
  elink_Description :: "int option"
  elink_Relations :: "(string list) option"

record BlockContentBookmark =
  bookmark_Url :: string
  bookmark_Title :: string
  bookmark_Description :: string
  bookmark_ImageHash :: string
  bookmark_FaviconHash :: string
  bookmark_Type :: int
  bookmark_TargetObjectId :: string
  bookmark_State :: int

record EventBlockSetBookmark =
  ebookmark_Id :: string
  ebookmark_Type :: "int option"
  ebookmark_Url :: "string option"
  ebookmark_Title :: "string option"
  ebookmark_Description :: "string option"
  ebookmark_ImageHash :: "string option"
  ebookmark_FaviconHash :: "string option"
  ebookmark_TargetObjectId :: "string option"
  ebookmark_State :: "int option"

record BlockContentFile =
  file_Hash :: string
  file_Name :: string
  file_Type :: file_type
  file_Mime :: string
  file_Size :: int
  file_AddedAt :: int
  file_TargetObjectId :: string
  file_State :: int
  file_Style :: int

record EventBlockSetFile =
  efile_Id :: string
  efile_State :: "int option"
  efile_Type :: "file_type option"
  efile_Hash :: "string option"
  efile_Name :: "string option"
  efile_Size :: "int option"
  efile_Mime :: "string option"
  efile_Style :: "int option"
  efile_TargetObjectId :: "string option"

record BlockContentLatex =
  latex_Text :: string
  latex_Processor :: int

record EventBlockSetLatex =
  elatex_Id :: string
  elatex_Text :: "string option"
  elatex_Processor :: "int option"

record BlockContentWidget =
  widget_Layout :: int
  widget_Limit :: int
  widget_ViewId :: string
  widget_AutoAdded :: bool

record EventBlockSetWidget =
  ewidget_Id :: string
  ewidget_Layout :: "int option"
  ewidget_Limit :: "int option"
  ewidget_ViewId :: "string option"

record BlockContentRelation =
  relation_Key :: string

record EventBlockSetRelation =
  erelation_Id :: string
  erelation_Key :: "string option"

record BlockContentTableRow =
  row_IsHeader :: bool

record EventBlockSetTableRow =
  erow_Id :: string
  erow_IsHeader :: "bool option"

text \<open>Text content: the text is a sequence of code points, ranges count UTF-16 units.\<close>

record text_mark =
  mFrom :: int
  mTo :: int
  mType :: int
  mParam :: string

record BlockContentText =
  tText :: "nat list"
  tStyle :: int
  tMarks :: "text_mark list"
  tChecked :: bool
  tColor :: string
  tIconEmoji :: string
  tIconImage :: string

record EventBlockSetText =
  etext_Id :: string
  etext_Text :: "nat list option"
  etext_Style :: "int option"
  etext_Checked :: "bool option"
  etext_Marks :: "text_mark list option"
  etext_Color :: "string option"
  etext_IconImage :: "string option"
  etext_IconEmoji :: "string option"

datatype content =
    CDiv BlockContentDiv
  | CLink BlockContentLink
  | CBookmark BlockContentBookmark
  | CFile BlockContentFile
  | CLatex BlockContentLatex
  | CWidget BlockContentWidget
  | CRelation BlockContentRelation
  | CTableRow BlockContentTableRow
  | CText BlockContentText
  | CSmartblock
  | CLayout int
  | CTable
  | CTableColumn
  | COther string

record BlockRestrictions =
  r_Read :: bool
  r_Edit :: bool
  r_Remove :: bool
  r_Drag :: bool
  r_DropOn :: bool

record Block =
  Id :: string
  ChildrenIds :: "string list"
  Restrictions :: "BlockRestrictions option"
  Fields :: fields
  BackgroundColor :: string
  Align :: int
  VerticalAlign :: int
  Content :: content

datatype event_value =
    BlockSetChildrenIds string "string list"
  | BlockSetRestrictions string BlockRestrictions
  | BlockSetFields string fields
  | BlockSetBackgroundColor string string
  | BlockSetAlign string int
  | BlockSetVerticalAlign string int
  | BlockSetDiv EventBlockSetDiv
  | BlockSetLink EventBlockSetLink
  | BlockSetBookmark EventBlockSetBookmark
  | BlockSetFile EventBlockSetFile
  | BlockSetLatex EventBlockSetLatex
  | BlockSetWidget EventBlockSetWidget
  | BlockSetRelation EventBlockSetRelation
  | BlockSetTableRow EventBlockSetTableRow
  | BlockSetText EventBlockSetText

record EventMessage =
  Virtual :: bool
  SpaceId :: string
  MsgValue :: event_value

definition NewMessage :: "string \<Rightarrow> event_value \<Rightarrow> EventMessage" where
  "NewMessage spaceId v = \<lparr>Virtual = False, SpaceId = spaceId, MsgValue = v\<rparr>"

subsection \<open>The base block\<close>

fun stringSlicesEq_from :: "string list \<Rightarrow> string list \<Rightarrow> bool" where
  "stringSlicesEq_from (v # s1) (w # s2) = (if v \<noteq> w then False else stringSlicesEq_from s1 s2)"
| "stringSlicesEq_from _ _ = True"

definition stringSlicesEq :: "string list \<Rightarrow> string list \<Rightarrow> bool" where
  "stringSlicesEq s1 s2 = (if length s1 \<noteq> length s2 then False else stringSlicesEq_from s1 s2)"

definition fieldsEq :: "(fields \<Rightarrow> fields \<Rightarrow> int) \<Rightarrow> fields \<Rightarrow> fields \<Rightarrow> bool" where
  "fieldsEq cmpS f1 f2 \<longleftrightarrow> cmpS f1 f2 = 0"

definition no_restrictions :: BlockRestrictions where
  "no_restrictions = \<lparr>r_Read = False, r_Edit = False, r_Remove = False, r_Drag = False, r_DropOn = False\<rparr>"

text \<open>
  \<open>Base.Diff\<close> returns the messages and both blocks, since it replaces nil restrictions by empty
  ones in both.
\<close>

definition Base_Diff :: "(fields \<Rightarrow> fields \<Rightarrow> int) \<Rightarrow> string \<Rightarrow> Block \<Rightarrow> Block \<Rightarrow> EventMessage list \<times> Block \<times> Block" where
  "Base_Diff cmpS spaceId s m =
     (let rs = (case Restrictions s of None \<Rightarrow> no_restrictions | Some r \<Rightarrow> r);
          rm = (case Restrictions m of None \<Rightarrow> no_restrictions | Some r \<Rightarrow> r);
          msg = NewMessage spaceId
      in ((if \<not> stringSlicesEq (ChildrenIds m) (ChildrenIds s)
           then [msg (BlockSetChildrenIds (Id s) (ChildrenIds m))] else []) @
          (if rs \<noteq> rm then [msg (BlockSetRestrictions (Id s) rm)] else []) @
          (if \<not> fieldsEq cmpS (Fields s) (Fields m) then [msg (BlockSetFields (Id s) (Fields m))] else []) @
          (if BackgroundColor s \<noteq> BackgroundColor m
           then [msg (BlockSetBackgroundColor (Id s) (BackgroundColor m))] else []) @
          (if Align s \<noteq> Align m then [msg (BlockSetAlign (Id s) (Align m))] else []) @
          (if VerticalAlign s \<noteq> VerticalAlign m
           then [msg (BlockSetVerticalAlign (Id s) (VerticalAlign m))] else []),
          s\<lparr>Restrictions := Some rs\<rparr>, m\<lparr>Restrictions := Some rm\<rparr>))"

subsection \<open>Changes and events of the block types\<close>

text \<open>
  \<open>X_changes\<close> is the second half of \<open>X.Diff\<close>, which fills the event message, and \<open>X_ApplyEvent\<close>
  replays a message on the content.
\<close>

definition Div_changes :: "string \<Rightarrow> BlockContentDiv \<Rightarrow> BlockContentDiv \<Rightarrow> EventBlockSetDiv option" where
  "Div_changes i old new =
     (let changes = \<lparr>ediv_Id = i,
          ediv_Style = changed (div_Style old) (div_Style new)\<rparr>;
          hasChanges = (div_Style old \<noteq> div_Style new)
      in if hasChanges then Some changes else None)"

definition Div_ApplyEvent :: "EventBlockSetDiv \<Rightarrow> BlockContentDiv \<Rightarrow> BlockContentDiv" where
  "Div_ApplyEvent e c =
     (let c1 = set_opt (ediv_Style e) (\<lambda>v c. c\<lparr>div_Style := v\<rparr>) c
      in c1)"

definition Link_changes :: "string \<Rightarrow> BlockContentLink \<Rightarrow> BlockContentLink \<Rightarrow> EventBlockSetLink option" where
  "Link_changes i old new =
     (let changes = \<lparr>elink_Id = i,
          elink_Style = changed (link_Style old) (link_Style new),
          elink_TargetBlockId = changed (link_TargetBlockId old) (link_TargetBlockId new),
          elink_IconSize = changed (link_IconSize old) (link_IconSize new),
          elink_CardStyle = changed (link_CardStyle old) (link_CardStyle new),
          elink_Description = changed (link_Description old) (link_Description new),
          elink_Relations = changed (link_Relations old) (link_Relations new)\<rparr>;
          hasChanges = (link_Style old \<noteq> link_Style new \<or> link_TargetBlockId old \<noteq> link_TargetBlockId new \<or>
             link_IconSize old \<noteq> link_IconSize new \<or> link_CardStyle old \<noteq> link_CardStyle new \<or>
             link_Description old \<noteq> link_Description new \<or> \<not> SortedEquals (link_Relations old) (link_Relations new))
      in if hasChanges then Some changes else None)"

definition Link_ApplyEvent :: "EventBlockSetLink \<Rightarrow> BlockContentLink \<Rightarrow> BlockContentLink" where
  "Link_ApplyEvent e c =
     (let c1 = set_opt (elink_Style e) (\<lambda>v c. c\<lparr>link_Style := v\<rparr>) c;
          c2 = set_opt (elink_TargetBlockId e) (\<lambda>v c. c\<lparr>link_TargetBlockId := v\<rparr>) c1;
          c3 = set_opt (elink_IconSize e) (\<lambda>v c. c\<lparr>link_IconSize := v\<rparr>) c2;
          c4 = set_opt (elink_CardStyle e) (\<lambda>v c. c\<lparr>link_CardStyle := v\<rparr>) c3;
          c5 = set_opt (elink_Description e) (\<lambda>v c. c\<lparr>link_Description := v\<rparr>) c4;
          c6 = set_opt (elink_Relations e) (\<lambda>v c. c\<lparr>link_Relations := v\<rparr>) c5
      in c6)"

definition Bookmark_changes :: "string \<Rightarrow> BlockContentBookmark \<Rightarrow> BlockContentBookmark \<Rightarrow> EventBlockSetBookmark option" where
  "Bookmark_changes i old new =
     (let changes = \<lparr>ebookmark_Id = i,
          ebookmark_Type = changed (bookmark_Type old) (bookmark_Type new),
          ebookmark_Url = changed (bookmark_Url old) (bookmark_Url new),
          ebookmark_Title = changed (bookmark_Title old) (bookmark_Title new),
          ebookmark_Description = changed (bookmark_Description old) (bookmark_Description new),
          ebookmark_ImageHash = changed (bookmark_ImageHash old) (bookmark_ImageHash new),
          ebookmark_FaviconHash = changed (bookmark_FaviconHash old) (bookmark_FaviconHash new),
          ebookmark_TargetObjectId = changed (bookmark_TargetObjectId old) (bookmark_TargetObjectId new),
          ebookmark_State = changed (bookmark_State old) (bookmark_State new)\<rparr>;
          hasChanges = (bookmark_Type old \<noteq> bookmark_Type new \<or> bookmark_Url old \<noteq> bookmark_Url new \<or>
             bookmark_Title old \<noteq> bookmark_Title new \<or> bookmark_Description old \<noteq> bookmark_Description new \<or>
             bookmark_ImageHash old \<noteq> bookmark_ImageHash new \<or> bookmark_FaviconHash old \<noteq> bookmark_FaviconHash new \<or>
             bookmark_TargetObjectId old \<noteq> bookmark_TargetObjectId new \<or> bookmark_State old \<noteq> bookmark_State new)
      in if hasChanges then Some changes else None)"

definition Bookmark_ApplyEvent :: "EventBlockSetBookmark \<Rightarrow> BlockContentBookmark \<Rightarrow> BlockContentBookmark" where
  "Bookmark_ApplyEvent e c =
     (let c1 = set_opt (ebookmark_Type e) (\<lambda>v c. c\<lparr>bookmark_Type := v\<rparr>) c;
          c2 = set_opt (ebookmark_Description e) (\<lambda>v c. c\<lparr>bookmark_Description := v\<rparr>) c1;
          c3 = set_opt (ebookmark_FaviconHash e) (\<lambda>v c. c\<lparr>bookmark_FaviconHash := v\<rparr>) c2;
          c4 = set_opt (ebookmark_ImageHash e) (\<lambda>v c. c\<lparr>bookmark_ImageHash := v\<rparr>) c3;
          c5 = set_opt (ebookmark_Title e) (\<lambda>v c. c\<lparr>bookmark_Title := v\<rparr>) c4;
          c6 = set_opt (ebookmark_Url e) (\<lambda>v c. c\<lparr>bookmark_Url := v\<rparr>) c5;
          c7 = set_opt (ebookmark_TargetObjectId e) (\<lambda>v c. c\<lparr>bookmark_TargetObjectId := v\<rparr>) c6;
          c8 = set_opt (ebookmark_State e) (\<lambda>v c. c\<lparr>bookmark_State := v\<rparr>) c7
      in c8)"

definition File_changes :: "string \<Rightarrow> BlockContentFile \<Rightarrow> BlockContentFile \<Rightarrow> EventBlockSetFile option" where
  "File_changes i old new =
     (let changes = \<lparr>efile_Id = i,
          efile_State = changed (file_State old) (file_State new),
          efile_Type = changed (file_Type old) (file_Type new),
          efile_Hash = changed (file_Hash old) (file_Hash new),
          efile_Name = changed (file_Name old) (file_Name new),
          efile_Size = changed (file_Size old) (file_Size new),
          efile_Mime = changed (file_Mime old) (file_Mime new),
          efile_Style = changed (file_Style old) (file_Style new),
          efile_TargetObjectId = changed (file_TargetObjectId old) (file_TargetObjectId new)\<rparr>;
          hasChanges = (file_State old \<noteq> file_State new \<or> file_Type old \<noteq> file_Type new \<or> file_Hash old \<noteq> file_Hash new \<or>
             file_Name old \<noteq> file_Name new \<or> file_Size old \<noteq> file_Size new \<or> file_Mime old \<noteq> file_Mime new \<or>
             file_Style old \<noteq> file_Style new \<or> file_TargetObjectId old \<noteq> file_TargetObjectId new)
      in if hasChanges then Some changes else None)"

text \<open>\<open>filepath.Ext\<close>: the suffix from the last dot of the last path element.\<close>

fun ext_scan :: "string \<Rightarrow> string \<Rightarrow> string" where
  "ext_scan acc [] = []"
| "ext_scan acc (ch # rest) =
     (if ch = CHR ''.'' then ch # acc
      else if ch = CHR ''/'' then [] else ext_scan (ch # acc) rest)"

definition filepath_Ext :: "string \<Rightarrow> string" where
  "filepath_Ext name = ext_scan [] (rev name)"

definition has_prefix :: "string \<Rightarrow> string \<Rightarrow> bool" where
  "has_prefix s p \<longleftrightarrow> take (length p) s = p"

definition isImageFormatSupported :: "string \<Rightarrow> bool" where
  "isImageFormatSupported format \<longleftrightarrow>
     format \<in> set [''jpeg'', ''png'', ''gif'', ''vnd.microsoft.icon'', ''webp'', ''heic'', ''vnd.adobe.photoshop'', ''psd'', ''tiff'']"

text \<open>The two parts of a MIME type around its first slash.\<close>

definition IsImage :: "string \<Rightarrow> bool" where
  "IsImage mime =
     (if CHR ''/'' \<notin> set mime then False
      else takeWhile (\<lambda>ch. ch \<noteq> CHR ''/'') mime = ''image'' \<and>
        isImageFormatSupported (tl (dropWhile (\<lambda>ch. ch \<noteq> CHR ''/'') mime)))"

definition DetectTypeByMIME :: "string \<Rightarrow> string \<Rightarrow> file_type" where
  "DetectTypeByMIME name mime =
     (if filepath_Ext name = ''.svg'' then FT_Image
      else if IsImage mime then FT_Image
      else if has_prefix mime ''video'' then FT_Video
      else if has_prefix mime ''audio'' then FT_Audio
      else if has_prefix mime ''application/pdf'' then FT_PDF
      else FT_File)"

definition File_ApplyEvent :: "EventBlockSetFile \<Rightarrow> BlockContentFile \<Rightarrow> BlockContentFile" where
  "File_ApplyEvent e c =
     (let c0 = (case efile_Type e of
                  Some t \<Rightarrow>
                    (if t = FT_File
                     then (let name = (case efile_Name e of Some n \<Rightarrow> n | None \<Rightarrow> file_Name c)
                           in c\<lparr>file_Type := DetectTypeByMIME name (file_Mime c)\<rparr>)
                     else c\<lparr>file_Type := t\<rparr>)
                | None \<Rightarrow> c);
          c1 = set_opt (efile_State e) (\<lambda>v c. c\<lparr>file_State := v\<rparr>) c0;
          c2 = set_opt (efile_Hash e) (\<lambda>v c. c\<lparr>file_Hash := v\<rparr>) c1;
          c3 = set_opt (efile_Name e) (\<lambda>v c. c\<lparr>file_Name := v\<rparr>) c2;
          c4 = set_opt (efile_Mime e) (\<lambda>v c. c\<lparr>file_Mime := v\<rparr>) c3;
          c5 = set_opt (efile_Style e) (\<lambda>v c. c\<lparr>file_Style := v\<rparr>) c4;
          c6 = set_opt (efile_Size e) (\<lambda>v c. c\<lparr>file_Size := v\<rparr>) c5;
          c7 = set_opt (efile_TargetObjectId e) (\<lambda>v c. c\<lparr>file_TargetObjectId := v\<rparr>) c6
      in c7)"

definition Latex_changes :: "string \<Rightarrow> BlockContentLatex \<Rightarrow> BlockContentLatex \<Rightarrow> EventBlockSetLatex option" where
  "Latex_changes i old new =
     (let changes = \<lparr>elatex_Id = i,
          elatex_Text = changed (latex_Text old) (latex_Text new),
          elatex_Processor = changed (latex_Processor old) (latex_Processor new)\<rparr>;
          hasChanges = (latex_Text old \<noteq> latex_Text new \<or> latex_Processor old \<noteq> latex_Processor new)
      in if hasChanges then Some changes else None)"

definition Latex_ApplyEvent :: "EventBlockSetLatex \<Rightarrow> BlockContentLatex \<Rightarrow> BlockContentLatex" where
  "Latex_ApplyEvent e c =
     (let c1 = set_opt (elatex_Text e) (\<lambda>v c. c\<lparr>latex_Text := v\<rparr>) c;
          c2 = set_opt (elatex_Processor e) (\<lambda>v c. c\<lparr>latex_Processor := v\<rparr>) c1
      in c2)"

definition Widget_changes :: "string \<Rightarrow> BlockContentWidget \<Rightarrow> BlockContentWidget \<Rightarrow> EventBlockSetWidget option" where
  "Widget_changes i old new =
     (let changes = \<lparr>ewidget_Id = i,
          ewidget_Layout = changed (widget_Layout old) (widget_Layout new),
          ewidget_Limit = changed (widget_Limit old) (widget_Limit new),
          ewidget_ViewId = changed (widget_ViewId old) (widget_ViewId new)\<rparr>;
          hasChanges = (widget_Layout old \<noteq> widget_Layout new \<or> widget_Limit old \<noteq> widget_Limit new \<or>
             widget_ViewId old \<noteq> widget_ViewId new)
      in if hasChanges then Some changes else None)"

definition Widget_ApplyEvent :: "EventBlockSetWidget \<Rightarrow> BlockContentWidget \<Rightarrow> BlockContentWidget" where
  "Widget_ApplyEvent e c =
     (let c1 = set_opt (ewidget_Layout e) (\<lambda>v c. c\<lparr>widget_Layout := v\<rparr>) c;
          c2 = set_opt (ewidget_Limit e) (\<lambda>v c. c\<lparr>widget_Limit := v\<rparr>) c1;
          c3 = set_opt (ewidget_ViewId e) (\<lambda>v c. c\<lparr>widget_ViewId := v\<rparr>) c2
      in c3)"

definition Relation_changes :: "string \<Rightarrow> BlockContentRelation \<Rightarrow> BlockContentRelation \<Rightarrow> EventBlockSetRelation option" where
  "Relation_changes i old new =
     (let changes = \<lparr>erelation_Id = i,
          erelation_Key = changed (relation_Key old) (relation_Key new)\<rparr>;
          hasChanges = (relation_Key old \<noteq> relation_Key new)
      in if hasChanges then Some changes else None)"

definition Relation_ApplyEvent :: "EventBlockSetRelation \<Rightarrow> BlockContentRelation \<Rightarrow> BlockContentRelation" where
  "Relation_ApplyEvent e c =
     (let c1 = set_opt (erelation_Key e) (\<lambda>v c. c\<lparr>relation_Key := v\<rparr>) c
      in c1)"

definition Row_changes :: "string \<Rightarrow> BlockContentTableRow \<Rightarrow> BlockContentTableRow \<Rightarrow> EventBlockSetTableRow option" where
  "Row_changes i old new =
     (let changes = \<lparr>erow_Id = i,
          erow_IsHeader = changed (row_IsHeader old) (row_IsHeader new)\<rparr>;
          hasChanges = (row_IsHeader old \<noteq> row_IsHeader new)
      in if hasChanges then Some changes else None)"

definition Row_ApplyEvent :: "EventBlockSetTableRow \<Rightarrow> BlockContentTableRow \<Rightarrow> BlockContentTableRow" where
  "Row_ApplyEvent e c =
     (let c1 = set_opt (erow_IsHeader e) (\<lambda>v c. c\<lparr>row_IsHeader := v\<rparr>) c
      in c1)"

subsection \<open>Diff of the block types\<close>

definition different_type :: string where
  "different_type = ''can't make diff with different block type''"

definition incompatible :: string where
  "incompatible = ''can't make diff with incompatible block''"

text \<open>The base messages followed by the message of the block type, if it has changes.\<close>

definition with_changes :: "(fields \<Rightarrow> fields \<Rightarrow> int) \<Rightarrow> string \<Rightarrow> Block \<Rightarrow> Block \<Rightarrow> event_value option \<Rightarrow>
    string + EventMessage list \<times> Block \<times> Block" where
  "with_changes cmpS spaceId b other ch =
     (case Base_Diff cmpS spaceId b other of (msgs, b', other') \<Rightarrow>
        Inr (msgs @ (case ch of Some e \<Rightarrow> [NewMessage spaceId e] | None \<Rightarrow> []), b', other'))"

type_synonym diff_result = "string + EventMessage list \<times> Block \<times> Block"

definition Div_Diff :: "(fields \<Rightarrow> fields \<Rightarrow> int) \<Rightarrow> string \<Rightarrow> Block \<Rightarrow> BlockContentDiv \<Rightarrow> Block \<Rightarrow> diff_result" where
  "Div_Diff cmpS spaceId b c other =
     (case Content other of
        CDiv c2 \<Rightarrow> with_changes cmpS spaceId b other (map_option BlockSetDiv (Div_changes (Id other) c c2))
      | _ \<Rightarrow> Inl different_type)"

definition Link_Diff :: "(fields \<Rightarrow> fields \<Rightarrow> int) \<Rightarrow> string \<Rightarrow> Block \<Rightarrow> BlockContentLink \<Rightarrow> Block \<Rightarrow> diff_result" where
  "Link_Diff cmpS spaceId b c other =
     (case Content other of
        CLink c2 \<Rightarrow> with_changes cmpS spaceId b other (map_option BlockSetLink (Link_changes (Id other) c c2))
      | _ \<Rightarrow> Inl different_type)"

definition Bookmark_Diff :: "(fields \<Rightarrow> fields \<Rightarrow> int) \<Rightarrow> string \<Rightarrow> Block \<Rightarrow> BlockContentBookmark \<Rightarrow> Block \<Rightarrow> diff_result" where
  "Bookmark_Diff cmpS spaceId b c other =
     (case Content other of
        CBookmark c2 \<Rightarrow> with_changes cmpS spaceId b other (map_option BlockSetBookmark (Bookmark_changes (Id other) c c2))
      | _ \<Rightarrow> Inl different_type)"

definition File_Diff :: "(fields \<Rightarrow> fields \<Rightarrow> int) \<Rightarrow> string \<Rightarrow> Block \<Rightarrow> BlockContentFile \<Rightarrow> Block \<Rightarrow> diff_result" where
  "File_Diff cmpS spaceId b c other =
     (case Content other of
        CFile c2 \<Rightarrow> with_changes cmpS spaceId b other (map_option BlockSetFile (File_changes (Id other) c c2))
      | _ \<Rightarrow> Inl different_type)"

definition Latex_Diff :: "(fields \<Rightarrow> fields \<Rightarrow> int) \<Rightarrow> string \<Rightarrow> Block \<Rightarrow> BlockContentLatex \<Rightarrow> Block \<Rightarrow> diff_result" where
  "Latex_Diff cmpS spaceId b c other =
     (case Content other of
        CLatex c2 \<Rightarrow> with_changes cmpS spaceId b other (map_option BlockSetLatex (Latex_changes (Id other) c c2))
      | _ \<Rightarrow> Inl different_type)"

definition Widget_Diff :: "(fields \<Rightarrow> fields \<Rightarrow> int) \<Rightarrow> string \<Rightarrow> Block \<Rightarrow> BlockContentWidget \<Rightarrow> Block \<Rightarrow> diff_result" where
  "Widget_Diff cmpS spaceId b c other =
     (case Content other of
        CWidget c2 \<Rightarrow> with_changes cmpS spaceId b other (map_option BlockSetWidget (Widget_changes (Id other) c c2))
      | _ \<Rightarrow> Inl incompatible)"

definition Relation_Diff :: "(fields \<Rightarrow> fields \<Rightarrow> int) \<Rightarrow> string \<Rightarrow> Block \<Rightarrow> BlockContentRelation \<Rightarrow> Block \<Rightarrow> diff_result" where
  "Relation_Diff cmpS spaceId b c other =
     (case Content other of
        CRelation c2 \<Rightarrow> with_changes cmpS spaceId b other (map_option BlockSetRelation (Relation_changes (Id other) c c2))
      | _ \<Rightarrow> Inl different_type)"

definition Row_Diff :: "(fields \<Rightarrow> fields \<Rightarrow> int) \<Rightarrow> string \<Rightarrow> Block \<Rightarrow> BlockContentTableRow \<Rightarrow> Block \<Rightarrow> diff_result" where
  "Row_Diff cmpS spaceId b c other =
     (case Content other of
        CTableRow c2 \<Rightarrow> with_changes cmpS spaceId b other (map_option BlockSetTableRow (Row_changes (Id other) c c2))
      | _ \<Rightarrow> Inl different_type)"

text \<open>What \<open>Diff\<close> and \<open>ApplyEvent\<close> preserve: the old content with the compared fields of the new one.\<close>

definition Div_carry :: "BlockContentDiv \<Rightarrow> BlockContentDiv \<Rightarrow> BlockContentDiv" where
  "Div_carry old new = old\<lparr>div_Style := div_Style new\<rparr>"

definition Link_carry :: "BlockContentLink \<Rightarrow> BlockContentLink \<Rightarrow> BlockContentLink" where
  "Link_carry old new = old\<lparr>link_Style := link_Style new,
     link_TargetBlockId := link_TargetBlockId new,
     link_IconSize := link_IconSize new,
     link_CardStyle := link_CardStyle new,
     link_Description := link_Description new,
     link_Relations := link_Relations new\<rparr>"

definition Bookmark_carry :: "BlockContentBookmark \<Rightarrow> BlockContentBookmark \<Rightarrow> BlockContentBookmark" where
  "Bookmark_carry old new = old\<lparr>bookmark_Type := bookmark_Type new,
     bookmark_Url := bookmark_Url new,
     bookmark_Title := bookmark_Title new,
     bookmark_Description := bookmark_Description new,
     bookmark_ImageHash := bookmark_ImageHash new,
     bookmark_FaviconHash := bookmark_FaviconHash new,
     bookmark_TargetObjectId := bookmark_TargetObjectId new,
     bookmark_State := bookmark_State new\<rparr>"

definition File_carry :: "BlockContentFile \<Rightarrow> BlockContentFile \<Rightarrow> BlockContentFile" where
  "File_carry old new = old\<lparr>file_State := file_State new,
     file_Type := file_Type new,
     file_Hash := file_Hash new,
     file_Name := file_Name new,
     file_Size := file_Size new,
     file_Mime := file_Mime new,
     file_Style := file_Style new,
     file_TargetObjectId := file_TargetObjectId new\<rparr>"

definition Latex_carry :: "BlockContentLatex \<Rightarrow> BlockContentLatex \<Rightarrow> BlockContentLatex" where
  "Latex_carry old new = old\<lparr>latex_Text := latex_Text new, latex_Processor := latex_Processor new\<rparr>"

definition Widget_carry :: "BlockContentWidget \<Rightarrow> BlockContentWidget \<Rightarrow> BlockContentWidget" where
  "Widget_carry old new = old\<lparr>widget_Layout := widget_Layout new,
     widget_Limit := widget_Limit new,
     widget_ViewId := widget_ViewId new\<rparr>"

definition Relation_carry :: "BlockContentRelation \<Rightarrow> BlockContentRelation \<Rightarrow> BlockContentRelation" where
  "Relation_carry old new = old\<lparr>relation_Key := relation_Key new\<rparr>"

definition Row_carry :: "BlockContentTableRow \<Rightarrow> BlockContentTableRow \<Rightarrow> BlockContentTableRow" where
  "Row_carry old new = old\<lparr>row_IsHeader := row_IsHeader new\<rparr>"

subsection \<open>Other operations\<close>

text \<open>Constructors: a block is of a type when its content is, which the datatype says.\<close>

definition Div_SetStyle :: "int \<Rightarrow> BlockContentDiv \<Rightarrow> BlockContentDiv" where
  "Div_SetStyle style c = c\<lparr>div_Style := style\<rparr>"

definition Link_Validate :: "BlockContentLink \<Rightarrow> string option" where
  "Link_Validate c = (if link_TargetBlockId c = [] then Some ''targetBlockId is empty'' else None)"

definition Link_SetAppearance :: "BlockContentLink \<Rightarrow> BlockContentLink \<Rightarrow> BlockContentLink" where
  "Link_SetAppearance content c =
     c\<lparr>link_IconSize := link_IconSize content, link_CardStyle := link_CardStyle content,
       link_Description := link_Description content, link_Relations := link_Relations content\<rparr>"

definition Link_ReplaceLinkIds :: "(string \<Rightarrow> string) \<Rightarrow> BlockContentLink \<Rightarrow> BlockContentLink" where
  "Link_ReplaceLinkIds replacer c =
     (if link_TargetBlockId c \<noteq> [] then c\<lparr>link_TargetBlockId := replacer (link_TargetBlockId c)\<rparr> else c)"

definition Link_MigrateFile :: "(string \<Rightarrow> string) \<Rightarrow> BlockContentLink \<Rightarrow> BlockContentLink" where
  "Link_MigrateFile replacer c = Link_ReplaceLinkIds replacer c"

definition Link_FillSmartIds :: "BlockContentLink \<Rightarrow> string list \<Rightarrow> string list" where
  "Link_FillSmartIds c ids = (if link_TargetBlockId c \<noteq> [] then ids @ [link_TargetBlockId c] else ids)"

definition Link_HasSmartIds :: "BlockContentLink \<Rightarrow> bool" where
  "Link_HasSmartIds c \<longleftrightarrow> link_TargetBlockId c \<noteq> []"

definition Link_IsEmpty :: "BlockContentLink \<Rightarrow> bool" where
  "Link_IsEmpty c \<longleftrightarrow> link_TargetBlockId c = []"

definition Bookmark_SetState :: "int \<Rightarrow> BlockContentBookmark \<Rightarrow> BlockContentBookmark" where
  "Bookmark_SetState s c = c\<lparr>bookmark_State := s\<rparr>"

text \<open>The ids that \<open>IterateLinkedFiles\<close> hands to its callback, in order.\<close>

definition Bookmark_IterateLinkedFiles :: "BlockContentBookmark \<Rightarrow> string list" where
  "Bookmark_IterateLinkedFiles c =
     (if bookmark_ImageHash c \<noteq> [] then [bookmark_ImageHash c] else []) @
     (if bookmark_FaviconHash c \<noteq> [] then [bookmark_FaviconHash c] else [])"

definition Bookmark_FillFileHashes :: "BlockContentBookmark \<Rightarrow> string list \<Rightarrow> string list" where
  "Bookmark_FillFileHashes c hashes =
     (let hashes = (if bookmark_ImageHash c \<noteq> [] then hashes @ [bookmark_ImageHash c] else hashes)
      in if bookmark_FaviconHash c \<noteq> [] then hashes @ [bookmark_FaviconHash c] else hashes)"

definition Bookmark_MigrateFile :: "(string \<Rightarrow> string) \<Rightarrow> BlockContentBookmark \<Rightarrow> BlockContentBookmark" where
  "Bookmark_MigrateFile replacer c =
     (let c1 = (if bookmark_ImageHash c \<noteq> [] then c\<lparr>bookmark_ImageHash := replacer (bookmark_ImageHash c)\<rparr> else c)
      in if bookmark_FaviconHash c1 \<noteq> [] then c1\<lparr>bookmark_FaviconHash := replacer (bookmark_FaviconHash c1)\<rparr> else c1)"

definition Bookmark_ReplaceLinkIds :: "(string \<Rightarrow> string) \<Rightarrow> BlockContentBookmark \<Rightarrow> BlockContentBookmark" where
  "Bookmark_ReplaceLinkIds replacer c =
     (if bookmark_TargetObjectId c \<noteq> [] then c\<lparr>bookmark_TargetObjectId := replacer (bookmark_TargetObjectId c)\<rparr> else c)"

definition Bookmark_FillSmartIds :: "BlockContentBookmark \<Rightarrow> string list \<Rightarrow> string list" where
  "Bookmark_FillSmartIds c ids = (if bookmark_TargetObjectId c \<noteq> [] then ids @ [bookmark_TargetObjectId c] else ids)"

definition Bookmark_IsEmpty :: "BlockContentBookmark \<Rightarrow> bool" where
  "Bookmark_IsEmpty c \<longleftrightarrow> bookmark_TargetObjectId c = []"

text \<open>The setters of a file block; \<open>SetModel\<close> copies every field.\<close>

definition File_SetHash :: "string \<Rightarrow> BlockContentFile \<Rightarrow> BlockContentFile" where
  "File_SetHash v c = c\<lparr>file_Hash := v\<rparr>"

definition File_SetTargetObjectId :: "string \<Rightarrow> BlockContentFile \<Rightarrow> BlockContentFile" where
  "File_SetTargetObjectId v c = c\<lparr>file_TargetObjectId := v\<rparr>"

definition File_SetName :: "string \<Rightarrow> BlockContentFile \<Rightarrow> BlockContentFile" where
  "File_SetName v c = c\<lparr>file_Name := v\<rparr>"

definition File_SetState :: "int \<Rightarrow> BlockContentFile \<Rightarrow> BlockContentFile" where
  "File_SetState v c = c\<lparr>file_State := v\<rparr>"

definition File_SetType :: "file_type \<Rightarrow> BlockContentFile \<Rightarrow> BlockContentFile" where
  "File_SetType v c = c\<lparr>file_Type := v\<rparr>"

definition File_SetStyle :: "int \<Rightarrow> BlockContentFile \<Rightarrow> BlockContentFile" where
  "File_SetStyle v c = c\<lparr>file_Style := v\<rparr>"

definition File_SetSize :: "int \<Rightarrow> BlockContentFile \<Rightarrow> BlockContentFile" where
  "File_SetSize v c = c\<lparr>file_Size := v\<rparr>"

definition File_SetMIME :: "string \<Rightarrow> BlockContentFile \<Rightarrow> BlockContentFile" where
  "File_SetMIME v c = c\<lparr>file_Mime := v\<rparr>"

definition File_SetTime :: "int \<Rightarrow> BlockContentFile \<Rightarrow> BlockContentFile" where
  "File_SetTime unix c = c\<lparr>file_AddedAt := unix\<rparr>"

definition File_SetModel :: "BlockContentFile \<Rightarrow> BlockContentFile \<Rightarrow> BlockContentFile" where
  "File_SetModel m c =
     c\<lparr>file_Hash := file_Hash m, file_Type := file_Type m, file_Name := file_Name m, file_AddedAt := file_AddedAt m,
       file_Mime := file_Mime m, file_Style := file_Style m, file_Size := file_Size m, file_State := file_State m,
       file_TargetObjectId := file_TargetObjectId m\<rparr>"

definition File_IterateLinkedFiles :: "BlockContentFile \<Rightarrow> string list" where
  "File_IterateLinkedFiles c = (if file_TargetObjectId c \<noteq> [] then [file_TargetObjectId c] else [])"

definition File_FillFileHashes :: "BlockContentFile \<Rightarrow> string list \<Rightarrow> string list" where
  "File_FillFileHashes c hashes = (if file_Hash c \<noteq> [] then hashes @ [file_Hash c] else hashes)"

definition File_MigrateFile :: "(string \<Rightarrow> string) \<Rightarrow> BlockContentFile \<Rightarrow> BlockContentFile" where
  "File_MigrateFile migrateFunc c =
     (if file_TargetObjectId c \<noteq> [] then c else c\<lparr>file_TargetObjectId := migrateFunc (file_Hash c)\<rparr>)"

definition File_FillSmartIds :: "BlockContentFile \<Rightarrow> string list \<Rightarrow> string list" where
  "File_FillSmartIds c ids = (if file_TargetObjectId c \<noteq> [] then ids @ [file_TargetObjectId c] else ids)"

definition File_IsEmpty :: "BlockContentFile \<Rightarrow> bool" where
  "File_IsEmpty c \<longleftrightarrow> file_TargetObjectId c = [] \<and> file_Hash c = []"

definition Latex_IsEmpty :: "BlockContentLatex \<Rightarrow> bool" where
  "Latex_IsEmpty c \<longleftrightarrow> latex_Text c = []"

text \<open>\<open>strings.Index\<close> and \<open>strings.LastIndex\<close> of a one-character separator.\<close>

definition str_Index :: "string \<Rightarrow> char \<Rightarrow> int" where
  "str_Index s ch = find_from (\<lambda>x. x = ch) 0 s"

definition str_LastIndex :: "string \<Rightarrow> char \<Rightarrow> int" where
  "str_LastIndex s ch = (if ch \<in> set s then int (length s) - 1 - str_Index (rev s) ch else -1)"

definition IsTableCell :: "string \<Rightarrow> bool" where
  "IsTableCell blockId =
     (let index = str_Index blockId (CHR ''-''); lastIndex = str_LastIndex blockId (CHR ''-'')
      in if index \<noteq> lastIndex \<or> index = -1 \<or> index = 0 \<or> index = int (length blockId) - 1 then False else True)"

subsection \<open>The contract of Diff and ApplyEvent\<close>

text \<open>
  Replaying the message on the old content gives \<open>carry\<close>, the old content with the compared fields
  of the new one; no message means that nothing compared has changed. \<open>ok\<close> restricts the pairs for
  which the replay is promised.
\<close>

definition replay :: "('e \<Rightarrow> 'c \<Rightarrow> 'c) \<Rightarrow> 'e option \<Rightarrow> 'c \<Rightarrow> 'c" where
  "replay app ch c = (case ch of None \<Rightarrow> c | Some e \<Rightarrow> app e c)"

locale diff_apply =
  fixes changes :: "'c \<Rightarrow> 'c \<Rightarrow> 'e option" and app :: "'e \<Rightarrow> 'c \<Rightarrow> 'c"
    and carry :: "'c \<Rightarrow> 'c \<Rightarrow> 'c" and ok :: "'c \<Rightarrow> 'c \<Rightarrow> bool"
  assumes none: "changes a b = None \<Longrightarrow> carry a b = a"
    and some: "changes a b = Some e \<Longrightarrow> ok a b \<Longrightarrow> app e a = carry a b"
    and settled: "ok a b \<Longrightarrow> changes (carry a b) b = None"
begin

lemma replay_carry: "ok a b \<Longrightarrow> replay app (changes a b) a = carry a b"
  by (cases "changes a b") (simp_all add: replay_def none some)

lemma converges: "ok a b \<Longrightarrow> changes (replay app (changes a b) a) b = None"
  by (simp add: replay_carry settled)

lemma nothing_iff: "ok a b \<Longrightarrow> changes a b = None \<longleftrightarrow> carry a b = a"
  using none settled [of a b] by auto

end

definition File_ok :: "BlockContentFile \<Rightarrow> BlockContentFile \<Rightarrow> bool" where
  "File_ok old new \<longleftrightarrow>
     (file_Type old \<noteq> file_Type new \<and> file_Type new = FT_File \<longrightarrow> DetectTypeByMIME (file_Name new) (file_Mime old) = FT_File)"

interpretation div_blk: diff_apply "Div_changes i" Div_ApplyEvent Div_carry "\<lambda>_ _. True" for i
proof (unfold_locales, goal_cases)
  case (1 a b)
  then show ?case by (cases a; cases b) (simp add: Div_changes_def Div_carry_def Let_def split: if_splits)
next
  case (2 a b e)
  note e = 2(1) [unfolded Div_changes_def Let_def if_Some_eq, THEN conjunct2]
  show ?case
    unfolding e Div_ApplyEvent_def Div_carry_def Let_def EventBlockSetDiv.simps
    by (cases a; cases b; hypsubst) (simp only: set_opt_changed BlockContentDiv.simps)
next
  case (3 a b)
  show ?case by (simp add: Div_changes_def Div_carry_def Let_def)
qed

interpretation link_blk: diff_apply "Link_changes i" Link_ApplyEvent Link_carry "\<lambda>_ _. True" for i
proof (unfold_locales, goal_cases)
  case (1 a b)
  then show ?case by (cases a; cases b) (simp add: Link_changes_def Link_carry_def Let_def split: if_splits)
next
  case (2 a b e)
  note e = 2(1) [unfolded Link_changes_def Let_def if_Some_eq, THEN conjunct2]
  show ?case
    unfolding e Link_ApplyEvent_def Link_carry_def Let_def EventBlockSetLink.simps
    by (cases a; cases b; hypsubst) (simp only: set_opt_changed BlockContentLink.simps)
next
  case (3 a b)
  show ?case by (simp add: Link_changes_def Link_carry_def Let_def)
qed

interpretation bookmark_blk: diff_apply "Bookmark_changes i" Bookmark_ApplyEvent Bookmark_carry "\<lambda>_ _. True" for i
proof (unfold_locales, goal_cases)
  case (1 a b)
  then show ?case by (cases a; cases b) (simp add: Bookmark_changes_def Bookmark_carry_def Let_def split: if_splits)
next
  case (2 a b e)
  note e = 2(1) [unfolded Bookmark_changes_def Let_def if_Some_eq, THEN conjunct2]
  show ?case
    unfolding e Bookmark_ApplyEvent_def Bookmark_carry_def Let_def EventBlockSetBookmark.simps
    by (cases a; cases b; hypsubst) (simp only: set_opt_changed BlockContentBookmark.simps)
next
  case (3 a b)
  show ?case by (simp add: Bookmark_changes_def Bookmark_carry_def Let_def)
qed

interpretation latex_blk: diff_apply "Latex_changes i" Latex_ApplyEvent Latex_carry "\<lambda>_ _. True" for i
proof (unfold_locales, goal_cases)
  case (1 a b)
  then show ?case by (cases a; cases b) (simp add: Latex_changes_def Latex_carry_def Let_def split: if_splits)
next
  case (2 a b e)
  note e = 2(1) [unfolded Latex_changes_def Let_def if_Some_eq, THEN conjunct2]
  show ?case
    unfolding e Latex_ApplyEvent_def Latex_carry_def Let_def EventBlockSetLatex.simps
    by (cases a; cases b; hypsubst) (simp only: set_opt_changed BlockContentLatex.simps)
next
  case (3 a b)
  show ?case by (simp add: Latex_changes_def Latex_carry_def Let_def)
qed

interpretation widget_blk: diff_apply "Widget_changes i" Widget_ApplyEvent Widget_carry "\<lambda>_ _. True" for i
proof (unfold_locales, goal_cases)
  case (1 a b)
  then show ?case by (cases a; cases b) (simp add: Widget_changes_def Widget_carry_def Let_def split: if_splits)
next
  case (2 a b e)
  note e = 2(1) [unfolded Widget_changes_def Let_def if_Some_eq, THEN conjunct2]
  show ?case
    unfolding e Widget_ApplyEvent_def Widget_carry_def Let_def EventBlockSetWidget.simps
    by (cases a; cases b; hypsubst) (simp only: set_opt_changed BlockContentWidget.simps)
next
  case (3 a b)
  show ?case by (simp add: Widget_changes_def Widget_carry_def Let_def)
qed

interpretation relation_blk: diff_apply "Relation_changes i" Relation_ApplyEvent Relation_carry "\<lambda>_ _. True" for i
proof (unfold_locales, goal_cases)
  case (1 a b)
  then show ?case by (cases a; cases b) (simp add: Relation_changes_def Relation_carry_def Let_def split: if_splits)
next
  case (2 a b e)
  note e = 2(1) [unfolded Relation_changes_def Let_def if_Some_eq, THEN conjunct2]
  show ?case
    unfolding e Relation_ApplyEvent_def Relation_carry_def Let_def EventBlockSetRelation.simps
    by (cases a; cases b; hypsubst) (simp only: set_opt_changed BlockContentRelation.simps)
next
  case (3 a b)
  show ?case by (simp add: Relation_changes_def Relation_carry_def Let_def)
qed

interpretation row_blk: diff_apply "Row_changes i" Row_ApplyEvent Row_carry "\<lambda>_ _. True" for i
proof (unfold_locales, goal_cases)
  case (1 a b)
  then show ?case by (cases a; cases b) (simp add: Row_changes_def Row_carry_def Let_def split: if_splits)
next
  case (2 a b e)
  note e = 2(1) [unfolded Row_changes_def Let_def if_Some_eq, THEN conjunct2]
  show ?case
    unfolding e Row_ApplyEvent_def Row_carry_def Let_def EventBlockSetTableRow.simps
    by (cases a; cases b; hypsubst) (simp only: set_opt_changed BlockContentTableRow.simps)
next
  case (3 a b)
  show ?case by (simp add: Row_changes_def Row_carry_def Let_def)
qed

interpretation file_blk: diff_apply "File_changes i" File_ApplyEvent File_carry File_ok for i
proof (unfold_locales, goal_cases)
  case (1 a b)
  then show ?case by (cases a; cases b) (simp add: File_changes_def File_carry_def Let_def split: if_splits)
next
  case (2 a b e)
  note e = 2(1) [unfolded File_changes_def Let_def if_Some_eq, THEN conjunct2]
  define c0 where "c0 = a\<lparr>file_Type := file_Type b\<rparr>"
  have t: "(case changed (file_Type a) (file_Type b) of None \<Rightarrow> a
      | Some t \<Rightarrow> if t = FT_File
          then a\<lparr>file_Type := DetectTypeByMIME (case changed (file_Name a) (file_Name b) of None \<Rightarrow> file_Name a | Some n \<Rightarrow> n) (file_Mime a)\<rparr>
          else a\<lparr>file_Type := t\<rparr>) = c0"
    using 2(2) by (auto simp: File_ok_def changed_def c0_def)
  show ?case
    unfolding e File_ApplyEvent_def File_carry_def Let_def EventBlockSetFile.simps t
    unfolding c0_def
    by (cases a; cases b; hypsubst) (simp only: set_opt_changed BlockContentFile.simps)
next
  case (3 a b)
  show ?case by (simp add: File_changes_def File_carry_def Let_def)
qed

subsection \<open>Dispatch of events\<close>

text \<open>The block that an event names; the messages for children and restrictions are not handled.\<close>

fun event_target :: "event_value \<Rightarrow> string option" where
  "event_target (BlockSetChildrenIds _ _) = None"
| "event_target (BlockSetRestrictions _ _) = None"
| "event_target (BlockSetFields i _) = Some i"
| "event_target (BlockSetBackgroundColor i _) = Some i"
| "event_target (BlockSetAlign i _) = Some i"
| "event_target (BlockSetVerticalAlign i _) = Some i"
| "event_target (BlockSetDiv e) = Some (ediv_Id e)"
| "event_target (BlockSetLink e) = Some (elink_Id e)"
| "event_target (BlockSetBookmark e) = Some (ebookmark_Id e)"
| "event_target (BlockSetFile e) = Some (efile_Id e)"
| "event_target (BlockSetLatex e) = Some (elatex_Id e)"
| "event_target (BlockSetWidget e) = Some (ewidget_Id e)"
| "event_target (BlockSetRelation e) = Some (erelation_Id e)"
| "event_target (BlockSetTableRow e) = Some (erow_Id e)"
| "event_target (BlockSetText e) = Some (etext_Id e)"

end
