(* ===== verification/Utf16.thy ===== *)
theory Utf16
  imports Prelude
begin

section \<open>UTF-16 positions in text (util/text/text.go)\<close>

text \<open>
  Ranges in text blocks count UTF-16 units. A text is the sequence of its code points, which is
  what ranging over a Go string yields. \<open>utf16.Encode\<close> and \<open>utf16.Decode\<close> of the standard library
  are written out, unpaired surrogates becoming the replacement character.
\<close>

definition surr1 :: nat where "surr1 = 0xd800"
definition surr2 :: nat where "surr2 = 0xdc00"
definition surr3 :: nat where "surr3 = 0xe000"
definition maxRune :: nat where "maxRune = 0x10ffff"
definition replacementChar :: nat where "replacementChar = 0xfffd"

lemmas utf16_consts = surr1_def surr2_def surr3_def maxRune_def replacementChar_def

definition RuneLen :: "nat \<Rightarrow> int" where
  "RuneLen r =
     (if r < surr1 \<or> (surr3 \<le> r \<and> r < 0x10000) then 1
      else if 0x10000 \<le> r \<and> r \<le> maxRune then 2 else -1)"

definition encode_rune :: "nat \<Rightarrow> nat list" where
  "encode_rune r =
     (if RuneLen r = 1 then [r]
      else if RuneLen r = 2
        then [surr1 + ((r - 0x10000) div 0x400) mod 0x400, surr2 + (r - 0x10000) mod 0x400]
      else [replacementChar])"

definition StrToUTF16 :: "nat list \<Rightarrow> nat list" where
  "StrToUTF16 str = concat (map encode_rune str)"

fun UTF16ToStr :: "nat list \<Rightarrow> nat list" where
  "UTF16ToStr [] = []"
| "UTF16ToStr [r] = [if r < surr1 \<or> surr3 \<le> r then r else replacementChar]"
| "UTF16ToStr (r # r2 # rest) =
     (if r < surr1 \<or> surr3 \<le> r then r # UTF16ToStr (r2 # rest)
      else if r < surr2 \<and> surr2 \<le> r2 \<and> r2 < surr3
        then ((r - surr1) * 0x400 + (r2 - surr2) + 0x10000) # UTF16ToStr rest
      else replacementChar # UTF16ToStr (r2 # rest))"

definition UTF16RuneCountString :: "nat list \<Rightarrow> int" where
  "UTF16RuneCountString str = fold (\<lambda>s n. n + RuneLen s) str 0"

fun len_le_from :: "int \<Rightarrow> nat list \<Rightarrow> int \<Rightarrow> bool" where
  "len_le_from n [] maxLen = True"
| "len_le_from n (s # str) maxLen = (if n + RuneLen s > maxLen then False else len_le_from (n + RuneLen s) str maxLen)"

definition isUtf16LengthLessOrEqual :: "nat list \<Rightarrow> int \<Rightarrow> bool" where
  "isUtf16LengthLessOrEqual str maxLen = len_le_from 0 str maxLen"

text \<open>\<open>unicode.IsSpace\<close>.\<close>

definition IsSpace :: "nat \<Rightarrow> bool" where
  "IsSpace r \<longleftrightarrow> r \<in> {9, 10, 11, 12, 13, 32, 0x85, 0xa0, 0x1680, 0x2028, 0x2029, 0x202f, 0x205f, 0x3000} \<or>
     (0x2000 \<le> r \<and> r \<le> 0x200a)"

text \<open>
  The loop of \<open>Truncate\<close>; \<open>i\<close> is the position of the next code point, where Go counts bytes: both
  cut the text at the same code point and are zero together. \<^term>\<open>None\<close> means that the loop ends.
\<close>

fun truncate_loop :: "nat list \<Rightarrow> nat \<Rightarrow> int \<Rightarrow> nat \<Rightarrow> nat \<Rightarrow> int \<Rightarrow> nat option" where
  "truncate_loop [] i utf16Len lastWordIndex lastNonSpace maxLen = None"
| "truncate_loop (r # rest) i utf16Len lastWordIndex lastNonSpace maxLen =
     (let lastWordIndex = (if IsSpace r then lastNonSpace else lastWordIndex);
          lastNonSpace = (if IsSpace r then lastNonSpace else i + 1);
          utf16Len = utf16Len + RuneLen r
      in if utf16Len > maxLen then Some (if lastWordIndex = 0 then i else lastWordIndex)
         else truncate_loop rest (i + 1) utf16Len lastWordIndex lastNonSpace maxLen)"

definition Truncate :: "nat list \<Rightarrow> int \<Rightarrow> nat list \<Rightarrow> nat list" where
  "Truncate str maxLen ending =
     (if isUtf16LengthLessOrEqual str maxLen then str
      else (case truncate_loop str 0 0 0 0 (maxLen - UTF16RuneCountString ending) of
              Some runeEnd \<Rightarrow> (if ending = [] then take runeEnd str else take runeEnd str @ ending)
            | None \<Rightarrow> str))"

definition TruncateEllipsized :: "nat list \<Rightarrow> int \<Rightarrow> nat list" where
  "TruncateEllipsized str len = Truncate str len [32, 0x2026]"

subsection \<open>Encoding and decoding\<close>

text \<open>The code points that a Go string can hold.\<close>

definition valid_text :: "nat list \<Rightarrow> bool" where
  "valid_text str \<longleftrightarrow> (\<forall>r\<in>set str. r < surr1 \<or> (surr3 \<le> r \<and> r \<le> maxRune))"

lemma valid_text_simps [simp]:
  "valid_text []" "valid_text (r # str) \<longleftrightarrow> (r < surr1 \<or> (surr3 \<le> r \<and> r \<le> maxRune)) \<and> valid_text str"
  "valid_text (xs @ ys) \<longleftrightarrow> valid_text xs \<and> valid_text ys"
  by (auto simp: valid_text_def)

lemma valid_text_take [simp]: "valid_text xs \<Longrightarrow> valid_text (take n xs)"
  and valid_text_drop [simp]: "valid_text xs \<Longrightarrow> valid_text (drop n xs)"
  by (auto simp: valid_text_def dest: in_set_takeD in_set_dropD)

lemma StrToUTF16_simps [simp]:
  "StrToUTF16 [] = []" "StrToUTF16 (r # str) = encode_rune r @ StrToUTF16 str"
  "StrToUTF16 (xs @ ys) = StrToUTF16 xs @ StrToUTF16 ys"
  by (simp_all add: StrToUTF16_def)

lemma decode_encode_rune:
  assumes "r < surr1 \<or> (surr3 \<le> r \<and> r \<le> maxRune)"
  shows "UTF16ToStr (encode_rune r @ us) = r # UTF16ToStr us"
proof (cases "r < 0x10000")
  case True
  then have "encode_rune r = [r]" using assms by (auto simp: encode_rune_def RuneLen_def)
  with assms show ?thesis by (cases us) auto
next
  case False
  define q where "q = r - 0x10000"
  have q: "q < 0x100000" and r: "r = q + 0x10000" using assms False by (auto simp: q_def utf16_consts)
  have "RuneLen r = 2" using assms False by (auto simp: RuneLen_def utf16_consts)
  then have e: "encode_rune r = [surr1 + (q div 0x400) mod 0x400, surr2 + q mod 0x400]"
    by (simp add: encode_rune_def q_def)
  have "(q div 0x400) mod 0x400 = q div 0x400" using q by simp
  moreover have "q div 0x400 * 0x400 + q mod 0x400 = q" by simp
  ultimately show ?thesis
    unfolding e using q r by (simp add: utf16_consts)
qed

lemma decode_encode_append: "valid_text str \<Longrightarrow> UTF16ToStr (StrToUTF16 str @ us) = str @ UTF16ToStr us"
  by (induction str) (simp_all add: decode_encode_rune)

lemma decode_encode [simp]: "valid_text str \<Longrightarrow> UTF16ToStr (StrToUTF16 str) = str"
  using decode_encode_append [of str "[]"] by simp

lemma length_encode_rune: "r < surr1 \<or> (surr3 \<le> r \<and> r \<le> maxRune) \<Longrightarrow> int (length (encode_rune r)) = RuneLen r"
  by (auto simp: encode_rune_def RuneLen_def utf16_consts)

lemma count_fold: "fold (\<lambda>s n. n + RuneLen s) str n = n + fold (\<lambda>s n. n + RuneLen s) str 0"
proof (induction str arbitrary: n)
  case (Cons s str)
  show ?case using Cons [of "n + RuneLen s"] Cons [of "RuneLen s"] by simp
qed simp

lemma RuneCount_simps [simp]:
  "UTF16RuneCountString [] = 0" "UTF16RuneCountString (r # str) = RuneLen r + UTF16RuneCountString str"
  using count_fold [of str "RuneLen r"] by (simp_all add: UTF16RuneCountString_def)

lemma RuneCount_append [simp]: "UTF16RuneCountString (xs @ ys) = UTF16RuneCountString xs + UTF16RuneCountString ys"
  by (induction xs) simp_all

lemma RuneCount_length: "valid_text str \<Longrightarrow> UTF16RuneCountString str = int (length (StrToUTF16 str))"
  by (induction str) (simp_all add: length_encode_rune)

lemma RuneLen_pos: "r < surr1 \<or> (surr3 \<le> r \<and> r \<le> maxRune) \<Longrightarrow> 1 \<le> RuneLen r"
  by (auto simp: RuneLen_def utf16_consts)

lemma RuneCount_nonneg: "valid_text str \<Longrightarrow> 0 \<le> UTF16RuneCountString str"
  by (simp add: RuneCount_length)

text \<open>Positions that do not fall inside a surrogate pair.\<close>

definition boundary :: "nat list \<Rightarrow> int \<Rightarrow> bool" where
  "boundary str pos \<longleftrightarrow> (\<exists>xs ys. str = xs @ ys \<and> pos = UTF16RuneCountString xs)"

lemma cut_at_boundary:
  assumes "valid_text (xs @ ys)"
  shows "UTF16ToStr (take (nat (UTF16RuneCountString xs)) (StrToUTF16 (xs @ ys))) = xs"
    and "UTF16ToStr (drop (nat (UTF16RuneCountString xs)) (StrToUTF16 (xs @ ys))) = ys"
  using assms by (simp_all add: RuneCount_length)

subsection \<open>Truncation\<close>

lemma len_le_conv:
  "valid_text str \<Longrightarrow> len_le_from n str maxLen \<longleftrightarrow> str = [] \<or> n + UTF16RuneCountString str \<le> maxLen"
proof (induction str arbitrary: n)
  case (Cons s str)
  have IH: "len_le_from (n + RuneLen s) str maxLen \<longleftrightarrow> str = [] \<or> n + RuneLen s + UTF16RuneCountString str \<le> maxLen"
    and nn: "0 \<le> UTF16RuneCountString str"
    using Cons.IH [of "n + RuneLen s"] Cons.prems RuneCount_nonneg [of str] by simp_all
  show ?case
    by (cases "str = []"; cases "n + RuneLen s > maxLen") (use IH nn in \<open>simp_all add: add.assoc\<close>)
qed simp

lemma truncate_loop_bound:
  assumes "valid_text (done @ rest)" "utf16Len = UTF16RuneCountString done" "lw \<le> length done" "ln \<le> length done"
    and "truncate_loop rest (length done) utf16Len lw ln maxLen = Some runeEnd" "utf16Len \<le> maxLen \<or> done = []"
  shows "runeEnd \<le> length (done @ rest) \<and> (runeEnd = 0 \<or> UTF16RuneCountString (take runeEnd (done @ rest)) \<le> maxLen)"
  using assms
proof (induction rest arbitrary: "done" utf16Len lw ln)
  case (Cons r rest)
  define lw' where "lw' = (if IsSpace r then ln else lw)"
  define ln' where "ln' = (if IsSpace r then ln else length done + 1)"
  have lw': "lw' \<le> length done" using Cons.prems by (simp add: lw'_def)
  show ?case
  proof (cases "utf16Len + RuneLen r > maxLen")
    case True
    then have e: "runeEnd = (if lw' = 0 then length done else lw')"
      using Cons.prems(5) by (auto simp: Let_def lw'_def split: if_splits)
    then have le: "runeEnd \<le> length done" using lw' by simp
    have "UTF16RuneCountString (take runeEnd done) \<le> UTF16RuneCountString done"
      using RuneCount_append [of "take runeEnd done" "drop runeEnd done"] RuneCount_nonneg [of "drop runeEnd done"] Cons.prems(1)
      by simp
    then show ?thesis using le Cons.prems(2,6) by auto
  next
    case False
    have "truncate_loop rest (length (done @ [r])) (utf16Len + RuneLen r) lw' ln' maxLen = Some runeEnd"
      using False Cons.prems(5) by (simp add: Let_def lw'_def ln'_def)
    from Cons.IH [OF _ _ _ _ this] show ?thesis
      using Cons.prems lw' False by (auto simp: ln'_def)
  qed
qed simp

text \<open>A text that is too long is cut so that it fits: the result, ending included, has at most
  \<open>maxLen\<close> UTF-16 units (or is the ending alone), and it is a prefix of the text followed by the
  ending; a text that fits is returned unchanged.\<close>

lemma Truncate_fits:
  assumes "valid_text str" "0 \<le> maxLen" "valid_text ending"
  shows "(UTF16RuneCountString str \<le> maxLen \<longrightarrow> Truncate str maxLen ending = str) \<and>
    (UTF16RuneCountString str > maxLen \<longrightarrow>
      (\<exists>n \<le> length str. Truncate str maxLen ending = take n str @ ending \<and>
        UTF16RuneCountString (Truncate str maxLen ending) \<le> max maxLen (UTF16RuneCountString ending)))"
proof -
  have le: "isUtf16LengthLessOrEqual str maxLen \<longleftrightarrow> UTF16RuneCountString str \<le> maxLen"
    using assms by (auto simp: isUtf16LengthLessOrEqual_def len_le_conv)
  have "\<exists>n. truncate_loop str i u lw ln m = Some n" if "valid_text str" "u + UTF16RuneCountString str > m" "str \<noteq> []"
    for str i u lw ln m
    using that
  proof (induction str arbitrary: i u lw ln)
    case (Cons r str)
    then show ?case by (cases "str = []") (auto simp: Let_def)
  qed simp
  moreover have "UTF16RuneCountString str > maxLen \<Longrightarrow> str \<noteq> []" using assms(2) by auto
  ultimately have ex: "UTF16RuneCountString str > maxLen \<Longrightarrow>
      \<exists>n. truncate_loop str 0 0 0 0 (maxLen - UTF16RuneCountString ending) = Some n"
    using assms RuneCount_nonneg [OF assms(3)] by simp
  have "\<exists>n \<le> length str. Truncate str maxLen ending = take n str @ ending \<and>
      UTF16RuneCountString (Truncate str maxLen ending) \<le> max maxLen (UTF16RuneCountString ending)"
    if long: "UTF16RuneCountString str > maxLen"
  proof -
    obtain n where n: "truncate_loop str 0 0 0 0 (maxLen - UTF16RuneCountString ending) = Some n" using ex [OF long] ..
    have "n \<le> length str \<and> (n = 0 \<or> UTF16RuneCountString (take n str) \<le> maxLen - UTF16RuneCountString ending)"
      using truncate_loop_bound [of "[]" str 0 0 0 "maxLen - UTF16RuneCountString ending" n] n assms(1) by simp
    moreover have "Truncate str maxLen ending = take n str @ ending"
      using n le long by (simp add: Truncate_def)
    ultimately show ?thesis by auto
  qed
  then show ?thesis using le by (simp add: Truncate_def)
qed

lemma Truncate_fits_example:
  "UTF16RuneCountString (Truncate [104, 101, 108, 108, 111, 32, 119, 111, 114, 108, 100] 8 [46]) \<le> 8"
proof -
  have v: "valid_text [104, 101, 108, 108, 111, 32, 119, 111, 114, 108, 100]" "valid_text [46]"
    by (simp_all add: utf16_consts)
  have c: "UTF16RuneCountString [104, 101, 108, 108, 111, 32, 119, 111, 114, 108, 100] = 11" "UTF16RuneCountString [46] = 1"
    by (simp_all add: RuneLen_def utf16_consts)
  from Truncate_fits [OF v(1) _ v(2), of 8] c show ?thesis by auto
qed

text \<open>Every text survives the conversion to UTF-16 and back, has as many units as \<open>RuneCount\<close>
  says, and cut at a position that is not inside a surrogate pair the two halves decode to the two
  halves of the text.\<close>

lemma utf16_round_trip:
  assumes "valid_text str" "boundary str pos"
  shows "UTF16ToStr (StrToUTF16 str) = str \<and> int (length (StrToUTF16 str)) = UTF16RuneCountString str \<and>
    UTF16ToStr (take (nat pos) (StrToUTF16 str)) @ UTF16ToStr (drop (nat pos) (StrToUTF16 str)) = str"
  using assms cut_at_boundary by (auto simp: boundary_def RuneCount_length)

lemma utf16_round_trip_example:
  "UTF16ToStr (take 3 (StrToUTF16 [97, 0x1f600, 98])) @ UTF16ToStr (drop 3 (StrToUTF16 [97, 0x1f600, 98])) = [97, 0x1f600, 98]"
proof -
  have "boundary [97, 0x1f600, 98] 3"
    unfolding boundary_def by (rule exI [of _ "[97, 0x1f600]"], rule exI [of _ "[98]"]) (simp add: RuneLen_def utf16_consts)
  with utf16_round_trip [of "[97, 0x1f600, 98]" 3] show ?thesis by (simp add: utf16_consts)
qed

end
