(* ===== verification/TextBlock.thy ===== *)
theory TextBlock
  imports SimpleBlocks Utf16
begin

section \<open>Text blocks (core/block/simple/text)\<close>

text \<open>
  A text block has a text and a list of marks, each a range of UTF-16 units with a type and a
  parameter. Modelled are all operations of \<open>Text\<close> (text.go) and the comparison of marks (utils.go).
  Positions are Go \<open>int32\<close> values; texts are shorter than 2^31 units, so they are integers here.
  A nil mark list is an empty one. \<open>sort.Sort\<close> is not stable: it is the parameter \<open>srt\<close>, of which
  \<open>sort_doc\<close> says that it returns a sorted permutation. \<open>newId\<close> is the id generated for a new block
  and \<open>normURI\<close> is \<open>uri.NormalizeURI\<close>, which may fail.
\<close>

definition Mark_Link :: int where "Mark_Link = 5"
definition Mark_Mention :: int where "Mark_Mention = 8"
definition Mark_Object :: int where "Mark_Object = 10"
definition Style_Paragraph :: int where "Style_Paragraph = 0"
definition Style_Code :: int where "Style_Code = 6"

subsection \<open>Sorting and comparing marks\<close>

definition mark_Less :: "text_mark \<Rightarrow> text_mark \<Rightarrow> bool" where
  "mark_Less a b = (if mType a = mType b then mFrom a < mFrom b else mType a < mType b)"

definition sort_doc :: "(text_mark list \<Rightarrow> text_mark list) \<Rightarrow> bool" where
  "sort_doc srt \<longleftrightarrow> (\<forall>ms. mset (srt ms) = mset ms \<and> sorted_wrt (\<lambda>a b. \<not> mark_Less b a) (srt ms))"

definition markEq :: "text_mark \<Rightarrow> text_mark \<Rightarrow> bool" where
  "markEq m1 m2 =
     (if mType m1 \<noteq> mType m2 then False
      else if mParam m1 \<noteq> mParam m2 then False
      else if (mFrom m1, mTo m1) \<noteq> (mFrom m2, mTo m2) then False
      else True)"

text \<open>The result, and both mark lists, which are sorted in place when their lengths agree.\<close>

definition marksEq :: "(text_mark list \<Rightarrow> text_mark list) \<Rightarrow> text_mark list \<Rightarrow> text_mark list \<Rightarrow>
    bool \<times> text_mark list \<times> text_mark list" where
  "marksEq srt s1 s2 =
     (if length s1 \<noteq> length s2 then (False, s1, s2)
      else (list_all2 markEq (srt s1) (srt s2), srt s1, srt s2))"

subsection \<open>Normalizing marks\<close>

definition mergeable :: "text_mark \<Rightarrow> text_mark \<Rightarrow> bool" where
  "mergeable m sm \<longleftrightarrow> mType m = mType sm \<and> mParam m = mParam sm \<and> mTo m \<ge> mFrom sm"

text \<open>One round of the loop: the first two neighbours that can be merged; then it starts again.\<close>

fun merge_first :: "text_mark list \<Rightarrow> text_mark list option" where
  "merge_first (m # sm # ms) =
     (if mergeable m sm then Some (m\<lparr>mTo := mTo sm\<rparr> # ms)
      else map_option (\<lambda>ms'. m # ms') (merge_first (sm # ms)))"
| "merge_first _ = None"

lemma merge_first_length: "merge_first ms = Some ms' \<Longrightarrow> length ms = Suc (length ms')"
  by (induction ms arbitrary: ms' rule: merge_first.induct) (auto split: if_splits)

function merge_all :: "text_mark list \<Rightarrow> text_mark list" where
  "merge_all ms = (case merge_first ms of None \<Rightarrow> ms | Some ms' \<Rightarrow> merge_all ms')"
  by auto
termination by (relation "measure length") (auto dest: merge_first_length)

declare merge_all.simps [simp del]

definition normalizeMarksPure :: "(text_mark list \<Rightarrow> text_mark list) \<Rightarrow> text_mark list \<Rightarrow> text_mark list" where
  "normalizeMarksPure srt marks = merge_all (srt marks)"

definition normalizeMarks :: "(text_mark list \<Rightarrow> text_mark list) \<Rightarrow> BlockContentText \<Rightarrow> BlockContentText" where
  "normalizeMarks srt c = c\<lparr>tMarks := normalizeMarksPure srt (tMarks c)\<rparr>"

subsection \<open>Splitting marks\<close>

definition mk_mark :: "int \<Rightarrow> int \<Rightarrow> text_mark \<Rightarrow> text_mark" where
  "mk_mark from to m = \<lparr>mFrom = from, mTo = to, mType = mType m, mParam = mParam m\<rparr>"

text \<open>What one mark contributes to the marks above and below the range \<open>rFrom\<close>, \<open>rTo\<close>.\<close>

definition split_mark :: "int \<Rightarrow> int \<Rightarrow> int \<Rightarrow> text_mark \<Rightarrow> text_mark list \<times> text_mark list" where
  "split_mark rFrom rTo newTextLen m =
     (if mFrom m < rFrom \<and> mTo m \<le> rFrom then ([mk_mark (mFrom m) (mTo m) m], [])
      else if mFrom m < rFrom \<and> mTo m > rFrom \<and> mTo m < rTo then ([mk_mark (mFrom m) rFrom m], [])
      else if mFrom m \<ge> rFrom \<and> mTo m \<le> rTo then ([], [])
      else if mFrom m < rFrom \<and> mTo m > rTo
        then ([mk_mark (mFrom m) rFrom m], [mk_mark (rFrom + newTextLen) (mTo m - (rTo - rFrom) + newTextLen) m])
      else if mFrom m \<ge> rTo
        then ([], [mk_mark (mFrom m - (rTo - rFrom) + newTextLen) (mTo m - (rTo - rFrom) + newTextLen) m])
      else if mFrom m \<ge> rFrom \<and> mTo m \<ge> rTo
        then ([], [mk_mark (rFrom + newTextLen) (mTo m - (rTo - rFrom) + newTextLen) m])
      else if mFrom m < rFrom \<and> mTo m > rFrom \<and> mTo m \<le> rTo then ([mk_mark (mFrom m) rFrom m], [])
      else if mFrom m < rTo then ([mk_mark (rFrom + newTextLen) (mTo m - (rTo - rFrom) + newTextLen) m], [])
      else ([], []))"

definition splitMarks :: "text_mark list \<Rightarrow> int \<Rightarrow> int \<Rightarrow> int \<Rightarrow> text_mark list \<times> text_mark list" where
  "splitMarks marks rFrom rTo newTextLen =
     (concat (map (fst \<circ> split_mark rFrom rTo newTextLen) marks),
      concat (map (snd \<circ> split_mark rFrom rTo newTextLen) marks))"

definition shift_mark :: "int \<Rightarrow> text_mark \<Rightarrow> text_mark" where
  "shift_mark d m = m\<lparr>mFrom := mFrom m + d, mTo := mTo m + d\<rparr>"

definition SplitMarks :: "BlockContentText \<Rightarrow> int \<Rightarrow> int \<Rightarrow> text_mark list \<Rightarrow> nat list \<Rightarrow> text_mark list" where
  "SplitMarks c from to newMarks newText =
     (let addLen = UTF16RuneCountString newText;
          (leftMarks, rightMarks) = splitMarks (tMarks c) from to addLen
      in map (shift_mark from) newMarks @ leftMarks @ rightMarks)"

subsection \<open>Diff and ApplyEvent\<close>

definition Text_changes :: "(text_mark list \<Rightarrow> text_mark list) \<Rightarrow> string \<Rightarrow> BlockContentText \<Rightarrow> BlockContentText \<Rightarrow>
    EventBlockSetText option" where
  "Text_changes srt i old new =
     (let (same, old_marks, new_marks) = marksEq srt (tMarks old) (tMarks new);
          changes = \<lparr>etext_Id = i,
          etext_Text = changed (tText old) (tText new),
          etext_Style = changed (tStyle old) (tStyle new),
          etext_Checked = changed (tChecked old) (tChecked new),
          etext_Marks = (if \<not> same then Some new_marks else None),
          etext_Color = changed (tColor old) (tColor new),
          etext_IconImage = changed (tIconImage old) (tIconImage new),
          etext_IconEmoji = changed (tIconEmoji old) (tIconEmoji new)\<rparr>;
          hasChanges = (tText old \<noteq> tText new \<or> tStyle old \<noteq> tStyle new \<or> tChecked old \<noteq> tChecked new \<or> \<not> same \<or>
             tColor old \<noteq> tColor new \<or> tIconImage old \<noteq> tIconImage new \<or> tIconEmoji old \<noteq> tIconEmoji new)
      in if hasChanges then Some changes else None)"

text \<open>\<open>Diff\<close> leaves the marks of both blocks sorted when it compared them.\<close>

definition Text_Diff :: "(text_mark list \<Rightarrow> text_mark list) \<Rightarrow> (fields \<Rightarrow> fields \<Rightarrow> int) \<Rightarrow> string \<Rightarrow> Block \<Rightarrow>
    BlockContentText \<Rightarrow> Block \<Rightarrow> diff_result" where
  "Text_Diff srt cmpS spaceId b c other =
     (case Content other of
        CText c2 \<Rightarrow>
          (let (_, m1, m2) = marksEq srt (tMarks c) (tMarks c2)
           in case with_changes cmpS spaceId b other (map_option BlockSetText (Text_changes srt (Id other) c c2)) of
                Inl err \<Rightarrow> Inl err
              | Inr (msgs, b', other') \<Rightarrow>
                  Inr (msgs, b'\<lparr>Content := CText (c\<lparr>tMarks := m1\<rparr>)\<rparr>, other'\<lparr>Content := CText (c2\<lparr>tMarks := m2\<rparr>)\<rparr>))
      | _ \<Rightarrow> Inl different_type)"

definition Text_ApplyEvent :: "EventBlockSetText \<Rightarrow> BlockContentText \<Rightarrow> BlockContentText" where
  "Text_ApplyEvent e c =
     (let c1 = set_opt (etext_Style e) (\<lambda>v c. c\<lparr>tStyle := v\<rparr>) c;
          c2 = set_opt (etext_Text e) (\<lambda>v c. c\<lparr>tText := v\<rparr>) c1;
          c3 = set_opt (etext_Marks e) (\<lambda>v c. c\<lparr>tMarks := v\<rparr>) c2;
          c4 = set_opt (etext_Checked e) (\<lambda>v c. c\<lparr>tChecked := v\<rparr>) c3;
          c5 = set_opt (etext_Color e) (\<lambda>v c. c\<lparr>tColor := v\<rparr>) c4;
          c6 = set_opt (etext_IconImage e) (\<lambda>v c. c\<lparr>tIconImage := v\<rparr>) c5;
          c7 = set_opt (etext_IconEmoji e) (\<lambda>v c. c\<lparr>tIconEmoji := v\<rparr>) c6
      in c7)"

subsection \<open>Marks and text\<close>

definition isIncompatibleType :: "int \<Rightarrow> int \<Rightarrow> bool" where
  "isIncompatibleType firstType secondType =
     (if (firstType = Mark_Link \<and> secondType = Mark_Object) \<or> (secondType = Mark_Link \<and> firstType = Mark_Object)
      then True else False)"

definition SetMarkForAllText :: "text_mark \<Rightarrow> BlockContentText \<Rightarrow> BlockContentText" where
  "SetMarkForAllText mark c =
     c\<lparr>tMarks := [m \<leftarrow> tMarks c. mType m \<noteq> mType mark \<and> \<not> isIncompatibleType (mType m) (mType mark)] @
        [mk_mark 0 (UTF16RuneCountString (tText c)) mark]\<rparr>"

definition RemoveMarkType :: "int \<Rightarrow> BlockContentText \<Rightarrow> BlockContentText" where
  "RemoveMarkType markType c = c\<lparr>tMarks := [m \<leftarrow> tMarks c. mType m \<noteq> markType]\<rparr>"

definition HasMarkForAllText :: "text_mark \<Rightarrow> BlockContentText \<Rightarrow> bool" where
  "HasMarkForAllText mark c =
     list_ex (\<lambda>m. mType m = mType mark \<and> mParam m = mParam mark \<and>
       mFrom m = 0 \<and> mTo m \<ge> UTF16RuneCountString (tText c)) (tMarks c)"

definition normalize_link :: "(string \<Rightarrow> string option) \<Rightarrow> text_mark \<Rightarrow> text_mark" where
  "normalize_link normURI m =
     (if mType m = Mark_Link
      then (case normURI (mParam m) of Some p \<Rightarrow> m\<lparr>mParam := p\<rparr> | None \<Rightarrow> m) else m)"

definition SetText :: "(text_mark list \<Rightarrow> text_mark list) \<Rightarrow> (string \<Rightarrow> string option) \<Rightarrow> nat list \<Rightarrow> text_mark list \<Rightarrow>
    BlockContentText \<Rightarrow> BlockContentText" where
  "SetText srt normURI txt marks c =
     normalizeMarks srt (c\<lparr>tText := txt, tMarks := map (normalize_link normURI) marks\<rparr>)"

definition Text_ReplaceLinkIds :: "(string \<Rightarrow> string) \<Rightarrow> BlockContentText \<Rightarrow> BlockContentText" where
  "Text_ReplaceLinkIds replacer c =
     c\<lparr>tMarks := map (\<lambda>m. if (mType m = Mark_Mention \<or> mType m = Mark_Object) \<and> mParam m \<noteq> []
        then m\<lparr>mParam := replacer (mParam m)\<rparr> else m) (tMarks c)\<rparr>"

definition Text_MigrateFile :: "(string \<Rightarrow> string) \<Rightarrow> BlockContentText \<Rightarrow> BlockContentText" where
  "Text_MigrateFile migrateFunc c =
     Text_ReplaceLinkIds migrateFunc
       (if tIconImage c \<noteq> [] then c\<lparr>tIconImage := migrateFunc (tIconImage c)\<rparr> else c)"

definition Text_FillSmartIds :: "BlockContentText \<Rightarrow> string list \<Rightarrow> string list" where
  "Text_FillSmartIds c ids =
     ids @ map mParam [m \<leftarrow> tMarks c. (mType m = Mark_Mention \<or> mType m = Mark_Object) \<and> mParam m \<noteq> []]"

definition Text_HasSmartIds :: "BlockContentText \<Rightarrow> bool" where
  "Text_HasSmartIds c = list_ex (\<lambda>m. mType m = Mark_Mention \<or> mType m = Mark_Object) (tMarks c)"

definition Text_IsEmpty :: "Block \<Rightarrow> BlockContentText \<Rightarrow> bool" where
  "Text_IsEmpty b c =
     (if tText c = [] \<and> \<not> tChecked c \<and> tColor c = [] \<and> tStyle c = 0 \<and> tIconEmoji c = [] \<and> tIconImage c = [] \<and>
        length (tMarks c) = 0 \<and> BackgroundColor b = [] \<and> Align b = 0 \<and> VerticalAlign b = 0
      then True else False)"

subsection \<open>Cutting and joining blocks\<close>

datatype text_error = ErrOutOfRange | ErrUnexpectedType

text \<open>A zero block with an id, as the composite literals of the code build it.\<close>

definition new_text_block :: "string \<Rightarrow> string \<Rightarrow> int \<Rightarrow> BlockContentText \<Rightarrow> Block" where
  "new_text_block newId bg al c =
     \<lparr>Id = newId, ChildrenIds = [], Restrictions = None, Fields = [], BackgroundColor = bg, Align = al,
      VerticalAlign = 0, Content = CText c\<rparr>"

definition new_text :: "nat list \<Rightarrow> int \<Rightarrow> text_mark list \<Rightarrow> bool \<Rightarrow> string \<Rightarrow> BlockContentText" where
  "new_text txt style marks chk color =
     \<lparr>tText = txt, tStyle = style, tMarks = marks, tChecked = chk, tColor = color, tIconEmoji = [], tIconImage = []\<rparr>"

text \<open>The pieces of one mark above and below the cut of \<open>Split\<close>.\<close>

definition cut_mark :: "int \<Rightarrow> text_mark \<Rightarrow> text_mark list \<times> text_mark list" where
  "cut_mark pos m =
     (if mFrom m \<ge> pos then ([], [m\<lparr>mFrom := mFrom m - pos, mTo := mTo m - pos\<rparr>])
      else if mTo m \<le> pos then ([m], [])
      else ([m\<lparr>mTo := pos\<rparr>], [mk_mark 0 (mTo m - pos) m]))"

text \<open>The new block holds what is above the position, the old one keeps what is below.\<close>

definition Split :: "string \<Rightarrow> int \<Rightarrow> Block \<Rightarrow> BlockContentText \<Rightarrow> text_error + Block \<times> Block" where
  "Split newId pos b c =
     (if pos < 0 \<or> pos > UTF16RuneCountString (tText c) then Inl ErrOutOfRange
      else
       (let runes = StrToUTF16 (tText c);
            oldMarks = concat (map (fst \<circ> cut_mark pos) (tMarks c));
            newMarks = concat (map (snd \<circ> cut_mark pos) (tMarks c))
        in Inr (new_text_block newId (BackgroundColor b) (Align b)
                  (new_text (UTF16ToStr (take (nat pos) runes)) (tStyle c) oldMarks (tChecked c) (tColor c)),
                b\<lparr>Content := CText (c\<lparr>tText := UTF16ToStr (drop (nat pos) runes), tMarks := newMarks\<rparr>)\<rparr>)))"

text \<open>The new block and the old one.\<close>

definition RangeSplit :: "(text_mark list \<Rightarrow> text_mark list) \<Rightarrow> string \<Rightarrow> int \<Rightarrow> int \<Rightarrow> bool \<Rightarrow> Block \<Rightarrow> BlockContentText \<Rightarrow>
    text_error + Block \<times> Block" where
  "RangeSplit srt newId from to isTop b c =
     (if from < 0 \<or> from > UTF16RuneCountString (tText c) then Inl ErrOutOfRange
      else if to < 0 \<or> to > UTF16RuneCountString (tText c) then Inl ErrOutOfRange
      else if from > to then Inl ErrOutOfRange
      else
       (let runes = StrToUTF16 (tText c);
            (above, below) = splitMarks (tMarks c) from to 0;
            oldMarks = normalizeMarksPure srt above;
            newMarks = map (shift_mark (- from)) (normalizeMarksPure srt below);
            bg = (if tStyle c = Style_Code then [] else BackgroundColor b)
        in if isTop
           then Inr (new_text_block newId bg (Align b)
                       (new_text (UTF16ToStr (take (nat from) runes)) (tStyle c) oldMarks False (tColor c)),
                     b\<lparr>Content := CText (c\<lparr>tText := UTF16ToStr (drop (nat to) runes), tMarks := newMarks, tChecked := False\<rparr>)\<rparr>)
           else Inr (new_text_block newId bg (Align b)
                       (new_text (UTF16ToStr (drop (nat to) runes)) (tStyle c) newMarks False (tColor c)),
                     b\<lparr>Content := CText (c\<lparr>tText := UTF16ToStr (take (nat from) runes), tMarks := oldMarks\<rparr>)\<rparr>)))"

text \<open>The cut block and what remains; the block itself is not changed.\<close>

definition RangeCut :: "int \<Rightarrow> int \<Rightarrow> Block \<Rightarrow> BlockContentText \<Rightarrow> text_error + Block \<times> Block" where
  "RangeCut from to b c =
     (if from < 0 \<or> from > UTF16RuneCountString (tText c) then Inl ErrOutOfRange
      else if to < 0 \<or> to > UTF16RuneCountString (tText c) then Inl ErrOutOfRange
      else if from > to then Inl ErrOutOfRange
      else
       (let runes = StrToUTF16 (tText c);
            first = take (nat from) runes;
            middle = take (nat to - nat from) (drop (nat from) runes);
            lst = drop (nat to) runes;
            marks1 = fst (splitMarks (tMarks c) to to 0);
            marks2 = snd (splitMarks marks1 from from 0)
        in Inr (b\<lparr>Content := CText (c\<lparr>tText := UTF16ToStr middle, tMarks := marks2\<rparr>)\<rparr>,
                b\<lparr>Content := CText (c\<lparr>tText := UTF16ToStr first @ UTF16ToStr lst, tMarks := SplitMarks c from to [] []\<rparr>)\<rparr>)))"

text \<open>The caret position and the block; the marks of the copied block are consumed.\<close>

definition RangeTextPaste :: "(text_mark list \<Rightarrow> text_mark list) \<Rightarrow> int \<Rightarrow> int \<Rightarrow> Block \<Rightarrow> BlockContentText \<Rightarrow> bool \<Rightarrow>
    Block \<Rightarrow> BlockContentText \<Rightarrow> text_error + int \<times> Block" where
  "RangeTextPaste srt rangeFrom rangeTo copiedBlock copied copyStyle b c =
     (let copyTo = UTF16RuneCountString (tText copied);
          textLen = UTF16RuneCountString (tText c)
      in if rangeFrom < 0 \<or> rangeFrom > textLen then Inl ErrOutOfRange
         else if rangeTo < 0 \<or> rangeTo > textLen then Inl ErrOutOfRange
         else if rangeFrom > rangeTo then Inl ErrOutOfRange
         else
          (let full = (rangeFrom = 0 \<and> rangeTo = textLen);
               isFullReplace = (full \<and> textLen > 0);
               inEmptyParagraph = (full \<and> textLen = 0 \<and> tStyle c = Style_Paragraph);
               styled = ((isFullReplace \<or> inEmptyParagraph) \<and> copyStyle);
               b1 = (if styled then b\<lparr>BackgroundColor := BackgroundColor copiedBlock\<rparr> else b);
               c1 = (if styled then c\<lparr>tStyle := tStyle copied, tColor := tColor copied\<rparr> else c);
               marks1 = fst (splitMarks (tMarks copied) copyTo copyTo 0);
               marks2 = map (shift_mark (- 0)) (snd (splitMarks marks1 0 0 0));
               runes = StrToUTF16 (tText c1);
               middle = take (nat copyTo) (StrToUTF16 (tText copied));
               combined = SplitMarks c1 rangeFrom rangeTo marks2 (UTF16ToStr middle)
           in Inr (rangeFrom + copyTo,
                   b1\<lparr>Content := CText (c1\<lparr>tMarks := normalizeMarksPure srt combined,
                     tText := UTF16ToStr (take (nat rangeFrom) runes) @ UTF16ToStr middle @ UTF16ToStr (drop (nat rangeTo) runes)\<rparr>)\<rparr>)))"

text \<open>
  \<open>Merge\<close> reads the style of the other block before it checks that it is a text block: with an empty
  paragraph as receiver another block type is a nil dereference, the outer \<^term>\<open>None\<close>.
\<close>

definition Merge_text :: "(text_mark list \<Rightarrow> text_mark list) \<Rightarrow> bool \<Rightarrow> Block \<Rightarrow> Block \<Rightarrow> BlockContentText \<Rightarrow>
    (text_error + Block) option" where
  "Merge_text srt dontSetStyle other b c =
     (let adopt = (\<not> dontSetStyle \<and> tText c = [] \<and> tStyle c = 0)
      in case Content other of
           CText t \<Rightarrow>
             (let b1 = (if adopt then b\<lparr>BackgroundColor := BackgroundColor other\<rparr> else b);
                  c1 = (if adopt then c\<lparr>tStyle := tStyle t\<rparr> else c);
                  curLen = UTF16RuneCountString (tText c1);
                  c2 = c1\<lparr>tText := tText c1 @ tText t,
                          tMarks := tMarks c1 @ map (\<lambda>m. mk_mark (mFrom m + curLen) (mTo m + curLen) m) (tMarks t)\<rparr>
              in Some (Inr (b1\<lparr>Content := CText (normalizeMarks srt c2)\<rparr>)))
         | _ \<Rightarrow> (if adopt then None else Some (Inl ErrUnexpectedType)))"

subsection \<open>What marks cover\<close>

text \<open>A position is covered when some mark of that type and parameter contains it.\<close>

definition covers :: "text_mark list \<Rightarrow> int \<Rightarrow> string \<Rightarrow> int \<Rightarrow> bool" where
  "covers ms ty pa p \<longleftrightarrow> (\<exists>m\<in>set ms. mType m = ty \<and> mParam m = pa \<and> mFrom m \<le> p \<and> p < mTo m)"

lemma covers_simps [simp]:
  "\<not> covers [] ty pa p"
  "covers (m # ms) ty pa p \<longleftrightarrow> (mType m = ty \<and> mParam m = pa \<and> mFrom m \<le> p \<and> p < mTo m) \<or> covers ms ty pa p"
  "covers (xs @ ys) ty pa p \<longleftrightarrow> covers xs ty pa p \<or> covers ys ty pa p"
  by (auto simp: covers_def)

lemma covers_concat: "covers (concat (map f ms)) ty pa p \<longleftrightarrow> (\<exists>m\<in>set ms. covers (f m) ty pa p)"
  by (induction ms) auto

lemma covers_mset: "mset xs = mset ys \<Longrightarrow> covers xs ty pa p \<longleftrightarrow> covers ys ty pa p"
  by (drule mset_eq_setD) (simp add: covers_def)

lemma covers_shift: "covers (map (shift_mark d) ms) ty pa p \<longleftrightarrow> covers ms ty pa (p - d)"
  by (induction ms) (auto simp: shift_mark_def)

lemma covers_shift_mk: "covers (map (\<lambda>m. mk_mark (mFrom m + d) (mTo m + d) m) ms) ty pa p \<longleftrightarrow> covers ms ty pa (p - d)"
  by (induction ms) (auto simp: mk_mark_def)

lemma mk_mark_simps [simp]:
  "mFrom (mk_mark f t m) = f" "mTo (mk_mark f t m) = t" "mType (mk_mark f t m) = mType m" "mParam (mk_mark f t m) = mParam m"
  by (simp_all add: mk_mark_def)

lemma split_mark_conv:
  assumes "rFrom \<le> rTo"
  shows "split_mark rFrom rTo len m =
     (if mFrom m < rFrom then [mk_mark (mFrom m) (min (mTo m) rFrom) m] else [],
      if rTo < mTo m then [mk_mark (max (mFrom m) rTo - (rTo - rFrom) + len) (mTo m - (rTo - rFrom) + len) m] else [])"
    (is "_ = (?above, ?below)")
proof (cases "mFrom m < rFrom")
  case True
  with assms show ?thesis
    by (cases "mTo m \<le> rFrom"; cases "mTo m < rTo"; cases "mTo m = rTo") (simp_all add: split_mark_def)
next
  case False
  with assms show ?thesis
    by (cases "mTo m \<le> rTo"; cases "rTo \<le> mFrom m") (simp_all add: split_mark_def)
qed

lemma split_mark_above:
  "rFrom \<le> rTo \<Longrightarrow> covers (fst (split_mark rFrom rTo len m)) ty pa p \<longleftrightarrow> p < rFrom \<and> covers [m] ty pa p"
  by (simp add: split_mark_conv) arith

lemma split_mark_below:
  "rFrom \<le> rTo \<Longrightarrow> covers (snd (split_mark rFrom rTo len m)) ty pa p \<longleftrightarrow>
     rFrom + len \<le> p \<and> covers [m] ty pa (p - len + (rTo - rFrom))"
  by (simp add: split_mark_conv) arith

lemma splitMarks_covers:
  assumes "rFrom \<le> rTo"
  shows "covers (fst (splitMarks ms rFrom rTo len)) ty pa p \<longleftrightarrow> p < rFrom \<and> covers ms ty pa p"
    and "covers (snd (splitMarks ms rFrom rTo len)) ty pa p \<longleftrightarrow> rFrom + len \<le> p \<and> covers ms ty pa (p - len + (rTo - rFrom))"
  using assms unfolding splitMarks_def
  by (auto simp: covers_concat split_mark_above split_mark_below) (auto simp: covers_def)

lemma cut_mark_covers:
  "covers (concat (map (fst \<circ> cut_mark pos) ms)) ty pa p \<longleftrightarrow> p < pos \<and> covers ms ty pa p"
  "covers (concat (map (snd \<circ> cut_mark pos) ms)) ty pa p \<longleftrightarrow> 0 \<le> p \<and> covers ms ty pa (p + pos)"
  if "\<forall>m\<in>set ms. mFrom m \<le> mTo m"
  using that by (induction ms) (auto simp: cut_mark_def)

subsection \<open>Normalization\<close>

text \<open>
  Marks of one type and parameter do not nest: a mark that starts later does not end earlier. In a
  sorted list this is a relation between every mark and the later ones.
\<close>

definition chained :: "text_mark list \<Rightarrow> bool" where
  "chained ms \<longleftrightarrow> (\<forall>a\<in>set ms. \<forall>b\<in>set ms. mType a = mType b \<and> mParam a = mParam b \<and> mFrom a \<le> mFrom b \<longrightarrow> mTo a \<le> mTo b)"

definition chain_rel :: "text_mark \<Rightarrow> text_mark \<Rightarrow> bool" where
  "chain_rel a b \<longleftrightarrow> \<not> mark_Less b a \<and> (mType a = mType b \<and> mParam a = mParam b \<longrightarrow> mTo a \<le> mTo b)"

lemma sorted_chained:
  assumes "sorted_wrt (\<lambda>a b. \<not> mark_Less b a) ms" "chained ms"
  shows "sorted_wrt chain_rel ms"
  by (rule sorted_wrt_mono_rel [OF _ assms(1)])
     (use assms(2) in \<open>auto simp: chain_rel_def chained_def mark_Less_def not_less\<close>)

lemma chain_merge:
  assumes "sorted_wrt chain_rel (m # sm # ms)" "mergeable m sm"
  shows "sorted_wrt chain_rel (m\<lparr>mTo := mTo sm\<rparr> # ms)"
  using assms by (auto simp: chain_rel_def mergeable_def mark_Less_def)

lemma covers_merge:
  assumes "sorted_wrt chain_rel (m # sm # ms)" "mergeable m sm"
  shows "covers (m\<lparr>mTo := mTo sm\<rparr> # ms) ty pa p \<longleftrightarrow> covers (m # sm # ms) ty pa p"
  using assms by (auto simp: chain_rel_def mergeable_def mark_Less_def)

lemma merge_first_chain:
  "merge_first ms = Some ms' \<Longrightarrow> sorted_wrt chain_rel ms \<Longrightarrow>
     sorted_wrt chain_rel ms' \<and> (\<forall>x\<in>set ms'. \<exists>y\<in>set ms. mType x = mType y \<and> mParam x = mParam y \<and> mFrom x = mFrom y \<and>
        (\<exists>z\<in>set ms. mType z = mType y \<and> mParam z = mParam y \<and> mTo x = mTo z)) \<and>
     (\<forall>ty pa p. covers ms' ty pa p \<longleftrightarrow> covers ms ty pa p)"
proof (induction ms arbitrary: ms' rule: merge_first.induct)
  case (1 m sm ms)
  show ?case
  proof (cases "mergeable m sm")
    case True
    with "1.prems" have ms': "ms' = m\<lparr>mTo := mTo sm\<rparr> # ms" by simp
    from chain_merge [OF "1.prems"(2) True] covers_merge [OF "1.prems"(2) True] True show ?thesis
      unfolding ms' by (auto simp: mergeable_def)
  next
    case False
    with "1.prems" obtain ms1 where ms1: "merge_first (sm # ms) = Some ms1" "ms' = m # ms1" by auto
    from "1.IH" [OF False ms1(1)] "1.prems"(2)
    have IH: "sorted_wrt chain_rel ms1" "\<forall>x\<in>set ms1. \<exists>y\<in>set (sm # ms). mType x = mType y \<and> mParam x = mParam y \<and> mFrom x = mFrom y \<and>
        (\<exists>z\<in>set (sm # ms). mType z = mType y \<and> mParam z = mParam y \<and> mTo x = mTo z)"
      "\<forall>ty pa p. covers ms1 ty pa p \<longleftrightarrow> covers (sm # ms) ty pa p"
      by simp_all
    have "chain_rel m x" if "x \<in> set ms1" for x
    proof -
      from IH(2) that obtain y z where yz: "y \<in> set (sm # ms)" "mType x = mType y" "mParam x = mParam y" "mFrom x = mFrom y"
        "z \<in> set (sm # ms)" "mType z = mType y" "mParam z = mParam y" "mTo x = mTo z" by blast
      have "chain_rel m y" "chain_rel m z" using "1.prems"(2) yz(1,5) by auto
      with yz show ?thesis by (auto simp: chain_rel_def mark_Less_def)
    qed
    with IH(1) have "sorted_wrt chain_rel ms'" by (simp add: ms1)
    moreover have "\<forall>x\<in>set ms'. \<exists>y\<in>set (m # sm # ms). mType x = mType y \<and> mParam x = mParam y \<and> mFrom x = mFrom y \<and>
        (\<exists>z\<in>set (m # sm # ms). mType z = mType y \<and> mParam z = mParam y \<and> mTo x = mTo z)"
      unfolding ms1(2) using IH(2) by (metis list.set_intros(1,2) set_ConsD)
    ultimately show ?thesis using IH(3) by (simp add: ms1(2))
  qed
qed simp_all

lemma merge_all_chain:
  "sorted_wrt chain_rel ms \<Longrightarrow> covers (merge_all ms) ty pa p \<longleftrightarrow> covers ms ty pa p"
proof (induction ms rule: merge_all.induct)
  case (1 ms)
  show ?case
  proof (cases "merge_first ms")
    case (Some ms')
    with merge_first_chain [OF Some "1.prems"] "1.IH" [OF Some] show ?thesis
      by (simp add: merge_all.simps [of ms])
  qed (simp add: merge_all.simps [of ms])
qed

lemma merge_all_final: "merge_first (merge_all ms) = None"
proof (induction ms rule: merge_all.induct)
  case (1 ms)
  then show ?case by (cases "merge_first ms") (simp_all add: merge_all.simps [of ms])
qed

lemma merge_first_None: "merge_first ms = None \<longleftrightarrow> (\<forall>i. Suc i < length ms \<longrightarrow> \<not> mergeable (ms ! i) (ms ! Suc i))"
proof (induction ms rule: merge_first.induct)
  case (1 m sm ms)
  show ?case
    by (auto simp: "1.IH" nth_Cons split: nat.split)
qed simp_all

lemma normalize_covers:
  assumes "sort_doc srt" "chained ms"
  shows "covers (normalizeMarksPure srt ms) ty pa p \<longleftrightarrow> covers ms ty pa p"
proof -
  have m: "mset (srt ms) = mset ms" "sorted_wrt (\<lambda>a b. \<not> mark_Less b a) (srt ms)" using assms(1) by (auto simp: sort_doc_def)
  have "chained (srt ms)" using assms(2) mset_eq_setD [OF m(1)] by (simp add: chained_def)
  from merge_all_chain [OF sorted_chained [OF m(2) this]] covers_mset [OF m(1)] show ?thesis
    by (simp add: normalizeMarksPure_def)
qed

subsection \<open>Separate marks\<close>

text \<open>Marks are not empty, and two marks of one type and parameter do not overlap.\<close>

definition apart :: "text_mark \<Rightarrow> text_mark \<Rightarrow> bool" where
  "apart a b \<longleftrightarrow> (mType a = mType b \<and> mParam a = mParam b \<longrightarrow> mTo a \<le> mFrom b \<or> mTo b \<le> mFrom a)"

definition separate :: "text_mark list \<Rightarrow> bool" where
  "separate ms \<longleftrightarrow> (\<forall>m\<in>set ms. mFrom m < mTo m) \<and> sorted_wrt apart ms"

lemma apart_sym: "apart a b \<Longrightarrow> apart b a"
  by (auto simp: apart_def)

lemma separate_simps [simp]:
  "separate []"
  "separate (m # ms) \<longleftrightarrow> mFrom m < mTo m \<and> (\<forall>x\<in>set ms. apart m x) \<and> separate ms"
  "separate (xs @ ys) \<longleftrightarrow> separate xs \<and> separate ys \<and> (\<forall>x\<in>set xs. \<forall>y\<in>set ys. apart x y)"
  by (auto simp: separate_def sorted_wrt_append)

lemma separate_pair: "separate ms \<Longrightarrow> a \<in> set ms \<Longrightarrow> b \<in> set ms \<Longrightarrow> a = b \<or> apart a b"
  by (induction ms) (auto intro: apart_sym)

lemma separate_chained:
  assumes "separate ms"
  shows "chained ms"
  unfolding chained_def
proof (intro ballI impI)
  fix a b assume ab: "a \<in> set ms" "b \<in> set ms" "mType a = mType b \<and> mParam a = mParam b \<and> mFrom a \<le> mFrom b"
  have "mFrom b < mTo b" using assms ab(2) by (auto simp: separate_def)
  with separate_pair [OF assms ab(1,2)] ab(3) show "mTo a \<le> mTo b" by (auto simp: apart_def)
qed

lemma separate_ranges: "separate ms \<Longrightarrow> \<forall>m\<in>set ms. mFrom m \<le> mTo m"
  by (auto simp: separate_def)

text \<open>Pieces of separate marks are separate: a piece lies inside its mark, up to a common shift.\<close>

definition piece :: "int \<Rightarrow> text_mark \<Rightarrow> text_mark \<Rightarrow> bool" where
  "piece d m x \<longleftrightarrow> mType x = mType m \<and> mParam x = mParam m \<and> mFrom m \<le> mFrom x - d \<and> mTo x - d \<le> mTo m \<and> mFrom x < mTo x"

lemma apart_pieces: "apart m n \<Longrightarrow> piece d m x \<Longrightarrow> piece d n y \<Longrightarrow> apart x y"
  by (auto simp: apart_def piece_def)

lemma separate_pieces:
  assumes "separate ms" "\<And>m. m \<in> set ms \<Longrightarrow> (\<forall>x\<in>set (f m). piece d m x) \<and> separate (f m)"
  shows "separate (concat (map f ms))"
  using assms
proof (induction ms)
  case (Cons m ms)
  have "apart x y" if "x \<in> set (f m)" "n \<in> set ms" "y \<in> set (f n)" for x n y
  proof (rule apart_pieces)
    show "apart m n" using Cons.prems(1) that(2) by simp
    show "piece d m x" "piece d n y" using Cons.prems(2) [of m] Cons.prems(2) [of n] that by auto
  qed
  then show ?case using Cons by auto
qed simp

lemma separate_split:
  assumes "separate ms" "rFrom \<le> rTo"
  shows "separate (fst (splitMarks ms rFrom rTo len))" "separate (snd (splitMarks ms rFrom rTo len))"
proof -
  have "(\<forall>x\<in>set (fst (split_mark rFrom rTo len m)). piece 0 m x) \<and> separate (fst (split_mark rFrom rTo len m))"
    "(\<forall>x\<in>set (snd (split_mark rFrom rTo len m)). piece (len - (rTo - rFrom)) m x) \<and> separate (snd (split_mark rFrom rTo len m))"
    if "m \<in> set ms" for m
    using that assms by (auto simp: split_mark_conv piece_def separate_def)
  then show "separate (fst (splitMarks ms rFrom rTo len))" "separate (snd (splitMarks ms rFrom rTo len))"
    unfolding splitMarks_def fst_conv snd_conv
    using separate_pieces [OF assms(1), of "fst \<circ> split_mark rFrom rTo len" 0]
      separate_pieces [OF assms(1), of "snd \<circ> split_mark rFrom rTo len" "len - (rTo - rFrom)"] by simp_all
qed

lemma separate_shift: "separate ms \<Longrightarrow> separate (map (shift_mark d) ms)"
  by (induction ms) (auto simp: shift_mark_def apart_def)

text \<open>Marks that end before a position and marks that start after it.\<close>

definition before :: "int \<Rightarrow> text_mark list \<Rightarrow> bool" where
  "before p ms \<longleftrightarrow> (\<forall>m\<in>set ms. mTo m \<le> p)"

definition after :: "int \<Rightarrow> text_mark list \<Rightarrow> bool" where
  "after p ms \<longleftrightarrow> (\<forall>m\<in>set ms. p \<le> mFrom m)"

lemma separate_at: "before p xs \<Longrightarrow> after p ys \<Longrightarrow> separate xs \<Longrightarrow> separate ys \<Longrightarrow> separate (xs @ ys) \<and> separate (ys @ xs)"
  by (force simp: before_def after_def apart_def)

lemma split_before: "rFrom \<le> rTo \<Longrightarrow> before rFrom (fst (splitMarks ms rFrom rTo len))"
  and split_after: "rFrom \<le> rTo \<Longrightarrow> after (rFrom + len) (snd (splitMarks ms rFrom rTo len))"
  by (auto simp: before_def after_def splitMarks_def split_mark_conv)

lemma before_shift: "before p ms \<Longrightarrow> before (p + d) (map (shift_mark d) ms)"
  and after_shift: "after p ms \<Longrightarrow> after (p + d) (map (shift_mark d) ms)"
  by (auto simp: before_def after_def shift_mark_def)

lemma after_split_above: "after p ms \<Longrightarrow> rFrom \<le> rTo \<Longrightarrow> after p (fst (splitMarks ms rFrom rTo len))"
  and before_split_below: "before p ms \<Longrightarrow> rFrom \<le> rTo \<Longrightarrow> before (p - (rTo - rFrom) + len) (snd (splitMarks ms rFrom rTo len))"
  by (auto simp: before_def after_def splitMarks_def split_mark_conv)

lemma cut_mark_parts:
  assumes "separate ms"
  shows "separate (concat (map (fst \<circ> cut_mark pos) ms))" "before pos (concat (map (fst \<circ> cut_mark pos) ms))"
    "separate (concat (map (snd \<circ> cut_mark pos) ms))" "after 0 (concat (map (snd \<circ> cut_mark pos) ms))"
proof -
  have p: "(\<forall>x\<in>set (fst (cut_mark pos m)). piece 0 m x) \<and> separate (fst (cut_mark pos m))"
    "(\<forall>x\<in>set (snd (cut_mark pos m)). piece (- pos) m x) \<and> separate (snd (cut_mark pos m))"
    if "m \<in> set ms" for m
    using that assms by (auto simp: cut_mark_def piece_def separate_def)
  show "separate (concat (map (fst \<circ> cut_mark pos) ms))" "separate (concat (map (snd \<circ> cut_mark pos) ms))"
    using separate_pieces [OF assms, of "fst \<circ> cut_mark pos" 0] separate_pieces [OF assms, of "snd \<circ> cut_mark pos" "- pos"] p
    by simp_all
  show "before pos (concat (map (fst \<circ> cut_mark pos) ms))" "after 0 (concat (map (snd \<circ> cut_mark pos) ms))"
    by (auto simp: before_def after_def cut_mark_def)
qed

subsection \<open>Properties\<close>

text \<open>Normalizing marks keeps what they cover, for every position, type and parameter, as long
  as marks of one type and parameter do not nest; afterwards no two neighbours can be merged. The
  loop terminates for every input.\<close>

lemma normalizeMarksPure_covers:
  assumes "sort_doc srt" "chained ms"
  shows "(covers (normalizeMarksPure srt ms) ty pa p \<longleftrightarrow> covers ms ty pa p) \<and>
    (\<forall>i. Suc i < length (normalizeMarksPure srt ms) \<longrightarrow>
      \<not> mergeable (normalizeMarksPure srt ms ! i) (normalizeMarksPure srt ms ! Suc i))"
  using normalize_covers [OF assms] merge_all_final [of "srt ms"]
  by (simp add: merge_first_None normalizeMarksPure_def)

text \<open>Insertion sort meets the contract of \<open>sort.Sort\<close>.\<close>

fun insert_mark :: "text_mark \<Rightarrow> text_mark list \<Rightarrow> text_mark list" where
  "insert_mark m [] = [m]"
| "insert_mark m (x # xs) = (if mark_Less x m then x # insert_mark m xs else m # x # xs)"

definition insertion_sort :: "text_mark list \<Rightarrow> text_mark list" where
  "insertion_sort ms = foldr insert_mark ms []"

lemma insertion_sort_doc: "sort_doc insertion_sort"
proof -
  have m: "mset (insert_mark m xs) = add_mset m (mset xs)" for m xs by (induction xs) auto
  then have set: "set (insert_mark m xs) = insert m (set xs)" for m xs by (metis set_mset_add_mset_insert set_mset_mset)
  have s: "sorted_wrt (\<lambda>a b. \<not> mark_Less b a) xs \<Longrightarrow> sorted_wrt (\<lambda>a b. \<not> mark_Less b a) (insert_mark m xs)" for m xs
    by (induction xs) (auto simp: set mark_Less_def split: if_splits)
  have "mset (foldr insert_mark ms []) = mset ms \<and> sorted_wrt (\<lambda>a b. \<not> mark_Less b a) (foldr insert_mark ms [])" for ms
    by (induction ms) (auto simp: m s)
  then show ?thesis by (simp add: sort_doc_def insertion_sort_def)
qed

definition bold :: "int \<Rightarrow> int \<Rightarrow> text_mark" where
  "bold from to = \<lparr>mFrom = from, mTo = to, mType = 3, mParam = []\<rparr>"

lemma normalizeMarksPure_covers_example: "covers (normalizeMarksPure insertion_sort [bold 4 9, bold 0 5]) 3 [] 7"
  using normalizeMarksPure_covers [OF insertion_sort_doc, of "[bold 4 9, bold 0 5]" 3 "[]" 7]
  by (simp add: chained_def bold_def)

text \<open>Nested marks shrink: the merged mark ends where the inner one ends, so the text behind the
  inner mark loses its formatting.\<close>

lemma normalizeMarksPure_nested:
  "normalizeMarksPure insertion_sort [bold 0 10, bold 2 5] = [bold 0 5] \<and>
   covers [bold 0 10, bold 2 5] 3 [] 7 \<and> \<not> covers (normalizeMarksPure insertion_sort [bold 0 10, bold 2 5]) 3 [] 7"
proof -
  have "normalizeMarksPure insertion_sort [bold 0 10, bold 2 5] = [bold 0 5]"
    by (simp add: normalizeMarksPure_def insertion_sort_def mark_Less_def bold_def merge_all.simps mergeable_def)
  then show ?thesis by (simp add: bold_def)
qed


text \<open>Splitting a text block and merging the two parts again gives back the text, and every
  position has the formatting it had.\<close>

lemma Split_Merge:
  assumes srt: "sort_doc srt" and t: "tText c = xs @ ys" "valid_text (tText c)" and ms: "separate (tMarks c)"
    and pos: "pos = UTF16RuneCountString xs"
  shows "\<exists>nb nc ob mb mc. Split newId pos b c = Inr (nb, ob) \<and> Content nb = CText nc \<and>
    Merge_text srt True ob nb nc = Some (Inr mb) \<and> Content mb = CText mc \<and>
    tText mc = tText c \<and> (covers (tMarks mc) ty pa p \<longleftrightarrow> covers (tMarks c) ty pa p)"
proof -
  have v: "valid_text xs" "valid_text ys" using t by simp_all
  note nn = RuneCount_nonneg [OF v(1)] RuneCount_nonneg [OF v(2)]
  have le: "0 \<le> pos" "pos \<le> UTF16RuneCountString (tText c)" using pos t nn by auto
  define om nm where "om = concat (map (fst \<circ> cut_mark pos) (tMarks c))" and "nm = concat (map (snd \<circ> cut_mark pos) (tMarks c))"
  have cut: "UTF16ToStr (take (nat pos) (StrToUTF16 (tText c))) = xs" "UTF16ToStr (drop (nat pos) (StrToUTF16 (tText c))) = ys"
    using cut_at_boundary [of xs ys] t pos by simp_all
  have parts: "separate om" "before pos om" "separate nm" "after 0 nm" using cut_mark_parts [OF ms, of pos] by (simp_all add: om_def nm_def)
  have mk: "map (\<lambda>m. mk_mark (mFrom m + pos) (mTo m + pos) m) nm = map (shift_mark pos) nm"
    by (simp add: mk_mark_def shift_mark_def)
  have "after pos (map (shift_mark pos) nm)" using after_shift [OF parts(4), of pos] by simp
  then have "separate (om @ map (shift_mark pos) nm)"
    using separate_at parts separate_shift by blast
  then have "covers (normalizeMarksPure srt (om @ map (shift_mark pos) nm)) ty pa p \<longleftrightarrow> covers (tMarks c) ty pa p"
    using normalize_covers [OF srt separate_chained] cut_mark_covers [OF separate_ranges [OF ms]]
    by (auto simp: covers_shift om_def nm_def)
  then show ?thesis
    using le cut unfolding Split_def om_def [symmetric] nm_def [symmetric]
    by (auto simp: Let_def Merge_text_def new_text_block_def new_text_def normalizeMarks_def mk t simp flip: pos)
qed

text \<open>An example: "hello" with "ell" in bold.\<close>

definition sample :: BlockContentText where
  "sample = new_text [104, 101, 108, 108, 111] 0 [bold 1 4] False []"

lemma sample_facts:
  "tText sample = [104, 101] @ [108] @ [108, 111]" "valid_text (tText sample)" "separate (tMarks sample)"
  "UTF16RuneCountString [104, 101] = 2" "UTF16RuneCountString ([104, 101] @ [108]) = 3"
  by (simp_all add: sample_def new_text_def utf16_consts bold_def RuneLen_def)


lemma Split_Merge_example:
  "\<exists>nb nc ob mb mc. Split ''n'' 2 (new_text_block ''b'' [] 0 sample) sample = Inr (nb, ob) \<and> Content nb = CText nc \<and>
     Merge_text insertion_sort True ob nb nc = Some (Inr mb) \<and> Content mb = CText mc \<and>
     tText mc = [104, 101, 108, 108, 111]"
  using Split_Merge [OF insertion_sort_doc sample_facts(1-3) sample_facts(4) [symmetric], of "''n''" "new_text_block ''b'' [] 0 sample" 3 "[]" 0]
    sample_facts(1)
  by auto



end
