(* ===== verification/DbFilter.thy ===== *)
theory DbFilter
  imports GenericMap
begin

section \<open>Database filters (pkg/lib/database: filter.go, quickoptions.go, database.go)\<close>

text \<open>
  Clients describe what they search for by a tree of \<open>FilterRequest\<close>s; \<open>MakeFilters\<close> compiles it
  to a \<open>Filter\<close>, whose \<open>FilterObject\<close> decides on the details of one object. The theory models the
  requests, the compiler with its errors, the filters and the default filters that hide archived
  and deleted objects.

  The fields of \<open>Env\<close> are the Unicode case mapping, the helpers \<open>Every\<close> and \<open>Filter\<close> of samber/lo, the
  functions of the time package in the local time zone, on which the calendar of util/time/calendar.go rests, and the
  day prefix that util/dateutil reads from a date object id with the parser of the time package; the fields of \<open>ObjectStore\<close> are the
  queries that the store answers. Errors are values. The space id that the compiler passes along is never read and
  is left out. The translation of a filter to the store's own query language (\<open>AnystoreFilter\<close>), by which the store answers queries, is not
  modelled: what the theorems need of the store is a hypothesis on the filters they send to it.
\<close>

subsection \<open>Requests\<close>

text \<open>The enumerations are integers on the wire: the last constructor stands for unknown numbers.\<close>

datatype Operator = Op_No | Op_Or | Op_And | Op_unknown int

datatype Condition =
    Cond_None | Cond_Equal | Cond_NotEqual | Cond_Greater | Cond_Less | Cond_GreaterOrEqual
  | Cond_LessOrEqual | Cond_Like | Cond_NotLike | Cond_In | Cond_NotIn | Cond_Empty | Cond_NotEmpty
  | Cond_AllIn | Cond_NotAllIn | Cond_ExactIn | Cond_NotExactIn | Cond_Exists | Cond_unknown int

datatype QuickOption =
    ExactDate | Yesterday | Today | Tomorrow | LastWeek | CurrentWeek | NextWeek | LastMonth
  | CurrentMonth | NextMonth | NumberOfDaysAgo | NumberOfDaysNow | LastYear | CurrentYear | NextYear
  | QuickOption_unknown int

datatype RelationFormat =
    Format_longtext | Format_shorttext | Format_number | Format_status | Format_tag | Format_date
  | Format_file | Format_checkbox | Format_url | Format_email | Format_phone | Format_emoji
  | Format_object | Format_relations | Format_unknown int

datatype FilterRequest =
  FilterRequest
    (fr_Id: string) (fr_Operator: Operator) (fr_RelationKey: string) (fr_RelationProperty: string)
    (fr_Condition: Condition) (fr_Value: Value) (fr_QuickOption: QuickOption)
    (fr_Format: RelationFormat) (fr_IncludeTime: bool) (fr_NestedFilters: "FilterRequest list")

text \<open>The composite literals of the code leave every other field at its zero value.\<close>

definition leaf_request :: "string \<Rightarrow> Condition \<Rightarrow> Value \<Rightarrow> FilterRequest" where
  "leaf_request k c v = FilterRequest [] Op_No k [] c v ExactDate Format_longtext False []"

definition tree_request :: "Operator \<Rightarrow> FilterRequest list \<Rightarrow> FilterRequest" where
  "tree_request opr ns = FilterRequest [] opr [] [] Cond_None VInvalid ExactDate Format_longtext False ns"

text \<open>Assignments to one field of a copy.\<close>

fun set_RelationKey :: "string \<Rightarrow> FilterRequest \<Rightarrow> FilterRequest" where
  "set_RelationKey k' (FilterRequest i opr k p c v q f t ns) = FilterRequest i opr k' p c v q f t ns"

fun set_Condition :: "Condition \<Rightarrow> FilterRequest \<Rightarrow> FilterRequest" where
  "set_Condition c' (FilterRequest i opr k p c v q f t ns) = FilterRequest i opr k p c' v q f t ns"

fun set_Value :: "Value \<Rightarrow> FilterRequest \<Rightarrow> FilterRequest" where
  "set_Value v' (FilterRequest i opr k p c v q f t ns) = FilterRequest i opr k p c v' q f t ns"

fun set_NestedFilters :: "FilterRequest list \<Rightarrow> FilterRequest \<Rightarrow> FilterRequest" where
  "set_NestedFilters ns' (FilterRequest i opr k p c v q f t ns) = FilterRequest i opr k p c v q f t ns'"

lemma fr_set_simps [simp]:
  "fr_Operator (set_RelationKey k r) = fr_Operator r" "fr_RelationKey (set_RelationKey k r) = k"
  "fr_Condition (set_RelationKey k r) = fr_Condition r" "fr_Value (set_RelationKey k r) = fr_Value r"
  "fr_Format (set_RelationKey k r) = fr_Format r" "fr_QuickOption (set_RelationKey k r) = fr_QuickOption r"
  "fr_IncludeTime (set_RelationKey k r) = fr_IncludeTime r"
  "fr_NestedFilters (set_RelationKey k r) = fr_NestedFilters r"
  "fr_Operator (set_Condition c r) = fr_Operator r" "fr_RelationKey (set_Condition c r) = fr_RelationKey r"
  "fr_Condition (set_Condition c r) = c" "fr_Value (set_Condition c r) = fr_Value r"
  "fr_Format (set_Condition c r) = fr_Format r" "fr_QuickOption (set_Condition c r) = fr_QuickOption r"
  "fr_IncludeTime (set_Condition c r) = fr_IncludeTime r"
  "fr_NestedFilters (set_Condition c r) = fr_NestedFilters r"
  "fr_Operator (set_Value v r) = fr_Operator r" "fr_RelationKey (set_Value v r) = fr_RelationKey r"
  "fr_Condition (set_Value v r) = fr_Condition r" "fr_Value (set_Value v r) = v"
  "fr_NestedFilters (set_Value v r) = fr_NestedFilters r"
  "fr_Operator (set_NestedFilters ns r) = fr_Operator r" "fr_NestedFilters (set_NestedFilters ns r) = ns"
  by (cases r; simp)+

lemma leaf_request_simps [simp]:
  "fr_Operator (leaf_request k c v) = Op_No" "fr_RelationKey (leaf_request k c v) = k"
  "fr_Condition (leaf_request k c v) = c" "fr_Value (leaf_request k c v) = v"
  "fr_Format (leaf_request k c v) = Format_longtext" "fr_NestedFilters (leaf_request k c v) = []"
  "fr_Operator (tree_request opr ns) = opr" "fr_NestedFilters (tree_request opr ns) = ns"
  by (simp_all add: leaf_request_def tree_request_def)

subsection \<open>Parameters\<close>

text \<open>Times are Unix seconds in the local time zone. The fields of the time package are \<open>time.Date\<close> and the methods \<open>Date\<close>, \<open>ISOWeek\<close>,
  \<open>Weekday\<close> and \<open>AddDate\<close> of a time.\<close>

record Env =
  ToLower :: "string \<Rightarrow> string"
  EveryString :: "string list \<Rightarrow> string list \<Rightarrow> bool"
  EveryFloat :: "f64 list \<Rightarrow> f64 list \<Rightarrow> bool"
  FilterString :: "string list \<Rightarrow> (string \<Rightarrow> bool) \<Rightarrow> string list"
  dayId :: "string \<Rightarrow> string option"
  time_Date :: "int \<Rightarrow> int \<Rightarrow> int \<Rightarrow> int \<Rightarrow> int \<Rightarrow> int \<Rightarrow> int"
  t_Date :: "int \<Rightarrow> int \<times> int \<times> int"
  t_ISOWeek :: "int \<Rightarrow> int \<times> int"
  t_Weekday :: "int \<Rightarrow> int"
  t_AddDate :: "int \<Rightarrow> int \<Rightarrow> int \<Rightarrow> int \<Rightarrow> int"
  now :: int
  oor64 :: "f64 \<Rightarrow> int"

subsection \<open>The calendar (util/time/calendar.go)\<close>

text \<open>A calendar is the time it was made for; all calendars of the filters are in the local zone. Sums of an \<open>int\<close> wrap. One nanosecond
  before a full second has the Unix time of the second before.\<close>

definition add64 :: "int \<Rightarrow> int \<Rightarrow> int" where
  "add64 a b = (a + b + 2 ^ 63) mod 2 ^ 64 - 2 ^ 63"

definition DayNumStart :: "Env \<Rightarrow> int \<Rightarrow> int \<Rightarrow> int" where
  "DayNumStart env t dayNum = (case t_Date env t of (year, month, day) \<Rightarrow> time_Date env year month (add64 day dayNum) 0 0 0)"

definition DayNumEnd :: "Env \<Rightarrow> int \<Rightarrow> int \<Rightarrow> int" where
  "DayNumEnd env t dayNum = (case t_Date env t of (year, month, day) \<Rightarrow> time_Date env year month (add64 day dayNum) 23 59 59)"

definition WeekNumStart :: "Env \<Rightarrow> int \<Rightarrow> int \<Rightarrow> int" where
  "WeekNumStart env t weekNum =
     (case t_ISOWeek env t of (year, week) \<Rightarrow>
        (let mid = time_Date env year 7 1 0 0 0;
             wd = t_Weekday env mid;
             monday = t_AddDate env mid 0 0 (if wd = 0 then -6 else 1 - wd)
         in t_AddDate env monday 0 0 ((week + weekNum - snd (t_ISOWeek env monday)) * 7)))"

definition WeekNumEnd :: "Env \<Rightarrow> int \<Rightarrow> int \<Rightarrow> int" where
  "WeekNumEnd env t weekNum = WeekNumStart env t weekNum + 7 * 24 * 3600 - 1"

definition MonthNumStart :: "Env \<Rightarrow> int \<Rightarrow> int \<Rightarrow> int" where
  "MonthNumStart env t monthNum = (case t_Date env t of (year, month, _) \<Rightarrow> time_Date env year (month + monthNum) 1 0 0 0)"

definition MonthNumEnd :: "Env \<Rightarrow> int \<Rightarrow> int \<Rightarrow> int" where
  "MonthNumEnd env t monthNum = t_AddDate env (MonthNumStart env t monthNum) 0 1 0 - 1"

definition YearNumStart :: "Env \<Rightarrow> int \<Rightarrow> int \<Rightarrow> int" where
  "YearNumStart env t yearDelta = (case t_Date env t of (year, _, _) \<Rightarrow> time_Date env (year + yearDelta) 1 1 0 0 0)"

definition YearNumEnd :: "Env \<Rightarrow> int \<Rightarrow> int \<Rightarrow> int" where
  "YearNumEnd env t yearDelta = t_AddDate env (YearNumStart env t yearDelta) 1 0 0 - 1"

subsection \<open>Filters\<close>

text \<open>
  A nil \<open>Filter\<close> inside \<open>FilterNot\<close> or a nested filter is \<^term>\<open>None\<close>; the options of
  \<open>FilterOptionsEqual\<close> are the keys of its map.
\<close>

datatype Filter =
    FiltersAnd "Filter list"
  | FiltersOr "Filter list"
  | FilterNot "Filter option"
  | FilterEq string Condition Value
  | FilterHasPrefix string string
  | FilterIn string "Value list"
  | FilterLike string string
  | FilterExists string
  | FilterEmpty string
  | FilterAllIn string "string list" "f64 list"
  | FilterOptionsEqual string "string list" "string list"
  | FilterNestedIn string "Filter option" "string list"
  | FilterNestedNotIn string "Filter option" "string list"
  | Filter2ValuesComp string string Condition

text \<open>The final switch of \<open>FilterEq.filterObject\<close>.\<close>

fun eq_switch :: "Condition \<Rightarrow> int \<Rightarrow> bool" where
  "eq_switch Cond_Equal d = (d = 0)"
| "eq_switch Cond_Greater d = (d = -1)"
| "eq_switch Cond_GreaterOrEqual d = (d \<le> 0)"
| "eq_switch Cond_Less d = (d = 1)"
| "eq_switch Cond_LessOrEqual d = (d \<ge> 0)"
| "eq_switch Cond_NotEqual d = (d \<noteq> 0)"
| "eq_switch _ d = False"

text \<open>The recursive calls on the elements of a list are calls on scalars, which go to the switch.\<close>

definition filterObject :: "Value \<Rightarrow> Condition \<Rightarrow> Value \<Rightarrow> bool" where
  "filterObject ev cond v =
     (let isFilterValueScalar = \<not> IsStringList ev \<and> \<not> IsFloat64List ev in
      if isFilterValueScalar \<and> IsFloat64List v
      then list_ex (\<lambda>lv. eq_switch cond (Compare ev (VFloat lv))) (Float64List_of v)
      else if isFilterValueScalar \<and> IsStringList v
      then list_ex (\<lambda>lv. eq_switch cond (Compare ev (VString lv))) (StringList_of v)
      else eq_switch cond (Compare ev v))"

definition strings_HasPrefix :: "string \<Rightarrow> string \<Rightarrow> bool" where
  "strings_HasPrefix s p \<longleftrightarrow> take (length p) s = p"

fun strings_Contains :: "string \<Rightarrow> string \<Rightarrow> bool" where
  "strings_Contains s sub = (strings_HasPrefix s sub \<or> (case s of [] \<Rightarrow> False | _ # s' \<Rightarrow> strings_Contains s' sub))"

declare strings_Contains.simps [simp del]

definition filter_all_in :: "Env \<Rightarrow> string \<Rightarrow> string list \<Rightarrow> f64 list \<Rightarrow> gmap \<Rightarrow> bool" where
  "filter_all_in env k strs floats g =
     (if \<not> Ok (Get g k) then False
      else if length strs > 0 then
       (case gm_TryString g k of
          Some val \<Rightarrow> (if length strs = 1 then hd strs = val else False)
        | None \<Rightarrow> (case gm_TryStringList g k of Some val \<Rightarrow> EveryString env val strs | None \<Rightarrow> False))
      else if length floats > 0 then
       (case gm_TryFloat64 g k of
          Some val \<Rightarrow> (if length floats = 1 then f64_eq (hd floats) val else False)
        | None \<Rightarrow> (case gm_TryFloat64List g k of Some val \<Rightarrow> EveryFloat env val floats | None \<Rightarrow> False))
      else True)"

definition filter_options_equal :: "Env \<Rightarrow> string \<Rightarrow> string list \<Rightarrow> string list \<Rightarrow> gmap \<Rightarrow> bool" where
  "filter_options_equal env k vals opts g =
     (if length vals = 0 then False
      else (case gm_TryString g k of
          Some val \<Rightarrow> (if val \<notin> set opts then False else val \<in> set vals)
        | None \<Rightarrow>
           (case gm_TryStringList g k of
              Some val \<Rightarrow>
               (let onlyOptions = FilterString env val (\<lambda>v. v \<in> set opts) in
                if length onlyOptions \<noteq> length vals then False else EveryString env onlyOptions vals)
            | None \<Rightarrow> False)))"

definition filter_has_prefix :: "string \<Rightarrow> string \<Rightarrow> gmap \<Rightarrow> bool" where
  [simp]: "filter_has_prefix k p g =
     (let val = Get g k in
      if strings_HasPrefix (String_of val) p then True else list_ex (\<lambda>v. strings_HasPrefix v p) (StringList_of val))"

definition filter_in :: "string \<Rightarrow> Value list \<Rightarrow> gmap \<Rightarrow> bool" where
  [simp]: "filter_in k vs g = list_ex (\<lambda>v. filterObject v Cond_Equal (Get g k)) vs"

definition filter_like :: "Env \<Rightarrow> string \<Rightarrow> string \<Rightarrow> gmap \<Rightarrow> bool" where
  [simp]: "filter_like env k s g =
     (case gm_TryString g k of None \<Rightarrow> False | Some val \<Rightarrow> strings_Contains (ToLower env val) (ToLower env s))"

definition filter_nested_in :: "string \<Rightarrow> string list \<Rightarrow> gmap \<Rightarrow> bool" where
  [simp]: "filter_nested_in k ids g = list_ex (\<lambda>i. filterObject (VString i) Cond_Equal (Get g k)) ids"

definition filter_nested_not_in :: "string \<Rightarrow> string list \<Rightarrow> gmap \<Rightarrow> bool" where
  [simp]: "filter_nested_not_in k ids g \<longleftrightarrow> \<not> list_ex (\<lambda>i. filterObject (VString i) Cond_Equal (Get g k)) ids"

definition filter_2_values :: "string \<Rightarrow> string \<Rightarrow> Condition \<Rightarrow> gmap \<Rightarrow> bool" where
  [simp]: "filter_2_values k1 k2 c g = filterObject (Get g k2) c (Get g k1)"

primrec FilterObject :: "Env \<Rightarrow> Filter \<Rightarrow> gmap \<Rightarrow> bool" where
  "FilterObject env (FiltersAnd a) g = list_all id (map (\<lambda>f. FilterObject env f g) a)"
| "FilterObject env (FiltersOr fo) g = (if length fo = 0 then True else list_ex id (map (\<lambda>f. FilterObject env f g) fo))"
| "FilterObject env (FilterNot n) g =
     (case map_option (\<lambda>f. FilterObject env f g) n of None \<Rightarrow> False | Some b \<Rightarrow> \<not> b)"
| "FilterObject env (FilterEq k c v) g = filterObject v c (Get g k)"
| "FilterObject env (FilterHasPrefix k p) g = filter_has_prefix k p g"
| "FilterObject env (FilterIn k vs) g = filter_in k vs g"
| "FilterObject env (FilterLike k s) g = filter_like env k s g"
| "FilterObject env (FilterExists k) g = Has g k"
| "FilterObject env (FilterEmpty k) g = IsEmpty (Get g k)"
| "FilterObject env (FilterAllIn k strs floats) g = filter_all_in env k strs floats g"
| "FilterObject env (FilterOptionsEqual k vals opts) g = filter_options_equal env k vals opts g"
| "FilterObject env (FilterNestedIn k _ ids) g = filter_nested_in k ids g"
| "FilterObject env (FilterNestedNotIn k _ ids) g = filter_nested_not_in k ids g"
| "FilterObject env (Filter2ValuesComp k1 k2 c) g = filter_2_values k1 k2 c g"

text \<open>\<open>IterateNestedFilters\<close> visits the nested filters below conjunctions and disjunctions.\<close>

primrec IterateNestedFilters :: "Filter \<Rightarrow> Filter list" where
  "IterateNestedFilters (FiltersAnd a) = concat (map IterateNestedFilters a)"
| "IterateNestedFilters (FiltersOr fo) = concat (map IterateNestedFilters fo)"
| "IterateNestedFilters (FilterNot n) = []"
| "IterateNestedFilters (FilterEq k c v) = []"
| "IterateNestedFilters (FilterHasPrefix k p) = []"
| "IterateNestedFilters (FilterIn k vs) = []"
| "IterateNestedFilters (FilterLike k s) = []"
| "IterateNestedFilters (FilterExists k) = []"
| "IterateNestedFilters (FilterEmpty k) = []"
| "IterateNestedFilters (FilterAllIn k strs floats) = []"
| "IterateNestedFilters (FilterOptionsEqual k vals opts) = []"
| "IterateNestedFilters (FilterNestedIn k f ids) = [FilterNestedIn k f ids]"
| "IterateNestedFilters (FilterNestedNotIn k f ids) = [FilterNestedNotIn k f ids]"
| "IterateNestedFilters (Filter2ValuesComp k1 k2 c) = []"

subsection \<open>Date requests\<close>

text \<open>Negation of an \<open>int\<close>, which wraps at the smallest number.\<close>

definition neg64 :: "int \<Rightarrow> int" where
  "neg64 n = (if n = - (2 ^ 63) then n else - n)"

definition getDateRange :: "Env \<Rightarrow> FilterRequest \<Rightarrow> int \<times> int" where
  "getDateRange env f =
     (let calendar = now env;
          day = (\<lambda>n. (DayNumStart env calendar n, DayNumEnd env calendar n));
          week = (\<lambda>n. (WeekNumStart env calendar n, WeekNumEnd env calendar n));
          month = (\<lambda>n. (MonthNumStart env calendar n, MonthNumEnd env calendar n));
          year = (\<lambda>n. (YearNumStart env calendar n, YearNumEnd env calendar n));
          n = Int64_of (oor64 env) (fr_Value f)
      in case fr_QuickOption f of
           Yesterday \<Rightarrow> day (-1) | Today \<Rightarrow> day 0 | Tomorrow \<Rightarrow> day 1
         | LastWeek \<Rightarrow> week (-1) | CurrentWeek \<Rightarrow> week 0 | NextWeek \<Rightarrow> week 1
         | LastMonth \<Rightarrow> month (-1) | CurrentMonth \<Rightarrow> month 0 | NextMonth \<Rightarrow> month 1
         | NumberOfDaysAgo \<Rightarrow> day (neg64 n) | NumberOfDaysNow \<Rightarrow> day n
         | LastYear \<Rightarrow> year (-1) | CurrentYear \<Rightarrow> year 0 | NextYear \<Rightarrow> year 1
         | _ \<Rightarrow> (DayNumStart env n 0, DayNumEnd env n 0))"

definition transformDateFilter :: "Env \<Rightarrow> FilterRequest \<Rightarrow> FilterRequest list" where
  "transformDateFilter env f =
     (if fr_Format f \<noteq> Format_date then [f]
      else if fr_QuickOption f = ExactDate \<and> fr_IncludeTime f then [f]
      else (let (from, to) = getDateRange env f
            in case fr_Condition f of
                 Cond_Equal \<Rightarrow> [leaf_request (fr_RelationKey f) Cond_LessOrEqual (Int64 to),
                                leaf_request (fr_RelationKey f) Cond_GreaterOrEqual (Int64 from)]
               | Cond_In \<Rightarrow> [leaf_request (fr_RelationKey f) Cond_LessOrEqual (Int64 to),
                             leaf_request (fr_RelationKey f) Cond_GreaterOrEqual (Int64 from)]
               | Cond_Less \<Rightarrow> [set_Value (Int64 from) f]
               | Cond_Greater \<Rightarrow> [set_Value (Int64 to) f]
               | Cond_LessOrEqual \<Rightarrow> [set_Value (Int64 to) f]
               | Cond_GreaterOrEqual \<Rightarrow> [set_Value (Int64 from) f]
               | _ \<Rightarrow> [f]))"

lemma transformDateFilter_cases:
  obtains "transformDateFilter env f = [f]"
  | v where "transformDateFilter env f = [set_Value v f]"
  | v w where "transformDateFilter env f =
      [leaf_request (fr_RelationKey f) Cond_LessOrEqual v, leaf_request (fr_RelationKey f) Cond_GreaterOrEqual w]"
proof (cases "fr_Format f \<noteq> Format_date \<or> fr_QuickOption f = ExactDate \<and> fr_IncludeTime f")
  case True
  then have "transformDateFilter env f = [f]" by (auto simp: transformDateFilter_def)
  then show ?thesis by (rule that(1))
next
  case False
  then have nf: "fr_Format f = Format_date" "\<not> (fr_QuickOption f = ExactDate \<and> fr_IncludeTime f)" by auto
  obtain fr t where "getDateRange env f = (fr, t)" by fastforce
  with nf that show ?thesis
    by (cases "fr_Condition f") (simp_all only: transformDateFilter_def, auto)
qed

lemma transformDateFilter_in:
  assumes "q \<in> set (transformDateFilter env f)"
  shows "fr_RelationKey q = fr_RelationKey f"
    and "fr_NestedFilters q = fr_NestedFilters f \<or> fr_NestedFilters q = []"
    and "fr_Operator f = Op_No \<Longrightarrow> fr_Operator q = Op_No"
    and "fr_Condition f \<noteq> Cond_None \<Longrightarrow> fr_Condition q \<noteq> Cond_None"
  using assms by (cases rule: transformDateFilter_cases [of env f]; auto)+

subsection \<open>The compiler\<close>

datatype error =
    ErrNoStore
  | ErrOperator Operator
  | ErrValueMustBeListSupporting
  | ErrUnsupportedType nat
  | ErrUnexpectedCond Condition
  | ErrConvertCondition Condition
  | ErrNested string string error
  | ErrQuery

text \<open>
  \<open>QueryRaw\<close> returns the details of the records, \<open>ListRelationOptions\<close> the options of a relation;
  \<^term>\<open>None\<close> is an error.
\<close>

record RelationOption =
  opt_Id :: string
  opt_Text :: string
  opt_OrderId :: string

record ObjectStore =
  QueryRaw :: "Filter option \<Rightarrow> gmap list option"
  ListRelationOptions :: "string \<Rightarrow> RelationOption list option"

definition wrapValueToStringList :: "Value \<Rightarrow> string list option" where
  "wrapValueToStringList val = (case TryString val of Some v \<Rightarrow> Some [v] | None \<Rightarrow> TryStringList val)"

definition wrapValueToFloatList :: "Value \<Rightarrow> f64 list option" where
  "wrapValueToFloatList val = (case TryFloat64 val of Some v \<Rightarrow> Some [v] | None \<Rightarrow> TryFloat64List val)"

definition makeComplexFilter :: "FilterRequest \<Rightarrow> (string \<times> Value) list \<Rightarrow> Filter option" where
  "makeComplexFilter raw s =
     (if GetString (Some s) ''type'' = ''valueFromRelation''
      then Some (Filter2ValuesComp (fr_RelationKey raw) (GetString (Some s) ''relationKey'') (fr_Condition raw))
      else None)"

definition optionsToMap :: "ObjectStore \<Rightarrow> string \<Rightarrow> string list" where
  "optionsToMap store k = (case ListRelationOptions store k of None \<Rightarrow> [] | Some opts \<Rightarrow> remdups (map opt_Id opts))"

fun negativeConditionToPositive :: "Condition \<Rightarrow> error + Condition" where
  "negativeConditionToPositive Cond_NotEqual = Inr Cond_Equal"
| "negativeConditionToPositive Cond_NotIn = Inr Cond_In"
| "negativeConditionToPositive c = Inl (ErrConvertCondition c)"

text \<open>\<open>strings.SplitN(key, ".", 2)\<close> with two parts.\<close>

definition split_dot :: "string \<Rightarrow> (string \<times> string) option" where
  "split_dot s =
     (case dropWhile (\<lambda>c. c \<noteq> CHR ''.'') s of
        [] \<Rightarrow> None
      | _ # rest \<Rightarrow> Some (takeWhile (\<lambda>c. c \<noteq> CHR ''.'') s, rest))"

lemma split_dot_length: "split_dot s = Some (a, b) \<Longrightarrow> Suc (length b) \<le> length s"
  using length_dropWhile_le [of "\<lambda>c. c \<noteq> CHR ''.''" s] by (auto simp: split_dot_def split: list.splits)

text \<open>The two rewritings for check boxes.\<close>

definition rewrite_bool :: "FilterRequest \<Rightarrow> FilterRequest" where
  "rewrite_bool raw0 =
     (let raw1 = (if fr_Condition raw0 = Cond_Equal \<and> TryBool (fr_Value raw0) = Some False
                  then FilterRequest [] Op_No (fr_RelationKey raw0) (fr_RelationProperty raw0) Cond_NotEqual
                         (VBool True) ExactDate Format_longtext False []
                  else raw0)
      in if fr_Condition raw1 = Cond_NotEqual \<and> TryBool (fr_Value raw1) = Some False
         then FilterRequest [] Op_No (fr_RelationKey raw1) (fr_RelationProperty raw1) Cond_Equal
                (VBool True) ExactDate Format_longtext False []
         else raw1)"

text \<open>The switch over the condition, for a key without a dot.\<close>

definition make_all_in :: "FilterRequest \<Rightarrow> error + Filter" where
  "make_all_in raw =
     (case wrapValueToStringList (fr_Value raw) of
        Some l \<Rightarrow> Inr (FilterAllIn (fr_RelationKey raw) l [])
      | None \<Rightarrow>
         (case wrapValueToFloatList (fr_Value raw) of
            Some l \<Rightarrow> Inr (FilterAllIn (fr_RelationKey raw) [] l)
          | None \<Rightarrow> Inl (ErrUnsupportedType (Type_of (fr_Value raw)))))"

definition make_exact_in :: "ObjectStore \<Rightarrow> FilterRequest \<Rightarrow> error + Filter" where
  "make_exact_in store raw =
     (case wrapValueToStringList (fr_Value raw) of
        None \<Rightarrow> Inl ErrValueMustBeListSupporting
      | Some l \<Rightarrow> Inr (FilterOptionsEqual (fr_RelationKey raw) l (optionsToMap store (fr_RelationKey raw))))"

definition make_in :: "FilterRequest \<Rightarrow> error + Filter" where
  "make_in raw =
     (case TryWrapToList (fr_Value raw) of
        None \<Rightarrow> Inl ErrValueMustBeListSupporting
      | Some l \<Rightarrow> Inr (FilterIn (fr_RelationKey raw) l))"

abbreviation (input) negate :: "error + Filter \<Rightarrow> error + Filter" where
  "negate r \<equiv> map_sum (\<lambda>e. e) (\<lambda>f. FilterNot (Some f)) r"

definition condition_switch :: "Env \<Rightarrow> ObjectStore \<Rightarrow> FilterRequest \<Rightarrow> error + Filter" where
  "condition_switch env store raw =
     (let k = fr_RelationKey raw; v = fr_Value raw; c = fr_Condition raw in
      if c \<in> {Cond_Equal, Cond_Greater, Cond_Less, Cond_GreaterOrEqual, Cond_LessOrEqual, Cond_NotEqual}
      then Inr (FilterEq k c v)
      else (case c of
          Cond_Like \<Rightarrow> Inr (FilterLike k (String_of v))
        | Cond_NotLike \<Rightarrow> Inr (FilterNot (Some (FilterLike k (String_of v))))
        | Cond_In \<Rightarrow> (case dayId env (String_of v) of
              Some p \<Rightarrow> Inr (FilterHasPrefix k p)
            | None \<Rightarrow> make_in raw)
        | Cond_NotIn \<Rightarrow> negate (make_in raw)
        | Cond_Empty \<Rightarrow> Inr (FilterEmpty k)
        | Cond_NotEmpty \<Rightarrow> Inr (FilterNot (Some (FilterEmpty k)))
        | Cond_AllIn \<Rightarrow> make_all_in raw
        | Cond_NotAllIn \<Rightarrow> negate (make_all_in raw)
        | Cond_ExactIn \<Rightarrow> make_exact_in store raw
        | Cond_NotExactIn \<Rightarrow> negate (make_exact_in store raw)
        | Cond_Exists \<Rightarrow> Inr (FilterExists k)
        | _ \<Rightarrow> Inl (ErrUnexpectedCond c)))"

definition make_plain :: "Env \<Rightarrow> ObjectStore \<Rightarrow> FilterRequest \<Rightarrow> error + Filter" where
  "make_plain env store raw0 =
     (let raw = rewrite_bool raw0 in
      case TryMapValue (fr_Value raw) of
        Some s \<Rightarrow> (case makeComplexFilter raw s of Some f \<Rightarrow> Inr f | None \<Rightarrow> condition_switch env store raw)
      | None \<Rightarrow> condition_switch env store raw)"

text \<open>A loop that stops at the first error.\<close>

fun try_all :: "('a \<Rightarrow> 'e + 'b) \<Rightarrow> 'a list \<Rightarrow> 'e + 'b list" where
  "try_all f [] = Inr []"
| "try_all f (x # xs) =
     (case f x of Inl e \<Rightarrow> Inl e
      | Inr y \<Rightarrow> (case try_all f xs of Inl e \<Rightarrow> Inl e | Inr ys \<Rightarrow> Inr (y # ys)))"

lemma try_all_cong [fundef_cong]:
  "xs = ys \<Longrightarrow> (\<And>x. x \<in> set ys \<Longrightarrow> f x = g x) \<Longrightarrow> try_all f xs = try_all g ys"
  by (induction xs arbitrary: ys) (auto split: sum.splits)

lemma size_nested: "n \<in> set (fr_NestedFilters r) \<Longrightarrow>
    size_list size (fr_NestedFilters n) < size_list size (fr_NestedFilters r)"
proof -
  assume "n \<in> set (fr_NestedFilters r)"
  then have "size n \<le> size_list size (fr_NestedFilters r)" by (rule size_list_estimation') simp
  moreover have "size_list size (fr_NestedFilters n) < size n" by (cases n) simp
  ultimately show ?thesis by simp
qed

definition record_ids :: "gmap list \<Rightarrow> string list" where
  "record_ids records = map (\<lambda>r. GetString r ''id'') records"

abbreviation (input) request_rank :: "FilterRequest \<Rightarrow> nat" where
  "request_rank r \<equiv> size_list size (fr_NestedFilters r)"

lemma transform_rank: "q \<in> set (transformDateFilter env f) \<Longrightarrow> request_rank q \<le> request_rank f"
  using transformDateFilter_in(2) [of q env f] by auto

function (sequential) MakeFilter :: "Env \<Rightarrow> ObjectStore option \<Rightarrow> FilterRequest \<Rightarrow> error + Filter option"
  and makeFilter :: "Env \<Rightarrow> ObjectStore option \<Rightarrow> FilterRequest \<Rightarrow> error + Filter option"
  and makeFilterByCondition :: "Env \<Rightarrow> ObjectStore \<Rightarrow> FilterRequest \<Rightarrow> error + Filter"
  and makeFilterNestedIn :: "Env \<Rightarrow> ObjectStore \<Rightarrow> FilterRequest \<Rightarrow> string \<Rightarrow> string \<Rightarrow> error + Filter"
  and makeFilterNestedNotIn :: "Env \<Rightarrow> ObjectStore \<Rightarrow> FilterRequest \<Rightarrow> string \<Rightarrow> string \<Rightarrow> error + Filter" where
  "MakeFilter env store p =
     (if fr_Operator p = Op_No then makeFilter env store p
      else (case try_all (MakeFilter env store) (fr_NestedFilters p) of
          Inl e \<Rightarrow> Inl e
        | Inr fs \<Rightarrow>
           (let filters = List.map_filter id fs
            in case fr_Operator p of
                 Op_Or \<Rightarrow> Inr (Some (FiltersOr filters))
               | Op_unknown n \<Rightarrow> Inl (ErrOperator (Op_unknown n))
               | _ \<Rightarrow> Inr (Some (FiltersAnd filters)))))"
| "makeFilter env store raw =
     (case store of
        None \<Rightarrow> Inl ErrNoStore
      | Some st \<Rightarrow>
         (if fr_Condition raw = Cond_None then Inr None
          else (let raws = transformDateFilter env raw
                in case try_all (makeFilterByCondition env st) raws of
                     Inl e \<Rightarrow> Inl e
                   | Inr fs \<Rightarrow> (if length raws = 1 then Inr (Some (hd fs)) else Inr (Some (FiltersAnd fs))))))"
| "makeFilterByCondition env st raw =
     (case split_dot (fr_RelationKey raw) of
        Some (k, nested) \<Rightarrow>
         (if fr_Condition raw = Cond_NotEqual \<or> fr_Condition raw = Cond_NotIn
          then makeFilterNestedNotIn env st raw k nested
          else makeFilterNestedIn env st raw k nested)
      | None \<Rightarrow> make_plain env st raw)"
| "makeFilterNestedIn env st raw k nested =
     (case MakeFilter env (Some st) (set_RelationKey nested raw) of
        Inl e \<Rightarrow> Inl (ErrNested k nested e)
      | Inr nestedFilter \<Rightarrow>
         (case QueryRaw st nestedFilter of
            None \<Rightarrow> Inl ErrQuery
          | Some records \<Rightarrow> Inr (FilterNestedIn k nestedFilter (record_ids records))))"
| "makeFilterNestedNotIn env st raw k nested =
     (case negativeConditionToPositive (fr_Condition raw) of
        Inl e \<Rightarrow> Inl e
      | Inr cond \<Rightarrow>
         (case MakeFilter env (Some st) (set_Condition cond (set_RelationKey nested raw)) of
            Inl e \<Rightarrow> Inl (ErrNested k nested e)
          | Inr subQueryFilter \<Rightarrow>
             (case QueryRaw st subQueryFilter of
                None \<Rightarrow> Inl ErrQuery
              | Some records \<Rightarrow>
                 (case MakeFilter env (Some st) (set_RelationKey nested raw) of
                    Inl e \<Rightarrow> Inl (ErrNested k nested e)
                  | Inr nestedFilter \<Rightarrow> Inr (FilterNestedNotIn k nestedFilter (record_ids records))))))"
  by pat_completeness auto

termination
proof (relation "inv_image (less_than <*lex*> less_than <*lex*> less_than)
    (\<lambda>p. case p of Inl (Inl (_, _, r)) \<Rightarrow> (request_rank r, length (fr_RelationKey r), 3)
       | Inl (Inr (_, _, r)) \<Rightarrow> (request_rank r, length (fr_RelationKey r), 2)
       | Inr (Inl (_, _, r)) \<Rightarrow> (request_rank r, length (fr_RelationKey r), 1)
       | Inr (Inr (Inl (_, _, r, _, n))) \<Rightarrow> (request_rank r, Suc (length n), 0)
       | Inr (Inr (Inr (_, _, r, _, n))) \<Rightarrow> (request_rank r, Suc (length n), 0))")
qed (auto simp: size_nested le_less transformDateFilter_in(1) dest!: split_dot_length transform_rank)

declare MakeFilter.simps [simp del] makeFilter.simps [simp del] makeFilterByCondition.simps [simp del]
  makeFilterNestedIn.simps [simp del] makeFilterNestedNotIn.simps [simp del]

definition MakeFilters :: "Env \<Rightarrow> ObjectStore option \<Rightarrow> FilterRequest list \<Rightarrow> error + Filter option" where
  "MakeFilters env store protoFilters =
     (if length protoFilters = 1 \<and> length (fr_NestedFilters (hd protoFilters)) > 0 \<and>
         fr_Operator (hd protoFilters) \<noteq> Op_No
      then MakeFilter env store (hd protoFilters)
      else MakeFilter env store (tree_request Op_And protoFilters))"

subsection \<open>Default filters\<close>

text \<open>
  \<open>hasDefaultFilters\<close> tells whether the request mentions the archived flag, the deleted flag and
  the layout. Its loop, with the whole slice as first argument, goes on with the nested requests of
  the first element when it meets any element that has nested requests.
\<close>

function (sequential) hasDefaultFilters :: "FilterRequest list \<Rightarrow> bool \<times> bool \<times> bool"
  and default_loop :: "FilterRequest list \<Rightarrow> FilterRequest list \<Rightarrow> bool \<times> bool \<times> bool \<Rightarrow> bool \<times> bool \<times> bool" where
  "hasDefaultFilters filters =
     (if filters = [] then (False, False, False) else default_loop filters filters (False, False, False))"
| "default_loop filters [] acc = acc"
| "default_loop [] (f # fs) acc = acc"
| "default_loop (f0 # filters) (f # fs) (hasArchived, hasDeleted, hasType) =
     (if fr_NestedFilters f \<noteq> [] then hasDefaultFilters (fr_NestedFilters f0)
      else default_loop (f0 # filters) fs
             (hasArchived \<or> fr_RelationKey f = ''isArchived'', hasDeleted \<or> fr_RelationKey f = ''isDeleted'',
              hasType \<or> fr_RelationKey f = ''resolvedLayout''))"
  by pat_completeness auto
termination
proof (relation "inv_image (less_than <*lex*> less_than)
    (\<lambda>p. case p of Inl fs \<Rightarrow> (size_list size fs, Suc (length fs)) | Inr (fs, rest, _) \<Rightarrow> (size_list size fs, length rest))")
  fix f0 :: FilterRequest and filters :: "FilterRequest list"
  have "size_list size (fr_NestedFilters f0) < size f0" by (cases f0) simp
  then have "size_list size (fr_NestedFilters f0) < size_list size (f0 # filters)" by simp
  then show "(Inl (fr_NestedFilters f0), Inr (f0 # filters, f # fs, a, b, c)) \<in> inv_image (less_than <*lex*> less_than)
    (\<lambda>p. case p of Inl fs \<Rightarrow> (size_list size fs, Suc (length fs)) | Inr (fs, rest, _) \<Rightarrow> (size_list size fs, length rest))"
    for f fs a b c by simp
qed auto

definition addDefaultFilters :: "FilterRequest list \<Rightarrow> bool \<times> bool \<times> bool \<Rightarrow> FilterRequest list" where
  "addDefaultFilters filters has =
     (case has of (hasArchived, hasDeleted, hasType) \<Rightarrow>
       filters
       @ (if \<not> hasArchived then [leaf_request ''isArchived'' Cond_NotEqual (VBool True)] else [])
       @ (if \<not> hasDeleted then [leaf_request ''isDeleted'' Cond_NotEqual (VBool True)] else [])
       @ (if \<not> hasType then [leaf_request ''type'' Cond_NotIn (Int64 10)] else []))"

definition addDefaultFiltersToNested :: "FilterRequest list \<Rightarrow> bool \<times> bool \<times> bool \<Rightarrow> FilterRequest list" where
  "addDefaultFiltersToNested filters has =
     (case filters of
        [] \<Rightarrow> []
      | f0 # fs \<Rightarrow>
          if fr_Operator f0 = Op_And
          then set_NestedFilters (addDefaultFilters (fr_NestedFilters f0) has) f0 # fs
          else [tree_request Op_And (addDefaultFilters (f0 # fs) has)])"

definition injectDefaultFilters :: "FilterRequest list \<Rightarrow> FilterRequest list" where
  "injectDefaultFilters filters =
     (let has = hasDefaultFilters filters
      in if length filters > 0 \<and> length (fr_NestedFilters (hd filters)) > 0
         then addDefaultFiltersToNested filters has
         else addDefaultFilters filters has)"

text \<open>The filter that \<open>NewFilters\<close> builds for a query.\<close>

definition NewFilters_filter :: "Env \<Rightarrow> ObjectStore option \<Rightarrow> FilterRequest list \<Rightarrow> error + Filter option" where
  "NewFilters_filter env store filters = MakeFilters env store (injectDefaultFilters filters)"

text \<open>A nil filter keeps every object.\<close>

definition keeps :: "Env \<Rightarrow> Filter option \<Rightarrow> gmap \<Rightarrow> bool" where
  "keeps env f g = (case f of None \<Rightarrow> True | Some f \<Rightarrow> FilterObject env f g)"

subsection \<open>The meaning of a request\<close>

definition elems :: "Value \<Rightarrow> Value list" where
  "elems v = (case v of VStringList l \<Rightarrow> map VString l | VFloatList l \<Rightarrow> map VFloat l | _ \<Rightarrow> [v])"

text \<open>The relation that a comparison names, on the sign of "filter value against object value".\<close>

fun cond_rel :: "Condition \<Rightarrow> int \<Rightarrow> bool" where
  "cond_rel Cond_Equal d = (d = 0)"
| "cond_rel Cond_NotEqual d = (d \<noteq> 0)"
| "cond_rel Cond_Greater d = (d < 0)"
| "cond_rel Cond_Less d = (d > 0)"
| "cond_rel Cond_GreaterOrEqual d = (d \<le> 0)"
| "cond_rel Cond_LessOrEqual d = (d \<ge> 0)"
| "cond_rel _ d = False"

definition compares :: "Condition \<Rightarrow> Value \<Rightarrow> Value \<Rightarrow> bool" where
  "compares c fv v \<longleftrightarrow>
     (if IsStringList fv \<or> IsFloat64List fv then cond_rel c (Compare fv v)
      else \<exists>x\<in>set (elems v). cond_rel c (Compare fv x))"

lemma slices_range:
  "slices_Compare cmp (a :: 'a::linorder list) b = -1 \<or> slices_Compare cmp a b = 0 \<or> slices_Compare cmp a b = 1"
  "slices_Compare f64_cmp x y = -1 \<or> slices_Compare f64_cmp x y = 0 \<or> slices_Compare f64_cmp x y = 1"
  using slices_Compare_range [of a b cmp] slices_Compare_range [of x y f64_cmp]
  by (auto simp: f64_cmp_def cmp_def)

lemma Compare_range: "Compare v w \<in> {-1, 0, 1}"
  and compareMaps_range: "compareMaps a b \<in> {-1, 0, 1}"
  and compare_entries_range: "compare_entries ks a b \<in> {-1, 0, 1}"
proof (induction v w and a b and ks a b rule: Compare_compareMaps_compare_entries.induct)
  case (1 v w)
  then show ?case
    by (cases v; cases w) (simp_all add: Compare.simps slices_range, simp_all add: cmp_def)
next
  case (2 a b)
  then show ?case using slices_range(1) [of "sort (keys a)" "sort (keys b)"] by (auto simp: compareMaps.simps Let_def)
qed (auto simp: Let_def)

lemma filterObject_compares: "filterObject fv c v \<longleftrightarrow> compares c fv v"
proof -
  have "eq_switch c (Compare fv x) = cond_rel c (Compare fv x)" for x
    using Compare_range [of fv x] by (cases c) auto
  then show ?thesis
    by (cases v) (auto simp: filterObject_def compares_def elems_def Let_def list_ex_iff Float64List_of_def StringList_of_def)
qed

text \<open>Object \<open>g\<close> points to object \<open>x\<close> through relation \<open>k\<close>.\<close>

definition refers :: "gmap \<Rightarrow> string \<Rightarrow> gmap \<Rightarrow> bool" where
  "refers g k x \<longleftrightarrow> VString (GetString x ''id'') \<in> set (elems (Get g k))"

lemma Compare_VString: "Compare (VString i) x = 0 \<longleftrightarrow> x = VString i"
  by (cases x) (auto simp: Compare.simps)

lemma filterObject_id: "filterObject (VString i) Cond_Equal v \<longleftrightarrow> VString i \<in> set (elems v)"
  by (auto simp: filterObject_compares compares_def Compare_VString)

definition substring :: "string \<Rightarrow> string \<Rightarrow> bool" where
  "substring s sub \<longleftrightarrow> (\<exists>a b. s = a @ sub @ b)"

lemma Contains_substring: "strings_Contains s sub \<longleftrightarrow> substring s sub"
proof (induction s)
  case Nil
  then show ?case by (auto simp: strings_Contains.simps strings_HasPrefix_def substring_def)
next
  case (Cons c s)
  have "strings_HasPrefix (c # s) sub \<longleftrightarrow> (\<exists>b. c # s = sub @ b)"
    unfolding strings_HasPrefix_def by (metis append_eq_conv_conj append_take_drop_id)
  moreover have "substring (c # s) sub \<longleftrightarrow> (\<exists>b. c # s = sub @ b) \<or> substring s sub"
    unfolding substring_def by (metis append_Cons append_Nil neq_Nil_conv list.inject)
  ultimately show ?case using Cons by (subst strings_Contains.simps) simp
qed

text \<open>What the documentation of samber/lo promises of the helpers.\<close>

definition lo_ok :: "Env \<Rightarrow> bool" where
  "lo_ok env \<longleftrightarrow>
     (\<forall>c s. EveryString env c s \<longleftrightarrow> set s \<subseteq> set c) \<and>
     (\<forall>c s. EveryFloat env c s \<longleftrightarrow> (\<forall>x\<in>set s. \<exists>y\<in>set c. f64_eq x y)) \<and>
     (\<forall>xs p. FilterString env xs p = filter p xs)"

text \<open>What the object \<open>g\<close> must have at key \<open>k\<close>, condition by condition.\<close>

definition has_all :: "Value \<Rightarrow> Value \<Rightarrow> bool" where
  "has_all fv x \<longleftrightarrow> Ok x \<and>
     (case wrapValueToStringList fv of
        Some l \<Rightarrow> l = [] \<or> (\<exists>s. l = [s] \<and> x = VString s) \<or> (\<exists>xs. x = VStringList xs \<and> set l \<subseteq> set xs)
      | None \<Rightarrow>
         (case wrapValueToFloatList fv of
            Some l \<Rightarrow> l = [] \<or> (\<exists>s. l = [s] \<and> s \<noteq> NaN \<and> x = VFloat s) \<or>
              (\<exists>xs. x = VFloatList xs \<and> (\<forall>a\<in>set l. \<exists>b\<in>set xs. f64_eq a b))
          | None \<Rightarrow> False))"

definition has_exactly :: "string list \<Rightarrow> Value \<Rightarrow> Value \<Rightarrow> bool" where
  "has_exactly opts fv x \<longleftrightarrow>
     (\<exists>l. wrapValueToStringList fv = Some l \<and> l \<noteq> [] \<and>
       ((\<exists>s. x = VString s \<and> s \<in> set opts \<and> s \<in> set l) \<or>
        (\<exists>xs. x = VStringList xs \<and> (let live = [s \<leftarrow> xs. s \<in> set opts] in length live = length l \<and> set l \<subseteq> set live))))"

definition condition_sat :: "Env \<Rightarrow> ObjectStore \<Rightarrow> string \<Rightarrow> Condition \<Rightarrow> Value \<Rightarrow> gmap \<Rightarrow> bool" where
  "condition_sat env st k c fv g =
     (let x = Get g k in
      case c of
        Cond_Equal \<Rightarrow> (if fv = VBool False then compares Cond_NotEqual (VBool True) x else compares Cond_Equal fv x)
      | Cond_NotEqual \<Rightarrow> (if fv = VBool False then compares Cond_Equal (VBool True) x else compares Cond_NotEqual fv x)
      | Cond_Like \<Rightarrow> (\<exists>s. x = VString s \<and> substring (ToLower env s) (ToLower env (String_of fv)))
      | Cond_NotLike \<Rightarrow> \<not> (\<exists>s. x = VString s \<and> substring (ToLower env s) (ToLower env (String_of fv)))
      | Cond_In \<Rightarrow> (case dayId env (String_of fv) of
            Some p \<Rightarrow> (\<exists>s b. s = p @ b \<and> (s = String_of x \<or> s \<in> set (StringList_of x)))
          | None \<Rightarrow> \<exists>a\<in>set (WrapToList fv). compares Cond_Equal a x)
      | Cond_NotIn \<Rightarrow> (\<forall>a\<in>set (WrapToList fv). \<not> compares Cond_Equal a x)
      | Cond_Empty \<Rightarrow> IsEmpty x
      | Cond_NotEmpty \<Rightarrow> \<not> IsEmpty x
      | Cond_AllIn \<Rightarrow> has_all fv x
      | Cond_NotAllIn \<Rightarrow> \<not> has_all fv x
      | Cond_ExactIn \<Rightarrow> has_exactly (optionsToMap st k) fv x
      | Cond_NotExactIn \<Rightarrow> \<not> has_exactly (optionsToMap st k) fv x
      | Cond_Exists \<Rightarrow> Has g k
      | _ \<Rightarrow> compares c fv x)"

text \<open>A map value of type "valueFromRelation" compares two relations of the object.\<close>

definition other_relation :: "Value \<Rightarrow> string option" where
  "other_relation fv =
     (case fv of VMap m \<Rightarrow> (if GetString (Some m) ''type'' = ''valueFromRelation''
                            then Some (GetString (Some m) ''relationKey'') else None)
      | _ \<Rightarrow> None)"

definition plain_sat :: "Env \<Rightarrow> ObjectStore \<Rightarrow> string \<Rightarrow> Condition \<Rightarrow> Value \<Rightarrow> gmap \<Rightarrow> bool" where
  "plain_sat env st k c fv g =
     (case other_relation fv of
        Some k2 \<Rightarrow> compares c (Get g k2) (Get g k)
      | None \<Rightarrow> condition_sat env st k c fv g)"

definition plain_ok :: "Env \<Rightarrow> Condition \<Rightarrow> Value \<Rightarrow> bool" where
  "plain_ok env c fv \<longleftrightarrow>
     (other_relation fv \<noteq> None \<or>
      (case c of
         Cond_In \<Rightarrow> dayId env (String_of fv) \<noteq> None \<or> TryWrapToList fv \<noteq> None
       | Cond_NotIn \<Rightarrow> TryWrapToList fv \<noteq> None
       | Cond_AllIn \<Rightarrow> wrapValueToStringList fv \<noteq> None \<or> wrapValueToFloatList fv \<noteq> None
       | Cond_NotAllIn \<Rightarrow> wrapValueToStringList fv \<noteq> None \<or> wrapValueToFloatList fv \<noteq> None
       | Cond_ExactIn \<Rightarrow> wrapValueToStringList fv \<noteq> None
       | Cond_NotExactIn \<Rightarrow> wrapValueToStringList fv \<noteq> None
       | Cond_None \<Rightarrow> False
       | Cond_unknown n \<Rightarrow> False
       | _ \<Rightarrow> True))"

lemma FilterObject_AllIn:
  assumes "lo_ok env" "make_all_in raw = Inr f"
  shows "FilterObject env f g \<longleftrightarrow> has_all (fr_Value raw) (Get g (fr_RelationKey raw))"
  using assms
  by (cases "fr_Value raw"; cases "Get g (fr_RelationKey raw)")
    (auto simp: make_all_in_def wrapValueToStringList_def wrapValueToFloatList_def has_all_def filter_all_in_def
      gm_TryString_def gm_TryStringList_def gm_TryFloat64_def gm_TryFloat64List_def lo_ok_def f64_eq_def
      length_Suc_conv split: if_splits)

lemma FilterObject_ExactIn:
  assumes "lo_ok env" "make_exact_in st raw = Inr f"
  shows "FilterObject env f g \<longleftrightarrow>
    has_exactly (optionsToMap st (fr_RelationKey raw)) (fr_Value raw) (Get g (fr_RelationKey raw))"
  using assms
  by (cases "Get g (fr_RelationKey raw)")
    (auto simp: make_exact_in_def has_exactly_def filter_options_equal_def gm_TryString_def gm_TryStringList_def
      lo_ok_def Let_def split: option.splits if_splits)

lemma HasPrefix_iff: "strings_HasPrefix s p \<longleftrightarrow> (\<exists>b. s = p @ b)"
  unfolding strings_HasPrefix_def by (metis append_eq_conv_conj append_take_drop_id)

lemma TryBool_False: "TryBool v = Some False \<longleftrightarrow> v = VBool False"
  by (cases v) auto

lemma rewrite_bool_key [simp]: "fr_RelationKey (rewrite_bool raw) = fr_RelationKey raw"
  by (simp add: rewrite_bool_def Let_def)

lemma make_in_sat:
  "make_in raw = Inr f \<Longrightarrow> FilterObject env f g \<longleftrightarrow>
     (\<exists>a\<in>set (WrapToList (fr_Value raw)). compares Cond_Equal a (Get g (fr_RelationKey raw)))"
  by (auto simp: make_in_def WrapToList_def list_ex_iff filterObject_compares split: option.splits)

lemma like_sat:
  "FilterObject env (FilterLike k t) g \<longleftrightarrow> (\<exists>s. Get g k = VString s \<and> substring (ToLower env s) (ToLower env t))"
  by (cases "Get g k") (simp_all add: gm_TryString_def Contains_substring)

lemma prefix_sat:
  "FilterObject env (FilterHasPrefix k p) g \<longleftrightarrow>
     (\<exists>s b. s = p @ b \<and> (s = String_of (Get g k) \<or> s \<in> set (StringList_of (Get g k))))"
  by (auto simp: Let_def HasPrefix_iff list_ex_iff, metis)

lemma condition_switch_sat:
  assumes "lo_ok env" "condition_switch env st raw = Inr f" "fr_Condition raw \<notin> {Cond_Equal, Cond_NotEqual}"
  shows "FilterObject env f g = condition_sat env st (fr_RelationKey raw) (fr_Condition raw) (fr_Value raw) g"
proof (cases "fr_Condition raw")
  case Cond_AllIn
  with assms show ?thesis by (simp add: condition_switch_def condition_sat_def FilterObject_AllIn)
next
  case Cond_NotAllIn
  with assms obtain f' where "make_all_in raw = Inr f'" "f = FilterNot (Some f')"
    by (cases "make_all_in raw") (auto simp: condition_switch_def)
  with assms(1) Cond_NotAllIn show ?thesis by (simp add: condition_sat_def FilterObject_AllIn)
next
  case Cond_ExactIn
  with assms show ?thesis by (simp add: condition_switch_def condition_sat_def FilterObject_ExactIn)
next
  case Cond_NotExactIn
  with assms obtain f' where "make_exact_in st raw = Inr f'" "f = FilterNot (Some f')"
    by (cases "make_exact_in st raw") (auto simp: condition_switch_def)
  with assms(1) Cond_NotExactIn show ?thesis by (simp add: condition_sat_def FilterObject_ExactIn)
next
  case Cond_NotIn
  with assms obtain f' where "make_in raw = Inr f'" "f = FilterNot (Some f')"
    by (cases "make_in raw") (auto simp: condition_switch_def)
  with Cond_NotIn show ?thesis by (simp add: condition_sat_def make_in_sat)
next
  case Cond_In
  show ?thesis
  proof (cases "dayId env (String_of (fr_Value raw))")
    case None
    with Cond_In assms(2) have "make_in raw = Inr f" by (simp add: condition_switch_def)
    with Cond_In None show ?thesis by (simp add: condition_sat_def make_in_sat)
  next
    case (Some p)
    with Cond_In assms(2) have "f = FilterHasPrefix (fr_RelationKey raw) p" by (simp add: condition_switch_def)
    then show ?thesis using Some Cond_In by (simp only: prefix_sat) (simp add: condition_sat_def Let_def)
  qed
next
  case Cond_Like
  with assms(2) have "f = FilterLike (fr_RelationKey raw) (String_of (fr_Value raw))" by (simp add: condition_switch_def)
  then show ?thesis using Cond_Like by (simp only: like_sat) (simp add: condition_sat_def Let_def)
next
  case Cond_NotLike
  with assms(2) have "f = FilterNot (Some (FilterLike (fr_RelationKey raw) (String_of (fr_Value raw))))"
    by (simp add: condition_switch_def)
  then have "FilterObject env f g \<longleftrightarrow> \<not> FilterObject env (FilterLike (fr_RelationKey raw) (String_of (fr_Value raw))) g"
    by simp
  then show ?thesis using Cond_NotLike unfolding like_sat by (simp add: condition_sat_def)
qed (use assms in \<open>auto simp: condition_switch_def condition_sat_def filterObject_compares\<close>)

lemma rewrite_bool_cases:
  obtains "fr_Condition raw = Cond_Equal" "fr_Value raw = VBool False"
      "fr_Condition (rewrite_bool raw) = Cond_NotEqual" "fr_Value (rewrite_bool raw) = VBool True"
  | "fr_Condition raw = Cond_NotEqual" "fr_Value raw = VBool False"
      "fr_Condition (rewrite_bool raw) = Cond_Equal" "fr_Value (rewrite_bool raw) = VBool True"
  | "\<not> (fr_Condition raw \<in> {Cond_Equal, Cond_NotEqual} \<and> fr_Value raw = VBool False)" "rewrite_bool raw = raw"
  by (cases "fr_Condition raw \<in> {Cond_Equal, Cond_NotEqual} \<and> fr_Value raw = VBool False")
    (auto simp: rewrite_bool_def TryBool_False)

lemma make_plain_complex:
  "other_relation (fr_Value raw) = Some k2 \<Longrightarrow>
     make_plain env st raw = Inr (Filter2ValuesComp (fr_RelationKey raw) k2 (fr_Condition raw))"
  by (cases "fr_Value raw")
    (auto simp: other_relation_def make_plain_def rewrite_bool_def TryBool_False makeComplexFilter_def Let_def split: if_splits)

lemma make_plain_switch:
  "other_relation (fr_Value raw) = None \<Longrightarrow> make_plain env st raw = condition_switch env st (rewrite_bool raw)"
  by (rule rewrite_bool_cases [of raw]; cases "fr_Value raw")
    (auto simp: other_relation_def make_plain_def makeComplexFilter_def Let_def split: if_splits)

lemma make_plain_sat:
  assumes "lo_ok env" "make_plain env st raw = Inr f"
  shows "FilterObject env f g = plain_sat env st (fr_RelationKey raw) (fr_Condition raw) (fr_Value raw) g"
proof (cases "other_relation (fr_Value raw)")
  case (Some k2)
  with assms show ?thesis by (auto simp: make_plain_complex plain_sat_def filterObject_compares)
next
  case None
  have sw: "condition_switch env st (rewrite_bool raw) = Inr f" using assms(2) None by (simp add: make_plain_switch)
  show ?thesis
  proof (rule rewrite_bool_cases [of raw])
    assume nb: "\<not> (fr_Condition raw \<in> {Cond_Equal, Cond_NotEqual} \<and> fr_Value raw = VBool False)" "rewrite_bool raw = raw"
    show ?thesis
    proof (cases "fr_Condition raw \<in> {Cond_Equal, Cond_NotEqual}")
      case True
      with sw nb None show ?thesis
        by (auto simp: condition_switch_def plain_sat_def condition_sat_def filterObject_compares Let_def)
    qed (use sw nb None condition_switch_sat [OF assms(1)] in \<open>simp add: plain_sat_def\<close>)
  qed (use sw None in \<open>auto simp: condition_switch_def plain_sat_def condition_sat_def filterObject_compares Let_def\<close>)
qed

lemma condition_switch_ok:
  "other_relation (fr_Value raw) = None \<Longrightarrow>
     isl (condition_switch env st raw) \<longleftrightarrow> \<not> plain_ok env (fr_Condition raw) (fr_Value raw)"
  by (cases "fr_Condition raw")
    (auto simp: condition_switch_def plain_ok_def make_in_def make_all_in_def make_exact_in_def split: option.splits)

lemma make_plain_ok: "isl (make_plain env st raw) \<longleftrightarrow> \<not> plain_ok env (fr_Condition raw) (fr_Value raw)"
proof (cases "other_relation (fr_Value raw)")
  case (Some k2)
  then show ?thesis by (simp add: make_plain_complex plain_ok_def)
next
  case None
  show ?thesis
  proof (rule rewrite_bool_cases [of raw])
    assume "rewrite_bool raw = raw"
    with None show ?thesis by (simp add: make_plain_switch condition_switch_ok)
  qed (use None in \<open>auto simp: make_plain_switch condition_switch_def plain_ok_def Let_def\<close>)
qed

text \<open>
  A key with dots is a path: all but its last part are relations to other objects, which the
  compiled filter resolves by queries. For the two negative conditions that have a positive
  counterpart, no object on the path may satisfy the counterpart.
\<close>

fun path_sat :: "Env \<Rightarrow> ObjectStore \<Rightarrow> gmap list \<Rightarrow> Condition \<Rightarrow> Value \<Rightarrow> string list \<Rightarrow> gmap \<Rightarrow> bool" where
  "path_sat env st objs c fv [] g = False"
| "path_sat env st objs c fv [k] g = plain_sat env st k c fv g"
| "path_sat env st objs c fv (k # k' # ks) g =
     (case negativeConditionToPositive c of
        Inr pos \<Rightarrow> \<not> (\<exists>x\<in>set objs. path_sat env st objs pos fv (k' # ks) x \<and> refers g k x)
      | Inl _ \<Rightarrow> (\<exists>x\<in>set objs. path_sat env st objs c fv (k' # ks) x \<and> refers g k x))"

function path_of :: "string \<Rightarrow> string list" where
  "path_of s = (case split_dot s of None \<Rightarrow> [s] | Some (k, rest) \<Rightarrow> k # path_of rest)"
  by auto
termination by (relation "measure length") (auto dest: split_dot_length)

declare path_of.simps [simp del]

lemma path_of_None: "split_dot s = None \<Longrightarrow> path_of s = [s]"
  by (simp add: path_of.simps)

lemma path_of_Some: "split_dot s = Some (k, rest) \<Longrightarrow> path_of s = k # path_of rest"
  by (subst path_of.simps) simp

lemma path_of_nonempty: "\<exists>k ks. path_of s = k # ks"
  by (subst path_of.simps) (auto split: option.splits)

text \<open>
  The store answers a query by its own reading of the filter, which differs from \<open>FilterObject\<close> for some filters (the exact match of
  options on a single string, for one). On equality with one string, boolean or number other than zero, and on membership in
  a list of such values, the two readings are the same: the value of the object, or one of its elements, is the value of the filter.
\<close>

definition plain_value :: "Value \<Rightarrow> bool" where
  "plain_value v = (case v of VString _ \<Rightarrow> True | VBool _ \<Rightarrow> True | VFloat (Fin q) \<Rightarrow> q \<noteq> 0 | _ \<Rightarrow> False)"

fun store_exact :: "Filter \<Rightarrow> bool" where
  "store_exact (FilterEq k c v) = (c = Cond_Equal \<and> plain_value v)"
| "store_exact (FilterIn k vs) = list_all plain_value vs"
| "store_exact (FilterNestedIn k f ids) = True"
| "store_exact _ = False"

definition answers :: "(Filter \<Rightarrow> bool) \<Rightarrow> Env \<Rightarrow> ObjectStore \<Rightarrow> gmap list \<Rightarrow> bool" where
  "answers P env st objs \<longleftrightarrow>
     (\<forall>f. P f \<longrightarrow> (\<exists>recs. QueryRaw st (Some f) = Some recs \<and> set recs = {x \<in> set objs. FilterObject env f x}))"

lemma answersE:
  assumes "answers P env st objs" "P f"
  obtains recs where "QueryRaw st (Some f) = Some recs" "set recs = {x \<in> set objs. FilterObject env f x}"
  using assms unfolding answers_def by blast

text \<open>A dotted request that is not about a date, or that names the exact time.\<close>

definition undated :: "FilterRequest \<Rightarrow> bool" where
  "undated r \<longleftrightarrow> fr_Format r \<noteq> Format_date \<or> fr_QuickOption r = ExactDate \<and> fr_IncludeTime r"

lemma undated_transform: "undated r \<Longrightarrow> transformDateFilter env r = [r]"
  by (auto simp: undated_def transformDateFilter_def)

lemma undated_set [simp]: "undated (set_RelationKey k r) = undated r" "undated (set_Condition c r) = undated r"
  by (simp_all add: undated_def)

lemma makeFilter_undated:
  "undated r \<Longrightarrow> fr_Operator r = Op_No \<Longrightarrow> fr_Condition r \<noteq> Cond_None \<Longrightarrow>
     MakeFilter env (Some st) r = map_sum (\<lambda>e. e) Some (makeFilterByCondition env st r)"
  by (cases "makeFilterByCondition env st r")
    (simp_all add: MakeFilter.simps makeFilter.simps undated_transform)

lemma plain_ok_positive:
  "negativeConditionToPositive c = Inr pos \<Longrightarrow> plain_ok env c fv \<Longrightarrow> plain_ok env pos fv"
  by (cases c) (auto simp: plain_ok_def)

lemma positive_of:
  "negativeConditionToPositive c = Inr pos \<Longrightarrow> pos \<noteq> Cond_None \<and> \<not> isl (negativeConditionToPositive c) \<and>
     (c = Cond_NotEqual \<or> c = Cond_NotIn) \<and> isl (negativeConditionToPositive pos)"
  by (cases c) auto

lemma not_positive: "isl (negativeConditionToPositive c) \<longleftrightarrow> c \<noteq> Cond_NotEqual \<and> c \<noteq> Cond_NotIn"
  by (cases c) auto

lemma ids_refer:
  assumes "set recs = {x \<in> set objs. P x}"
  shows "list_ex (\<lambda>i. filterObject (VString i) Cond_Equal (Get g k)) (record_ids recs) \<longleftrightarrow>
    (\<exists>x\<in>set objs. P x \<and> refers g k x)"
  using assms by (auto simp: list_ex_iff record_ids_def filterObject_id refers_def)

text \<open>The requests \<open>R\<close> on a path, whose nested filters are among those \<open>P\<close> that the store answers.\<close>

definition askable :: "(Filter \<Rightarrow> bool) \<Rightarrow> (FilterRequest \<Rightarrow> bool) \<Rightarrow> Env \<Rightarrow> ObjectStore \<Rightarrow> bool" where
  "askable P R env st \<longleftrightarrow>
     (\<forall>r. R r \<longrightarrow> undated r \<and> (\<forall>k. R (set_RelationKey k r)) \<and>
       (\<forall>pos. negativeConditionToPositive (fr_Condition r) = Inr pos \<longrightarrow> R (set_Condition pos r)) \<and>
       (\<forall>f. isl (negativeConditionToPositive (fr_Condition r)) \<longrightarrow> makeFilterByCondition env st r = Inr f \<longrightarrow> P f))"

lemma askableD:
  assumes "askable P R env st" "R r"
  shows "undated r" "R (set_RelationKey k r)" "negativeConditionToPositive (fr_Condition r) = Inr pos \<Longrightarrow> R (set_Condition pos r)"
    "isl (negativeConditionToPositive (fr_Condition r)) \<Longrightarrow> makeFilterByCondition env st r = Inr f \<Longrightarrow> P f"
  using assms unfolding askable_def by blast+

lemma makeFilterByCondition_sat:
  assumes "lo_ok env" "answers P env st objs" "askable P R env st"
  shows "R r \<Longrightarrow> fr_Operator r = Op_No \<Longrightarrow> fr_Condition r \<noteq> Cond_None \<Longrightarrow>
    plain_ok env (fr_Condition r) (fr_Value r) \<Longrightarrow>
    \<exists>f. makeFilterByCondition env st r = Inr f \<and>
      (\<forall>g. FilterObject env f g = path_sat env st objs (fr_Condition r) (fr_Value r) (path_of (fr_RelationKey r)) g)"
proof (induction "length (fr_RelationKey r)" arbitrary: r rule: less_induct)
  case less
  show ?case
  proof (cases "split_dot (fr_RelationKey r)")
    case None
    from less.prems(4) obtain f where f: "make_plain env st r = Inr f"
      using make_plain_ok [of env st r] by (cases "make_plain env st r") auto
    then show ?thesis using None
      by (simp add: makeFilterByCondition.simps path_of_None make_plain_sat [OF assms(1) f])
  next
    case (Some p)
    obtain k n where p: "p = (k, n)" by force
    have len: "length n < length (fr_RelationKey r)" using Some p split_dot_length by fastforce
    obtain k' ks where path: "path_of n = k' # ks" using path_of_nonempty by blast
    note path_r = path_of_Some [OF Some [unfolded p], unfolded path]
    let ?q = "set_RelationKey n r"
    note ask = askableD [OF assms(3)]
    have q: "R ?q" "undated ?q" using ask(1,2) less.prems(1) by blast+
    from less.hyps [of ?q] less.prems len q obtain f where f: "makeFilterByCondition env st ?q = Inr f"
      "\<And>g. FilterObject env f g = path_sat env st objs (fr_Condition r) (fr_Value r) (k' # ks) g"
      by (auto simp: path)
    have mk: "MakeFilter env (Some st) ?q = Inr (Some f)"
      using f(1) less.prems q(2) by (simp add: makeFilter_undated del: undated_set)
    show ?thesis
    proof (cases "negativeConditionToPositive (fr_Condition r)")
      case (Inl e)
      have "P f" using ask(4) [OF q(1) _ f(1)] Inl by simp
      with assms(2) obtain recs where "QueryRaw st (Some f) = Some recs" and
        recs: "set recs = {x \<in> set objs. FilterObject env f x}" by (rule answersE)
      then have "makeFilterByCondition env st r = Inr (FilterNestedIn k (Some f) (record_ids recs))"
        using Some p mk Inl not_positive [of "fr_Condition r"]
        by (simp add: makeFilterByCondition.simps makeFilterNestedIn.simps)
      then show ?thesis using Inl by (simp add: path_r ids_refer [OF recs] f(2))
    next
      case (Inr pos)
      note pos = positive_of [OF Inr]
      let ?s = "set_Condition pos ?q"
      have s: "R ?s" using ask(3) [OF q(1), of pos] Inr by simp
      from less.hyps [of ?s] less.prems len s pos plain_ok_positive [OF Inr]
      obtain f' where f': "makeFilterByCondition env st ?s = Inr f'"
        "\<And>g. FilterObject env f' g = path_sat env st objs pos (fr_Value r) (k' # ks) g"
        by (auto simp: path)
      have mk': "MakeFilter env (Some st) ?s = Inr (Some f')"
        using f'(1) less.prems pos q(2) by (simp add: makeFilter_undated)
      have "P f'" using ask(4) [OF s _ f'(1)] pos by simp
      with assms(2) obtain recs where "QueryRaw st (Some f') = Some recs" and
        recs: "set recs = {x \<in> set objs. FilterObject env f' x}" by (rule answersE)
      then have "makeFilterByCondition env st r = Inr (FilterNestedNotIn k (Some f) (record_ids recs))"
        using Some p mk mk' Inr pos by (auto simp: makeFilterByCondition.simps makeFilterNestedNotIn.simps)
      then show ?thesis using Inr by (simp add: path_r ids_refer [OF recs] f'(2))
    qed
  qed
qed

text \<open>
  A date request without a time is about a period: the calendar unit that its quick option names, counted from now, or the day of its
  value. Equal to the period means inside it, before and after it mean before its first and after its last second.
\<close>

definition quick_periods :: "(QuickOption \<times> (Env \<Rightarrow> int \<Rightarrow> int \<Rightarrow> int) \<times> (Env \<Rightarrow> int \<Rightarrow> int \<Rightarrow> int) \<times> int) list" where
  "quick_periods =
     [(Yesterday, DayNumStart, DayNumEnd, -1), (Today, DayNumStart, DayNumEnd, 0), (Tomorrow, DayNumStart, DayNumEnd, 1),
      (LastWeek, WeekNumStart, WeekNumEnd, -1), (CurrentWeek, WeekNumStart, WeekNumEnd, 0), (NextWeek, WeekNumStart, WeekNumEnd, 1),
      (LastMonth, MonthNumStart, MonthNumEnd, -1), (CurrentMonth, MonthNumStart, MonthNumEnd, 0), (NextMonth, MonthNumStart, MonthNumEnd, 1),
      (LastYear, YearNumStart, YearNumEnd, -1), (CurrentYear, YearNumStart, YearNumEnd, 0), (NextYear, YearNumStart, YearNumEnd, 1)]"

definition period :: "Env \<Rightarrow> QuickOption \<Rightarrow> int \<Rightarrow> int \<times> int" where
  "period env q n =
     (case map_of quick_periods q of
        Some (first, final, k) \<Rightarrow> (first env (now env) k, final env (now env) k)
      | None \<Rightarrow>
          if q = NumberOfDaysAgo then (DayNumStart env (now env) (neg64 n), DayNumEnd env (now env) (neg64 n))
          else if q = NumberOfDaysNow then (DayNumStart env (now env) n, DayNumEnd env (now env) n)
          else (DayNumStart env n 0, DayNumEnd env n 0))"

definition about_period :: "Condition \<Rightarrow> bool" where
  "about_period c \<longleftrightarrow> c \<in> {Cond_Equal, Cond_In, Cond_Less, Cond_Greater, Cond_LessOrEqual, Cond_GreaterOrEqual}"

definition period_sat :: "Condition \<Rightarrow> int \<times> int \<Rightarrow> Value \<Rightarrow> bool" where
  "period_sat c p x =
     (if c = Cond_Less then compares Cond_Less (Int64 (fst p)) x
      else if c = Cond_Greater then compares Cond_Greater (Int64 (snd p)) x
      else (c = Cond_LessOrEqual \<or> compares Cond_GreaterOrEqual (Int64 (fst p)) x) \<and>
           (c = Cond_GreaterOrEqual \<or> compares Cond_LessOrEqual (Int64 (snd p)) x))"

lemma getDateRange_period: "getDateRange env r = period env (fr_QuickOption r) (Int64_of (oor64 env) (fr_Value r))"
  by (cases "fr_QuickOption r") (simp_all add: getDateRange_def period_def quick_periods_def Let_def)

text \<open>The meaning of a request tree: requests without a condition are ignored, and an empty
  disjunction holds.\<close>

definition leaf_sat :: "Env \<Rightarrow> ObjectStore \<Rightarrow> gmap list \<Rightarrow> FilterRequest \<Rightarrow> gmap \<Rightarrow> bool" where
  "leaf_sat env st objs r g \<longleftrightarrow>
     fr_Condition r = Cond_None \<or>
     (if \<not> undated r \<and> about_period (fr_Condition r)
      then period_sat (fr_Condition r) (period env (fr_QuickOption r) (Int64_of (oor64 env) (fr_Value r))) (Get g (fr_RelationKey r))
      else path_sat env st objs (fr_Condition r) (fr_Value r) (path_of (fr_RelationKey r)) g)"

definition effective :: "FilterRequest \<Rightarrow> bool" where
  "effective r \<longleftrightarrow> \<not> (fr_Operator r = Op_No \<and> fr_Condition r = Cond_None)"

function request_sat :: "Env \<Rightarrow> ObjectStore \<Rightarrow> gmap list \<Rightarrow> FilterRequest \<Rightarrow> gmap \<Rightarrow> bool" where
  "request_sat env st objs r g =
     (if fr_Operator r = Op_No then leaf_sat env st objs r g
      else if fr_Operator r = Op_Or
      then (\<forall>n\<in>set (fr_NestedFilters r). \<not> effective n) \<or>
           (\<exists>n\<in>set (fr_NestedFilters r). effective n \<and> request_sat env st objs n g)
      else (\<forall>n\<in>set (fr_NestedFilters r). effective n \<longrightarrow> request_sat env st objs n g))"
  by auto
termination
  by (relation "measure (\<lambda>(_, _, _, r, _). size_list size (fr_NestedFilters r))") (auto simp: size_nested)

declare request_sat.simps [simp del]

text \<open>The requests that the compiler accepts.\<close>

function valid_request :: "Env \<Rightarrow> FilterRequest \<Rightarrow> bool" where
  "valid_request env r =
     (if fr_Operator r = Op_No
      then fr_Condition r = Cond_None \<or> (\<not> undated r \<and> about_period (fr_Condition r)) \<or> plain_ok env (fr_Condition r) (fr_Value r)
      else fr_Operator r \<in> {Op_And, Op_Or} \<and> (\<forall>n\<in>set (fr_NestedFilters r). valid_request env n))"
  by auto
termination
  by (relation "measure (\<lambda>(_, r). size_list size (fr_NestedFilters r))") (auto simp: size_nested)

declare valid_request.simps [simp del]

text \<open>
  The requests on a path: equality with a plain value other than false, membership in a list of plain values, and their negations, not
  about days.
\<close>

definition path_request :: "Env \<Rightarrow> FilterRequest \<Rightarrow> bool" where
  "path_request env r \<longleftrightarrow> undated r \<and>
     (if fr_Condition r \<in> {Cond_Equal, Cond_NotEqual} then plain_value (fr_Value r) \<and> fr_Value r \<noteq> VBool False
      else fr_Condition r \<in> {Cond_In, Cond_NotIn} \<and> dayId env (String_of (fr_Value r)) = None \<and> other_relation (fr_Value r) = None \<and>
        list_all plain_value (WrapToList (fr_Value r)))"

function paths_plain :: "Env \<Rightarrow> FilterRequest \<Rightarrow> bool" where
  "paths_plain env r =
     (if fr_Operator r = Op_No then fr_Condition r = Cond_None \<or> path_request env r \<or> split_dot (fr_RelationKey r) = None
      else (\<forall>n\<in>set (fr_NestedFilters r). paths_plain env n))"
  by auto
termination
  by (relation "measure (\<lambda>(_, r). size_list size (fr_NestedFilters r))") (auto simp: size_nested)

declare paths_plain.simps [simp del]

lemma path_request_askable: "askable store_exact (path_request env) env st"
  unfolding askable_def
proof (intro allI impI conjI)
  fix r assume r: "path_request env r"
  show "undated r" using r by (simp add: path_request_def)
  show "path_request env (set_RelationKey k r)" for k using r by (auto simp: path_request_def split: if_splits)
  show "path_request env (set_Condition pos r)" if "negativeConditionToPositive (fr_Condition r) = Inr pos" for pos
    using r that by (cases "fr_Condition r") (auto simp: path_request_def)
  fix f assume "isl (negativeConditionToPositive (fr_Condition r))" and f: "makeFilterByCondition env st r = Inr f"
  then have c: "fr_Condition r = Cond_Equal \<or> fr_Condition r = Cond_In" using r by (auto simp: path_request_def split: if_splits)
  show "store_exact f"
  proof (cases "split_dot (fr_RelationKey r)")
    case None
    then have "make_plain env st r = Inr f" using f by (simp add: makeFilterByCondition.simps)
    moreover have "other_relation (fr_Value r) = None"
      using r c by (auto simp: path_request_def other_relation_def plain_value_def split: Value.splits)
    moreover have "rewrite_bool r = r"
      using r c by (cases rule: rewrite_bool_cases [of r]) (auto simp: path_request_def)
    ultimately show ?thesis
      using r c by (auto simp: make_plain_switch condition_switch_def path_request_def make_in_def WrapToList_def split: option.splits)
  next
    case (Some p)
    then show ?thesis using f c
      by (cases p) (auto simp: makeFilterByCondition.simps makeFilterNestedIn.simps split: sum.splits option.splits)
  qed
qed

lemma try_all_Inr: "try_all f xs = Inr ys \<Longrightarrow> list_all2 (\<lambda>x y. f x = Inr y) xs ys"
  by (induction xs arbitrary: ys) (auto split: sum.splits)

lemma all2_conj:
  "list_all2 (\<lambda>q f. \<forall>g. F f g = P q g) qs fs \<Longrightarrow> list_all (\<lambda>f. F f g) fs \<longleftrightarrow> (\<forall>q\<in>set qs. P q g)"
  by (induction rule: list_all2_induct) auto

lemma try_all_isl: "isl (try_all f xs) \<longleftrightarrow> (\<exists>x\<in>set xs. isl (f x))"
  by (induction xs) (auto split: sum.splits)

lemma makeFilterByCondition_rejects:
  "undated r \<Longrightarrow> fr_Operator r = Op_No \<Longrightarrow> fr_Condition r \<noteq> Cond_None \<Longrightarrow>
    \<not> plain_ok env (fr_Condition r) (fr_Value r) \<Longrightarrow> isl (makeFilterByCondition env st r)"
proof (induction "length (fr_RelationKey r)" arbitrary: r rule: less_induct)
  case less
  show ?case
  proof (cases "split_dot (fr_RelationKey r)")
    case None
    then show ?thesis using less.prems by (simp add: makeFilterByCondition.simps make_plain_ok)
  next
    case (Some p)
    obtain k n where p: "p = (k, n)" by force
    have "length n < length (fr_RelationKey r)" using Some p split_dot_length by fastforce
    then obtain e where "makeFilterByCondition env st (set_RelationKey n r) = Inl e"
      using less.hyps [of "set_RelationKey n r"] less.prems by (auto simp: isl_def)
    then have "MakeFilter env (Some st) (set_RelationKey n r) = Inl e"
      using less.prems by (simp add: makeFilter_undated)
    then show ?thesis using Some p
      by (auto simp: makeFilterByCondition.simps makeFilterNestedIn.simps makeFilterNestedNotIn.simps
          split: sum.splits option.splits)
  qed
qed

lemma makeFilterByCondition_plain:
  "split_dot (fr_RelationKey r) = None \<Longrightarrow> makeFilterByCondition env st r = make_plain env st r"
  by (simp add: makeFilterByCondition.simps)

text \<open>The transformation of date requests implements the periods.\<close>

lemma other_relation_Int64 [simp]: "other_relation (Int64 n) = None"
  by (simp add: Int64_def other_relation_def)

lemma transform_dated:
  assumes "\<not> undated r"
  shows "transformDateFilter env r =
    (let p = period env (fr_QuickOption r) (Int64_of (oor64 env) (fr_Value r))
     in case fr_Condition r of
          Cond_Equal \<Rightarrow> [leaf_request (fr_RelationKey r) Cond_LessOrEqual (Int64 (snd p)), leaf_request (fr_RelationKey r) Cond_GreaterOrEqual (Int64 (fst p))]
        | Cond_In \<Rightarrow> [leaf_request (fr_RelationKey r) Cond_LessOrEqual (Int64 (snd p)), leaf_request (fr_RelationKey r) Cond_GreaterOrEqual (Int64 (fst p))]
        | Cond_Less \<Rightarrow> [set_Value (Int64 (fst p)) r]
        | Cond_Greater \<Rightarrow> [set_Value (Int64 (snd p)) r]
        | Cond_LessOrEqual \<Rightarrow> [set_Value (Int64 (snd p)) r]
        | Cond_GreaterOrEqual \<Rightarrow> [set_Value (Int64 (fst p)) r]
        | _ \<Rightarrow> [r])"
  using assms
  by (auto simp: undated_def transformDateFilter_def getDateRange_period Let_def split_beta cong: Condition.case_cong)

lemma transform_sat:
  assumes "split_dot (fr_RelationKey r) = None \<or> undated r" "fr_Condition r \<noteq> Cond_None"
  shows "(\<forall>q\<in>set (transformDateFilter env r). path_sat env st objs (fr_Condition q) (fr_Value q) (path_of (fr_RelationKey q)) g) \<longleftrightarrow>
      leaf_sat env st objs r g" (is ?sat)
    and "(\<forall>q\<in>set (transformDateFilter env r). plain_ok env (fr_Condition q) (fr_Value q)) \<longleftrightarrow>
      (\<not> undated r \<and> about_period (fr_Condition r)) \<or> plain_ok env (fr_Condition r) (fr_Value r)" (is ?ok)
proof (atomize (full), cases "undated r")
  case True
  then show "?sat \<and> ?ok" using assms(2) by (simp add: undated_transform leaf_sat_def)
next
  case False
  then have "path_of (fr_RelationKey r) = [fr_RelationKey r]" using assms(1) by (simp add: path_of_None)
  then show "?sat \<and> ?ok"
    using assms(2) False
    by (cases "fr_Condition r")
      (auto simp: transform_dated leaf_sat_def about_period_def period_sat_def plain_sat_def condition_sat_def plain_ok_def Let_def)
qed

lemma MakeFilter_leaf:
  assumes "lo_ok env" "answers store_exact env st objs" "fr_Operator r = Op_No" "paths_plain env r"
  shows "if valid_request env r
    then \<exists>f. MakeFilter env (Some st) r = Inr f \<and> (f = None \<longleftrightarrow> \<not> effective r) \<and>
      (\<forall>g. keeps env f g = request_sat env st objs r g)
    else isl (MakeFilter env (Some st) r)"
proof (cases "fr_Condition r = Cond_None")
  case True
  then show ?thesis using assms(3)
    by (simp add: valid_request.simps MakeFilter.simps makeFilter.simps keeps_def request_sat.simps leaf_sat_def
        effective_def)
next
  case False
  let ?qs = "transformDateFilter env r" and ?mk = "makeFilterByCondition env st"
  have ok: "if plain_ok env (fr_Condition q) (fr_Value q)
      then \<exists>f. ?mk q = Inr f \<and> (\<forall>g. FilterObject env f g =
        path_sat env st objs (fr_Condition q) (fr_Value q) (path_of (fr_RelationKey q)) g)
      else isl (?mk q)" if "q \<in> set ?qs" for q
  proof (cases "split_dot (fr_RelationKey r) = None")
    case True
    then have "split_dot (fr_RelationKey q) = None" using transformDateFilter_in(1) [OF that] by simp
    then show ?thesis using make_plain_ok [of env st q] make_plain_sat [OF assms(1), of st q]
      by (cases "make_plain env st q") (auto simp: makeFilterByCondition_plain path_of_None)
  next
    case False2: False
    with False assms(3,4) have "path_request env r" "undated r" by (auto simp: paths_plain.simps path_request_def)
    then show ?thesis
      using that makeFilterByCondition_sat [OF assms(1,2) path_request_askable, of r] makeFilterByCondition_rejects [of r]
        False assms(3) by (auto simp: undated_transform)
  qed
  have plain: "split_dot (fr_RelationKey r) = None \<or> undated r"
    using False assms(3,4) by (auto simp: paths_plain.simps path_request_def)
  note tr = transform_sat [OF plain False]
  show ?thesis
  proof (cases "valid_request env r")
    case True
    then have v: "\<forall>q\<in>set ?qs. plain_ok env (fr_Condition q) (fr_Value q)"
      using False assms(3) unfolding tr(2) by (simp add: valid_request.simps)
    then have "\<not> isl (try_all ?mk ?qs)" using ok by (fastforce simp: try_all_isl)
    then obtain fs where fs: "try_all ?mk ?qs = Inr fs" by (cases "try_all ?mk ?qs") auto
    have all2: "list_all2 (\<lambda>q f. \<forall>g. FilterObject env f g =
        path_sat env st objs (fr_Condition q) (fr_Value q) (path_of (fr_RelationKey q)) g) ?qs fs"
      using try_all_Inr [OF fs] by (rule list.rel_mono_strong) (use ok v in fastforce)
    obtain f where f: "MakeFilter env (Some st) r = Inr (Some f)" "f = (if length ?qs = 1 then hd fs else FiltersAnd fs)"
      using fs False assms(3) by (simp add: MakeFilter.simps makeFilter.simps)
    have "FilterObject env f g \<longleftrightarrow> (\<forall>q\<in>set ?qs. path_sat env st objs (fr_Condition q) (fr_Value q)
        (path_of (fr_RelationKey q)) g)" for g
    proof -
      have "FilterObject env f g \<longleftrightarrow> list_all (\<lambda>f. FilterObject env f g) fs"
      proof (cases "length ?qs = 1")
        case True
        with list_all2_lengthD [OF all2] obtain f' where "fs = [f']" by (cases fs) auto
        with True show ?thesis by (simp add: f(2))
      qed (simp add: f(2) list_all_iff)
      then show ?thesis using all2_conj [OF all2] by simp
    qed
    then show ?thesis using True False f(1) assms(3) unfolding tr(1)
      by (simp add: keeps_def request_sat.simps effective_def)
  next
    case invalid: False
    then have "\<not> (\<forall>q\<in>set ?qs. plain_ok env (fr_Condition q) (fr_Value q))"
      using False assms(3) unfolding tr(2) by (simp add: valid_request.simps)
    then obtain q where "q \<in> set ?qs" "\<not> plain_ok env (fr_Condition q) (fr_Value q)" by blast
    then obtain q where "q \<in> set ?qs" "isl (?mk q)" using ok [of q] by auto
    then have "isl (try_all ?mk ?qs)" by (auto simp: try_all_isl)
    then show ?thesis using invalid False assms(3)
      by (auto simp: MakeFilter.simps makeFilter.simps isl_def Let_def)
  qed
qed

lemma all2_kept:
  assumes "list_all2 (\<lambda>n f. (f = None \<longleftrightarrow> \<not> effective n) \<and> keeps env f g = S n) ns fs"
  shows "(\<forall>f\<in>set (List.map_filter id fs). FilterObject env f g) \<longleftrightarrow> (\<forall>n\<in>set ns. effective n \<longrightarrow> S n)"
    and "(\<exists>f\<in>set (List.map_filter id fs). FilterObject env f g) \<longleftrightarrow> (\<exists>n\<in>set ns. effective n \<and> S n)"
    and "List.map_filter id fs = [] \<longleftrightarrow> (\<forall>n\<in>set ns. \<not> effective n)"
  using assms by (induction rule: list_all2_induct) (auto simp: List.map_filter_def keeps_def split: option.splits)

lemma MakeFilter_tree:
  assumes "fr_Operator r \<noteq> Op_No"
  shows "MakeFilter env st r =
    (case try_all (MakeFilter env st) (fr_NestedFilters r) of
       Inl e \<Rightarrow> Inl e
     | Inr fs \<Rightarrow> (case fr_Operator r of Op_Or \<Rightarrow> Inr (Some (FiltersOr (List.map_filter id fs)))
         | Op_unknown n \<Rightarrow> Inl (ErrOperator (Op_unknown n)) | _ \<Rightarrow> Inr (Some (FiltersAnd (List.map_filter id fs)))))"
  using assms by (subst MakeFilter.simps) (simp only: Let_def if_False)

lemma MakeFilter_correct:
  assumes "lo_ok env" "answers store_exact env st objs"
  shows "paths_plain env r \<Longrightarrow> if valid_request env r
    then \<exists>f. MakeFilter env (Some st) r = Inr f \<and> (f = None \<longleftrightarrow> \<not> effective r) \<and>
      (\<forall>g. keeps env f g = request_sat env st objs r g)
    else isl (MakeFilter env (Some st) r)"
proof (induction "size_list size (fr_NestedFilters r)" arbitrary: r rule: less_induct)
  case less
  show ?case
  proof (cases "fr_Operator r = Op_No")
    case True
    then show ?thesis using MakeFilter_leaf [OF assms] less.prems by blast
  next
    case False
    let ?mk = "MakeFilter env (Some st)" and ?ns = "fr_NestedFilters r"
    have IH: "if valid_request env n
      then \<exists>f. ?mk n = Inr f \<and> (f = None \<longleftrightarrow> \<not> effective n) \<and> (\<forall>g. keeps env f g = request_sat env st objs n g)
      else isl (?mk n)" if "n \<in> set ?ns" for n
      using less.hyps [OF size_nested [OF that]] less.prems that False by (simp add: paths_plain.simps [of env r])
    show ?thesis
    proof (cases "\<forall>n\<in>set ?ns. valid_request env n")
      case True
      then have "\<not> isl (try_all ?mk ?ns)" using IH by (fastforce simp: try_all_isl)
      then obtain fs where fs: "try_all ?mk ?ns = Inr fs" by (cases "try_all ?mk ?ns") auto
      have all2: "list_all2 (\<lambda>n f. (f = None \<longleftrightarrow> \<not> effective n) \<and> keeps env f g = request_sat env st objs n g) ?ns fs" for g
        using try_all_Inr [OF fs] by (rule list.rel_mono_strong) (use IH True in fastforce)
      show ?thesis
        using False fs True all2_kept [OF all2]
        by (cases "fr_Operator r")
          (simp_all add: MakeFilter_tree valid_request.simps [of env r] request_sat.simps [of env st objs r]
            effective_def [of r] keeps_def list_all_iff list_ex_iff, blast)
    next
      case invalid: False
      then obtain n where n: "n \<in> set ?ns" "\<not> valid_request env n" by blast
      then have "isl (?mk n)" using IH [OF n(1)] by simp
      with n(1) have "isl (try_all ?mk ?ns)" by (auto simp: try_all_isl)
      then obtain e where "try_all ?mk ?ns = Inl e" by (auto simp: isl_def)
      then show ?thesis using invalid False by (simp add: MakeFilter_tree valid_request.simps [of env r])
    qed
  qed
qed

lemma and_conjunct:
  assumes "MakeFilter env st r = Inr f" "keeps env f g" "fr_Operator r = Op_And" "n \<in> set (fr_NestedFilters r)"
  shows "\<exists>f'. MakeFilter env st n = Inr f' \<and> keeps env f' g"
proof -
  obtain fs where fs: "try_all (MakeFilter env st) (fr_NestedFilters r) = Inr fs" "f = Some (FiltersAnd (List.map_filter id fs))"
    using assms(1,3) by (auto simp: MakeFilter_tree split: sum.splits)
  obtain f' where f': "MakeFilter env st n = Inr f'" "f' \<in> set fs"
    using try_all_Inr [OF fs(1)] assms(4) by (auto simp: list_all2_conv_all_nth in_set_conv_nth) metis
  then have "keeps env f' g"
    using assms(2) fs(2) by (cases f') (force simp: keeps_def list_all_iff List.map_filter_def)+
  with f'(1) show ?thesis by blast
qed

lemma plain_flag_request:
  assumes "k \<in> {''isArchived'', ''isDeleted''}"
  shows "MakeFilter env (Some st) (leaf_request k Cond_NotEqual (VBool True)) = Inr (Some (FilterEq k Cond_NotEqual (VBool True)))"
  using assms
  by (auto simp: MakeFilter.simps makeFilter.simps transformDateFilter_def makeFilterByCondition.simps split_dot_def
      make_plain_def rewrite_bool_def condition_switch_def Let_def)

lemma flag_excluded:
  assumes "keeps env (Some (FilterEq k Cond_NotEqual (VBool True))) g"
  shows "Get g k \<noteq> VBool True"
  using assms by (auto simp: keeps_def filterObject_def Let_def Compare.simps)

lemma injected_conjunct:
  assumes "NewFilters_filter env (Some st) filters = Inr f" "keeps env f g"
    and "\<And>L. d \<in> set (addDefaultFilters L (hasDefaultFilters filters))" "fr_NestedFilters d = []"
  shows "\<exists>f'. MakeFilter env (Some st) d = Inr f' \<and> keeps env f' g"
proof -
  let ?has = "hasDefaultFilters filters"
  have wrap: "MakeFilters env (Some st) L = MakeFilter env (Some st) (tree_request Op_And L)"
    if "d \<in> set L" for L
    using that assms(4) by (cases L) (auto simp: MakeFilters_def)
  show ?thesis
  proof (cases "\<exists>f0 fs. filters = f0 # fs \<and> fr_NestedFilters f0 \<noteq> []")
    case False
    then have "injectDefaultFilters filters = addDefaultFilters filters ?has"
      by (cases filters) (auto simp: injectDefaultFilters_def)
    then show ?thesis using assms(1,2) wrap [OF assms(3)] assms(3)
      by (intro and_conjunct [of env "Some st" "tree_request Op_And (addDefaultFilters filters ?has)"])
        (simp_all add: NewFilters_filter_def)
  next
    case True
    then obtain f0 fs where fl: "filters = f0 # fs" "fr_NestedFilters f0 \<noteq> []" by blast
    show ?thesis
    proof (cases "fr_Operator f0 = Op_And")
      case False
      then have "injectDefaultFilters filters = [tree_request Op_And (addDefaultFilters filters ?has)]"
        using fl by (simp add: injectDefaultFilters_def addDefaultFiltersToNested_def)
      moreover have "addDefaultFilters filters ?has \<noteq> []" using assms(3) [of filters] by auto
      ultimately show ?thesis using assms(1-3)
        by (intro and_conjunct [of env "Some st" "tree_request Op_And (addDefaultFilters filters ?has)"])
          (simp_all add: NewFilters_filter_def MakeFilters_def)
    next
      case True
      let ?n = "addDefaultFilters (fr_NestedFilters f0) ?has"
      let ?f0 = "set_NestedFilters ?n f0"
      have inj: "injectDefaultFilters filters = ?f0 # fs"
        using fl True by (simp add: injectDefaultFilters_def addDefaultFiltersToNested_def)
      have "?n \<noteq> []" using assms(3) [of "fr_NestedFilters f0"] by auto
      then have "\<exists>f'. MakeFilter env (Some st) ?f0 = Inr f' \<and> keeps env f' g"
        using assms(1,2) True inj and_conjunct [of env "Some st" "tree_request Op_And (?f0 # fs)" f g ?f0]
        by (auto simp: NewFilters_filter_def MakeFilters_def split: if_splits)
      then show ?thesis using and_conjunct [of env "Some st" ?f0] True assms(3) by fastforce
    qed
  qed
qed

lemma default_flag_added:
  "\<not> fst has \<Longrightarrow> leaf_request ''isArchived'' Cond_NotEqual (VBool True) \<in> set (addDefaultFilters L has)"
  "\<not> fst (snd has) \<Longrightarrow> leaf_request ''isDeleted'' Cond_NotEqual (VBool True) \<in> set (addDefaultFilters L has)"
  by (cases has, simp add: addDefaultFilters_def)+

text \<open>Some request of the tree is about key \<open>k\<close>.\<close>

function mentions :: "string \<Rightarrow> FilterRequest list \<Rightarrow> bool" where
  "mentions k fs \<longleftrightarrow> (\<exists>f\<in>set fs. fr_RelationKey f = k \<or> mentions k (fr_NestedFilters f))"
  by auto
termination
proof (relation "measure (\<lambda>(_, fs). size_list size fs)")
  show "((k, fr_NestedFilters f), (k, fs)) \<in> measure (\<lambda>(_, fs). size_list size fs)" if "f \<in> set fs" for k fs f
  proof -
    have "size_list size (fr_NestedFilters f) < size f" by (cases f) simp
    also have "size f \<le> size_list size fs" using that by (rule size_list_estimation') simp
    finally show ?thesis by simp
  qed
qed simp

declare mentions.simps [simp del]

lemma mentions_Nil [simp]: "\<not> mentions k []"
  by (subst mentions.simps) simp

lemma default_flags_mentioned:
  "(fst (hasDefaultFilters fs) \<longrightarrow> mentions ''isArchived'' fs) \<and>
   (fst (snd (hasDefaultFilters fs)) \<longrightarrow> mentions ''isDeleted'' fs)"
  "set rest \<subseteq> set all \<Longrightarrow> (fst acc \<longrightarrow> mentions ''isArchived'' all) \<Longrightarrow> (fst (snd acc) \<longrightarrow> mentions ''isDeleted'' all) \<Longrightarrow>
   (fst (default_loop all rest acc) \<longrightarrow> mentions ''isArchived'' all) \<and>
   (fst (snd (default_loop all rest acc)) \<longrightarrow> mentions ''isDeleted'' all)"
proof (induction fs and all rest acc rule: hasDefaultFilters_default_loop.induct)
  case (4 f0 filters f fs hA hD hT)
  have sub: "mentions k (f0 # filters)" if "mentions k (fr_NestedFilters f0)" for k
    using that by (subst mentions.simps) auto
  have key: "mentions k (f0 # filters)" if "fr_RelationKey f = k" for k
    using that 4(3) by (subst mentions.simps) auto
  show ?case
  proof (cases "fr_NestedFilters f = []")
    case True
    then show ?thesis using 4(2) [OF _ _ ] 4(3-5) key by auto
  next
    case False
    then show ?thesis using 4(1) sub by auto
  qed
qed auto

text \<open>C19: what the filter compiler promises. For every request tree whose operators, conditions and
  value types are supported, \<open>MakeFilter\<close> returns a filter that keeps exactly the objects that
  satisfy the request: nested conjunctions and disjunctions, each condition on scalars and lists, date requests as periods of the
  calendar, and dotted keys as paths through the objects of the store. Every other tree is rejected with an
  error. Dotted keys are used for equality with a plain value, membership in a list of plain values, and their
  negations, and not for day filters (\<open>paths_plain\<close>); on the queries that these send, the store is assumed to return the
  objects that \<open>FilterObject\<close> keeps. The helpers of samber/lo behave as documented.\<close>

theorem MakeFilter_meaning:
  assumes "lo_ok env" "answers store_exact env st objs" "paths_plain env r"
  shows "if valid_request env r
    then \<exists>f. MakeFilter env (Some st) r = Inr f \<and> (\<forall>g. keeps env f g = request_sat env st objs r g)
    else \<exists>e. MakeFilter env (Some st) r = Inl e"
  using MakeFilter_correct [OF assms] by (cases "valid_request env r") (auto simp: isl_def)

definition sample_env :: Env where
  "sample_env = \<lparr>ToLower = id, EveryString = (\<lambda>c s. set s \<subseteq> set c),
     EveryFloat = (\<lambda>c s. \<forall>x\<in>set s. \<exists>y\<in>set c. f64_eq x y), FilterString = (\<lambda>xs p. filter p xs), dayId = (\<lambda>_. None),
     time_Date = (\<lambda>y m d hour min sec. (d - 1) * 86400 + hour * 3600 + min * 60 + sec), t_Date = (\<lambda>t. (1970, 1, t div 86400 + 1)),
     t_ISOWeek = (\<lambda>t. (1970, 1)), t_Weekday = (\<lambda>t. (t div 86400 + 4) mod 7), t_AddDate = (\<lambda>t y m d. t + d * 86400),
     now = 0, oor64 = (\<lambda>_. 0)\<rparr>"

definition sample_store :: "gmap list \<Rightarrow> ObjectStore" where
  "sample_store objs = \<lparr>QueryRaw = (\<lambda>f. Some (filter (keeps sample_env f) objs)), ListRelationOptions = (\<lambda>_. None)\<rparr>"

lemma sample_env_lo: "lo_ok sample_env"
  by (simp add: lo_ok_def sample_env_def)

lemma sample_store_answers: "answers P sample_env (sample_store objs) objs"
  by (auto simp: answers_def sample_store_def keeps_def)

theorem MakeFilter_meaning_witness:
  "\<exists>f. MakeFilter sample_env (Some (sample_store [Some [(''id'', VString ''p1''), (''name'', VString ''Ann'')]]))
      (leaf_request ''author.name'' Cond_Equal (VString ''Ann'')) = Inr f \<and>
    keeps sample_env f (Some [(''author'', VStringList [''p1''])]) \<and> \<not> keeps sample_env f (Some [(''author'', VString ''p2'')])"
proof -
  let ?o = "Some [(''id'', VString ''p1''), (''name'', VString ''Ann'')] :: gmap"
  let ?r = "leaf_request ''author.name'' Cond_Equal (VString ''Ann'')"
  have split: "split_dot ''author.name'' = Some (''author'', ''name'')" "split_dot ''name'' = None"
    by (simp_all add: split_dot_def)
  have u: "undated ?r" by (simp add: undated_def)
  have "paths_plain sample_env ?r" by (simp add: paths_plain.simps path_request_def u plain_value_def)
  moreover have "valid_request sample_env ?r" by (simp add: valid_request.simps plain_ok_def)
  ultimately obtain f where f: "MakeFilter sample_env (Some (sample_store [?o])) ?r = Inr f"
      "\<And>g. keeps sample_env f g = request_sat sample_env (sample_store [?o]) [?o] ?r g"
    using MakeFilter_meaning [OF sample_env_lo sample_store_answers, of ?r "[?o]"] by auto
  have "request_sat sample_env (sample_store [?o]) [?o] ?r g \<longleftrightarrow> refers g ''author'' ?o" for g
    by (simp add: request_sat.simps leaf_sat_def u path_of_Some [OF split(1)] path_of_None [OF split(2)] plain_sat_def
        other_relation_def condition_sat_def compares_def elems_def Get_def Get_data_def)
  then show ?thesis using f
    by (auto simp: refers_def elems_def Get_def Get_data_def GetString_def String_of_def)
qed

text \<open>C21: unless some request of the tree is about the archived flag, no query returns an archived
  object, whatever the other requests are and however they are nested; the same for deleted
  objects and their flag.\<close>

theorem NewFilters_hides:
  assumes "NewFilters_filter env (Some st) filters = Inr f" "keeps env f g"
  shows "(\<not> mentions ''isArchived'' filters \<longrightarrow> Get g ''isArchived'' \<noteq> VBool True) \<and>
    (\<not> mentions ''isDeleted'' filters \<longrightarrow> Get g ''isDeleted'' \<noteq> VBool True)"
proof -
  have hide: "Get g k \<noteq> VBool True"
    if "k \<in> {''isArchived'', ''isDeleted''}"
      "\<And>L. leaf_request k Cond_NotEqual (VBool True) \<in> set (addDefaultFilters L (hasDefaultFilters filters))" for k
    using injected_conjunct [OF assms that(2)] flag_excluded [of env k g]
    by (auto simp: plain_flag_request [OF that(1)])
  show ?thesis using hide default_flag_added default_flags_mentioned(1) [of filters] by blast
qed

theorem NewFilters_hides_witness:
  "\<exists>f. NewFilters_filter sample_env (Some (sample_store [])) [] = Inr f \<and> keeps sample_env f (Some [(''name'', VString ''a'')]) \<and>
     \<not> keeps sample_env f (Some [(''isArchived'', VBool True)])"
proof -
  let ?a = "leaf_request ''isArchived'' Cond_NotEqual (VBool True)" and ?d = "leaf_request ''isDeleted'' Cond_NotEqual (VBool True)"
  let ?t = "leaf_request ''type'' Cond_NotIn (Int64 10)" and ?st = "Some (sample_store [])"
  have "MakeFilter sample_env ?st ?t = Inr (Some (FilterNot (Some (FilterIn ''type'' [Int64 10]))))"
    by (simp add: MakeFilter.simps makeFilter.simps transformDateFilter_def makeFilterByCondition.simps split_dot_def
        make_plain_def rewrite_bool_def condition_switch_def make_in_def TryWrapToList_def Int64_def)
  then obtain f where f: "NewFilters_filter sample_env ?st [] = Inr f" "f = Some (FiltersAnd
      [FilterEq ''isArchived'' Cond_NotEqual (VBool True), FilterEq ''isDeleted'' Cond_NotEqual (VBool True),
       FilterNot (Some (FilterIn ''type'' [Int64 10]))])"
    by (simp add: NewFilters_filter_def MakeFilters_def injectDefaultFilters_def addDefaultFilters_def
        MakeFilter_tree plain_flag_request List.map_filter_def)
  moreover have "\<not> keeps sample_env f (Some [(''isArchived'', VBool True)])"
    using NewFilters_hides [OF f(1), of "Some [(''isArchived'', VBool True)]"]
    by (auto simp: Get_def Get_data_def)
  moreover have "keeps sample_env f (Some [(''name'', VString ''a'')])"
    by (simp add: f(2) keeps_def filterObject_def Compare.simps Get_def Get_data_def Int64_def)
  ultimately show ?thesis by blast
qed

text \<open>The check for an explicit archived filter loses what it has seen when a later request has
  nested requests: a query for archived objects that is combined with such a request returns
  nothing, because the default filter against archived objects is added to it.\<close>

lemma explicit_archived_forgotten:
  assumes "fr_NestedFilters r \<noteq> []"
    and "NewFilters_filter env (Some st) [leaf_request ''isArchived'' Cond_Equal (VBool True), r] = Inr f"
  shows "\<not> keeps env f g"
proof
  assume k: "keeps env f g"
  let ?a = "leaf_request ''isArchived'' Cond_Equal (VBool True)"
  have has: "hasDefaultFilters [?a, r] = (False, False, False)" using assms(1) by simp
  have "Get g ''isArchived'' \<noteq> VBool True"
    using injected_conjunct [OF assms(2) k default_flag_added(1)] flag_excluded [of env "''isArchived''" g]
    by (auto simp: has plain_flag_request simp del: hasDefaultFilters.simps)
  moreover have "Compare (VBool True) v = 0 \<longleftrightarrow> v = VBool True" for v by (cases v) (auto simp: Compare.simps)
  moreover obtain f' where "MakeFilter env (Some st) ?a = Inr f'" "keeps env f' g"
    using and_conjunct [of env "Some st" "tree_request Op_And (injectDefaultFilters [?a, r])" f g ?a] assms(2) k
    by (auto simp: NewFilters_filter_def MakeFilters_def injectDefaultFilters_def addDefaultFilters_def has
        simp del: hasDefaultFilters.simps)
  then have "filterObject (VBool True) Cond_Equal (Get g ''isArchived'')"
    by (auto simp: MakeFilter.simps makeFilter.simps transformDateFilter_def makeFilterByCondition.simps split_dot_def
        make_plain_def rewrite_bool_def condition_switch_def Let_def keeps_def)
  ultimately show False
    by (cases "Get g ''isArchived''") (auto simp: filterObject_compares compares_def elems_def)
qed

lemma explicit_archived_forgotten_example:
  "\<exists>f. NewFilters_filter sample_env (Some (sample_store []))
       [leaf_request ''isArchived'' Cond_Equal (VBool True), tree_request Op_Or [leaf_request ''name'' Cond_NotEmpty VNull]] = Inr f \<and>
     \<not> keeps sample_env f (Some [(''isArchived'', VBool True), (''name'', VString ''a'')])"
proof -
  let ?r = "tree_request Op_Or [leaf_request ''name'' Cond_NotEmpty VNull]"
  let ?a = "leaf_request ''isArchived'' Cond_Equal (VBool True)"
  obtain f where f: "NewFilters_filter sample_env (Some (sample_store [])) [?a, ?r] = Inr f"
    by (simp add: NewFilters_filter_def MakeFilters_def injectDefaultFilters_def addDefaultFilters_def
        MakeFilter_tree plain_flag_request MakeFilter.simps makeFilter.simps transformDateFilter_def
        makeFilterByCondition.simps split_dot_def make_plain_def rewrite_bool_def condition_switch_def make_in_def
        TryWrapToList_def Int64_def)
  with explicit_archived_forgotten [OF _ f] show ?thesis by auto
qed

text \<open>
  Two defects of day filters on paths. The two bounds of "equal to a day" become two independent
  nested filters, which may be met by two different objects; and a nested request is transformed a
  second time, when its value is no longer the number of days.
\<close>

definition due_store :: "ObjectStore option" where
  "due_store = Some (sample_store
     [Some [(''id'', VString ''t1''), (''due'', Int64 0)], Some [(''id'', VString ''t2''), (''due'', Int64 259200)]])"

definition keeps_result :: "Env \<Rightarrow> error + Filter option \<Rightarrow> gmap \<Rightarrow> bool" where
  "keeps_result env res g = (case res of Inl _ \<Rightarrow> False | Inr f \<Rightarrow> keeps env f g)"

lemma Int64_small: "\<bar>n\<bar> \<le> 2 ^ 53 \<Longrightarrow> Int64 n = VFloat (Fin (of_int n))"
  by (simp add: Int64_def f64_of_int_def round53_def nat_le_iff sgn_mult_abs del: of_int_mult)

lemma undated_askable: "askable (\<lambda>_. True) undated env st"
  by (simp add: askable_def)

lemma nested_day_meaning:
  assumes "lo_ok env" "answers (\<lambda>_. True) env st objs" "split_dot key = Some (k, n)" "split_dot n = None"
    and "getDateRange env (FilterRequest i Op_No key p Cond_Equal v q Format_date False ns) = (from, to)"
  shows "keeps_result env (MakeFilter env (Some st) (FilterRequest i Op_No key p Cond_Equal v q Format_date False ns)) g \<longleftrightarrow>
    (\<exists>x\<in>set objs. compares Cond_LessOrEqual (Int64 to) (Get x n) \<and> refers g k x) \<and>
    (\<exists>x\<in>set objs. compares Cond_GreaterOrEqual (Int64 from) (Get x n) \<and> refers g k x)"
proof -
  have leaf: "\<exists>f. makeFilterByCondition env st (leaf_request key c (Int64 m)) = Inr f \<and> (\<forall>g. FilterObject env f g \<longleftrightarrow>
      (\<exists>x\<in>set objs. compares c (Int64 m) (Get x n) \<and> refers g k x))" if "c \<in> {Cond_LessOrEqual, Cond_GreaterOrEqual}" for c m
    using makeFilterByCondition_sat [OF assms(1,2) undated_askable, of "leaf_request key c (Int64 m)"] that
    by (auto simp: undated_def plain_ok_def path_of_Some [OF assms(3)] path_of_None [OF assms(4)] plain_sat_def
        other_relation_def condition_sat_def Int64_def)
  obtain f1 f2 where "makeFilterByCondition env st (leaf_request key Cond_LessOrEqual (Int64 to)) = Inr f1"
      "makeFilterByCondition env st (leaf_request key Cond_GreaterOrEqual (Int64 from)) = Inr f2"
      "\<And>g. FilterObject env f1 g \<longleftrightarrow> (\<exists>x\<in>set objs. compares Cond_LessOrEqual (Int64 to) (Get x n) \<and> refers g k x)"
      "\<And>g. FilterObject env f2 g \<longleftrightarrow> (\<exists>x\<in>set objs. compares Cond_GreaterOrEqual (Int64 from) (Get x n) \<and> refers g k x)"
    using leaf [of Cond_LessOrEqual to] leaf [of Cond_GreaterOrEqual "from"] by auto
  then show ?thesis
    by (simp add: keeps_result_def keeps_def MakeFilter.simps makeFilter.simps transformDateFilter_def assms(5))
qed

text \<open>The two bounds of a day filter on a path may be met by two different objects. The filter
  for tasks due on the second day of 1970 keeps exactly the objects with both a task that is due on
  the first day and one that is due on the fourth, although none of them is due on that day.\<close>

lemma nested_day_split:
  "keeps_result sample_env
     (MakeFilter sample_env due_store (FilterRequest [] Op_No ''tasks.due'' [] Cond_Equal (Int64 86400) ExactDate Format_date False []))
     (Some [(''tasks'', VStringList ts)]) \<longleftrightarrow> ''t1'' \<in> set ts \<and> ''t2'' \<in> set ts"
proof -
  let ?os = "[Some [(''id'', VString ''t1''), (''due'', Int64 0)], Some [(''id'', VString ''t2''), (''due'', Int64 259200)]]"
  have "Int64_of (\<lambda>_. 0) (Int64 86400) = 86400"
    by (simp add: Int64_small Int64_of_def TryInt64_def int64_of_f64_def trunc_rat_def)
  then have "getDateRange sample_env (FilterRequest [] Op_No ''tasks.due'' [] Cond_Equal (Int64 86400) ExactDate Format_date False [])
      = (86400, 172799)"
    by (simp add: getDateRange_def sample_env_def Let_def DayNumStart_def DayNumEnd_def add64_def)
  from nested_day_meaning [OF sample_env_lo sample_store_answers [of _ ?os], OF _ _ this]
  show ?thesis
    by (simp add: due_store_def split_dot_def compares_def elems_def Get_def Get_data_def Int64_small Compare.simps refers_def
        GetString_def String_of_def image_iff)
qed

text \<open>"Before one day from now": the first transformation gives the start of that day, the second
  reads this time as a number of days.\<close>

lemma nested_days_twice:
  "transformDateFilter sample_env (FilterRequest [] Op_No k [] Cond_Less (Int64 1) NumberOfDaysNow Format_date False []) =
     [FilterRequest [] Op_No k [] Cond_Less (Int64 86400) NumberOfDaysNow Format_date False []] \<and>
   transformDateFilter sample_env (FilterRequest [] Op_No k [] Cond_Less (Int64 86400) NumberOfDaysNow Format_date False []) =
     [FilterRequest [] Op_No k [] Cond_Less (Int64 (86400 * 86400)) NumberOfDaysNow Format_date False []]"
  by (simp add: transformDateFilter_def getDateRange_def sample_env_def Int64_small Int64_of_def TryInt64_def
      int64_of_f64_def trunc_rat_def DayNumStart_def DayNumEnd_def add64_def)

end
