(* ===== verification/DbOrder.thy ===== *)
theory DbOrder
  imports DbFilter
begin

section \<open>Database orders (pkg/lib/database: order.go, ordermap.go, database.go)\<close>

text \<open>
  A query sorts its results by a list of orders: one for each requested relation, with a comparison
  that depends on the relation's format, a direction, a place for empty values, and possibly a
  custom order of values. Relations to other objects are compared by the names or order ids of these
  objects, which an \<open>OrderMap\<close> caches and completes from the store while it compares; comparisons
  therefore return the changed order too.

  Parameters, in \<open>OrdEnv\<close>: the collator of golang.org/x/text, the start of a day of the time package,
  the encoding of a value by anyenc, and the out-of-range conversion of a float. The buffers that
  the code reuses and the sorts that it hands to the store are left out.
\<close>

subsection \<open>Requests and parameters\<close>

datatype SortType = Sort_Asc | Sort_Desc | Sort_Custom | Sort_unknown int

datatype EmptyType = Empty_NotSpecified | Empty_Start | Empty_End | Empty_unknown int

record SortRequest =
  sr_RelationKey :: string
  sr_Type :: SortType
  sr_CustomOrder :: "Value list"
  sr_Format :: RelationFormat
  sr_IncludeTime :: bool
  sr_Id :: string
  sr_EmptyPlacement :: EmptyType
  sr_NoCollate :: bool

record OrdEnv =
  CompareString :: "string \<Rightarrow> string \<Rightarrow> int"
  KeyFromString :: "string \<Rightarrow> string"
  CutToDay :: "int \<Rightarrow> int"
  MarshalValue :: "Value \<Rightarrow> string"
  oorOrd :: "f64 \<Rightarrow> int"

text \<open>\<open>QueryIterate\<close> gives the objects it visited and whether it ended without an error.\<close>

record OrderStore = ObjectStore +
  Query :: "FilterRequest list \<Rightarrow> gmap list option"
  QueryIterate :: "FilterRequest list \<Rightarrow> gmap list \<times> bool"
  GetRelationFormatByKey :: "string \<Rightarrow> RelationFormat option"

subsection \<open>Order maps\<close>

text \<open>A nil map of data is empty: the code only reads its length and its entries.\<close>

record OrderMap =
  om_sortKeys :: "string list"
  om_data :: "(string \<times> gmap) list"

text \<open>The conversion to the 32-bit enumeration keeps the low bits.\<close>

definition is_note :: "OrdEnv \<Rightarrow> gmap \<Rightarrow> bool" where
  "is_note env d \<longleftrightarrow> GetInt64 (oorOrd env) d ''resolvedLayout'' mod 2 ^ 32 = 9"

definition getName :: "OrdEnv \<Rightarrow> gmap \<Rightarrow> string" where
  "getName env d =
     (let name = GetString d ''name'';
          name = (if name = [] \<and> is_note env d then GetString d ''snippet'' else name)
      in KeyFromString env name)"

definition ids_request :: "string list \<Rightarrow> FilterRequest list" where
  "ids_request ids = [leaf_request ''id'' Cond_In (VStringList ids)]"

definition record_entry :: "OrdEnv \<Rightarrow> gmap \<Rightarrow> gmap" where
  "record_entry env d = Some [(''name'', VString (getName env d)), (''orderId'', Get d ''orderId'')]"

definition setOrders :: "OrdEnv \<Rightarrow> ('s OrderStore_scheme) \<Rightarrow> OrderMap \<Rightarrow> string list \<Rightarrow> OrderMap" where
  "setOrders env store m ids =
     (let idsBuffer = filter (\<lambda>i. map_of (om_data m) i = None \<and> i \<noteq> []) ids
      in if length idsBuffer = 0 then m
         else (case Query store (ids_request idsBuffer) of
             None \<Rightarrow> m
           | Some records \<Rightarrow>
               m\<lparr>om_data := fold (\<lambda>r. put (GetString r ''id'') (record_entry env r)) records (om_data m)\<rparr>))"

definition BuildOrder :: "OrdEnv \<Rightarrow> ('s OrderStore_scheme) \<Rightarrow> OrderMap option \<Rightarrow> string list \<Rightarrow> string \<times> OrderMap option" where
  "BuildOrder env store om ids =
     (case om of
        None \<Rightarrow> ([], None)
      | Some m \<Rightarrow>
         (if length (om_data m) = 0 then ([], om)
          else (let m = setOrders env store m ids
                in (concat (map (\<lambda>key. concat (map (\<lambda>i. case map_of (om_data m) i of
                        Some d \<Rightarrow> GetString d key | None \<Rightarrow> []) ids)) (om_sortKeys m)), Some m))))"

text \<open>One step of the loop of \<open>Update\<close>; the details of an entry are never nil.\<close>

definition update_entry :: "string \<Rightarrow> string \<Rightarrow> gmap \<Rightarrow> gmap \<times> bool" where
  "update_entry k v d =
     (if GetString d k \<noteq> v then (case SetString d k v of Some d' \<Rightarrow> (d', True) | None \<Rightarrow> (d, True)) else (d, False))"

definition update_step :: "OrdEnv \<Rightarrow> gmap \<Rightarrow> OrderMap \<times> bool \<Rightarrow> OrderMap \<times> bool" where
  "update_step env det mu =
     (case mu of (m, anyUpdated) \<Rightarrow>
       (let i = GetString det ''id'' in
        case map_of (om_data m) i of
          None \<Rightarrow> (m, anyUpdated)
        | Some existing \<Rightarrow>
           (let (d1, u1) = update_entry ''orderId'' (GetString det ''orderId'') existing;
                (d2, u2) = update_entry ''name'' (getName env det) d1
            in (m\<lparr>om_data := put i d2 (om_data m)\<rparr>, anyUpdated \<or> u1 \<or> u2))))"

definition Update :: "OrdEnv \<Rightarrow> OrderMap option \<Rightarrow> gmap list \<Rightarrow> OrderMap option \<times> bool" where
  "Update env om details =
     (case om of
        None \<Rightarrow> (None, False)
      | Some m \<Rightarrow>
         (if length (om_data m) = 0 then (om, False)
          else (let (m', u) = fold (update_step env) details (m, False) in (Some m', u))))"

definition collectObjectNames :: "OrdEnv \<Rightarrow> ('s OrderStore_scheme) \<Rightarrow> OrderMap \<Rightarrow> string \<Rightarrow> OrderMap" where
  "collectObjectNames env store m key =
     (case QueryIterate store [leaf_request key Cond_NotEmpty VInvalid] of
        (_, False) \<Rightarrow> m
      | (visited, True) \<Rightarrow>
         (let targetIds = remdups (concat (map (\<lambda>d. GetStringList d key) visited));
              found = fst (QueryIterate store (ids_request targetIds))
          in m\<lparr>om_data := fold (\<lambda>d. put (GetString d ''id'') (Some [(''name'', VString (getName env d))])) found (om_data m)\<rparr>))"

definition collectOptionOrders :: "OrdEnv \<Rightarrow> ('s OrderStore_scheme) \<Rightarrow> OrderMap \<Rightarrow> string \<Rightarrow> OrderMap" where
  "collectOptionOrders env store m key =
     (case ListRelationOptions store key of
        None \<Rightarrow> m
      | Some options \<Rightarrow>
          m\<lparr>om_data := fold (\<lambda>opt. put (opt_Id opt)
              (Some [(''name'', VString (KeyFromString env (opt_Text opt))), (''orderId'', VString (opt_OrderId opt))]))
            options (om_data m)\<rparr>)"

definition BuildOrderMap :: "OrdEnv \<Rightarrow> ('s OrderStore_scheme) \<Rightarrow> string \<Rightarrow> RelationFormat \<Rightarrow> OrderMap" where
  "BuildOrderMap env store key format =
     (let om = \<lparr>om_sortKeys = [], om_data = []\<rparr>
      in if format \<in> {Format_object, Format_file}
         then (collectObjectNames env store om key)\<lparr>om_sortKeys := [''name'']\<rparr>
         else if format \<in> {Format_tag, Format_status}
         then (collectOptionOrders env store om key)\<lparr>om_sortKeys := [''orderId'', ''name'']\<rparr>
         else om)"

subsection \<open>Orders\<close>

record keyOrder =
  ko_key :: string
  ko_sortType :: SortType
  ko_emptyPlacement :: EmptyType
  ko_relationFormat :: RelationFormat
  ko_includeTime :: bool
  ko_orderMap :: "OrderMap option"
  ko_disableCollator :: bool

datatype Order =
    KeyOrder keyOrder
  | CustomOrder string "(string \<times> int) list" keyOrder

definition isObjectFormat :: "RelationFormat \<Rightarrow> bool" where
  "isObjectFormat format \<longleftrightarrow> format = Format_object \<or> format = Format_file \<or> format = Format_tag \<or> format = Format_status"

definition NewKeyOrder :: "OrdEnv \<Rightarrow> ('s OrderStore_scheme) \<Rightarrow> SortRequest \<Rightarrow> keyOrder" where
  "NewKeyOrder env store srt =
     (let format = (case GetRelationFormatByKey store (sr_RelationKey srt) of None \<Rightarrow> sr_Format srt | Some f \<Rightarrow> f)
      in \<lparr>ko_key = sr_RelationKey srt, ko_sortType = sr_Type srt, ko_emptyPlacement = sr_EmptyPlacement srt,
          ko_relationFormat = format, ko_includeTime = False,
          ko_orderMap = (if isObjectFormat format then Some (BuildOrderMap env store (sr_RelationKey srt) format) else None),
          ko_disableCollator = (sr_NoCollate srt \<or> sr_RelationKey srt = ''orderId'' \<or> sr_RelationKey srt = ''spaceOrder'')\<rparr>)"

text \<open>\<^term>\<open>None\<close> is the pair of 0 and false.\<close>

definition tryCompareEmptyValues :: "keyOrder \<Rightarrow> bool \<Rightarrow> bool \<Rightarrow> int option" where
  "tryCompareEmptyValues ko aIsEmpty bIsEmpty =
     (if aIsEmpty \<and> bIsEmpty then Some 0
      else if ko_emptyPlacement ko = Empty_NotSpecified then None
      else if aIsEmpty then Some (if ko_emptyPlacement ko = Empty_Start then -1 else 1)
      else if bIsEmpty then Some (if ko_emptyPlacement ko = Empty_Start then 1 else -1)
      else None)"

definition directed :: "keyOrder \<Rightarrow> int \<Rightarrow> int" where
  "directed ko d = (if ko_sortType ko = Sort_Desc then - d else d)"

definition trySubstituteSnippet :: "OrdEnv \<Rightarrow> keyOrder \<Rightarrow> gmap \<Rightarrow> Value \<Rightarrow> Value" where
  "trySubstituteSnippet env ko details v =
     (if ko_key ko = ''name'' \<and> is_note env details
      then (case gm_TryString details ''name'' of None \<Rightarrow> Get details ''snippet'' | Some _ \<Rightarrow> v)
      else v)"

definition compareStrings :: "OrdEnv \<Rightarrow> keyOrder \<Rightarrow> Value \<Rightarrow> Value \<Rightarrow> int" where
  "compareStrings env ko av bv =
     (let aEmpty = (TryString av = None \<or> String_of av = []);
          bEmpty = (TryString bv = None \<or> String_of bv = [])
      in case tryCompareEmptyValues ko aEmpty bEmpty of
           Some d \<Rightarrow> d
         | None \<Rightarrow> directed ko (if ko_disableCollator ko then Compare av bv
                                else CompareString env (String_of av) (String_of bv)))"

definition compareBool :: "keyOrder \<Rightarrow> Value \<Rightarrow> Value \<Rightarrow> int" where
  "compareBool ko av bv =
     (let av = (if \<not> Ok av then VBool False else av); bv = (if \<not> Ok bv then VBool False else bv)
      in directed ko (Compare av bv))"

definition compareNumbers :: "OrdEnv \<Rightarrow> keyOrder \<Rightarrow> Value \<Rightarrow> Value \<Rightarrow> int" where
  "compareNumbers env ko av bv =
     (case tryCompareEmptyValues ko (TryInt64 (oorOrd env) av = None) (TryInt64 (oorOrd env) bv = None) of
        Some d \<Rightarrow> d
      | None \<Rightarrow> directed ko (Compare av bv))"

definition cut_value :: "OrdEnv \<Rightarrow> Value \<Rightarrow> Value" where
  "cut_value env v = (case TryInt64 (oorOrd env) v of Some n \<Rightarrow> Int64 (CutToDay env n) | None \<Rightarrow> v)"

definition compareDates :: "OrdEnv \<Rightarrow> keyOrder \<Rightarrow> Value \<Rightarrow> Value \<Rightarrow> int" where
  "compareDates env ko av bv =
     (if \<not> ko_includeTime ko then compareNumbers env ko (cut_value env av) (cut_value env bv)
      else compareNumbers env ko av bv)"

definition compareObjectValues ::
    "OrdEnv \<Rightarrow> ('s OrderStore_scheme) \<Rightarrow> keyOrder \<Rightarrow> Value \<Rightarrow> Value \<Rightarrow> int \<times> keyOrder" where
  "compareObjectValues env store ko av bv =
     (let aList = WrapToStringList av; bList = WrapToStringList bv
      in case tryCompareEmptyValues ko (length aList = 0) (length bList = 0) of
           Some d \<Rightarrow> (d, ko)
         | None \<Rightarrow>
             (let (bufA, om1) = BuildOrder env store (ko_orderMap ko) aList;
                  (bufB, om2) = BuildOrder env store om1 bList;
                  d = cmp bufA bufB;
                  d = (if d = 0 then (if length aList < length bList then -1
                                      else if length aList > length bList then 1 else 0) else d)
              in (directed ko d, ko\<lparr>ko_orderMap := om2\<rparr>)))"

definition keyOrder_Compare :: "OrdEnv \<Rightarrow> ('s OrderStore_scheme) \<Rightarrow> keyOrder \<Rightarrow> gmap \<Rightarrow> gmap \<Rightarrow> int \<times> keyOrder" where
  "keyOrder_Compare env store ko a b =
     (let av = Get a (ko_key ko); bv = Get b (ko_key ko); f = ko_relationFormat ko in
      if f = Format_checkbox then (compareBool ko av bv, ko)
      else if f = Format_date then (compareDates env ko av bv, ko)
      else if f = Format_number then (compareNumbers env ko av bv, ko)
      else if f \<in> {Format_shorttext, Format_longtext}
      then (compareStrings env ko (trySubstituteSnippet env ko a av) (trySubstituteSnippet env ko b bv), ko)
      else if f \<in> {Format_object, Format_file, Format_tag, Format_status} then compareObjectValues env store ko av bv
      else (compareStrings env ko av bv, ko))"

fun Order_Compare :: "OrdEnv \<Rightarrow> ('s OrderStore_scheme) \<Rightarrow> Order \<Rightarrow> gmap \<Rightarrow> gmap \<Rightarrow> int \<times> Order" where
  "Order_Compare env store (KeyOrder ko) a b = map_prod (\<lambda>d. d) KeyOrder (keyOrder_Compare env store ko a b)"
| "Order_Compare env store (CustomOrder key need ko) a b =
     (case (map_of need (MarshalValue env (Get a key)), map_of need (MarshalValue env (Get b key))) of
        (Some aID, Some bID) \<Rightarrow>
          ((if aID = bID then 0 else if aID < bID then -1 else 1), CustomOrder key need ko)
      | (Some aID, None) \<Rightarrow> (-1, CustomOrder key need ko)
      | (None, Some bID) \<Rightarrow> (1, CustomOrder key need ko)
      | (None, None) \<Rightarrow> map_prod (\<lambda>d. d) (CustomOrder key need) (keyOrder_Compare env store ko a b))"

fun setOrder_Compare :: "OrdEnv \<Rightarrow> ('s OrderStore_scheme) \<Rightarrow> Order list \<Rightarrow> gmap \<Rightarrow> gmap \<Rightarrow> int \<times> Order list" where
  "setOrder_Compare env store [] a b = (0, [])"
| "setOrder_Compare env store (o1 # so) a b =
     (let (d, o1') = Order_Compare env store o1 a b
      in if d \<noteq> 0 then (d, o1' # so)
         else (let (d', so') = setOrder_Compare env store so a b in (d', o1' # so')))"

fun Order_UpdateOrderMap :: "OrdEnv \<Rightarrow> Order \<Rightarrow> gmap list \<Rightarrow> Order \<times> bool" where
  "Order_UpdateOrderMap env (KeyOrder ko) deps =
     (let (om, u) = Update env (ko_orderMap ko) deps in (KeyOrder (ko\<lparr>ko_orderMap := om\<rparr>), u))"
| "Order_UpdateOrderMap env (CustomOrder key need ko) deps =
     (let (om, u) = Update env (ko_orderMap ko) deps in (CustomOrder key need (ko\<lparr>ko_orderMap := om\<rparr>), u))"

definition setOrder_UpdateOrderMap :: "OrdEnv \<Rightarrow> Order list \<Rightarrow> gmap list \<Rightarrow> Order list \<times> bool" where
  "setOrder_UpdateOrderMap env so deps =
     (let rs = map (\<lambda>x. Order_UpdateOrderMap env x deps) so in (map fst rs, list_ex snd rs))"

subsection \<open>From requests to orders\<close>

definition injectDefaultOrder :: "string \<Rightarrow> SortRequest list \<Rightarrow> SortRequest list" where
  "injectDefaultOrder textQuery sorts =
     (if textQuery = [] then sorts
      else if list_ex (\<lambda>s. sr_RelationKey s = ''_score'') sorts then sorts
      else \<lparr>sr_RelationKey = ''_score'', sr_Type = Sort_Desc, sr_CustomOrder = [], sr_Format = Format_longtext,
            sr_IncludeTime = False, sr_Id = [], sr_EmptyPlacement = Empty_NotSpecified, sr_NoCollate = False\<rparr> # sorts)"

definition isSingleDateSort :: "SortRequest list \<Rightarrow> bool" where
  "isSingleDateSort sorts \<longleftrightarrow> length sorts = 1 \<and> sr_Format (hd sorts) = Format_date"

definition isIncludeTime :: "SortRequest list \<Rightarrow> SortRequest \<Rightarrow> bool" where
  "isIncludeTime sorts s = (if isSingleDateSort sorts then True else sr_IncludeTime s)"

definition custom_indices :: "OrdEnv \<Rightarrow> Value list \<Rightarrow> (string \<times> int) list" where
  "custom_indices env vs =
     fst (fold (\<lambda>it (m, idx). let raw = MarshalValue env it in if raw \<noteq> [] then (put raw idx m, idx + 1) else (m, idx))
       vs ([], 0))"

definition appendCustomOrder :: "OrdEnv \<Rightarrow> SortRequest \<Rightarrow> Order list \<Rightarrow> keyOrder \<Rightarrow> Order list" where
  "appendCustomOrder env srt orders ko =
     (if sr_Type srt = Sort_Custom \<and> length (sr_CustomOrder srt) > 0
      then orders @ [CustomOrder (sr_RelationKey srt) (custom_indices env (sr_CustomOrder srt)) ko]
      else orders @ [KeyOrder ko])"

text \<open>No srt at all gives the nil order, which compares everything as equal, as the empty list does.\<close>

definition extractOrder :: "OrdEnv \<Rightarrow> ('s OrderStore_scheme) \<Rightarrow> SortRequest list \<Rightarrow> Order list" where
  "extractOrder env store sorts =
     fold (\<lambda>srt order. appendCustomOrder env srt order
         ((NewKeyOrder env store srt)\<lparr>ko_includeTime := isIncludeTime sorts srt\<rparr>)) sorts []"

subsection \<open>The cache does not change the order\<close>

text \<open>The store answers a query for ids with the objects \<open>obj\<close> that exist under them.\<close>

definition query_ok :: "('s OrderStore_scheme) \<Rightarrow> (string \<Rightarrow> gmap option) \<Rightarrow> bool" where
  "query_ok store obj \<longleftrightarrow>
     (\<forall>ids. \<exists>recs. Query store (ids_request ids) = Some recs \<and>
        (\<forall>r\<in>set recs. GetString r ''id'' \<in> set ids \<and> obj (GetString r ''id'') = Some r) \<and>
        (\<forall>i\<in>set ids. obj i \<noteq> None \<longrightarrow> i \<in> (\<lambda>r. GetString r ''id'') ` set recs))"

text \<open>What the map says of an id once it has asked the store.\<close>

definition resolve :: "OrdEnv \<Rightarrow> (string \<Rightarrow> gmap option) \<Rightarrow> OrderMap \<Rightarrow> string \<Rightarrow> gmap option" where
  "resolve env obj m i =
     (case map_of (om_data m) i of
        Some d \<Rightarrow> Some d
      | None \<Rightarrow> (if i = [] then None else map_option (record_entry env) (obj i)))"

lemma puts_objects:
  assumes "\<forall>r\<in>set recs. obj (f r) = Some r"
  shows "map_of (fold (\<lambda>r. put (f r) (h r)) recs m) i =
    (if i \<in> f ` set recs then map_option h (obj i) else map_of m i)"
  using assms
proof (induction recs arbitrary: m)
  case (Cons r recs)
  then have "map_of (fold (\<lambda>r. put (f r) (h r)) recs (put (f r) (h r) m)) i =
      (if i \<in> f ` set recs then map_option h (obj i) else map_of (put (f r) (h r) m) i)" by simp
  then show ?case using Cons.prems by (cases "i = f r") simp_all
qed simp

lemma setOrders_lookup:
  assumes "query_ok store obj"
  shows "map_of (om_data (setOrders env store m ids)) i =
    (if i \<in> set ids then resolve env obj m i else map_of (om_data m) i)"
proof -
  let ?missing = "filter (\<lambda>i. map_of (om_data m) i = None \<and> i \<noteq> []) ids"
  show ?thesis
  proof (cases "?missing = []")
    case True
    then show ?thesis by (auto simp: setOrders_def resolve_def filter_empty_conv split: option.splits)
  next
    case False
    from assms obtain recs where r: "Query store (ids_request ?missing) = Some recs"
      "\<forall>r\<in>set recs. GetString r ''id'' \<in> set ?missing \<and> obj (GetString r ''id'') = Some r"
      "\<forall>i\<in>set ?missing. obj i \<noteq> None \<longrightarrow> i \<in> (\<lambda>r. GetString r ''id'') ` set recs"
      unfolding query_ok_def by blast
    have "map_of (om_data (setOrders env store m ids)) i =
      (if i \<in> (\<lambda>r. GetString r ''id'') ` set recs then map_option (record_entry env) (obj i) else map_of (om_data m) i)"
      using False r(1) puts_objects [of recs obj "\<lambda>r. GetString r ''id''" "record_entry env" "om_data m" i] r(2)
      by (simp add: setOrders_def)
    then show ?thesis using r(2,3) by (auto simp: resolve_def split: option.splits)
  qed
qed

lemma resolve_setOrders: "query_ok store obj \<Longrightarrow> resolve env obj (setOrders env store m ids) i = resolve env obj m i"
  by (auto simp: resolve_def setOrders_lookup split: option.splits)

lemma setOrders_keys [simp]: "om_sortKeys (setOrders env store m ids) = om_sortKeys m"
  by (simp add: setOrders_def Let_def split: option.splits)

lemma put_nonempty: "put k v m \<noteq> []"
  by (cases m) (auto split: if_splits)

lemma setOrders_nonempty: "om_data m \<noteq> [] \<Longrightarrow> om_data (setOrders env store m ids) \<noteq> []"
proof -
  have "fold (\<lambda>r. put (f r) (h r)) recs d \<noteq> []" if "d \<noteq> []" for f h and recs :: "gmap list" and d :: "(string \<times> gmap) list"
    using that by (induction recs arbitrary: d) (auto simp: put_nonempty)
  then show "om_data m \<noteq> [] \<Longrightarrow> ?thesis" by (simp add: setOrders_def Let_def split: option.splits)
qed

text \<open>All that comparisons can see of an order map.\<close>

type_synonym om_view = "(string list \<times> bool \<times> (string \<Rightarrow> gmap option)) option"

definition view_map :: "OrdEnv \<Rightarrow> (string \<Rightarrow> gmap option) \<Rightarrow> OrderMap option \<Rightarrow> om_view" where
  "view_map env obj om = map_option (\<lambda>m. (om_sortKeys m, om_data m = [], resolve env obj m)) om"

definition view_text :: "om_view \<Rightarrow> string list \<Rightarrow> string" where
  "view_text v ids =
     (case v of
        None \<Rightarrow> []
      | Some (ks, noData, res) \<Rightarrow>
          if noData then []
          else concat (map (\<lambda>key. concat (map (\<lambda>i. case res i of Some d \<Rightarrow> GetString d key | None \<Rightarrow> []) ids)) ks))"

lemma BuildOrder_view:
  assumes "query_ok store obj" "BuildOrder env store om ids = (buf, om')"
  shows "buf = view_text (view_map env obj om) ids" "view_map env obj om' = view_map env obj om"
proof -
  have "buf = view_text (view_map env obj om) ids \<and> view_map env obj om' = view_map env obj om"
  proof (cases "\<exists>m. om = Some m \<and> om_data m \<noteq> []")
    case True
    then obtain m where m: "om = Some m" "om_data m \<noteq> []" by blast
    let ?m = "setOrders env store m ids"
    have om': "om' = Some ?m" and buf: "buf = concat (map (\<lambda>key. concat (map (\<lambda>i. case map_of (om_data ?m) i of
        Some d \<Rightarrow> GetString d key | None \<Rightarrow> []) ids)) (om_sortKeys m))"
      using assms(2) m by (simp_all add: BuildOrder_def Let_def)
    have "map (\<lambda>i. case map_of (om_data ?m) i of Some d \<Rightarrow> GetString d key | None \<Rightarrow> []) ids =
      map (\<lambda>i. case resolve env obj m i of Some d \<Rightarrow> GetString d key | None \<Rightarrow> []) ids" for key
      by (rule map_cong) (simp_all add: setOrders_lookup [OF assms(1)])
    then have "buf = view_text (view_map env obj om) ids"
      unfolding buf by (simp only: view_map_def view_text_def m option.map option.case prod.case if_False)
    moreover have "view_map env obj om' = view_map env obj om"
      using m om' setOrders_nonempty [OF m(2)] by (simp add: view_map_def fun_eq_iff resolve_setOrders [OF assms(1)])
    ultimately show ?thesis by blast
  next
    case False
    then show ?thesis using assms(2) by (cases om) (auto simp: BuildOrder_def view_map_def view_text_def)
  qed
  then show "buf = view_text (view_map env obj om) ids" "view_map env obj om' = view_map env obj om" by auto
qed

definition same_ko :: "OrdEnv \<Rightarrow> (string \<Rightarrow> gmap option) \<Rightarrow> keyOrder \<Rightarrow> keyOrder \<Rightarrow> bool" where
  "same_ko env obj ko ko' \<longleftrightarrow>
     ko' = ko\<lparr>ko_orderMap := ko_orderMap ko'\<rparr> \<and> view_map env obj (ko_orderMap ko') = view_map env obj (ko_orderMap ko)"

lemma same_ko_refl [simp]: "same_ko env obj ko ko"
  by (simp add: same_ko_def)

lemma same_ko_fields:
  assumes "same_ko env obj ko ko'"
  shows "ko_key ko' = ko_key ko" "ko_relationFormat ko' = ko_relationFormat ko" "ko_sortType ko' = ko_sortType ko"
    "ko_emptyPlacement ko' = ko_emptyPlacement ko" "ko_includeTime ko' = ko_includeTime ko"
    "ko_disableCollator ko' = ko_disableCollator ko"
  using assms unfolding same_ko_def
  by (metis keyOrder.select_convs keyOrder.surjective keyOrder.update_convs(6))+

text \<open>The result of comparing two lists of ids, seen through the view.\<close>

definition ids_compare :: "om_view \<Rightarrow> string list \<Rightarrow> string list \<Rightarrow> int" where
  "ids_compare v as bs =
     (if cmp (view_text v as) (view_text v bs) \<noteq> 0 then cmp (view_text v as) (view_text v bs)
      else cmp (length as) (length bs))"

lemma compareObjectValues_view:
  assumes "query_ok store obj" "compareObjectValues env store ko av bv = (d, ko')"
  shows "d = (case tryCompareEmptyValues ko (length (WrapToStringList av) = 0) (length (WrapToStringList bv) = 0) of
      Some d \<Rightarrow> d
    | None \<Rightarrow> directed ko (ids_compare (view_map env obj (ko_orderMap ko)) (WrapToStringList av) (WrapToStringList bv)))"
    and "same_ko env obj ko ko'"
proof -
  let ?as = "WrapToStringList av" and ?bs = "WrapToStringList bv"
  obtain ba om1 where a: "BuildOrder env store (ko_orderMap ko) ?as = (ba, om1)" by fastforce
  obtain bb om2 where b: "BuildOrder env store om1 ?bs = (bb, om2)" by fastforce
  note va = BuildOrder_view [OF assms(1) a] and vb = BuildOrder_view [OF assms(1) b]
  show "d = (case tryCompareEmptyValues ko (length ?as = 0) (length ?bs = 0) of
      Some d \<Rightarrow> d | None \<Rightarrow> directed ko (ids_compare (view_map env obj (ko_orderMap ko)) ?as ?bs))"
    using assms(2) va vb by (auto simp: compareObjectValues_def a b Let_def ids_compare_def cmp_def split: option.splits if_splits)
  show "same_ko env obj ko ko'"
    using assms(2) va vb by (auto simp: compareObjectValues_def a b Let_def same_ko_def split: option.splits)
qed

lemma keyOrder_Compare_state:
  assumes "query_ok store obj"
  shows "same_ko env obj ko (snd (keyOrder_Compare env store ko a b))"
    and "same_ko env obj ko ko' \<Longrightarrow> fst (keyOrder_Compare env store ko' a b) = fst (keyOrder_Compare env store ko a b)"
proof -
  have s: "same_ko env obj ko (snd (compareObjectValues env store ko v w))" for v w
    using compareObjectValues_view(2) [OF assms] by (metis prod.collapse)
  then show "same_ko env obj ko (snd (keyOrder_Compare env store ko a b))"
    by (simp add: keyOrder_Compare_def Let_def)
  assume same: "same_ko env obj ko ko'"
  note f = same_ko_fields [OF same]
  have empties: "tryCompareEmptyValues ko' = tryCompareEmptyValues ko" "directed ko' = directed ko"
    by (simp_all add: tryCompareEmptyValues_def directed_def f fun_eq_iff)
  have "fst (compareObjectValues env store ko' v w) = fst (compareObjectValues env store ko v w)" for v w
    using compareObjectValues_view(1) [OF assms, of env ko v w] compareObjectValues_view(1) [OF assms, of env ko' v w] same
    unfolding same_ko_def empties by (metis prod.collapse)
  moreover have "compareBool ko' = compareBool ko" unfolding compareBool_def empties ..
  moreover have num: "compareNumbers env ko' = compareNumbers env ko" unfolding compareNumbers_def empties ..
  moreover have "compareDates env ko' = compareDates env ko" unfolding compareDates_def num f ..
  moreover have "compareStrings env ko' = compareStrings env ko" unfolding compareStrings_def empties f ..
  moreover have "trySubstituteSnippet env ko' = trySubstituteSnippet env ko" unfolding trySubstituteSnippet_def f ..
  ultimately show "fst (keyOrder_Compare env store ko' a b) = fst (keyOrder_Compare env store ko a b)"
    by (simp add: keyOrder_Compare_def Let_def f)
qed

fun same_order :: "OrdEnv \<Rightarrow> (string \<Rightarrow> gmap option) \<Rightarrow> Order \<Rightarrow> Order \<Rightarrow> bool" where
  "same_order env obj (KeyOrder ko) (KeyOrder ko') = same_ko env obj ko ko'"
| "same_order env obj (CustomOrder k m ko) (CustomOrder k' m' ko') = (k = k' \<and> m = m' \<and> same_ko env obj ko ko')"
| "same_order env obj _ _ = False"

lemma same_order_refl [simp]: "same_order env obj x x"
  by (cases x) auto

lemma Order_Compare_state:
  assumes "query_ok store obj"
  shows "same_order env obj x (snd (Order_Compare env store x a b))"
    and "same_order env obj x x' \<Longrightarrow> fst (Order_Compare env store x' a b) = fst (Order_Compare env store x a b)"
  using keyOrder_Compare_state(1) [OF assms]
  by (cases x; auto split: option.splits)
    (cases x; cases x'; auto split: option.splits dest: keyOrder_Compare_state(2) [OF assms])

lemma setOrder_Compare_state:
  assumes "query_ok store obj"
  shows "list_all2 (same_order env obj) so (snd (setOrder_Compare env store so a b))"
    and "list_all2 (same_order env obj) so so' \<Longrightarrow>
      fst (setOrder_Compare env store so' a b) = fst (setOrder_Compare env store so a b)"
proof -
  show "list_all2 (same_order env obj) so (snd (setOrder_Compare env store so a b))"
  proof (induction so)
    case (Cons x so)
    then show ?case using Order_Compare_state(1) [OF assms, of env x a b]
      by (auto simp: Let_def list_all2_refl split: prod.splits)
  qed simp
  show "list_all2 (same_order env obj) so so' \<Longrightarrow>
      fst (setOrder_Compare env store so' a b) = fst (setOrder_Compare env store so a b)"
  proof (induction rule: list_all2_induct)
    case (Cons x xs y ys)
    then show ?case using Order_Compare_state(2) [OF assms, of env x y a b] by (auto simp: Let_def split: prod.splits)
  qed simp
qed

subsection \<open>Orders are orders\<close>

lemma comparison_cong:
  assumes "comparison ok d" "\<And>x y. ok x \<Longrightarrow> ok y \<Longrightarrow> c x y = d x y"
  shows "comparison ok c"
proof
  show "ok x \<Longrightarrow> ok y \<Longrightarrow> c y x = - c x y" for x y
    using comparison.swap [OF assms(1), of x y] by (simp add: assms(2))
  show "ok x \<Longrightarrow> ok y \<Longrightarrow> ok z \<Longrightarrow> c x y \<le> 0 \<Longrightarrow> c y z \<le> 0 \<Longrightarrow> c x z \<le> 0" for x y z
    using comparison.le_trans [OF assms(1), of x y z] by (simp add: assms(2))
qed

lemma directed_comparison: "comparison ok c \<Longrightarrow> comparison ok (\<lambda>x y. directed ko (c x y))"
  by (cases "ko_sortType ko = Sort_Desc") (simp_all add: directed_def comparison.reversed)

text \<open>Empty values placed first, last or where the comparison puts them.\<close>

definition empty_rank :: "keyOrder \<Rightarrow> bool \<Rightarrow> nat" where
  "empty_rank ko e =
     (if ko_emptyPlacement ko = Empty_NotSpecified then 0
      else if e then (if ko_emptyPlacement ko = Empty_Start then 0 else 2) else 1)"

lemma placed_comparison:
  assumes "comparison ok c" "\<And>x y. ok x \<Longrightarrow> ok y \<Longrightarrow> E x \<Longrightarrow> E y \<Longrightarrow> c x y = 0"
  shows "comparison ok (\<lambda>x y. case tryCompareEmptyValues ko (E x) (E y) of Some d \<Rightarrow> d | None \<Rightarrow> directed ko (c x y))"
proof (rule comparison_cong)
  have "comparison ok (\<lambda>x y. cmp (empty_rank ko (E x)) (empty_rank ko (E y)))"
    by (rule comparison.on_images [OF cmp_comparison [of "\<lambda>_. True"]]) simp
  from comparison.then_by [OF this directed_comparison [OF assms(1)]]
  show "comparison ok (\<lambda>x y. if cmp (empty_rank ko (E x)) (empty_rank ko (E y)) \<noteq> 0
    then cmp (empty_rank ko (E x)) (empty_rank ko (E y)) else directed ko (c x y))" .
qed (auto simp: tryCompareEmptyValues_def empty_rank_def cmp_def assms(2) directed_def)

definition text_fits :: "keyOrder \<Rightarrow> Value \<Rightarrow> bool" where
  "text_fits ko v \<longleftrightarrow> (ko_disableCollator ko \<longrightarrow> Type_of v \<le> Type_of (VString []))"

definition number_fits :: "Value \<Rightarrow> bool" where
  "number_fits v \<longleftrightarrow> Type_of v \<le> Type_of (VFloat NaN) \<and> v \<noteq> VFloat NaN"

abbreviation (input) no_text :: "Value \<Rightarrow> bool" where
  "no_text v \<equiv> TryString v = None \<or> String_of v = []"

lemma no_text_cases: "no_text v \<longleftrightarrow> (\<nexists>s. v = VString s) \<or> v = VString []"
  by (cases v) (auto simp: String_of_def)

lemma ordered_string [simp]: "ordered_value (VString s)"
  by simp

lemma Compare_text:
  assumes "Type_of v \<le> 3" "Type_of w \<le> 3" "\<not> (no_text v \<and> no_text w)"
  shows "Compare v w = Compare (VString (String_of v)) (VString (String_of w))"
  using assms by (cases v; cases w) (auto simp: Compare.simps String_of_def cmp_def neq_Nil_conv)

lemma compareStrings_comparison:
  assumes "comparison (\<lambda>_. True) (CompareString env)"
  shows "comparison (text_fits ko) (compareStrings env ko)"
proof -
  define c where "c = (\<lambda>v w. if ko_disableCollator ko then Compare (VString (String_of v)) (VString (String_of w))
    else CompareString env (String_of v) (String_of w))"
  have "comparison (text_fits ko) c"
  proof (cases "ko_disableCollator ko")
    case True
    show ?thesis
      by (rule comparison_cong [OF comparison.on_images [OF val.comparison_axioms, of "text_fits ko" "\<lambda>v. VString (String_of v)"]])
        (auto simp: c_def True)
  next
    case False
    show ?thesis
      by (rule comparison_cong [OF comparison.on_images [OF assms, of "text_fits ko" String_of]]) (auto simp: c_def False)
  qed
  moreover have "c v w = 0" if "no_text v" "no_text w" for v w
  proof -
    have "String_of v = []" "String_of w = []" using that by (auto simp: String_of_def)
    then show ?thesis using comparison.self_equal [OF assms, of "[]"] val.self_equal [of "VString []"]
      by (simp add: c_def)
  qed
  ultimately have "comparison (text_fits ko)
      (\<lambda>v w. case tryCompareEmptyValues ko (no_text v) (no_text w) of Some d \<Rightarrow> d | None \<Rightarrow> directed ko (c v w))"
    by (rule placed_comparison)
  then show ?thesis
  proof (rule comparison_cong)
    fix v w assume fit: "text_fits ko v" "text_fits ko w"
    show "compareStrings env ko v w =
        (case tryCompareEmptyValues ko (no_text v) (no_text w) of Some d \<Rightarrow> d | None \<Rightarrow> directed ko (c v w))"
    proof (cases "no_text v \<and> no_text w")
      case True
      then show ?thesis by (simp add: compareStrings_def tryCompareEmptyValues_def Let_def)
    next
      case False
      then show ?thesis using fit Compare_text [of v w]
        by (simp add: compareStrings_def Let_def c_def text_fits_def split: option.split)
    qed
  qed
qed

lemma number_text: "TryInt64 oor v = None \<longleftrightarrow> \<not> IsFloat64 v"
  by (cases v) (auto simp: TryInt64_def)

definition number_norm :: "Value \<Rightarrow> Value" where
  "number_norm v = (if IsFloat64 v then v else VString [])"

lemma compareNumbers_comparison: "comparison number_fits (compareNumbers env ko)"
proof -
  define c where "c = (\<lambda>v w. Compare (number_norm v) (number_norm w))"
  have "comparison number_fits c"
    unfolding c_def by (rule comparison.on_images [OF val.comparison_axioms])
      (auto simp: number_fits_def number_norm_def elim: IsFloat64.elims)
  moreover have "c v w = 0" if "\<not> IsFloat64 v" "\<not> IsFloat64 w" for v w
    using that by (simp add: c_def number_norm_def)
  ultimately have "comparison number_fits (\<lambda>v w. case tryCompareEmptyValues ko (\<not> IsFloat64 v) (\<not> IsFloat64 w) of
      Some d \<Rightarrow> d | None \<Rightarrow> directed ko (c v w))"
    by (rule placed_comparison)
  then show ?thesis
  proof (rule comparison_cong)
    fix v w assume fit: "number_fits v" "number_fits w"
    show "compareNumbers env ko v w =
        (case tryCompareEmptyValues ko (\<not> IsFloat64 v) (\<not> IsFloat64 w) of Some d \<Rightarrow> d | None \<Rightarrow> directed ko (c v w))"
    proof (cases "\<not> IsFloat64 v \<and> \<not> IsFloat64 w")
      case True
      then show ?thesis by (simp add: compareNumbers_def number_text tryCompareEmptyValues_def)
    next
      case False
      then have "Compare v w = c v w"
        using fit by (cases v; cases w) (auto simp: c_def number_norm_def Compare_Type number_fits_def)
      then show ?thesis by (simp add: compareNumbers_def number_text split: option.split)
    qed
  qed
qed

lemma cut_value_fits: "Type_of v \<le> Type_of (VFloat NaN) \<Longrightarrow> number_fits (cut_value env v)"
  by (cases v) (auto simp: cut_value_def TryInt64_def number_fits_def Int64_def f64_of_int_def)

lemma compareDates_comparison:
  "comparison (\<lambda>v. if ko_includeTime ko then number_fits v else Type_of v \<le> Type_of (VFloat NaN)) (compareDates env ko)"
proof (cases "ko_includeTime ko")
  case True
  then show ?thesis using compareNumbers_comparison by (simp add: compareDates_def [abs_def])
next
  case False
  have "comparison (\<lambda>v. Type_of v \<le> Type_of (VFloat NaN)) (\<lambda>v w. compareNumbers env ko (cut_value env v) (cut_value env w))"
    by (rule comparison.on_images [OF compareNumbers_comparison]) (rule cut_value_fits)
  then show ?thesis using False by (simp add: compareDates_def [abs_def])
qed

lemma compareBool_comparison: "comparison ordered_value (compareBool ko)"
  unfolding compareBool_def Let_def
  by (rule directed_comparison, rule comparison.on_images [OF val.comparison_axioms]) auto

lemma compareObjectValues_comparison:
  assumes "query_ok store obj"
  shows "comparison (\<lambda>_. True) (\<lambda>v w. fst (compareObjectValues env store ko v w))"
proof -
  let ?t = "view_text (view_map env obj (ko_orderMap ko))"
  have texts: "comparison (\<lambda>_. True) (\<lambda>v w. cmp (?t (WrapToStringList v)) (?t (WrapToStringList w)))"
    by (rule comparison.on_images [OF cmp_comparison [of "\<lambda>_. True"]]) simp
  have len: "comparison (\<lambda>_. True) (\<lambda>v w. cmp (length (WrapToStringList v)) (length (WrapToStringList w)))"
    by (rule comparison.on_images [OF cmp_comparison [of "\<lambda>_. True"]]) simp
  have "comparison (\<lambda>_. True) (\<lambda>v w. case tryCompareEmptyValues ko (length (WrapToStringList v) = 0) (length (WrapToStringList w) = 0) of
      Some d \<Rightarrow> d | None \<Rightarrow> directed ko (ids_compare (view_map env obj (ko_orderMap ko)) (WrapToStringList v) (WrapToStringList w)))"
    by (rule placed_comparison) (use comparison.then_by [OF texts len] in \<open>simp_all add: ids_compare_def\<close>)
  then show ?thesis
    by (rule comparison_cong) (use compareObjectValues_view(1) [OF assms] in \<open>metis prod.collapse\<close>)
qed

text \<open>The details whose value under the key has the type that the format asks for.\<close>

definition key_fits :: "OrdEnv \<Rightarrow> keyOrder \<Rightarrow> gmap \<Rightarrow> bool" where
  "key_fits env ko d =
     (let v = Get d (ko_key ko); f = ko_relationFormat ko in
      if f = Format_checkbox then ordered_value v
      else if f = Format_date then (if ko_includeTime ko then number_fits v else Type_of v \<le> Type_of (VFloat NaN))
      else if f = Format_number then number_fits v
      else if f \<in> {Format_shorttext, Format_longtext} then text_fits ko (trySubstituteSnippet env ko d v)
      else if isObjectFormat f then True
      else text_fits ko v)"

lemma keyOrder_comparison:
  assumes "query_ok store obj" "comparison (\<lambda>_. True) (CompareString env)"
  shows "comparison (key_fits env ko) (\<lambda>a b. fst (keyOrder_Compare env store ko a b))"
proof -
  note parts = compareBool_comparison compareDates_comparison compareNumbers_comparison
    compareStrings_comparison [OF assms(2)] compareObjectValues_comparison [OF assms(1)]
  show ?thesis
    by (cases "ko_relationFormat ko")
      (simp_all add: keyOrder_Compare_def key_fits_def [abs_def] isObjectFormat_def Let_def parts [THEN comparison.on_images])
qed

fun order_fits :: "OrdEnv \<Rightarrow> Order \<Rightarrow> gmap \<Rightarrow> bool" where
  "order_fits env (KeyOrder ko) d = key_fits env ko d"
| "order_fits env (CustomOrder key need ko) d =
     (map_of need (MarshalValue env (Get d key)) = None \<longrightarrow> key_fits env ko d)"

lemma ranked_comparison:
  fixes rank :: "'a \<Rightarrow> int option"
  assumes "comparison ok c"
  shows "comparison (\<lambda>x. rank x = None \<longrightarrow> ok x)
    (\<lambda>x y. case (rank x, rank y) of
       (Some i, Some j) \<Rightarrow> (if i = j then 0 else if i < j then -1 else 1)
     | (Some i, None) \<Rightarrow> -1 | (None, Some j) \<Rightarrow> 1 | (None, None) \<Rightarrow> c x y)"
proof
  fix x y assume "rank x = None \<longrightarrow> ok x" "rank y = None \<longrightarrow> ok y"
  then show "(case (rank y, rank x) of
       (Some i, Some j) \<Rightarrow> (if i = j then 0 else if i < j then -1 else 1)
     | (Some i, None) \<Rightarrow> -1 | (None, Some j) \<Rightarrow> 1 | (None, None) \<Rightarrow> c y x) = - (case (rank x, rank y) of
       (Some i, Some j) \<Rightarrow> (if i = j then 0 else if i < j then -1 else 1)
     | (Some i, None) \<Rightarrow> -1 | (None, Some j) \<Rightarrow> 1 | (None, None) \<Rightarrow> c x y)"
    using comparison.swap [OF assms, of x y] by (auto split: option.split)
next
  fix x y z assume "rank x = None \<longrightarrow> ok x" "rank y = None \<longrightarrow> ok y" "rank z = None \<longrightarrow> ok z"
    and "(case (rank x, rank y) of
       (Some i, Some j) \<Rightarrow> (if i = j then 0 else if i < j then -1 else 1)
     | (Some i, None) \<Rightarrow> -1 | (None, Some j) \<Rightarrow> 1 | (None, None) \<Rightarrow> c x y) \<le> 0"
    and "(case (rank y, rank z) of
       (Some i, Some j) \<Rightarrow> (if i = j then 0 else if i < j then -1 else 1)
     | (Some i, None) \<Rightarrow> -1 | (None, Some j) \<Rightarrow> 1 | (None, None) \<Rightarrow> c y z) \<le> 0"
  then show "(case (rank x, rank z) of
       (Some i, Some j) \<Rightarrow> (if i = j then 0 else if i < j then -1 else 1)
     | (Some i, None) \<Rightarrow> -1 | (None, Some j) \<Rightarrow> 1 | (None, None) \<Rightarrow> c x z) \<le> 0"
    using comparison.le_trans [OF assms, of x y z] by (auto split: option.splits if_splits)
qed

lemma comparison_weaken: "comparison ok c \<Longrightarrow> (\<And>x. ok' x \<Longrightarrow> ok x) \<Longrightarrow> comparison ok' c"
  using comparison.on_images [of ok c ok' "\<lambda>x. x"] by simp

lemma Order_comparison:
  assumes "query_ok store obj" "comparison (\<lambda>_. True) (CompareString env)"
  shows "comparison (order_fits env x) (\<lambda>a b. fst (Order_Compare env store x a b))"
proof (cases x)
  case (KeyOrder ko)
  show ?thesis
    unfolding KeyOrder by (rule comparison_weaken [OF comparison_cong [OF keyOrder_comparison [OF assms, of ko]]]) auto
next
  case (CustomOrder key need ko)
  let ?r = "\<lambda>d. map_of need (MarshalValue env (Get d key))"
  have "comparison (\<lambda>d. ?r d = None \<longrightarrow> key_fits env ko d) (\<lambda>a b. fst (Order_Compare env store x a b))"
    by (rule comparison_cong [OF ranked_comparison [OF keyOrder_comparison [OF assms, of ko], of ?r]])
      (simp add: CustomOrder split: option.split)
  then show ?thesis by (rule comparison_weaken) (simp add: CustomOrder)
qed

lemma setOrder_comparison:
  assumes "query_ok store obj" "comparison (\<lambda>_. True) (CompareString env)"
  shows "comparison (\<lambda>d. \<forall>x\<in>set so. order_fits env x d) (\<lambda>a b. fst (setOrder_Compare env store so a b))"
proof (induction so)
  case Nil
  then show ?case by unfold_locales simp_all
next
  case (Cons x so)
  let ?ok = "\<lambda>d. \<forall>y\<in>set (x # so). order_fits env y d"
  have x: "comparison ?ok (\<lambda>a b. fst (Order_Compare env store x a b))"
    by (rule comparison_weaken [OF Order_comparison [OF assms, of x]]) simp
  have so: "comparison ?ok (\<lambda>a b. fst (setOrder_Compare env store so a b))"
    by (rule comparison_weaken [OF Cons]) simp
  show ?case
    by (rule comparison_cong [OF comparison.then_by [OF x so]]) (simp add: Let_def split_def)
qed

text \<open>C20: the order of a query is an order. On details whose values have the types that the formats
  ask for, exchanging the arguments negates the result and "not after" is transitive, whatever
  the directions, the places of empty values and the custom orders are; and no comparison is
  influenced by what earlier comparisons loaded into the cache of names. The collator is assumed
  to be a comparison and the store to answer queries for ids.\<close>

theorem setOrder_Compare_order:
  assumes "query_ok store obj" "comparison (\<lambda>_. True) (CompareString env)"
    and "\<forall>x\<in>set so. order_fits env x a \<and> order_fits env x b \<and> order_fits env x c"
  shows "fst (setOrder_Compare env store so b a) = - fst (setOrder_Compare env store so a b) \<and>
    (fst (setOrder_Compare env store so a b) \<le> 0 \<and> fst (setOrder_Compare env store so b c) \<le> 0 \<longrightarrow>
      fst (setOrder_Compare env store so a c) \<le> 0) \<and>
    fst (setOrder_Compare env store (snd (setOrder_Compare env store so x y)) a b) = fst (setOrder_Compare env store so a b)"
proof -
  note cmp = setOrder_comparison [OF assms(1,2), of so]
  have "\<forall>x\<in>set so. order_fits env x a" "\<forall>x\<in>set so. order_fits env x b" "\<forall>x\<in>set so. order_fits env x c"
    using assms(3) by auto
  then show ?thesis
    using comparison.swap [OF cmp] comparison.le_trans [OF cmp]
      setOrder_Compare_state(2) [OF assms(1) setOrder_Compare_state(1) [OF assms(1)]] by blast
qed

definition sample_ord_env :: OrdEnv where
  "sample_ord_env = \<lparr>CompareString = cmp, KeyFromString = (\<lambda>s. s), CutToDay = (\<lambda>t. t div 86400 * 86400),
     MarshalValue = String_of, oorOrd = (\<lambda>_. 0)\<rparr>"

definition tag_store :: OrderStore where
  "tag_store = \<lparr>QueryRaw = (\<lambda>_. None), ListRelationOptions = (\<lambda>_. Some [\<lparr>opt_Id = ''t1'', opt_Text = ''b'', opt_OrderId = []\<rparr>]),
     Query = (\<lambda>fs. Some (if ''t2'' \<in> set (StringList_of (fr_Value (hd fs))) then
        [Some [(''id'', VString ''t2''), (''name'', VString ''a'')]] else [])),
     QueryIterate = (\<lambda>_. ([], True)), GetRelationFormatByKey = (\<lambda>_. Some Format_tag)\<rparr>"

definition tag_order :: "Order list" where
  "tag_order = extractOrder sample_ord_env tag_store
     [\<lparr>sr_RelationKey = ''tag'', sr_Type = Sort_Desc, sr_CustomOrder = [], sr_Format = Format_tag, sr_IncludeTime = False,
       sr_Id = [], sr_EmptyPlacement = Empty_End, sr_NoCollate = False\<rparr>]"

text \<open>Two objects with the tags "a" and "b": descending, the second comes first, also after the
  missing tag was loaded.\<close>

theorem setOrder_Compare_order_witness:
  "fst (setOrder_Compare sample_ord_env tag_store
      (snd (setOrder_Compare sample_ord_env tag_store tag_order (Some [(''tag'', VStringList [''t2''])]) (Some [])))
      (Some [(''tag'', VStringList [''t1''])]) (Some [(''tag'', VStringList [''t2''])])) = -1"
proof -
  let ?obj = "\<lambda>i. if i = ''t2'' then Some (Some [(''id'', VString ''t2''), (''name'', VString ''a'')]) else None"
  let ?a = "Some [(''tag'', VStringList [''t1''])]" and ?b = "Some [(''tag'', VStringList [''t2''])]"
  have q: "query_ok tag_store ?obj"
    by (auto simp: query_ok_def tag_store_def ids_request_def StringList_of_def GetString_def Get_def Get_data_def String_of_def)
  have c: "comparison (\<lambda>_. True) (CompareString sample_ord_env)" by (simp add: sample_ord_env_def cmp_comparison)
  have fits: "\<forall>x\<in>set tag_order. order_fits sample_ord_env x d" for d
    by (simp add: tag_order_def extractOrder_def appendCustomOrder_def NewKeyOrder_def key_fits_def isObjectFormat_def
        tag_store_def)
  have "fst (setOrder_Compare sample_ord_env tag_store tag_order ?a ?b) = -1" by code_simp
  with setOrder_Compare_order [OF q c, of tag_order ?a ?b ?b ?b "Some []"] fits show ?thesis by simp
qed

subsection \<open>Refreshing the cache\<close>

text \<open>Cached entries are never nil.\<close>

definition wf_order_map :: "OrderMap \<Rightarrow> bool" where
  "wf_order_map m \<longleftrightarrow> (\<forall>i. map_of (om_data m) i \<noteq> Some None)"

abbreviation (input) fresh :: "OrdEnv \<Rightarrow> gmap \<Rightarrow> gmap \<Rightarrow> bool" where
  "fresh env det d \<equiv> GetString d ''orderId'' = GetString det ''orderId'' \<and> GetString d ''name'' = getName env det"

lemma GetString_put: "GetString (Some (put k v m)) k' = (if k' = k then String_of v else GetString (Some m) k')"
  by (simp add: GetString_def Get_def Get_data_def)

lemma update_step_spec:
  assumes "wf_order_map m" "update_step env det (m, u) = (m', u')"
  shows "wf_order_map m'" "om_sortKeys m' = om_sortKeys m"
    and "i \<noteq> GetString det ''id'' \<Longrightarrow> map_of (om_data m') i = map_of (om_data m) i"
    and "map_of (om_data m) (GetString det ''id'') = None \<Longrightarrow> m' = m \<and> u' = u"
    and "map_of (om_data m) (GetString det ''id'') = Some d \<Longrightarrow>
      (\<exists>d'. map_of (om_data m') (GetString det ''id'') = Some d' \<and> fresh env det d') \<and> u' = (u \<or> \<not> fresh env det d)"
proof -
  have ne: "map_of (om_data m) j \<noteq> Some None" for j using assms(1) by (simp add: wf_order_map_def)
  show "om_sortKeys m' = om_sortKeys m"
    "i \<noteq> GetString det ''id'' \<Longrightarrow> map_of (om_data m') i = map_of (om_data m) i"
    "map_of (om_data m) (GetString det ''id'') = None \<Longrightarrow> m' = m \<and> u' = u"
    using assms(2) by (auto simp: update_step_def Let_def split: option.splits prod.splits)
  show "map_of (om_data m) (GetString det ''id'') = Some d \<Longrightarrow>
      (\<exists>d'. map_of (om_data m') (GetString det ''id'') = Some d' \<and> fresh env det d') \<and> u' = (u \<or> \<not> fresh env det d)"
    using assms(2) ne [of "GetString det ''id''"]
    by (cases d) (auto simp: update_step_def update_entry_def SetString_def Set_def GetString_put String_of_def Let_def
        split: if_splits)
  show "wf_order_map m'"
    using assms(2) ne
    by (cases "map_of (om_data m) (GetString det ''id'')"; cases "the (map_of (om_data m) (GetString det ''id''))")
      (auto simp: wf_order_map_def update_step_def update_entry_def SetString_def Set_def Let_def split: if_splits)
qed

lemma update_fold:
  assumes "distinct (map (\<lambda>d. GetString d ''id'') dets)"
  shows "wf_order_map m \<Longrightarrow> fold (update_step env) dets (m, u) = (m', u') \<Longrightarrow>
    (\<forall>det\<in>set dets. \<forall>d. map_of (om_data m) (GetString det ''id'') = Some d \<longrightarrow>
       (\<exists>d'. map_of (om_data m') (GetString det ''id'') = Some d' \<and> fresh env det d')) \<and>
    (\<forall>i. i \<notin> (\<lambda>d. GetString d ''id'') ` set dets \<or> map_of (om_data m) i = None \<longrightarrow>
       map_of (om_data m') i = map_of (om_data m) i) \<and>
    u' = (u \<or> (\<exists>det\<in>set dets. \<exists>d. map_of (om_data m) (GetString det ''id'') = Some d \<and> \<not> fresh env det d))"
  using assms
proof (induction dets arbitrary: m u)
  case (Cons det dets)
  let ?i = "GetString det ''id''"
  obtain m1 u1 where s: "update_step env det (m, u) = (m1, u1)" by fastforce
  note spec = update_step_spec [OF Cons.prems(1) s]
  have IH: "(\<forall>det\<in>set dets. \<forall>d. map_of (om_data m1) (GetString det ''id'') = Some d \<longrightarrow>
       (\<exists>d'. map_of (om_data m') (GetString det ''id'') = Some d' \<and> fresh env det d'))"
    "\<forall>i. i \<notin> (\<lambda>d. GetString d ''id'') ` set dets \<or> map_of (om_data m1) i = None \<longrightarrow>
       map_of (om_data m') i = map_of (om_data m1) i"
    "u' = (u1 \<or> (\<exists>det\<in>set dets. \<exists>d. map_of (om_data m1) (GetString det ''id'') = Some d \<and> \<not> fresh env det d))"
    using Cons.IH [OF spec(1), of u1] Cons.prems(2,3) s by simp_all
  have others: "map_of (om_data m1) (GetString x ''id'') = map_of (om_data m) (GetString x ''id'')" if "x \<in> set dets" for x
    using that Cons.prems(3) by (intro spec(3)) (metis (no_types, lifting) distinct.simps(2) image_eqI image_set list.simps(9))
  have notin: "?i \<notin> (\<lambda>d. GetString d ''id'') ` set dets" using Cons.prems(3) by auto
  have last: "map_of (om_data m') ?i = map_of (om_data m1) ?i" using IH(2) notin by blast
  show ?case
  proof (intro conjI)
    show "\<forall>x\<in>set (det # dets). \<forall>d. map_of (om_data m) (GetString x ''id'') = Some d \<longrightarrow>
       (\<exists>d'. map_of (om_data m') (GetString x ''id'') = Some d' \<and> fresh env x d')"
      using IH(1) others last spec(5) by auto
    show "\<forall>i. i \<notin> (\<lambda>d. GetString d ''id'') ` set (det # dets) \<or> map_of (om_data m) i = None \<longrightarrow>
       map_of (om_data m') i = map_of (om_data m) i"
    proof (intro allI impI)
      fix i assume a: "i \<notin> (\<lambda>d. GetString d ''id'') ` set (det # dets) \<or> map_of (om_data m) i = None"
      have e: "map_of (om_data m1) i = map_of (om_data m) i"
        using a spec(3) [of i] spec(4) by (cases "i = ?i") auto
      then show "map_of (om_data m') i = map_of (om_data m) i" using IH(2) a by auto
    qed
    show "u' = (u \<or> (\<exists>x\<in>set (det # dets). \<exists>d. map_of (om_data m) (GetString x ''id'') = Some d \<and> \<not> fresh env x d))"
      using IH(3) others spec(4,5) by (cases "map_of (om_data m) ?i") auto
  qed
qed simp

text \<open>\<open>Update\<close> refreshes the cache of names exactly where it must: afterwards every cached object
  among the given details, whose ids are distinct, has their order id and name, no other entry
  has changed, no entry was added, and the result tells whether any entry was out of date.\<close>

lemma Update_refreshes:
  assumes "wf_order_map m" "distinct (map (\<lambda>d. GetString d ''id'') dets)" "Update env (Some m) dets = (om', u)"
  shows "\<exists>m'. om' = Some m' \<and>
    (\<forall>det\<in>set dets. \<forall>d. map_of (om_data m) (GetString det ''id'') = Some d \<longrightarrow>
       (\<exists>d'. map_of (om_data m') (GetString det ''id'') = Some d' \<and>
          GetString d' ''orderId'' = GetString det ''orderId'' \<and> GetString d' ''name'' = getName env det)) \<and>
    (\<forall>i. i \<notin> (\<lambda>d. GetString d ''id'') ` set dets \<or> map_of (om_data m) i = None \<longrightarrow>
       map_of (om_data m') i = map_of (om_data m) i) \<and>
    u = (\<exists>det\<in>set dets. \<exists>d. map_of (om_data m) (GetString det ''id'') = Some d \<and>
          \<not> (GetString d ''orderId'' = GetString det ''orderId'' \<and> GetString d ''name'' = getName env det))"
proof (cases "om_data m = []")
  case True
  then show ?thesis using assms(3) by (auto simp: Update_def)
next
  case False
  then obtain m' where f: "fold (update_step env) dets (m, False) = (m', u)" "om' = Some m'"
    using assms(3) by (auto simp: Update_def split: prod.splits)
  then show ?thesis using update_fold [OF assms(2,1) f(1)] by simp
qed

lemma Update_refreshes_example:
  "snd (Update sample_ord_env (Some \<lparr>om_sortKeys = [''name''], om_data = [(''t1'', Some [(''name'', VString ''a'')])]\<rparr>)
     [Some [(''id'', VString ''t1''), (''name'', VString ''b'')]])"
proof -
  let ?m = "\<lparr>om_sortKeys = [''name''], om_data = [(''t1'', Some [(''name'', VString ''a'')])]\<rparr>"
  let ?d = "Some [(''id'', VString ''t1''), (''name'', VString ''b'')] :: gmap"
  obtain om u where u: "Update sample_ord_env (Some ?m) [?d] = (om, u)" by fastforce
  have "getName sample_ord_env ?d = ''b''" by code_simp
  moreover have "wf_order_map ?m" by (simp add: wf_order_map_def)
  ultimately have "u" using Update_refreshes [OF _ _ u]
    by (auto simp: GetString_def Get_def Get_data_def String_of_def)
  then show ?thesis using u by simp
qed

end
