(* ===== verification/Dataview.thy ===== *)
theory Dataview
  imports SliceDiff DbOrder
begin

section \<open>Dataview blocks (core/block/simple/dataview)\<close>

text \<open>
  A dataview block is a query shown in several views, each with filters, sorts and visible relations.
  The theory models the operations on views, the messages that \<open>Diff\<close> computes for two versions of the
  block, and how the editor state applies such messages (state/event.go). Items of views are
  compared by the slice differences of another theory.

  The views of the code are pointers that are changed in place: here an operation updates the first
  view with the id. The deprecated relation dictionary of the block is left out. Generated ids are the
  parameter \<open>gen\<close>, one for each call; \<open>lo.UniqBy\<close>, \<open>diff.Diff\<close> and \<open>proto.Equal\<close> are fields of \<open>DvEnv\<close>, once for
  each type that they are used at.
\<close>

subsection \<open>Content\<close>

datatype DvFilter =
  DvFilter
    (df_Id: string) (df_Operator: Operator) (df_RelationKey: string) (df_RelationProperty: string)
    (df_Condition: Condition) (df_Value: pval) (df_QuickOption: QuickOption)
    (df_Format: RelationFormat) (df_IncludeTime: bool) (df_NestedFilters: "DvFilter list")

fun set_df_Id :: "string \<Rightarrow> DvFilter \<Rightarrow> DvFilter" where
  "set_df_Id i' (DvFilter i opr k p c v q f t ns) = DvFilter i' opr k p c v q f t ns"

fun set_df_Format :: "RelationFormat \<Rightarrow> DvFilter \<Rightarrow> DvFilter" where
  "set_df_Format f' (DvFilter i opr k p c v q f t ns) = DvFilter i opr k p c v q f' t ns"

fun set_df_Value :: "pval \<Rightarrow> DvFilter \<Rightarrow> DvFilter" where
  "set_df_Value v' (DvFilter i opr k p c v q f t ns) = DvFilter i opr k p c v' q f t ns"

record DvSort =
  ds_RelationKey :: string
  ds_Type :: SortType
  ds_CustomOrder :: "pval list"
  ds_Format :: RelationFormat
  ds_IncludeTime :: bool
  ds_Id :: string
  ds_EmptyPlacement :: EmptyType
  ds_NoCollate :: bool

record DvRelation =
  dr_Key :: string
  dr_IsVisible :: bool
  dr_Width :: int
  dr_DateIncludeTime :: bool
  dr_TimeFormat :: int
  dr_DateFormat :: int
  dr_Formula :: int
  dr_Align :: int

record DvView =
  v_Id :: string
  v_Type :: int
  v_Name :: string
  v_Sorts :: "DvSort list"
  v_Filters :: "DvFilter list"
  v_Relations :: "DvRelation list"
  v_CoverRelationKey :: string
  v_HideIcon :: bool
  v_CardSize :: int
  v_CoverFit :: bool
  v_GroupRelationKey :: string
  v_GroupBackgroundColors :: bool
  v_PageLimit :: int
  v_DefaultTemplateId :: string
  v_DefaultObjectTypeId :: string
  v_EndRelationKey :: string
  v_WrapContent :: bool

record RelationLink =
  rl_Key :: string
  rl_Format :: RelationFormat

record ViewGroup =
  vg_GroupId :: string
  vg_Index :: int
  vg_Hidden :: bool
  vg_BackgroundColor :: string

record GroupOrder =
  go_ViewId :: string
  go_ViewGroups :: "ViewGroup list"

record ObjectOrder =
  oo_ViewId :: string
  oo_GroupId :: string
  oo_ObjectIds :: "string list"

record Dataview =
  dv_Source :: "string list"
  dv_Views :: "DvView list"
  dv_ActiveView :: string
  dv_GroupOrders :: "GroupOrder list"
  dv_ObjectOrders :: "ObjectOrder list"
  dv_RelationLinks :: "RelationLink list"
  dv_TargetObjectId :: string
  dv_IsCollection :: bool

datatype dv_error = ErrRelationExists | ErrViewNotFound | ErrOrderNotFound

text \<open>The first element with a property is replaced, as a loop with \<open>break\<close> does.\<close>

fun upd_first :: "('a \<Rightarrow> bool) \<Rightarrow> ('a \<Rightarrow> 'a) \<Rightarrow> 'a list \<Rightarrow> 'a list" where
  "upd_first P f [] = []"
| "upd_first P f (x # xs) = (if P x then f x # xs else x # upd_first P f xs)"

subsection \<open>Relation links (util/pbtypes/relationlink.go)\<close>

definition rl_Has :: "RelationLink list \<Rightarrow> string \<Rightarrow> bool" where
  "rl_Has rl k = list_ex (\<lambda>l. rl_Key l = k) rl"

definition rl_Remove :: "RelationLink list \<Rightarrow> string list \<Rightarrow> RelationLink list" where
  "rl_Remove rl ks = [x \<leftarrow> rl. rl_Key x \<notin> set ks]"

definition rl_Diff :: "RelationLink list \<Rightarrow> RelationLink list \<Rightarrow> RelationLink list \<times> string list" where
  "rl_Diff rl prev =
     (let common = map rl_Key [l \<leftarrow> rl. rl_Has prev (rl_Key l)]
      in ([l \<leftarrow> rl. \<not> rl_Has prev (rl_Key l)], map rl_Key [l \<leftarrow> prev. rl_Key l \<notin> set common]))"

subsection \<open>Views\<close>

definition GetView :: "string \<Rightarrow> Dataview \<Rightarrow> DvView option" where
  "GetView viewId d = find (\<lambda>v. v_Id v = viewId) (dv_Views d)"

definition change_view :: "string \<Rightarrow> (DvView \<Rightarrow> DvView) \<Rightarrow> Dataview \<Rightarrow> Dataview" where
  "change_view viewId f d = d\<lparr>dv_Views := upd_first (\<lambda>v. v_Id v = viewId) f (dv_Views d)\<rparr>"

definition Validate_dv :: "(nat \<Rightarrow> string) \<Rightarrow> Dataview \<Rightarrow> Dataview" where
  "Validate_dv gen d = d\<lparr>dv_Views := map (\<lambda>(n, v). if v_Id v = [] then v\<lparr>v_Id := gen n\<rparr> else v) (List.enumerate 0 (dv_Views d))\<rparr>"

definition AddView :: "(nat \<Rightarrow> string) \<Rightarrow> DvView \<Rightarrow> Dataview \<Rightarrow> Dataview" where
  "AddView gen view d =
     (let view = (if v_Id view = [] then view\<lparr>v_Id := gen 0\<rparr> else view);
          fs = map (\<lambda>(n, f). if df_Id f = [] then set_df_Id (gen n) f else f) (List.enumerate 1 (v_Filters view));
          ss = map (\<lambda>(n, s). if ds_Id s = [] then s\<lparr>ds_Id := gen n\<rparr> else s)
                 (List.enumerate (1 + length (v_Filters view)) (v_Sorts view))
      in d\<lparr>dv_Views := dv_Views d @ [view\<lparr>v_Filters := fs, v_Sorts := ss\<rparr>]\<rparr>)"

fun remove_view :: "string \<Rightarrow> DvView list \<Rightarrow> DvView list option" where
  "remove_view viewID [] = None"
| "remove_view viewID (v # vs) = (if v_Id v = viewID then Some vs else map_option (\<lambda>r. v # r) (remove_view viewID vs))"

definition DeleteView :: "string \<Rightarrow> Dataview \<Rightarrow> dv_error + Dataview" where
  "DeleteView viewID d = (case remove_view viewID (dv_Views d) of None \<Rightarrow> Inl ErrViewNotFound | Some vs \<Rightarrow> Inr (d\<lparr>dv_Views := vs\<rparr>))"

definition set_fields :: "DvView \<Rightarrow> DvView \<Rightarrow> DvView" where
  "set_fields view v = v\<lparr>v_Name := v_Name view, v_Type := v_Type view, v_CoverRelationKey := v_CoverRelationKey view,
     v_HideIcon := v_HideIcon view, v_CoverFit := v_CoverFit view, v_CardSize := v_CardSize view,
     v_GroupRelationKey := v_GroupRelationKey view, v_GroupBackgroundColors := v_GroupBackgroundColors view,
     v_PageLimit := v_PageLimit view, v_DefaultTemplateId := v_DefaultTemplateId view,
     v_DefaultObjectTypeId := v_DefaultObjectTypeId view, v_EndRelationKey := v_EndRelationKey view,
     v_WrapContent := v_WrapContent view\<rparr>"

definition SetView :: "string \<Rightarrow> DvView \<Rightarrow> Dataview \<Rightarrow> dv_error + Dataview" where
  "SetView viewID view d =
     (if GetView viewID d = None then Inl ErrViewNotFound
      else Inr (change_view viewID (\<lambda>v. set_fields view
        (v\<lparr>v_Relations := v_Relations view, v_Sorts := v_Sorts view, v_Filters := v_Filters view\<rparr>)) d))"

definition SetViewFields :: "string \<Rightarrow> DvView \<Rightarrow> Dataview \<Rightarrow> dv_error + Dataview" where
  "SetViewFields viewID view d =
     (if GetView viewID d = None then Inl ErrViewNotFound else Inr (change_view viewID (set_fields view) d))"

definition SetViewOrder :: "string list \<Rightarrow> Dataview \<Rightarrow> Dataview" where
  "SetViewOrder viewIds d =
     d\<lparr>dv_Views := List.map_filter (\<lambda>i. GetView i d) viewIds @ [v \<leftarrow> dv_Views d. FindPos viewIds (v_Id v) = -1]\<rparr>"

subsection \<open>Relations, sources and orders\<close>

definition AddRelation :: "RelationLink \<Rightarrow> Dataview \<Rightarrow> dv_error + Dataview" where
  "AddRelation relation d =
     (if rl_Has (dv_RelationLinks d) (rl_Key relation) then Inl ErrRelationExists
      else Inr (d\<lparr>dv_RelationLinks := dv_RelationLinks d @ [relation]\<rparr>))"

definition without_keys :: "string list \<Rightarrow> DvView \<Rightarrow> DvView" where
  "without_keys ks v = v\<lparr>v_Filters := [f \<leftarrow> v_Filters v. df_RelationKey f \<notin> set ks],
     v_Sorts := [s \<leftarrow> v_Sorts v. ds_RelationKey s \<notin> set ks]\<rparr>"

definition removeSortsAndFiltersByKeys :: "string list \<Rightarrow> Dataview \<Rightarrow> Dataview" where
  "removeSortsAndFiltersByKeys ks d = d\<lparr>dv_Views := map (without_keys ks) (dv_Views d)\<rparr>"

definition DeleteRelations :: "string list \<Rightarrow> Dataview \<Rightarrow> Dataview" where
  "DeleteRelations ks d = removeSortsAndFiltersByKeys ks (d\<lparr>dv_RelationLinks := rl_Remove (dv_RelationLinks d) ks\<rparr>)"

definition SetRelations :: "RelationLink list \<Rightarrow> Dataview \<Rightarrow> Dataview" where
  "SetRelations links d =
     (let removed = snd (rl_Diff links (dv_RelationLinks d))
      in removeSortsAndFiltersByKeys removed (d\<lparr>dv_RelationLinks := links\<rparr>))"

definition ModelToSave :: "Dataview \<Rightarrow> Dataview" where
  "ModelToSave d = d\<lparr>dv_ActiveView := []\<rparr>"

definition IsEmpty_dv :: "Dataview \<Rightarrow> bool" where
  "IsEmpty_dv d \<longleftrightarrow> dv_TargetObjectId d = [] \<and> length (dv_Views d) = 0"

definition SetViewGroupOrder :: "GroupOrder \<Rightarrow> Dataview \<Rightarrow> Dataview" where
  "SetViewGroupOrder order d =
     (let same = (\<lambda>g. go_ViewId g = go_ViewId order)
      in if list_ex same (dv_GroupOrders d)
         then d\<lparr>dv_GroupOrders := upd_first same (\<lambda>g. g\<lparr>go_ViewGroups := go_ViewGroups order\<rparr>) (dv_GroupOrders d)\<rparr>
         else d\<lparr>dv_GroupOrders := dv_GroupOrders d @ [order]\<rparr>)"

definition same_order_key :: "string \<Rightarrow> string \<Rightarrow> ObjectOrder \<Rightarrow> bool" where
  "same_order_key viewId groupId ord \<longleftrightarrow> oo_ViewId ord = viewId \<and> oo_GroupId ord = groupId"

definition set_object_order :: "ObjectOrder \<Rightarrow> Dataview \<Rightarrow> Dataview" where
  "set_object_order req d =
     (let same = same_order_key (oo_ViewId req) (oo_GroupId req)
      in if list_ex same (dv_ObjectOrders d)
         then d\<lparr>dv_ObjectOrders := upd_first same (\<lambda>g. g\<lparr>oo_ObjectIds := oo_ObjectIds req\<rparr>) (dv_ObjectOrders d)\<rparr>
         else d\<lparr>dv_ObjectOrders := dv_ObjectOrders d @ [req]\<rparr>)"

definition SetViewObjectOrder :: "ObjectOrder list \<Rightarrow> Dataview \<Rightarrow> Dataview" where
  "SetViewObjectOrder orders d = fold set_object_order orders d"

text \<open>The insertion position is always in range, so that \<open>Insert\<close> does not panic.\<close>

definition MoveObjectsInView :: "string \<Rightarrow> string \<Rightarrow> string \<Rightarrow> string list \<Rightarrow> Dataview \<Rightarrow> dv_error + Dataview" where
  "MoveObjectsInView viewId groupId afterId objectIds d =
     (let same = same_order_key viewId groupId;
          move = (\<lambda>ord. let ids = Difference (oo_ObjectIds ord) objectIds
                        in ord\<lparr>oo_ObjectIds := the (Insert_s ids (FindPos ids afterId + 1) objectIds)\<rparr>)
      in if list_ex same (dv_ObjectOrders d)
         then Inr (d\<lparr>dv_ObjectOrders := upd_first same move (dv_ObjectOrders d)\<rparr>) else Inl ErrOrderNotFound)"

definition resetObjectOrderForView :: "string \<Rightarrow> Dataview \<Rightarrow> Dataview" where
  "resetObjectOrderForView viewId d =
     d\<lparr>dv_ObjectOrders := map (\<lambda>g. if oo_ViewId g = viewId then g\<lparr>oo_ObjectIds := []\<rparr> else g) (dv_ObjectOrders d)\<rparr>"

subsection \<open>Items of a view (views.go)\<close>

text \<open>These operations reset the object order before they look for the view, so that they also change the
  block when they fail: the result is the block and the error.\<close>

type_synonym dv_result = "Dataview \<times> dv_error option"

definition on_view :: "string \<Rightarrow> (DvView \<Rightarrow> DvView) \<Rightarrow> Dataview \<Rightarrow> dv_result" where
  "on_view viewID f d = (if GetView viewID d = None then (d, Some ErrViewNotFound) else (change_view viewID f d, None))"

definition setRelationFormat :: "Dataview \<Rightarrow> DvFilter \<Rightarrow> DvFilter" where
  "setRelationFormat d f =
     fold (\<lambda>l f. if rl_Key l = df_RelationKey f then set_df_Format (rl_Format l) f else f) (dv_RelationLinks d) f"

definition AddFilter :: "string \<Rightarrow> string \<Rightarrow> DvFilter \<Rightarrow> Dataview \<Rightarrow> dv_result" where
  "AddFilter gen viewID f d =
     (let d = resetObjectOrderForView viewID d;
          f = (if df_Id f = [] then set_df_Id gen f else f)
      in on_view viewID (\<lambda>v. v\<lparr>v_Filters := v_Filters v @ [setRelationFormat d f]\<rparr>) d)"

definition RemoveFilters :: "string \<Rightarrow> string list \<Rightarrow> Dataview \<Rightarrow> dv_result" where
  "RemoveFilters viewID ids d =
     on_view viewID (\<lambda>v. v\<lparr>v_Filters := Filter_s (v_Filters v) (\<lambda>f. FindPos ids (df_Id f) = -1)\<rparr>) (resetObjectOrderForView viewID d)"

definition ReplaceFilter :: "string \<Rightarrow> string \<Rightarrow> string \<Rightarrow> DvFilter \<Rightarrow> Dataview \<Rightarrow> dv_result" where
  "ReplaceFilter gen viewID filterID f d =
     (let d = resetObjectOrderForView viewID d
      in case GetView viewID d of
           None \<Rightarrow> (d, Some ErrViewNotFound)
         | Some view \<Rightarrow>
             if \<not> list_ex (\<lambda>x. df_Id x = filterID) (v_Filters view) then AddFilter gen viewID f d
             else on_view viewID (\<lambda>v. v\<lparr>v_Filters := upd_first (\<lambda>x. df_Id x = filterID)
               (\<lambda>_. setRelationFormat d (set_df_Id filterID f)) (v_Filters v)\<rparr>) d)"

text \<open>The map keeps the last item of an id; ids without an item are skipped, and items that are not
  listed are dropped.\<close>

definition reorder :: "('a \<Rightarrow> string) \<Rightarrow> string list \<Rightarrow> 'a list \<Rightarrow> 'a list" where
  "reorder getID ids xs = List.map_filter (map_of (rev (map (\<lambda>x. (getID x, x)) xs))) ids"

definition ReorderFilters :: "string \<Rightarrow> string list \<Rightarrow> Dataview \<Rightarrow> dv_result" where
  "ReorderFilters viewID ids d = on_view viewID (\<lambda>v. v\<lparr>v_Filters := reorder df_Id ids (v_Filters v)\<rparr>) d"

definition AddSort :: "string \<Rightarrow> string \<Rightarrow> DvSort \<Rightarrow> Dataview \<Rightarrow> dv_result" where
  "AddSort gen viewID s d =
     on_view viewID (\<lambda>v. v\<lparr>v_Sorts := v_Sorts v @ [if ds_Id s = [] then s\<lparr>ds_Id := gen\<rparr> else s]\<rparr>) (resetObjectOrderForView viewID d)"

definition RemoveSorts :: "string \<Rightarrow> string list \<Rightarrow> Dataview \<Rightarrow> dv_result" where
  "RemoveSorts viewID ids d =
     on_view viewID (\<lambda>v. v\<lparr>v_Sorts := Filter_s (v_Sorts v) (\<lambda>s. FindPos ids (ds_Id s) = -1)\<rparr>) (resetObjectOrderForView viewID d)"

definition ReplaceSort :: "string \<Rightarrow> string \<Rightarrow> string \<Rightarrow> DvSort \<Rightarrow> Dataview \<Rightarrow> dv_result" where
  "ReplaceSort gen viewID i s d =
     (let d = resetObjectOrderForView viewID d
      in case GetView viewID d of
           None \<Rightarrow> (d, Some ErrViewNotFound)
         | Some view \<Rightarrow>
             if \<not> list_ex (\<lambda>x. ds_Id x = i) (v_Sorts view) then AddSort gen viewID s d
             else on_view viewID (\<lambda>v. v\<lparr>v_Sorts := upd_first (\<lambda>x. ds_Id x = i) (\<lambda>_. s) (v_Sorts v)\<rparr>) d)"

definition ReorderSorts :: "string \<Rightarrow> string list \<Rightarrow> Dataview \<Rightarrow> dv_result" where
  "ReorderSorts viewID ids d =
     on_view viewID (\<lambda>v. v\<lparr>v_Sorts := reorder ds_Id ids (v_Sorts v)\<rparr>) (resetObjectOrderForView viewID d)"

definition ReplaceViewRelation :: "string \<Rightarrow> string \<Rightarrow> DvRelation \<Rightarrow> Dataview \<Rightarrow> dv_result" where
  "ReplaceViewRelation viewID relationKey relation d =
     on_view viewID (\<lambda>v. v\<lparr>v_Relations :=
       (if list_ex (\<lambda>r. dr_Key r = relationKey) (v_Relations v)
        then upd_first (\<lambda>r. dr_Key r = relationKey) (\<lambda>_. relation) (v_Relations v) else v_Relations v @ [relation])\<rparr>) d"

definition AddViewRelation :: "string \<Rightarrow> DvRelation \<Rightarrow> Dataview \<Rightarrow> dv_result" where
  "AddViewRelation viewID relation d = ReplaceViewRelation viewID (dr_Key relation) relation d"

definition RemoveViewRelations :: "string \<Rightarrow> string list \<Rightarrow> Dataview \<Rightarrow> dv_result" where
  "RemoveViewRelations viewID ks d =
     on_view viewID (\<lambda>v. v\<lparr>v_Relations := Filter_s (v_Relations v) (\<lambda>r. FindPos ks (dr_Key r) = -1)\<rparr>) d"

definition ReorderViewRelations :: "string \<Rightarrow> string list \<Rightarrow> Dataview \<Rightarrow> dv_result" where
  "ReorderViewRelations viewID ks d =
     on_view viewID (\<lambda>v.
       let ks = fold (\<lambda>r ks. if dr_Key r \<notin> set ks then ks @ [dr_Key r] else ks) (v_Relations v) ks
       in v\<lparr>v_Relations := reorder dr_Key ks (v_Relations v)\<rparr>) d"

subsection \<open>Linked objects\<close>

fun GetStringValue :: "pval \<Rightarrow> string" where
  "GetStringValue (PString s) = s"
| "GetStringValue _ = []"

definition filter_ids :: "DvFilter \<Rightarrow> string list" where
  "filter_ids f =
     (if df_Format f \<notin> {Format_object, Format_status, Format_tag} then []
      else if GetStringValue (df_Value f) \<noteq> [] then [GetStringValue (df_Value f)]
      else (case df_Value f of PList vs \<Rightarrow> map GetStringValue vs | _ \<Rightarrow> []))"

definition getIdsFromFilters :: "DvFilter list \<Rightarrow> string list" where
  "getIdsFromFilters fs = concat (map filter_ids fs)"

definition FillSmartIds :: "Dataview \<Rightarrow> string list \<Rightarrow> string list" where
  "FillSmartIds d ids =
     ids @ (if dv_TargetObjectId d \<noteq> [] then [dv_TargetObjectId d] else []) @
     concat (map (\<lambda>v. (if v_DefaultObjectTypeId v \<noteq> [] then [v_DefaultObjectTypeId v] else []) @
       (if v_DefaultTemplateId v \<noteq> [] then [v_DefaultTemplateId v] else []) @ getIdsFromFilters (v_Filters v)) (dv_Views d))"

definition HasSmartIds :: "Dataview \<Rightarrow> bool" where
  "HasSmartIds d \<longleftrightarrow> list_ex (\<lambda>v. v_DefaultObjectTypeId v \<noteq> [] \<or> v_DefaultTemplateId v \<noteq> []) (dv_Views d) \<or>
     length (dv_RelationLinks d) > 0 \<or> dv_TargetObjectId d \<noteq> []"

definition ReplaceLinkIds :: "(string \<Rightarrow> string) \<Rightarrow> Dataview \<Rightarrow> Dataview" where
  "ReplaceLinkIds replacer d =
     (if dv_TargetObjectId d \<noteq> [] then d\<lparr>dv_TargetObjectId := replacer (dv_TargetObjectId d)\<rparr> else d)"

definition migrateFilesInFilter :: "(string \<Rightarrow> string) \<Rightarrow> DvFilter \<Rightarrow> DvFilter" where
  "migrateFilesInFilter migrate f =
     (if df_Format f \<noteq> Format_object \<and> df_Format f \<noteq> Format_file then f
      else (case df_Value f of
              PString s \<Rightarrow> set_df_Value (PString (migrate s)) f
            | PList vs \<Rightarrow>
                (let ids = ListValueToStrings vs
                 in if list_ex (\<lambda>i. migrate i \<noteq> i) ids then set_df_Value (proto_StringList (map migrate ids)) f else f)
            | _ \<Rightarrow> f))"

definition MigrateFile :: "(string \<Rightarrow> string) \<Rightarrow> Dataview \<Rightarrow> Dataview" where
  "MigrateFile migrate d =
     d\<lparr>dv_Views := map (\<lambda>v. v\<lparr>v_Filters := map (migrateFilesInFilter migrate) (v_Filters v)\<rparr>) (dv_Views d)\<rparr>"

subsection \<open>Messages\<close>

record ViewFields =
  vf_Type :: int
  vf_Name :: string
  vf_CoverRelationKey :: string
  vf_HideIcon :: bool
  vf_CardSize :: int
  vf_CoverFit :: bool
  vf_GroupRelationKey :: string
  vf_GroupBackgroundColors :: bool
  vf_PageLimit :: int
  vf_DefaultTemplateId :: string
  vf_DefaultObjectTypeId :: string
  vf_EndRelationKey :: string
  vf_WrapContent :: bool

datatype 'a view_op = OpNone | OpAdd string "'a list" | OpRemove "string list" | OpMove string "string list" | OpUpdate string 'a

record ViewUpdate =
  vu_ViewId :: string
  vu_Fields :: "ViewFields option"
  vu_Filter :: "DvFilter view_op list"
  vu_Relation :: "DvRelation view_op list"
  vu_Sort :: "DvSort view_op list"

datatype SliceOperation = SliceNone | SliceAdd | SliceMove | SliceRemove | SliceReplace | Slice_unknown int

record SliceChange =
  sc_Op :: SliceOperation
  sc_Ids :: "string list"
  sc_AfterId :: string

datatype dv_event =
    DvSourceSet "string list"
  | DvViewSet string "DvView option"
  | DvViewUpdate ViewUpdate
  | DvViewDelete string
  | DvViewOrder "string list"
  | DvRelationSet "RelationLink list"
  | DvRelationDelete "string list"
  | DvGroupOrderUpdate GroupOrder
  | DvObjectOrderUpdate string string "SliceChange list"
  | DvTargetObjectIdSet string
  | DvIsCollectionSet bool

record DvEnv =
  uniqF :: "(DvFilter \<Rightarrow> string) \<Rightarrow> DvFilter list \<Rightarrow> DvFilter list"
  uniqR :: "(DvRelation \<Rightarrow> string) \<Rightarrow> DvRelation list \<Rightarrow> DvRelation list"
  uniqS :: "(DvSort \<Rightarrow> string) \<Rightarrow> DvSort list \<Rightarrow> DvSort list"
  uniqO :: "(string \<Rightarrow> string) \<Rightarrow> string list \<Rightarrow> string list"
  dv_edit :: "nat \<Rightarrow> nat \<Rightarrow> (nat \<Rightarrow> nat \<Rightarrow> bool) \<Rightarrow> hunk list"
  equalF :: "DvFilter \<Rightarrow> DvFilter \<Rightarrow> bool"
  equalR :: "DvRelation \<Rightarrow> DvRelation \<Rightarrow> bool"
  equalS :: "DvSort \<Rightarrow> DvSort \<Rightarrow> bool"
  equalG :: "GroupOrder \<Rightarrow> GroupOrder \<Rightarrow> bool"

subsection \<open>Differences\<close>

definition diffViewFields :: "DvView \<Rightarrow> DvView \<Rightarrow> ViewFields option" where
  "diffViewFields a b =
     (if v_Type a = v_Type b \<and> v_Name a = v_Name b \<and> v_CoverRelationKey a = v_CoverRelationKey b \<and>
         v_HideIcon a = v_HideIcon b \<and> v_CardSize a = v_CardSize b \<and> v_CoverFit a = v_CoverFit b \<and>
         v_GroupRelationKey a = v_GroupRelationKey b \<and> v_EndRelationKey a = v_EndRelationKey b \<and>
         v_GroupBackgroundColors a = v_GroupBackgroundColors b \<and> v_PageLimit a = v_PageLimit b \<and>
         v_DefaultTemplateId a = v_DefaultTemplateId b \<and> v_DefaultObjectTypeId a = v_DefaultObjectTypeId b \<and>
         v_WrapContent a = v_WrapContent b
      then None
      else Some \<lparr>vf_Type = v_Type b, vf_Name = v_Name b, vf_CoverRelationKey = v_CoverRelationKey b,
        vf_HideIcon = v_HideIcon b, vf_CardSize = v_CardSize b, vf_CoverFit = v_CoverFit b,
        vf_GroupRelationKey = v_GroupRelationKey b, vf_GroupBackgroundColors = v_GroupBackgroundColors b,
        vf_PageLimit = v_PageLimit b, vf_DefaultTemplateId = v_DefaultTemplateId b,
        vf_DefaultObjectTypeId = v_DefaultObjectTypeId b, vf_EndRelationKey = v_EndRelationKey b,
        vf_WrapContent = v_WrapContent b\<rparr>)"

definition unwrap_ops :: "'a change list \<Rightarrow> 'a view_op list" where
  "unwrap_ops diff = UnwrapChanges diff OpAdd OpRemove OpMove OpUpdate"

definition diffViewFilters :: "DvEnv \<Rightarrow> DvView \<Rightarrow> DvView \<Rightarrow> DvFilter view_op list" where
  "diffViewFilters env a b = unwrap_ops (Diff (uniqF env) (dv_edit env) (v_Filters a) (v_Filters b) df_Id (equalF env))"

definition diffViewRelations :: "DvEnv \<Rightarrow> DvView \<Rightarrow> DvView \<Rightarrow> DvRelation view_op list" where
  "diffViewRelations env a b = unwrap_ops (Diff (uniqR env) (dv_edit env) (v_Relations a) (v_Relations b) dr_Key (equalR env))"

definition diffViewSorts :: "DvEnv \<Rightarrow> DvView \<Rightarrow> DvView \<Rightarrow> DvSort view_op list" where
  "diffViewSorts env a b = unwrap_ops (Diff (uniqS env) (dv_edit env) (v_Sorts a) (v_Sorts b) ds_Id (equalS env))"

fun slice_change :: "string change \<Rightarrow> SliceChange list" where
  "slice_change (ChangeAdd items af) = [\<lparr>sc_Op = SliceAdd, sc_Ids = items, sc_AfterId = af\<rparr>]"
| "slice_change (ChangeMove ids af) = [\<lparr>sc_Op = SliceMove, sc_Ids = ids, sc_AfterId = af\<rparr>]"
| "slice_change (ChangeRemove ids) = [\<lparr>sc_Op = SliceRemove, sc_Ids = ids, sc_AfterId = []\<rparr>]"
| "slice_change _ = []"

definition diffViewObjectOrder :: "DvEnv \<Rightarrow> ObjectOrder \<Rightarrow> ObjectOrder \<Rightarrow> SliceChange list" where
  "diffViewObjectOrder env a b =
     concat (map slice_change (Diff (uniqO env) (dv_edit env) (oo_ObjectIds a) (oo_ObjectIds b) (\<lambda>x. x) (=)))"

definition diffGroupOrders :: "DvEnv \<Rightarrow> Dataview \<Rightarrow> Dataview \<Rightarrow> dv_event list" where
  "diffGroupOrders env d other =
     concat (map (\<lambda>o2. case find (\<lambda>o1. go_ViewId o1 = go_ViewId o2) (dv_GroupOrders d) of
         None \<Rightarrow> [DvGroupOrderUpdate o2]
       | Some o1 \<Rightarrow> if \<not> equalG env o1 o2 then [DvGroupOrderUpdate o2] else []) (dv_GroupOrders other))"

definition diffObjectOrders :: "DvEnv \<Rightarrow> Dataview \<Rightarrow> Dataview \<Rightarrow> dv_event list" where
  "diffObjectOrders env d other =
     concat (map (\<lambda>o2. case find (same_order_key (oo_ViewId o2) (oo_GroupId o2)) (dv_ObjectOrders d) of
         None \<Rightarrow> [DvObjectOrderUpdate (oo_ViewId o2) (oo_GroupId o2) [\<lparr>sc_Op = SliceAdd, sc_Ids = oo_ObjectIds o2, sc_AfterId = []\<rparr>]]
       | Some o1 \<Rightarrow> (let changes = diffViewObjectOrder env o1 o2
                    in if changes \<noteq> [] then [DvObjectOrderUpdate (oo_ViewId o2) (oo_GroupId o2) changes] else []))
       (dv_ObjectOrders other))"

definition diffRelationLinks :: "Dataview \<Rightarrow> Dataview \<Rightarrow> dv_event list" where
  "diffRelationLinks d other =
     (let (added, removed) = rl_Diff (dv_RelationLinks other) (dv_RelationLinks d)
      in (if removed \<noteq> [] then [DvRelationDelete removed] else []) @ (if added \<noteq> [] then [DvRelationSet added] else []))"

definition diff_view :: "DvEnv \<Rightarrow> DvView list \<Rightarrow> DvView \<Rightarrow> dv_event list" where
  "diff_view env views1 view2 =
     (case find (\<lambda>v. v_Id v = v_Id view2) views1 of
        None \<Rightarrow> [DvViewSet (v_Id view2) (Some view2)]
      | Some view1 \<Rightarrow>
         (let fields = diffViewFields view1 view2; fs = diffViewFilters env view1 view2;
              rs = diffViewRelations env view1 view2; ss = diffViewSorts env view1 view2
          in if length fs > 0 \<or> length rs > 0 \<or> length ss > 0 \<or> fields \<noteq> None
             then [DvViewUpdate \<lparr>vu_ViewId = v_Id view2, vu_Fields = fields, vu_Filter = fs, vu_Relation = rs, vu_Sort = ss\<rparr>]
             else []))"

definition diffViews :: "DvEnv \<Rightarrow> Dataview \<Rightarrow> Dataview \<Rightarrow> dv_event list" where
  "diffViews env d other =
     concat (map (diff_view env (dv_Views d)) (dv_Views other)) @
     map (\<lambda>v. DvViewDelete (v_Id v)) [v \<leftarrow> dv_Views d. \<not> list_ex (\<lambda>v2. v_Id v = v_Id v2) (dv_Views other)]"

definition diffSources :: "Dataview \<Rightarrow> Dataview \<Rightarrow> dv_event list" where
  "diffSources d other = (if \<not> UnsortedEqual (dv_Source other) (dv_Source d) then [DvSourceSet (dv_Source other)] else [])"

definition diffOrderOfViews :: "Dataview \<Rightarrow> Dataview \<Rightarrow> dv_event list" where
  "diffOrderOfViews d other =
     (let viewIds1 = map v_Id (dv_Views d); viewIds2 = map v_Id (dv_Views other)
      in if \<not> SortedEquals viewIds1 viewIds2 then [DvViewOrder viewIds2] else [])"

definition diffTargetObjectIDs :: "Dataview \<Rightarrow> Dataview \<Rightarrow> dv_event list" where
  "diffTargetObjectIDs d other =
     (if dv_TargetObjectId other \<noteq> dv_TargetObjectId d then [DvTargetObjectIdSet (dv_TargetObjectId other)] else [])"

definition diffIsCollections :: "Dataview \<Rightarrow> Dataview \<Rightarrow> dv_event list" where
  "diffIsCollections d other =
     (if dv_IsCollection other \<noteq> dv_IsCollection d then [DvIsCollectionSet (dv_IsCollection other)] else [])"

definition dv_Diff :: "DvEnv \<Rightarrow> Dataview \<Rightarrow> Dataview \<Rightarrow> dv_event list" where
  "dv_Diff env d other = diffGroupOrders env d other @ diffObjectOrders env d other @ diffRelationLinks d other @
     diffViews env d other @ diffSources d other @ diffOrderOfViews d other @ diffTargetObjectIDs d other @
     diffIsCollections d other"

subsection \<open>Applying messages\<close>

fun op_change :: "'a view_op \<Rightarrow> 'a change list" where
  "op_change (OpUpdate i item) = [ChangeReplace item i]"
| "op_change (OpAdd af items) = [ChangeAdd items af]"
| "op_change (OpRemove ids) = [ChangeRemove ids]"
| "op_change (OpMove af ids) = [ChangeMove ids af]"
| "op_change OpNone = []"

definition apply_fields :: "ViewFields \<Rightarrow> DvView \<Rightarrow> DvView" where
  "apply_fields f v = v\<lparr>v_Type := vf_Type f, v_Name := vf_Name f, v_CoverRelationKey := vf_CoverRelationKey f,
     v_HideIcon := vf_HideIcon f, v_CardSize := vf_CardSize f, v_CoverFit := vf_CoverFit f,
     v_GroupRelationKey := vf_GroupRelationKey f, v_GroupBackgroundColors := vf_GroupBackgroundColors f,
     v_PageLimit := vf_PageLimit f, v_DefaultTemplateId := vf_DefaultTemplateId f,
     v_DefaultObjectTypeId := vf_DefaultObjectTypeId f, v_EndRelationKey := vf_EndRelationKey f,
     v_WrapContent := vf_WrapContent f\<rparr>"

definition update_view :: "DvEnv \<Rightarrow> ViewUpdate \<Rightarrow> DvView \<Rightarrow> DvView option" where
  "update_view env upd view =
     (let view = (case vu_Fields upd of Some f \<Rightarrow> apply_fields f view | None \<Rightarrow> view)
      in case ApplyChanges (uniqR env) (v_Relations view) (concat (map op_change (vu_Relation upd))) dr_Key of
           None \<Rightarrow> None
         | Some rs \<Rightarrow>
       (case ApplyChanges (uniqF env) (v_Filters view) (concat (map op_change (vu_Filter upd))) df_Id of
           None \<Rightarrow> None
         | Some fs \<Rightarrow>
       (case ApplyChanges (uniqS env) (v_Sorts view) (concat (map op_change (vu_Sort upd))) ds_Id of
           None \<Rightarrow> None
         | Some ss \<Rightarrow> Some (view\<lparr>v_Relations := rs, v_Filters := fs, v_Sorts := ss\<rparr>))))"

definition ApplyViewUpdate :: "DvEnv \<Rightarrow> ViewUpdate \<Rightarrow> Dataview \<Rightarrow> Dataview option" where
  "ApplyViewUpdate env upd d =
     (case GetView (vu_ViewId upd) d of
        None \<Rightarrow> Some d
      | Some view \<Rightarrow> map_option (\<lambda>v. change_view (vu_ViewId upd) (\<lambda>_. v) d) (update_view env upd view))"

definition event_change :: "SliceChange \<Rightarrow> string change" where
  "event_change ch = (case sc_Op ch of
       SliceAdd \<Rightarrow> ChangeAdd (sc_Ids ch) (sc_AfterId ch)
     | SliceMove \<Rightarrow> ChangeMove (sc_Ids ch) (sc_AfterId ch)
     | SliceRemove \<Rightarrow> ChangeRemove (sc_Ids ch)
     | _ \<Rightarrow> NoChange)"

text \<open>The last order of the group is read, the first one written.\<close>

definition ApplyObjectOrderUpdate :: "DvEnv \<Rightarrow> string \<Rightarrow> string \<Rightarrow> SliceChange list \<Rightarrow> Dataview \<Rightarrow> Dataview option" where
  "ApplyObjectOrderUpdate env viewId groupId raw d =
     (let existOrder = (case find (same_order_key viewId groupId) (rev (dv_ObjectOrders d)) of Some g \<Rightarrow> oo_ObjectIds g | None \<Rightarrow> [])
      in map_option (\<lambda>ids. SetViewObjectOrder [\<lparr>oo_ViewId = viewId, oo_GroupId = groupId, oo_ObjectIds = ids\<rparr>] d)
           (ApplyChanges (uniqO env) existOrder (map event_change raw) (\<lambda>x. x)))"

text \<open>\<open>applyEvent\<close> for a dataview block; \<^term>\<open>None\<close> is an error or a panic, after which no message follows.\<close>

fun apply_dv_event :: "DvEnv \<Rightarrow> (nat \<Rightarrow> string) \<Rightarrow> dv_event \<Rightarrow> Dataview \<Rightarrow> Dataview option" where
  "apply_dv_event env gen (DvSourceSet src) d = Some (d\<lparr>dv_Source := src\<rparr>)"
| "apply_dv_event env gen (DvViewSet i None) d = None"
| "apply_dv_event env gen (DvViewSet i (Some view)) d =
     (case SetView i view d of Inr d' \<Rightarrow> Some d' | Inl _ \<Rightarrow> Some (AddView gen view d))"
| "apply_dv_event env gen (DvViewUpdate upd) d = ApplyViewUpdate env upd d"
| "apply_dv_event env gen (DvViewDelete i) d = (case DeleteView i d of Inr d' \<Rightarrow> Some d' | Inl _ \<Rightarrow> Some d)"
| "apply_dv_event env gen (DvViewOrder ids) d = Some (SetViewOrder ids d)"
| "apply_dv_event env gen (DvRelationSet links) d =
     Some (fold (\<lambda>l d. case AddRelation l d of Inr d' \<Rightarrow> d' | Inl _ \<Rightarrow> d) links d)"
| "apply_dv_event env gen (DvRelationDelete ks) d = Some (DeleteRelations ks d)"
| "apply_dv_event env gen (DvGroupOrderUpdate g) d = Some (SetViewGroupOrder g d)"
| "apply_dv_event env gen (DvObjectOrderUpdate v g raw) d = ApplyObjectOrderUpdate env v g raw d"
| "apply_dv_event env gen (DvTargetObjectIdSet i) d = Some (d\<lparr>dv_TargetObjectId := i\<rparr>)"
| "apply_dv_event env gen (DvIsCollectionSet b) d = Some (d\<lparr>dv_IsCollection := b\<rparr>)"

fun apply_dv_events :: "DvEnv \<Rightarrow> (nat \<Rightarrow> string) \<Rightarrow> dv_event list \<Rightarrow> Dataview \<Rightarrow> Dataview option" where
  "apply_dv_events env gen [] d = Some d"
| "apply_dv_events env gen (ev # evs) d =
     (case apply_dv_event env gen ev d of None \<Rightarrow> None | Some d' \<Rightarrow> apply_dv_events env gen evs d')"

subsection \<open>Well-formed blocks\<close>

text \<open>Ids are distinct and not empty. The functions of the libraries do what they document.\<close>

definition ids_ok :: "('a \<Rightarrow> string) \<Rightarrow> 'a list \<Rightarrow> bool" where
  "ids_ok getID xs \<longleftrightarrow> distinct (map getID xs) \<and> [] \<notin> set (map getID xs)"

definition view_ok :: "DvView \<Rightarrow> bool" where
  "view_ok v \<longleftrightarrow> ids_ok df_Id (v_Filters v) \<and> ids_ok ds_Id (v_Sorts v) \<and> ids_ok dr_Key (v_Relations v)"

definition order_key :: "ObjectOrder \<Rightarrow> string \<times> string" where
  "order_key g = (oo_ViewId g, oo_GroupId g)"

definition dataview_ok :: "Dataview \<Rightarrow> bool" where
  "dataview_ok d \<longleftrightarrow> ids_ok v_Id (dv_Views d) \<and> list_all view_ok (dv_Views d) \<and>
     distinct (map go_ViewId (dv_GroupOrders d)) \<and> distinct (map order_key (dv_ObjectOrders d)) \<and>
     list_all (\<lambda>g. ids_ok (\<lambda>x. x) (oo_ObjectIds g)) (dv_ObjectOrders d)"

definition dv_env_ok :: "DvEnv \<Rightarrow> bool" where
  "dv_env_ok env \<longleftrightarrow> uniq_doc (uniqF env) \<and> uniq_doc (uniqR env) \<and> uniq_doc (uniqS env) \<and> uniq_doc (uniqO env) \<and>
     edit_doc (dv_edit env) df_Id \<and> edit_doc (dv_edit env) (dr_Key :: DvRelation \<Rightarrow> string) \<and> edit_doc (dv_edit env) (ds_Id :: DvSort \<Rightarrow> string) \<and>
     edit_doc (dv_edit env) (\<lambda>x :: string. x) \<and>
     (\<forall>x y. equalF env x y \<longrightarrow> x = y) \<and> (\<forall>x y. equalR env x y \<longrightarrow> x = y) \<and> (\<forall>x y. equalS env x y \<longrightarrow> x = y) \<and>
     (\<forall>x y. equalG env x y \<longrightarrow> x = y)"

text \<open>Filters and sorts of relations that the new block does not list are not kept under their ids.\<close>

definition removed_keys :: "Dataview \<Rightarrow> Dataview \<Rightarrow> string list" where
  "removed_keys d other = snd (rl_Diff (dv_RelationLinks other) (dv_RelationLinks d))"

definition cleaned :: "string list \<Rightarrow> DvView \<Rightarrow> DvView \<Rightarrow> bool" where
  "cleaned ks v1 v2 \<longleftrightarrow>
     list_all (\<lambda>f. df_RelationKey f \<in> set ks \<longrightarrow> df_Id f \<notin> set (map df_Id (v_Filters v2))) (v_Filters v1) \<and>
     list_all (\<lambda>s. ds_RelationKey s \<in> set ks \<longrightarrow> ds_Id s \<notin> set (map ds_Id (v_Sorts v2))) (v_Sorts v1)"

definition removed_clean :: "Dataview \<Rightarrow> Dataview \<Rightarrow> bool" where
  "removed_clean d other = list_all (\<lambda>v1. list_all (\<lambda>v2. v_Id v1 = v_Id v2 \<longrightarrow> cleaned (removed_keys d other) v1 v2) (dv_Views other)) (dv_Views d)"

subsection \<open>One view\<close>

lemma apply_ops: "apply_loop getID (concat (map op_change (unwrap_ops chs))) st = apply_loop getID chs st"
proof (induction chs arbitrary: st)
  case (Cons ch chs)
  then show ?case
    by (cases ch; cases st) (auto simp: unwrap_ops_def UnwrapChanges_def split: option.split)
qed (simp add: unwrap_ops_def UnwrapChanges_def)

lemma ApplyChanges_ops:
  "ApplyChanges uniq xs (concat (map op_change (unwrap_ops chs))) getID = ApplyChanges uniq xs chs getID"
  by (simp add: ApplyChanges_def apply_ops)

lemma items_update:
  assumes "uniq_doc uniq" "edit_doc edit getID" "ids_ok getID a" "ids_ok getID b" "\<forall>x y. equal x y \<longrightarrow> x = y"
    and "list_all (\<lambda>x. \<not> P x \<longrightarrow> getID x \<notin> set (map getID b)) a"
  shows "ApplyChanges uniq (filter P a) (concat (map op_change (unwrap_ops (Diff uniq edit a b getID equal)))) getID = Some b"
proof -
  have "ApplyChanges uniq (filter P a) (Diff uniq edit a b getID equal) getID = Some (uniq getID b)"
    using assms by (intro Diff_ApplyChanges_part) (auto simp: ids_ok_def list_all_iff)
  moreover have "uniq getID b = b" using assms(1,4) by (simp add: uniq_doc_def ids_ok_def)
  ultimately show ?thesis by (simp add: ApplyChanges_ops)
qed

lemma ApplyChanges_nothing: "uniq_doc uniq \<Longrightarrow> distinct (map getID xs) \<Longrightarrow> ApplyChanges uniq xs [] getID = Some xs"
  by (simp add: ApplyChanges_def uniq_doc_def)

definition computed_update :: "DvEnv \<Rightarrow> DvView \<Rightarrow> DvView \<Rightarrow> ViewUpdate" where
  "computed_update env v1 v2 = \<lparr>vu_ViewId = v_Id v2, vu_Fields = diffViewFields v1 v2, vu_Filter = diffViewFilters env v1 v2,
     vu_Relation = diffViewRelations env v1 v2, vu_Sort = diffViewSorts env v1 v2\<rparr>"

lemma with_fields:
  assumes "v_Id v1 = v_Id v2"
  shows "(case diffViewFields v1 v2 of Some f \<Rightarrow> apply_fields f v1 | None \<Rightarrow> v1)
       \<lparr>v_Relations := v_Relations v2, v_Filters := v_Filters v2, v_Sorts := v_Sorts v2\<rparr> = v2"
  using assms by (cases v1; cases v2) (simp add: diffViewFields_def apply_fields_def)

lemma update_view_computed:
  assumes env: "dv_env_ok env" and ok: "view_ok v1" "view_ok v2" and i: "v_Id v1 = v_Id v2" and cl: "cleaned ks v1 v2"
  shows "update_view env (computed_update env v1 v2) (without_keys ks v1) = Some v2"
proof -
  have f: "ApplyChanges (uniqF env) [f \<leftarrow> v_Filters v1. df_RelationKey f \<notin> set ks] (concat (map op_change (diffViewFilters env v1 v2))) df_Id
      = Some (v_Filters v2)"
    unfolding diffViewFilters_def using env ok cl
    by (intro items_update) (auto simp: dv_env_ok_def view_ok_def cleaned_def list_all_iff)
  have s: "ApplyChanges (uniqS env) [s \<leftarrow> v_Sorts v1. ds_RelationKey s \<notin> set ks] (concat (map op_change (diffViewSorts env v1 v2))) ds_Id
      = Some (v_Sorts v2)"
    unfolding diffViewSorts_def using env ok cl
    by (intro items_update) (auto simp: dv_env_ok_def view_ok_def cleaned_def list_all_iff)
  have "ApplyChanges (uniqR env) (filter (\<lambda>_. True) (v_Relations v1)) (concat (map op_change (diffViewRelations env v1 v2))) dr_Key
      = Some (v_Relations v2)"
    unfolding diffViewRelations_def using env ok
    by (intro items_update) (auto simp: dv_env_ok_def view_ok_def list_all_iff)
  then have r: "ApplyChanges (uniqR env) (v_Relations v1) (concat (map op_change (diffViewRelations env v1 v2))) dr_Key
      = Some (v_Relations v2)" by simp
  let ?w = "case diffViewFields v1 v2 of Some f \<Rightarrow> apply_fields f (without_keys ks v1) | None \<Rightarrow> without_keys ks v1"
  have w: "v_Filters ?w = [f \<leftarrow> v_Filters v1. df_RelationKey f \<notin> set ks]" "v_Sorts ?w = [s \<leftarrow> v_Sorts v1. ds_RelationKey s \<notin> set ks]"
    "v_Relations ?w = v_Relations v1"
    by (simp_all add: without_keys_def apply_fields_def split: option.split)
  have "?w\<lparr>v_Relations := v_Relations v2, v_Filters := v_Filters v2, v_Sorts := v_Sorts v2\<rparr> = v2"
    using with_fields [OF i] by (cases "diffViewFields v1 v2") (simp_all add: without_keys_def apply_fields_def)
  then show ?thesis using f s r w by (simp add: update_view_def computed_update_def Let_def)
qed

text \<open>When no message is sent for a view, removing the relations already made it the new one.\<close>

lemma update_view_nothing:
  assumes env: "dv_env_ok env" and ok: "view_ok v1"
  shows "update_view env \<lparr>vu_ViewId = i, vu_Fields = None, vu_Filter = [], vu_Relation = [], vu_Sort = []\<rparr> (without_keys ks v1)
     = Some (without_keys ks v1)"
  using env ok
  by (simp add: update_view_def dv_env_ok_def ApplyChanges_nothing view_ok_def ids_ok_def without_keys_def distinct_map_filter)

subsection \<open>The views of a block\<close>

lemma upd_first_distinct:
  "distinct (map g xs) \<Longrightarrow> upd_first (\<lambda>x. g x = i) f xs = map (\<lambda>x. if g x = i then f x else x) xs"
proof (induction xs)
  case (Cons x xs)
  have "map (\<lambda>y. if g y = g x then f y else y) xs = xs" using Cons.prems by (intro map_idI) (auto simp: image_iff)
  with Cons show ?case by auto
qed simp

lemma find_distinct: "distinct (map g xs) \<Longrightarrow> x \<in> set xs \<Longrightarrow> find (\<lambda>y. g y = g x) xs = Some x"
  by (induction xs) (auto simp: image_iff)

lemma find_id_None: "find (\<lambda>y. g y = i) xs = None \<longleftrightarrow> i \<notin> g ` set xs"
  by (auto simp: find_None_iff)

lemma find_id_Some: "find (\<lambda>y. g y = i) xs = Some x \<Longrightarrow> x \<in> set xs \<and> g x = i"
  by (auto simp: find_Some_iff)

lemma change_view_distinct:
  "distinct (map v_Id (dv_Views d)) \<Longrightarrow>
   change_view i (\<lambda>_. v) d = d\<lparr>dv_Views := map (\<lambda>w. if v_Id w = i then v else w) (dv_Views d)\<rparr>"
  by (simp add: change_view_def upd_first_distinct)

lemma apply_dv_events_append:
  "apply_dv_events env gen (xs @ ys) d = (case apply_dv_events env gen xs d of None \<Rightarrow> None | Some d' \<Rightarrow> apply_dv_events env gen ys d')"
  by (induction xs arbitrary: d) (auto split: option.split)

definition replaced :: "DvView list \<Rightarrow> DvView \<Rightarrow> DvView" where
  "replaced vs w = (case find (\<lambda>v. v_Id v = v_Id w) vs of Some v \<Rightarrow> v | None \<Rightarrow> w)"

lemma v_Id_replaced [simp]: "v_Id (replaced vs w) = v_Id w"
  by (auto simp: replaced_def split: option.split dest: find_id_Some)

lemma AddView_ok: "view_ok v \<Longrightarrow> v_Id v \<noteq> [] \<Longrightarrow> AddView gen v d = d\<lparr>dv_Views := dv_Views d @ [v]\<rparr>"
proof -
  assume v: "view_ok v" "v_Id v \<noteq> []"
  have "map (\<lambda>(n, f). if df_Id f = [] then set_df_Id (gen n) f else f) (List.enumerate k fs) = fs"
    if "[] \<notin> set (map df_Id fs)" for k fs using that by (induction fs arbitrary: k) auto
  moreover have "map (\<lambda>(n, s). if ds_Id s = [] then s\<lparr>ds_Id := gen n\<rparr> else s) (List.enumerate k ss) = ss"
    if "[] \<notin> set (map ds_Id ss)" for k and ss :: "DvSort list" using that by (induction ss arbitrary: k) auto
  ultimately show "AddView gen v d = d\<lparr>dv_Views := dv_Views d @ [v]\<rparr>"
    using v by (simp add: AddView_def view_ok_def ids_ok_def Let_def)
qed

lemma diff_view_found:
  assumes env: "dv_env_ok env" and ok: "view_ok v1" "view_ok v2" and f: "find (\<lambda>v. v_Id v = v_Id v2) V1 = Some v1"
    and cl: "cleaned ks v1 v2" and d: "distinct (map v_Id (dv_Views d))"
    and w: "find (\<lambda>v. v_Id v = v_Id v2) (dv_Views d) = Some (without_keys ks v1)"
  shows "apply_dv_events env gen (diff_view env V1 v2) d =
     Some (d\<lparr>dv_Views := map (\<lambda>w. if v_Id w = v_Id v2 then v2 else w) (dv_Views d)\<rparr>)"
proof -
  have i: "v_Id v1 = v_Id v2" using find_id_Some [OF f] by simp
  note upd = update_view_computed [OF env ok i cl]
  show ?thesis
  proof (cases "diff_view env V1 v2 = []")
    case True
    then have "computed_update env v1 v2 = \<lparr>vu_ViewId = v_Id v2, vu_Fields = None, vu_Filter = [], vu_Relation = [], vu_Sort = []\<rparr>"
      using f by (auto simp: diff_view_def computed_update_def Let_def split: if_splits)
    then have same: "without_keys ks v1 = v2" using upd update_view_nothing [OF env ok(1)] by simp
    have "map (\<lambda>w. if v_Id w = v_Id v2 then v2 else w) (dv_Views d) = dv_Views d"
    proof (rule map_idI)
      fix x assume x: "x \<in> set (dv_Views d)"
      have "x = v2" if "v_Id x = v_Id v2" using find_distinct [OF d x] unfolding that w same by simp
      then show "(if v_Id x = v_Id v2 then v2 else x) = x" by auto
    qed
    then show ?thesis using True by simp
  next
    case False
    then have "diff_view env V1 v2 = [DvViewUpdate (computed_update env v1 v2)]"
      using f by (auto simp: diff_view_def computed_update_def Let_def split: if_splits)
    then show ?thesis using upd w change_view_distinct [OF d]
      by (simp add: ApplyViewUpdate_def GetView_def) (simp add: computed_update_def)
  qed
qed

lemma diff_view_new:
  assumes "view_ok v2" "v_Id v2 \<noteq> []" "v_Id v2 \<notin> v_Id ` set V1" "v_Id v2 \<notin> v_Id ` set (dv_Views d)"
  shows "apply_dv_events env gen (diff_view env V1 v2) d = Some (d\<lparr>dv_Views := dv_Views d @ [v2]\<rparr>)"
  using assms find_id_None [of v_Id "v_Id v2" V1] find_id_None [of v_Id "v_Id v2" "dv_Views d"]
  by (simp add: diff_view_def SetView_def GetView_def AddView_ok)

lemma diff_views_loop:
  assumes env: "dv_env_ok env" and "ids_ok v_Id vs" "list_all view_ok vs" "list_all view_ok V1" "distinct (map v_Id (dv_Views d))"
    and "\<forall>v2\<in>set vs. case find (\<lambda>v. v_Id v = v_Id v2) V1 of None \<Rightarrow> v_Id v2 \<notin> v_Id ` set (dv_Views d)
      | Some v1 \<Rightarrow> cleaned ks v1 v2 \<and> find (\<lambda>v. v_Id v = v_Id v2) (dv_Views d) = Some (without_keys ks v1)"
  shows "apply_dv_events env gen (concat (map (diff_view env V1) vs)) d =
     Some (d\<lparr>dv_Views := map (replaced vs) (dv_Views d) @ [v2 \<leftarrow> vs. v_Id v2 \<notin> v_Id ` set (dv_Views d)]\<rparr>)"
  using assms
proof (induction vs arbitrary: d)
  case Nil
  then show ?case by (simp add: replaced_def [abs_def])
next
  case (Cons v2 vs)
  have v2: "view_ok v2" "v_Id v2 \<noteq> []" "v_Id v2 \<notin> v_Id ` set vs" using Cons.prems(2,3) by (auto simp: ids_ok_def)
  have rest: "ids_ok v_Id vs" "list_all view_ok vs" using Cons.prems(2,3) by (auto simp: ids_ok_def)
  have none: "find (\<lambda>v. v_Id v = v_Id v2) vs = None" using v2(3) by (simp add: find_id_None)
  show ?case
  proof (cases "find (\<lambda>v. v_Id v = v_Id v2) V1")
    case (Some v1)
    have v1: "view_ok v1" "cleaned ks v1 v2" "find (\<lambda>v. v_Id v = v_Id v2) (dv_Views d) = Some (without_keys ks v1)"
      using Cons.prems(4,6) Some find_id_Some [OF Some] by (auto simp: list_all_iff)
    let ?d = "d\<lparr>dv_Views := map (\<lambda>w. if v_Id w = v_Id v2 then v2 else w) (dv_Views d)\<rparr>"
    have one: "apply_dv_events env gen (diff_view env V1 v2) d = Some ?d"
      by (rule diff_view_found [OF env v1(1) v2(1) Some v1(2) Cons.prems(5) v1(3)])
    have ids: "map v_Id (dv_Views ?d) = map v_Id (dv_Views d)" by simp
    then have idset: "v_Id ` set (dv_Views ?d) = v_Id ` set (dv_Views d)" by (metis set_map)
    have other: "find (\<lambda>v. v_Id v = i) (map (\<lambda>w. if v_Id w = v_Id v2 then v2 else w) ws) = find (\<lambda>v. v_Id v = i) ws"
      if "i \<noteq> v_Id v2" for i ws using that by (induction ws) auto
    have two: "apply_dv_events env gen (concat (map (diff_view env V1) vs)) ?d =
       Some (?d\<lparr>dv_Views := map (replaced vs) (dv_Views ?d) @ [v \<leftarrow> vs. v_Id v \<notin> v_Id ` set (dv_Views ?d)]\<rparr>)"
    proof (rule Cons.IH [OF env rest Cons.prems(4)])
      show "distinct (map v_Id (dv_Views ?d))" unfolding ids by (rule Cons.prems(5))
      show "\<forall>v\<in>set vs. case find (\<lambda>x. v_Id x = v_Id v) V1 of None \<Rightarrow> v_Id v \<notin> v_Id ` set (dv_Views ?d)
        | Some v1 \<Rightarrow> cleaned ks v1 v \<and> find (\<lambda>x. v_Id x = v_Id v) (dv_Views ?d) = Some (without_keys ks v1)"
      proof
        fix v assume v: "v \<in> set vs"
        then have "v_Id v \<noteq> v_Id v2" using v2(3) by (metis imageI)
        with v Cons.prems(6) show "case find (\<lambda>x. v_Id x = v_Id v) V1 of None \<Rightarrow> v_Id v \<notin> v_Id ` set (dv_Views ?d)
          | Some v1 \<Rightarrow> cleaned ks v1 v \<and> find (\<lambda>x. v_Id x = v_Id v) (dv_Views ?d) = Some (without_keys ks v1)"
          unfolding idset by (auto simp: other split: option.splits)
      qed
    qed
    have m: "map (replaced vs) (dv_Views ?d) = map (replaced (v2 # vs)) (dv_Views d)"
      using none by (simp add: replaced_def)
    have mem: "v_Id v2 \<in> v_Id ` set (dv_Views d)" using find_id_Some [OF v1(3)] by (metis imageI)
    from two [unfolded idset m] one mem show ?thesis by (simp add: apply_dv_events_append)
  next
    case None
    have new: "v_Id v2 \<notin> v_Id ` set (dv_Views d)" "v_Id v2 \<notin> v_Id ` set V1" using Cons.prems(6) None by (auto simp: find_id_None)
    let ?d = "d\<lparr>dv_Views := dv_Views d @ [v2]\<rparr>"
    have one: "apply_dv_events env gen (diff_view env V1 v2) d = Some ?d"
      by (rule diff_view_new [OF v2(1,2) new(2,1)])
    have other: "find (\<lambda>v. v_Id v = i) (ws @ [v2]) = find (\<lambda>v. v_Id v = i) ws" if "i \<noteq> v_Id v2" for i ws
      using that by (induction ws) auto
    have "apply_dv_events env gen (concat (map (diff_view env V1) vs)) ?d =
       Some (?d\<lparr>dv_Views := map (replaced vs) (dv_Views ?d) @ [v \<leftarrow> vs. v_Id v \<notin> v_Id ` set (dv_Views ?d)]\<rparr>)"
    proof (rule Cons.IH [OF env rest Cons.prems(4)])
      show "distinct (map v_Id (dv_Views ?d))" using Cons.prems(5) new(1) by auto
      show "\<forall>v\<in>set vs. case find (\<lambda>x. v_Id x = v_Id v) V1 of None \<Rightarrow> v_Id v \<notin> v_Id ` set (dv_Views ?d)
        | Some v1 \<Rightarrow> cleaned ks v1 v \<and> find (\<lambda>x. v_Id x = v_Id v) (dv_Views ?d) = Some (without_keys ks v1)"
      proof
        fix v assume v: "v \<in> set vs"
        then have "v_Id v \<noteq> v_Id v2" using v2(3) by (metis imageI)
        with v Cons.prems(6) show "case find (\<lambda>x. v_Id x = v_Id v) V1 of None \<Rightarrow> v_Id v \<notin> v_Id ` set (dv_Views ?d)
          | Some v1 \<Rightarrow> cleaned ks v1 v \<and> find (\<lambda>x. v_Id x = v_Id v) (dv_Views ?d) = Some (without_keys ks v1)"
          by (auto simp: other split: option.splits)
      qed
    qed
    moreover have "map (replaced vs) (dv_Views d) = map (replaced (v2 # vs)) (dv_Views d)"
      using new(1) by (auto simp: replaced_def)
    moreover have "replaced vs v2 = v2" using none by (simp add: replaced_def)
    moreover have "[v \<leftarrow> vs. v_Id v \<notin> v_Id ` set (dv_Views ?d)] = [v \<leftarrow> vs. v_Id v \<notin> v_Id ` set (dv_Views d)]"
      using v2(3) by (intro filter_cong) (auto simp: image_iff)
    ultimately show ?thesis using one new(1) by (simp add: apply_dv_events_append)
  qed
qed

lemma remove_view_distinct:
  "distinct (map v_Id vs) \<Longrightarrow>
   remove_view i vs = (if i \<in> v_Id ` set vs then Some [v \<leftarrow> vs. v_Id v \<noteq> i] else None)"
proof (induction vs)
  case (Cons v vs)
  have "[w \<leftarrow> vs. v_Id w \<noteq> v_Id v] = vs" using Cons.prems by (auto simp: image_iff intro!: filter_True)
  with Cons show ?case by auto
qed simp

lemma delete_views_loop:
  "distinct (map v_Id (dv_Views d)) \<Longrightarrow> apply_dv_events env gen (map DvViewDelete is) d =
     Some (d\<lparr>dv_Views := [v \<leftarrow> dv_Views d. v_Id v \<notin> set is]\<rparr>)"
proof (induction "is" arbitrary: d)
  case (Cons i "is")
  let ?d = "d\<lparr>dv_Views := [v \<leftarrow> dv_Views d. v_Id v \<noteq> i]\<rparr>"
  have "[v \<leftarrow> dv_Views d. v_Id v \<noteq> i] = dv_Views d" if "i \<notin> v_Id ` set (dv_Views d)"
    using that by (auto simp: image_iff intro!: filter_True)
  then have "apply_dv_event env gen (DvViewDelete i) d = Some ?d"
    using Cons.prems by (simp add: DeleteView_def remove_view_distinct)
  moreover have "distinct (map v_Id (dv_Views ?d))" using Cons.prems by (simp add: distinct_map_filter)
  ultimately show ?case using Cons.IH [of ?d] by (simp add: conj_commute)
qed simp

text \<open>The views that stand after all updates and deletions: those of the new block, first the ones that
  the old block has, in its order.\<close>

definition merged_views :: "DvView list \<Rightarrow> DvView list \<Rightarrow> DvView list" where
  "merged_views V1 V2 = [v \<leftarrow> map (replaced V2) V1. v_Id v \<in> v_Id ` set V2] @ [v \<leftarrow> V2. v_Id v \<notin> v_Id ` set V1]"

lemma merged_ids:
  "map v_Id (merged_views V1 V2) = [i \<leftarrow> map v_Id V1. i \<in> v_Id ` set V2] @ [i \<leftarrow> map v_Id V2. i \<notin> v_Id ` set V1]"
  by (simp add: merged_views_def filter_map comp_def)

lemma merged_in: "v \<in> set (merged_views V1 V2) \<Longrightarrow> v \<in> set V2"
proof -
  have "replaced V2 x \<in> set V2" if "v_Id x \<in> v_Id ` set V2" for x
  proof (cases "find (\<lambda>v. v_Id v = v_Id x) V2")
    case None
    with that show ?thesis unfolding find_id_None by blast
  next
    case (Some v)
    with find_id_Some [OF Some] show ?thesis by (simp add: replaced_def)
  qed
  then show "v \<in> set (merged_views V1 V2) \<Longrightarrow> v \<in> set V2" by (auto simp: merged_views_def)
qed

lemma merged_find:
  assumes "distinct (map v_Id V2)" "v \<in> set V2"
  shows "find (\<lambda>w. v_Id w = v_Id v) (merged_views V1 V2) = Some v"
proof (cases "find (\<lambda>w. v_Id w = v_Id v) (merged_views V1 V2)")
  case None
  then have "v_Id v \<notin> set (map v_Id (merged_views V1 V2))" by (simp add: find_id_None)
  then have False unfolding merged_ids using assms(2) by auto
  then show ?thesis ..
next
  case (Some w)
  then have "w \<in> set V2" "v_Id w = v_Id v" using find_id_Some [OF Some] merged_in by auto
  then have "w = v" using assms find_distinct [of v_Id V2] by (metis option.inject)
  with Some show ?thesis by simp
qed

lemma SetViewOrder_merged:
  assumes "distinct (map v_Id V2)" "dv_Views d = merged_views V1 V2"
  shows "SetViewOrder (map v_Id V2) d = d\<lparr>dv_Views := V2\<rparr>"
proof -
  have "List.map_filter (\<lambda>i. GetView i d) (map v_Id vs) = vs" if "set vs \<subseteq> set V2" for vs
    using that merged_find [OF assms(1)] assms(2)
    by (induction vs) (simp_all add: List.map_filter_simps GetView_def)
  moreover have "[v \<leftarrow> dv_Views d. FindPos (map v_Id V2) (v_Id v) = -1] = []"
    using merged_in assms(2) by (auto simp: filter_empty_conv)
  ultimately show ?thesis by (simp add: SetViewOrder_def)
qed

lemma merged_same_ids:
  assumes "map v_Id V1 = map v_Id V2" "distinct (map v_Id V2)"
  shows "merged_views V1 V2 = V2"
proof (rule same_items [where getID = v_Id])
  have "v_Id ` set V1 = v_Id ` set V2" using assms(1) by (metis set_map)
  then show "map v_Id (merged_views V1 V2) = map v_Id V2"
    unfolding merged_ids using assms(1) by (simp add: filter_empty_conv)
  show "x = y" if "x \<in> set (merged_views V1 V2)" "y \<in> set V2" "v_Id x = v_Id y" for x y
    using merged_in [OF that(1)] that(2,3) assms(2) by (metis distinct_map inj_onD)
qed

subsection \<open>Orders and links\<close>

lemma find_upd_first:
  "(\<And>x. P x \<Longrightarrow> P (f x)) \<Longrightarrow> find P (upd_first P f xs) = map_option f (find P xs)"
  by (induction xs) auto

lemma find_upd_first_other:
  "(\<And>x. P x \<Longrightarrow> \<not> Q x \<and> \<not> Q (f x)) \<Longrightarrow> find Q (upd_first P f xs) = find Q xs"
  by (induction xs) auto

lemma find_append: "find P (xs @ ys) = (case find P xs of None \<Rightarrow> find P ys | Some x \<Rightarrow> Some x)"
  by (induction xs) auto

definition group_of :: "Dataview \<Rightarrow> string \<Rightarrow> GroupOrder option" where
  "group_of d k = find (\<lambda>g. go_ViewId g = k) (dv_GroupOrders d)"

lemma group_of_set: "group_of (SetViewGroupOrder g d) = (group_of d)(go_ViewId g \<mapsto> g)"
proof
  fix k
  let ?same = "\<lambda>x. go_ViewId x = go_ViewId g" and ?f = "\<lambda>x. x\<lparr>go_ViewGroups := go_ViewGroups g\<rparr>"
  have f: "?f x = g" if "go_ViewId x = go_ViewId g" for x using that by (cases x; cases g) simp
  have same: "find ?same (upd_first ?same ?f xs) = map_option ?f (find ?same xs)" for xs by (rule find_upd_first) simp
  have other: "find (\<lambda>x. go_ViewId x = k) (upd_first ?same ?f xs) = find (\<lambda>x. go_ViewId x = k) xs" if "k \<noteq> go_ViewId g" for xs
    using that by (intro find_upd_first_other) auto
  have ex: "list_ex ?same xs \<longleftrightarrow> find ?same xs \<noteq> None" for xs by (auto simp: find_None_iff list_ex_iff)
  show "group_of (SetViewGroupOrder g d) k = ((group_of d)(go_ViewId g \<mapsto> g)) k"
  proof (cases "k = go_ViewId g")
    case True
    show ?thesis
    proof (cases "find ?same (dv_GroupOrders d)")
      case None
      with True show ?thesis by (simp add: group_of_def SetViewGroupOrder_def ex find_append)
    next
      case (Some x)
      then have "?f x = g" using f find_id_Some [OF Some] by blast
      with Some True show ?thesis by (simp add: group_of_def SetViewGroupOrder_def ex same)
    qed
  next
    case False
    then show ?thesis by (simp add: group_of_def SetViewGroupOrder_def Let_def other find_append split: option.split)
  qed
qed

definition group_message :: "DvEnv \<Rightarrow> GroupOrder list \<Rightarrow> GroupOrder \<Rightarrow> dv_event list" where
  "group_message env gs o2 = (case find (\<lambda>o1. go_ViewId o1 = go_ViewId o2) gs of
         None \<Rightarrow> [DvGroupOrderUpdate o2]
       | Some o1 \<Rightarrow> if \<not> equalG env o1 o2 then [DvGroupOrderUpdate o2] else [])"

lemma group_orders_loop:
  assumes "dv_env_ok env" "distinct (map go_ViewId os)" "\<forall>g\<in>set os. group_of d (go_ViewId g) = find (\<lambda>o1. go_ViewId o1 = go_ViewId g) gs"
  shows "\<exists>G. apply_dv_events env gen (concat (map (group_message env gs) os)) d = Some (d\<lparr>dv_GroupOrders := G\<rparr>) \<and>
     (\<forall>g\<in>set os. find (\<lambda>x. go_ViewId x = go_ViewId g) G = Some g) \<and>
     (\<forall>k. k \<notin> go_ViewId ` set os \<longrightarrow> find (\<lambda>x. go_ViewId x = k) G = group_of d k)"
  using assms
proof (induction os arbitrary: d)
  case Nil
  then show ?case by (intro exI [of _ "dv_GroupOrders d"]) (simp add: group_of_def)
next
  case (Cons g os)
  obtain G1 where one: "apply_dv_events env gen (group_message env gs g) d = Some (d\<lparr>dv_GroupOrders := G1\<rparr>)"
    "group_of (d\<lparr>dv_GroupOrders := G1\<rparr>) = (group_of d)(go_ViewId g \<mapsto> g)"
  proof (cases "group_message env gs g = []")
    case True
    then obtain o1 where "find (\<lambda>o1. go_ViewId o1 = go_ViewId g) gs = Some o1" "equalG env o1 g"
      by (auto simp: group_message_def split: option.splits if_splits)
    then have "group_of d (go_ViewId g) = Some g" using Cons.prems(1,3) by (simp add: dv_env_ok_def)
    then show thesis using True that [of "dv_GroupOrders d"] by (simp add: fun_upd_idem)
  next
    case False
    then have "group_message env gs g = [DvGroupOrderUpdate g]" by (auto simp: group_message_def split: option.splits if_splits)
    moreover have "SetViewGroupOrder g d = d\<lparr>dv_GroupOrders := dv_GroupOrders (SetViewGroupOrder g d)\<rparr>"
      by (simp add: SetViewGroupOrder_def Let_def)
    ultimately show thesis using that [of "dv_GroupOrders (SetViewGroupOrder g d)"] group_of_set [of g d] by simp
  qed
  let ?d = "d\<lparr>dv_GroupOrders := G1\<rparr>"
  have "\<forall>h\<in>set os. group_of ?d (go_ViewId h) = find (\<lambda>o1. go_ViewId o1 = go_ViewId h) gs"
  proof
    fix h assume h: "h \<in> set os"
    then have "go_ViewId h \<noteq> go_ViewId g" using Cons.prems(2) by (auto simp: image_iff)
    then show "group_of ?d (go_ViewId h) = find (\<lambda>o1. go_ViewId o1 = go_ViewId h) gs" using h Cons.prems(3) one(2) by simp
  qed
  from Cons.IH [OF Cons.prems(1) _ this] Cons.prems(2) obtain G where
    G: "apply_dv_events env gen (concat (map (group_message env gs) os)) ?d = Some (?d\<lparr>dv_GroupOrders := G\<rparr>)"
    "\<forall>g\<in>set os. find (\<lambda>x. go_ViewId x = go_ViewId g) G = Some g"
    "\<forall>k. k \<notin> go_ViewId ` set os \<longrightarrow> find (\<lambda>x. go_ViewId x = k) G = group_of ?d k" by auto
  have "find (\<lambda>x. go_ViewId x = go_ViewId g) G = Some g" using G(3) Cons.prems(2) one(2) by simp
  then show ?case using one G by (intro exI [of _ G]) (auto simp: apply_dv_events_append)
qed

text \<open>The difference of two lists of ids replaces nothing, so that no change is lost in the message.\<close>

fun no_replace :: "'a change \<Rightarrow> bool" where
  "no_replace (ChangeReplace _ _) = False"
| "no_replace _ = True"

lemma insert_item_no_replace:
  "list_all no_replace result \<Longrightarrow> no_replace oneCh \<Longrightarrow>
   insert_item getID it (result, oneCh, dels, af) = (result', oneCh', dels', af') \<Longrightarrow> list_all no_replace result' \<and> no_replace oneCh'"
  by (cases oneCh) (auto simp: Let_def split: if_splits)

lemma insert_items_no_replace:
  "list_all no_replace result \<Longrightarrow> no_replace oneCh \<Longrightarrow>
   fold (insert_item getID) its (result, oneCh, dels, af) = (result', oneCh', dels', af') \<Longrightarrow> list_all no_replace result' \<and> no_replace oneCh'"
proof (induction its arbitrary: result oneCh dels af)
  case (Cons it its)
  obtain r1 o1 d1 a1 where one: "insert_item getID it (result, oneCh, dels, af) = (r1, o1, d1, a1)" by (metis prod_cases4)
  from insert_item_no_replace [OF Cons.prems(1,2) one] Cons.IH Cons.prems(3) one show ?case by auto
qed auto

lemma diff_hunk_no_replace:
  assumes "list_all no_replace result" "diff_hunk getID A B c (result, dels) = (result', dels')"
  shows "list_all no_replace result'"
proof (cases "hIns c \<le> 0")
  case True
  with assms show ?thesis by (simp add: diff_hunk_def)
next
  case False
  obtain r o1 dl af where f: "fold (insert_item getID) (take (hIns c) (drop (hB c) B))
      (result, NoChange, dels, if hA c > 0 then getID (A ! (hA c - 1)) else []) = (r, o1, dl, af)" by (metis prod_cases4)
  then have "list_all no_replace r \<and> no_replace o1" using insert_items_no_replace [OF assms(1) _ f] by simp
  then show ?thesis using assms(2) False f by (auto simp: diff_hunk_def split: if_splits)
qed

lemma Diff_ids_no_replace:
  fixes a b :: "string list"
  shows "list_all no_replace (Diff uniq edit a b (\<lambda>x. x) (=))"
proof -
  have none: "replaces (\<lambda>x :: string. x) (=) A B = []" for A B
    by (auto simp: replaces_def Let_def split: option.split dest!: map_of_SomeD)
  have loop: "list_all no_replace (fst (fold (diff_hunk (\<lambda>x. x) A B) hs (result, dels)))" if "list_all no_replace result" for A B :: "string list" and hs result dels
    using that
  proof (induction hs arbitrary: result dels)
    case (Cons h hs)
    obtain r d where "diff_hunk (\<lambda>x. x) A B h (result, dels) = (r, d)" by (metis prod.exhaust)
    with diff_hunk_no_replace [OF Cons.prems this] Cons.IH show ?case by simp
  qed simp
  show ?thesis using loop [of "[]"] by (auto simp: Diff_def Let_def none split_def)
qed

lemma apply_slice_changes:
  "list_all no_replace chs \<Longrightarrow> apply_loop (\<lambda>x. x) (map event_change (concat (map slice_change chs))) st = apply_loop (\<lambda>x. x) chs st"
proof (induction chs arbitrary: st)
  case (Cons ch chs)
  then show ?case by (cases ch; cases st) (auto simp: event_change_def split: option.split)
qed simp

lemma object_order_changes:
  assumes env: "dv_env_ok env" and ok: "ids_ok (\<lambda>x. x) (oo_ObjectIds o1)" "ids_ok (\<lambda>x. x) (oo_ObjectIds o2)"
  shows "ApplyChanges (uniqO env) (oo_ObjectIds o1) (map event_change (diffViewObjectOrder env o1 o2)) (\<lambda>x. x) = Some (oo_ObjectIds o2)"
proof -
  have "ApplyChanges (uniqO env) (filter (\<lambda>_. True) (oo_ObjectIds o1))
      (Diff (uniqO env) (dv_edit env) (oo_ObjectIds o1) (oo_ObjectIds o2) (\<lambda>x. x) (=)) (\<lambda>x. x) = Some (uniqO env (\<lambda>x. x) (oo_ObjectIds o2))"
    using env ok by (intro Diff_ApplyChanges_part) (auto simp: dv_env_ok_def ids_ok_def)
  moreover have "uniqO env (\<lambda>x. x) (oo_ObjectIds o2) = oo_ObjectIds o2" using env ok(2) by (simp add: dv_env_ok_def uniq_doc_def ids_ok_def)
  ultimately show ?thesis
    using apply_slice_changes [OF Diff_ids_no_replace] by (simp add: ApplyChanges_def diffViewObjectOrder_def)
qed

definition order_of :: "Dataview \<Rightarrow> string \<times> string \<Rightarrow> ObjectOrder option" where
  "order_of d k = find (\<lambda>g. order_key g = k) (dv_ObjectOrders d)"

lemma same_order_key: "same_order_key v g = (\<lambda>x. order_key x = (v, g))"
  by (simp add: same_order_key_def order_key_def fun_eq_iff)

lemma map_upd_first: "(\<And>x. g (f x) = g x) \<Longrightarrow> map g (upd_first P f xs) = map g xs"
  by (induction xs) auto

lemma find_rev_distinct: "distinct (map g xs) \<Longrightarrow> find (\<lambda>x. g x = k) (rev xs) = find (\<lambda>x. g x = k) xs"
proof (induction xs)
  case (Cons x xs)
  have "find (\<lambda>y. g y = g x) xs = None" using Cons.prems by (simp add: find_id_None)
  with Cons show ?case by (auto simp: find_append split: option.split)
qed simp

lemma order_of_set:
  assumes "distinct (map order_key (dv_ObjectOrders d))"
  shows "order_of (set_object_order r d) = (order_of d)(order_key r \<mapsto> r)"
    and "distinct (map order_key (dv_ObjectOrders (set_object_order r d)))"
    and "set_object_order r d = d\<lparr>dv_ObjectOrders := dv_ObjectOrders (set_object_order r d)\<rparr>"
proof -
  let ?same = "\<lambda>x. order_key x = order_key r" and ?f = "\<lambda>x. x\<lparr>oo_ObjectIds := oo_ObjectIds r\<rparr>"
  have f: "?f x = r" if "order_key x = order_key r" for x using that by (cases x; cases r) (simp add: order_key_def)
  have same: "find ?same (upd_first ?same ?f xs) = map_option ?f (find ?same xs)" for xs
    by (rule find_upd_first) (simp add: order_key_def)
  have ex: "list_ex ?same xs \<longleftrightarrow> find ?same xs \<noteq> None" for xs by (auto simp: find_None_iff list_ex_iff)
  have rk: "same_order_key (oo_ViewId r) (oo_GroupId r) = ?same" by (simp add: same_order_key order_key_def)
  show "order_of (set_object_order r d) = (order_of d)(order_key r \<mapsto> r)"
  proof
    fix k
    have other: "find (\<lambda>x. order_key x = k) (upd_first ?same ?f xs) = find (\<lambda>x. order_key x = k) xs" if "k \<noteq> order_key r" for xs
      using that by (intro find_upd_first_other) (auto simp: order_key_def)
    show "order_of (set_object_order r d) k = ((order_of d)(order_key r \<mapsto> r)) k"
    proof (cases "k = order_key r")
      case True
      show ?thesis
      proof (cases "find ?same (dv_ObjectOrders d)")
        case None
        with True show ?thesis by (simp add: order_of_def set_object_order_def rk ex find_append)
      next
        case (Some x)
        then have "?f x = r" using f find_id_Some [OF Some] by blast
        with Some True show ?thesis by (simp add: order_of_def set_object_order_def rk ex same)
      qed
    next
      case False
      then show ?thesis by (simp add: order_of_def set_object_order_def Let_def rk other find_append split: option.split)
    qed
  qed
  have "map order_key (upd_first ?same ?f xs) = map order_key xs" for xs by (rule map_upd_first) (simp add: order_key_def)
  moreover have "\<not> list_ex ?same xs \<Longrightarrow> order_key r \<notin> order_key ` set xs" for xs by (auto simp: list_ex_iff)
  ultimately show "distinct (map order_key (dv_ObjectOrders (set_object_order r d)))"
    using assms by (simp add: set_object_order_def Let_def rk)
  show "set_object_order r d = d\<lparr>dv_ObjectOrders := dv_ObjectOrders (set_object_order r d)\<rparr>"
    by (simp add: set_object_order_def Let_def)
qed

definition object_message :: "DvEnv \<Rightarrow> ObjectOrder list \<Rightarrow> ObjectOrder \<Rightarrow> dv_event list" where
  "object_message env gs o2 = (case find (same_order_key (oo_ViewId o2) (oo_GroupId o2)) gs of
         None \<Rightarrow> [DvObjectOrderUpdate (oo_ViewId o2) (oo_GroupId o2) [\<lparr>sc_Op = SliceAdd, sc_Ids = oo_ObjectIds o2, sc_AfterId = []\<rparr>]]
       | Some o1 \<Rightarrow> (let changes = diffViewObjectOrder env o1 o2
                    in if changes \<noteq> [] then [DvObjectOrderUpdate (oo_ViewId o2) (oo_GroupId o2) changes] else []))"

lemma order_key_eta: "\<lparr>oo_ViewId = oo_ViewId g, oo_GroupId = oo_GroupId g, oo_ObjectIds = oo_ObjectIds g\<rparr> = g"
  by (cases g) simp

lemma object_message_applied:
  assumes env: "dv_env_ok env" and d: "distinct (map order_key (dv_ObjectOrders d))" and g: "ids_ok (\<lambda>x. x) (oo_ObjectIds g)"
    and gs: "list_all (\<lambda>g. ids_ok (\<lambda>x. x) (oo_ObjectIds g)) gs"
    and same: "order_of d (order_key g) = find (\<lambda>x. order_key x = order_key g) gs"
  obtains O1 where "apply_dv_events env gen (object_message env gs g) d = Some (d\<lparr>dv_ObjectOrders := O1\<rparr>)"
    "order_of (d\<lparr>dv_ObjectOrders := O1\<rparr>) = (order_of d)(order_key g \<mapsto> g)" "distinct (map order_key O1)"
proof -
  have rk: "same_order_key (oo_ViewId g) (oo_GroupId g) = (\<lambda>x. order_key x = order_key g)" by (simp add: same_order_key order_key_def)
  have found: "find (same_order_key (oo_ViewId g) (oo_GroupId g)) (rev (dv_ObjectOrders d)) = find (\<lambda>x. order_key x = order_key g) gs"
    unfolding rk find_rev_distinct [OF d] using same by (simp add: order_of_def)
  note result = that
  have whole: "d\<lparr>dv_ObjectOrders := dv_ObjectOrders (set_object_order g d)\<rparr> = set_object_order g d"
    by (rule order_of_set(3) [OF d, symmetric])
  have set_it: thesis if "apply_dv_events env gen (object_message env gs g) d = Some (set_object_order g d)"
    using result [of "dv_ObjectOrders (set_object_order g d)"] that order_of_set(1,2) [OF d, of g] by (simp add: whole)
  show thesis
  proof (cases "find (\<lambda>x. order_key x = order_key g) gs")
    case None
    have "uniqO env (\<lambda>x. x) [] = []" using env by (simp add: dv_env_ok_def uniq_doc_def)
    then have "ApplyChanges (uniqO env) [] [ChangeAdd (oo_ObjectIds g) []] (\<lambda>x. x) = Some (oo_ObjectIds g)"
      by (simp add: ApplyChanges_def after_pos_def)
    then show thesis
      using None found by (intro set_it) (simp add: object_message_def rk ApplyObjectOrderUpdate_def event_change_def SetViewObjectOrder_def order_key_eta)
  next
    case (Some o1)
    have o1: "ids_ok (\<lambda>x. x) (oo_ObjectIds o1)" using find_id_Some [OF Some] gs by (auto simp: list_all_iff)
    note ch = object_order_changes [OF env o1 g]
    show thesis
    proof (cases "diffViewObjectOrder env o1 g = []")
      case True
      have "oo_ObjectIds g = oo_ObjectIds o1" using ch True env o1 by (simp add: ApplyChanges_nothing dv_env_ok_def ids_ok_def)
      then have "g = o1" using find_id_Some [OF Some] by (cases g; cases o1) (simp add: order_key_def)
      then have "(order_of d)(order_key g \<mapsto> g) = order_of d" using same Some by (simp add: fun_upd_idem)
      then show thesis using that [of "dv_ObjectOrders d"] True Some d by (simp add: object_message_def rk)
    next
      case False
      then show thesis using ch Some found
        by (intro set_it) (simp add: object_message_def rk ApplyObjectOrderUpdate_def SetViewObjectOrder_def order_key_eta)
    qed
  qed
qed

lemma object_orders_loop:
  assumes env: "dv_env_ok env" and gs: "list_all (\<lambda>g. ids_ok (\<lambda>x. x) (oo_ObjectIds g)) gs"
    and "distinct (map order_key os)" "list_all (\<lambda>g. ids_ok (\<lambda>x. x) (oo_ObjectIds g)) os" "distinct (map order_key (dv_ObjectOrders d))"
    and "\<forall>g\<in>set os. order_of d (order_key g) = find (\<lambda>x. order_key x = order_key g) gs"
  shows "\<exists>G. apply_dv_events env gen (concat (map (object_message env gs) os)) d = Some (d\<lparr>dv_ObjectOrders := G\<rparr>) \<and>
     (\<forall>g\<in>set os. find (\<lambda>x. order_key x = order_key g) G = Some g) \<and>
     (\<forall>k. k \<notin> order_key ` set os \<longrightarrow> find (\<lambda>x. order_key x = k) G = order_of d k)"
  using assms(3-)
proof (induction os arbitrary: d)
  case Nil
  then show ?case by (intro exI [of _ "dv_ObjectOrders d"]) (simp add: order_of_def)
next
  case (Cons g os)
  obtain G1 where one: "apply_dv_events env gen (object_message env gs g) d = Some (d\<lparr>dv_ObjectOrders := G1\<rparr>)"
    "order_of (d\<lparr>dv_ObjectOrders := G1\<rparr>) = (order_of d)(order_key g \<mapsto> g)" "distinct (map order_key G1)"
  proof (rule object_message_applied [OF env Cons.prems(3) _ gs])
    show "ids_ok (\<lambda>x. x) (oo_ObjectIds g)" using Cons.prems(2) by simp
    show "order_of d (order_key g) = find (\<lambda>x. order_key x = order_key g) gs" using Cons.prems(4) by simp
  qed
  let ?d = "d\<lparr>dv_ObjectOrders := G1\<rparr>"
  have "\<forall>h\<in>set os. order_of ?d (order_key h) = find (\<lambda>x. order_key x = order_key h) gs"
  proof
    fix h assume h: "h \<in> set os"
    then have "order_key h \<noteq> order_key g" using Cons.prems(1) by (auto simp: image_iff)
    then show "order_of ?d (order_key h) = find (\<lambda>x. order_key x = order_key h) gs" using h Cons.prems(4) one(2) by simp
  qed
  with Cons.IH [of ?d] Cons.prems(1,2) one(3) obtain G where
    G: "apply_dv_events env gen (concat (map (object_message env gs) os)) ?d = Some (?d\<lparr>dv_ObjectOrders := G\<rparr>)"
    "\<forall>g\<in>set os. find (\<lambda>x. order_key x = order_key g) G = Some g"
    "\<forall>k. k \<notin> order_key ` set os \<longrightarrow> find (\<lambda>x. order_key x = k) G = order_of ?d k" by auto
  have "find (\<lambda>x. order_key x = order_key g) G = Some g" using G(3) [rule_format, of "order_key g"] Cons.prems(1) one(2) by simp
  then show ?case using one G by (intro exI [of _ G]) (auto simp: apply_dv_events_append)
qed

lemma rl_Has_iff: "rl_Has rl k \<longleftrightarrow> k \<in> rl_Key ` set rl"
  by (auto simp: rl_Has_def list_ex_iff)

lemma link_keys_with: "rl_Key ` {x \<in> X. rl_Key x \<in> K} = rl_Key ` X \<inter> K" and link_keys_without: "rl_Key ` {x \<in> X. rl_Key x \<notin> K} = rl_Key ` X - K"
  by auto

lemma add_relations:
  "\<exists>L. fold (\<lambda>l d. case AddRelation l d of Inr d' \<Rightarrow> d' | Inl _ \<Rightarrow> d) links d = d\<lparr>dv_RelationLinks := L\<rparr> \<and>
     rl_Key ` set L = rl_Key ` set (dv_RelationLinks d) \<union> rl_Key ` set links"
proof (induction links arbitrary: d)
  case Nil
  then show ?case by (intro exI [of _ "dv_RelationLinks d"]) simp
next
  case (Cons l links)
  let ?d = "case AddRelation l d of Inr d' \<Rightarrow> d' | Inl _ \<Rightarrow> d"
  obtain L1 where d: "?d = d\<lparr>dv_RelationLinks := L1\<rparr>" and L1: "rl_Key ` set L1 = insert (rl_Key l) (rl_Key ` set (dv_RelationLinks d))"
  proof (cases "rl_Has (dv_RelationLinks d) (rl_Key l)")
    case True
    then have "rl_Key l \<in> rl_Key ` set (dv_RelationLinks d)" by (simp add: rl_Has_iff)
    then show thesis using that [of "dv_RelationLinks d"] True by (simp add: AddRelation_def insert_absorb)
  next
    case False
    then show thesis using that [of "dv_RelationLinks d @ [l]"] by (simp add: AddRelation_def)
  qed
  from Cons.IH [of ?d] obtain L where
    "fold (\<lambda>l d. case AddRelation l d of Inr d' \<Rightarrow> d' | Inl _ \<Rightarrow> d) links ?d = ?d\<lparr>dv_RelationLinks := L\<rparr>"
    "rl_Key ` set L = rl_Key ` set (dv_RelationLinks ?d) \<union> rl_Key ` set links" by blast
  then show ?case using L1 by (intro exI [of _ L]) (simp add: d)
qed

lemma rl_Diff_keys:
  "set (snd (rl_Diff rl prev)) = rl_Key ` set prev - rl_Key ` set rl"
  "rl_Key ` set (fst (rl_Diff rl prev)) = rl_Key ` set rl - rl_Key ` set prev"
  by (auto simp: rl_Diff_def rl_Has_iff link_keys_with link_keys_without)

lemma relation_links_applied:
  "\<exists>L. apply_dv_events env gen (diffRelationLinks d other) d2 = Some (d2\<lparr>dv_RelationLinks := L,
      dv_Views := map (without_keys (removed_keys d other)) (dv_Views d2)\<rparr>) \<and>
    (dv_RelationLinks d2 = dv_RelationLinks d \<longrightarrow> rl_Key ` set L = rl_Key ` set (dv_RelationLinks other))"
proof -
  define added where "added = fst (rl_Diff (dv_RelationLinks other) (dv_RelationLinks d))"
  define removed where "removed = removed_keys d other"
  have msgs: "diffRelationLinks d other = (if removed \<noteq> [] then [DvRelationDelete removed] else []) @ (if added \<noteq> [] then [DvRelationSet added] else [])"
    by (simp add: diffRelationLinks_def added_def removed_def removed_keys_def split_def Let_def)
  have "map (without_keys []) vs = vs" for vs by (simp add: without_keys_def map_idI)
  then have "apply_dv_events env gen (if removed \<noteq> [] then [DvRelationDelete removed] else []) d2 = Some (DeleteRelations removed d2)"
    by (simp add: DeleteRelations_def removeSortsAndFiltersByKeys_def rl_Remove_def)
  moreover obtain L where L: "fold (\<lambda>l d. case AddRelation l d of Inr d' \<Rightarrow> d' | Inl _ \<Rightarrow> d) added (DeleteRelations removed d2) =
      (DeleteRelations removed d2)\<lparr>dv_RelationLinks := L\<rparr>"
    "rl_Key ` set L = rl_Key ` set (dv_RelationLinks (DeleteRelations removed d2)) \<union> rl_Key ` set added"
    using add_relations by blast
  then have "apply_dv_events env gen (if added \<noteq> [] then [DvRelationSet added] else []) (DeleteRelations removed d2) =
      Some ((DeleteRelations removed d2)\<lparr>dv_RelationLinks := L\<rparr>)" by auto
  moreover have "(DeleteRelations removed d2)\<lparr>dv_RelationLinks := L\<rparr> = d2\<lparr>dv_RelationLinks := L, dv_Views := map (without_keys removed) (dv_Views d2)\<rparr>"
    by (simp add: DeleteRelations_def removeSortsAndFiltersByKeys_def)
  moreover have "rl_Key ` set L = rl_Key ` set (dv_RelationLinks other)" if "dv_RelationLinks d2 = dv_RelationLinks d"
  proof -
    have "rl_Key ` set (dv_RelationLinks (DeleteRelations removed d2)) = rl_Key ` set (dv_RelationLinks d) - set removed"
      using that by (simp add: DeleteRelations_def removeSortsAndFiltersByKeys_def rl_Remove_def link_keys_without)
    then show ?thesis unfolding L(2) added_def removed_def removed_keys_def rl_Diff_keys by auto
  qed
  ultimately show ?thesis unfolding msgs apply_dv_events_append removed_def by (intro exI [of _ L]) simp
qed

subsection \<open>The whole block\<close>

lemma v_Id_without [simp]: "v_Id (without_keys ks v) = v_Id v"
  by (simp add: without_keys_def)

lemma find_map_id: "(\<And>x. g (f x) = g x) \<Longrightarrow> find (\<lambda>v. g v = i) (map f xs) = map_option f (find (\<lambda>v. g v = i) xs)"
  by (induction xs) auto

lemma replaced_without: "v_Id w \<in> v_Id ` set V2 \<Longrightarrow> replaced V2 (without_keys ks w) = replaced V2 w"
  by (auto simp: replaced_def find_id_None split: option.split)

lemma merged_after_deletions:
  "[v \<leftarrow> map (replaced V2) (map (without_keys ks) V1) @ [v \<leftarrow> V2. v_Id v \<notin> v_Id ` set V1].
      v_Id v \<notin> v_Id ` {v \<in> set V1. v_Id v \<notin> v_Id ` set V2}] = merged_views V1 V2"
proof -
  have deleted: "v_Id v \<in> v_Id ` {v \<in> set V1. v_Id v \<notin> v_Id ` set V2} \<longleftrightarrow> v_Id v \<in> v_Id ` set V1 \<and> v_Id v \<notin> v_Id ` set V2" for v
    by (auto simp: image_iff)
  have "[v \<leftarrow> map (replaced V2) (map (without_keys ks) W). v_Id v \<notin> v_Id ` {v \<in> set V1. v_Id v \<notin> v_Id ` set V2}] =
      [v \<leftarrow> map (replaced V2) W. v_Id v \<in> v_Id ` set V2]" if "set W \<subseteq> set V1" for W
    using that by (induction W) (simp_all add: deleted replaced_without)
  moreover have "[v \<leftarrow> [v \<leftarrow> V2. v_Id v \<notin> v_Id ` set V1]. v_Id v \<notin> v_Id ` {v \<in> set V1. v_Id v \<notin> v_Id ` set V2}] =
      [v \<leftarrow> V2. v_Id v \<notin> v_Id ` set V1]" by (auto simp: deleted intro!: filter_cong)
  ultimately show ?thesis by (simp add: merged_views_def)
qed

lemma views_applied:
  assumes env: "dv_env_ok env" and ok: "dataview_ok d" "dataview_ok other" and cl: "removed_clean d other"
    and d3: "dv_Views d3 = map (without_keys (removed_keys d other)) (dv_Views d)"
  shows "apply_dv_events env gen (diffViews env d other) d3 = Some (d3\<lparr>dv_Views := merged_views (dv_Views d) (dv_Views other)\<rparr>)"
proof -
  let ?V1 = "dv_Views d" and ?V2 = "dv_Views other" and ?ks = "removed_keys d other"
  have ids: "map v_Id (dv_Views d3) = map v_Id ?V1" by (simp add: d3)
  then have idset: "v_Id ` set (dv_Views d3) = v_Id ` set ?V1" by (metis set_map)
  have dist: "distinct (map v_Id ?V1)" "distinct (map v_Id ?V2)" using ok by (simp_all add: dataview_ok_def ids_ok_def)
  have each: "case find (\<lambda>v. v_Id v = v_Id v2) ?V1 of None \<Rightarrow> v_Id v2 \<notin> v_Id ` set (dv_Views d3)
      | Some v1 \<Rightarrow> cleaned ?ks v1 v2 \<and> find (\<lambda>v. v_Id v = v_Id v2) (dv_Views d3) = Some (without_keys ?ks v1)"
    if "v2 \<in> set ?V2" for v2
  proof (cases "find (\<lambda>v. v_Id v = v_Id v2) ?V1")
    case None
    then have "v_Id v2 \<notin> v_Id ` set ?V1" by (simp add: find_id_None)
    then show ?thesis using None by (simp add: idset)
  next
    case (Some v1)
    have "cleaned ?ks v1 v2" using cl that find_id_Some [OF Some] by (simp add: removed_clean_def list_all_iff)
    then show ?thesis using Some by (simp add: d3 find_map_id)
  qed
  let ?W = "map (replaced ?V2) (dv_Views d3) @ [v \<leftarrow> ?V2. v_Id v \<notin> v_Id ` set (dv_Views d3)]"
  have "apply_dv_events env gen (concat (map (diff_view env ?V1) ?V2)) d3 = Some (d3\<lparr>dv_Views := ?W\<rparr>)"
    using env ok dist(1) each by (intro diff_views_loop [where ks = ?ks]) (simp_all add: dataview_ok_def ids)
  moreover have "distinct (map v_Id ?W)"
  proof -
    have "v_Id x \<noteq> v_Id y" if "x \<in> set ?V1" "v_Id y \<notin> v_Id ` set (dv_Views d3)" for x y
      using that unfolding idset by (metis imageI)
    moreover have "map v_Id ?W = map v_Id ?V1 @ map v_Id [v \<leftarrow> ?V2. v_Id v \<notin> v_Id ` set (dv_Views d3)]"
      by (simp add: ids comp_def)
    ultimately show ?thesis using dist by (simp only: distinct_append) (auto simp: distinct_map_filter)
  qed
  then have "apply_dv_events env gen (map DvViewDelete (map v_Id [v \<leftarrow> ?V1. \<not> list_ex (\<lambda>v2. v_Id v = v_Id v2) ?V2])) (d3\<lparr>dv_Views := ?W\<rparr>) =
      Some (d3\<lparr>dv_Views := [v \<leftarrow> ?W. v_Id v \<notin> set (map v_Id [v \<leftarrow> ?V1. \<not> list_ex (\<lambda>v2. v_Id v = v_Id v2) ?V2])]\<rparr>)"
    by (subst delete_views_loop) simp_all
  moreover have "set (map v_Id [v \<leftarrow> ?V1. \<not> list_ex (\<lambda>v2. v_Id v = v_Id v2) ?V2]) = v_Id ` {v \<in> set ?V1. v_Id v \<notin> v_Id ` set ?V2}"
    by (auto simp: list_ex_iff)
  moreover have "[v \<leftarrow> ?W. v_Id v \<notin> v_Id ` {v \<in> set ?V1. v_Id v \<notin> v_Id ` set ?V2}] = merged_views ?V1 ?V2"
    using merged_after_deletions [where ?V2.0 = ?V2 and ks = ?ks and ?V1.0 = ?V1] by (simp only: d3 idset [unfolded d3])
  ultimately show ?thesis by (simp add: diffViews_def apply_dv_events_append comp_def)
qed

lemma sources_applied:
  assumes "dv_Source e = dv_Source d"
  shows "\<exists>S. apply_dv_events env gen (diffSources d other) e = Some (e\<lparr>dv_Source := S\<rparr>) \<and> mset S = mset (dv_Source other)"
proof (cases "UnsortedEqual (dv_Source other) (dv_Source d)")
  case True
  then show ?thesis using assms by (intro exI [of _ "dv_Source e"]) (simp add: diffSources_def UnsortedEqual_mset)
next
  case False
  then show ?thesis by (intro exI [of _ "dv_Source other"]) (simp add: diffSources_def)
qed

text \<open>C12: the messages that \<open>Diff\<close> computes for two versions of a dataview block, applied to the old version,
  give the views of the new version exactly, with filters, sorts and relations in their order, the
  same sources up to their order, target, kind and set of link keys, and every group and object order of
  the new version. No application fails. A changed format of a link is never sent, and orders that only the old version has stay. Filters and
  sorts of a removed relation must not be kept under their ids (\<open>removed_clean\<close>), and items that \<open>proto.Equal\<close> calls equal are the same
  item (\<open>dv_env_ok\<close>).\<close>

theorem dv_Diff_applied:
  assumes env: "dv_env_ok env" and ok: "dataview_ok d" "dataview_ok other" and cl: "removed_clean d other"
  shows "\<exists>r. apply_dv_events env gen (dv_Diff env d other) d = Some r \<and> dv_Views r = dv_Views other \<and>
     mset (dv_Source r) = mset (dv_Source other) \<and> dv_TargetObjectId r = dv_TargetObjectId other \<and>
     dv_IsCollection r = dv_IsCollection other \<and>
     rl_Key ` set (dv_RelationLinks r) = rl_Key ` set (dv_RelationLinks other) \<and>
     (\<forall>g\<in>set (dv_GroupOrders other). find (\<lambda>x. go_ViewId x = go_ViewId g) (dv_GroupOrders r) = Some g) \<and>
     (\<forall>g\<in>set (dv_ObjectOrders other). find (same_order_key (oo_ViewId g) (oo_GroupId g)) (dv_ObjectOrders r) = Some g)"
proof -
  have gm: "diffGroupOrders env d other = concat (map (group_message env (dv_GroupOrders d)) (dv_GroupOrders other))"
    by (simp add: diffGroupOrders_def group_message_def [abs_def])
  have om: "diffObjectOrders env d other = concat (map (object_message env (dv_ObjectOrders d)) (dv_ObjectOrders other))"
    by (simp add: diffObjectOrders_def object_message_def [abs_def])
  obtain G where G: "apply_dv_events env gen (diffGroupOrders env d other) d = Some (d\<lparr>dv_GroupOrders := G\<rparr>)"
    "\<forall>g\<in>set (dv_GroupOrders other). find (\<lambda>x. go_ViewId x = go_ViewId g) G = Some g"
    using group_orders_loop [OF env, of "dv_GroupOrders other" d "dv_GroupOrders d" gen] ok unfolding gm
    by (auto simp: dataview_ok_def group_of_def)
  let ?d1 = "d\<lparr>dv_GroupOrders := G\<rparr>"
  obtain H where H: "apply_dv_events env gen (diffObjectOrders env d other) ?d1 = Some (?d1\<lparr>dv_ObjectOrders := H\<rparr>)"
    "\<forall>g\<in>set (dv_ObjectOrders other). find (\<lambda>x. order_key x = order_key g) H = Some g"
    using object_orders_loop [OF env, of "dv_ObjectOrders d" "dv_ObjectOrders other" ?d1 gen] ok unfolding om
    by (auto simp: dataview_ok_def order_of_def)
  let ?d2 = "?d1\<lparr>dv_ObjectOrders := H\<rparr>"
  obtain L where L: "apply_dv_events env gen (diffRelationLinks d other) ?d2 = Some (?d2\<lparr>dv_RelationLinks := L,
      dv_Views := map (without_keys (removed_keys d other)) (dv_Views d)\<rparr>)"
    "rl_Key ` set L = rl_Key ` set (dv_RelationLinks other)"
    using relation_links_applied [of env gen d other ?d2] by auto
  let ?d3 = "?d2\<lparr>dv_RelationLinks := L, dv_Views := map (without_keys (removed_keys d other)) (dv_Views d)\<rparr>"
  have V: "apply_dv_events env gen (diffViews env d other) ?d3 = Some (?d3\<lparr>dv_Views := merged_views (dv_Views d) (dv_Views other)\<rparr>)"
    by (rule views_applied [OF env ok cl]) simp
  let ?d4 = "?d3\<lparr>dv_Views := merged_views (dv_Views d) (dv_Views other)\<rparr>"
  obtain S where S: "apply_dv_events env gen (diffSources d other) ?d4 = Some (?d4\<lparr>dv_Source := S\<rparr>)" "mset S = mset (dv_Source other)"
    using sources_applied [of ?d4 d env gen other] by auto
  let ?d5 = "?d4\<lparr>dv_Source := S\<rparr>"
  have dist: "distinct (map v_Id (dv_Views other))" using ok by (simp add: dataview_ok_def ids_ok_def)
  have O: "apply_dv_events env gen (diffOrderOfViews d other) ?d5 = Some (?d5\<lparr>dv_Views := dv_Views other\<rparr>)"
    using SetViewOrder_merged [OF dist, of ?d5 "dv_Views d"] merged_same_ids [OF _ dist, of "dv_Views d"]
    by (cases "map v_Id (dv_Views d) = map v_Id (dv_Views other)") (simp_all add: diffOrderOfViews_def)
  let ?d6 = "?d5\<lparr>dv_Views := dv_Views other\<rparr>"
  have T: "apply_dv_events env gen (diffTargetObjectIDs d other @ diffIsCollections d other) ?d6 =
      Some (?d6\<lparr>dv_TargetObjectId := dv_TargetObjectId other, dv_IsCollection := dv_IsCollection other\<rparr>)"
    by (auto simp: diffTargetObjectIDs_def diffIsCollections_def)
  have "apply_dv_events env gen (dv_Diff env d other) d =
      Some (?d6\<lparr>dv_TargetObjectId := dv_TargetObjectId other, dv_IsCollection := dv_IsCollection other\<rparr>)"
    unfolding dv_Diff_def by (simp only: apply_dv_events_append G(1) H(1) L(1) V S(1) O option.simps T [unfolded apply_dv_events_append])
  then show ?thesis using G(2) H(2) L(2) S(2) by (simp add: same_order_key order_key_def)
qed

text \<open>A block with one view loses a relation and with it a filter, gets a new view in front, a new target and orders.\<close>

definition equal_hunk :: "nat \<Rightarrow> nat \<Rightarrow> (nat \<Rightarrow> nat \<Rightarrow> bool) \<Rightarrow> hunk list" where
  "equal_hunk n m eq = (if n = m \<and> list_all (\<lambda>i. eq i i) [0..<n] then [] else whole_hunk n m eq)"

lemma equal_hunk_doc: "edit_doc equal_hunk getID"
  using whole_hunk_doc [of getID]
  by (auto simp: edit_doc_def edit_script_def equal_hunk_def MixedInput_Equal_def list_all_iff intro!: nth_equalityI)

definition first_env :: DvEnv where
  "first_env = \<lparr>uniqF = uniq_first, uniqR = uniq_first, uniqS = uniq_first, uniqO = uniq_first, dv_edit = equal_hunk,
     equalF = (=), equalR = (=), equalS = (=), equalG = (=)\<rparr>"

lemma first_env_ok: "dv_env_ok first_env"
  by (simp add: dv_env_ok_def first_env_def uniq_first_doc equal_hunk_doc)

definition plain_view :: "string \<Rightarrow> DvFilter list \<Rightarrow> DvView" where
  "plain_view i fs = \<lparr>v_Id = i, v_Type = 0, v_Name = ''All'', v_Sorts = [], v_Filters = fs, v_Relations = [], v_CoverRelationKey = [],
     v_HideIcon = False, v_CardSize = 0, v_CoverFit = False, v_GroupRelationKey = [], v_GroupBackgroundColors = False,
     v_PageLimit = 0, v_DefaultTemplateId = [], v_DefaultObjectTypeId = [], v_EndRelationKey = [], v_WrapContent = False\<rparr>"

definition plain_filter :: "string \<Rightarrow> string \<Rightarrow> DvFilter" where
  "plain_filter i k = DvFilter i Op_No k [] Cond_Equal PNull ExactDate Format_shorttext False []"

definition old_block :: Dataview where
  "old_block = \<lparr>dv_Source = [''a'', ''b''], dv_Views = [plain_view ''v'' [plain_filter ''f'' ''tag'', plain_filter ''g'' ''name'']],
     dv_ActiveView = [], dv_GroupOrders = [], dv_ObjectOrders = [\<lparr>oo_ViewId = ''v'', oo_GroupId = [], oo_ObjectIds = [''x'', ''y'']\<rparr>],
     dv_RelationLinks = [\<lparr>rl_Key = ''tag'', rl_Format = Format_tag\<rparr>, \<lparr>rl_Key = ''name'', rl_Format = Format_shorttext\<rparr>],
     dv_TargetObjectId = [], dv_IsCollection = False\<rparr>"

definition new_block :: Dataview where
  "new_block = \<lparr>dv_Source = [''b'', ''a''], dv_Views = [plain_view ''w'' [], plain_view ''v'' [plain_filter ''g'' ''done'']],
     dv_ActiveView = [], dv_GroupOrders = [\<lparr>go_ViewId = ''w'', go_ViewGroups = []\<rparr>],
     dv_ObjectOrders = [\<lparr>oo_ViewId = ''v'', oo_GroupId = [], oo_ObjectIds = [''y'', ''z'', ''x'']\<rparr>],
     dv_RelationLinks = [\<lparr>rl_Key = ''name'', rl_Format = Format_shorttext\<rparr>, \<lparr>rl_Key = ''done'', rl_Format = Format_checkbox\<rparr>],
     dv_TargetObjectId = ''t'', dv_IsCollection = True\<rparr>"

theorem dv_Diff_applied_witness:
  "\<exists>r. apply_dv_events first_env (\<lambda>_. ''n'') (dv_Diff first_env old_block new_block) old_block = Some r \<and>
     dv_Views r = dv_Views new_block \<and> mset (dv_Source r) = mset (dv_Source new_block) \<and>
     dv_TargetObjectId r = ''t'' \<and> dv_IsCollection r"
proof -
  have ok: "dataview_ok old_block" "dataview_ok new_block"
    by (simp_all add: dataview_ok_def old_block_def new_block_def ids_ok_def view_ok_def plain_view_def plain_filter_def order_key_def)
  have cl: "removed_clean old_block new_block"
    by (simp add: removed_clean_def cleaned_def removed_keys_def rl_Diff_def rl_Has_def old_block_def new_block_def plain_view_def plain_filter_def)
  show ?thesis using dv_Diff_applied [OF first_env_ok ok cl, of "\<lambda>_. ''n''"]
    by (auto simp: new_block_def [THEN arg_cong [where f = dv_TargetObjectId]] new_block_def [THEN arg_cong [where f = dv_IsCollection]])
qed

text \<open>When the filter keeps its id and leaves the removed relation, it is lost: the removal deletes it before
  the message that replaces it is applied.\<close>

definition new_relation :: Dataview where
  "new_relation = old_block\<lparr>dv_Views := [plain_view ''v'' [plain_filter ''f'' ''name'', plain_filter ''g'' ''name'']],
     dv_RelationLinks := [\<lparr>rl_Key = ''name'', rl_Format = Format_shorttext\<rparr>]\<rparr>"

lemma replaced_filter_lost:
  "map_option (\<lambda>r. map v_Filters (dv_Views r))
     (apply_dv_events first_env (\<lambda>_. ''n'') (dv_Diff first_env old_block new_relation) old_block)
   = Some [[plain_filter ''g'' ''name'']]"
  by code_simp

subsection \<open>Operations keep blocks well formed\<close>

text \<open>The operations of dataview.go and views.go on views, items and orders as steps of a block. The guards are what the
  callers have to provide: ids of new items that are generated or not in use, items of a replaced view that have ids of their own,
  requests that name an item once, and a sort or a relation that replaces another one under its id or under a new one.\<close>

definition view_fresh :: "(DvView \<Rightarrow> string list) \<Rightarrow> string \<Rightarrow> string \<Rightarrow> Dataview \<Rightarrow> bool" where
  "view_fresh g viewID i d \<longleftrightarrow> i \<noteq> [] \<and> (case GetView viewID d of Some v \<Rightarrow> i \<notin> set (g v) | None \<Rightarrow> True)"

text \<open>An item takes the place of another one.\<close>

definition view_has :: "(DvView \<Rightarrow> string list) \<Rightarrow> string \<Rightarrow> string \<Rightarrow> Dataview \<Rightarrow> bool" where
  "view_has g viewID i d \<longleftrightarrow> (case GetView viewID d of Some v \<Rightarrow> i \<in> set (g v) | None \<Rightarrow> False)"

text \<open>A request for a new view may leave out ids: the generated ones are new.\<close>

definition given_once :: "('a \<Rightarrow> string) \<Rightarrow> 'a list \<Rightarrow> bool" where
  "given_once g xs \<longleftrightarrow> distinct [i \<leftarrow> map g xs. i \<noteq> []]"

definition new_ids :: "(nat \<Rightarrow> string) \<Rightarrow> string list \<Rightarrow> bool" where
  "new_ids gen used \<longleftrightarrow> inj gen \<and> (\<forall>n. gen n \<noteq> [] \<and> gen n \<notin> set used)"

inductive item_step :: "Dataview \<Rightarrow> Dataview \<Rightarrow> bool" where
  add_filter: "view_fresh (\<lambda>v. map df_Id (v_Filters v)) viewID (if df_Id f = [] then gen else df_Id f) d \<Longrightarrow>
     item_step d (fst (AddFilter gen viewID f d))"
| remove_filters: "item_step d (fst (RemoveFilters viewID ids d))"
| replace_filter: "view_has (\<lambda>v. map df_Id (v_Filters v)) viewID filterID d \<or>
     view_fresh (\<lambda>v. map df_Id (v_Filters v)) viewID (if df_Id f = [] then gen else df_Id f) d \<Longrightarrow>
     item_step d (fst (ReplaceFilter gen viewID filterID f d))"
| reorder_filters: "distinct ids \<Longrightarrow> item_step d (fst (ReorderFilters viewID ids d))"
| add_sort: "view_fresh (\<lambda>v. map ds_Id (v_Sorts v)) viewID (if ds_Id s = [] then gen else ds_Id s) d \<Longrightarrow>
     item_step d (fst (AddSort gen viewID s d))"
| remove_sorts: "item_step d (fst (RemoveSorts viewID ids d))"
| replace_sort: "ds_Id s = i \<and> i \<noteq> [] \<or> view_fresh (\<lambda>v. map ds_Id (v_Sorts v)) viewID (ds_Id s) d \<Longrightarrow>
     item_step d (fst (ReplaceSort gen viewID i s d))"
| reorder_sorts: "distinct ids \<Longrightarrow> item_step d (fst (ReorderSorts viewID ids d))"
| add_relation: "dr_Key relation \<noteq> [] \<Longrightarrow> item_step d (fst (AddViewRelation viewID relation d))"
| replace_relation: "dr_Key relation = k \<and> k \<noteq> [] \<or> view_fresh (\<lambda>v. map dr_Key (v_Relations v)) viewID (dr_Key relation) d \<Longrightarrow>
     item_step d (fst (ReplaceViewRelation viewID k relation d))"
| remove_relations: "item_step d (fst (RemoveViewRelations viewID ks d))"
| reorder_relations: "distinct ks \<Longrightarrow> item_step d (fst (ReorderViewRelations viewID ks d))"
| delete_relations: "item_step d (DeleteRelations ks d)"
| set_relations: "item_step d (SetRelations links d)"
| add_link: "AddRelation link d = Inr d' \<Longrightarrow> item_step d d'"
| add_view: "new_ids gen (map v_Id (dv_Views d) @ map df_Id (v_Filters view) @ map ds_Id (v_Sorts view)) \<Longrightarrow>
     v_Id view \<notin> set (map v_Id (dv_Views d)) \<Longrightarrow> given_once df_Id (v_Filters view) \<Longrightarrow> given_once ds_Id (v_Sorts view) \<Longrightarrow>
     ids_ok dr_Key (v_Relations view) \<Longrightarrow> item_step d (AddView gen view d)"
| set_view: "view_ok view \<Longrightarrow> SetView viewID view d = Inr d' \<Longrightarrow> item_step d d'"
| set_view_fields: "SetViewFields viewID view d = Inr d' \<Longrightarrow> item_step d d'"
| delete_view: "DeleteView viewID d = Inr d' \<Longrightarrow> item_step d d'"
| order_views: "distinct ids \<Longrightarrow> item_step d (SetViewOrder ids d)"
| group_order: "item_step d (SetViewGroupOrder order d)"
| object_orders: "\<forall>r\<in>set orders. ids_ok (\<lambda>x. x) (oo_ObjectIds r) \<Longrightarrow> item_step d (SetViewObjectOrder orders d)"
| move_objects: "ids_ok (\<lambda>x. x) objectIds \<Longrightarrow> MoveObjectsInView viewId groupId afterId objectIds d = Inr d' \<Longrightarrow> item_step d d'"

lemma ids_ok_filter: "ids_ok g xs \<Longrightarrow> ids_ok g (filter P xs)"
  by (auto simp: ids_ok_def distinct_map_filter)

lemma ids_ok_snoc: "ids_ok g (xs @ [x]) \<longleftrightarrow> ids_ok g xs \<and> g x \<noteq> [] \<and> g x \<notin> set (map g xs)"
  by (auto simp: ids_ok_def)

lemma upd_first_ids: "(\<And>x. P x \<Longrightarrow> g (f x) = g x) \<Longrightarrow> map g (upd_first P f xs) = map g xs"
  by (induction xs) auto

lemma ids_ok_upd: "ids_ok g xs \<Longrightarrow> (\<And>x. P x \<Longrightarrow> g (f x) = g x) \<Longrightarrow> ids_ok g (upd_first P f xs)"
  by (simp add: ids_ok_def upd_first_ids)

lemma upd_first_all: "list_all Q xs \<Longrightarrow> (\<And>x. x \<in> set xs \<Longrightarrow> P x \<Longrightarrow> Q (f x)) \<Longrightarrow> list_all Q (upd_first P f xs)"
  by (induction xs) auto

lemma map_filter_ids:
  assumes "\<And>i x. m i = Some x \<Longrightarrow> g x = i"
  shows "map g (List.map_filter m ids) = [i \<leftarrow> ids. m i \<noteq> None]"
proof (induction ids)
  case (Cons i ids)
  then show ?case using assms by (cases "m i") (simp_all add: List.map_filter_simps)
qed (simp add: List.map_filter_simps)

lemma reorder_ids: "map g (reorder g ids xs) = [i \<leftarrow> ids. i \<in> g ` set xs]"
proof -
  let ?m = "map_of (rev (map (\<lambda>x. (g x, x)) xs))"
  have "?m i \<noteq> None \<longleftrightarrow> i \<in> g ` set xs" for i
    unfolding map_of_eq_None_iff by (force simp: image_iff)
  moreover have "map g (List.map_filter ?m ids) = [i \<leftarrow> ids. ?m i \<noteq> None]"
    by (rule map_filter_ids) (auto dest: map_of_SomeD)
  ultimately show ?thesis by (simp add: reorder_def)
qed

lemma ids_ok_reorder: "ids_ok g xs \<Longrightarrow> distinct ids \<Longrightarrow> ids_ok g (reorder g ids xs)"
  by (auto simp: ids_ok_def reorder_ids)

lemma on_view_ok:
  assumes "dataview_ok d" "\<And>v. GetView viewID d = Some v \<Longrightarrow> view_ok v \<Longrightarrow> view_ok (f v) \<and> v_Id (f v) = v_Id v"
  shows "dataview_ok (fst (on_view viewID f d))"
proof (cases "GetView viewID d")
  case None
  then show ?thesis using assms(1) by (simp add: on_view_def)
next
  case (Some v)
  have v: "v \<in> set (dv_Views d)" "v_Id v = viewID" using Some find_id_Some by (force simp: GetView_def)+
  have dist: "distinct (map v_Id (dv_Views d))" and ok: "list_all view_ok (dv_Views d)"
    using assms(1) by (simp_all add: dataview_ok_def ids_ok_def)
  have only: "x = v" if "x \<in> set (dv_Views d)" "v_Id x = viewID" for x
    using that v dist by (metis distinct_map inj_onD)
  have fv: "view_ok (f v) \<and> v_Id (f v) = v_Id v" using assms(2) [OF Some] ok v(1) by (simp add: list_all_iff)
  have upd: "upd_first (\<lambda>v. v_Id v = viewID) f (dv_Views d) = map (\<lambda>x. if x = v then f v else x) (dv_Views d)"
    unfolding upd_first_distinct [OF dist] by (rule map_cong) (use only v(2) in \<open>metis+\<close>)
  have "map v_Id (map (\<lambda>x. if x = v then f v else x) (dv_Views d)) = map v_Id (dv_Views d)" using fv by simp
  then have "ids_ok v_Id (map (\<lambda>x. if x = v then f v else x) (dv_Views d))"
    using assms(1) by (simp only: dataview_ok_def ids_ok_def) simp
  moreover have "list_all view_ok (map (\<lambda>x. if x = v then f v else x) (dv_Views d))"
    using ok fv by (auto simp: list_all_iff)
  ultimately show ?thesis using assms(1) Some
    by (simp add: on_view_def change_view_def dataview_ok_def upd)
qed

lemma reset_ok: "dataview_ok d \<Longrightarrow> dataview_ok (resetObjectOrderForView viewId d)"
proof -
  have "map order_key (map (\<lambda>g. if oo_ViewId g = viewId then g\<lparr>oo_ObjectIds := []\<rparr> else g) gs) = map order_key gs" for gs
    by (auto simp: order_key_def)
  then show "dataview_ok d \<Longrightarrow> dataview_ok (resetObjectOrderForView viewId d)"
    by (auto simp: dataview_ok_def resetObjectOrderForView_def list_all_iff ids_ok_def simp del: map_map)
qed

lemma GetView_reset [simp]: "GetView i (resetObjectOrderForView viewId d) = GetView i d"
  by (simp add: GetView_def resetObjectOrderForView_def)

lemma df_Id_set [simp]: "df_Id (set_df_Format fm f) = df_Id f" "df_Id (set_df_Id i f) = i"
  by (cases f; simp)+

lemma setRelationFormat_Id [simp]: "df_Id (setRelationFormat d f) = df_Id f"
proof -
  have "df_Id (fold (\<lambda>l f. if rl_Key l = df_RelationKey f then set_df_Format (rl_Format l) f else f) ls f) = df_Id f" for ls
    by (induction ls arbitrary: f) auto
  then show ?thesis by (simp add: setRelationFormat_def)
qed

lemmas item_ok = view_ok_def ids_ok_filter ids_ok_snoc ids_ok_upd ids_ok_reorder Filter_s_def view_fresh_def

lemma AddFilter_ok:
  assumes "dataview_ok d" "view_fresh (\<lambda>v. map df_Id (v_Filters v)) viewID (if df_Id f = [] then gen else df_Id f) d"
  shows "dataview_ok (fst (AddFilter gen viewID f d))"
  unfolding AddFilter_def Let_def
  by (rule on_view_ok) (use assms in \<open>auto simp: reset_ok item_ok\<close>)

lemma AddSort_ok:
  assumes "dataview_ok d" "view_fresh (\<lambda>v. map ds_Id (v_Sorts v)) viewID (if ds_Id s = [] then gen else ds_Id s) d"
  shows "dataview_ok (fst (AddSort gen viewID s d))"
  unfolding AddSort_def
  by (rule on_view_ok) (use assms in \<open>auto simp: reset_ok item_ok\<close>)

lemma ReplaceFilter_ok:
  assumes "dataview_ok d" "view_has (\<lambda>v. map df_Id (v_Filters v)) viewID filterID d \<or>
    view_fresh (\<lambda>v. map df_Id (v_Filters v)) viewID (if df_Id f = [] then gen else df_Id f) d"
  shows "dataview_ok (fst (ReplaceFilter gen viewID filterID f d))"
proof (cases "GetView viewID d")
  case None
  then show ?thesis using reset_ok [OF assms(1)] by (simp add: ReplaceFilter_def Let_def)
next
  case (Some v)
  show ?thesis
  proof (cases "filterID \<in> set (map df_Id (v_Filters v))")
    case True
    have "dataview_ok (fst (on_view viewID (\<lambda>v. v\<lparr>v_Filters := upd_first (\<lambda>x. df_Id x = filterID)
        (\<lambda>_. setRelationFormat (resetObjectOrderForView viewID d) (set_df_Id filterID f)) (v_Filters v)\<rparr>) (resetObjectOrderForView viewID d)))"
      by (rule on_view_ok) (use assms(1) in \<open>auto simp: reset_ok item_ok\<close>)
    then show ?thesis using True Some by (auto simp: ReplaceFilter_def Let_def list_ex_iff)
  next
    case False
    have "dataview_ok (fst (AddFilter gen viewID f (resetObjectOrderForView viewID d)))"
      using assms False Some by (intro AddFilter_ok) (auto simp: reset_ok view_fresh_def view_has_def)
    then show ?thesis using False Some by (auto simp: ReplaceFilter_def Let_def list_ex_iff)
  qed
qed

text \<open>The new item has the id of the old one or an id that no item has.\<close>

lemma ids_ok_replace:
  assumes "ids_ok g xs" "g y = i \<or> g y \<notin> set (map g xs)" "g y \<noteq> []"
  shows "ids_ok g (upd_first (\<lambda>x. g x = i) (\<lambda>_. y) xs)"
proof -
  have sub: "set (map g (upd_first (\<lambda>x. g x = i) (\<lambda>_. y) zs)) \<subseteq> insert (g y) (set (map g zs))" for zs
    by (induction zs) auto
  have "distinct (map g (upd_first (\<lambda>x. g x = i) (\<lambda>_. y) zs))" if "distinct (map g zs)" "g y = i \<or> g y \<notin> set (map g zs)" for zs
    using that
  proof (induction zs)
    case (Cons z zs)
    then show ?case using sub [of zs] by auto
  qed simp
  then show ?thesis using assms sub [of xs] by (auto simp: ids_ok_def)
qed

lemma ReplaceSort_ok:
  assumes "dataview_ok d" "ds_Id s = i \<and> i \<noteq> [] \<or> view_fresh (\<lambda>v. map ds_Id (v_Sorts v)) viewID (ds_Id s) d"
  shows "dataview_ok (fst (ReplaceSort gen viewID i s d))"
proof (cases "GetView viewID d")
  case None
  then show ?thesis using reset_ok [OF assms(1)] by (simp add: ReplaceSort_def Let_def)
next
  case (Some v)
  have "dataview_ok (fst (on_view viewID (\<lambda>v. v\<lparr>v_Sorts := upd_first (\<lambda>x. ds_Id x = i) (\<lambda>_. s) (v_Sorts v)\<rparr>) (resetObjectOrderForView viewID d)))"
  proof (rule on_view_ok)
    fix x assume "GetView viewID (resetObjectOrderForView viewID d) = Some x" "view_ok x"
    then show "view_ok (x\<lparr>v_Sorts := upd_first (\<lambda>x. ds_Id x = i) (\<lambda>_. s) (v_Sorts x)\<rparr>) \<and>
        v_Id (x\<lparr>v_Sorts := upd_first (\<lambda>x. ds_Id x = i) (\<lambda>_. s) (v_Sorts x)\<rparr>) = v_Id x"
      using assms(2) ids_ok_replace [of ds_Id "v_Sorts x" s i] by (auto simp: view_ok_def view_fresh_def)
  qed (use assms(1) in \<open>simp add: reset_ok\<close>)
  moreover have "dataview_ok (fst (AddSort gen viewID s (resetObjectOrderForView viewID d)))"
    if "\<not> list_ex (\<lambda>x. ds_Id x = i) (v_Sorts v)"
    using assms that Some by (intro AddSort_ok) (auto simp: reset_ok view_fresh_def list_ex_iff)
  ultimately show ?thesis using Some by (simp add: ReplaceSort_def Let_def)
qed

lemma ReplaceViewRelation_ok:
  assumes "dataview_ok d" "dr_Key r = k \<and> k \<noteq> [] \<or> view_fresh (\<lambda>v. map dr_Key (v_Relations v)) viewID (dr_Key r) d"
  shows "dataview_ok (fst (ReplaceViewRelation viewID k r d))"
  unfolding ReplaceViewRelation_def
proof (rule on_view_ok [OF assms(1)])
  fix x assume x: "GetView viewID d = Some x" "view_ok x"
  let ?rs = "if list_ex (\<lambda>r. dr_Key r = k) (v_Relations x) then upd_first (\<lambda>r. dr_Key r = k) (\<lambda>_. r) (v_Relations x) else v_Relations x @ [r]"
  have "ids_ok dr_Key (v_Relations x)" using x(2) by (simp add: view_ok_def)
  then have "ids_ok dr_Key ?rs"
    using assms(2) x(1) ids_ok_replace [of dr_Key "v_Relations x" r k] by (auto simp: ids_ok_snoc view_fresh_def list_ex_iff)
  then show "view_ok (x\<lparr>v_Relations := ?rs\<rparr>) \<and> v_Id (x\<lparr>v_Relations := ?rs\<rparr>) = v_Id x"
    using x(2) by (simp add: view_ok_def)
qed

text \<open>The keys that a request leaves out follow in the order they have.\<close>

lemma add_missing:
  "fold (\<lambda>r ks. if g r \<notin> set ks then ks @ [g r] else ks) rs ks = ks @ [k \<leftarrow> map g rs. k \<notin> set ks]" if "distinct (map g rs)"
  using that
proof (induction rs arbitrary: ks)
  case (Cons r rs)
  have "[k \<leftarrow> map g rs. k \<noteq> g r \<and> k \<notin> set ks] = [k \<leftarrow> map g rs. k \<notin> set ks]"
    using Cons.prems by (intro filter_cong) (auto simp: image_iff)
  with Cons show ?case by simp
qed simp

lemma ReorderViewRelations_ok:
  assumes "dataview_ok d" "distinct ks"
  shows "dataview_ok (fst (ReorderViewRelations viewID ks d))"
  unfolding ReorderViewRelations_def Let_def
proof (rule on_view_ok [OF assms(1)])
  fix v assume "view_ok v"
  then have "distinct (map dr_Key (v_Relations v))" by (simp add: view_ok_def ids_ok_def)
  then have "distinct (fold (\<lambda>r ks. if dr_Key r \<notin> set ks then ks @ [dr_Key r] else ks) (v_Relations v) ks)"
    using assms(2) by (auto simp: add_missing)
  with \<open>view_ok v\<close> show "view_ok (v\<lparr>v_Relations := reorder dr_Key (fold (\<lambda>r ks. if dr_Key r \<notin> set ks then ks @ [dr_Key r] else ks) (v_Relations v) ks) (v_Relations v)\<rparr>) \<and>
      v_Id (v\<lparr>v_Relations := reorder dr_Key (fold (\<lambda>r ks. if dr_Key r \<notin> set ks then ks @ [dr_Key r] else ks) (v_Relations v) ks) (v_Relations v)\<rparr>) = v_Id v"
    by (simp add: item_ok)
qed

lemma removeByKeys_ok: "dataview_ok d \<Longrightarrow> dataview_ok (removeSortsAndFiltersByKeys ks d)"
proof -
  assume ok: "dataview_ok d"
  have "map v_Id (map (without_keys ks) (dv_Views d)) = map v_Id (dv_Views d)" by simp
  then have "ids_ok v_Id (map (without_keys ks) (dv_Views d))"
    using ok unfolding dataview_ok_def ids_ok_def by (simp only:) simp
  moreover have "list_all view_ok (map (without_keys ks) (dv_Views d))"
    using ok by (auto simp: dataview_ok_def list_all_iff without_keys_def view_ok_def ids_ok_filter)
  ultimately show "dataview_ok (removeSortsAndFiltersByKeys ks d)"
    using ok by (simp add: dataview_ok_def removeSortsAndFiltersByKeys_def)
qed

lemma links_ok: "dataview_ok (d\<lparr>dv_RelationLinks := links\<rparr>) = dataview_ok d"
  by (simp add: dataview_ok_def)

lemma AddRelation_ok: "dataview_ok d \<Longrightarrow> AddRelation l d = Inr d' \<Longrightarrow> dataview_ok d'"
  by (auto simp: AddRelation_def links_ok split: if_splits)

text \<open>Items with and without an id, the missing ones generated by position.\<close>

lemma generated_ids:
  assumes "new_ids gen (map g xs @ used)" "given_once g xs" "\<And>i x. g (up i x) = i"
  shows "ids_ok g (map (\<lambda>(n, x). if g x = [] then up (gen n) x else x) (List.enumerate k xs))"
proof -
  let ?F = "\<lambda>k xs. map (\<lambda>(n, x). if g x = [] then up (gen n) x else x) (List.enumerate k xs)"
  have gen: "inj gen" "gen n \<noteq> []" "gen n \<notin> g ` set xs" for n using assms(1) by (auto simp: new_ids_def)
  have "distinct (map g (?F k ys)) \<and> [] \<notin> set (map g (?F k ys)) \<and>
      set (map g (?F k ys)) \<subseteq> (g ` set ys - {[]}) \<union> gen ` {k..}"
    if "set ys \<subseteq> set xs" "given_once g ys" for k ys
    using that
  proof (induction ys arbitrary: k)
    case (Cons y ys)
    let ?i = "if g y = [] then gen k else g y"
    define L where "L = map g (?F (Suc k) ys)"
    have IH: "distinct L" "[] \<notin> set L"
      "set L \<subseteq> (g ` set ys - {[]}) \<union> gen ` {Suc k..}"
      using Cons.IH [of "Suc k"] Cons.prems by (simp_all add: L_def given_once_def split: if_splits)
    have eq: "map g (?F k (y # ys)) = ?i # L" using assms(3) by (simp add: L_def)
    have "gen k \<notin> g ` set ys" using gen(3) [of k] Cons.prems(1) by (meson image_mono list.set_intros(2) subset_eq subset_trans)
    moreover have "gen k \<notin> gen ` {Suc k..}" using gen(1) by (auto dest: injD)
    moreover have "g y \<notin> gen ` {Suc k..}" using gen(3) Cons.prems(1) by (metis image_eqI imageE list.set_intros(1) subsetD)
    moreover have "g y \<notin> g ` set ys" if "g y \<noteq> []" using Cons.prems(2) that by (auto simp: given_once_def)
    ultimately have i: "?i \<notin> set L" using IH(3) by (auto split: if_splits)
    have ne: "?i \<noteq> []" using gen(2) by simp
    have "insert ?i ((g ` set ys - {[]}) \<union> gen ` {Suc k..}) \<subseteq> (g ` set (y # ys) - {[]}) \<union> gen ` {k..}"
      using gen(2) by auto
    then have sub: "insert ?i (set L) \<subseteq> (g ` set (y # ys) - {[]}) \<union> gen ` {k..}" using IH(3) by (meson insert_mono subset_trans)
    show ?case unfolding eq distinct.simps list.set(2) using i ne sub IH(1,2) by (simp only: insert_iff) simp
  qed simp
  then show ?thesis using assms(2) unfolding ids_ok_def by blast
qed

lemma AddView_keeps:
  assumes "dataview_ok d" "new_ids gen (map v_Id (dv_Views d) @ map df_Id (v_Filters view) @ map ds_Id (v_Sorts view))"
    "v_Id view \<notin> set (map v_Id (dv_Views d))" "given_once df_Id (v_Filters view)" "given_once ds_Id (v_Sorts view)"
    "ids_ok dr_Key (v_Relations view)"
  shows "dataview_ok (AddView gen view d)"
proof -
  have new: "new_ids gen (map df_Id (v_Filters view) @ [])" "new_ids gen (map ds_Id (v_Sorts view) @ [])"
    using assms(2) by (auto simp: new_ids_def)
  note filters = generated_ids [OF new(1) assms(4), of set_df_Id 1, OF df_Id_set(2)]
  have sorts: "ids_ok ds_Id (map (\<lambda>(n, s). if ds_Id s = [] then s\<lparr>ds_Id := gen n\<rparr> else s) (List.enumerate k (v_Sorts view)))" for k
    using generated_ids [OF new(2) assms(5), of "\<lambda>i s. s\<lparr>ds_Id := i\<rparr>" k] by simp
  have "gen 0 \<noteq> []" "gen 0 \<notin> set (map v_Id (dv_Views d))" using assms(2) by (auto simp: new_ids_def)
  then show ?thesis
    using assms(1,3,6) filters sorts by (auto simp: AddView_def Let_def dataview_ok_def ids_ok_snoc view_ok_def)
qed

lemma set_fields_parts [simp]: "v_Id (set_fields w v) = v_Id v" "v_Filters (set_fields w v) = v_Filters v"
  "v_Sorts (set_fields w v) = v_Sorts v" "v_Relations (set_fields w v) = v_Relations v"
  by (simp_all add: set_fields_def)

lemma SetView_ok: "dataview_ok d \<Longrightarrow> view_ok view \<Longrightarrow> SetView i view d = Inr d' \<Longrightarrow> dataview_ok d'"
  using on_view_ok [of d i "\<lambda>v. set_fields view (v\<lparr>v_Relations := v_Relations view, v_Sorts := v_Sorts view, v_Filters := v_Filters view\<rparr>)"]
  by (auto simp: SetView_def on_view_def view_ok_def split: if_splits)

lemma SetViewFields_ok: "dataview_ok d \<Longrightarrow> SetViewFields i view d = Inr d' \<Longrightarrow> dataview_ok d'"
  using on_view_ok [of d i "set_fields view"] by (auto simp: SetViewFields_def on_view_def view_ok_def split: if_splits)

lemma set_object_order_ok:
  assumes "dataview_ok d" "ids_ok (\<lambda>x. x) (oo_ObjectIds r)"
  shows "dataview_ok (set_object_order r d)"
proof -
  let ?same = "same_order_key (oo_ViewId r) (oo_GroupId r)"
  let ?gs = "upd_first ?same (\<lambda>g. g\<lparr>oo_ObjectIds := oo_ObjectIds r\<rparr>) (dv_ObjectOrders d)"
  have "map order_key ?gs = map order_key (dv_ObjectOrders d)" by (rule upd_first_ids) (simp add: order_key_def)
  moreover have "list_all (\<lambda>g. ids_ok (\<lambda>x. x) (oo_ObjectIds g)) ?gs"
    using assms by (intro upd_first_all) (simp_all add: dataview_ok_def)
  moreover have "order_key r \<notin> set (map order_key (dv_ObjectOrders d))" if "\<not> list_ex ?same (dv_ObjectOrders d)"
    using that by (auto simp: list_ex_iff same_order_key_def order_key_def)
  ultimately show ?thesis using assms by (auto simp: set_object_order_def Let_def dataview_ok_def)
qed

lemma SetViewObjectOrder_ok: "dataview_ok d \<Longrightarrow> \<forall>r\<in>set orders. ids_ok (\<lambda>x. x) (oo_ObjectIds r) \<Longrightarrow> dataview_ok (SetViewObjectOrder orders d)"
  unfolding SetViewObjectOrder_def by (induction orders arbitrary: d) (auto simp: set_object_order_ok)

lemma remove_view_sub:
  "remove_view i vs = Some ws \<Longrightarrow> set ws \<subseteq> set vs \<and> (distinct (map v_Id vs) \<longrightarrow> distinct (map v_Id ws))"
  by (induction vs arbitrary: ws) (auto split: if_splits simp: image_iff subset_iff)

lemma DeleteView_ok: "dataview_ok d \<Longrightarrow> DeleteView i d = Inr d' \<Longrightarrow> dataview_ok d'"
  by (auto simp: DeleteView_def dataview_ok_def ids_ok_def list_all_iff dest!: remove_view_sub split: option.splits)

lemma SetViewOrder_ok:
  assumes "dataview_ok d" "distinct ids"
  shows "dataview_ok (SetViewOrder ids d)"
proof -
  let ?l = "List.map_filter (\<lambda>i. GetView i d) ids" and ?r = "[v \<leftarrow> dv_Views d. FindPos ids (v_Id v) = -1]"
  have ids: "map v_Id ?l = [i \<leftarrow> ids. GetView i d \<noteq> None]"
    by (rule map_filter_ids) (auto simp: GetView_def dest: find_id_Some)
  have l: "set ?l \<subseteq> set (dv_Views d)"
    by (auto simp: List.map_filter_def GetView_def intro: find_id_Some [THEN conjunct1])
  have r: "v \<in> set ?r \<Longrightarrow> v_Id v \<notin> set ids" for v by (auto simp: FindPos_neg)
  have "distinct (map v_Id (?l @ ?r))"
    using assms r unfolding map_append ids by (auto simp: dataview_ok_def ids_ok_def distinct_map_filter)
  then show ?thesis using assms(1) l by (auto simp: SetViewOrder_def dataview_ok_def ids_ok_def list_all_iff)
qed

lemma SetViewGroupOrder_ok: "dataview_ok d \<Longrightarrow> dataview_ok (SetViewGroupOrder g d)"
  by (auto simp: dataview_ok_def SetViewGroupOrder_def Let_def upd_first_ids list_ex_iff)

definition moved_ids :: "string \<Rightarrow> string list \<Rightarrow> string list \<Rightarrow> string list" where
  "moved_ids afterId objectIds ids =
     (let rest = [x \<leftarrow> ids. x \<notin> set objectIds]; n = nat (FindPos rest afterId + 1) in take n rest @ objectIds @ drop n rest)"

lemma moved_ids_mset: "mset (moved_ids af objs ids) = mset objs + mset [x \<leftarrow> ids. x \<notin> set objs]"
proof -
  have "mset (take n xs) + mset (drop n xs) = mset xs" for n and xs :: "string list"
    by (metis append_take_drop_id mset_append)
  from this [of _ "[x \<leftarrow> ids. x \<notin> set objs]"] show ?thesis by (simp add: moved_ids_def Let_def)
qed

lemma moved_ids_ok: "ids_ok (\<lambda>x. x) objs \<Longrightarrow> ids_ok (\<lambda>x. x) ids \<Longrightarrow> ids_ok (\<lambda>x. x) (moved_ids af objs ids)"
proof -
  assume ok: "ids_ok (\<lambda>x. x) objs" "ids_ok (\<lambda>x. x) ids"
  have "mset (moved_ids af objs ids) = mset (objs @ [x \<leftarrow> ids. x \<notin> set objs])" by (simp add: moved_ids_mset)
  moreover have "distinct (objs @ [x \<leftarrow> ids. x \<notin> set objs])" "[] \<notin> set (objs @ [x \<leftarrow> ids. x \<notin> set objs])"
    using ok by (auto simp: ids_ok_def)
  ultimately show ?thesis unfolding ids_ok_def list.map_ident by (metis mset_eq_imp_distinct_iff mset_eq_setD)
qed

lemma MoveObjectsInView_moved:
  "MoveObjectsInView viewId groupId af objs d =
     (let same = same_order_key viewId groupId
      in if list_ex same (dv_ObjectOrders d)
         then Inr (d\<lparr>dv_ObjectOrders := upd_first same (\<lambda>g. g\<lparr>oo_ObjectIds := moved_ids af objs (oo_ObjectIds g)\<rparr>) (dv_ObjectOrders d)\<rparr>)
         else Inl ErrOrderNotFound)"
proof -
  have "0 \<le> FindPos ids af + 1" for ids :: "string list" 
    using FindPos_neg [of ids af] FindPos_none [of ids af] by linarith
  then show ?thesis by (simp add: MoveObjectsInView_def moved_ids_def Let_def)
qed

lemma MoveObjectsInView_ok:
  assumes "dataview_ok d" "ids_ok (\<lambda>x. x) objs" "MoveObjectsInView viewId groupId af objs d = Inr d'"
  shows "dataview_ok d'"
proof -
  let ?gs = "upd_first (same_order_key viewId groupId) (\<lambda>g. g\<lparr>oo_ObjectIds := moved_ids af objs (oo_ObjectIds g)\<rparr>) (dv_ObjectOrders d)"
  have "list_all (\<lambda>g. ids_ok (\<lambda>x. x) (oo_ObjectIds g)) ?gs"
    using assms(1,2) by (intro upd_first_all) (simp_all add: dataview_ok_def list_all_iff moved_ids_ok)
  moreover have "map order_key ?gs = map order_key (dv_ObjectOrders d)" by (rule upd_first_ids) (simp add: order_key_def)
  ultimately show ?thesis using assms(1,3) by (auto simp: MoveObjectsInView_moved Let_def dataview_ok_def split: if_splits)
qed

lemma item_step_ok: "item_step d d' \<Longrightarrow> dataview_ok d \<Longrightarrow> dataview_ok d'"
proof (induction rule: item_step.induct)
  case (remove_filters d viewID ids)
  then show ?case by (auto simp: RemoveFilters_def reset_ok item_ok intro!: on_view_ok)
next
  case (reorder_filters ids d viewID)
  then show ?case by (auto simp: ReorderFilters_def item_ok intro!: on_view_ok)
next
  case (remove_sorts d viewID ids)
  then show ?case by (auto simp: RemoveSorts_def reset_ok item_ok intro!: on_view_ok)
next
  case (reorder_sorts ids d viewID)
  then show ?case by (auto simp: ReorderSorts_def reset_ok item_ok intro!: on_view_ok)
next
  case (remove_relations d viewID ks)
  then show ?case by (auto simp: RemoveViewRelations_def item_ok intro!: on_view_ok)
next
  case (delete_relations d ks)
  then show ?case by (simp add: DeleteRelations_def removeByKeys_ok links_ok)
next
  case (set_relations d links)
  then show ?case by (simp add: SetRelations_def removeByKeys_ok links_ok Let_def)
next
  case (add_relation relation d viewID)
  then show ?case by (simp add: AddViewRelation_def ReplaceViewRelation_ok)
qed (blast intro: AddFilter_ok AddSort_ok ReplaceFilter_ok ReplaceSort_ok ReplaceViewRelation_ok ReorderViewRelations_ok
    AddRelation_ok AddView_keeps SetView_ok SetViewFields_ok SetViewObjectOrder_ok DeleteView_ok SetViewOrder_ok SetViewGroupOrder_ok MoveObjectsInView_ok)+

text \<open>C13: no sequence of the editor's operations on a dataview block (views added, changed, replaced, deleted and ordered; filters, sorts and
  relations added, replaced, removed and reordered; relation links; group orders and object orders) makes ids of views, filters, sorts,
  relations or ordered objects empty or ambiguous, as long as the callers keep the guards of the steps: ids of new items are generated or
  not in use, a sort or relation that replaces another one has its id or a new one, a view that is set brings items with distinct ids, and a request names
  each item once. Messages applied to a block are not steps.\<close>

theorem item_steps_ok:
  assumes "item_step\<^sup>*\<^sup>* d d'" "dataview_ok d"
  shows "dataview_ok d'"
  using assms(1) by (induction rule: rtranclp_induct) (use assms(2) item_step_ok in blast)+

theorem item_steps_ok_witness:
  "dataview_ok (fst (ReorderFilters ''v'' [''n'', ''f''] (fst (AddFilter ''n'' ''v'' (plain_filter [] ''name'') old_block))))"
proof -
  let ?d = "fst (AddFilter ''n'' ''v'' (plain_filter [] ''name'') old_block)"
  have "item_step old_block ?d"
    by (rule item_step.add_filter) (simp add: view_fresh_def GetView_def old_block_def plain_view_def plain_filter_def)
  moreover have "item_step ?d (fst (ReorderFilters ''v'' [''n'', ''f''] ?d))" by (rule item_step.reorder_filters) simp
  ultimately have "item_step\<^sup>*\<^sup>* old_block (fst (ReorderFilters ''v'' [''n'', ''f''] ?d))" by (simp add: rtranclp.rtrancl_into_rtrancl)
  from item_steps_ok [OF this] show ?thesis
    by (simp add: dataview_ok_def old_block_def ids_ok_def view_ok_def plain_view_def plain_filter_def order_key_def)
qed

text \<open>Replacing a filter keeps its id, replacing a sort does not: a request without an id leaves a sort without id.\<close>

definition plain_sort :: "string \<Rightarrow> DvSort" where
  "plain_sort i = \<lparr>ds_RelationKey = ''name'', ds_Type = Sort_Asc, ds_CustomOrder = [], ds_Format = Format_shorttext,
     ds_IncludeTime = False, ds_Id = i, ds_EmptyPlacement = Empty_NotSpecified, ds_NoCollate = False\<rparr>"

lemma replaced_sort_id:
  "map (map ds_Id \<circ> v_Sorts) (dv_Views (fst (ReplaceSort ''n'' ''v'' ''s'' (plain_sort [])
     (fst (AddSort ''n'' ''v'' (plain_sort ''s'') old_block))))) = [[[]]]"
  "map (map df_Id \<circ> v_Filters) (dv_Views (fst (ReplaceFilter ''n'' ''v'' ''f'' (plain_filter [] ''name'') old_block))) = [[''f'', ''g'']]"
  by code_simp+

lemma GetView_on_view:
  assumes "GetView i d = Some v" "\<And>x. v_Id (f x) = v_Id x"
  shows "GetView i (fst (on_view i f d)) = Some (f v)" "snd (on_view i f d) = None"
  using assms by (simp_all add: on_view_def change_view_def GetView_def find_upd_first)

lemma reorder_mset:
  assumes "distinct (map g xs)" "distinct ids" "g ` set xs \<subseteq> set ids"
  shows "mset (reorder g ids xs) = mset xs"
proof -
  have ids: "g ` set (reorder g ids xs) = g ` set xs"
    using assms(3) arg_cong [OF reorder_ids [of g ids xs], of set] by auto
  have "x \<in> set xs" if "map_of (rev (map (\<lambda>x. (g x, x)) xs)) i = Some x" for i x
    using map_of_SomeD [OF that] by auto
  then have sub: "set (reorder g ids xs) \<subseteq> set xs" by (auto simp: reorder_def List.map_filter_def)
  have "x \<in> set (reorder g ids xs)" if "x \<in> set xs" for x
  proof -
    have "g x \<in> g ` set (reorder g ids xs)" using that ids by simp
    then obtain y where "y \<in> set (reorder g ids xs)" "g y = g x" by auto
    moreover have "y = x" using calculation sub that assms(1) by (metis distinct_map inj_onD subsetD)
    ultimately show ?thesis by simp
  qed
  with sub have "set (reorder g ids xs) = set xs" by blast
  moreover have "distinct (map g (reorder g ids xs))" using assms(2) by (simp add: reorder_ids)
  ultimately show ?thesis using assms(1) by (simp add: set_eq_iff_mset_eq_distinct distinct_map)
qed

text \<open>\<open>ReorderViewRelations\<close> loses no relation: the relations that the request names come first in its
  order, and those that it leaves out follow in the order they had. Unknown keys are ignored.\<close>

lemma ReorderViewRelations_complete:
  assumes v: "GetView viewID d = Some v" and dist: "distinct (map dr_Key (v_Relations v))" "distinct ks"
  shows "\<exists>w. GetView viewID (fst (ReorderViewRelations viewID ks d)) = Some w \<and>
     map dr_Key (v_Relations w) = [k \<leftarrow> ks. k \<in> dr_Key ` set (v_Relations v)] @ [k \<leftarrow> map dr_Key (v_Relations v). k \<notin> set ks] \<and>
     mset (v_Relations w) = mset (v_Relations v) \<and> snd (ReorderViewRelations viewID ks d) = None"
proof -
  let ?ks = "ks @ [k \<leftarrow> map dr_Key (v_Relations v). k \<notin> set ks]"
  have "[k \<leftarrow> [k \<leftarrow> map dr_Key (v_Relations v). k \<notin> set ks]. k \<in> dr_Key ` set (v_Relations v)] = [k \<leftarrow> map dr_Key (v_Relations v). k \<notin> set ks]"
    unfolding filter_filter by (intro filter_cong) auto
  moreover have "mset (reorder dr_Key ?ks (v_Relations v)) = mset (v_Relations v)"
    using dist by (intro reorder_mset) auto
  ultimately show ?thesis
    using GetView_on_view [OF v, of "\<lambda>v. v\<lparr>v_Relations := reorder dr_Key (fold (\<lambda>r ks. if dr_Key r \<notin> set ks then ks @ [dr_Key r] else ks) (v_Relations v) ks) (v_Relations v)\<rparr>"]
      add_missing [OF dist(1), of ks]
    by (simp add: ReorderViewRelations_def Let_def reorder_ids)
qed

definition plain_relation :: "string \<Rightarrow> DvRelation" where
  "plain_relation k = \<lparr>dr_Key = k, dr_IsVisible = True, dr_Width = 0, dr_DateIncludeTime = False, dr_TimeFormat = 0,
     dr_DateFormat = 0, dr_Formula = 0, dr_Align = 0\<rparr>"

lemma ReorderViewRelations_complete_example:
  "\<exists>w. GetView ''v'' (fst (ReorderViewRelations ''v'' [''c'', ''x'', ''a'']
     (old_block\<lparr>dv_Views := [(plain_view ''v'' [])\<lparr>v_Relations := map plain_relation [''a'', ''b'', ''c'', ''d'']\<rparr>]\<rparr>))) = Some w \<and>
     map dr_Key (v_Relations w) = [''c'', ''a'', ''b'', ''d'']"
proof -
  let ?v = "(plain_view ''v'' [])\<lparr>v_Relations := map plain_relation [''a'', ''b'', ''c'', ''d'']\<rparr>"
  have "GetView ''v'' (old_block\<lparr>dv_Views := [?v]\<rparr>) = Some ?v" by (simp add: GetView_def plain_view_def)
  from ReorderViewRelations_complete [OF this, of "[''c'', ''x'', ''a'']"] show ?thesis
    by (auto simp: plain_relation_def)
qed

end
