(* ===== verification/BlockEvents.thy ===== *)
theory BlockEvents
  imports TextBlock
begin

section \<open>Events of blocks (core/block/editor/state/event.go)\<close>

text \<open>
  \<open>State.applyEvent\<close> finds the block that a message names and hands the message to it. The state is
  the map of its blocks. The messages of dataview blocks are not modelled here. The property of this
  theory ties it to \<open>Diff\<close>: the messages computed from two versions of a block, replayed on the old
  version, produce the new one.
\<close>

subsection \<open>Text contents keep the contract\<close>

definition Text_carry :: "(text_mark list \<Rightarrow> text_mark list) \<Rightarrow> BlockContentText \<Rightarrow> BlockContentText \<Rightarrow> BlockContentText" where
  "Text_carry srt old new =
     old\<lparr>tText := tText new, tStyle := tStyle new, tChecked := tChecked new,
       tMarks := (case marksEq srt (tMarks old) (tMarks new) of (same, _, nm) \<Rightarrow> if same then tMarks old else nm),
       tColor := tColor new, tIconImage := tIconImage new, tIconEmoji := tIconEmoji new\<rparr>"

definition idem :: "('a \<Rightarrow> 'a) \<Rightarrow> bool" where
  "idem f \<longleftrightarrow> (\<forall>x. f (f x) = f x)"

lemma markEq_eq [simp]: "markEq a b \<longleftrightarrow> a = b"
  by (cases a; cases b) (auto simp: markEq_def)

lemma marksEq_conv:
  "marksEq srt xs ys = (if length xs \<noteq> length ys then (False, xs, ys) else (srt xs = srt ys, srt xs, srt ys))"
proof -
  have "markEq = (=)" by (intro ext) simp
  then show ?thesis by (simp add: marksEq_def list.rel_eq)
qed

interpretation text_blk: diff_apply "Text_changes srt i" Text_ApplyEvent "Text_carry srt"
    "\<lambda>a b. length (srt (tMarks b)) = length (tMarks b) \<and> idem srt" for srt i
proof (unfold_locales, goal_cases)
  case (1 a b)
  then show ?case
    by (cases a; cases b) (auto simp: Text_changes_def Text_carry_def Let_def split: if_splits prod.splits)
next
  case (2 a b e)
  obtain same om nm where q: "marksEq srt (tMarks a) (tMarks b) = (same, om, nm)" by (metis prod_cases3)
  have m: "set_opt (if \<not> same then Some nm else None) (\<lambda>v c. c\<lparr>tMarks := v\<rparr>) c = c\<lparr>tMarks := if same then tMarks c else nm\<rparr>" for c
    by (simp add: set_opt_def)
  note e = 2(1) [unfolded Text_changes_def Let_def q prod.case if_Some_eq, THEN conjunct2]
  show ?case
    unfolding e Text_ApplyEvent_def Text_carry_def Let_def EventBlockSetText.simps m q prod.case
    by (cases a; cases b; hypsubst) (simp only: set_opt_changed BlockContentText.simps)
next
  case (3 a b)
  then show ?case
    by (auto simp: Text_changes_def Text_carry_def marksEq_conv idem_def Let_def)
qed

subsection \<open>Diff and events of any block\<close>

text \<open>The method call \<open>b.Diff(spaceId, other)\<close>, dispatched by the type of the block.\<close>

definition Block_Diff :: "(text_mark list \<Rightarrow> text_mark list) \<Rightarrow> (fields \<Rightarrow> fields \<Rightarrow> int) \<Rightarrow> string \<Rightarrow> Block \<Rightarrow> Block \<Rightarrow> diff_result" where
  "Block_Diff srt cmpS spaceId b other =
     (case Content b of
        CDiv c \<Rightarrow> Div_Diff cmpS spaceId b c other
      | CLink c \<Rightarrow> Link_Diff cmpS spaceId b c other
      | CBookmark c \<Rightarrow> Bookmark_Diff cmpS spaceId b c other
      | CFile c \<Rightarrow> File_Diff cmpS spaceId b c other
      | CLatex c \<Rightarrow> Latex_Diff cmpS spaceId b c other
      | CWidget c \<Rightarrow> Widget_Diff cmpS spaceId b c other
      | CRelation c \<Rightarrow> Relation_Diff cmpS spaceId b c other
      | CTableRow c \<Rightarrow> Row_Diff cmpS spaceId b c other
      | CText c \<Rightarrow> Text_Diff srt cmpS spaceId b c other
      | _ \<Rightarrow> Inr (Base_Diff cmpS spaceId b other))"

fun apply_to_block :: "event_value \<Rightarrow> Block \<Rightarrow> string + Block" where
  "apply_to_block (BlockSetChildrenIds _ _) b = Inr b"
| "apply_to_block (BlockSetRestrictions _ _) b = Inr b"
| "apply_to_block (BlockSetFields _ f) b = Inr (b\<lparr>Fields := f\<rparr>)"
| "apply_to_block (BlockSetBackgroundColor _ v) b = Inr (b\<lparr>BackgroundColor := v\<rparr>)"
| "apply_to_block (BlockSetAlign _ v) b = Inr (b\<lparr>Align := v\<rparr>)"
| "apply_to_block (BlockSetVerticalAlign _ v) b = Inr (b\<lparr>VerticalAlign := v\<rparr>)"
| "apply_to_block (BlockSetDiv e) b =
     (case Content b of CDiv c \<Rightarrow> Inr (b\<lparr>Content := CDiv (Div_ApplyEvent e c)\<rparr>) | _ \<Rightarrow> Inl ''not a div block'')"
| "apply_to_block (BlockSetLink e) b =
     (case Content b of CLink c \<Rightarrow> Inr (b\<lparr>Content := CLink (Link_ApplyEvent e c)\<rparr>) | _ \<Rightarrow> Inl ''not a link block'')"
| "apply_to_block (BlockSetBookmark e) b =
     (case Content b of CBookmark c \<Rightarrow> Inr (b\<lparr>Content := CBookmark (Bookmark_ApplyEvent e c)\<rparr>) | _ \<Rightarrow> Inl ''not a bookmark block'')"
| "apply_to_block (BlockSetFile e) b =
     (case Content b of CFile c \<Rightarrow> Inr (b\<lparr>Content := CFile (File_ApplyEvent e c)\<rparr>) | _ \<Rightarrow> Inl ''not a file block'')"
| "apply_to_block (BlockSetLatex e) b =
     (case Content b of CLatex c \<Rightarrow> Inr (b\<lparr>Content := CLatex (Latex_ApplyEvent e c)\<rparr>) | _ \<Rightarrow> Inl ''not an embed block'')"
| "apply_to_block (BlockSetWidget e) b =
     (case Content b of CWidget c \<Rightarrow> Inr (b\<lparr>Content := CWidget (Widget_ApplyEvent e c)\<rparr>) | _ \<Rightarrow> Inl ''not a widget block'')"
| "apply_to_block (BlockSetRelation e) b =
     (case Content b of CRelation c \<Rightarrow> Inr (b\<lparr>Content := CRelation (Relation_ApplyEvent e c)\<rparr>) | _ \<Rightarrow> Inl ''not a relation block'')"
| "apply_to_block (BlockSetTableRow e) b =
     (case Content b of CTableRow c \<Rightarrow> Inr (b\<lparr>Content := CTableRow (Row_ApplyEvent e c)\<rparr>) | _ \<Rightarrow> Inl ''not a table row block'')"
| "apply_to_block (BlockSetText e) b =
     (case Content b of CText c \<Rightarrow> Inr (b\<lparr>Content := CText (Text_ApplyEvent e c)\<rparr>) | _ \<Rightarrow> Inl ''not a text block'')"

definition block_not_found :: string where
  "block_not_found = ''can't apply change: block not found''"

definition applyEvent :: "(string \<times> Block) list \<Rightarrow> event_value \<Rightarrow> string + (string \<times> Block) list" where
  "applyEvent s ev =
     (case event_target ev of
        None \<Rightarrow> Inr s
      | Some i \<Rightarrow>
          (case map_of s i of
             None \<Rightarrow> Inl block_not_found
           | Some b \<Rightarrow> (case apply_to_block ev b of Inl err \<Rightarrow> Inl err | Inr b' \<Rightarrow> Inr (put i b' s))))"

fun applyEvents :: "(string \<times> Block) list \<Rightarrow> event_value list \<Rightarrow> string + (string \<times> Block) list" where
  "applyEvents s [] = Inr s"
| "applyEvents s (ev # evs) = (case applyEvent s ev of Inl err \<Rightarrow> Inl err | Inr s' \<Rightarrow> applyEvents s' evs)"

subsection \<open>Replaying a difference\<close>

text \<open>The content that a replay produces, and when it is promised.\<close>

definition content_carry :: "(text_mark list \<Rightarrow> text_mark list) \<Rightarrow> content \<Rightarrow> content \<Rightarrow> content" where
  "content_carry srt old new =
     (case old of
        CDiv a \<Rightarrow> (case new of CDiv b \<Rightarrow> CDiv (Div_carry a b) | _ \<Rightarrow> old)
      | CLink a \<Rightarrow> (case new of CLink b \<Rightarrow> CLink (Link_carry a b) | _ \<Rightarrow> old)
      | CBookmark a \<Rightarrow> (case new of CBookmark b \<Rightarrow> CBookmark (Bookmark_carry a b) | _ \<Rightarrow> old)
      | CFile a \<Rightarrow> (case new of CFile b \<Rightarrow> CFile (File_carry a b) | _ \<Rightarrow> old)
      | CLatex a \<Rightarrow> (case new of CLatex b \<Rightarrow> CLatex (Latex_carry a b) | _ \<Rightarrow> old)
      | CWidget a \<Rightarrow> (case new of CWidget b \<Rightarrow> CWidget (Widget_carry a b) | _ \<Rightarrow> old)
      | CRelation a \<Rightarrow> (case new of CRelation b \<Rightarrow> CRelation (Relation_carry a b) | _ \<Rightarrow> old)
      | CTableRow a \<Rightarrow> (case new of CTableRow b \<Rightarrow> CTableRow (Row_carry a b) | _ \<Rightarrow> old)
      | CText a \<Rightarrow> (case new of CText b \<Rightarrow> CText (Text_carry srt a b) | _ \<Rightarrow> old)
      | _ \<Rightarrow> old)"

definition content_ok :: "(text_mark list \<Rightarrow> text_mark list) \<Rightarrow> content \<Rightarrow> content \<Rightarrow> bool" where
  "content_ok srt old new =
     (case old of
        CFile a \<Rightarrow> (case new of CFile b \<Rightarrow> File_ok a b | _ \<Rightarrow> True)
      | CText a \<Rightarrow> (case new of CText b \<Rightarrow> length (srt (tMarks b)) = length (tMarks b) \<and> idem srt | _ \<Rightarrow> True)
      | _ \<Rightarrow> True)"

text \<open>The message about the content, if there is one.\<close>

definition content_event :: "(text_mark list \<Rightarrow> text_mark list) \<Rightarrow> string \<Rightarrow> content \<Rightarrow> content \<Rightarrow> event_value option" where
  "content_event srt i old new =
     (case old of
        CDiv a \<Rightarrow> (case new of CDiv b \<Rightarrow> map_option BlockSetDiv (Div_changes i a b) | _ \<Rightarrow> None)
      | CLink a \<Rightarrow> (case new of CLink b \<Rightarrow> map_option BlockSetLink (Link_changes i a b) | _ \<Rightarrow> None)
      | CBookmark a \<Rightarrow> (case new of CBookmark b \<Rightarrow> map_option BlockSetBookmark (Bookmark_changes i a b) | _ \<Rightarrow> None)
      | CFile a \<Rightarrow> (case new of CFile b \<Rightarrow> map_option BlockSetFile (File_changes i a b) | _ \<Rightarrow> None)
      | CLatex a \<Rightarrow> (case new of CLatex b \<Rightarrow> map_option BlockSetLatex (Latex_changes i a b) | _ \<Rightarrow> None)
      | CWidget a \<Rightarrow> (case new of CWidget b \<Rightarrow> map_option BlockSetWidget (Widget_changes i a b) | _ \<Rightarrow> None)
      | CRelation a \<Rightarrow> (case new of CRelation b \<Rightarrow> map_option BlockSetRelation (Relation_changes i a b) | _ \<Rightarrow> None)
      | CTableRow a \<Rightarrow> (case new of CTableRow b \<Rightarrow> map_option BlockSetTableRow (Row_changes i a b) | _ \<Rightarrow> None)
      | CText a \<Rightarrow> (case new of CText b \<Rightarrow> map_option BlockSetText (Text_changes srt i a b) | _ \<Rightarrow> None)
      | _ \<Rightarrow> None)"

lemma Block_Diff_messages:
  assumes "Block_Diff srt cmpS spaceId b other = Inr (msgs, b', other')"
  shows "msgs = fst (Base_Diff cmpS spaceId b other) @
    (case content_event srt (Id other) (Content b) (Content other) of Some e \<Rightarrow> [NewMessage spaceId e] | None \<Rightarrow> [])"
  using assms
  by (cases "Content b"; cases "Content other")
     (auto simp: content_event_def Block_Diff_def Div_Diff_def Link_Diff_def Bookmark_Diff_def File_Diff_def Latex_Diff_def Widget_Diff_def
        Relation_Diff_def Row_Diff_def Text_Diff_def with_changes_def split: prod.splits)

lemma changes_Id:
  "Div_changes i a1 b1 = Some e1 \<Longrightarrow> ediv_Id e1 = i" "Link_changes i a2 b2 = Some e2 \<Longrightarrow> elink_Id e2 = i"
  "Bookmark_changes i a3 b3 = Some e3 \<Longrightarrow> ebookmark_Id e3 = i" "File_changes i a4 b4 = Some e4 \<Longrightarrow> efile_Id e4 = i"
  "Latex_changes i a5 b5 = Some e5 \<Longrightarrow> elatex_Id e5 = i" "Widget_changes i a6 b6 = Some e6 \<Longrightarrow> ewidget_Id e6 = i"
  "Relation_changes i a7 b7 = Some e7 \<Longrightarrow> erelation_Id e7 = i" "Row_changes i a8 b8 = Some e8 \<Longrightarrow> erow_Id e8 = i"
  "Text_changes srt i a9 b9 = Some e9 \<Longrightarrow> etext_Id e9 = i"
  by (clarsimp simp: Div_changes_def Link_changes_def Bookmark_changes_def File_changes_def Latex_changes_def
      Widget_changes_def Relation_changes_def Row_changes_def Text_changes_def Let_def if_Some_eq split: prod.splits)+

lemma content_replay:
  assumes "content_ok srt (Content b) (Content other)"
  shows "case content_event srt i (Content b) (Content other) of
      None \<Rightarrow> content_carry srt (Content b) (Content other) = Content b
    | Some e \<Rightarrow> event_target e = Some i \<and> apply_to_block e b = Inr (b\<lparr>Content := content_carry srt (Content b) (Content other)\<rparr>)"
  using assms
  by (cases "Content b"; cases "Content other")
     (auto split: option.split dest: changes_Id
        simp: content_event_def content_carry_def content_ok_def div_blk.none div_blk.some link_blk.none link_blk.some bookmark_blk.none bookmark_blk.some file_blk.none file_blk.some
          latex_blk.none latex_blk.some widget_blk.none widget_blk.some relation_blk.none relation_blk.some
          row_blk.none row_blk.some text_blk.none text_blk.some)

fun apply_seq :: "event_value list \<Rightarrow> Block \<Rightarrow> string + Block" where
  "apply_seq [] b = Inr b"
| "apply_seq (ev # evs) b = (case apply_to_block ev b of Inl err \<Rightarrow> Inl err | Inr b' \<Rightarrow> apply_seq evs b')"

lemma apply_seq_append:
  "apply_seq (xs @ ys) b = (case apply_seq xs b of Inl err \<Rightarrow> Inl err | Inr b' \<Rightarrow> apply_seq ys b')"
  by (induction xs arbitrary: b) (auto split: sum.split)

lemma applyEvents_one:
  assumes "\<forall>ev\<in>set evs. event_target ev = None \<or> event_target ev = Some i" "apply_seq evs b = Inr b''" "map_of s i = Some b"
  shows "\<exists>s'. applyEvents s evs = Inr s' \<and> map_of s' = (map_of s)(i \<mapsto> b'')"
  using assms
proof (induction evs arbitrary: b s)
  case Nil
  then show ?case by (auto simp: fun_upd_idem)
next
  case (Cons ev evs)
  obtain b' where b': "apply_to_block ev b = Inr b'" "apply_seq evs b' = Inr b''"
    using Cons.prems(2) by (auto split: sum.splits)
  show ?case
  proof (cases "event_target ev")
    case None
    then have "b' = b" using b'(1) by (cases ev) auto
    with None Cons.IH [of b s] Cons.prems b' show ?thesis by (simp add: applyEvent_def)
  next
    case (Some j)
    with Cons.prems have "j = i" by auto
    have "\<exists>s'. applyEvents (put i b' s) evs = Inr s' \<and> map_of s' = (map_of (put i b' s))(i \<mapsto> b'')"
      using Cons.prems(1) b'(2) by (intro Cons.IH) auto
    then obtain s' where s': "applyEvents (put i b' s) evs = Inr s'" "map_of s' = (map_of (put i b' s))(i \<mapsto> b'')" by blast
    moreover have "applyEvent s ev = Inr (put i b' s)"
      using Some \<open>j = i\<close> Cons.prems(3) b'(1) by (simp add: applyEvent_def)
    ultimately show ?thesis by (simp add: fun_eq_iff)
  qed
qed

lemma Base_messages:
  assumes "\<And>f g. cmpS f g = 0 \<Longrightarrow> f = g"
  shows "apply_seq (map MsgValue (fst (Base_Diff cmpS spaceId b other))) b =
      Inr (b\<lparr>Fields := Fields other, BackgroundColor := BackgroundColor other, Align := Align other,
        VerticalAlign := VerticalAlign other\<rparr>)"
    and "\<forall>ev\<in>set (map MsgValue (fst (Base_Diff cmpS spaceId b other))). event_target ev = None \<or> event_target ev = Some (Id b)"
proof -
  have f: "apply_seq (if \<not> fieldsEq cmpS (Fields c) g then [BlockSetFields i g] else []) c = Inr (c\<lparr>Fields := g\<rparr>)" for c g i
    using assms by (auto simp: fieldsEq_def)
  have ign: "apply_seq (if P then [BlockSetChildrenIds i cs] else []) c = Inr c"
    "apply_seq (if P then [BlockSetRestrictions i r] else []) c = Inr c" for P i cs r c by simp_all
  have o: "apply_seq (if BackgroundColor c \<noteq> v then [BlockSetBackgroundColor i v] else []) c = Inr (c\<lparr>BackgroundColor := v\<rparr>)"
    "apply_seq (if Align c \<noteq> w then [BlockSetAlign i w] else []) c = Inr (c\<lparr>Align := w\<rparr>)"
    "apply_seq (if VerticalAlign c \<noteq> w then [BlockSetVerticalAlign i w] else []) c = Inr (c\<lparr>VerticalAlign := w\<rparr>)" for c v w i
    by auto
  have ms: "map MsgValue (if P then [NewMessage sp e] else []) = (if P then [e] else [])" for P sp e
    by (simp add: NewMessage_def)
  have "apply_seq (if BackgroundColor b \<noteq> v then [BlockSetBackgroundColor i v] else []) (b\<lparr>Fields := g\<rparr>) =
      Inr (b\<lparr>Fields := g, BackgroundColor := v\<rparr>)"
    "apply_seq (if Align b \<noteq> w then [BlockSetAlign i w] else []) (b\<lparr>Fields := g, BackgroundColor := v\<rparr>) =
      Inr (b\<lparr>Fields := g, BackgroundColor := v, Align := w\<rparr>)"
    "apply_seq (if VerticalAlign b \<noteq> x then [BlockSetVerticalAlign i x] else []) (b\<lparr>Fields := g, BackgroundColor := v, Align := w\<rparr>) =
      Inr (b\<lparr>Fields := g, BackgroundColor := v, Align := w, VerticalAlign := x\<rparr>)" for g v w x i
    using o(1) [of "b\<lparr>Fields := g\<rparr>"] o(2) [of "b\<lparr>Fields := g, BackgroundColor := v\<rparr>"]
      o(3) [of "b\<lparr>Fields := g, BackgroundColor := v, Align := w\<rparr>"] by simp_all
  then show "apply_seq (map MsgValue (fst (Base_Diff cmpS spaceId b other))) b =
      Inr (b\<lparr>Fields := Fields other, BackgroundColor := BackgroundColor other, Align := Align other,
        VerticalAlign := VerticalAlign other\<rparr>)"
    unfolding Base_Diff_def Let_def fst_conv map_append ms apply_seq_append by (simp only: f ign sum.case)
  show "\<forall>ev\<in>set (map MsgValue (fst (Base_Diff cmpS spaceId b other))). event_target ev = None \<or> event_target ev = Some (Id b)"
    unfolding Base_Diff_def Let_def fst_conv map_append ms by auto
qed

text \<open>C25: the messages that \<open>Diff\<close> computes for two versions of a block, replayed by \<open>applyEvent\<close> on a
  state that holds the old version, succeed, produce the new version's fields, colours, alignment and
  compared content, and leave all other blocks alone. Children and restrictions are not replayed by
  \<open>applyEvent\<close>. For file blocks the type must not be re-detected from the old MIME type, and
  for text blocks the sorting of marks is deterministic on sorted lists.\<close>

theorem Diff_applyEvent:
  assumes cmp: "\<forall>f g. cmpS f g = 0 \<longrightarrow> f = g"
    and d: "Block_Diff srt cmpS spaceId b other = Inr (msgs, b', other')" and "Id other = Id b"
    and s: "map_of s (Id b) = Some b" and ok: "content_ok srt (Content b) (Content other)"
  shows "\<exists>s' nb. applyEvents s (map MsgValue msgs) = Inr s' \<and> map_of s' = (map_of s)(Id b \<mapsto> nb) \<and>
    nb = b\<lparr>Fields := Fields other, BackgroundColor := BackgroundColor other, Align := Align other,
      VerticalAlign := VerticalAlign other, Content := content_carry srt (Content b) (Content other)\<rparr>"
proof -
  let ?b1 = "b\<lparr>Fields := Fields other, BackgroundColor := BackgroundColor other, Align := Align other, VerticalAlign := VerticalAlign other\<rparr>"
  let ?ev = "content_event srt (Id other) (Content b) (Content other)"
  define evs where "evs = (case ?ev of Some e \<Rightarrow> [e] | None \<Rightarrow> [])"
  have msgs: "map MsgValue msgs = map MsgValue (fst (Base_Diff cmpS spaceId b other)) @ evs"
    unfolding Block_Diff_messages [OF d] evs_def by (simp add: NewMessage_def split: option.split)
  have base: "apply_seq (map MsgValue (fst (Base_Diff cmpS spaceId b other))) b = Inr ?b1"
    "\<forall>ev\<in>set (map MsgValue (fst (Base_Diff cmpS spaceId b other))). event_target ev = None \<or> event_target ev = Some (Id b)"
    using Base_messages [of cmpS spaceId b other] cmp by blast+
  have "case ?ev of None \<Rightarrow> content_carry srt (Content b) (Content other) = Content b
    | Some e \<Rightarrow> event_target e = Some (Id b) \<and> apply_to_block e ?b1 = Inr (?b1\<lparr>Content := content_carry srt (Content b) (Content other)\<rparr>)"
    using content_replay [of srt ?b1 other "Id other"] ok \<open>Id other = Id b\<close> by (auto split: option.splits)
  then have c: "apply_seq evs ?b1 = Inr (?b1\<lparr>Content := content_carry srt (Content b) (Content other)\<rparr>)"
    "\<forall>ev\<in>set evs. event_target ev = None \<or> event_target ev = Some (Id b)"
    by (auto simp: evs_def split: option.splits)
  have "apply_seq (map MsgValue msgs) b = Inr (?b1\<lparr>Content := content_carry srt (Content b) (Content other)\<rparr>)"
    unfolding msgs apply_seq_append base(1) by (simp add: c(1))
  moreover have "\<forall>ev\<in>set (map MsgValue msgs). event_target ev = None \<or> event_target ev = Some (Id b)"
    unfolding msgs using base(2) c(2) by auto
  ultimately show ?thesis using applyEvents_one [of "map MsgValue msgs" "Id b" b _ s] s by auto
qed

text \<open>An example: the background and the style of a divider change.\<close>

definition div_block :: "string \<Rightarrow> int \<Rightarrow> Block" where
  "div_block bg st = \<lparr>Id = ''d'', ChildrenIds = [], Restrictions = None, Fields = [], BackgroundColor = bg, Align = 0,
     VerticalAlign = 0, Content = CDiv \<lparr>div_Style = st\<rparr>\<rparr>"

theorem Diff_applyEvent_witness:
  "\<exists>msgs b' o' s'. Block_Diff (\<lambda>ms. ms) (\<lambda>f g. if f = g then 0 else 1) ''space'' (div_block ''red'' 0) (div_block ''blue'' 1) =
       Inr (msgs, b', o') \<and> length msgs = 2 \<and>
     applyEvents [(''d'', div_block ''red'' 0)] (map MsgValue msgs) = Inr s' \<and> map_of s' ''d'' = Some (div_block ''blue'' 1)"
proof -
  let ?cmp = "\<lambda>f g :: fields. if f = g then 0 else (1 :: int)"
  obtain msgs b' o' where d: "Block_Diff (\<lambda>ms. ms) ?cmp ''space'' (div_block ''red'' 0) (div_block ''blue'' 1) = Inr (msgs, b', o')"
    "length msgs = 2"
    by (simp add: Block_Diff_def Div_Diff_def with_changes_def Base_Diff_def Div_changes_def div_block_def
        stringSlicesEq_def fieldsEq_def Let_def)
  have "\<exists>s' nb. applyEvents [(''d'', div_block ''red'' 0)] (map MsgValue msgs) = Inr s' \<and>
      map_of s' = (map_of [(''d'', div_block ''red'' 0)])(Id (div_block ''red'' 0) \<mapsto> nb) \<and>
      nb = (div_block ''red'' 0)\<lparr>Fields := Fields (div_block ''blue'' 1), BackgroundColor := BackgroundColor (div_block ''blue'' 1),
        Align := Align (div_block ''blue'' 1), VerticalAlign := VerticalAlign (div_block ''blue'' 1),
        Content := content_carry (\<lambda>ms. ms) (Content (div_block ''red'' 0)) (Content (div_block ''blue'' 1))\<rparr>"
    by (rule Diff_applyEvent [OF _ d(1)]) (simp_all add: div_block_def content_ok_def)
  with d show ?thesis by (auto simp: div_block_def content_carry_def Div_carry_def)
qed

text \<open>Replaying a difference of file blocks does not always give the new type: when the type
  becomes \<open>File\<close> and the MIME type changes too, the type is detected again from the old MIME type, here an
  image although the new block is a plain file.\<close>

definition file_content :: "file_type \<Rightarrow> string \<Rightarrow> BlockContentFile" where
  "file_content ty mime = \<lparr>file_Hash = ''h'', file_Name = ''doc'', file_Type = ty, file_Mime = mime, file_Size = 1, file_AddedAt = 0,
     file_TargetObjectId = [], file_State = 0, file_Style = 0\<rparr>"

lemma File_type_redetected:
  "file_Type (replay File_ApplyEvent (File_changes ''f'' (file_content FT_Image ''image/png'') (file_content FT_File ''text/plain''))
     (file_content FT_Image ''image/png'')) = FT_Image \<and>
   file_Mime (replay File_ApplyEvent (File_changes ''f'' (file_content FT_Image ''image/png'') (file_content FT_File ''text/plain''))
     (file_content FT_Image ''image/png'')) = ''text/plain''"
  by (simp add: replay_def File_changes_def File_ApplyEvent_def file_content_def changed_def set_opt_def Let_def
      DetectTypeByMIME_def filepath_Ext_def IsImage_def isImageFormatSupported_def)

end
