(* ===== verification/BlockState.thy ===== *)
theory BlockState
  imports SimpleBlocks
begin

section \<open>The editor state (core/block/editor/state/state.go, position.go)\<close>

text \<open>
  A \<open>State\<close> holds the blocks of an object that were read or changed in it and points to a parent
  state for the others. A receiver \<open>s\<close> is the nonempty list of the states from \<open>s\<close> to its last
  ancestor: the head is \<open>s\<close> itself, the tail is \<open>s.parent\<close>. The block maps are association lists,
  whose order is the order in which Go would range over the map. Blocks are values, so a block that
  the code reads with \<open>Get\<close> and changes through its pointer is written back to the head here.
  The block types of the model do not read details, so \<open>blockInit\<close> does nothing on them.

  Reachability from the root block is the specification of the walk \<open>Iterate\<close>, of the search for a
  parent and of \<open>Validate\<close>; the placement of blocks is the specification of \<open>InsertTo\<close>.
\<close>

subsection \<open>Data\<close>

datatype BlockPosition =
    Block_None | Block_Top | Block_Bottom | Block_Left | Block_Right | Block_Inner | Block_Replace | Block_InnerFirst

record Notification =
  ntf_Id :: string
  ntf_Status :: int
  ntf_Rest :: fields

record DeviceInfo =
  dev_Id :: string
  dev_Name :: string
  dev_AddDate :: int
  dev_Archived :: bool
  dev_IsConnected :: bool

datatype slice_update = SliceAdd string "string list" | SliceRemove "string list" | SliceMove string "string list" | SliceNone

text \<open>
  The contents of a change. The messages of \<open>BlockUpdate\<close> carry their values only, a nil value of \<open>DetailsSet\<close> is \<^term>\<open>PNil\<close>,
  and kinds that no function here produces have their name.
\<close>

datatype change_content =
    BlockMove string BlockPosition "string list"
  | BlockCreate string BlockPosition "Block list"
  | BlockRemove "string list"
  | BlockUpdate "event_value list"
  | DetailsSet string pval
  | DetailsUnset string
  | RelationAdd "(string \<times> int) list"
  | RelationRemove "string list"
  | ObjectTypeAdd string string
  | ObjectTypeRemove string string
  | StoreKeySet "string list" pval
  | StoreKeyUnset "string list"
  | StoreSliceUpdate string slice_update
  | OriginalCreatedTimestampSet int
  | SetFileInfoChange "(string \<times> (string \<times> string) list) option"
  | NotificationCreate Notification
  | NotificationUpdate string int
  | DeviceAdd DeviceInfo
  | DeviceUpdate string string
  | OtherChange string

record State =
  st_blocks :: "(string \<times> Block) list"
  st_rootId :: string
  st_uniqueKeyInternal :: string
  st_newIds :: "string list"
  st_changeId :: string
  st_changes :: "change_content list"
  st_fileInfo :: "string \<times> (string \<times> string) list"
  st_fileKeys :: "(string \<times> (string \<times> string) list) list"
  st_details :: "((string \<times> Value) list) option"
  st_localDetails :: "((string \<times> Value) list) option"
  st_relationLinks :: "((string \<times> int) list) option"
  st_notifications :: "((string \<times> Notification) list) option"
  st_deviceStore :: "((string \<times> DeviceInfo) list) option"
  st_migrationVersion :: int
  st_store :: "fields option"
  st_storeKeyRemoved :: "(string list) option"
  st_storeLastChangeIdByPath :: "((string \<times> string) list) option"
  st_objectTypeKeys :: "(string list) option"
  st_noObjectType :: bool
  st_changesStructureIgnoreIds :: "string list"
  st_originalCreatedTimestamp :: int

subsection \<open>Blocks of a state\<close>

fun Pick :: "State list \<Rightarrow> string \<Rightarrow> Block option" where
  "Pick [] i = None"
| "Pick (t # ts) i = (case map_of (st_blocks t) i of Some b \<Rightarrow> Some b | None \<Rightarrow> Pick ts i)"

text \<open>Writes a block into the head, \<open>s.blocks[id] = b\<close>.\<close>

fun put_block :: "string \<Rightarrow> Block \<Rightarrow> State list \<Rightarrow> State list" where
  "put_block i b (s # ps) = s\<lparr>st_blocks := put i b (st_blocks s)\<rparr> # ps"
| "put_block i b [] = []"

definition Exists :: "State list \<Rightarrow> string \<Rightarrow> bool" where
  "Exists ss i \<longleftrightarrow> Pick ss i \<noteq> None"

fun InState :: "State list \<Rightarrow> string \<Rightarrow> bool" where
  "InState (s # ps) i \<longleftrightarrow> map_of (st_blocks s) i \<noteq> None"
| "InState [] i \<longleftrightarrow> False"

definition PickOrigin :: "State list \<Rightarrow> string \<Rightarrow> Block option" where
  "PickOrigin ss i = Pick (tl ss) i"

definition Add_block :: "State list \<Rightarrow> Block \<Rightarrow> bool \<times> State list" where
  "Add_block ss b = (if Pick ss (Id b) = None then (True, put_block (Id b) b ss) else (False, ss))"

definition Set_block :: "State list \<Rightarrow> Block \<Rightarrow> State list" where
  "Set_block ss b = (if \<not> Exists ss (Id b) then snd (Add_block ss b) else put_block (Id b) b ss)"

text \<open>\<open>Get\<close> copies a block of an ancestor into the head.\<close>

fun Get_block :: "State list \<Rightarrow> string \<Rightarrow> Block option \<times> State list" where
  "Get_block (s # ps) i =
     (case map_of (st_blocks s) i of
        Some b \<Rightarrow> (Some b, s # ps)
      | None \<Rightarrow>
          (if ps \<noteq> []
           then (case Pick (s # ps) i of
                   Some b \<Rightarrow> (Some b, put_block i b (s # ps))
                 | None \<Rightarrow> (None, s # ps))
           else (None, s # ps)))"
| "Get_block [] i = (None, [])"

fun CleanupBlock :: "State list \<Rightarrow> string \<Rightarrow> bool \<times> State list" where
  "CleanupBlock [] i = (False, [])"
| "CleanupBlock (t # ts) i =
     (if map_of (st_blocks t) i \<noteq> None then (True, t\<lparr>st_blocks := del i (st_blocks t)\<rparr> # ts)
      else (case CleanupBlock ts i of (ok, ts') \<Rightarrow> (ok, t # ts')))"

text \<open>\<open>RootId\<close> looks for a block that is nobody's child when the id is not known, and keeps it.\<close>

fun RootId :: "State list \<Rightarrow> string \<times> State list" where
  "RootId (s # ps) =
     (if st_rootId s = [] then
        (let subIds = concat (map (\<lambda>kv. ChildrenIds (snd kv)) (st_blocks s));
             r = fold (\<lambda>kv r. if fst kv \<notin> set subIds then fst kv else r) (st_blocks s) (st_rootId s)
         in (r, s\<lparr>st_rootId := r\<rparr> # ps))
      else (st_rootId s, s # ps))"
| "RootId [] = ([], [])"

definition NewState :: "State list \<Rightarrow> State list" where
  "NewState ss =
     (case ss of [] \<Rightarrow> [] | s # ps \<Rightarrow>
       \<lparr>st_blocks = [], st_rootId = st_rootId s, st_uniqueKeyInternal = st_uniqueKeyInternal s, st_newIds = [], st_changeId = [],
        st_changes = [], st_fileInfo = st_fileInfo s, st_fileKeys = [], st_details = None, st_localDetails = None,
        st_relationLinks = None, st_notifications = None, st_deviceStore = None, st_migrationVersion = st_migrationVersion s, st_store = None,
        st_storeKeyRemoved = None, st_storeLastChangeIdByPath = None, st_objectTypeKeys = None, st_noObjectType = st_noObjectType s,
        st_changesStructureIgnoreIds = [], st_originalCreatedTimestamp = st_originalCreatedTimestamp s\<rparr> # ss)"

fun Details_of :: "State list \<Rightarrow> ((string \<times> Value) list) option" where
  "Details_of [] = None"
| "Details_of (s # ps) = (if st_details s = None \<and> ps \<noteq> [] then Details_of ps else st_details s)"

fun LocalDetails_of :: "State list \<Rightarrow> ((string \<times> Value) list) option" where
  "LocalDetails_of [] = None"
| "LocalDetails_of (s # ps) = (if st_localDetails s = None \<and> ps \<noteq> [] then LocalDetails_of ps else st_localDetails s)"

text \<open>
  \<open>intermediateApply\<close> writes a state into its parent: the blocks with \<open>Set\<close>, the other parts when they
  are present. The result is the parent. \<open>ApplyStateFastOne\<close> does this once, \<open>ApplyStateFast\<close> until
  the state has no parent.
\<close>

definition or_else :: "'a option \<Rightarrow> 'a option \<Rightarrow> 'a option" where
  "or_else a b = (case a of Some x \<Rightarrow> Some x | None \<Rightarrow> b)"

fun with_state :: "(State \<Rightarrow> State) \<Rightarrow> State list \<Rightarrow> State list" where
  "with_state f (p # ps) = f p # ps"
| "with_state f [] = []"

definition take_over :: "State \<Rightarrow> State \<Rightarrow> State" where
  "take_over s p = p\<lparr>
     st_changeId := (if st_changeId s \<noteq> [] then st_changeId s else st_changeId p),
     st_details := or_else (st_details s) (st_details p),
     st_localDetails := or_else (st_localDetails s) (st_localDetails p),
     st_relationLinks := or_else (st_relationLinks s) (st_relationLinks p),
     st_objectTypeKeys := or_else (st_objectTypeKeys s) (st_objectTypeKeys p),
     st_store := or_else (st_store s) (st_store p),
     st_storeLastChangeIdByPath := or_else (st_storeLastChangeIdByPath s) (st_storeLastChangeIdByPath p),
     st_fileKeys := (if st_fileKeys s \<noteq> [] then st_fileKeys p @ st_fileKeys s else st_fileKeys p),
     st_notifications := or_else (st_notifications s) (st_notifications p),
     st_changes := st_changes p @ st_changes s,
     st_fileInfo := st_fileInfo s\<rparr>"

fun intermediateApply :: "State list \<Rightarrow> State list" where
  "intermediateApply (s # ps) = with_state (take_over s) (fold (\<lambda>kb ps. Set_block ps (snd kb)) (st_blocks s) ps)"
| "intermediateApply [] = []"

definition ApplyStateFastOne :: "State list \<Rightarrow> State list" where
  "ApplyStateFastOne ss = (if tl ss \<noteq> [] then intermediateApply ss else ss)"

lemma length_with_state [simp]: "length (with_state f ss) = length ss"
  by (cases ss) auto

lemma length_put_block [simp]: "length (put_block i b ss) = length ss"
  by (cases ss) auto

lemma length_Set_block [simp]: "length (Set_block ss b) = length ss"
  by (simp add: Set_block_def Add_block_def)

lemma length_fold_Set [simp]: "length (fold (\<lambda>kb ps. Set_block ps (snd kb)) kbs ps) = length ps"
  by (induction kbs arbitrary: ps) auto

function ApplyStateFast :: "State list \<Rightarrow> State list" where
  "ApplyStateFast ss = (if tl ss \<noteq> [] then ApplyStateFast (intermediateApply ss) else ss)"
  by pat_completeness auto
termination
proof (relation "measure length")
  fix ss :: "State list" assume "tl ss \<noteq> []"
  then show "(intermediateApply ss, ss) \<in> measure length" by (cases ss) auto
qed simp

declare ApplyStateFast.simps [simp del]

subsection \<open>The walk over the tree\<close>

text \<open>
  \<open>Iterate\<close> calls \<open>f\<close> on the blocks in depth-first order until it returns false, and stops with an
  error at a block that is its own ancestor. The variables that \<open>f\<close> assigns are its first argument.
\<close>

definition all_ids :: "State list \<Rightarrow> string set" where
  "all_ids ss = (\<Union>s\<in>set ss. fst ` set (st_blocks s))"

lemma finite_all_ids [simp]: "finite (all_ids ss)"
  by (simp add: all_ids_def)

lemma Pick_all_ids: "Pick ss i = Some b \<Longrightarrow> i \<in> all_ids ss"
  by (induction ss) (force simp: all_ids_def split: option.splits dest!: map_of_SomeD)+

type_synonym cycle = "string list \<times> string"

function (sequential) iter :: "State list \<Rightarrow> ('a \<Rightarrow> Block \<Rightarrow> 'a \<times> bool) \<Rightarrow> string list \<Rightarrow> string \<Rightarrow> 'a \<Rightarrow> 'a \<times> bool \<times> cycle option"
  and iter_children :: "State list \<Rightarrow> ('a \<Rightarrow> Block \<Rightarrow> 'a \<times> bool) \<Rightarrow> string list \<Rightarrow> string list \<Rightarrow> 'a \<Rightarrow> 'a \<times> bool \<times> cycle option"
where
  "iter ss f parentIds i acc =
     (if FindPos parentIds i \<noteq> -1 then (acc, False, Some (parentIds, i))
      else (case Pick ss i of
              Some b \<Rightarrow>
                (case f acc b of (acc, isContinue) \<Rightarrow>
                   if \<not> isContinue then (acc, False, None)
                   else iter_children ss f (parentIds @ [i]) (ChildrenIds b) acc)
            | None \<Rightarrow> (acc, True, None)))"
| "iter_children ss f parentIds [] acc = (acc, True, None)"
| "iter_children ss f parentIds (cid # cids) acc =
     (case iter ss f parentIds cid acc of (acc, isContinue, err) \<Rightarrow>
        if \<not> isContinue \<or> err \<noteq> None then (acc, isContinue, err)
        else iter_children ss f parentIds cids acc)"
  by pat_completeness auto
termination
proof (relation "inv_image (less_than <*lex*> less_than)
    (\<lambda>p. case p of Inl (ss, f, path, i, acc) \<Rightarrow> (card (all_ids ss - set path), 0)
       | Inr (ss, f, path, cs, acc) \<Rightarrow> (card (all_ids ss - set path), Suc (length cs)))", goal_cases)
  case (2 ss f parentIds i acc b)
  then have "i \<in> all_ids ss" "i \<notin> set parentIds" by (auto dest: Pick_all_ids)
  then have "all_ids ss - set (parentIds @ [i]) \<subset> all_ids ss - set parentIds" by auto
  then show ?case by (simp add: psubset_card_mono)
qed auto

declare iter.simps [simp del]

definition Iterate :: "State list \<Rightarrow> ('a \<Rightarrow> Block \<Rightarrow> 'a \<times> bool) \<Rightarrow> 'a \<Rightarrow> 'a \<times> cycle option \<times> State list" where
  "Iterate ss f acc =
     (case RootId ss of (r, ss') \<Rightarrow> (case iter ss' f [] r acc of (acc', _, err) \<Rightarrow> (acc', err, ss')))"

definition parent_test :: "string \<Rightarrow> Block option \<Rightarrow> Block \<Rightarrow> Block option \<times> bool" where
  "parent_test i res b = (if FindPos (ChildrenIds b) i \<noteq> -1 then (Some b, False) else (res, True))"

definition PickParentOf :: "State list \<Rightarrow> string \<Rightarrow> Block option \<times> State list" where
  "PickParentOf ss i = (case Iterate ss (parent_test i) None of (res, _, ss') \<Rightarrow> (res, ss'))"

definition GetParentOf :: "State list \<Rightarrow> string \<Rightarrow> Block option \<times> State list" where
  "GetParentOf ss i = (case PickParentOf ss i of (Some p, ss') \<Rightarrow> Get_block ss' (Id p) | (None, ss') \<Rightarrow> (None, ss'))"

definition IsParentOf :: "State list \<Rightarrow> string \<Rightarrow> string \<Rightarrow> bool" where
  "IsParentOf ss parentId childId =
     (case Pick ss parentId of None \<Rightarrow> False | Some p \<Rightarrow> FindPos (ChildrenIds p) childId \<noteq> -1)"

text \<open>\<open>HasParent\<close> and \<open>IsChild\<close> climb from a block; on a cycle the climb does not end.\<close>

partial_function (option) climb :: "State list \<Rightarrow> string \<Rightarrow> string \<Rightarrow> (bool \<times> State list) option" where
  "climb ss i parentId =
     (case PickParentOf ss i of
        (None, ss') \<Rightarrow> Some (False, ss')
      | (Some p, ss') \<Rightarrow> if Id p = parentId then Some (True, ss') else climb ss' (Id p) parentId)"

definition HasParent :: "State list \<Rightarrow> string \<Rightarrow> string \<Rightarrow> (bool \<times> State list) option" where
  "HasParent ss i parentId = climb ss i parentId"

definition IsChild :: "State list \<Rightarrow> string \<Rightarrow> string \<Rightarrow> (bool \<times> State list) option" where
  "IsChild ss parentId childId = climb ss childId parentId"

text \<open>The two loops that collect blocks breadth-first; they do not end on a cycle either.\<close>

partial_function (option) blocks_loop :: "State list \<Rightarrow> string list \<Rightarrow> Block list \<Rightarrow> Block list option" where
  "blocks_loop ss ids acc =
     (case ids of
        [] \<Rightarrow> Some acc
      | next # rest \<Rightarrow>
          (case Pick ss next of
             Some b \<Rightarrow> blocks_loop ss (rest @ ChildrenIds b) (acc @ [b])
           | None \<Rightarrow> blocks_loop ss rest acc))"

definition Blocks :: "State list \<Rightarrow> (Block list \<times> State list) option" where
  "Blocks ss = (case RootId ss of (r, ss') \<Rightarrow> map_option (\<lambda>bs. (bs, ss')) (blocks_loop ss' [r] []))"

partial_function (option) descendants_loop :: "State list \<Rightarrow> string list \<Rightarrow> Block list \<Rightarrow> Block list option" where
  "descendants_loop ss queue children =
     (case queue of
        [] \<Rightarrow> Some children
      | i # queue \<Rightarrow>
          (case Pick ss i of
             None \<Rightarrow> descendants_loop ss queue children
           | Some cur \<Rightarrow>
               (let cids = [c \<leftarrow> ChildrenIds cur. Exists ss c]
                in descendants_loop ss (queue @ cids) (children @ map (\<lambda>c. the (Pick ss c)) cids))))"

definition Descendants :: "State list \<Rightarrow> string \<Rightarrow> Block list option" where
  "Descendants ss i = descendants_loop ss [i] []"

text \<open>
  \<open>SelectRoots\<close> marks the ids that are missing in the state or have an ancestor in the list; the loops
  run over positions. The root id that the inner calls remember is not part of the result.
\<close>

fun select_inner :: "State list \<Rightarrow> string list \<Rightarrow> nat \<Rightarrow> nat list \<Rightarrow> bool list \<Rightarrow> bool list option" where
  "select_inner ss ids i [] discarded = Some discarded"
| "select_inner ss ids i (j # js) discarded =
     (if i = j \<or> discarded ! j then select_inner ss ids i js discarded
      else (case IsChild ss (ids ! i) (ids ! j) of
              None \<Rightarrow> None
            | Some (isChild, _) \<Rightarrow> select_inner ss ids i js (if isChild then discarded[j := True] else discarded)))"

fun select_outer :: "State list \<Rightarrow> string list \<Rightarrow> nat list \<Rightarrow> bool list \<Rightarrow> bool list option" where
  "select_outer ss ids [] discarded = Some discarded"
| "select_outer ss ids (i # is) discarded =
     (if discarded ! i then select_outer ss ids is discarded
      else (let discarded = (if \<not> Exists ss (ids ! i) then discarded[i := True] else discarded)
            in case select_inner ss ids i [0..<length ids] discarded of
                 None \<Rightarrow> None
               | Some discarded \<Rightarrow> select_outer ss ids is discarded))"

definition SelectRoots :: "State list \<Rightarrow> string list \<Rightarrow> string list option" where
  "SelectRoots ss ids =
     map_option (\<lambda>discarded. [ids ! i. i \<leftarrow> [0..<length ids], \<not> discarded ! i])
       (select_outer ss ids [0..<length ids] (replicate (length ids) False))"

declare climb.simps [code] blocks_loop.simps [code] descendants_loop.simps [code]

subsection \<open>Validation\<close>

datatype validate_error = TwoChildren string string string | MissedBlock string string | CycleReference cycle

fun validate_children :: "State list \<Rightarrow> string \<Rightarrow> string list \<Rightarrow> (string \<times> string) list \<Rightarrow>
    (string \<times> string) list \<times> validate_error option" where
  "validate_children ss bid [] childrenIds = (childrenIds, None)"
| "validate_children ss bid (cid # cids) childrenIds =
     (case map_of childrenIds cid of
        Some parentId \<Rightarrow> (childrenIds, Some (TwoChildren cid parentId bid))
      | None \<Rightarrow>
          (let childrenIds' = put cid bid childrenIds
           in if \<not> Exists ss cid then (childrenIds', Some (MissedBlock cid bid))
              else validate_children ss bid cids childrenIds'))"

definition validate_block :: "State list \<Rightarrow> (string \<times> string) list \<times> validate_error option \<Rightarrow> Block \<Rightarrow>
    ((string \<times> string) list \<times> validate_error option) \<times> bool" where
  "validate_block ss acc b =
     (case validate_children ss (Id b) (ChildrenIds b) (fst acc) of
        (ch, None) \<Rightarrow> ((ch, snd acc), True) | (ch, Some e) \<Rightarrow> ((ch, Some e), False))"

definition Validate :: "State list \<Rightarrow> validate_error option \<times> State list" where
  "Validate ss =
     (case Iterate ss (validate_block ss) ([], None) of
        (acc, Some c, ss') \<Rightarrow> (Some (CycleReference c), ss')
      | (acc, None, ss') \<Rightarrow> (snd acc, ss'))"

subsection \<open>Lookup and update\<close>

lemma Pick_put_block [simp]: "ss \<noteq> [] \<Longrightarrow> Pick (put_block i b ss) = (Pick ss)(i \<mapsto> b)"
  by (cases ss) (auto simp: fun_eq_iff)

lemma put_block_Nil [simp]: "put_block i b ss = [] \<longleftrightarrow> ss = []"
  by (cases ss) auto

lemma tl_put_block [simp]: "tl (put_block i b ss) = tl ss"
  by (cases ss) auto

lemma Get_block_state [simp]:
  "Pick (snd (Get_block ss i)) = Pick ss"
  "tl (snd (Get_block ss i)) = tl ss" "snd (Get_block ss i) = [] \<longleftrightarrow> ss = []"
  by (cases ss; auto simp: fun_eq_iff split: option.splits)+

lemma Get_block_fst [simp]: "fst (Get_block ss i) = Pick ss i"
  by (cases ss) (auto split: option.splits)

lemma RootId_conv [simp]:
  "Pick (snd (RootId ss)) = Pick ss" "tl (snd (RootId ss)) = tl ss" "snd (RootId ss) = [] \<longleftrightarrow> ss = []"
  by (cases ss; auto simp: fun_eq_iff Let_def)+

lemma Exists_RootId [simp]: "Exists (snd (RootId ss)) = Exists ss"
  by (simp add: fun_eq_iff Exists_def)

subsection \<open>Applying a state to its parent\<close>

text \<open>What a reader of a state sees: the blocks and the details.\<close>

definition view :: "State list \<Rightarrow> (string \<Rightarrow> Block option) \<times> (string \<times> Value) list option \<times> (string \<times> Value) list option" where
  "view ss = (Pick ss, Details_of ss, LocalDetails_of ss)"

lemma Details_or_else:
  "Details_of (s # ps) = or_else (st_details s) (Details_of ps)"
  "LocalDetails_of (s # ps) = or_else (st_localDetails s) (LocalDetails_of ps)"
  by (cases ps; auto simp: or_else_def split: option.split)+

lemma or_else_assoc: "or_else (or_else a b) c = or_else a (or_else b c)"
  by (simp add: or_else_def split: option.split)

lemma Set_block_put: "ps \<noteq> [] \<Longrightarrow> Set_block ps b = put_block (Id b) b ps"
  by (simp add: Set_block_def Add_block_def Exists_def)

lemma fold_Set_put:
  assumes "ps \<noteq> []" "\<forall>(k, b)\<in>set kbs. Id b = k"
  shows "Pick (fold (\<lambda>kb ps. Set_block ps (snd kb)) kbs ps) = Pick ps ++ map_of (rev kbs)"
    and "Details_of (fold (\<lambda>kb ps. Set_block ps (snd kb)) kbs ps) = Details_of ps"
    and "LocalDetails_of (fold (\<lambda>kb ps. Set_block ps (snd kb)) kbs ps) = LocalDetails_of ps"
    and "tl (fold (\<lambda>kb ps. Set_block ps (snd kb)) kbs ps) = tl ps"
proof -
  have d: "Details_of (put_block i b ps) = Details_of ps" "LocalDetails_of (put_block i b ps) = LocalDetails_of ps" for i b ps
    by (cases ps; simp add: Details_or_else)+
  show "Pick (fold (\<lambda>kb ps. Set_block ps (snd kb)) kbs ps) = Pick ps ++ map_of (rev kbs)"
    "Details_of (fold (\<lambda>kb ps. Set_block ps (snd kb)) kbs ps) = Details_of ps"
    "LocalDetails_of (fold (\<lambda>kb ps. Set_block ps (snd kb)) kbs ps) = LocalDetails_of ps"
    "tl (fold (\<lambda>kb ps. Set_block ps (snd kb)) kbs ps) = tl ps"
    using assms by (induction kbs arbitrary: ps) (auto simp: Set_block_put d)
qed

lemma with_state_view:
  "Pick (with_state (take_over s) ps) = Pick ps"
  "ps \<noteq> [] \<Longrightarrow> Details_of (with_state (take_over s) ps) = or_else (st_details s) (Details_of ps)"
  "ps \<noteq> [] \<Longrightarrow> LocalDetails_of (with_state (take_over s) ps) = or_else (st_localDetails s) (LocalDetails_of ps)"
  by (cases ps; simp add: fun_eq_iff Details_or_else take_over_def or_else_assoc del: Details_of.simps LocalDetails_of.simps)+

text \<open>The blocks of every state of the chain are stored under their ids, each id once.\<close>

definition wf_state :: "State \<Rightarrow> bool" where
  "wf_state s \<longleftrightarrow> wf_map (st_blocks s) \<and> (\<forall>(k, b)\<in>set (st_blocks s). Id b = k)"

lemma set_put: "set (put k v m) \<subseteq> insert (k, v) (set m)"
  by (induction k v m rule: put.induct) auto

lemma wf_state_put_block: "list_all wf_state ps \<Longrightarrow> list_all wf_state (put_block (Id b) b ps)"
  using set_put by (cases ps) (fastforce simp: wf_state_def)+

lemma intermediateApply_view:
  assumes "wf_state s" "ps \<noteq> []"
  shows "view (intermediateApply (s # ps)) = view (s # ps)"
proof -
  have ids: "\<forall>(k, b)\<in>set (st_blocks s). Id b = k" using assms(1) by (simp add: wf_state_def)
  have "map_of (rev (st_blocks s)) = map_of (st_blocks s)" using assms(1) by (simp add: wf_state_def map_of_rev_wf)
  moreover have "fold (\<lambda>kb ps. Set_block ps (snd kb)) (st_blocks s) ps \<noteq> []"
    using assms(2) by (metis length_fold_Set length_0_conv)
  ultimately show ?thesis
    using fold_Set_put [OF assms(2) ids]
    by (simp add: view_def with_state_view Details_or_else map_add_def fun_eq_iff
        del: Details_of.simps LocalDetails_of.simps)
qed

lemma intermediateApply_wf:
  assumes "list_all wf_state (s # ps)"
  shows "list_all wf_state (intermediateApply (s # ps))"
proof -
  have "list_all wf_state (Set_block ps b)" if "list_all wf_state ps" for ps b
    using that wf_state_put_block by (auto simp: Set_block_def Add_block_def)
  then have "list_all wf_state (fold (\<lambda>kb ps. Set_block ps (snd kb)) kbs ps)" for kbs
    using assms by (induction kbs arbitrary: ps) simp_all
  from this [of "st_blocks s"] show ?thesis
    by (cases "fold (\<lambda>kb ps. Set_block ps (snd kb)) (st_blocks s) ps") (auto simp: wf_state_def take_over_def)
qed

text \<open>C32: flattening a chain of states into its oldest ancestor keeps the view: every block and the details
  that a reader sees through the chain are those of the resulting single state.\<close>

theorem ApplyStateFast_view:
  assumes "list_all wf_state ss"
  shows "view (ApplyStateFast ss) = view ss \<and> length (ApplyStateFast ss) = min 1 (length ss)"
  using assms
proof (induction ss rule: ApplyStateFast.induct)
  case (1 ss)
  show ?case
  proof (cases "tl ss = []")
    case True
    then have "length ss = min 1 (length ss)" by (cases ss) auto
    then show ?thesis using True by (simp add: ApplyStateFast.simps [of ss])
  next
    case False
    then obtain s ps where ss: "ss = s # ps" "ps \<noteq> []" by (cases ss) auto
    moreover have "intermediateApply (s # ps) \<noteq> []" using ss(2) by (metis intermediateApply.simps(1) length_0_conv length_fold_Set length_with_state)
    ultimately show ?thesis
      using 1 False intermediateApply_wf [of s ps] intermediateApply_view [of s ps]
      by (simp add: ApplyStateFast.simps [of "s # ps"] Suc_leI)
  qed
qed

subsection \<open>What the walk visits\<close>

text \<open>The parent-child links of a state, and the blocks of the walk with the cycle that ends it, if any.\<close>

definition child :: "State list \<Rightarrow> (string \<times> string) set" where
  "child ss = {(i, c). \<exists>b. Pick ss i = Some b \<and> c \<in> set (ChildrenIds b)}"

definition reach :: "State list \<Rightarrow> string \<Rightarrow> string \<Rightarrow> bool" where
  "reach ss i x \<longleftrightarrow> (i, x) \<in> (child ss)\<^sup>*"

lemma childI [intro]: "Pick ss i = Some b \<Longrightarrow> c \<in> set (ChildrenIds b) \<Longrightarrow> (i, c) \<in> child ss"
  by (auto simp: child_def)

lemma childE [elim]:
  assumes "(i, c) \<in> child ss"
  obtains b where "Pick ss i = Some b" "c \<in> set (ChildrenIds b)"
  using assms by (auto simp: child_def)

function (sequential) walk :: "State list \<Rightarrow> string list \<Rightarrow> string \<Rightarrow> (string \<times> Block) list \<times> cycle option"
  and walk_children :: "State list \<Rightarrow> string list \<Rightarrow> string list \<Rightarrow> (string \<times> Block) list \<times> cycle option"
where
  "walk ss path i =
     (if i \<in> set path then ([], Some (path, i))
      else (case Pick ss i of
              None \<Rightarrow> ([], None)
            | Some b \<Rightarrow> (case walk_children ss (path @ [i]) (ChildrenIds b) of (bs, e) \<Rightarrow> ((i, b) # bs, e))))"
| "walk_children ss path [] = ([], None)"
| "walk_children ss path (c # cs) =
     (case walk ss path c of
        (bs, Some e) \<Rightarrow> (bs, Some e)
      | (bs, None) \<Rightarrow> (case walk_children ss path cs of (bs', e) \<Rightarrow> (bs @ bs', e)))"
  by pat_completeness auto
termination
proof (relation "inv_image (less_than <*lex*> less_than)
    (\<lambda>p. case p of Inl (ss, path, i) \<Rightarrow> (card (all_ids ss - set path), 0)
       | Inr (ss, path, cs) \<Rightarrow> (card (all_ids ss - set path), Suc (length cs)))", goal_cases)
  case (2 ss path i b)
  then have "all_ids ss - set (path @ [i]) \<subset> all_ids ss - set path" by (auto dest: Pick_all_ids)
  then show ?case by (simp add: psubset_card_mono)
qed auto

declare walk.simps [simp del]

fun scan :: "('a \<Rightarrow> Block \<Rightarrow> 'a \<times> bool) \<Rightarrow> Block list \<Rightarrow> 'a \<Rightarrow> 'a \<times> bool" where
  "scan f [] acc = (acc, True)"
| "scan f (b # bs) acc = (case f acc b of (acc', c) \<Rightarrow> if c then scan f bs acc' else (acc', False))"

lemma scan_append:
  "scan f (xs @ ys) acc = (case scan f xs acc of (acc', c) \<Rightarrow> if c then scan f ys acc' else (acc', False))"
  by (induction xs arbitrary: acc) (auto split: prod.splits)

definition run :: "('a \<Rightarrow> Block \<Rightarrow> 'a \<times> bool) \<Rightarrow> (string \<times> Block) list \<times> cycle option \<Rightarrow> 'a \<Rightarrow> 'a \<times> bool \<times> cycle option" where
  "run f w acc =
     (case scan f (map snd (fst w)) acc of
        (acc', c) \<Rightarrow> if c then (acc', snd w = None, snd w) else (acc', False, None))"

text \<open>\<open>Iterate\<close> is a scan of the walk.\<close>

lemma iter_run:
  "iter ss f path i acc = run f (walk ss path i) acc"
  "iter_children ss f path cs acc = run f (walk_children ss path cs) acc"
proof (induction ss f path i acc and ss f path cs acc rule: iter_iter_children.induct)
  case (1 ss f path i acc)
  then show ?case
    by (auto simp: iter.simps [of ss f path i] walk.simps [of ss path i] run_def split: option.splits prod.splits)
next
  case (2 ss f path acc)
  then show ?case by (simp add: run_def)
next
  case (3 ss f path c cs acc)
  show ?case
    using 3
    by (auto simp: run_def scan_append split: option.splits prod.splits if_splits)
qed

lemma walk_reach:
  "(x, b) \<in> set (fst (walk ss path i)) \<Longrightarrow> Pick ss x = Some b \<and> (i, x) \<in> (child ss)\<^sup>*"
  "(x, b) \<in> set (fst (walk_children ss path cs)) \<Longrightarrow> Pick ss x = Some b \<and> (\<exists>c\<in>set cs. (c, x) \<in> (child ss)\<^sup>*)"
proof (induction ss path i and ss path cs rule: walk_walk_children.induct)
  case (1 ss path i)
  then show ?case
    by (auto simp: walk.simps [of ss path i] split: if_splits option.splits prod.splits
        intro: converse_rtrancl_into_rtrancl)
qed (auto split: option.splits prod.splits)

lemma walk_complete:
  "snd (walk ss path i) = None \<Longrightarrow> (i, x) \<in> (child ss)\<^sup>* \<Longrightarrow> x \<notin> set path \<and> (\<forall>b. Pick ss x = Some b \<longrightarrow> (x, b) \<in> set (fst (walk ss path i)))"
  "snd (walk_children ss path cs) = None \<Longrightarrow> c \<in> set cs \<Longrightarrow> (c, x) \<in> (child ss)\<^sup>* \<Longrightarrow>
     x \<notin> set path \<and> (\<forall>b. Pick ss x = Some b \<longrightarrow> (x, b) \<in> set (fst (walk_children ss path cs)))"
proof (induction ss path i and ss path cs arbitrary: and c rule: walk_walk_children.induct)
  case (1 ss path i)
  from 1(3) consider "x = i" | c where "(i, c) \<in> child ss" "(c, x) \<in> (child ss)\<^sup>*"
    by (metis converse_rtranclE)
  then show ?case
  proof cases
    case 1
    then show ?thesis
      using \<open>snd (walk ss path i) = None\<close> by (auto simp: walk.simps [of ss path i] split: if_splits prod.splits)
  next
    case 2
    then show ?thesis
      using 1(1) [OF _ _ _ _ 2(2)] 1(2)
      by (auto simp: walk.simps [of ss path i] split: if_splits prod.splits)
  qed
next
  case (3 ss path d cs)
  then show ?case by (auto split: option.splits prod.splits)
qed simp

lemma walk_no_cycle:
  "snd (walk ss path i) = None \<Longrightarrow> (i, x) \<in> (child ss)\<^sup>* \<Longrightarrow> (x, x) \<notin> (child ss)\<^sup>+"
  "snd (walk_children ss path cs) = None \<Longrightarrow> c \<in> set cs \<Longrightarrow> (c, x) \<in> (child ss)\<^sup>* \<Longrightarrow> (x, x) \<notin> (child ss)\<^sup>+"
proof (induction ss path i and ss path cs arbitrary: and c rule: walk_walk_children.induct)
  case (1 ss path i)
  have below: "snd (walk_children ss (path @ [i]) (ChildrenIds b)) = None" if "Pick ss i = Some b" for b
    using 1(2) that by (auto simp: walk.simps [of ss path i] split: if_splits prod.splits)
  from 1(3) consider "x = i" | c where "(i, c) \<in> child ss" "(c, x) \<in> (child ss)\<^sup>*"
    by (metis converse_rtranclE)
  then show ?case
  proof cases
    case 1
    show ?thesis
    proof
      assume "(x, x) \<in> (child ss)\<^sup>+"
      then obtain c where "(i, c) \<in> child ss" "(c, i) \<in> (child ss)\<^sup>*" using 1 by (metis tranclD)
      then show False using walk_complete(2) [of ss "path @ [i]" _ c i] below by fastforce
    qed
  next
    case 2
    have "i \<notin> set path" using 1(2) by (auto simp: walk.simps [of ss path i])
    then show ?thesis using 1(1) 2 below by (auto elim!: childE)
  qed
next
  case (3 ss path d cs)
  then show ?case by (auto split: option.splits prod.splits)
qed simp

lemma walk_cycle:
  "snd (walk ss path i) \<noteq> None \<Longrightarrow> \<forall>p\<in>set path. (p, i) \<in> (child ss)\<^sup>+ \<Longrightarrow>
     \<exists>x. (i, x) \<in> (child ss)\<^sup>* \<and> (x, x) \<in> (child ss)\<^sup>+"
  "snd (walk_children ss path cs) \<noteq> None \<Longrightarrow> \<forall>c\<in>set cs. \<forall>p\<in>set path. (p, c) \<in> (child ss)\<^sup>+ \<Longrightarrow>
     \<exists>c\<in>set cs. \<exists>x. (c, x) \<in> (child ss)\<^sup>* \<and> (x, x) \<in> (child ss)\<^sup>+"
proof (induction ss path i and ss path cs rule: walk_walk_children.induct)
  case (1 ss path i)
  show ?case
  proof (cases "i \<in> set path")
    case True
    then show ?thesis using 1(3) by auto
  next
    case False
    then obtain b where b: "Pick ss i = Some b" "snd (walk_children ss (path @ [i]) (ChildrenIds b)) \<noteq> None"
      using 1(2) by (auto simp: walk.simps [of ss path i] split: option.splits prod.splits)
    have "\<forall>c\<in>set (ChildrenIds b). \<forall>p\<in>set (path @ [i]). (p, c) \<in> (child ss)\<^sup>+"
      using 1(3) b(1) by (auto intro: trancl_into_trancl)
    from 1(1) [OF False b this] show ?thesis
      using b(1) by (meson childI converse_rtrancl_into_rtrancl)
  qed
next
  case (3 ss path d cs)
  then show ?case by (auto split: option.splits prod.splits)
qed simp

text \<open>No block that is reachable from \<open>i\<close> is its own descendant.\<close>

definition acyclic_from :: "State list \<Rightarrow> string \<Rightarrow> bool" where
  "acyclic_from ss i \<longleftrightarrow> (\<forall>x. reach ss i x \<longrightarrow> (x, x) \<notin> (child ss)\<^sup>+)"

lemma walk_error_iff: "snd (walk ss [] i) = None \<longleftrightarrow> acyclic_from ss i"
  using walk_no_cycle(1) [of ss "[]" i] walk_cycle(1) [of ss "[]" i]
  unfolding acyclic_from_def reach_def by (auto simp del: not_None_eq)

lemma walk_visits:
  "acyclic_from ss i \<Longrightarrow> (x, b) \<in> set (fst (walk ss [] i)) \<longleftrightarrow> reach ss i x \<and> Pick ss x = Some b"
  using walk_reach(1) walk_complete(1) unfolding walk_error_iff [symmetric] reach_def by metis

lemma links_RootId [simp]:
  "child (snd (RootId ss)) = child ss" "reach (snd (RootId ss)) = reach ss" "acyclic_from (snd (RootId ss)) = acyclic_from ss"
  by (simp_all add: child_def reach_def acyclic_from_def fun_eq_iff)

abbreviation root_of :: "State list \<Rightarrow> string" where
  "root_of ss \<equiv> fst (RootId ss)"

abbreviation tour :: "State list \<Rightarrow> (string \<times> Block) list \<times> cycle option" where
  "tour ss \<equiv> walk (snd (RootId ss)) [] (root_of ss)"

lemma tour_error_iff: "snd (tour ss) = None \<longleftrightarrow> acyclic_from ss (root_of ss)"
  by (simp add: walk_error_iff)

lemma tour_visits:
  "acyclic_from ss (root_of ss) \<Longrightarrow> (x, b) \<in> set (fst (tour ss)) \<longleftrightarrow> reach ss (root_of ss) x \<and> Pick ss x = Some b"
  using walk_visits [of "snd (RootId ss)" "root_of ss" x b] by simp

lemma tour_reach:
  "(x, b) \<in> set (fst (tour ss)) \<Longrightarrow> reach ss (root_of ss) x \<and> Pick ss x = Some b"
  using walk_reach(1) [of x b "snd (RootId ss)" "[]" "root_of ss"] by (simp add: reach_def)

lemma Iterate_run:
  "Iterate ss f acc = (case run f (tour ss) acc of (acc', _, err) \<Rightarrow> (acc', err, snd (RootId ss)))"
  by (simp add: Iterate_def iter_run split: prod.splits)

lemma scan_always:
  assumes "\<And>a b. snd (f a b)"
  shows "scan f bs acc = (fold (\<lambda>b a. fst (f a b)) bs acc, True)"
proof (induction bs arbitrary: acc)
  case (Cons b bs)
  obtain acc' where "f acc b = (acc', True)" using assms by (metis prod.collapse)
  then show ?case using Cons by simp
qed simp

lemma scan_parent_test:
  "scan (parent_test i) bs None =
     (case find (\<lambda>b. i \<in> set (ChildrenIds b)) bs of Some b \<Rightarrow> (Some b, False) | None \<Rightarrow> (None, True))"
  by (induction bs) (auto simp: parent_test_def)

lemma PickParentOf_find:
  "PickParentOf ss i = (find (\<lambda>b. i \<in> set (ChildrenIds b)) (map snd (fst (tour ss))), snd (RootId ss))"
  by (simp add: PickParentOf_def Iterate_run run_def scan_parent_test split: option.split)

lemma PickParentOf_sound:
  assumes "fst (PickParentOf ss i) = Some p"
  shows "\<exists>x. reach ss (root_of ss) x \<and> Pick ss x = Some p \<and> i \<in> set (ChildrenIds p)"
proof -
  have "p \<in> set (map snd (fst (tour ss)))" "i \<in> set (ChildrenIds p)"
    using assms by (auto simp: PickParentOf_find find_Some_iff)
  then show ?thesis using tour_reach by fastforce
qed

lemma PickParentOf_complete:
  assumes "acyclic_from ss (root_of ss)" "reach ss (root_of ss) x" "(x, i) \<in> child ss"
  shows "fst (PickParentOf ss i) \<noteq> None"
proof -
  obtain b where "(x, b) \<in> set (fst (tour ss))" "i \<in> set (ChildrenIds b)"
    using assms tour_visits by (metis childE)
  then have "b \<in> set (map snd (fst (tour ss)))" "i \<in> set (ChildrenIds b)" by (auto intro: rev_image_eqI)
  then show ?thesis unfolding PickParentOf_find fst_conv find_None_iff by blast
qed

lemma PickParentOf_state [simp]: "snd (PickParentOf ss i) = snd (RootId ss)"
  by (simp add: PickParentOf_find)

text \<open>C33: a walk over all blocks of a state (a callback that never stops it) reports a cycle exactly when
  a block that is reachable from the root is its own descendant; otherwise it calls the callback on
  the reachable blocks of the state and on no others.\<close>

theorem Iterate_cycle:
  assumes "\<And>a b. snd (f a b)"
  shows "(fst (snd (Iterate ss f acc)) = None \<longleftrightarrow> acyclic_from ss (root_of ss)) \<and>
    (acyclic_from ss (root_of ss) \<longrightarrow>
      (\<exists>bs. fst (Iterate ss f acc) = fold (\<lambda>b a. fst (f a b)) bs acc \<and>
        set bs = {b. \<exists>x. reach ss (root_of ss) x \<and> Pick ss x = Some b}))"
proof -
  have it: "Iterate ss f acc = (fold (\<lambda>b a. fst (f a b)) (map snd (fst (tour ss))) acc, snd (tour ss), snd (RootId ss))"
    by (simp add: Iterate_run run_def scan_always [OF assms])
  have "acyclic_from ss (root_of ss) \<Longrightarrow> set (map snd (fst (tour ss))) = {b. \<exists>x. reach ss (root_of ss) x \<and> Pick ss x = Some b}"
    using tour_visits [of ss] by force
  then show ?thesis
    unfolding it fst_conv snd_conv tour_error_iff by blast
qed

subsection \<open>Validation and trees\<close>

text \<open>
  The blocks that are reachable from \<open>r\<close> form a tree: every child exists, no block has two parents
  or is listed twice, and \<open>r\<close> has no parent.
\<close>

definition tree :: "State list \<Rightarrow> string \<Rightarrow> bool" where
  "tree ss r \<longleftrightarrow>
     (\<forall>x b. reach ss r x \<and> Pick ss x = Some b \<longrightarrow> distinct (ChildrenIds b) \<and> (\<forall>c\<in>set (ChildrenIds b). Exists ss c)) \<and>
     (\<forall>x y c. reach ss r x \<and> reach ss r y \<and> (x, c) \<in> child ss \<and> (y, c) \<in> child ss \<longrightarrow> x = y) \<and>
     (\<forall>x. reach ss r x \<longrightarrow> (x, r) \<notin> child ss)"

lemma reach_refl [simp, intro]: "reach ss r r"
  by (simp add: reach_def)

lemma reach_step: "reach ss r x \<Longrightarrow> (x, c) \<in> child ss \<Longrightarrow> reach ss r c"
  unfolding reach_def by (rule rtrancl_into_rtrancl)

lemma reach_trans: "reach ss r x \<Longrightarrow> (x, y) \<in> (child ss)\<^sup>* \<Longrightarrow> reach ss r y"
  unfolding reach_def by (rule rtrancl_trans)

lemma tree_parent: "tree ss r \<Longrightarrow> reach ss r x \<Longrightarrow> reach ss r y \<Longrightarrow> (x, c) \<in> child ss \<Longrightarrow> (y, c) \<in> child ss \<Longrightarrow> x = y"
  unfolding tree_def by blast

lemma tree_children:
  "tree ss r \<Longrightarrow> reach ss r x \<Longrightarrow> Pick ss x = Some b \<Longrightarrow> distinct (ChildrenIds b)"
  "tree ss r \<Longrightarrow> reach ss r x \<Longrightarrow> Pick ss x = Some b \<Longrightarrow> c \<in> set (ChildrenIds b) \<Longrightarrow> Exists ss c"
  unfolding tree_def by blast+

lemma tree_acyclic:
  assumes t: "tree ss r"
  shows "acyclic_from ss r"
proof -
  have "(x, x) \<notin> (child ss)\<^sup>+" if "(r, x) \<in> (child ss)\<^sup>*" for x
    using that
  proof (induction rule: rtrancl_induct)
    case base
    show ?case
      using t unfolding tree_def reach_def by (metis tranclD2)
  next
    case (step x c)
    show ?case
    proof
      assume "(c, c) \<in> (child ss)\<^sup>+"
      then obtain y where y: "(c, y) \<in> (child ss)\<^sup>*" "(y, c) \<in> child ss" by (metis tranclD2)
      have "reach ss r x" using step by (simp add: reach_def)
      moreover from this have "reach ss r y" using step y(1) by (metis reach_step reach_trans)
      ultimately have "y = x" using tree_parent [OF t] step y(2) by metis
      then show False using y step by (metis rtrancl_into_trancl2)
    qed
  qed
  then show ?thesis by (simp add: acyclic_from_def reach_def)
qed

lemma tree_comparable:
  assumes "tree ss r" "reach ss r c" "reach ss r d" "(c, x) \<in> (child ss)\<^sup>*" "(d, x) \<in> (child ss)\<^sup>*"
  shows "(c, d) \<in> (child ss)\<^sup>* \<or> (d, c) \<in> (child ss)\<^sup>*"
  using assms(4,5)
proof (induction rule: rtrancl_induct)
  case (step y x)
  from step.prems show ?case
  proof (cases rule: rtranclE)
    case (step z)
    moreover have "z = y"
      using tree_parent [OF assms(1)] step \<open>(y, x) \<in> child ss\<close> \<open>(c, y) \<in> (child ss)\<^sup>*\<close> assms(2,3) by (metis reach_trans)
    ultimately show ?thesis using \<open>(d, y) \<in> (child ss)\<^sup>* \<Longrightarrow> _\<close> by simp
  qed (use step.hyps in \<open>auto intro: rtrancl_into_rtrancl\<close>)
qed simp

lemma tree_siblings:
  assumes t: "tree ss r" and p: "reach ss r p" "(p, c) \<in> child ss" "(p, d) \<in> child ss" "c \<noteq> d"
    and x: "(c, x) \<in> (child ss)\<^sup>*" "(d, x) \<in> (child ss)\<^sup>*"
  shows False
proof -
  have below: False if "(c, d) \<in> (child ss)\<^sup>*" "c \<noteq> d" "(p, c) \<in> child ss" "(p, d) \<in> child ss" for c d
  proof -
    note q = that
    obtain z where z: "(c, z) \<in> (child ss)\<^sup>*" "(z, d) \<in> child ss"
      using q(1,2) by (metis rtranclE)
    then have "z = p" using tree_parent [OF t] p(1) q by (metis reach_step reach_trans)
    then have "(p, p) \<in> (child ss)\<^sup>+" using z(1) q(3) by (metis rtrancl_into_trancl2)
    then show False using tree_acyclic [OF t] p(1) by (simp add: acyclic_from_def)
  qed
  have "reach ss r c" "reach ss r d" using p by (auto intro: reach_step)
  from tree_comparable [OF t this x] show False
    using below p by metis
qed

lemma walk_distinct:
  "tree ss r \<Longrightarrow> reach ss r i \<Longrightarrow> distinct (map fst (fst (walk ss path i)))"
  "tree ss r \<Longrightarrow> reach ss r p \<Longrightarrow> \<forall>c\<in>set cs. (p, c) \<in> child ss \<Longrightarrow> distinct cs \<Longrightarrow>
     distinct (map fst (fst (walk_children ss path cs)))"
proof (induction ss path i and ss path cs arbitrary: and p rule: walk_walk_children.induct)
  case (1 ss path i)
  have "i \<notin> fst ` set (fst (walk_children ss (path @ [i]) (ChildrenIds b)))" if b: "Pick ss i = Some b" for b
  proof
    assume "i \<in> fst ` set (fst (walk_children ss (path @ [i]) (ChildrenIds b)))"
    then obtain c where "c \<in> set (ChildrenIds b)" "(c, i) \<in> (child ss)\<^sup>*" using walk_reach(2) by fastforce
    then have "(i, i) \<in> (child ss)\<^sup>+" using b by (meson childI rtrancl_into_trancl2)
    then show False using tree_acyclic [OF 1(2)] 1(3) by (simp add: acyclic_from_def)
  qed
  moreover have "distinct (map fst (fst (walk_children ss (path @ [i]) (ChildrenIds b))))" if "i \<notin> set path" "Pick ss i = Some b" for b
    using 1(1) [OF that 1(2,3)] that 1(2,3) by (auto simp: tree_def)
  ultimately show ?case
    by (auto simp: walk.simps [of ss path i] split: option.split prod.splits) (metis fst_conv imageI)
next
  case (3 ss path c cs)
  have "fst ` set (fst (walk ss path c)) \<inter> fst ` set (fst (walk_children ss path cs)) = {}"
  proof (rule ccontr)
    assume "\<not> ?thesis"
    then obtain x b b' where "(x, b) \<in> set (fst (walk ss path c))" "(x, b') \<in> set (fst (walk_children ss path cs))"
      by auto
    then obtain d where "d \<in> set cs" "(c, x) \<in> (child ss)\<^sup>*" "(d, x) \<in> (child ss)\<^sup>*"
      using walk_reach by blast
    then show False using tree_siblings [OF 3(3,4), of c d x] 3(5,6) by auto
  qed
  moreover have "distinct (map fst (fst (walk ss path c)))" using 3(1,3,4,5) by (auto intro: reach_step)
  moreover have "snd (walk ss path c) = None \<Longrightarrow> distinct (map fst (fst (walk_children ss path cs)))"
    using 3 by (cases "walk ss path c") auto
  ultimately show ?case
    by (auto split: option.splits prod.splits) (metis IntI empty_iff fst_conv imageI)
qed simp

lemma validate_children_ok:
  "snd (validate_children ss bid cids m) = None \<longleftrightarrow>
     distinct cids \<and> set cids \<inter> dom (map_of m) = {} \<and> (\<forall>c\<in>set cids. Exists ss c)"
proof (induction ss bid cids m rule: validate_children.induct)
  case (2 ss bid cid cids m)
  show ?case
  proof (cases "map_of m cid = None \<and> Exists ss cid")
    case True
    then have "snd (validate_children ss bid (cid # cids) m) = None \<longleftrightarrow>
        distinct cids \<and> set cids \<inter> insert cid (dom (map_of m)) = {} \<and> (\<forall>c\<in>set cids. Exists ss c)"
      using 2 [OF conjunct1 [OF True] refl, unfolded map_of_put dom_fun_upd] by simp
    with True show ?thesis by auto
  qed (auto simp: Let_def split: option.splits)
qed simp

lemma validate_children_dom:
  "snd (validate_children ss bid cids m) = None \<Longrightarrow>
     dom (map_of (fst (validate_children ss bid cids m))) = dom (map_of m) \<union> set cids"
  by (induction ss bid cids m rule: validate_children.induct) (simp_all add: Let_def split: option.splits if_splits)

lemma fresh_append:
  assumes "distinct C \<and> set C \<inter> M = {} \<and> (\<forall>c\<in>set C. E c)"
  shows "distinct L \<and> set L \<inter> (M \<union> set C) = {} \<and> (\<forall>c\<in>set L. E c) \<longleftrightarrow>
    distinct (C @ L) \<and> set (C @ L) \<inter> M = {} \<and> (\<forall>c\<in>set (C @ L). E c)"
  using assms by auto

lemma scan_validate:
  "(snd (scan (validate_block ss) bs (m, None)) \<longleftrightarrow>
     distinct (concat (map ChildrenIds bs)) \<and> set (concat (map ChildrenIds bs)) \<inter> dom (map_of m) = {} \<and>
     (\<forall>c\<in>set (concat (map ChildrenIds bs)). Exists ss c)) \<and>
   (snd (fst (scan (validate_block ss) bs (m, None))) = None \<longleftrightarrow> snd (scan (validate_block ss) bs (m, None)))"
proof (induction bs arbitrary: m)
  case (Cons b bs)
  obtain m' e where v: "validate_children ss (Id b) (ChildrenIds b) m = (m', e)" by fastforce
  show ?case
  proof (cases e)
    case None
    then have d: "dom (map_of m') = dom (map_of m) \<union> set (ChildrenIds b)"
      and ok: "distinct (ChildrenIds b) \<and> set (ChildrenIds b) \<inter> dom (map_of m) = {} \<and> (\<forall>c\<in>set (ChildrenIds b). Exists ss c)"
      using validate_children_ok [where ss = ss and bid = "Id b" and cids = "ChildrenIds b" and m = m]
        validate_children_dom [where ss = ss and bid = "Id b" and cids = "ChildrenIds b" and m = m] v by simp_all
    have "scan (validate_block ss) (b # bs) (m, None) = scan (validate_block ss) bs (m', None)"
      using None v by (simp add: validate_block_def)
    then show ?thesis
      using Cons [of m', unfolded d fresh_append [OF ok]] by simp
  next
    case (Some x)
    then have "\<not> (distinct (ChildrenIds b) \<and> set (ChildrenIds b) \<inter> dom (map_of m) = {} \<and> (\<forall>c\<in>set (ChildrenIds b). Exists ss c))"
      using validate_children_ok [where ss = ss and bid = "Id b" and cids = "ChildrenIds b" and m = m] v by simp
    then show ?thesis using Some v by (auto simp: validate_block_def)
  qed
qed simp

lemma Validate_none_iff:
  "fst (Validate ss) = None \<longleftrightarrow>
     snd (tour ss) = None \<and> distinct (concat (map ChildrenIds (map snd (fst (tour ss))))) \<and>
     (\<forall>b\<in>snd ` set (fst (tour ss)). \<forall>c\<in>set (ChildrenIds b). Exists ss c)"
proof -
  obtain acc c where s: "scan (validate_block ss) (map snd (fst (tour ss))) ([], None) = (acc, c)" by fastforce
  have "fst (Validate ss) = None \<longleftrightarrow> c \<and> snd (tour ss) = None"
    using scan_validate [of ss "map snd (fst (tour ss))" "[]"] s
    by (auto simp: Validate_def Iterate_run run_def split: option.split)
  then show ?thesis using scan_validate [of ss "map snd (fst (tour ss))" "[]"] s by auto
qed

lemma distinct_concat_disjoint:
  "distinct (map fst w) \<Longrightarrow> (\<And>x b. (x, b) \<in> set w \<Longrightarrow> distinct (f b)) \<Longrightarrow>
   (\<And>x b y d c. (x, b) \<in> set w \<Longrightarrow> (y, d) \<in> set w \<Longrightarrow> c \<in> set (f b) \<Longrightarrow> c \<in> set (f d) \<Longrightarrow> x = y) \<Longrightarrow>
   distinct (concat (map f (map snd w)))"
proof (induction w)
  case (Cons a w)
  obtain x b where a: "a = (x, b)" by fastforce
  have "distinct (concat (map f (map snd w)))"
    using Cons.prems by (intro Cons.IH) (auto, metis)
  moreover have "set (f b) \<inter> set (concat (map f (map snd w))) = {}"
  proof (rule ccontr)
    assume "\<not> ?thesis"
    then obtain c y d where "c \<in> set (f b)" "c \<in> set (f d)" "(y, d) \<in> set w" by auto
    then have "x = y" using Cons.prems(3) [of x b y d c] a by simp
    then show False using Cons.prems(1) \<open>(y, d) \<in> set w\<close> a by (metis distinct.simps(2) fst_conv image_eqI list.set_map list.simps(9))
  qed
  ultimately show ?case using Cons.prems(2) a by auto
qed simp

lemma concat_disjoint:
  assumes "distinct (concat (map f (map snd w)))" "(x, b) \<in> set w" "(y, d) \<in> set w" "c \<in> set (f b)" "c \<in> set (f d)"
  shows "(x, b) = (y, d)"
proof (rule ccontr)
  assume "\<not> ?thesis"
  obtain us vs where w: "w = us @ (x, b) # vs" using assms(2) by (meson split_list)
  then have "(y, d) \<in> set us \<union> set vs" using assms(3) \<open>\<not> _\<close> by auto
  then have "c \<in> set (concat (map f (map snd us))) \<union> set (concat (map f (map snd vs)))" using assms(5) by force
  then show False using assms(1,4) w by auto
qed

lemma Validate_iff_tree: "fst (Validate ss) = None \<longleftrightarrow> tree ss (root_of ss)"
proof
  let ?r = "root_of ss"
  assume "fst (Validate ss) = None"
  then have v: "snd (tour ss) = None" "distinct (concat (map ChildrenIds (map snd (fst (tour ss)))))"
    "\<forall>b\<in>snd ` set (fst (tour ss)). \<forall>c\<in>set (ChildrenIds b). Exists ss c" by (simp_all add: Validate_none_iff)
  then have ac: "acyclic_from ss ?r" using tour_error_iff by simp
  have in_tour: "reach ss ?r x \<Longrightarrow> Pick ss x = Some b \<Longrightarrow> (x, b) \<in> set (fst (tour ss))" for x b
    using tour_visits [OF ac] by simp
  have "distinct (ChildrenIds b)" "\<forall>c\<in>set (ChildrenIds b). Exists ss c" if "reach ss ?r x" "Pick ss x = Some b" for x b
    using v(2) split_list [OF in_tour [OF that]] bspec [OF v(3) imageI [OF in_tour [OF that]]] by auto
  moreover have "x = y" if "reach ss ?r x" "reach ss ?r y" "(x, c) \<in> child ss" "(y, c) \<in> child ss" for x y c
    using that concat_disjoint [OF v(2)] in_tour by (metis childE prod.inject)
  moreover have "(x, ?r) \<notin> child ss" if "reach ss ?r x" for x
    using ac that unfolding acyclic_from_def reach_def by (metis rtrancl.rtrancl_refl rtrancl_into_trancl1)
  ultimately show "tree ss ?r" unfolding tree_def by blast
next
  let ?r = "root_of ss"
  assume t: "tree ss ?r"
  note ac = tree_acyclic [OF t]
  have "tree (snd (RootId ss)) ?r" using t by (simp add: tree_def)
  then have "distinct (map fst (fst (tour ss)))" by (rule walk_distinct(1)) simp
  then have "distinct (concat (map ChildrenIds (map snd (fst (tour ss)))))"
    using t tree_parent [OF t] tour_visits [OF ac]
    by (intro distinct_concat_disjoint) (auto simp: tree_def)
  moreover have "\<forall>b\<in>snd ` set (fst (tour ss)). \<forall>c\<in>set (ChildrenIds b). Exists ss c"
    using t tour_visits [OF ac] by (auto simp: tree_def)
  ultimately show "fst (Validate ss) = None" using ac tour_error_iff by (simp add: Validate_none_iff)
qed

text \<open>C24: \<open>Validate\<close> accepts a state exactly when the blocks reachable from its root form a tree.\<close>

theorem Validate_tree: "fst (Validate ss) = None \<longleftrightarrow> tree ss (root_of ss)"
  by (rule Validate_iff_tree)

subsection \<open>Climbing and collecting\<close>

lemma RootId_idem [simp]: "RootId (snd (RootId ss)) = RootId ss"
  by (cases ss) (auto simp: Let_def)

lemma PickParentOf_RootId [simp]: "PickParentOf (snd (RootId ss)) i = PickParentOf ss i"
  by (simp add: PickParentOf_find)

text \<open>Every block is stored under its own id.\<close>

definition own_ids :: "State list \<Rightarrow> bool" where
  "own_ids ss \<longleftrightarrow> (\<forall>x b. Pick ss x = Some b \<longrightarrow> Id b = x)"

lemma wf_parents:
  assumes "acyclic_from ss r"
  shows "wf {(p, i). (p, i) \<in> child ss \<and> reach ss r p}" (is "wf ?R")
proof (rule finite_acyclic_wf)
  have "?R \<subseteq> (\<Union>i\<in>all_ids ss. {i} \<times> set (ChildrenIds (the (Pick ss i))))"
    by (auto elim!: childE dest: Pick_all_ids)
  then show "finite ?R" by (rule finite_subset) auto
  show "acyclic ?R"
  proof (rule acyclicI, rule allI, rule notI)
    fix x assume x: "(x, x) \<in> ?R\<^sup>+"
    then have "(x, x) \<in> (child ss)\<^sup>+" by (rule trancl_mono) auto
    moreover have "reach ss r x" using tranclD [OF x] by auto
    ultimately show False using assms by (simp add: acyclic_from_def)
  qed
qed

lemma climb_correct:
  assumes t: "tree ss (root_of ss)" and own: "own_ids ss"
  shows "climb ss i p = Some (reach ss (root_of ss) p \<and> (p, i) \<in> (child ss)\<^sup>+, snd (RootId ss))"
proof (induction i rule: wf_induct_rule [OF wf_parents [OF tree_acyclic [OF t]]])
  case (1 i)
  let ?r = "root_of ss"
  have last: "(y, i) \<in> child ss \<Longrightarrow> reach ss ?r y \<Longrightarrow> reach ss ?r x \<Longrightarrow> (x, i) \<in> child ss \<Longrightarrow> y = x" for x y
    using tree_parent [OF t] by metis
  obtain res where res: "PickParentOf ss i = (res, snd (RootId ss))" by (metis PickParentOf_state prod.collapse)
  have again: "climb (snd (RootId ss)) j p = climb ss j p" for j
    by (subst (1 2) climb.simps) simp
  show ?case
  proof (cases res)
    case None
    then have "\<not> (reach ss ?r p \<and> (p, i) \<in> (child ss)\<^sup>+)"
      using PickParentOf_complete [OF tree_acyclic [OF t]] res by (metis fst_conv reach_trans tranclD2)
    then show ?thesis using None res by (subst climb.simps) simp
  next
    case (Some q)
    then obtain x where x: "reach ss ?r x" "Pick ss x = Some q" "i \<in> set (ChildrenIds q)"
      using PickParentOf_sound [of ss i q] res by auto
    then have e: "(x, i) \<in> child ss" "Id q = x" using own by (auto simp: own_ids_def)
    have "reach ss ?r p \<Longrightarrow> p \<noteq> x \<Longrightarrow> (p, x) \<in> (child ss)\<^sup>+ \<longleftrightarrow> (p, i) \<in> (child ss)\<^sup>+"
      using e(1) last x(1) by (metis reach_trans rtranclD trancl_into_trancl tranclD2)
    then show ?thesis
      using 1 [of x] x(1) e Some res again r_into_trancl [OF e(1)] by (subst climb.simps) auto
  qed
qed

text \<open>C34: on a valid tree \<open>IsChild\<close> and \<open>HasParent\<close> return, and decide whether the first block is an
  ancestor of the second one inside the tree.\<close>

theorem IsChild_ancestor:
  assumes "fst (Validate ss) = None" "own_ids ss"
  shows "IsChild ss p c = Some (reach ss (root_of ss) p \<and> (p, c) \<in> (child ss)\<^sup>+, snd (RootId ss)) \<and>
    HasParent ss c p = IsChild ss p c"
  using climb_correct [of ss c p] assms iffD1 [OF Validate_iff_tree] by (simp add: IsChild_def HasParent_def)

lemma walk_shorter_path:
  "snd (walk ss path i) = None \<Longrightarrow> set path' \<subseteq> set path \<Longrightarrow> walk ss path' i = walk ss path i"
  "snd (walk_children ss path cs) = None \<Longrightarrow> set path' \<subseteq> set path \<Longrightarrow> walk_children ss path' cs = walk_children ss path cs"
proof (induction ss path i and ss path cs arbitrary: path' and path' rule: walk_walk_children.induct)
  case (1 ss path i)
  have i: "i \<notin> set path" "i \<notin> set path'" using 1(2,3) by (auto simp: walk.simps [of ss path i])
  show ?case
  proof (cases "Pick ss i")
    case (Some b)
    have "walk_children ss (path' @ [i]) (ChildrenIds b) = walk_children ss (path @ [i]) (ChildrenIds b)"
      using 1(2,3) i Some by (intro 1(1)) (auto simp: walk.simps [of ss path i] split: prod.splits)
    then show ?thesis using i Some by (simp add: walk.simps [of ss path] walk.simps [of ss path'])
  qed (use i in \<open>simp add: walk.simps\<close>)
next
  case (3 ss path c cs)
  obtain bs where w: "walk ss path c = (bs, None)" "snd (walk_children ss path cs) = None"
    using 3(3) by (auto split: option.splits prod.splits)
  have "walk ss path' c = walk ss path c" by (rule 3(1)) (use w 3(4) in simp_all)
  moreover have "walk_children ss path' cs = walk_children ss path cs" by (rule 3(2)) (use w 3(4) in simp_all)
  ultimately show ?case using w by simp
qed simp

lemma acyclic_child: "acyclic_from ss i \<Longrightarrow> (i, c) \<in> child ss \<Longrightarrow> acyclic_from ss c"
  by (auto simp: acyclic_from_def reach_def dest: converse_rtrancl_into_rtrancl)

abbreviation below :: "State list \<Rightarrow> string \<Rightarrow> Block list" where
  "below ss i \<equiv> map snd (fst (walk ss [] i))"

lemma walk_children_below:
  "snd (walk_children ss path cs) = None \<Longrightarrow> map snd (fst (walk_children ss path cs)) = concat (map (below ss) cs)"
proof (induction cs)
  case (Cons c cs)
  moreover from Cons.prems have "walk ss [] c = walk ss path c"
    by (intro walk_shorter_path(1)) (auto split: option.splits prod.splits)
  ultimately show ?case by (auto split: option.splits prod.splits)
qed simp

lemma below_unfold:
  assumes "acyclic_from ss i" "Pick ss i = Some b"
  shows "below ss i = b # concat (map (below ss) (ChildrenIds b))"
proof -
  have "snd (walk_children ss [i] (ChildrenIds b)) = None"
    using assms unfolding walk_error_iff [symmetric] by (simp add: walk.simps [of ss "[]" i] split: prod.splits)
  from walk_children_below [OF this] show ?thesis
    using assms(2) by (simp add: walk.simps [of ss "[]" i] split_def)
qed

lemma below_missing: "Pick ss i = None \<Longrightarrow> below ss i = []"
  by (simp add: walk.simps)

text \<open>The number of ids that the loop will still take from its queue.\<close>

definition weight :: "State list \<Rightarrow> string list \<Rightarrow> nat" where
  "weight ss ids = (\<Sum>i\<leftarrow>ids. Suc (\<Sum>b\<leftarrow>below ss i. length (ChildrenIds b)))"

lemma weight_simps [simp]:
  "weight ss [] = 0" "weight ss (i # ids) = Suc (\<Sum>b\<leftarrow>below ss i. length (ChildrenIds b)) + weight ss ids"
  "weight ss (xs @ ys) = weight ss xs + weight ss ys"
  by (simp_all add: weight_def)

lemma weight_children:
  assumes "acyclic_from ss i" "Pick ss i = Some b"
  shows "weight ss (ChildrenIds b) = (\<Sum>b\<leftarrow>below ss i. length (ChildrenIds b))"
proof -
  have "weight ss cs = length cs + (\<Sum>b\<leftarrow>concat (map (below ss) cs). length (ChildrenIds b))" for cs
    by (induction cs) auto
  then show ?thesis unfolding below_unfold [OF assms] by simp
qed

lemma blocks_loop_collects:
  assumes "\<forall>i\<in>set ids. acyclic_from ss i"
  shows "\<exists>bs. blocks_loop ss ids acc = Some (acc @ bs) \<and> mset bs = mset (concat (map (below ss) ids))"
  using assms
proof (induction "weight ss ids" arbitrary: ids acc rule: less_induct)
  case less
  show ?case
  proof (cases ids)
    case Nil
    then show ?thesis by (simp add: blocks_loop.simps)
  next
    case (Cons i rest)
    show ?thesis
    proof (cases "Pick ss i")
      case None
      then show ?thesis
        using less(1) [of rest acc] less(2) Cons by (simp add: blocks_loop.simps [of ss "i # rest"] below_missing)
    next
      case (Some b)
      have ac: "acyclic_from ss i" using less(2) Cons by simp
      have "weight ss (rest @ ChildrenIds b) < weight ss ids"
        using weight_children [OF ac Some] Cons by simp
      moreover have "\<forall>j\<in>set (rest @ ChildrenIds b). acyclic_from ss j"
        using less(2) Cons Some acyclic_child [OF ac] by auto
      ultimately obtain bs where "blocks_loop ss (rest @ ChildrenIds b) (acc @ [b]) = Some ((acc @ [b]) @ bs)"
        "mset bs = mset (concat (map (below ss) (rest @ ChildrenIds b)))"
        using less(1) by blast
      then show ?thesis
        using Some Cons below_unfold [OF ac Some] by (intro exI [of _ "b # bs"]) (simp add: blocks_loop.simps [of ss "i # rest"])
    qed
  qed
qed

text \<open>When no reachable block is its own descendant, \<open>Blocks\<close> returns, and what it returns is a
  permutation of the blocks that \<open>Iterate\<close> visits: all blocks reachable from the root and no others.\<close>

lemma Blocks_walk:
  assumes "acyclic_from ss (root_of ss)"
  shows "\<exists>bs. Blocks ss = Some (bs, snd (RootId ss)) \<and>
    mset bs = mset (fst (Iterate ss (\<lambda>a b. (a @ [b], True)) [])) \<and>
    set bs = {b. \<exists>x. reach ss (root_of ss) x \<and> Pick ss x = Some b}"
proof -
  have fold: "fold (\<lambda>b a. a @ [b]) xs ys = ys @ xs" for xs ys :: "Block list"
    by (induction xs arbitrary: ys) auto
  have it: "fst (Iterate ss (\<lambda>a b. (a @ [b], True)) []) = map snd (fst (tour ss))"
    using scan_always [of "\<lambda>a b. (a @ [b], True)"] by (simp add: Iterate_run run_def fold)
  obtain bs where bs: "blocks_loop (snd (RootId ss)) [root_of ss] [] = Some bs" "mset bs = mset (map snd (fst (tour ss)))"
    using blocks_loop_collects [of "[root_of ss]" "snd (RootId ss)" "[]"] assms by auto
  have "set bs = snd ` set (fst (tour ss))" using mset_eq_setD [OF bs(2)] by simp
  also have "\<dots> = {b. \<exists>x. reach ss (root_of ss) x \<and> Pick ss x = Some b}"
    using tour_visits [OF assms] by force
  finally show ?thesis using bs it by (auto simp: Blocks_def split: prod.split)
qed

subsection \<open>Selecting roots\<close>

lemma select_inner_marks:
  assumes "\<And>p c. \<exists>ss'. IsChild ss p c = Some (anc p c, ss')" "\<And>p. \<not> anc p p"
  shows "length d = length ids \<Longrightarrow> \<forall>j\<in>set js. j < length ids \<Longrightarrow>
    \<exists>d'. select_inner ss ids i js d = Some d' \<and> length d' = length ids \<and>
      (\<forall>k<length ids. d' ! k \<longleftrightarrow> d ! k \<or> k \<in> set js \<and> anc (ids ! i) (ids ! k))"
proof (induction js arbitrary: d)
  case (Cons j js)
  define d1 where "d1 = (if i = j \<or> d ! j \<or> \<not> anc (ids ! i) (ids ! j) then d else d[j := True])"
  have len: "length d1 = length ids" using Cons.prems by (simp add: d1_def)
  have "select_inner ss ids i (j # js) d = select_inner ss ids i js d1"
    using assms(1) [of "ids ! i" "ids ! j"] by (auto simp: d1_def)
  moreover obtain d' where "select_inner ss ids i js d1 = Some d'" "length d' = length ids"
    "\<forall>k<length ids. d' ! k \<longleftrightarrow> d1 ! k \<or> k \<in> set js \<and> anc (ids ! i) (ids ! k)"
    using Cons.IH [of d1] Cons.prems len by auto
  moreover have "k < length ids \<Longrightarrow> d1 ! k \<longleftrightarrow> d ! k \<or> k = j \<and> anc (ids ! i) (ids ! k)" for k
    using Cons.prems assms(2) by (auto simp: d1_def nth_list_update)
  ultimately show ?case by auto
qed simp

lemma select_outer_marks:
  assumes "\<And>p c. \<exists>ss'. IsChild ss p c = Some (anc p c, ss')" "\<And>p. \<not> anc p p"
  shows "length d = length ids \<Longrightarrow> \<forall>i\<in>set idx. i < length ids \<Longrightarrow>
    \<exists>d'. select_outer ss ids idx d = Some d' \<and>
      (\<forall>k<length ids. d ! k \<longrightarrow> d' ! k) \<and>
      (\<forall>k<length ids. d' ! k \<longrightarrow> d ! k \<or> \<not> Exists ss (ids ! k) \<or> (\<exists>i\<in>set idx. anc (ids ! i) (ids ! k))) \<and>
      (\<forall>i\<in>set idx. \<not> d' ! i \<longrightarrow> Exists ss (ids ! i) \<and> (\<forall>k<length ids. anc (ids ! i) (ids ! k) \<longrightarrow> d' ! k))"
proof (induction idx arbitrary: d)
  case (Cons i idx)
  show ?case
  proof (cases "d ! i")
    case True
    then show ?thesis using Cons.IH [of d] Cons.prems by auto
  next
    case False
    define d1 where "d1 = (if \<not> Exists ss (ids ! i) then d[i := True] else d)"
    have len: "length d1 = length ids" using Cons.prems by (simp add: d1_def)
    obtain d2 where d2: "select_inner ss ids i [0..<length ids] d1 = Some d2" "length d2 = length ids"
      "\<forall>k<length ids. d2 ! k \<longleftrightarrow> d1 ! k \<or> anc (ids ! i) (ids ! k)"
      using select_inner_marks [OF assms, of d1 ids "[0..<length ids]" i] len by auto
    have d1: "k < length ids \<Longrightarrow> d1 ! k \<longleftrightarrow> d ! k \<or> k = i \<and> \<not> Exists ss (ids ! k)" for k
      using Cons.prems by (auto simp: d1_def nth_list_update)
    obtain d' where d': "select_outer ss ids idx d2 = Some d'" "\<forall>k<length ids. d2 ! k \<longrightarrow> d' ! k"
      "\<forall>k<length ids. d' ! k \<longrightarrow> d2 ! k \<or> \<not> Exists ss (ids ! k) \<or> (\<exists>i\<in>set idx. anc (ids ! i) (ids ! k))"
      "\<forall>i\<in>set idx. \<not> d' ! i \<longrightarrow> Exists ss (ids ! i) \<and> (\<forall>k<length ids. anc (ids ! i) (ids ! k) \<longrightarrow> d' ! k)"
      using Cons.IH [of d2] d2(2) Cons.prems by auto
    have "select_outer ss ids (i # idx) d = Some d'"
      using False d2(1) d'(1) by (simp add: d1_def)
    moreover have "i < length ids" using Cons.prems by simp
    ultimately show ?thesis using d1 d2(3) d'(2-4) by (intro exI [of _ d']) auto
  qed
qed simp

lemma topmost_listed:
  assumes "wf R" "trans R" "(p, c) \<in> R" "p \<in> A"
  shows "\<exists>q\<in>A. (q, c) \<in> R \<and> (\<forall>z\<in>A. (z, q) \<notin> R)"
proof -
  obtain q where "q \<in> {z \<in> A. (z, c) \<in> R}" "\<And>z. (z, q) \<in> R \<Longrightarrow> z \<notin> {z \<in> A. (z, c) \<in> R}"
    using wfE_min [OF assms(1), of p "{z \<in> A. (z, c) \<in> R}"] assms(3,4) by blast
  then show ?thesis using assms(2) by (auto dest: transD)
qed

definition ancestor :: "State list \<Rightarrow> (string \<times> string) set" where
  "ancestor ss = {(p, c). reach ss (root_of ss) p \<and> (p, c) \<in> (child ss)\<^sup>+}"

lemma ancestor_facts:
  assumes "acyclic_from ss (root_of ss)"
  shows "wf (ancestor ss)" "trans (ancestor ss)" "(p, p) \<notin> ancestor ss" "(p, c) \<in> ancestor ss \<Longrightarrow> Exists ss p"
proof -
  let ?R = "{(p, i). (p, i) \<in> child ss \<and> reach ss (root_of ss) p}"
  have "(p, c) \<in> ?R\<^sup>+" if "(p, c) \<in> (child ss)\<^sup>+" "reach ss (root_of ss) p" for p c
    using that
  proof (induction rule: trancl_induct)
    case (step y z)
    then have "reach ss (root_of ss) y" by (meson reach_trans trancl_into_rtrancl)
    with step show ?case by (auto intro: trancl_into_trancl)
  qed auto
  then show "wf (ancestor ss)"
    by (intro wf_subset [OF wf_trancl [OF wf_parents [OF assms]]]) (auto simp: ancestor_def)
  show "trans (ancestor ss)" by (auto simp: ancestor_def trans_def intro: trancl_trans)
  show "(p, p) \<notin> ancestor ss" using assms by (auto simp: ancestor_def acyclic_from_def)
  show "(p, c) \<in> ancestor ss \<Longrightarrow> Exists ss p" by (auto simp: ancestor_def Exists_def dest!: tranclD)
qed

lemma filter_positions: "[xs ! i. i \<leftarrow> [0..<length xs], P (xs ! i)] = filter P xs"
proof (induction xs rule: rev_induct)
  case (snoc x xs)
  have "[(xs @ [x]) ! i. i \<leftarrow> [0..<length xs], P ((xs @ [x]) ! i)] = [xs ! i. i \<leftarrow> [0..<length xs], P (xs ! i)]"
    by (intro arg_cong [of _ _ concat] map_cong) (auto simp: nth_append)
  with snoc show ?case by simp
qed simp

text \<open>On a valid tree \<open>SelectRoots\<close> returns, and keeps exactly the listed ids that exist and have no
  listed ancestor, in their order. An id that is listed twice is kept twice.\<close>

lemma SelectRoots_topmost:
  assumes "fst (Validate ss) = None" "own_ids ss"
  shows "SelectRoots ss ids = Some [i \<leftarrow> ids. Exists ss i \<and>
    \<not> (\<exists>p\<in>set ids. reach ss (root_of ss) p \<and> (p, i) \<in> (child ss)\<^sup>+)]"
proof -
  have t: "tree ss (root_of ss)" using assms(1) Validate_iff_tree by blast
  note an = ancestor_facts [OF tree_acyclic [OF t]]
  let ?anc = "\<lambda>p c. (p, c) \<in> ancestor ss"
  have total: "\<exists>ss'. IsChild ss p c = Some (?anc p c, ss')" for p c
    using climb_correct [OF t assms(2)] by (simp add: IsChild_def ancestor_def)
  obtain d where m: "select_outer ss ids [0..<length ids] (replicate (length ids) False) = Some d"
    "\<forall>k<length ids. d ! k \<longrightarrow> replicate (length ids) False ! k \<or> \<not> Exists ss (ids ! k) \<or> (\<exists>i\<in>set [0..<length ids]. ?anc (ids ! i) (ids ! k))"
    "\<forall>i\<in>set [0..<length ids]. \<not> d ! i \<longrightarrow> Exists ss (ids ! i) \<and> (\<forall>k<length ids. ?anc (ids ! i) (ids ! k) \<longrightarrow> d ! k)"
    by (rule exE [OF select_outer_marks [where ss = ss and anc = ?anc and idx = "[0..<length ids]" and d = "replicate (length ids) False" and ids = ids, OF total an(3)]])
       (simp, simp, blast)
  have d: "select_outer ss ids [0..<length ids] (replicate (length ids) False) = Some d"
    "\<And>k. k < length ids \<Longrightarrow> d ! k \<Longrightarrow> \<not> Exists ss (ids ! k) \<or> (\<exists>i<length ids. ?anc (ids ! i) (ids ! k))"
    "\<And>i. i < length ids \<Longrightarrow> \<not> d ! i \<Longrightarrow> Exists ss (ids ! i) \<and> (\<forall>k<length ids. ?anc (ids ! i) (ids ! k) \<longrightarrow> d ! k)"
    subgoal by (rule m(1))
    subgoal for k using m(2) [rule_format, of k] by (auto simp del: fun_upd_apply)
    subgoal for i using m(3) [rule_format, of i] by simp
    done
  have kept: "\<not> d ! k \<longleftrightarrow> Exists ss (ids ! k) \<and> \<not> (\<exists>p\<in>set ids. ?anc p (ids ! k))" if k: "k < length ids" for k
  proof
    assume nd: "\<not> d ! k"
    have False if "p \<in> set ids" "?anc p (ids ! k)" for p
    proof -
      obtain q where q: "q \<in> set ids" "?anc q (ids ! k)" "\<forall>z\<in>set ids. \<not> ?anc z q"
        using topmost_listed [OF an(1,2) \<open>?anc p (ids ! k)\<close> \<open>p \<in> set ids\<close>] by blast
      then obtain m where m: "m < length ids" "ids ! m = q" by (metis in_set_conv_nth)
      then have "\<not> d ! m" using d(2) [of m] q an(4) by (metis nth_mem)
      then show False using d(3) [OF m(1)] m(2) q(2) k nd by blast
    qed
    then show "Exists ss (ids ! k) \<and> \<not> (\<exists>p\<in>set ids. ?anc p (ids ! k))" using d(3) [OF k nd] by blast
  qed (use d(2) [OF k] in \<open>metis nth_mem\<close>)
  have "[ids ! i. i \<leftarrow> [0..<length ids], \<not> d ! i] =
      [ids ! i. i \<leftarrow> [0..<length ids], Exists ss (ids ! i) \<and> \<not> (\<exists>p\<in>set ids. ?anc p (ids ! i))]"
    using kept by (intro arg_cong [of _ _ concat] map_cong) auto
  also have "\<dots> = [i \<leftarrow> ids. Exists ss i \<and> \<not> (\<exists>p\<in>set ids. ?anc p i)]" by (rule filter_positions)
  finally show ?thesis using d(1) by (simp add: SelectRoots_def ancestor_def)
qed

subsection \<open>An example\<close>

text \<open>A root with two children, one of which has a child, below an empty new state.\<close>

definition sample_block :: "string \<Rightarrow> string list \<Rightarrow> Block" where
  "sample_block i cs =
     \<lparr>Id = i, ChildrenIds = cs, Restrictions = None, Fields = [], BackgroundColor = [], Align = 0, VerticalAlign = 0,
      Content = CSmartblock\<rparr>"

definition empty_state :: State where
  "empty_state =
     \<lparr>st_blocks = [], st_rootId = ''r'', st_uniqueKeyInternal = [], st_newIds = [], st_changeId = [], st_changes = [], st_fileInfo = ([], []),
      st_fileKeys = [], st_details = None, st_localDetails = None, st_relationLinks = None, st_notifications = None, st_deviceStore = None,
      st_migrationVersion = 0, st_store = None, st_storeKeyRemoved = None, st_storeLastChangeIdByPath = None, st_objectTypeKeys = None,
      st_noObjectType = False, st_changesStructureIgnoreIds = [], st_originalCreatedTimestamp = 0\<rparr>"

definition sample :: "State list" where
  "sample = NewState [empty_state\<lparr>st_blocks :=
     [(''r'', sample_block ''r'' [''a'', ''b'']), (''a'', sample_block ''a'' [''c'']),
      (''b'', sample_block ''b'' []), (''c'', sample_block ''c'' [])]\<rparr>]"

lemma own_idsI: "list_all (\<lambda>s. list_all (\<lambda>kb. Id (snd kb) = fst kb) (st_blocks s)) ss \<Longrightarrow> own_ids ss"
  unfolding own_ids_def
  by (induction ss) (force simp: list_all_iff split: option.splits dest!: map_of_SomeD)+

lemma sample_valid: "fst (Validate sample) = None" "own_ids sample" "root_of sample = ''r''"
  subgoal by code_simp
  subgoal by (rule own_idsI) code_simp
  subgoal by code_simp
  done

lemma sample_acyclic: "acyclic_from sample (root_of sample)"
  using sample_valid(1) tree_acyclic Validate_iff_tree by blast

theorem Iterate_cycle_witness:
  "fst (Iterate sample (\<lambda>n b. (n + 1, True)) (0::nat)) = 4 \<and> acyclic_from sample (root_of sample)"
proof -
  have "fst (Iterate sample (\<lambda>n b. (n + 1, True)) (0::nat)) = 4" "fst (snd (Iterate sample (\<lambda>n b. (n + 1, True)) (0::nat))) = None"
    by code_simp+
  then show ?thesis using Iterate_cycle [of "\<lambda>n b. (n + 1, True)" sample "0::nat"] by simp
qed

theorem IsChild_ancestor_witness:
  "reach sample (root_of sample) ''r'' \<and> (''r'', ''c'') \<in> (child sample)\<^sup>+"
proof -
  have "map_option fst (IsChild sample ''r'' ''c'') = Some True" by code_simp
  then show ?thesis using IsChild_ancestor [OF sample_valid(1,2), of "''r''" "''c''"] by simp
qed

lemma Blocks_walk_example:
  "\<exists>bs. Blocks sample = Some (bs, sample) \<and> map Id bs = [''r'', ''a'', ''b'', ''c''] \<and>
    set bs = {b. \<exists>x. reach sample (root_of sample) x \<and> Pick sample x = Some b}"
proof -
  have "map_option (map Id \<circ> fst) (Blocks sample) = Some [''r'', ''a'', ''b'', ''c'']" "snd (RootId sample) = sample"
    by code_simp+
  then show ?thesis using Blocks_walk [OF sample_acyclic] by auto
qed

lemma SelectRoots_topmost_example:
  "SelectRoots sample [''c'', ''x'', ''a'', ''b'', ''b''] = Some [''a'', ''b'', ''b''] \<and>
   [''a'', ''b'', ''b''] = [i \<leftarrow> [''c'', ''x'', ''a'', ''b'', ''b'']. Exists sample i \<and>
     \<not> (\<exists>p\<in>set [''c'', ''x'', ''a'', ''b'', ''b'']. reach sample (root_of sample) p \<and> (p, i) \<in> (child sample)\<^sup>+)]"
proof -
  have "SelectRoots sample [''c'', ''x'', ''a'', ''b'', ''b''] = Some [''a'', ''b'', ''b'']" by code_simp
  then show ?thesis using SelectRoots_topmost [OF sample_valid(1,2), of "[''c'', ''x'', ''a'', ''b'', ''b'']"] by simp
qed

theorem ApplyStateFast_view_witness:
  "list_all wf_state (put_block ''b'' (sample_block ''b'' [''d'']) sample) \<and>
   view (ApplyStateFast (put_block ''b'' (sample_block ''b'' [''d'']) sample)) = view (put_block ''b'' (sample_block ''b'' [''d'']) sample)"
proof -
  have "list_all wf_state (put_block ''b'' (sample_block ''b'' [''d'']) sample)"
    by (simp add: sample_def NewState_def empty_state_def sample_block_def wf_state_def)
  then show ?thesis using ApplyStateFast_view by blast
qed

end
