(* ===== verification/BlockInsert.thy ===== *)
theory BlockInsert
  imports BlockState
begin

section \<open>Inserting and moving blocks (core/block/editor/state/position.go)\<close>

text \<open>
  \<open>InsertTo\<close> places blocks relative to a target block, \<open>Unlink\<close> removes a block from its parent.
  Inserting to the left or right of a block wraps blocks into columns of a row and records the moves
  with a \<open>changeBuilder\<close>. Placement can fail with an error after the state has changed, so the result
  holds both; a nil pointer dereference is \<^term>\<open>None\<close>. The parameter \<open>md5\<close> is the digest function of
  the standard library.
\<close>

subsection \<open>The change builder (change.go)\<close>

record changeBuilder =
  cb_changes :: "change_content list"
  cb_isLastAdd :: bool
  cb_lastTargetId :: string
  cb_lastPosition :: BlockPosition
  cb_lastIds :: "string list"
  cb_lastBlocks :: "Block list"

definition newBuilder :: "change_content list \<Rightarrow> changeBuilder" where
  "newBuilder chs =
     \<lparr>cb_changes = chs, cb_isLastAdd = False, cb_lastTargetId = [], cb_lastPosition = Block_None,
      cb_lastIds = [], cb_lastBlocks = []\<rparr>"

definition Flush :: "changeBuilder \<Rightarrow> changeBuilder" where
  "Flush cb =
     (if cb_lastTargetId cb = [] then cb
      else
        (let chs = (if cb_isLastAdd cb \<and> cb_lastBlocks cb \<noteq> []
                    then cb_changes cb @ [BlockCreate (cb_lastTargetId cb) (cb_lastPosition cb) (cb_lastBlocks cb)]
                    else if \<not> cb_isLastAdd cb \<and> cb_lastIds cb \<noteq> []
                    then cb_changes cb @ [BlockMove (cb_lastTargetId cb) (cb_lastPosition cb) (cb_lastIds cb)]
                    else cb_changes cb)
         in cb\<lparr>cb_changes := chs, cb_lastTargetId := [], cb_lastBlocks := [], cb_lastIds := []\<rparr>))"

definition Move :: "string \<Rightarrow> BlockPosition \<Rightarrow> string \<Rightarrow> changeBuilder \<Rightarrow> changeBuilder" where
  "Move targetId pos i cb =
     (let cb = (if cb_isLastAdd cb \<or> cb_lastTargetId cb \<noteq> targetId \<or> cb_lastPosition cb \<noteq> pos then Flush cb else cb)
      in cb\<lparr>cb_isLastAdd := False, cb_lastTargetId := targetId, cb_lastPosition := pos, cb_lastIds := cb_lastIds cb @ [i]\<rparr>)"

definition Add_change :: "string \<Rightarrow> BlockPosition \<Rightarrow> Block \<Rightarrow> changeBuilder \<Rightarrow> changeBuilder" where
  "Add_change targetId pos m cb =
     (let cb = (if \<not> cb_isLastAdd cb \<or> cb_lastTargetId cb \<noteq> targetId \<or> cb_lastPosition cb \<noteq> pos then Flush cb else cb)
      in cb\<lparr>cb_isLastAdd := True, cb_lastTargetId := targetId, cb_lastPosition := pos,
           cb_lastBlocks := cb_lastBlocks cb @ [m\<lparr>ChildrenIds := []\<rparr>]\<rparr>)"

definition AddChange :: "change_content list \<Rightarrow> changeBuilder \<Rightarrow> changeBuilder" where
  "AddChange chs cb = (let cb = Flush cb in cb\<lparr>cb_changes := cb_changes cb @ chs\<rparr>)"

definition Build :: "changeBuilder \<Rightarrow> change_content list" where
  "Build cb = cb_changes (Flush cb)"

subsection \<open>Children of a block\<close>

definition setChildrenIds :: "Block \<Rightarrow> string list \<Rightarrow> Block" where
  "setChildrenIds parent childrenIds = parent\<lparr>ChildrenIds := childrenIds\<rparr>"

definition removeChildren :: "Block \<Rightarrow> string \<Rightarrow> Block" where
  "removeChildren parent childrenId = parent\<lparr>ChildrenIds := RemoveMut (ChildrenIds parent) childrenId\<rparr>"

definition prependChildrenIds :: "Block \<Rightarrow> string list \<Rightarrow> Block" where
  "prependChildrenIds block ids = setChildrenIds block (ChildrenIds block @ ids)"

definition appendChildrenIds :: "Block \<Rightarrow> string list \<Rightarrow> Block" where
  "appendChildrenIds block ids = setChildrenIds block (ids @ ChildrenIds block)"

text \<open>\<open>slice.Insert\<close> panics on a negative position, which gives \<^term>\<open>None\<close>.\<close>

definition insertChildrenIds :: "Block \<Rightarrow> int \<Rightarrow> string list \<Rightarrow> Block option" where
  "insertChildrenIds block pos ids = map_option (setChildrenIds block) (Insert_s (ChildrenIds block) pos ids)"

definition Unlink :: "State list \<Rightarrow> string \<Rightarrow> bool \<times> State list" where
  "Unlink ss blockId =
     (case GetParentOf ss blockId of
        (Some parent, ss') \<Rightarrow> (True, put_block (Id parent) (removeChildren parent blockId) ss')
      | (None, ss') \<Rightarrow> (False, ss'))"

subsection \<open>Rows and columns\<close>

definition layout_Row :: int where "layout_Row = 0"

definition layout_Column :: int where "layout_Column = 1"

definition new_layout :: "string \<Rightarrow> string list \<Rightarrow> int \<Rightarrow> Block" where
  "new_layout i children style =
     \<lparr>Id = i, ChildrenIds = children, Restrictions = None, Fields = [], BackgroundColor = [], Align = 0,
      VerticalAlign = 0, Content = CLayout style\<rparr>"

text \<open>
  The new blocks with the state they were added to. The flag of \<open>Add\<close> tells whether the block is
  part of the state: a block with the same id may already be there, and then changes of the new one
  are not visible.
\<close>

definition addNewColumn :: "State list \<Rightarrow> string \<Rightarrow> string list \<Rightarrow> Block \<times> bool \<times> State list" where
  "addNewColumn ss opId ids = (let column = new_layout (''cd-'' @ opId) ids layout_Column in (column, Add_block ss column))"

definition addNewColumnToRow :: "State list \<Rightarrow> string \<Rightarrow> Block \<Rightarrow> Block \<times> bool \<times> State list" where
  "addNewColumnToRow ss opId column = (let row = new_layout (''r-'' @ opId) [Id column] layout_Row in (row, Add_block ss row))"

definition addNewBlockAndWrapToColumn :: "State list \<Rightarrow> string \<Rightarrow> Block \<Rightarrow> Block \<times> bool \<times> State list" where
  "addNewBlockAndWrapToColumn ss opId b =
     (let column = new_layout (''ct-'' @ opId) [Id b] layout_Column in (column, Add_block ss column))"

text \<open>The hexadecimal digest of the target, the position and the ids, each followed by a dash.\<close>

definition hex_digit :: "nat \<Rightarrow> char" where
  "hex_digit n = ''0123456789abcdef'' ! n"

definition hex_EncodeToString :: "nat list \<Rightarrow> string" where
  "hex_EncodeToString bytes = concat (map (\<lambda>x. [hex_digit (x div 16 mod 16), hex_digit (x mod 16)]) bytes)"

fun pos_number :: "BlockPosition \<Rightarrow> nat" where
  "pos_number Block_None = 0"
| "pos_number Block_Top = 1"
| "pos_number Block_Bottom = 2"
| "pos_number Block_Left = 3"
| "pos_number Block_Right = 4"
| "pos_number Block_Inner = 5"
| "pos_number Block_Replace = 6"
| "pos_number Block_InnerFirst = 7"

definition makeOpId :: "(nat list \<Rightarrow> nat list) \<Rightarrow> Block \<Rightarrow> BlockPosition \<Rightarrow> string list \<Rightarrow> string" where
  "makeOpId md5 target pos ids =
     (let bytes = map (of_char :: char \<Rightarrow> nat); dash = bytes ''-''
      in hex_EncodeToString (md5 (bytes (Id target) @ dash @ [pos_number pos, 0, 0, 0] @ dash @
           concat (map (\<lambda>i. bytes i @ dash) ids))))"

datatype insert_error =
    RootNotFound | TargetNotFound | TargetWithoutParent | ContainsTarget | ContainsParent | NotAChild string string
  | UnexpectedPosition | TargetHasNoParent | NothingToDo | NotAChildOfRow string string | CreatingRow string string

type_synonym insert_result = "insert_error option \<times> State list"

definition wrapToRow :: "State list \<Rightarrow> string \<Rightarrow> Block \<Rightarrow> Block \<Rightarrow> (insert_error + Block \<times> bool) \<times> State list" where
  "wrapToRow ss opId parent b =
     (case addNewBlockAndWrapToColumn ss opId b of (column, _, ss1) \<Rightarrow>
      (case addNewColumnToRow ss1 opId column of (row, added, ss2) \<Rightarrow>
        (let pos = FindPos (ChildrenIds parent) (Id b)
         in if pos = -1 then (Inl (CreatingRow (Id b) (Id parent)), ss2)
            else (Inr (row, added),
                  put_block (Id parent) (setChildrenIds parent ((ChildrenIds parent)[nat pos := Id row])) ss2))))"

datatype operation = operationNone | operationAdd | operationMove

fun side_changes :: "string \<Rightarrow> BlockPosition \<Rightarrow> string \<Rightarrow> operation \<Rightarrow> string list \<Rightarrow> changeBuilder \<Rightarrow> State list \<Rightarrow>
    changeBuilder \<times> State list" where
  "side_changes targetID pos lastTargetID lastOperation [] cb ss = (cb, ss)"
| "side_changes targetID pos lastTargetID lastOperation (i # ids) cb ss =
     (if Exists (tl ss) i then
        (let (targetID, pos) = (if lastOperation = operationAdd then (lastTargetID, Block_Bottom) else (targetID, pos))
         in side_changes targetID pos i operationMove ids (Move targetID pos i cb) ss)
      else
        (case Get_block ss i of
           (Some blockToAdd, ss) \<Rightarrow>
             (let (targetID, pos) = (if lastOperation = operationMove then (lastTargetID, Block_Bottom) else (targetID, pos))
              in side_changes targetID pos i operationAdd ids (Add_change targetID pos blockToAdd cb) ss)
         | (None, ss) \<Rightarrow> side_changes targetID pos lastTargetID lastOperation ids cb ss))"

fun set_changes :: "change_content list \<Rightarrow> State list \<Rightarrow> State list" where
  "set_changes chs (s # ps) = s\<lparr>st_changes := chs\<rparr> # ps"
| "set_changes chs [] = []"

fun ignore_structure :: "string list \<Rightarrow> State list \<Rightarrow> State list" where
  "ignore_structure ids (s # ps) = s\<lparr>st_changesStructureIgnoreIds := st_changesStructureIgnoreIds s @ ids\<rparr> # ps"
| "ignore_structure ids [] = []"

definition addChangesForSideMoving :: "State list \<Rightarrow> string \<Rightarrow> BlockPosition \<Rightarrow> string list \<Rightarrow> State list" where
  "addChangesForSideMoving ss targetID pos ids =
     (case side_changes targetID pos targetID operationNone ids (newBuilder (st_changes (hd ss))) ss of
        (cb, ss') \<Rightarrow> set_changes (Build cb) ss')"

definition is_row :: "Block \<Rightarrow> bool" where
  "is_row b \<longleftrightarrow> Content b = CLayout layout_Row"

text \<open>The last part of \<open>moveFromSide\<close>: the new column goes next to the target in the row.\<close>

definition insert_column :: "State list \<Rightarrow> string \<Rightarrow> Block \<Rightarrow> bool \<Rightarrow> string \<Rightarrow> BlockPosition \<Rightarrow> string list \<Rightarrow> insert_result option" where
  "insert_column ss opId row attached targetId pos ids =
     (case addNewColumn ss opId ids of (column, _, ss) \<Rightarrow>
       (let targetPos = FindPos (ChildrenIds row) targetId
        in if targetPos = -1 then Some (Some (NotAChildOfRow targetId (Id row)), ss)
           else
             (case insertChildrenIds row (if pos = Block_Right then targetPos + 1 else targetPos) [Id column] of
                None \<Rightarrow> None
              | Some row' \<Rightarrow>
                  Some (None, ignore_structure [''cd-'' @ opId, ''ct-'' @ opId, ''r-'' @ opId, Id row]
                    (if attached then put_block (Id row) row' ss else ss)))))"

definition moveFromSide :: "(nat list \<Rightarrow> nat list) \<Rightarrow> State list \<Rightarrow> Block \<Rightarrow> Block option \<Rightarrow> BlockPosition \<Rightarrow> string list \<Rightarrow>
    insert_result option" where
  "moveFromSide md5 ss target parent pos ids =
     (let ss = addChangesForSideMoving ss (Id target) pos ids; opId = makeOpId md5 target pos ids
      in case parent of
           None \<Rightarrow> Some (Some TargetHasNoParent, ss)
         | Some row \<Rightarrow>
             if Exists ss (''cd-'' @ opId) then Some (Some NothingToDo, ss)
             else if \<not> is_row row then
               (case wrapToRow (ignore_structure [Id row] ss) opId row target of
                  (Inl err, ss) \<Rightarrow> Some (Some err, ss)
                | (Inr (row, attached), ss) \<Rightarrow>
                    (case Get_block ss (hd (ChildrenIds row)) of
                       (None, ss) \<Rightarrow> None
                     | (Some target, ss) \<Rightarrow> insert_column ss opId row attached (Id target) pos ids))
             else insert_column ss opId row True (Id target) pos ids)"

text \<open>Only text blocks take over the children of the block they replace.\<close>

definition canInheritChildren :: "Block \<Rightarrow> bool" where
  "canInheritChildren b = (case Content b of CText _ \<Rightarrow> True | _ \<Rightarrow> False)"

definition insertReplace :: "State list \<Rightarrow> Block \<Rightarrow> Block \<Rightarrow> int \<Rightarrow> string list \<Rightarrow> State list option" where
  "insertReplace ss target targetParentM targetPos ids =
     (if ids = [] then Some ss
      else
       (case Get_block ss (hd ids) of
          (None, ss) \<Rightarrow> None
        | (Some id0Block, ss) \<Rightarrow>
           (let canInherit = canInheritChildren id0Block;
                pos = (if \<not> canInherit then targetPos else targetPos + 1);
                targetChild = ChildrenIds target;
                targetHasChildren = (ChildrenIds id0Block = [] \<and> targetChild \<noteq> []);
                idsIsChild = list_ex (\<lambda>i. FindPos targetChild i \<noteq> -1) ids;
                ss = (if ChildrenIds id0Block = [] \<and> \<not> (targetHasChildren \<and> idsIsChild) \<and> canInherit
                      then put_block (Id id0Block) (setChildrenIds id0Block targetChild) ss else ss)
            in case insertChildrenIds targetParentM pos ids of
                 None \<Rightarrow> None
               | Some p \<Rightarrow>
                   (let ss = put_block (Id p) p ss
                    in Some (if canInherit \<or> \<not> targetHasChildren then snd (Unlink ss (Id target)) else ss)))))"

text \<open>
  \<open>InsertTo\<close>: the first part finds the target and, for the positions around it, its parent and its
  position there; the second part checks the ids and inserts.
\<close>

definition find_target :: "State list \<Rightarrow> string \<Rightarrow> BlockPosition \<Rightarrow>
    (insert_error + Block \<times> Block option \<times> int \<times> BlockPosition) \<times> State list" where
  "find_target ss targetId reqPos =
     (if targetId = [] then
        (case RootId ss of (r, ss) \<Rightarrow>
          (case Get_block ss r of
             (None, ss) \<Rightarrow> (Inl RootNotFound, ss)
           | (Some target, ss) \<Rightarrow>
               (Inr (target, None, 0, if reqPos \<noteq> Block_InnerFirst then Block_Inner else reqPos), ss)))
      else
        (case Get_block ss targetId of
           (None, ss) \<Rightarrow> (Inl TargetNotFound, ss)
         | (Some target, ss) \<Rightarrow>
             if reqPos \<noteq> Block_Inner \<and> reqPos \<noteq> Block_InnerFirst then
               (case GetParentOf ss targetId of
                  (None, ss) \<Rightarrow> (Inl TargetWithoutParent, ss)
                | (Some pv, ss) \<Rightarrow> (Inr (target, Some pv, FindPos (ChildrenIds pv) (Id target), reqPos), ss))
             else (Inr (target, None, 0, reqPos), ss)))"

definition write_block :: "State list \<Rightarrow> Block option \<Rightarrow> insert_result option" where
  "write_block ss b = map_option (\<lambda>b. (None, put_block (Id b) b ss)) b"

definition insert_at :: "(nat list \<Rightarrow> nat list) \<Rightarrow> State list \<Rightarrow> Block \<Rightarrow> Block option \<Rightarrow> int \<Rightarrow> BlockPosition \<Rightarrow> string list \<Rightarrow>
    insert_result option" where
  "insert_at md5 ss target targetParentM targetPos reqPos ids =
     (case reqPos of
        Block_Bottom \<Rightarrow> Option.bind targetParentM (\<lambda>p. write_block ss (insertChildrenIds p (targetPos + 1) ids))
      | Block_Top \<Rightarrow> Option.bind targetParentM (\<lambda>p. write_block ss (insertChildrenIds p targetPos ids))
      | Block_Left \<Rightarrow> Option.bind targetParentM (\<lambda>p. case Get_block ss (Id p) of (parent, ss) \<Rightarrow> moveFromSide md5 ss target parent reqPos ids)
      | Block_Right \<Rightarrow> Option.bind targetParentM (\<lambda>p. case Get_block ss (Id p) of (parent, ss) \<Rightarrow> moveFromSide md5 ss target parent reqPos ids)
      | Block_Inner \<Rightarrow> write_block ss (Some (prependChildrenIds target ids))
      | Block_Replace \<Rightarrow> Option.bind targetParentM (\<lambda>p. map_option (\<lambda>ss. (None, ss)) (insertReplace ss target p targetPos ids))
      | Block_InnerFirst \<Rightarrow> write_block ss (Some (appendChildrenIds target ids))
      | Block_None \<Rightarrow> Some (Some UnexpectedPosition, ss))"

definition InsertTo :: "(nat list \<Rightarrow> nat list) \<Rightarrow> State list \<Rightarrow> string \<Rightarrow> BlockPosition \<Rightarrow> string list \<Rightarrow> insert_result option" where
  "InsertTo md5 ss targetId reqPos ids =
     (if ids = [] then Some (None, ss)
      else
       (case find_target ss targetId reqPos of
          (Inl err, ss) \<Rightarrow> Some (Some err, ss)
        | (Inr (target, targetParentM, targetPos, reqPos), ss) \<Rightarrow>
            if targetId \<noteq> [] \<and> FindPos ids targetId \<noteq> -1 then Some (Some ContainsTarget, ss)
            else if (case targetParentM of Some p \<Rightarrow> FindPos ids (Id p) \<noteq> -1 | None \<Rightarrow> False) then Some (Some ContainsParent, ss)
            else if targetPos = -1 then
              Some (Some (NotAChild (Id target) (case targetParentM of Some p \<Rightarrow> Id p | None \<Rightarrow> [])), ss)
            else insert_at md5 ss target targetParentM targetPos reqPos ids))"

subsection \<open>What the operations do to lookups\<close>

text \<open>The state has blocks and knows the id of its root.\<close>

definition rooted :: "State list \<Rightarrow> string \<Rightarrow> bool" where
  "rooted ss r \<longleftrightarrow> ss \<noteq> [] \<and> st_rootId (hd ss) = r \<and> r \<noteq> []"

lemma rooted_RootId [simp]: "rooted ss r \<Longrightarrow> RootId ss = (r, ss)"
  by (cases ss) (auto simp: rooted_def)

lemma rooted_nonempty [simp]: "rooted ss r \<Longrightarrow> ss \<noteq> []"
  by (simp add: rooted_def)

lemma rooted_put_block [simp]: "rooted (put_block i b ss) r \<longleftrightarrow> rooted ss r"
  by (cases ss) (auto simp: rooted_def)

lemma rooted_Get_block [simp]: "rooted (snd (Get_block ss i)) r \<longleftrightarrow> rooted ss r"
proof -
  have "st_rootId (hd (snd (Get_block ss i))) = st_rootId (hd ss)"
    by (cases ss) (simp_all split: option.split)
  then show ?thesis by (simp add: rooted_def)
qed

lemma rooted_updates [simp]:
  "rooted (set_changes chs ss) r \<longleftrightarrow> rooted ss r" "rooted (ignore_structure ids ss) r \<longleftrightarrow> rooted ss r"
  by (cases ss; auto simp: rooted_def)+

lemma Pick_updates [simp]:
  "Pick (set_changes chs ss) = Pick ss" "Pick (ignore_structure ids ss) = Pick ss"
  "tl (set_changes chs ss) = tl ss" "tl (ignore_structure ids ss) = tl ss"
  "set_changes chs ss = [] \<longleftrightarrow> ss = []" "ignore_structure ids ss = [] \<longleftrightarrow> ss = []"
  by (cases ss; auto simp: fun_eq_iff)+

lemma Get_blockE:
  assumes "Pick ss i = Some b"
  obtains ss' where "Get_block ss i = (Some b, ss')" "Pick ss' = Pick ss" "tl ss' = tl ss" "ss' \<noteq> []"
    "\<And>r. rooted ss' r = rooted ss r"
  using assms Get_block_state [of ss i] Get_block_fst [of ss i] rooted_Get_block [of ss i]
  by (cases "Get_block ss i") (auto simp del: Get_block_state Get_block_fst rooted_Get_block)

lemma links_cong:
  assumes "Pick ss = Pick ss'"
  shows "child ss = child ss'" "reach ss = reach ss'" "tree ss = tree ss'" "acyclic_from ss = acyclic_from ss'" "own_ids ss = own_ids ss'"
proof -
  show c: "child ss = child ss'" using assms by (simp add: child_def)
  show r: "reach ss = reach ss'" by (simp add: reach_def c fun_eq_iff)
  show "acyclic_from ss = acyclic_from ss'" by (simp add: acyclic_from_def c r fun_eq_iff)
  show "tree ss = tree ss'" by (simp add: tree_def c r assms Exists_def fun_eq_iff)
  show "own_ids ss = own_ids ss'" using assms by (simp add: own_ids_def)
qed

lemma GetParentOf_tree:
  assumes "rooted ss r" "tree ss r" "own_ids ss" "reach ss r p" "Pick ss p = Some pb" "i \<in> set (ChildrenIds pb)"
  obtains ss' where "GetParentOf ss i = (Some pb, ss')" "Pick ss' = Pick ss" "tl ss' = tl ss" "rooted ss' r"
proof -
  have root: "RootId ss = (r, ss)" using assms(1) by simp
  have "fst (PickParentOf ss i) \<noteq> None"
    using PickParentOf_complete [of ss p i] tree_acyclic [OF assms(2)] assms root by auto
  then obtain q where q: "fst (PickParentOf ss i) = Some q" by blast
  obtain x where x: "reach ss r x" "Pick ss x = Some q" "i \<in> set (ChildrenIds q)"
    using PickParentOf_sound [OF q] root by auto
  then have "x = p" using tree_parent [OF assms(2) x(1) assms(4), of i] assms(5,6) by auto
  then have pick: "PickParentOf ss i = (Some pb, ss)" "Id pb = p"
    using q x assms(3,5) root by (auto simp: own_ids_def prod_eq_iff)
  obtain ss' where "Get_block ss p = (Some pb, ss')" "Pick ss' = Pick ss" "tl ss' = tl ss" "rooted ss' r"
    using Get_blockE [OF assms(5)] assms(1) by metis
  then show thesis using that pick by (simp add: GetParentOf_def)
qed

lemma Unlink_tree:
  assumes "rooted ss r" "tree ss r" "own_ids ss" "reach ss r p" "Pick ss p = Some pb" "i \<in> set (ChildrenIds pb)"
  obtains ss' where "Unlink ss i = (True, ss')" "Pick ss' = (Pick ss)(p \<mapsto> removeChildren pb i)" "tl ss' = tl ss" "rooted ss' r"
proof -
  obtain ss' where s: "GetParentOf ss i = (Some pb, ss')" "Pick ss' = Pick ss" "tl ss' = tl ss" "rooted ss' r"
    using GetParentOf_tree [OF assms] .
  moreover have "Id pb = p" using assms(3,5) by (simp add: own_ids_def)
  ultimately show thesis
    by (intro that [of "put_block p (removeChildren pb i) ss'"]) (simp_all add: Unlink_def)
qed

lemma find_target_inner:
  assumes "Pick ss targetId = Some b" "targetId \<noteq> []" "pos = Block_Inner \<or> pos = Block_InnerFirst"
  obtains ss' where "find_target ss targetId pos = (Inr (b, None, 0, pos), ss')" "Pick ss' = Pick ss" "tl ss' = tl ss" "ss' \<noteq> []"
    "\<And>r. rooted ss' r = rooted ss r"
proof -
  obtain ss' where "Get_block ss targetId = (Some b, ss')" "Pick ss' = Pick ss" "tl ss' = tl ss" "ss' \<noteq> []" "\<And>r. rooted ss' r = rooted ss r"
    using Get_blockE [OF assms(1)] by metis
  then show thesis using assms by (intro that [of ss']) (auto simp: find_target_def)
qed

lemma find_target_beside:
  assumes "rooted ss r" "tree ss r" "own_ids ss" "reach ss r p" "Pick ss p = Some pb" "targetId \<in> set (ChildrenIds pb)"
    "targetId \<noteq> []" "pos \<noteq> Block_Inner" "pos \<noteq> Block_InnerFirst" "Pick ss targetId = Some b"
  obtains ss' where "find_target ss targetId pos = (Inr (b, Some pb, FindPos (ChildrenIds pb) targetId, pos), ss')"
    "Pick ss' = Pick ss" "tl ss' = tl ss" "rooted ss' r"
proof -
  obtain s1 where s1: "Get_block ss targetId = (Some b, s1)" "Pick s1 = Pick ss" "tl s1 = tl ss" "rooted s1 r"
    using Get_blockE [OF assms(10)] assms(1) by metis
  obtain s2 where s2: "GetParentOf s1 targetId = (Some pb, s2)" "Pick s2 = Pick s1" "tl s2 = tl s1" "rooted s2 r"
    using GetParentOf_tree [of s1 r p pb targetId] assms(2-6) links_cong [OF s1(2)] s1 by auto
  moreover have "Id b = targetId" using assms(3,10) by (simp add: own_ids_def)
  ultimately show thesis using s1 assms(7-9) by (intro that [of s2]) (auto simp: find_target_def)
qed

subsection \<open>Placement\<close>

text \<open>The list \<open>xs @ t # ys\<close> of children with \<open>ids\<close> placed above or under \<open>t\<close>.\<close>

definition beside :: "BlockPosition \<Rightarrow> string list \<Rightarrow> string \<Rightarrow> string list \<Rightarrow> string list \<Rightarrow> string list" where
  "beside pos xs t ys ids = (if pos = Block_Top then xs @ ids @ t # ys else xs @ t # ids @ ys)"

definition inside :: "BlockPosition \<Rightarrow> string list \<Rightarrow> string list \<Rightarrow> string list" where
  "inside pos xs ids = (if pos = Block_InnerFirst then ids @ xs else xs @ ids)"

lemma InsertTo_beside:
  assumes "rooted ss r" "tree ss r" "own_ids ss" "reach ss r p" "Pick ss p = Some pb" "ChildrenIds pb = xs @ t # ys"
    "t \<noteq> []" "pos = Block_Top \<or> pos = Block_Bottom" "ids \<noteq> []" "t \<notin> set ids" "p \<notin> set ids"
  obtains ss' where "InsertTo md5 ss t pos ids = Some (None, ss')"
    "Pick ss' = (Pick ss)(p \<mapsto> pb\<lparr>ChildrenIds := beside pos xs t ys ids\<rparr>)" "tl ss' = tl ss" "rooted ss' r"
proof -
  have "distinct (ChildrenIds pb)" "Exists ss t" using tree_children [OF assms(2,4,5)] assms(6) by simp_all
  then obtain b where b: "Pick ss t = Some b" "t \<notin> set xs" using assms(6) by (auto simp: Exists_def)
  obtain s1 where s1: "find_target ss t pos = (Inr (b, Some pb, int (length xs), pos), s1)" "Pick s1 = Pick ss" "tl s1 = tl ss" "rooted s1 r"
    using find_target_beside [OF assms(1-5) _ assms(7), of pos b] assms(6,8) b FindPos_split [OF b(2), of ys] by auto
  have own: "Id pb = p" using assms(3,5) by (simp add: own_ids_def)
  have ch: "insertChildrenIds pb (if pos = Block_Top then int (length xs) else int (length xs) + 1) ids =
      Some (pb\<lparr>ChildrenIds := beside pos xs t ys ids\<rparr>)"
    using assms(6) by (simp add: insertChildrenIds_def setChildrenIds_def beside_def nat_add_distrib)
  show thesis
  proof (rule that)
    show "InsertTo md5 ss t pos ids = Some (None, put_block p (pb\<lparr>ChildrenIds := beside pos xs t ys ids\<rparr>) s1)"
      using s1 assms(7-11) ch own by (auto simp: InsertTo_def insert_at_def write_block_def)
  qed (use s1 in simp_all)
qed

lemma InsertTo_inside:
  assumes "Pick ss t = Some b" "own_ids ss" "t \<noteq> []" "pos = Block_Inner \<or> pos = Block_InnerFirst" "ids \<noteq> []" "t \<notin> set ids"
  obtains ss' where "InsertTo md5 ss t pos ids = Some (None, ss')"
    "Pick ss' = (Pick ss)(t \<mapsto> b\<lparr>ChildrenIds := inside pos (ChildrenIds b) ids\<rparr>)" "tl ss' = tl ss" "\<And>r. rooted ss' r = rooted ss r"
proof -
  obtain s1 where s1: "find_target ss t pos = (Inr (b, None, 0, pos), s1)" "Pick s1 = Pick ss" "tl s1 = tl ss" "s1 \<noteq> []" "\<And>r. rooted s1 r = rooted ss r"
    using find_target_inner [OF assms(1,3,4)] by metis
  have own: "Id b = t" using assms(1,2) by (simp add: own_ids_def)
  show thesis
  proof (rule that)
    show "InsertTo md5 ss t pos ids = Some (None, put_block t (b\<lparr>ChildrenIds := inside pos (ChildrenIds b) ids\<rparr>) s1)"
      using s1 assms(3-6) own
      by (auto simp: InsertTo_def insert_at_def write_block_def inside_def prependChildrenIds_def appendChildrenIds_def setChildrenIds_def)
  qed (use s1 in simp_all)
qed

text \<open>On a valid tree, inserting above or under a block with a parent changes only the list of the
  parent's children, where the new ids stand directly before or after the target; all other blocks
  and the parent states stay as they are.\<close>

lemma InsertTo_beside_places:
  assumes "rooted ss r" "fst (Validate ss) = None" "own_ids ss" "reach ss r p" "Pick ss p = Some pb"
    "ChildrenIds pb = xs @ t # ys" "t \<noteq> []" "pos = Block_Top \<or> pos = Block_Bottom" "ids \<noteq> []" "t \<notin> set ids" "p \<notin> set ids"
  shows "\<exists>ss'. InsertTo md5 ss t pos ids = Some (None, ss') \<and>
    Pick ss' = (Pick ss)(p \<mapsto> pb\<lparr>ChildrenIds := (if pos = Block_Top then xs @ ids @ t # ys else xs @ t # ids @ ys)\<rparr>) \<and> tl ss' = tl ss"
proof -
  have "tree ss r" using assms(1,2) Validate_iff_tree [of ss] by simp
  from InsertTo_beside [OF assms(1) this assms(3-11)] show ?thesis
    unfolding beside_def by metis
qed

text \<open>Inserting into a block puts the new ids behind its children, or in front of them for
  \<open>InnerFirst\<close>, and changes nothing else. It fails when the list of ids contains the target.\<close>

lemma InsertTo_inside_places:
  assumes "Pick ss t = Some b" "own_ids ss" "t \<noteq> []" "pos = Block_Inner \<or> pos = Block_InnerFirst" "ids \<noteq> []"
  shows "if t \<in> set ids then \<exists>ss'. InsertTo md5 ss t pos ids = Some (Some ContainsTarget, ss') \<and> Pick ss' = Pick ss \<and> tl ss' = tl ss
    else \<exists>ss'. InsertTo md5 ss t pos ids = Some (None, ss') \<and>
      Pick ss' = (Pick ss)(t \<mapsto> b\<lparr>ChildrenIds := (if pos = Block_InnerFirst then ids @ ChildrenIds b else ChildrenIds b @ ids)\<rparr>) \<and> tl ss' = tl ss"
proof (cases "t \<in> set ids")
  case True
  obtain s1 where "find_target ss t pos = (Inr (b, None, 0, pos), s1)" "Pick s1 = Pick ss" "tl s1 = tl ss"
    using find_target_inner [OF assms(1,3,4)] by metis
  with True show ?thesis using assms(3,5) by (auto simp: InsertTo_def)
next
  case False
  from InsertTo_inside [OF assms(1-5) False] show ?thesis
    using False unfolding inside_def by metis
qed

subsection \<open>Moving a block in the tree\<close>

text \<open>Cutting the link from \<open>p\<close> to its child \<open>i\<close> makes exactly the blocks below \<open>i\<close> unreachable.\<close>

lemma cut_below:
  assumes t: "tree ss r" and p: "reach ss r p" "(p, i) \<in> child ss"
  shows "(i, x) \<in> (child ss)\<^sup>* \<Longrightarrow> (i, x) \<in> (child ss - {(p, i)})\<^sup>*"
    and "(r, x) \<in> (child ss - {(p, i)})\<^sup>* \<longleftrightarrow> reach ss r x \<and> (i, x) \<notin> (child ss)\<^sup>*"
proof -
  have ac: "(p, p) \<notin> (child ss)\<^sup>+" using tree_acyclic [OF t] p(1) by (simp add: acyclic_from_def)
  have parent: "x = y" if "reach ss r x" "(x, c) \<in> child ss" "reach ss r y" "(y, c) \<in> child ss" for x y c
    using tree_parent [OF t] that by metis
  show "(i, x) \<in> (child ss - {(p, i)})\<^sup>*" if "(i, x) \<in> (child ss)\<^sup>*"
    using that
  proof (induction rule: rtrancl_induct)
    case (step y z)
    have "(y, z) \<noteq> (p, i)" using ac p(2) step.hyps(1) by (auto dest: rtrancl_into_trancl2)
    with step show ?case by (auto intro: rtrancl_into_rtrancl)
  qed simp
  have "(i, x) \<notin> (child ss)\<^sup>*" if "(r, x) \<in> (child ss - {(p, i)})\<^sup>*"
    using that
  proof (induction rule: rtrancl_induct)
    case base
    have "(z, r) \<notin> child ss" if "reach ss r z" for z using t that by (simp add: tree_def)
    then show ?case
      using p reach_step [OF p] by (metis reach_trans rtranclE)
  next
    case (step y z)
    then have y: "reach ss r y" "(y, z) \<in> child ss" "(y, z) \<noteq> (p, i)"
      unfolding reach_def by (auto elim: rtrancl_mono [THEN subsetD, rotated])
    show ?case
    proof
      assume "(i, z) \<in> (child ss)\<^sup>*"
      then consider "z = i" | w where "(i, w) \<in> (child ss)\<^sup>*" "(w, z) \<in> child ss" by (metis rtranclE)
      then show False
      proof cases
        case 1
        then show False using parent [OF y(1,2) p(1)] p(2) y(3) by simp
      next
        case 2
        then show False using parent [OF y(1,2), of w] step.IH reach_step [OF p] by (metis reach_trans)
      qed
    qed
  qed
  moreover have "reach ss r x" if "(r, x) \<in> (child ss - {(p, i)})\<^sup>*"
    using that rtrancl_mono [of "child ss - {(p, i)}" "child ss"] unfolding reach_def by auto
  moreover have "(r, x) \<in> (child ss - {(p, i)})\<^sup>*" if "(r, x) \<in> (child ss)\<^sup>*" "(i, x) \<notin> (child ss)\<^sup>*"
    using that
  proof (induction rule: rtrancl_induct)
    case (step y z)
    then have "(i, y) \<notin> (child ss)\<^sup>*" by (meson rtrancl_into_rtrancl)
    moreover have "(y, z) \<noteq> (p, i)" using step.prems by auto
    ultimately show ?case using step by (auto intro: rtrancl_into_rtrancl)
  qed simp
  ultimately show "(r, x) \<in> (child ss - {(p, i)})\<^sup>* \<longleftrightarrow> reach ss r x \<and> (i, x) \<notin> (child ss)\<^sup>*"
    unfolding reach_def by blast
qed

lemma rewired_reach:
  assumes t: "tree ss r" and p: "reach ss r p" "(p, i) \<in> child ss" and q: "reach ss r q" "(i, q) \<notin> (child ss)\<^sup>*"
  shows "(r, x) \<in> (insert (q, i) (child ss - {(p, i)}))\<^sup>* \<longleftrightarrow> reach ss r x" (is "_ \<in> ?R\<^sup>* \<longleftrightarrow> _")
proof
  have sub: "(child ss - {(p, i)})\<^sup>* \<subseteq> ?R\<^sup>*" by (rule rtrancl_mono) auto
  assume "reach ss r x"
  show "(r, x) \<in> ?R\<^sup>*"
  proof (cases "(i, x) \<in> (child ss)\<^sup>*")
    case True
    have "(r, q) \<in> ?R\<^sup>*" using cut_below(2) [OF t p] q sub by blast
    moreover have "(q, i) \<in> ?R" by simp
    moreover have "(i, x) \<in> ?R\<^sup>*" using cut_below(1) [OF t p True] sub by blast
    ultimately show ?thesis by (meson rtrancl.rtrancl_into_rtrancl rtrancl_trans)
  next
    case False
    then show ?thesis using cut_below(2) [OF t p] \<open>reach ss r x\<close> sub by blast
  qed
next
  assume "(r, x) \<in> ?R\<^sup>*"
  then show "reach ss r x"
    by (induction rule: rtrancl_induct) (use reach_step [of ss r] reach_step [OF p] in auto)
qed

lemma unlinked_tree:
  assumes t: "tree ss r" and p: "reach ss r p" "Pick ss p = Some pb" "i \<in> set (ChildrenIds pb)"
    and s1: "Pick s1 = (Pick ss)(p \<mapsto> removeChildren pb i)"
  shows "tree s1 r" and "reach s1 r x \<longleftrightarrow> reach ss r x \<and> (i, x) \<notin> (child ss)\<^sup>*"
    and "child s1 = child ss - {(p, i)}"
proof -
  have e: "(p, i) \<in> child ss" using p by auto
  show c: "child s1 = child ss - {(p, i)}"
    using p s1 by (auto simp: child_def removeChildren_def RemoveMut_def split: if_splits)
  show r: "reach s1 r x \<longleftrightarrow> reach ss r x \<and> (i, x) \<notin> (child ss)\<^sup>*" for x
    using cut_below(2) [OF t p(1) e] by (simp add: reach_def c)
  have ex: "Exists s1 y \<longleftrightarrow> Exists ss y" for y using p(2) by (simp add: Exists_def s1)
  have "distinct (ChildrenIds b)" "\<forall>c\<in>set (ChildrenIds b). Exists s1 c" if "reach s1 r y" "Pick s1 y = Some b" for y b
    using tree_children [OF t, of y] tree_children [OF t p(1,2)] that r ex s1
    by (auto simp: removeChildren_def RemoveMut_def split: if_splits)
  moreover have "x = y" if "reach s1 r x" "reach s1 r y" "(x, c) \<in> child s1" "(y, c) \<in> child s1" for x y c
    using that tree_parent [OF t, of x y c] by (auto simp: r c)
  moreover have "(y, r) \<notin> child s1" if "reach s1 r y" for y using t that by (simp add: tree_def r c)
  ultimately show "tree s1 r" unfolding tree_def by blast
qed

lemma moved_tree:
  assumes t: "tree ss r" and p: "reach ss r p" "Pick ss p = Some pb" "i \<in> set (ChildrenIds pb)"
    and q: "reach ss r q" "(i, q) \<notin> (child ss)\<^sup>*"
    and s1: "Pick s1 = (Pick ss)(p \<mapsto> removeChildren pb i)" "Pick s1 q = Some qb"
    and s2: "Pick s2 = (Pick s1)(q \<mapsto> qb\<lparr>ChildrenIds := L\<rparr>)"
    and L: "set L = insert i (set (ChildrenIds qb))" "distinct (ChildrenIds qb) \<Longrightarrow> i \<notin> set (ChildrenIds qb) \<Longrightarrow> distinct L"
  shows "tree s2 r" and "reach s2 r x \<longleftrightarrow> reach ss r x"
proof -
  have e: "(p, i) \<in> child ss" using p by auto
  have c: "child s2 = insert (q, i) (child ss - {(p, i)})"
    using p s1 s2 L(1) by (auto simp: child_def removeChildren_def RemoveMut_def split: if_splits)
  show r: "reach s2 r x \<longleftrightarrow> reach ss r x" for x
    using rewired_reach [OF t p(1) e q] by (simp add: reach_def c)
  have ex: "Exists s2 y \<longleftrightarrow> Exists ss y" for y using p(2) s1(2) by (auto simp: Exists_def s1 s2)
  have i: "Exists ss i" using tree_children(2) [OF t p(1,2)] p(3) by simp
  have only: "z = p" if "reach ss r z" "(z, i) \<in> child ss" for z using tree_parent [OF t that(1) p(1) that(2) e] .
  have qb: "distinct (ChildrenIds qb)" "\<forall>c\<in>set (ChildrenIds qb). Exists ss c" "i \<notin> set (ChildrenIds qb)"
    using tree_children [OF t q(1)] tree_children [OF t p(1,2)] only [OF q(1)] s1
    by (auto simp: removeChildren_def RemoveMut_def split: if_splits)
  have "distinct (ChildrenIds b) \<and> (\<forall>c\<in>set (ChildrenIds b). Exists s2 c)" if y: "reach s2 r y" "Pick s2 y = Some b" for y b
  proof (cases "y = q")
    case True
    then have "b = qb\<lparr>ChildrenIds := L\<rparr>" using y(2) s2 by simp
    then show ?thesis using qb L i by (simp add: ex)
  next
    case False
    then have y1: "Pick s1 y = Some b" using y(2) s2 by simp
    show ?thesis
    proof (cases "y = p")
      case True
      then have "b = removeChildren pb i" using y1 s1(1) by simp
      then show ?thesis using tree_children [OF t p(1,2)] by (simp add: removeChildren_def RemoveMut_def ex)
    next
      case False
      then show ?thesis using tree_children [OF t, of y b] y(1) y1 s1(1) by (simp add: ex r)
    qed
  qed
  moreover have "x = y" if "reach s2 r x" "reach s2 r y" "(x, z) \<in> child s2" "(y, z) \<in> child s2" for x y z
    using that tree_parent [OF t, of x y z] only by (auto simp: r c)
  moreover have "(y, r) \<notin> child s2" if "reach s2 r y" for y
    using t that e p(1) by (auto simp: tree_def r c)
  ultimately show "tree s2 r" unfolding tree_def by blast
qed

lemma own_ids_upd: "own_ids ss \<Longrightarrow> Pick ss' = (Pick ss)(i \<mapsto> b) \<Longrightarrow> Id b = i \<Longrightarrow> own_ids ss'"
  by (auto simp: own_ids_def)

lemma Validate_rooted: "rooted ss r \<Longrightarrow> fst (Validate ss) = None \<longleftrightarrow> tree ss r"
  using Validate_iff_tree [of ss] by simp

text \<open>The block whose children change when something is placed at \<open>pos\<close> of \<open>t\<close>.\<close>

definition receives :: "State list \<Rightarrow> string \<Rightarrow> BlockPosition \<Rightarrow> string \<Rightarrow> string \<Rightarrow> bool" where
  "receives ss r pos t q \<longleftrightarrow>
     (if pos = Block_Inner \<or> pos = Block_InnerFirst then q = t \<and> reach ss r t
      else (pos = Block_Top \<or> pos = Block_Bottom) \<and> reach ss r q \<and> (q, t) \<in> child ss)"

lemma InsertTo_receiver:
  assumes "rooted ss r" "tree ss r" "own_ids ss" "receives ss r pos t q" "Pick ss q = Some qb" "t \<noteq> []" "t \<noteq> i" "q \<noteq> i"
  obtains ss' L where "InsertTo md5 ss t pos [i] = Some (None, ss')" "Pick ss' = (Pick ss)(q \<mapsto> qb\<lparr>ChildrenIds := L\<rparr>)"
    "tl ss' = tl ss" "rooted ss' r" "set L = insert i (set (ChildrenIds qb))"
    "distinct (ChildrenIds qb) \<Longrightarrow> i \<notin> set (ChildrenIds qb) \<Longrightarrow> distinct L"
proof (cases "pos = Block_Inner \<or> pos = Block_InnerFirst")
  case True
  then have "Pick ss t = Some qb" "q = t" using assms(4,5) by (auto simp: receives_def)
  from InsertTo_inside [OF this(1) assms(3,6) True, of "[i]" md5] assms(1,7)
  obtain ss' where s: "InsertTo md5 ss t pos [i] = Some (None, ss')"
    "Pick ss' = (Pick ss)(t \<mapsto> qb\<lparr>ChildrenIds := inside pos (ChildrenIds qb) [i]\<rparr>)" "tl ss' = tl ss" "rooted ss' r" by auto
  show thesis
    by (rule that [of ss' "inside pos (ChildrenIds qb) [i]"]) (use s \<open>q = t\<close> in \<open>auto simp: inside_def\<close>)
next
  case False
  then have q: "pos = Block_Top \<or> pos = Block_Bottom" "reach ss r q" "t \<in> set (ChildrenIds qb)"
    using assms(4,5) by (auto simp: receives_def)
  then obtain xs ys where xy: "ChildrenIds qb = xs @ t # ys" by (meson split_list)
  from InsertTo_beside [OF assms(1-3) q(2) assms(5) xy assms(6) q(1), of "[i]" md5] assms(7,8)
  obtain ss' where s: "InsertTo md5 ss t pos [i] = Some (None, ss')"
    "Pick ss' = (Pick ss)(q \<mapsto> qb\<lparr>ChildrenIds := beside pos xs t ys [i]\<rparr>)" "tl ss' = tl ss" "rooted ss' r" by auto
  show thesis
    by (rule that [of ss' "beside pos xs t ys [i]"]) (use s xy in \<open>auto simp: beside_def\<close>)
qed

text \<open>C1: moving a block in a valid tree (\<open>Unlink\<close>, then \<open>InsertTo\<close> at the position Top, Bottom, Inner or InnerFirst of a target
  that is neither the block nor below it) succeeds and gives a valid tree again with the same reachable blocks: no block is
  lost or shared. Every block keeps its content, and the parent states do not change.\<close>

theorem move_keeps_tree:
  assumes "rooted ss r" "fst (Validate ss) = None" "own_ids ss" "reach ss r p" "(p, i) \<in> child ss"
    and "receives ss r pos t q" "Exists ss t" "t \<noteq> []" "(i, t) \<notin> (child ss)\<^sup>*"
  shows "\<exists>s1 s2. Unlink ss i = (True, s1) \<and> InsertTo md5 s1 t pos [i] = Some (None, s2) \<and>
    fst (Validate s2) = None \<and> (\<forall>x. reach s2 r x \<longleftrightarrow> reach ss r x) \<and> tl s2 = tl ss \<and>
    (\<forall>x. map_option Content (Pick s2 x) = map_option Content (Pick ss x))"
proof -
  have t: "tree ss r" using Validate_rooted assms(1,2) by blast
  obtain pb where p: "Pick ss p = Some pb" "i \<in> set (ChildrenIds pb)" using assms(5) by auto
  obtain s1 where s1: "Unlink ss i = (True, s1)" "Pick s1 = (Pick ss)(p \<mapsto> removeChildren pb i)" "tl s1 = tl ss" "rooted s1 r"
    using Unlink_tree [OF assms(1) t assms(3,4) p] .
  have q: "reach ss r q" "(i, q) \<notin> (child ss)\<^sup>*"
    using assms(6,9) by (auto simp: receives_def split: if_splits dest: rtrancl_into_rtrancl)
  note cut = unlinked_tree [OF t assms(4) p s1(2)]
  have "q \<noteq> i" "t \<noteq> i" using q(2) assms(9) by auto
  have rec: "receives s1 r pos t q"
    using assms(6,9) q \<open>t \<noteq> i\<close> unfolding receives_def cut(2,3) by auto
  have "Exists ss q" using assms(6,7) by (auto simp: receives_def Exists_def split: if_splits)
  then obtain qb where qb: "Pick s1 q = Some qb" by (cases "q = p") (auto simp: Exists_def s1(2))
  have own1: "own_ids s1" by (rule own_ids_upd [OF assms(3) s1(2)]) (use assms(3) p(1) in \<open>simp add: own_ids_def removeChildren_def\<close>)
  obtain s2 L where s2: "InsertTo md5 s1 t pos [i] = Some (None, s2)" "Pick s2 = (Pick s1)(q \<mapsto> qb\<lparr>ChildrenIds := L\<rparr>)"
    "tl s2 = tl s1" "rooted s2 r" and L: "set L = insert i (set (ChildrenIds qb))"
    "distinct (ChildrenIds qb) \<Longrightarrow> i \<notin> set (ChildrenIds qb) \<Longrightarrow> distinct L"
    using InsertTo_receiver [OF s1(4) cut(1) own1 rec qb assms(8) \<open>t \<noteq> i\<close> \<open>q \<noteq> i\<close>] by metis
  note mv = moved_tree [OF t assms(4) p q s1(2) qb s2(2) L]
  have "map_option Content (Pick s2 x) = map_option Content (Pick ss x)" for x
    using p(1) qb s1(2) by (auto simp: s2(2) removeChildren_def)
  then show ?thesis using s1 s2 mv Validate_rooted [OF s2(4)] by auto
qed

subsection \<open>Rows and columns\<close>

lemma side_changes_state:
  "ss \<noteq> [] \<Longrightarrow> case side_changes tid pos lt lo ids cb ss of (_, ss') \<Rightarrow>
     Pick ss' = Pick ss \<and> tl ss' = tl ss \<and> ss' \<noteq> [] \<and> (\<forall>r. rooted ss' r \<longleftrightarrow> rooted ss r)"
proof (induction ids arbitrary: tid pos lt lo cb ss)
  case (Cons i ids)
  show ?case
  proof (cases "Exists (tl ss) i")
    case True
    then show ?thesis using Cons by (auto simp: Let_def split: prod.split)
  next
    case False
    obtain b ss1 where g: "Get_block ss i = (b, ss1)" by fastforce
    then have "Pick ss1 = Pick ss" "tl ss1 = tl ss" "ss1 \<noteq> []" "\<forall>r. rooted ss1 r \<longleftrightarrow> rooted ss r"
      using Get_block_state [of ss i] rooted_Get_block [of ss i] Cons.prems by auto
    then show ?thesis
      using False g Cons.IH [of ss1] by (cases b) (auto simp: Let_def split: prod.split if_split)
  qed
qed simp

lemma addChanges_state:
  assumes "ss \<noteq> []"
  obtains ss' where "addChangesForSideMoving ss tid pos ids = ss'" "Pick ss' = Pick ss" "tl ss' = tl ss" "ss' \<noteq> []"
    "\<And>r. rooted ss' r \<longleftrightarrow> rooted ss r"
  using side_changes_state [OF assms, of tid pos tid operationNone ids "newBuilder (st_changes (hd ss))"]
  by (auto simp: addChangesForSideMoving_def split: prod.splits)

text \<open>The blocks that an insertion on one side of \<open>t\<close> adds when its parent is not a row.\<close>

definition side_row :: "BlockPosition \<Rightarrow> string \<Rightarrow> string \<Rightarrow> string list \<Rightarrow> (string \<rightharpoonup> Block)" where
  "side_row pos opId t ids =
     [''r-'' @ opId \<mapsto> new_layout (''r-'' @ opId)
        (if pos = Block_Left then [''cd-'' @ opId, ''ct-'' @ opId] else [''ct-'' @ opId, ''cd-'' @ opId]) layout_Row,
      ''ct-'' @ opId \<mapsto> new_layout (''ct-'' @ opId) [t] layout_Column,
      ''cd-'' @ opId \<mapsto> new_layout (''cd-'' @ opId) ids layout_Column]"

lemma Add_block_new: "Pick ss (Id b) = None \<Longrightarrow> Add_block ss b = (True, put_block (Id b) b ss)"
  by (simp add: Add_block_def)

lemma new_layout_simps [simp]:
  "Id (new_layout i cs st) = i" "ChildrenIds (new_layout i cs st) = cs"
  "new_layout i cs st\<lparr>ChildrenIds := ds\<rparr> = new_layout i ds st"
  by (simp_all add: new_layout_def)

lemma op_ids [simp]:
  "''cd-'' @ x \<noteq> ''ct-'' @ y" "''cd-'' @ x \<noteq> ''r-'' @ y" "''ct-'' @ x \<noteq> ''r-'' @ y"
  "''ct-'' @ y \<noteq> ''cd-'' @ x" "''r-'' @ y \<noteq> ''cd-'' @ x" "''r-'' @ y \<noteq> ''ct-'' @ x"
  by auto

lemma moveFromSide_wraps:
  assumes ss: "ss \<noteq> []" and p: "Pick ss p = Some pb" "Id pb = p" "ChildrenIds pb = xs @ t # ys" "t \<notin> set xs" "\<not> is_row pb"
    and b: "Id b = t" and opId: "opId = makeOpId md5 b pos ids"
    and new: "Pick ss (''r-'' @ opId) = None" "Pick ss (''ct-'' @ opId) = None" "Pick ss (''cd-'' @ opId) = None"
    and pos: "pos = Block_Left \<or> pos = Block_Right"
  obtains ss' where "moveFromSide md5 ss b (Some pb) pos ids = Some (None, ss')" "tl ss' = tl ss"
    "Pick ss' = (Pick ss)(p \<mapsto> pb\<lparr>ChildrenIds := xs @ (''r-'' @ opId) # ys\<rparr>) ++ side_row pos opId t ids"
proof -
  obtain s1 where s1: "addChangesForSideMoving ss t pos ids = s1" "Pick s1 = Pick ss" "tl s1 = tl ss" "s1 \<noteq> []"
    using addChanges_state [OF ss] by metis
  define s2 where "s2 = ignore_structure [p] s1"
  have s2: "Pick s2 = Pick ss" "tl s2 = tl ss" "s2 \<noteq> []" using s1 by (simp_all add: s2_def)
  define ct where "ct = new_layout (''ct-'' @ opId) [t] layout_Column"
  define row where "row = new_layout (''r-'' @ opId) [''ct-'' @ opId] layout_Row"
  define s3 where "s3 = put_block p (pb\<lparr>ChildrenIds := xs @ (''r-'' @ opId) # ys\<rparr>) (put_block (Id row) row (put_block (Id ct) ct s2))"
  have ne: "p \<noteq> ''r-'' @ opId" "p \<noteq> ''ct-'' @ opId" "p \<noteq> ''cd-'' @ opId" using p(1) new by auto
  have pick3: "Pick s3 = (Pick ss)(''ct-'' @ opId \<mapsto> ct, ''r-'' @ opId \<mapsto> row, p \<mapsto> pb\<lparr>ChildrenIds := xs @ (''r-'' @ opId) # ys\<rparr>)"
    using s2 by (simp add: s3_def ct_def row_def)
  have wrap: "wrapToRow s2 opId pb b = (Inr (row, True), s3)"
    using new b p s2 FindPos_split [OF p(4), of ys]
    by (simp add: wrapToRow_def addNewBlockAndWrapToColumn_def addNewColumnToRow_def Add_block_new Let_def s3_def ct_def row_def
        setChildrenIds_def)
  obtain s4 where s4: "Get_block s3 (''ct-'' @ opId) = (Some ct, s4)" "Pick s4 = Pick s3" "tl s4 = tl s3" "s4 \<noteq> []"
    using Get_blockE [of s3 "''ct-'' @ opId" ct] pick3 ne by auto
  define cd where "cd = new_layout (''cd-'' @ opId) ids layout_Column"
  define row' where "row' = new_layout (''r-'' @ opId) (if pos = Block_Right then [''ct-'' @ opId, ''cd-'' @ opId] else [''cd-'' @ opId, ''ct-'' @ opId]) layout_Row"
  define s5 where "s5 = ignore_structure [''cd-'' @ opId, ''ct-'' @ opId, ''r-'' @ opId, ''r-'' @ opId] (put_block (''r-'' @ opId) row' (put_block (''cd-'' @ opId) cd s4))"
  have "FindPos (ChildrenIds row) (''ct-'' @ opId) = 0" by (simp add: row_def FindPos_def)
  then have ins: "insert_column s4 opId row True (Id ct) pos ids = Some (None, s5)"
    using new(3) ne s4 pick3
    by (auto simp: insert_column_def addNewColumn_def Add_block_new Let_def insertChildrenIds_def setChildrenIds_def row_def ct_def cd_def row'_def s5_def)
  show thesis
  proof (rule that)
    show "moveFromSide md5 ss b (Some pb) pos ids = Some (None, s5)"
      using s1 new(3) p(2,5) opId b wrap s4(1) ins
      by (simp add: moveFromSide_def Let_def Exists_def s2_def row_def)
    show "tl s5 = tl ss" using s4 s2 by (simp add: s5_def s3_def)
    show "Pick s5 = (Pick ss)(p \<mapsto> pb\<lparr>ChildrenIds := xs @ (''r-'' @ opId) # ys\<rparr>) ++ side_row pos opId t ids"
      using pos ne s4 pick3
      by (auto simp: s5_def side_row_def row'_def cd_def ct_def map_add_def fun_eq_iff)
  qed
qed

text \<open>Inserting to the left or right of a block whose parent is not a row puts a new row in the place of
  the block; the row has two new columns, one with the block and one with the inserted ids, in the
  order of the requested side. Nothing else changes.\<close>

lemma InsertTo_side_wraps:
  assumes "rooted ss r" "fst (Validate ss) = None" "own_ids ss" "reach ss r p" "Pick ss p = Some pb"
    and "ChildrenIds pb = xs @ t # ys" "\<not> is_row pb" "Pick ss t = Some b" "t \<noteq> []" "pos = Block_Left \<or> pos = Block_Right"
    and "ids \<noteq> []" "t \<notin> set ids" "p \<notin> set ids"
    and "\<forall>k\<in>{''r-'', ''ct-'', ''cd-''}. Pick ss (k @ makeOpId md5 b pos ids) = None"
  shows "\<exists>ss'. InsertTo md5 ss t pos ids = Some (None, ss') \<and> tl ss' = tl ss \<and>
    Pick ss' = (Pick ss)(p \<mapsto> pb\<lparr>ChildrenIds := xs @ (''r-'' @ makeOpId md5 b pos ids) # ys\<rparr>) ++
      side_row pos (makeOpId md5 b pos ids) t ids"
proof -
  have t: "tree ss r" using Validate_rooted assms(1,2) by blast
  have xs: "t \<notin> set xs" using tree_children(1) [OF t assms(4,5)] assms(6) by simp
  have own: "Id pb = p" "Id b = t" using assms(3,5,8) by (simp_all add: own_ids_def)
  obtain s1 where s1: "find_target ss t pos = (Inr (b, Some pb, int (length xs), pos), s1)" "Pick s1 = Pick ss" "tl s1 = tl ss" "rooted s1 r"
    using find_target_beside [OF assms(1) t assms(3-5) _ assms(9), of pos b] assms(6,8,10) FindPos_split [OF xs, of ys] by auto
  obtain s2 where s2: "Get_block s1 p = (Some pb, s2)" "Pick s2 = Pick s1" "tl s2 = tl s1" "s2 \<noteq> []"
    using Get_blockE [of s1 p pb] s1(2) assms(5) by auto
  have new: "Pick s2 (''r-'' @ makeOpId md5 b pos ids) = None" "Pick s2 (''ct-'' @ makeOpId md5 b pos ids) = None"
    "Pick s2 (''cd-'' @ makeOpId md5 b pos ids) = None" using assms(14) s1(2) s2(2) by simp_all
  have p2: "Pick s2 p = Some pb" using s1(2) s2(2) assms(5) by simp
  obtain s3 where "moveFromSide md5 s2 b (Some pb) pos ids = Some (None, s3)" "tl s3 = tl s2"
    "Pick s3 = (Pick s2)(p \<mapsto> pb\<lparr>ChildrenIds := xs @ (''r-'' @ makeOpId md5 b pos ids) # ys\<rparr>) ++ side_row pos (makeOpId md5 b pos ids) t ids"
    using moveFromSide_wraps [OF s2(4) p2 own(1) assms(6) xs assms(7) own(2) refl new assms(10)] by blast
  then show ?thesis
    using s1 s2 assms(9-13) own by (auto simp: InsertTo_def insert_at_def)
qed

subsection \<open>The recorded changes\<close>

text \<open>The single insertions that a list of changes stands for.\<close>

datatype builder_op = OpMove string BlockPosition string | OpAdd string BlockPosition Block | OpOther change_content

fun expand :: "change_content \<Rightarrow> builder_op list" where
  "expand (BlockMove t pos ids) = map (OpMove t pos) ids"
| "expand (BlockCreate t pos bs) = map (OpAdd t pos) bs"
| "expand ch = [OpOther ch]"

fun builder_step :: "builder_op \<Rightarrow> changeBuilder \<Rightarrow> changeBuilder" where
  "builder_step (OpMove t pos i) cb = Move t pos i cb"
| "builder_step (OpAdd t pos b) cb = Add_change t pos b cb"
| "builder_step (OpOther n) cb = AddChange [n] cb"

fun op_ok :: "builder_op \<Rightarrow> bool" where
  "op_ok (OpMove t pos i) \<longleftrightarrow> t \<noteq> []"
| "op_ok (OpAdd t pos b) \<longleftrightarrow> t \<noteq> [] \<and> ChildrenIds b = []"
| "op_ok (OpOther ch) \<longleftrightarrow> expand ch = [OpOther ch]"

definition pending :: "changeBuilder \<Rightarrow> builder_op list" where
  "pending cb =
     (if cb_isLastAdd cb then map (OpAdd (cb_lastTargetId cb) (cb_lastPosition cb)) (cb_lastBlocks cb)
      else map (OpMove (cb_lastTargetId cb) (cb_lastPosition cb)) (cb_lastIds cb))"

definition builder_inv :: "changeBuilder \<Rightarrow> bool" where
  "builder_inv cb \<longleftrightarrow>
     (cb_lastTargetId cb = [] \<longrightarrow> cb_lastIds cb = [] \<and> cb_lastBlocks cb = []) \<and>
     (cb_isLastAdd cb \<longrightarrow> cb_lastIds cb = []) \<and> (\<not> cb_isLastAdd cb \<longrightarrow> cb_lastBlocks cb = [])"

definition recorded :: "changeBuilder \<Rightarrow> builder_op list" where
  "recorded cb = concat (map expand (cb_changes cb)) @ pending cb"

lemma Flush_recorded:
  assumes "builder_inv cb"
  shows "builder_inv (Flush cb)" "recorded (Flush cb) = recorded cb" "pending (Flush cb) = []"
    "cb_lastIds (Flush cb) = []" "cb_lastBlocks (Flush cb) = []"
  using assms by (auto simp: Flush_def builder_inv_def recorded_def pending_def Let_def)

lemma update_eq [simp]: "ChildrenIds b = [] \<Longrightarrow> b\<lparr>ChildrenIds := []\<rparr> = b"
  by (cases b) simp

lemma builder_step_recorded:
  assumes "builder_inv cb" "op_ok op"
  shows "builder_inv (builder_step op cb) \<and> recorded (builder_step op cb) = recorded cb @ [op]"
proof (cases op)
  case (OpMove t pos i)
  then show ?thesis
    using assms Flush_recorded [OF assms(1)]
    by (auto simp: Move_def Let_def builder_inv_def recorded_def pending_def)
next
  case (OpAdd t pos b)
  then show ?thesis
    using assms Flush_recorded [OF assms(1)]
    by (auto simp: Add_change_def Let_def builder_inv_def recorded_def pending_def)
next
  case (OpOther n)
  then show ?thesis
    using assms(2) Flush_recorded [OF assms(1)]
    by (auto simp: AddChange_def Let_def builder_inv_def recorded_def pending_def)
qed

text \<open>The change builder groups neighbouring insertions with the same target and position; the changes
  it builds stand for exactly the insertions that were recorded, in their order, behind the changes
  that it started with.\<close>

lemma Build_records:
  assumes "\<forall>op\<in>set ops. op_ok op"
  shows "concat (map expand (Build (fold builder_step ops (newBuilder chs)))) = concat (map expand chs) @ ops"
proof -
  have "builder_inv (fold builder_step ops cb) \<and> recorded (fold builder_step ops cb) = recorded cb @ ops"
    if "builder_inv cb" for cb
    using assms that by (induction ops arbitrary: cb) (auto simp: builder_step_recorded)
  from this [of "newBuilder chs"]
  have "builder_inv (fold builder_step ops (newBuilder chs))" "recorded (fold builder_step ops (newBuilder chs)) = concat (map expand chs) @ ops"
    by (auto simp: builder_inv_def newBuilder_def recorded_def pending_def)
  then show ?thesis using Flush_recorded [of "fold builder_step ops (newBuilder chs)"] by (simp add: Build_def recorded_def)
qed

subsection \<open>Examples\<close>

lemma sample_blocks:
  "rooted sample ''r''" "Pick sample ''r'' = Some (sample_block ''r'' [''a'', ''b''])"
  "Pick sample ''a'' = Some (sample_block ''a'' [''c''])" "Pick sample ''b'' = Some (sample_block ''b'' [])"
  "Pick sample ''c'' = Some (sample_block ''c'' [])"
  by (simp_all add: rooted_def sample_def NewState_def empty_state_def)

lemma sample_links: "(''r'', ''a'') \<in> child sample" "(''r'', ''b'') \<in> child sample" "(''a'', ''c'') \<in> child sample"
  by (auto intro!: childI [OF sample_blocks(2)] childI [OF sample_blocks(3)] simp: sample_block_def)

lemma sample_child: "(x, y) \<in> child sample \<Longrightarrow> (x, y) \<in> {(''r'', ''a''), (''r'', ''b''), (''a'', ''c'')}"
  by (auto simp: child_def sample_def NewState_def empty_state_def sample_block_def split: if_splits)

lemma InsertTo_beside_places_example:
  "\<exists>ss'. InsertTo id sample ''a'' Block_Bottom [''x''] = Some (None, ss') \<and>
    Pick ss' = (Pick sample)(''r'' \<mapsto> (sample_block ''r'' [''a'', ''b''])\<lparr>ChildrenIds := [''a'', ''x'', ''b'']\<rparr>) \<and> tl ss' = tl sample"
  using InsertTo_beside_places [OF sample_blocks(1) sample_valid(1,2) reach_refl sample_blocks(2), of "[]" "''a''" "[''b'']" Block_Bottom "[''x'']" id]
  by (simp add: sample_block_def)

lemma InsertTo_inside_places_example:
  "\<exists>ss'. InsertTo id sample ''a'' Block_InnerFirst [''x''] = Some (None, ss') \<and>
    Pick ss' = (Pick sample)(''a'' \<mapsto> (sample_block ''a'' [''c''])\<lparr>ChildrenIds := [''x'', ''c'']\<rparr>) \<and> tl ss' = tl sample"
  using InsertTo_inside_places [OF sample_blocks(3) sample_valid(2), of Block_InnerFirst "[''x'']" id]
  by (simp add: sample_block_def)

theorem move_keeps_tree_witness:
  "\<exists>s1 s2. Unlink sample ''c'' = (True, s1) \<and> InsertTo id s1 ''b'' Block_Inner [''c''] = Some (None, s2) \<and>
    fst (Validate s2) = None \<and> (\<forall>x. reach s2 ''r'' x \<longleftrightarrow> reach sample ''r'' x)"
proof -
  have ra: "reach sample ''r'' ''a''" "reach sample ''r'' ''b''"
    using reach_step [OF reach_refl sample_links(1)] reach_step [OF reach_refl sample_links(2)] by blast+
  then have rec: "receives sample ''r'' Block_Inner ''b'' ''b''" by (simp add: receives_def)
  have ex: "Exists sample ''b''" by (simp add: Exists_def sample_blocks)
  have "(''c'', ''b'') \<notin> (child sample)\<^sup>*"
  proof
    assume "(''c'', ''b'') \<in> (child sample)\<^sup>*"
    then have "''c'' = ''b'' \<or> (\<exists>z. (''c'', z) \<in> child sample)" by (metis converse_rtranclE)
    then show False using sample_child by force
  qed
  then show ?thesis
    using move_keeps_tree [OF sample_blocks(1) sample_valid(1,2) ra(1) sample_links(3) rec ex, of id] by auto
qed

lemma InsertTo_side_wraps_example:
  "\<exists>ss'. InsertTo (\<lambda>_. [171]) sample ''c'' Block_Left [''x''] = Some (None, ss') \<and> tl ss' = tl sample \<and>
    Pick ss' = (Pick sample)(''a'' \<mapsto> (sample_block ''a'' [''c''])\<lparr>ChildrenIds := [''r-ab'']\<rparr>) ++ side_row Block_Left ''ab'' ''c'' [''x'']"
proof -
  have op: "makeOpId (\<lambda>_. [171]) (sample_block ''c'' []) Block_Left [''x''] = ''ab''" by code_simp
  have r: "reach sample ''r'' ''a''" using reach_step [OF reach_refl sample_links(1)] .
  have new: "\<forall>k\<in>{''r-'', ''ct-'', ''cd-''}. Pick sample (k @ ''ab'') = None"
    by (simp add: sample_def NewState_def empty_state_def)
  have blk: "ChildrenIds (sample_block ''a'' [''c'']) = [] @ ''c'' # []" "\<not> is_row (sample_block ''a'' [''c''])"
    by (simp_all add: sample_block_def is_row_def)
  show ?thesis
    using InsertTo_side_wraps [OF sample_blocks(1) sample_valid(1,2) r sample_blocks(3) blk sample_blocks(5),
        of Block_Left "[''x'']" "\<lambda>_. [171]", unfolded op] new by simp
qed

lemma Build_records_example:
  "let ops = [OpMove ''a'' Block_Bottom ''b'', OpMove ''a'' Block_Bottom ''c'', OpAdd ''c'' Block_Bottom (sample_block ''d'' [])]
   in Build (fold builder_step ops (newBuilder [])) =
        [BlockMove ''a'' Block_Bottom [''b'', ''c''], BlockCreate ''c'' Block_Bottom [sample_block ''d'' []]] \<and>
      concat (map expand (Build (fold builder_step ops (newBuilder [])))) = ops"
proof -
  let ?ops = "[OpMove ''a'' Block_Bottom ''b'', OpMove ''a'' Block_Bottom ''c'', OpAdd ''c'' Block_Bottom (sample_block ''d'' [])]"
  have "Build (fold builder_step ?ops (newBuilder [])) =
      [BlockMove ''a'' Block_Bottom [''b'', ''c''], BlockCreate ''c'' Block_Bottom [sample_block ''d'' []]]"
    by (simp add: Build_def Move_def Add_change_def newBuilder_def Flush_def sample_block_def Let_def)
  moreover have "\<forall>op\<in>set ?ops. op_ok op" by (simp add: sample_block_def)
  ultimately show ?thesis using Build_records [of ?ops "[]"] by (simp only: Let_def concat.simps list.map append_Nil)
qed

end
