(* ===== verification/Normalize.thy ===== *)
theory Normalize
  imports BlockInsert GenericMap
begin

section \<open>Normalization of the tree (core/block/editor/state/normalize.go)\<close>

text \<open>
  Before a state is applied its tree is repaired: children that occur twice or do not exist are removed,
  empty rows and columns disappear, and long lists of children are cut into groups. The theory models
  these passes. A loop over the map of blocks is given the order of its visits as an argument. A
  pass that changes the state while it walks over the tree is a partial function; \<^term>\<open>None\<close> is
  a panic or a walk that does not end.
\<close>

subsection \<open>Duplicates\<close>

text \<open>The positions of the children that were seen before, and the ids seen with this block.\<close>

fun del_positions :: "nat \<Rightarrow> string list \<Rightarrow> string list \<Rightarrow> nat list \<times> string list" where
  "del_positions i [] childrenIds = ([], childrenIds)"
| "del_positions i (cid # cids) childrenIds =
     (if cid \<in> set childrenIds
      then (case del_positions (Suc i) cids childrenIds of (delIdx, childrenIds) \<Rightarrow> (i # delIdx, childrenIds))
      else del_positions (Suc i) cids (cid # childrenIds))"

text \<open>The positions are removed one after another, each corrected by the number of those before it.\<close>

fun remove_positions :: "nat \<Rightarrow> nat list \<Rightarrow> 'a list \<Rightarrow> 'a list" where
  "remove_positions i [] chIds = chIds"
| "remove_positions i (idx # delIdx) chIds =
     remove_positions (Suc i) delIdx (take (idx - i) chIds @ drop (Suc (idx - i)) chIds)"

text \<open>The state, the ids of \<open>childrenIds\<close> and those of \<open>handledBlocks\<close>.\<close>

type_synonym dedup = "State list \<times> string list \<times> string list"

fun dedup_block :: "dedup \<Rightarrow> Block \<Rightarrow> dedup option" where
  "dedup_block (ss, childrenIds, handledBlocks) b =
     (if Id b \<in> set handledBlocks then Some (ss, childrenIds, handledBlocks)
      else
        (case del_positions 0 (ChildrenIds b) childrenIds of (delIdx, childrenIds) \<Rightarrow>
           if delIdx = [] then Some (ss, childrenIds, Id b # handledBlocks)
           else
             (case Get_block ss (Id b) of
                (None, _) \<Rightarrow> None
              | (Some b, ss) \<Rightarrow>
                  Some (put_block (Id b) (setChildrenIds b (remove_positions 0 delIdx (ChildrenIds b))) ss,
                    childrenIds, Id b # handledBlocks))))"

text \<open>
  The walk of \<open>Iterate\<close> over a list of ids with this callback. A block of the head is changed in place, so
  that its new children are walked; of a block of an ancestor the old ones are. The flag is false
  when the walk ends with an error, which \<open>removeDuplicates\<close> ignores.
\<close>

partial_function (option) dedup_walk :: "dedup \<Rightarrow> string list \<Rightarrow> string list \<Rightarrow> (dedup \<times> bool) option" where
  "dedup_walk st parentIds ids =
     (case ids of
        [] \<Rightarrow> Some (st, True)
      | i # ids \<Rightarrow>
          if FindPos parentIds i \<noteq> -1 then Some (st, False)
          else
            (case Pick (fst st) i of
               None \<Rightarrow> dedup_walk st parentIds ids
             | Some b \<Rightarrow>
                 (case dedup_block st b of
                    None \<Rightarrow> None
                  | Some st' \<Rightarrow>
                      Option.bind
                        (dedup_walk st' (parentIds @ [i])
                          (if InState (fst st) i then ChildrenIds (the (Pick (fst st') i)) else ChildrenIds b))
                        (\<lambda>(st'', ok). if ok then dedup_walk st'' parentIds ids else Some (st'', False)))))"

declare dedup_walk.simps [code]

definition removeDuplicates :: "State list \<Rightarrow> State list option" where
  "removeDuplicates ss =
     (case RootId ss of (r, ss) \<Rightarrow> map_option (\<lambda>((ss, _, _), _). ss) (dedup_walk (ss, [], []) [] [r]))"

subsection \<open>Missing children\<close>

text \<open>The first child that does not exist is removed, with all its occurrences, and the search starts again.\<close>

function existing_children :: "State list \<Rightarrow> string list \<Rightarrow> string list" where
  "existing_children ss cids =
     (case find (\<lambda>c. \<not> Exists ss c) cids of None \<Rightarrow> cids | Some c \<Rightarrow> existing_children ss (RemoveMut cids c))"
  by pat_completeness auto
termination
proof (relation "measure (\<lambda>(_, cids). length cids)")
  fix ss cids c assume "find (\<lambda>c. \<not> Exists ss c) cids = Some c"
  then have "c \<in> set cids" by (auto simp: find_Some_iff)
  then have "length (RemoveMut cids c) < length cids" by (auto simp: RemoveMut_def intro: length_filter_less)
  then show "((ss, RemoveMut cids c), (ss, cids)) \<in> measure (\<lambda>(_, cids). length cids)" by simp
qed simp

definition normalizeChildren :: "State list \<Rightarrow> string \<Rightarrow> State list" where
  "normalizeChildren ss i =
     (case map_of (st_blocks (hd ss)) i of
        None \<Rightarrow> ss
      | Some b \<Rightarrow> put_block i (b\<lparr>ChildrenIds := existing_children ss (ChildrenIds b)\<rparr>) ss)"

definition normalize_all_children :: "string list \<Rightarrow> State list \<Rightarrow> State list" where
  "normalize_all_children visits ss = fold (\<lambda>i ss. normalizeChildren ss i) visits ss"

subsection \<open>Layout groups\<close>

definition layout_Div :: int where "layout_Div = 2"

definition isDivLayout :: "Block \<Rightarrow> bool" where
  "isDivLayout m \<longleftrightarrow> Content m = CLayout layout_Div"

text \<open>
  \<open>cleanup\<close> for the children of a block: groups are replaced by their content. The closure first gets the
  block of a child, cleans up its children and sets them. The result holds the ids, how many
  groups were removed, and the state.
\<close>

partial_function (option) cleanup :: "State list \<Rightarrow> string list \<Rightarrow> (string list \<times> nat \<times> State list) option" where
  "cleanup ss cids =
     (case cids of
        [] \<Rightarrow> Some ([], 0, ss)
      | chId # rest \<Rightarrow>
          (case Pick ss chId of
             None \<Rightarrow> cleanup ss rest
           | Some chB \<Rightarrow>
               (case Get_block ss chId of (_, ss) \<Rightarrow>
                  Option.bind (cleanup ss (ChildrenIds chB)) (\<lambda>(inner, n, ss).
                  Option.bind (cleanup (put_block chId (setChildrenIds chB inner) ss) rest) (\<lambda>(result, n', ss).
                    Some (if isDivLayout chB then (inner @ result, Suc (n + n'), ss) else (chId # result, n + n', ss)))))))"

declare cleanup.simps [code]

definition CleanupLayouts :: "State list \<Rightarrow> (nat \<times> State list) option" where
  "CleanupLayouts ss =
     (case RootId ss of (r, ss) \<Rightarrow>
       (case Get_block ss r of
          (None, ss) \<Rightarrow> Some (0, ss)
        | (Some b, ss) \<Rightarrow>
            map_option (\<lambda>(result, n, ss). (n, put_block r (setChildrenIds b result) ss)) (cleanup ss (ChildrenIds b))))"

subsection \<open>Long lists of children\<close>

definition maxChildrenThreshold :: nat where "maxChildrenThreshold = 40"

text \<open>\<open>divBalance\<close> distributes the children of two neighbouring groups and tells whether the second is too long.\<close>

definition divBalance :: "Block \<Rightarrow> Block \<Rightarrow> Block \<times> Block \<times> bool" where
  "divBalance d1 d2 =
     (let children = ChildrenIds d1 @ ChildrenIds d2; total = length children;
          half = (if total > maxChildrenThreshold * 2 then maxChildrenThreshold div 2 else total div 2);
          d2 = setChildrenIds d2 (drop half children)
      in (setChildrenIds d1 (take half children), d2, length (ChildrenIds d2) > maxChildrenThreshold))"

text \<open>
  Ids of new groups are the parameter \<open>gen\<close>, one for each number; the next number is part of the state of the
  passes. A generated id that already occurs gives \<^term>\<open>None\<close>, and so does a child that does not exist.
\<close>

type_synonym numbered = "nat \<times> State list"

definition newDiv :: "(nat \<Rightarrow> string) \<Rightarrow> nat \<Rightarrow> string list \<Rightarrow> Block" where
  "newDiv gen k children = new_layout (''div-'' @ gen k) children layout_Div"

definition pickNextDiv :: "State list \<Rightarrow> string \<Rightarrow> (Block option \<times> State list) option" where
  "pickNextDiv ss i =
     (case PickParentOf ss i of
        (None, ss) \<Rightarrow> Some (None, ss)
      | (Some pm, ss) \<Rightarrow>
          (let pos = FindPos (ChildrenIds pm) i
           in if pos \<noteq> -1 \<and> pos < int (length (ChildrenIds pm)) - 1
              then (case Pick ss (ChildrenIds pm ! nat (pos + 1)) of
                      None \<Rightarrow> None
                    | Some b \<Rightarrow> Some (if isDivLayout b then Some b else None, ss))
              else Some (None, ss)))"

definition getNextDiv :: "State list \<Rightarrow> string \<Rightarrow> (Block option \<times> State list) option" where
  "getNextDiv ss i =
     (case pickNextDiv ss i of
        None \<Rightarrow> None
      | Some (None, ss) \<Rightarrow> Some (None, ss)
      | Some (Some b, ss) \<Rightarrow> Some (Get_block ss (Id b)))"

text \<open>The group after a group: the next one, or a new one when there is none or it has too many children.\<close>

definition group_after :: "(nat list \<Rightarrow> nat list) \<Rightarrow> (nat \<Rightarrow> string) \<Rightarrow> numbered \<Rightarrow> Block \<Rightarrow> (string \<times> bool \<times> numbered) option" where
  "group_after md5 gen st parent =
     (case st of (k, ss) \<Rightarrow>
        (let overflow = int maxChildrenThreshold - int (length (ChildrenIds parent))
         in case getNextDiv ss (Id parent) of
              None \<Rightarrow> None
            | Some (next, ss) \<Rightarrow>
                if (case next of None \<Rightarrow> True | Some d \<Rightarrow> int (length (ChildrenIds d)) + overflow > int maxChildrenThreshold)
                then (let d = newDiv gen k []
                      in if Exists ss (Id d) then None
                         else map_option (\<lambda>(_, ss). (Id d, True, Suc k, ss))
                                (InsertTo md5 (snd (Add_block ss d)) (Id parent) Block_Bottom [Id d]))
                else Some (Id (the next), False, k, ss)))"


text \<open>The loop moves children from group to group until one does not overflow; the last group that was cut is
  returned.\<close>

partial_function (option) balance_groups ::
  "(nat list \<Rightarrow> nat list) \<Rightarrow> (nat \<Rightarrow> string) \<Rightarrow> numbered \<Rightarrow> string \<Rightarrow> string \<Rightarrow> bool \<Rightarrow> (string \<times> bool \<times> numbered) option" where
  "balance_groups md5 gen st parent next changes =
     (case (Pick (snd st) parent, Pick (snd st) next) of
        (Some d1, Some d2) \<Rightarrow>
          (case divBalance d1 d2 of (d1, d2, overflow) \<Rightarrow>
             (let st = (fst st, put_block next d2 (put_block parent d1 (snd st)))
              in if \<not> overflow then Some (parent, changes, st)
                 else (case group_after md5 gen st d2 of
                         None \<Rightarrow> None
                       | Some (next', new, st) \<Rightarrow> balance_groups md5 gen st next next' (changes \<or> new))))
      | _ \<Rightarrow> None)"

definition wrapChildrenToDiv :: "(nat list \<Rightarrow> nat list) \<Rightarrow> (nat \<Rightarrow> string) \<Rightarrow> numbered \<Rightarrow> string \<Rightarrow> (string \<times> numbered) option" where
  "wrapChildrenToDiv md5 gen st i =
     (case st of (k, ss) \<Rightarrow>
       (case Get_block ss i of
          (None, ss) \<Rightarrow> None
        | (Some parent, ss) \<Rightarrow>
            if isDivLayout parent then
              (case group_after md5 gen (k, ss) parent of
                 None \<Rightarrow> None
               | Some (next, new, st) \<Rightarrow>
                   (case balance_groups md5 gen st (Id parent) next new of
                      None \<Rightarrow> None
                    | Some (parentId, changes, k, ss) \<Rightarrow>
                        if \<not> changes then Some ([], k, ss)
                        else (case PickParentOf ss parentId of (None, _) \<Rightarrow> None | (Some p, ss) \<Rightarrow> Some (Id p, k, ss))))
            else
              (let d = newDiv gen k (ChildrenIds parent)
               in if Exists ss (Id d) then None
                  else Some (Id parent, Suc k, put_block i (setChildrenIds parent [Id d]) (snd (Add_block ss d))))))"

definition layout_TableRows :: int where "layout_TableRows = 4"

definition layout_TableColumns :: int where "layout_TableColumns = 5"

definition is_table_part :: "Block \<Rightarrow> bool" where
  "is_table_part b = (case Content b of CLayout s \<Rightarrow> s = layout_TableRows \<or> s = layout_TableColumns | CTableRow _ \<Rightarrow> True | _ \<Rightarrow> False)"

text \<open>\<open>normalizeTreeBranch\<close> for a list of ids. A block with too many children is wrapped and the visit goes on where
  this asks for; otherwise with the children of the block as they were before, unless it is a
  block of the head, which is changed in place.\<close>

definition wrap_long :: "(nat list \<Rightarrow> nat list) \<Rightarrow> (nat \<Rightarrow> string) \<Rightarrow> numbered \<Rightarrow> string \<Rightarrow> Block \<Rightarrow> (string \<times> numbered) option" where
  "wrap_long md5 gen st i parent =
     (if length (ChildrenIds parent) > maxChildrenThreshold then wrapChildrenToDiv md5 gen st i else Some ([], st))"

definition next_visits :: "numbered \<Rightarrow> string \<Rightarrow> Block \<Rightarrow> string \<times> numbered \<Rightarrow> string list" where
  "next_visits st i parent next =
     (if fst next \<noteq> [] then [fst next]
      else if InState (snd st) i then ChildrenIds (the (Pick (snd (snd next)) i)) else ChildrenIds parent)"

partial_function (option) normalizeTreeBranch ::
  "(nat list \<Rightarrow> nat list) \<Rightarrow> (nat \<Rightarrow> string) \<Rightarrow> string list \<Rightarrow> numbered \<Rightarrow> numbered option" where
  "normalizeTreeBranch md5 gen ids st =
     (case ids of
        [] \<Rightarrow> Some st
      | i # rest \<Rightarrow>
          (case Pick (snd st) i of
             None \<Rightarrow> normalizeTreeBranch md5 gen rest st
           | Some parent \<Rightarrow>
               if is_table_part parent then normalizeTreeBranch md5 gen rest st
               else
                 Option.bind (wrap_long md5 gen st i parent) (\<lambda>nx.
                 Option.bind (normalizeTreeBranch md5 gen (next_visits st i parent nx) (snd nx)) (\<lambda>st'.
                   normalizeTreeBranch md5 gen rest st'))))"

declare balance_groups.simps [code] normalizeTreeBranch.simps [code]

definition normalizeTree :: "(nat list \<Rightarrow> nat list) \<Rightarrow> (nat \<Rightarrow> string) \<Rightarrow> numbered \<Rightarrow> numbered option" where
  "normalizeTree md5 gen st =
     (case RootId (snd st) of (r, ss) \<Rightarrow>
       (case normalizeTreeBranch md5 gen [r] (fst st, ss) of
          None \<Rightarrow> None
        | Some (k, ss) \<Rightarrow>
            if \<not> Exists ss ''header'' then Some (k, ss)
            else (case Pick ss r of
                    None \<Rightarrow> None
                  | Some rootB \<Rightarrow>
                      if FindPos (ChildrenIds rootB) ''header'' = 0 then Some (k, ss)
                      else (case Get_block (snd (Unlink ss ''header'')) r of
                              (None, _) \<Rightarrow> None
                            | (Some rootB, ss) \<Rightarrow> Some (k, put_block r (setChildrenIds rootB (''header'' # ChildrenIds rootB)) ss)))))"

subsection \<open>Rows and columns\<close>

text \<open>Empty rows, columns and groups are unlinked; the parents are loaded into the state.\<close>

definition removeEmptyLayoutBlock :: "State list \<Rightarrow> string \<Rightarrow> State list" where
  "removeEmptyLayoutBlock ss i =
     (case map_of (st_blocks (hd ss)) i of
        None \<Rightarrow> ss
      | Some b \<Rightarrow>
          if Content b \<in> {CLayout layout_Row, CLayout layout_Column, CLayout layout_Div}
          then snd (GetParentOf (if length (ChildrenIds b) = 0 then snd (Unlink ss (Id b)) else ss) (Id b))
          else ss)"

definition removeEmptyLayoutBlocks :: "string list \<Rightarrow> State list \<Rightarrow> State list" where
  "removeEmptyLayoutBlocks visits ss = fold (\<lambda>i ss. removeEmptyLayoutBlock ss i) visits ss"

definition reset_width :: "State list \<Rightarrow> string \<Rightarrow> State list option" where
  "reset_width ss i =
     (case Get_block ss i of
        (None, _) \<Rightarrow> None
      | (Some b, ss) \<Rightarrow>
          Some (if map_of (Fields b) ''width'' \<notin> {None, Some PNil}
                then put_block i (b\<lparr>Fields := put ''width'' (PNumber (Fin 0)) (Fields b)\<rparr>) ss else ss))"

definition normalizeLayoutRow :: "(nat list \<Rightarrow> nat list) \<Rightarrow> State list \<Rightarrow> string \<Rightarrow> State list option" where
  "normalizeLayoutRow md5 ss i =
     (case map_of (st_blocks (hd ss)) i of
        None \<Rightarrow> Some ss
      | Some b \<Rightarrow>
          if \<not> is_row b then Some ss
          else (case ChildrenIds b of
                  [] \<Rightarrow> Some (snd (Unlink ss (Id b)))
                | [c] \<Rightarrow>
                    (case Get_block ss c of
                       (None, _) \<Rightarrow> None
                     | (Some column, ss) \<Rightarrow>
                         (let removeColumn = (Content column = CLayout layout_Column);
                              contentIds = (if removeColumn then ChildrenIds column else [Id column])
                          in case InsertTo md5 ss (Id b) Block_Replace contentIds of
                               None \<Rightarrow> None
                             | Some (_, ss) \<Rightarrow>
                                 Some (snd (Unlink (if removeColumn then snd (Unlink ss (Id column)) else ss) (Id b)))))
                | cids \<Rightarrow>
                    (case PickOrigin ss (Id b) of
                       None \<Rightarrow> Some ss
                     | Some orig \<Rightarrow>
                         if length (ChildrenIds orig) \<noteq> length cids
                         then fold (\<lambda>c ss. Option.bind ss (\<lambda>ss. reset_width ss c)) cids (Some ss) else Some ss)))"

definition normalizeLayout :: "(nat list \<Rightarrow> nat list) \<Rightarrow> string list \<Rightarrow> string list \<Rightarrow> State list \<Rightarrow> State list option" where
  "normalizeLayout md5 visits visits' ss =
     fold (\<lambda>i ss. Option.bind ss (\<lambda>ss. normalizeLayoutRow md5 ss i)) visits' (Some (removeEmptyLayoutBlocks visits ss))"

subsection \<open>Relations of a type\<close>

definition recommended :: "gmap \<Rightarrow> gmap option" where
  "recommended details =
     (let recRelations = GetStringList details ''recommendedRelations'';
          recFeatRelations = GetStringList details ''recommendedFeaturedRelations'';
          recHiddenRelations = GetStringList details ''recommendedHiddenRelations'';
          recHiddenRelations = RemoveN (RemoveN recHiddenRelations recFeatRelations) recRelations;
          recRelations = RemoveN recRelations recFeatRelations
      in Option.bind (SetStringList details ''recommendedRelations'' recRelations) (\<lambda>d.
           SetStringList d ''recommendedHiddenRelations'' recHiddenRelations))"

text \<open>The details are those of the state, or else those of its parent, which are then changed in place.\<close>

fun normalizeRecommendedRelations :: "State list \<Rightarrow> State list" where
  "normalizeRecommendedRelations (s # p # ps) =
     (case (st_details s, st_details p) of
        (None, None) \<Rightarrow> s # p # ps
      | (None, d) \<Rightarrow> s # p\<lparr>st_details := the (recommended d)\<rparr> # ps
      | (d, _) \<Rightarrow> s\<lparr>st_details := the (recommended d)\<rparr> # p # ps)"
| "normalizeRecommendedRelations [s] = (case st_details s of None \<Rightarrow> [s] | d \<Rightarrow> [s\<lparr>st_details := the (recommended d)\<rparr>])"
| "normalizeRecommendedRelations [] = []"

fun ObjectTypeKeys :: "State list \<Rightarrow> string list" where
  "ObjectTypeKeys [] = []"
| "ObjectTypeKeys (s # ps) = (case st_objectTypeKeys s of None \<Rightarrow> ObjectTypeKeys ps | Some ks \<Rightarrow> ks)"

definition ObjectTypeKey :: "State list \<Rightarrow> string" where
  "ObjectTypeKey ss = (case ObjectTypeKeys ss of [] \<Rightarrow> [] | k # _ \<Rightarrow> k)"

definition normalizeDetails :: "State list \<Rightarrow> State list" where
  "normalizeDetails ss = (if ObjectTypeKey ss = ''objectType'' then normalizeRecommendedRelations ss else ss)"

subsection \<open>Every child once\<close>

fun keep :: "string list \<Rightarrow> string list \<Rightarrow> string list" where
  "keep [] seen = []"
| "keep (c # cs) seen = (if c \<in> set seen then keep cs seen else c # keep cs (c # seen))"

lemma keep_set: "set (keep cs seen) = set cs - set seen"
  by (induction cs seen rule: keep.induct) auto

lemma keep_distinct: "distinct (keep cs seen)"
  by (induction cs seen rule: keep.induct) (auto simp: keep_set)

lemma del_positions_seen: "set (snd (del_positions i cs seen)) = set seen \<union> set cs"
  by (induction i cs seen rule: del_positions.induct) (auto simp: case_prod_beta)

lemma remove_positions_keep:
  "remove_positions k (fst (del_positions (length P + k) cs seen)) (P @ cs) = P @ keep cs seen"
proof (induction cs arbitrary: P k seen)
  case (Cons c cs)
  show ?case
  proof (cases "c \<in> set seen")
    case True
    then show ?thesis using Cons.IH [of "Suc k" P seen] by (cases "del_positions (Suc (length P + k)) cs seen") simp
  next
    case False
    then show ?thesis using Cons.IH [of k "P @ [c]" "c # seen"] by simp
  qed
qed simp

lemma no_positions_keep: "fst (del_positions i cs seen) = [] \<Longrightarrow> keep cs seen = cs"
  by (induction i cs seen rule: del_positions.induct) (auto split: prod.splits if_splits)

definition kids :: "State list \<Rightarrow> string \<Rightarrow> string list" where
  "kids ss x = (case Pick ss x of Some b \<Rightarrow> ChildrenIds b | None \<Rightarrow> [])"

lemma child_kids: "(x, c) \<in> child ss \<longleftrightarrow> c \<in> set (kids ss x)"
  by (cases "Pick ss x") (auto simp: child_def kids_def)

lemma kids_Some [simp]: "Pick ss x = Some b \<Longrightarrow> kids ss x = ChildrenIds b"
  by (simp add: kids_def)

text \<open>One block: it is marked as handled, and keeps the children that were not seen.\<close>

lemma dedup_block_keeps:
  assumes b: "Pick ss i = Some b" "Id b = i" and new: "i \<notin> set H"
  shows "\<exists>ss' R'. dedup_block (ss, R, H) b = Some (ss', R', i # H) \<and> set R' = set R \<union> set (ChildrenIds b) \<and>
     Pick ss' = (Pick ss)(i \<mapsto> b\<lparr>ChildrenIds := keep (ChildrenIds b) R\<rparr>) \<and> (\<forall>r. rooted ss' r = rooted ss r) \<and> tl ss' = tl ss"
proof -
  obtain ds R' where d: "del_positions 0 (ChildrenIds b) R = (ds, R')" by (cases "del_positions 0 (ChildrenIds b) R")
  have R': "set R' = set R \<union> set (ChildrenIds b)" using del_positions_seen [of 0 "ChildrenIds b" R] by (simp add: d)
  show ?thesis
  proof (cases "ds = []")
    case True
    then have "b\<lparr>ChildrenIds := keep (ChildrenIds b) R\<rparr> = b"
      using no_positions_keep [of 0 "ChildrenIds b" R] d by (cases b) simp
    then show ?thesis using True b new d R' by (simp add: fun_upd_idem)
  next
    case False
    have "remove_positions 0 ds (ChildrenIds b) = keep (ChildrenIds b) R"
      using remove_positions_keep [of 0 "[]" "ChildrenIds b" R] d by simp
    moreover obtain ss' where "Get_block ss i = (Some b, ss')" "Pick ss' = Pick ss" "tl ss' = tl ss" "ss' \<noteq> []" "\<And>r. rooted ss' r = rooted ss r"
      using Get_blockE [OF b(1)] by blast
    ultimately show ?thesis using False b new d R' by (simp add: setChildrenIds_def)
  qed
qed

text \<open>
  What holds during the walk: handled blocks have lost only children, those they keep are distinct
  and are nobody else's, and they are linked to the root by children of handled blocks; the other blocks
  are as they were. All children that handled blocks had are recorded.
\<close>

definition linked :: "State list \<Rightarrow> string set \<Rightarrow> (string \<times> string) set" where
  "linked ss H = {(x, c). x \<in> H \<and> c \<in> set (kids ss x)}"

definition bare :: "Block \<Rightarrow> Block" where
  "bare b = b\<lparr>ChildrenIds := []\<rparr>"

lemma bare_simps [simp]: "bare (b\<lparr>ChildrenIds := cs\<rparr>) = bare b"
  by (simp add: bare_def)

lemma bare_eq: "bare a = bare b \<Longrightarrow> Id a = Id b"
  by (metis bare_def Block.select_convs(1) Block.update_convs(2) Block.surjective)

definition dedup_inv :: "State list \<Rightarrow> string \<Rightarrow> dedup \<Rightarrow> bool" where
  "dedup_inv ss0 r st \<longleftrightarrow> (case st of (ss, R, H) \<Rightarrow>
     rooted ss r \<and> set H \<subseteq> dom (Pick ss0) \<and>
     (\<forall>x. map_option bare (Pick ss x) = map_option bare (Pick ss0 x)) \<and>
     (\<forall>x. x \<notin> set H \<longrightarrow> Pick ss x = Pick ss0 x) \<and>
     set R = (\<Union>x\<in>set H. set (kids ss x)) \<and> set R = (\<Union>x\<in>set H. set (kids ss0 x)) \<and>
     (\<forall>x\<in>set H. distinct (kids ss x) \<and> set (kids ss x) \<subseteq> set (kids ss0 x)) \<and>
     (\<forall>x\<in>set H. \<forall>y\<in>set H. x \<noteq> y \<longrightarrow> set (kids ss x) \<inter> set (kids ss y) = {}) \<and>
     (\<forall>x\<in>set H. (r, x) \<in> (linked ss (set H))\<^sup>*) \<and> tl ss = tl ss0)"

lemma dedup_invD:
  assumes "dedup_inv ss0 r (ss, R, H)"
  shows "rooted ss r" "set H \<subseteq> dom (Pick ss0)" "\<forall>x. x \<notin> set H \<longrightarrow> Pick ss x = Pick ss0 x"
    "\<forall>x\<in>set H. distinct (kids ss x) \<and> set (kids ss x) \<subseteq> set (kids ss0 x)"
    "\<forall>x\<in>set H. \<forall>y\<in>set H. x \<noteq> y \<longrightarrow> set (kids ss x) \<inter> set (kids ss y) = {}" "\<forall>x\<in>set H. (r, x) \<in> (linked ss (set H))\<^sup>*"
    "\<forall>x. map_option bare (Pick ss x) = map_option bare (Pick ss0 x)"
    "set R = (\<Union>x\<in>set H. set (kids ss x))" "set R = (\<Union>x\<in>set H. set (kids ss0 x))" "tl ss = tl ss0"
  using assms unfolding dedup_inv_def prod.case by - (elim conjE, assumption)+

lemma dedup_inv_start: "rooted ss r \<Longrightarrow> dedup_inv ss r (ss, [], [])"
  by (auto simp: dedup_inv_def)

lemma dedup_inv_block:
  assumes I: "dedup_inv ss0 r (ss, R, H)" and own: "own_ids ss0" and b: "Pick ss i = Some b" and i: "i = r \<or> i \<in> set R"
    and new: "i \<notin> set H"
  shows "\<exists>ss' R'. dedup_block (ss, R, H) b = Some (ss', R', i # H) \<and> dedup_inv ss0 r (ss', R', i # H) \<and>
     (\<forall>x\<in>set H. Pick ss' x = Pick ss x) \<and> set R \<subseteq> set R' \<and> set (ChildrenIds b) \<subseteq> set R' \<and> kids ss' i = keep (ChildrenIds b) R"
proof -
  have b0: "Pick ss0 i = Some b" using I new b by (auto simp: dedup_inv_def)
  then have "Id b = i" using own by (simp add: own_ids_def)
  then obtain ss' R' where st: "dedup_block (ss, R, H) b = Some (ss', R', i # H)" "set R' = set R \<union> set (ChildrenIds b)"
    and pick: "Pick ss' = (Pick ss)(i \<mapsto> b\<lparr>ChildrenIds := keep (ChildrenIds b) R\<rparr>)" and root: "rooted ss' r = rooted ss r" "tl ss' = tl ss"
    using dedup_block_keeps [OF b _ new] by blast
  have same: "Pick ss' x = Pick ss x" "kids ss' x = kids ss x" if "x \<in> set H" for x using that new pick by (auto simp: kids_def)
  have ki: "kids ss' i = keep (ChildrenIds b) R" "kids ss0 i = ChildrenIds b" using pick b0 by (simp_all add: kids_def)
  have HR: "set R = (\<Union>x\<in>set H. set (kids ss x))" "set R = (\<Union>x\<in>set H. set (kids ss0 x))" by (fact dedup_invD [OF I])+
  have "linked ss (set H) \<subseteq> linked ss' (set (i # H))" using same by (auto simp: linked_def)
  then have mono: "(linked ss (set H))\<^sup>* \<subseteq> (linked ss' (set (i # H)))\<^sup>*" by (rule rtrancl_mono)
  note old = dedup_invD [OF I]
  have up: "(r, i) \<in> (linked ss' (set (i # H)))\<^sup>*"
  proof (cases "i = r")
    case False
    then obtain x where x: "x \<in> set H" "i \<in> set (kids ss x)" using i HR by auto
    then have "(r, x) \<in> (linked ss' (set (i # H)))\<^sup>*" using old(6) mono by auto
    moreover have "(x, i) \<in> linked ss' (set (i # H))" using x same by (auto simp: linked_def)
    ultimately show ?thesis by (rule rtrancl_into_rtrancl)
  qed simp
  have other: "set (kids ss' i) \<inter> set (kids ss' x) = {}" if "x \<in> set H" for x
    using that HR same by (auto simp: ki keep_set)
  have "dedup_inv ss0 r (ss', R', i # H)"
    unfolding dedup_inv_def prod.case
  proof (intro conjI)
    show "\<forall>x. map_option bare (Pick ss' x) = map_option bare (Pick ss0 x)"
      using old(7) pick b0 by simp
    show "set R' = (\<Union>x\<in>set (i # H). set (kids ss' x))" "set R' = (\<Union>x\<in>set (i # H). set (kids ss0 x))"
      using HR same by (auto simp: st(2) ki keep_set)
    show "\<forall>x\<in>set (i # H). distinct (kids ss' x) \<and> set (kids ss' x) \<subseteq> set (kids ss0 x)"
      using old(4) same by (auto simp: ki keep_distinct keep_set)
    show "\<forall>x\<in>set (i # H). \<forall>y\<in>set (i # H). x \<noteq> y \<longrightarrow> set (kids ss' x) \<inter> set (kids ss' y) = {}"
      using old(5) other same(2) by (metis Int_commute set_ConsD)
    show "\<forall>x\<in>set (i # H). (r, x) \<in> (linked ss' (set (i # H)))\<^sup>*" using up old(6) mono by auto
  qed (use root old b0 pick in auto)
  then show ?thesis using st same ki by blast
qed

lemma dedup_inv_dom:
  assumes "dedup_inv ss0 r (ss, R, H)"
  shows "Pick ss x = None \<longleftrightarrow> Pick ss0 x = None"
  using dedup_invD(7) [OF assms] by (metis map_option_is_None)

text \<open>What a walk from recorded ids does: it handles them and whatever the blocks that it handles keep.\<close>

definition dedup_post :: "State list \<Rightarrow> string \<Rightarrow> dedup \<Rightarrow> string list \<Rightarrow> dedup \<Rightarrow> bool" where
  "dedup_post ss0 r st ids st' \<longleftrightarrow> (case (st, st') of ((ss, R, H), (ss', R', H')) \<Rightarrow>
     dedup_inv ss0 r (ss', R', H') \<and> set H \<subseteq> set H' \<and> set R \<subseteq> set R' \<and> (\<forall>x\<in>set H. Pick ss' x = Pick ss x) \<and>
     (\<forall>i\<in>set ids. Exists ss0 i \<longrightarrow> i \<in> set H') \<and>
     (\<forall>x\<in>set H' - set H. \<forall>c\<in>set (kids ss' x). Exists ss0 c \<longrightarrow> c \<in> set H'))"

text \<open>One block, handled before or now, gives a walk over recorded children among which are those it keeps.\<close>

definition next_ids :: "State list \<Rightarrow> State list \<Rightarrow> string \<Rightarrow> Block \<Rightarrow> string list" where
  "next_ids ss ss' i b = (if InState ss i then ChildrenIds (the (Pick ss' i)) else ChildrenIds b)"

lemma dedup_block_step:
  assumes I: "dedup_inv ss0 r (ss, R, H)" and own: "own_ids ss0" and b: "Pick ss i = Some b" and i: "i = r \<or> i \<in> set R"
  shows "\<exists>ss' R' H'. dedup_block (ss, R, H) b = Some (ss', R', H') \<and> dedup_inv ss0 r (ss', R', H') \<and> set H' = insert i (set H) \<and>
     set R \<subseteq> set R' \<and> (\<forall>x\<in>set H. Pick ss' x = Pick ss x) \<and> set (next_ids ss ss' i b) \<subseteq> set R' \<inter> set (kids ss0 i) \<and>
     set (kids ss' i) \<subseteq> set (next_ids ss ss' i b)"
proof (cases "i \<in> set H")
  case True
  obtain b0 where "Pick ss0 i = Some b0" using dedup_inv_dom [OF I, of i] b by auto
  moreover have "bare b = bare b0" using dedup_invD(7) [OF I, THEN spec, of i] b calculation by simp
  ultimately have "Id b = i" using bare_eq [of b b0] own by (simp add: own_ids_def)
  moreover have "set (kids ss i) \<subseteq> set R" unfolding dedup_invD(8) [OF I] using True by blast
  then have "set (ChildrenIds b) \<subseteq> set R \<inter> set (kids ss0 i)" 
    using bspec [OF dedup_invD(4) [OF I] True] b by simp
  ultimately show ?thesis using True b I by (simp add: next_ids_def insert_absorb)
next
  case False
  from dedup_inv_block [OF I own b i False] obtain ss' R' where
    st: "dedup_block (ss, R, H) b = Some (ss', R', i # H)" "dedup_inv ss0 r (ss', R', i # H)"
      "\<forall>x\<in>set H. Pick ss' x = Pick ss x" "set R \<subseteq> set R'" "set (ChildrenIds b) \<subseteq> set R'"
    and ki: "kids ss' i = keep (ChildrenIds b) R" by blast
  have "Pick ss0 i = Some b" using dedup_invD(3) [OF I] False b by simp
  moreover have "Pick ss' i \<noteq> None" using dedup_inv_dom [OF st(2), of i] calculation by simp
  ultimately have "set (next_ids ss ss' i b) \<subseteq> set R' \<inter> set (kids ss0 i)" "set (kids ss' i) \<subseteq> set (next_ids ss ss' i b)"
    using st(5) ki by (auto simp: next_ids_def kids_def keep_set)
  with st show ?thesis by (intro exI [of _ ss'] exI [of _ R'] exI [of _ "i # H"]) auto
qed

lemma dedup_postD:
  assumes "dedup_post ss0 r (ss, R, H) ids (ss', R', H')"
  shows "dedup_inv ss0 r (ss', R', H')" "set H \<subseteq> set H'" "set R \<subseteq> set R'" "\<forall>x\<in>set H. Pick ss' x = Pick ss x"
    "\<forall>i\<in>set ids. Exists ss0 i \<longrightarrow> i \<in> set H'" "\<forall>x\<in>set H' - set H. \<forall>c\<in>set (kids ss' x). Exists ss0 c \<longrightarrow> c \<in> set H'"
  using assms unfolding dedup_post_def prod.case by - (elim conjE, assumption)+

lemma dedup_post_join:
  assumes "set H1 = insert i (set H)" "set R \<subseteq> set R1" "\<forall>x\<in>set H. Pick ss1 x = Pick ss x" "set (kids ss1 i) \<subseteq> set cs"
    and p2: "dedup_post ss0 r (ss1, R1, H1) cs (ss2, R2, H2)" and p3: "dedup_post ss0 r (ss2, R2, H2) rest st3"
  shows "dedup_post ss0 r (ss, R, H) (i # rest) st3"
proof -
  obtain ss3 R3 H3 where st3: "st3 = (ss3, R3, H3)" by (metis prod_cases3)
  note P2 = dedup_postD [OF p2] and P3 = dedup_postD [OF p3 [unfolded st3]]
  have same: "kids ss3 x = kids ss2 x" if "x \<in> set H2" for x using P3(4) that by (simp add: kids_def)
  have ki: "kids ss2 i = kids ss1 i" using P2(4) assms(1) by (simp add: kids_def)
  have "c \<in> set H3" if "x \<in> set H3 - set H" "c \<in> set (kids ss3 x)" "Exists ss0 c" for x c
  proof -
    have "x \<notin> set H1 \<or> x = i" "i \<in> set H2" using that(1) assms(1) P2(2) by auto
    then consider "x \<notin> set H2" | "x \<in> set H2" "x \<notin> set H1" | "x = i" "i \<in> set H2" by metis
    then show ?thesis
    proof cases
      case 1
      then show ?thesis using P3(6) that by blast
    next
      case 2
      then show ?thesis using P2(6) P3(2) same that by auto
    next
      case 3
      then show ?thesis using P2(5) P3(2) same ki assms(4) that by auto
    qed
  qed
  moreover have "set H \<subseteq> set H3" "set R \<subseteq> set R3" using assms(1,2) P2(2,3) P3(2,3) by auto
  moreover have "\<forall>x\<in>set H. Pick ss3 x = Pick ss x" using assms(1,3) P2(2,4) P3(4) by auto
  moreover have "\<forall>j\<in>set (i # rest). Exists ss0 j \<longrightarrow> j \<in> set H3" using assms(1) P2(2) P3(2,5) by auto
  ultimately show ?thesis using P3(1) unfolding st3 dedup_post_def prod.case by blast
qed

lemma dedup_walk_handles:
  assumes own: "own_ids ss0" and ac: "acyclic_from ss0 r"
    and I: "dedup_inv ss0 r (ss, R, H)" and ids: "set ids \<subseteq> insert r (set R)" "\<forall>i\<in>set ids. reach ss0 r i"
    and path: "\<forall>p\<in>set path. \<forall>i\<in>set ids. (p, i) \<in> (child ss0)\<^sup>+"
  shows "\<exists>st'. dedup_walk (ss, R, H) path ids = Some (st', True) \<and> dedup_post ss0 r (ss, R, H) ids st'"
  using I ids path
proof (induction "(card (all_ids ss0 - set path), length ids)" arbitrary: ss R H path ids
    rule: wf_induct_rule [OF wf_lex_prod [OF wf_less_than wf_less_than]])
  case 1
  note IH = 1(1) and I = 1(2) and ids = 1(3,4) and path = 1(5)
  show ?case
  proof (cases ids)
    case Nil
    then show ?thesis using I by (simp add: dedup_walk.simps dedup_post_def)
  next
    case (Cons i rest)
    have i: "i \<notin> set path" using path ids(2) ac Cons by (auto simp: acyclic_from_def)
    show ?thesis
    proof (cases "Pick ss i")
      case None
      have "\<exists>st'. dedup_walk (ss, R, H) path rest = Some (st', True) \<and> dedup_post ss0 r (ss, R, H) rest st'"
        using Cons ids path by (intro IH I) auto
      then show ?thesis using None dedup_inv_dom [OF I, of i] i Cons
        by (subst dedup_walk.simps) (auto simp: Exists_def dedup_post_def)
    next
      case (Some b)
      have "i = r \<or> i \<in> set R" using ids(1) Cons by auto
      from dedup_block_step [OF I own Some this] obtain ss1 R1 H1 where st1: "dedup_block (ss, R, H) b = Some (ss1, R1, H1)"
        "dedup_inv ss0 r (ss1, R1, H1)" "set H1 = insert i (set H)" "set R \<subseteq> set R1" "\<forall>x\<in>set H. Pick ss1 x = Pick ss x"
        and n: "set (next_ids ss ss1 i b) \<subseteq> set R1 \<inter> set (kids ss0 i)" "set (kids ss1 i) \<subseteq> set (next_ids ss ss1 i b)" by blast
      have step: "(i, c) \<in> child ss0" if "c \<in> set (next_ids ss ss1 i b)" for c using n(1) that by (auto simp: child_kids)
      have "i \<in> all_ids ss0" using dedup_inv_dom [OF I, of i] Some by (auto dest: Pick_all_ids)
      then have "card (all_ids ss0 - set (path @ [i])) < card (all_ids ss0 - set path)"
        using i by (intro psubset_card_mono) auto
      then have "\<exists>st'. dedup_walk (ss1, R1, H1) (path @ [i]) (next_ids ss ss1 i b) = Some (st', True) \<and>
          dedup_post ss0 r (ss1, R1, H1) (next_ids ss ss1 i b) st'"
        using n(1) step ids(2) path Cons by (intro IH st1(2)) (auto intro: reach_step trancl_into_trancl)
      then obtain ss2 R2 H2 where st2: "dedup_walk (ss1, R1, H1) (path @ [i]) (next_ids ss ss1 i b) = Some ((ss2, R2, H2), True)"
        and p2: "dedup_post ss0 r (ss1, R1, H1) (next_ids ss ss1 i b) (ss2, R2, H2)" by (metis prod_cases3)
      have "\<exists>st'. dedup_walk (ss2, R2, H2) path rest = Some (st', True) \<and> dedup_post ss0 r (ss2, R2, H2) rest st'"
        using dedup_postD(1,3) [OF p2] ids path Cons st1(4) by (intro IH) auto
      then obtain st3 where st3: "dedup_walk (ss2, R2, H2) path rest = Some (st3, True)" "dedup_post ss0 r (ss2, R2, H2) rest st3" by blast
      have "dedup_walk (ss, R, H) path ids = Some (st3, True)"
        using i Cons Some st1(1) st2 [unfolded next_ids_def] st3(1)
        by (subst dedup_walk.simps) (cases "InState ss i"; simp del: dedup_block.simps)
      moreover have "dedup_post ss0 r (ss, R, H) ids st3"
        unfolding Cons by (rule dedup_post_join [OF st1(3-5) n(2) p2 st3(2)])
      ultimately show ?thesis by blast
    qed
  qed
qed

text \<open>At the end exactly the blocks that the root reaches are handled.\<close>

lemma dedup_end:
  assumes I: "dedup_inv ss0 r (ss, R, H)" and cl: "\<forall>x\<in>set H. \<forall>c\<in>set (kids ss x). Exists ss0 c \<longrightarrow> c \<in> set H"
    and root: "Exists ss0 r \<longrightarrow> r \<in> set H"
  shows "reach ss r x \<and> Exists ss0 x \<longleftrightarrow> x \<in> set H" "reach ss0 r x \<and> Exists ss0 x \<longleftrightarrow> x \<in> set H"
proof -
  have ex: "Exists ss x = Exists ss0 x" for x using dedup_inv_dom [OF I, of x] by (simp add: Exists_def)
  have par: "Exists s y" if "(y, c) \<in> child s" for s y c using that by (auto simp: child_def Exists_def)
  have "linked ss (set H) \<subseteq> child ss" by (auto simp: linked_def child_kids)
  then have "reach ss r x" if "x \<in> set H" for x
    using dedup_invD(6) [OF I] that rtrancl_mono unfolding reach_def by blast
  moreover have "Exists ss0 x" if "x \<in> set H" for x using dedup_invD(2) [OF I] that by (auto simp: Exists_def)
  moreover have in_H: "x \<in> set H" if "reach ss r x" "Exists ss0 x" for x
    using that unfolding reach_def
  proof (induction rule: rtrancl_induct)
    case (step y z)
    then have "y \<in> set H" using par [OF step(2)] ex by simp
    then show ?case using cl step by (auto simp: child_kids)
  qed (use root in simp)
  ultimately show "reach ss r x \<and> Exists ss0 x \<longleftrightarrow> x \<in> set H" for x by blast
  have "x \<in> set H" if "reach ss0 r x" "Exists ss0 x" for x
    using that unfolding reach_def
  proof (induction rule: rtrancl_induct)
    case (step y z)
    then have "y \<in> set H" using par [OF step(2)] by simp
    then have "z \<in> set R" using step(2) unfolding dedup_invD(9) [OF I] by (auto simp: child_kids)
    then show ?case using cl step(4) unfolding dedup_invD(8) [OF I] by auto
  qed (use root in simp)
  moreover have "linked ss (set H) \<subseteq> child ss0" 
  proof (clarsimp simp: linked_def child_kids)
    fix x c assume "x \<in> set H" "c \<in> set (kids ss x)"
    then show "c \<in> set (kids ss0 x)" using bspec [OF dedup_invD(4) [OF I]] by (meson subsetD)
  qed
  then have "reach ss0 r x" if "x \<in> set H" for x
    using dedup_invD(6) [OF I] that rtrancl_mono unfolding reach_def by blast
  ultimately show "reach ss0 r x \<and> Exists ss0 x \<longleftrightarrow> x \<in> set H" for x
    using dedup_invD(2) [OF I] by (auto simp: Exists_def)
qed

text \<open>In a state without cycles \<open>removeDuplicates\<close> returns and makes every block the child of one block at
  most, once: no block becomes unreachable, no content changes, and children are only removed.\<close>

lemma removeDuplicates_single:
  assumes root: "rooted ss r" and own: "own_ids ss" and ac: "acyclic_from ss r"
  shows "\<exists>ss'. removeDuplicates ss = Some ss' \<and> rooted ss' r \<and>
     (\<forall>x. map_option bare (Pick ss' x) = map_option bare (Pick ss x)) \<and>
     (\<forall>x. Exists ss x \<longrightarrow> reach ss' r x = reach ss r x) \<and>
     (\<forall>x. reach ss' r x \<longrightarrow> distinct (kids ss' x) \<and> set (kids ss' x) \<subseteq> set (kids ss x)) \<and>
     (\<forall>x y c. reach ss' r x \<and> reach ss' r y \<and> (x, c) \<in> child ss' \<and> (y, c) \<in> child ss' \<longrightarrow> x = y) \<and> tl ss' = tl ss"
proof -
  obtain st where w: "dedup_walk (ss, [], []) [] [r] = Some (st, True)" "dedup_post ss r (ss, [], []) [r] st"
    using dedup_walk_handles [OF own ac dedup_inv_start [OF root], of "[r]" "[]"] by auto
  obtain ss' R H where st: "st = (ss', R, H)" by (metis prod_cases3)
  note P = dedup_postD [OF w(2) [unfolded st]]
  have E: "reach ss' r x \<and> Exists ss x \<longleftrightarrow> x \<in> set H" "reach ss r x \<and> Exists ss x \<longleftrightarrow> x \<in> set H" for x
    using P(5,6) by (intro dedup_end [OF P(1)]; simp)+
  have ex: "kids ss' x \<noteq> [] \<Longrightarrow> Exists ss x" for x
    using dedup_inv_dom [OF P(1), of x] by (auto simp: kids_def Exists_def split: option.splits)
  have inH: "reach ss' r x \<Longrightarrow> c \<in> set (kids ss' x) \<Longrightarrow> x \<in> set H" for x c using E(1) ex by force
  have "distinct (kids ss' x) \<and> set (kids ss' x) \<subseteq> set (kids ss x)" if "reach ss' r x" for x
  proof (cases "kids ss' x = []")
    case False
    then have "x \<in> set H" using inH [OF that] by (meson last_in_set)
    then show ?thesis using dedup_invD(4) [OF P(1)] by blast
  qed simp
  moreover have "x = y" if "reach ss' r x" "reach ss' r y" "(x, c) \<in> child ss'" "(y, c) \<in> child ss'" for x y c
    using dedup_invD(5) [OF P(1)] that inH unfolding child_kids by blast
  moreover have "removeDuplicates ss = Some ss'" using w(1) root by (simp add: removeDuplicates_def st)
  moreover have "reach ss' r x = reach ss r x" if "Exists ss x" for x using E that by blast
  ultimately show ?thesis using dedup_invD(1,7,10) [OF P(1)] by blast
qed

subsection \<open>Only existing children\<close>

lemma existing_children_filter: "existing_children ss cids = [c \<leftarrow> cids. Exists ss c]"
proof (induction ss cids rule: existing_children.induct)
  case (1 ss cids)
  show ?case
  proof (cases "find (\<lambda>c. \<not> Exists ss c) cids")
    case None
    moreover have "[c \<leftarrow> cids. Exists ss c] = cids" using None by (auto simp: find_None_iff filter_id_conv)
    ultimately show ?thesis by (subst existing_children.simps) simp
  next
    case (Some c)
    then have "\<not> Exists ss c" by (auto simp: find_Some_iff)
    then have "[x \<leftarrow> RemoveMut cids c. Exists ss x] = [x \<leftarrow> cids. Exists ss x]"
      by (auto simp: RemoveMut_def intro!: filter_cong)
    then show ?thesis using 1 [OF Some] Some by (subst existing_children.simps) simp
  qed
qed

declare existing_children.simps [simp del]

definition clean_block :: "State list \<Rightarrow> Block \<Rightarrow> Block" where
  "clean_block ss b = b\<lparr>ChildrenIds := [c \<leftarrow> ChildrenIds b. Exists ss c]\<rparr>"

lemma bare_clean [simp]: "bare (clean_block ss b) = bare b"
  by (simp add: clean_block_def)

lemma InState_put [simp]: "ss \<noteq> [] \<Longrightarrow> InState (put_block i b ss) x \<longleftrightarrow> x = i \<or> InState ss x"
  by (cases ss) auto

lemma normalizeChildren_clean:
  "ss \<noteq> [] \<Longrightarrow> normalizeChildren ss i = (if InState ss i then put_block i (clean_block ss (the (Pick ss i))) ss else ss)"
  by (cases ss) (simp_all add: normalizeChildren_def existing_children_filter clean_block_def split: option.split)

text \<open>The pass over the blocks of the head, in any order.\<close>

lemma normalize_all_clean:
  assumes "ss \<noteq> []"
  shows "Pick (normalize_all_children visits ss) x =
      (if InState ss x \<and> x \<in> set visits then map_option (clean_block ss) (Pick ss x) else Pick ss x) \<and>
    rooted (normalize_all_children visits ss) r = rooted ss r"
  using assms
proof (induction visits arbitrary: ss)
  case (Cons i visits)
  let ?ss = "normalizeChildren ss i"
  have ss: "?ss \<noteq> []" "rooted ?ss r = rooted ss r" using Cons.prems by (simp_all add: normalizeChildren_clean)
  have P: "Pick ?ss y = (if InState ss i \<and> y = i then map_option (clean_block ss) (Pick ss y) else Pick ss y)" for y
    using Cons.prems by (cases ss) (auto simp: normalizeChildren_clean split: option.splits)
  have E: "Exists ?ss = Exists ss" by (auto simp: Exists_def P fun_eq_iff)
  have S: "InState ?ss = InState ss" using Cons.prems by (auto simp: normalizeChildren_clean fun_eq_iff)
  have "clean_block ?ss = clean_block ss" by (simp add: clean_block_def E fun_eq_iff)
  moreover have "clean_block ss (clean_block ss b) = clean_block ss b" for b by (simp add: clean_block_def)
  ultimately show ?case using Cons.IH [OF ss(1)] ss(2) P S
    by (auto simp: normalize_all_children_def option.map_comp comp_def)
qed (simp add: normalize_all_children_def)

lemma reach_existing:
  assumes "child ss2 = {(x, c) \<in> child ss1. Exists ss1 c}" "Exists ss1 x"
  shows "reach ss2 r x \<longleftrightarrow> reach ss1 r x"
proof
  show "reach ss2 r x \<Longrightarrow> reach ss1 r x" using assms(1) rtrancl_mono [of "child ss2" "child ss1"] by (auto simp: reach_def)
  assume "reach ss1 r x"
  then show "reach ss2 r x" using assms(2) unfolding reach_def
  proof (induction rule: rtrancl_induct)
    case (step y z)
    then have "Exists ss1 y" by (auto simp: child_def Exists_def)
    then show ?case using step assms(1) by (auto intro: rtrancl_into_rtrancl)
  qed simp
qed

text \<open>C14: the first two passes of \<open>normalize\<close>, the removal of duplicates and the removal of missing children in
  the blocks of the state, return and give a state that \<open>Validate\<close> accepts, with the same reachable
  blocks and contents. The state must have no cycle, and the states below it no missing children.\<close>

theorem normalize_valid:
  assumes root: "rooted ss r" and own: "own_ids ss" and ac: "acyclic_from ss r"
    and parents: "\<And>x b c. Pick (tl ss) x = Some b \<Longrightarrow> c \<in> set (ChildrenIds b) \<Longrightarrow> Exists ss c"
  shows "\<exists>ss1. removeDuplicates ss = Some ss1 \<and>
     (\<forall>visits. (\<forall>x. InState ss1 x \<longrightarrow> x \<in> set visits) \<longrightarrow>
        fst (Validate (normalize_all_children visits ss1)) = None \<and>
        (\<forall>x. map_option bare (Pick (normalize_all_children visits ss1) x) = map_option bare (Pick ss x)) \<and>
        (\<forall>x. Exists ss x \<longrightarrow> reach (normalize_all_children visits ss1) r x = reach ss r x))"
proof -
  obtain ss1 where s1: "removeDuplicates ss = Some ss1" "rooted ss1 r" "tl ss1 = tl ss"
    and bare: "\<And>x. map_option bare (Pick ss1 x) = map_option bare (Pick ss x)"
    and reach1: "\<And>x. Exists ss x \<Longrightarrow> reach ss1 r x = reach ss r x"
    and kids1: "\<And>x. reach ss1 r x \<Longrightarrow> distinct (kids ss1 x) \<and> set (kids ss1 x) \<subseteq> set (kids ss x)"
    and single: "\<And>x y c. reach ss1 r x \<Longrightarrow> reach ss1 r y \<Longrightarrow> (x, c) \<in> child ss1 \<Longrightarrow> (y, c) \<in> child ss1 \<Longrightarrow> x = y"
    using removeDuplicates_single [OF root own ac] by blast
  have E: "Exists ss1 x = Exists ss x" for x using bare [of x] unfolding Exists_def by (metis map_option_is_None)
  have "fst (Validate ss2) = None \<and> (\<forall>x. map_option bare (Pick ss2 x) = map_option bare (Pick ss x)) \<and>
      (\<forall>x. Exists ss x \<longrightarrow> reach ss2 r x = reach ss r x)"
    if v: "\<forall>x. InState ss1 x \<longrightarrow> x \<in> set visits" and ss2: "ss2 = normalize_all_children visits ss1" for visits ss2
  proof -
    have "ss1 \<noteq> []" using s1(2) by simp
    note clean = normalize_all_clean [OF this, of visits, folded ss2]
    have outside: "Pick ss1 x = Pick (tl ss) x" if "\<not> InState ss1 x" for x
      using that s1(3) \<open>ss1 \<noteq> []\<close> by (cases ss1) auto
    have P2: "Pick ss2 x = map_option (clean_block ss1) (Pick ss1 x)" for x
    proof (cases "InState ss1 x")
      case False
      then have "clean_block ss1 b = b" if "Pick ss1 x = Some b" for b
        using parents [of x b] outside [of x] that E by (simp add: clean_block_def filter_id_conv)
      then show ?thesis using clean False by (cases "Pick ss1 x") auto
    qed (use clean v in simp)
    have E2: "Exists ss2 x = Exists ss1 x" for x by (simp add: Exists_def P2)
    have kids2: "kids ss2 x = [c \<leftarrow> kids ss1 x. Exists ss1 c]" for x by (cases "Pick ss1 x") (simp_all add: kids_def P2 clean_block_def)
    then have child2: "child ss2 = {(x, c) \<in> child ss1. Exists ss1 c}" by (auto simp: child_kids)
    have reach2: "reach ss2 r x = reach ss1 r x" if "Exists ss1 x" for x using reach_existing [OF child2 that] .
    have ex: "Exists ss1 x" if "(x, c) \<in> child ss1" for x c using that by (auto simp: child_def Exists_def)
    have "tree ss2 r"
      unfolding tree_def
    proof (intro conjI allI impI)
      fix x b assume x: "reach ss2 r x \<and> Pick ss2 x = Some b"
      then have "Exists ss1 x" using E2 [of x] by (simp add: Exists_def)
      then have "reach ss1 r x" using reach2 x by simp
      then show "distinct (ChildrenIds b)" "\<forall>c\<in>set (ChildrenIds b). Exists ss2 c"
        using kids1 [of x] kids2 [of x] x E2 by auto
    next
      fix x y c assume "reach ss2 r x \<and> reach ss2 r y \<and> (x, c) \<in> child ss2 \<and> (y, c) \<in> child ss2"
      then show "x = y" using single [of x y c] reach2 ex child2 by auto
    next
      fix x assume x: "reach ss2 r x"
      show "(x, r) \<notin> child ss2"
      proof
        assume "(x, r) \<in> child ss2"
        then have "(x, r) \<in> child ss1" using child2 by auto
        moreover have "reach ss1 r x" using x reach2 ex [OF calculation] by simp
        ultimately have "(x, r) \<in> child ss" "reach ss r x" using kids1 [of x] reach1 [of x] ex E by (auto simp: child_kids)
        then show False using ac unfolding acyclic_from_def reach_def by (metis rtrancl_into_trancl1 rtrancl.rtrancl_refl)
      qed
    qed
    then have "fst (Validate ss2) = None" using Validate_rooted [of ss2 r] clean s1(2) by simp
    moreover have "map_option bare (Pick ss2 x) = map_option bare (Pick ss x)" for x
      using bare [of x] by (simp add: P2 option.map_comp comp_def)
    ultimately show ?thesis using reach2 reach1 E by simp
  qed
  then show ?thesis using s1(1) by blast
qed

subsection \<open>Removing groups keeps the document\<close>

text \<open>A part of the tree that is not changed keeps its blocks and links.\<close>

lemma walk_cong:
  "(\<forall>x. (i, x) \<in> (child ss)\<^sup>* \<longrightarrow> Pick ss' x = Pick ss x) \<Longrightarrow> walk ss' path i = walk ss path i"
  "(\<forall>c\<in>set cs. \<forall>x. (c, x) \<in> (child ss)\<^sup>* \<longrightarrow> Pick ss' x = Pick ss x) \<Longrightarrow> walk_children ss' path cs = walk_children ss path cs"
proof (induction ss path i and ss path cs rule: walk_walk_children.induct)
  case (1 ss path i)
  have i: "Pick ss' i = Pick ss i" using 1(2) by blast
  show ?case
  proof (cases "i \<in> set path \<or> Pick ss i = None")
    case False
    then obtain b where b: "Pick ss i = Some b" by auto
    have "walk_children ss' (path @ [i]) (ChildrenIds b) = walk_children ss (path @ [i]) (ChildrenIds b)"
      using False b 1(2) by (intro 1(1)) (auto intro: converse_rtrancl_into_rtrancl)
    then show ?thesis using i b by (simp add: walk.simps [of ss] walk.simps [of ss'])
  qed (use i in \<open>auto simp: walk.simps [of ss] walk.simps [of ss']\<close>)
next
  case (3 ss path c cs)
  then show ?case by (auto split: option.splits prod.splits)
qed simp

lemma unchanged:
  assumes "\<forall>x. (i, x) \<in> (child ss)\<^sup>* \<longrightarrow> Pick ss' x = Pick ss x"
  shows "below ss' i = below ss i" "(i, x) \<in> (child ss')\<^sup>* \<longleftrightarrow> (i, x) \<in> (child ss)\<^sup>*" "acyclic_from ss' i = acyclic_from ss i"
proof -
  have w: "walk ss' [] i = walk ss [] i" using assms by (rule walk_cong(1))
  then show "below ss' i = below ss i" "acyclic_from ss' i = acyclic_from ss i" by (simp_all add: walk_error_iff [symmetric])
  have out: "(y, z) \<in> child ss' \<longleftrightarrow> (y, z) \<in> child ss" if "(i, y) \<in> (child ss)\<^sup>*" for y z
    using assms that by (simp add: child_def)
  show "(i, x) \<in> (child ss')\<^sup>* \<longleftrightarrow> (i, x) \<in> (child ss)\<^sup>*"
  proof
    assume "(i, x) \<in> (child ss)\<^sup>*"
    then show "(i, x) \<in> (child ss')\<^sup>*" by (induction rule: rtrancl_induct) (auto intro: rtrancl_into_rtrancl simp: out)
  next
    assume "(i, x) \<in> (child ss')\<^sup>*"
    then show "(i, x) \<in> (child ss)\<^sup>*" by (induction rule: rtrancl_induct) (auto intro: rtrancl_into_rtrancl simp: out)
  qed
qed

definition part :: "State list \<Rightarrow> string list \<Rightarrow> string set" where
  "part ss cs = {x. \<exists>c\<in>set cs. (c, x) \<in> (child ss)\<^sup>*}"

lemma part_simps [simp]: "part ss [] = {}" "part ss (xs @ ys) = part ss xs \<union> part ss ys"
  by (auto simp: part_def)

lemma part_Cons: "part ss (c # cs) = part ss [c] \<union> part ss cs"
  by (auto simp: part_def)

lemma part_unchanged:
  assumes "\<forall>x\<in>part ss cs. Pick ss' x = Pick ss x"
  shows "part ss' cs = part ss cs" "map (below ss') cs = map (below ss) cs" "(\<forall>c\<in>set cs. acyclic_from ss' c) = (\<forall>c\<in>set cs. acyclic_from ss c)"
proof -
  have u: "\<forall>x. (c, x) \<in> (child ss)\<^sup>* \<longrightarrow> Pick ss' x = Pick ss x" if "c \<in> set cs" for c
    using assms that by (auto simp: part_def)
  show "part ss' cs = part ss cs" using unchanged(2) [OF u] by (auto simp: part_def)
  show "map (below ss') cs = map (below ss) cs" using unchanged(1) [OF u] by simp
  show "(\<forall>c\<in>set cs. acyclic_from ss' c) = (\<forall>c\<in>set cs. acyclic_from ss c)" using unchanged(3) [OF u] by simp
qed

lemma part_block: "Pick ss c = Some b \<Longrightarrow> part ss [c] = insert c (part ss (ChildrenIds b))"
proof -
  assume b: "Pick ss c = Some b"
  have "x = c \<or> x \<in> part ss (ChildrenIds b)" if "(c, x) \<in> (child ss)\<^sup>*" for x
    using that b by (cases rule: converse_rtranclE) (auto simp: part_def)
  then show "part ss [c] = insert c (part ss (ChildrenIds b))"
    using b by (auto simp: part_def intro: converse_rtrancl_into_rtrancl)
qed

text \<open>The blocks below a list of ids, without groups and without their links.\<close>

definition contents :: "State list \<Rightarrow> string list \<Rightarrow> Block list" where
  "contents ss cs = [bare b. b \<leftarrow> concat (map (below ss) cs), \<not> isDivLayout b]"

definition groups :: "State list \<Rightarrow> string list \<Rightarrow> nat" where
  "groups ss cs = length [b \<leftarrow> concat (map (below ss) cs). isDivLayout b]"

lemma contents_simps [simp]:
  "contents ss [] = []" "contents ss (xs @ ys) = contents ss xs @ contents ss ys" "groups ss [] = 0"
  "groups ss (xs @ ys) = groups ss xs + groups ss ys"
  by (simp_all add: contents_def groups_def)

lemma contents_Cons:
  "contents ss (c # cs) = contents ss [c] @ contents ss cs" "groups ss (c # cs) = groups ss [c] + groups ss cs"
  by (simp_all add: contents_def groups_def)

lemma contents_block:
  assumes "acyclic_from ss c" "Pick ss c = Some b"
  shows "contents ss [c] = (if isDivLayout b then [] else [bare b]) @ contents ss (ChildrenIds b)"
    "groups ss [c] = (if isDivLayout b then 1 else 0) + groups ss (ChildrenIds b)"
  using below_unfold [OF assms] by (simp_all add: contents_def groups_def)

lemma tree_parts:
  assumes t: "tree ss r" and p: "reach ss r p" "set (c # cs) \<subseteq> set (kids ss p)" "distinct (c # cs)"
  shows "part ss [c] \<inter> part ss cs = {}"
  using tree_siblings [OF t p(1), of c] p(2,3) by (auto simp: part_def child_kids)

text \<open>What \<open>cleanup\<close> gives for some children of a block of the tree \<open>ss0\<close>, in a state where they are unchanged.\<close>

definition cleaned_up :: "State list \<Rightarrow> State list \<Rightarrow> string list \<Rightarrow> string list \<times> nat \<times> State list \<Rightarrow> bool" where
  "cleaned_up ss0 ss cs out \<longleftrightarrow> (case out of (res, n, ss') \<Rightarrow>
     map bare (concat (map (below ss') res)) = contents ss0 cs \<and> n = groups ss0 cs \<and>
     (\<forall>x. x \<notin> part ss0 cs \<longrightarrow> Pick ss' x = Pick ss x) \<and> part ss' res \<subseteq> part ss0 cs \<and>
     (\<forall>c\<in>set res. acyclic_from ss' c) \<and> (\<forall>r. rooted ss' r = rooted ss r) \<and> ss' \<noteq> [])"

lemma acyclic_block:
  assumes "Pick ss i = Some b" "\<forall>c\<in>set (ChildrenIds b). acyclic_from ss c" "i \<notin> part ss (ChildrenIds b)"
  shows "acyclic_from ss i"
  unfolding acyclic_from_def
proof (intro allI impI notI)
  fix x assume x: "reach ss i x" "(x, x) \<in> (child ss)\<^sup>+"
  show False
  proof (cases "x = i")
    case True
    then obtain c where "(i, c) \<in> child ss" "(c, i) \<in> (child ss)\<^sup>*" using x(2) by (metis tranclD)
    then show False using assms(1,3) by (auto simp: part_def child_def)
  next
    case False
    then obtain c where "(i, c) \<in> child ss" "(c, x) \<in> (child ss)\<^sup>*" using x(1) by (metis converse_rtranclE reach_def)
    then show False using assms(1,2) x(2) by (auto simp: acyclic_from_def reach_def child_def)
  qed
qed

lemma acyclic_not_below:
  assumes "acyclic_from ss c" "Pick ss c = Some b"
  shows "c \<notin> part ss (ChildrenIds b)"
proof
  assume "c \<in> part ss (ChildrenIds b)"
  then obtain d where "(c, d) \<in> child ss" "(d, c) \<in> (child ss)\<^sup>*" using assms(2) by (auto simp: part_def)
  then have "(c, c) \<in> (child ss)\<^sup>+" by (rule rtrancl_into_trancl2)
  then show False using assms(1) by (simp add: acyclic_from_def)
qed

lemma cleaned_upD:
  assumes "cleaned_up ss0 ss cs (res, n, ss')"
  shows "map bare (concat (map (below ss') res)) = contents ss0 cs" "n = groups ss0 cs"
    "\<And>x. x \<notin> part ss0 cs \<Longrightarrow> Pick ss' x = Pick ss x" "part ss' res \<subseteq> part ss0 cs"
    "\<forall>c\<in>set res. acyclic_from ss' c" "\<And>r. rooted ss' r = rooted ss r" "ss' \<noteq> []"
  using assms by (auto simp: cleaned_up_def)

lemma cleaned_up_join:
  assumes ac: "acyclic_from ss0 c" and b0: "Pick ss0 c = Some b" and dis: "part ss0 [c] \<inter> part ss0 rest = {}"
    and s1: "Pick ss1 = Pick ss" "\<And>r. rooted ss1 r = rooted ss r"
    and c2: "cleaned_up ss0 ss1 (ChildrenIds b) (inner, n, ss2)"
    and c4: "cleaned_up ss0 (put_block c (setChildrenIds b inner) ss2) rest (result, n', ss4)"
  shows "cleaned_up ss0 ss (c # rest) (if isDivLayout b then (inner @ result, Suc (n + n'), ss4) else (c # result, n + n', ss4))"
proof -
  let ?ss3 = "put_block c (setChildrenIds b inner) ss2"
  note C2 = cleaned_upD [OF c2] and C4 = cleaned_upD [OF c4]
  have pc: "part ss0 [c] = insert c (part ss0 (ChildrenIds b))" using part_block [OF b0] .
  have notin: "c \<notin> part ss0 (ChildrenIds b)" using ac b0 by (rule acyclic_not_below)
  have P3: "Pick ?ss3 = (Pick ss2)(c \<mapsto> setChildrenIds b inner)" using C2(7) by simp
  have same4: "Pick ss4 x = Pick ?ss3 x" if "x \<in> part ss0 [c]" for x using that dis C4(3) by blast
  have in3: "\<forall>x\<in>part ss2 inner. Pick ?ss3 x = Pick ss2 x" using C2(4) notin by (auto simp: P3)
  have in4: "\<forall>x\<in>part ss2 inner. Pick ss4 x = Pick ss2 x" using in3 same4 C2(4) pc by auto
  note U = part_unchanged [OF in4]
  have c: "Pick ss4 c = Some (setChildrenIds b inner)" using same4 pc by (simp add: P3)
  have acc: "acyclic_from ss4 c"
    using U C2(4,5) notin by (intro acyclic_block [OF c]) (auto simp: setChildrenIds_def)
  have inner4: "map bare (concat (map (below ss4) inner)) = contents ss0 (ChildrenIds b)" using C2(1) unfolding U(2) .
  have pick: "Pick ss4 x = Pick ss x" if "x \<notin> part ss0 (c # rest)" for x
    using that C4(3) C2(3) s1(1) pc unfolding part_Cons [of ss0 c rest] by (auto simp: P3)
  have sub: "part ss4 inner \<subseteq> part ss0 (c # rest)" "part ss4 [c] \<subseteq> part ss0 (c # rest)" "part ss4 result \<subseteq> part ss0 (c # rest)"
    using U(1) C2(4) C4(4) pc part_block [OF c] unfolding part_Cons [of ss0 c rest] by (auto simp: setChildrenIds_def)
  have roots: "rooted ss4 r = rooted ss r" for r using C2(6) C4(6) C2(7) s1(2) by simp
  show ?thesis
  proof (cases "isDivLayout b")
    case True
    then show ?thesis
      using contents_block [OF ac b0] inner4 C4 C2(2) pick sub U(3) C2(5) roots
      by (auto simp: cleaned_up_def contents_Cons [of ss0 c rest])
  next
    case False
    have "map bare (below ss4 c) = contents ss0 [c]"
      using below_unfold [OF acc c] inner4 contents_block [OF ac b0] False by (simp add: setChildrenIds_def)
    then show ?thesis
      using False contents_block [OF ac b0] C4 C2(2) pick sub acc roots
      by (auto simp: cleaned_up_def contents_Cons [of ss0 c rest] part_Cons [of ss4 c result])
  qed
qed

lemma cleanup_cleans:
  assumes t: "tree ss0 r" and p: "reach ss0 r p" "set cs \<subseteq> set (kids ss0 p)" "distinct cs"
    and same: "\<forall>x\<in>part ss0 cs. Pick ss x = Pick ss0 x" and ne: "ss \<noteq> []"
  shows "\<exists>out. cleanup ss cs = Some out \<and> cleaned_up ss0 ss cs out"
  using p same ne
proof (induction "weight ss0 cs" arbitrary: ss cs p rule: less_induct)
  case less
  note IH = less(1) and p = less(2,3,4) and same = less(5) and ne = less(6)
  show ?case
  proof (cases cs)
    case Nil
    then show ?thesis using ne by (subst cleanup.simps) (simp add: cleaned_up_def)
  next
    case (Cons c rest)
    have rc: "reach ss0 r c" using p Cons by (auto simp: child_kids intro: reach_step)
    have ac: "acyclic_from ss0 c" using tree_acyclic [OF t] rc unfolding acyclic_from_def by (metis reach_def reach_trans)
    have dis: "part ss0 [c] \<inter> part ss0 rest = {}" using tree_parts [OF t p(1)] p(2,3) Cons by simp
    have "(p, c) \<in> child ss0" using p(2) Cons by (auto simp: child_kids)
    then obtain b where b0: "Pick ss0 c = Some b" using tree_children(2) [OF t p(1)] by (auto simp: child_def Exists_def)
    have b: "Pick ss c = Some b" using same b0 Cons by (simp add: part_def)
    obtain ss1 where s1: "Get_block ss c = (Some b, ss1)" "Pick ss1 = Pick ss" "ss1 \<noteq> []" "\<And>r. rooted ss1 r = rooted ss r"
      using Get_blockE [OF b] by blast
    have pc: "part ss0 [c] = insert c (part ss0 (ChildrenIds b))" using part_block [OF b0] .
    have "\<exists>out. cleanup ss1 (ChildrenIds b) = Some out \<and> cleaned_up ss0 ss1 (ChildrenIds b) out"
    proof (rule IH [of _ c])
      show "weight ss0 (ChildrenIds b) < weight ss0 cs" using weight_children [OF ac b0] Cons by simp
      show "distinct (ChildrenIds b)" using tree_children(1) [OF t rc b0] .
      show "\<forall>x\<in>part ss0 (ChildrenIds b). Pick ss1 x = Pick ss0 x" using same s1(2) pc part_Cons [of ss0 c rest] Cons by auto
    qed (use rc b0 s1 in simp_all)
    then obtain inner n ss2 where i2: "cleanup ss1 (ChildrenIds b) = Some (inner, n, ss2)"
      and c2: "cleaned_up ss0 ss1 (ChildrenIds b) (inner, n, ss2)" by (metis prod_cases3)
    let ?ss3 = "put_block c (setChildrenIds b inner) ss2"
    have P3: "Pick ?ss3 = (Pick ss2)(c \<mapsto> setChildrenIds b inner)" using c2 by (simp add: cleaned_up_def)
    have outside3: "Pick ?ss3 x = Pick ss x" if "x \<notin> part ss0 [c]" for x
      using that c2 s1(2) pc P3 by (simp add: cleaned_up_def)
    have "\<exists>out. cleanup ?ss3 rest = Some out \<and> cleaned_up ss0 ?ss3 rest out"
    proof (rule IH [of _ p])
      show "weight ss0 rest < weight ss0 cs" using Cons by simp
      show "\<forall>x\<in>part ss0 rest. Pick ?ss3 x = Pick ss0 x"
      proof
        fix x assume x: "x \<in> part ss0 rest"
        then have "x \<notin> part ss0 [c]" using dis by blast
        then show "Pick ?ss3 x = Pick ss0 x" using outside3 x same part_Cons [of ss0 c rest] Cons by simp
      qed
      show "?ss3 \<noteq> []" using c2 by (simp add: cleaned_up_def)
    qed (use p Cons in auto)
    then obtain result n' ss4 where i4: "cleanup ?ss3 rest = Some (result, n', ss4)"
      and c4: "cleaned_up ss0 ?ss3 rest (result, n', ss4)" by (metis prod_cases3)
    let ?out = "if isDivLayout b then (inner @ result, Suc (n + n'), ss4) else (c # result, n + n', ss4)"
    have "cleanup ss cs = Some ?out"
      using Cons b s1(1) i2 i4 by (subst cleanup.simps) simp
    moreover have "cleaned_up ss0 ss cs ?out"
      unfolding Cons by (rule cleaned_up_join [OF ac b0 dis s1(2,4) c2 c4])
    ultimately show ?thesis by blast
  qed
qed

text \<open>C15: \<open>CleanupLayouts\<close> returns on every tree. It removes all groups below the root, counts them, and leaves the
  other blocks with their contents in the order of the document.\<close>

theorem CleanupLayouts_order:
  assumes root: "rooted ss r" and t: "tree ss r" and b: "Pick ss r = Some b" "\<not> isDivLayout b"
  shows "\<exists>ss'. CleanupLayouts ss = Some (length [b \<leftarrow> below ss r. isDivLayout b], ss') \<and> rooted ss' r \<and>
     map bare (below ss' r) = [bare b. b \<leftarrow> below ss r, \<not> isDivLayout b] \<and> (\<forall>x. \<not> reach ss r x \<longrightarrow> Pick ss' x = Pick ss x)"
proof -
  obtain ss1 where s1: "Get_block ss r = (Some b, ss1)" "Pick ss1 = Pick ss" "ss1 \<noteq> []" "\<And>r. rooted ss1 r = rooted ss r"
    using Get_blockE [OF b(1)] by blast
  have ac: "acyclic_from ss r" using tree_acyclic [OF t] .
  have d: "distinct (ChildrenIds b)" using tree_children(1) [OF t _ b(1)] by simp
  from cleanup_cleans [OF t reach_refl _ d, of ss1] obtain res n ss2 where
    c: "cleanup ss1 (ChildrenIds b) = Some (res, n, ss2)" and C: "cleaned_up ss ss1 (ChildrenIds b) (res, n, ss2)"
    using b(1) s1(2,3) by (auto simp: kids_def)
  note C = cleaned_upD [OF C]
  let ?ss3 = "put_block r (setChildrenIds b res) ss2"
  have r3: "Pick ?ss3 r = Some (setChildrenIds b res)" using C(7) by simp
  have notin: "r \<notin> part ss2 res" using acyclic_not_below [OF ac b(1)] C(4) by auto
  have in3: "\<forall>x\<in>part ss2 res. Pick ?ss3 x = Pick ss2 x" using notin C(7) by auto
  note U = part_unchanged [OF in3]
  have "acyclic_from ?ss3 r" using U C(5) notin by (intro acyclic_block [OF r3]) (auto simp: setChildrenIds_def)
  from below_unfold [OF this r3] have "map bare (below ?ss3 r) = bare b # contents ss (ChildrenIds b)"
    using C(1) unfolding U(2) [symmetric] by (simp add: setChildrenIds_def)
  also have "\<dots> = contents ss [r]" using contents_block(1) [OF ac b(1)] b(2) by simp
  finally have "map bare (below ?ss3 r) = contents ss [r]" .
  moreover have "n = groups ss [r]" using contents_block(2) [OF ac b(1)] b(2) C(2) by simp
  moreover have "Pick ?ss3 x = Pick ss x" if "\<not> reach ss r x" for x
  proof -
    have "x \<noteq> r" "x \<notin> part ss (ChildrenIds b)" using that part_block [OF b(1)] by (auto simp: part_def reach_def)
    then show ?thesis using C(3,7) s1(2) by simp
  qed
  moreover have "rooted ?ss3 r" using C(6) s1(4) root by simp
  ultimately show ?thesis using c s1(1) root by (auto simp: CleanupLayouts_def contents_def groups_def)
qed

subsection \<open>Groups and lists\<close>

text \<open>C40: \<open>divBalance\<close> keeps the children of two groups in their order, leaves at most the allowed number in
  the first one, and reports an overflow exactly when the second has more. Together at most twice the
  allowed number are cut in half; when there are more, the first group takes half of the limit, so that
  each round leaves fewer children to distribute.\<close>

theorem divBalance_splits:
  "case divBalance d1 d2 of (e1, e2, overflow) \<Rightarrow>
     ChildrenIds e1 @ ChildrenIds e2 = ChildrenIds d1 @ ChildrenIds d2 \<and>
     length (ChildrenIds e1) \<le> maxChildrenThreshold \<and>
     overflow = (length (ChildrenIds e2) > maxChildrenThreshold) \<and>
     overflow = (length (ChildrenIds d1) + length (ChildrenIds d2) > 2 * maxChildrenThreshold) \<and>
     length (ChildrenIds e1) = (if overflow then maxChildrenThreshold div 2 else (length (ChildrenIds d1) + length (ChildrenIds d2)) div 2)"
proof -
  define cs where "cs = ChildrenIds d1 @ ChildrenIds d2"
  define half where "half = (if length cs > 80 then 20 else length cs div 2)"
  have d: "divBalance d1 d2 = (setChildrenIds d1 (take half cs), setChildrenIds d2 (drop half cs), length cs - half > 40)"
    by (simp add: divBalance_def Let_def setChildrenIds_def maxChildrenThreshold_def cs_def half_def)
  have n: "length (ChildrenIds d1) + length (ChildrenIds d2) = length cs" by (simp add: cs_def)
  have "half \<le> length cs" "half \<le> 40" "(length cs - half > 40) = (length cs > 80)"
    "half = (if length cs > 80 then 20 else length cs div 2)" by (auto simp: half_def)
  then show ?thesis unfolding d n prod.case
    by (simp add: setChildrenIds_def maxChildrenThreshold_def cs_def [symmetric])
qed

text \<open>After the normalization of a type's details the three lists of relations are disjoint: featured
  relations stay, those that are also featured leave the recommended list, and hidden ones that are in either
  list leave the hidden list. No relation is lost.\<close>

lemma recommended_disjoint:
  assumes "recommended (Some m) = Some d"
  shows "GetStringList d ''recommendedFeaturedRelations'' = GetStringList (Some m) ''recommendedFeaturedRelations'' \<and>
    set (GetStringList d ''recommendedRelations'') \<inter> set (GetStringList d ''recommendedFeaturedRelations'') = {} \<and>
    set (GetStringList d ''recommendedHiddenRelations'') \<inter> set (GetStringList d ''recommendedFeaturedRelations'') = {} \<and>
    set (GetStringList d ''recommendedHiddenRelations'') \<inter> set (GetStringList d ''recommendedRelations'') = {} \<and>
    set (GetStringList d ''recommendedRelations'') \<union> set (GetStringList d ''recommendedFeaturedRelations'') \<union> set (GetStringList d ''recommendedHiddenRelations'')
    = set (GetStringList (Some m) ''recommendedRelations'') \<union> set (GetStringList (Some m) ''recommendedFeaturedRelations'') \<union>
      set (GetStringList (Some m) ''recommendedHiddenRelations'')"
proof -
  let ?rel = "GetStringList (Some m) ''recommendedRelations''" and ?feat = "GetStringList (Some m) ''recommendedFeaturedRelations''"
    and ?hid = "GetStringList (Some m) ''recommendedHiddenRelations''"
  have "Some d = Some (Some (put ''recommendedHiddenRelations'' (VStringList [x \<leftarrow> ?hid. x \<notin> set ?feat \<and> x \<notin> set ?rel])
      (put ''recommendedRelations'' (VStringList [x \<leftarrow> ?rel. x \<notin> set ?feat]) m)))"
    unfolding assms [symmetric] recommended_def Let_def SetStringList_def Set_def by simp
  then have "GetStringList d ''recommendedHiddenRelations'' = [x \<leftarrow> ?hid. x \<notin> set ?feat \<and> x \<notin> set ?rel]"
    "GetStringList d ''recommendedRelations'' = [x \<leftarrow> ?rel. x \<notin> set ?feat]"
    "GetStringList d ''recommendedFeaturedRelations'' = ?feat"
    by (simp_all add: GetStringList_def Get_def Get_data_def StringList_of_def)
  then show ?thesis by (simp only:) auto
qed

lemma recommended_disjoint_example:
  "\<exists>d. recommended (Some [(''recommendedRelations'', VStringList [''a'', ''b'']), (''recommendedFeaturedRelations'', VStringList [''b''])]) = Some d \<and>
     set (GetStringList d ''recommendedRelations'') \<inter> set (GetStringList d ''recommendedFeaturedRelations'') = {}"
proof -
  let ?m = "[(''recommendedRelations'', VStringList [''a'', ''b'']), (''recommendedFeaturedRelations'', VStringList [''b''])]"
  have "recommended (Some ?m) \<noteq> None" by (simp add: recommended_def SetStringList_def Set_def Let_def)
  then obtain d where "recommended (Some ?m) = Some d" by blast
  then show ?thesis using recommended_disjoint [of ?m d] by blast
qed

subsection \<open>Examples\<close>

text \<open>A state with a child that occurs twice and one that is missing, and a state with a group.\<close>

definition untidy :: "State list" where
  "untidy = [empty_state\<lparr>st_blocks :=
     [(''r'', sample_block ''r'' [''a'', ''b'', ''a'', ''x'']), (''a'', sample_block ''a'' [''c'']),
      (''b'', sample_block ''b'' [''c'']), (''c'', sample_block ''c'' [])]\<rparr>]"

lemma untidy_ok: "rooted untidy ''r''" "own_ids untidy" "acyclic_from untidy ''r''"
proof -
  show "rooted untidy ''r''" by (simp add: rooted_def untidy_def empty_state_def)
  show "own_ids untidy" by (rule own_idsI) code_simp
  have "snd (walk untidy [] ''r'') = None" by code_simp
  then show "acyclic_from untidy ''r''" by (simp add: walk_error_iff)
qed

theorem normalize_valid_witness:
  "\<exists>ss1. removeDuplicates untidy = Some ss1 \<and> fst (Validate (normalize_all_children [''c'', ''b'', ''a'', ''r''] ss1)) = None"
proof -
  have none: "Pick (tl untidy) x = None" for x by (simp add: untidy_def)
  have visits: "\<forall>x. InState ss1 x \<longrightarrow> x \<in> set [''c'', ''b'', ''a'', ''r'']" if "removeDuplicates untidy = Some ss1" for ss1
  proof -
    have "map_option (\<lambda>ss. map fst (st_blocks (hd ss))) (removeDuplicates untidy) = Some [''r'', ''a'', ''b'', ''c'']" by code_simp
    then have "map fst (st_blocks (hd ss1)) = [''r'', ''a'', ''b'', ''c'']" using that by simp
    then have "fst ` set (st_blocks (hd ss1)) = {''r'', ''a'', ''b'', ''c''}" by (metis list.set(1,2) set_map)
    moreover have "InState ss1 x \<Longrightarrow> x \<in> fst ` set (st_blocks (hd ss1))" for x
      by (cases ss1) (force dest!: map_of_SomeD)+
    ultimately show ?thesis by auto
  qed
  show ?thesis using normalize_valid [OF untidy_ok] none visits by (metis option.distinct(1))
qed

definition grouped :: "State list" where
  "grouped = [empty_state\<lparr>st_blocks :=
     [(''r'', sample_block ''r'' [''g'', ''d'']), (''g'', new_layout ''g'' [''a'', ''h''] layout_Div),
      (''h'', new_layout ''h'' [''b''] layout_Div), (''a'', sample_block ''a'' [''c'']),
      (''b'', sample_block ''b'' []), (''c'', sample_block ''c'' []), (''d'', sample_block ''d'' [])]\<rparr>]"

theorem CleanupLayouts_order_witness:
  "\<exists>ss'. CleanupLayouts grouped = Some (2, ss') \<and> map Id (below ss' ''r'') = [''r'', ''a'', ''c'', ''b'', ''d'']"
proof -
  have root: "rooted grouped ''r''" "Pick grouped ''r'' = Some (sample_block ''r'' [''g'', ''d''])"
    by (simp_all add: rooted_def grouped_def empty_state_def)
  have "fst (Validate grouped) = None" by code_simp
  then have "tree grouped ''r''" using root(1) by (simp add: Validate_rooted)
  moreover have "\<not> isDivLayout (sample_block ''r'' [''g'', ''d''])" by (simp add: isDivLayout_def sample_block_def)
  ultimately obtain ss' where s: "CleanupLayouts grouped = Some (length [b \<leftarrow> below grouped ''r''. isDivLayout b], ss')"
    "map bare (below ss' ''r'') = [bare b. b \<leftarrow> below grouped ''r'', \<not> isDivLayout b]"
    using CleanupLayouts_order [OF root(1) _ root(2)] by blast
  have "length [b \<leftarrow> below grouped ''r''. isDivLayout b] = 2" by code_simp
  moreover have "map Id [bare b. b \<leftarrow> below grouped ''r'', \<not> isDivLayout b] = [''r'', ''a'', ''c'', ''b'', ''d'']" by code_simp
  then have "map Id (map bare (below ss' ''r'')) = [''r'', ''a'', ''c'', ''b'', ''d'']" unfolding s(2) .
  then have "map Id (below ss' ''r'') = [''r'', ''a'', ''c'', ''b'', ''d'']" by (simp add: comp_def bare_def)
  ultimately show ?thesis using s(1) by auto
qed

text \<open>Forty-two children of the root are cut into two groups.\<close>

definition long_list :: "State list" where
  "long_list = (let ids = concat (map (\<lambda>a. map (\<lambda>b. [a, b]) ''abcdefg'') ''uvwxyz'')
     in [empty_state\<lparr>st_blocks := (''r'', sample_block ''r'' ids) # map (\<lambda>i. (i, sample_block i [])) ids\<rparr>])"

lemma long_list_grouped:
  "map_option (\<lambda>(k, ss). (k, kids ss ''r'', map (length \<circ> kids ss) (kids ss ''r''), concat (map (kids ss) (kids ss ''r'')) = kids long_list ''r''))
     (normalizeTree id (\<lambda>n. replicate n CHR ''1'') (0, long_list)) = Some (2, [''div-'', ''div-1''], [21, 21], True)"
  by code_simp

end
