(* ===== verification/SimpleTable.thy ===== *)
theory SimpleTable
  imports Normalize TextBlock
begin

section \<open>Tables (core/block/editor/table)\<close>

text \<open>
  A table block has two children, a layout with the columns and one with the rows. The children of a row are
  cells, text blocks whose ids consist of the ids of the row and the column. The theory models how a
  table is found from one of its blocks, its normalization and the operations of the table editor.

  An operation is a function on the chain of states. It returns an error or a value with the new state, since
  operations that fail have often changed it; a panic or a climb that does not end is \<^term>\<open>None\<close>.
  Generated ids are arguments. The sorting of \<open>sort.Sort\<close> and \<open>sort.Stable\<close>, the collator and the parser of numbers are
  parameters.
\<close>

subsection \<open>Operations with errors\<close>

datatype table_error =
    ErrRowNotFound | ErrNotARow | ErrColumnNotFound | ErrNotAColumn | ErrInvalidId | ErrAddBlock | ErrNoTable
  | ErrInconsistentTable | ErrColumnsNotFound | ErrRowsNotFound | ErrInsert insert_error | ErrUnlink
  | ErrPosition | ErrEmptyList | ErrCellNotFound string | ErrColumnMapping string | ErrNoHeaderRow | ErrCannotMoveTableBlocks
  | ErrRestricted | ErrColumnMissing string

type_synonym 'a step = "State list \<Rightarrow> ((table_error + 'a) \<times> State list) option"

definition ok :: "'a \<Rightarrow> 'a step" where
  "ok x = (\<lambda>ss. Some (Inr x, ss))"

definition err :: "table_error \<Rightarrow> 'a step" where
  "err e = (\<lambda>ss. Some (Inl e, ss))"

definition panic :: "'a step" where
  "panic = (\<lambda>ss. None)"

definition seq :: "'a step \<Rightarrow> ('a \<Rightarrow> 'b step) \<Rightarrow> 'b step" where
  "seq m f = (\<lambda>ss. case m ss of None \<Rightarrow> None | Some (Inl e, ss) \<Rightarrow> Some (Inl e, ss) | Some (Inr x, ss) \<Rightarrow> f x ss)"

definition look :: "(State list \<Rightarrow> 'a) \<Rightarrow> 'a step" where
  "look f = (\<lambda>ss. Some (Inr (f ss), ss))"

definition change :: "(State list \<Rightarrow> State list) \<Rightarrow> unit step" where
  "change f = (\<lambda>ss. Some (Inr (), f ss))"

definition check :: "bool \<Rightarrow> table_error \<Rightarrow> unit step" where
  "check c e = (if c then ok () else err e)"

fun each :: "('a \<Rightarrow> unit step) \<Rightarrow> 'a list \<Rightarrow> unit step" where
  "each f [] = ok ()"
| "each f (x # xs) = seq (f x) (\<lambda>_. each f xs)"

fun collect :: "('a \<Rightarrow> 'b step) \<Rightarrow> 'a list \<Rightarrow> 'b list step" where
  "collect f [] = ok []"
| "collect f (x # xs) = seq (f x) (\<lambda>y. seq (collect f xs) (\<lambda>ys. ok (y # ys)))"

definition insert_to :: "(nat list \<Rightarrow> nat list) \<Rightarrow> string \<Rightarrow> BlockPosition \<Rightarrow> string list \<Rightarrow> unit step" where
  "insert_to md5 target pos ids =
     (\<lambda>ss. case InsertTo md5 ss target pos ids of
        None \<Rightarrow> None | Some (Some e, ss) \<Rightarrow> Some (Inl (ErrInsert e), ss) | Some (None, ss) \<Rightarrow> Some (Inr (), ss))"

definition unlink :: "string \<Rightarrow> unit step" where
  "unlink i = (\<lambda>ss. case Unlink ss i of (found, ss) \<Rightarrow> Some (if found then Inr () else Inl ErrUnlink, ss))"

definition add_block :: "Block \<Rightarrow> unit step" where
  "add_block b = (\<lambda>ss. case Add_block ss b of (added, ss) \<Rightarrow> Some (if added then Inr () else Inl ErrAddBlock, ss))"

text \<open>A block that is found with \<open>Get\<close> is changed in place.\<close>

definition set_block :: "string \<Rightarrow> (Block \<Rightarrow> Block) \<Rightarrow> unit step" where
  "set_block i f = (\<lambda>ss. case Get_block ss i of (None, _) \<Rightarrow> None | (Some b, ss) \<Rightarrow> Some (Inr (), put_block i (f b) ss))"

definition get_block :: "string \<Rightarrow> Block step" where
  "get_block i = (\<lambda>ss. case Get_block ss i of (None, _) \<Rightarrow> None | (Some b, ss) \<Rightarrow> Some (Inr b, ss))"

text \<open>A block that is found with \<open>Pick\<close> and changed in place is changed in the state that holds it.\<close>

fun put_in_place :: "string \<Rightarrow> Block \<Rightarrow> State list \<Rightarrow> State list" where
  "put_in_place i b [] = []"
| "put_in_place i b (s # ps) =
     (if map_of (st_blocks s) i \<noteq> None then put_block i b (s # ps) else s # put_in_place i b ps)"

subsection \<open>Rows, columns and cells\<close>

definition new_block :: "string \<Rightarrow> string list \<Rightarrow> content \<Rightarrow> Block" where
  "new_block i children c =
     \<lparr>Id = i, ChildrenIds = children, Restrictions = None, Fields = [], BackgroundColor = [], Align = 0, VerticalAlign = 0, Content = c\<rparr>"

definition makeRow :: "string \<Rightarrow> Block" where
  "makeRow i = new_block i [] (CTableRow \<lparr>row_IsHeader = False\<rparr>)"

definition makeColumn :: "string \<Rightarrow> Block" where
  "makeColumn i = new_block i [] CTableColumn"

definition is_table_row :: "Block \<Rightarrow> bool" where
  "is_table_row b = (case Content b of CTableRow _ \<Rightarrow> True | _ \<Rightarrow> False)"

definition IsHeader :: "Block \<Rightarrow> bool" where
  "IsHeader b = (case Content b of CTableRow r \<Rightarrow> row_IsHeader r | _ \<Rightarrow> False)"

definition getRow :: "string \<Rightarrow> Block step" where
  "getRow i = (\<lambda>ss. case Get_block ss i of
     (None, ss) \<Rightarrow> Some (Inl ErrRowNotFound, ss)
   | (Some b, ss) \<Rightarrow> Some (if is_table_row b then Inr b else Inl ErrNotARow, ss))"

definition pickRow :: "string \<Rightarrow> Block step" where
  "pickRow i = (\<lambda>ss. case Pick ss i of
     None \<Rightarrow> Some (Inl ErrRowNotFound, ss) | Some b \<Rightarrow> Some (if is_table_row b then Inr b else Inl ErrNotARow, ss))"

definition pickColumn :: "string \<Rightarrow> Block step" where
  "pickColumn i = (\<lambda>ss. case Pick ss i of
     None \<Rightarrow> Some (Inl ErrColumnNotFound, ss)
   | Some b \<Rightarrow> Some (if Content b = CTableColumn then Inr b else Inl ErrNotAColumn, ss))"

definition MakeCellID :: "string \<Rightarrow> string \<Rightarrow> string" where
  "MakeCellID rowID colID = rowID @ ''-'' @ colID"

text \<open>The id is cut at the first separator.\<close>

definition ParseCellID :: "string \<Rightarrow> (string \<times> string) option" where
  "ParseCellID i =
     (case dropWhile (\<lambda>c. c \<noteq> CHR ''-'') i of [] \<Rightarrow> None | _ # colID \<Rightarrow> Some (takeWhile (\<lambda>c. c \<noteq> CHR ''-'') i, colID))"

definition IsTableCell :: "string \<Rightarrow> bool" where
  "IsTableCell i \<longleftrightarrow> length [c \<leftarrow> i. c = CHR ''-''] = 1 \<and> hd i \<noteq> CHR ''-'' \<and> last i \<noteq> CHR ''-''"

definition parse_cell :: "string \<Rightarrow> (string \<times> string) step" where
  "parse_cell i = (case ParseCellID i of None \<Rightarrow> err ErrInvalidId | Some rc \<Rightarrow> ok rc)"

definition empty_text :: BlockContentText where
  "empty_text = \<lparr>tText = [], tStyle = 0, tMarks = [], tChecked = False, tColor = [], tIconEmoji = [], tIconImage = []\<rparr>"

definition addCell :: "string \<Rightarrow> string \<Rightarrow> string step" where
  "addCell rowID colID =
     seq (add_block (new_block (MakeCellID rowID colID) [] (CText empty_text))) (\<lambda>_. ok (MakeCellID rowID colID))"

subsection \<open>The structure of a table\<close>

partial_function (option) table_root_loop :: "State list \<Rightarrow> Block option \<Rightarrow> (Block option \<times> State list) option" where
  "table_root_loop ss next =
     (case next of
        None \<Rightarrow> Some (None, ss)
      | Some b \<Rightarrow>
          if Content b = CTable then Some (Some b, ss)
          else table_root_loop (snd (PickParentOf ss (Id b))) (fst (PickParentOf ss (Id b))))"

declare table_root_loop.simps [code]

definition PickTableRootBlock :: "string \<Rightarrow> Block option step" where
  "PickTableRootBlock i = (\<lambda>ss. map_option (\<lambda>(b, ss). (Inr b, ss)) (table_root_loop ss (Pick ss i)))"

definition child_layout :: "nat \<Rightarrow> int \<Rightarrow> Block \<Rightarrow> State list \<Rightarrow> Block option" where
  "child_layout n style tb ss =
     (case Pick ss (ChildrenIds tb ! n) of Some b \<Rightarrow> if Content b = CLayout style then Some b else None | None \<Rightarrow> None)"

definition Columns :: "Block \<Rightarrow> State list \<Rightarrow> Block option" where
  "Columns = child_layout 0 layout_TableColumns"

definition Rows :: "Block \<Rightarrow> State list \<Rightarrow> Block option" where
  "Rows = child_layout 1 layout_TableRows"

definition the_layout :: "(State list \<Rightarrow> Block option) \<Rightarrow> Block step" where
  "the_layout f = (\<lambda>ss. case f ss of None \<Rightarrow> None | Some b \<Rightarrow> Some (Inr b, ss))"

definition ColumnIDs :: "Block \<Rightarrow> string list step" where
  "ColumnIDs tb = seq (the_layout (Columns tb)) (\<lambda>b. ok (ChildrenIds b))"

definition RowIDs :: "Block \<Rightarrow> string list step" where
  "RowIDs tb = seq (the_layout (Rows tb)) (\<lambda>b. ok (ChildrenIds b))"

text \<open>A later column with the same id wins.\<close>

definition column_index :: "string list \<Rightarrow> string \<Rightarrow> nat option" where
  "column_index cols = map_of (rev (zip cols [0..<length cols]))"

definition MakeColumnIndex :: "Block \<Rightarrow> (string \<Rightarrow> nat option) step" where
  "MakeColumnIndex tb = seq (ColumnIDs tb) (\<lambda>cols. ok (column_index cols))"

text \<open>The children of groups take the place of the children; other children are not kept.\<close>

definition destructureDivs :: "string \<Rightarrow> unit step" where
  "destructureDivs i = (\<lambda>ss. case Pick ss i of
     None \<Rightarrow> Some (Inr (), ss)
   | Some parent \<Rightarrow>
       (let divs = filter isDivLayout (List.map_filter (Pick ss) (ChildrenIds parent))
        in if divs = [] then Some (Inr (), ss)
           else set_block i (\<lambda>b. b\<lparr>ChildrenIds := concat (map ChildrenIds divs)\<rparr>) ss))"

definition NewTable :: "string \<Rightarrow> Block step" where
  "NewTable i =
     seq (PickTableRootBlock i) (\<lambda>root.
       case root of
         None \<Rightarrow> err ErrNoTable
       | Some tb \<Rightarrow>
           seq (check (length (ChildrenIds tb) \<ge> 2) ErrInconsistentTable) (\<lambda>_.
           seq (look (Columns tb)) (\<lambda>columns.
           seq (check (columns \<noteq> None) ErrColumnsNotFound) (\<lambda>_.
           seq (look (Rows tb)) (\<lambda>rows.
           seq (check (rows \<noteq> None) ErrRowsNotFound) (\<lambda>_.
           seq (destructureDivs (Id (the rows))) (\<lambda>_.
           seq (destructureDivs (Id (the columns))) (\<lambda>_.
           seq (RowIDs tb) (\<lambda>rowIDs.
           seq (each destructureDivs rowIDs) (\<lambda>_. ok tb))))))))))"

definition MoveBlocksUnderTheTable :: "Block \<Rightarrow> string list \<Rightarrow> unit step" where
  "MoveBlocksUnderTheTable tb ids = (\<lambda>ss. case GetParentOf ss (Id tb) of
     (None, ss) \<Rightarrow> Some (Inr (), ss)
   | (Some parent, ss) \<Rightarrow>
       (let pos = FindPos (ChildrenIds parent) (Id tb)
        in if pos = -1 then Some (Inr (), ss)
           else (case Insert_s (ChildrenIds parent) (pos + 1) ids of
                   None \<Rightarrow> None
                 | Some cs \<Rightarrow> Some (Inr (), put_block (Id parent) (setChildrenIds parent cs) ss))))"

text \<open>
  Rows between each other may be moved, and the table as a whole. Blocks that are dropped on a part of a table
  go under it.
\<close>

definition CheckTableBlocksMove :: "string \<Rightarrow> BlockPosition \<Rightarrow> string list \<Rightarrow> (string \<times> BlockPosition) step" where
  "CheckTableBlocksMove target pos blockIds = (\<lambda>ss.
     case NewTable target ss of
       None \<Rightarrow> None
     | Some (t, ss) \<Rightarrow>
         (let rest =
            seq (each (\<lambda>i. seq (PickTableRootBlock i) (\<lambda>t. check (t = None \<or> Id (the t) = i) ErrCannotMoveTableBlocks)) blockIds) (\<lambda>_.
            seq (PickTableRootBlock target) (\<lambda>t.
              ok (if t \<noteq> None \<and> Id (the t) \<noteq> target then (Id (the t), Block_Bottom) else (target, pos))))
          in case t of
               Inl _ \<Rightarrow> rest ss
             | Inr tb \<Rightarrow>
                 seq (RowIDs tb) (\<lambda>rowIDs.
                   if set (blockIds @ [target]) \<subseteq> set rowIDs
                   then (if pos = Block_Bottom \<or> pos = Block_Top then ok (target, pos) else err ErrPosition)
                   else rest) ss))"

subsection \<open>Normalization\<close>

definition normalizeHeaderRows :: "Block \<Rightarrow> unit step" where
  "normalizeHeaderRows tb =
     seq (the_layout (Rows tb)) (\<lambda>layout.
     seq (get_block (Id layout)) (\<lambda>layout.
     seq (collect (\<lambda>rowID. seq (pickRow rowID) (\<lambda>row. ok (IsHeader row, rowID))) (ChildrenIds layout)) (\<lambda>rows.
     set_block (Id layout) (\<lambda>b. setChildrenIds b
       (map snd [r \<leftarrow> rows. fst r] @ map snd [r \<leftarrow> rows. \<not> fst r])))))"

text \<open>The column number of a cell of a row, if its id names a column.\<close>

definition cell_number :: "(string \<Rightarrow> nat option) \<Rightarrow> string \<Rightarrow> nat option" where
  "cell_number colIdx i = (case ParseCellID i of None \<Rightarrow> None | Some (_, colID) \<Rightarrow> colIdx colID)"

text \<open>
  \<open>sort.Sort\<close> on the cells with their column numbers is the parameter \<open>sorter\<close>. Whether it swapped anything is told
  by its result: a swap that is taken back leaves the row as it is.
\<close>

type_synonym cell_sorter = "(nat \<times> string) list \<Rightarrow> (nat \<times> string) list"

definition row_cells :: "(string \<Rightarrow> nat option) \<Rightarrow> string list \<Rightarrow> (nat \<times> string) list" where
  "row_cells colIdx ids = map (\<lambda>i. (the (cell_number colIdx i), i)) [i \<leftarrow> ids. cell_number colIdx i \<noteq> None]"

definition normalizeRow :: "cell_sorter \<Rightarrow> Block \<Rightarrow> (string \<Rightarrow> nat option) \<Rightarrow> string \<Rightarrow> unit step" where
  "normalizeRow sorter tb colIdx rowID = (\<lambda>ss. case Pick ss rowID of
     None \<Rightarrow> Some (Inr (), ss)
   | Some row \<Rightarrow>
       (let toRemove = [i \<leftarrow> ChildrenIds row. cell_number colIdx i = None];
            cells = row_cells colIdx (ChildrenIds row);
            sorted = sorter cells
        in if toRemove \<noteq> [] \<or> sorted \<noteq> cells
           then seq (MoveBlocksUnderTheTable tb toRemove) (\<lambda>_. set_block rowID (\<lambda>b. setChildrenIds b (map snd sorted))) ss
           else Some (Inr (), ss)))"

text \<open>Missing columns and rows are created again; blocks of another kind are moved under the table.\<close>

definition normalize_column :: "Block \<Rightarrow> string \<Rightarrow> (bool \<times> string list) step" where
  "normalize_column tb colId = (\<lambda>ss. case pickColumn colId ss of
     Some (Inr _, ss) \<Rightarrow> Some (Inr (False, [colId]), ss)
   | Some (Inl ErrColumnNotFound, ss) \<Rightarrow>
       (case Add_block ss (makeColumn colId) of (added, ss) \<Rightarrow> Some (Inr (True, if added then [colId] else []), ss))
   | Some (Inl _, ss) \<Rightarrow> seq (MoveBlocksUnderTheTable tb [colId]) (\<lambda>_. ok (True, [])) ss
   | None \<Rightarrow> None)"

definition normalizeColumns :: "Block \<Rightarrow> unit step" where
  "normalizeColumns tb =
     seq (ColumnIDs tb) (\<lambda>ids.
     seq (collect (normalize_column tb) ids) (\<lambda>res.
       if list_ex fst res
       then seq (the_layout (Columns tb)) (\<lambda>layout.
         change (put_in_place (Id layout) (setChildrenIds layout (concat (map snd res)))))
       else ok ()))"

definition normalize_row :: "cell_sorter \<Rightarrow> Block \<Rightarrow> (string \<Rightarrow> nat option) \<Rightarrow> string \<Rightarrow> (bool \<times> string list) step" where
  "normalize_row sorter tb colIdx rowId = (\<lambda>ss. case getRow rowId ss of
     Some (Inr _, ss) \<Rightarrow> seq (normalizeRow sorter tb colIdx rowId) (\<lambda>_. ok (False, [rowId])) ss
   | Some (Inl ErrRowNotFound, ss) \<Rightarrow>
       (case Add_block ss (makeRow rowId) of (added, ss) \<Rightarrow> Some (Inr (True, if added then [rowId] else []), ss))
   | Some (Inl _, ss) \<Rightarrow> seq (MoveBlocksUnderTheTable tb [rowId]) (\<lambda>_. ok (True, [])) ss
   | None \<Rightarrow> None)"

definition normalizeRows :: "cell_sorter \<Rightarrow> Block \<Rightarrow> unit step" where
  "normalizeRows sorter tb =
     seq (MakeColumnIndex tb) (\<lambda>colIdx.
     seq (RowIDs tb) (\<lambda>ids.
     seq (collect (normalize_row sorter tb colIdx) ids) (\<lambda>res.
       if list_ex fst res
       then seq (the_layout (Rows tb)) (\<lambda>layout.
         change (put_in_place (Id layout) (setChildrenIds layout (concat (map snd res)))))
       else ok ())))"

text \<open>A broken table is unlinked; errors are only logged.\<close>

definition Normalize_table :: "cell_sorter \<Rightarrow> string \<Rightarrow> unit step" where
  "Normalize_table sorter i = (\<lambda>ss. case NewTable i ss of
     None \<Rightarrow> None
   | Some (Inl _, ss) \<Rightarrow> Some (Inr (), snd (Unlink ss i))
   | Some (Inr tb, ss) \<Rightarrow>
       (case seq (normalizeColumns tb) (\<lambda>_. seq (normalizeRows sorter tb) (\<lambda>_. normalizeHeaderRows tb)) ss of
          None \<Rightarrow> None | Some (_, ss) \<Rightarrow> Some (Inr (), ss)))"

subsection \<open>The table editor\<close>

definition addColumnHeader :: "string \<Rightarrow> string step" where
  "addColumnHeader i = seq (add_block (makeColumn i)) (\<lambda>_. ok i)"

definition addRow :: "string \<Rightarrow> string step" where
  "addRow i = seq (add_block (makeRow i)) (\<lambda>_. ok i)"

definition CellCreate :: "(nat list \<Rightarrow> nat list) \<Rightarrow> cell_sorter \<Rightarrow> string \<Rightarrow> string \<Rightarrow> content \<Rightarrow> string step" where
  "CellCreate md5 sorter rowID colID c =
     seq (NewTable rowID) (\<lambda>tb.
     seq (getRow rowID) (\<lambda>_.
     seq (pickColumn colID) (\<lambda>_.
     seq (addCell rowID colID) (\<lambda>cellID.
     seq (set_block cellID (\<lambda>b. b\<lparr>Content := c\<rparr>)) (\<lambda>_.
     seq (insert_to md5 rowID Block_Inner [cellID]) (\<lambda>_.
     seq (MakeColumnIndex tb) (\<lambda>colIdx.
     seq (normalizeRow sorter tb colIdx rowID) (\<lambda>_. ok cellID))))))))"

definition RowCreate :: "(nat list \<Rightarrow> nat list) \<Rightarrow> string \<Rightarrow> string \<Rightarrow> BlockPosition \<Rightarrow> string step" where
  "RowCreate md5 newId target pos =
     seq (if pos = Block_Top \<or> pos = Block_Bottom then ok target
          else if pos = Block_Inner then seq (NewTable target) (\<lambda>tb. seq (the_layout (Rows tb)) (\<lambda>rows. ok (Id rows)))
          else err ErrPosition) (\<lambda>target.
     seq (addRow newId) (\<lambda>rowID.
     seq (insert_to md5 target pos [rowID]) (\<lambda>_. ok rowID)))"

definition RowDelete :: "string \<Rightarrow> unit step" where
  "RowDelete target = seq (pickRow target) (\<lambda>_. unlink target)"

definition copy_cell :: "string \<Rightarrow> string \<Rightarrow> string step" where
  "copy_cell newRow srcID =
     seq (look (\<lambda>ss. Pick ss srcID)) (\<lambda>cell.
     seq (check (cell \<noteq> None) (ErrCellNotFound srcID)) (\<lambda>_.
     seq (parse_cell srcID) (\<lambda>(_, colID).
     seq (add_block ((the cell)\<lparr>Id := MakeCellID newRow colID\<rparr>)) (\<lambda>_. ok (MakeCellID newRow colID)))))"

text \<open>The ids of the cells are written into the new row one after another, so that an error leaves the rest of the old ones.\<close>

fun copy_cells :: "string \<Rightarrow> nat \<Rightarrow> string list \<Rightarrow> unit step" where
  "copy_cells newRow n [] = ok ()"
| "copy_cells newRow n (srcID # ids) =
     seq (copy_cell newRow srcID) (\<lambda>newID.
     seq (set_block newRow (\<lambda>b. b\<lparr>ChildrenIds := (ChildrenIds b)[n := newID]\<rparr>)) (\<lambda>_. copy_cells newRow (Suc n) ids))"

definition RowDuplicate :: "(nat list \<Rightarrow> nat list) \<Rightarrow> string \<Rightarrow> string \<Rightarrow> string \<Rightarrow> BlockPosition \<Rightarrow> string step" where
  "RowDuplicate md5 newId src target pos =
     seq (check (pos = Block_Top \<or> pos = Block_Bottom) ErrPosition) (\<lambda>_.
     seq (pickRow src) (\<lambda>srcRow.
     seq (pickRow target) (\<lambda>_.
     seq (add_block (srcRow\<lparr>Id := newId\<rparr>)) (\<lambda>_.
     seq (insert_to md5 target pos [newId]) (\<lambda>_.
     seq (copy_cells newId 0 (ChildrenIds srcRow)) (\<lambda>_. ok newId))))))"

definition ensure_cell :: "string \<Rightarrow> string \<Rightarrow> string step" where
  "ensure_cell rowID colID =
     seq (look (\<lambda>ss. Exists ss (MakeCellID rowID colID))) (\<lambda>present.
       if present then ok (MakeCellID rowID colID) else addCell rowID colID)"

definition fill_row :: "string list \<Rightarrow> string \<Rightarrow> unit step" where
  "fill_row columns rowID =
     seq (getRow rowID) (\<lambda>_.
     seq (collect (ensure_cell rowID) columns) (\<lambda>newIds. set_block rowID (\<lambda>b. b\<lparr>ChildrenIds := newIds\<rparr>)))"

definition RowListFill :: "string list \<Rightarrow> unit step" where
  "RowListFill ids =
     seq (check (ids \<noteq> []) ErrEmptyList) (\<lambda>_.
     seq (NewTable (hd ids)) (\<lambda>tb.
     seq (ColumnIDs tb) (\<lambda>columns. each (fill_row columns) ids)))"

definition clean_cell :: "string \<Rightarrow> unit step" where
  "clean_cell cellID = (\<lambda>ss. case Pick ss cellID of
     Some b \<Rightarrow> (case Content b of CText c \<Rightarrow> Some (Inr (), if Text_IsEmpty b c then snd (Unlink ss cellID) else ss) | _ \<Rightarrow> Some (Inr (), ss))
   | None \<Rightarrow> Some (Inr (), ss))"

text \<open>
  The loop runs over the children of the row, from which \<open>Unlink\<close> removes cells in place. When the row is a block of
  the head, the loop reads the array that is being changed: the remaining children move to the front, what
  lies behind them stays. A row of an ancestor is copied by the first \<open>Unlink\<close>, and the loop reads the old array.
\<close>

fun clean_in_place :: "string \<Rightarrow> nat \<Rightarrow> nat \<Rightarrow> string list \<Rightarrow> unit step" where
  "clean_in_place rowID n 0 cells = ok ()"
| "clean_in_place rowID n (Suc k) cells =
     seq (clean_cell (cells ! n)) (\<lambda>_.
     seq (look (\<lambda>ss. kids ss rowID)) (\<lambda>children.
       clean_in_place rowID (Suc n) k (children @ drop (length children) cells)))"

definition clean_row :: "string \<Rightarrow> unit step" where
  "clean_row rowID =
     seq (pickRow rowID) (\<lambda>row.
     seq (look (\<lambda>ss. InState ss rowID)) (\<lambda>live.
       if live then clean_in_place rowID 0 (length (ChildrenIds row)) (ChildrenIds row) else each clean_cell (ChildrenIds row)))"

definition RowListClean :: "string list \<Rightarrow> unit step" where
  "RowListClean ids = seq (check (ids \<noteq> []) ErrEmptyList) (\<lambda>_. each clean_row ids)"

fun set_header :: "bool \<Rightarrow> content \<Rightarrow> content" where
  "set_header h (CTableRow r) = CTableRow (r\<lparr>row_IsHeader := h\<rparr>)"
| "set_header h c = c"

definition RowSetHeader :: "string \<Rightarrow> bool \<Rightarrow> unit step" where
  "RowSetHeader target isHeader =
     seq (NewTable target) (\<lambda>tb.
     seq (getRow target) (\<lambda>row.
       if IsHeader row \<noteq> isHeader
       then seq (set_block target (\<lambda>b. b\<lparr>Content := set_header isHeader (Content b)\<rparr>)) (\<lambda>_. normalizeHeaderRows tb)
       else ok ()))"

text \<open>The first cell of a column in a row, if any; an id that cannot be parsed is an error when it comes before.\<close>

fun find_cell :: "string \<Rightarrow> string list \<Rightarrow> string option step" where
  "find_cell col [] = ok None"
| "find_cell col (i # ids) = seq (parse_cell i) (\<lambda>(_, colID). if colID = col then ok (Some i) else find_cell col ids)"

text \<open>All cells are looked at, and the last one of the column counts.\<close>

fun last_cell :: "string \<Rightarrow> string option \<Rightarrow> string list \<Rightarrow> string option step" where
  "last_cell col found [] = ok found"
| "last_cell col found (i # ids) = seq (parse_cell i) (\<lambda>(_, colID). last_cell col (if colID = col then Some i else found) ids)"

definition clone_style :: "cell_sorter \<Rightarrow> Block \<Rightarrow> (string \<Rightarrow> nat option) \<Rightarrow> string \<Rightarrow> string \<Rightarrow> string \<Rightarrow> unit step" where
  "clone_style sorter tb colIdx src target rowID =
     seq (pickRow rowID) (\<lambda>row.
     seq (last_cell src None (ChildrenIds row)) (\<lambda>cellID.
     seq (look (\<lambda>ss. Option.bind cellID (Pick ss))) (\<lambda>proto.
       case proto of
         None \<Rightarrow> ok ()
       | Some b \<Rightarrow>
           if BackgroundColor b = [] then ok ()
           else
             seq (ensure_cell rowID target) (\<lambda>cell.
             seq (set_block cell (\<lambda>c. c\<lparr>BackgroundColor := BackgroundColor b\<rparr>)) (\<lambda>_.
             seq (set_block (Id row) (\<lambda>r. r\<lparr>ChildrenIds := ChildrenIds r @ [cell]\<rparr>)) (\<lambda>_.
               normalizeRow sorter tb colIdx (Id row)))))))"

definition cloneColumnStyles :: "cell_sorter \<Rightarrow> string \<Rightarrow> string \<Rightarrow> unit step" where
  "cloneColumnStyles sorter src target =
     seq (NewTable src) (\<lambda>tb.
     seq (MakeColumnIndex tb) (\<lambda>colIdx.
     seq (RowIDs tb) (\<lambda>rowIDs. each (clone_style sorter tb colIdx src target) rowIDs)))"

fun side_position :: "BlockPosition \<Rightarrow> BlockPosition option" where
  "side_position Block_Left = Some Block_Top"
| "side_position Block_Right = Some Block_Bottom"
| "side_position _ = None"

definition ColumnCreate :: "(nat list \<Rightarrow> nat list) \<Rightarrow> cell_sorter \<Rightarrow> string \<Rightarrow> string \<Rightarrow> BlockPosition \<Rightarrow> string step" where
  "ColumnCreate md5 sorter newId target pos =
     seq (case side_position pos of
            Some p \<Rightarrow> seq (pickColumn target) (\<lambda>_. ok (target, p))
          | None \<Rightarrow>
              if pos = Block_Inner then seq (NewTable target) (\<lambda>tb. seq (the_layout (Columns tb)) (\<lambda>cols. ok (Id cols, pos)))
              else err ErrPosition) (\<lambda>(target, pos).
     seq (addColumnHeader newId) (\<lambda>colID.
     seq (insert_to md5 target pos [colID]) (\<lambda>_.
     seq (cloneColumnStyles sorter target colID) (\<lambda>_. ok colID))))"

definition ColumnDelete :: "string \<Rightarrow> unit step" where
  "ColumnDelete target =
     seq (pickColumn target) (\<lambda>_.
     seq (NewTable target) (\<lambda>tb.
     seq (RowIDs tb) (\<lambda>rowIDs.
     seq (each (\<lambda>rowID.
       seq (pickRow rowID) (\<lambda>row.
       seq (find_cell target (ChildrenIds row)) (\<lambda>cell.
         case cell of None \<Rightarrow> ok () | Some cellID \<Rightarrow> unlink cellID))) rowIDs) (\<lambda>_.
     unlink target))))"

definition duplicate_cell :: "cell_sorter \<Rightarrow> Block \<Rightarrow> (string \<Rightarrow> nat option) \<Rightarrow> string \<Rightarrow> string \<Rightarrow> string \<Rightarrow> unit step" where
  "duplicate_cell sorter tb colIdx src newCol rowID =
     seq (getRow rowID) (\<lambda>row.
     seq (find_cell src (ChildrenIds row)) (\<lambda>found.
       case found of
         None \<Rightarrow> ok ()
       | Some cellID \<Rightarrow>
           if cellID = [] then ok ()
           else
             seq (look (\<lambda>ss. Pick ss cellID)) (\<lambda>cell.
             seq (check (cell \<noteq> None) (ErrCellNotFound cellID)) (\<lambda>_.
             seq (add_block ((the cell)\<lparr>Id := MakeCellID rowID newCol\<rparr>)) (\<lambda>_.
             seq (set_block rowID (\<lambda>r. r\<lparr>ChildrenIds := ChildrenIds r @ [MakeCellID rowID newCol]\<rparr>)) (\<lambda>_.
               normalizeRow sorter tb colIdx rowID))))))"

definition ColumnDuplicate :: "(nat list \<Rightarrow> nat list) \<Rightarrow> cell_sorter \<Rightarrow> string \<Rightarrow> string \<Rightarrow> string \<Rightarrow> BlockPosition \<Rightarrow> string step" where
  "ColumnDuplicate md5 sorter newId src target pos =
     (case side_position pos of
        None \<Rightarrow> err ErrPosition
      | Some p \<Rightarrow>
          seq (pickColumn src) (\<lambda>srcCol.
          seq (pickColumn target) (\<lambda>_.
          seq (NewTable target) (\<lambda>tb.
          seq (add_block (srcCol\<lparr>Id := newId\<rparr>)) (\<lambda>_.
          seq (insert_to md5 target p [newId]) (\<lambda>_.
          seq (MakeColumnIndex tb) (\<lambda>colIdx.
          seq (RowIDs tb) (\<lambda>rowIDs.
          seq (each (duplicate_cell sorter tb colIdx src newId) rowIDs) (\<lambda>_. ok newId)))))))))"

definition normalize_rows_of :: "cell_sorter \<Rightarrow> Block \<Rightarrow> (string \<Rightarrow> nat option) \<Rightarrow> string list \<Rightarrow> unit step" where
  "normalize_rows_of sorter tb colIdx rowIDs =
     each (\<lambda>i. seq (getRow i) (\<lambda>_. normalizeRow sorter tb colIdx i)) rowIDs"

definition ColumnMove :: "(nat list \<Rightarrow> nat list) \<Rightarrow> cell_sorter \<Rightarrow> string \<Rightarrow> string \<Rightarrow> BlockPosition \<Rightarrow> unit step" where
  "ColumnMove md5 sorter target dropTarget pos =
     (case side_position pos of
        None \<Rightarrow> err ErrPosition
      | Some p \<Rightarrow>
          seq (pickColumn target) (\<lambda>_.
          seq (pickColumn dropTarget) (\<lambda>_.
          seq (NewTable target) (\<lambda>tb.
          seq (unlink target) (\<lambda>_.
          seq (insert_to md5 dropTarget p [target]) (\<lambda>_.
          seq (MakeColumnIndex tb) (\<lambda>colIdx.
          seq (RowIDs tb) (\<lambda>rowIDs. normalize_rows_of sorter tb colIdx rowIDs))))))))"

definition fill_cell :: "string \<Rightarrow> string \<Rightarrow> unit step" where
  "fill_cell colID rowID =
     seq (look (\<lambda>ss. Exists ss (MakeCellID rowID colID))) (\<lambda>present.
       if present then ok ()
       else
         seq (addCell rowID colID) (\<lambda>i.
         seq (getRow rowID) (\<lambda>_. set_block rowID (\<lambda>r. r\<lparr>ChildrenIds := ChildrenIds r @ [i]\<rparr>))))"

definition ColumnListFill :: "cell_sorter \<Rightarrow> string list \<Rightarrow> unit step" where
  "ColumnListFill sorter ids =
     seq (check (ids \<noteq> []) ErrEmptyList) (\<lambda>_.
     seq (NewTable (hd ids)) (\<lambda>tb.
     seq (RowIDs tb) (\<lambda>rows.
     seq (each (\<lambda>colID. each (fill_cell colID) rows) ids) (\<lambda>_.
     seq (MakeColumnIndex tb) (\<lambda>colIdx. normalize_rows_of sorter tb colIdx rows)))))"

text \<open>Rows are created under the last one; without rows the access to the last one panics.\<close>

definition expand_row :: "(nat list \<Rightarrow> nat list) \<Rightarrow> Block \<Rightarrow> string \<Rightarrow> unit step" where
  "expand_row md5 tb newId =
     seq (RowIDs tb) (\<lambda>rowIDs.
       if rowIDs = [] then panic else seq (RowCreate md5 newId (last rowIDs) Block_Bottom) (\<lambda>_. ok ()))"

definition Expand :: "(nat list \<Rightarrow> nat list) \<Rightarrow> cell_sorter \<Rightarrow> string \<Rightarrow> string list \<Rightarrow> string list \<Rightarrow> unit step" where
  "Expand md5 sorter target newColumns newRows =
     seq (NewTable target) (\<lambda>tb.
     seq (each (\<lambda>newId. seq (ColumnCreate md5 sorter newId target Block_Inner) (\<lambda>_. ok ())) newColumns) (\<lambda>_.
       each (expand_row md5 tb) newRows))"

text \<open>
  Rows are compared by the texts of a column: numbers come first and are ordered as numbers, other texts by the
  collator. Trimming, lower case, the parser of numbers and the collator are parameters, and so is \<open>sort.Stable\<close>.
\<close>

record TextEnv =
  te_TrimSpace :: "nat list \<Rightarrow> nat list"
  te_ToLower :: "nat list \<Rightarrow> nat list"
  te_ParseFloat :: "nat list \<Rightarrow> f64 option"
  te_CompareString :: "nat list \<Rightarrow> nat list \<Rightarrow> int"

definition table_Less :: "TextEnv \<Rightarrow> nat list \<Rightarrow> nat list \<Rightarrow> bool" where
  "table_Less env a b =
     (let valI = te_TrimSpace env a; valJ = te_TrimSpace env b
      in case (te_ParseFloat env valI, te_ParseFloat env valJ) of
           (Some numI, Some numJ) \<Rightarrow> f64_less numI numJ
         | (Some _, None) \<Rightarrow> True
         | (None, Some _) \<Rightarrow> False
         | (None, None) \<Rightarrow> te_CompareString env (te_ToLower env valI) (te_ToLower env valJ) < 0)"

type_synonym valued_row = "nat list \<times> string"

type_synonym stable_sorter = "(valued_row \<Rightarrow> valued_row \<Rightarrow> bool) \<Rightarrow> valued_row list \<Rightarrow> valued_row list"

definition GetText :: "Block \<Rightarrow> nat list" where
  "GetText b = (case Content b of CText c \<Rightarrow> tText c | _ \<Rightarrow> [])"

text \<open>The text of the last cell of the column counts.\<close>

fun sort_value :: "string \<Rightarrow> nat list \<Rightarrow> string list \<Rightarrow> nat list step" where
  "sort_value col v [] = ok v"
| "sort_value col v (i # ids) =
     seq (parse_cell i) (\<lambda>(_, colID).
       if colID = col
       then seq (look (\<lambda>ss. Pick ss i)) (\<lambda>cell.
            seq (check (cell \<noteq> None) (ErrCellNotFound i)) (\<lambda>_. sort_value col (GetText (the cell)) ids))
       else sort_value col v ids)"

definition sort_row :: "string \<Rightarrow> string \<Rightarrow> (bool \<times> valued_row) step" where
  "sort_row col rowID =
     seq (pickRow rowID) (\<lambda>row.
       if IsHeader row then ok (True, [], rowID)
       else seq (sort_value col [] (ChildrenIds row)) (\<lambda>v. ok (False, v, rowID)))"

definition Sort_table :: "TextEnv \<Rightarrow> stable_sorter \<Rightarrow> string \<Rightarrow> bool \<Rightarrow> unit step" where
  "Sort_table env srt col asc =
     seq (pickColumn col) (\<lambda>_.
     seq (NewTable col) (\<lambda>tb.
     seq (the_layout (Rows tb)) (\<lambda>layout.
     seq (get_block (Id layout)) (\<lambda>layout.
     seq (collect (sort_row col) (ChildrenIds layout)) (\<lambda>rows.
       (let less = (\<lambda>x y. table_Less env (fst x) (fst y));
            sorted = srt (if asc then less else (\<lambda>x y. less y x)) (map snd [r \<leftarrow> rows. \<not> fst r])
        in set_block (Id layout) (\<lambda>b. b\<lparr>ChildrenIds := map (snd \<circ> snd) [r \<leftarrow> rows. fst r] @ map snd sorted\<rparr>)))))))"

text \<open>A new table: its columns and rows get the given ids; the cells of a header row are created at once.\<close>

definition header_cell :: "string \<Rightarrow> unit step" where
  "header_cell cellID = (\<lambda>ss. case Get_block ss cellID of
     (None, ss) \<Rightarrow> Some (Inl (ErrCellNotFound cellID), ss)
   | (Some b, ss) \<Rightarrow> Some (Inr (), put_block cellID (b\<lparr>BackgroundColor := ''grey''\<rparr>) ss))"

definition fill_header :: "string list \<Rightarrow> unit step" where
  "fill_header rowIDs =
     (if rowIDs = [] then err ErrNoHeaderRow
      else
        seq (RowSetHeader (hd rowIDs) True) (\<lambda>_.
        seq (RowListFill [hd rowIDs]) (\<lambda>_.
        seq (getRow (hd rowIDs)) (\<lambda>row. each header_cell (ChildrenIds row)))))"

definition TableCreate :: "(nat list \<Rightarrow> nat list) \<Rightarrow> bool \<Rightarrow> string \<Rightarrow> string \<Rightarrow> string \<Rightarrow> string list \<Rightarrow> string list \<Rightarrow>
    string \<Rightarrow> BlockPosition \<Rightarrow> bool \<Rightarrow> string step" where
  "TableCreate md5 allowed tableId columnsId rowsId newColumns newRows target pos withHeader =
     seq (check allowed ErrRestricted) (\<lambda>_.
     seq (add_block (new_block tableId [] CTable)) (\<lambda>_.
     seq (insert_to md5 target pos [tableId]) (\<lambda>_.
     seq (collect addColumnHeader newColumns) (\<lambda>columnIds.
     seq (add_block (new_block columnsId columnIds (CLayout layout_TableColumns))) (\<lambda>_.
     seq (collect addRow newRows) (\<lambda>rowIDs.
     seq (add_block (new_block rowsId rowIDs (CLayout layout_TableRows))) (\<lambda>_.
     seq (set_block tableId (\<lambda>b. b\<lparr>ChildrenIds := [columnsId, rowsId]\<rparr>)) (\<lambda>_.
     seq (if withHeader then fill_header rowIDs else ok ()) (\<lambda>_. ok tableId)))))))))"

subsection \<open>Copies and visits\<close>

text \<open>
  A copy of a table with all its blocks. The function \<open>gen\<close> numbers the generated ids in the order of the code. A missing
  column is an error, a missing row or cell a call of a method on nil.
\<close>

definition copy_column :: "string \<times> string \<Rightarrow> Block step" where
  "copy_column = (\<lambda>(colID, newId).
     seq (look (\<lambda>ss. Pick ss colID)) (\<lambda>col.
     seq (check (col \<noteq> None) (ErrColumnMissing colID)) (\<lambda>_. ok ((the col)\<lparr>Id := newId\<rparr>))))"

definition copy_table_cell :: "(string \<rightharpoonup> string) \<Rightarrow> string \<Rightarrow> string \<Rightarrow> Block step" where
  "copy_table_cell colMapping newRow cellID =
     seq (parse_cell cellID) (\<lambda>(_, oldColID).
       case colMapping oldColID of
         None \<Rightarrow> err (ErrColumnMapping oldColID)
       | Some newColID \<Rightarrow>
           seq (the_layout (\<lambda>ss. Pick ss cellID)) (\<lambda>cell. ok (cell\<lparr>Id := MakeCellID newRow newColID\<rparr>)))"

definition copy_table_row :: "(string \<rightharpoonup> string) \<Rightarrow> string \<times> string \<Rightarrow> (string list \<times> Block list) step" where
  "copy_table_row colMapping = (\<lambda>(rowID, newId).
     seq (the_layout (\<lambda>ss. Pick ss rowID)) (\<lambda>row.
     seq (collect (copy_table_cell colMapping newId) (ChildrenIds row)) (\<lambda>cells.
       ok (rowID # ChildrenIds row, row\<lparr>Id := newId, ChildrenIds := map Id cells\<rparr> # cells))))"

record table_copy =
  tc_newID :: string
  tc_visitedIds :: "string list"
  tc_blocks :: "Block list"

definition Duplicate_table :: "(nat \<Rightarrow> string) \<Rightarrow> string \<Rightarrow> table_copy step" where
  "Duplicate_table gen i =
     seq (NewTable i) (\<lambda>tb.
     seq (the_layout (Columns tb)) (\<lambda>cols.
     seq (collect copy_column (zip (ChildrenIds cols) (map gen [0..<length (ChildrenIds cols)]))) (\<lambda>newCols.
     seq (the_layout (Rows tb)) (\<lambda>rows.
       (let n = length newCols; m = length (ChildrenIds rows);
            colMapping = map_of (rev (zip (ChildrenIds cols) (map Id newCols)));
            colsCopy = cols\<lparr>Id := gen n, ChildrenIds := map Id newCols\<rparr>;
            newRows = map gen [Suc n..<Suc n + m];
            rowsCopy = rows\<lparr>Id := gen (Suc n + m), ChildrenIds := newRows\<rparr>;
            newID = gen (Suc (Suc n + m))
        in seq (collect (copy_table_row colMapping) (zip (ChildrenIds rows) newRows)) (\<lambda>copies.
             ok \<lparr>tc_newID = newID,
                 tc_visitedIds = i # Id cols # ChildrenIds cols @ Id rows # concat (map fst copies),
                 tc_blocks = newCols @ colsCopy # concat (map snd copies) @
                   [rowsCopy, tb\<lparr>Id := newID, ChildrenIds := [Id colsCopy, Id rowsCopy]\<rparr>]\<rparr>))))))"

record CellPosition =
  cp_RowID :: string
  cp_ColID :: string
  cp_CellID :: string
  cp_RowNumber :: nat
  cp_ColNumber :: nat

text \<open>A visit of all cells until the function returns false. A cell of an unknown column gets the number 0.\<close>

fun visit_cells :: "('a \<Rightarrow> Block option \<Rightarrow> CellPosition \<Rightarrow> 'a \<times> bool) \<Rightarrow> (string \<Rightarrow> nat option) \<Rightarrow> nat \<Rightarrow> string \<Rightarrow>
    string list \<Rightarrow> 'a \<Rightarrow> ('a \<times> bool) step" where
  "visit_cells f colIndex n rowID [] acc = ok (acc, True)"
| "visit_cells f colIndex n rowID (i # ids) acc =
     seq (parse_cell i) (\<lambda>(_, colID).
     seq (look (\<lambda>ss. f acc (Pick ss i) \<lparr>cp_RowID = rowID, cp_ColID = colID, cp_CellID = i, cp_RowNumber = n,
       cp_ColNumber = (case colIndex colID of Some k \<Rightarrow> k | None \<Rightarrow> 0)\<rparr>)) (\<lambda>(acc, go_on).
       if go_on then visit_cells f colIndex n rowID ids acc else ok (acc, False)))"

fun visit_rows :: "('a \<Rightarrow> Block option \<Rightarrow> CellPosition \<Rightarrow> 'a \<times> bool) \<Rightarrow> (string \<Rightarrow> nat option) \<Rightarrow> nat \<Rightarrow> string list \<Rightarrow> 'a \<Rightarrow>
    'a step" where
  "visit_rows f colIndex n [] acc = ok acc"
| "visit_rows f colIndex n (rowID # ids) acc =
     seq (pickRow rowID) (\<lambda>row.
     seq (visit_cells f colIndex n rowID (ChildrenIds row) acc) (\<lambda>(acc, go_on).
       if go_on then visit_rows f colIndex (Suc n) ids acc else ok acc))"

definition Iterate_table :: "('a \<Rightarrow> Block option \<Rightarrow> CellPosition \<Rightarrow> 'a \<times> bool) \<Rightarrow> Block \<Rightarrow> 'a \<Rightarrow> 'a step" where
  "Iterate_table f tb acc =
     seq (MakeColumnIndex tb) (\<lambda>colIndex.
     seq (RowIDs tb) (\<lambda>rowIDs. visit_rows f colIndex 0 rowIDs acc))"

subsection \<open>Running steps\<close>

lemma seq_run [simp]:
  "m ss = Some (Inr x, ss') \<Longrightarrow> seq m f ss = f x ss'"
  "m ss = Some (Inl e, ss') \<Longrightarrow> seq m f ss = Some (Inl e, ss')"
  "m ss = None \<Longrightarrow> seq m f ss = None"
  by (simp_all add: seq_def)

lemma step_simps [simp]:
  "ok x ss = Some (Inr x, ss)" "err e ss = Some (Inl e, ss)" "panic ss = None"
  "look g ss = Some (Inr (g ss), ss)" "change h ss = Some (Inr (), h ss)"
  "check c e ss = Some (if c then Inr () else Inl e, ss)"
  by (simp_all add: ok_def err_def panic_def look_def change_def check_def)

text \<open>
  A loop keeps what its body keeps. \<open>I\<close> is an invariant of the states and \<open>K\<close> what may change from one to a later one.
\<close>

locale kept =
  fixes I :: "State list \<Rightarrow> bool" and K :: "State list \<Rightarrow> State list \<Rightarrow> bool"
  assumes kept_refl: "I ss \<Longrightarrow> K ss ss"
    and kept_trans: "K a b \<Longrightarrow> K b c \<Longrightarrow> K a c"
    and kept_inv: "K a b \<Longrightarrow> I b"
begin

lemma collect_keeps:
  assumes "\<And>x ss. x \<in> set xs \<Longrightarrow> I ss \<Longrightarrow> \<exists>y ss'. f x ss = Some (Inr y, ss') \<and> K ss ss' \<and> Q x y ss'"
    and stays: "\<And>x y ss ss'. x \<in> set xs \<Longrightarrow> Q x y ss \<Longrightarrow> K ss ss' \<Longrightarrow> Q x y ss'" and "I ss"
  shows "\<exists>ys ss'. collect f xs ss = Some (Inr ys, ss') \<and> K ss ss' \<and> list_all2 (\<lambda>x y. Q x y ss') xs ys"
  using assms
proof (induction xs arbitrary: ss)
  case Nil
  then show ?case by (simp add: kept_refl)
next
  case (Cons x xs)
  obtain y s1 where y: "f x ss = Some (Inr y, s1)" "K ss s1" "Q x y s1" using Cons.prems(1) [of x ss] Cons.prems(3) by auto
  have "\<exists>ys s2. collect f xs s1 = Some (Inr ys, s2) \<and> K s1 s2 \<and> list_all2 (\<lambda>x y. Q x y s2) xs ys"
    using Cons.prems(1,2) kept_inv [OF y(2)] by (intro Cons.IH) auto
  then obtain ys s2 where ys: "collect f xs s1 = Some (Inr ys, s2)" "K s1 s2" "list_all2 (\<lambda>x y. Q x y s2) xs ys" by blast
  have "K ss s2" "Q x y s2" using kept_trans [OF y(2) ys(2)] Cons.prems(2) [of x y s1 s2] y(3) ys(2) by auto
  then show ?case using y(1) ys by auto
qed

lemma each_keeps:
  assumes "\<And>x ss. x \<in> set xs \<Longrightarrow> I ss \<Longrightarrow> \<exists>ss'. f x ss = Some (Inr (), ss') \<and> K ss ss' \<and> Q x ss'"
    and stays: "\<And>x ss ss'. x \<in> set xs \<Longrightarrow> Q x ss \<Longrightarrow> K ss ss' \<Longrightarrow> Q x ss'" and "I ss"
  shows "\<exists>ss'. each f xs ss = Some (Inr (), ss') \<and> K ss ss' \<and> (\<forall>x\<in>set xs. Q x ss')"
  using assms
proof (induction xs arbitrary: ss)
  case (Cons x xs)
  obtain s1 where y: "f x ss = Some (Inr (), s1)" "K ss s1" "Q x s1" using Cons.prems(1) [of x ss] Cons.prems(3) by auto
  have "\<exists>s2. each f xs s1 = Some (Inr (), s2) \<and> K s1 s2 \<and> (\<forall>x\<in>set xs. Q x s2)"
    using Cons.prems(1,2) kept_inv [OF y(2)] by (intro Cons.IH) auto
  then obtain s2 where s2: "each f xs s1 = Some (Inr (), s2)" "K s1 s2" "\<forall>x\<in>set xs. Q x s2" by blast
  have "K ss s2" "Q x s2" using kept_trans [OF y(2) s2(2)] Cons.prems(2) [of x s1 s2] y(3) s2(2) by auto
  then show ?case using y(1) s2 by auto
qed (simp add: kept_refl)

end

subsection \<open>Tables in order\<close>

text \<open>The cells of a row name columns, in the order of the columns.\<close>

definition tidy :: "(string \<Rightarrow> nat option) \<Rightarrow> string list \<Rightarrow> bool" where
  "tidy colIdx cells \<longleftrightarrow>
     list_all (\<lambda>i. cell_number colIdx i \<noteq> None) cells \<and> sorted (map (\<lambda>i. the (cell_number colIdx i)) cells)"

definition row_at :: "State list \<Rightarrow> string \<Rightarrow> bool" where
  "row_at ss i = (case Pick ss i of Some b \<Rightarrow> is_table_row b | None \<Rightarrow> False)"

definition column_at :: "State list \<Rightarrow> string \<Rightarrow> bool" where
  "column_at ss i = (case Pick ss i of Some b \<Rightarrow> Content b = CTableColumn | None \<Rightarrow> False)"

definition header_at :: "State list \<Rightarrow> string \<Rightarrow> bool" where
  "header_at ss i = (case Pick ss i of Some b \<Rightarrow> IsHeader b | None \<Rightarrow> False)"

text \<open>A block has the parts of a table.\<close>

definition has_layouts :: "State list \<Rightarrow> Block \<Rightarrow> bool" where
  "has_layouts ss tb \<longleftrightarrow> length (ChildrenIds tb) \<ge> 2 \<and> Columns tb ss \<noteq> None \<and> Rows tb ss \<noteq> None"

text \<open>A table in order: columns, rows with header rows first, and tidy cells.\<close>

definition table_ok :: "State list \<Rightarrow> string \<Rightarrow> bool" where
  "table_ok ss t = (case Pick ss t of None \<Rightarrow> False | Some tb \<Rightarrow>
     Content tb = CTable \<and>
     (case (Columns tb ss, Rows tb ss) of
        (Some cols, Some rows) \<Rightarrow>
          list_all (column_at ss) (ChildrenIds cols) \<and> list_all (row_at ss) (ChildrenIds rows) \<and>
          list_all (\<lambda>r. tidy (column_index (ChildrenIds cols)) (kids ss r)) (ChildrenIds rows) \<and>
          sorted (map (\<lambda>r. if header_at ss r then 0 else 1 :: nat) (ChildrenIds rows))
      | _ \<Rightarrow> False))"

definition sorts :: "cell_sorter \<Rightarrow> bool" where
  "sorts sorter \<longleftrightarrow> (\<forall>cells. mset (sorter cells) = mset cells \<and> sorted (map fst (sorter cells)))"

text \<open>The table with its layouts while the code works on it: the table is not below itself.\<close>

definition table_inv :: "Block \<Rightarrow> Block \<Rightarrow> Block \<Rightarrow> State list \<Rightarrow> bool" where
  "table_inv tb cb rb ss \<longleftrightarrow>
     ss \<noteq> [] \<and> own_ids ss \<and> (Id tb, Id tb) \<notin> (child ss)\<^sup>+ \<and> Pick ss (Id tb) = Some tb \<and> Pick ss (Id cb) = Some cb \<and>
     Pick ss (Id rb) = Some rb \<and> Content tb = CTable \<and> Content cb = CLayout layout_TableColumns \<and> Content rb = CLayout layout_TableRows \<and>
     length (ChildrenIds tb) \<ge> 2 \<and> ChildrenIds tb ! 0 = Id cb \<and> ChildrenIds tb ! 1 = Id rb"

lemma table_invD:
  assumes "table_inv tb cb rb ss"
  shows "ss \<noteq> []" "own_ids ss" "(Id tb, Id tb) \<notin> (child ss)\<^sup>+" "Pick ss (Id tb) = Some tb" "Pick ss (Id cb) = Some cb"
    "Pick ss (Id rb) = Some rb" "Content tb = CTable" "Content cb = CLayout layout_TableColumns" "Content rb = CLayout layout_TableRows"
    "length (ChildrenIds tb) \<ge> 2" "ChildrenIds tb ! 0 = Id cb" "ChildrenIds tb ! 1 = Id rb"
  using assms unfolding table_inv_def by - (elim conjE, assumption)+

lemma table_inv_layouts:
  assumes "table_inv tb cb rb ss"
  shows "Columns tb ss = Some cb" "Rows tb ss = Some rb"
  using table_invD [OF assms] by (simp_all add: Columns_def Rows_def child_layout_def)

lemma table_inv_links:
  assumes "table_inv tb cb rb ss"
  shows "(Id tb, Id cb) \<in> child ss" "(Id tb, Id rb) \<in> child ss" "\<And>x. x \<in> set (ChildrenIds rb) \<Longrightarrow> (Id rb, x) \<in> child ss"
    "\<And>x. x \<in> set (ChildrenIds cb) \<Longrightarrow> (Id cb, x) \<in> child ss"
  using table_invD [OF assms] by (auto intro!: childI) (metis Suc_le_eq nth_mem One_nat_def less_Suc_eq numeral_2_eq_2 order.strict_trans2 zero_less_Suc)+

text \<open>A block that the table is a child of cannot be below the table.\<close>

lemma table_inv_above:
  assumes "table_inv tb cb rb ss" "Id tb \<in> set (kids ss p)"
  shows "p \<noteq> Id tb" "p \<noteq> Id cb" "p \<noteq> Id rb" "p \<notin> set (ChildrenIds rb)" "p \<notin> set (ChildrenIds cb)"
proof -
  have p: "(p, Id tb) \<in> child ss" using assms(2) by (simp add: child_kids)
  have below: "(Id tb, p) \<notin> (child ss)\<^sup>*"
    using p table_invD(3) [OF assms(1)] by (meson rtrancl_into_trancl1)
  note l = table_inv_links [OF assms(1)]
  show "p \<noteq> Id tb" "p \<noteq> Id cb" "p \<noteq> Id rb" using below l(1,2) by auto
  show "p \<notin> set (ChildrenIds rb)" "p \<notin> set (ChildrenIds cb)"
    using below l by (meson r_into_rtrancl rtrancl_into_rtrancl)+
qed

text \<open>New links between a block and its descendants make no cycle.\<close>

lemma no_new_cycle:
  assumes "(t, t) \<notin> (child ss)\<^sup>+" "child ss' \<subseteq> (child ss)\<^sup>+"
  shows "(t, t) \<notin> (child ss')\<^sup>+"
proof
  assume "(t, t) \<in> (child ss')\<^sup>+"
  then have "(t, t) \<in> ((child ss)\<^sup>+)\<^sup>+" using trancl_mono assms(2) by blast
  then show False using assms(1) by (simp add: trancl_id)
qed

lemma own_ids_children: "own_ids ss \<Longrightarrow> Pick ss x = Some b \<Longrightarrow> Pick ss' = (Pick ss)(x \<mapsto> b\<lparr>ChildrenIds := cs\<rparr>) \<Longrightarrow> own_ids ss'"
  by (auto simp: own_ids_def)

lemma child_update:
  assumes "Pick ss x = Some b" "Pick ss' = (Pick ss)(x \<mapsto> b\<lparr>ChildrenIds := cs\<rparr>)" "\<And>c. c \<in> set cs \<Longrightarrow> (x, c) \<in> (child ss)\<^sup>+"
  shows "child ss' \<subseteq> (child ss)\<^sup>+"
proof
  fix e assume "e \<in> child ss'"
  then obtain p c pb where e: "e = (p, c)" "Pick ss' p = Some pb" "c \<in> set (ChildrenIds pb)" by (cases e) auto
  then show "e \<in> (child ss)\<^sup>+" using assms by (cases "p = x") auto
qed

subsection \<open>Blocks stay in the document\<close>

text \<open>
  The table \<open>t\<close> is linked below the root \<open>r\<close> of a document without cycles. A block is parked when it is a child of a
  block of the document that also has the table as a child: it stays in the document when the table gives it up. A later state
  saves the blocks of the document when all of them are still reachable from the root and parked blocks are still parked.
\<close>

definition anchored :: "string \<Rightarrow> string \<Rightarrow> State list \<Rightarrow> bool" where
  "anchored r t ss \<longleftrightarrow> rooted ss r \<and> acyclic_from ss r \<and> (\<exists>q. reach ss r q \<and> (q, t) \<in> child ss)"

definition parked :: "string \<Rightarrow> string \<Rightarrow> State list \<Rightarrow> string \<Rightarrow> bool" where
  "parked r t ss c \<longleftrightarrow> (\<exists>q. reach ss r q \<and> (q, t) \<in> child ss \<and> (q, c) \<in> child ss)"

definition saved :: "string \<Rightarrow> string \<Rightarrow> State list \<Rightarrow> State list \<Rightarrow> bool" where
  "saved r t ss ss' \<longleftrightarrow>
     (anchored r t ss \<longrightarrow> anchored r t ss' \<and> (\<forall>x. reach ss r x \<longrightarrow> reach ss' r x) \<and> (\<forall>c. parked r t ss c \<longrightarrow> parked r t ss' c))"

lemma saved_trans: "saved r t a b \<Longrightarrow> saved r t b c \<Longrightarrow> saved r t a c"
  unfolding saved_def by blast

lemma saved_refl [simp]: "saved r t ss ss"
  by (simp add: saved_def)

lemma acyclic_from_below:
  assumes "acyclic_from ss r" "child ss' \<subseteq> (child ss)\<^sup>+"
  shows "acyclic_from ss' r"
proof -
  have "(child ss')\<^sup>* \<subseteq> ((child ss)\<^sup>+)\<^sup>*" using assms(2) by (rule rtrancl_mono)
  then have "reach ss r x" if "reach ss' r x" for x using that by (auto simp: reach_def)
  then show ?thesis using assms no_new_cycle [OF _ assms(2)] unfolding acyclic_from_def by blast
qed

text \<open>More links lose nothing.\<close>

lemma saved_grow:
  assumes "child ss \<subseteq> child ss'" "child ss' \<subseteq> (child ss)\<^sup>+" "rooted ss r \<Longrightarrow> rooted ss' r"
  shows "saved r t ss ss'"
proof -
  have reach: "reach ss' r x" if "reach ss r x" for x using that rtrancl_mono [OF assms(1)] by (auto simp: reach_def)
  then show ?thesis
    using assms acyclic_from_below [OF _ assms(2)] unfolding saved_def anchored_def parked_def by (meson subsetD)
qed

lemma saved_same: "Pick ss' = Pick ss \<Longrightarrow> (rooted ss r \<Longrightarrow> rooted ss' r) \<Longrightarrow> saved r t ss ss'"
  using links_cong(1) [of ss' ss] by (intro saved_grow) auto

text \<open>The way to a block that is not below \<open>x\<close> does not use the links of \<open>x\<close>.\<close>

lemma reach_beside:
  assumes "reach ss r q" "(x, q) \<notin> (child ss)\<^sup>*" "\<And>y. y \<noteq> x \<Longrightarrow> Pick ss' y = Pick ss y"
  shows "reach ss' r q"
  using assms(1,2) unfolding reach_def
proof (induction rule: rtrancl_induct)
  case (step y z)
  have "(x, y) \<notin> (child ss)\<^sup>*" using step.prems step.hyps(2) by (meson rtrancl_into_rtrancl)
  moreover from this have "y \<noteq> x" by blast
  then have "(y, z) \<in> child ss'" using step.hyps(2) assms(3) [of y] by (simp add: child_def)
  ultimately show ?case using step.IH by (meson rtrancl_into_rtrancl)
qed simp

text \<open>A block below the table may give up children that are parked.\<close>

lemma saved_cut:
  assumes "Pick ss x = Some b" "Pick ss' = (Pick ss)(x \<mapsto> b\<lparr>ChildrenIds := cs\<rparr>)" "rooted ss r \<Longrightarrow> rooted ss' r"
    and links: "\<And>c. c \<in> set cs \<Longrightarrow> (x, c) \<in> (child ss)\<^sup>+"
    and cut: "\<And>c. c \<in> set (ChildrenIds b) - set cs \<Longrightarrow> anchored r t ss \<Longrightarrow> parked r t ss c"
    and below: "(t, t) \<notin> (child ss)\<^sup>+" "(t, x) \<in> (child ss)\<^sup>+"
  shows "saved r t ss ss'"
  unfolding saved_def
proof (intro impI conjI allI)
  assume a: "anchored r t ss"
  have above: "(x, q) \<notin> (child ss)\<^sup>*" if "(q, t) \<in> child ss" for q
    using that below by (meson rtrancl_trancl_trancl r_into_trancl trancl_rtrancl_trancl trancl_trans)
  then have stays: "reach ss' r q \<and> (q, t) \<in> child ss' \<and> ((q, c) \<in> child ss \<longrightarrow> (q, c) \<in> child ss')"
    if "reach ss r q" "(q, t) \<in> child ss" for q c
  proof -
    have "q \<noteq> x" using above that(2) by blast
    then have "Pick ss' q = Pick ss q" using assms(2) by simp
    moreover have "reach ss' r q" using reach_beside [OF that(1) above [OF that(2)]] assms(2) by simp
    ultimately show ?thesis using that(2) by (simp add: child_def)
  qed
  show "reach ss' r y" if "reach ss r y" for y
    using that unfolding reach_def
  proof (induction rule: rtrancl_induct)
    case (step y z)
    show ?case
    proof (cases "y = x \<and> z \<notin> set cs")
      case True
      then have "parked r t ss z" using step.hyps(2) assms(1) cut [OF _ a] by auto
      then show ?thesis using stays unfolding parked_def reach_def by (meson rtrancl_into_rtrancl)
    next
      case False
      then have "(y, z) \<in> child ss'" using step.hyps(2) assms(1,2) by (auto simp: child_def)
      then show ?thesis using step.IH by (meson rtrancl_into_rtrancl)
    qed
  qed simp
  show "parked r t ss' c" if "parked r t ss c" for c using that stays unfolding parked_def by blast
  show "anchored r t ss'"
    using a assms(3) stays acyclic_from_below [OF _ child_update [OF assms(1,2) links]] unfolding anchored_def by blast
qed

lemma Pick_RootId [simp]: "Pick (snd (RootId ss)) = Pick ss"
  by (simp add: RootId_conv)

lemma RootId_nonempty [simp]: "snd (RootId ss) = [] \<longleftrightarrow> ss = []"
  by (cases ss) (auto simp: Let_def)

lemma Get_block_Some [simp]:
  "Pick ss i = Some b \<Longrightarrow> fst (Get_block ss i) = Some b"
  by simp

text \<open>Blocks go under the table, into the children of the block that has the table as a child, if there is one.\<close>

lemma MoveBlocks_under:
  assumes "own_ids ss" "ss \<noteq> []"
  obtains ss' where "MoveBlocksUnderTheTable tb ids ss = Some (Inr (), ss')" "ss' \<noteq> []" "Pick ss' = Pick ss"
    "\<forall>r. \<not> anchored r (Id tb) ss \<and> \<not> anchored r (Id tb) ss'"
  | ss' p pb cs where "MoveBlocksUnderTheTable tb ids ss = Some (Inr (), ss')" "ss' \<noteq> []" "Pick ss p = Some pb"
    "Id tb \<in> set (ChildrenIds pb)" "Pick ss' = (Pick ss)(p \<mapsto> pb\<lparr>ChildrenIds := cs\<rparr>)" "set cs = set (ChildrenIds pb) \<union> set ids"
    "\<forall>r. (rooted ss r \<longrightarrow> rooted ss' r) \<and> (rooted ss' r \<longrightarrow> reach ss r p)"
proof (cases "fst (PickParentOf ss (Id tb))")
  case None
  then have "MoveBlocksUnderTheTable tb ids ss = Some (Inr (), snd (RootId ss))"
    using PickParentOf_state [of ss "Id tb"]
    by (cases "PickParentOf ss (Id tb)") (simp add: MoveBlocksUnderTheTable_def GetParentOf_def)
  moreover have "\<not> anchored r (Id tb) s" if s: "s = ss \<or> s = snd (RootId ss)" for r s
  proof
    assume "anchored r (Id tb) s"
    then obtain q where "RootId s = (r, s)" "acyclic_from s r" "reach s r q" "(q, Id tb) \<in> child s" by (auto simp: anchored_def)
    then have "fst (PickParentOf s (Id tb)) \<noteq> None" by (intro PickParentOf_complete) simp_all
    then show False using s None by auto
  qed
  ultimately show thesis using that(1) assms by simp
next
  case (Some pb)
  then obtain p where p: "Pick ss p = Some pb" "Id tb \<in> set (ChildrenIds pb)" "reach ss (root_of ss) p" using PickParentOf_sound by blast
  have id: "Id pb = p" using assms(1) p by (simp add: own_ids_def)
  have pp: "PickParentOf ss (Id tb) = (Some pb, snd (RootId ss))" using Some PickParentOf_state [of ss "Id tb"] by (simp add: prod_eq_iff)
  obtain s1 where s1: "Get_block (snd (RootId ss)) p = (Some pb, s1)" "Pick s1 = Pick ss" "s1 \<noteq> []" "\<forall>r. rooted s1 r = rooted (snd (RootId ss)) r"
    using Get_blockE [of "snd (RootId ss)" p pb] p by auto
  define pos where "pos = FindPos (ChildrenIds pb) (Id tb)"
  have pos: "pos \<ge> 0" using p(2) FindPos_neg [of "ChildrenIds pb" "Id tb"] by (simp add: pos_def not_less [symmetric] del: FindPos_neg)
  define cs where "cs = take (nat (pos + 1)) (ChildrenIds pb) @ ids @ drop (nat (pos + 1)) (ChildrenIds pb)"
  have "MoveBlocksUnderTheTable tb ids ss = Some (Inr (), put_block p (pb\<lparr>ChildrenIds := cs\<rparr>) s1)"
    using pos s1(1) id
    by (simp add: MoveBlocksUnderTheTable_def GetParentOf_def pp Let_def pos_def [symmetric] setChildrenIds_def cs_def)
  moreover have "set cs = set (ChildrenIds pb) \<union> set ids"
    unfolding cs_def by (metis append_take_drop_id set_append sup.left_commute sup_commute)
  moreover have "rooted (put_block p (pb\<lparr>ChildrenIds := cs\<rparr>) s1) r" if "rooted ss r" for r
    using that s1(4) rooted_RootId [OF that] by simp
  moreover have "reach ss r p" if "rooted (put_block p (pb\<lparr>ChildrenIds := cs\<rparr>) s1) r" for r
  proof -
    have "RootId (snd (RootId ss)) = (r, snd (RootId ss))" using that s1(4) by (intro rooted_RootId) simp
    then show ?thesis using p(3) by (metis RootId_idem fst_conv)
  qed
  ultimately show thesis using that(2) p s1 by simp
qed

text \<open>The cells of a row that name columns.\<close>

definition valid_cells :: "(string \<Rightarrow> nat option) \<Rightarrow> string list \<Rightarrow> string multiset" where
  "valid_cells colIdx cells = mset [i \<leftarrow> cells. cell_number colIdx i \<noteq> None]"

text \<open>What a later state keeps: the invariant, the blocks of the document, the kinds of all blocks, rows that are tidy, and the cells of
  rows that name columns.\<close>

definition table_kept :: "(string \<Rightarrow> nat option) \<Rightarrow> Block \<Rightarrow> Block \<Rightarrow> Block \<Rightarrow> State list \<Rightarrow> State list \<Rightarrow> bool" where
  "table_kept colIdx tb cb rb ss ss' \<longleftrightarrow>
     table_inv tb cb rb ss' \<and> (\<forall>r. saved r (Id tb) ss ss') \<and>
     (\<forall>x b. Pick ss x = Some b \<longrightarrow> (\<exists>b'. Pick ss' x = Some b' \<and> Content b' = Content b)) \<and>
     (\<forall>x\<in>set (ChildrenIds rb). row_at ss x \<longrightarrow>
       (tidy colIdx (kids ss x) \<longrightarrow> tidy colIdx (kids ss' x)) \<and> valid_cells colIdx (kids ss' x) = valid_cells colIdx (kids ss x))"

lemma kinds_kept:
  assumes "\<forall>x b. Pick ss x = Some b \<longrightarrow> (\<exists>b'. Pick ss' x = Some b' \<and> Content b' = Content b)"
  shows "row_at ss x \<Longrightarrow> row_at ss' x" "column_at ss x \<Longrightarrow> column_at ss' x"
  using assms [rule_format, of x] by (cases "Pick ss x"; fastforce simp: row_at_def column_at_def is_table_row_def)+

lemma table_kept_trans:
  assumes "table_kept colIdx tb cb rb a b" "table_kept colIdx tb cb rb b c"
  shows "table_kept colIdx tb cb rb a c"
proof -
  have "row_at b x" if "row_at a x" for x using assms(1) that unfolding table_kept_def by (blast intro: kinds_kept(1))
  moreover have "saved r (Id tb) a c" for r using assms saved_trans [of r "Id tb" a b c] unfolding table_kept_def by blast
  ultimately show ?thesis using assms unfolding table_kept_def by fastforce
qed

interpretation tk: kept "table_inv tb cb rb" "table_kept colIdx tb cb rb" for colIdx tb cb rb
proof
  show "table_kept colIdx tb cb rb ss ss" if "table_inv tb cb rb ss" for ss using that by (simp add: table_kept_def)
  show "table_kept colIdx tb cb rb a c" if "table_kept colIdx tb cb rb a b" "table_kept colIdx tb cb rb b c" for a b c
    using that by (rule table_kept_trans)
  show "table_inv tb cb rb b" if "table_kept colIdx tb cb rb a b" for a b using that by (simp add: table_kept_def)
qed

lemma table_kept_same:
  "table_inv tb cb rb ss \<Longrightarrow> Pick ss' = Pick ss \<Longrightarrow> ss' \<noteq> [] \<Longrightarrow> (\<And>r. saved r (Id tb) ss ss') \<Longrightarrow> table_kept colIdx tb cb rb ss ss'"
  using links_cong [of ss' ss] by (simp add: table_kept_def table_inv_def kids_def)

lemma table_kept_update:
  assumes "table_inv tb cb rb ss" "Pick ss x = Some b" "Pick ss' = (Pick ss)(x \<mapsto> b\<lparr>ChildrenIds := cs\<rparr>)" "ss' \<noteq> []"
    "x \<notin> {Id tb, Id cb, Id rb}" "\<And>c. c \<in> set cs \<Longrightarrow> (x, c) \<in> (child ss)\<^sup>+"
    "x \<in> set (ChildrenIds rb) \<Longrightarrow> tidy colIdx cs \<and> valid_cells colIdx cs = valid_cells colIdx (ChildrenIds b)"
    "\<And>r. saved r (Id tb) ss ss'"
  shows "table_kept colIdx tb cb rb ss ss'"
proof -
  note i = table_invD [OF assms(1)]
  have "own_ids ss'" using own_ids_children [OF i(2) assms(2,3)] .
  moreover have "(Id tb, Id tb) \<notin> (child ss')\<^sup>+" using no_new_cycle [OF i(3) child_update [OF assms(2,3,6)]] by simp
  ultimately have "table_inv tb cb rb ss'" using i assms(3-5) by (auto simp: table_inv_def)
  moreover have "(tidy colIdx (kids ss y) \<longrightarrow> tidy colIdx (kids ss' y)) \<and> valid_cells colIdx (kids ss' y) = valid_cells colIdx (kids ss y)"
    if "y \<in> set (ChildrenIds rb)" for y
    using that assms(2,3,7) by (cases "y = x") (auto simp: kids_def)
  ultimately show ?thesis using assms(2,3,8) by (simp add: table_kept_def)
qed

lemma table_kept_add:
  assumes "table_inv tb cb rb ss" "Pick ss (Id b) = None" "ChildrenIds b = []"
  shows "table_kept colIdx tb cb rb ss (put_block (Id b) b ss)"
proof -
  note i = table_invD [OF assms(1)]
  have P: "Pick (put_block (Id b) b ss) = (Pick ss)(Id b \<mapsto> b)" using i(1) by simp
  have c: "child (put_block (Id b) b ss) \<subseteq> (child ss)\<^sup>+"
    using assms P by (auto elim!: childE split: if_splits intro!: r_into_trancl childI)
  have "child ss \<subseteq> child (put_block (Id b) b ss)" using assms(2) P by (auto simp: child_def)
  then have "saved r (Id tb) ss (put_block (Id b) b ss)" for r by (rule saved_grow [OF _ c]) simp
  moreover have "own_ids (put_block (Id b) b ss)" using own_ids_upd [OF i(2) P] by simp
  moreover from this have "table_inv tb cb rb (put_block (Id b) b ss)"
    using i assms(2) no_new_cycle [OF i(3) c] by (auto simp: table_inv_def)
  moreover have "kids (put_block (Id b) b ss) y = kids ss y" if "row_at ss y" for y
    using that assms(2) P by (auto simp: kids_def row_at_def split: option.splits)
  ultimately show ?thesis using assms(2) P by (auto simp: table_kept_def)
qed

lemma MoveBlocks_kept:
  assumes "table_inv tb cb rb ss" "\<And>c. c \<in> set ids \<Longrightarrow> (Id tb, c) \<in> (child ss)\<^sup>+"
  shows "\<exists>ss'. MoveBlocksUnderTheTable tb ids ss = Some (Inr (), ss') \<and> table_kept colIdx tb cb rb ss ss' \<and>
    (\<forall>x. Id tb \<notin> set (kids ss x) \<longrightarrow> Pick ss' x = Pick ss x) \<and> (\<forall>r c. c \<in> set ids \<longrightarrow> anchored r (Id tb) ss' \<longrightarrow> parked r (Id tb) ss' c)"
proof (rule MoveBlocks_under [OF table_invD(2,1) [OF assms(1)], of tb ids])
  fix ss' assume "MoveBlocksUnderTheTable tb ids ss = Some (Inr (), ss')" "ss' \<noteq> []" "Pick ss' = Pick ss"
    "\<forall>r. \<not> anchored r (Id tb) ss \<and> \<not> anchored r (Id tb) ss'"
  then show ?thesis using table_kept_same [OF assms(1), of ss'] by (auto simp: saved_def)
next
  fix ss' p pb cs
  assume m: "MoveBlocksUnderTheTable tb ids ss = Some (Inr (), ss')" "ss' \<noteq> []" "Pick ss p = Some pb"
    "Id tb \<in> set (ChildrenIds pb)" "Pick ss' = (Pick ss)(p \<mapsto> pb\<lparr>ChildrenIds := cs\<rparr>)" "set cs = set (ChildrenIds pb) \<union> set ids"
    "\<forall>r. (rooted ss r \<longrightarrow> rooted ss' r) \<and> (rooted ss' r \<longrightarrow> reach ss r p)"
  have p: "(p, Id tb) \<in> child ss" using m by auto
  have links: "(p, c) \<in> (child ss)\<^sup>+" if "c \<in> set cs" for c
    using that m(3,6) p assms(2) [of c] by (auto intro: trancl_into_trancl2)
  have grow: "child ss \<subseteq> child ss'" using m(3,5,6) by (auto simp: child_def)
  then have s: "saved r (Id tb) ss ss'" for r
    using m(7) by (intro saved_grow [OF _ child_update [OF m(3,5) links]]) auto
  have "parked r (Id tb) ss' c" if "c \<in> set ids" "anchored r (Id tb) ss'" for r c
  proof -
    have "reach ss r p" using that(2) m(7) unfolding anchored_def by blast
    then have "reach ss' r p" using rtrancl_mono [OF grow] by (auto simp: reach_def)
    then show ?thesis using that(1) m(4-6) unfolding parked_def by (auto simp: child_def)
  qed
  moreover have "table_kept colIdx tb cb rb ss ss'"
    using table_kept_update [OF assms(1) m(3,5,2) _ links _ s] table_inv_above [OF assms(1), of p] m(3,4) by auto
  ultimately show ?thesis using m by auto
qed

lemma sorts_tidy:
  assumes "sorts sorter" and cells: "cells = row_cells colIdx ids"
  shows "tidy colIdx (map snd (sorter cells))" "set (map snd (sorter cells)) \<subseteq> set ids"
    "valid_cells colIdx (map snd (sorter cells)) = valid_cells colIdx ids"
proof -
  have m: "mset (sorter cells) = mset cells" using assms(1) unfolding sorts_def by blast
  have s: "set (sorter cells) = set cells" "sorted (map fst (sorter cells))"
    using assms(1) unfolding sorts_def by (metis set_mset_mset)+
  have c: "cell_number colIdx i = Some n \<and> i \<in> set ids" if "(n, i) \<in> set (sorter cells)" for n i
    using that s(1) by (auto simp: cells row_cells_def)
  have "map (\<lambda>i. the (cell_number colIdx i)) (map snd (sorter cells)) = map fst (sorter cells)"
    unfolding map_map by (rule map_cong) (auto dest: c)
  moreover have "list_all (\<lambda>i. cell_number colIdx i \<noteq> None) (map snd (sorter cells))"
    using c by (auto simp: list_all_iff)
  ultimately show "tidy colIdx (map snd (sorter cells))" using s(2) unfolding tidy_def by metis
  show "set (map snd (sorter cells)) \<subseteq> set ids" using c by fastforce
  have "mset (map snd (sorter cells)) = mset (map snd cells)" using m by (simp only: mset_map)
  then show "valid_cells colIdx (map snd (sorter cells)) = valid_cells colIdx ids"
    unfolding valid_cells_def mset_filter by (simp add: cells row_cells_def comp_def filter_filter_mset)
qed

lemma set_block_run:
  assumes "Pick ss i = Some b"
  obtains ss' where "set_block i f ss = Some (Inr (), ss')" "Pick ss' = (Pick ss)(i \<mapsto> f b)" "ss' \<noteq> []" "\<forall>r. rooted ss' r = rooted ss r"
proof -
  obtain s1 where "Get_block ss i = (Some b, s1)" "Pick s1 = Pick ss" "s1 \<noteq> []" "\<forall>r. rooted s1 r = rooted ss r" using Get_blockE [OF assms] by metis
  then show thesis by (intro that [of "put_block i (f b) s1"]) (simp_all add: set_block_def)
qed

lemma row_block:
  assumes "table_inv tb cb rb ss" "row_at ss x"
  obtains b where "Pick ss x = Some b" "is_table_row b" "x \<notin> {Id tb, Id cb, Id rb}"
proof -
  obtain b where b: "Pick ss x = Some b" "is_table_row b" using assms(2) by (auto simp: row_at_def split: option.splits)
  moreover have "x \<notin> {Id tb, Id cb, Id rb}" using b table_invD [OF assms(1)] by (auto simp: is_table_row_def)
  ultimately show thesis using that by blast
qed

lemma normalizeRow_kept:
  assumes "table_inv tb cb rb ss" "x \<in> set (ChildrenIds rb)" "row_at ss x" "sorts sorter"
  shows "\<exists>ss'. normalizeRow sorter tb colIdx x ss = Some (Inr (), ss') \<and> table_kept colIdx tb cb rb ss ss' \<and> tidy colIdx (kids ss' x)"
proof -
  obtain b where b: "Pick ss x = Some b" "is_table_row b" "x \<notin> {Id tb, Id cb, Id rb}" using row_block [OF assms(1,3)] .
  define toRemove where "toRemove = [i \<leftarrow> ChildrenIds b. cell_number colIdx i = None]"
  define cells where "cells = row_cells colIdx (ChildrenIds b)"
  note t = sorts_tidy [OF assms(4) cells_def]
  note l = table_inv_links [OF assms(1)]
  have x: "(Id tb, x) \<in> (child ss)\<^sup>+" using l(2,3) assms(2) by (meson trancl.intros)
  have n: "normalizeRow sorter tb colIdx x ss =
      (if toRemove \<noteq> [] \<or> sorter cells \<noteq> cells
       then seq (MoveBlocksUnderTheTable tb toRemove) (\<lambda>_. set_block x (\<lambda>b. setChildrenIds b (map snd (sorter cells)))) ss
       else Some (Inr (), ss))"
    unfolding normalizeRow_def by (simp add: b(1) toRemove_def [symmetric] cells_def [symmetric] Let_def)
  show ?thesis
  proof (cases "toRemove \<noteq> [] \<or> sorter cells \<noteq> cells")
    case False
    then have "map snd cells = ChildrenIds b"
      by (simp add: cells_def row_cells_def toRemove_def comp_def filter_empty_conv filter_id_conv)
    then have "tidy colIdx (ChildrenIds b)" using False t(1) by simp
    then show ?thesis using n False b(1) tk.kept_refl [OF assms(1)] by auto
  next
    case True
    have "(Id tb, c) \<in> (child ss)\<^sup>+" if "c \<in> set toRemove" for c
      using x that b(1) by (auto simp: toRemove_def intro: trancl_into_trancl)
    then obtain s1 where s1: "MoveBlocksUnderTheTable tb toRemove ss = Some (Inr (), s1)" "table_kept colIdx tb cb rb ss s1"
        "\<forall>x. Id tb \<notin> set (kids ss x) \<longrightarrow> Pick s1 x = Pick ss x" "\<forall>r c. c \<in> set toRemove \<longrightarrow> anchored r (Id tb) s1 \<longrightarrow> parked r (Id tb) s1 c"
      using MoveBlocks_kept [OF assms(1), of toRemove colIdx] by blast
    have "Id tb \<notin> set (kids ss x)" using table_inv_above(4) [OF assms(1), of x] assms(2) by blast
    then have b1: "Pick s1 x = Some b" using s1(3) b(1) by simp
    obtain s2 where s2: "set_block x (\<lambda>b. setChildrenIds b (map snd (sorter cells))) s1 = Some (Inr (), s2)"
        "Pick s2 = (Pick s1)(x \<mapsto> b\<lparr>ChildrenIds := map snd (sorter cells)\<rparr>)" "s2 \<noteq> []" "\<forall>r. rooted s2 r = rooted s1 r"
      using set_block_run [OF b1, of "\<lambda>b. setChildrenIds b (map snd (sorter cells))"] by (auto simp: setChildrenIds_def)
    have cut: "c \<in> set toRemove" if c: "c \<in> set (ChildrenIds b) - set (map snd (sorter cells))" for c
    proof -
      have "c \<notin># valid_cells colIdx (map snd (sorter cells))" using c unfolding valid_cells_def by simp
      then have "c \<notin># valid_cells colIdx (ChildrenIds b)" using t(3) by simp
      then show ?thesis using c by (simp add: toRemove_def valid_cells_def)
    qed
    have sv: "saved r (Id tb) s1 s2" for r
    proof (rule saved_cut [OF b1 s2(2)])
      show "(x, c) \<in> (child s1)\<^sup>+" if "c \<in> set (map snd (sorter cells))" for c using that t(2) b1 by auto
      show "(Id tb, Id tb) \<notin> (child s1)\<^sup>+" using table_invD(3) [OF tk.kept_inv [OF s1(2)]] .
      show "(Id tb, x) \<in> (child s1)\<^sup>+" using table_inv_links [OF tk.kept_inv [OF s1(2)]] assms(2) by (meson trancl.intros)
    qed (use s2(4) s1(4) cut in auto)
    have "table_kept colIdx tb cb rb s1 s2"
      using t b1 by (intro table_kept_update [OF tk.kept_inv [OF s1(2)] b1 s2(2,3) b(3) _ _ sv]) auto
    then show ?thesis
      using n True s1 s2 t(1) table_kept_trans [OF s1(2)] by (auto simp: kids_def)
  qed
qed

definition kinds :: "State list \<Rightarrow> State list \<Rightarrow> bool" where
  "kinds ss ss' \<longleftrightarrow> (\<forall>x b. Pick ss x = Some b \<longrightarrow> (\<exists>b'. Pick ss' x = Some b' \<and> Content b' = Content b))"

lemma kinds_simps [simp, intro]:
  "kinds ss ss" "Pick ss' = Pick ss \<Longrightarrow> kinds ss ss'" "table_kept colIdx tb cb rb ss ss' \<Longrightarrow> kinds ss ss'"
  "Pick ss x = Some b \<Longrightarrow> Pick ss' = (Pick ss)(x \<mapsto> b\<lparr>ChildrenIds := cs\<rparr>) \<Longrightarrow> kinds ss ss'"
  by (auto simp: kinds_def table_kept_def)

lemma kinds_trans: "kinds a b \<Longrightarrow> kinds b c \<Longrightarrow> kinds a c"
  unfolding kinds_def by metis

lemma kinds_at:
  "kinds ss ss' \<Longrightarrow> row_at ss x \<Longrightarrow> row_at ss' x" "kinds ss ss' \<Longrightarrow> column_at ss x \<Longrightarrow> column_at ss' x"
  unfolding kinds_def by (rule kinds_kept, assumption, assumption)+

text \<open>The children of a layout may be replaced by descendants of it.\<close>

lemma table_inv_distinct:
  assumes "table_inv tb cb rb ss"
  shows "Id cb \<noteq> Id tb" "Id rb \<noteq> Id tb" "Id cb \<noteq> Id rb"
proof -
  note i = table_invD [OF assms]
  have "cb \<noteq> tb" "rb \<noteq> tb" "cb \<noteq> rb" using i(7-9) by (auto simp: layout_TableColumns_def layout_TableRows_def)
  then show "Id cb \<noteq> Id tb" "Id rb \<noteq> Id tb" "Id cb \<noteq> Id rb" using i(4-6) by (metis option.inject)+
qed

lemma table_inv_set_children:
  assumes "table_inv tb cb rb ss" "Pick ss x = Some b" "Pick ss' = (Pick ss)(x \<mapsto> b\<lparr>ChildrenIds := cs\<rparr>)" "ss' \<noteq> []"
    "x \<noteq> Id tb" "\<And>c. c \<in> set cs \<Longrightarrow> (x, c) \<in> (child ss)\<^sup>+"
  shows "table_inv tb (if x = Id cb then cb\<lparr>ChildrenIds := cs\<rparr> else cb) (if x = Id rb then rb\<lparr>ChildrenIds := cs\<rparr> else rb) ss'"
proof -
  note i = table_invD [OF assms(1)]
  have o: "own_ids ss'" using own_ids_children [OF i(2) assms(2,3)] .
  have c: "(Id tb, Id tb) \<notin> (child ss')\<^sup>+" using no_new_cycle [OF i(3) child_update [OF assms(2,3,6)]] by simp
  have p: "Pick ss' y = Some (if y = x then c\<lparr>ChildrenIds := cs\<rparr> else c)" if "Pick ss y = Some c" for y c
    using that assms(2,3) by auto
  then show ?thesis
    using o c i(7-12) assms(4,5) p [OF i(4)] p [OF i(5)] p [OF i(6)] table_inv_distinct [OF assms(1)]
    unfolding table_inv_def by simp
qed

text \<open>A layout may lose children or get descendants as children.\<close>

lemma table_inv_columns:
  assumes "table_inv tb cb rb ss" "Pick ss' = (Pick ss)(Id cb \<mapsto> cb\<lparr>ChildrenIds := cs\<rparr>)" "ss' \<noteq> []" "\<And>c. c \<in> set cs \<Longrightarrow> (Id cb, c) \<in> (child ss)\<^sup>+"
  shows "table_inv tb (cb\<lparr>ChildrenIds := cs\<rparr>) rb ss'" "kinds ss ss'"
  using table_inv_set_children [OF assms(1) table_invD(5) [OF assms(1)] assms(2,3)] assms(4) table_inv_distinct [OF assms(1)]
    kinds_simps(4) [OF table_invD(5) [OF assms(1)] assms(2)] by simp_all

lemma table_inv_rows:
  assumes "table_inv tb cb rb ss" "Pick ss' = (Pick ss)(Id rb \<mapsto> rb\<lparr>ChildrenIds := cs\<rparr>)" "ss' \<noteq> []" "\<And>c. c \<in> set cs \<Longrightarrow> (Id rb, c) \<in> (child ss)\<^sup>+"
  shows "table_inv tb cb (rb\<lparr>ChildrenIds := cs\<rparr>) ss'" "kinds ss ss'"
  using table_inv_set_children [OF assms(1) table_invD(6) [OF assms(1)] assms(2,3)] assms(4) table_inv_distinct [OF assms(1)]
    kinds_simps(4) [OF table_invD(6) [OF assms(1)] assms(2)] by simp_all

lemma put_in_place_Pick: "Pick ss i = Some b \<Longrightarrow> Pick (put_in_place i b' ss) = (Pick ss)(i \<mapsto> b')"
  by (induction ss) (auto simp: fun_eq_iff split: option.splits)

lemma put_in_place_Nil [simp]: "put_in_place i b ss = [] \<longleftrightarrow> ss = []"
  by (cases ss) auto

text \<open>What the repair of one child of a layout tells: whether the layout changes, and what stands in the place of the child.\<close>

definition repaired :: "(string \<Rightarrow> bool) \<Rightarrow> (string \<Rightarrow> bool) \<Rightarrow> string \<Rightarrow> bool \<times> string list \<Rightarrow> bool" where
  "repaired P G x y \<longleftrightarrow> (snd y = [x] \<and> P x) \<or> (fst y \<and> snd y = [] \<and> G x)"

lemma repaired_all:
  "list_all2 (repaired P G) xs ys \<Longrightarrow>
     list_all P (concat (map snd ys)) \<and> set (concat (map snd ys)) \<subseteq> set xs \<and> (\<not> list_ex fst ys \<longrightarrow> concat (map snd ys) = xs) \<and>
     (\<forall>c\<in>set xs - set (concat (map snd ys)). G c)"
  by (induction rule: list_all2_induct) (auto simp: repaired_def)

text \<open>The table stays anchored under the roots \<open>R\<close>, and blocks are parked under all of them.\<close>

definition all_parked :: "string set \<Rightarrow> string \<Rightarrow> State list \<Rightarrow> string \<Rightarrow> bool" where
  "all_parked R t ss c \<longleftrightarrow> (\<forall>r\<in>R. parked r t ss c)"

definition all_anchored :: "string set \<Rightarrow> string \<Rightarrow> State list \<Rightarrow> bool" where
  "all_anchored R t ss \<longleftrightarrow> (\<forall>r\<in>R. anchored r t ss)"

definition table_held :: "string set \<Rightarrow> (string \<Rightarrow> nat option) \<Rightarrow> Block \<Rightarrow> Block \<Rightarrow> Block \<Rightarrow> State list \<Rightarrow> State list \<Rightarrow> bool" where
  "table_held R colIdx tb cb rb ss ss' \<longleftrightarrow> table_kept colIdx tb cb rb ss ss' \<and> all_anchored R (Id tb) ss \<and> all_anchored R (Id tb) ss'"

lemma table_held_kept: "table_kept colIdx tb cb rb ss ss' \<Longrightarrow> all_anchored R (Id tb) ss \<Longrightarrow> table_held R colIdx tb cb rb ss ss'"
  unfolding table_held_def table_kept_def saved_def all_anchored_def by blast

lemma all_parked_held: "table_held R colIdx tb cb rb ss ss' \<Longrightarrow> all_parked R (Id tb) ss c \<Longrightarrow> all_parked R (Id tb) ss' c"
  unfolding table_held_def table_kept_def saved_def all_anchored_def all_parked_def by blast

interpretation th: kept "\<lambda>ss. table_inv tb cb rb ss \<and> all_anchored R (Id tb) ss" "table_held R colIdx tb cb rb" for R colIdx tb cb rb
  by unfold_locales (auto simp: table_held_def intro: tk.kept_refl tk.kept_trans tk.kept_inv)

lemma MoveBlocks_held:
  assumes "table_inv tb cb rb ss" "\<And>c. c \<in> set ids \<Longrightarrow> (Id tb, c) \<in> (child ss)\<^sup>+" "all_anchored R (Id tb) ss"
  shows "\<exists>ss'. MoveBlocksUnderTheTable tb ids ss = Some (Inr (), ss') \<and> table_held R colIdx tb cb rb ss ss' \<and> (\<forall>c\<in>set ids. all_parked R (Id tb) ss' c)"
proof -
  obtain ss' where s: "MoveBlocksUnderTheTable tb ids ss = Some (Inr (), ss')" "table_kept colIdx tb cb rb ss ss'"
      "\<forall>r c. c \<in> set ids \<longrightarrow> anchored r (Id tb) ss' \<longrightarrow> parked r (Id tb) ss' c"
    using MoveBlocks_kept [OF assms(1,2)] by blast
  then show ?thesis using table_held_kept [OF s(2) assms(3)] unfolding table_held_def all_anchored_def all_parked_def by blast
qed

text \<open>A layout gives up parked children.\<close>

lemma layout_cut:
  assumes "table_inv tb cb rb ss" "(Id tb, x) \<in> (child ss)\<^sup>+" "Pick ss x = Some b" "Pick ss' = (Pick ss)(x \<mapsto> b\<lparr>ChildrenIds := cs\<rparr>)"
    "\<And>r. rooted ss r \<Longrightarrow> rooted ss' r" "set cs \<subseteq> set (ChildrenIds b)" "\<forall>c\<in>set (ChildrenIds b) - set cs. all_parked R (Id tb) ss c" "r \<in> R"
  shows "saved r (Id tb) ss ss'"
proof (rule saved_cut [OF assms(3,4)])
  show "(Id tb, Id tb) \<notin> (child ss)\<^sup>+" "(Id tb, x) \<in> (child ss)\<^sup>+" using table_invD(3) [OF assms(1)] assms(2) .
  show "(x, c) \<in> (child ss)\<^sup>+" if "c \<in> set cs" for c using that assms(3,6) by auto
qed (use assms(5,7,8) in \<open>auto simp: all_parked_def\<close>)

lemma rooted_put_in_place [simp]: "rooted (put_in_place i b ss) r \<longleftrightarrow> rooted ss r"
  by (cases ss) (auto simp: rooted_def)

lemma normalize_column_kept:
  assumes "table_inv tb cb rb ss" "c \<in> set (ChildrenIds cb)" "all_anchored R (Id tb) ss"
  shows "\<exists>y ss'. normalize_column tb c ss = Some (Inr y, ss') \<and> table_held R colIdx tb cb rb ss ss' \<and>
    repaired (column_at ss') (all_parked R (Id tb) ss') c y"
proof (cases "Pick ss c")
  case None
  then have "normalize_column tb c ss = Some (Inr (True, [c]), put_block c (makeColumn c) ss)"
    by (simp add: normalize_column_def pickColumn_def Add_block_def makeColumn_def new_block_def)
  moreover have "table_kept colIdx tb cb rb ss (put_block c (makeColumn c) ss)"
    using table_kept_add [OF assms(1), of "makeColumn c"] None by (simp add: makeColumn_def new_block_def)
  ultimately show ?thesis
    using table_invD(1) [OF assms(1)] table_held_kept [OF _ assms(3)] by (auto simp: repaired_def column_at_def makeColumn_def new_block_def)
next
  case (Some b)
  show ?thesis
  proof (cases "Content b = CTableColumn")
    case True
    then show ?thesis using Some th.kept_refl [of tb cb rb ss R] assms by (auto simp: normalize_column_def pickColumn_def repaired_def column_at_def)
  next
    case False
    have "(Id tb, c) \<in> (child ss)\<^sup>+" using table_inv_links [OF assms(1)] assms(2) by (meson trancl.intros)
    then obtain s1 where "MoveBlocksUnderTheTable tb [c] ss = Some (Inr (), s1)" "table_held R colIdx tb cb rb ss s1" "all_parked R (Id tb) s1 c"
      using MoveBlocks_held [OF assms(1) _ assms(3), of "[c]" colIdx] by auto
    then show ?thesis using Some False by (auto simp: normalize_column_def pickColumn_def repaired_def)
  qed
qed

lemma normalizeColumns_ok:
  assumes "table_inv tb cb rb ss"
  shows "\<exists>ss' cb'. normalizeColumns tb ss = Some (Inr (), ss') \<and> table_inv tb cb' rb ss' \<and> kinds ss ss' \<and>
    (\<forall>r. saved r (Id tb) ss ss') \<and> list_all (column_at ss') (ChildrenIds cb')"
proof -
  define R where "R = {r. anchored r (Id tb) ss}"
  have "\<exists>ys s1. collect (normalize_column tb) (ChildrenIds cb) ss = Some (Inr ys, s1) \<and> table_held R Map.empty tb cb rb ss s1 \<and>
      list_all2 (\<lambda>x y. repaired (column_at s1) (all_parked R (Id tb) s1) x y) (ChildrenIds cb) ys"
  proof (rule th.collect_keeps, goal_cases)
    case (1 x ss)
    then show ?case by (intro normalize_column_kept) auto
  next
    case (2 x y ss ss')
    then show ?case using kinds_at(2) [of ss ss'] all_parked_held [OF 2(3)] kinds_simps(3) [of Map.empty tb cb rb ss ss']
      by (auto simp: repaired_def table_held_def)
  qed (use assms in \<open>simp add: R_def all_anchored_def\<close>)
  then obtain ys s1 where s1: "collect (normalize_column tb) (ChildrenIds cb) ss = Some (Inr ys, s1)" "table_kept Map.empty tb cb rb ss s1"
    "list_all2 (repaired (column_at s1) (all_parked R (Id tb) s1)) (ChildrenIds cb) ys" by (auto simp: table_held_def)
  note r = repaired_all [OF s1(3)] and i = tk.kept_inv [OF s1(2)]
  have n: "normalizeColumns tb ss =
      (if list_ex fst ys then Some (Inr (), put_in_place (Id cb) (cb\<lparr>ChildrenIds := concat (map snd ys)\<rparr>) s1) else Some (Inr (), s1))"
    using s1(1) table_inv_layouts [OF assms] table_inv_layouts [OF i]
    by (simp add: normalizeColumns_def ColumnIDs_def the_layout_def setChildrenIds_def)
  show ?thesis
  proof (cases "list_ex fst ys")
    case True
    define s2 where "s2 = put_in_place (Id cb) (cb\<lparr>ChildrenIds := concat (map snd ys)\<rparr>) s1"
    have P: "Pick s2 = (Pick s1)(Id cb \<mapsto> cb\<lparr>ChildrenIds := concat (map snd ys)\<rparr>)"
      unfolding s2_def by (rule put_in_place_Pick [OF table_invD(5) [OF i]])
    have "(Id cb, c) \<in> (child s1)\<^sup>+" if "c \<in> set (concat (map snd ys))" for c using that r table_inv_links(4) [OF i] by blast
    then have k: "table_inv tb (cb\<lparr>ChildrenIds := concat (map snd ys)\<rparr>) rb s2" "kinds s1 s2"
      using table_inv_columns [OF i P] table_invD(1) [OF i] by (simp_all add: s2_def)
    have "saved r (Id tb) s1 s2" if "r \<in> R" for r
      using that r table_inv_links(1) [OF i] by (intro layout_cut [OF i _ table_invD(5) [OF i] P, of R]) (auto simp: s2_def)
    then have sv: "saved r (Id tb) ss s2" for r
      using s1(2) saved_trans [of r "Id tb" ss s1 s2] unfolding table_kept_def R_def saved_def by blast
    have "list_all (column_at s2) (concat (map snd ys))" using r kinds_at(2) [OF k(2)] by (simp add: list_all_iff)
    then show ?thesis
      using n True k(1) sv kinds_trans [OF kinds_simps(3) [OF s1(2)] k(2)] unfolding s2_def [symmetric] by fastforce
  next
    case False
    moreover have "saved r (Id tb) ss s1" for r using s1(2) by (simp add: table_kept_def)
    ultimately show ?thesis using n r i s1(2) by auto
  qed
qed

lemma getRow_run:
  assumes "row_at ss x"
  obtains b ss' where "Pick ss x = Some b" "getRow x ss = Some (Inr b, ss')" "Pick ss' = Pick ss" "ss' \<noteq> []" "\<forall>r. rooted ss' r = rooted ss r"
proof -
  obtain b where b: "Pick ss x = Some b" "is_table_row b" using assms by (auto simp: row_at_def split: option.splits)
  obtain s1 where "Get_block ss x = (Some b, s1)" "Pick s1 = Pick ss" "s1 \<noteq> []" "\<forall>r. rooted s1 r = rooted ss r" using Get_blockE [OF b(1)] by metis
  then show thesis using that b by (simp add: getRow_def)
qed

lemma normalize_row_kept:
  assumes "table_inv tb cb rb ss" "x \<in> set (ChildrenIds rb)" "sorts sorter" "all_anchored R (Id tb) ss"
  shows "\<exists>y ss'. normalize_row sorter tb colIdx x ss = Some (Inr y, ss') \<and> table_held R colIdx tb cb rb ss ss' \<and>
    repaired (\<lambda>x. row_at ss' x \<and> tidy colIdx (kids ss' x)) (all_parked R (Id tb) ss') x y"
proof (cases "Pick ss x")
  case None
  have "Get_block ss x = (None, ss)" using None by (cases ss) (auto split: option.splits)
  then have "normalize_row sorter tb colIdx x ss = Some (Inr (True, [x]), put_block x (makeRow x) ss)"
    using None by (simp add: normalize_row_def getRow_def Add_block_def makeRow_def new_block_def)
  moreover have "table_kept colIdx tb cb rb ss (put_block x (makeRow x) ss)"
    using table_kept_add [OF assms(1), of "makeRow x"] None by (simp add: makeRow_def new_block_def)
  ultimately show ?thesis using table_invD(1) [OF assms(1)] table_held_kept [OF _ assms(4)]
    by (auto simp: repaired_def row_at_def kids_def tidy_def makeRow_def new_block_def is_table_row_def)
next
  case (Some b)
  obtain s1 where g: "Get_block ss x = (Some b, s1)" "Pick s1 = Pick ss" "s1 \<noteq> []" "\<forall>r. rooted s1 r = rooted ss r" using Get_blockE [OF Some] by metis
  have k: "table_kept colIdx tb cb rb ss s1" using table_kept_same [OF assms(1) g(2,3) saved_same [OF g(2)]] g(4) by simp
  note i = tk.kept_inv [OF k]
  show ?thesis
  proof (cases "is_table_row b")
    case True
    then have "row_at s1 x" using Some g(2) by (simp add: row_at_def)
    then obtain s2 where s2: "normalizeRow sorter tb colIdx x s1 = Some (Inr (), s2)" "table_kept colIdx tb cb rb s1 s2" "tidy colIdx (kids s2 x)"
      using normalizeRow_kept [OF i assms(2) _ assms(3)] by blast
    then have "row_at s2 x" using kinds_at(1) [OF kinds_simps(3) [OF s2(2)]] \<open>row_at s1 x\<close> by blast
    then show ?thesis using s2 g True table_held_kept [OF table_kept_trans [OF k s2(2)] assms(4)] by (auto simp: normalize_row_def getRow_def repaired_def)
  next
    case False
    have "(Id tb, x) \<in> (child s1)\<^sup>+" using table_inv_links [OF i] assms(2) by (meson trancl.intros)
    moreover have k1: "table_held R colIdx tb cb rb ss s1" using table_held_kept [OF k assms(4)] .
    ultimately obtain s2 where "MoveBlocksUnderTheTable tb [x] s1 = Some (Inr (), s2)" "table_held R colIdx tb cb rb s1 s2" "all_parked R (Id tb) s2 x"
      using MoveBlocks_held [OF i, of "[x]" R colIdx] th.kept_inv [OF k1] by auto
    then show ?thesis using g False th.kept_trans [OF k1] by (auto simp: normalize_row_def getRow_def repaired_def)
  qed
qed

lemma normalizeRows_ok:
  assumes "table_inv tb cb rb ss" "sorts sorter"
  shows "\<exists>ss' rb'. normalizeRows sorter tb ss = Some (Inr (), ss') \<and> table_inv tb cb rb' ss' \<and> kinds ss ss' \<and> (\<forall>r. saved r (Id tb) ss ss') \<and>
    list_all (\<lambda>x. row_at ss' x \<and> tidy (column_index (ChildrenIds cb)) (kids ss' x)) (ChildrenIds rb')"
proof -
  define colIdx where "colIdx = column_index (ChildrenIds cb)"
  define good where "good s x \<longleftrightarrow> row_at s x \<and> tidy colIdx (kids s x)" for s x
  define R where "R = {r. anchored r (Id tb) ss}"
  have "\<exists>ys s1. collect (normalize_row sorter tb colIdx) (ChildrenIds rb) ss = Some (Inr ys, s1) \<and> table_held R colIdx tb cb rb ss s1 \<and>
      list_all2 (\<lambda>x y. repaired (good s1) (all_parked R (Id tb) s1) x y) (ChildrenIds rb) ys"
  proof (rule th.collect_keeps, goal_cases)
    case (1 x ss)
    then show ?case unfolding good_def using assms(2) by (intro normalize_row_kept) auto
  next
    case (2 x y ss ss')
    then have "table_kept colIdx tb cb rb ss ss'" by (simp add: table_held_def)
    then have "good ss x \<longrightarrow> good ss' x" using kinds_at(1) [OF kinds_simps(3)] 2(1) unfolding good_def table_kept_def by blast
    then show ?case using 2(2) all_parked_held [OF 2(3)] by (auto simp: repaired_def)
  qed (use assms in \<open>simp add: R_def all_anchored_def\<close>)
  then obtain ys s1 where s1: "collect (normalize_row sorter tb colIdx) (ChildrenIds rb) ss = Some (Inr ys, s1)"
    "table_kept colIdx tb cb rb ss s1" "list_all2 (repaired (good s1) (all_parked R (Id tb) s1)) (ChildrenIds rb) ys" by (auto simp: table_held_def)
  note r = repaired_all [OF s1(3)] and i = tk.kept_inv [OF s1(2)]
  have n: "normalizeRows sorter tb ss =
      (if list_ex fst ys then Some (Inr (), put_in_place (Id rb) (rb\<lparr>ChildrenIds := concat (map snd ys)\<rparr>) s1) else Some (Inr (), s1))"
    using s1(1) table_inv_layouts [OF assms(1)] table_inv_layouts [OF i]
    by (simp add: normalizeRows_def MakeColumnIndex_def ColumnIDs_def RowIDs_def the_layout_def setChildrenIds_def colIdx_def)
  have "\<exists>ss' rb'. normalizeRows sorter tb ss = Some (Inr (), ss') \<and> table_inv tb cb rb' ss' \<and> kinds ss ss' \<and> (\<forall>r. saved r (Id tb) ss ss') \<and>
    list_all (good ss') (ChildrenIds rb')"
  proof (cases "list_ex fst ys")
    case True
    define s2 where "s2 = put_in_place (Id rb) (rb\<lparr>ChildrenIds := concat (map snd ys)\<rparr>) s1"
    have P: "Pick s2 = (Pick s1)(Id rb \<mapsto> rb\<lparr>ChildrenIds := concat (map snd ys)\<rparr>)"
      unfolding s2_def by (rule put_in_place_Pick [OF table_invD(6) [OF i]])
    have "(Id rb, c) \<in> (child s1)\<^sup>+" if "c \<in> set (concat (map snd ys))" for c using that r table_inv_links(3) [OF i] by blast
    then have k: "table_inv tb cb (rb\<lparr>ChildrenIds := concat (map snd ys)\<rparr>) s2" "kinds s1 s2"
      using table_inv_rows [OF i P] table_invD(1) [OF i] by (simp_all add: s2_def)
    have "good s2 x" if "good s1 x" for x
    proof -
      have "x \<noteq> Id rb" using that row_block [OF i, of x] unfolding good_def by blast
      then show ?thesis using that P unfolding good_def row_at_def kids_def by simp
    qed
    then have "list_all (good s2) (concat (map snd ys))" using r by (simp add: list_all_iff)
    then have "list_all (good s2) (ChildrenIds (rb\<lparr>ChildrenIds := concat (map snd ys)\<rparr>))" by simp
    moreover have "normalizeRows sorter tb ss = Some (Inr (), s2)" using n True by (simp add: s2_def)
    moreover have "saved r (Id tb) s1 s2" if "r \<in> R" for r
      using that r table_inv_links(2) [OF i] by (intro layout_cut [OF i _ table_invD(6) [OF i] P, of R]) (auto simp: s2_def)
    then have "saved r (Id tb) ss s2" for r
      using s1(2) saved_trans [of r "Id tb" ss s1 s2] unfolding table_kept_def R_def saved_def by blast
    ultimately show ?thesis using k(1) kinds_trans [OF kinds_simps(3) [OF s1(2)] k(2)] by blast
  next
    case False
    moreover have "saved r (Id tb) ss s1" for r using s1(2) by (simp add: table_kept_def)
    ultimately show ?thesis using n r i s1(2) by auto
  qed
  then show ?thesis unfolding good_def colIdx_def .
qed

lemma pick_headers:
  "list_all (row_at ss) ids \<Longrightarrow>
     collect (\<lambda>rowID. seq (pickRow rowID) (\<lambda>row. ok (IsHeader row, rowID))) ids ss = Some (Inr (map (\<lambda>r. (header_at ss r, r)) ids), ss)"
proof (induction ids)
  case (Cons x ids)
  then obtain b where "Pick ss x = Some b" "is_table_row b" by (auto simp: row_at_def split: option.splits)
  then show ?case using Cons by (simp add: pickRow_def header_at_def)
qed simp

lemma normalizeHeaderRows_ok:
  assumes "table_inv tb cb rb ss" "list_all (row_at ss) (ChildrenIds rb)"
  obtains ss' where "normalizeHeaderRows tb ss = Some (Inr (), ss')" "ss' \<noteq> []"
    "Pick ss' = (Pick ss)(Id rb \<mapsto> rb\<lparr>ChildrenIds := [r \<leftarrow> ChildrenIds rb. header_at ss r] @ [r \<leftarrow> ChildrenIds rb. \<not> header_at ss r]\<rparr>)"
    "\<forall>r. rooted ss' r = rooted ss r"
proof -
  obtain s1 where s1: "Get_block ss (Id rb) = (Some rb, s1)" "Pick s1 = Pick ss" "s1 \<noteq> []" "\<forall>r. rooted s1 r = rooted ss r"
    using Get_blockE [OF table_invD(6) [OF assms(1)]] by metis
  have at: "row_at s1 = row_at ss" "header_at s1 = header_at ss" using s1(2) by (auto simp: row_at_def header_at_def fun_eq_iff)
  define cs where "cs = [r \<leftarrow> ChildrenIds rb. header_at ss r] @ [r \<leftarrow> ChildrenIds rb. \<not> header_at ss r]"
  obtain s2 where s2: "set_block (Id rb) (\<lambda>b. setChildrenIds b cs) s1 = Some (Inr (), s2)"
      "Pick s2 = (Pick s1)(Id rb \<mapsto> setChildrenIds rb cs)" "s2 \<noteq> []" "\<forall>r. rooted s2 r = rooted s1 r"
    using set_block_run [of s1 "Id rb" rb "\<lambda>b. setChildrenIds b cs"] table_invD(6) [OF assms(1)] s1(2) by auto
  have "normalizeHeaderRows tb ss = Some (Inr (), s2)"
    using s1(1) s2(1) pick_headers [of s1 "ChildrenIds rb"] at assms(2) table_inv_layouts(2) [OF assms(1)]
    by (simp add: normalizeHeaderRows_def the_layout_def get_block_def cs_def filter_map comp_def)
  then show thesis using that s2 s1(2,4) by (simp add: setChildrenIds_def cs_def)
qed

text \<open>
  Groups (div layouts) in a table: a block has no group among its children, or all its children are groups without further
  groups. Then taking the groups apart loses nothing but the groups. A child that stands beside a group is lost
  (\<open>beside_group_lost\<close>).
\<close>

definition group_at :: "State list \<Rightarrow> string \<Rightarrow> bool" where
  "group_at ss i = (case Pick ss i of Some b \<Rightarrow> isDivLayout b | None \<Rightarrow> False)"

definition no_groups :: "State list \<Rightarrow> string \<Rightarrow> bool" where
  "no_groups ss i = list_all (\<lambda>c. \<not> group_at ss c) (kids ss i)"

definition flat_groups :: "State list \<Rightarrow> string \<Rightarrow> bool" where
  "flat_groups ss i \<longleftrightarrow> no_groups ss i \<or> list_all (\<lambda>c. group_at ss c \<and> no_groups ss c) (kids ss i)"

definition ungrouped :: "string set \<Rightarrow> string \<Rightarrow> State list \<Rightarrow> State list \<Rightarrow> bool" where
  "ungrouped B t ss ss' \<longleftrightarrow> child ss' \<subseteq> (child ss)\<^sup>+ \<and> group_at ss' = group_at ss \<and>
     ((\<forall>i\<in>B. flat_groups ss i) \<longrightarrow> (\<forall>i\<in>B. flat_groups ss' i) \<and>
       (\<forall>r. anchored r t ss \<longrightarrow> anchored r t ss' \<and> (\<forall>x. reach ss r x \<and> \<not> group_at ss x \<longrightarrow> reach ss' r x)))"

lemma ungrouped_refl [simp]: "ungrouped B t ss ss"
  unfolding ungrouped_def by auto

lemma ungrouped_trans:
  assumes "ungrouped B t a b" "ungrouped B t b c"
  shows "ungrouped B t a c"
proof -
  have "child c \<subseteq> ((child a)\<^sup>+)\<^sup>+" using assms unfolding ungrouped_def by (meson order_trans trancl_mono_subset)
  then show ?thesis using assms unfolding ungrouped_def by (auto simp: trancl_id)
qed

lemma reach_ungrouped:
  assumes "reach ss r y" "\<And>c. (i, c) \<in> child ss \<Longrightarrow> group_at ss c" "\<And>z. z \<noteq> i \<Longrightarrow> Pick ss' z = Pick ss z"
    "\<And>d c. (i, d) \<in> child ss \<Longrightarrow> (d, c) \<in> child ss \<Longrightarrow> (i, c) \<in> child ss'"
  shows "reach ss' r y \<or> (i, y) \<in> child ss \<and> reach ss' r i"
  using assms(1) unfolding reach_def
proof (induction rule: rtrancl_induct)
  case (step y z)
  have "(y, z) \<in> child ss'" if "y \<noteq> i" using that step.hyps(2) assms(3) by (simp add: child_def)
  then show ?case using step.IH step.hyps(2) assms(4) by (cases "y = i") (auto intro: rtrancl_into_rtrancl)
qed simp

lemma kids_upd: "Pick ss' = (Pick ss)(i \<mapsto> b\<lparr>ChildrenIds := cs\<rparr>) \<Longrightarrow> kids ss' x = (if x = i then cs else kids ss x)"
  by (simp add: kids_def)

lemma flat_groups_cut:
  assumes "Pick ss i = Some b" "Pick ss' = (Pick ss)(i \<mapsto> b\<lparr>ChildrenIds := cs\<rparr>)" "flat_groups ss i" "\<not> no_groups ss i"
    "set cs = {c. \<exists>d\<in>set (ChildrenIds b). group_at ss d \<and> c \<in> set (kids ss d)}" "flat_groups ss j"
  shows "flat_groups ss' j" "group_at ss' = group_at ss"
proof -
  show g: "group_at ss' = group_at ss" using assms(1,2) by (auto simp: group_at_def isDivLayout_def fun_eq_iff)
  have all: "group_at ss d \<and> no_groups ss d" if "d \<in> set (kids ss i)" for d using that assms(3,4) by (auto simp: flat_groups_def list_all_iff)
  have "no_groups ss' i" using all assms(1,5) g by (auto simp: no_groups_def list_all_iff kids_upd [OF assms(2)])
  moreover have "no_groups ss' x" if "no_groups ss x" "x \<noteq> i" for x using that g by (simp add: no_groups_def kids_upd [OF assms(2)])
  ultimately show "flat_groups ss' j"
    using assms(4,6) unfolding flat_groups_def list_all_iff g kids_upd [OF assms(2)] by metis
qed

interpretation dk: kept "\<lambda>ss. \<exists>cb rb. table_inv tb cb rb ss"
  "\<lambda>ss ss'. (\<exists>cb rb. table_inv tb cb rb ss') \<and> kinds ss ss' \<and> ungrouped B (Id tb) ss ss'" for tb B
  by unfold_locales (auto intro: kinds_trans ungrouped_trans)

lemma ungrouped_cut:
  assumes "Pick ss i = Some b" "Pick ss' = (Pick ss)(i \<mapsto> b\<lparr>ChildrenIds := cs\<rparr>)" "i \<in> B" "\<not> no_groups ss i"
    "set cs = {c. \<exists>d\<in>set (ChildrenIds b). group_at ss d \<and> c \<in> set (kids ss d)}" "\<And>r. rooted ss r \<Longrightarrow> rooted ss' r"
    "\<And>c. c \<in> set cs \<Longrightarrow> (i, c) \<in> (child ss)\<^sup>+" "\<not> group_at ss t"
  shows "ungrouped B t ss ss'"
proof -
  have c: "child ss' \<subseteq> (child ss)\<^sup>+" using child_update [OF assms(1,2,7)] .
  have g: "group_at ss' = group_at ss" using assms(1,2) by (auto simp: group_at_def isDivLayout_def fun_eq_iff)
  have "(\<forall>i\<in>B. flat_groups ss' i) \<and> (\<forall>r. anchored r t ss \<longrightarrow> anchored r t ss' \<and> (\<forall>x. reach ss r x \<and> \<not> group_at ss x \<longrightarrow> reach ss' r x))"
    if flat: "\<forall>i\<in>B. flat_groups ss i"
  proof (intro conjI allI impI)
    have all: "group_at ss d" if "(i, d) \<in> child ss" for d
      using that flat assms(3,4) by (auto simp: flat_groups_def list_all_iff child_kids)
    have new: "(i, c) \<in> child ss'" if "(i, d) \<in> child ss" "(d, c) \<in> child ss" for d c
      using that all [OF that(1)] assms(1,5) by (auto simp: child_kids kids_upd [OF assms(2)])
    have stays: "reach ss' r y \<or> (i, y) \<in> child ss \<and> reach ss' r i" if "reach ss r y" for r y
      using reach_ungrouped [OF that all _ new] assms(2) by simp
    show "\<forall>j\<in>B. flat_groups ss' j" using flat_groups_cut(1) [OF assms(1,2) _ assms(4,5)] flat assms(3) by blast
    fix r assume a: "anchored r t ss"
    then obtain q where q: "reach ss r q" "(q, t) \<in> child ss" by (auto simp: anchored_def)
    have "\<exists>q. reach ss' r q \<and> (q, t) \<in> child ss'"
    proof (cases "reach ss' r q")
      case True
      moreover have "q \<noteq> i" using q(2) all assms(8) by blast
      then have "(q, t) \<in> child ss'" using q(2) assms(2) by (simp add: child_def)
      ultimately show ?thesis by blast
    next
      case False
      then show ?thesis using stays [OF q(1)] new [OF _ q(2)] by blast
    qed
    then show "anchored r t ss'" using a assms(6) acyclic_from_below [OF _ c] unfolding anchored_def by blast
    show "reach ss' r x" if "reach ss r x \<and> \<not> group_at ss x" for x using that stays all by blast
  qed
  then show ?thesis using c g unfolding ungrouped_def by blast
qed

lemma destructureDivs_ok:
  assumes "table_inv tb cb rb ss" "i \<noteq> Id tb" "i \<in> B"
  shows "\<exists>ss'. destructureDivs i ss = Some (Inr (), ss') \<and> (\<exists>cb rb. table_inv tb cb rb ss') \<and> kinds ss ss' \<and> ungrouped B (Id tb) ss ss'"
proof (cases "Pick ss i")
  case None
  then show ?thesis using assms(1) by (auto simp: destructureDivs_def)
next
  case (Some b)
  define divs where "divs = filter isDivLayout (List.map_filter (Pick ss) (ChildrenIds b))"
  define cs where "cs = concat (map ChildrenIds divs)"
  obtain s1 where s1: "set_block i (\<lambda>b. b\<lparr>ChildrenIds := cs\<rparr>) ss = Some (Inr (), s1)" "Pick s1 = (Pick ss)(i \<mapsto> b\<lparr>ChildrenIds := cs\<rparr>)" "s1 \<noteq> []"
      "\<forall>r. rooted s1 r = rooted ss r"
    using set_block_run [OF Some, of "\<lambda>b. b\<lparr>ChildrenIds := cs\<rparr>"] by blast
  have below: "(i, c) \<in> (child ss)\<^sup>+" if c: "c \<in> set cs" for c
  proof -
    obtain d db where d: "d \<in> set (ChildrenIds b)" "Pick ss d = Some db" "c \<in> set (ChildrenIds db)"
      using c unfolding cs_def divs_def by (auto simp: map_filter_def)
    then have "(i, d) \<in> child ss" "(d, c) \<in> child ss" using Some by auto
    then show ?thesis by (meson trancl.intros)
  qed
  have "set cs = {c. \<exists>d\<in>set (ChildrenIds b). group_at ss d \<and> c \<in> set (kids ss d)}"
    unfolding cs_def divs_def by (force simp: map_filter_def group_at_def kids_def split: option.splits)
  moreover have "\<not> no_groups ss i" if "divs \<noteq> []"
    using that Some by (force simp: divs_def map_filter_def filter_empty_conv no_groups_def group_at_def list_all_iff)
  moreover have "\<not> group_at ss (Id tb)" using table_invD(4,7) [OF assms(1)] by (simp add: group_at_def isDivLayout_def)
  ultimately have "divs \<noteq> [] \<longrightarrow> ungrouped B (Id tb) ss s1"
    using ungrouped_cut [OF Some s1(2) assms(3)] below s1(4) by blast
  moreover have "\<exists>cb rb. table_inv tb cb rb s1" using below table_inv_set_children [OF assms(1) Some s1(2,3) assms(2)] by blast
  moreover have "destructureDivs i ss = (if divs = [] then Some (Inr (), ss) else Some (Inr (), s1))"
    using s1(1) by (simp add: destructureDivs_def Some divs_def [symmetric] cs_def [symmetric])
  ultimately show ?thesis using assms(1) Some s1(2) by auto
qed

lemma NewTable_ok:
  assumes "own_ids ss" "ss \<noteq> []" "(t, t) \<notin> (child ss)\<^sup>+" "Pick ss t = Some tb" "Content tb = CTable" "has_layouts ss tb"
  shows "\<exists>ss' cb rb. NewTable t ss = Some (Inr tb, ss') \<and> table_inv tb cb rb ss' \<and> kinds ss ss' \<and> ungrouped {i. (t, i) \<in> (child ss)\<^sup>+} t ss ss'"
proof -
  have id: "Id tb = t" using assms(1,4) by (simp add: own_ids_def)
  have root: "PickTableRootBlock t ss = Some (Inr (Some tb), ss)"
    using assms(4,5) by (simp add: PickTableRootBlock_def table_root_loop.simps)
  obtain cb rb where l: "Columns tb ss = Some cb" "Rows tb ss = Some rb" using assms(6) by (auto simp: has_layouts_def)
  have inv: "table_inv tb cb rb ss"
    using assms l id unfolding table_inv_def has_layouts_def Columns_def Rows_def child_layout_def own_ids_def
    by (auto split: option.splits if_splits)
  define B where "B = {i. (Id tb, i) \<in> (child ss)\<^sup>+}"
  have i: "\<exists>cb rb. table_inv tb cb rb ss" and ne: "Id rb \<noteq> Id tb" "Id cb \<noteq> Id tb" "Id rb \<in> B" "Id cb \<in> B"
    using inv table_inv_distinct [OF inv] table_inv_links [OF inv] unfolding B_def by blast+
  obtain s1 where s1: "destructureDivs (Id rb) ss = Some (Inr (), s1)" "\<exists>cb rb. table_inv tb cb rb s1" "kinds ss s1" "ungrouped B (Id tb) ss s1"
    using i destructureDivs_ok ne by blast
  obtain s2 where s2: "destructureDivs (Id cb) s1 = Some (Inr (), s2)" "\<exists>cb rb. table_inv tb cb rb s2" "kinds s1 s2" "ungrouped B (Id tb) s1 s2"
    using s1(2) destructureDivs_ok ne by blast
  then obtain cb2 rb2 where i2: "table_inv tb cb2 rb2 s2" by blast
  have u2: "ungrouped B (Id tb) ss s2" using ungrouped_trans [OF s1(4) s2(4)] .
  have rows: "x \<noteq> Id tb \<and> x \<in> B" if "x \<in> set (ChildrenIds rb2)" for x
  proof -
    have "(Id tb, x) \<in> (child s2)\<^sup>+" using table_inv_links(2,3) [OF i2] that by (meson trancl.intros)
    moreover have "(child s2)\<^sup>+ \<subseteq> ((child ss)\<^sup>+)\<^sup>+" using u2 unfolding ungrouped_def by (intro trancl_mono_subset) blast
    ultimately show ?thesis using table_invD(3) [OF i2] by (auto simp: B_def trancl_id)
  qed
  then obtain s3 where s3: "each destructureDivs (ChildrenIds rb2) s2 = Some (Inr (), s3)" "\<exists>cb rb. table_inv tb cb rb s3" "kinds s2 s3"
      "ungrouped B (Id tb) s2 s3"
    using dk.each_keeps [of "ChildrenIds rb2" tb destructureDivs B "\<lambda>_ _. True" s2] destructureDivs_ok i2 by blast
  have "NewTable t ss = Some (Inr tb, s3)"
    using assms(6) l s1(1) s2(1) s3(1) root table_inv_layouts(2) [OF i2]
    by (simp add: NewTable_def has_layouts_def RowIDs_def the_layout_def)
  then show ?thesis
    using s3(2) kinds_trans [OF kinds_trans [OF s1(3) s2(3)] s3(3)] ungrouped_trans [OF u2 s3(4)] unfolding B_def id by blast
qed

lemma NewTable_broken:
  assumes "Pick ss t = Some tb" "Content tb = CTable" "\<not> has_layouts ss tb"
  shows "\<exists>e. NewTable t ss = Some (Inl e, ss)"
proof -
  have "PickTableRootBlock t ss = Some (Inr (Some tb), ss)" using assms by (simp add: PickTableRootBlock_def table_root_loop.simps)
  then show ?thesis using assms(3)
    by (cases "length (ChildrenIds tb) \<ge> 2"; cases "Columns tb ss"; cases "Rows tb ss") (simp_all add: NewTable_def has_layouts_def)
qed

lemma headers_first:
  "(\<forall>x\<in>set xs. h x) \<Longrightarrow> (\<forall>y\<in>set ys. \<not> h y) \<Longrightarrow> sorted (map (\<lambda>r. if h r then 0 else 1 :: nat) (xs @ ys))"
proof (induction xs)
  case Nil
  then show ?case by (induction ys) auto
qed auto

text \<open>The last step puts the table in order.\<close>

lemma normalizeHeaderRows_order:
  assumes i3: "table_inv tb cb rb ss" and cols: "list_all (column_at ss) (ChildrenIds cb)"
    and good: "list_all (\<lambda>x. row_at ss x \<and> tidy (column_index (ChildrenIds cb)) (kids ss x)) (ChildrenIds rb)"
  shows "\<exists>ss'. normalizeHeaderRows tb ss = Some (Inr (), ss') \<and> table_ok ss' (Id tb) \<and> kinds ss ss' \<and> (\<forall>r. saved r (Id tb) ss ss')"
proof -
  define hs where "hs = [r \<leftarrow> ChildrenIds rb. header_at ss r] @ [r \<leftarrow> ChildrenIds rb. \<not> header_at ss r]"
  obtain s4 where s4: "normalizeHeaderRows tb ss = Some (Inr (), s4)" "s4 \<noteq> []" "Pick s4 = (Pick ss)(Id rb \<mapsto> rb\<lparr>ChildrenIds := hs\<rparr>)"
      "\<forall>r. rooted s4 r = rooted ss r"
    using normalizeHeaderRows_ok [OF i3] good unfolding hs_def list_all_iff by blast
  have "(Id rb, c) \<in> (child ss)\<^sup>+" if "c \<in> set hs" for c using that table_inv_links(3) [OF i3] by (auto simp: hs_def)
  then have i4: "table_inv tb cb (rb\<lparr>ChildrenIds := hs\<rparr>) s4" "kinds ss s4" using table_inv_rows [OF i3 s4(3,2)] by blast+
  have same: "row_at s4 x \<and> kids s4 x = kids ss x \<and> header_at s4 x = header_at ss x" if x: "x \<in> set (ChildrenIds rb)" for x
  proof -
    have "x \<noteq> Id rb" using x good row_block [OF i3, of x] by (auto simp: list_all_iff)
    then show ?thesis using x good s4(3) by (auto simp: list_all_iff row_at_def kids_def header_at_def)
  qed
  have rows: "list_all (row_at s4) hs" "list_all (\<lambda>r. tidy (column_index (ChildrenIds cb)) (kids s4 r)) hs"
    using same good by (auto simp: list_all_iff hs_def)
  have "sorted (map (\<lambda>r. if header_at s4 r then 0 else 1 :: nat) hs)"
    unfolding hs_def by (rule headers_first) (use same in auto)
  moreover have "list_all (column_at s4) (ChildrenIds cb)" using cols kinds_at(2) [OF i4(2)] by (simp add: list_all_iff)
  ultimately have "table_ok s4 (Id tb)"
    using rows table_inv_layouts [OF i4(1)] table_invD(4,7) [OF i4(1)] unfolding table_ok_def by simp
  moreover have "set hs = set (kids ss (Id rb))" using table_invD(6) [OF i3] by (auto simp: hs_def)
  then have "(a, b) \<in> child ss \<longleftrightarrow> (a, b) \<in> child s4" for a b by (cases "a = Id rb") (simp_all add: child_kids kids_upd [OF s4(3)])
  then have "child ss = child s4" by auto
  then have "saved r (Id tb) ss s4" for r using s4(4) by (intro saved_grow) auto
  ultimately show ?thesis using s4(1) i4(2) by blast
qed

text \<open>C16: normalizing a table never fails. When its block lacks one of the two layouts, it is unlinked. Otherwise
  the columns of the result are column blocks and the rows are row blocks, header rows come first, and
  the cells of every row name columns of the table in the order of the columns. All blocks keep their content. When the table is linked
  in a document without cycles, every block that was reachable from the root of the document is still reachable, groups (div layouts)
  apart: what the table gives up goes under the table. For this no block below the table mixes groups with other children, and groups
  hold no groups; a child beside a group leaves the document (\<open>beside_group_lost\<close>). The table must not be a descendant of itself, and sorting
  returns a sorted permutation.\<close>

theorem Normalize_table_ok:
  assumes "own_ids ss" "ss \<noteq> []" "(t, t) \<notin> (child ss)\<^sup>+" "Pick ss t = Some tb" "Content tb = CTable" "sorts sorter"
  shows "\<exists>ss'. Normalize_table sorter t ss = Some (Inr (), ss') \<and>
    (if has_layouts ss tb then table_ok ss' t \<and> (\<forall>x b. Pick ss x = Some b \<longrightarrow> (\<exists>b'. Pick ss' x = Some b' \<and> Content b' = Content b)) \<and>
       (\<forall>r p. rooted ss r \<and> acyclic_from ss r \<and> reach ss r p \<and> (p, t) \<in> child ss \<and> (\<forall>i. (t, i) \<in> (child ss)\<^sup>+ \<longrightarrow> flat_groups ss i) \<longrightarrow>
         (\<forall>x. reach ss r x \<and> \<not> group_at ss x \<longrightarrow> reach ss' r x))
     else ss' = snd (Unlink ss t))"
proof (cases "has_layouts ss tb")
  case False
  then show ?thesis using NewTable_broken [OF assms(4,5)] by (auto simp: Normalize_table_def)
next
  case True
  have id: "Id tb = t" using assms(1,4) by (simp add: own_ids_def)
  obtain s1 cb rb where s1: "NewTable t ss = Some (Inr tb, s1)" "table_inv tb cb rb s1" "kinds ss s1"
      "ungrouped {i. (t, i) \<in> (child ss)\<^sup>+} t ss s1"
    using NewTable_ok [OF assms(1-5) True] by blast
  obtain s2 cb' where s2: "normalizeColumns tb s1 = Some (Inr (), s2)" "table_inv tb cb' rb s2" "kinds s1 s2" "\<forall>r. saved r (Id tb) s1 s2"
      "list_all (column_at s2) (ChildrenIds cb')"
    using normalizeColumns_ok [OF s1(2)] by blast
  obtain s3 rb' where s3: "normalizeRows sorter tb s2 = Some (Inr (), s3)" "table_inv tb cb' rb' s3" "kinds s2 s3" "\<forall>r. saved r (Id tb) s2 s3"
      "list_all (\<lambda>x. row_at s3 x \<and> tidy (column_index (ChildrenIds cb')) (kids s3 x)) (ChildrenIds rb')"
    using normalizeRows_ok [OF s2(2) assms(6)] by blast
  have "list_all (column_at s3) (ChildrenIds cb')" using s2(5) kinds_at(2) [OF s3(3)] by (simp add: list_all_iff)
  then obtain s4 where s4: "normalizeHeaderRows tb s3 = Some (Inr (), s4)" "table_ok s4 t" "kinds s3 s4" "\<forall>r. saved r (Id tb) s3 s4"
    using normalizeHeaderRows_order [OF s3(2) _ s3(5)] id by blast
  have k: "kinds ss s4" using kinds_trans s1(3) s2(3) s3(3) s4(3) by blast
  have sv: "saved r t s1 s4" for r using s2(4) s3(4) s4(4) saved_trans id by blast
  have "reach s4 r x" if "rooted ss r" "acyclic_from ss r" "reach ss r p" "(p, t) \<in> child ss" "reach ss r x" "\<not> group_at ss x"
      "\<forall>i. (t, i) \<in> (child ss)\<^sup>+ \<longrightarrow> flat_groups ss i" for r p x
  proof -
    have "anchored r t ss" using that unfolding anchored_def by blast
    then have "anchored r t s1" "reach s1 r x" using s1(4) that unfolding ungrouped_def by auto
    then show ?thesis using sv unfolding saved_def by blast
  qed
  then show ?thesis using True s1(1) s2(1) s3(1) s4(1,2) k by (auto simp: Normalize_table_def kinds_def)
qed

subsection \<open>Cells of rows\<close>

text \<open>The id of a cell is split again exactly when the id of the row has no separator.\<close>

lemma ParseCellID_MakeCellID: "ParseCellID (MakeCellID rowID colID) = Some (rowID, colID) \<longleftrightarrow> CHR ''-'' \<notin> set rowID"
proof -
  have "takeWhile (\<lambda>c. c \<noteq> CHR ''-'') (rowID @ CHR ''-'' # colID) = rowID \<longleftrightarrow> CHR ''-'' \<notin> set rowID"
    by (induction rowID) auto
  then show ?thesis
    by (auto simp: ParseCellID_def MakeCellID_def dropWhile_append split: list.splits)
qed

lemma column_index_nth: "distinct cols \<Longrightarrow> n < length cols \<Longrightarrow> column_index cols (cols ! n) = Some n"
  unfolding column_index_def by (subst map_of_rev_wf) (auto simp: wf_map_def map_of_zip_nth)

lemma full_row_tidy:
  assumes "distinct cols" "CHR ''-'' \<notin> set rowID"
  shows "tidy (column_index cols) (map (MakeCellID rowID) cols)"
proof -
  have n: "cell_number (column_index cols) (MakeCellID rowID (cols ! n)) = Some n" if "n < length cols" for n
    using that assms by (simp add: cell_number_def ParseCellID_MakeCellID [THEN iffD2] column_index_nth)
  have "map (\<lambda>i. the (cell_number (column_index cols) i)) (map (MakeCellID rowID) cols) = [0..<length cols]"
    by (rule nth_equalityI) (simp_all add: n)
  moreover have "list_all (\<lambda>i. cell_number (column_index cols) i \<noteq> None) (map (MakeCellID rowID) cols)"
    using n by (auto simp: list_all_length)
  ultimately show ?thesis unfolding tidy_def by (metis sorted_upt)
qed

text \<open>The blocks after the rows \<open>ids\<close> got a cell for every column.\<close>

definition filled :: "string list \<Rightarrow> string list \<Rightarrow> (string \<Rightarrow> Block option) \<Rightarrow> string \<Rightarrow> Block option" where
  "filled ids cols P y =
     (case P y of
        Some b \<Rightarrow> Some (if y \<in> set ids then b\<lparr>ChildrenIds := map (MakeCellID y) cols\<rparr> else b)
      | None \<Rightarrow> if \<exists>x\<in>set ids. \<exists>c\<in>set cols. y = MakeCellID x c then Some (new_block y [] (CText empty_text)) else None)"

lemma ensure_cells:
  "ss \<noteq> [] \<Longrightarrow> \<exists>ss'. collect (ensure_cell x) cols ss = Some (Inr (map (MakeCellID x) cols), ss') \<and> ss' \<noteq> [] \<and>
     Pick ss' = (\<lambda>y. if Pick ss y = None \<and> y \<in> MakeCellID x ` set cols then Some (new_block y [] (CText empty_text)) else Pick ss y)"
proof (induction cols arbitrary: ss)
  case (Cons c cols)
  define i where "i = MakeCellID x c"
  define s1 where "s1 = (if Pick ss i = None then put_block i (new_block i [] (CText empty_text)) ss else ss)"
  have e: "ensure_cell x c ss = Some (Inr i, s1)"
    by (auto simp: ensure_cell_def i_def s1_def Exists_def addCell_def add_block_def Add_block_def new_block_def)
  have "s1 \<noteq> []" using Cons.prems by (simp add: s1_def)
  then obtain s2 where s2: "collect (ensure_cell x) cols s1 = Some (Inr (map (MakeCellID x) cols), s2)" "s2 \<noteq> []"
      "Pick s2 = (\<lambda>y. if Pick s1 y = None \<and> y \<in> MakeCellID x ` set cols then Some (new_block y [] (CText empty_text)) else Pick s1 y)"
    using Cons.IH by blast
  have "Pick s2 = (\<lambda>y. if Pick ss y = None \<and> y \<in> MakeCellID x ` set (c # cols) then Some (new_block y [] (CText empty_text)) else Pick ss y)"
    using Cons.prems by (auto simp: s2(3) s1_def fun_eq_iff i_def)
  then show ?case using e s2 by (simp add: i_def)
qed auto

lemma fill_row_run:
  assumes "row_at ss x"
  shows "\<exists>ss'. fill_row cols x ss = Some (Inr (), ss') \<and> ss' \<noteq> [] \<and> Pick ss' = filled [x] cols (Pick ss)"
proof -
  obtain b s1 where s1: "Pick ss x = Some b" "getRow x ss = Some (Inr b, s1)" "Pick s1 = Pick ss" "s1 \<noteq> []" using getRow_run [OF assms] .
  obtain s2 where s2: "collect (ensure_cell x) cols s1 = Some (Inr (map (MakeCellID x) cols), s2)" "s2 \<noteq> []"
      "Pick s2 = (\<lambda>y. if Pick s1 y = None \<and> y \<in> MakeCellID x ` set cols then Some (new_block y [] (CText empty_text)) else Pick s1 y)"
    using ensure_cells [OF s1(4)] by blast
  then have "Pick s2 x = Some b" using s1 by simp
  then obtain s3 where s3: "set_block x (\<lambda>b. b\<lparr>ChildrenIds := map (MakeCellID x) cols\<rparr>) s2 = Some (Inr (), s3)"
      "Pick s3 = (Pick s2)(x \<mapsto> b\<lparr>ChildrenIds := map (MakeCellID x) cols\<rparr>)" "s3 \<noteq> []"
    using set_block_run by metis
  have "Pick s3 = filled [x] cols (Pick ss)"
    using s1(1) by (auto simp: s3(2) s2(3) s1(3) filled_def fun_eq_iff split: option.splits)
  then show ?thesis using s1(2) s2(1) s3 by (auto simp: fill_row_def)
qed

lemma filled_Cons:
  assumes "\<forall>x\<in>set (i # ids). P x \<noteq> None"
  shows "filled ids cols (filled [i] cols P) = filled (i # ids) cols P"
  using assms by (auto simp: filled_def fun_eq_iff split: option.splits)

lemma fill_rows_run:
  "list_all (row_at ss) ids \<Longrightarrow> ss \<noteq> [] \<Longrightarrow>
     \<exists>ss'. each (fill_row cols) ids ss = Some (Inr (), ss') \<and> ss' \<noteq> [] \<and> Pick ss' = filled ids cols (Pick ss)"
proof (induction ids arbitrary: ss)
  case Nil
  then show ?case by (auto simp: filled_def fun_eq_iff split: option.splits)
next
  case (Cons i ids)
  obtain s1 where s1: "fill_row cols i ss = Some (Inr (), s1)" "s1 \<noteq> []" "Pick s1 = filled [i] cols (Pick ss)"
    using fill_row_run [of ss i cols] Cons.prems by auto
  have "row_at s1 x" if "row_at ss x" for x
    using that by (auto simp: row_at_def s1(3) filled_def is_table_row_def split: option.splits)
  then obtain s2 where s2: "each (fill_row cols) ids s1 = Some (Inr (), s2)" "s2 \<noteq> []" "Pick s2 = filled ids cols (Pick s1)"
    using Cons.IH [of s1] Cons.prems(1) s1(2) by (auto simp: list_all_iff)
  have "Pick s2 = filled (i # ids) cols (Pick ss)"
    unfolding s2(3) s1(3) using Cons.prems by (intro filled_Cons) (auto simp: list_all_iff row_at_def split: option.splits)
  then show ?case using s1(1) s2 by auto
qed

subsection \<open>Tables in a tree\<close>

lemma destructureDivs_plain: "no_groups ss i \<Longrightarrow> destructureDivs i ss = Some (Inr (), ss)"
  by (auto simp: destructureDivs_def no_groups_def group_at_def kids_def map_filter_def list_all_iff filter_empty_conv split: option.splits)

lemma each_idle: "(\<And>x. x \<in> set xs \<Longrightarrow> f x ss = Some (Inr (), ss)) \<Longrightarrow> each f xs ss = Some (Inr (), ss)"
  by (induction xs) auto

lemma NewTable_plain:
  assumes "table_inv tb cb rb ss" "PickTableRootBlock i ss = Some (Inr (Some tb), ss)" "no_groups ss (Id cb)" "no_groups ss (Id rb)"
    "list_all (no_groups ss) (ChildrenIds rb)"
  shows "NewTable i ss = Some (Inr tb, ss)"
proof -
  have "each destructureDivs (ChildrenIds rb) ss = Some (Inr (), ss)"
    using assms(5) by (intro each_idle destructureDivs_plain) (simp add: list_all_iff)
  then show ?thesis
    using assms table_inv_layouts [OF assms(1)] table_invD(10) [OF assms(1)]
    by (simp add: NewTable_def destructureDivs_plain RowIDs_def the_layout_def)
qed

lemma PickParentOf_tree:
  assumes "rooted ss r" "tree ss r" "reach ss r p" "Pick ss p = Some pb" "i \<in> set (ChildrenIds pb)"
  shows "PickParentOf ss i = (Some pb, ss)"
proof -
  have root: "RootId ss = (r, ss)" using assms(1) by simp
  have "fst (PickParentOf ss i) \<noteq> None"
    using PickParentOf_complete [of ss p i] tree_acyclic [OF assms(2)] assms root by auto
  then obtain q where q: "fst (PickParentOf ss i) = Some q" by blast
  obtain x where x: "reach ss r x" "Pick ss x = Some q" "i \<in> set (ChildrenIds q)"
    using PickParentOf_sound [OF q] root by auto
  then have "x = p" using tree_parent [OF assms(2) x(1) assms(3), of i] assms(4,5) by auto
  then show ?thesis using q x assms(4) root by (simp add: prod_eq_iff)
qed

text \<open>A table that is in order, without groups, in the tree of a state; and its columns and rows.\<close>

definition sound_table :: "State list \<Rightarrow> string \<Rightarrow> Block \<Rightarrow> Block \<Rightarrow> Block \<Rightarrow> bool" where
  "sound_table ss r tb cb rb \<longleftrightarrow>
     rooted ss r \<and> tree ss r \<and> own_ids ss \<and> reach ss r (Id tb) \<and> Pick ss (Id tb) = Some tb \<and> has_layouts ss tb \<and>
     Columns tb ss = Some cb \<and> Rows tb ss = Some rb \<and> table_ok ss (Id tb) \<and> list_all (no_groups ss) (ChildrenIds rb)"

lemma sound_tableD:
  assumes "sound_table ss r tb cb rb"
  shows "rooted ss r" "tree ss r" "own_ids ss" "reach ss r (Id tb)" "Pick ss (Id tb) = Some tb" "has_layouts ss tb"
    "Columns tb ss = Some cb" "Rows tb ss = Some rb" "table_ok ss (Id tb)" "list_all (no_groups ss) (ChildrenIds rb)"
  using assms unfolding sound_table_def by - (elim conjE, assumption)+

lemma layout_block: "child_layout n style tb ss = Some b \<Longrightarrow> Pick ss (ChildrenIds tb ! n) = Some b \<and> Content b = CLayout style"
  by (auto simp: child_layout_def split: option.splits if_splits)

lemma sound_table_ok:
  assumes "sound_table ss r tb cb rb"
  shows "list_all (column_at ss) (ChildrenIds cb)" "list_all (row_at ss) (ChildrenIds rb)" "Content tb = CTable"
    "list_all (\<lambda>r. tidy (column_index (ChildrenIds cb)) (kids ss r)) (ChildrenIds rb)"
    "sorted (map (\<lambda>r. if header_at ss r then 0 else 1 :: nat) (ChildrenIds rb))"
  using sound_tableD(5,7-9) [OF assms] by (simp_all add: table_ok_def)

lemma sound_table_inv:
  assumes "sound_table ss r tb cb rb"
  shows "table_inv tb cb rb ss"
proof -
  note s = sound_tableD [OF assms]
  have "(Id tb, Id tb) \<notin> (child ss)\<^sup>+" using tree_acyclic [OF s(2)] s(4) unfolding acyclic_from_def by blast
  moreover have c: "Pick ss (ChildrenIds tb ! 0) = Some cb" "Content cb = CLayout layout_TableColumns"
    using layout_block s(7) unfolding Columns_def by blast+
  moreover have d: "Pick ss (ChildrenIds tb ! 1) = Some rb" "Content rb = CLayout layout_TableRows"
    using layout_block s(8) unfolding Rows_def by blast+
  moreover have "Id cb = ChildrenIds tb ! 0" "Id rb = ChildrenIds tb ! 1" using c(1) d(1) s(3) unfolding own_ids_def by blast+
  ultimately show ?thesis
    using s(3,5,6) sound_table_ok(3) [OF assms] rooted_nonempty [OF s(1)] unfolding table_inv_def has_layouts_def by simp
qed

lemma part_kind: "column_at ss x \<or> row_at ss x \<Longrightarrow> \<exists>b. Pick ss x = Some b \<and> Content b \<noteq> CTable \<and> \<not> isDivLayout b"
  by (cases "Pick ss x"; cases "Content (the (Pick ss x))") (auto simp: column_at_def row_at_def is_table_row_def isDivLayout_def)

lemma no_groups_kinds: "list_all (column_at ss) (kids ss i) \<or> list_all (row_at ss) (kids ss i) \<Longrightarrow> no_groups ss i"
  unfolding no_groups_def group_at_def list_all_iff using part_kind [of ss] by (fastforce split: option.splits)

lemma part_reach:
  assumes "sound_table ss r tb cb rb"
  shows "reach ss r (Id cb)" "reach ss r (Id rb)"
  using reach_step [OF sound_tableD(4) [OF assms]] table_inv_links [OF sound_table_inv [OF assms]] by blast+

lemma PickTableRoot_part:
  assumes "sound_table ss r tb cb rb" "x \<in> set (ChildrenIds cb) \<or> x \<in> set (ChildrenIds rb)"
  shows "PickTableRootBlock x ss = Some (Inr (Some tb), ss)"
proof -
  note s = sound_tableD [OF assms(1)] and i = table_invD [OF sound_table_inv [OF assms(1)]] and l = table_inv_links [OF sound_table_inv [OF assms(1)]]
  obtain b where b: "Pick ss x = Some b" "Content b \<noteq> CTable" "Id b = x"
    using assms(2) sound_table_ok(1,2) [OF assms(1)] s(3) part_kind [of ss x] unfolding list_all_iff own_ids_def by blast
  obtain p where p: "Pick ss (Id p) = Some p" "p = cb \<or> p = rb" "x \<in> set (ChildrenIds p)" using i(5,6) assms(2) by blast
  have "PickParentOf ss x = (Some p, ss)"
    using PickParentOf_tree [OF s(1,2) _ p(1,3)] p(2) part_reach [OF assms(1)] by blast
  moreover have "PickParentOf ss (Id p) = (Some tb, ss)"
    using PickParentOf_tree [OF s(1,2,4,5)] p(2) l(1,2) i(4) by auto
  moreover have "Content p \<noteq> CTable" using p(2) i(8,9) by auto
  ultimately show ?thesis
    using b i(7) by (simp add: PickTableRootBlock_def table_root_loop.simps [of ss])
qed

lemma NewTable_part:
  assumes "sound_table ss r tb cb rb" "x \<in> set (ChildrenIds cb) \<or> x \<in> set (ChildrenIds rb)"
  shows "NewTable x ss = Some (Inr tb, ss)"
proof (rule NewTable_plain [OF sound_table_inv [OF assms(1)] PickTableRoot_part [OF assms]])
  note i = table_invD [OF sound_table_inv [OF assms(1)]] and k = sound_table_ok [OF assms(1)]
  show "no_groups ss (Id cb)" using i(5) k(1) by (intro no_groups_kinds) simp
  show "no_groups ss (Id rb)" using i(6) k(2) by (intro no_groups_kinds) simp
qed (rule sound_tableD(10) [OF assms(1)])

lemma table_ok_later:
  assumes "kinds ss ss'" "Pick ss' t = Some tb" "Content tb = CTable" "Columns tb ss' = Some cb" "Rows tb ss' = Some rb"
    "list_all (column_at ss) (ChildrenIds cb)" "list_all (row_at ss) (ChildrenIds rb)"
    "sorted (map (\<lambda>r. if header_at ss r then 0 else 1 :: nat) (ChildrenIds rb))"
    "\<And>x. x \<in> set (ChildrenIds rb) \<Longrightarrow> tidy (column_index (ChildrenIds cb)) (kids ss' x)"
  shows "table_ok ss' t"
proof -
  have "header_at ss' x = header_at ss x" if "row_at ss x" for x
    using that assms(1) unfolding kinds_def header_at_def row_at_def IsHeader_def by (fastforce split: option.splits)
  then have "map (\<lambda>r. if header_at ss' r then 0 else 1 :: nat) (ChildrenIds rb) = map (\<lambda>r. if header_at ss r then 0 else 1) (ChildrenIds rb)"
    using assms(7) by (simp add: list_all_iff)
  then have "sorted (map (\<lambda>r. if header_at ss' r then 0 else 1 :: nat) (ChildrenIds rb))" using assms(8) by (simp only:)
  moreover have "list_all (column_at ss') (ChildrenIds cb)" "list_all (row_at ss') (ChildrenIds rb)"
    using assms(6,7) kinds_at [OF assms(1)] by (simp_all add: list_all_iff)
  moreover have "list_all (\<lambda>r. tidy (column_index (ChildrenIds cb)) (kids ss' r)) (ChildrenIds rb)"
    using assms(9) by (simp add: list_all_iff)
  ultimately show ?thesis using assms(2-5) by (simp add: table_ok_def)
qed

text \<open>C18: after rows of a table are filled, each of them has one cell for every column, in the order of the columns.
  Missing cells are new empty text blocks; every other block stays as it is, and so does the order of the table.\<close>

theorem RowListFill_fills:
  assumes "sound_table ss r tb cb rb" "ids \<noteq> []" "set ids \<subseteq> set (ChildrenIds rb)" "\<forall>x\<in>set ids. CHR ''-'' \<notin> set x"
  shows "\<exists>ss'. RowListFill ids ss = Some (Inr (), ss') \<and> Pick ss' = filled ids (ChildrenIds cb) (Pick ss) \<and> table_ok ss' (Id tb)"
proof -
  note i = sound_table_inv [OF assms(1)] and k = sound_table_ok [OF assms(1)] and s = sound_tableD [OF assms(1)]
  define C where "C = ChildrenIds cb"
  have rows: "list_all (row_at ss) ids" using k(2) assms(3) by (auto simp: list_all_iff)
  have "NewTable (hd ids) ss = Some (Inr tb, ss)" using NewTable_part [OF assms(1)] assms(2,3) by (cases ids) auto
  moreover obtain s1 where s1: "each (fill_row C) ids ss = Some (Inr (), s1)" "s1 \<noteq> []" "Pick s1 = filled ids C (Pick ss)"
    using fill_rows_run [OF rows rooted_nonempty [OF s(1)]] by blast
  ultimately have run: "RowListFill ids ss = Some (Inr (), s1)"
    using assms(2) table_inv_layouts(1) [OF i] by (simp add: RowListFill_def ColumnIDs_def the_layout_def C_def)
  have not: "x \<notin> set ids" if "x \<in> {Id tb, Id cb, Id rb}" for x
    using that row_block [OF i, of x] rows by (auto simp: list_all_iff)
  have P: "Pick s1 x = Some b" if "Pick ss x = Some b" "x \<notin> set ids" for x b using that by (simp add: s1(3) filled_def)
  have pk: "Pick s1 (Id tb) = Some tb" "Pick s1 (Id cb) = Some cb" "Pick s1 (Id rb) = Some rb"
    using P not table_invD(4-6) [OF i] by simp_all
  have l: "Columns tb s1 = Some cb" "Rows tb s1 = Some rb"
    using pk table_invD [OF i] by (simp_all add: Columns_def Rows_def child_layout_def)
  have kept: "\<exists>b'. Pick s1 x = Some b' \<and> Content b' = Content b" if "Pick ss x = Some b" for x b
    using that by (simp add: s1(3) filled_def)
  then have kd: "kinds ss s1" by (simp add: kinds_def)
  have dist: "distinct C" using tree_children(1) [OF s(2) part_reach(1) [OF assms(1)] table_invD(5) [OF i]] by (simp add: C_def)
  have "tidy (column_index (ChildrenIds cb)) (kids s1 x)" if x: "x \<in> set (ChildrenIds rb)" for x
  proof (cases "x \<in> set ids")
    case True
    then have "kids s1 x = map (MakeCellID x) C" using rows by (auto simp: kids_def s1(3) filled_def list_all_iff row_at_def split: option.splits)
    then show ?thesis using full_row_tidy [OF dist] assms(4) True by (simp add: C_def)
  next
    case False
    then have "kids s1 x = kids ss x" using x k(2) by (auto simp: kids_def s1(3) filled_def list_all_iff row_at_def split: option.splits)
    then show ?thesis using x k(4) by (simp add: list_all_iff C_def)
  qed
  then have "table_ok s1 (Id tb)" using table_ok_later [OF kd pk(1) k(3) l k(1,2,5)] by blast
  then show ?thesis using run s1(3) by (simp add: C_def)
qed

lemma column_index_dom: "column_index cols c = None \<longleftrightarrow> c \<notin> set cols"
proof -
  have "column_index cols c = None \<longleftrightarrow> c \<notin> fst ` set (zip cols [0..<length cols])"
    unfolding column_index_def map_of_eq_None_iff by simp
  moreover have "fst ` set (zip cols [0..<length cols]) = set cols" by (metis length_upt list.set_map map_fst_zip minus_nat.diff_0)
  ultimately show ?thesis by auto
qed

lemma cell_number_dom: "set cols = set cols' \<Longrightarrow> cell_number (column_index cols) i = None \<longleftrightarrow> cell_number (column_index cols') i = None"
  by (cases "ParseCellID i") (simp_all add: cell_number_def case_prod_beta column_index_dom)

lemma tidy_cells: "list_all (\<lambda>i. cell_number colIdx i \<noteq> None) cells \<Longrightarrow> valid_cells colIdx cells = mset cells"
  by (simp add: valid_cells_def list_all_iff)

interpretation rk: kept "\<lambda>ss. table_inv tb cb rb ss \<and> list_all (row_at ss) (ChildrenIds rb)"
  "\<lambda>ss ss'. table_kept colIdx tb cb rb ss ss' \<and> list_all (row_at ss') (ChildrenIds rb)" for colIdx tb cb rb
  by unfold_locales (auto intro: tk.kept_refl tk.kept_trans tk.kept_inv)

lemma normalize_rows_kept:
  assumes "table_inv tb cb rb ss" "list_all (row_at ss) (ChildrenIds rb)" "sorts sorter"
  shows "\<exists>ss'. normalize_rows_of sorter tb colIdx (ChildrenIds rb) ss = Some (Inr (), ss') \<and> table_kept colIdx tb cb rb ss ss' \<and>
    (\<forall>x\<in>set (ChildrenIds rb). tidy colIdx (kids ss' x))"
proof -
  have step: "\<exists>s2. seq (getRow x) (\<lambda>_. normalizeRow sorter tb colIdx x) s = Some (Inr (), s2) \<and>
      (table_kept colIdx tb cb rb s s2 \<and> list_all (row_at s2) (ChildrenIds rb)) \<and> (row_at s2 x \<and> tidy colIdx (kids s2 x))"
    if x: "x \<in> set (ChildrenIds rb)" "table_inv tb cb rb s \<and> list_all (row_at s) (ChildrenIds rb)" for x s
  proof -
    have "row_at s x" using x by (simp add: list_all_iff)
    then obtain b s1 where s1: "getRow x s = Some (Inr b, s1)" "Pick s1 = Pick s" "s1 \<noteq> []" "\<forall>r. rooted s1 r = rooted s r" using getRow_run by blast
    have k: "table_kept colIdx tb cb rb s s1" using table_kept_same [of tb cb rb s s1] x s1 saved_same [OF s1(2)] by blast
    have "row_at s1 x" using \<open>row_at s x\<close> s1(2) by (simp add: row_at_def)
    then obtain s2 where s2: "normalizeRow sorter tb colIdx x s1 = Some (Inr (), s2)" "table_kept colIdx tb cb rb s1 s2" "tidy colIdx (kids s2 x)"
      using normalizeRow_kept [OF tk.kept_inv [OF k] x(1) _ assms(3)] by blast
    have k2: "table_kept colIdx tb cb rb s s2" using table_kept_trans [OF k s2(2)] .
    then show ?thesis using s1(1) s2 x kinds_at(1) [OF kinds_simps(3) [OF k2]] by (auto simp: list_all_iff)
  qed
  have stays: "row_at s2 x \<and> tidy colIdx (kids s2 x)"
    if "x \<in> set (ChildrenIds rb)" "row_at s x \<and> tidy colIdx (kids s x)" "table_kept colIdx tb cb rb s s2 \<and> list_all (row_at s2) (ChildrenIds rb)" for x s s2
    using that by (simp add: table_kept_def list_all_iff)
  have "\<exists>s2. each (\<lambda>x. seq (getRow x) (\<lambda>_. normalizeRow sorter tb colIdx x)) (ChildrenIds rb) ss = Some (Inr (), s2) \<and>
      (table_kept colIdx tb cb rb ss s2 \<and> list_all (row_at s2) (ChildrenIds rb)) \<and>
      (\<forall>x\<in>set (ChildrenIds rb). row_at s2 x \<and> tidy colIdx (kids s2 x))"
  proof (rule rk.each_keeps, goal_cases)
    case (1 x ss)
    then show ?case by (rule step)
  next
    case (2 x ss ss')
    then show ?case by (rule stays)
  qed (use assms in simp)
  then show ?thesis unfolding normalize_rows_of_def by blast
qed

lemma pickColumn_run: "column_at ss c \<Longrightarrow> \<exists>b. pickColumn c ss = Some (Inr b, ss)"
  by (auto simp: column_at_def pickColumn_def split: option.splits)

lemma move_column_header:
  assumes "sound_table ss r tb cb rb" "target \<in> set (ChildrenIds cb)" "[c \<leftarrow> ChildrenIds cb. c \<noteq> target] = xs @ dropTarget # ys"
    "dropTarget \<noteq> []" "p = Block_Top \<or> p = Block_Bottom"
  obtains s1 s2 where "unlink target ss = Some (Inr (), s1)" "insert_to md5 dropTarget p [target] s1 = Some (Inr (), s2)" "s2 \<noteq> []"
    "Pick s2 = (Pick ss)(Id cb \<mapsto> cb\<lparr>ChildrenIds := beside p xs dropTarget ys [target]\<rparr>)"
proof -
  note i = table_invD [OF sound_table_inv [OF assms(1)]] and s = sound_tableD [OF assms(1)] and c = part_reach(1) [OF assms(1)]
  obtain s1 where s1: "Unlink ss target = (True, s1)" "Pick s1 = (Pick ss)(Id cb \<mapsto> removeChildren cb target)" "rooted s1 r"
    using Unlink_tree [OF s(1-3) c i(5) assms(2)] by metis
  note u = unlinked_tree [OF s(2) c i(5) assms(2) s1(2)]
  have "own_ids s1" using own_ids_upd [OF s(3) s1(2)] by (simp add: removeChildren_def)
  moreover have "reach s1 r (Id cb)"
  proof -
    have "(Id cb, target) \<in> child ss" using i(5) assms(2) by auto
    then have "(target, Id cb) \<notin> (child ss)\<^sup>*" using tree_acyclic [OF s(2)] c unfolding acyclic_from_def by (meson rtrancl_into_trancl2)
    then show ?thesis using u(2) c by blast
  qed
  moreover have "Pick s1 (Id cb) = Some (removeChildren cb target)" using s1(2) by simp
  moreover have "ChildrenIds (removeChildren cb target) = xs @ dropTarget # ys" using assms(3) by (simp add: removeChildren_def RemoveMut_def)
  moreover have "dropTarget \<noteq> target" using arg_cong [OF assms(3), of set] by auto
  moreover have "Id cb \<noteq> target"
    using i(5) assms(2) sound_table_ok(1) [OF assms(1)] i(8) by (auto simp: list_all_iff column_at_def)
  ultimately obtain s2 where s2: "InsertTo md5 s1 dropTarget p [target] = Some (None, s2)"
      "Pick s2 = (Pick s1)(Id cb \<mapsto> (removeChildren cb target)\<lparr>ChildrenIds := beside p xs dropTarget ys [target]\<rparr>)" "rooted s2 r"
    using InsertTo_beside [OF s1(3) u(1), of "Id cb" "removeChildren cb target" xs dropTarget ys p "[target]" md5] assms(4,5) by auto
  show thesis
  proof (rule that)
    show "unlink target ss = Some (Inr (), s1)" "insert_to md5 dropTarget p [target] s1 = Some (Inr (), s2)" "s2 \<noteq> []"
      using s1 s2 by (simp_all add: unlink_def insert_to_def)
    show "Pick s2 = (Pick ss)(Id cb \<mapsto> cb\<lparr>ChildrenIds := beside p xs dropTarget ys [target]\<rparr>)"
      by (simp add: s2(2) s1(2) removeChildren_def fun_eq_iff)
  qed
qed

text \<open>C17: moving a column of a table that is in order puts its header beside the other one, keeps the rows and the cells of every
  row, and leaves the table in order: the cells follow the new order of the columns.\<close>

theorem ColumnMove_moves:
  assumes "sound_table ss r tb cb rb" "target \<in> set (ChildrenIds cb)" "[c \<leftarrow> ChildrenIds cb. c \<noteq> target] = xs @ dropTarget # ys"
    "dropTarget \<noteq> []" "side_position pos = Some p" "sorts sorter"
  shows "\<exists>ss'. ColumnMove md5 sorter target dropTarget pos ss = Some (Inr (), ss') \<and> table_ok ss' (Id tb) \<and>
    Columns tb ss' = Some (cb\<lparr>ChildrenIds := beside p xs dropTarget ys [target]\<rparr>) \<and> Rows tb ss' = Some rb \<and>
    (\<forall>x\<in>set (ChildrenIds rb). mset (kids ss' x) = mset (kids ss x))"
proof -
  note i = sound_table_inv [OF assms(1)] and k = sound_table_ok [OF assms(1)]
  define cs where "cs = beside p xs dropTarget ys [target]"
  have pos: "p = Block_Top \<or> p = Block_Bottom" using assms(5) by (cases pos) auto
  have "set (xs @ dropTarget # ys) = set (ChildrenIds cb) - {target}" using arg_cong [OF assms(3), of set] by auto
  then have cs: "set cs = set (ChildrenIds cb)" using assms(2) by (auto simp: cs_def beside_def)
  have "dropTarget \<in> set (ChildrenIds cb)" using arg_cong [OF assms(3), of set] by auto
  then have cols: "column_at ss target" "column_at ss dropTarget" using k(1) assms(2) by (auto simp: list_all_iff)
  obtain s1 s2 where s: "unlink target ss = Some (Inr (), s1)" "insert_to md5 dropTarget p [target] s1 = Some (Inr (), s2)" "s2 \<noteq> []"
      "Pick s2 = (Pick ss)(Id cb \<mapsto> cb\<lparr>ChildrenIds := cs\<rparr>)"
    using move_column_header [OF assms(1-4) pos] unfolding cs_def by blast
  have i2: "table_inv tb (cb\<lparr>ChildrenIds := cs\<rparr>) rb s2" "kinds ss s2"
    using table_inv_columns [OF i s(4,3)] table_inv_links(4) [OF i] cs by blast+
  have rows: "list_all (row_at s2) (ChildrenIds rb)" using k(2) kinds_at(1) [OF i2(2)] by (simp add: list_all_iff)
  obtain s3 where s3: "normalize_rows_of sorter tb (column_index cs) (ChildrenIds rb) s2 = Some (Inr (), s3)"
      "table_kept (column_index cs) tb (cb\<lparr>ChildrenIds := cs\<rparr>) rb s2 s3" "\<forall>x\<in>set (ChildrenIds rb). tidy (column_index cs) (kids s3 x)"
    using normalize_rows_kept [OF i2(1) rows assms(6)] by blast
  note i3 = tk.kept_inv [OF s3(2)]
  have "ColumnMove md5 sorter target dropTarget pos ss = Some (Inr (), s3)"
    using assms(5) pickColumn_run [OF cols(1)] pickColumn_run [OF cols(2)] NewTable_part [OF assms(1)] assms(2) s(1,2) s3(1) table_inv_layouts [OF i2(1)]
    by (auto simp: ColumnMove_def MakeColumnIndex_def ColumnIDs_def RowIDs_def the_layout_def)
  moreover have "table_ok s3 (Id tb)"
    using table_ok_later [OF kinds_trans [OF i2(2) kinds_simps(3) [OF s3(2)]] table_invD(4,7) [OF i3] table_inv_layouts [OF i3] _ k(2,5)] k(1) cs s3(3)
    by (simp add: list_all_iff)
  moreover have "mset (kids s3 x) = mset (kids ss x)" if x: "x \<in> set (ChildrenIds rb)" for x
  proof -
    have "x \<noteq> Id cb" using row_block [OF i, of x] k(2) x by (auto simp: list_all_iff)
    then have "kids s2 x = kids ss x" using s(4) by (simp add: kids_def)
    moreover have "valid_cells (column_index cs) (kids ss x) = mset (kids ss x)"
      using k(4) x cell_number_dom [OF cs] by (intro tidy_cells) (auto simp: list_all_iff tidy_def)
    moreover have "valid_cells (column_index cs) (kids s3 x) = mset (kids s3 x)" using s3(3) x by (intro tidy_cells) (simp add: tidy_def)
    ultimately show ?thesis using s3(2) x rows by (simp add: table_kept_def list_all_iff)
  qed
  ultimately show ?thesis using table_inv_layouts [OF i3] by (auto simp: cs_def)
qed

subsection \<open>Examples\<close>

definition cell_block :: "string \<Rightarrow> nat list \<Rightarrow> Block" where
  "cell_block i txt = new_block i [] (CText (empty_text\<lparr>tText := txt\<rparr>))"

definition row_block_of :: "string \<Rightarrow> bool \<Rightarrow> string list \<Rightarrow> Block" where
  "row_block_of i h cells = new_block i cells (CTableRow \<lparr>row_IsHeader = h\<rparr>)"

definition table_state :: "string list \<Rightarrow> string list \<Rightarrow> Block list \<Rightarrow> State list" where
  "table_state cols rows blocks =
     [empty_state\<lparr>st_blocks := map (\<lambda>b. (Id b, b))
       (sample_block ''r'' [''t''] # new_block ''t'' [''C'', ''R''] CTable # new_block ''C'' cols (CLayout layout_TableColumns) #
        new_block ''R'' rows (CLayout layout_TableRows) # blocks)\<rparr>]"

text \<open>A table with three columns and two rows, and one with a column that is missing, a row that is missing, a text among the rows, and
  a row with cells in the wrong order and one of an unknown column.\<close>

definition good_table :: "State list" where
  "good_table = table_state [''a'', ''b'', ''c''] [''h'', ''x'']
     [makeColumn ''a'', makeColumn ''b'', makeColumn ''c'', row_block_of ''h'' True [''h-a'', ''h-c''], row_block_of ''x'' False [''x-b''],
      cell_block ''h-a'' [1], cell_block ''h-c'' [2], cell_block ''x-b'' [3]]"

definition bad_table :: "State list" where
  "bad_table = table_state [''a'', ''b''] [''x'', ''y'', ''z'', ''h'']
     [makeColumn ''a'', row_block_of ''x'' False [''x-b'', ''x-q'', ''x-a''], row_block_of ''h'' True [], cell_block ''z'' [7],
      cell_block ''x-a'' [1], cell_block ''x-b'' [2], cell_block ''x-q'' [3]]"

lemma sorts_sort_key: "sorts (sort_key fst)"
  by (simp add: sorts_def)

lemma table_state_simps:
  "rooted (table_state cols rows blocks) ''r''" "Pick (table_state cols rows blocks) ''t'' = Some (new_block ''t'' [''C'', ''R''] CTable)"
  by (simp_all add: rooted_def table_state_def empty_state_def sample_block_def new_block_def)

lemma table_state_acyclic:
  assumes "snd (walk (table_state cols rows blocks) [] ''r'') = None"
  shows "(''t'', ''t'') \<notin> (child (table_state cols rows blocks))\<^sup>+" "reach (table_state cols rows blocks) ''r'' ''t''"
proof -
  have "(''r'', ''t'') \<in> child (table_state cols rows blocks)"
    by (simp add: child_def table_state_def empty_state_def sample_block_def)
  then show r: "reach (table_state cols rows blocks) ''r'' ''t''" using reach_step [OF reach_refl] by blast
  show "(''t'', ''t'') \<notin> (child (table_state cols rows blocks))\<^sup>+"
    using assms r unfolding walk_error_iff acyclic_from_def by blast
qed

theorem Normalize_table_ok_witness:
  "\<exists>ss'. Normalize_table (sort_key fst) ''t'' bad_table = Some (Inr (), ss') \<and> table_ok ss' ''t'' \<and> reach ss' ''r'' ''x-q'' \<and> reach ss' ''r'' ''z''"
proof -
  have walk: "snd (walk bad_table [] ''r'') = None" and layouts: "has_layouts bad_table (new_block ''t'' [''C'', ''R''] CTable)" by code_simp+
  have own: "own_ids bad_table" by (rule own_idsI) code_simp
  have root: "rooted bad_table ''r''" and pick: "Pick bad_table ''t'' = Some (new_block ''t'' [''C'', ''R''] CTable)"
    unfolding bad_table_def by (rule table_state_simps)+
  have "(''t'', ''t'') \<notin> (child bad_table)\<^sup>+" using walk unfolding bad_table_def by (rule table_state_acyclic)
  from Normalize_table_ok [OF own rooted_nonempty [OF root] this pick _ sorts_sort_key]
  obtain ss' where s: "Normalize_table (sort_key fst) ''t'' bad_table = Some (Inr (), ss')" "table_ok ss' ''t''"
      "\<forall>r p. rooted bad_table r \<and> acyclic_from bad_table r \<and> reach bad_table r p \<and> (p, ''t'') \<in> child bad_table \<and>
         (\<forall>i. (''t'', i) \<in> (child bad_table)\<^sup>+ \<longrightarrow> flat_groups bad_table i) \<longrightarrow>
         (\<forall>x. reach bad_table r x \<and> \<not> group_at bad_table x \<longrightarrow> reach ss' r x)"
    unfolding if_P [OF layouts] by (auto simp: new_block_def)
  have plain: "\<not> group_at bad_table x" for x
    by (auto simp: group_at_def bad_table_def table_state_def empty_state_def sample_block_def new_block_def makeColumn_def row_block_of_def
      cell_block_def isDivLayout_def layout_TableColumns_def layout_TableRows_def layout_Div_def)
  have links: "(''r'', ''t'') \<in> child bad_table" "(''t'', ''R'') \<in> child bad_table" "(''R'', ''z'') \<in> child bad_table" "(''R'', ''x'') \<in> child bad_table"
    "(''x'', ''x-q'') \<in> child bad_table"
    by (simp_all add: child_def bad_table_def table_state_def empty_state_def sample_block_def new_block_def makeColumn_def row_block_of_def cell_block_def)
  then have "reach bad_table ''r'' ''z''" "reach bad_table ''r'' ''x-q''"
    using reach_step [OF reach_refl, of "''r''"] reach_step [of bad_table "''r''"] by blast+
  moreover have "flat_groups bad_table i" for i using plain by (simp add: flat_groups_def no_groups_def list_all_iff)
  ultimately have "reach ss' ''r'' ''x-q''" "reach ss' ''r'' ''z''"
    using s(3) links(1) walk plain root unfolding walk_error_iff by (meson reach_refl)+
  then show ?thesis using s(1,2) by blast
qed

text \<open>The text and the cell of the unknown column go under the table, the missing row and column come back.\<close>

lemma bad_table_repaired:
  "map_option (\<lambda>(_, ss). map (kids ss) [''r'', ''C'', ''R'', ''x'', ''y'']) (Normalize_table (sort_key fst) ''t'' bad_table) =
     Some [[''t'', ''z'', ''x-q''], [''a'', ''b''], [''h'', ''x'', ''y''], [''x-a'', ''x-b''], []]"
  by code_simp

lemma good_table_sound:
  "sound_table good_table ''r'' (new_block ''t'' [''C'', ''R''] CTable) (new_block ''C'' [''a'', ''b'', ''c''] (CLayout layout_TableColumns))
     (new_block ''R'' [''h'', ''x''] (CLayout layout_TableRows))"
proof -
  have root: "rooted good_table ''r''" by (simp add: good_table_def table_state_simps)
  have "fst (Validate good_table) = None" by code_simp
  then have "tree good_table ''r''" using root by (simp add: Validate_rooted)
  moreover have "own_ids good_table" by (rule own_idsI) code_simp
  moreover have "snd (walk good_table [] ''r'') = None" by code_simp
  then have "reach good_table ''r'' ''t''" unfolding good_table_def by (rule table_state_acyclic(2))
  moreover have "has_layouts good_table (new_block ''t'' [''C'', ''R''] CTable)" "table_ok good_table ''t''" by code_simp+
  moreover have "Columns (new_block ''t'' [''C'', ''R''] CTable) good_table = Some (new_block ''C'' [''a'', ''b'', ''c''] (CLayout layout_TableColumns))" by code_simp
  moreover have "Rows (new_block ''t'' [''C'', ''R''] CTable) good_table = Some (new_block ''R'' [''h'', ''x''] (CLayout layout_TableRows))" by code_simp
  moreover have "list_all (no_groups good_table) [''h'', ''x'']" by code_simp
  ultimately show ?thesis
    using root unfolding sound_table_def by (simp add: new_block_def) (simp add: good_table_def table_state_simps new_block_def)
qed

theorem RowListFill_fills_witness:
  "\<exists>ss'. RowListFill [''x''] good_table = Some (Inr (), ss') \<and> kids ss' ''x'' = [''x-a'', ''x-b'', ''x-c''] \<and> table_ok ss' ''t''"
proof -
  obtain ss' where s: "RowListFill [''x''] good_table = Some (Inr (), ss')" "Pick ss' = filled [''x''] [''a'', ''b'', ''c''] (Pick good_table)" "table_ok ss' ''t''"
    using RowListFill_fills [OF good_table_sound, of "[''x'']"] by (auto simp: new_block_def)
  have "map_option ChildrenIds (filled [''x''] [''a'', ''b'', ''c''] (Pick good_table) ''x'') = Some [''x-a'', ''x-b'', ''x-c'']" by code_simp
  then have "kids ss' ''x'' = [''x-a'', ''x-b'', ''x-c'']" by (auto simp: kids_def s(2))
  then show ?thesis using s by blast
qed

theorem ColumnMove_moves_witness:
  "\<exists>ss'. ColumnMove id (sort_key fst) ''a'' ''c'' Block_Right good_table = Some (Inr (), ss') \<and> table_ok ss' ''t'' \<and>
    map_option ChildrenIds (Columns (new_block ''t'' [''C'', ''R''] CTable) ss') = Some [''b'', ''c'', ''a'']"
  using ColumnMove_moves [OF good_table_sound _ _ _ _ sorts_sort_key, of "''a''" "[''b'']" "''c''" "[]" Block_Right Block_Bottom id]
  by (auto simp: new_block_def beside_def)

text \<open>A child of the rows that stands beside a group is lost.\<close>

lemma beside_group_lost:
  "map_option (\<lambda>(_, ss). kids ss ''R'')
     (NewTable ''t'' (table_state [] [''g'', ''y''] [new_block ''g'' [''x''] (CLayout layout_Div), makeRow ''x'', makeRow ''y''])) = Some [''x'']"
  by code_simp

text \<open>Cleaning a row with three empty cells leaves the second one when the row is a block of the state, and none when it is one of the parent.\<close>

definition empty_cells :: "State list" where
  "empty_cells = table_state [''a'', ''b'', ''c''] [''x'']
     [makeColumn ''a'', makeColumn ''b'', makeColumn ''c'', row_block_of ''x'' False [''x-a'', ''x-b'', ''x-c''],
      cell_block ''x-a'' [], cell_block ''x-b'' [], cell_block ''x-c'' []]"

lemma empty_cell_skipped:
  "map_option (\<lambda>(_, ss). kids ss ''x'') (RowListClean [''x''] empty_cells) = Some [''x-b'']"
  "map_option (\<lambda>(_, ss). kids ss ''x'') (RowListClean [''x''] (NewState empty_cells)) = Some []"
  by code_simp+

text \<open>A table without rows cannot be expanded, and a table with a missing cell cannot be copied: both panic.\<close>

lemma Expand_panics: "Expand id (sort_key fst) ''t'' [] [''n''] (table_state [] [] []) = None"
  by code_simp

lemma Duplicate_panics:
  "Duplicate_table (\<lambda>n. replicate (Suc n) CHR ''1'') ''t''
     (table_state [''a''] [''x''] [makeColumn ''a'', row_block_of ''x'' False [''x-a'']]) = None"
  by code_simp

text \<open>The texts 1 and 2 and one that is read as not-a-number: the first two are ordered, both look equal to the third.\<close>

definition number_env :: TextEnv where
  "number_env = \<lparr>te_TrimSpace = id, te_ToLower = id, te_ParseFloat = (\<lambda>s. if s = [78, 97, 78] then Some NaN else if s = [49] then Some (Fin 1)
     else if s = [50] then Some (Fin 2) else None), te_CompareString = (\<lambda>a b. slices_Compare (\<lambda>x y. int x - int y) a b)\<rparr>"

lemma NaN_unordered:
  "table_Less number_env [49] [50]" "\<not> table_Less number_env [49] [78, 97, 78]" "\<not> table_Less number_env [78, 97, 78] [49]"
  "\<not> table_Less number_env [50] [78, 97, 78]" "\<not> table_Less number_env [78, 97, 78] [50]"
  by (simp_all add: table_Less_def number_env_def)

end
