(* ===== verification/SliceSteps.thy ===== *)
theory SliceSteps
  imports SliceDiff "HOL-Library.Multiset"
begin

section \<open>Slice changes applied one at a time (util/slice/diff.go)\<close>

text \<open>
  Changes of a collection are stored and applied one by one, each by a call of \<open>ApplyChanges\<close> of its own that starts from
  the slice of the moment. The theory shows that the changes of a difference give the same result in this way as in one
  call: they move ids of the old slice, which stay in it until the removal at the end, and add every new id once.
\<close>

text \<open>What a hunk inserts, and what of the old slice no hunk deletes.\<close>

definition inserted :: "string list \<Rightarrow> hunk list \<Rightarrow> string list" where
  "inserted B hs = concat (map (\<lambda>h. take (hIns h) (drop (hB h) B)) hs)"

fun kept :: "string list \<Rightarrow> nat \<Rightarrow> hunk list \<Rightarrow> string list" where
  "kept A i [] = drop i A"
| "kept A i (h # hs) = take (hA h - i) (drop i A) @ kept A (hA h + hDel h) hs"

lemma edit_mset:
  "edit_from A B fr i j hs \<Longrightarrow> mset (drop j B) = mset (kept A i hs) + mset (inserted B hs)"
proof (induction hs arbitrary: fr i j)
  case (Cons h hs)
  have "drop j B = take (hB h - j) (drop j B) @ take (hIns h) (drop (hB h) B) @ drop (hB h + hIns h) B"
    using Cons.prems by (intro drop_three) simp
  then have "mset (drop j B) = mset (take (hB h - j) (drop j B)) + mset (take (hIns h) (drop (hB h) B)) + mset (drop (hB h + hIns h) B)"
    by (metis mset_append add.assoc)
  moreover have "mset (drop (hB h + hIns h) B) = mset (kept A (hA h + hDel h) hs) + mset (inserted B hs)"
    using Cons.IH [of False "hA h + hDel h" "hB h + hIns h"] Cons.prems by simp
  moreover have "take (hB h - j) (drop j B) = take (hA h - i) (drop i A)" using Cons.prems by (metis edit_from.simps(2))
  ultimately show ?case by (simp only: kept.simps inserted_def list.map concat.simps mset_append ac_simps)
qed (simp add: inserted_def)

lemma edit_set: "edit_from A B fr i j hs \<Longrightarrow> set (drop i A) = set (kept A i hs) \<union> dset A hs"
proof (induction hs arbitrary: fr i j)
  case (Cons h hs)
  have "drop i A = take (hA h - i) (drop i A) @ take (hDel h) (drop (hA h) A) @ drop (hA h + hDel h) A"
    using Cons.prems by (intro drop_three) simp
  then have "set (drop i A) = set (take (hA h - i) (drop i A)) \<union> set (take (hDel h) (drop (hA h) A)) \<union> set (drop (hA h + hDel h) A)"
    by (metis set_append Un_assoc)
  moreover have "set (drop (hA h + hDel h) A) = set (kept A (hA h + hDel h) hs) \<union> dset A hs"
    using Cons.IH [of False "hA h + hDel h" "hB h + hIns h"] Cons.prems by simp
  ultimately show ?case by auto
qed simp

text \<open>What a change inserts; the changes of a difference insert every id once, move old ids and add new ones.\<close>

fun placed :: "string change \<Rightarrow> string list" where
  "placed (ChangeAdd items _) = items"
| "placed (ChangeMove ids _) = ids"
| "placed _ = []"

fun old_or_new :: "string set \<Rightarrow> string change \<Rightarrow> bool" where
  "old_or_new Old (ChangeAdd items _) \<longleftrightarrow> set items \<inter> Old = {}"
| "old_or_new Old (ChangeMove ids _) \<longleftrightarrow> set ids \<subseteq> Old"
| "old_or_new Old NoChange \<longleftrightarrow> True"
| "old_or_new Old _ \<longleftrightarrow> False"

definition tidy :: "string set \<Rightarrow> string list \<Rightarrow> string change list \<Rightarrow> string list \<Rightarrow> bool" where
  "tidy Old dels0 chs dels \<longleftrightarrow> list_all (old_or_new Old) chs \<and> set dels = set dels0 - set (concat (map placed chs))"

lemma insert_items_tidy:
  assumes "tidy Old dels0 (result @ [oneCh]) dels" "set dels0 \<subseteq> Old"
    and "distinct (concat (map placed (result @ [oneCh])) @ its)" "\<forall>x\<in>set its. x \<in> Old \<longrightarrow> x \<in> set dels0"
    and "fold (insert_item (\<lambda>x. x)) its (result, oneCh, dels, af) = (result', oneCh', dels', af')"
  shows "tidy Old dels0 (result' @ [oneCh']) dels' \<and>
    concat (map placed (result' @ [oneCh'])) = concat (map placed (result @ [oneCh])) @ its"
  using assms
proof (induction its arbitrary: result oneCh dels af)
  case (Cons x its)
  obtain r1 c1 d1 a1 where st: "insert_item (\<lambda>x. x) x (result, oneCh, dels, af) = (r1, c1, d1, a1)"
    by (metis prod_cases4)
  have px: "x \<notin> set (concat (map placed (result @ [oneCh])))" using Cons.prems(3) by auto
  then have dx: "x \<in> set dels \<longleftrightarrow> x \<in> Old"
    using Cons.prems(1,2,4) by (auto simp: tidy_def)
  have step: "tidy Old dels0 (r1 @ [c1]) d1 \<and> concat (map placed (r1 @ [c1])) = concat (map placed (result @ [oneCh])) @ [x]"
    using Cons.prems(1) st dx px
    by (cases oneCh; cases "x \<in> Old") (auto simp: Let_def tidy_def split: if_splits)
  then have "concat (map placed (r1 @ [c1])) @ its = concat (map placed (result @ [oneCh])) @ x # its" by simp
  moreover have "fold (insert_item (\<lambda>x. x)) its (r1, c1, d1, a1) = (result', oneCh', dels', af')"
    using Cons.prems(5) by (simp only: fold_Cons comp_def st)
  moreover have "\<forall>y\<in>set its. y \<in> Old \<longrightarrow> y \<in> set dels0" using Cons.prems(4) by simp
  ultimately have "tidy Old dels0 (result' @ [oneCh']) dels' \<and>
      concat (map placed (result' @ [oneCh'])) = concat (map placed (r1 @ [c1])) @ its"
    using step Cons.prems(2,3) by (intro Cons.IH) (simp_all only: simp_thms)
  with step show ?case by simp
qed simp

lemma placed_Len: "change_Len ch = 0 \<Longrightarrow> placed ch = []"
  by (cases ch) auto

lemma diff_hunk_tidy:
  assumes t: "tidy Old dels0 result dels" "set dels0 \<subseteq> Old"
    and d: "distinct (concat (map placed result) @ inserted B [c])" "\<forall>x\<in>set (inserted B [c]). x \<in> Old \<longrightarrow> x \<in> set dels0"
    and h: "diff_hunk (\<lambda>x. x) A B c (result, dels) = (result', dels')"
  shows "tidy Old dels0 result' dels' \<and> concat (map placed result') = concat (map placed result) @ inserted B [c]"
proof (cases "hIns c \<le> 0")
  case True
  with assms show ?thesis by (simp add: diff_hunk_def inserted_def)
next
  case False
  define af where "af = (if hA c > 0 then A ! (hA c - 1) else [])"
  obtain r ch ds a where f: "fold (insert_item (\<lambda>x. x)) (inserted B [c]) (result, NoChange, dels, af) = (r, ch, ds, a)"
    by (metis prod_cases4)
  then have "(if change_Len ch > 0 then r @ [ch] else r, ds) = (result', dels')"
    using h False by (simp add: diff_hunk_def inserted_def af_def)
  moreover have "tidy Old dels0 (r @ [ch]) ds \<and>
      concat (map placed (r @ [ch])) = concat (map placed (result @ [NoChange])) @ inserted B [c]"
    using t d by (intro insert_items_tidy [OF _ _ _ _ f]) (auto simp: tidy_def)
  ultimately show ?thesis using placed_Len [of ch] by (auto simp: tidy_def split: if_splits)
qed

lemma hunks_tidy:
  assumes "tidy Old dels0 result dels" "set dels0 \<subseteq> Old"
    and "distinct (concat (map placed result) @ inserted B hs)" "\<forall>x\<in>set (inserted B hs). x \<in> Old \<longrightarrow> x \<in> set dels0"
    and "fold (diff_hunk (\<lambda>x. x) A B) hs (result, dels) = (result', dels')"
  shows "tidy Old dels0 result' dels' \<and> concat (map placed result') = concat (map placed result) @ inserted B hs"
  using assms
proof (induction hs arbitrary: result dels)
  case (Cons h hs)
  obtain r ds where st: "diff_hunk (\<lambda>x. x) A B h (result, dels) = (r, ds)" by fastforce
  have split: "inserted B (h # hs) = inserted B [h] @ inserted B hs" by (simp add: inserted_def)
  have one: "tidy Old dels0 r ds \<and> concat (map placed r) = concat (map placed result) @ inserted B [h]"
    using Cons.prems by (intro diff_hunk_tidy [OF _ _ _ _ st]) (auto simp: split)
  have "fold (diff_hunk (\<lambda>x. x) A B) hs (r, ds) = (result', dels')"
    using Cons.prems(5) by (simp only: fold_Cons comp_def st)
  with Cons.IH [of r ds] one Cons.prems(2-4) show ?case by (auto simp: split)
qed (simp add: inserted_def)

lemma insert_items_change:
  "NoChange \<notin> set (fst st) \<Longrightarrow> NoChange \<notin> set (fst (fold (insert_item g) its st))"
proof (induction its arbitrary: st)
  case (Cons x its)
  have "NoChange \<notin> set (fst (insert_item g x st))"
    using Cons.prems by (cases st rule: prod_cases4; cases "fst (snd st)") (auto simp: Let_def)
  with Cons.IH show ?case by simp
qed simp

lemma hunks_change: "NoChange \<notin> set (fst st) \<Longrightarrow> NoChange \<notin> set (fst (fold (diff_hunk g A B) hs st))"
proof (induction hs arbitrary: st)
  case (Cons h hs)
  have "NoChange \<notin> set (fst (diff_hunk g A B h st))"
    using Cons.prems insert_items_change [of "(fst st, NoChange, snd st, if hA h > 0 then g (A ! (hA h - 1)) else [])" g "take (hIns h) (drop (hB h) B)"]
    by (cases st) (auto simp: diff_hunk_def Let_def split: prod.splits)
  with Cons.IH show ?case by simp
qed simp

lemma replaces_same: "replaces (\<lambda>x. x) (=) A B = []"
proof -
  have "map_of (rev (map (\<lambda>c. (c, c)) B)) x = Some v \<Longrightarrow> x = v" for x v
    using map_of_ids [of "\<lambda>x. x" B x v] by simp
  then show ?thesis by (auto simp: replaces_def concat_eq_Nil_conv split: option.split)
qed

lemma Diff_tidy:
  assumes u: "uniq_doc uniq" and e: "edit_doc edit (\<lambda>x. x)" and d: "distinct A"
  obtains chs dels where "Diff uniq edit A changed (\<lambda>x. x) (=) = (if dels \<noteq> [] then chs @ [ChangeRemove (sort dels)] else chs)"
    "list_all (old_or_new (set A)) chs" "distinct (concat (map placed chs))" "NoChange \<notin> set chs"
proof -
  define B where "B = uniq (\<lambda>x. x) changed"
  define hs where "hs = edit (length A) (length B) (MixedInput_Equal (\<lambda>x. x) A B)"
  have A: "uniq (\<lambda>x. x) A = A" using u d by (simp add: uniq_doc_def)
  have B: "distinct B" using u [unfolded uniq_doc_def, rule_format, of "\<lambda>x. x" changed] by (simp add: B_def)
  have es: "edit_from A B True 0 0 hs" using e by (auto simp: edit_doc_def edit_script_def hs_def)
  have dels: "set (delMap (\<lambda>x. x) A hs) = dset A hs" using set_delMap [of "\<lambda>x. x" A hs] by simp
  have m: "mset B = mset (kept A 0 hs) + mset (inserted B hs)" using edit_mset [OF es] by simp
  with B have "distinct (kept A 0 hs @ inserted B hs)" by (metis mset_append mset_eq_imp_distinct_iff)
  then have di: "distinct (inserted B hs)" "set (kept A 0 hs) \<inter> set (inserted B hs) = {}" by auto
  have sA: "set A = set (kept A 0 hs) \<union> dset A hs" using edit_set [OF es] by simp
  obtain result ds where f: "fold (diff_hunk (\<lambda>x. x) A B) hs ([], delMap (\<lambda>x. x) A hs) = (result, ds)" by fastforce
  have "tidy (set A) (delMap (\<lambda>x. x) A hs) result ds \<and> concat (map placed result) = concat (map placed []) @ inserted B hs"
    using di sA by (intro hunks_tidy [OF _ _ _ _ f]) (auto simp: tidy_def dels)
  then have "list_all (old_or_new (set A)) result" "distinct (concat (map placed result))"
    using di by (auto simp: tidy_def)
  moreover have "Diff uniq edit A changed (\<lambda>x. x) (=) = (if ds \<noteq> [] then result @ [ChangeRemove (sort ds)] else result)"
    using f by (simp add: Diff_def A replaces_same flip: B_def hs_def)
  moreover have "NoChange \<notin> set result"
    using hunks_change [of "([], delMap (\<lambda>x. x) A hs)" "\<lambda>x. x" A B hs] f by simp
  ultimately show thesis using that by blast
qed

lemma Diff_kinds:
  assumes "uniq_doc uniq" "edit_doc edit (\<lambda>x. x)" "distinct A" "ch \<in> set (Diff uniq edit A changed (\<lambda>x. x) (=))"
  shows "\<not> (\<exists>v i. ch = ChangeReplace v i) \<and> ch \<noteq> NoChange"
proof -
  obtain chs dels where d: "Diff uniq edit A changed (\<lambda>x. x) (=) = (if dels \<noteq> [] then chs @ [ChangeRemove (sort dels)] else chs)"
    "list_all (old_or_new (set A)) chs" "NoChange \<notin> set chs"
    using Diff_tidy [OF assms(1-3)] by blast
  have "\<not> old_or_new (set A) (ChangeReplace v i)" for v i by simp
  with d assms(4) show ?thesis by (fastforce simp: list_all_iff split: if_splits)
qed

fun apply_each :: "((string \<Rightarrow> string) \<Rightarrow> string list \<Rightarrow> string list) \<Rightarrow> string change list \<Rightarrow> string list \<Rightarrow> string list option" where
  "apply_each uniq [] res = Some res"
| "apply_each uniq (ch # chs) res = Option.bind (ApplyChanges uniq res [ch] (\<lambda>x. x)) (apply_each uniq chs)"

lemma map_of_self: "map_of (fold (\<lambda>it. put it it) xs m) x = (if x \<in> set xs then Some x else map_of m x)"
  by (induction xs arbitrary: m) auto

lemma map_filter_self: "set ids \<subseteq> set xs \<Longrightarrow> List.map_filter (map_of (fold (\<lambda>it. put it it) xs [])) ids = ids"
  by (induction ids) (auto simp: List.map_filter_def map_of_self)

lemma Insert_s_sets:
  assumes "Insert_s xs pos items = Some ys"
  shows "set ys = set xs \<union> set items \<and> (distinct xs \<longrightarrow> distinct items \<longrightarrow> set xs \<inter> set items = {} \<longrightarrow> distinct ys)"
proof -
  have "0 \<le> pos" using assms Insert_s_panics [of pos xs items] by force
  then have "ys = take (nat pos) xs @ items @ drop (nat pos) xs" using assms by simp
  then have "mset ys = mset (xs @ items)" by (simp add: ac_simps flip: mset_append)
      (metis append_take_drop_id mset_append add.commute add.left_commute)
  then show ?thesis by (metis distinct_append mset_eq_imp_distinct_iff mset_eq_setD set_append)
qed

lemma uniq_distinct: "uniq_doc uniq \<Longrightarrow> distinct xs \<Longrightarrow> uniq (\<lambda>x. x) xs = xs"
  by (simp add: uniq_doc_def)

lemma change_same:
  assumes u: "uniq_doc uniq" and S: "distinct S" "set A \<subseteq> set S" and ch: "old_or_new (set A) ch" "distinct (placed ch)"
    and fresh: "set (placed ch) \<inter> set S \<subseteq> set A"
    and step: "apply_change (\<lambda>x. x) ch (S, fold (\<lambda>it. put it it) A []) = Some (S', im')"
  shows "ApplyChanges uniq S [ch] (\<lambda>x. x) = Some S' \<and> im' = fold (\<lambda>it. put it it) A [] \<and>
    distinct S' \<and> set S' = set S \<union> set (placed ch)"
proof (cases ch)
  case (ChangeAdd items af)
  then have "set items \<inter> set S = {}" using ch fresh by auto
  with ChangeAdd assms show ?thesis
    by (auto simp: ApplyChanges_def uniq_distinct dest: Insert_s_sets)
next
  case (ChangeMove ids af)
  then have ids: "set ids \<subseteq> set A" "set ids \<subseteq> set S" "distinct ids" using ch S by auto
  note [simp] = map_filter_self [OF ids(1)] map_filter_self [OF ids(2)]
  let ?r = "FilterMut S (\<lambda>x. FindPos ids x < 0)"
  have r: "set ?r = set S - set ids" "distinct ?r" using S by (auto simp: FilterMut_def)
  from step ChangeMove have ins: "Insert_s ?r (after_pos ?r (\<lambda>x. x) af + 1) ids = Some S'" "im' = fold (\<lambda>it. put it it) A []"
    by (auto simp: Let_def)
  then have "ApplyChanges uniq S [ch] (\<lambda>x. x) = Some S'"
    using u S by (simp add: ApplyChanges_def uniq_distinct ChangeMove Let_def)
  with ins(2) Insert_s_sets [OF ins(1)] r ids ChangeMove show ?thesis by auto
qed (use assms in \<open>auto simp: ApplyChanges_def uniq_distinct\<close>)

lemma each_same:
  assumes u: "uniq_doc uniq" and "distinct S" "set A \<subseteq> set S" "list_all (old_or_new (set A)) chs"
    and "distinct (concat (map placed chs))" "set (concat (map placed chs)) \<inter> set S \<subseteq> set A"
    and "apply_loop (\<lambda>x. x) chs (S, fold (\<lambda>it. put it it) A []) = Some (S', im')"
  shows "apply_each uniq chs S = Some S' \<and> distinct S'"
  using assms(2-)
proof (induction chs arbitrary: S)
  case (Cons ch chs)
  obtain S1 im1 where st: "apply_change (\<lambda>x. x) ch (S, fold (\<lambda>it. put it it) A []) = Some (S1, im1)"
    using Cons.prems(6) by (auto split: option.splits)
  have one: "ApplyChanges uniq S [ch] (\<lambda>x. x) = Some S1 \<and> im1 = fold (\<lambda>it. put it it) A [] \<and>
      distinct S1 \<and> set S1 = set S \<union> set (placed ch)"
    using Cons.prems by (intro change_same [OF u _ _ _ _ _ st]) auto
  with Cons.IH [of S1] Cons.prems st show ?case by auto
qed simp

lemma apply_each_append:
  "apply_each uniq (xs @ ys) res = Option.bind (apply_each uniq xs res) (apply_each uniq ys)"
  by (induction xs arbitrary: res) (auto simp: bind_assoc split: Option.bind_splits)

lemma Diff_apply_each:
  assumes u: "uniq_doc uniq" and e: "edit_doc edit (\<lambda>x. x)" and d: "distinct A" and ne: "[] \<notin> set changed"
  shows "apply_each uniq (Diff uniq edit A changed (\<lambda>x. x) (=)) A = Some (uniq (\<lambda>x. x) changed)"
proof -
  obtain chs dels where df: "Diff uniq edit A changed (\<lambda>x. x) (=) = (if dels \<noteq> [] then chs @ [ChangeRemove (sort dels)] else chs)"
    and ok: "list_all (old_or_new (set A)) chs" "distinct (concat (map placed chs))"
    using Diff_tidy [OF u e d] by blast
  let ?rm = "\<lambda>S. if dels \<noteq> [] then FilterMut S (\<lambda>x. FindPos (sort dels) x < 0) else S"
  have "ApplyChanges uniq A (Diff uniq edit A changed (\<lambda>x. x) (=)) (\<lambda>x. x) = Some (uniq (\<lambda>x. x) changed)"
    using Diff_ApplyChanges_part [OF u e _ _ _, of A changed "(=)" "\<lambda>_. True"] d ne by simp
  then obtain S where S: "apply_loop (\<lambda>x. x) chs (A, fold (\<lambda>it. put it it) A []) = Some S" "?rm (fst S) = uniq (\<lambda>x. x) changed"
    using u d by (auto simp: df ApplyChanges_def uniq_distinct apply_loop_append split: if_splits option.splits)
  obtain S' im where p: "S = (S', im)" by fastforce
  have "apply_each uniq chs A = Some S' \<and> distinct S'"
    by (rule each_same [OF u d _ ok _ S(1) [unfolded p]]) auto
  with S(2) show ?thesis using u by (auto simp: p df apply_each_append ApplyChanges_def uniq_distinct)
qed

end
