(* ===== verification/ObjectData.thy ===== *)
theory ObjectData
  imports Normalize SliceSteps
begin

section \<open>Details, types and collections of a state (core/block/editor/state: state.go, details.go, fileinfo.go)\<close>

text \<open>
  Beside its blocks a state holds details, local details, links to relations, object types, a store of nested
  values for collections and settings, notifications, devices and the keys of a file. Each of them is nil in a
  state that has not written it, and readers then look at the parent. The theory models their readers and writers.
  An operation works on the chain of states and changes its head; a panic is \<^term>\<open>None\<close>.

  Parameters are the keys of local and derived relations, which a generated table lists, the formats of bundled
  relations, the comparison of protobuf values, the current time, and the functions of the slice difference.
\<close>

subsection \<open>Details\<close>

definition CombinedDetails :: "State list \<Rightarrow> gmap" where
  "CombinedDetails ss = Merge (Details_of ss) (LocalDetails_of ss)"

definition iterateKeys :: "State list \<Rightarrow> string list" where
  "iterateKeys ss = IterateKeys (Details_of ss) @ IterateKeys (LocalDetails_of ss)"

definition HasRelation :: "State list \<Rightarrow> string \<Rightarrow> bool" where
  "HasRelation ss key \<longleftrightarrow> key \<in> set (iterateKeys ss)"

text \<open>
  The details that a write of a key starts from: those of the state, else a copy of those of the parent, else new ones.
  A write of the value that the parent already has leaves the state as it is.
\<close>

definition own_or_parent :: "gmap \<Rightarrow> gmap \<Rightarrow> (string \<times> Value) list" where
  "own_or_parent own parent = (case own of Some m \<Rightarrow> m | None \<Rightarrow> (case parent of Some m \<Rightarrow> the (Copy (Some m)) | None \<Rightarrow> []))"

definition unchanged_detail :: "gmap \<Rightarrow> gmap \<Rightarrow> string \<Rightarrow> Value \<Rightarrow> bool" where
  "unchanged_detail own parent key value \<longleftrightarrow> own = None \<and> parent \<noteq> None \<and> Ok (Get parent key) \<and> Equal (Get parent key) value"

fun SetLocalDetail :: "string \<Rightarrow> Value \<Rightarrow> State list \<Rightarrow> State list" where
  "SetLocalDetail key value (s # ps) =
     (if unchanged_detail (st_localDetails s) (LocalDetails_of ps) key value then s # ps
      else s\<lparr>st_localDetails := Some (put key value (own_or_parent (st_localDetails s) (LocalDetails_of ps)))\<rparr> # ps)"
| "SetLocalDetail key value [] = []"

fun SetDetail :: "string list \<Rightarrow> string \<Rightarrow> Value \<Rightarrow> State list \<Rightarrow> State list" where
  "SetDetail localKeys key value (s # ps) =
     (if key \<in> set localKeys then SetLocalDetail key value (s # ps)
      else if unchanged_detail (st_details s) (Details_of ps) key value then s # ps
      else s\<lparr>st_details := Some (put key value (own_or_parent (st_details s) (Details_of ps)))\<rparr> # ps)"
| "SetDetail localKeys key value [] = []"

definition AddDetails :: "string list \<Rightarrow> gmap \<Rightarrow> State list \<Rightarrow> State list" where
  "AddDetails localKeys d = fold (\<lambda>kv. SetDetail localKeys (fst kv) (snd kv)) (GenericMap.Iterate d)"

definition SetDetails :: "string list \<Rightarrow> gmap \<Rightarrow> State list \<Rightarrow> State list" where
  "SetDetails localKeys d ss =
     (let loc = CopyOnlyKeys d localKeys
      in if Len loc > 0
         then with_state (\<lambda>s. s\<lparr>st_details := CopyWithoutKeys d localKeys\<rparr>)
           (fold (\<lambda>kv. SetLocalDetail (fst kv) (snd kv)) (GenericMap.Iterate loc) ss)
         else with_state (\<lambda>s. s\<lparr>st_details := d\<rparr>) ss)"

definition SetLocalDetails :: "gmap \<Rightarrow> State list \<Rightarrow> State list" where
  "SetLocalDetails d = with_state (\<lambda>s. s\<lparr>st_localDetails := d\<rparr>)"

text \<open>Keys are deleted from a copy, which is written when one of them was present.\<close>

definition without_present :: "string list \<Rightarrow> gmap \<Rightarrow> gmap \<times> bool" where
  "without_present ks d = (map_option (\<lambda>m. fold del [k \<leftarrow> ks. map_of m k \<noteq> None] m) (Copy d), list_ex (Has d) ks)"

definition RemoveLocalDetail :: "string list \<Rightarrow> State list \<Rightarrow> bool \<times> State list" where
  "RemoveLocalDetail ks ss =
     (case without_present ks (LocalDetails_of ss) of (det, found) \<Rightarrow> (found, if found then SetLocalDetails det ss else ss))"

definition RemoveDetail :: "string list \<Rightarrow> string list \<Rightarrow> State list \<Rightarrow> bool \<times> State list" where
  "RemoveDetail localKeys ks ss =
     (case without_present ks (Details_of ss) of (det, found) \<Rightarrow>
        (case RemoveLocalDetail ks (if found then SetDetails localKeys det ss else ss) of (found', ss) \<Rightarrow> (found' \<or> found, ss)))"

subsection \<open>Relation links and types\<close>

definition links_Has :: "(string \<times> int) list \<Rightarrow> string \<Rightarrow> bool" where
  "links_Has rl key = list_ex (\<lambda>l. fst l = key) rl"

definition links_Diff :: "(string \<times> int) list \<Rightarrow> (string \<times> int) list \<Rightarrow> (string \<times> int) list \<times> string list" where
  "links_Diff rl prev =
     (let common = map fst [l \<leftarrow> rl. links_Has prev (fst l)]
      in ([l \<leftarrow> rl. \<not> links_Has prev (fst l)], map fst [l \<leftarrow> prev. fst l \<notin> set common]))"

fun pickRelationLinks :: "State list \<Rightarrow> (string \<times> int) list option" where
  "pickRelationLinks [] = None"
| "pickRelationLinks (s # ps) = (case st_relationLinks s of Some rl \<Rightarrow> Some rl | None \<Rightarrow> pickRelationLinks ps)"

text \<open>\<open>getRelationLinks\<close> copies the links of an ancestor into the state; the copy of nil is empty.\<close>

fun getRelationLinks :: "State list \<Rightarrow> (string \<times> int) list option \<times> State list" where
  "getRelationLinks [] = (None, [])"
| "getRelationLinks (s # ps) =
     (case st_relationLinks s of
        Some rl \<Rightarrow> (Some rl, s # ps)
      | None \<Rightarrow>
          if ps = [] then (None, s # ps)
          else (let rl = Some (case pickRelationLinks ps of Some rl \<Rightarrow> rl | None \<Rightarrow> []) in (rl, s\<lparr>st_relationLinks := rl\<rparr> # ps)))"

definition links_of :: "(string \<times> int) list option \<Rightarrow> (string \<times> int) list" where
  "links_of rl = (case rl of Some rl \<Rightarrow> rl | None \<Rightarrow> [])"

definition add_links :: "(string \<times> int) list \<Rightarrow> (string \<times> int) list \<Rightarrow> (string \<times> int) list" where
  "add_links = fold (\<lambda>l rl. if links_Has rl (fst l) then rl else rl @ [l])"

text \<open>Nothing that is appended to nil stays nil.\<close>

definition AddRelationLinks :: "(string \<times> int) list \<Rightarrow> State list \<Rightarrow> State list" where
  "AddRelationLinks links ss =
     (case getRelationLinks ss of (rl, ss) \<Rightarrow>
        with_state (\<lambda>s. s\<lparr>st_relationLinks := (if rl = None \<and> links = [] then None else Some (add_links links (links_of rl)))\<rparr>) ss)"

definition AddBundledRelationLinks :: "(string \<Rightarrow> int option) \<Rightarrow> string list \<Rightarrow> State list \<Rightarrow> State list option" where
  "AddBundledRelationLinks bundled ks ss =
     (let missing = [k \<leftarrow> ks. \<not> links_Has (links_of (pickRelationLinks ss)) k]
      in if list_all (\<lambda>k. bundled k \<noteq> None) missing
         then Some (if missing = [] then ss else AddRelationLinks (map (\<lambda>k. (k, the (bundled k))) missing) ss)
         else None)"

definition SetDetailAndBundledRelation :: "string list \<Rightarrow> (string \<Rightarrow> int option) \<Rightarrow> string \<Rightarrow> Value \<Rightarrow> State list \<Rightarrow> State list option" where
  "SetDetailAndBundledRelation localKeys bundled key value ss =
     map_option (SetDetail localKeys key value) (AddBundledRelationLinks bundled [key] ss)"

text \<open>Removing a relation removes its link, its value and its place in the list of featured relations.\<close>

definition RemoveRelation :: "string list \<Rightarrow> string list \<Rightarrow> State list \<Rightarrow> State list" where
  "RemoveRelation localKeys ks ss =
     (case getRelationLinks ss of (rl, ss) \<Rightarrow>
       (let ss = with_state (\<lambda>s. s\<lparr>st_relationLinks := Some [l \<leftarrow> links_of rl. fst l \<notin> set ks]\<rparr>) ss;
            ss = snd (RemoveDetail localKeys ks ss);
            featured = GetStringList (Details_of ss) ''featuredRelations''
        in if list_ex (\<lambda>x. x \<in> set ks) featured
           then SetDetail localKeys ''featuredRelations'' (VStringList [x \<leftarrow> featured. x \<notin> set ks]) ss else ss))"

definition SetObjectTypeKeys :: "string list \<Rightarrow> State list \<Rightarrow> State list" where
  "SetObjectTypeKeys ks = with_state (\<lambda>s. s\<lparr>st_objectTypeKeys := Some ks\<rparr>)"

subsection \<open>The store\<close>

fun Store_of :: "State list \<Rightarrow> fields option" where
  "Store_of [] = None"
| "Store_of (s # ps) = (case st_store s of Some st \<Rightarrow> Some st | None \<Rightarrow> Store_of ps)"

fun StoreKeysRemoved :: "State list \<Rightarrow> string list option" where
  "StoreKeysRemoved [] = None"
| "StoreKeysRemoved (s # ps) = (case st_storeKeyRemoved s of Some ks \<Rightarrow> Some ks | None \<Rightarrow> StoreKeysRemoved ps)"

fun StoreLastChangeIdByPath :: "State list \<Rightarrow> (string \<times> string) list option" where
  "StoreLastChangeIdByPath [] = None"
| "StoreLastChangeIdByPath (s # ps) =
     (if st_storeLastChangeIdByPath s = None \<and> ps \<noteq> [] then StoreLastChangeIdByPath ps else st_storeLastChangeIdByPath s)"

definition StoreChangeIdForPath :: "State list \<Rightarrow> string \<Rightarrow> string" where
  "StoreChangeIdForPath ss path =
     (case StoreLastChangeIdByPath ss of None \<Rightarrow> [] | Some m \<Rightarrow> (case map_of m path of Some i \<Rightarrow> i | None \<Rightarrow> []))"

text \<open>The map of change ids is one object for all states that have it.\<close>

fun setStoreChangeId :: "string \<Rightarrow> string \<Rightarrow> State list \<Rightarrow> State list" where
  "setStoreChangeId path changeId [] = []"
| "setStoreChangeId path changeId (s # ps) =
     (let m = put path changeId (case StoreLastChangeIdByPath (s # ps) of Some m \<Rightarrow> m | None \<Rightarrow> [])
      in s\<lparr>st_storeLastChangeIdByPath := Some m\<rparr> #
         map (\<lambda>p. if st_storeLastChangeIdByPath p = None then p else p\<lparr>st_storeLastChangeIdByPath := Some m\<rparr>) ps)"

text \<open>The removed keys of the parent are copied and then replaced by an empty map, as in the code.\<close>

fun createOrCopyStoreFromParent :: "State list \<Rightarrow> State list" where
  "createOrCopyStoreFromParent [] = []"
| "createOrCopyStoreFromParent (s # ps) =
     (if st_store s \<noteq> None then s # ps
      else s\<lparr>st_store := Some (case Store_of (s # ps) of Some st \<Rightarrow> st | None \<Rightarrow> []), st_storeKeyRemoved := Some []\<rparr> # ps)"

fun GetStruct :: "fields \<Rightarrow> string \<Rightarrow> fields option" where
  "GetStruct m k = (case map_of m k of Some (PStruct n) \<Rightarrow> Some n | _ \<Rightarrow> None)"

definition sub_store :: "fields \<Rightarrow> string \<Rightarrow> fields" where
  "sub_store m k = (case GetStruct m k of Some n \<Rightarrow> n | None \<Rightarrow> [])"

text \<open>A write goes down the path and creates what is missing or no struct; a removal does so too and then removes structs that became empty.\<close>

fun put_path :: "string list \<Rightarrow> pval \<Rightarrow> fields \<Rightarrow> fields" where
  "put_path [] v m = m"
| "put_path [k] v m = put k v m"
| "put_path (k # ks) v m = put k (PStruct (put_path ks v (sub_store m k))) m"

fun del_path :: "string list \<Rightarrow> fields \<Rightarrow> fields" where
  "del_path [] m = m"
| "del_path [k] m = del k m"
| "del_path (k # ks) m = (let n = del_path ks (sub_store m k) in if n = [] then del k m else put k (PStruct n) m)"

fun get_path :: "string list \<Rightarrow> fields \<Rightarrow> pval option" where
  "get_path [] m = None"
| "get_path [k] m = map_of m k"
| "get_path (k # ks) m = (case GetStruct m k of None \<Rightarrow> None | Some n \<Rightarrow> get_path ks n)"

fun join_path :: "string list \<Rightarrow> string" where
  "join_path [] = []"
| "join_path [k] = k"
| "join_path (k # ks) = k @ ''-'' @ join_path ks"

type_synonym pval_cmp = "pval \<Rightarrow> pval \<Rightarrow> int"

text \<open>A nil value removes. The first component tells whether something changed. Writing to a nil map of removed keys panics.\<close>

fun setInStore :: "pval_cmp \<Rightarrow> string list \<Rightarrow> pval \<Rightarrow> State list \<Rightarrow> (bool \<times> State list) option" where
  "setInStore cmpV path value [] = None"
| "setInStore cmpV path value (s0 # ps0) =
     (if path = [] then Some (False, s0 # ps0)
      else (case createOrCopyStoreFromParent (s0 # ps0) of
        [] \<Rightarrow> None
      | s # ps \<Rightarrow>
         (let st = the (st_store s); joined = join_path path;
              old = (case get_path path st of Some v \<Rightarrow> v | None \<Rightarrow> PNil)
          in if value \<noteq> PNil
             then Some (cmpV old value \<noteq> 0,
                    with_state (\<lambda>s. s\<lparr>st_storeKeyRemoved := map_option (\<lambda>ks. [k \<leftarrow> ks. k \<noteq> joined]) (st_storeKeyRemoved s)\<rparr>)
                      (setStoreChangeId joined (st_changeId s) (s\<lparr>st_store := Some (put_path path value st)\<rparr> # ps)))
             else (case st_storeKeyRemoved s of
                     None \<Rightarrow> None
                   | Some ks \<Rightarrow>
                       Some (True, setStoreChangeId joined (st_changeId s)
                         (s\<lparr>st_store := Some (del_path path st), st_storeKeyRemoved := Some (List.insert joined ks)\<rparr> # ps))))))"

definition add_change :: "change_content \<Rightarrow> State list \<Rightarrow> State list" where
  "add_change ch = with_state (\<lambda>s. s\<lparr>st_changes := st_changes s @ [ch]\<rparr>)"

definition SetInStore :: "pval_cmp \<Rightarrow> string list \<Rightarrow> pval \<Rightarrow> State list \<Rightarrow> (bool \<times> State list) option" where
  "SetInStore cmpV path value ss =
     (case setInStore cmpV path value ss of
        None \<Rightarrow> None
      | Some (chg, ss) \<Rightarrow>
          Some (chg, if \<not> chg then ss
            else add_change (if value \<noteq> PNil then StoreKeySet path value else StoreKeyUnset path) ss))"

definition ContainsInStore :: "State list \<Rightarrow> string list \<Rightarrow> bool" where
  "ContainsInStore ss path =
     (case Store_of ss of None \<Rightarrow> False | Some st \<Rightarrow> (case get_path path st of Some v \<Rightarrow> v \<noteq> PNil | None \<Rightarrow> False))"

definition removeFromStore :: "pval_cmp \<Rightarrow> string list \<Rightarrow> State list \<Rightarrow> (bool \<times> State list) option" where
  "removeFromStore cmpV path ss =
     (if path = [] \<or> \<not> ContainsInStore ss path then Some (False, ss)
      else map_option (\<lambda>(_, ss). (True, ss)) (setInStore cmpV path PNil ss))"

definition RemoveFromStore :: "pval_cmp \<Rightarrow> string list \<Rightarrow> State list \<Rightarrow> (bool \<times> State list) option" where
  "RemoveFromStore cmpV path ss =
     map_option (\<lambda>(res, ss). (res, if res then add_change (StoreKeyUnset path) ss else ss)) (removeFromStore cmpV path ss)"

text \<open>A value on the path that is not a struct makes \<open>HasInStore\<close> panic.\<close>

fun has_path :: "string list \<Rightarrow> fields \<Rightarrow> bool option" where
  "has_path [] m = Some True"
| "has_path (k # ks) m =
     (case map_of m k of None \<Rightarrow> Some False | Some (PStruct n) \<Rightarrow> has_path ks n | Some _ \<Rightarrow> None)"

definition HasInStore :: "State list \<Rightarrow> string list \<Rightarrow> bool option" where
  "HasInStore ss path = (case Store_of ss of None \<Rightarrow> Some False | Some st \<Rightarrow> has_path path st)"

definition GetSubObjectCollection :: "State list \<Rightarrow> string \<Rightarrow> fields option" where
  "GetSubObjectCollection ss name = Option.bind (Store_of ss) (\<lambda>st. GetStruct st name)"

definition GetStoreSlice :: "State list \<Rightarrow> string \<Rightarrow> string list" where
  "GetStoreSlice ss name =
     (case Store_of ss of None \<Rightarrow> [] | Some st \<Rightarrow> (case map_of st name of Some (PList l) \<Rightarrow> ListValueToStrings l | _ \<Rightarrow> []))"

definition GetSetting :: "State list \<Rightarrow> string \<Rightarrow> pval option" where
  "GetSetting ss name = Option.bind (GetSubObjectCollection ss ''settings'') (\<lambda>m. map_of m name)"

definition SetSetting :: "pval_cmp \<Rightarrow> string \<Rightarrow> pval \<Rightarrow> State list \<Rightarrow> State list option" where
  "SetSetting cmpV name v ss = map_option snd (SetInStore cmpV [''settings'', name] v ss)"

type_synonym slice_uniq = "(string \<Rightarrow> string) \<Rightarrow> string list \<Rightarrow> string list"
type_synonym edit_fun = "nat \<Rightarrow> nat \<Rightarrow> (nat \<Rightarrow> nat \<Rightarrow> bool) \<Rightarrow> hunk list"

text \<open>A replacement has no change of its own: the code passes nil for it.\<close>

fun slice_update_of :: "string change \<Rightarrow> slice_update list" where
  "slice_update_of (ChangeAdd items afterID) = [SliceAdd afterID items]"
| "slice_update_of (ChangeRemove ids) = [SliceRemove ids]"
| "slice_update_of (ChangeMove ids afterID) = [SliceMove afterID ids]"
| "slice_update_of _ = []"

definition UpdateStoreSlice :: "pval_cmp \<Rightarrow> slice_uniq \<Rightarrow> edit_fun \<Rightarrow> string \<Rightarrow> string list \<Rightarrow> State list \<Rightarrow> State list option" where
  "UpdateStoreSlice cmpV uniq edit key val ss =
     map_option (\<lambda>(_, ss').
       fold (\<lambda>u. add_change (StoreSliceUpdate key u))
         (concat (map slice_update_of (Diff uniq edit (GetStoreSlice ss key) val (\<lambda>s. s) (=)))) ss')
       (setInStore cmpV [key] (PList (map PString val)) ss)"

subsection \<open>Notifications, devices and the file of an object\<close>

definition Notification_Read :: int where
  "Notification_Read = 2"

fun ListNotifications :: "State list \<Rightarrow> (string \<times> Notification) list option" where
  "ListNotifications [] = None"
| "ListNotifications (s # ps) = (case st_notifications s of Some m \<Rightarrow> Some m | None \<Rightarrow> ListNotifications ps)"

definition GetNotificationById :: "State list \<Rightarrow> string \<Rightarrow> Notification option" where
  "GetNotificationById ss i = Option.bind (ListNotifications ss) (\<lambda>m. map_of m i)"

text \<open>A range over a nil map does nothing. Entries that are missing come from the parent, under the ids they carry.\<close>

definition map_entries :: "('k \<times> 'v) list option \<Rightarrow> ('k \<times> 'v) list" where
  "map_entries m = (case m of Some m \<Rightarrow> m | None \<Rightarrow> [])"

definition fill_missing :: "('v \<Rightarrow> 'k) \<Rightarrow> ('k \<times> 'v) list \<Rightarrow> ('k \<times> 'v) list \<Rightarrow> ('k \<times> 'v) list" where
  "fill_missing idOf = fold (\<lambda>(_, v) m. if map_of m (idOf v) = None then put (idOf v) v m else m)"

fun AddNotification :: "Notification \<Rightarrow> State list \<Rightarrow> State list" where
  "AddNotification n [] = []"
| "AddNotification n (s # ps) =
     s\<lparr>st_notifications := Some (put (ntf_Id n) n
         (fill_missing ntf_Id (map_entries (ListNotifications ps)) (map_entries (st_notifications s))))\<rparr> # ps"

definition addNotification :: "Notification \<Rightarrow> State list \<Rightarrow> State list" where
  "addNotification n = with_state (\<lambda>s.
     let m = map_entries (st_notifications s)
     in s\<lparr>st_notifications := Some (case map_of m (ntf_Id n) of
          Some old \<Rightarrow> if ntf_Status old = Notification_Read then m else put (ntf_Id n) n m
        | None \<Rightarrow> put (ntf_Id n) n m)\<rparr>)"

definition updateNotification :: "string \<Rightarrow> int \<Rightarrow> State list \<Rightarrow> State list" where
  "updateNotification i status = with_state (\<lambda>s.
     case st_notifications s of
       None \<Rightarrow> s
     | Some m \<Rightarrow>
         (case map_of m i of
            None \<Rightarrow> s
          | Some n \<Rightarrow> if ntf_Status n = Notification_Read then s
                     else s\<lparr>st_notifications := Some (put i (n\<lparr>ntf_Status := status\<rparr>) m)\<rparr>))"

fun ListDevices :: "State list \<Rightarrow> (string \<times> DeviceInfo) list option" where
  "ListDevices [] = None"
| "ListDevices (s # ps) = (case st_deviceStore s of Some m \<Rightarrow> Some m | None \<Rightarrow> ListDevices ps)"

definition GetDevice :: "State list \<Rightarrow> string \<Rightarrow> DeviceInfo option" where
  "GetDevice ss i = Option.bind (ListDevices ss) (\<lambda>m. map_of m i)"

fun fill_devices :: "State list \<Rightarrow> (string \<times> DeviceInfo) list" where
  "fill_devices [] = []"
| "fill_devices (s # ps) = fill_missing dev_Id (map_entries (ListDevices ps)) (map_entries (st_deviceStore s))"

definition AddDevice :: "DeviceInfo \<Rightarrow> State list \<Rightarrow> State list" where
  "AddDevice d ss =
     (let m = fill_devices ss
      in with_state (\<lambda>s. s\<lparr>st_deviceStore := Some (if map_of m (dev_Id d) \<noteq> None then m else put (dev_Id d) d m)\<rparr>) ss)"

definition SetDeviceName :: "int \<Rightarrow> string \<Rightarrow> string \<Rightarrow> State list \<Rightarrow> State list" where
  "SetDeviceName now i name ss =
     (let m = fill_devices ss
      in with_state (\<lambda>s. s\<lparr>st_deviceStore := Some (case map_of m i of
            None \<Rightarrow> put i \<lparr>dev_Id = i, dev_Name = name, dev_AddDate = now, dev_Archived = False, dev_IsConnected = False\<rparr> m
          | Some d \<Rightarrow> put i (d\<lparr>dev_Name := name\<rparr>) m)\<rparr>) ss)"

definition addDevice :: "DeviceInfo \<Rightarrow> State list \<Rightarrow> State list" where
  "addDevice d = with_state (\<lambda>s. s\<lparr>st_deviceStore := Some (put (dev_Id d) d (map_entries (st_deviceStore s)))\<rparr>)"

definition updateDevice :: "string \<Rightarrow> string \<Rightarrow> State list \<Rightarrow> State list" where
  "updateDevice i name = with_state (\<lambda>s.
     case st_deviceStore s of
       None \<Rightarrow> s
     | Some m \<Rightarrow> (case map_of m i of None \<Rightarrow> s | Some d \<Rightarrow> s\<lparr>st_deviceStore := Some (put i (d\<lparr>dev_Name := name\<rparr>) m)\<rparr>))"

type_synonym FileInfo = "string \<times> (string \<times> string) list"

text \<open>A missing key reads as the empty string.\<close>

definition FileInfo_Equals :: "FileInfo \<Rightarrow> FileInfo \<Rightarrow> bool" where
  "FileInfo_Equals f other \<longleftrightarrow>
     fst f = fst other \<and> length (snd f) = length (snd other) \<and>
     list_all (\<lambda>(k, v). (case map_of (snd other) k of Some x \<Rightarrow> x | None \<Rightarrow> []) = v) (snd f)"

definition FileInfo_ToModel :: "FileInfo \<Rightarrow> FileInfo option" where
  "FileInfo_ToModel f = (if fst f = [] then None else Some f)"

fun diffFileInfo :: "State list \<Rightarrow> change_content list" where
  "diffFileInfo (s # p # ps) =
     (if \<not> FileInfo_Equals (st_fileInfo p) (st_fileInfo s) then [SetFileInfoChange (FileInfo_ToModel (st_fileInfo s))] else [])"
| "diffFileInfo _ = []"

definition setFileInfoFromModel :: "FileInfo option \<Rightarrow> State list \<Rightarrow> State list" where
  "setFileInfoFromModel f =
     (case f of None \<Rightarrow> (\<lambda>ss. ss)
      | Some (fileId, ks) \<Rightarrow> with_state (\<lambda>s. s\<lparr>st_fileInfo := (fileId, fold (\<lambda>kv. put (fst kv) (snd kv)) ks [])\<rparr>))"

definition AddFileKeys :: "FileInfo option list \<Rightarrow> State list \<Rightarrow> State list" where
  "AddFileKeys ks = with_state (\<lambda>s. s\<lparr>st_fileKeys := st_fileKeys s @ List.map_filter (\<lambda>k. k) ks\<rparr>)"

fun GetAndUnsetFileKeys :: "State list \<Rightarrow> FileInfo list \<times> State list" where
  "GetAndUnsetFileKeys [] = ([], [])"
| "GetAndUnsetFileKeys (s # ps) =
     (case GetAndUnsetFileKeys ps of (ks, ps) \<Rightarrow> (ks @ st_fileKeys s, s\<lparr>st_fileKeys := []\<rparr> # ps))"

subsection \<open>Ids in details\<close>

text \<open>A detail is written when an id in it changed, as a string or as a list of strings like before.\<close>

definition modified_ids :: "(string \<Rightarrow> string) \<Rightarrow> string list \<Rightarrow> string list" where
  "modified_ids modifier = map (\<lambda>i. if i = [] then i else modifier i)"

definition modifyIdsInDetail :: "string list \<Rightarrow> gmap \<Rightarrow> string \<Rightarrow> (string \<Rightarrow> string) \<Rightarrow> State list \<Rightarrow> State list" where
  "modifyIdsInDetail localKeys det key modifier ss =
     (let ids = WrapToStringList (Get det key); new = modified_ids modifier ids
      in if new = ids then ss
         else if TryString (Get det key) \<noteq> None then SetDetail localKeys key (VString (hd new)) ss
         else if TryStringList (Get det key) \<noteq> None then SetDetail localKeys key (VStringList new) ss
         else ss)"

text \<open>The formats of relations come from a fetcher, which may fail; whether a string is a content id is asked of a library.\<close>

definition FileRelationKeys :: "(f64 \<Rightarrow> int) \<Rightarrow> (string \<Rightarrow> int option) \<Rightarrow> State list \<Rightarrow> string list" where
  "FileRelationKeys oor formatOf ss =
     fold (\<lambda>key ks.
       if key \<in> set ks then ks
       else if key = ''coverId''
         then (if GetInt64 oor (Details_of ss) ''coverType'' \<in> {1, 4, 5} then ks @ [key] else ks)
       else if formatOf key = Some 5 then ks @ [key] else ks) (iterateKeys ss) []"

definition ModifyLinkedFilesInDetails ::
    "string list \<Rightarrow> (f64 \<Rightarrow> int) \<Rightarrow> (string \<Rightarrow> int option) \<Rightarrow> (string \<Rightarrow> bool) \<Rightarrow> (string \<Rightarrow> string) \<Rightarrow> State list \<Rightarrow> State list" where
  "ModifyLinkedFilesInDetails localKeys oor formatOf isCid modifier ss =
     (let det = Details_of ss
      in if det = None then ss
         else fold (\<lambda>key ss.
             if key = ''coverId'' \<and> \<not> isCid (GetString det ''coverId'') then ss
             else modifyIdsInDetail localKeys det key modifier ss) (FileRelationKeys oor formatOf ss) ss)"

definition ModifyLinkedObjectsInDetails :: "string list \<Rightarrow> (string \<Rightarrow> int option) \<Rightarrow> (string \<Rightarrow> string) \<Rightarrow> State list \<Rightarrow> State list" where
  "ModifyLinkedObjectsInDetails localKeys formatOf modifier ss =
     (let det = Details_of ss
      in if det = None then ss
         else fold (\<lambda>key ss. if formatOf key = Some 100 then modifyIdsInDetail localKeys det key modifier ss else ss) (iterateKeys ss) ss)"

subsection \<open>Paths of the store\<close>

lemma GetStruct_put [simp]: "GetStruct (put k v m) k' = (if k' = k then (case v of PStruct n \<Rightarrow> Some n | _ \<Rightarrow> None) else GetStruct m k')"
  by (auto split: option.split pval.split)

lemma GetStruct_del [simp]: "GetStruct (del k m) k' = (if k' = k then None else GetStruct m k')"
  by simp

declare GetStruct.simps [simp del]

lemma get_path_Cons: "ks \<noteq> [] \<Longrightarrow> get_path (k # ks) m = Option.bind (GetStruct m k) (get_path ks)"
  by (cases ks) (auto split: option.split)

lemma put_path_Cons: "ks \<noteq> [] \<Longrightarrow> put_path (k # ks) v m = put k (PStruct (put_path ks v (sub_store m k))) m"
  by (cases ks) auto

lemma del_path_Cons:
  "ks \<noteq> [] \<Longrightarrow> del_path (k # ks) m = (let n = del_path ks (sub_store m k) in if n = [] then del k m else put k (PStruct n) m)"
  by (cases ks) auto

lemma get_path_empty: "get_path p [] = None"
  by (induction p "[] :: fields" rule: get_path.induct) (simp_all add: GetStruct.simps)

lemma get_sub: "p \<noteq> [] \<Longrightarrow> get_path p (sub_store m k) = Option.bind (GetStruct m k) (get_path p)"
  by (cases "GetStruct m k") (auto simp: sub_store_def get_path_empty)

lemma get_path_put_same: "p \<noteq> [] \<Longrightarrow> get_path p (put_path p v m) = Some v"
proof (induction p arbitrary: m)
  case (Cons k ks)
  then show ?case by (cases "ks = []") (auto simp: get_path_Cons put_path_Cons)
qed simp

lemma get_path_del_same: "p \<noteq> [] \<Longrightarrow> get_path p (del_path p m) = None"
proof (induction p arbitrary: m)
  case (Cons k ks)
  then show ?case by (cases "ks = []") (auto simp: get_path_Cons del_path_Cons Let_def)
qed simp


text \<open>Paths of which neither is a prefix of the other.\<close>

fun path_apart :: "string list \<Rightarrow> string list \<Rightarrow> bool" where
  "path_apart (k # ks) (l # ls) \<longleftrightarrow> k \<noteq> l \<or> path_apart ks ls"
| "path_apart _ _ \<longleftrightarrow> False"

lemma apart_Nil [simp]: "\<not> path_apart ks []"
  by (cases ks) auto

lemma get_path_head: "map_of m k = map_of n k \<Longrightarrow> get_path (k # ks) m = get_path (k # ks) n"
  by (cases ks) (auto simp: GetStruct.simps)

lemma map_of_put_path: "k \<noteq> l \<Longrightarrow> map_of (put_path (k # ks) v m) l = map_of m l"
  by (cases ks) auto

lemma map_of_del_path: "k \<noteq> l \<Longrightarrow> map_of (del_path (k # ks) m) l = map_of m l"
  by (cases ks) (auto simp: Let_def)

lemma get_path_put_other: "path_apart p q \<Longrightarrow> get_path q (put_path p v m) = get_path q m"
proof (induction p q arbitrary: m rule: path_apart.induct)
  case (1 k ks l ls)
  show ?case
  proof (cases "k = l")
    case True
    with 1 have "path_apart ks ls" "ks \<noteq> []" "ls \<noteq> []" by auto
    with 1(1) True show ?thesis by (auto simp: get_path_Cons put_path_Cons get_sub)
  qed (intro get_path_head map_of_put_path)
qed auto

lemma get_path_del_other: "path_apart p q \<Longrightarrow> get_path q (del_path p m) = get_path q m"
proof (induction p q arbitrary: m rule: path_apart.induct)
  case (1 k ks l ls)
  show ?case
  proof (cases "k = l")
    case True
    with 1 have n: "path_apart ks ls" "ks \<noteq> []" "ls \<noteq> []" by auto
    have "get_path ls (del_path ks (sub_store m k)) = get_path ls (sub_store m k)" using 1(1) [OF n(1)] by simp
    moreover have "del_path ks (sub_store m k) = [] \<Longrightarrow> get_path ls (del_path ks (sub_store m k)) = None"
      by (simp add: get_path_empty)
    ultimately show ?thesis using n True by (auto simp: get_path_Cons del_path_Cons get_sub Let_def)
  qed (intro get_path_head map_of_del_path)
qed auto


text \<open>
  What a store of nested values promises to the state: a update is seen at its path and a removal empties it, and neither
  is seen at a path that lies apart. A sequence of them then leaves at every path what the last one on it did, as long as
  the others lie apart from it.
\<close>

locale nested_store =
  fixes get :: "'p \<Rightarrow> 's \<Rightarrow> 'v option" and wr :: "'p \<Rightarrow> 'v \<Rightarrow> 's \<Rightarrow> 's" and rem :: "'p \<Rightarrow> 's \<Rightarrow> 's"
    and valid :: "'p \<Rightarrow> bool" and sep :: "'p \<Rightarrow> 'p \<Rightarrow> bool"
  assumes get_wr: "valid p \<Longrightarrow> get p (wr p v m) = Some v"
    and get_rem: "valid p \<Longrightarrow> get p (rem p m) = None"
    and get_wr_other: "sep p q \<Longrightarrow> get q (wr p v m) = get q m"
    and get_rem_other: "sep p q \<Longrightarrow> get q (rem p m) = get q m"
begin

definition update :: "'p \<times> 'v option \<Rightarrow> 's \<Rightarrow> 's" where
  "update w = (case snd w of Some v \<Rightarrow> wr (fst w) v | None \<Rightarrow> rem (fst w))"

lemma get_write: "valid p \<Longrightarrow> get p (update (p, v) m) = v"
  by (cases v) (simp_all add: update_def get_wr get_rem)

lemma get_write_other: "sep p q \<Longrightarrow> get q (update (p, v) m) = get q m"
  by (cases v) (simp_all add: update_def get_wr_other get_rem_other)

lemma get_writes_other: "\<forall>w\<in>set ws. sep (fst w) q \<Longrightarrow> get q (fold update ws m) = get q m"
proof (induction ws arbitrary: m)
  case (Cons w ws)
  then show ?case using get_write_other [of "fst w" q "snd w"] by simp
qed simp

lemma get_writes:
  assumes "valid p" "\<forall>w\<in>set ws. sep (fst w) p"
  shows "get p (fold update (us @ (p, v) # ws) m) = v"
  using get_writes_other [OF assms(2)] get_write [OF assms(1)] by simp

end

interpretation store: nested_store get_path put_path del_path "\<lambda>p. p \<noteq> []" path_apart
  by unfold_locales (simp_all add: get_path_put_same get_path_del_same get_path_put_other get_path_del_other)

definition StoreGet :: "State list \<Rightarrow> string list \<Rightarrow> pval option" where
  "StoreGet ss path = Option.bind (Store_of ss) (get_path path)"

lemma Store_of_Cons: "Store_of (s # ps) = or_else (st_store s) (Store_of ps)"
  by (simp add: or_else_def split: option.split)

lemma Store_of_shared:
  "Store_of (map (\<lambda>p. if st_storeLastChangeIdByPath p = None then p else p\<lparr>st_storeLastChangeIdByPath := Some m\<rparr>) ps) = Store_of ps"
  by (induction ps) (auto split: option.split)

lemma Store_of_setStoreChangeId [simp]:
  "Store_of (setStoreChangeId path i ss) = Store_of ss" "Store_of (tl (setStoreChangeId path i ss)) = Store_of (tl ss)"
  by (cases ss; simp add: Store_of_shared Let_def split: option.split)+

definition removed_here :: "State list \<Rightarrow> string \<Rightarrow> bool" where
  "removed_here ss k = (case ss of [] \<Rightarrow> False | s # _ \<Rightarrow> (case st_storeKeyRemoved s of None \<Rightarrow> False | Some ks \<Rightarrow> k \<in> set ks))"

lemma removed_here_Cons [simp]:
  "removed_here (s # ps) k = (case st_storeKeyRemoved s of None \<Rightarrow> False | Some ks \<Rightarrow> k \<in> set ks)"
  by (simp add: removed_here_def)

lemma removed_here_setStoreChangeId [simp]: "removed_here (setStoreChangeId path i ss) k = removed_here ss k"
  by (cases ss) (simp_all add: removed_here_def Let_def)

lemma removed_here_drop [simp]:
  "\<not> removed_here (with_state (\<lambda>s. s\<lparr>st_storeKeyRemoved := map_option (filter (\<lambda>j. j \<noteq> k)) (st_storeKeyRemoved s)\<rparr>) ss) k"
  by (cases ss) (auto simp: removed_here_def split: option.split)

lemma Store_of_with [simp]:
  "Store_of (with_state (\<lambda>s. s\<lparr>st_storeKeyRemoved := f s\<rparr>) ss) = Store_of ss" "tl (with_state g ss) = tl ss"
  by (cases ss; simp)+

declare createOrCopyStoreFromParent.simps [simp del] setStoreChangeId.simps [simp del]

lemma createOrCopy_store:
  obtains t where "createOrCopyStoreFromParent (s # ps) = t # ps"
    "st_store t = Some (case Store_of (s # ps) of Some st \<Rightarrow> st | None \<Rightarrow> [])"
    "st_storeKeyRemoved t = None \<longleftrightarrow> st_store s \<noteq> None \<and> st_storeKeyRemoved s = None" "st_changes t = st_changes s"
proof -
  let ?t = "if st_store s \<noteq> None then s
    else s\<lparr>st_store := Some (case Store_of (s # ps) of Some st \<Rightarrow> st | None \<Rightarrow> []), st_storeKeyRemoved := Some []\<rparr>"
  show thesis by (rule that [of ?t]) (auto simp: createOrCopyStoreFromParent.simps split: option.split)
qed

lemma get_created: "get_path q (case st of Some st \<Rightarrow> st | None \<Rightarrow> []) = Option.bind st (get_path q)"
  by (cases st) (simp_all add: get_path_empty)

definition stored :: "string list \<Rightarrow> pval \<Rightarrow> State list \<Rightarrow> State list \<Rightarrow> bool" where
  "stored path v ss ss' \<longleftrightarrow> ss' \<noteq> [] \<and> StoreGet ss' path = (if v = PNil then None else Some v) \<and>
     (\<forall>q. path_apart path q \<longrightarrow> StoreGet ss' q = StoreGet ss q) \<and> Store_of (tl ss') = Store_of (tl ss) \<and>
     (removed_here ss' (join_path path) \<longleftrightarrow> v = PNil) \<and> st_changes (hd ss') = st_changes (hd ss)"

lemma changes_kept [simp]:
  "ss \<noteq> [] \<Longrightarrow> st_changes (hd (setStoreChangeId path i ss)) = st_changes (hd ss)"
  "ss \<noteq> [] \<Longrightarrow> hd (with_state f ss) = f (hd ss)"
  by (cases ss; simp add: setStoreChangeId.simps Let_def)+

lemma nonempty_states [simp]: "setStoreChangeId path i ss = [] \<longleftrightarrow> ss = []" "with_state f ss = [] \<longleftrightarrow> ss = []"
  by (cases ss; simp add: setStoreChangeId.simps Let_def)+

lemma setInStore_write:
  assumes "path \<noteq> []" "v \<noteq> PNil" "ss \<noteq> []"
  shows "\<exists>b ss'. setInStore cmpV path v ss = Some (b, ss') \<and> stored path v ss ss'"
proof -
  obtain s ps where ss: "ss = s # ps" using assms(3) by (cases ss) auto
  obtain t where t: "createOrCopyStoreFromParent (s # ps) = t # ps"
    "st_store t = Some (case Store_of (s # ps) of Some st \<Rightarrow> st | None \<Rightarrow> [])" "st_changes t = st_changes s"
    by (rule createOrCopy_store)
  show ?thesis
    using assms(1,2) by (simp add: ss stored_def Let_def StoreGet_def t store.get_wr store.get_wr_other get_created)
qed

lemma setInStore_remove:
  assumes "path \<noteq> []" "st_store s = None \<or> st_storeKeyRemoved s \<noteq> None"
  shows "\<exists>b ss'. setInStore cmpV path PNil (s # ps) = Some (b, ss') \<and> stored path PNil (s # ps) ss'"
proof -
  obtain t where t: "createOrCopyStoreFromParent (s # ps) = t # ps"
    "st_store t = Some (case Store_of (s # ps) of Some st \<Rightarrow> st | None \<Rightarrow> [])"
    "st_storeKeyRemoved t = None \<longleftrightarrow> st_store s \<noteq> None \<and> st_storeKeyRemoved s = None" "st_changes t = st_changes s"
    by (rule createOrCopy_store)
  then obtain ks where "st_storeKeyRemoved t = Some ks" using assms(2) by auto
  then show ?thesis
    using assms(1) by (auto simp: stored_def Let_def StoreGet_def t(1,2,4) store.get_rem store.get_rem_other get_created)
qed

text \<open>C10: a write to the store of a state is read back at its path and a removal leaves nothing there; paths that lie apart
  keep what they had, the parent keeps its store, and the path counts as removed in the state exactly after a removal.
  The operation does not panic, unless a removal finds a store without a map of removed keys.
\<close>

theorem setInStore_get:
  assumes "path \<noteq> []" "v = PNil \<Longrightarrow> st_store s = None \<or> st_storeKeyRemoved s \<noteq> None"
  shows "\<exists>b ss'. setInStore cmpV path v (s # ps) = Some (b, ss') \<and>
    StoreGet ss' path = (if v = PNil then None else Some v) \<and>
    (\<forall>q. path_apart path q \<longrightarrow> StoreGet ss' q = StoreGet (s # ps) q) \<and> Store_of (tl ss') = Store_of ps \<and>
    (removed_here ss' (join_path path) \<longleftrightarrow> v = PNil)"
  using setInStore_write [OF assms(1), of v "s # ps" cmpV] setInStore_remove [OF assms(1), of s cmpV ps] assms(2)
  by (cases "v = PNil") (auto simp: stored_def)

definition store_sample :: State where
  "store_sample = empty_state\<lparr>st_store := Some [(''a'', PStruct [(''b'', PBool True)]), (''c'', PString ''x'')], st_storeKeyRemoved := Some []\<rparr>"

theorem setInStore_get_witness:
  "\<exists>b ss'. setInStore (\<lambda>_ _. 1) [''a'', ''b''] PNil [store_sample] = Some (b, ss') \<and>
     StoreGet ss' [''a'', ''b''] = None \<and> StoreGet ss' [''c''] = Some (PString ''x'')"
proof -
  have "PNil = PNil \<Longrightarrow> st_store store_sample = None \<or> st_storeKeyRemoved store_sample \<noteq> None"
    by (simp add: store_sample_def)
  from setInStore_get [where path = "[''a'', ''b'']" and v = PNil, OF _ this, where cmpV = "\<lambda>_ _. 1" and ps = "[]"]
  obtain b ss' where w: "setInStore (\<lambda>_ _. 1) [''a'', ''b''] PNil [store_sample] = Some (b, ss')"
    "StoreGet ss' [''a'', ''b''] = None" "\<forall>q. path_apart [''a'', ''b''] q \<longrightarrow> StoreGet ss' q = StoreGet [store_sample] q"
    by (auto simp del: setInStore.simps)
  have "StoreGet ss' [''c''] = StoreGet [store_sample] [''c'']" using w(3) by simp
  also have "\<dots> = Some (PString ''x'')" by (simp add: StoreGet_def store_sample_def)
  finally show ?thesis using w(1,2) by blast
qed

end
