(* ===== verification/UndoHistory.thy ===== *)
theory UndoHistory
  imports SimpleBlocks GenericMap
begin

section \<open>Undo history (core/block/undo/undo.go)\<close>

text \<open>
  The list of actions that a client can undo and redo, with a pointer between them: actions before
  it can be undone, the others redone. Grouped actions are merged into one. The history is bounded by
  a limit. Pairs stand for the structures with the fields Before and After.
\<close>

subsection \<open>Actions\<close>

record CarriageState =
  cs_BlockID :: string
  cs_RangeFrom :: int
  cs_RangeTo :: int

definition no_carriage :: CarriageState where
  "no_carriage = \<lparr>cs_BlockID = [], cs_RangeFrom = 0, cs_RangeTo = 0\<rparr>"

definition CarriageState_IsEmpty :: "CarriageState \<Rightarrow> bool" where
  "CarriageState_IsEmpty cs \<longleftrightarrow> cs_BlockID cs = [] \<and> cs_RangeTo cs = 0 \<and> cs_RangeFrom cs = 0"

record Action =
  act_Add :: "Block list"
  act_Change :: "(Block \<times> Block) list"
  act_Remove :: "Block list"
  act_Details :: "(gmap \<times> gmap) option"
  act_RelationLinks :: "((string \<times> int) list \<times> (string \<times> int) list) option"
  act_Group :: string
  act_ObjectTypes :: "(string list \<times> string list) option"
  act_CarriageInfo :: "CarriageState \<times> CarriageState"

definition Action_IsEmpty :: "Action \<Rightarrow> bool" where
  "Action_IsEmpty a \<longleftrightarrow>
     length (act_Add a) + length (act_Change a) + length (act_Remove a) = 0 \<and>
     act_Details a = None \<and> act_ObjectTypes a = None \<and> act_RelationLinks a = None"

text \<open>The two inner loops of \<open>Merge\<close> replace the first match; \<^term>\<open>None\<close> when nothing matches.\<close>

fun replace_added :: "Block \<Rightarrow> Block list \<Rightarrow> Block list option" where
  "replace_added b [] = None"
| "replace_added b (x # xs) = (if Id x = Id b then Some (b # xs) else map_option ((#) x) (replace_added b xs))"

fun replace_changed :: "Block \<Rightarrow> (Block \<times> Block) list \<Rightarrow> (Block \<times> Block) list option" where
  "replace_changed b [] = None"
| "replace_changed b (x # xs) =
     (if Id (snd x) = Id b then Some ((fst x, b) # xs) else map_option ((#) x) (replace_changed b xs))"

definition merge_change :: "Block \<times> Block \<Rightarrow> Action \<Rightarrow> Action" where
  "merge_change changeB a =
     (case replace_added (snd changeB) (act_Add a) of
        Some adds \<Rightarrow> a\<lparr>act_Add := adds\<rparr>
      | None \<Rightarrow>
         (case replace_changed (snd changeB) (act_Change a) of
            Some changes \<Rightarrow> a\<lparr>act_Change := changes\<rparr>
          | None \<Rightarrow> a\<lparr>act_Change := act_Change a @ [changeB]\<rparr>))"

definition Action_Merge :: "Action \<Rightarrow> Action \<Rightarrow> Action" where
  "Action_Merge a b = fold merge_change (act_Change b) a"

subsection \<open>The history\<close>

record history =
  h_limit :: nat
  h_actions :: "Action list"
  h_pointer :: nat
  h_beforeState :: CarriageState
  h_afterState :: CarriageState

definition defaultLimit :: nat where
  "defaultLimit = 300"

definition NewHistory :: "int \<Rightarrow> history" where
  "NewHistory limit =
     \<lparr>h_limit = (if limit \<le> 0 then defaultLimit else nat limit), h_actions = [], h_pointer = 0,
      h_beforeState = no_carriage, h_afterState = no_carriage\<rparr>"

text \<open>The loop over all actions, also the undone ones; \<^term>\<open>None\<close> when no group fits.\<close>

fun merge_group :: "Action \<Rightarrow> Action list \<Rightarrow> Action list option" where
  "merge_group b [] = None"
| "merge_group b (a # as) =
     (if act_Group a = act_Group b then Some (Action_Merge a b # as) else map_option ((#) a) (merge_group b as))"

definition applyGroup :: "Action \<Rightarrow> history \<Rightarrow> history option" where
  "applyGroup b h = map_option (\<lambda>as. h\<lparr>h_actions := as\<rparr>) (merge_group b (h_actions h))"

definition push :: "Action \<Rightarrow> history \<Rightarrow> history" where
  "push a h =
     (let acts = (if length (h_actions h) \<noteq> h_pointer h then take (h_pointer h) (h_actions h) else h_actions h);
          before = (if CarriageState_IsEmpty (h_beforeState h) then h_afterState h else h_beforeState h);
          a = a\<lparr>act_CarriageInfo := (before, h_afterState h)\<rparr>;
          acts = acts @ [a];
          h = h\<lparr>h_beforeState := no_carriage, h_actions := acts, h_pointer := length acts\<rparr>
      in if h_pointer h > h_limit h then h\<lparr>h_actions := drop 1 acts, h_pointer := h_pointer h - 1\<rparr> else h)"

definition Add_action :: "Action \<Rightarrow> history \<Rightarrow> history" where
  "Add_action a h =
     (if Action_IsEmpty a then h
      else if act_Group a \<noteq> []
      then (case applyGroup a h of Some h' \<Rightarrow> h' | None \<Rightarrow> push a h)
      else push a h)"

definition Len_history :: "history \<Rightarrow> nat" where
  "Len_history h = h_pointer h"

datatype history_error = ErrNoHistory

definition Previous :: "history \<Rightarrow> history \<times> (history_error + Action)" where
  "Previous h =
     (if h_pointer h > 0
      then (h\<lparr>h_pointer := h_pointer h - 1\<rparr>, Inr (h_actions h ! (h_pointer h - 1)))
      else (h, Inl ErrNoHistory))"

definition Next :: "history \<Rightarrow> history \<times> (history_error + Action)" where
  "Next h =
     (if h_pointer h < length (h_actions h)
      then (h\<lparr>h_pointer := h_pointer h + 1\<rparr>, Inr (h_actions h ! h_pointer h))
      else (h, Inl ErrNoHistory))"

definition Reset :: "history \<Rightarrow> history" where
  "Reset h = h\<lparr>h_pointer := 0, h_actions := []\<rparr>"

text \<open>The conversions to 32 bits do not matter below the limit of the history.\<close>

definition Counters :: "history \<Rightarrow> int \<times> int" where
  "Counters h = (int (h_pointer h), int (length (h_actions h)) - int (h_pointer h))"

definition SetCarriageState :: "CarriageState \<Rightarrow> history \<Rightarrow> history" where
  "SetCarriageState cs h = h\<lparr>h_afterState := cs\<rparr>"

definition SetCarriageBeforeState :: "CarriageState \<Rightarrow> history \<Rightarrow> history" where
  "SetCarriageBeforeState cs h = h\<lparr>h_beforeState := cs\<rparr>"

datatype history_op = OpAdd Action | OpPrevious | OpNext | OpReset | OpCarriage CarriageState | OpCarriageBefore CarriageState

fun run_op :: "history_op \<Rightarrow> history \<Rightarrow> history" where
  "run_op (OpAdd a) h = Add_action a h"
| "run_op OpPrevious h = fst (Previous h)"
| "run_op OpNext h = fst (Next h)"
| "run_op OpReset h = Reset h"
| "run_op (OpCarriage cs) h = SetCarriageState cs h"
| "run_op (OpCarriageBefore cs) h = SetCarriageBeforeState cs h"

subsection \<open>Properties\<close>

text \<open>The pointer stays in the history and the history within its limit, which is at least one.\<close>

definition wf_history :: "history \<Rightarrow> bool" where
  "wf_history h \<longleftrightarrow> h_pointer h \<le> length (h_actions h) \<and> length (h_actions h) \<le> h_limit h \<and> 0 < h_limit h"

lemma wf_NewHistory: "wf_history (NewHistory limit)"
  by (simp add: wf_history_def NewHistory_def defaultLimit_def)

lemma merge_group_length: "merge_group b as = Some as' \<Longrightarrow> length as' = length as"
  by (induction as arbitrary: as') (auto split: if_splits)

lemma wf_push: "wf_history h \<Longrightarrow> wf_history (push a h)"
  by (auto simp: wf_history_def push_def Let_def min_def)

lemma wf_run_op: "wf_history h \<Longrightarrow> wf_history (run_op x h)"
proof (cases x)
  case (OpAdd a)
  assume wf: "wf_history h"
  show ?thesis
  proof (cases "applyGroup a h")
    case (Some h')
    then have "wf_history h'" using wf by (auto simp: applyGroup_def wf_history_def merge_group_length)
    with Some wf OpAdd show ?thesis by (auto simp: Add_action_def wf_push)
  qed (use wf OpAdd in \<open>auto simp: Add_action_def wf_push\<close>)
qed (auto simp: wf_history_def Previous_def Next_def Reset_def SetCarriageState_def SetCarriageBeforeState_def)

lemma wf_runs: "wf_history h \<Longrightarrow> wf_history (fold run_op xs h)"
  by (induction xs arbitrary: h) (auto simp: wf_run_op)

lemma limit_run_op: "h_limit (run_op x h) = h_limit h"
  by (cases x) (auto simp: Add_action_def applyGroup_def push_def Previous_def Next_def Reset_def SetCarriageState_def
      SetCarriageBeforeState_def Let_def split: option.splits)

lemma limit_runs: "h_limit (fold run_op xs h) = h_limit h"
  by (induction xs arbitrary: h) (auto simp: limit_run_op)

text \<open>C37: after any sequence of operations the history has at most the limit of actions and its
  pointer is inside, so that every access to an action is in range; undoing and then redoing returns
  the same action and restores the history, and the other way round; both fail exactly at the ends.\<close>

theorem history_consistent:
  assumes "h = fold run_op xs (NewHistory limit)"
  shows "h_pointer h \<le> length (h_actions h) \<and> length (h_actions h) \<le> (if limit \<le> 0 then 300 else nat limit) \<and>
    (\<forall>a h'. Previous h = (h', Inr a) \<longrightarrow> a \<in> set (h_actions h) \<and> Next h' = (h, Inr a)) \<and>
    (\<forall>a h'. Next h = (h', Inr a) \<longrightarrow> a \<in> set (h_actions h) \<and> Previous h' = (h, Inr a)) \<and>
    (Previous h = (h, Inl ErrNoHistory) \<longleftrightarrow> fst (Counters h) = 0) \<and>
    (Next h = (h, Inl ErrNoHistory) \<longleftrightarrow> snd (Counters h) = 0)"
proof -
  have wf: "wf_history h" using assms wf_runs wf_NewHistory by blast
  have lim: "h_limit h = (if limit \<le> 0 then 300 else nat limit)"
    using assms limit_runs [of xs "NewHistory limit"] by (simp add: NewHistory_def defaultLimit_def)
  show ?thesis
    using wf unfolding wf_history_def lim by (auto simp: Previous_def Next_def Counters_def split: if_splits)
qed

definition sample_undo_block :: "string \<Rightarrow> string \<Rightarrow> Block" where
  "sample_undo_block i color =
     \<lparr>Id = i, ChildrenIds = [], Restrictions = None, Fields = [], BackgroundColor = color, Align = 0, VerticalAlign = 0,
      Content = CSmartblock\<rparr>"

definition color_action :: "string \<Rightarrow> string \<Rightarrow> string \<Rightarrow> Action" where
  "color_action g i color =
     \<lparr>act_Add = [], act_Change = [(sample_undo_block i [], sample_undo_block i color)], act_Remove = [], act_Details = None,
      act_RelationLinks = None, act_Group = g, act_ObjectTypes = None, act_CarriageInfo = (no_carriage, no_carriage)\<rparr>"

theorem history_consistent_witness:
  "length (h_actions (fold run_op [OpAdd (color_action [] ''a'' ''red''), OpAdd (color_action [] ''b'' ''red''), OpPrevious] (NewHistory 1))) \<le> 1"
proof -
  define h where "h = fold run_op [OpAdd (color_action [] ''a'' ''red''), OpAdd (color_action [] ''b'' ''red''), OpPrevious] (NewHistory 1)"
  from history_consistent [OF h_def] have "length (h_actions h) \<le> 1" by simp
  then show ?thesis unfolding h_def .
qed

lemma merge_group_None: "merge_group b as = None \<longleftrightarrow> (\<forall>a\<in>set as. act_Group a \<noteq> act_Group b)"
  by (induction as) auto

text \<open>An action that is not merged into a group becomes the one that is undone next, with the
  carriage positions of the moment; everything that could be redone is forgotten, and of the
  actions that could be undone the oldest one is dropped when the limit is exceeded.\<close>

lemma Add_undoable:
  assumes "wf_history h" "\<not> Action_IsEmpty a"
    and "act_Group a = [] \<or> (\<forall>b\<in>set (h_actions h). act_Group b \<noteq> act_Group a)"
  shows "snd (Previous (Add_action a h)) = Inr (a\<lparr>act_CarriageInfo :=
      (if CarriageState_IsEmpty (h_beforeState h) then h_afterState h else h_beforeState h, h_afterState h)\<rparr>) \<and>
    snd (Next (Add_action a h)) = Inl ErrNoHistory \<and>
    take (h_pointer (Add_action a h) - 1) (h_actions (Add_action a h)) =
      drop (if h_pointer h = h_limit h then 1 else 0) (take (h_pointer h) (h_actions h))"
proof -
  have "Add_action a h = push a h"
    using assms(2,3) by (auto simp: Add_action_def applyGroup_def merge_group_None [symmetric] split: option.splits)
  moreover have "(if length (h_actions h) \<noteq> h_pointer h then take (h_pointer h) (h_actions h) else h_actions h) =
      take (h_pointer h) (h_actions h)" by simp
  moreover have "length (take (h_pointer h) (h_actions h)) = h_pointer h" "h_pointer h \<le> h_limit h" "0 < h_limit h"
    using assms(1) by (auto simp: wf_history_def)
  ultimately show ?thesis
    by (cases "h_pointer h = h_limit h") (auto simp: push_def Let_def Previous_def Next_def nth_append drop_Cons' nth_drop)
qed

lemma Add_undoable_example:
  "snd (Previous (Add_action (color_action ''typing'' ''a'' ''red'') (NewHistory 0))) = Inr (color_action ''typing'' ''a'' ''red'')"
proof -
  have "\<not> Action_IsEmpty (color_action ''typing'' ''a'' ''red'')" by (simp add: Action_IsEmpty_def color_action_def)
  from Add_undoable [OF wf_NewHistory this, of 0] show ?thesis
    by (simp add: NewHistory_def color_action_def no_carriage_def)
qed

text \<open>The blocks that redoing an action writes: added blocks, then changed ones.\<close>

definition writes :: "Action \<Rightarrow> (string \<times> Block) list" where
  "writes a = map (\<lambda>b. (Id b, b)) (act_Add a) @ map (\<lambda>c. (Id (snd c), snd c)) (act_Change a)"

lemma replace_added_spec:
  "replace_added b xs = None \<longleftrightarrow> Id b \<notin> Id ` set xs"
  "replace_added b xs = Some ys \<Longrightarrow> distinct (map Id xs) \<Longrightarrow>
     map Id ys = map Id xs \<and> map_of (map (\<lambda>b. (Id b, b)) ys) = (map_of (map (\<lambda>b. (Id b, b)) xs))(Id b \<mapsto> b)"
  by (induction xs arbitrary: ys) (auto simp: fun_eq_iff split: if_splits)

lemma replace_changed_spec:
  "replace_changed b xs = None \<longleftrightarrow> Id b \<notin> (\<lambda>c. Id (snd c)) ` set xs"
  "replace_changed b xs = Some ys \<Longrightarrow> distinct (map (\<lambda>c. Id (snd c)) xs) \<Longrightarrow>
     map (\<lambda>c. Id (snd c)) ys = map (\<lambda>c. Id (snd c)) xs \<and> map fst ys = map fst xs \<and>
     map_of (map (\<lambda>c. (Id (snd c), snd c)) ys) = (map_of (map (\<lambda>c. (Id (snd c), snd c)) xs))(Id b \<mapsto> b)"
  by (induction xs arbitrary: ys) (auto simp: fun_eq_iff split: if_splits)

lemma writes_lookup:
  "map_of (writes a) = map_of (map (\<lambda>c. (Id (snd c), snd c)) (act_Change a)) ++ map_of (map (\<lambda>b. (Id b, b)) (act_Add a))"
  by (simp add: writes_def map_of_append)

lemma writes_keys: "keys (writes a) = map Id (act_Add a) @ map (\<lambda>c. Id (snd c)) (act_Change a)"
  by (simp add: writes_def comp_def)

lemma merge_change_writes:
  assumes "distinct (keys (writes a))"
  shows "map_of (writes (merge_change c a)) = (map_of (writes a))(Id (snd c) \<mapsto> snd c)"
    and "distinct (keys (writes (merge_change c a)))"
proof -
  have d: "distinct (map Id (act_Add a))" "distinct (map (\<lambda>c. Id (snd c)) (act_Change a))"
    using assms by (simp_all add: writes_keys)
  have "map_of (writes (merge_change c a)) = (map_of (writes a))(Id (snd c) \<mapsto> snd c) \<and> distinct (keys (writes (merge_change c a)))"
  proof (cases "replace_added (snd c) (act_Add a)")
    case (Some ys)
    with assms replace_added_spec(2) [OF Some d(1)] show ?thesis
      by (simp add: merge_change_def writes_lookup writes_keys)
  next
    case None
    then have notin: "Id (snd c) \<notin> Id ` set (act_Add a)" by (simp add: replace_added_spec(1))
    then have dom: "Id (snd c) \<notin> dom (map_of (map (\<lambda>b. (Id b, b)) (act_Add a)))"
      by (simp add: dom_map_of_conv_image_fst image_image)
    show ?thesis
    proof (cases "replace_changed (snd c) (act_Change a)")
      case (Some ys)
      with None assms replace_changed_spec(2) [OF Some d(2)] show ?thesis
        by (simp add: merge_change_def writes_lookup writes_keys map_add_upd_left [OF dom])
    next
      case none: None
      then have new: "Id (snd c) \<notin> (\<lambda>c. Id (snd c)) ` set (act_Change a)" by (simp add: replace_changed_spec(1))
      then have "map_of (map (\<lambda>c. (Id (snd c), snd c)) (act_Change a)) (Id (snd c)) = None"
        by (force simp: map_of_eq_None_iff)
      then have "[Id (snd c) \<mapsto> snd c] ++ map_of (map (\<lambda>c. (Id (snd c), snd c)) (act_Change a)) =
          (map_of (map (\<lambda>c. (Id (snd c), snd c)) (act_Change a)))(Id (snd c) \<mapsto> snd c)"
        by (simp add: map_add_upd_left domIff)
      then have "map_of (writes (merge_change c a)) = (map_of (writes a))(Id (snd c) \<mapsto> snd c)"
        using None none by (simp add: merge_change_def writes_lookup map_of_append map_add_upd_left [OF dom])
      moreover have "distinct (keys (writes (merge_change c a)))"
        using None none assms notin new by (auto simp: merge_change_def writes_keys)
      ultimately show ?thesis ..
    qed
  qed
  then show "map_of (writes (merge_change c a)) = (map_of (writes a))(Id (snd c) \<mapsto> snd c)"
    "distinct (keys (writes (merge_change c a)))" by auto
qed

text \<open>C38: merging an action into another one of its group keeps the changes of both: redoing the merged
  action writes what redoing the two in order writes, as long as the second one only changes blocks.\<close>

theorem Merge_writes:
  assumes "distinct (keys (writes a))" "act_Add b = []"
  shows "map_of (writes (Action_Merge a b)) = map_of (writes a) ++ map_of (rev (writes b))"
proof -
  have "map_of (writes (fold merge_change cs a)) = map_of (writes a) ++ map_of (rev (map (\<lambda>c. (Id (snd c), snd c)) cs))"
    if "distinct (keys (writes a))" for cs a
    using that
  proof (induction cs arbitrary: a)
    case (Cons c cs)
    then show ?case using merge_change_writes [OF Cons.prems, of c]
      by (auto simp: map_add_def fun_eq_iff split: option.splits)
  qed simp
  then show ?thesis using assms by (simp add: Action_Merge_def writes_def)
qed

theorem Merge_writes_witness:
  "map_of (writes (Action_Merge (color_action ''g'' ''a'' ''red'') (color_action ''g'' ''a'' ''blue''))) ''a'' =
     Some (sample_undo_block ''a'' ''blue'')"
  using Merge_writes [of "color_action ''g'' ''a'' ''red''" "color_action ''g'' ''a'' ''blue''"]
  by (simp add: writes_def color_action_def sample_undo_block_def)

text \<open>An action is merged into an undone action of its group as well. It is then not among the actions
  that can be undone, and the ones that could be redone before remain.\<close>

lemma group_of_undone:
  assumes "\<not> Action_IsEmpty b" "act_Group b \<noteq> []" "h_pointer h = 0" "h_actions h = a # as" "act_Group a = act_Group b"
  shows "Add_action b h = h\<lparr>h_actions := Action_Merge a b # as\<rparr> \<and> snd (Previous (Add_action b h)) = Inl ErrNoHistory"
  using assms by (simp add: Add_action_def applyGroup_def Previous_def)

lemma group_of_undone_example:
  "snd (Previous (Add_action (color_action ''g'' ''b'' ''red'')
     (fst (Previous (Add_action (color_action ''g'' ''a'' ''red'') (NewHistory 0)))))) = Inl ErrNoHistory"
proof -
  let ?b = "color_action ''g'' ''b'' ''red''"
  let ?h = "fst (Previous (Add_action (color_action ''g'' ''a'' ''red'') (NewHistory 0)))"
  have "h_pointer ?h = 0" "h_actions ?h = [color_action ''g'' ''a'' ''red'']"
    by (simp_all add: Add_action_def applyGroup_def push_def NewHistory_def Action_IsEmpty_def color_action_def
        Previous_def defaultLimit_def no_carriage_def)
  moreover have "\<not> Action_IsEmpty ?b" "act_Group ?b = ''g''" "act_Group (color_action ''g'' ''a'' ''red'') = ''g''"
    by (simp_all add: Action_IsEmpty_def color_action_def)
  ultimately show ?thesis using group_of_undone [of ?b ?h] by (metis list.distinct(1))
qed

end
