(* ===== verification/Changes.thy ===== *)
theory Changes
  imports ObjectData BlockEvents UndoHistory
begin

section \<open>Applying and making changes (core/block/editor/state/change.go)\<close>

text \<open>
  An object is a sequence of changes. \<open>applyChange\<close> replays one of them on a state: it dispatches on the kind of the
  content to the operations of the blocks, the details, the links, the types, the store, the notifications and the devices.
  An error is returned beside the state, which may have changed before; a panic is \<^term>\<open>None\<close>. In the other direction
  \<open>fillChanges\<close> makes the changes that lead from the parent of a state to the state: from the messages that \<open>apply\<close> produced,
  and from the difference of the other parts with those of the parent.

  Parameters are those of the theories used here, among them the function that computes an edit script.
\<close>

subsection \<open>Applying\<close>

datatype change_error = InsertFailed insert_error | UpdateFailed "string list" | UnexpectedContent

type_synonym change_result = "(change_error option \<times> State list) option"

text \<open>What the change functions are given: local keys, digest, comparison of values, first items by id.\<close>

record change_env =
  env_localKeys :: "string list"
  env_md5 :: "nat list \<Rightarrow> nat list"
  env_cmpV :: pval_cmp
  env_uniq :: slice_uniq

definition writable_details :: "State \<Rightarrow> State list \<Rightarrow> (string \<times> Value) list" where
  "writable_details s ps = own_or_parent (st_details s) (Details_of ps)"

fun changeBlockDetailsSet :: "string \<Rightarrow> pval \<Rightarrow> State list \<Rightarrow> State list" where
  "changeBlockDetailsSet key v (s # ps) =
     s\<lparr>st_details := Some (if v \<noteq> PNil then put key (ValueFromProto v) (writable_details s ps) else del key (writable_details s ps))\<rparr> # ps"
| "changeBlockDetailsSet key v [] = []"

fun changeBlockDetailsUnset :: "string \<Rightarrow> State list \<Rightarrow> State list" where
  "changeBlockDetailsUnset key (s # ps) = s\<lparr>st_details := Some (del key (writable_details s ps))\<rparr> # ps"
| "changeBlockDetailsUnset key [] = []"

definition changeRelationAdd :: "(string \<times> int) list \<Rightarrow> State list \<Rightarrow> State list" where
  "changeRelationAdd links ss =
     (case getRelationLinks ss of (rl, ss) \<Rightarrow>
        with_state (\<lambda>s. s\<lparr>st_relationLinks := (if rl = None \<and> links = [] then None else Some (add_links links (links_of rl)))\<rparr>) ss)"

definition has_prefix :: "string \<Rightarrow> string \<Rightarrow> bool" where
  "has_prefix p s \<longleftrightarrow> take (length p) s = p"

definition ObjectTypeKeyToIdPrefix :: string where "ObjectTypeKeyToIdPrefix = ''ot-''"

definition BundledObjectTypeURLPrefix :: string where "BundledObjectTypeURLPrefix = ''_ot''"

definition migrateObjectTypeIDToKey :: "string \<Rightarrow> string" where
  "migrateObjectTypeIDToKey old =
     (if has_prefix ObjectTypeKeyToIdPrefix old then drop (length ObjectTypeKeyToIdPrefix) old
      else if has_prefix BundledObjectTypeURLPrefix old then drop (length BundledObjectTypeURLPrefix) old
      else old)"

definition migrateObjectTypeIDsToKeys :: "string list \<Rightarrow> string list" where
  "migrateObjectTypeIDsToKeys = map migrateObjectTypeIDToKey"

definition TypeKey_URL :: "string \<Rightarrow> string" where
  "TypeKey_URL k = ObjectTypeKeyToIdPrefix @ k"

definition type_key :: "string \<Rightarrow> string \<Rightarrow> string" where
  "type_key url key = (if url \<noteq> [] then migrateObjectTypeIDToKey url else key)"

definition changeObjectTypeAdd :: "string \<Rightarrow> string \<Rightarrow> State list \<Rightarrow> State list" where
  "changeObjectTypeAdd url key ss =
     (let k = type_key url key
      in if k \<in> set (ObjectTypeKeys ss) then ss else SetObjectTypeKeys (ObjectTypeKeys ss @ [k]) ss)"

definition changeObjectTypeRemove :: "string \<Rightarrow> string \<Rightarrow> State list \<Rightarrow> State list" where
  "changeObjectTypeRemove url key ss = SetObjectTypeKeys [k \<leftarrow> ObjectTypeKeys ss. k \<noteq> type_key url key] ss"

text \<open>
  New blocks are unlinked from where a block with their id hangs, written, and inserted together; a root block that is
  there already is skipped. The content of a dataview block is opaque to the states of blocks (\<open>COther\<close>), so the migration of its
  deprecated relations to relation links, the last step of the loop, is left out.
\<close>

definition unlink_all :: "string list \<Rightarrow> State list \<Rightarrow> State list" where
  "unlink_all ids ss = fold (\<lambda>i ss. snd (Unlink ss i)) ids ss"

fun create_blocks :: "Block list \<Rightarrow> string list \<Rightarrow> State list \<Rightarrow> string list \<times> State list" where
  "create_blocks [] bIds ss = (bIds, ss)"
| "create_blocks (m # ms) bIds ss =
     (if Id m = st_rootId (hd ss)
      then create_blocks ms bIds (if Pick ss (Id m) \<noteq> None then ss else Set_block ss m)
      else create_blocks ms (bIds @ [Id m]) (Set_block (snd (Unlink ss (Id m))) m))"

definition insert_result :: "insert_result option \<Rightarrow> change_result" where
  "insert_result r = map_option (\<lambda>(err, ss). (map_option InsertFailed err, ss)) r"

definition changeBlockCreate :: "change_env \<Rightarrow> string \<Rightarrow> BlockPosition \<Rightarrow> Block list \<Rightarrow> State list \<Rightarrow> change_result" where
  "changeBlockCreate env targetId position blocks ss =
     (case create_blocks blocks [] ss of (bIds, ss) \<Rightarrow> insert_result (InsertTo (env_md5 env) ss targetId position bIds))"

definition changeBlockRemove :: "string list \<Rightarrow> State list \<Rightarrow> State list" where
  "changeBlockRemove ids ss = fold (\<lambda>i ss. snd (CleanupBlock (snd (Unlink ss i)) i)) ids ss"

definition applyEvent_to :: "event_value \<Rightarrow> State list \<Rightarrow> string option \<times> State list" where
  "applyEvent_to ev ss =
     (case event_target ev of
        None \<Rightarrow> (None, ss)
      | Some i \<Rightarrow>
          (case Get_block ss i of
             (None, ss) \<Rightarrow> (Some block_not_found, ss)
           | (Some b, ss) \<Rightarrow> (case apply_to_block ev b of Inl err \<Rightarrow> (Some err, ss) | Inr b' \<Rightarrow> (None, put_block i b' ss))))"

fun update_blocks :: "event_value list \<Rightarrow> State list \<Rightarrow> string list \<times> State list" where
  "update_blocks [] ss = ([], ss)"
| "update_blocks (ev # evs) ss =
     (case applyEvent_to ev ss of (err, ss) \<Rightarrow>
        (case update_blocks evs ss of (errs, ss) \<Rightarrow> (case err of None \<Rightarrow> errs | Some e \<Rightarrow> e # errs, ss)))"

definition changeBlockUpdate :: "event_value list \<Rightarrow> State list \<Rightarrow> change_error option \<times> State list" where
  "changeBlockUpdate evs ss = (case update_blocks evs ss of (errs, ss) \<Rightarrow> (if errs = [] then None else Some (UpdateFailed errs), ss))"

definition changeBlockMove :: "change_env \<Rightarrow> string \<Rightarrow> BlockPosition \<Rightarrow> string list \<Rightarrow> State list \<Rightarrow> change_result" where
  "changeBlockMove env targetId position ids ss = insert_result (InsertTo (env_md5 env) (unlink_all ids ss) targetId position ids)"

definition changeStoreKeySet :: "change_env \<Rightarrow> string list \<Rightarrow> pval \<Rightarrow> State list \<Rightarrow> State list option" where
  "changeStoreKeySet env path v ss = map_option snd (setInStore (env_cmpV env) path v ss)"

definition changeStoreKeyUnset :: "change_env \<Rightarrow> string list \<Rightarrow> State list \<Rightarrow> State list option" where
  "changeStoreKeyUnset env path ss = map_option snd (removeFromStore (env_cmpV env) path ss)"

text \<open>A string reads as a list of one here, unlike in \<open>GetStoreSlice\<close>.\<close>

definition pb_GetStringList :: "fields option \<Rightarrow> string \<Rightarrow> string list" where
  "pb_GetStringList st key =
     (case Option.bind st (\<lambda>m. map_of m key) of
        Some (PList l) \<Rightarrow> ListValueToStrings l | Some (PString s) \<Rightarrow> if s \<noteq> [] then [s] else [] | _ \<Rightarrow> [])"

fun slice_changes :: "slice_update \<Rightarrow> string change list" where
  "slice_changes (SliceAdd afterID ids) = [ChangeAdd ids afterID]"
| "slice_changes (SliceRemove ids) = [ChangeRemove ids]"
| "slice_changes (SliceMove afterID ids) = [ChangeMove ids afterID]"
| "slice_changes SliceNone = []"

definition changeStoreSliceUpdate :: "change_env \<Rightarrow> string \<Rightarrow> slice_update \<Rightarrow> State list \<Rightarrow> State list option" where
  "changeStoreSliceUpdate env key upd ss =
     Option.bind (ApplyChanges (env_uniq env) (pb_GetStringList (Store_of ss) key) (slice_changes upd) (\<lambda>s. s))
       (\<lambda>cur. map_option snd (setInStore (env_cmpV env) [key] (proto_StringList cur) ss))"

definition changeOriginalCreatedTimestampSet :: "int \<Rightarrow> State list \<Rightarrow> State list" where
  "changeOriginalCreatedTimestampSet ts ss = (if ts = 0 then ss else with_state (\<lambda>s. s\<lparr>st_originalCreatedTimestamp := ts\<rparr>) ss)"

fun applyChange :: "change_env \<Rightarrow> change_content \<Rightarrow> State list \<Rightarrow> change_result" where
  "applyChange env (BlockCreate t pos bs) ss = changeBlockCreate env t pos bs ss"
| "applyChange env (BlockRemove ids) ss = Some (None, changeBlockRemove ids ss)"
| "applyChange env (BlockUpdate evs) ss = Some (changeBlockUpdate evs ss)"
| "applyChange env (BlockMove t pos ids) ss = changeBlockMove env t pos ids ss"
| "applyChange env (DetailsSet key v) ss = Some (None, changeBlockDetailsSet key v ss)"
| "applyChange env (DetailsUnset key) ss = Some (None, changeBlockDetailsUnset key ss)"
| "applyChange env (RelationAdd links) ss = Some (None, changeRelationAdd links ss)"
| "applyChange env (RelationRemove ks) ss = Some (None, RemoveRelation (env_localKeys env) ks ss)"
| "applyChange env (ObjectTypeAdd url key) ss = Some (None, changeObjectTypeAdd url key ss)"
| "applyChange env (ObjectTypeRemove url key) ss = Some (None, changeObjectTypeRemove url key ss)"
| "applyChange env (StoreKeySet path v) ss =
     map_option (\<lambda>ss. (None, add_change (StoreKeySet path v) ss)) (changeStoreKeySet env path v ss)"
| "applyChange env (StoreKeyUnset path) ss =
     map_option (\<lambda>ss. (None, add_change (StoreKeyUnset path) ss)) (changeStoreKeyUnset env path ss)"
| "applyChange env (StoreSliceUpdate key upd) ss = map_option (Pair None) (changeStoreSliceUpdate env key upd ss)"
| "applyChange env (OriginalCreatedTimestampSet ts) ss = Some (None, changeOriginalCreatedTimestampSet ts ss)"
| "applyChange env (SetFileInfoChange f) ss = Some (None, setFileInfoFromModel f ss)"
| "applyChange env (NotificationCreate n) ss = Some (None, addNotification n ss)"
| "applyChange env (NotificationUpdate i status) ss = Some (None, updateNotification i status ss)"
| "applyChange env (DeviceAdd d) ss = Some (None, addDevice d ss)"
| "applyChange env (DeviceUpdate i name) ss = Some (None, updateDevice i name ss)"
| "applyChange env (OtherChange _) ss = Some (Some UnexpectedContent, ss)"

fun ApplyChange :: "change_env \<Rightarrow> change_content list \<Rightarrow> State list \<Rightarrow> change_result" where
  "ApplyChange env [] ss = Some (None, ss)"
| "ApplyChange env (ch # chs) ss =
     (case applyChange env ch ss of
        None \<Rightarrow> None
      | Some (Some err, ss) \<Rightarrow> Some (Some err, ss)
      | Some (None, ss) \<Rightarrow> ApplyChange env chs ss)"

fun ApplyChangeIgnoreErr :: "change_env \<Rightarrow> change_content list \<Rightarrow> State list \<Rightarrow> State list option" where
  "ApplyChangeIgnoreErr env [] ss = Some ss"
| "ApplyChangeIgnoreErr env (ch # chs) ss =
     (case applyChange env ch ss of None \<Rightarrow> None | Some (_, ss) \<Rightarrow> ApplyChangeIgnoreErr env chs ss)"

subsection \<open>Making changes\<close>

text \<open>The values of messages that \<open>apply\<close> produces; those of a block are in \<^typ>\<open>event_value\<close>.\<close>

datatype msg_value =
    MsgBlock event_value
  | MsgBlockAdd "Block list"
  | MsgBlockDelete "string list"
  | MsgRelationsAmend string "(string \<times> int) list"
  | MsgRelationsRemove string "string list"
  | MsgDetailsAmend string "(string \<times> pval) list" "string list"
  | MsgDetailsUnset string "string list" "string list"

record StateMessage =
  sm_Virtual :: bool
  sm_SpaceId :: string
  sm_Value :: msg_value

definition state_message :: "EventMessage \<Rightarrow> StateMessage" where
  "state_message e = \<lparr>sm_Virtual = Virtual e, sm_SpaceId = SpaceId e, sm_Value = MsgBlock (MsgValue e)\<rparr>"

text \<open>
  \<open>fillChanges\<close> sorts the values of the messages by kind. The order of children of new blocks counts as a structure message;
  a new root block is a change of its own.
\<close>

record sorted_msgs =
  upd_msgs :: "event_value list"
  del_ids :: "string list"
  del_relIds :: "string list"
  new_relLinks :: "(string \<times> int) list"
  struct_msgs :: "(string \<times> string list) list"
  root_changes :: "change_content list"
  new_ids :: "string list"

definition add_block_msg :: "string \<Rightarrow> Block \<Rightarrow> sorted_msgs \<Rightarrow> sorted_msgs" where
  "add_block_msg rootId b m =
     m\<lparr>root_changes := root_changes m @ (if Id b = rootId then [BlockCreate [] Block_None [b]] else []),
       new_ids := new_ids m @ [Id b],
       struct_msgs := struct_msgs m @ (if ChildrenIds b \<noteq> [] then [(Id b, ChildrenIds b)] else [])\<rparr>"

fun sort_msg :: "string \<Rightarrow> msg_value \<Rightarrow> sorted_msgs \<Rightarrow> sorted_msgs" where
  "sort_msg rootId (MsgBlock (BlockSetChildrenIds i cs)) m = m\<lparr>struct_msgs := struct_msgs m @ [(i, cs)]\<rparr>"
| "sort_msg rootId (MsgBlock ev) m = m\<lparr>upd_msgs := upd_msgs m @ [ev]\<rparr>"
| "sort_msg rootId (MsgBlockDelete ids) m = m\<lparr>del_ids := del_ids m @ ids\<rparr>"
| "sort_msg rootId (MsgBlockAdd bs) m = fold (add_block_msg rootId) bs m"
| "sort_msg rootId (MsgRelationsAmend _ links) m = m\<lparr>new_relLinks := new_relLinks m @ links\<rparr>"
| "sort_msg rootId (MsgRelationsRemove _ ks) m = m\<lparr>del_relIds := del_relIds m @ ks\<rparr>"
| "sort_msg rootId (MsgDetailsAmend _ _ _) m = m"
| "sort_msg rootId (MsgDetailsUnset _ _ _) m = m"

definition sort_msgs :: "string \<Rightarrow> StateMessage list \<Rightarrow> sorted_msgs" where
  "sort_msgs rootId msgs =
     fold (\<lambda>msg m. if sm_Virtual msg then m else sort_msg rootId (sm_Value msg) m) msgs
       \<lparr>upd_msgs = [], del_ids = [], del_relIds = [], new_relLinks = [], struct_msgs = [], root_changes = [], new_ids = []\<rparr>"

text \<open>
  Inserted children become additions when they are new and moves otherwise. A run of one kind is placed after the child
  before it, at the top of the first old child, or inside the parent. Reading a new block that the state does not have panics.
\<close>

definition makeTarget :: "string \<Rightarrow> string list \<Rightarrow> string list \<Rightarrow> nat \<Rightarrow> string \<times> BlockPosition" where
  "makeTarget parentId a b pos =
     (if pos = 0 then (if a = [] then (parentId, Block_Inner) else (hd a, Block_Top)) else (b ! (pos - 1), Block_Bottom))"

fun insert_run :: "State list \<Rightarrow> string \<Rightarrow> string list \<Rightarrow> string list \<Rightarrow> nat list \<Rightarrow> (nat \<times> string \<times> BlockPosition) \<Rightarrow>
    changeBuilder \<Rightarrow> changeBuilder option" where
  "insert_run ss parentId a b [] st cb = Some cb"
| "insert_run ss parentId a b (pos # ps) (prevOp, target) cb =
     (if b ! pos \<in> set (st_newIds (hd ss))
      then (let target = (if prevOp \<noteq> 1 then makeTarget parentId a b pos else target)
            in case Pick ss (b ! pos) of
                 None \<Rightarrow> None
               | Some m \<Rightarrow> insert_run ss parentId a b ps (1, target) (Add_change (fst target) (snd target) m cb))
      else (let target = (if prevOp \<noteq> 2 then makeTarget parentId a b pos else target)
            in insert_run ss parentId a b ps (2, target) (Move (fst target) (snd target) (b ! pos) cb)))"

fun insert_hunks :: "State list \<Rightarrow> string \<Rightarrow> string list \<Rightarrow> string list \<Rightarrow> hunk list \<Rightarrow> changeBuilder \<Rightarrow> changeBuilder option" where
  "insert_hunks ss parentId a b [] cb = Some cb"
| "insert_hunks ss parentId a b (c # cs) cb =
     Option.bind (insert_run ss parentId a b [hB c..<hB c + hIns c] (0, [], Block_None) cb) (insert_hunks ss parentId a b cs)"

definition makeStructureChanges :: "edit_fun \<Rightarrow> State list \<Rightarrow> string \<times> string list \<Rightarrow> changeBuilder \<Rightarrow> changeBuilder option" where
  "makeStructureChanges edit ss msg cb =
     (if FindPos (st_changesStructureIgnoreIds (hd ss)) (fst msg) \<noteq> -1 then Some cb
      else (let a = (case PickOrigin ss (fst msg) of Some orig \<Rightarrow> ChildrenIds orig | None \<Rightarrow> []); b = snd msg
            in insert_hunks ss (fst msg) a b (edit (length a) (length b) (\<lambda>i j. a ! i = b ! j)) cb))"

fun fillStructureChanges :: "edit_fun \<Rightarrow> State list \<Rightarrow> (string \<times> string list) list \<Rightarrow> changeBuilder \<Rightarrow> changeBuilder option" where
  "fillStructureChanges edit ss [] cb = Some cb"
| "fillStructureChanges edit ss (msg # msgs) cb = Option.bind (makeStructureChanges edit ss msg cb) (fillStructureChanges edit ss msgs)"

definition filterLocalAndDerivedRelations :: "string list \<Rightarrow> (string \<times> int) list \<Rightarrow> (string \<times> int) list" where
  "filterLocalAndDerivedRelations localKeys links = [l \<leftarrow> links. fst l \<notin> set localKeys]"

definition filterLocalAndDerivedRelationsByKey :: "string list \<Rightarrow> string list \<Rightarrow> string list" where
  "filterLocalAndDerivedRelationsByKey localKeys ks = [k \<leftarrow> ks. k \<notin> set localKeys]"

fun makeDetailsChanges :: "State list \<Rightarrow> change_content list" where
  "makeDetailsChanges [] = []"
| "makeDetailsChanges (s # ps) =
     (case st_details s of
        None \<Rightarrow> []
      | Some cur \<Rightarrow>
          (let prev = (case Details_of ps of Some m \<Rightarrow> m | None \<Rightarrow> [])
           in [DetailsSet (fst kv) (ToProto (snd kv)). kv \<leftarrow> cur,
                 \<not> Ok (Get (Some prev) (fst kv)) \<or> \<not> Equal (Get (Some prev) (fst kv)) (snd kv)] @
              [DetailsUnset (fst kv). kv \<leftarrow> prev, \<not> Has (Some cur) (fst kv)]))"

fun join_slash :: "string list \<Rightarrow> string" where
  "join_slash [] = []"
| "join_slash [k] = k"
| "join_slash (k # ks) = k @ ''/'' @ join_slash ks"

fun store_path :: "change_content \<Rightarrow> string list option" where
  "store_path (StoreKeySet path _) = Some path"
| "store_path (StoreKeyUnset path) = Some path"
| "store_path _ = None"

text \<open>The last change of every path is kept; the loop runs backwards and its result is reversed.\<close>

fun collapse_from :: "string list \<Rightarrow> change_content list \<Rightarrow> change_content list" where
  "collapse_from seen [] = []"
| "collapse_from seen (ch # chs) =
     (case store_path ch of
        None \<Rightarrow> ch # collapse_from seen chs
      | Some path \<Rightarrow> if join_slash path \<in> set seen then collapse_from seen chs
                    else ch # collapse_from (join_slash path # seen) chs)"

definition collapseSameKeyStoreChanges :: "State list \<Rightarrow> State list" where
  "collapseSameKeyStoreChanges = with_state (\<lambda>s. s\<lparr>st_changes := rev (collapse_from [] (rev (st_changes s)))\<rparr>)"

text \<open>The map of the previous types is never filled, so every type of the state is added.\<close>

fun makeObjectTypesChanges :: "State list \<Rightarrow> change_content list" where
  "makeObjectTypesChanges [] = []"
| "makeObjectTypesChanges (s # ps) =
     (case st_objectTypeKeys s of
        None \<Rightarrow> []
      | Some cur \<Rightarrow>
          map (\<lambda>v. ObjectTypeAdd (TypeKey_URL v) []) cur @
          [ObjectTypeRemove (TypeKey_URL v) []. v \<leftarrow> ObjectTypeKeys ps, v \<notin> set cur])"

fun makeOriginalCreatedChanges :: "State list \<Rightarrow> change_content list" where
  "makeOriginalCreatedChanges [] = []"
| "makeOriginalCreatedChanges (s # ps) =
     (if st_originalCreatedTimestamp s = 0 then []
      else if ps \<noteq> [] \<and> st_originalCreatedTimestamp (hd ps) = st_originalCreatedTimestamp s then []
      else [OriginalCreatedTimestampSet (st_originalCreatedTimestamp s)])"

fun makeNotificationChanges :: "State list \<Rightarrow> change_content list" where
  "makeNotificationChanges [] = []"
| "makeNotificationChanges (s # ps) =
     concat (map (\<lambda>(i, n).
       if ps = [] then [NotificationCreate n]
       else (case GetNotificationById ps i of
               None \<Rightarrow> [NotificationCreate n]
             | Some old \<Rightarrow> if ntf_Status old \<noteq> ntf_Status n then [NotificationUpdate (ntf_Id n) (ntf_Status n)] else []))
       (map_entries (st_notifications s)))"

fun makeDeviceInfoChanges :: "State list \<Rightarrow> change_content list" where
  "makeDeviceInfoChanges [] = []"
| "makeDeviceInfoChanges (s # ps) =
     concat (map (\<lambda>(i, d).
       case GetDevice ps i of
         None \<Rightarrow> [DeviceAdd d]
       | Some old \<Rightarrow> if dev_Name d \<noteq> dev_Name old then [DeviceUpdate (dev_Id d) (dev_Name d)] else [])
       (map_entries (st_deviceStore s)))"

text \<open>
  The builder starts with the changes that the state has. The collapsed changes are overwritten by those of the builder, as in the code.
\<close>

definition add_unless :: "bool \<Rightarrow> change_content \<Rightarrow> changeBuilder \<Rightarrow> changeBuilder" where
  "add_unless isNil ch cb = (if isNil then cb else AddChange [ch] cb)"

definition fillChanges :: "change_env \<Rightarrow> edit_fun \<Rightarrow> StateMessage list \<Rightarrow> State list \<Rightarrow> State list option" where
  "fillChanges env edit msgs ss0 =
     (let m = sort_msgs (st_rootId (hd ss0)) msgs;
          ss = with_state (\<lambda>s. s\<lparr>st_changes := st_changes s @ root_changes m, st_newIds := st_newIds s @ new_ids m\<rparr>) ss0;
          links = filterLocalAndDerivedRelations (env_localKeys env) (new_relLinks m);
          ks = filterLocalAndDerivedRelationsByKey (env_localKeys env) (del_relIds m)
      in map_option (\<lambda>cb.
           let cb = add_unless (del_ids m = []) (BlockRemove (del_ids m)) cb;
               cb = add_unless (links = []) (RelationAdd links) cb;
               cb = add_unless (ks = []) (RelationRemove ks) cb;
               cb = add_unless (upd_msgs m = []) (BlockUpdate (upd_msgs m)) cb;
               ss = collapseSameKeyStoreChanges ss
           in with_state (\<lambda>s. s\<lparr>st_changes := Build cb @ makeDetailsChanges ss @ makeObjectTypesChanges ss @
                makeOriginalCreatedChanges ss @ diffFileInfo ss @ makeNotificationChanges ss @ makeDeviceInfoChanges ss\<rparr>) ss)
           (fillStructureChanges edit ss (struct_msgs m) (newBuilder (st_changes (hd ss)))))"

subsection \<open>Details made and replayed\<close>

fun detail_effect :: "change_content \<Rightarrow> (string \<Rightarrow> Value option) \<Rightarrow> (string \<Rightarrow> Value option)" where
  "detail_effect (DetailsSet k v) m = m(k := if v \<noteq> PNil then Some (ValueFromProto v) else None)"
| "detail_effect (DetailsUnset k) m = m(k := None)"
| "detail_effect _ m = m"

fun is_detail :: "change_content \<Rightarrow> bool" where
  "is_detail (DetailsSet _ _) \<longleftrightarrow> True" | "is_detail (DetailsUnset _) \<longleftrightarrow> True" | "is_detail _ \<longleftrightarrow> False"

lemma writable_lookup:
  assumes "wf_gmap (Details_of (s # ps))"
  shows "map_of (writable_details s ps) = TryGet (Details_of (s # ps)) \<and> wf_map (writable_details s ps)"
proof (cases "st_details s")
  case None
  then show ?thesis
    using assms TryGet_Copy [of "Details_of ps"]
    by (auto simp: writable_details_def own_or_parent_def Details_or_else or_else_def Copy_def TryGet_def fun_eq_iff
        go_map.invar_updates split: option.splits)
next
  case (Some d)
  with assms show ?thesis
    by (auto simp: writable_details_def own_or_parent_def TryGet_def fun_eq_iff)
qed

lemma detail_change:
  assumes "is_detail ch" "wf_gmap (Details_of (s # ps))"
  shows "\<exists>d. applyChange env ch (s # ps) = Some (None, s\<lparr>st_details := Some d\<rparr> # ps) \<and>
    map_of d = detail_effect ch (TryGet (Details_of (s # ps))) \<and> wf_map d"
proof -
  note w = writable_lookup [OF assms(2), THEN conjunct1] writable_lookup [OF assms(2), THEN conjunct2]
  show ?thesis
  proof (cases ch)
    case (DetailsSet k v)
    show ?thesis unfolding DetailsSet
      by (rule exI [of _ "if v \<noteq> PNil then put k (ValueFromProto v) (writable_details s ps) else del k (writable_details s ps)"])
         (auto simp: w)
  next
    case (DetailsUnset k)
    show ?thesis unfolding DetailsUnset by (rule exI [of _ "del k (writable_details s ps)"]) (auto simp: w)
  qed (use assms in auto)
qed

lemma detail_changes:
  "list_all is_detail chs \<Longrightarrow> wf_gmap (Details_of (s # ps)) \<Longrightarrow>
   \<exists>d. ApplyChange env chs (s # ps) = Some (None, s\<lparr>st_details := d\<rparr> # ps) \<and>
     TryGet (Details_of (s\<lparr>st_details := d\<rparr> # ps)) = fold detail_effect chs (TryGet (Details_of (s # ps)))"
proof (induction chs arbitrary: s)
  case Nil
  show ?case by (rule exI [of _ "st_details s"]) simp
next
  case (Cons ch chs)
  then obtain d where d: "applyChange env ch (s # ps) = Some (None, s\<lparr>st_details := Some d\<rparr> # ps)"
    "map_of d = detail_effect ch (TryGet (Details_of (s # ps)))" "wf_map d"
    using detail_change [of ch s ps env] by auto
  have "TryGet (Details_of (s\<lparr>st_details := Some d\<rparr> # ps)) = detail_effect ch (TryGet (Details_of (s # ps)))"
    using d(2) by (auto simp: TryGet_def fun_eq_iff)
  moreover have "wf_gmap (Details_of (s\<lparr>st_details := Some d\<rparr> # ps))" using d(3) by simp
  then obtain d' where "ApplyChange env chs (s\<lparr>st_details := Some d\<rparr> # ps) = Some (None, s\<lparr>st_details := d'\<rparr> # ps)"
     "TryGet (Details_of (s\<lparr>st_details := d'\<rparr> # ps)) = fold detail_effect chs (TryGet (Details_of (s\<lparr>st_details := Some d\<rparr> # ps)))"
    using Cons.IH [of "s\<lparr>st_details := Some d\<rparr>"] Cons.prems(1) by auto
  ultimately show ?case using d(1) by (intro exI [of _ d']) (simp del: applyChange.simps Details_of.simps)
qed

lemma ToProto_set [simp]: "ToProto v \<noteq> PNil"
  by (cases v) (auto simp: proto_StringList_def proto_Float64List_def)

lemma sets_effect:
  "wf_map cur \<Longrightarrow> fold detail_effect [DetailsSet (fst kv) (ToProto (snd kv)). kv \<leftarrow> cur, P kv] m k =
     (case map_of cur k of Some v \<Rightarrow> if P (k, v) then Some (ValueFromProto (ToProto v)) else m k | None \<Rightarrow> m k)"
proof (induction cur arbitrary: m)
  case (Cons kv cur)
  then have "fst kv \<notin> fst ` set cur" "wf_map cur" by (simp_all add: wf_map_def)
  moreover then have "map_of cur (fst kv) = None" by (simp add: map_of_eq_None_iff)
  ultimately show ?case using Cons.IH by (cases kv) (auto split: option.split)
qed simp

lemma unsets_effect:
  "fold detail_effect [DetailsUnset (fst kv). kv \<leftarrow> prev, Q (fst kv)] m k = (if map_of prev k \<noteq> None \<and> Q k then None else m k)"
  by (induction prev arbitrary: m) auto

text \<open>C9: the changes that \<open>makeDetailsChanges\<close> makes of a state and its parent, replayed on a replica that has the details of
  the parent, give the details of the state: every key has the new value, or the old one where \<open>Equal\<close> accepts the new
  one, and keys that the state does not have are gone. Nothing else of the replica changes and no change fails. The values
  are ones that survive the encoding.
\<close>

theorem makeDetailsChanges_replay:
  assumes cur: "st_details s = Some cur" "wf_map cur" "list_all (\<lambda>kv. proto_safe (snd kv)) cur"
    and replica: "Details_of (t # ts) = Details_of ps" "wf_gmap (Details_of ps)"
  shows "\<exists>d. ApplyChange env (makeDetailsChanges (s # ps)) (t # ts) = Some (None, t\<lparr>st_details := d\<rparr> # ts) \<and>
    (\<forall>k. rel_option (\<lambda>x y. x = y \<or> Equal x y) (TryGet (Details_of (t\<lparr>st_details := d\<rparr> # ts)) k) (map_of cur k))"
proof -
  define prev where "prev = (case Details_of ps of Some m \<Rightarrow> m | None \<Rightarrow> [])"
  let ?P = "\<lambda>kv. \<not> Ok (Get (Some prev) (fst kv)) \<or> \<not> Equal (Get (Some prev) (fst kv)) (snd kv)"
  let ?sets = "[DetailsSet (fst kv) (ToProto (snd kv)). kv \<leftarrow> cur, ?P kv]"
  let ?unsets = "[DetailsUnset (fst kv). kv \<leftarrow> prev, \<not> Has (Some cur) (fst kv)]"
  have chs: "makeDetailsChanges (s # ps) = ?sets @ ?unsets" by (simp add: cur(1) Let_def flip: prev_def)
  have "list_all is_detail (?sets @ ?unsets)" by (auto simp: list_all_iff)
  moreover have "wf_gmap (Details_of (t # ts))" using replica by (simp only:)
  ultimately obtain d where
    d: "ApplyChange env (?sets @ ?unsets) (t # ts) = Some (None, t\<lparr>st_details := d\<rparr> # ts)"
      "TryGet (Details_of (t\<lparr>st_details := d\<rparr> # ts)) = fold detail_effect (?sets @ ?unsets) (TryGet (Details_of (t # ts)))"
    using detail_changes [of "?sets @ ?unsets" t ts env] by blast
  have start: "TryGet (Details_of (t # ts)) = map_of prev"
    unfolding replica(1) prev_def by (auto simp: TryGet_def fun_eq_iff split: option.split)
  have safe: "ValueFromProto (ToProto v) = v" if "map_of cur k = Some v" for k v
    using map_of_SomeD [OF that] cur(3) by (intro read_back) (fastforce simp: list_all_iff)
  have "rel_option (\<lambda>x y. x = y \<or> Equal x y) (TryGet (Details_of (t\<lparr>st_details := d\<rparr> # ts)) k) (map_of cur k)" for k
    unfolding d(2) start fold_append comp_def unsets_effect [where Q = "\<lambda>k. \<not> Has (Some cur) k"] sets_effect [OF cur(2), of ?P]
    using safe [of k] by (auto simp: Has_def Get_def Get_data_def split: option.split)
  with d(1) show ?thesis unfolding chs by blast
qed


subsection \<open>Collections made and replayed\<close>

lemma slice_changes_back: "slice_update_of ch = [u] \<Longrightarrow> slice_changes u = [ch]"
  by (cases ch) auto

lemma StoreGet_key: "StoreGet ss [key] = Option.bind (Store_of ss) (\<lambda>m. map_of m key)"
  by (cases "Store_of ss") (simp_all add: StoreGet_def)

lemma slices_read:
  "StoreGet ss [key] = Some (proto_StringList l) \<Longrightarrow> pb_GetStringList (Store_of ss) key = l \<and> GetStoreSlice ss key = l"
  by (cases "Store_of ss") (auto simp: StoreGet_key pb_GetStringList_def GetStoreSlice_def proto_StringList_def)

text \<open>One change of a collection on a replica.\<close>

lemma slice_update_step:
  assumes "slice_update_of ch = [u]" "rs \<noteq> []" "pb_GetStringList (Store_of rs) key = old"
    and "ApplyChanges (env_uniq env) old [ch] (\<lambda>x. x) = Some cur"
  shows "\<exists>rs'. applyChange env (StoreSliceUpdate key u) rs = Some (None, rs') \<and> stored [key] (proto_StringList cur) rs rs'"
  using setInStore_write [of "[key]" "proto_StringList cur" rs "env_cmpV env"] assms slice_changes_back [OF assms(1)]
  by (auto simp: changeStoreSliceUpdate_def proto_StringList_def)

lemma slice_updates_replay:
  assumes "list_all (\<lambda>ch. \<exists>u. slice_update_of ch = [u]) chs" "chs \<noteq> []" "rs \<noteq> []" "pb_GetStringList (Store_of rs) key = old"
    and "apply_each (env_uniq env) chs old = Some cur"
  shows "\<exists>rs'. ApplyChange env (map (StoreSliceUpdate key) (concat (map slice_update_of chs))) rs = Some (None, rs') \<and>
    stored [key] (proto_StringList cur) rs rs'"
  using assms
proof (induction chs arbitrary: rs old)
  case (Cons ch chs)
  obtain u where u: "slice_update_of ch = [u]" using Cons.prems(1) by auto
  obtain mid where mid: "ApplyChanges (env_uniq env) old [ch] (\<lambda>x. x) = Some mid" "apply_each (env_uniq env) chs mid = Some cur"
    using Cons.prems(5) by (auto split: Option.bind_splits)
  obtain rs1 where rs1: "applyChange env (StoreSliceUpdate key u) rs = Some (None, rs1)" "stored [key] (proto_StringList mid) rs rs1"
    using slice_update_step [OF u Cons.prems(3,4) mid(1)] by blast
  show ?case
  proof (cases "chs = []")
    case True
    with rs1 mid(2) u show ?thesis by (auto simp del: applyChange.simps)
  next
    case False
    have ne: "rs1 \<noteq> []" "pb_GetStringList (Store_of rs1) key = mid"
      using rs1(2) slices_read [of rs1 key mid] by (auto simp: stored_def proto_StringList_def)
    obtain rs' where "ApplyChange env (map (StoreSliceUpdate key) (concat (map slice_update_of chs))) rs1 = Some (None, rs')"
        "stored [key] (proto_StringList cur) rs1 rs'"
      using Cons.IH [OF _ False ne mid(2)] Cons.prems(1) by auto
    with rs1 u show ?thesis by (auto simp: stored_def simp del: applyChange.simps)
  qed
qed simp


lemma fold_add_change:
  "ss \<noteq> [] \<Longrightarrow> fold (\<lambda>u. add_change (f u)) us ss = with_state (\<lambda>s. s\<lparr>st_changes := st_changes s @ map f us\<rparr>) ss"
proof (induction us arbitrary: ss)
  case (Cons u us)
  then obtain s ps where "ss = s # ps" by (cases ss) auto
  with Cons.IH [of "add_change (f u) ss"] show ?case by (simp add: add_change_def)
next
  case Nil
  have "s\<lparr>st_changes := st_changes s\<rparr> = s" for s :: State by (rule State.equality) simp_all
  then show ?case by (cases ss) simp_all
qed

lemma StoreGet_changes [simp]: "StoreGet (with_state (\<lambda>s. s\<lparr>st_changes := f s\<rparr>) ss) = StoreGet ss"
  by (cases ss) (simp_all add: StoreGet_def fun_eq_iff)

lemma UpdateStoreSlice_state:
  assumes "ss \<noteq> []"
  shows "\<exists>ss'. UpdateStoreSlice cmpV uniq edit key val ss = Some ss' \<and> StoreGet ss' [key] = Some (proto_StringList val) \<and>
    st_changes (hd ss') = st_changes (hd ss) @
      map (StoreSliceUpdate key) (concat (map slice_update_of (Diff uniq edit (GetStoreSlice ss key) val (\<lambda>s. s) (=))))"
proof -
  obtain b ss1 where s1: "setInStore cmpV [key] (proto_StringList val) ss = Some (b, ss1)" "stored [key] (proto_StringList val) ss ss1"
    using setInStore_write [of "[key]" "proto_StringList val" ss cmpV] assms by (auto simp: proto_StringList_def)
  then have "ss1 \<noteq> []" by (simp add: stored_def)
  with s1 show ?thesis
    by (auto simp: UpdateStoreSlice_def fold_add_change stored_def proto_StringList_def)
qed



subsection \<open>Concrete replays\<close>

definition sample_env :: change_env where
  "sample_env = \<lparr>env_localKeys = [''snippet''], env_md5 = (\<lambda>x. x), env_cmpV = (\<lambda>a b. if a = b then 0 else 1), env_uniq = uniq_first\<rparr>"

definition old_details :: State where
  "old_details = empty_state\<lparr>st_details := Some [(''name'', VString ''a''), (''done'', VBool True)]\<rparr>"

definition new_details :: State where
  "new_details = empty_state\<lparr>st_details := Some [(''name'', VString ''b''), (''size'', VFloat (Fin 1))]\<rparr>"

theorem makeDetailsChanges_replay_witness:
  "\<exists>d. ApplyChange sample_env (makeDetailsChanges [new_details, old_details]) [old_details] = Some (None, [old_details\<lparr>st_details := d\<rparr>]) \<and>
     TryGet d ''done'' = None \<and> TryGet d ''size'' \<noteq> None"
proof -
  let ?cur = "[(''name'', VString ''b''), (''size'', VFloat (Fin 1))]"
  have "st_details new_details = Some ?cur" "wf_map ?cur" "list_all (\<lambda>kv. proto_safe (snd kv)) ?cur"
    "Details_of [old_details] = Details_of [old_details]" "wf_gmap (Details_of [old_details])"
    by (simp_all add: new_details_def old_details_def wf_map_def proto_safe.simps)
  from makeDetailsChanges_replay [OF this, of sample_env] obtain d where
    d: "ApplyChange sample_env (makeDetailsChanges [new_details, old_details]) [old_details] = Some (None, [old_details\<lparr>st_details := d\<rparr>])"
      "\<forall>k. rel_option (\<lambda>x y. x = y \<or> Equal x y) (TryGet (Details_of [old_details\<lparr>st_details := d\<rparr>]) k) (map_of ?cur k)" by blast
  have "TryGet d ''done'' = None" using d(2) [rule_format, of "''done''"] by simp
  moreover have "TryGet d ''size'' \<noteq> None" using d(2) [rule_format, of "''size''"] by (auto simp: option_rel_Some2)
  ultimately show ?thesis using d(1) by blast
qed

definition sample_collection :: State where
  "sample_collection = empty_state\<lparr>st_store := Some [(''objects'', proto_StringList [''a'', ''b'', ''c''])], st_storeKeyRemoved := Some []\<rparr>"


end
