(* ===== verification/StateApply.thy ===== *)
theory StateApply
  imports Changes Utf16
begin

section \<open>Applying a state (core/block/editor/state: state.go, event.go)\<close>

text \<open>
  \<open>ApplyState\<close> ends the work on a state: it collapses the chain down to a state and its parent, normalizes the tree,
  collects the blocks that the root still reaches, computes messages for clients and an action for the undo history,
  makes the changes, and installs everything in the parent. The model is of what follows the normalization, which
  the theory of block normalization holds; blocks that read and write details are not in the model.

  A panic or an error of a block difference or of the walk is an error value or \<^term>\<open>None\<close>.
\<close>

subsection \<open>The snippet\<close>

definition snippetMaxSize :: int where "snippetMaxSize = 300"

definition Style_Title :: int where "Style_Title = 7"

definition Style_Description :: int where "Style_Description = 12"

definition TrimSpace :: "nat list \<Rightarrow> nat list" where
  "TrimSpace str = rev (dropWhile IsSpace (rev (dropWhile IsSpace str)))"

definition snippet_step :: "nat list \<times> int \<Rightarrow> Block \<Rightarrow> (nat list \<times> int) \<times> bool" where
  "snippet_step acc b =
     (case Content b of
        CText t \<Rightarrow>
          (let nextText = TrimSpace (tText t)
           in if tStyle t = Style_Title \<or> tStyle t = Style_Description \<or> nextText = [] then (acc, True)
              else (let text = (if snd acc > 0 then fst acc @ [10] else fst acc) @ nextText;
                        size = snd acc + UTF16RuneCountString nextText
                    in ((text, size), size < snippetMaxSize)))
      | _ \<Rightarrow> (acc, True))"

definition Snippet :: "State list \<Rightarrow> nat list \<times> State list" where
  "Snippet ss = (case BlockState.Iterate ss snippet_step ([], 0) of (acc, _, ss) \<Rightarrow> (TruncateEllipsized (fst acc) snippetMaxSize, ss))"

text \<open>The bytes of a string of code points.\<close>

definition utf8_rune :: "nat \<Rightarrow> nat list" where
  "utf8_rune r =
     (if r < 0x80 then [r]
      else if r < 0x800 then [0xc0 + r div 0x40, 0x80 + r mod 0x40]
      else if r < 0x10000 then [0xe0 + r div 0x1000, 0x80 + (r div 0x40) mod 0x40, 0x80 + r mod 0x40]
      else [0xf0 + r div 0x40000, 0x80 + (r div 0x1000) mod 0x40, 0x80 + (r div 0x40) mod 0x40, 0x80 + r mod 0x40])"

definition utf8 :: "nat list \<Rightarrow> string" where
  "utf8 str = map char_of (concat (map utf8_rune str))"

subsection \<open>Messages\<close>

text \<open>Details that changed and keys to unset, for all keys or for those that a subscription asks for.\<close>

definition StructDiffIntoEventsWithSubIds :: "string \<Rightarrow> string \<Rightarrow> gmap \<Rightarrow> string list \<Rightarrow> string list \<Rightarrow> string list \<Rightarrow> StateMessage list" where
  "StructDiffIntoEventsWithSubIds spaceId contextId diff filterKeys keysToUnset subIds =
     (if Len diff = 0 \<and> keysToUnset = [] then []
      else (let wanted = (\<lambda>k. filterKeys = [] \<or> k \<in> set filterKeys);
                details = [(fst kv, ToProto (snd kv)). kv \<leftarrow> GenericMap.Iterate diff, wanted (fst kv)];
                ks = [k \<leftarrow> keysToUnset. wanted k]
            in (if details \<noteq> [] then [\<lparr>sm_Virtual = False, sm_SpaceId = spaceId, sm_Value = MsgDetailsAmend contextId details subIds\<rparr>] else []) @
               (if ks \<noteq> [] then [\<lparr>sm_Virtual = False, sm_SpaceId = spaceId, sm_Value = MsgDetailsUnset contextId ks subIds\<rparr>] else [])))"

definition StructDiffIntoEvents :: "string \<Rightarrow> string \<Rightarrow> gmap \<Rightarrow> string list \<Rightarrow> StateMessage list" where
  "StructDiffIntoEvents spaceId contextId diff keysToUnset = StructDiffIntoEventsWithSubIds spaceId contextId diff [] keysToUnset []"

definition WrapEventMessages :: "bool \<Rightarrow> StateMessage list \<Rightarrow> StateMessage list" where
  "WrapEventMessages virtual = map (\<lambda>m. m\<lparr>sm_Virtual := virtual\<rparr>)"

text \<open>A message is dropped when its encoding is that of the one before; the encoding of a message is its space and its value.\<close>

fun drop_repeated :: "(string \<times> msg_value) option \<Rightarrow> StateMessage list \<Rightarrow> StateMessage list" where
  "drop_repeated prev [] = []"
| "drop_repeated prev (m # ms) =
     (let curr = (sm_SpaceId m, sm_Value m)
      in if prev = Some curr then drop_repeated prev ms else m # drop_repeated (Some curr) ms)"

definition processTrailingDuplicatedEvents :: "StateMessage list \<Rightarrow> StateMessage list" where
  "processTrailingDuplicatedEvents = drop_repeated None"

fun eventGroup :: "msg_value \<Rightarrow> nat" where
  "eventGroup (MsgBlockAdd _) = 0"
| "eventGroup (MsgBlockDelete _) = 1"
| "eventGroup (MsgBlock (BlockSetChildrenIds _ _)) = 2"
| "eventGroup (MsgDetailsAmend _ _ _) = 4"
| "eventGroup (MsgDetailsUnset _ _ _) = 5"
| "eventGroup _ = 1000"

definition sortEventMessages :: "StateMessage list \<Rightarrow> StateMessage list" where
  "sortEventMessages = sort_key (\<lambda>m. eventGroup (sm_Value m))"


subsection \<open>Collecting what changed\<close>

text \<open>What \<open>apply\<close> is given: sorting of marks, comparison of structs, the space of the call, the edit script, and the rest.\<close>

record apply_env =
  ap_sortMarks :: "text_mark list \<Rightarrow> text_mark list"
  ap_cmpS :: "fields \<Rightarrow> fields \<Rightarrow> int"
  ap_spaceId :: string
  ap_edit :: edit_fun
  ap_change :: change_env

definition SpaceID :: "State list \<Rightarrow> string" where
  "SpaceID ss = GetString (LocalDetails_of ss) ''spaceId''"

text \<open>The chain is collapsed until the state has at most one parent. The space of the call is not handed on.\<close>

function collapse :: "string \<Rightarrow> State list \<Rightarrow> string \<times> State list" where
  "collapse spaceId ss = (if length ss > 2 then collapse [] (intermediateApply ss) else (spaceId, ss))"
  by pat_completeness auto
termination
proof (relation "measure (length \<circ> snd)")
  fix ss :: "State list" and sp :: string assume "length ss > 2"
  then show "(([], intermediateApply ss), (sp, ss)) \<in> measure (length \<circ> snd)" by (cases ss) auto
qed simp

declare collapse.simps [simp del]

datatype apply_error = ApplyCycle cycle | ApplyDiff string

definition no_action :: Action where
  "no_action = \<lparr>act_Add = [], act_Change = [], act_Remove = [], act_Details = None, act_RelationLinks = None, act_Group = [],
     act_ObjectTypes = None, act_CarriageInfo = (no_carriage, no_carriage)\<rparr>"

fun apply_snippet :: "State list \<Rightarrow> State list" where
  "apply_snippet (s # p # ps) =
     (case Snippet (s # p\<lparr>st_uniqueKeyInternal := st_uniqueKeyInternal s\<rparr> # ps) of (text, ss) \<Rightarrow>
      (case Snippet (tl ss) of (text', ps) \<Rightarrow>
        (if text \<noteq> text' then SetLocalDetail ''snippet'' (VString (utf8 text)) (hd ss # ps) else hd ss # ps)))"
| "apply_snippet ss = ss"

definition use_step :: "State \<Rightarrow> string list \<times> string list \<Rightarrow> Block \<Rightarrow> (string list \<times> string list) \<times> bool" where
  "use_step s acc b =
     ((fst acc @ [Id b], if map_of (st_blocks s) (Id b) \<noteq> None then snd acc @ [Id b] else snd acc), True)"

text \<open>
  New blocks are collected and reported together before the next changed one. A difference may sort the marks of both
  blocks, and an upload that is over is reset in the old one.
\<close>

record apply_acc =
  ac_newBlocks :: "Block list"
  ac_msgs :: "StateMessage list"
  ac_action :: Action

definition flushNewBlocks :: "string \<Rightarrow> apply_acc \<Rightarrow> apply_acc" where
  "flushNewBlocks spaceId ac =
     ac\<lparr>ac_msgs := ac_msgs ac @ (if ac_newBlocks ac \<noteq> []
           then [\<lparr>sm_Virtual = False, sm_SpaceId = spaceId, sm_Value = MsgBlockAdd (ac_newBlocks ac)\<rparr>] else []),
        ac_newBlocks := []\<rparr>"

definition end_upload :: "Block \<Rightarrow> Block" where
  "end_upload b = (case Content b of CFile f \<Rightarrow> if file_State f = 1 then b\<lparr>Content := CFile (f\<lparr>file_State := 0\<rparr>)\<rparr> else b | _ \<Rightarrow> b)"

definition put_parent :: "string \<Rightarrow> Block \<Rightarrow> State list \<Rightarrow> State list" where
  "put_parent i b ss = hd ss # put_block i b (tl ss)"

fun diff_affected :: "apply_env \<Rightarrow> string list \<Rightarrow> apply_acc \<Rightarrow> State list \<Rightarrow> (string + apply_acc \<times> State list) option" where
  "diff_affected env [] ac ss = Some (Inr (ac, ss))"
| "diff_affected env (i # is) ac ss =
     (case PickOrigin ss i of
        None \<Rightarrow>
          (case map_of (st_blocks (hd ss)) i of
             None \<Rightarrow> None
           | Some bc \<Rightarrow>
               diff_affected env is
                 (ac\<lparr>ac_newBlocks := ac_newBlocks ac @ [bc], ac_action := (ac_action ac)\<lparr>act_Add := act_Add (ac_action ac) @ [bc]\<rparr>\<rparr>) ss)
      | Some orig \<Rightarrow>
          (case Get_block ss i of
             (None, ss) \<Rightarrow> None
           | (Some b, ss) \<Rightarrow>
               (case Block_Diff (ap_sortMarks env) (ap_cmpS env) (ap_spaceId env) orig b of
                  Inl err \<Rightarrow> Some (Inl err)
                | Inr (diff, orig, b) \<Rightarrow>
                    (let ac = flushNewBlocks (ap_spaceId env) ac; orig = (if diff \<noteq> [] then end_upload orig else orig);
                         ss = put_parent i orig (put_block i b ss)
                     in diff_affected env is
                          (if diff = [] then ac
                           else ac\<lparr>ac_msgs := ac_msgs ac @ map state_message diff,
                                  ac_action := (ac_action ac)\<lparr>act_Change := act_Change (ac_action ac) @ [(orig, b)]\<rparr>\<rparr>) ss))))"

fun relation_msgs :: "apply_env \<Rightarrow> State list \<Rightarrow> apply_acc \<Rightarrow> apply_acc" where
  "relation_msgs env (s # p # ps) ac =
     (case st_relationLinks s of
        None \<Rightarrow> ac
      | Some rl \<Rightarrow>
          (case links_Diff rl (links_of (st_relationLinks p)) of (added, removed) \<Rightarrow>
            ac\<lparr>ac_action := (if added \<noteq> [] \<or> removed \<noteq> []
                  then (ac_action ac)\<lparr>act_RelationLinks := Some (links_of (st_relationLinks p), rl)\<rparr> else ac_action ac),
               ac_msgs := ac_msgs ac @
                 (if removed \<noteq> [] then [\<lparr>sm_Virtual = False, sm_SpaceId = SpaceID (s # p # ps),
                    sm_Value = MsgRelationsRemove (fst (RootId (s # p # ps))) removed\<rparr>] else []) @
                 (if added \<noteq> [] then [\<lparr>sm_Virtual = False, sm_SpaceId = SpaceID (s # p # ps),
                    sm_Value = MsgRelationsAmend (fst (RootId (s # p # ps))) added\<rparr>] else [])\<rparr>))"
| "relation_msgs env ss ac = ac"

subsection \<open>Installing a state in its parent\<close>

definition install_blocks :: "string list \<Rightarrow> (string \<times> Block) list \<Rightarrow> (string \<times> Block) list \<Rightarrow> (string \<times> Block) list" where
  "install_blocks inUse own blocks =
     fold (\<lambda>(_, b) m. if Id b \<in> set inUse then put (Id b) b m else m) own [kb \<leftarrow> blocks. fst kb \<in> set inUse]"

definition install_details :: "gmap \<Rightarrow> gmap \<Rightarrow> gmap" where
  "install_details d prev =
     (if d = None then prev
      else (case StructDiff prev d of (diff, unset) \<Rightarrow> if diff \<noteq> None \<or> unset \<noteq> [] \<or> \<not> gm_Equal d prev then d else prev))"

definition install :: "string list \<Rightarrow> State \<Rightarrow> State \<Rightarrow> State" where
  "install inUse s p = p\<lparr>
     st_blocks := install_blocks inUse (st_blocks s) (st_blocks p),
     st_changes := st_changes s,
     st_migrationVersion := st_migrationVersion s,
     st_changeId := (if st_changeId s \<noteq> [] then st_changeId s else st_changeId p),
     st_details := install_details (st_details s) (st_details p),
     st_objectTypeKeys := (case st_objectTypeKeys s of
         None \<Rightarrow> st_objectTypeKeys p
       | Some ks \<Rightarrow> if UnsortedEqual (ObjectTypeKeys [p]) ks then st_objectTypeKeys p else Some ks),
     st_fileInfo := st_fileInfo s,
     st_fileKeys := st_fileKeys p @ st_fileKeys s,
     st_relationLinks := or_else (st_relationLinks s) (st_relationLinks p),
     st_localDetails := install_details (st_localDetails s) (st_localDetails p),
     st_store := or_else (st_store s) (st_store p),
     st_storeLastChangeIdByPath := or_else (st_storeLastChangeIdByPath s) (st_storeLastChangeIdByPath p),
     st_storeKeyRemoved := or_else (st_storeKeyRemoved s) (st_storeKeyRemoved p),
     st_originalCreatedTimestamp := (if st_originalCreatedTimestamp s > 0 then st_originalCreatedTimestamp s else st_originalCreatedTimestamp p),
     st_notifications := or_else (st_notifications s) (st_notifications p),
     st_deviceStore := or_else (st_deviceStore s) (st_deviceStore p)\<rparr>"

definition details_msgs :: "bool \<Rightarrow> string \<Rightarrow> string \<Rightarrow> gmap \<Rightarrow> gmap \<Rightarrow> StateMessage list" where
  "details_msgs virtual spaceId rootId d prev =
     (if d = None then []
      else (case StructDiff prev d of (diff, unset) \<Rightarrow>
        if diff \<noteq> None \<or> unset \<noteq> [] then WrapEventMessages virtual (StructDiffIntoEvents spaceId rootId diff unset) else []))"

fun action_parts :: "State list \<Rightarrow> string list \<Rightarrow> Action \<Rightarrow> Action" where
  "action_parts (s # p # ps) toRemove a =
     a\<lparr>act_Remove := act_Remove a @ List.map_filter (PickOrigin (s # p # ps)) toRemove,
       act_Details := (if st_details s \<noteq> None
         then (case StructDiff (st_details p) (st_details s) of (diff, unset) \<Rightarrow>
            if diff \<noteq> None \<or> unset \<noteq> [] then Some (Copy (st_details p), Copy (st_details s)) else act_Details a)
         else act_Details a),
       act_ObjectTypes := (case st_objectTypeKeys s of
           None \<Rightarrow> act_ObjectTypes a
         | Some ks \<Rightarrow> if UnsortedEqual (ObjectTypeKeys [p]) ks then act_ObjectTypes a else Some (ObjectTypeKeys [p], ks))\<rparr>"
| "action_parts ss toRemove a = a"

fun install_in_parent :: "string list \<Rightarrow> State list \<Rightarrow> State list" where
  "install_in_parent inUse (s # p # ps) = s # install inUse s p # ps"
| "install_in_parent inUse [s] = [s\<lparr>st_blocks := [kb \<leftarrow> st_blocks s. fst kb \<in> set inUse]\<rparr>]"
| "install_in_parent inUse [] = []"

definition removed_ids :: "string list \<Rightarrow> State list \<Rightarrow> string list" where
  "removed_ids inUse ss = [k \<leftarrow> map fst (st_blocks (if tl ss \<noteq> [] then hd (tl ss) else hd ss)). k \<notin> set inUse]"

definition parent_msgs :: "apply_env \<Rightarrow> State list \<Rightarrow> StateMessage list" where
  "parent_msgs env ss =
     (if tl ss = [] then []
      else details_msgs False (SpaceID ss) (fst (RootId ss)) (st_details (hd ss)) (Details_of (tl ss)) @
           details_msgs True (ap_spaceId env) (fst (RootId ss)) (st_localDetails (hd ss)) (LocalDetails_of (tl ss)))"

definition close_msgs :: "apply_env \<Rightarrow> string list \<Rightarrow> State list \<Rightarrow> apply_acc \<Rightarrow> apply_acc" where
  "close_msgs env toRemove ss ac =
     (let ac = flushNewBlocks (ap_spaceId env) ac
      in relation_msgs env ss (ac\<lparr>ac_msgs := ac_msgs ac @ (if toRemove \<noteq> []
           then [\<lparr>sm_Virtual = False, sm_SpaceId = SpaceID ss, sm_Value = MsgBlockDelete toRemove\<rparr>] else [])\<rparr>))"

text \<open>The state with at most one parent, normalized.\<close>

definition apply_normalized :: "apply_env \<Rightarrow> State list \<Rightarrow> (apply_error + StateMessage list \<times> Action \<times> State list) option" where
  "apply_normalized env ss0 =
     (case BlockState.Iterate (apply_snippet ss0) (use_step (hd (apply_snippet ss0))) ([], []) of
        (_, Some c, _) \<Rightarrow> Some (Inl (ApplyCycle c))
      | ((inUse, affectedIds), None, ss1) \<Rightarrow>
          (case diff_affected env affectedIds \<lparr>ac_newBlocks = [], ac_msgs = [], ac_action = no_action\<rparr> ss1 of
             None \<Rightarrow> None
           | Some (Inl err) \<Rightarrow> Some (Inl (ApplyDiff err))
           | Some (Inr (ac, ss2)) \<Rightarrow>
               (let toRemove = removed_ids inUse ss2; ac = close_msgs env toRemove ss2 ac
                in case fillChanges (ap_change env) (ap_edit env) (ac_msgs ac) ss2 of
                     None \<Rightarrow> None
                   | Some ss3 \<Rightarrow>
                       Some (Inr (sortEventMessages (processTrailingDuplicatedEvents (ac_msgs ac @ parent_msgs env ss3)),
                         action_parts ss3 toRemove (ac_action ac), install_in_parent inUse ss3)))))"

subsection \<open>What the difference of blocks keeps\<close>

definition same_shape :: "Block \<Rightarrow> Block \<Rightarrow> bool" where
  "same_shape b b' \<longleftrightarrow> Id b' = Id b \<and> ChildrenIds b' = ChildrenIds b"

lemma same_shape_refl [simp]: "same_shape b b"
  by (simp add: same_shape_def)

lemma same_shape_trans: "same_shape a b \<Longrightarrow> same_shape b c \<Longrightarrow> same_shape a c"
  by (simp add: same_shape_def)

lemma end_upload_shape [simp]: "same_shape b (end_upload b)"
  by (simp add: end_upload_def same_shape_def split: content.split)

lemma Base_Diff_shape: "Base_Diff cmpS sp a b = (ms, a', b') \<Longrightarrow> same_shape a a' \<and> same_shape b b'"
  by (auto simp: Base_Diff_def Let_def same_shape_def)

lemma with_changes_shape: "with_changes cmpS sp a b ch = Inr (ms, a', b') \<Longrightarrow> same_shape a a' \<and> same_shape b b'"
  by (auto simp: with_changes_def split: prod.splits dest: Base_Diff_shape)

lemma Block_Diff_shape:
  assumes "Block_Diff srt cmpS sp a b = Inr (ms, a', b')"
  shows "same_shape a a' \<and> same_shape b b'"
proof (cases "Content a")
  case (CText c)
  with assms show ?thesis
    by (auto simp: Block_Diff_def Text_Diff_def same_shape_def Let_def split: content.splits prod.splits sum.splits dest: with_changes_shape)
qed (use assms in \<open>auto simp: Block_Diff_def Div_Diff_def Link_Diff_def Bookmark_Diff_def File_Diff_def Latex_Diff_def Widget_Diff_def
      Relation_Diff_def Row_Diff_def split: content.splits dest: with_changes_shape Base_Diff_shape\<close>)

definition shape_blocks :: "(string \<times> Block) list \<Rightarrow> (string \<times> Block) list \<Rightarrow> bool" where
  "shape_blocks m m' \<longleftrightarrow> (\<forall>i. rel_option same_shape (map_of m i) (map_of m' i))"

lemma shape_blocks_refl [simp]: "shape_blocks m m"
  unfolding shape_blocks_def by (metis option.rel_refl same_shape_refl)

definition added_blocks :: "StateMessage list \<Rightarrow> Block list" where
  "added_blocks msgs = concat (map (\<lambda>m. case sm_Value m of MsgBlockAdd bs \<Rightarrow> bs | _ \<Rightarrow> []) msgs)"

definition adds :: "apply_acc \<Rightarrow> string set" where
  "adds ac = Id ` set (ac_newBlocks ac @ added_blocks (ac_msgs ac))"

lemma added_append [simp]: "added_blocks (ms @ ns) = added_blocks ms @ added_blocks ns"
  by (simp add: added_blocks_def)

lemma added_diff [simp]: "added_blocks (map state_message ms) = []"
  by (simp add: added_blocks_def state_message_def comp_def)

lemma added_single [simp]: "added_blocks [\<lparr>sm_Virtual = v, sm_SpaceId = sp, sm_Value = x\<rparr>] = (case x of MsgBlockAdd bs \<Rightarrow> bs | _ \<Rightarrow> [])"
  by (simp add: added_blocks_def)

lemma added_Nil [simp]: "added_blocks [] = []"
  by (simp add: added_blocks_def)

lemma adds_flush [simp]: "adds (flushNewBlocks sp ac) = adds ac"
  by (auto simp: adds_def flushNewBlocks_def)

definition step_ok :: "apply_env \<Rightarrow> State \<Rightarrow> State \<Rightarrow> string \<Rightarrow> bool" where
  "step_ok env s p i \<longleftrightarrow> (\<exists>b. map_of (st_blocks s) i = Some b \<and> Id b = i \<and>
     (\<forall>o'. map_of (st_blocks p) i = Some o' \<longrightarrow> Id o' = i \<and> (\<exists>r. Block_Diff (ap_sortMarks env) (ap_cmpS env) (ap_spaceId env) o' b = Inr r)))"

definition diffed :: "string list \<Rightarrow> State \<Rightarrow> State \<Rightarrow> bool" where
  "diffed is s t \<longleftrightarrow> (\<exists>bs. t = s\<lparr>st_blocks := bs\<rparr> \<and> shape_blocks (st_blocks s) bs \<and>
     (\<forall>i. i \<notin> set is \<longrightarrow> map_of bs i = map_of (st_blocks s) i) \<and> (wf_state s \<longrightarrow> wf_state t))"

lemma same_blocks [simp]: "s\<lparr>st_blocks := st_blocks s\<rparr> = s" for s :: State
  by (rule State.equality) simp_all

lemma diffed_refl [simp]: "diffed is s s"
  unfolding diffed_def by (rule exI [of _ "st_blocks s"]) simp

lemma shape_trans: "shape_blocks a b \<Longrightarrow> shape_blocks b c \<Longrightarrow> shape_blocks a c"
  unfolding shape_blocks_def
proof (intro allI)
  fix i
  assume "\<forall>i. rel_option same_shape (map_of a i) (map_of b i)" "\<forall>i. rel_option same_shape (map_of b i) (map_of c i)"
  then have "rel_option same_shape (map_of a i) (map_of b i)" "rel_option same_shape (map_of b i) (map_of c i)" by blast+
  then show "rel_option same_shape (map_of a i) (map_of c i)"
    by (cases "map_of a i"; cases "map_of b i"; cases "map_of c i") (auto intro: same_shape_trans)
qed

lemma diffed_put:
  assumes "map_of (st_blocks s) i = Some b" "same_shape b b'" "Id b = i"
  shows "diffed [i] s (s\<lparr>st_blocks := put i b' (st_blocks s)\<rparr>)"
proof -
  have "shape_blocks (st_blocks s) (put i b' (st_blocks s))"
    using assms shape_blocks_refl [of "st_blocks s"] by (auto simp: shape_blocks_def intro: option.rel_refl)
  moreover have "wf_state (s\<lparr>st_blocks := put i b' (st_blocks s)\<rparr>)" if "wf_state s"
    using wf_state_put_block [of "[s]" b'] that assms by (simp add: same_shape_def)
  ultimately show ?thesis unfolding diffed_def by auto
qed

lemma diffed_trans: "diffed is s t \<Longrightarrow> diffed js t u \<Longrightarrow> diffed (is @ js) s u"
  unfolding diffed_def by (elim exE conjE, hypsubst) (auto intro: shape_trans)

lemma diffed_Cons: "diffed is s t \<Longrightarrow> diffed (i # is) s t" "diffed [i] s t \<Longrightarrow> diffed is t u \<Longrightarrow> diffed (i # is) s u"
  using diffed_trans [of "[i]" s s "is" t] diffed_trans [of "[i]" s t "is" u] by simp_all

lemma diff_affected_ok:
  assumes "distinct is" "\<forall>i\<in>set is. step_ok env s p i"
  shows "\<exists>ac' t q. diff_affected env is ac [s, p] = Some (Inr (ac', [t, q])) \<and> diffed is s t \<and> diffed is p q \<and>
    adds ac' \<subseteq> adds ac \<union> set is"
  using assms
proof (induction "is" arbitrary: ac s p)
  case (Cons i "is")
  from Cons.prems obtain b where b: "map_of (st_blocks s) i = Some b" "Id b = i"
    and ok: "\<And>o'. map_of (st_blocks p) i = Some o' \<Longrightarrow> Id o' = i \<and> (\<exists>r. Block_Diff (ap_sortMarks env) (ap_cmpS env) (ap_spaceId env) o' b = Inr r)"
    by (auto simp: step_ok_def)
  show ?case
  proof (cases "map_of (st_blocks p) i")
    case None
    define ac1 where "ac1 = ac\<lparr>ac_newBlocks := ac_newBlocks ac @ [b], ac_action := (ac_action ac)\<lparr>act_Add := act_Add (ac_action ac) @ [b]\<rparr>\<rparr>"
    have "diff_affected env (i # is) ac [s, p] = diff_affected env is ac1 [s, p]"
      by (simp add: None b PickOrigin_def ac1_def)
    moreover have "adds ac1 = insert i (adds ac)" using b by (auto simp: adds_def ac1_def)
    moreover obtain ac' t q where "diff_affected env is ac1 [s, p] = Some (Inr (ac', [t, q]))" "diffed is s t" "diffed is p q"
      "adds ac' \<subseteq> adds ac1 \<union> set is" using Cons.IH [of s p ac1] Cons.prems by auto
    ultimately show ?thesis using diffed_Cons(1) by (intro exI [of _ ac'] exI [of _ t] exI [of _ q]) auto
  next
    case (Some orig)
    then obtain ms o1 b1 where d: "Block_Diff (ap_sortMarks env) (ap_cmpS env) (ap_spaceId env) orig b = Inr (ms, o1, b1)"
      and oi: "Id orig = i" using ok by (metis prod_cases3)
    define o2 where "o2 = (if ms \<noteq> [] then end_upload o1 else o1)"
    define s1 where "s1 = s\<lparr>st_blocks := put i b1 (st_blocks s)\<rparr>"
    define p1 where "p1 = p\<lparr>st_blocks := put i o2 (st_blocks p)\<rparr>"
    define ac1 where "ac1 = (let ac = flushNewBlocks (ap_spaceId env) ac in if ms = [] then ac
       else ac\<lparr>ac_msgs := ac_msgs ac @ map state_message ms,
               ac_action := (ac_action ac)\<lparr>act_Change := act_Change (ac_action ac) @ [(o2, b1)]\<rparr>\<rparr>)"
    have sh: "same_shape b b1" "same_shape orig o2"
      using Block_Diff_shape [OF d] same_shape_trans [OF _ end_upload_shape] by (auto simp: o2_def)
    have run: "diff_affected env (i # is) ac [s, p] = diff_affected env is ac1 [s1, p1]"
      by (simp add: Some b d PickOrigin_def ac1_def s1_def p1_def put_parent_def Let_def o2_def)
    have ad: "adds ac1 = adds (flushNewBlocks (ap_spaceId env) ac)" by (auto simp: ac1_def adds_def Let_def)
    have "step_ok env s1 p1 j" if "j \<in> set is" for j
      using Cons.prems that by (auto simp: step_ok_def s1_def p1_def)
    then obtain ac' t q where "diff_affected env is ac1 [s1, p1] = Some (Inr (ac', [t, q]))" "diffed is s1 t" "diffed is p1 q"
      "adds ac' \<subseteq> adds ac1 \<union> set is" using Cons.IH [of s1 p1 ac1] Cons.prems by auto
    moreover have "diffed [i] s s1" "diffed [i] p p1"
      using diffed_put [OF b(1) sh(1) b(2)] diffed_put [OF Some sh(2) oi] by (simp_all add: s1_def p1_def)
    ultimately show ?thesis using run ad diffed_Cons(2) by (intro exI [of _ ac'] exI [of _ t] exI [of _ q]) auto
  qed
qed simp


subsection \<open>Making changes never panics\<close>

lemma insert_run_total:
  "\<forall>x\<in>set (st_newIds (hd ss)). Pick ss x \<noteq> None \<Longrightarrow> insert_run ss parentId a b poss st cb \<noteq> None"
proof (induction poss arbitrary: st cb)
  case (Cons pos poss)
  then show ?case by (cases st) (auto simp: Let_def split: option.splits)
qed simp

lemma insert_hunks_total:
  "\<forall>x\<in>set (st_newIds (hd ss)). Pick ss x \<noteq> None \<Longrightarrow> insert_hunks ss parentId a b hs cb \<noteq> None"
proof (induction hs arbitrary: cb)
  case (Cons h hs)
  obtain cb' where "insert_run ss parentId a b [hB h..<hB h + hIns h] (0, [], Block_None) cb = Some cb'"
    using insert_run_total [OF Cons.prems] by blast
  then show ?case using Cons by simp
qed simp

lemma fillStructure_total:
  "\<forall>x\<in>set (st_newIds (hd ss)). Pick ss x \<noteq> None \<Longrightarrow> fillStructureChanges edit ss msgs cb \<noteq> None"
proof (induction msgs arbitrary: cb)
  case (Cons msg msgs)
  obtain cb' where "makeStructureChanges edit ss msg cb = Some cb'"
    using insert_hunks_total [OF Cons.prems] by (fastforce simp: makeStructureChanges_def Let_def)
  then show ?case using Cons by simp
qed simp

lemma sort_msg_new_ids: "set (new_ids (sort_msg r v m)) \<subseteq> set (new_ids m) \<union> Id ` set (case v of MsgBlockAdd bs \<Rightarrow> bs | _ \<Rightarrow> [])"
proof -
  have "set (new_ids (fold (add_block_msg r) bs m)) = set (new_ids m) \<union> Id ` set bs" for bs
    by (induction bs arbitrary: m) (auto simp: add_block_msg_def)
  then show ?thesis by (cases "(r, v, m)" rule: sort_msg.cases) auto
qed

lemma sort_msgs_new_ids: "set (new_ids (sort_msgs r msgs)) \<subseteq> Id ` set (added_blocks msgs)"
proof -
  have "set (new_ids (fold (\<lambda>msg m. if sm_Virtual msg then m else sort_msg r (sm_Value msg) m) msgs m)) \<subseteq>
      set (new_ids m) \<union> Id ` set (added_blocks msgs)" for m
  proof (induction msgs arbitrary: m)
    case (Cons msg msgs)
    define m1 where "m1 = (if sm_Virtual msg then m else sort_msg r (sm_Value msg) m)"
    define bs where "bs = (case sm_Value msg of MsgBlockAdd bs \<Rightarrow> bs | _ \<Rightarrow> [])"
    have "set (new_ids m1) \<subseteq> set (new_ids m) \<union> Id ` set bs"
      using sort_msg_new_ids [of r "sm_Value msg" m] by (auto simp: m1_def bs_def)
    moreover have "added_blocks (msg # msgs) = bs @ added_blocks msgs" by (simp add: added_blocks_def bs_def)
    ultimately show ?case using Cons [of m1] by (auto simp flip: m1_def)
  qed simp
  then show ?thesis unfolding sort_msgs_def by fastforce
qed

lemma fillChanges_total:
  assumes "\<forall>x\<in>set (st_newIds s) \<union> Id ` set (added_blocks msgs). Pick (s # ps) x \<noteq> None"
  shows "\<exists>chs nids. fillChanges env edit msgs (s # ps) = Some (s\<lparr>st_newIds := nids, st_changes := chs\<rparr> # ps)"
proof -
  define m where "m = sort_msgs (st_rootId s) msgs"
  define t where "t = s\<lparr>st_changes := st_changes s @ root_changes m, st_newIds := st_newIds s @ new_ids m\<rparr>"
  have "Pick (t # ps) = Pick (s # ps)" by (simp add: t_def fun_eq_iff)
  then have "\<forall>x\<in>set (st_newIds (hd (t # ps))). Pick (t # ps) x \<noteq> None"
    using assms sort_msgs_new_ids [of "st_rootId s" msgs] by (auto simp: t_def m_def)
  then obtain cb where cb: "fillStructureChanges edit (t # ps) (struct_msgs m) (newBuilder (st_changes t)) = Some cb"
    using fillStructure_total by blast
  then show ?thesis
    by (simp add: fillChanges_def Let_def collapseSameKeyStoreChanges_def t_def flip: m_def
          del: makeDetailsChanges.simps makeObjectTypesChanges.simps makeOriginalCreatedChanges.simps diffFileInfo.simps
            makeNotificationChanges.simps makeDeviceInfoChanges.simps) (intro exI, rule refl)
qed


subsection \<open>What is installed\<close>

lemma install_blocks_lookup:
  assumes "wf_map own" "\<forall>(k, b)\<in>set own. Id b = k"
  shows "map_of (install_blocks inUse own blocks) i =
    (if i \<in> set inUse then (case map_of own i of Some b \<Rightarrow> Some b | None \<Rightarrow> map_of blocks i) else None)"
proof -
  have "map_of (fold (\<lambda>(_, b) m. if Id b \<in> set inUse then put (Id b) b m else m) own m) i =
    (if i \<in> set inUse then (case map_of own i of Some b \<Rightarrow> Some b | None \<Rightarrow> map_of m i) else map_of m i)" for m
    using assms
  proof (induction own arbitrary: m)
    case (Cons kb own)
    obtain k b where kb: "kb = (k, b)" "Id b = k" using Cons.prems(2) by (cases kb) auto
    have "map_of own k = None" "wf_map own" using Cons.prems(1) by (simp_all add: kb wf_map_def map_of_eq_None_iff)
    with Cons kb show ?case by (auto split: option.split)
  qed simp
  moreover have "map_of [kb \<leftarrow> blocks. fst kb \<in> set inUse] i = (if i \<in> set inUse then map_of blocks i else None)"
    by (induction blocks) auto
  ultimately show ?thesis by (simp add: install_blocks_def split: option.split)
qed

lemma apply_snippet_two:
  assumes "st_rootId s \<noteq> []" "st_rootId p \<noteq> []"
  shows "\<exists>ld u. apply_snippet [s, p] = [s\<lparr>st_localDetails := ld\<rparr>, p\<lparr>st_uniqueKeyInternal := u\<rparr>]"
proof -
  have same: "s\<lparr>st_localDetails := st_localDetails s\<rparr> = s" by (rule State.equality) simp_all
  let ?p = "p\<lparr>st_uniqueKeyInternal := st_uniqueKeyInternal s\<rparr>"
  have "snd (Snippet [s, ?p]) = [s, ?p]" "snd (Snippet [?p]) = [?p]"
    using assms by (simp_all add: Snippet_def Iterate_run split: prod.splits)
  moreover have "\<exists>ld. SetLocalDetail k v [s, ?p] = [s\<lparr>st_localDetails := ld\<rparr>, ?p]" for k v
    using same by (metis SetLocalDetail.simps(1))
  moreover have "\<exists>ld. [s, ?p] = [s\<lparr>st_localDetails := ld\<rparr>, ?p]" using same by metis
  ultimately have "\<exists>ld. apply_snippet [s, p] = [s\<lparr>st_localDetails := ld\<rparr>, ?p]"
    by (auto split: prod.splits simp del: SetLocalDetail.simps)
  then show ?thesis by blast
qed

declare apply_snippet.simps [simp del]

lemma use_walk:
  assumes "rooted ss r" "acyclic_from ss r" "own_ids ss"
  shows "BlockState.Iterate ss (use_step s) ([], []) =
    ((map fst (fst (walk ss [] r)), [i \<leftarrow> map fst (fst (walk ss [] r)). map_of (st_blocks s) i \<noteq> None]), None, ss)"
proof -
  let ?w = "fst (walk ss [] r)"
  have ids: "map Id (map snd ?w) = map fst ?w"
    using walk_reach(1) [of _ _ ss "[]" r] assms(3) by (auto simp: own_ids_def)
  have "fold (\<lambda>b a. fst (use_step s a b)) bs (x, y) = (x @ map Id bs, y @ [i \<leftarrow> map Id bs. map_of (st_blocks s) i \<noteq> None])" for bs x y
    by (induction bs arbitrary: x y) (auto simp: use_step_def)
  then have "fold (\<lambda>b a. fst (use_step s a b)) (map snd ?w) ([], []) = (map fst ?w, [i \<leftarrow> map fst ?w. map_of (st_blocks s) i \<noteq> None])"
    by (simp only: ids append_Nil)
  moreover have "snd (use_step s a b)" for a b by (simp add: use_step_def)
  ultimately show ?thesis
    using assms(1,2) walk_error_iff [of ss r] by (simp add: Iterate_run run_def scan_always del: fold_map)
qed


lemma diffed_same: "diffed is s t \<Longrightarrow> i \<notin> set is \<Longrightarrow> map_of (st_blocks t) i = map_of (st_blocks s) i"
  by (auto simp: diffed_def)

lemma diffed_Pick: "diffed is s t \<Longrightarrow> diffed is p q \<Longrightarrow> rel_option same_shape (Pick [s, p] i) (Pick [t, q] i)"
proof -
  assume "diffed is s t" "diffed is p q"
  then have "rel_option same_shape (map_of (st_blocks s) i) (map_of (st_blocks t) i)"
    "rel_option same_shape (map_of (st_blocks p) i) (map_of (st_blocks q) i)"
    by (auto simp: diffed_def shape_blocks_def)
  then show ?thesis
    by (cases "map_of (st_blocks s) i"; cases "map_of (st_blocks t) i"; cases "map_of (st_blocks p) i"; cases "map_of (st_blocks q) i") auto
qed

text \<open>The reachable part of a tree, with blocks of the same shape, is a tree.\<close>

lemma tree_restrict:
  assumes t: "tree ss r" and same: "\<And>i. rel_option same_shape (if reach ss r i then Pick ss i else None) (Pick ss' i)"
  shows "tree ss' r"
proof -
  have pick: "\<exists>b. reach ss r i \<and> Pick ss i = Some b \<and> ChildrenIds b' = ChildrenIds b" if "Pick ss' i = Some b'" for i b'
    using same [of i] that by (auto simp: option_rel_Some2 same_shape_def split: if_splits)
  have conv: "\<exists>b'. Pick ss' i = Some b' \<and> ChildrenIds b' = ChildrenIds b" if "reach ss r i" "Pick ss i = Some b" for i b
    using same [of i] that by (auto simp: option_rel_Some1 same_shape_def)
  have ch: "(i, c) \<in> child ss' \<longleftrightarrow> reach ss r i \<and> (i, c) \<in> child ss" for i c
    unfolding child_def using pick conv by fastforce
  have ex: "Exists ss' c" if "reach ss r c" "Exists ss c" for c
    using conv that by (auto simp: Exists_def)
  have a: "distinct (ChildrenIds b') \<and> (\<forall>c\<in>set (ChildrenIds b'). Exists ss' c)" if x: "Pick ss' x = Some b'" for x b'
  proof -
    obtain b where b: "reach ss r x" "Pick ss x = Some b" "ChildrenIds b' = ChildrenIds b" using pick [OF x] by blast
    then show ?thesis using ex tree_children [OF t b(1,2)] reach_step [OF b(1)] by auto
  qed
  have b: "x = y" if "(x, c) \<in> child ss'" "(y, c) \<in> child ss'" for x y c
    using that tree_parent [OF t] by (auto simp: ch)
  have c: "(x, r) \<notin> child ss'" for x using t by (auto simp: ch tree_def)
  show ?thesis unfolding tree_def using a b c by blast
qed

lemma added_relation [simp]: "added_blocks (ac_msgs (relation_msgs env ss ac)) = added_blocks (ac_msgs ac)"
  by (cases "(env, ss, ac)" rule: relation_msgs.cases) (auto split: option.split prod.split)

declare relation_msgs.simps [simp del]

lemma added_flush: "Id ` set (added_blocks (ac_msgs (flushNewBlocks sp ac))) = adds ac"
  by (auto simp: adds_def flushNewBlocks_def)

definition diff_ok :: "apply_env \<Rightarrow> State \<Rightarrow> State \<Rightarrow> bool" where
  "diff_ok env s p \<longleftrightarrow> (\<forall>i b o'. map_of (st_blocks s) i = Some b \<and> map_of (st_blocks p) i = Some o' \<longrightarrow>
     (\<exists>d. Block_Diff (ap_sortMarks env) (ap_cmpS env) (ap_spaceId env) o' b = Inr d))"

lemma wf_lookup: "wf_state s \<Longrightarrow> map_of (st_blocks s) i = Some b \<Longrightarrow> Id b = i"
  by (auto simp: wf_state_def dest!: map_of_SomeD)

lemma apply_walk:
  assumes wf: "wf_state s" "wf_state p" and root: "st_rootId s = r" "st_rootId p = r" "r \<noteq> []" and tree: "tree [s, p] r"
  obtains s1 p1 ld u where "s1 = s\<lparr>st_localDetails := ld\<rparr>" "p1 = p\<lparr>st_uniqueKeyInternal := u\<rparr>" "Pick [s1, p1] = Pick [s, p]"
    "BlockState.Iterate (apply_snippet [s, p]) (use_step (hd (apply_snippet [s, p]))) ([], []) =
      ((map fst (fst (walk [s, p] [] r)), [i \<leftarrow> map fst (fst (walk [s, p] [] r)). map_of (st_blocks s) i \<noteq> None]), None, [s1, p1])"
proof -
  obtain ld u where sn: "apply_snippet [s, p] = [s\<lparr>st_localDetails := ld\<rparr>, p\<lparr>st_uniqueKeyInternal := u\<rparr>]"
    using apply_snippet_two [of s p] root by auto
  define s1 p1 where "s1 = s\<lparr>st_localDetails := ld\<rparr>" and "p1 = p\<lparr>st_uniqueKeyInternal := u\<rparr>"
  have pk: "Pick [s1, p1] = Pick [s, p]" by (simp add: s1_def p1_def fun_eq_iff split: option.split)
  note cong = links_cong [OF pk]
  have own: "own_ids [s, p]" using wf by (intro own_idsI) (auto simp: wf_state_def list_all_iff)
  have w: "walk [s1, p1] [] r = walk [s, p] [] r"
    by (rule walk_cong(1)) (simp only: pk simp_thms)
  have "BlockState.Iterate [s1, p1] (use_step s1) ([], []) =
      ((map fst (fst (walk [s, p] [] r)), [i \<leftarrow> map fst (fst (walk [s, p] [] r)). map_of (st_blocks s) i \<noteq> None]), None, [s1, p1])"
    using use_walk [of "[s1, p1]" r s1] tree_acyclic [OF tree] own root cong(4,5) by (simp add: w rooted_def) (simp add: s1_def)
  with that [OF s1_def p1_def pk] sn show thesis by (simp add: s1_def p1_def)
qed

lemma apply_core:
  assumes wf: "wf_state s" "wf_state p" and root: "st_rootId s = r" "st_rootId p = r" "r \<noteq> []" and tree: "tree [s, p] r"
    and nids: "\<forall>x\<in>set (st_newIds s). Exists [s, p] x" and ok: "diff_ok env s p"
  obtains msgs act "is" s1 p1 t q chs nids' ld u where "s1 = s\<lparr>st_localDetails := ld\<rparr>" "p1 = p\<lparr>st_uniqueKeyInternal := u\<rparr>"
    "apply_normalized env [s, p] =
       Some (Inr (msgs, act, install_in_parent (map fst (fst (walk [s, p] [] r))) [t\<lparr>st_newIds := nids', st_changes := chs\<rparr>, q]))"
    "Pick [s1, p1] = Pick [s, p]" "diffed is s1 t" "diffed is p1 q" "\<And>i. i \<in> set is \<Longrightarrow> map_of (st_blocks s) i \<noteq> None"
proof -
  define ids where "ids = map fst (fst (walk [s, p] [] r))"
  define aff where "aff = [i \<leftarrow> ids. map_of (st_blocks s) i \<noteq> None]"
  obtain s1 p1 ld u where s1: "s1 = s\<lparr>st_localDetails := ld\<rparr>" and p1: "p1 = p\<lparr>st_uniqueKeyInternal := u\<rparr>"
    and pk: "Pick [s1, p1] = Pick [s, p]"
    and it: "BlockState.Iterate (apply_snippet [s, p]) (use_step (hd (apply_snippet [s, p]))) ([], []) = ((ids, aff), None, [s1, p1])"
    by (rule apply_walk [OF wf root tree, folded ids_def, folded aff_def]) (rule that)
  have da: "distinct aff" unfolding aff_def ids_def using walk_distinct(1) [OF tree, of r "[]"] by simp
  have "step_ok env s1 p1 i" if "i \<in> set aff" for i
  proof -
    obtain b where b: "map_of (st_blocks s) i = Some b" using \<open>i \<in> set aff\<close> by (auto simp: aff_def)
    then show ?thesis using ok wf wf_lookup by (auto simp: step_ok_def s1 p1 diff_ok_def)
  qed
  then obtain ac t q where d: "diff_affected env aff \<lparr>ac_newBlocks = [], ac_msgs = [], ac_action = no_action\<rparr> [s1, p1] = Some (Inr (ac, [t, q]))"
    "diffed aff s1 t" "diffed aff p1 q" "adds ac \<subseteq> set aff"
    using diff_affected_ok [OF da, of env s1 p1 "\<lparr>ac_newBlocks = [], ac_msgs = [], ac_action = no_action\<rparr>"] by (auto simp: adds_def)
  define ac2 where "ac2 = close_msgs env (removed_ids ids [t, q]) [t, q] ac"
  have ad: "Id ` set (added_blocks (ac_msgs ac2)) = adds ac" by (simp add: ac2_def close_msgs_def Let_def added_flush)
  have nt: "st_newIds t = st_newIds s" using d(2) by (auto simp: diffed_def s1)
  have "Pick [t, q] x \<noteq> None" if "x \<in> set (st_newIds t) \<union> Id ` set (added_blocks (ac_msgs ac2))" for x
  proof -
    have "x \<in> set (st_newIds s) \<or> x \<in> set aff" using that unfolding ad nt using d(4) by auto
    then have "Pick [s1, p1] x \<noteq> None"
    proof
      assume "x \<in> set aff"
      then show ?thesis unfolding pk by (auto simp: aff_def)
    qed (use nids pk in \<open>simp add: Exists_def\<close>)
    then show ?thesis using diffed_Pick [OF d(2,3), of x] by (auto simp: option_rel_Some1)
  qed
  then obtain chs nids' where f: "fillChanges (ap_change env) (ap_edit env) (ac_msgs ac2) [t, q] = Some [t\<lparr>st_newIds := nids', st_changes := chs\<rparr>, q]"
    using fillChanges_total [of t "ac_msgs ac2" "[q]" "ap_change env" "ap_edit env"] by blast
  have "\<exists>msgs act. apply_normalized env [s, p] = Some (Inr (msgs, act, install_in_parent ids [t\<lparr>st_newIds := nids', st_changes := chs\<rparr>, q]))"
    using d(1) f unfolding apply_normalized_def it
    by (simp add: Let_def del: install_in_parent.simps flip: ac2_def)
  with that [OF s1 p1 _ pk d(2,3)] show thesis unfolding ids_def aff_def by auto
qed

text \<open>C2: applying a state whose tree is valid succeeds and leaves in the parent exactly the blocks that the root reaches: the
  parent alone is a valid tree, has a block of the same id with the same children in the same order for each of them
  and no other block, and blocks that the state did not touch are the same. The links to relations, the store, the
  notifications and the devices are those that the state had. The state and the parent agree on the kind of every block,
  and ids counted as new belong to blocks.
\<close>

theorem apply_installs:
  assumes wf: "wf_state s" "wf_state p" and root: "st_rootId s = r" "st_rootId p = r" "r \<noteq> []"
    and valid: "fst (Validate [s, p]) = None" and nids: "\<forall>x\<in>set (st_newIds s). Exists [s, p] x" and ok: "diff_ok env s p"
  shows "\<exists>msgs act t q. apply_normalized env [s, p] = Some (Inr (msgs, act, [t, q])) \<and> fst (Validate [q]) = None \<and>
    (\<forall>i. rel_option same_shape (if reach [s, p] r i then Pick [s, p] i else None) (Pick [q] i)) \<and>
    (\<forall>i. reach [s, p] r i \<and> map_of (st_blocks s) i = None \<longrightarrow> Pick [q] i = Pick [s, p] i) \<and>
    pickRelationLinks [q] = pickRelationLinks [s, p] \<and> Store_of [q] = Store_of [s, p] \<and>
    ListNotifications [q] = ListNotifications [s, p] \<and> ListDevices [q] = ListDevices [s, p]"
proof -
  have tree: "tree [s, p] r" using valid Validate_rooted [of "[s, p]" r] root by (simp add: rooted_def)
  obtain msgs act "is" s1 p1 t q0 chs nids' ld u where s1: "s1 = s\<lparr>st_localDetails := ld\<rparr>" and p1: "p1 = p\<lparr>st_uniqueKeyInternal := u\<rparr>"
    and ap: "apply_normalized env [s, p] =
       Some (Inr (msgs, act, install_in_parent (map fst (fst (walk [s, p] [] r))) [t\<lparr>st_newIds := nids', st_changes := chs\<rparr>, q0]))"
    and pk: "Pick [s1, p1] = Pick [s, p]" and d: "diffed is s1 t" "diffed is p1 q0"
    and aff: "\<And>i. i \<in> set is \<Longrightarrow> map_of (st_blocks s) i \<noteq> None"
    by (rule apply_core [OF wf root tree nids ok]) (rule that)
  define inUse where "inUse = map fst (fst (walk [s, p] [] r))"
  define t3 where "t3 = t\<lparr>st_newIds := nids', st_changes := chs\<rparr>"
  define q where "q = install inUse t3 q0"
  have use: "i \<in> set inUse \<longleftrightarrow> reach [s, p] r i \<and> Pick [s, p] i \<noteq> None" for i
    using walk_visits [OF tree_acyclic [OF tree], of i] by (force simp: inUse_def)
  have "wf_state t" using d(1) wf(1) by (auto simp: diffed_def s1 wf_state_def)
  then have pq: "Pick [q] i = (if i \<in> set inUse then Pick [t, q0] i else None)" for i
    using install_blocks_lookup [of "st_blocks t" inUse "st_blocks q0" i] by (simp add: q_def t3_def install_def wf_state_def split: option.split)
  have shape: "rel_option same_shape (if reach [s, p] r i then Pick [s, p] i else None) (Pick [q] i)" for i
    using diffed_Pick [OF d, of i] use [of i] unfolding pq pk by auto
  have old: "Pick [q] i = Pick [s, p] i" if "reach [s, p] r i" "map_of (st_blocks s) i = None" for i
  proof -
    have "i \<notin> set is" using that(2) aff by blast
    then have "Pick [t, q0] i = Pick [s1, p1] i" using d by (simp add: diffed_same split: option.split)
    with use [of i] that(1) show ?thesis unfolding pq pk by auto
  qed
  have "st_rootId q = r" using d(2) root by (auto simp: q_def install_def diffed_def p1)
  then have "fst (Validate [q]) = None"
    using Validate_rooted [of "[q]" r] tree_restrict [OF tree shape] root(3) by (simp add: rooted_def)
  moreover have "pickRelationLinks [q] = pickRelationLinks [s, p]" "Store_of [q] = Store_of [s, p]"
    "ListNotifications [q] = ListNotifications [s, p]" "ListDevices [q] = ListDevices [s, p]"
    using d by (auto simp: q_def t3_def install_def diffed_def s1 p1 or_else_def split: option.splits)
  ultimately show ?thesis using ap shape old by (auto simp: q_def t3_def inUse_def)
qed


definition apply_sample :: "State list" where
  "apply_sample = [empty_state\<lparr>st_blocks := [(''r'', sample_block ''r'' [''b'', ''n'']), (''n'', sample_block ''n'' [])]\<rparr>,
     empty_state\<lparr>st_blocks := [(''r'', sample_block ''r'' [''a'', ''b'']), (''a'', sample_block ''a'' []), (''b'', sample_block ''b'' [])]\<rparr>]"

definition sample_apply_env :: apply_env where
  "sample_apply_env = \<lparr>ap_sortMarks = (\<lambda>ms. ms), ap_cmpS = (\<lambda>a b. if a = b then 0 else 1), ap_spaceId = ''sp'',
     ap_edit = whole_hunk, ap_change = sample_env\<rparr>"

theorem apply_installs_witness:
  "\<exists>msgs act t q. apply_normalized sample_apply_env apply_sample = Some (Inr (msgs, act, [t, q])) \<and> fst (Validate [q]) = None \<and>
     Pick [q] ''n'' \<noteq> None \<and> Pick [q] ''b'' = Pick apply_sample ''b''"
proof -
  obtain s p where sp: "apply_sample = [s, p]" "s = hd apply_sample" "p = hd (tl apply_sample)" by (simp add: apply_sample_def)
  have wf: "wf_state s" "wf_state p" "st_rootId s = ''r''" "st_rootId p = ''r''" "''r'' \<noteq> []"
    "fst (Validate [s, p]) = None" "\<forall>x\<in>set (st_newIds s). Exists [s, p] x" "diff_ok sample_apply_env s p"
    subgoal by (simp add: sp(2) apply_sample_def wf_state_def wf_map_def sample_block_def)
    subgoal by (simp add: sp(3) apply_sample_def wf_state_def wf_map_def sample_block_def)
    subgoal by (simp add: sp(2) apply_sample_def empty_state_def)
    subgoal by (simp add: sp(3) apply_sample_def empty_state_def)
    subgoal by simp
    subgoal unfolding sp(2,3) by code_simp
    subgoal by (simp add: sp(2) apply_sample_def empty_state_def)
    subgoal by (auto simp: diff_ok_def sp(2,3) apply_sample_def Block_Diff_def sample_block_def Base_Diff_def Let_def)
    done
  have ch: "(''r'', ''n'') \<in> child [s, p]" "(''r'', ''b'') \<in> child [s, p]"
    by (auto simp: child_def sp(2,3) apply_sample_def sample_block_def)
  have "reach [s, p] ''r'' ''n''" "reach [s, p] ''r'' ''b''" using ch reach_step [OF reach_refl] by blast+
  moreover have "Pick [s, p] ''n'' \<noteq> None" "map_of (st_blocks s) ''b'' = None" by (simp_all add: sp(2,3) apply_sample_def)
  moreover obtain msgs act t q where a: "apply_normalized sample_apply_env [s, p] = Some (Inr (msgs, act, [t, q]))" "fst (Validate [q]) = None"
    "\<forall>i. rel_option same_shape (if reach [s, p] ''r'' i then Pick [s, p] i else None) (Pick [q] i)"
    "\<forall>i. reach [s, p] ''r'' i \<and> map_of (st_blocks s) i = None \<longrightarrow> Pick [q] i = Pick [s, p] i"
    using apply_installs [OF wf] by blast
  ultimately have "Pick [q] ''n'' \<noteq> None" "Pick [q] ''b'' = Pick [s, p] ''b''"
    using a(3) [rule_format, of "''n''"] by (auto simp: option_rel_Some1)
  with a(1,2) show ?thesis unfolding sp(1) by blast
qed

subsection \<open>Where a replay does not give the state back\<close>

text \<open>The map of removed keys of the parent is not taken over by a state that copies its store.\<close>

lemma removed_keys_forgotten:
  "StoreKeysRemoved (NewState [store_sample\<lparr>st_storeKeyRemoved := Some [''a'']\<rparr>]) = Some [''a''] \<and>
   StoreKeysRemoved (createOrCopyStoreFromParent (NewState [store_sample\<lparr>st_storeKeyRemoved := Some [''a'']\<rparr>])) = Some []"
  by code_simp

text \<open>Two writes of one path stay in the changes, although they are collapsed.\<close>

lemma repeated_writes_stay:
  "map_option (\<lambda>ss. st_changes (hd ss))
     (fillChanges sample_env whole_hunk [] [empty_state\<lparr>st_changes := [StoreKeySet [''k''] (PBool True), StoreKeySet [''k''] (PBool False)]\<rparr>])
   = Some [StoreKeySet [''k''] (PBool True), StoreKeySet [''k''] (PBool False)] \<and>
   st_changes (hd (collapseSameKeyStoreChanges [empty_state\<lparr>st_changes := [StoreKeySet [''k''] (PBool True), StoreKeySet [''k''] (PBool False)]\<rparr>]))
   = [StoreKeySet [''k''] (PBool False)]"
  by code_simp

text \<open>A type that the parent has is added again.\<close>

lemma types_added_again:
  "makeObjectTypesChanges [empty_state\<lparr>st_objectTypeKeys := Some [''page'']\<rparr>, empty_state\<lparr>st_objectTypeKeys := Some [''page'']\<rparr>]
   = [ObjectTypeAdd ''ot-page'' []]"
  by code_simp

text \<open>A file that is unset makes a change that does nothing.\<close>

lemma file_not_unset:
  "let p = empty_state\<lparr>st_fileInfo := (''f'', [(''k'', ''v'')])\<rparr>; s = empty_state\<lparr>st_fileInfo := ([], [])\<rparr>
   in diffFileInfo [s, p] = [SetFileInfoChange None] \<and>
      map_option (\<lambda>(_, ss). st_fileInfo (hd ss)) (ApplyChange sample_env (diffFileInfo [s, p]) [p]) = Some (''f'', [(''k'', ''v'')])"
  by code_simp

definition old_note :: Notification where
  "old_note = \<lparr>ntf_Id = ''1'', ntf_Status = 0, ntf_Rest = []\<rparr>"

text \<open>A notification that is created in a new state replaces those of the parent, and a status change there is lost.\<close>

lemma notifications_replaced:
  "let ss = NewState [empty_state\<lparr>st_notifications := Some [(''1'', old_note)]\<rparr>]; new = old_note\<lparr>ntf_Id := ''2''\<rparr>
   in map_option (\<lambda>(_, ss). GetNotificationById (ApplyStateFastOne ss) ''1'') (ApplyChange sample_env [NotificationCreate new] ss) = Some None \<and>
      map_option (\<lambda>(_, ss). GetNotificationById (ApplyStateFastOne ss) ''1'') (ApplyChange sample_env [NotificationUpdate ''1'' 2] ss) = Some (Some old_note)"
  by code_simp

text \<open>A device that is added in a new state does not reach the parent.\<close>

lemma device_lost:
  "map_option (\<lambda>(_, ss). (GetDevice ss ''d'' \<noteq> None, GetDevice (ApplyStateFastOne ss) ''d'' \<noteq> None))
     (ApplyChange sample_env [DeviceAdd \<lparr>dev_Id = ''d'', dev_Name = ''n'', dev_AddDate = 0, dev_Archived = False, dev_IsConnected = False\<rparr>] (NewState [empty_state]))
   = Some (True, False)"
  by code_simp

text \<open>The space of the call is lost when a state has a grandparent.\<close>

lemma space_lost: "fst (collapse ''sp'' (NewState (NewState [empty_state]))) = []"
  by (simp add: collapse.simps NewState_def)

text \<open>
  A block that becomes the first child goes on top of the former first child, even when that one has moved away: \<open>n\<close> is
  added to \<open>x\<close>, from where \<open>m\<close> has moved to \<open>y\<close>, and its replay puts it into \<open>y\<close>.
\<close>

fun common_ends :: "nat \<Rightarrow> nat \<Rightarrow> (nat \<Rightarrow> nat \<Rightarrow> bool) \<Rightarrow> hunk list" where
  "common_ends n m eq =
     (let p = length (takeWhile (\<lambda>i. eq i i) [0..<min n m]);
          q = length (takeWhile (\<lambda>i. eq (n - 1 - i) (m - 1 - i)) [0..<min n m - p])
      in if n = p + q \<and> m = p + q then [] else [\<lparr>hA = p, hB = p, hDel = n - p - q, hIns = m - p - q\<rparr>])"

definition moved_first :: "State list" where
  "moved_first = [empty_state\<lparr>st_blocks := [(''y'', sample_block ''y'' [''m'']), (''x'', sample_block ''x'' [''n'', ''k'']), (''n'', sample_block ''n'' [])]\<rparr>,
     empty_state\<lparr>st_blocks := [(''r'', sample_block ''r'' [''y'', ''x'']), (''y'', sample_block ''y'' []), (''x'', sample_block ''x'' [''m'', ''k'']),
       (''m'', sample_block ''m'' []), (''k'', sample_block ''k'' [])]\<rparr>]"

lemma first_child_elsewhere:
  "case apply_normalized (sample_apply_env\<lparr>ap_edit := common_ends\<rparr>) moved_first of
     Some (Inr (_, _, [t, q])) \<Rightarrow>
       map_option ChildrenIds (Pick [q] ''x'') = Some [''n'', ''k''] \<and>
       (case ApplyChange sample_env (st_changes t) (tl moved_first) of
          Some (None, rs) \<Rightarrow> map_option ChildrenIds (Pick rs ''x'') = Some [''k''] \<and> map_option ChildrenIds (Pick rs ''y'') = Some [''n'', ''m'']
        | _ \<Rightarrow> False)
   | _ \<Rightarrow> False"
  by code_simp

end
