(* ===== verification/TextEdit.thy ===== *)
theory TextEdit
  imports SimpleTable StateApply
begin

section \<open>Editing blocks of a document (core/block/editor/stext, core/block/editor/basic)\<close>

text \<open>
  What a client can do to the blocks of a document: split, merge, mark and restyle texts, create, move, copy, replace and
  remove blocks. Every operation works on a new state of the object, here the chain of states, and hands it to the
  application of states at the end, which another theory models. An operation returns an error or a value with the state, a panic or a walk that
  does not end is \<^term>\<open>None\<close>. Generated ids, the answers of the object store and of the file service, and whether the object forbids new blocks, are arguments. Blocks whose text is
  a detail of the object are not in the model.
\<close>

subsection \<open>Operations with errors\<close>

datatype edit_error =
    ErrSimpleBlockNotFound | ErrNotText | EditInsert insert_error | EditText text_error | EditTable table_error
  | ErrNoContent | ErrRequiredBlock | ErrMoveToChild | ErrTargetNotFound | ErrWrongBlock | ErrRelationNotFound
  | ErrEmptyTarget | ErrBlocksRestricted | ErrStore

type_synonym 'a edit = "State list \<Rightarrow> ((edit_error + 'a) \<times> State list) option"

definition give :: "'a \<Rightarrow> 'a edit" where
  "give x = (\<lambda>ss. Some (Inr x, ss))"

definition refuse :: "edit_error \<Rightarrow> 'a edit" where
  "refuse e = (\<lambda>ss. Some (Inl e, ss))"

definition and_then :: "'a edit \<Rightarrow> ('a \<Rightarrow> 'b edit) \<Rightarrow> 'b edit" where
  "and_then m f = (\<lambda>ss. case m ss of None \<Rightarrow> None | Some (Inl e, ss) \<Rightarrow> Some (Inl e, ss) | Some (Inr x, ss) \<Rightarrow> f x ss)"

definition modify :: "(State list \<Rightarrow> State list) \<Rightarrow> unit edit" where
  "modify f = (\<lambda>ss. Some (Inr (), f ss))"

definition insert_ids :: "(nat list \<Rightarrow> nat list) \<Rightarrow> string \<Rightarrow> BlockPosition \<Rightarrow> string list \<Rightarrow> unit edit" where
  "insert_ids md5 target pos ids =
     (\<lambda>ss. case InsertTo md5 ss target pos ids of
        None \<Rightarrow> None | Some (Some e, ss) \<Rightarrow> Some (Inl (EditInsert e), ss) | Some (None, ss) \<Rightarrow> Some (Inr (), ss))"

definition HeaderLayoutId :: string where "HeaderLayoutId = ''header''"

definition IsRequiredBlockId :: "string \<Rightarrow> bool" where
  "IsRequiredBlockId i \<longleftrightarrow> i \<in> {''title'', ''description'', ''featuredRelations'', HeaderLayoutId}"

subsection \<open>Text\<close>

definition getText :: "string \<Rightarrow> (Block \<times> BlockContentText) edit" where
  "getText i = (\<lambda>ss. case Get_block ss i of
     (None, ss) \<Rightarrow> Some (Inl ErrSimpleBlockNotFound, ss)
   | (Some b, ss) \<Rightarrow> Some (case Content b of CText c \<Rightarrow> Inr (b, c) | _ \<Rightarrow> Inl ErrNotText, ss))"

text \<open>Texts that are not found are skipped, an error of the change ends the loop.\<close>

fun UpdateTextBlocks :: "(Block \<Rightarrow> BlockContentText \<Rightarrow> edit_error + Block) \<Rightarrow> string list \<Rightarrow> unit edit" where
  "UpdateTextBlocks f [] = give ()"
| "UpdateTextBlocks f (i # is) = (\<lambda>ss. case getText i ss of
       None \<Rightarrow> None
     | Some (Inl _, ss) \<Rightarrow> UpdateTextBlocks f is ss
     | Some (Inr (b, c), ss) \<Rightarrow>
         (case f b c of Inl e \<Rightarrow> Some (Inl e, ss) | Inr b' \<Rightarrow> UpdateTextBlocks f is (put_block i b' ss)))"

datatype split_mode = SplitBottom | SplitTop | SplitInner | SplitTitle

definition set_style :: "int \<Rightarrow> Block \<Rightarrow> Block" where
  "set_style style b = (case Content b of CText c \<Rightarrow> b\<lparr>Content := CText (c\<lparr>tStyle := style\<rparr>)\<rparr> | _ \<Rightarrow> b)"

definition block_text :: "Block \<Rightarrow> nat list" where
  "block_text b = (case Content b of CText c \<Rightarrow> tText c | _ \<Rightarrow> [])"

fun first_text :: "string list \<Rightarrow> State list \<Rightarrow> (Block \<times> BlockContentText) option \<times> State list" where
  "first_text [] ss = (None, ss)"
| "first_text (i # is) ss = (case Get_block ss i of
       (Some b, ss) \<Rightarrow> (case Content b of CText c \<Rightarrow> (Some (b, c), ss) | _ \<Rightarrow> first_text is ss)
     | (None, ss) \<Rightarrow> first_text is ss)"

text \<open>The mode is changed for blocks of the header.\<close>

definition effective_mode :: "string \<Rightarrow> split_mode \<Rightarrow> State list \<Rightarrow> (split_mode \<times> State list) option" where
  "effective_mode i mode ss =
     (case HasParent ss i HeaderLayoutId of
        None \<Rightarrow> None
      | Some (inHeader, ss) \<Rightarrow>
          (let mode = (if inHeader then SplitTitle else mode)
           in Some (if mode = SplitTitle \<and> Pick ss HeaderLayoutId = None then SplitTop else mode, ss)))"

text \<open>In the header the text behind the cut goes to the next text of the header, or to a new block under the header.\<close>

definition split_title :: "(text_mark list \<Rightarrow> text_mark list) \<Rightarrow> (string \<Rightarrow> string option) \<Rightarrow> (nat list \<Rightarrow> nat list) \<Rightarrow>
    string \<Rightarrow> Block \<Rightarrow> string edit" where
  "split_title srt normURI md5 i nb = (\<lambda>ss.
     case Pick ss HeaderLayoutId of
       None \<Rightarrow> None
     | Some header \<Rightarrow>
         (let pos = FindPos (ChildrenIds header) i;
              (found, ss) = (if pos \<noteq> -1 then first_text (drop (nat pos + 1) (ChildrenIds header)) ss else (None, ss))
          in case found of
               Some (next_b, c) \<Rightarrow>
                 (let exText = (if list_all IsSpace (tText c) then block_text nb else block_text nb @ [10] @ tText c)
                  in Some (Inr (Id next_b), put_block (Id next_b) (next_b\<lparr>Content := CText (SetText srt normURI exText [] c)\<rparr>) ss))
             | None \<Rightarrow>
                 and_then (modify (put_block (Id nb) (set_style Style_Paragraph nb))) (\<lambda>_.
                 and_then (insert_ids md5 HeaderLayoutId Block_Bottom [Id nb]) (\<lambda>_. give (Id nb))) ss))"

definition split_target :: "split_mode \<Rightarrow> Block \<Rightarrow> string \<times> BlockPosition" where
  "split_target mode b =
     (case mode of
        SplitBottom \<Rightarrow> (Id b, Block_Bottom)
      | SplitInner \<Rightarrow> (case ChildrenIds b of [] \<Rightarrow> (Id b, Block_Inner) | c # _ \<Rightarrow> (c, Block_Top))
      | _ \<Rightarrow> (Id b, Block_Top))"

definition Split_block :: "(text_mark list \<Rightarrow> text_mark list) \<Rightarrow> (string \<Rightarrow> string option) \<Rightarrow> (nat list \<Rightarrow> nat list) \<Rightarrow> string \<Rightarrow>
    string \<Rightarrow> int \<Rightarrow> int \<Rightarrow> int \<Rightarrow> split_mode \<Rightarrow> string edit" where
  "Split_block srt normURI md5 newId i from to style mode =
     and_then (getText i) (\<lambda>(b, c) ss.
       case effective_mode i mode ss of
         None \<Rightarrow> None
       | Some (mode, ss) \<Rightarrow>
           (case RangeSplit srt newId from to (mode = SplitTop) b c of
              Inl e \<Rightarrow> Some (Inl (EditText e), ss)
            | Inr (nb, ob) \<Rightarrow>
                (let nb = set_style style nb; ss = snd (Add_block (put_block i ob ss) nb)
                 in if mode = SplitTitle then split_title srt normURI md5 i nb ss
                    else (case split_target mode ob of (target, pos) \<Rightarrow>
                      and_then (insert_ids md5 target pos [newId]) (\<lambda>_. give newId) ss))))"

definition Merge_blocks :: "(text_mark list \<Rightarrow> text_mark list) \<Rightarrow> string \<Rightarrow> string \<Rightarrow> unit edit" where
  "Merge_blocks srt firstId secondId = (\<lambda>ss.
     if IsParentOf ss HeaderLayoutId secondId then Some (Inr (), ss)
     else
       and_then (getText firstId) (\<lambda>(b1, c1).
       and_then (getText secondId) (\<lambda>(b2, c2) ss.
         (case Merge_text srt (IsParentOf ss HeaderLayoutId firstId) b2 b1 c1 of
            None \<Rightarrow> None
          | Some (Inl e) \<Rightarrow> Some (Inl (EditText e), ss)
          | Some (Inr b) \<Rightarrow>
              (let ss = snd (Unlink (put_block firstId b ss) (Id b2))
               in case Pick ss firstId of
                    None \<Rightarrow> None
                  | Some f \<Rightarrow> Some (Inr (), put_block firstId (f\<lparr>ChildrenIds := ChildrenIds f @ ChildrenIds b2\<rparr>) ss))))) ss)"

text \<open>Marking texts that all have the mark removes it.\<close>

fun all_marked :: "text_mark \<Rightarrow> string list \<Rightarrow> State list \<Rightarrow> (bool \<times> State list) option" where
  "all_marked mark [] ss = Some (True, ss)"
| "all_marked mark (i # is) ss = (case getText i ss of
       None \<Rightarrow> None
     | Some (Inl _, ss) \<Rightarrow> all_marked mark is ss
     | Some (Inr (b, c), ss) \<Rightarrow> if HasMarkForAllText mark c then all_marked mark is ss else Some (False, ss))"

definition SetMark :: "text_mark \<Rightarrow> string list \<Rightarrow> unit edit" where
  "SetMark mark blockIds = (\<lambda>ss. case all_marked mark blockIds ss of
       None \<Rightarrow> None
     | Some (reverse, ss) \<Rightarrow>
         UpdateTextBlocks (\<lambda>b c. Inr (b\<lparr>Content := CText (if reverse then RemoveMarkType (mType mark) c else SetMarkForAllText mark c)\<rparr>))
           blockIds ss)"

definition SetIcon :: "string \<Rightarrow> string \<Rightarrow> string list \<Rightarrow> unit edit" where
  "SetIcon imageHash emoji = UpdateTextBlocks (\<lambda>b c. Inr (b\<lparr>Content := CText (c\<lparr>tIconImage := imageHash, tIconEmoji := emoji\<rparr>)\<rparr>))"

subsection \<open>Turning blocks into texts of another style\<close>

definition moves_children_up :: "int \<Rightarrow> bool" where
  "moves_children_up style \<longleftrightarrow> style \<in> {1, 2, 3, Style_Code}"

definition reset_style :: "int \<Rightarrow> Block \<Rightarrow> Block" where
  "reset_style style b =
     (if style = 5 then (if Align b = 1 then b\<lparr>Align := 0\<rparr> else b)
      else if style \<in> {8, 9, 10, 13, 11} then b\<lparr>Align := 0\<rparr>
      else if style = Style_Code
      then (case Content b of
              CText c \<Rightarrow> b\<lparr>Align := 0, BackgroundColor := [], Content := CText (c\<lparr>tColor := [], tMarks := []\<rparr>)\<rparr>
            | _ \<Rightarrow> b)
      else b)"

text \<open>An error of the insertion ends the work on this block and is forgotten.\<close>

definition turn_into :: "(nat list \<Rightarrow> nat list) \<Rightarrow> int \<Rightarrow> string \<Rightarrow> State list \<Rightarrow> State list option" where
  "turn_into md5 style i ss =
     (case Pick ss i of
        None \<Rightarrow> None
      | Some b \<Rightarrow>
          (let b = set_style style b; reset = (\<lambda>ss. map_option (\<lambda>b. put_block i (reset_style style b) ss) (Pick ss i))
           in if moves_children_up style \<and> ChildrenIds b \<noteq> []
              then (case InsertTo md5 (put_block i (b\<lparr>ChildrenIds := []\<rparr>) ss) i Block_Bottom (ChildrenIds b) of
                      None \<Rightarrow> None
                    | Some (Some _, ss) \<Rightarrow> Some ss
                    | Some (None, ss) \<Rightarrow> reset ss)
              else reset (put_block i b ss)))"

text \<open>A link becomes a text that mentions its target; \<open>name\<close> is the name of the target object in the store, empty when there is none.\<close>

definition Link_ToText :: "(string \<Rightarrow> nat list) \<Rightarrow> string \<Rightarrow> Block \<Rightarrow> BlockContentLink \<Rightarrow> Block" where
  "Link_ToText name newId b l =
     (let target = link_TargetBlockId l;
          txt = (if name target = [] then [85, 110, 116, 105, 116, 108, 101, 100] else name target);
          c = (if target = [] then empty_text
               else empty_text\<lparr>tText := txt, tMarks := [\<lparr>mFrom = 0, mTo = UTF16RuneCountString txt, mType = Mark_Mention, mParam = target\<rparr>]\<rparr>)
      in b\<lparr>Id := newId, Content := CText c\<rparr>)"

fun TurnInto :: "(nat list \<Rightarrow> nat list) \<Rightarrow> (string \<Rightarrow> nat list) \<Rightarrow> int \<Rightarrow> (string \<times> string) list \<Rightarrow> unit edit" where
  "TurnInto md5 name style [] = give ()"
| "TurnInto md5 name style ((i, newId) # is) = (\<lambda>ss.
     case Get_block ss i of
       (None, ss) \<Rightarrow> TurnInto md5 name style is ss
     | (Some b, ss) \<Rightarrow>
         (case Content b of
            CText c \<Rightarrow> (case turn_into md5 style i ss of None \<Rightarrow> None | Some ss \<Rightarrow> TurnInto md5 name style is ss)
          | CLink l \<Rightarrow>
              (let tb = Link_ToText name newId b l
               in case insert_ids md5 i Block_Replace [newId] (snd (Add_block ss tb)) of
                    None \<Rightarrow> None
                  | Some (Inl e, ss) \<Rightarrow> Some (Inl e, ss)
                  | Some (Inr _, ss) \<Rightarrow> (case turn_into md5 style newId ss of None \<Rightarrow> None | Some ss \<Rightarrow> TurnInto md5 name style is ss))
          | _ \<Rightarrow> TurnInto md5 name style is ss))"

subsection \<open>Creating, replacing and changing blocks\<close>

text \<open>Only links are checked: the other kinds accept every content.\<close>

definition Validate_block :: "Block \<Rightarrow> edit_error option" where
  "Validate_block b = (case Content b of CLink l \<Rightarrow> if link_TargetBlockId l = [] then Some ErrEmptyTarget else None | _ \<Rightarrow> None)"

definition CreateBlock :: "(nat list \<Rightarrow> nat list) \<Rightarrow> bool \<Rightarrow> string \<Rightarrow> string \<Rightarrow> BlockPosition \<Rightarrow> Block option \<Rightarrow> string edit" where
  "CreateBlock md5 restricted newId target pos req = (\<lambda>ss.
     if restricted then Some (Inl ErrBlocksRestricted, ss)
     else
       (case (if target = [] then Some (False, ss) else IsChild ss HeaderLayoutId target) of
          None \<Rightarrow> None
        | Some (inHeader, ss) \<Rightarrow>
            (let (target, pos) = (if inHeader then (HeaderLayoutId, Block_Bottom) else (target, pos))
             in case req of
                  None \<Rightarrow> Some (Inl ErrNoContent, ss)
                | Some m \<Rightarrow>
                    (let b = m\<lparr>Id := newId, ChildrenIds := []\<rparr>
                     in case Validate_block b of
                          Some e \<Rightarrow> Some (Inl e, ss)
                        | None \<Rightarrow> and_then (insert_ids md5 target pos [newId]) (\<lambda>_. give newId) (snd (Add_block ss b))))))"

definition Replace_block :: "(nat list \<Rightarrow> nat list) \<Rightarrow> string \<Rightarrow> string \<Rightarrow> Block option \<Rightarrow> string edit" where
  "Replace_block md5 newId i req = (\<lambda>ss.
     if IsRequiredBlockId i then Some (Inl ErrRequiredBlock, ss)
     else
       (case req of
          None \<Rightarrow> Some (Inl ErrNoContent, ss)
        | Some m \<Rightarrow>
            (let b = m\<lparr>Id := (if Id m = [] then newId else Id m), ChildrenIds := []\<rparr>
             in case Validate_block b of
                  Some e \<Rightarrow> Some (Inl e, ss)
                | None \<Rightarrow> and_then (insert_ids md5 i Block_Replace [Id b]) (\<lambda>_. give (Id b)) (snd (Add_block ss b)))))"

definition unlink_step :: "string \<Rightarrow> bool \<times> State list \<Rightarrow> bool \<times> State list" where
  "unlink_step i acc =
     (if IsRequiredBlockId i then acc
      else (case Unlink (snd acc) i of (found, ss) \<Rightarrow> (fst acc \<or> found, ss)))"

definition Unlink_blocks :: "string list \<Rightarrow> unit edit" where
  "Unlink_blocks ids = (\<lambda>ss. case fold unlink_step ids (False, ss) of
     (someUnlinked, ss) \<Rightarrow> Some (if someUnlinked then Inr () else Inl ErrSimpleBlockNotFound, ss))"

fun Update_blocks :: "(Block \<Rightarrow> edit_error + Block) \<Rightarrow> string list \<Rightarrow> unit edit" where
  "Update_blocks f [] = give ()"
| "Update_blocks f (i # is) = (\<lambda>ss. case Get_block ss i of
       (None, ss) \<Rightarrow> Some (Inl ErrSimpleBlockNotFound, ss)
     | (Some b, ss) \<Rightarrow> (case f b of Inl e \<Rightarrow> Some (Inl e, ss) | Inr b' \<Rightarrow> Update_blocks f is (put_block i b' ss)))"

fun SetFields :: "(string \<times> fields) list \<Rightarrow> unit edit" where
  "SetFields [] = give ()"
| "SetFields ((i, fs) # rest) = (\<lambda>ss. case Get_block ss i of
       (None, ss) \<Rightarrow> SetFields rest ss
     | (Some b, ss) \<Rightarrow> SetFields rest (put_block i (b\<lparr>Fields := fs\<rparr>) ss))"

definition SetDivStyle :: "int \<Rightarrow> string list \<Rightarrow> unit edit" where
  "SetDivStyle style = Update_blocks (\<lambda>b. case Content b of
     CDiv d \<Rightarrow> Inr (b\<lparr>Content := CDiv (Div_SetStyle style d)\<rparr>) | _ \<Rightarrow> Inl ErrWrongBlock)"

definition set_relation_key :: "string \<Rightarrow> Block \<Rightarrow> edit_error + Block" where
  "set_relation_key key b = (case Content b of CRelation r \<Rightarrow> Inr (b\<lparr>Content := CRelation (r\<lparr>relation_Key := key\<rparr>)\<rparr>) | _ \<Rightarrow> Inl ErrWrongBlock)"

definition SetRelationKey :: "string \<Rightarrow> string \<Rightarrow> unit edit" where
  "SetRelationKey i key = (\<lambda>ss. case Get_block ss i of
     (None, ss) \<Rightarrow> Some (Inl ErrSimpleBlockNotFound, ss)
   | (Some b, ss) \<Rightarrow>
       if \<not> HasRelation ss key then Some (Inl ErrRelationNotFound, ss) else Update_blocks (set_relation_key key) [i] ss)"

definition SetLatexText :: "string \<Rightarrow> string \<Rightarrow> unit edit" where
  "SetLatexText i txt = Update_blocks (\<lambda>b. case Content b of
     CLatex l \<Rightarrow> Inr (b\<lparr>Content := CLatex (l\<lparr>latex_Text := txt\<rparr>)\<rparr>) | _ \<Rightarrow> Inl ErrWrongBlock) [i]"

text \<open>The relation is looked up in the object store.\<close>

definition AddRelationAndSet :: "(string \<Rightarrow> (string \<times> int) option) \<Rightarrow> string \<Rightarrow> string \<Rightarrow> unit edit" where
  "AddRelationAndSet fetch i key = (\<lambda>ss. case Get_block ss i of
     (None, ss) \<Rightarrow> Some (Inl ErrSimpleBlockNotFound, ss)
   | (Some b, ss) \<Rightarrow>
       (case fetch key of
          None \<Rightarrow> Some (Inl ErrStore, ss)
        | Some l \<Rightarrow> and_then (Update_blocks (set_relation_key (fst l)) [i]) (\<lambda>_. modify (AddRelationLinks [l])) ss))"

definition FeaturedRelationRemove :: "string list \<Rightarrow> string list \<Rightarrow> unit edit" where
  "FeaturedRelationRemove localKeys relations = (\<lambda>ss.
     let fr = GetStringList (Details_of ss) ''featuredRelations'';
         (frc, ss) = fold (\<lambda>r (frc, ss). if FindPos frc r \<noteq> -1
             then (removeAll r frc, if r = ''description'' then snd (Unlink ss ''description'') else ss) else (frc, ss)) relations (fr, ss)
     in Some (Inr (), if length frc \<noteq> length fr then SetDetail localKeys ''featuredRelations'' (VStringList frc) ss else ss))"

subsection \<open>Copying and moving\<close>

text \<open>
  A copy reads blocks of the source, which may be the destination itself. Tables copy themselves with their own ids. After
  an error the states are given up by the callers, so the error has no state.
\<close>

record copy_env =
  ce_gen :: "nat \<Rightarrow> string"
  ce_file :: "string \<Rightarrow> string \<Rightarrow> string option"
  ce_src :: "State list option"

type_synonym copying = "nat \<times> State list"

definition copy_source :: "copy_env \<Rightarrow> copying \<Rightarrow> State list" where
  "copy_source env nd = (case ce_src env of Some src \<Rightarrow> src | None \<Rightarrow> snd nd)"

text \<open>A file that is copied to another space gets an object there, if the file service can make one.\<close>

definition processFileBlock :: "copy_env \<Rightarrow> State list \<Rightarrow> Block \<Rightarrow> Block" where
  "processFileBlock env dest b =
     (case (Content b, ce_src env) of
        (CFile f, Some src) \<Rightarrow>
          if SpaceID src = SpaceID dest then b
          else (case ce_file env (SpaceID dest) (file_TargetObjectId f) of
                  None \<Rightarrow> b | Some t \<Rightarrow> b\<lparr>Content := CFile (f\<lparr>file_TargetObjectId := t\<rparr>)\<rparr>)
      | _ \<Rightarrow> b)"

partial_function (option) copy_ids :: "copy_env \<Rightarrow> string list \<Rightarrow> copying \<Rightarrow> (edit_error + string list \<times> copying) option" where
  "copy_ids env ids nd =
     (case ids of
        [] \<Rightarrow> Some (Inr ([], nd))
      | i # is \<Rightarrow>
          (case Pick (copy_source env nd) i of
             None \<Rightarrow> Some (Inl ErrSimpleBlockNotFound)
           | Some b \<Rightarrow>
               (if Content b = CTable
                then (case Duplicate_table (\<lambda>k. ce_gen env (fst nd + k)) i (copy_source env nd) of
                        None \<Rightarrow> None
                      | Some (Inl e, _) \<Rightarrow> Some (Inl (EditTable e))
                      | Some (Inr t, src) \<Rightarrow>
                          (let dest = fold (\<lambda>b ss. snd (Add_block ss b)) (tc_blocks t) (if ce_src env = None then src else snd nd)
                           in Option.bind (copy_ids env is (fst nd + length (tc_blocks t), dest)) (\<lambda>r. case r of
                                Inl e \<Rightarrow> Some (Inl e)
                              | Inr (newIds, nd) \<Rightarrow> Some (Inr (tc_newID t # newIds, nd)))))
                else
                  (let newId = ce_gen env (fst nd);
                       dest = snd (Add_block (snd nd) (b\<lparr>Id := newId\<rparr>))
                   in Option.bind (copy_ids env (ChildrenIds b) (Suc (fst nd), dest)) (\<lambda>r. case r of
                        Inl e \<Rightarrow> Some (Inl e)
                      | Inr (copies, nd) \<Rightarrow>
                          (let dest = put_block newId (processFileBlock env (snd nd) (b\<lparr>Id := newId, ChildrenIds := copies\<rparr>)) (snd nd)
                           in Option.bind (copy_ids env is (fst nd, dest)) (\<lambda>r. case r of
                                Inl e \<Rightarrow> Some (Inl e)
                              | Inr (newIds, nd) \<Rightarrow> Some (Inr (newId # newIds, nd)))))))))"

definition copyBlocks :: "copy_env \<Rightarrow> string \<Rightarrow> copying \<Rightarrow> (edit_error + string \<times> copying) option" where
  "copyBlocks env i nd = map_option (\<lambda>r. case r of Inl e \<Rightarrow> Inl e | Inr (newIds, nd) \<Rightarrow> Inr (hd newIds, nd)) (copy_ids env [i] nd)"

fun duplicate_loop :: "(nat list \<Rightarrow> nat list) \<Rightarrow> copy_env \<Rightarrow> string \<Rightarrow> BlockPosition \<Rightarrow> string list \<Rightarrow> copying \<Rightarrow>
    (edit_error + string list \<times> copying) option" where
  "duplicate_loop md5 env target pos [] nd = Some (Inr ([], nd))"
| "duplicate_loop md5 env target pos (i # is) nd =
     (case copyBlocks env i nd of
        None \<Rightarrow> None
      | Some (Inl e) \<Rightarrow> Some (Inl e)
      | Some (Inr (copyId, n, dest)) \<Rightarrow>
          (case InsertTo md5 dest target pos [copyId] of
             None \<Rightarrow> None
           | Some (Some e, _) \<Rightarrow> Some (Inl (EditInsert e))
           | Some (None, dest) \<Rightarrow>
               (case duplicate_loop md5 env copyId Block_Bottom is (n, dest) of
                  None \<Rightarrow> None
                | Some (Inl e) \<Rightarrow> Some (Inl e)
                | Some (Inr (newIds, nd)) \<Rightarrow> Some (Inr (copyId # newIds, nd)))))"

definition Duplicate_blocks :: "(nat list \<Rightarrow> nat list) \<Rightarrow> copy_env \<Rightarrow> string \<Rightarrow> BlockPosition \<Rightarrow> string list \<Rightarrow> copying \<Rightarrow>
    (edit_error + string list \<times> copying) option" where
  "Duplicate_blocks md5 env target pos ids nd =
     (case SelectRoots (copy_source env nd) ids of
        None \<Rightarrow> None | Some ids \<Rightarrow> duplicate_loop md5 env target pos ids nd)"

text \<open>Moving to another object copies the blocks there and unlinks them here.\<close>

definition Move_to :: "(nat list \<Rightarrow> nat list) \<Rightarrow> copy_env \<Rightarrow> State list \<Rightarrow> string \<Rightarrow> BlockPosition \<Rightarrow> string list \<Rightarrow> copying \<Rightarrow>
    (edit_error + State list \<times> copying) option" where
  "Move_to md5 env src target pos ids nd =
     (if list_ex IsRequiredBlockId ids then Some (Inl ErrRequiredBlock)
      else (case Duplicate_blocks md5 (env\<lparr>ce_src := Some src\<rparr>) target pos ids nd of
              None \<Rightarrow> None
            | Some (Inl e) \<Rightarrow> Some (Inl e)
            | Some (Inr (_, nd)) \<Rightarrow> Some (Inr (fold (\<lambda>i ss. snd (Unlink ss i)) ids src, nd))))"

text \<open>The blocks are taken out one after the other; the first one that exists may later take over colors.\<close>

fun take_out :: "string \<Rightarrow> string list \<Rightarrow> string option \<Rightarrow> string option edit" where
  "take_out target [] cand = give cand"
| "take_out target (i # is) cand = (\<lambda>ss. case Pick ss i of
       None \<Rightarrow> take_out target is cand ss
     | Some b \<Rightarrow>
         (let (cand, ss) = (if cand = None then (Some i, snd (Get_block ss i)) else (cand, ss))
          in if target \<in> set (ChildrenIds b) then Some (Inl ErrMoveToChild, ss)
             else take_out target is cand (snd (Unlink ss i))))"

definition adopt_colors :: "Block \<Rightarrow> BlockContentText \<Rightarrow> Block \<Rightarrow> Block" where
  "adopt_colors target tc b =
     (let b = (if BackgroundColor b = [] then b\<lparr>BackgroundColor := BackgroundColor target\<rparr> else b)
      in case Content b of CText c \<Rightarrow> if tColor c = [] then b\<lparr>Content := CText (c\<lparr>tColor := tColor tc\<rparr>)\<rparr> else b | _ \<Rightarrow> b)"

definition replaces_target :: "Block \<Rightarrow> BlockPosition \<Rightarrow> bool" where
  "replaces_target target pos \<longleftrightarrow> (case Content target of CText c \<Rightarrow> tStyle c = Style_Paragraph \<and> tText c = [] \<and> pos = Block_InnerFirst | _ \<Rightarrow> False)"

text \<open>Dropping blocks on an empty paragraph replaces it; without a block to drop this dereferences nil.\<close>

definition place_moved :: "(nat list \<Rightarrow> nat list) \<Rightarrow> string \<Rightarrow> BlockPosition \<Rightarrow> string list \<Rightarrow> string option \<Rightarrow> unit edit" where
  "place_moved md5 target pos ids cand = (\<lambda>ss.
     let (target, pos, ss) = (if target = [] then (fst (RootId ss), Block_Inner, snd (RootId ss)) else (target, pos, ss))
     in case Get_block ss target of
          (None, ss) \<Rightarrow> Some (Inl ErrTargetNotFound, ss)
        | (Some t, ss) \<Rightarrow>
            if replaces_target t pos
            then (case (cand, Content t) of
                    (Some i, CText tc) \<Rightarrow>
                      (case Pick ss i of
                         None \<Rightarrow> None
                       | Some b \<Rightarrow> insert_ids md5 target Block_Replace ids (put_block i (adopt_colors t tc b) ss))
                  | _ \<Rightarrow> None)
            else insert_ids md5 target pos ids ss)"

definition Move_blocks :: "(nat list \<Rightarrow> nat list) \<Rightarrow> string \<Rightarrow> BlockPosition \<Rightarrow> string list \<Rightarrow> unit edit" where
  "Move_blocks md5 target pos ids = (\<lambda>ss.
     if list_ex IsRequiredBlockId ids then Some (Inl ErrRequiredBlock, ss)
     else
       (case (if target = [] then Some (False, ss) else IsChild ss HeaderLayoutId target) of
          None \<Rightarrow> None
        | Some (inHeader, ss) \<Rightarrow>
            (let (target, pos) = (if target \<noteq> [] \<and> (inHeader \<or> target = HeaderLayoutId) then (HeaderLayoutId, Block_Bottom) else (target, pos))
             in case CheckTableBlocksMove target pos ids ss of
                  None \<Rightarrow> None
                | Some (Inl e, ss) \<Rightarrow> Some (Inl (EditTable e), ss)
                | Some (Inr (target, pos), ss) \<Rightarrow> and_then (take_out target ids None) (place_moved md5 target pos ids) ss)))"

subsection \<open>Marks that are split and merged again\<close>

text \<open>In a sorted list of separate marks, a mark ends before the later marks of its type and parameter start.\<close>

definition row_rel :: "text_mark \<Rightarrow> text_mark \<Rightarrow> bool" where
  "row_rel a b \<longleftrightarrow> \<not> mark_Less b a \<and> (mType a = mType b \<and> mParam a = mParam b \<longrightarrow> mTo a \<le> mFrom b)"

definition mark_row :: "text_mark list \<Rightarrow> bool" where
  "mark_row ms \<longleftrightarrow> sorted_wrt row_rel ms \<and> (\<forall>m\<in>set ms. mFrom m < mTo m)"

lemma mark_row_separate: "mark_row ms \<Longrightarrow> separate ms"
  by (auto simp: mark_row_def separate_def row_rel_def apart_def elim: sorted_wrt_mono_rel [rotated])

lemma separate_mark_row:
  assumes "sort_doc srt" "separate ms"
  shows "mark_row (srt ms)"
proof -
  have m: "mset (srt ms) = mset ms" "sorted_wrt (\<lambda>a b. \<not> mark_Less b a) (srt ms)" using assms(1) by (auto simp: sort_doc_def)
  have set: "set (srt ms) = set ms" by (rule mset_eq_setD [OF m(1)])
  have pos: "\<forall>x\<in>set (srt ms). mFrom x < mTo x" using assms(2) set by (auto simp: separate_def)
  have d: "distinct ms" using assms(2)
  proof (induction ms)
    case (Cons a ms)
    then show ?case by (auto simp: apart_def)
  qed simp
  then have "distinct (srt ms)" using m(1) by (metis mset_eq_imp_distinct_iff)
  then have sw: "sorted_wrt (\<lambda>a b. a \<noteq> b \<and> \<not> mark_Less b a) (srt ms)"
    using m(2) by (auto simp: sorted_wrt_iff_nth_less distinct_conv_nth)
  have rel: "row_rel a b" if "a \<in> set (srt ms)" "b \<in> set (srt ms)" "a \<noteq> b \<and> \<not> mark_Less b a" for a b
  proof -
    have "apart a b" using separate_pair [OF assms(2)] that set by blast
    moreover have "mFrom a < mTo a" "mFrom b < mTo b" using pos that by simp_all
    ultimately show ?thesis using that(3) by (auto simp: row_rel_def apart_def mark_Less_def)
  qed
  have "sorted_wrt row_rel (srt ms)" by (rule sorted_wrt_mono_rel [OF rel sw])
  then show ?thesis using pos by (simp add: mark_row_def)
qed

lemma merge_first_row:
  "merge_first ms = Some ms' \<Longrightarrow> mark_row ms \<Longrightarrow> mark_row ms' \<and>
     (\<forall>x\<in>set ms'. (\<exists>y\<in>set ms. mType x = mType y \<and> mParam x = mParam y \<and> mFrom x = mFrom y) \<and> (\<exists>z\<in>set ms. mTo x = mTo z))"
proof (induction ms arbitrary: ms' rule: merge_first.induct)
  case (1 m sm ms)
  show ?case
  proof (cases "mergeable m sm")
    case True
    with "1.prems" have ms': "ms' = m\<lparr>mTo := mTo sm\<rparr> # ms" by simp
    have r: "row_rel m sm" "\<forall>x\<in>set ms. row_rel sm x" "sorted_wrt row_rel ms" "mFrom m < mTo m" "mFrom sm < mTo sm"
      "\<forall>x\<in>set ms. mFrom x < mTo x" "\<forall>x\<in>set ms. \<not> mark_Less x m"
      using "1.prems"(2) by (simp_all add: mark_row_def row_rel_def)
    have eq: "mType m = mType sm" "mParam m = mParam sm" "mTo m = mFrom sm"
      using True r(1) by (auto simp: mergeable_def row_rel_def)
    have "\<forall>x\<in>set ms. row_rel (m\<lparr>mTo := mTo sm\<rparr>) x"
      using r(2,7) eq by (auto simp: row_rel_def mark_Less_def split: if_splits)
    moreover have "mFrom m < mTo sm" using r(4,5) eq by simp
    ultimately have "mark_row ms'" using r(3,6) by (simp add: ms' mark_row_def)
    then show ?thesis unfolding ms' by auto
  next
    case False
    with "1.prems" obtain ms1 where ms1: "merge_first (sm # ms) = Some ms1" "ms' = m # ms1" by auto
    have tl: "mark_row (sm # ms)" using "1.prems"(2) by (auto simp: mark_row_def)
    have IH: "mark_row ms1" "\<forall>x\<in>set ms1. (\<exists>y\<in>set (sm # ms). mType x = mType y \<and> mParam x = mParam y \<and> mFrom x = mFrom y) \<and>
        (\<exists>z\<in>set (sm # ms). mTo x = mTo z)"
      using "1.IH" [OF False ms1(1) tl] by blast+
    have "row_rel m x" if x: "x \<in> set ms1" for x
    proof -
      from IH(2) x obtain y where y: "y \<in> set (sm # ms)" "mType x = mType y" "mParam x = mParam y" "mFrom x = mFrom y" by blast
      have "row_rel m y" using "1.prems"(2) y(1) by (auto simp: mark_row_def)
      with y show ?thesis by (auto simp: row_rel_def mark_Less_def)
    qed
    then have "mark_row ms'" using IH(1) "1.prems"(2) by (simp add: ms1 mark_row_def)
    then show ?thesis using IH(2) unfolding ms1(2) by (metis list.set_intros(1,2) set_ConsD)
  qed
qed simp_all

lemma merge_all_row:
  "mark_row ms \<Longrightarrow> mark_row (merge_all ms) \<and> (before p ms \<longrightarrow> before p (merge_all ms)) \<and> (after p ms \<longrightarrow> after p (merge_all ms))"
proof (induction ms rule: merge_all.induct)
  case (1 ms)
  show ?case
  proof (cases "merge_first ms")
    case (Some ms')
    from merge_first_row [OF Some "1.prems"]
    have "mark_row ms'" "before p ms \<longrightarrow> before p ms'" "after p ms \<longrightarrow> after p ms'"
      unfolding before_def after_def by metis+
    with "1.IH" [OF Some] show ?thesis by (simp add: merge_all.simps [of ms] Some)
  qed (use 1 in \<open>simp add: merge_all.simps [of ms]\<close>)
qed

lemma normalize_separate:
  assumes "sort_doc srt" "separate ms"
  shows "separate (normalizeMarksPure srt ms)" "before p ms \<Longrightarrow> before p (normalizeMarksPure srt ms)"
    "after p ms \<Longrightarrow> after p (normalizeMarksPure srt ms)"
proof -
  have "set (srt ms) = set ms" using assms(1) by (auto simp: sort_doc_def dest: mset_eq_setD)
  then have "before p (srt ms) = before p ms" "after p (srt ms) = after p ms" by (simp_all add: before_def after_def)
  with merge_all_row [OF separate_mark_row [OF assms], of p]
  show "separate (normalizeMarksPure srt ms)" "before p ms \<Longrightarrow> before p (normalizeMarksPure srt ms)"
    "after p ms \<Longrightarrow> after p (normalizeMarksPure srt ms)"
    by (simp_all add: normalizeMarksPure_def mark_row_separate)
qed

subsection \<open>Trees that grow and shrink\<close>

text \<open>The tree depends on the children of the blocks only.\<close>

lemma same_links:
  assumes "\<And>x. map_option ChildrenIds (Pick ss' x) = map_option ChildrenIds (Pick ss x)"
  shows "child ss' = child ss" "reach ss' = reach ss" "tree ss' = tree ss" "Exists ss' = Exists ss"
proof -
  have e: "Pick ss' x = None \<longleftrightarrow> Pick ss x = None" for x using assms [of x] by (metis option.map_disc_iff)
  then show ex: "Exists ss' = Exists ss" by (simp add: Exists_def fun_eq_iff)
  have b: "ChildrenIds b' = ChildrenIds b" if "Pick ss' x = Some b'" "Pick ss x = Some b" for x b b'
    using assms [of x] that by simp
  show c: "child ss' = child ss"
    unfolding child_def using assms e by (auto dest: b) (metis b not_Some_eq)+
  show r: "reach ss' = reach ss" by (simp add: reach_def c fun_eq_iff)
  have "(\<forall>b. Pick ss' x = Some b \<longrightarrow> distinct (ChildrenIds b) \<and> (\<forall>c\<in>set (ChildrenIds b). Exists ss c)) \<longleftrightarrow>
      (\<forall>b. Pick ss x = Some b \<longrightarrow> distinct (ChildrenIds b) \<and> (\<forall>c\<in>set (ChildrenIds b). Exists ss c))" for x
    using assms [of x] by (cases "Pick ss x"; cases "Pick ss' x") auto
  then show "tree ss' = tree ss" unfolding tree_def fun_eq_iff c r ex by blast
qed

lemma grown_tree:
  assumes t: "tree ss r" and q: "reach ss r q" "Pick ss q = Some qb" and n: "Pick ss n = None" "ChildrenIds nb = []"
    and s: "Pick s = (Pick ss)(n \<mapsto> nb, q \<mapsto> qb\<lparr>ChildrenIds := L\<rparr>)"
    and L: "set L = insert n (set (ChildrenIds qb))" "distinct (ChildrenIds qb) \<Longrightarrow> n \<notin> set (ChildrenIds qb) \<Longrightarrow> distinct L"
    and r: "r \<noteq> n"
  shows "tree s r" and "reach s r x \<longleftrightarrow> reach ss r x \<or> x = n" and "child s = insert (q, n) (child ss)"
proof -
  have ne: "q \<noteq> n" using q(2) n(1) by auto
  show c: "child s = insert (q, n) (child ss)"
    using q n ne L(1) by (auto simp: child_def s split: if_splits)
  have old: "(z, n) \<notin> child ss" if "reach ss r z" for z
    using tree_children(2) [OF t that] n(1) by (fastforce simp: Exists_def elim!: childE)
  have leaf: "(n, z) \<notin> child ss" for z using n(1) by auto
  show re: "reach s r x \<longleftrightarrow> reach ss r x \<or> x = n" for x
  proof
    assume "reach s r x"
    then have "(r, x) \<in> (child s)\<^sup>*" by (simp add: reach_def)
    then show "reach ss r x \<or> x = n"
      by (induction rule: rtrancl_induct) (use leaf reach_step in \<open>auto simp: c\<close>)
  next
    have up: "reach s r y" if "reach ss r y" for y
      using that rtrancl_mono [of "child ss" "child s"] unfolding reach_def c by auto
    moreover have "reach s r n" using up [OF q(1)] reach_step [of s r q n] by (simp add: c)
    ultimately show "reach ss r x \<or> x = n \<Longrightarrow> reach s r x" by auto
  qed
  have ex: "Exists s y \<longleftrightarrow> Exists ss y \<or> y = n" for y using q(2) by (simp add: Exists_def s)
  have qn: "n \<notin> set (ChildrenIds qb)" using old [OF q(1)] q(2) by auto
  have "distinct (ChildrenIds b) \<and> (\<forall>c\<in>set (ChildrenIds b). Exists s c)" if y: "reach s r y" "Pick s y = Some b" for y b
    using y tree_children [OF t q] tree_children [OF t, of y b] L qn n(2) ne
    by (auto simp: s ex re split: if_splits)
  moreover have "x = y" if "reach s r x" "reach s r y" "(x, z) \<in> child s" "(y, z) \<in> child s" for x y z
    using that tree_parent [OF t, of x y z] old leaf by (auto simp: re c)
  moreover have "(y, r) \<notin> child s" if "reach s r y" for y
    using t that r leaf by (auto simp: tree_def re c)
  ultimately show "tree s r" unfolding tree_def by blast
qed

text \<open>A block leaves the tree and another block outside of it adopts its children.\<close>

lemma merged_tree:
  assumes t: "tree ss r" and q: "reach ss r q" "Pick ss q = Some qb" "j \<in> set (ChildrenIds qb)"
    and i: "reach ss r i" "(j, i) \<notin> (child ss)\<^sup>*" and j: "Pick ss j = Some jb"
    and s1: "Pick s1 = (Pick ss)(q \<mapsto> removeChildren qb j)" "Pick s1 i = Some ib"
    and s2: "Pick s2 = (Pick s1)(i \<mapsto> ib\<lparr>ChildrenIds := ChildrenIds ib @ ChildrenIds jb\<rparr>)"
  shows "tree s2 r" and "reach s2 r x \<longleftrightarrow> reach ss r x \<and> x \<noteq> j"
proof -
  have e: "(q, j) \<in> child ss" using q by auto
  have rj: "reach ss r j" using reach_step [OF q(1) e] .
  have ne: "i \<noteq> j" using i(2) by auto
  have jj: "(j, j) \<notin> (child ss)\<^sup>+" using tree_acyclic [OF t] rj by (simp add: acyclic_from_def)
  have only: "z = q" if "reach ss r z" "(z, j) \<in> child ss" for z using tree_parent [OF t that(1) q(1) that(2) e] .
  note cut = unlinked_tree [OF t q s1(1)]
  have jc: "(j, z) \<in> child ss \<longleftrightarrow> z \<in> set (ChildrenIds jb)" for z using j by auto
  have c: "child s2 = (child ss - {(q, j)}) \<union> {i} \<times> set (ChildrenIds jb)"
    using s1(2) unfolding cut(3) [symmetric] by (auto simp: child_def s2 split: if_splits)
  have ri: "(r, i) \<in> (child ss - {(q, j)})\<^sup>*" using cut_below(2) [OF t q(1) e] i by blast
  have sub: "(child ss - {(q, j)})\<^sup>* \<subseteq> (child s2)\<^sup>*" by (rule rtrancl_mono) (auto simp: c)
  show re: "reach s2 r x \<longleftrightarrow> reach ss r x \<and> x \<noteq> j" for x
  proof
    assume "reach s2 r x"
    then have "(r, x) \<in> (child s2)\<^sup>*" by (simp add: reach_def)
    then show "reach ss r x \<and> x \<noteq> j"
    proof (induction rule: rtrancl_induct)
      case base
      then show ?case using t q(1) e by (auto simp: tree_def)
    next
      case (step y z)
      from step.hyps(2) consider "(y, z) \<in> child ss" "(y, z) \<noteq> (q, j)" | "y = i" "(j, z) \<in> child ss" unfolding c jc by blast
      then show ?case
      proof cases
        case 1
        then show ?thesis using step.IH only reach_step by metis
      next
        case 2
        then show ?thesis using reach_step [OF rj 2(2)] jj by auto
      qed
    qed
  next
    assume x: "reach ss r x \<and> x \<noteq> j"
    show "reach s2 r x"
    proof (cases "(j, x) \<in> (child ss)\<^sup>*")
      case False
      then show ?thesis using cut_below(2) [OF t q(1) e] x sub by (auto simp: reach_def)
    next
      case True
      from cut_below(1) [OF t q(1) e True] x obtain d where d: "(j, d) \<in> child ss" "(d, x) \<in> (child ss - {(q, j)})\<^sup>*"
        by (metis DiffD1 converse_rtranclE)
      have "(i, d) \<in> child s2" using d(1) by (simp add: c jc)
      then show ?thesis using ri d(2) sub unfolding reach_def by (meson rtrancl.rtrancl_into_rtrancl rtrancl_trans subsetD)
    qed
  qed
  have ex: "Exists s2 y \<longleftrightarrow> Exists ss y" for y using q(2) s1(2) by (auto simp: Exists_def s1 s2)
  have ok1: "distinct (ChildrenIds b)" "\<forall>c\<in>set (ChildrenIds b). Exists ss c" "\<forall>c\<in>set (ChildrenIds b). (y, c) \<in> child ss"
    if "reach ss r y" "Pick s1 y = Some b" for y b
    using that tree_children [OF t, of y] tree_children [OF t q(1,2)] q(2)
    by (auto simp: s1(1) removeChildren_def RemoveMut_def split: if_splits)
  have "distinct (ChildrenIds b) \<and> (\<forall>c\<in>set (ChildrenIds b). Exists s2 c)" if y: "reach s2 r y" "Pick s2 y = Some b" for y b
  proof (cases "y = i")
    case True
    have "set (ChildrenIds ib) \<inter> set (ChildrenIds jb) = {}"
      using ok1(3) [OF i(1) s1(2)] tree_parent [OF t i(1) rj] jc ne by blast
    then show ?thesis using True y(2) ok1 [OF i(1) s1(2)] tree_children [OF t rj j] by (auto simp: s2 ex)
  next
    case False
    then show ?thesis using y ok1 [of y b] by (simp add: s2 re ex)
  qed
  moreover have "x = y" if "reach s2 r x" "reach s2 r y" "(x, z) \<in> child s2" "(y, z) \<in> child s2" for x y z
    using that tree_parent [OF t, of x y z] tree_parent [OF t _ rj, of _ z] by (auto simp: re c jc)
  moreover have "(y, r) \<notin> child s2" if "reach s2 r y" for y
    using t that rj by (auto simp: tree_def re c jc)
  ultimately show "tree s2 r" unfolding tree_def by blast
qed

subsection \<open>Splitting and merging\<close>

lemma getTextE:
  assumes "Pick ss i = Some b" "Content b = CText c"
  obtains ss' where "getText i ss = Some (Inr (b, c), ss')" "Pick ss' = Pick ss" "tl ss' = tl ss" "ss' \<noteq> []"
    "\<And>r. rooted ss' r = rooted ss r"
proof -
  obtain ss' where "Get_block ss i = (Some b, ss')" "Pick ss' = Pick ss" "tl ss' = tl ss" "ss' \<noteq> []" "\<And>r. rooted ss' r = rooted ss r"
    using Get_blockE [OF assms(1)] by metis
  then show thesis using assms(2) by (intro that [of ss']) (simp_all add: getText_def)
qed

text \<open>The text of a merged block.\<close>

lemma Merge_text_joins:
  assumes srt: "sort_doc srt" and o: "Content b2 = CText c2"
    and ms: "separate (tMarks c1)" "before len (tMarks c1)" "separate (tMarks c2)" "after 0 (tMarks c2)" "len = UTF16RuneCountString (tText c1)"
  obtains b c where "Merge_text srt flag b2 b1 c1 = Some (Inr b)" "Content b = CText c" "tText c = tText c1 @ tText c2"
    "Id b = Id b1" "ChildrenIds b = ChildrenIds b1"
    "\<And>ty pa p. covers (tMarks c) ty pa p \<longleftrightarrow> covers (tMarks c1) ty pa p \<or> covers (tMarks c2) ty pa (p - len)"
proof -
  have mk: "mk_mark (mFrom m + n) (mTo m + n) m = shift_mark n m" "mk_mark (mFrom m) (mTo m) m = shift_mark 0 m" for m n
    by (simp_all add: mk_mark_def shift_mark_def)
  have "after len (map (shift_mark len) (tMarks c2))" using after_shift [OF ms(4), of len] by simp
  then have "separate (tMarks c1 @ map (shift_mark len) (tMarks c2))"
    using separate_at ms separate_shift by blast
  then have cov: "covers (normalizeMarksPure srt (tMarks c1 @ map (shift_mark len) (tMarks c2))) ty pa p \<longleftrightarrow>
      covers (tMarks c1) ty pa p \<or> covers (tMarks c2) ty pa (p - len)" for ty pa p
    using normalize_covers [OF srt separate_chained] by (simp add: covers_shift)
  let ?c = "c1\<lparr>tText := tText c1 @ tText c2, tMarks := normalizeMarksPure srt (tMarks c1 @ map (shift_mark len) (tMarks c2))\<rparr>"
  let ?adopt = "\<not> flag \<and> tText c1 = [] \<and> tStyle c1 = 0"
  let ?c' = "if ?adopt then ?c\<lparr>tStyle := tStyle c2\<rparr> else ?c"
  let ?b = "if ?adopt then b1\<lparr>BackgroundColor := BackgroundColor b2, Content := CText ?c'\<rparr> else b1\<lparr>Content := CText ?c'\<rparr>"
  show thesis
  proof (rule that [of ?b ?c'])
    show "Merge_text srt flag b2 b1 c1 = Some (Inr ?b)"
      using o mk ms(5) by (cases c1) (simp add: Merge_text_def normalizeMarks_def Let_def)
  qed (use cov in auto)
qed

lemma Merge_blocks_tree:
  assumes ss: "rooted ss r" "tree ss r" "own_ids ss" and q: "reach ss r q" "(q, j) \<in> child ss"
    and i: "reach ss r i" "(j, i) \<notin> (child ss)\<^sup>*" "Pick ss i = Some b1" "Content b1 = CText c1"
    and j: "Pick ss j = Some b2" "Content b2 = CText c2" "\<not> IsParentOf ss HeaderLayoutId j"
    and srt: "sort_doc srt"
    and ms: "separate (tMarks c1)" "before len (tMarks c1)" "separate (tMarks c2)" "after 0 (tMarks c2)" "len = UTF16RuneCountString (tText c1)"
  obtains ss' b c where "Merge_blocks srt i j ss = Some (Inr (), ss')" "rooted ss' r" "tl ss' = tl ss" "tree ss' r"
    "\<forall>x. reach ss' r x \<longleftrightarrow> reach ss r x \<and> x \<noteq> j" "Pick ss' i = Some b" "Content b = CText c" "Id b = i" "tText c = tText c1 @ tText c2"
    "ChildrenIds b = removeAll j (ChildrenIds b1) @ ChildrenIds b2"
    "\<forall>ty pa p. covers (tMarks c) ty pa p \<longleftrightarrow> covers (tMarks c1) ty pa p \<or> covers (tMarks c2) ty pa (p - len)"
    "\<forall>x. x \<noteq> i \<longrightarrow> Pick ss' x = (if x = q then map_option (\<lambda>b. removeChildren b j) (Pick ss x) else Pick ss x)"
proof -
  obtain s1 where s1: "getText i ss = Some (Inr (b1, c1), s1)" "Pick s1 = Pick ss" "tl s1 = tl ss" "rooted s1 r"
    using getTextE [OF i(3,4)] ss(1) by metis
  obtain s2 where s2: "getText j s1 = Some (Inr (b2, c2), s2)" "Pick s2 = Pick ss" "tl s2 = tl ss" "rooted s2 r"
    using getTextE [of s1 j b2 c2] j(1,2) s1 by metis
  obtain b c where b: "Merge_text srt (IsParentOf s2 HeaderLayoutId i) b2 b1 c1 = Some (Inr b)" "Content b = CText c" "tText c = tText c1 @ tText c2"
    "Id b = Id b1" "ChildrenIds b = ChildrenIds b1"
    "\<And>ty pa p. covers (tMarks c) ty pa p \<longleftrightarrow> covers (tMarks c1) ty pa p \<or> covers (tMarks c2) ty pa (p - len)"
    using Merge_text_joins [OF srt j(2) ms] by metis
  have ids: "Id b1 = i" "Id b2 = j" using ss(3) i(3) j(1) by (simp_all add: own_ids_def)
  have ne: "i \<noteq> j" using i(2) by auto
  define s3 where "s3 = put_block i b s2"
  have p3: "Pick s3 = (Pick ss)(i \<mapsto> b)" "tl s3 = tl ss" "rooted s3 r" using s2 by (simp_all add: s3_def)
  have "map_option ChildrenIds (Pick s3 x) = map_option ChildrenIds (Pick ss x)" for x using i(3) b(5) by (simp add: p3(1))
  note same = same_links [OF this]
  have own3: "own_ids s3" by (rule own_ids_upd [OF ss(3) p3(1)]) (simp add: b(4) ids)
  have q3: "(q, j) \<in> child s3" "tree s3 r" "reach s3 r q" using q ss(2) by (simp_all add: same)
  then obtain qb where qb: "Pick s3 q = Some qb" "j \<in> set (ChildrenIds qb)" by auto
  obtain s4 where s4: "Unlink s3 j = (True, s4)" "Pick s4 = (Pick s3)(q \<mapsto> removeChildren qb j)" "tl s4 = tl s3" "rooted s4 r"
    using Unlink_tree [OF p3(3) q3(2) own3 q3(3) qb] .
  have j3: "Pick s3 j = Some b2" using j(1) ne by (simp add: p3(1))
  obtain f where f: "Pick s4 i = Some f" "ChildrenIds f = removeAll j (ChildrenIds b1)" "Content f = CText c" "Id f = i"
  proof (cases "q = i")
    case True
    then have "qb = b" "Pick s4 i = Some (removeChildren b j)" using qb(1) s4(2) by (simp_all add: p3(1))
    then show thesis using b ids by (intro that [of "removeChildren b j"]) (simp_all add: removeChildren_def RemoveMut_def removeAll_filter_not_eq eq_commute [of j])
  next
    case False
    then have "(i, j) \<notin> child ss" using tree_parent [OF ss(2) i(1) q(1) _ q(2)] by blast
    then have "j \<notin> set (ChildrenIds b1)" using i(3) by auto
    then show thesis using False b ids by (intro that [of b]) (simp_all add: s4(2) p3(1))
  qed
  define s5 where "s5 = put_block i (f\<lparr>ChildrenIds := ChildrenIds f @ ChildrenIds b2\<rparr>) s4"
  have p5: "Pick s5 = (Pick s4)(i \<mapsto> f\<lparr>ChildrenIds := ChildrenIds f @ ChildrenIds b2\<rparr>)" "tl s5 = tl ss" "rooted s5 r"
    using s4 p3 by (simp_all add: s5_def)
  have i3: "reach s3 r i" "(j, i) \<notin> (child s3)\<^sup>*" using i by (simp_all add: same)
  note tree5 = merged_tree [OF q3(2,3) qb i3 j3 s4(2) f(1) p5(1)]
  show thesis
  proof (rule that [of s5 "f\<lparr>ChildrenIds := ChildrenIds f @ ChildrenIds b2\<rparr>" c])
    show "Merge_blocks srt i j ss = Some (Inr (), s5)"
      using j(3) s1(1) s2(1) b(1) s4(1) f(1) ids
      by (simp add: Merge_blocks_def and_then_def s3_def [symmetric] s5_def Let_def)
    show "\<forall>x. reach s5 r x \<longleftrightarrow> reach ss r x \<and> x \<noteq> j" using tree5(2) by (simp add: same)
    show "\<forall>x. x \<noteq> i \<longrightarrow> Pick s5 x = (if x = q then map_option (\<lambda>b. removeChildren b j) (Pick ss x) else Pick ss x)"
      using qb(1) by (auto simp: p5 s4(2) p3(1))
  qed (use p5 tree5(1) f b in simp_all)
qed

text \<open>The two parts of a text that is split at a range: what stands in the range is gone.\<close>

lemma RangeSplit_parts:
  assumes srt: "sort_doc srt" and t: "tText c = us @ mid @ vs" "valid_text (tText c)" and ms: "separate (tMarks c)"
    and pos: "from = UTF16RuneCountString us" "to = UTF16RuneCountString (us @ mid)"
  obtains om nm bg where "RangeSplit srt newId from to False b c =
      Inr (new_text_block newId bg (Align b) (new_text vs (tStyle c) nm False (tColor c)), b\<lparr>Content := CText (c\<lparr>tText := us, tMarks := om\<rparr>)\<rparr>)"
    "separate om" "before from om" "separate nm" "after 0 nm"
    "\<And>ty pa p. covers om ty pa p \<longleftrightarrow> p < from \<and> covers (tMarks c) ty pa p"
    "\<And>ty pa p. covers nm ty pa p \<longleftrightarrow> 0 \<le> p \<and> covers (tMarks c) ty pa (p + to)"
proof -
  have v: "valid_text us" "valid_text mid" "valid_text vs" using t by simp_all
  have le: "0 \<le> from" "to \<le> UTF16RuneCountString (tText c)" "from \<le> to"
    using pos t RuneCount_nonneg [OF v(1)] RuneCount_nonneg [OF v(2)] RuneCount_nonneg [OF v(3)] by auto
  define above below where "above = fst (splitMarks (tMarks c) from to 0)" and "below = snd (splitMarks (tMarks c) from to 0)"
  have ab: "splitMarks (tMarks c) from to 0 = (above, below)" by (simp add: above_def below_def)
  have sep: "separate above" "separate below" "before from above" "after from below"
    using separate_split [OF ms le(3), of 0] split_before [OF le(3), of "tMarks c" 0] split_after [OF le(3), of 0 "tMarks c"]
    by (simp_all add: above_def below_def)
  have cut: "UTF16ToStr (take (nat from) (StrToUTF16 (tText c))) = us" "UTF16ToStr (drop (nat to) (StrToUTF16 (tText c))) = vs"
    using cut_at_boundary [of us "mid @ vs"] cut_at_boundary [of "us @ mid" vs] t pos by simp_all
  let ?om = "normalizeMarksPure srt above" and ?nm = "map (shift_mark (- from)) (normalizeMarksPure srt below)"
  show thesis
  proof (rule that)
    show "RangeSplit srt newId from to False b c =
      Inr (new_text_block newId (if tStyle c = Style_Code then [] else BackgroundColor b) (Align b) (new_text vs (tStyle c) ?nm False (tColor c)),
        b\<lparr>Content := CText (c\<lparr>tText := us, tMarks := ?om\<rparr>)\<rparr>)"
      using le cut unfolding RangeSplit_def ab by (simp add: Let_def)
    show "separate ?om" "before from ?om" using normalize_separate [OF srt sep(1)] sep(3) by blast+
    show "separate ?nm" using normalize_separate(1) [OF srt sep(2)] separate_shift by blast
    show "after 0 ?nm" using after_shift [OF normalize_separate(3) [OF srt sep(2,4)], of "- from"] by simp
    show "covers ?om ty pa p \<longleftrightarrow> p < from \<and> covers (tMarks c) ty pa p" "covers ?nm ty pa p \<longleftrightarrow> 0 \<le> p \<and> covers (tMarks c) ty pa (p + to)" for ty pa p
      using normalize_covers [OF srt separate_chained [OF sep(1)]] normalize_covers [OF srt separate_chained [OF sep(2)]]
        splitMarks_covers [OF le(3), of "tMarks c" 0]
      by (simp_all add: covers_shift above_def below_def add.commute)
  qed
qed

lemma extra_block:
  assumes "tree ss r" "Pick ss n = None" "ChildrenIds nb = []" "Pick s = (Pick ss)(n \<mapsto> nb)" "r \<noteq> n"
  shows "tree s r" and "reach s = reach ss" and "child s = child ss"
proof -
  show c: "child s = child ss" using assms by (auto simp: child_def split: if_splits)
  show r: "reach s = reach ss" by (simp add: reach_def c fun_eq_iff)
  have ex: "Exists ss y \<Longrightarrow> Exists s y" for y using assms(4) by (simp add: Exists_def)
  have "distinct (ChildrenIds b) \<and> (\<forall>c\<in>set (ChildrenIds b). Exists s c)" if "reach s r x" "Pick s x = Some b" for x b
    using that tree_children [OF assms(1), of x b] ex assms(3,4) by (auto simp: r split: if_splits)
  then show "tree s r" using assms(1) unfolding tree_def c r by blast
qed

lemma Split_block_tree:
  assumes ss: "rooted ss r" "tree ss r" "own_ids ss" and p: "reach ss r p" "Pick ss p = Some pb" "ChildrenIds pb = xs @ i # ys"
    and i: "Pick ss i = Some b" "Content b = CText c" "i \<noteq> []" "(HeaderLayoutId, i) \<notin> (child ss)\<^sup>+"
    and n: "Pick ss newId = None"
    and srt: "sort_doc srt" and t: "tText c = us @ mid @ vs" "valid_text (tText c)" and ms: "separate (tMarks c)"
    and pos: "from = UTF16RuneCountString us" "to = UTF16RuneCountString (us @ mid)"
  obtains ss' om nb nc where "Split_block srt normURI md5 newId i from to style SplitBottom ss = Some (Inr newId, ss')"
    "rooted ss' r" "tl ss' = tl ss" "tree ss' r" "own_ids ss'" "\<forall>x. reach ss' r x \<longleftrightarrow> reach ss r x \<or> x = newId"
    "child ss' = insert (p, newId) (child ss)"
    "Pick ss' = (Pick ss)(i \<mapsto> b\<lparr>Content := CText (c\<lparr>tText := us, tMarks := om\<rparr>)\<rparr>, newId \<mapsto> nb, p \<mapsto> pb\<lparr>ChildrenIds := xs @ i # newId # ys\<rparr>)"
    "Content nb = CText nc" "tText nc = vs" "ChildrenIds nb = []"
    "separate om" "before from om" "separate (tMarks nc)" "after 0 (tMarks nc)"
    "\<forall>ty pa p. covers om ty pa p \<longleftrightarrow> p < from \<and> covers (tMarks c) ty pa p"
    "\<forall>ty pa p. covers (tMarks nc) ty pa p \<longleftrightarrow> 0 \<le> p \<and> covers (tMarks c) ty pa (p + to)"
proof -
  obtain om nm bg where cut: "RangeSplit srt newId from to False b c =
      Inr (new_text_block newId bg (Align b) (new_text vs (tStyle c) nm False (tColor c)), b\<lparr>Content := CText (c\<lparr>tText := us, tMarks := om\<rparr>)\<rparr>)"
    and marks: "separate om" "before from om" "separate nm" "after 0 nm"
    "\<And>ty pa p. covers om ty pa p \<longleftrightarrow> p < from \<and> covers (tMarks c) ty pa p"
    "\<And>ty pa p. covers nm ty pa p \<longleftrightarrow> 0 \<le> p \<and> covers (tMarks c) ty pa (p + to)"
    using RangeSplit_parts [OF srt t ms pos] by metis
  define nc where "nc = (new_text vs (tStyle c) nm False (tColor c))\<lparr>tStyle := style\<rparr>"
  define nb where "nb = new_text_block newId bg (Align b) nc"
  define ob where "ob = b\<lparr>Content := CText (c\<lparr>tText := us, tMarks := om\<rparr>)\<rparr>"
  have nb: "set_style style (new_text_block newId bg (Align b) (new_text vs (tStyle c) nm False (tColor c))) = nb"
    "Id nb = newId" "ChildrenIds nb = []" "Content nb = CText nc"
    by (simp_all add: nb_def nc_def set_style_def new_text_block_def)
  have nc: "tText nc = vs" "tMarks nc = nm" by (simp_all add: nc_def new_text_def)
  have own: "Id b = i" "Id pb = p" using ss(3) i(1) p(2) by (simp_all add: own_ids_def)
  have e: "(p, i) \<in> child ss" using p(2,3) by auto
  have ne: "p \<noteq> i" "newId \<noteq> i" "newId \<noteq> p"
    using tree_acyclic [OF ss(2)] p(1,2) i(1) n r_into_trancl [OF e] by (auto simp: acyclic_from_def)
  obtain s1 where s1: "getText i ss = Some (Inr (b, c), s1)" "Pick s1 = Pick ss" "tl s1 = tl ss" "rooted s1 r"
    using getTextE [OF i(1,2)] ss(1) by metis
  note same1 = links_cong [OF s1(2)]
  have mode: "effective_mode i SplitBottom s1 = Some (SplitBottom, s1)"
    using climb_correct [of s1 i HeaderLayoutId] ss(2,3) same1 s1(4) i(4) by (simp add: effective_mode_def HasParent_def)
  define s2 where "s2 = put_block newId nb (put_block i ob s1)"
  have s2: "Pick s2 = (Pick ss)(i \<mapsto> ob, newId \<mapsto> nb)" "tl s2 = tl ss" "rooted s2 r" using s1 by (simp_all add: s2_def)
  have "Pick (put_block i ob s1) newId = None" using n s1(2,4) ne by simp
  then have add: "snd (Add_block (put_block i ob s1) nb) = s2" using Add_block_new [of "put_block i ob s1" nb] nb(2) by (simp add: s2_def)
  define m0 where "m0 = put_block i ob s1"
  have m0: "Pick m0 = (Pick ss)(i \<mapsto> ob)" using s1 by (simp add: m0_def)
  have "map_option ChildrenIds (Pick m0 x) = map_option ChildrenIds (Pick ss x)" for x using i(1) by (simp add: m0 ob_def)
  note same = same_links [OF this]
  have rn: "r \<noteq> newId"
  proof
    assume "r = newId"
    then have "(newId, p) \<in> (child ss)\<^sup>*" using p(1) by (simp add: reach_def)
    then show False
    proof (cases rule: converse_rtranclE)
      case (step y)
      then show False using n by auto
    qed (use ne in simp)
  qed
  have p0: "reach m0 r p" "Pick m0 p = Some pb" "Pick m0 newId = None" "tree m0 r" using p(1,2) n ne ss(2) by (simp_all add: same m0)
  have extra: "Pick s2 = (Pick m0)(newId \<mapsto> nb)" by (simp add: s2(1) m0)
  note tree2 = extra_block [OF p0(4,3) nb(3) extra rn]
  have own0: "own_ids m0" by (rule own_ids_upd [OF ss(3) m0]) (simp add: ob_def own)
  have own2: "own_ids s2" by (rule own_ids_upd [OF own0 extra nb(2)])
  have p2: "reach s2 r p" "Pick s2 p = Some pb" using p0(1,2) ne by (simp_all add: tree2 extra)
  obtain s3 where s3: "InsertTo md5 s2 i Block_Bottom [newId] = Some (None, s3)"
    "Pick s3 = (Pick s2)(p \<mapsto> pb\<lparr>ChildrenIds := xs @ i # newId # ys\<rparr>)" "tl s3 = tl s2" "rooted s3 r"
    using InsertTo_beside [OF s2(3) tree2(1) own2 p2 p(3) i(3), of Block_Bottom "[newId]" md5] ne by (auto simp: beside_def)
  have L: "set (xs @ i # newId # ys) = insert newId (set (ChildrenIds pb))"
    "distinct (ChildrenIds pb) \<Longrightarrow> newId \<notin> set (ChildrenIds pb) \<Longrightarrow> distinct (xs @ i # newId # ys)" using p(3) by auto
  note grown = grown_tree [OF p0(4,1,2,3) nb(3) s3(2) [unfolded extra] L rn]
  show thesis
  proof (rule that [of s3 om nb nc])
    show "Split_block srt normURI md5 newId i from to style SplitBottom ss = Some (Inr newId, s3)"
      using s1(1) mode cut [folded ob_def] nb(1) add s3(1) own
      by (simp add: Split_block_def and_then_def Let_def split_target_def insert_ids_def give_def ob_def)
    show "own_ids s3" by (rule own_ids_upd [OF own2 s3(2)]) (simp add: own)
    show "Pick s3 = (Pick ss)(i \<mapsto> b\<lparr>Content := CText (c\<lparr>tText := us, tMarks := om\<rparr>)\<rparr>, newId \<mapsto> nb, p \<mapsto> pb\<lparr>ChildrenIds := xs @ i # newId # ys\<rparr>)"
      by (simp add: s3(2) s2(1) ob_def)
  qed (use s3(3,4) s2(2) grown nb(3,4) nc marks in \<open>simp_all add: same\<close>)
qed

lemma IsParentOf_child: "IsParentOf ss p i \<longleftrightarrow> (p, i) \<in> child ss"
  by (auto simp: IsParentOf_def child_def split: option.split)

lemma absent_unreached:
  assumes "tree ss r" "Pick ss n = None" "reach ss r p" "Pick ss p = Some pb"
  shows "\<not> reach ss r n"
proof
  assume n: "reach ss r n"
  show False
  proof (cases "r = n")
    case True
    then have "(n, p) \<in> (child ss)\<^sup>*" using assms(3) by (simp add: reach_def)
    then show False
    proof (cases rule: converse_rtranclE)
      case base
      then show False using assms(2,4) by simp
    next
      case (step y)
      then show False using assms(2) by auto
    qed
  next
    case False
    then obtain z where "reach ss r z" "(z, n) \<in> child ss" using n by (metis reach_def rtranclE)
    then show False using tree_children(2) [OF assms(1), of z] assms(2) by (fastforce simp: Exists_def elim!: childE)
  qed
qed



subsection \<open>Examples\<close>

text \<open>A document with two texts under the root, each with a child.\<close>

definition edit_doc :: "State list" where
  "edit_doc = NewState [empty_state\<lparr>st_blocks :=
     [(''r'', sample_block ''r'' [''a'', ''b'']), (''a'', (new_text_block ''a'' [] 0 TextBlock.sample)\<lparr>ChildrenIds := [''k'']\<rparr>),
      (''b'', (new_text_block ''b'' [] 0 (new_text [33] 0 [bold 0 1] False []))\<lparr>ChildrenIds := [''m'']\<rparr>),
      (''k'', sample_block ''k'' []), (''m'', new_text_block ''m'' [] 0 (new_text [] 0 [] False []))]\<rparr>]"

lemma edit_doc_valid: "rooted edit_doc ''r''" "fst (Validate edit_doc) = None" "own_ids edit_doc"
  subgoal by (simp add: rooted_def edit_doc_def NewState_def empty_state_def)
  subgoal by code_simp
  subgoal by (rule own_idsI) code_simp
  done

lemma edit_doc_blocks:
  "Pick edit_doc ''r'' = Some (sample_block ''r'' [''a'', ''b''])"
  "Pick edit_doc ''a'' = Some ((new_text_block ''a'' [] 0 TextBlock.sample)\<lparr>ChildrenIds := [''k'']\<rparr>)"
  "Pick edit_doc ''b'' = Some ((new_text_block ''b'' [] 0 (new_text [33] 0 [bold 0 1] False []))\<lparr>ChildrenIds := [''m'']\<rparr>)"
  "Pick edit_doc ''n'' = None" "Pick edit_doc HeaderLayoutId = None"
  by (simp_all add: edit_doc_def NewState_def empty_state_def HeaderLayoutId_def)

lemma edit_doc_links: "(''r'', ''a'') \<in> child edit_doc" "(''r'', ''b'') \<in> child edit_doc" "(HeaderLayoutId, x) \<notin> (child edit_doc)\<^sup>+"
proof -
  show "(''r'', ''a'') \<in> child edit_doc" "(''r'', ''b'') \<in> child edit_doc"
    by (auto intro!: childI [OF edit_doc_blocks(1)] simp: sample_block_def)
  show "(HeaderLayoutId, x) \<notin> (child edit_doc)\<^sup>+" using edit_doc_blocks(5) by (auto dest!: tranclD)
qed

lemma edit_doc_apart: "(''b'', ''a'') \<notin> (child edit_doc)\<^sup>*"
proof -
  have "tree edit_doc ''r''" using edit_doc_valid Validate_rooted by blast
  from tree_siblings [OF this reach_refl edit_doc_links(2,1)] show ?thesis by auto
qed



text \<open>
  A block can be moved into a block that is two levels below it: only direct children are checked. The moved block is taken
  out of the tree and the insertion closes a cycle outside of it, so that all of its blocks are lost.
\<close>

definition deep_doc :: "State list" where
  "deep_doc = NewState [empty_state\<lparr>st_blocks :=
     [(''r'', sample_block ''r'' [''a'', ''e'']), (''a'', sample_block ''a'' [''b'']), (''b'', sample_block ''b'' [''c'']), (''c'', sample_block ''c'' []),
      (''e'', new_text_block ''e'' [] 0 (new_text [] 0 [] False []))]\<rparr>]"

lemma move_below_itself_loses:
  "fst (Validate deep_doc) = None \<and>
   (case Move_blocks id ''c'' Block_Inner [''a''] deep_doc of
      Some (Inr (), ss) \<Rightarrow> map_option ChildrenIds (Pick ss ''r'') = Some [''e''] \<and> map_option ChildrenIds (Pick ss ''c'') = Some [''a''] \<and>
        fst (PickParentOf ss ''a'') = None
    | _ \<Rightarrow> False)"
  by code_simp

text \<open>Moving to a direct child is an error, after which the block is still in the tree.\<close>

lemma move_to_child_refused:
  "(case Move_blocks id ''b'' Block_Inner [''a''] deep_doc of
      Some (Inl e, ss) \<Rightarrow> e = ErrMoveToChild \<and> map_option Id (fst (PickParentOf ss ''a'')) = Some ''r'' | _ \<Rightarrow> False)"
  by code_simp

text \<open>Dropping blocks that do not exist on an empty paragraph dereferences nil.\<close>

lemma drop_missing_panics: "Move_blocks id ''e'' Block_InnerFirst [''z''] deep_doc = None"
  by code_simp

end
