(* ===== verification/Subscription.thy ===== *)
theory Subscription
  imports SliceDiff DbOrder
begin

section \<open>Sorted subscriptions (core/subscription: cache.go, diff.go, sorted.go, context.go)\<close>

text \<open>
  A subscription shows a window of the objects that match a query, in the order of the query.
  When objects change, the client is not sent the window again but messages that say which ids to add
  or move behind which other id, and which ids to remove. The theory models the entries of the
  cache, the window with its counters, the difference of two windows, the messages, and how a batch
  of changed objects runs through one subscription. Details messages, subscriptions of dependent
  objects and nested subscriptions are left out.

  Third-party code appears as parameters: the edit script of mb0/diff is \<open>edit\<close> of the theory of
  slice differences, and the ordered container of huandu/skiplist is the list of its keys in order
  with \<open>Set\<close> and \<open>Remove\<close> as \<open>sset\<close> and \<open>sremove\<close>. The keys of the container are pointers to entries,
  of which it only ever reads the id and the details, which never change: a key is this pair. A
  pointer to an element is the id of its key; what such a pointer means after its element has left the
  container is not documented, and the operations that would need it return \<^term>\<open>None\<close>.
\<close>

subsection \<open>Entries and the cache\<close>

record entry =
  e_id :: string
  e_data :: gmap
  e_subIds :: "string list"
  e_subIsActive :: "(string \<times> bool) list"
  e_subFullDetailsSent :: "(string \<times> bool) list"

definition newEntry :: "string \<Rightarrow> gmap \<Rightarrow> entry" where
  "newEntry i data = \<lparr>e_id = i, e_data = data, e_subIds = [], e_subIsActive = [], e_subFullDetailsSent = []\<rparr>"

text \<open>A missing key of a map of booleans reads as false.\<close>

definition flag :: "(string \<times> bool) list \<Rightarrow> string \<Rightarrow> bool" where
  "flag m k = (case map_of m k of Some b \<Rightarrow> b | None \<Rightarrow> False)"

definition SetSub :: "string \<Rightarrow> bool \<Rightarrow> bool \<Rightarrow> entry \<Rightarrow> entry" where
  "SetSub subId isActive isFullDetailSent e =
     (if FindPos (e_subIds e) subId = -1
      then e\<lparr>e_subIds := e_subIds e @ [subId], e_subIsActive := put subId isActive (e_subIsActive e),
             e_subFullDetailsSent := put subId isFullDetailSent (e_subFullDetailsSent e)\<rparr>
      else (let e = e\<lparr>e_subIsActive := put subId isActive (e_subIsActive e)\<rparr>
            in if \<not> flag (e_subFullDetailsSent e) subId
               then e\<lparr>e_subFullDetailsSent := put subId isFullDetailSent (e_subFullDetailsSent e)\<rparr> else e))"

definition IsInSub :: "entry option \<Rightarrow> string \<Rightarrow> bool" where
  "IsInSub e subId = (case e of None \<Rightarrow> False | Some e \<Rightarrow> subId \<in> set (e_subIds e))"

definition GetActive :: "entry \<Rightarrow> string list" where
  "GetActive e = map fst (filter snd (e_subIsActive e))"

definition GetFullDetailsSent :: "entry \<Rightarrow> string list" where
  "GetFullDetailsSent e = map fst (filter snd (e_subFullDetailsSent e))"

definition RemoveSubId :: "string \<Rightarrow> entry \<Rightarrow> entry" where
  "RemoveSubId subId e =
     (if FindPos (e_subIds e) subId \<noteq> -1
      then e\<lparr>e_subIds := RemoveMut (e_subIds e) subId, e_subIsActive := del subId (e_subIsActive e),
             e_subFullDetailsSent := del subId (e_subFullDetailsSent e)\<rparr>
      else e)"

type_synonym cache = "(string \<times> entry) list"

definition cache_GetOrSet :: "entry \<Rightarrow> cache \<Rightarrow> entry \<times> cache" where
  "cache_GetOrSet e c = (case map_of c (e_id e) of Some res \<Rightarrow> (res, c) | None \<Rightarrow> (e, put (e_id e) e c))"

definition cache_RemoveSubId :: "string \<Rightarrow> string \<Rightarrow> cache \<Rightarrow> cache" where
  "cache_RemoveSubId i subId c =
     (case map_of c i of
        None \<Rightarrow> c
      | Some e \<Rightarrow> (let e' = RemoveSubId subId e in if length (e_subIds e') = 0 then del i c else put i e' c))"

subsection \<open>The difference of two windows\<close>

record listDiff =
  beforeIds :: "string list"
  afterIds :: "string list"
  beforeIdsM :: "string list"
  afterIdsM :: "string list"

definition newListDiff :: "string list \<Rightarrow> listDiff" where
  "newListDiff ids = \<lparr>beforeIds = ids, afterIds = [], beforeIdsM = remdups ids, afterIdsM = []\<rparr>"

definition fillAfter :: "string \<Rightarrow> listDiff \<Rightarrow> listDiff" where
  "fillAfter i ld = ld\<lparr>afterIds := afterIds ld @ [i]\<rparr>"

definition reverse_after :: "listDiff \<Rightarrow> listDiff" where
  "reverse_after ld = ld\<lparr>afterIds := rev (afterIds ld)\<rparr>"

definition reset_diff :: "listDiff \<Rightarrow> listDiff" where
  "reset_diff ld = \<lparr>beforeIds = afterIds ld, afterIds = [], beforeIdsM = afterIdsM ld, afterIdsM = []\<rparr>"

record opPosition =
  op_id :: string
  op_subId :: string
  op_afterId :: string
  op_isAdd :: bool

record opRemove =
  rm_id :: string
  rm_subId :: string

record opCounter =
  oc_subId :: string
  oc_total :: int
  oc_prevCount :: int
  oc_nextCount :: int

record opChange =
  ch_id :: string
  ch_subId :: string
  ch_keys :: "string list"

record opCtx =
  ctx_remove :: "opRemove list"
  ctx_change :: "opChange list"
  ctx_position :: "opPosition list"
  ctx_counters :: "opCounter list"
  ctx_entries :: "entry list"

definition ctx_reset :: opCtx where
  "ctx_reset = \<lparr>ctx_remove = [], ctx_change = [], ctx_position = [], ctx_counters = [], ctx_entries = []\<rparr>"

definition ctx_getEntry :: "opCtx \<Rightarrow> string \<Rightarrow> entry option" where
  "ctx_getEntry ctx i = find (\<lambda>e. e_id e = i) (ctx_entries ctx)"

definition getPrevId :: "string list \<Rightarrow> nat \<Rightarrow> string" where
  "getPrevId s i = (if i = 0 then [] else s ! (i - 1))"

definition hunk_positions :: "listDiff \<Rightarrow> string \<Rightarrow> hunk \<Rightarrow> opPosition list" where
  "hunk_positions ld subId ch =
     map (\<lambda>i. let idx = hB ch + i
              in \<lparr>op_id = afterIds ld ! idx, op_subId = subId, op_afterId = getPrevId (afterIds ld) idx,
                  op_isAdd = (afterIds ld ! idx \<notin> set (beforeIdsM ld))\<rparr>) [0..<hIns ch]"

definition hunk_removes :: "listDiff \<Rightarrow> string \<Rightarrow> hunk \<Rightarrow> opRemove list" where
  "hunk_removes ld subId ch =
     concat (map (\<lambda>i. let idx = hA ch + i
                      in if beforeIds ld ! idx \<notin> set (afterIdsM ld) then [\<lparr>rm_id = beforeIds ld ! idx, rm_subId = subId\<rparr>] else [])
       [0..<hDel ch])"

text \<open>The loop over the hunks appends to the positions and removals of the context; the result
  tells whether anything was added or removed, and what.\<close>

definition list_diff :: "(nat \<Rightarrow> nat \<Rightarrow> (nat \<Rightarrow> nat \<Rightarrow> bool) \<Rightarrow> hunk list) \<Rightarrow> opCtx \<Rightarrow> string \<Rightarrow> listDiff \<Rightarrow>
    opCtx \<times> listDiff \<times> bool \<times> string list \<times> string list" where
  "list_diff edit ctx subId ld0 =
     (let ld = ld0\<lparr>afterIdsM := remdups (afterIds ld0)\<rparr>;
          diffData = edit (length (beforeIds ld)) (length (afterIds ld)) (\<lambda>i j. beforeIds ld ! i = afterIds ld ! j);
          positions = concat (map (hunk_positions ld subId) diffData);
          removes = concat (map (hunk_removes ld subId) diffData);
          added = map op_id (filter op_isAdd positions);
          removed = map rm_id removes
      in (ctx\<lparr>ctx_position := ctx_position ctx @ positions, ctx_remove := ctx_remove ctx @ removes\<rparr>, ld,
          added \<noteq> [] \<or> removed \<noteq> [], added, removed))"

subsection \<open>Messages\<close>

datatype sub_event =
    SubscriptionAdd (ev_Id: string) (ev_AfterId: string) (ev_SubId: string)
  | SubscriptionPosition (ev_Id: string) (ev_AfterId: string) (ev_SubId: string)
  | SubscriptionRemove (ev_Id: string) (ev_SubId: string)
  | SubscriptionCounters (ev_Total: int) (ev_NextCount: int) (ev_PrevCount: int) (ev_SubId: string)

definition addEvent :: "string \<Rightarrow> sub_event \<Rightarrow> (string \<times> sub_event list) list \<Rightarrow> (string \<times> sub_event list) list" where
  "addEvent subId ev outputs =
     (let k = (if map_of outputs subId \<noteq> None then subId else ''_default'')
      in put k ((case map_of outputs k of Some evs \<Rightarrow> evs | None \<Rightarrow> []) @ [ev]) outputs)"

text \<open>The messages of \<open>apply\<close> in their order: adds and positions, removals, counters.\<close>

definition ctx_events :: "opCtx \<Rightarrow> sub_event list" where
  "ctx_events ctx =
     map (\<lambda>pos. if op_isAdd pos then SubscriptionAdd (op_id pos) (op_afterId pos) (op_subId pos)
                else SubscriptionPosition (op_id pos) (op_afterId pos) (op_subId pos)) (ctx_position ctx)
     @ map (\<lambda>rem. SubscriptionRemove (rm_id rem) (rm_subId rem)) (ctx_remove ctx)
     @ map (\<lambda>c. SubscriptionCounters (oc_total c) (oc_nextCount c) (oc_prevCount c) (oc_subId c)) (ctx_counters ctx)"

definition apply_ctx :: "opCtx \<Rightarrow> (string \<times> sub_event list) list \<Rightarrow> (string \<times> sub_event list) list" where
  "apply_ctx ctx outputs = fold (\<lambda>ev. addEvent (ev_SubId ev) ev) (ctx_events ctx) outputs"

text \<open>The end of \<open>apply\<close>: the entries of the context go to the cache, or leave it when no subscription has them.\<close>

definition apply_cache :: "entry list \<Rightarrow> cache \<Rightarrow> cache" where
  "apply_cache es c = fold (\<lambda>e c. if length (e_subIds e) > 0 then put (e_id e) e c else del (e_id e) c) es c"

subsection \<open>The window of a sorted subscription\<close>

type_synonym key = "string \<times> gmap"

type_synonym skl_op = "key \<Rightarrow> key list \<Rightarrow> key list"

definition e_key :: "entry \<Rightarrow> key" where
  "e_key e = (e_id e, e_data e)"

record sortedSub =
  ss_id :: string
  ss_started :: bool
  ss_entriesBeforeStarted :: "entry list"
  ss_keys :: "string list"
  ss_filter :: "Filter option"
  ss_afterId :: string
  ss_beforeId :: string
  ss_limit :: int
  ss_offset :: int
  ss_skl :: "key list"
  ss_afterEl :: "string option"
  ss_beforeEl :: "string option"
  ss_diff :: listDiff
  ss_compCountBefore :: opCounter

datatype sub_error = ErrAfterId | ErrBeforeId | ErrNoRecords

text \<open>An element with its successors, and its predecessors in order.\<close>

definition el_from :: "string \<Rightarrow> key list \<Rightarrow> key list" where
  "el_from i skl = dropWhile (\<lambda>k. fst k \<noteq> i) skl"

definition el_before :: "string \<Rightarrow> key list \<Rightarrow> key list" where
  "el_before i skl = takeWhile (\<lambda>k. fst k \<noteq> i) skl"

definition setBeforeAndAfterElements :: "cache \<Rightarrow> sortedSub \<Rightarrow> sub_error + sortedSub" where
  "setBeforeAndAfterElements c s =
     (let get = (\<lambda>i. case map_of c i of None \<Rightarrow> None
                 | Some e \<Rightarrow> if e_id e \<in> fst ` set (ss_skl s) then Some (e_id e) else None)
      in if ss_afterId s \<noteq> []
         then (case get (ss_afterId s) of None \<Rightarrow> Inl ErrAfterId | Some el \<Rightarrow> Inr (s\<lparr>ss_afterEl := Some el\<rparr>))
         else if ss_beforeId s \<noteq> []
         then (case get (ss_beforeId s) of None \<Rightarrow> Inl ErrBeforeId | Some el \<Rightarrow> Inr (s\<lparr>ss_beforeEl := Some el\<rparr>))
         else if ss_offset s > 0
         then (let n = nat (ss_offset s) - 1
               in if n < length (ss_skl s)
                  then (let i = fst (ss_skl s ! n) in Inr (s\<lparr>ss_afterId := i, ss_afterEl := Some i\<rparr>))
                  else if ss_afterEl s = None then Inl ErrNoRecords else Inr s)
         else Inr s)"

text \<open>The keys that the callback of \<open>iterateActive\<close> sees, in its order, and whether that is reversed.\<close>

definition limited :: "int \<Rightarrow> 'a list \<Rightarrow> 'a list" where
  "limited limit xs = (if limit > 0 then take (nat limit) xs else xs)"

definition iterateActive :: "sortedSub \<Rightarrow> key list \<times> bool" where
  "iterateActive s =
     (case ss_beforeEl s of
        Some i \<Rightarrow> (limited (ss_limit s) (rev (el_before i (ss_skl s))), True)
      | None \<Rightarrow>
         (limited (ss_limit s) (case ss_afterEl s of Some i \<Rightarrow> drop 1 (el_from i (ss_skl s)) | None \<Rightarrow> ss_skl s), False))"

definition getActiveRecords :: "sortedSub \<Rightarrow> gmap list" where
  "getActiveRecords s =
     (let (ks, reverse) = iterateActive s; res = map (\<lambda>k. CopyOnlyKeys (snd k) (ss_keys s)) ks
      in if reverse then rev res else res)"

text \<open>The loops from the start element forwards and backwards count the element itself both times.\<close>

definition sub_counters :: "sortedSub \<Rightarrow> int \<times> int" where
  "sub_counters s =
     (if ss_beforeEl s = None \<and> ss_afterEl s = None \<and> ss_limit s \<le> 0 then (0, 0)
      else
       (let startEl = (case ss_afterEl s of Some i \<Rightarrow> Some i | None \<Rightarrow> ss_beforeEl s);
            next0 = (case startEl of Some i \<Rightarrow> int (length (el_from i (ss_skl s))) | None \<Rightarrow> 0);
            prev0 = (case startEl of Some i \<Rightarrow> int (length (el_before i (ss_skl s))) + 1 | None \<Rightarrow> 0)
        in if ss_afterEl s \<noteq> None
           then (if ss_limit s > 0
                 then (prev0, if next0 - 1 - ss_limit s < 0 then 0 else next0 - 1 - ss_limit s)
                 else (prev0, 0))
           else if ss_beforeEl s \<noteq> None
           then (if ss_limit s > 0
                 then (if prev0 - 1 - ss_limit s < 0 then 0 else prev0 - 1 - ss_limit s, next0)
                 else (0, next0))
           else if ss_limit s > 0
           then (prev0, if int (length (ss_skl s)) - ss_limit s < 0 then 0 else int (length (ss_skl s)) - ss_limit s)
           else (prev0, next0)))"

text \<open>\<open>sortedSub.Compare\<close>: by id when the order does not decide; \<open>ord\<close> is the order, if there is one.\<close>

definition sub_Compare :: "(gmap \<Rightarrow> gmap \<Rightarrow> int) option \<Rightarrow> key \<Rightarrow> key \<Rightarrow> int" where
  "sub_Compare ord le re =
     (if fst le = fst re then 0
      else (let d = (case ord of Some f \<Rightarrow> f (snd le) (snd re) | None \<Rightarrow> 0)
            in if d = 0 then (if fst le > fst re then 1 else -1) else d))"

subsection \<open>The life of a subscription\<close>

definition close_sub :: "sortedSub \<Rightarrow> cache \<Rightarrow> cache" where
  "close_sub s c = (if \<not> ss_started s then c else fold (\<lambda>k. cache_RemoveSubId (fst k) (ss_id s)) (ss_skl s) c)"

definition count_now :: "sortedSub \<Rightarrow> opCounter" where
  "count_now s = (let (prev, nxt) = sub_counters s
     in \<lparr>oc_subId = ss_id s, oc_total = int (length (ss_skl s)), oc_prevCount = prev, oc_nextCount = nxt\<rparr>)"

definition init_entry :: "skl_op \<Rightarrow> string \<Rightarrow> entry \<Rightarrow> cache \<times> key list \<Rightarrow> cache \<times> key list" where
  "init_entry sset subId e = (\<lambda>(c, skl).
     let (e, c) = cache_GetOrSet e c; e = SetSub subId False False e
     in (put (e_id e) e c, sset (e_key e) skl))"

definition sub_init :: "skl_op \<Rightarrow> entry list \<Rightarrow> cache \<Rightarrow> sortedSub \<Rightarrow> (sub_error + sortedSub) \<times> cache" where
  "sub_init sset entries c s =
     (let (c, skl) = fold (init_entry sset (ss_id s)) entries (c, []);
          s = s\<lparr>ss_started := True, ss_skl := skl\<rparr>
      in case setBeforeAndAfterElements c s of
           Inl err \<Rightarrow> (Inl err, close_sub s c)
         | Inr s \<Rightarrow>
            (let activeIds = map fst (fst (iterateActive s));
                 c = fold (\<lambda>i c. case map_of c i of Some e \<Rightarrow> put i (SetSub (ss_id s) True True e) c | None \<Rightarrow> c) activeIds c
             in (Inr (s\<lparr>ss_diff := newListDiff activeIds, ss_compCountBefore := count_now s\<rparr>), c)))"

text \<open>The counters that the response to a subscribe request carries.\<close>

definition SubscribeResponse_Counters :: "sortedSub \<Rightarrow> sub_event" where
  "SubscribeResponse_Counters s =
     (let (prev, nxt) = sub_counters s in SubscriptionCounters (int (length (ss_skl s))) prev nxt [])"

text \<open>One changed entry; the branch of the panic cannot be reached. The result is the subscription,
  the entry and whether the container changed.\<close>

definition anchored :: "sortedSub \<Rightarrow> string \<Rightarrow> bool" where
  "anchored s i \<longleftrightarrow> ss_afterEl s = Some i \<or> ss_beforeEl s = Some i"

definition in_filter :: "Env \<Rightarrow> sortedSub \<Rightarrow> gmap \<Rightarrow> bool" where
  "in_filter env s data = (case ss_filter s of None \<Rightarrow> True | Some f \<Rightarrow> FilterObject env f data)"

definition onEntryChange :: "Env \<Rightarrow> skl_op \<Rightarrow> skl_op \<Rightarrow> cache \<Rightarrow> sortedSub \<Rightarrow> entry \<Rightarrow>
    (sortedSub \<times> entry \<times> bool) option" where
  "onEntryChange env sset sremove c s e =
     (let newInSet = in_filter env s (e_data e)
      in if \<not> ss_started s
         then Some (if newInSet then s\<lparr>ss_entriesBeforeStarted := ss_entriesBeforeStarted s @ [e]\<rparr> else s, e, False)
         else (case map_of c (e_id e) of
             Some cur \<Rightarrow>
              if IsInSub (Some cur) (ss_id s)
              then (if anchored s (e_id cur) then None
                    else if \<not> newInSet
                    then Some (s\<lparr>ss_skl := sremove (e_key cur) (ss_skl s)\<rparr>, RemoveSubId (ss_id s) e, True)
                    else Some (s\<lparr>ss_skl := sset (e_key e) (sremove (e_key cur) (ss_skl s))\<rparr>,
                           SetSub (ss_id s) False False e, True))
              else if newInSet
              then Some (s\<lparr>ss_skl := sset (e_key e) (ss_skl s)\<rparr>, SetSub (ss_id s) False False e, True)
              else Some (s, e, False)
           | None \<Rightarrow>
              if newInSet
              then Some (s\<lparr>ss_skl := sset (e_key e) (ss_skl s)\<rparr>, SetSub (ss_id s) False False e, True)
              else Some (s, e, False)))"

text \<open>
  \<open>depEntriesByEntries\<close>: the entries of some ids are added to the context when they are not there yet,
  as copies from the cache or as new entries of the records that the object store returns; \<open>QueryByIds\<close>
  is the parameter \<open>query\<close>, with the id and the details of each record.
\<close>

definition dep_step :: "cache \<Rightarrow> string \<Rightarrow> opCtx \<times> string list \<Rightarrow> opCtx \<times> string list" where
  "dep_step c i = (\<lambda>(ctx, missIds).
     case ctx_getEntry ctx i of
       Some e \<Rightarrow> (ctx, missIds)
     | None \<Rightarrow> (case map_of c i of
          Some e \<Rightarrow> (ctx\<lparr>ctx_entries := ctx_entries ctx @ [e]\<rparr>, missIds)
        | None \<Rightarrow> (ctx, missIds @ [i])))"

definition depEntriesByEntries :: "(string list \<Rightarrow> (string \<times> gmap) list) \<Rightarrow> cache \<Rightarrow> string list \<Rightarrow> opCtx \<Rightarrow> opCtx" where
  "depEntriesByEntries query c depIds ctx =
     (if depIds = [] then ctx
      else
        let (ctx, missIds) = fold (dep_step c) depIds (ctx, [])
        in if missIds \<noteq> []
           then ctx\<lparr>ctx_entries := ctx_entries ctx @ map (\<lambda>(i, d). newEntry i d) (query missIds)\<rparr> else ctx)"

text \<open>The subscription is told of the entries that are in its window now, and of those that left it.\<close>

definition mark_active :: "sortedSub \<Rightarrow> string list \<Rightarrow> opCtx \<Rightarrow> opCtx" where
  "mark_active s after ctx =
     ctx\<lparr>ctx_entries := map (\<lambda>e. if e_id e \<in> set after then SetSub (ss_id s) True False e else e) (ctx_entries ctx),
         ctx_change := ctx_change ctx @
           [\<lparr>ch_id = e_id e, ch_subId = ss_id s, ch_keys = ss_keys s\<rparr>. e \<leftarrow> ctx_entries ctx, e_id e \<in> set after]\<rparr>"

definition mark_removed :: "string \<Rightarrow> string list \<Rightarrow> cache \<Rightarrow> cache" where
  "mark_removed subId removed c =
     fold (\<lambda>i c. case map_of c i of Some e \<Rightarrow> put i (SetSub subId False False e) c | None \<Rightarrow> c) removed c"

definition onSklChange :: "(nat \<Rightarrow> nat \<Rightarrow> (nat \<Rightarrow> nat \<Rightarrow> bool) \<Rightarrow> hunk list) \<Rightarrow> (string list \<Rightarrow> (string \<times> gmap) list) \<Rightarrow>
    cache \<Rightarrow> opCtx \<Rightarrow> sortedSub \<Rightarrow> opCtx \<times> sortedSub \<times> cache" where
  "onSklChange edit query c ctx s =
     (let (ks, reverse) = iterateActive s;
          ld = fold (\<lambda>k. fillAfter (fst k)) ks (ss_diff s);
          ld = (if reverse then reverse_after ld else ld);
          after = count_now s;
          (ctx, s) = (if after \<noteq> ss_compCountBefore s
                      then (ctx\<lparr>ctx_counters := ctx_counters ctx @ [after]\<rparr>, s\<lparr>ss_compCountBefore := after\<rparr>) else (ctx, s));
          (ctx, ld, wasAddOrRemove, added, removed) = list_diff edit ctx (ss_id s) ld;
          ctx = depEntriesByEntries query c added ctx;
          ctx = mark_active s (afterIdsM ld) ctx
      in (ctx, s\<lparr>ss_diff := reset_diff ld\<rparr>, mark_removed (ss_id s) removed c))"

text \<open>The loop of \<open>onChange\<close> over the entries, and \<open>onChange\<close> without a parent subscription.\<close>

fun change_entries :: "Env \<Rightarrow> skl_op \<Rightarrow> skl_op \<Rightarrow> cache \<Rightarrow> entry list \<Rightarrow> sortedSub \<Rightarrow> (sortedSub \<times> entry list \<times> bool) option" where
  "change_entries env sset sremove c [] s = Some (s, [], False)"
| "change_entries env sset sremove c (e # es) s =
     (case onEntryChange env sset sremove c s e of
        None \<Rightarrow> None
      | Some (s, e, changed) \<Rightarrow>
         (case change_entries env sset sremove c es s of
            None \<Rightarrow> None
          | Some (s, es, changed') \<Rightarrow> Some (s, e # es, changed \<or> changed')))"

definition sub_onChange :: "Env \<Rightarrow> skl_op \<Rightarrow> skl_op \<Rightarrow> (nat \<Rightarrow> nat \<Rightarrow> (nat \<Rightarrow> nat \<Rightarrow> bool) \<Rightarrow> hunk list) \<Rightarrow>
    (string list \<Rightarrow> (string \<times> gmap) list) \<Rightarrow> cache \<Rightarrow> opCtx \<Rightarrow> sortedSub \<Rightarrow> (opCtx \<times> sortedSub \<times> cache) option" where
  "sub_onChange env sset sremove edit query c ctx s =
     (case change_entries env sset sremove c (ctx_entries ctx) s of
        None \<Rightarrow> None
      | Some (s, es, changed) \<Rightarrow>
         (let ctx = ctx\<lparr>ctx_entries := es\<rparr>
          in Some (if \<not> changed \<or> \<not> ss_started s then (ctx, s, c) else onSklChange edit query c ctx s)))"

text \<open>The batch of \<open>recordsHandler\<close>: of several records of one object only the last is kept.\<close>

fun nilIfExists :: "string \<Rightarrow> entry option list \<Rightarrow> entry option list" where
  "nilIfExists i [] = []"
| "nilIfExists i (e # es) =
     (if e \<noteq> None \<and> e_id (the e) = i then None # es else e # nilIfExists i es)"

definition batch_entries :: "(string \<times> gmap) list \<Rightarrow> entry list" where
  "batch_entries records =
     (let entries = fold (\<lambda>(i, d) es. nilIfExists i es @ [Some (newEntry i d)]) records []
      in List.map_filter (\<lambda>e. e) entries)"

subsection \<open>What a client does with the messages\<close>

text \<open>
  The client keeps the ids of the window. As the protocol documents the messages, an id that is
  added or moved stands behind \<open>afterId\<close>, and first when that is empty.
\<close>

definition insert_after :: "string \<Rightarrow> string \<Rightarrow> string list \<Rightarrow> string list" where
  "insert_after af x xs = (let n = nat (after_pos xs (\<lambda>y. y) af + 1) in take n xs @ x # drop n xs)"

fun client_event :: "string \<Rightarrow> sub_event \<Rightarrow> string list \<Rightarrow> string list" where
  "client_event sub (SubscriptionAdd x af i) xs = (if i = sub then insert_after af x (removeAll x xs) else xs)"
| "client_event sub (SubscriptionPosition x af i) xs = (if i = sub then insert_after af x (removeAll x xs) else xs)"
| "client_event sub (SubscriptionRemove x i) xs = (if i = sub then removeAll x xs else xs)"
| "client_event sub (SubscriptionCounters _ _ _ i) xs = xs"

definition client_events :: "string \<Rightarrow> sub_event list \<Rightarrow> string list \<Rightarrow> string list" where
  "client_events sub evs xs = fold (client_event sub) evs xs"

definition pos_event :: "opPosition \<Rightarrow> sub_event" where
  "pos_event pos = (if op_isAdd pos then SubscriptionAdd (op_id pos) (op_afterId pos) (op_subId pos)
     else SubscriptionPosition (op_id pos) (op_afterId pos) (op_subId pos))"

definition place :: "opPosition \<Rightarrow> string list \<Rightarrow> string list" where
  "place pos xs = insert_after (op_afterId pos) (op_id pos) (removeAll (op_id pos) xs)"

lemma client_pos_event [simp]:
  "client_event sub (pos_event pos) xs = (if op_subId pos = sub then place pos xs else xs)"
  by (simp add: pos_event_def place_def)

lemma client_pos_events:
  "\<forall>pos\<in>set ps. op_subId pos = sub \<Longrightarrow> fold (client_event sub) (map pos_event ps) xs = fold place ps xs"
  by (induction ps arbitrary: xs) auto

lemma place_patched:
  assumes p: "patched (\<lambda>y. y) res L T D" and x: "op_id pos \<notin> set (L @ T)" "op_id pos \<noteq> []"
    and af: "op_afterId pos = anchor (\<lambda>y. y) L"
  shows "patched (\<lambda>y. y) (place pos res) (L @ [op_id pos]) T (D - {op_id pos})"
proof -
  let ?x = "op_id pos"
  let ?r = "removeAll ?x res"
  have "filter (\<lambda>y. y \<notin> D - {?x}) ?r = filter (\<lambda>y. y \<noteq> ?x) (filter (\<lambda>y. y \<notin> D) res)"
    by (auto simp: removeAll_filter_not_eq conj_commute intro: filter_cong)
  also have "\<dots> = filter (\<lambda>y. y \<noteq> ?x) (L @ T)" using p by (simp add: patched_def)
  also have "\<dots> = L @ T" using x(1) by (intro filter_True) auto
  finally have "patched (\<lambda>y. y) ?r L T (D - {?x})" using p by (simp add: patched_def)
  then obtain n where n: "after_pos ?r (\<lambda>y. y) (anchor (\<lambda>y. y) L) + 1 = int n"
    "filter (\<lambda>y. y \<notin> D - {?x}) (take n ?r) = L" "filter (\<lambda>y. y \<notin> D - {?x}) (drop n ?r) = T"
    by (rule patched_position)
  have "place pos res = take n ?r @ ?x # drop n ?r" by (simp add: place_def insert_after_def af n(1))
  then show ?thesis using n(2,3) x p by (auto simp: patched_def)
qed

lemma getPrevId_anchor: "i \<le> length B \<Longrightarrow> getPrevId B i = anchor (\<lambda>y. y) (take i B)"
  by (cases i) (auto simp: getPrevId_def anchor_def take_Suc_conv_app_nth)

lemma hunk_place:
  assumes p: "patched (\<lambda>y. y) res (take (hB h) B) T D" and len: "hB h + hIns h \<le> length B"
    and d: "distinct (take (hB h + hIns h) B @ T)" and ne: "[] \<notin> set B" and B: "afterIds ld = B"
  shows "\<exists>D'. patched (\<lambda>y. y) (fold place (hunk_positions ld sub h) res) (take (hB h + hIns h) B) T D' \<and>
     D - set B \<subseteq> D' \<and> D' \<subseteq> D"
proof -
  define ps where "ps = (\<lambda>k. map (\<lambda>i. let idx = hB h + i in \<lparr>op_id = B ! idx, op_subId = sub,
      op_afterId = getPrevId B idx, op_isAdd = (B ! idx \<notin> set (beforeIdsM ld))\<rparr>) [0..<k])"
  have "\<exists>D'. patched (\<lambda>y. y) (fold place (ps k) res) (take (hB h + k) B) T D' \<and> D - set B \<subseteq> D' \<and> D' \<subseteq> D"
    if "k \<le> hIns h" for k using that
  proof (induction k)
    case (Suc k)
    then obtain D' where D': "patched (\<lambda>y. y) (fold place (ps k) res) (take (hB h + k) B) T D'"
      "D - set B \<subseteq> D'" "D' \<subseteq> D" by auto
    let ?x = "B ! (hB h + k)"
    have lt: "hB h + k < length B" using Suc.prems len by simp
    then have ts: "take (hB h + Suc k) B = take (hB h + k) B @ [?x]" by (simp add: take_Suc_conv_app_nth)
    have "take (hB h + Suc k) B = take (hB h + Suc k) (take (hB h + hIns h) B)" using Suc.prems by (simp add: min_def)
    then have "distinct (take (hB h + Suc k) B)" "set (take (hB h + Suc k) B) \<subseteq> set (take (hB h + hIns h) B)"
      using d by (metis distinct_append distinct_take, metis set_take_subset)
    then have "distinct (take (hB h + Suc k) B @ T)" using d by (metis Int_mono distinct_append order_refl subset_empty)
    then have x: "?x \<notin> set (take (hB h + k) B @ T)" unfolding ts by auto
    let ?pos = "\<lparr>op_id = ?x, op_subId = sub, op_afterId = getPrevId B (hB h + k), op_isAdd = (?x \<notin> set (beforeIdsM ld))\<rparr>"
    have "?x \<noteq> []" using ne lt by (metis nth_mem)
    then have "patched (\<lambda>y. y) (place ?pos (fold place (ps k) res)) (take (hB h + k) B @ [?x]) T (D' - {?x})"
      using place_patched [OF D'(1), of ?pos] x lt getPrevId_anchor [of "hB h + k" B] by simp
    moreover have "fold place (ps (Suc k)) res = place ?pos (fold place (ps k) res)" by (simp add: ps_def Let_def)
    moreover have "D - set B \<subseteq> D' - {?x}" "D' - {?x} \<subseteq> D" using D'(2,3) lt by auto
    ultimately show ?case by (metis ts)
  qed (use p in \<open>auto simp: ps_def\<close>)
  from this [of "hIns h"] show ?thesis by (simp add: hunk_positions_def ps_def B)
qed

lemma hunks_place:
  assumes "edit_from A B fr i j hs" and d: "distinct A" "distinct B" and ne: "[] \<notin> set B" and B: "afterIds ld = B"
    and "\<And>x. x \<in> set (drop i A) \<Longrightarrow> x \<in> D0 \<longleftrightarrow> x \<in> dset A hs"
    and "patched (\<lambda>y. y) res (take j B) [x \<leftarrow> drop i A. x \<notin> D0] D"
  shows "\<exists>D'. patched (\<lambda>y. y) (fold place (concat (map (hunk_positions ld sub) hs)) res) B [] D' \<and>
     D - set B \<subseteq> D' \<and> D' \<subseteq> D"
  using assms
proof (induction hs arbitrary: fr i j res D)
  case Nil
  have "[x \<leftarrow> drop i A. x \<notin> D0] = drop i A" using Nil.prems(6) by (auto intro: filter_True)
  then have "filter (\<lambda>x. x \<notin> D) res = take j B @ drop j B" using Nil.prems(1,7) by (simp add: patched_def)
  then have "patched (\<lambda>y. y) res B [] D" using Nil.prems(3,4) by (simp add: patched_def)
  then show ?case by auto
next
  case (Cons h hs)
  note e = Cons.prems(1)
  have sp: "[x \<leftarrow> drop i A. x \<notin> D0] = take (hA h - i) (drop i A) @ [x \<leftarrow> drop (hA h + hDel h) A. x \<notin> D0]"
    "\<And>x. x \<in> set (drop (hA h + hDel h) A) \<Longrightarrow> x \<in> D0 \<longleftrightarrow> x \<in> dset A hs"
    using kept_split [where getID = "\<lambda>y. y" and A = A and B = B and D = D0, unfolded map_ident, OF e d(1) Cons.prems(6)]
    by blast+
  let ?T = "[x \<leftarrow> drop (hA h + hDel h) A. x \<notin> D0]"
  have "take j B @ take (hA h - i) (drop i A) = take (hB h) B"
    using e by (metis edit_from.simps(2) le_add_diff_inverse take_add)
  moreover have "[] \<notin> set (take (hB h) B)" using ne by (meson in_set_takeD)
  ultimately have p: "patched (\<lambda>y. y) res (take (hB h) B) ?T D"
    using Cons.prems(7) sp(1) unfolding patched_def by (metis append_assoc image_ident)
  have "set ?T \<subseteq> set (drop (hB h + hIns h) B)"
    using kept_subset [where getID = "\<lambda>y. y" and A = A and B = B and D = D0, unfolded map_ident, of False "hA h + hDel h" "hB h + hIns h" hs]
      e d(1) sp(2) by simp
  moreover have "distinct (take (hB h + hIns h) B @ drop (hB h + hIns h) B)" using d(2) by simp
  moreover have "distinct ?T" using d(1) by simp
  ultimately have dT: "distinct (take (hB h + hIns h) B @ ?T)" unfolding distinct_append by blast
  obtain D1 where D1: "patched (\<lambda>y. y) (fold place (hunk_positions ld sub h) res) (take (hB h + hIns h) B) ?T D1"
    "D - set B \<subseteq> D1" "D1 \<subseteq> D"
    using hunk_place [OF p _ dT ne B, of sub] e by (metis edit_from.simps(2))
  have e': "edit_from A B False (hA h + hDel h) (hB h + hIns h) hs" using e by simp
  from Cons.IH [OF e' d ne B sp(2) D1(1)] D1(2,3) show ?case by fastforce
qed

text \<open>Every new id is inserted by some hunk.\<close>

lemma edit_inserts: "edit_from A B fr i j hs \<Longrightarrow>
    set (drop j B) \<subseteq> set A \<union> (\<Union>h\<in>set hs. set (take (hIns h) (drop (hB h) B)))"
proof (induction hs arbitrary: fr i j)
  case Nil
  then show ?case by simp (metis set_drop_subset)
next
  case (Cons h hs)
  have "set (drop (hB h + hIns h) B) \<subseteq> set A \<union> (\<Union>h\<in>set hs. set (take (hIns h) (drop (hB h) B)))"
    using Cons by auto
  moreover have "set (take (hB h - j) (drop j B)) \<subseteq> set A"
    using Cons.prems by simp (metis in_set_dropD in_set_takeD subsetI)
  moreover have "drop j B = take (hB h - j) (drop j B) @ take (hIns h) (drop (hB h) B) @ drop (hB h + hIns h) B"
    using Cons.prems by (intro drop_three) simp
  then have "set (drop j B) = set (take (hB h - j) (drop j B)) \<union> set (take (hIns h) (drop (hB h) B)) \<union>
      set (drop (hB h + hIns h) B)" by (metis Un_assoc set_append)
  ultimately show ?case by (simp only: list.set UN_insert) blast
qed

lemma fold_removeAll: "fold removeAll xs ys = [y \<leftarrow> ys. y \<notin> set xs]"
  by (induction xs arbitrary: ys) (auto simp: removeAll_filter_not_eq intro: filter_cong)

lemma segment_nth: "a + n \<le> length xs \<Longrightarrow> take n (drop a xs) = map (\<lambda>i. xs ! (a + i)) [0..<n]"
  by (rule nth_equalityI) auto

lemma hunk_removes_ids:
  assumes "hA h + hDel h \<le> length (beforeIds ld)"
  shows "map rm_id (hunk_removes ld sub h) = [x \<leftarrow> take (hDel h) (drop (hA h) (beforeIds ld)). x \<notin> set (afterIdsM ld)]"
proof -
  have "map rm_id (concat (map (\<lambda>i. if f i \<notin> S then [\<lparr>rm_id = f i, rm_subId = sub\<rparr>] else []) ns)) = [x \<leftarrow> map f ns. x \<notin> S]"
    for f :: "nat \<Rightarrow> string" and S ns by (induction ns) auto
  then show ?thesis by (simp add: hunk_removes_def Let_def segment_nth [OF assms])
qed

lemma hunk_adds_ids:
  assumes "hB h + hIns h \<le> length (afterIds ld)"
  shows "map op_id (filter op_isAdd (hunk_positions ld sub h)) =
     [x \<leftarrow> take (hIns h) (drop (hB h) (afterIds ld)). x \<notin> set (beforeIdsM ld)]"
  by (simp add: hunk_positions_def Let_def segment_nth [OF assms] filter_map comp_def)

lemma edit_bounds:
  "edit_from A B fr i j hs \<Longrightarrow> \<forall>h\<in>set hs. hA h + hDel h \<le> length A \<and> hB h + hIns h \<le> length B"
  by (induction hs arbitrary: fr i j) auto

text \<open>What the difference of the windows \<open>A\<close> and \<open>B\<close> adds to the context.\<close>

lemma list_diff_client:
  assumes e: "edit_doc edit (\<lambda>x :: string. x)" and d: "distinct A" "distinct B" and ne: "[] \<notin> set B"
    and A: "beforeIds ld0 = A" "set (beforeIdsM ld0) = set A" and B: "afterIds ld0 = B"
  obtains ps rs was added removed where
    "list_diff edit ctx sub ld0 = (ctx\<lparr>ctx_position := ctx_position ctx @ ps, ctx_remove := ctx_remove ctx @ rs\<rparr>,
       ld0\<lparr>afterIdsM := remdups B\<rparr>, was, added, removed)"
    "\<forall>p\<in>set ps. op_subId p = sub" "\<forall>r\<in>set rs. rm_subId r = sub"
    "fold removeAll (map rm_id rs) (fold place ps A) = B"
    "set added = set B - set A" "set removed = set A - set B"
proof -
  define ld where "ld = ld0\<lparr>afterIdsM := remdups B\<rparr>"
  define hs where "hs = edit (length A) (length B) (\<lambda>i j. A ! i = B ! j)"
  define ps where "ps = concat (map (hunk_positions ld sub) hs)"
  define rs where "rs = concat (map (hunk_removes ld sub) hs)"
  have hs: "edit_from A B True 0 0 hs"
    using e by (simp add: edit_doc_def edit_script_def hs_def MixedInput_Equal_def [abs_def])
  note bounds = edit_bounds [OF hs]
  have ld: "afterIds ld = B" "afterIdsM ld = remdups B" "beforeIds ld = A" "set (beforeIdsM ld) = set A"
    using A B by (simp_all add: ld_def)
  have rs: "set (map rm_id rs) = dset A hs - set B"
  proof -
    have "set (map rm_id rs) = (\<Union>h\<in>set hs. set (map rm_id (hunk_removes ld sub h)))" by (auto simp: rs_def)
    also have "\<dots> = (\<Union>h\<in>set hs. set (take (hDel h) (drop (hA h) A)) - set B)"
      using bounds hunk_removes_ids [of _ ld sub] by (intro SUP_cong refl) (auto simp: ld simp del: set_map)
    finally show ?thesis by (auto simp: dset_def)
  qed
  have removed: "dset A hs - set B = set A - set B"
    using kept_subset [where getID = "\<lambda>y. y" and A = A and B = B and D = "dset A hs", unfolded map_ident, OF hs d(1)]
      edit_from_dset [OF hs] by auto
  have "set (map op_id (filter op_isAdd ps)) = (\<Union>h\<in>set hs. set (map op_id (filter op_isAdd (hunk_positions ld sub h))))"
    by (auto simp: ps_def filter_concat)
  also have "\<dots> = (\<Union>h\<in>set hs. set (take (hIns h) (drop (hB h) B)) - set A)"
    using bounds hunk_adds_ids [of _ ld sub] by (intro SUP_cong refl) (auto simp: ld simp del: set_map)
  also have "\<dots> = set B - set A"
    using edit_inserts [OF hs] by (auto dest: in_set_takeD in_set_dropD)
  finally have added: "set (map op_id (filter op_isAdd ps)) = set B - set A" .
  have "patched (\<lambda>y. y) A (take 0 B) [x \<leftarrow> drop 0 A. x \<notin> dset A hs] (dset A hs)" using d by (simp add: patched_def)
  from hunks_place [OF hs d ne ld(1) _ this, of sub] obtain D where
    D: "patched (\<lambda>y. y) (fold place ps A) B [] D" "dset A hs - set B \<subseteq> D" "D \<subseteq> dset A hs"
    by (auto simp: ps_def)
  have "D \<inter> set B = {}" using patched_disjoint [OF D(1)] by auto
  then have "set (map rm_id rs) = D" using rs D(2,3) by auto
  then have "fold removeAll (map rm_id rs) (fold place ps A) = B"
    using D(1) by (simp add: fold_removeAll patched_def)
  moreover have "list_diff edit ctx sub ld0 = (ctx\<lparr>ctx_position := ctx_position ctx @ ps, ctx_remove := ctx_remove ctx @ rs\<rparr>,
       ld0\<lparr>afterIdsM := remdups B\<rparr>, map op_id (filter op_isAdd ps) \<noteq> [] \<or> map rm_id rs \<noteq> [],
       map op_id (filter op_isAdd ps), map rm_id rs)"
    by (simp add: list_diff_def Let_def A(1) B ps_def rs_def hs_def ld_def)
  moreover have "\<forall>p\<in>set ps. op_subId p = sub" "\<forall>r\<in>set rs. rm_subId r = sub"
    by (auto simp: ps_def rs_def hunk_positions_def hunk_removes_def Let_def split: if_splits)
  ultimately show thesis using that added rs removed by simp
qed

subsection \<open>The client follows the window\<close>

text \<open>The ids of the window in the order of the client, and what the difference remembers of them.\<close>

definition active_ids :: "sortedSub \<Rightarrow> string list" where
  "active_ids s = (let (ks, reverse) = iterateActive s in map fst (if reverse then rev ks else ks))"

definition remembers :: "sortedSub \<Rightarrow> string list \<Rightarrow> bool" where
  "remembers s ids \<longleftrightarrow> beforeIds (ss_diff s) = ids \<and> set (beforeIdsM (ss_diff s)) = set ids \<and>
     afterIds (ss_diff s) = [] \<and> distinct ids"

definition silent :: "string \<Rightarrow> opCtx \<Rightarrow> bool" where
  "silent sub ctx = list_all (\<lambda>ev. ev_SubId ev \<noteq> sub) (ctx_events ctx)"

definition skl_ids_ok :: "sortedSub \<Rightarrow> bool" where
  "skl_ids_ok s \<longleftrightarrow> distinct (map fst (ss_skl s)) \<and> [] \<notin> fst ` set (ss_skl s)"

lemma client_others: "list_all (\<lambda>ev. ev_SubId ev \<noteq> sub) evs \<Longrightarrow> fold (client_event sub) evs xs = xs"
proof (induction evs)
  case (Cons ev evs)
  then show ?case by (cases ev) auto
qed simp

lemma client_removes:
  "\<forall>r\<in>set rs. rm_subId r = sub \<Longrightarrow>
   fold (client_event sub) (map (\<lambda>r. SubscriptionRemove (rm_id r) (rm_subId r)) rs) xs = fold removeAll (map rm_id rs) xs"
  by (induction rs arbitrary: xs) auto

lemma client_counters:
  "fold (client_event sub) (map (\<lambda>c. SubscriptionCounters (oc_total c) (oc_nextCount c) (oc_prevCount c) (oc_subId c)) cs) xs = xs"
  by (induction cs) auto

lemma ctx_events_parts:
  "ctx_events ctx = map pos_event (ctx_position ctx)
     @ map (\<lambda>r. SubscriptionRemove (rm_id r) (rm_subId r)) (ctx_remove ctx)
     @ map (\<lambda>c. SubscriptionCounters (oc_total c) (oc_nextCount c) (oc_prevCount c) (oc_subId c)) (ctx_counters ctx)"
  by (simp add: ctx_events_def pos_event_def)

lemma client_ctx:
  assumes q: "silent sub ctx" and "ctx_position ctx' = ctx_position ctx @ ps" "ctx_remove ctx' = ctx_remove ctx @ rs"
    and "\<forall>p\<in>set ps. op_subId p = sub" "\<forall>r\<in>set rs. rm_subId r = sub"
  shows "client_events sub (ctx_events ctx') xs = fold removeAll (map rm_id rs) (fold place ps xs)"
  using q assms(2-) client_pos_events [of ps sub] client_removes [of rs sub]
  by (simp add: client_events_def ctx_events_parts silent_def client_others client_counters)

lemma fillAfter_fold: "fold (\<lambda>k. fillAfter (fst k)) ks ld = ld\<lparr>afterIds := afterIds ld @ map fst ks\<rparr>"
  by (induction ks arbitrary: ld) (auto simp: fillAfter_def)

text \<open>The window is a part of the container.\<close>

lemma segment_take: "\<exists>a n. take m (take k (drop b xs)) = take n (drop a xs)"
  by (metis take_take)

lemma segment_last: "\<exists>a n. rev (take m (rev (take k xs))) = take n (drop a xs)"
  by (metis rev_take drop_take rev_rev_ident)

lemma active_segment: "\<exists>a n. active_ids s = take n (drop a (map fst (ss_skl s)))"
proof -
  have "\<exists>a n. (if snd (iterateActive s) then rev (fst (iterateActive s)) else fst (iterateActive s)) = take n (drop a (ss_skl s))"
  proof (cases "ss_beforeEl s")
    case None
    obtain b where "(case ss_afterEl s of Some i \<Rightarrow> drop 1 (el_from i (ss_skl s)) | None \<Rightarrow> ss_skl s) = drop b (ss_skl s)"
      using that [of 0] by (cases "ss_afterEl s") (auto simp: el_from_def dropWhile_eq_drop intro: that)
    then have "fst (iterateActive s) = take (if ss_limit s > 0 then nat (ss_limit s) else length (ss_skl s)) (drop b (ss_skl s))"
      using None by (simp add: iterateActive_def limited_def)
    moreover have "\<not> snd (iterateActive s)" using None by (simp add: iterateActive_def)
    ultimately show ?thesis by metis
  next
    case (Some i)
    obtain k where k: "el_before i (ss_skl s) = take k (ss_skl s)" using takeWhile_eq_take by (metis el_before_def)
    show ?thesis
    proof (cases "ss_limit s > 0")
      case True
      then show ?thesis using Some segment_last by (simp add: iterateActive_def limited_def k)
    next
      case False
      then show ?thesis using Some by (simp add: iterateActive_def limited_def k) (metis drop0)
    qed
  qed
  then obtain a n where "(if snd (iterateActive s) then rev (fst (iterateActive s)) else fst (iterateActive s)) = take n (drop a (ss_skl s))"
    by blast
  then show ?thesis by (auto simp: active_ids_def split_def take_map drop_map)
qed

lemma active_ok: "skl_ids_ok s \<Longrightarrow> distinct (active_ids s) \<and> [] \<notin> set (active_ids s)"
proof -
  assume ok: "skl_ids_ok s"
  obtain a n where "active_ids s = take n (drop a (map fst (ss_skl s)))" using active_segment by blast
  moreover have "[] \<notin> set (map fst (ss_skl s))" "distinct (map fst (ss_skl s))" using ok by (auto simp: skl_ids_ok_def)
  ultimately show ?thesis by (metis distinct_drop distinct_take in_set_dropD in_set_takeD)
qed

lemma active_cong [simp]:
  "active_ids (s\<lparr>ss_compCountBefore := x\<rparr>) = active_ids s" "active_ids (s\<lparr>ss_diff := y\<rparr>) = active_ids s"
  by (simp_all add: active_ids_def iterateActive_def split: option.split)

lemma ctx_events_entries [simp]:
  "ctx_events (ctx\<lparr>ctx_entries := es\<rparr>) = ctx_events ctx" "ctx_events (ctx\<lparr>ctx_change := cs\<rparr>) = ctx_events ctx"
  by (simp_all add: ctx_events_def)

lemma depEntries_events:
  "ctx_events (depEntriesByEntries query c ids ctx) = ctx_events ctx"
  "ctx_events (mark_active s ids ctx) = ctx_events ctx"
proof -
  have "ctx_events (fst (fold (dep_step c) ids (ctx, ms))) = ctx_events ctx" for ctx ms
  proof (induction ids arbitrary: ctx ms)
    case (Cons i ids)
    then show ?case
      by (cases "ctx_getEntry ctx i"; cases "map_of c i") (simp_all add: dep_step_def)
  qed simp
  then show "ctx_events (depEntriesByEntries query c ids ctx) = ctx_events ctx"
    by (simp add: depEntriesByEntries_def split_def Let_def)
  show "ctx_events (mark_active s ids ctx) = ctx_events ctx" by (simp add: mark_active_def)
qed

lemma onSklChange_client:
  assumes e: "edit_doc edit (\<lambda>x :: string. x)" and old: "remembers s old" and ok: "skl_ids_ok s"
    and q: "silent (ss_id s) ctx" and run: "onSklChange edit query c ctx s = (ctx', s', c')"
  shows "client_events (ss_id s) (ctx_events ctx') old = active_ids s'"
    and "remembers s' (active_ids s')" and "active_ids s' = active_ids s"
    and "\<exists>x y. s' = s\<lparr>ss_compCountBefore := x, ss_diff := y\<rparr>"
    and "\<exists>ctx2 added removed. ctx_entries ctx2 = ctx_entries ctx \<and> set added \<subseteq> set (active_ids s) \<and> set removed \<subseteq> set old \<and>
      ctx_entries ctx' = map (\<lambda>e. if e_id e \<in> set (active_ids s) then SetSub (ss_id s) True False e else e)
        (ctx_entries (depEntriesByEntries query c added ctx2)) \<and> c' = mark_removed (ss_id s) removed c"
proof -
  obtain ks reverse where ks: "iterateActive s = (ks, reverse)" by (cases "iterateActive s")
  define ld where "ld = (let ld = fold (\<lambda>k. fillAfter (fst k)) ks (ss_diff s) in if reverse then reverse_after ld else ld)"
  have ld: "beforeIds ld = old" "set (beforeIdsM ld) = set old" "afterIds ld = active_ids s"
    using old by (simp_all add: ld_def fillAfter_fold reverse_after_def remembers_def active_ids_def ks rev_map Let_def)
  define cs where "cs = (if count_now s \<noteq> ss_compCountBefore s then [count_now s] else [])"
  define ctx1 where "ctx1 = ctx\<lparr>ctx_counters := ctx_counters ctx @ cs\<rparr>"
  have d: "distinct old" using old by (simp add: remembers_def)
  note a = active_ok [OF ok]
  obtain ps rs was added removed where
    l: "list_diff edit ctx1 (ss_id s) ld = (ctx1\<lparr>ctx_position := ctx_position ctx1 @ ps, ctx_remove := ctx_remove ctx1 @ rs\<rparr>,
       ld\<lparr>afterIdsM := remdups (active_ids s)\<rparr>, was, added, removed)"
    and r: "\<forall>p\<in>set ps. op_subId p = ss_id s" "\<forall>r\<in>set rs. rm_subId r = ss_id s"
    "fold removeAll (map rm_id rs) (fold place ps old) = active_ids s"
    "set added = set (active_ids s) - set old" "set removed = set old - set (active_ids s)"
    using list_diff_client [OF e d conjunct1 [OF a] conjunct2 [OF a] ld, of ctx1 "ss_id s" thesis] by metis
  let ?ctx2 = "ctx1\<lparr>ctx_position := ctx_position ctx1 @ ps, ctx_remove := ctx_remove ctx1 @ rs\<rparr>"
  have ctx': "ctx_events ctx' = ctx_events ?ctx2" and c': "c' = mark_removed (ss_id s) removed c"
    and es: "ctx_entries ctx' = map (\<lambda>e. if e_id e \<in> set (active_ids s) then SetSub (ss_id s) True False e else e)
        (ctx_entries (depEntriesByEntries query c added ?ctx2))"
    and s': "\<exists>x. s' = s\<lparr>ss_compCountBefore := x, ss_diff := reset_diff (ld\<lparr>afterIdsM := remdups (active_ids s)\<rparr>)\<rparr>"
    using run l unfolding onSklChange_def ks cs_def ctx1_def
    by (auto simp: Let_def ld_def [unfolded Let_def, symmetric] depEntries_events mark_active_def split: if_splits
        intro: exI [of _ "ss_compCountBefore s"])
  have "client_events (ss_id s) (ctx_events ?ctx2) old = fold removeAll (map rm_id rs) (fold place ps old)"
    by (rule client_ctx [OF q _ _ r(1,2)]) (simp_all add: ctx1_def)
  moreover show "active_ids s' = active_ids s" using s' by auto
  ultimately show "client_events (ss_id s) (ctx_events ctx') old = active_ids s'" using ctx' r(3) by simp
  show "remembers s' (active_ids s')" using s' a ld by (auto simp: remembers_def reset_diff_def)
  show "\<exists>x y. s' = s\<lparr>ss_compCountBefore := x, ss_diff := y\<rparr>" using s' by blast
  show "\<exists>ctx2 added removed. ctx_entries ctx2 = ctx_entries ctx \<and> set added \<subseteq> set (active_ids s) \<and> set removed \<subseteq> set old \<and>
      ctx_entries ctx' = map (\<lambda>e. if e_id e \<in> set (active_ids s) then SetSub (ss_id s) True False e else e)
        (ctx_entries (depEntriesByEntries query c added ctx2)) \<and> c' = mark_removed (ss_id s) removed c"
    using es c' r(4,5) by (intro exI [of _ ?ctx2] exI [of _ added] exI [of _ removed] conjI) (auto simp: ctx1_def)
qed

subsection \<open>A batch of changed objects\<close>

text \<open>
  What the code relies on of the skip list: as long as its keys are in order, \<open>Set\<close> puts a new key
  at its place and \<open>Remove\<close> takes out a key that is there. \<open>ok\<close> says on which keys the order
  is one.
\<close>

definition in_order :: "('k \<Rightarrow> 'k \<Rightarrow> int) \<Rightarrow> 'k list \<Rightarrow> bool" where
  "in_order c xs = sorted_wrt (\<lambda>a b. c a b < 0) xs"

definition skl_doc :: "(key \<Rightarrow> bool) \<Rightarrow> (key \<Rightarrow> key \<Rightarrow> int) \<Rightarrow> skl_op \<Rightarrow> skl_op \<Rightarrow> bool" where
  "skl_doc ok c sset sremove \<longleftrightarrow> (\<forall>k xs. ok k \<and> list_all ok xs \<and> in_order c xs \<longrightarrow>
     ((\<forall>x\<in>set xs. c x k \<noteq> 0) \<longrightarrow> in_order c (sset k xs) \<and> set (sset k xs) = insert k (set xs)) \<and>
     (k \<in> set xs \<longrightarrow> in_order c (sremove k xs) \<and> set (sremove k xs) = set xs - {k}))"

text \<open>The abstract state is the details of every object; the specification of the container is the set of the
  objects that the filter accepts.\<close>

type_synonym objects = "string \<Rightarrow> gmap option"

definition matching :: "Env \<Rightarrow> sortedSub \<Rightarrow> objects \<Rightarrow> key set" where
  "matching env s objs = {(i, d). objs i = Some d \<and> in_filter env s d}"

definition objects_ok :: "(key \<Rightarrow> bool) \<Rightarrow> objects \<Rightarrow> bool" where
  "objects_ok ok objs \<longleftrightarrow> (\<forall>i d. objs i = Some d \<longrightarrow> ok (i, d) \<and> i \<noteq> [])"

definition update_objects :: "entry list \<Rightarrow> objects \<Rightarrow> objects" where
  "update_objects es objs = fold (\<lambda>e m. m(e_id e \<mapsto> e_data e)) es objs"

text \<open>What the cache says about the subscription: the entry of an object is in it exactly when the
  object matches, and then holds its details.\<close>

definition entry_follows :: "Env \<Rightarrow> sortedSub \<Rightarrow> objects \<Rightarrow> string \<Rightarrow> entry option \<Rightarrow> bool" where
  "entry_follows env s objs i e \<longleftrightarrow> (IsInSub e (ss_id s) \<longleftrightarrow> i \<in> fst ` matching env s objs) \<and>
     (case e of None \<Rightarrow> True | Some x \<Rightarrow> e_id x = i \<and> (IsInSub e (ss_id s) \<longrightarrow> objs i = Some (e_data x)))"

definition skl_follows :: "Env \<Rightarrow> (gmap \<Rightarrow> gmap \<Rightarrow> int) option \<Rightarrow> sortedSub \<Rightarrow> objects \<Rightarrow> bool" where
  "skl_follows env ord s objs \<longleftrightarrow> ss_started s \<and> in_order (sub_Compare ord) (ss_skl s) \<and> set (ss_skl s) = matching env s objs"

definition follows :: "Env \<Rightarrow> (gmap \<Rightarrow> gmap \<Rightarrow> int) option \<Rightarrow> cache \<Rightarrow> sortedSub \<Rightarrow> objects \<Rightarrow> bool" where
  "follows env ord c s objs \<longleftrightarrow> skl_follows env ord s objs \<and> (\<forall>i. entry_follows env s objs i (map_of c i))"

lemma sub_Compare_zero: "sub_Compare ord x y = 0 \<longleftrightarrow> fst x = fst y"
  by (simp add: sub_Compare_def Let_def)

lemma in_order_ids: "in_order (sub_Compare ord) xs \<Longrightarrow> distinct (map fst xs)"
  by (induction xs) (auto simp: in_order_def sub_Compare_def)

lemma SetSub_keeps [simp]:
  "e_id (SetSub sub a b e) = e_id e" "e_data (SetSub sub a b e) = e_data e"
  "sub \<in> set (e_subIds (SetSub sub a b e))"
  "sub \<in> set (e_subIds e) \<Longrightarrow> e_subIds (SetSub sub a b e) = e_subIds e"
  by (auto simp: SetSub_def Let_def)

lemma RemoveSubId_keeps [simp]:
  "e_id (RemoveSubId sub e) = e_id e" "e_data (RemoveSubId sub e) = e_data e" "sub \<notin> set (e_subIds (RemoveSubId sub e))"
  by (auto simp: RemoveSubId_def RemoveMut_def)

lemma in_filter_skl [simp]: "in_filter env (s\<lparr>ss_skl := x\<rparr>) = in_filter env s" "matching env (s\<lparr>ss_skl := x\<rparr>) = matching env s"
  by (simp_all add: in_filter_def matching_def fun_eq_iff)

lemma matching_update:
  "matching env s (objs(i \<mapsto> d)) = {k \<in> matching env s objs. fst k \<noteq> i} \<union> (if in_filter env s d then {(i, d)} else {})"
  by (auto simp: matching_def split: if_splits)

lemma objects_ok_matching: "objects_ok ok objs \<Longrightarrow> set xs = matching env s objs \<Longrightarrow> list_all ok xs"
  by (auto simp: objects_ok_def matching_def list_all_iff)

definition fresh_entry :: "(key \<Rightarrow> bool) \<Rightarrow> cache \<Rightarrow> sortedSub \<Rightarrow> entry \<Rightarrow> bool" where
  "fresh_entry ok c s e \<longleftrightarrow> ok (e_key e) \<and> e_id e \<noteq> [] \<and> \<not> anchored s (e_id e) \<and>
     (ss_id s \<in> set (e_subIds e) \<longrightarrow> IsInSub (map_of c (e_id e)) (ss_id s))"

lemma skl_setD:
  "skl_doc ok c sset sremove \<Longrightarrow> ok k \<Longrightarrow> list_all ok xs \<Longrightarrow> in_order c xs \<Longrightarrow> \<forall>x\<in>set xs. c x k \<noteq> 0 \<Longrightarrow>
   in_order c (sset k xs) \<and> set (sset k xs) = insert k (set xs)"
  unfolding skl_doc_def by blast

lemma skl_removeD:
  "skl_doc ok c sset sremove \<Longrightarrow> ok k \<Longrightarrow> list_all ok xs \<Longrightarrow> in_order c xs \<Longrightarrow> k \<in> set xs \<Longrightarrow>
   in_order c (sremove k xs) \<and> set (sremove k xs) = set xs - {k}"
  unfolding skl_doc_def by blast

lemma onEntryChange_step:
  assumes doc: "skl_doc ok (sub_Compare ord) sset sremove" and skl: "skl_follows env ord s objs" "objects_ok ok objs"
    and e: "entry_follows env s objs (e_id e) (map_of c (e_id e))" "fresh_entry ok c s e"
  obtains skl' e' ch where "onEntryChange env sset sremove c s e = Some (s\<lparr>ss_skl := skl'\<rparr>, e', ch)"
    "skl_follows env ord (s\<lparr>ss_skl := skl'\<rparr>) (objs(e_id e \<mapsto> e_data e))" "e_key e' = e_key e"
    "ss_id s \<in> set (e_subIds e') \<longleftrightarrow> in_filter env s (e_data e)" "\<not> ch \<Longrightarrow> skl' = ss_skl s"
proof -
  let ?in = "IsInSub (map_of c (e_id e)) (ss_id s)" and ?new = "in_filter env s (e_data e)" and ?c = "sub_Compare ord"
  let ?k = "e_key e" and ?rest = "{k \<in> matching env s objs. fst k \<noteq> e_id e}"
  have st: "ss_started s" "in_order ?c (ss_skl s)" "set (ss_skl s) = matching env s objs"
    using skl(1) by (auto simp: skl_follows_def)
  have ok: "list_all ok xs" if "set xs \<subseteq> matching env s objs" for xs
    using objects_ok_matching [OF skl(2) st(3)] st(3) that by (auto simp: list_all_iff)
  have k: "ok ?k" "fst ?k = e_id e" "snd ?k = e_data e" using e(2) by (simp_all add: fresh_entry_def e_key_def)
  have put: "in_order ?c (sset ?k xs) \<and> set (sset ?k xs) = insert ?k ?rest" if "in_order ?c xs" "set xs = ?rest" for xs
  proof -
    have "\<forall>x\<in>set xs. ?c x ?k \<noteq> 0" using that(2) by (auto simp: sub_Compare_zero k)
    moreover have "list_all ok xs" using that(2) by (intro ok) auto
    ultimately show ?thesis using skl_setD [OF doc k(1), of xs] that by simp
  qed
  have goal: "skl_follows env ord (s\<lparr>ss_skl := xs\<rparr>) (objs(e_id e \<mapsto> e_data e))"
    if "in_order ?c xs" "set xs = (if ?new then insert ?k ?rest else ?rest)" for xs
    using that st(1) by (auto simp: skl_follows_def matching_update e_key_def)
  show thesis
  proof (cases ?in)
    case True
    then obtain cur where cur: "map_of c (e_id e) = Some cur" by (cases "map_of c (e_id e)") (auto simp: IsInSub_def)
    have key: "e_id cur = e_id e" "objs (e_id e) = Some (e_data cur)" using e(1) True by (auto simp: entry_follows_def cur)
    then have "ok (e_key cur)" using skl(2) by (auto simp: objects_ok_def e_key_def)
    moreover have "e_key cur \<in> matching env s objs" "matching env s objs - {e_key cur} = ?rest"
      using e(1) True key by (auto simp: entry_follows_def matching_def e_key_def)
    ultimately have rm: "in_order ?c (sremove (e_key cur) (ss_skl s))" "set (sremove (e_key cur) (ss_skl s)) = ?rest"
      using skl_removeD [OF doc, of "e_key cur" "ss_skl s"] st(2,3) ok [of "ss_skl s"] by simp_all
    have na: "\<not> anchored s (e_id cur)" using e(2) key(1) by (simp add: fresh_entry_def)
    show thesis
    proof (cases ?new)
      case False
      have "onEntryChange env sset sremove c s e =
          Some (s\<lparr>ss_skl := sremove (e_key cur) (ss_skl s)\<rparr>, RemoveSubId (ss_id s) e, True)"
        using False na st(1) cur True by (simp add: onEntryChange_def)
      then show thesis by (rule that [OF _ goal]) (use False rm in \<open>simp_all add: e_key_def\<close>)
    next
      case new: True
      have "onEntryChange env sset sremove c s e =
          Some (s\<lparr>ss_skl := sset ?k (sremove (e_key cur) (ss_skl s))\<rparr>, SetSub (ss_id s) False False e, True)"
        using new na st(1) cur True by (simp add: onEntryChange_def)
      then show thesis by (rule that [OF _ goal]) (use new put [OF rm] in \<open>simp_all add: e_key_def\<close>)
    qed
  next
    case False
    then have rest: "?rest = matching env s objs" using e(1) by (force simp: entry_follows_def)
    have run: "onEntryChange env sset sremove c s e = Some (if ?new
        then (s\<lparr>ss_skl := sset ?k (ss_skl s)\<rparr>, SetSub (ss_id s) False False e, True) else (s, e, False))"
      using False st(1) by (cases "map_of c (e_id e)") (simp_all add: onEntryChange_def)
    show thesis
    proof (cases ?new)
      case True
      with run have "onEntryChange env sset sremove c s e =
          Some (s\<lparr>ss_skl := sset ?k (ss_skl s)\<rparr>, SetSub (ss_id s) False False e, True)" by simp
      then show thesis by (rule that [OF _ goal]) (use True put [OF st(2)] st(3) rest in \<open>simp_all add: e_key_def\<close>)
    next
      case new: False
      then have "onEntryChange env sset sremove c s e = Some (s\<lparr>ss_skl := ss_skl s\<rparr>, e, False)" using run by simp
      moreover have "ss_id s \<notin> set (e_subIds e)" using e(2) False by (auto simp: fresh_entry_def)
      ultimately show thesis by (intro that [OF _ goal]) (use new st rest in simp_all)
    qed
  qed
qed

lemma entry_follows_skl [simp]: "entry_follows env (s\<lparr>ss_skl := x\<rparr>) objs i e = entry_follows env s objs i e"
  by (cases e) (simp_all add: entry_follows_def)

lemma fresh_entry_skl [simp]: "fresh_entry ok c (s\<lparr>ss_skl := x\<rparr>) e = fresh_entry ok c s e"
  by (simp add: fresh_entry_def anchored_def)

lemma entry_follows_other: "i \<noteq> j \<Longrightarrow> entry_follows env s (objs(j \<mapsto> d)) i e = entry_follows env s objs i e"
  by (cases e) (auto simp: entry_follows_def matching_def)

lemma update_objects_other: "i \<notin> e_id ` set es \<Longrightarrow> update_objects es objs i = objs i"
  by (induction es arbitrary: objs) (auto simp: update_objects_def)

lemma update_objects_batch:
  "distinct (map e_id es) \<Longrightarrow> e \<in> set es \<Longrightarrow> update_objects es objs (e_id e) = Some (e_data e)"
proof (induction es arbitrary: objs)
  case (Cons x es)
  then show ?case using update_objects_other [of "e_id x" es] by (auto simp: update_objects_def)
qed simp

lemma objects_ok_update:
  "objects_ok ok objs \<Longrightarrow> ok (e_key e) \<Longrightarrow> e_id e \<noteq> [] \<Longrightarrow> objects_ok ok (objs(e_id e \<mapsto> e_data e))"
  by (auto simp: objects_ok_def e_key_def)

lemma change_entries_follow:
  assumes doc: "skl_doc ok (sub_Compare ord) sset sremove"
    and "skl_follows env ord s objs" "objects_ok ok objs" "distinct (map e_id es)"
    and "\<forall>e\<in>set es. entry_follows env s objs (e_id e) (map_of c (e_id e)) \<and> fresh_entry ok c s e"
  shows "\<exists>skl' es' ch. change_entries env sset sremove c es s = Some (s\<lparr>ss_skl := skl'\<rparr>, es', ch) \<and>
    skl_follows env ord (s\<lparr>ss_skl := skl'\<rparr>) (update_objects es objs) \<and> objects_ok ok (update_objects es objs) \<and>
    map e_key es' = map e_key es \<and> (\<forall>e\<in>set es'. ss_id s \<in> set (e_subIds e) \<longleftrightarrow> in_filter env s (e_data e)) \<and>
    (\<not> ch \<longrightarrow> skl' = ss_skl s)"
  using assms
proof (induction es arbitrary: s objs)
  case Nil
  then show ?case
    by (intro exI [of _ "ss_skl s"] exI [of _ "[]"] exI [of _ False]) (simp add: update_objects_def)
next
  case (Cons e es)
  define objs1 where "objs1 = objs(e_id e \<mapsto> e_data e)"
  obtain skl1 e' ch1 where one: "onEntryChange env sset sremove c s e = Some (s\<lparr>ss_skl := skl1\<rparr>, e', ch1)"
    "skl_follows env ord (s\<lparr>ss_skl := skl1\<rparr>) objs1" "e_key e' = e_key e"
    "ss_id s \<in> set (e_subIds e') \<longleftrightarrow> in_filter env s (e_data e)" "\<not> ch1 \<Longrightarrow> skl1 = ss_skl s"
    using onEntryChange_step [OF doc Cons.prems(2,3)] Cons.prems(5) unfolding objs1_def by (metis list.set_intros(1))
  have ok: "objects_ok ok objs1"
    using objects_ok_update [OF Cons.prems(3)] Cons.prems(5) by (simp add: fresh_entry_def objs1_def)
  have rest: "\<forall>x\<in>set es. entry_follows env (s\<lparr>ss_skl := skl1\<rparr>) objs1 (e_id x) (map_of c (e_id x)) \<and>
      fresh_entry ok c (s\<lparr>ss_skl := skl1\<rparr>) x"
  proof
    fix x assume x: "x \<in> set es"
    then have "e_id x \<noteq> e_id e" using Cons.prems(4) by (auto simp: rev_image_eqI)
    then show "entry_follows env (s\<lparr>ss_skl := skl1\<rparr>) objs1 (e_id x) (map_of c (e_id x)) \<and>
      fresh_entry ok c (s\<lparr>ss_skl := skl1\<rparr>) x"
      using Cons.prems(5) x by (simp add: entry_follows_other objs1_def)
  qed
  have upd: "update_objects (e # es) objs = update_objects es objs1" by (simp add: update_objects_def objs1_def)
  have "distinct (map e_id es)" using Cons.prems(4) by simp
  from Cons.IH [OF doc one(2) ok this rest]
  have "\<exists>skl' es' ch. change_entries env sset sremove c es (s\<lparr>ss_skl := skl1\<rparr>) = Some (s\<lparr>ss_skl := skl'\<rparr>, es', ch) \<and>
    skl_follows env ord (s\<lparr>ss_skl := skl'\<rparr>) (update_objects es objs1) \<and> objects_ok ok (update_objects es objs1) \<and>
    map e_key es' = map e_key es \<and> (\<forall>e\<in>set es'. ss_id s \<in> set (e_subIds e) \<longleftrightarrow> in_filter env s (e_data e)) \<and>
    (\<not> ch \<longrightarrow> skl' = skl1)" by simp
  then obtain skl' es' ch where
    two: "change_entries env sset sremove c es (s\<lparr>ss_skl := skl1\<rparr>) = Some (s\<lparr>ss_skl := skl'\<rparr>, es', ch)"
    "skl_follows env ord (s\<lparr>ss_skl := skl'\<rparr>) (update_objects es objs1)" "objects_ok ok (update_objects es objs1)"
    "map e_key es' = map e_key es" "\<forall>e\<in>set es'. ss_id s \<in> set (e_subIds e) \<longleftrightarrow> in_filter env s (e_data e)"
    "\<not> ch \<Longrightarrow> skl' = skl1" by blast
  have "e_data e' = e_data e" using one(3) by (simp add: e_key_def)
  then show ?case using one two upd
    by (intro exI [of _ skl'] exI [of _ "e' # es'"] exI [of _ "ch1 \<or> ch"]) simp
qed

lemma apply_cache_follows:
  assumes "\<forall>i. i \<notin> e_id ` set fs \<longrightarrow> entry_follows env s objs i (map_of c i)"
    and "\<forall>f\<in>set fs. entry_follows env s objs (e_id f) (Some f)"
  shows "entry_follows env s objs i (map_of (apply_cache fs c) i)"
  using assms
proof (induction fs arbitrary: c)
  case (Cons f fs)
  let ?c = "if length (e_subIds f) > 0 then put (e_id f) f c else del (e_id f) c"
  have "entry_follows env s objs i (map_of ?c i)" if "i \<notin> e_id ` set fs" for i
  proof (cases "i = e_id f")
    case True
    have "e_subIds f = [] \<Longrightarrow> entry_follows env s objs (e_id f) None"
      using Cons.prems(2) by (auto simp: entry_follows_def IsInSub_def)
    with True Cons.prems(2) show ?thesis by simp
  next
    case False
    with that Cons.prems(1) show ?thesis by simp
  qed
  with Cons show ?case by (simp add: apply_cache_def)
qed (simp add: apply_cache_def)

lemma dep_fold:
  assumes "\<forall>i\<in>set ids. i \<in> e_id ` set (ctx_entries ctx) \<or> map_of c i \<noteq> None"
  shows "\<exists>cs ctx'. fold (dep_step c) ids (ctx, []) = (ctx', []) \<and> ctx_entries ctx' = ctx_entries ctx @ cs \<and>
     (\<forall>x\<in>set cs. \<exists>i\<in>set ids. map_of c i = Some x \<and> i \<notin> e_id ` set (ctx_entries ctx))"
  using assms
proof (induction ids arbitrary: ctx)
  case (Cons i ids)
  show ?case
  proof (cases "ctx_getEntry ctx i")
    case (Some e)
    then have "fold (dep_step c) (i # ids) (ctx, []) = fold (dep_step c) ids (ctx, [])" by (simp add: dep_step_def)
    with Cons.IH [of ctx] Cons.prems show ?thesis by fastforce
  next
    case None
    then have i: "i \<notin> e_id ` set (ctx_entries ctx)" by (auto simp: ctx_getEntry_def find_None_iff)
    with Cons.prems obtain e where e: "map_of c i = Some e" by auto
    let ?ctx = "ctx\<lparr>ctx_entries := ctx_entries ctx @ [e]\<rparr>"
    have run: "fold (dep_step c) (i # ids) (ctx, []) = fold (dep_step c) ids (?ctx, [])"
      using None e by (simp add: dep_step_def)
    have "\<forall>j\<in>set ids. j \<in> e_id ` set (ctx_entries ?ctx) \<or> map_of c j \<noteq> None" using Cons.prems by auto
    from Cons.IH [OF this] obtain cs ctx' where "fold (dep_step c) ids (?ctx, []) = (ctx', [])"
      "ctx_entries ctx' = ctx_entries ctx @ e # cs"
      "\<forall>x\<in>set cs. \<exists>j\<in>set ids. map_of c j = Some x \<and> j \<notin> e_id ` set (ctx_entries ?ctx)" by auto
    then show ?thesis using run e i by (intro exI [of _ "e # cs"] exI [of _ ctx']) auto
  qed
qed simp

lemma depEntries_copies:
  assumes "\<forall>i\<in>set ids. i \<in> e_id ` set (ctx_entries ctx) \<or> map_of c i \<noteq> None"
  obtains cs where "ctx_entries (depEntriesByEntries query c ids ctx) = ctx_entries ctx @ cs"
    "\<forall>x\<in>set cs. \<exists>i\<in>set ids. map_of c i = Some x \<and> i \<notin> e_id ` set (ctx_entries ctx)"
proof -
  obtain cs ctx' where "fold (dep_step c) ids (ctx, []) = (ctx', [])" "ctx_entries ctx' = ctx_entries ctx @ cs"
     "\<forall>x\<in>set cs. \<exists>i\<in>set ids. map_of c i = Some x \<and> i \<notin> e_id ` set (ctx_entries ctx)"
    using dep_fold [OF assms] by blast
  then show thesis using that [of "if ids = [] then [] else cs"] by (simp add: depEntriesByEntries_def)
qed

lemma entry_follows_mark:
  "entry_follows env s objs i (Some x) \<Longrightarrow> i \<in> fst ` matching env s objs \<Longrightarrow>
   entry_follows env s objs i (Some (SetSub (ss_id s) a b x))"
  by (auto simp: entry_follows_def IsInSub_def)

lemma mark_removed_follows:
  assumes "\<forall>i. i \<notin> X \<longrightarrow> entry_follows env s objs i (map_of c i)" "\<forall>i\<in>set removed. i \<notin> X \<longrightarrow> i \<in> fst ` matching env s objs"
  shows "\<forall>i. i \<notin> X \<longrightarrow> entry_follows env s objs i (map_of (mark_removed (ss_id s) removed c) i)"
  using assms
proof (induction removed arbitrary: c)
  case (Cons r removed)
  let ?c = "case map_of c r of Some e \<Rightarrow> put r (SetSub (ss_id s) False False e) c | None \<Rightarrow> c"
  have "entry_follows env s objs i (map_of ?c i)" if "i \<notin> X" for i
  proof (cases "map_of c r")
    case (Some e)
    have "entry_follows env s objs i (map_of c i)" using Cons.prems(1) that by blast
    moreover have "i = r \<Longrightarrow> i \<in> fst ` matching env s objs" using Cons.prems(2) that by simp
    ultimately show ?thesis using Some by (cases "i = r") (auto intro: entry_follows_mark)
  qed (use Cons.prems(1) that in simp)
  with Cons show ?case by (simp add: mark_removed_def)
qed (simp add: mark_removed_def)

lemma matching_ids: "i \<in> fst ` matching env s objs \<longleftrightarrow> (\<exists>d. objs i = Some d \<and> in_filter env s d)"
  by (force simp: matching_def)

lemma follows_ids: "skl_follows env ord s objs \<Longrightarrow> objects_ok ok objs \<Longrightarrow> skl_ids_ok s"
  using in_order_ids [of ord "ss_skl s"] by (auto simp: skl_follows_def skl_ids_ok_def matching_ids objects_ok_def)

lemma active_matching:
  assumes "skl_follows env ord s objs"
  shows "set (active_ids s) \<subseteq> fst ` matching env s objs"
proof -
  obtain a n where "active_ids s = take n (drop a (map fst (ss_skl s)))" using active_segment by blast
  then have "set (active_ids s) \<subseteq> set (map fst (ss_skl s))" by (metis in_set_dropD in_set_takeD subsetI)
  then show ?thesis using assms by (simp add: skl_follows_def)
qed

text \<open>The entries of the batch after the loop, and the cached entries of all other objects.\<close>

lemma batch_entry_follows:
  assumes d: "distinct (map e_id es)" and k: "map e_key es' = map e_key es" and e': "e' \<in> set es'"
    and s: "ss_id s \<in> set (e_subIds e') \<longleftrightarrow> in_filter env s (e_data e')"
  shows "entry_follows env s (update_objects es objs) (e_id e') (Some e')"
proof -
  have "e_key e' \<in> set (map e_key es)" using e' k by (metis image_eqI set_map)
  then obtain e where "e \<in> set es" "e_id e = e_id e'" "e_data e = e_data e'" by (auto simp: e_key_def)
  then have "update_objects es objs (e_id e') = Some (e_data e')" using update_objects_batch [OF d] by metis
  then show ?thesis using s by (simp add: entry_follows_def IsInSub_def matching_ids)
qed

lemma other_entry_follows:
  assumes "entry_follows env s objs i (map_of c i)" "i \<notin> e_id ` set es"
  shows "entry_follows env s (update_objects es objs) i (map_of c i)"
proof -
  have "i \<in> fst ` matching env s (update_objects es objs) \<longleftrightarrow> i \<in> fst ` matching env s objs"
    by (simp add: matching_ids update_objects_other [OF assms(2)])
  then show ?thesis using assms update_objects_other [OF assms(2), of objs]
    by (cases "map_of c i") (simp_all add: entry_follows_def)
qed

lemma onSklChange_cache:
  assumes keys: "map e_id es' = map e_id es" and skl: "skl_follows env ord s (update_objects es objs)"
    and batch: "\<forall>e\<in>set es'. entry_follows env s (update_objects es objs) (e_id e) (Some e)"
    and old: "\<forall>i. entry_follows env s objs i (map_of c i)" "set removed \<subseteq> fst ` matching env s objs"
    and ctx: "ctx_entries ctx = es'" "set added \<subseteq> set (active_ids s)"
    and fs: "fs = map (\<lambda>e. if e_id e \<in> set (active_ids s) then SetSub (ss_id s) True False e else e)
        (ctx_entries (depEntriesByEntries query c added ctx))"
  shows "entry_follows env s (update_objects es objs) i (map_of (apply_cache fs (mark_removed (ss_id s) removed c)) i)"
proof (rule apply_cache_follows)
  let ?objs = "update_objects es objs"
  have ids: "e_id ` set es' = e_id ` set es" using keys by (metis set_map)
  have cached: "entry_follows env s ?objs i (map_of c i)" if "i \<notin> e_id ` set es" for i
    using other_entry_follows old(1) that by blast
  have "i \<in> e_id ` set es' \<or> map_of c i \<noteq> None" if "i \<in> set added" for i
  proof -
    have "i \<in> fst ` matching env s ?objs" using that ctx(2) active_matching [OF skl] by blast
    then show ?thesis using cached [of i] ids by (auto simp: entry_follows_def IsInSub_def)
  qed
  then obtain cs where cs: "ctx_entries (depEntriesByEntries query c added ctx) = es' @ cs"
    "\<forall>x\<in>set cs. \<exists>i\<in>set added. map_of c i = Some x \<and> i \<notin> e_id ` set es'"
    using depEntries_copies [of added ctx c query thesis] ctx(1) by auto
  have all: "entry_follows env s ?objs (e_id e) (Some e)" if "e \<in> set (es' @ cs)" for e
  proof (cases "e \<in> set es'")
    case False
    with that cs(2) obtain i where i: "map_of c i = Some e" "i \<notin> e_id ` set es" using ids by auto
    from cached [OF i(2)] i(1) show ?thesis by (auto simp: entry_follows_def)
  qed (use batch in blast)
  let ?mark = "\<lambda>e. if e_id e \<in> set (active_ids s) then SetSub (ss_id s) True False e else e"
  have mark: "entry_follows env s ?objs (e_id (?mark e)) (Some (?mark e))" if "e \<in> set (es' @ cs)" for e
  proof (cases "e_id e \<in> set (active_ids s)")
    case True
    then have "e_id e \<in> fst ` matching env s ?objs" using active_matching [OF skl] by blast
    from entry_follows_mark [OF all [OF that] this] True show ?thesis by simp
  qed (use all [OF that] in simp)
  have fs': "fs = map ?mark (es' @ cs)" by (simp only: fs cs(1))
  then show "\<forall>f\<in>set fs. entry_follows env s ?objs (e_id f) (Some f)" using mark by (simp only: set_map) blast
  have "e_id ` set fs = e_id ` set (es' @ cs)" unfolding fs' set_map image_image by (rule image_cong) simp_all
  then have "e_id ` set es \<subseteq> e_id ` set fs" using ids by auto
  moreover have "\<forall>i. i \<notin> e_id ` set es \<longrightarrow> entry_follows env s ?objs i (map_of (mark_removed (ss_id s) removed c) i)"
    using cached subsetD [OF old(2)] by (intro mark_removed_follows) (simp_all add: matching_ids update_objects_other)
  ultimately show "\<forall>i. i \<notin> e_id ` set fs \<longrightarrow> entry_follows env s ?objs i (map_of (mark_removed (ss_id s) removed c) i)"
    by blast
qed

lemma in_filter_updates [simp]:
  "in_filter env (s\<lparr>ss_compCountBefore := x, ss_diff := y\<rparr>) = in_filter env s"
  by (simp add: in_filter_def fun_eq_iff)

lemma follows_updates [simp]:
  "matching env (s\<lparr>ss_compCountBefore := x, ss_diff := y\<rparr>) objs = matching env s objs"
  "skl_follows env ord (s\<lparr>ss_compCountBefore := x, ss_diff := y\<rparr>) objs = skl_follows env ord s objs"
  "entry_follows env (s\<lparr>ss_compCountBefore := x, ss_diff := y\<rparr>) objs i e = entry_follows env s objs i e"
  by (simp_all add: matching_def skl_follows_def entry_follows_def split: option.split)

text \<open>C11: a batch of changed objects runs through a subscription whose container, cache and client agree
  with the objects: \<open>onChange\<close> leaves the container sorted with exactly the objects that match the filter
  now, the cache in agreement with it, and messages that turn the client's window into the new one.\<close>

theorem sub_onChange_follows:
  assumes edit: "edit_doc edit (\<lambda>x :: string. x)" and doc: "skl_doc ok (sub_Compare ord) sset sremove"
    and f: "follows env ord c s objs" and ok: "objects_ok ok objs" and w: "remembers s (active_ids s)"
    and q: "silent (ss_id s) ctx" and d: "distinct (map e_id (ctx_entries ctx))"
    and fresh: "list_all (fresh_entry ok c s) (ctx_entries ctx)"
  shows "\<exists>ctx' s' c'. sub_onChange env sset sremove edit query c ctx s = Some (ctx', s', c') \<and>
     follows env ord (apply_cache (ctx_entries ctx') c') s' (update_objects (ctx_entries ctx) objs) \<and>
     client_events (ss_id s) (ctx_events ctx') (active_ids s) = active_ids s' \<and> remembers s' (active_ids s')"
proof -
  let ?es = "ctx_entries ctx"
  let ?objs = "update_objects ?es objs"
  have f1: "skl_follows env ord s objs" and f2: "\<forall>i. entry_follows env s objs i (map_of c i)" using f by (simp_all add: follows_def)
  have "\<forall>e\<in>set ?es. entry_follows env s objs (e_id e) (map_of c (e_id e)) \<and> fresh_entry ok c s e"
    using f2 fresh by (simp add: list_all_iff)
  from change_entries_follow [OF doc f1 ok d this] obtain skl' es' ch where
    run: "change_entries env sset sremove c ?es s = Some (s\<lparr>ss_skl := skl'\<rparr>, es', ch)"
    and skl: "skl_follows env ord (s\<lparr>ss_skl := skl'\<rparr>) ?objs" "objects_ok ok ?objs"
    and es': "map e_key es' = map e_key ?es" "\<forall>e\<in>set es'. ss_id s \<in> set (e_subIds e) \<longleftrightarrow> in_filter env s (e_data e)"
    and same: "\<not> ch \<longrightarrow> skl' = ss_skl s" by blast
  let ?s = "s\<lparr>ss_skl := skl'\<rparr>" and ?ctx = "ctx\<lparr>ctx_entries := es'\<rparr>"
  have batch: "\<forall>e\<in>set es'. entry_follows env s ?objs (e_id e) (Some e)"
    using batch_entry_follows [OF d es'(1)] es'(2) by blast
  have ids: "map e_id es' = map e_id ?es" using arg_cong [OF es'(1), of "map fst"] by (simp add: e_key_def comp_def)
  have st: "ss_started ?s" using skl(1) by (simp add: skl_follows_def)
  have q': "silent (ss_id ?s) ?ctx" using q by (simp add: silent_def)
  show ?thesis
  proof (cases ch)
    case False
    then have s: "?s = s" using same by simp
    have "entry_follows env s ?objs i (map_of (apply_cache es' c) i)" for i
      using batch f2 other_entry_follows ids by (intro apply_cache_follows) (metis set_map)+
    then have "follows env ord (apply_cache es' c) s ?objs" using skl(1) s by (simp add: follows_def)
    moreover have "sub_onChange env sset sremove edit query c ctx s = Some (?ctx, s, c)"
      using run False s by (simp add: sub_onChange_def)
    moreover have "client_events (ss_id s) (ctx_events ctx) (active_ids s) = active_ids s"
      using q client_others by (simp add: silent_def client_events_def)
    ultimately show ?thesis using w by auto
  next
    case True
    obtain ctx' s' c' where o: "onSklChange edit query c ?ctx ?s = (ctx', s', c')" by (metis prod_cases3)
    have "remembers ?s (active_ids s)" using w by (simp add: remembers_def)
    note client = onSklChange_client [OF edit this follows_ids [OF skl] q' o]
    obtain x y where s': "s' = ?s\<lparr>ss_compCountBefore := x, ss_diff := y\<rparr>" using client(4) by blast
    obtain ctx2 added removed where ctx2: "ctx_entries ctx2 = ctx_entries ?ctx" "set added \<subseteq> set (active_ids ?s)"
      "set removed \<subseteq> set (active_ids s)" "c' = mark_removed (ss_id ?s) removed c"
      "ctx_entries ctx' = map (\<lambda>e. if e_id e \<in> set (active_ids ?s) then SetSub (ss_id ?s) True False e else e)
        (ctx_entries (depEntriesByEntries query c added ctx2))" using client(5) by blast
    have "entry_follows env ?s ?objs i (map_of (apply_cache (ctx_entries ctx') c') i)" for i
      unfolding ctx2(4)
      using onSklChange_cache [OF ids skl(1) _ _ _ _ ctx2(2,5)] batch f2 ctx2(1,3) active_matching [OF f1] by simp
    then have "follows env ord (apply_cache (ctx_entries ctx') c') s' ?objs" using skl(1) by (simp add: follows_def s')
    moreover have "sub_onChange env sset sremove edit query c ctx s = Some (ctx', s', c')"
      using run True st o by (simp add: sub_onChange_def)
    ultimately show ?thesis using client(1,2) by auto
  qed
qed

subsection \<open>Sorted lists as the container\<close>

text \<open>Insertion into a sorted list keeps the promises of the container for every proper order.\<close>

definition list_set :: "(key \<Rightarrow> key \<Rightarrow> int) \<Rightarrow> skl_op" where
  "list_set c k xs = takeWhile (\<lambda>x. c x k < 0) xs @ k # dropWhile (\<lambda>x. c x k < 0) xs"

definition list_remove :: "skl_op" where
  "list_remove k xs = filter (\<lambda>x. x \<noteq> k) xs"

definition tie_by_id :: "(gmap \<Rightarrow> gmap \<Rightarrow> int) \<Rightarrow> key \<Rightarrow> key \<Rightarrow> int" where
  "tie_by_id f x y = (if f (snd x) (snd y) \<noteq> 0 then f (snd x) (snd y) else cmp (fst x) (fst y))"

lemma sub_Compare_ties: "fst x \<noteq> fst y \<Longrightarrow> sub_Compare (Some f) x y = tie_by_id f x y"
  by (auto simp: sub_Compare_def tie_by_id_def cmp_def Let_def)

lemma tie_by_id_comparison:
  assumes "comparison ok f"
  shows "comparison (\<lambda>k. ok (snd k)) (tie_by_id f)"
proof -
  have "comparison (\<lambda>k. ok (snd k)) (\<lambda>x y. f (snd x) (snd y))" by (rule comparison.on_images [OF assms])
  moreover have "comparison (\<lambda>k. ok (snd k)) (\<lambda>x y. cmp (fst x) (fst y))"
    by (rule comparison.on_images [OF cmp_comparison [of "\<lambda>_. True"]]) simp
  ultimately show ?thesis unfolding tie_by_id_def [abs_def] by (rule comparison.then_by)
qed

lemma list_set_order:
  assumes f: "comparison ok f" and k: "ok (snd k)" "list_all (\<lambda>x. ok (snd x)) xs"
    and s: "in_order (sub_Compare (Some f)) xs" and new: "\<forall>x\<in>set xs. sub_Compare (Some f) x k \<noteq> 0"
  shows "in_order (sub_Compare (Some f)) (list_set (sub_Compare (Some f)) k xs)"
  using s k new
proof (induction xs)
  case Nil
  then show ?case by (simp add: in_order_def list_set_def)
next
  case (Cons x xs)
  let ?c = "sub_Compare (Some f)"
  have lt: "\<forall>y\<in>set xs. ?c x y < 0" "in_order ?c xs" using Cons.prems by (simp_all add: in_order_def)
  have ids: "fst x \<noteq> fst k" "\<forall>y\<in>set xs. fst y \<noteq> fst k \<and> fst y \<noteq> fst x"
    using Cons.prems(4) lt(1) by (simp_all add: sub_Compare_zero) (metis less_irrefl sub_Compare_zero)
  show ?case
  proof (cases "?c x k < 0")
    case True
    have "list_set ?c k (x # xs) = x # list_set ?c k xs" using True by (simp add: list_set_def)
    moreover have "set (list_set ?c k xs) \<subseteq> insert k (set xs)"
      by (auto simp: list_set_def dest: set_takeWhileD set_dropWhileD)
    ultimately show ?thesis using Cons True lt by (auto simp: in_order_def)
  next
    case False
    note cf = tie_by_id_comparison [OF f]
    have "tie_by_id f x k > 0" using False Cons.prems(4) ids(1) by (simp add: sub_Compare_ties)
    then have kx: "tie_by_id f k x < 0" using comparison.swap [OF cf, of x k] Cons.prems(2,3) by simp
    have "tie_by_id f k y < 0" if "y \<in> set xs" for y
    proof -
      have o: "ok (snd k)" "ok (snd x)" "ok (snd y)" using Cons.prems(2,3) that by (auto simp: list_all_iff)
      have "tie_by_id f x y \<le> 0" using lt(1) ids(2) that sub_Compare_ties [of x y f] by fastforce
      then show ?thesis
        using comparison.le_trans [OF cf o] comparison.eq_between [OF cf o] kx by fastforce
    qed
    then have "\<forall>y\<in>set (x # xs). ?c k y < 0" using kx ids sub_Compare_ties [of k _ f] by fastforce
    moreover have "list_set ?c k (x # xs) = k # x # xs" using False by (simp add: list_set_def)
    ultimately show ?thesis using Cons.prems(1) by (auto simp: in_order_def)
  qed
qed

lemma list_container_doc:
  assumes "comparison ok f"
  shows "skl_doc (\<lambda>k. ok (snd k)) (sub_Compare (Some f)) (list_set (sub_Compare (Some f))) list_remove"
proof -
  have "set (list_set c k xs) = insert k (set xs)" for c k xs
    unfolding list_set_def by (metis Un_insert_right list.simps(15) set_append takeWhile_dropWhile_id)
  moreover have "in_order c xs \<Longrightarrow> in_order c (list_remove k xs)" for c k xs
    by (simp add: in_order_def list_remove_def sorted_wrt_filter)
  ultimately show ?thesis using list_set_order [OF assms]
    by (auto simp: skl_doc_def list_remove_def)
qed

subsection \<open>Counters\<close>

text \<open>Elements that the window starts from are in the container, and there is at most one.\<close>

definition anchors_ok :: "sortedSub \<Rightarrow> bool" where
  "anchors_ok s \<longleftrightarrow> (ss_afterEl s = None \<or> ss_beforeEl s = None) \<and>
     (\<forall>i. anchored s i \<longrightarrow> i \<in> fst ` set (ss_skl s))"

lemma el_split: "skl = el_before i skl @ el_from i skl"
  by (simp add: el_before_def el_from_def)

lemma el_from_Cons: "i \<in> fst ` set skl \<Longrightarrow> \<exists>k ks. el_from i skl = k # ks"
  by (induction skl) (auto simp: el_from_def)

lemma limited_split: "xs = limited l xs @ drop (length (limited l xs)) xs"
  by (simp add: limited_def min_def)

lemma limited_rest:
  "int (length (drop (length (limited l xs)) xs)) = (if l > 0 then (if int (length xs) - l < 0 then 0 else int (length xs) - l) else 0)"
  by (auto simp: limited_def min_def nat_le_iff split: if_splits)

lemma window_split:
  assumes "anchors_ok s"
  shows "\<exists>bs as. map fst (ss_skl s) = bs @ active_ids s @ as \<and> sub_counters s = (int (length bs), int (length as))"
proof (cases "ss_beforeEl s")
  case (Some i)
  then have a: "ss_afterEl s = None" "i \<in> fst ` set (ss_skl s)" using assms by (auto simp: anchors_ok_def anchored_def)
  let ?b = "rev (el_before i (ss_skl s))"
  let ?w = "limited (ss_limit s) ?b"
  have "el_before i (ss_skl s) = rev (drop (length ?w) ?b) @ rev ?w"
    using limited_split [of ?b "ss_limit s"] by (metis rev_append rev_rev_ident)
  then have "map fst (ss_skl s) = map fst (rev (drop (length ?w) ?b)) @ active_ids s @ map fst (el_from i (ss_skl s))"
    using el_split [of "ss_skl s" i] Some by (simp add: active_ids_def iterateActive_def) (metis append_assoc map_append)
  moreover have "sub_counters s = (int (length (drop (length ?w) ?b)), int (length (el_from i (ss_skl s))))"
    using Some a by (simp add: sub_counters_def limited_rest del: length_drop)
  ultimately show ?thesis by (intro exI conjI) auto
next
  case None
  define rest where "rest = (case ss_afterEl s of Some i \<Rightarrow> drop 1 (el_from i (ss_skl s)) | None \<Rightarrow> ss_skl s)"
  define bs where "bs = (case ss_afterEl s of Some i \<Rightarrow> el_before i (ss_skl s) @ take 1 (el_from i (ss_skl s)) | None \<Rightarrow> [])"
  let ?w = "limited (ss_limit s) rest"
  have skl: "ss_skl s = bs @ rest"
    using el_split [of "ss_skl s"] by (auto simp: rest_def bs_def split: option.split)
  moreover have "active_ids s = map fst ?w" using None by (simp add: active_ids_def iterateActive_def rest_def)
  ultimately have "map fst (ss_skl s) = map fst bs @ active_ids s @ map fst (drop (length ?w) rest)"
    using limited_split [of rest "ss_limit s"] by (metis map_append)
  moreover have "sub_counters s = (int (length bs), int (length (drop (length ?w) rest)))"
  proof (cases "ss_afterEl s")
    case None
    with \<open>ss_beforeEl s = None\<close> show ?thesis
      unfolding limited_rest by (simp add: sub_counters_def rest_def bs_def)
  next
    case (Some i)
    then obtain k ks where "el_from i (ss_skl s) = k # ks"
      using assms el_from_Cons [of i "ss_skl s"] by (force simp: anchors_ok_def anchored_def)
    with Some \<open>ss_beforeEl s = None\<close> show ?thesis
      unfolding limited_rest by (simp add: sub_counters_def rest_def bs_def)
  qed
  ultimately show ?thesis by (intro exI conjI) auto
qed

text \<open>C39: the counters of a subscription count the records before and after its window: the container
  is the records before, the window and the records after, whatever the limit and the element it starts from.\<close>

theorem sub_counters_window:
  assumes "anchors_ok s"
  shows "\<exists>bs as. map fst (ss_skl s) = bs @ active_ids s @ as \<and> count_now s =
     \<lparr>oc_subId = ss_id s, oc_total = int (length (ss_skl s)), oc_prevCount = int (length bs), oc_nextCount = int (length as)\<rparr>"
proof -
  obtain bs as where "map fst (ss_skl s) = bs @ active_ids s @ as" "sub_counters s = (int (length bs), int (length as))"
    using window_split [OF assms] by blast
  then show ?thesis by (intro exI [of _ bs] exI [of _ as]) (simp add: count_now_def)
qed

text \<open>The response to a subscribe request carries the two counters exchanged: the field for the
  records available after the window holds the number of those before it, and the other way round
  (the messages of later changes carry them as documented).\<close>

lemma response_counters_exchanged:
  assumes "anchors_ok s"
  shows "\<exists>bs as. map fst (ss_skl s) = bs @ active_ids s @ as \<and>
     ev_NextCount (SubscribeResponse_Counters s) = int (length bs) \<and>
     ev_PrevCount (SubscribeResponse_Counters s) = int (length as)"
proof -
  obtain bs as where "map fst (ss_skl s) = bs @ active_ids s @ as" "sub_counters s = (int (length bs), int (length as))"
    using window_split [OF assms] by blast
  then show ?thesis by (intro exI [of _ bs] exI [of _ as]) (simp add: SubscribeResponse_Counters_def)
qed

subsection \<open>Batches\<close>

text \<open>Of several records of one object in a batch the last one counts, and the entries are new.\<close>

definition live :: "entry option list \<Rightarrow> entry list" where
  "live es = List.map_filter (\<lambda>e. e) es"

lemma live_simps [simp]:
  "live [] = []" "live (None # es) = live es" "live (Some e # es) = e # live es" "live (xs @ ys) = live xs @ live ys"
  by (simp_all add: live_def List.map_filter_def)

lemma live_nilIfExists:
  "distinct (map e_id (live es)) \<Longrightarrow> live (nilIfExists i es) = [e \<leftarrow> live es. e_id e \<noteq> i]"
proof (induction es)
  case (Cons e es)
  show ?case
  proof (cases e)
    case (Some x)
    show ?thesis
    proof (cases "e_id x = i")
      case True
      then have "\<forall>y\<in>set (live es). e_id y \<noteq> i" using Cons.prems Some by (auto simp: rev_image_eqI)
      then show ?thesis using True Some by (simp add: filter_True)
    qed (use Cons Some in simp)
  qed (use Cons in simp)
qed simp

lemma update_objects_map: "update_objects es objs = objs ++ map_of (rev (map e_key es))"
  by (induction es arbitrary: objs) (simp_all add: update_objects_def e_key_def)

lemma keys_without: "rev (map e_key [e \<leftarrow> es. e_id e \<noteq> i]) = del i (rev (map e_key es))"
  by (simp add: del_def e_key_def filter_map comp_def flip: rev_filter)

lemma batch_entries_last:
  "distinct (map e_id (batch_entries rs))" "\<forall>e\<in>set (batch_entries rs). e_subIds e = []"
  "update_objects (batch_entries rs) objs = objs ++ map_of (rev rs)"
proof -
  define run where "run = (\<lambda>rs. live (fold (\<lambda>(i, d) es. nilIfExists i es @ [Some (newEntry i d)]) rs []))"
  have b: "batch_entries rs = run rs" by (simp add: batch_entries_def run_def live_def)
  have "distinct (map e_id (run rs)) \<and> (\<forall>e\<in>set (run rs). e_subIds e = []) \<and> map_of (rev (map e_key (run rs))) = map_of (rev rs)"
  proof (induction rs rule: rev_induct)
    case (snoc r rs)
    obtain i d where r: "r = (i, d)" by (cases r)
    from snoc have run: "run (rs @ [r]) = [e \<leftarrow> run rs. e_id e \<noteq> i] @ [newEntry i d]"
      by (simp add: run_def r live_nilIfExists)
    have "rev (map e_key (run (rs @ [r]))) = (i, d) # del i (rev (map e_key (run rs)))"
      using keys_without [of i "run rs"] by (simp add: run e_key_def newEntry_def)
    then have "map_of (rev (map e_key (run (rs @ [r])))) = map_of (rev (rs @ [r]))"
      using snoc by (simp add: r)
    moreover have "distinct (map e_id (run (rs @ [r])))" using snoc by (auto simp: run newEntry_def distinct_map_filter)
    ultimately show ?case using snoc by (simp add: run newEntry_def)
  qed (simp add: run_def)
  then show "distinct (map e_id (batch_entries rs))" "\<forall>e\<in>set (batch_entries rs). e_subIds e = []"
    "update_objects (batch_entries rs) objs = objs ++ map_of (rev rs)" by (simp_all add: b update_objects_map)
qed

subsection \<open>An example\<close>

text \<open>Objects with a name, in the order of their names, at most two of them: the batch takes the name of one
  away and brings a new object.\<close>

definition named :: "string \<Rightarrow> gmap" where
  "named n = Some [(''name'', VString n)]"

definition by_name :: "gmap \<Rightarrow> gmap \<Rightarrow> int" where
  "by_name a b = cmp (GetString a ''name'') (GetString b ''name'')"

definition cached :: "string \<Rightarrow> string \<Rightarrow> string \<times> entry" where
  "cached i n = (i, SetSub ''sub'' True True (newEntry i (named n)))"

definition sample_sub :: sortedSub where
  "sample_sub = \<lparr>ss_id = ''sub'', ss_started = True, ss_entriesBeforeStarted = [], ss_keys = [''name''],
     ss_filter = Some (FilterExists ''name''), ss_afterId = [], ss_beforeId = [], ss_limit = 2, ss_offset = 0,
     ss_skl = [(''a'', named ''m''), (''b'', named ''n''), (''d'', named ''o'')], ss_afterEl = None, ss_beforeEl = None,
     ss_diff = newListDiff [''a'', ''b''],
     ss_compCountBefore = \<lparr>oc_subId = ''sub'', oc_total = 3, oc_prevCount = 0, oc_nextCount = 1\<rparr>\<rparr>"

definition sample_cache :: cache where
  "sample_cache = [cached ''a'' ''m'', cached ''b'' ''n'', cached ''d'' ''o'']"

definition sample_objects :: objects where
  "sample_objects = [''a'' \<mapsto> named ''m'', ''b'' \<mapsto> named ''n'', ''d'' \<mapsto> named ''o'']"

definition sample_ctx :: opCtx where
  "sample_ctx = ctx_reset\<lparr>ctx_entries := batch_entries [(''c'', None), (''a'', Some []), (''c'', named ''k'')]\<rparr>"

lemma sample_ctx_entries: "ctx_entries sample_ctx = [newEntry ''a'' (Some []), newEntry ''c'' (named ''k'')]"
  by (simp add: sample_ctx_def batch_entries_def List.map_filter_def newEntry_def)

lemma by_name_comparison: "comparison (\<lambda>_. True) by_name"
  unfolding by_name_def [abs_def] by (rule comparison.on_images [OF cmp_comparison [of "\<lambda>_. True"]]) simp

lemma sample_active: "active_ids sample_sub = [''a'', ''b'']"
  by (simp add: active_ids_def iterateActive_def sample_sub_def limited_def)

lemma sample_follows: "follows sample_env (Some by_name) sample_cache sample_sub sample_objects"
proof -
  have "in_order (sub_Compare (Some by_name)) (ss_skl sample_sub)" by code_simp
  moreover have "set (ss_skl sample_sub) = matching sample_env sample_sub sample_objects"
    by (auto simp: matching_def sample_sub_def sample_objects_def in_filter_def named_def Has_def split: if_splits)
  moreover have "entry_follows sample_env sample_sub sample_objects i (map_of sample_cache i)" for i
    by (auto simp: entry_follows_def matching_ids sample_cache_def sample_objects_def cached_def newEntry_def SetSub_def
        IsInSub_def sample_sub_def in_filter_def named_def Has_def split: if_splits)
  ultimately show ?thesis by (simp add: follows_def skl_follows_def) (simp add: sample_sub_def)
qed

theorem sub_onChange_follows_witness:
  "\<exists>ctx' s' c'. sub_onChange sample_env (list_set (sub_Compare (Some by_name))) list_remove whole_hunk (\<lambda>_. [])
      sample_cache sample_ctx sample_sub = Some (ctx', s', c') \<and>
     follows sample_env (Some by_name) (apply_cache (ctx_entries ctx') c') s'
       (sample_objects(''a'' \<mapsto> Some [], ''c'' \<mapsto> named ''k'')) \<and>
     client_events ''sub'' (ctx_events ctx') [''a'', ''b''] = active_ids s' \<and> remembers s' (active_ids s')"
proof -
  have "objects_ok (\<lambda>k. True) sample_objects" by (auto simp: objects_ok_def sample_objects_def split: if_splits)
  moreover have "remembers sample_sub (active_ids sample_sub)"
    unfolding sample_active by (simp add: remembers_def sample_sub_def newListDiff_def)
  moreover have "silent (ss_id sample_sub) sample_ctx" by code_simp
  moreover have "distinct (map e_id (ctx_entries sample_ctx))" by (simp add: sample_ctx_entries newEntry_def)
  moreover have "list_all (fresh_entry (\<lambda>k. True) sample_cache sample_sub) (ctx_entries sample_ctx)"
    by (simp add: sample_ctx_entries fresh_entry_def newEntry_def anchored_def) (simp add: sample_sub_def)
  moreover have "update_objects (ctx_entries sample_ctx) sample_objects = sample_objects(''a'' \<mapsto> Some [], ''c'' \<mapsto> named ''k'')"
    by (simp add: sample_ctx_entries update_objects_def newEntry_def)
  moreover have "ss_id sample_sub = ''sub''" by (simp add: sample_sub_def)
  ultimately show ?thesis
    using sub_onChange_follows [OF whole_hunk_doc list_container_doc [OF by_name_comparison] sample_follows,
        of sample_ctx "\<lambda>_. []"] by (simp add: sample_active)
qed

lemma sub_onChange_example:
  "map_option (\<lambda>(ctx', s', c'). (ctx_events ctx', active_ids s'))
     (sub_onChange sample_env (list_set (sub_Compare (Some by_name))) list_remove whole_hunk (\<lambda>_. [])
       sample_cache sample_ctx sample_sub) =
   Some ([SubscriptionAdd ''c'' [] ''sub'', SubscriptionPosition ''b'' ''c'' ''sub'', SubscriptionRemove ''a'' ''sub''],
     [''c'', ''b''])"
  by code_simp

theorem sub_counters_window_witness:
  "\<exists>bs as. map fst (ss_skl sample_sub) = bs @ [''a'', ''b''] @ as \<and> count_now sample_sub =
     \<lparr>oc_subId = ''sub'', oc_total = 3, oc_prevCount = int (length bs), oc_nextCount = int (length as)\<rparr>"
proof -
  have "anchors_ok sample_sub" by (simp add: anchors_ok_def anchored_def sample_sub_def)
  from sub_counters_window [OF this] show ?thesis unfolding sample_active by (simp add: sample_sub_def)
qed

lemma response_counters_exchanged_example:
  "\<exists>bs as. map fst (ss_skl sample_sub) = bs @ [''a'', ''b''] @ as \<and>
     ev_NextCount (SubscribeResponse_Counters sample_sub) = int (length bs) \<and>
     ev_PrevCount (SubscribeResponse_Counters sample_sub) = int (length as)"
proof -
  have "anchors_ok sample_sub" by (simp add: anchors_ok_def anchored_def sample_sub_def)
  from response_counters_exchanged [OF this] show ?thesis unfolding sample_active .
qed

lemma response_counters_example:
  "SubscribeResponse_Counters sample_sub = SubscriptionCounters 3 0 1 []" "oc_nextCount (count_now sample_sub) = 1"
  by code_simp+

end
