(* ===== verification/ModeMachine.thy ===== *)
theory ModeMachine
  imports Prelude
begin

section \<open>The mode machine of a space (space/internal/spaceprocess/mode/statemachine.go)\<close>

text \<open>
  A space runs one process at a time (initial, loading, offloading or joining). Clients ask for
  another mode with \<open>ChangeMode\<close> from any goroutine and wait for the answer; a single goroutine,
  \<open>loop\<close>, closes the current process, starts the next one and answers everybody who waits.

  The machine is an interleaving of atomic steps: the critical sections of \<open>ChangeMode\<close> and of the
  loop, the send to one waiter, and the cancellation. A process is its mode and a serial number; what
  a process does and whether it starts is left open. Goroutines that called \<open>ChangeMode\<close> have a
  number; their requests and results are recorded beside the machine.
\<close>

subsection \<open>The machine\<close>

datatype Mode = ModeUnknown | ModeInitial | ModeLoading | ModeOffloading | ModeJoining

record Process =
  p_mode :: Mode
  p_serial :: nat

text \<open>All four kinds of processes accept every transition.\<close>

definition CanTransition :: "Process \<Rightarrow> Mode \<Rightarrow> bool" where
  "CanTransition p next_mode = True"

datatype change_result =
    Returned Process
  | ErrInvalidTransition
  | ErrTransitionInProcess
  | ErrFailedToStart

text \<open>Where the loop is: in its select, between taking a notification and the critical section that
  ends the transition, answering waiters, or returned.\<close>

datatype loop_state =
    Selecting
  | Changing Process Mode
  | Answering "nat list" "Process option"
  | Stopped

record StateMachine =
  sm_current :: Process
  sm_mode :: Mode
  sm_next :: Mode
  sm_waiters :: "nat list"
  sm_notify :: bool
  sm_cancelled :: bool
  sm_loop :: loop_state
  sm_serial :: nat
  sm_requests :: "nat \<Rightarrow> Mode option"
  sm_results :: "nat \<Rightarrow> change_result option"

definition NewStateMachine :: StateMachine where
  "NewStateMachine =
     \<lparr>sm_current = \<lparr>p_mode = ModeInitial, p_serial = 0\<rparr>, sm_mode = ModeInitial, sm_next = ModeUnknown, sm_waiters = [],
      sm_notify = False, sm_cancelled = False, sm_loop = Selecting, sm_serial = 1,
      sm_requests = Map.empty, sm_results = Map.empty\<rparr>"

text \<open>The send to the channel of capacity one that gives up when it is full.\<close>

definition notifyChange :: "StateMachine \<Rightarrow> StateMachine" where
  "notifyChange s = s\<lparr>sm_notify := True\<rparr>"

text \<open>The critical section of \<open>ChangeMode\<close>: a result, or \<^term>\<open>None\<close> when the caller has to wait.\<close>

definition ChangeMode :: "nat \<Rightarrow> Mode \<Rightarrow> StateMachine \<Rightarrow> StateMachine \<times> change_result option" where
  "ChangeMode c next_mode s =
     (if sm_mode s = next_mode then (s, Some (Returned (sm_current s)))
      else if sm_next s \<noteq> next_mode \<and> sm_next s \<noteq> ModeUnknown then (s, Some ErrTransitionInProcess)
      else if \<not> CanTransition (sm_current s) next_mode then (s, Some ErrInvalidTransition)
      else (let s = (if sm_next s = ModeUnknown then notifyChange s else s)
            in (s\<lparr>sm_next := next_mode, sm_waiters := sm_waiters s @ [c]\<rparr>, None)))"

definition call :: "nat \<Rightarrow> Mode \<Rightarrow> StateMachine \<Rightarrow> StateMachine" where
  "call c next_mode s =
     (let (s', r) = ChangeMode c next_mode s
      in s'\<lparr>sm_requests := (sm_requests s)(c \<mapsto> next_mode), sm_results := (sm_results s)(c := r)\<rparr>)"

text \<open>The loop takes a notification and remembers what it found.\<close>

definition take_notify :: "StateMachine \<Rightarrow> StateMachine" where
  "take_notify s = s\<lparr>sm_notify := False, sm_loop := Changing (sm_current s) (sm_next s)\<rparr>"

text \<open>The critical sections after the next process was started, or failed to start.\<close>

definition end_started :: "Mode \<Rightarrow> StateMachine \<Rightarrow> StateMachine" where
  "end_started nxt s =
     (let cur = \<lparr>p_mode = nxt, p_serial = sm_serial s\<rparr>
      in s\<lparr>sm_mode := sm_next s, sm_next := ModeUnknown, sm_current := cur, sm_waiters := [],
           sm_loop := Answering (sm_waiters s) (Some cur), sm_serial := sm_serial s + 1\<rparr>)"

definition end_failed :: "StateMachine \<Rightarrow> StateMachine" where
  "end_failed s =
     s\<lparr>sm_next := ModeUnknown, sm_mode := ModeInitial,
       sm_current := \<lparr>p_mode = ModeInitial, p_serial = sm_serial s + 1\<rparr>, sm_waiters := [],
       sm_loop := Answering (sm_waiters s) None, sm_serial := sm_serial s + 2\<rparr>"

text \<open>A waiter receives the process, or nil, for which \<open>ChangeMode\<close> returns an error.\<close>

definition answer :: "nat \<Rightarrow> Process option \<Rightarrow> StateMachine \<Rightarrow> StateMachine" where
  "answer c r s = s\<lparr>sm_results := (sm_results s)(c \<mapsto> (case r of Some p \<Rightarrow> Returned p | None \<Rightarrow> ErrFailedToStart))\<rparr>"

inductive loop_step :: "StateMachine \<Rightarrow> StateMachine \<Rightarrow> bool" where
  woken: "sm_loop s = Selecting \<Longrightarrow> sm_notify s \<Longrightarrow> loop_step s (take_notify s)"
| started: "sm_loop s = Changing cur nxt \<Longrightarrow> loop_step s (end_started nxt s)"
| failed: "sm_loop s = Changing cur nxt \<Longrightarrow> loop_step s (end_failed s)"
| send: "sm_loop s = Answering (c # ws) r \<Longrightarrow> loop_step s ((answer c r s)\<lparr>sm_loop := Answering ws r\<rparr>)"
| answered: "sm_loop s = Answering [] r \<Longrightarrow> loop_step s (s\<lparr>sm_loop := Selecting\<rparr>)"

text \<open>Clients ask for a proper mode, each caller once; \<open>Close\<close> cancels the context.\<close>

inductive client_step :: "StateMachine \<Rightarrow> StateMachine \<Rightarrow> bool" where
  change: "sm_requests s c = None \<Longrightarrow> m \<noteq> ModeUnknown \<Longrightarrow> client_step s (call c m s)"
| cancel: "client_step s (s\<lparr>sm_cancelled := True\<rparr>)"

inductive step :: "StateMachine \<Rightarrow> StateMachine \<Rightarrow> bool" where
  loop: "loop_step s t \<Longrightarrow> step s t"
| client: "client_step s t \<Longrightarrow> step s t"
| stop: "sm_loop s = Selecting \<Longrightarrow> sm_cancelled s \<Longrightarrow> step s (s\<lparr>sm_loop := Stopped\<rparr>)"

definition reachable :: "StateMachine \<Rightarrow> bool" where
  "reachable s \<longleftrightarrow> step\<^sup>*\<^sup>* NewStateMachine s"

inductive_cases loop_stepE: "loop_step s t"
inductive_cases client_stepE: "client_step s t"
inductive_cases stepE: "step s t"

subsection \<open>The invariant\<close>

definition to_answer :: "StateMachine \<Rightarrow> nat list" where
  "to_answer s = (case sm_loop s of Answering ws _ \<Rightarrow> ws | _ \<Rightarrow> [])"

definition pending :: "StateMachine \<Rightarrow> nat \<Rightarrow> bool" where
  "pending s c \<longleftrightarrow> sm_requests s c \<noteq> None \<and> sm_results s c = None"

text \<open>
  The current process belongs to the mode; whenever the loop can reach its select with a request
  waiting, there is a notification; while it changes the mode, the request cannot be changed; the
  callers without a result are exactly those in the two lists, and each list holds callers of one mode.
\<close>

definition machine_inv :: "StateMachine \<Rightarrow> bool" where
  "machine_inv s \<longleftrightarrow>
     p_mode (sm_current s) = sm_mode s \<and> sm_mode s \<noteq> ModeUnknown \<and> sm_next s \<noteq> sm_mode s \<and>
     (sm_waiters s \<noteq> [] \<longleftrightarrow> sm_next s \<noteq> ModeUnknown) \<and>
     (case sm_loop s of
        Changing cur nxt \<Rightarrow> nxt = sm_next s \<and> nxt \<noteq> ModeUnknown \<and> \<not> sm_notify s
      | _ \<Rightarrow> sm_notify s \<longleftrightarrow> sm_next s \<noteq> ModeUnknown) \<and>
     distinct (sm_waiters s @ to_answer s) \<and>
     (\<forall>c. pending s c \<longleftrightarrow> c \<in> set (sm_waiters s @ to_answer s)) \<and>
     (\<forall>c\<in>set (sm_waiters s). sm_requests s c = Some (sm_next s)) \<and>
     (case sm_loop s of Answering ws (Some p) \<Rightarrow> \<forall>c\<in>set ws. sm_requests s c = Some (p_mode p) | _ \<Rightarrow> True) \<and>
     (\<forall>c p. sm_results s c = Some (Returned p) \<longrightarrow> sm_requests s c = Some (p_mode p))"

lemma machine_inv_new: "machine_inv NewStateMachine"
  by (auto simp: machine_inv_def NewStateMachine_def to_answer_def pending_def)

lemmas machine_defs = machine_inv_def to_answer_def pending_def

lemma machine_inv_call:
  assumes "machine_inv s" "sm_requests s c = None" "m \<noteq> ModeUnknown"
  shows "machine_inv (call c m s)"
proof -
  have fresh: "c \<notin> set (sm_waiters s @ to_answer s)" "\<And>p. sm_results s c \<noteq> Some (Returned p)"
    using assms(1,2) by (auto simp: machine_inv_def pending_def)
  show ?thesis
  proof (cases "sm_mode s \<noteq> m \<and> (sm_next s = m \<or> sm_next s = ModeUnknown)")
    case False
    then show ?thesis using assms fresh
      by (cases "sm_loop s")
        (auto simp: machine_defs call_def ChangeMode_def CanTransition_def split: option.splits)
  next
    case True
    then show ?thesis using assms fresh
      by (cases "sm_loop s")
        (auto simp: machine_defs call_def ChangeMode_def CanTransition_def notifyChange_def Let_def split: option.splits)
  qed
qed

lemma machine_inv_cancel: "machine_inv s \<Longrightarrow> machine_inv (s\<lparr>sm_cancelled := True\<rparr>)"
  by (cases "sm_loop s") (auto simp: machine_defs)

lemma machine_inv_step: "step s t \<Longrightarrow> machine_inv s \<Longrightarrow> machine_inv t"
proof (induction rule: step.induct)
  case (loop s t)
  then show ?case
    by (cases rule: loop_step.cases)
      (auto simp: machine_defs take_notify_def end_started_def end_failed_def answer_def Let_def split: option.splits)
next
  case (client s t)
  then show ?case
    by (cases rule: client_step.cases) (auto simp: machine_inv_call machine_inv_cancel)
qed (auto simp: machine_defs)

lemma reachable_inv: "reachable s \<Longrightarrow> machine_inv s"
  unfolding reachable_def by (induction rule: rtranclp_induct) (auto simp: machine_inv_new machine_inv_step)

subsection \<open>Every caller is answered\<close>

text \<open>How many steps of the loop a waiting caller can still need.\<close>

definition place :: "nat \<Rightarrow> nat list \<Rightarrow> nat" where
  "place c ws = length (takeWhile (\<lambda>w. w \<noteq> c) ws)"

definition rank :: "StateMachine \<Rightarrow> nat \<Rightarrow> nat" where
  "rank s c =
     (case sm_loop s of
        Changing _ _ \<Rightarrow> place c (sm_waiters s) + 2
      | Answering ws _ \<Rightarrow> (if c \<in> set ws then place c ws + 1 else length ws + 1 + (place c (sm_waiters s) + 3))
      | _ \<Rightarrow> place c (sm_waiters s) + 3)"

lemma place_append: "c \<in> set ws \<Longrightarrow> place c (ws @ vs) = place c ws"
  by (simp add: place_def takeWhile_append1)

lemma loop_progress:
  assumes "machine_inv s" "pending s c" "sm_loop s \<noteq> Stopped"
  shows "\<exists>t. loop_step s t"
proof (cases "sm_loop s")
  case Selecting
  then have "sm_notify s" using assms by (auto simp: machine_defs)
  with Selecting show ?thesis using woken by blast
next
  case (Changing cur nxt)
  then show ?thesis using started by blast
next
  case (Answering ws r)
  then show ?thesis by (cases ws) (use send answered in blast)+
qed (use assms in simp)

lemma loop_rank:
  assumes "machine_inv s" "pending s c" "loop_step s t"
  shows "\<not> pending t c \<or> rank t c < rank s c"
  using assms(3)
proof cases
  case woken
  then show ?thesis by (simp add: rank_def take_notify_def)
next
  case (started cur nxt)
  with assms(1,2) have "c \<in> set (sm_waiters s)" by (auto simp: machine_defs)
  with started show ?thesis by (simp add: rank_def end_started_def Let_def)
next
  case (failed cur nxt)
  with assms(1,2) have "c \<in> set (sm_waiters s)" by (auto simp: machine_defs)
  with failed show ?thesis by (simp add: rank_def end_failed_def)
next
  case (send d ws r)
  show ?thesis
  proof (cases "d = c")
    case True
    with send show ?thesis by (simp add: pending_def answer_def)
  next
    case False
    with send show ?thesis by (simp add: rank_def answer_def place_def)
  qed
next
  case (answered r)
  then show ?thesis by (simp add: rank_def)
qed

lemma call_waiters: "\<exists>vs. sm_waiters (call c m s) = sm_waiters s @ vs" "sm_loop (call c m s) = sm_loop s"
  by (auto simp: call_def ChangeMode_def notifyChange_def Let_def)

lemma client_rank:
  assumes "machine_inv s" "pending s c" "client_step s t"
  shows "pending t c \<and> rank t c = rank s c"
  using assms(3)
proof cases
  case (change d m)
  have "d \<noteq> c" using change assms(2) by (auto simp: pending_def)
  then have p: "pending t c" using change assms(2)
    by (auto simp: pending_def call_def ChangeMode_def notifyChange_def Let_def)
  obtain vs where vs: "sm_waiters t = sm_waiters s @ vs" using change call_waiters by blast
  have "c \<in> set (sm_waiters s) \<or> c \<in> set (to_answer s)" using assms(1,2) by (auto simp: machine_inv_def)
  then have "rank t c = rank s c"
    using change vs by (cases "sm_loop s") (auto simp: rank_def call_waiters place_append to_answer_def)
  with p show ?thesis by simp
next
  case cancel
  then show ?thesis using assms(2) by (cases "sm_loop s") (simp_all add: pending_def rank_def)
qed

text \<open>Runs in which the loop does not stop, with the number of steps that the loop takes.\<close>

inductive run :: "nat \<Rightarrow> StateMachine \<Rightarrow> StateMachine \<Rightarrow> bool" where
  here: "run 0 s s"
| by_loop: "run n s t \<Longrightarrow> loop_step t u \<Longrightarrow> run (Suc n) s u"
| by_client: "run n s t \<Longrightarrow> client_step t u \<Longrightarrow> run n s u"

lemma run_inv: "run n s t \<Longrightarrow> machine_inv s \<Longrightarrow> machine_inv t"
  by (induction rule: run.induct) (auto intro: machine_inv_step step.intros)

lemma answered_stays:
  assumes "machine_inv s" "sm_requests s c \<noteq> None" "\<not> pending s c" "step s t"
  shows "sm_requests t c = sm_requests s c \<and> sm_results t c = sm_results s c"
  using assms(4)
proof cases
  case loop
  have "c \<notin> set (to_answer s)" using assms(1,3) by (auto simp: machine_inv_def)
  with loop show ?thesis
    by (cases rule: loop_step.cases)
      (auto simp: to_answer_def take_notify_def end_started_def end_failed_def answer_def Let_def)
next
  case client
  from this assms(2) show ?thesis
    by (cases rule: client_step.cases) (auto simp: call_def ChangeMode_def notifyChange_def Let_def)
qed auto

lemma run_answers:
  assumes "run n s t" "machine_inv s" "pending s c"
  shows "if pending t c then rank t c + n \<le> rank s c else sm_requests t c \<noteq> None"
  using assms
proof (induction rule: run.induct)
  case (by_loop n s t u)
  have inv: "machine_inv t" using by_loop run_inv by blast
  show ?case
  proof (cases "pending t c")
    case True
    then show ?thesis using by_loop loop_rank [OF inv True by_loop(2)]
      by (auto simp: pending_def elim!: loop_stepE simp: take_notify_def end_started_def end_failed_def answer_def Let_def)
  next
    case False
    then show ?thesis using by_loop answered_stays [OF inv _ False step.loop [OF by_loop(2)]] by (auto simp: pending_def)
  qed
next
  case (by_client n s t u)
  have inv: "machine_inv t" using by_client run_inv by blast
  show ?case
  proof (cases "pending t c")
    case True
    then show ?thesis using by_client client_rank [OF inv True by_client(2)] by auto
  next
    case False
    then show ?thesis using by_client answered_stays [OF inv _ False step.client [OF by_client(2)]] by (auto simp: pending_def)
  qed
qed simp

subsection \<open>Properties\<close>

text \<open>C35: in every reachable state of the mode machine the current process belongs to the mode, a
  process that \<open>ChangeMode\<close> returned is one of the requested mode, all callers that wait want the
  mode that comes next, and none of them can be forgotten: when the loop is in its select there is
  a notification for them.\<close>

theorem ChangeMode_safe:
  assumes "reachable s"
  shows "p_mode (sm_current s) = sm_mode s \<and>
    (sm_results s c = Some (Returned p) \<longrightarrow> sm_requests s c = Some (p_mode p)) \<and>
    (c \<in> set (sm_waiters s) \<longrightarrow> sm_requests s c = Some (sm_next s) \<and> (sm_loop s = Selecting \<longrightarrow> sm_notify s))"
  using reachable_inv [OF assms] by (auto simp: machine_inv_def)

text \<open>A caller asks for loading, the loop takes the notification, and the process starts.\<close>

definition one_change :: StateMachine where
  "one_change = end_started ModeLoading (take_notify (call 7 ModeLoading NewStateMachine))"

lemma one_change_reachable: "reachable (call 7 ModeLoading NewStateMachine)" "reachable one_change"
proof -
  let ?a = "call 7 ModeLoading NewStateMachine" and ?b = "take_notify (call 7 ModeLoading NewStateMachine)"
  have a: "step NewStateMachine ?a"
    by (rule step.client, rule client_step.change) (simp_all add: NewStateMachine_def)
  have b: "step ?a ?b"
    by (rule step.loop, rule loop_step.woken)
      (simp_all add: NewStateMachine_def call_def ChangeMode_def CanTransition_def notifyChange_def)
  have c: "step ?b one_change"
    unfolding one_change_def
    by (rule step.loop, rule loop_step.started [where cur = "sm_current ?a"])
      (simp add: take_notify_def NewStateMachine_def call_def ChangeMode_def CanTransition_def notifyChange_def)
  show "reachable ?a" using a by (auto simp: reachable_def)
  show "reachable one_change" using a b c by (auto simp: reachable_def intro: rtranclp.rtrancl_into_rtrancl)
qed

theorem ChangeMode_safe_witness: "p_mode (sm_current one_change) = ModeLoading"
proof -
  have "sm_mode one_change = ModeLoading"
    by (simp add: one_change_def end_started_def take_notify_def call_def ChangeMode_def CanTransition_def notifyChange_def
        NewStateMachine_def Let_def)
  then show ?thesis using ChangeMode_safe [OF one_change_reachable(2)] by simp
qed

text \<open>C22: nobody waits forever. While a caller waits and the loop has not stopped, the loop can take a
  step; and after at most \<open>rank\<close> steps of the loop (two, and one for each caller before it and
  for itself, plus the answers of the previous change), with any calls in between, it has its result:
  a process of the mode it asked for or an error.\<close>

theorem ChangeMode_answered:
  assumes "reachable s" "pending s c"
  shows "(sm_loop s \<noteq> Stopped \<longrightarrow> (\<exists>t. loop_step s t)) \<and>
    (run n s t \<and> rank s c \<le> n \<longrightarrow> (\<exists>r. sm_results t c = Some r \<and>
      (\<forall>p. r = Returned p \<longrightarrow> sm_requests t c = Some (p_mode p))))"
proof (intro conjI impI)
  note inv = reachable_inv [OF assms(1)]
  show "\<exists>t. loop_step s t" if "sm_loop s \<noteq> Stopped" using loop_progress [OF inv assms(2) that] .
  assume r: "run n s t \<and> rank s c \<le> n"
  have "rank t c > 0" by (auto simp: rank_def split: loop_state.split)
  then have "\<not> pending t c" "sm_requests t c \<noteq> None"
    using run_answers [OF _ inv assms(2), of n t] r by (auto split: if_splits)
  then obtain r' where "sm_results t c = Some r'" by (auto simp: pending_def)
  then show "\<exists>r. sm_results t c = Some r \<and> (\<forall>p. r = Returned p \<longrightarrow> sm_requests t c = Some (p_mode p))"
    using run_inv [OF _ inv, of n t] r by (auto simp: machine_inv_def)
qed

theorem ChangeMode_answered_witness:
  "\<exists>r. sm_results ((answer 7 (Some (sm_current one_change)) one_change)\<lparr>sm_loop := Answering [] (Some (sm_current one_change))\<rparr>) 7 = Some r"
proof -
  let ?a = "call 7 ModeLoading NewStateMachine"
  let ?t = "(answer 7 (Some (sm_current one_change)) one_change)\<lparr>sm_loop := Answering [] (Some (sm_current one_change))\<rparr>"
  note defs = NewStateMachine_def call_def ChangeMode_def CanTransition_def notifyChange_def take_notify_def
    one_change_def end_started_def Let_def
  have p: "pending ?a 7" by (simp add: pending_def defs)
  have "run 1 ?a (take_notify ?a)"
    using run.by_loop [OF run.here loop_step.woken, of ?a] by (simp add: defs)
  then have "run 2 ?a one_change"
    using run.by_loop [OF _ loop_step.started, of 1 ?a "take_notify ?a" "sm_current ?a" ModeLoading]
    by (simp add: one_change_def numeral_2_eq_2) (simp add: defs)
  then have "run 3 ?a ?t"
    using run.by_loop [OF _ loop_step.send, of 2 ?a one_change 7 "[]" "Some (sm_current one_change)"]
    by (simp add: numeral_3_eq_3 numeral_2_eq_2) (simp add: defs)
  moreover have "rank ?a 7 \<le> 3" by (simp add: rank_def place_def defs)
  ultimately show ?thesis using ChangeMode_answered [OF one_change_reachable(1) p, of 3 ?t] by auto
qed

text \<open>C36: a caller that still waits when the loop has stopped waits forever, whatever happens later.\<close>

theorem stopped_never_answers:
  assumes "reachable s" "sm_loop s = Stopped" "pending s c" "step\<^sup>*\<^sup>* s t"
  shows "pending t c"
proof -
  have "sm_loop t = Stopped \<and> pending t c"
    using assms(4)
  proof (induction rule: rtranclp_induct)
    case (step t u)
    from step(2) show ?case
    proof cases
      case loop
      then show ?thesis using step(3) by (auto elim: loop_stepE)
    next
      case client
      then show ?thesis using step(3)
        by (cases rule: client_step.cases) (auto simp: pending_def call_def ChangeMode_def notifyChange_def Let_def)
    qed (use step(3) in auto)
  qed (use assms in simp)
  then show ?thesis by simp
qed

theorem stopped_never_answers_witness:
  "pending (call 8 ModeJoining ((call 7 ModeLoading NewStateMachine)\<lparr>sm_cancelled := True, sm_loop := Stopped\<rparr>)) 7"
proof -
  let ?a = "call 7 ModeLoading NewStateMachine"
  let ?b = "?a\<lparr>sm_cancelled := True\<rparr>" and ?s = "?a\<lparr>sm_cancelled := True, sm_loop := Stopped\<rparr>"
  note defs = NewStateMachine_def call_def ChangeMode_def CanTransition_def notifyChange_def
  have "step ?a ?b" by (rule step.client, rule client_step.cancel)
  moreover have "step ?b ?s" using step.stop [of ?b] by (simp add: defs)
  ultimately have "reachable ?s"
    using one_change_reachable(1) unfolding reachable_def by (meson rtranclp.rtrancl_into_rtrancl)
  moreover have "pending ?s 7" by (simp add: pending_def defs)
  moreover have "step ?s (call 8 ModeJoining ?s)"
    by (rule step.client, rule client_step.change) (simp_all add: defs)
  ultimately show ?thesis using stopped_never_answers [of ?s 7 "call 8 ModeJoining ?s"] by auto
qed

end
