(* ===== verification/FileQueue.thy ===== *)
theory FileQueue
  imports Prelude
begin

section \<open>The queue of files to synchronise (core/files/filesync/filequeue)\<close>

text \<open>
  One goroutine owns the queue: it receives requests of clients, timers and cancellations over channels and handles
  them one after the other. A client that gets an item holds it until it releases it; other clients wait for the item by
  its id, for any item that passes a filter, or for the next item whose time comes.

  Each handler is a function on the queue. Sending to a response channel appends to the list of what was sent;
  the channels have room for their one answer. Goroutines that wait for a timer or for the end of a context are entries of the queue
  (\<open>q_timers\<close>, \<open>q_watchers\<close>), and they may run at any later time, also after their timer was cancelled, since Go's \<open>select\<close> chooses freely among
  what is ready. The collection of the third-party store, the encoding of items and the access to their ids are parameters. A clock reading is an
  argument of a handler, which reads it at one moment.
\<close>

subsection \<open>Storage\<close>

datatype queue_error = ErrClosed | ErrNotFound | ErrNoRows | ErrDocNotFound | ErrCanceled | ErrNotLocked | ErrOther string

text \<open>Find gives the rows for a stored filter and order, each of which may fail to be read.\<close>

record ('a, 'c, 'd, 'f) queue_env =
  qe_getId :: "'a \<Rightarrow> string"
  qe_setId :: "'a \<Rightarrow> string \<Rightarrow> 'a"
  qe_defVal :: 'a
  qe_marshal :: "'a \<Rightarrow> 'd"
  qe_unmarshal :: "'d \<Rightarrow> 'a \<times> queue_error option"
  qe_SetId :: "'d \<Rightarrow> string \<Rightarrow> 'd"
  qe_FindId :: "'c \<Rightarrow> string \<Rightarrow> queue_error + 'd"
  qe_UpsertOne :: "'c \<Rightarrow> 'd \<Rightarrow> queue_error + 'c"
  qe_Find :: "'c \<Rightarrow> 'f \<Rightarrow> queue_error + (queue_error + 'd) list"

definition storage_get :: "('a, 'c, 'd, 'f) queue_env \<Rightarrow> 'c \<Rightarrow> string \<Rightarrow> 'a \<times> queue_error option" where
  "storage_get env c objectId =
     (case qe_FindId env c objectId of
        Inl err \<Rightarrow> (qe_defVal env, Some (if err = ErrDocNotFound then ErrNotFound else err))
      | Inr doc \<Rightarrow> qe_unmarshal env doc)"

definition stored_form :: "('a, 'c, 'd, 'f) queue_env \<Rightarrow> string \<Rightarrow> 'a \<Rightarrow> 'd" where
  "stored_form env objectId x = qe_SetId env (qe_marshal env x) objectId"

definition storage_set :: "('a, 'c, 'd, 'f) queue_env \<Rightarrow> 'c \<Rightarrow> string \<Rightarrow> 'a \<Rightarrow> queue_error + 'c" where
  "storage_set env c objectId x = qe_UpsertOne env c (stored_form env objectId x)"

text \<open>The first row that can be decoded and passes the filter in memory.\<close>

fun query_rows :: "('a, 'c, 'd, 'f) queue_env \<Rightarrow> ('a \<Rightarrow> bool) \<Rightarrow> (queue_error + 'd) list \<Rightarrow> 'a \<times> queue_error option" where
  "query_rows env inMemoryFilter [] = (qe_defVal env, Some ErrNoRows)"
| "query_rows env inMemoryFilter (Inl err # rows) = (qe_defVal env, Some err)"
| "query_rows env inMemoryFilter (Inr doc # rows) =
     (case qe_unmarshal env doc of
        (v, None) \<Rightarrow> if inMemoryFilter v then (v, None) else query_rows env inMemoryFilter rows
      | (v, Some _) \<Rightarrow> query_rows env inMemoryFilter rows)"

definition storage_query :: "('a, 'c, 'd, 'f) queue_env \<Rightarrow> 'c \<Rightarrow> 'f \<Rightarrow> ('a \<Rightarrow> bool) \<Rightarrow> 'a \<times> queue_error option" where
  "storage_query env c f inMemoryFilter =
     (case qe_Find env c f of Inl err \<Rightarrow> (qe_defVal env, Some err) | Inr rows \<Rightarrow> query_rows env inMemoryFilter rows)"

fun list_rows :: "('a, 'c, 'd, 'f) queue_env \<Rightarrow> (queue_error + 'd) list \<Rightarrow> queue_error + 'a list" where
  "list_rows env [] = Inr []"
| "list_rows env (Inl err # rows) = Inl err"
| "list_rows env (Inr doc # rows) =
     (case list_rows env rows of
        Inl err \<Rightarrow> Inl err
      | Inr res \<Rightarrow> (case qe_unmarshal env doc of (v, None) \<Rightarrow> Inr (v # res) | (v, Some _) \<Rightarrow> Inr res))"

definition storage_listAll :: "('a, 'c, 'd, 'f) queue_env \<Rightarrow> 'c \<Rightarrow> 'f \<Rightarrow> queue_error + 'a list" where
  "storage_listAll env c everything = (case qe_Find env c everything of Inl err \<Rightarrow> Inl err | Inr rows \<Rightarrow> list_rows env rows)"

subsection \<open>The queue\<close>

text \<open>A response channel is named by the call that makes it: \<open>GetById\<close> for an id, or one of the calls for a next item.\<close>

datatype chan = IdChan string nat | NextChan nat

record ('a, 'f) getNextRequest =
  gn_id :: string
  gn_subscribe :: bool
  gn_query :: 'f
  gn_filter :: "'a \<Rightarrow> bool"
  gn_scheduledAt :: "'a \<Rightarrow> int"
  gn_responseCh :: chan

record ('a, 'f) scheduledItem =
  si_timer :: nat
  si_item :: 'a
  si_request :: "('a, 'f) getNextRequest"
  si_responseCh :: chan

type_synonym 'a itemResponse = "'a \<times> queue_error option"

record ('a, 'c, 'f) Queue =
  q_store :: 'c
  q_getByIdWaiters :: "(string \<times> chan list) list"
  q_dueWaiters :: "(string \<times> ('a, 'f) scheduledItem list) list"
  q_getNextWaiters :: "('a, 'f) getNextRequest list"
  q_getNextScheduledWaiters :: "('a, 'f) getNextRequest list"
  q_itemLocked :: "string list"
  q_scheduled :: "(string \<times> ('a, 'f) scheduledItem) list"
  q_timers :: "('a, 'f) scheduledItem list"
  q_watchers :: "string list"
  q_cancelled :: "nat list"
  q_nextTimer :: nat
  q_sent :: "(chan \<times> 'a itemResponse) list"

definition NewQueue :: "'c \<Rightarrow> ('a, 'c, 'f) Queue" where
  "NewQueue store = \<lparr>q_store = store, q_getByIdWaiters = [], q_dueWaiters = [], q_getNextWaiters = [], q_getNextScheduledWaiters = [],
     q_itemLocked = [], q_scheduled = [], q_timers = [], q_watchers = [], q_cancelled = [], q_nextTimer = 0, q_sent = []\<rparr>"

definition respond :: "chan \<Rightarrow> 'a itemResponse \<Rightarrow> ('a, 'c, 'f) Queue \<Rightarrow> ('a, 'c, 'f) Queue" where
  "respond ch r q = q\<lparr>q_sent := q_sent q @ [(ch, r)]\<rparr>"

definition lock_item :: "string \<Rightarrow> ('a, 'c, 'f) Queue \<Rightarrow> ('a, 'c, 'f) Queue" where
  "lock_item i q = q\<lparr>q_itemLocked := List.insert i (q_itemLocked q)\<rparr>"

definition isLocked :: "('a, 'c, 'f) Queue \<Rightarrow> string \<Rightarrow> bool" where
  "isLocked q i \<longleftrightarrow> i \<in> set (q_itemLocked q)"

definition isScheduled :: "('a, 'c, 'd, 'f) queue_env \<Rightarrow> ('a, 'c, 'f) Queue \<Rightarrow> 'a \<Rightarrow> bool" where
  "isScheduled env q x \<longleftrightarrow> map_of (q_scheduled q) (qe_getId env x) \<noteq> None"

text \<open>Reading a missing key of a map of slices gives nil.\<close>

definition entries :: "('k \<times> 'v list) list \<Rightarrow> 'k \<Rightarrow> 'v list" where
  "entries m k = (case map_of m k of Some vs \<Rightarrow> vs | None \<Rightarrow> [])"

definition scheduleItem :: "('a, 'c, 'd, 'f) queue_env \<Rightarrow> ('a, 'f) getNextRequest \<Rightarrow> 'a \<Rightarrow> ('a, 'c, 'f) Queue \<Rightarrow> ('a, 'c, 'f) Queue" where
  "scheduleItem env req x q =
     (let sch = \<lparr>si_timer = q_nextTimer q, si_item = x, si_request = req, si_responseCh = gn_responseCh req\<rparr>
      in q\<lparr>q_scheduled := put (qe_getId env x) sch (q_scheduled q), q_timers := q_timers q @ [sch], q_nextTimer := Suc (q_nextTimer q)\<rparr>)"

definition handleGetNextScheduled :: "('a, 'c, 'd, 'f) queue_env \<Rightarrow> int \<Rightarrow> ('a, 'f) getNextRequest \<Rightarrow> ('a, 'c, 'f) Queue \<Rightarrow> ('a, 'c, 'f) Queue" where
  "handleGetNextScheduled env now req q =
     (case storage_query env (q_store q) (gn_query req)
             (\<lambda>info. \<not> isLocked q (qe_getId env info) \<and> \<not> isScheduled env q info \<and> gn_filter req info) of
        (x, err) \<Rightarrow>
          if err = Some ErrNoRows
          then (if gn_subscribe req
                then q\<lparr>q_getNextScheduledWaiters := q_getNextScheduledWaiters q @ [req], q_watchers := q_watchers q @ [gn_id req]\<rparr>
                else respond (gn_responseCh req) (qe_defVal env, Some ErrNoRows) q)
          else if err \<noteq> None then respond (gn_responseCh req) (qe_defVal env, err) q
          else if gn_scheduledAt req x < now then respond (gn_responseCh req) (x, None) (lock_item (qe_getId env x) q)
          else scheduleItem env req x q)"

definition handleGetNext :: "('a, 'c, 'd, 'f) queue_env \<Rightarrow> ('a, 'f) getNextRequest \<Rightarrow> ('a, 'c, 'f) Queue \<Rightarrow> ('a, 'c, 'f) Queue" where
  "handleGetNext env req q =
     (case storage_query env (q_store q) (gn_query req) (\<lambda>info. \<not> isLocked q (qe_getId env info) \<and> gn_filter req info) of
        (x, err) \<Rightarrow>
          if err = Some ErrNoRows
          then (if gn_subscribe req
                then q\<lparr>q_getNextWaiters := q_getNextWaiters q @ [req], q_watchers := q_watchers q @ [gn_id req]\<rparr>
                else respond (gn_responseCh req) (qe_defVal env, Some ErrNoRows) q)
          else if err \<noteq> None then respond (gn_responseCh req) (qe_defVal env, err) q
          else respond (gn_responseCh req) (x, None) (lock_item (qe_getId env x) q))"

definition handleGetById :: "('a, 'c, 'd, 'f) queue_env \<Rightarrow> string \<Rightarrow> chan \<Rightarrow> ('a, 'c, 'f) Queue \<Rightarrow> ('a, 'c, 'f) Queue" where
  "handleGetById env objectId ch q =
     (if isLocked q objectId
      then q\<lparr>q_getByIdWaiters := put objectId (entries (q_getByIdWaiters q) objectId @ [ch]) (q_getByIdWaiters q)\<rparr>
      else (case storage_get env (q_store q) objectId of (x, err) \<Rightarrow>
        if err \<noteq> None \<and> err \<noteq> Some ErrNotFound then respond ch (qe_defVal env, err) q
        else respond ch (if err = Some ErrNotFound then qe_setId env x objectId else x, err) (lock_item objectId q)))"

text \<open>The time of a scheduled item has come.\<close>

definition handleScheduledItem :: "('a, 'c, 'd, 'f) queue_env \<Rightarrow> ('a, 'f) scheduledItem \<Rightarrow> ('a, 'c, 'f) Queue \<Rightarrow> ('a, 'c, 'f) Queue" where
  "handleScheduledItem env req q =
     (if \<not> isScheduled env q (si_item req) then q
      else (let i = qe_getId env (si_item req); q = q\<lparr>q_scheduled := del i (q_scheduled q)\<rparr>
            in if isLocked q i
               then q\<lparr>q_dueWaiters := put i (entries (q_dueWaiters q) i @ [req]) (q_dueWaiters q)\<rparr>
               else respond (si_responseCh req) (storage_get env (q_store q) i) (lock_item i q)))"

subsection \<open>Releasing an item\<close>

definition unschedule :: "string \<Rightarrow> ('a, 'f) scheduledItem \<Rightarrow> ('a, 'c, 'f) Queue \<Rightarrow> ('a, 'c, 'f) Queue" where
  "unschedule i sch q = q\<lparr>q_cancelled := q_cancelled q @ [si_timer sch], q_scheduled := del i (q_scheduled q)\<rparr>"

definition check_scheduled :: "('a, 'c, 'd, 'f) queue_env \<Rightarrow> int \<Rightarrow> 'a \<Rightarrow> string \<Rightarrow> ('a, 'c, 'f) Queue \<Rightarrow> ('a, 'c, 'f) Queue" where
  "check_scheduled env now x i q =
     (case map_of (q_scheduled q) i of
        None \<Rightarrow> q
      | Some sch \<Rightarrow>
          if i = qe_getId env x
          then (if gn_filter (si_request sch) x then scheduleItem env (si_request sch) x (unschedule i sch q)
                else handleGetNextScheduled env now (si_request sch) (unschedule i sch q))
          else if gn_filter (si_request sch) x \<and> gn_scheduledAt (si_request sch) x < gn_scheduledAt (si_request sch) (si_item sch)
                  \<and> \<not> isScheduled env q x
          then scheduleItem env (si_request sch) x (unschedule i sch q)
          else q)"

text \<open>The loop over the map of scheduled items, which changes meanwhile: \<open>visited\<close> are the keys in the order in which they are reached.\<close>

definition checkInSchedule :: "('a, 'c, 'd, 'f) queue_env \<Rightarrow> int \<Rightarrow> string list \<Rightarrow> 'a \<Rightarrow> ('a, 'c, 'f) Queue \<Rightarrow> ('a, 'c, 'f) Queue" where
  "checkInSchedule env now visited x q = fold (check_scheduled env now x) visited q"

definition first_waiter :: "string \<Rightarrow> 'a itemResponse \<Rightarrow> ('a, 'c, 'f) Queue \<Rightarrow> (bool \<times> ('a, 'c, 'f) Queue)" where
  "first_waiter i r q =
     (case entries (q_getByIdWaiters q) i of
        [] \<Rightarrow> (False, q)
      | ch # waiters \<Rightarrow>
          (let q = respond ch r (lock_item i q)
           in (True, q\<lparr>q_getByIdWaiters := (if waiters = [] then del i (q_getByIdWaiters q) else put i waiters (q_getByIdWaiters q))\<rparr>)))"

definition checkGetByIdWaiters :: "('a, 'c, 'd, 'f) queue_env \<Rightarrow> 'a \<Rightarrow> bool \<times> ('a, 'c, 'f) Queue \<Rightarrow> bool \<times> ('a, 'c, 'f) Queue" where
  "checkGetByIdWaiters env x rq = (if fst rq then rq else first_waiter (qe_getId env x) (x, None) (snd rq))"

definition releaseGetByIdWaitersWithError :: "('a, 'c, 'd, 'f) queue_env \<Rightarrow> string \<Rightarrow> queue_error \<Rightarrow> ('a, 'c, 'f) Queue \<Rightarrow> ('a, 'c, 'f) Queue" where
  "releaseGetByIdWaitersWithError env i err q = snd (first_waiter i (qe_defVal env, Some err) q)"

fun due_loop :: "('a, 'c, 'd, 'f) queue_env \<Rightarrow> int \<Rightarrow> 'a \<Rightarrow> ('a, 'f) scheduledItem list \<Rightarrow> ('a, 'f) scheduledItem list \<Rightarrow>
    bool \<times> ('a, 'c, 'f) Queue \<Rightarrow> ('a, 'f) scheduledItem list \<times> bool \<times> ('a, 'c, 'f) Queue" where
  "due_loop env now x [] filtered rq = (filtered, rq)"
| "due_loop env now x (waiter # ws) filtered (responded, q) =
     (if gn_filter (si_request waiter) x
      then (if \<not> responded
            then due_loop env now x ws filtered (True, respond (si_responseCh waiter) (x, None) (lock_item (qe_getId env x) q))
            else due_loop env now x ws (filtered @ [waiter]) (responded, q))
      else due_loop env now x ws filtered (responded, handleGetNextScheduled env now (si_request waiter) q))"

definition checkDueWaiters :: "('a, 'c, 'd, 'f) queue_env \<Rightarrow> int \<Rightarrow> 'a \<Rightarrow> bool \<times> ('a, 'c, 'f) Queue \<Rightarrow> bool \<times> ('a, 'c, 'f) Queue" where
  "checkDueWaiters env now x rq =
     (let i = qe_getId env x
      in if entries (q_dueWaiters (snd rq)) i = [] then rq
         else (case due_loop env now x (entries (q_dueWaiters (snd rq)) i) [] rq of (filtered, responded, q) \<Rightarrow>
           (responded, q\<lparr>q_dueWaiters := (if filtered = [] then del i (q_dueWaiters q) else put i filtered (q_dueWaiters q))\<rparr>)))"

definition checkNextScheduledWaiters :: "('a, 'c, 'd, 'f) queue_env \<Rightarrow> int \<Rightarrow> 'a \<Rightarrow> bool \<times> ('a, 'c, 'f) Queue \<Rightarrow> bool \<times> ('a, 'c, 'f) Queue" where
  "checkNextScheduledWaiters env now x rq =
     (case rq of (responded, q) \<Rightarrow>
        if responded then rq
        else (case List.extract (\<lambda>waiter. gn_filter waiter x \<and> \<not> isScheduled env q x) (q_getNextScheduledWaiters q) of
                None \<Rightarrow> rq
              | Some (before, waiter, behind) \<Rightarrow>
                  (let q = q\<lparr>q_getNextScheduledWaiters := before @ behind\<rparr>
                   in if gn_scheduledAt waiter x < now
                      then (True, respond (gn_responseCh waiter) (x, None) (lock_item (qe_getId env x) q))
                      else (responded, scheduleItem env waiter x q))))"

definition checkGetNextWaiters :: "('a, 'c, 'd, 'f) queue_env \<Rightarrow> 'a \<Rightarrow> bool \<times> ('a, 'c, 'f) Queue \<Rightarrow> bool \<times> ('a, 'c, 'f) Queue" where
  "checkGetNextWaiters env x rq =
     (case rq of (responded, q) \<Rightarrow>
        if responded then rq
        else (case List.extract (\<lambda>waiter. gn_filter waiter x) (q_getNextWaiters q) of
                None \<Rightarrow> rq
              | Some (before, waiter, behind) \<Rightarrow>
                  (True, respond (gn_responseCh waiter) (x, None)
                     (lock_item (qe_getId env x) (q\<lparr>q_getNextWaiters := before @ behind\<rparr>)))))"

text \<open>What follows when the item is known: the schedule is brought up to date and at most one client gets the item.\<close>

definition hand_on :: "('a, 'c, 'd, 'f) queue_env \<Rightarrow> int \<Rightarrow> string list \<Rightarrow> 'a \<Rightarrow> ('a, 'c, 'f) Queue \<Rightarrow> ('a, 'c, 'f) Queue" where
  "hand_on env now visited x q =
     snd (checkGetNextWaiters env x (checkNextScheduledWaiters env now x (checkDueWaiters env now x
       (checkGetByIdWaiters env x (False, checkInSchedule env now visited x q)))))"

text \<open>A release with the new item for an update, and what its caller is told.\<close>

definition handleReleaseItem :: "('a, 'c, 'd, 'f) queue_env \<Rightarrow> int \<Rightarrow> string list \<Rightarrow> string \<Rightarrow> 'a option \<Rightarrow> ('a, 'c, 'f) Queue \<Rightarrow>
    queue_error option \<times> ('a, 'c, 'f) Queue" where
  "handleReleaseItem env now visited objectId upd q =
     (if \<not> isLocked q objectId then (Some ErrNotLocked, q)
      else (let q = q\<lparr>q_itemLocked := removeAll objectId (q_itemLocked q)\<rparr>
            in case upd of
                 Some x \<Rightarrow>
                   (case storage_set env (q_store q) objectId x of
                      Inl err \<Rightarrow> (Some err, q)
                    | Inr c \<Rightarrow> (None, hand_on env now visited x (q\<lparr>q_store := c\<rparr>)))
               | None \<Rightarrow>
                   (case storage_get env (q_store q) objectId of (x, err) \<Rightarrow>
                      if err = Some ErrNotFound then (None, releaseGetByIdWaitersWithError env objectId ErrNotFound q)
                      else if err \<noteq> None then (err, q)
                      else (None, hand_on env now visited x q))))"

definition ReleaseAndUpdate :: "('a, 'c, 'd, 'f) queue_env \<Rightarrow> int \<Rightarrow> string list \<Rightarrow> string \<Rightarrow> 'a \<Rightarrow> ('a, 'c, 'f) Queue \<Rightarrow>
    queue_error option \<times> ('a, 'c, 'f) Queue" where
  "ReleaseAndUpdate env now visited i task q = handleReleaseItem env now visited i (Some (qe_setId env task i)) q"

definition Release :: "('a, 'c, 'd, 'f) queue_env \<Rightarrow> int \<Rightarrow> string list \<Rightarrow> string \<Rightarrow> ('a, 'c, 'f) Queue \<Rightarrow> queue_error option \<times> ('a, 'c, 'f) Queue" where
  "Release env now visited i q = handleReleaseItem env now visited i None q"

subsection \<open>Cancelling and closing\<close>

definition cancel_waiter :: "('a, 'c, 'd, 'f) queue_env \<Rightarrow> string \<Rightarrow> ('a, 'f) getNextRequest list \<Rightarrow>
    ('a, 'f) getNextRequest list \<times> (chan \<times> 'a itemResponse) list" where
  "cancel_waiter env i waiters =
     (case List.extract (\<lambda>w. gn_id w = i) waiters of
        None \<Rightarrow> (waiters, [])
      | Some (before, w, behind) \<Rightarrow> (before @ behind, [(gn_responseCh w, (qe_defVal env, Some ErrCanceled))]))"

definition cancel_next :: "('a, 'c, 'd, 'f) queue_env \<Rightarrow> string \<Rightarrow> ('a, 'c, 'f) Queue \<Rightarrow> ('a, 'c, 'f) Queue" where
  "cancel_next env i q =
     (case cancel_waiter env i (q_getNextWaiters q) of (ws, out) \<Rightarrow> q\<lparr>q_getNextWaiters := ws, q_sent := q_sent q @ out\<rparr>)"

definition cancel_next_scheduled :: "('a, 'c, 'd, 'f) queue_env \<Rightarrow> string \<Rightarrow> ('a, 'c, 'f) Queue \<Rightarrow> ('a, 'c, 'f) Queue" where
  "cancel_next_scheduled env i q =
     (case cancel_waiter env i (q_getNextScheduledWaiters q) of (ws, out) \<Rightarrow> q\<lparr>q_getNextScheduledWaiters := ws, q_sent := q_sent q @ out\<rparr>)"

definition cancel_scheduled :: "('a, 'c, 'd, 'f) queue_env \<Rightarrow> string \<Rightarrow> ('a, 'c, 'f) Queue \<Rightarrow> ('a, 'c, 'f) Queue" where
  "cancel_scheduled env i q =
     (case List.extract (\<lambda>kv. gn_id (si_request (snd kv)) = i) (q_scheduled q) of
        None \<Rightarrow> q
      | Some (_, (k, sch), _) \<Rightarrow> unschedule k sch (respond (si_responseCh sch) (qe_defVal env, Some ErrCanceled) q))"

text \<open>A request whose item is due but locked is taken out without an answer.\<close>

definition cancel_due :: "string \<Rightarrow> ('a, 'c, 'f) Queue \<Rightarrow> ('a, 'c, 'f) Queue" where
  "cancel_due i q =
     (case List.extract (\<lambda>kws. \<exists>w\<in>set (snd kws). gn_id (si_request w) = i) (q_dueWaiters q) of
        None \<Rightarrow> q
      | Some (_, (k, ws), _) \<Rightarrow>
          (case List.extract (\<lambda>w. gn_id (si_request w) = i) ws of
             None \<Rightarrow> q
           | Some (before, w, behind) \<Rightarrow> q\<lparr>q_dueWaiters := put k (before @ behind) (q_dueWaiters q)\<rparr>))"

definition handleCancelRequest :: "('a, 'c, 'd, 'f) queue_env \<Rightarrow> string \<Rightarrow> ('a, 'c, 'f) Queue \<Rightarrow> ('a, 'c, 'f) Queue" where
  "handleCancelRequest env i q = cancel_due i (cancel_scheduled env i (cancel_next_scheduled env i (cancel_next env i q)))"

definition handleClose :: "('a, 'c, 'd, 'f) queue_env \<Rightarrow> ('a, 'c, 'f) Queue \<Rightarrow> ('a, 'c, 'f) Queue" where
  "handleClose env q =
     q\<lparr>q_sent := q_sent q @ map (\<lambda>ch. (ch, (qe_defVal env, Some ErrClosed)))
          (concat (map snd (q_getByIdWaiters q)) @ map si_responseCh (concat (map snd (q_dueWaiters q))) @
           map (\<lambda>kv. si_responseCh (snd kv)) (q_scheduled q) @ map gn_responseCh (q_getNextWaiters q) @
           map gn_responseCh (q_getNextScheduledWaiters q)),
       q_getByIdWaiters := [], q_dueWaiters := [], q_scheduled := [], q_getNextWaiters := [], q_getNextScheduledWaiters := []\<rparr>"

subsection \<open>Clients and runs\<close>

text \<open>
  Who holds what: a call for an id holds the id when it gets the item or learns that there is none, a call for a next item holds
  the id of the item it gets.
\<close>

record ('a, 'c, 'f) queue_world =
  w_queue :: "('a, 'c, 'f) Queue"
  w_used :: "chan list"
  w_holds :: "(chan \<times> string) list"
  w_closed :: bool

fun handed :: "('a, 'c, 'd, 'f) queue_env \<Rightarrow> chan \<times> 'a itemResponse \<Rightarrow> (chan \<times> string) list" where
  "handed env (IdChan i n, (x, err)) = (if err = None \<or> err = Some ErrNotFound then [(IdChan i n, i)] else [])"
| "handed env (NextChan n, (x, err)) = (if err = None then [(NextChan n, qe_getId env x)] else [])"

definition handed_all :: "('a, 'c, 'd, 'f) queue_env \<Rightarrow> (chan \<times> 'a itemResponse) list \<Rightarrow> (chan \<times> string) list" where
  "handed_all env out = concat (map (handed env) out)"

definition settle :: "('a, 'c, 'd, 'f) queue_env \<Rightarrow> ('a, 'c, 'f) Queue \<Rightarrow> ('a, 'c, 'f) queue_world \<Rightarrow> ('a, 'c, 'f) queue_world" where
  "settle env q w = w\<lparr>w_queue := q,
     w_holds := w_holds w @ handed_all env (drop (length (q_sent (w_queue w))) (q_sent q))\<rparr>"

definition new_world :: "'c \<Rightarrow> ('a, 'c, 'f) queue_world" where
  "new_world c = \<lparr>w_queue = NewQueue c, w_used = [], w_holds = [], w_closed = False\<rparr>"

text \<open>The stored form of an item passes the filter of a request like the item itself; requests listen on a channel of their own.\<close>

definition request_ok :: "('a, 'c, 'd, 'f) queue_env \<Rightarrow> ('a, 'f) getNextRequest \<Rightarrow> bool" where
  "request_ok env r \<longleftrightarrow> (\<exists>n. gn_responseCh r = NextChan n) \<and>
     (\<forall>x v. qe_unmarshal env (stored_form env (qe_getId env x) x) = (v, None) \<longrightarrow> gn_filter r v = gn_filter r x)"

text \<open>
  Clients release what they hold. In a calm run no timer fires after its item was taken out of the schedule or scheduled
  anew, and no request is cancelled while its due item is locked.
\<close>

inductive qstep :: "('a, 'c, 'd, 'f) queue_env \<Rightarrow> bool \<Rightarrow> ('a, 'c, 'f) queue_world \<Rightarrow> ('a, 'c, 'f) queue_world \<Rightarrow> bool"
  for env :: "('a, 'c, 'd, 'f) queue_env" and calm :: bool where
  by_id: "\<not> w_closed w \<Longrightarrow> IdChan i n \<notin> set (w_used w) \<Longrightarrow>
    qstep env calm w (settle env (handleGetById env i (IdChan i n) (w_queue w)) (w\<lparr>w_used := IdChan i n # w_used w\<rparr>))"
| get_next: "\<not> w_closed w \<Longrightarrow> request_ok env r \<Longrightarrow> gn_responseCh r \<notin> set (w_used w) \<Longrightarrow>
    qstep env calm w (settle env (handleGetNext env r (w_queue w)) (w\<lparr>w_used := gn_responseCh r # w_used w\<rparr>))"
| get_scheduled: "\<not> w_closed w \<Longrightarrow> request_ok env r \<Longrightarrow> gn_responseCh r \<notin> set (w_used w) \<Longrightarrow>
    qstep env calm w (settle env (handleGetNextScheduled env now r (w_queue w)) (w\<lparr>w_used := gn_responseCh r # w_used w\<rparr>))"
| update: "\<not> w_closed w \<Longrightarrow> (ch, i) \<in> set (w_holds w) \<Longrightarrow> fst ` set (q_scheduled (w_queue w)) \<subseteq> set visited \<Longrightarrow>
    qstep env calm w (settle env (snd (ReleaseAndUpdate env now visited i x (w_queue w))) (w\<lparr>w_holds := remove1 (ch, i) (w_holds w)\<rparr>))"
| release: "\<not> w_closed w \<Longrightarrow> (ch, i) \<in> set (w_holds w) \<Longrightarrow> fst ` set (q_scheduled (w_queue w)) \<subseteq> set visited \<Longrightarrow>
    qstep env calm w (settle env (snd (Release env now visited i (w_queue w))) (w\<lparr>w_holds := remove1 (ch, i) (w_holds w)\<rparr>))"
| due: "\<not> w_closed w \<Longrightarrow> sch \<in> set (q_timers (w_queue w)) \<Longrightarrow> gn_scheduledAt (si_request sch) (si_item sch) \<le> now \<Longrightarrow>
    (calm \<Longrightarrow> map_of (q_scheduled (w_queue w)) (qe_getId env (si_item sch)) = Some sch) \<Longrightarrow>
    qstep env calm w (settle env (handleScheduledItem env sch ((w_queue w)\<lparr>q_timers := remove1 sch (q_timers (w_queue w))\<rparr>)) w)"
| cancel: "\<not> w_closed w \<Longrightarrow> i \<in> set (q_watchers (w_queue w)) \<or> i \<in> (\<lambda>sch. gn_id (si_request sch)) ` set (q_timers (w_queue w)) \<Longrightarrow>
    (calm \<Longrightarrow> \<forall>(k, ws)\<in>set (q_dueWaiters (w_queue w)). \<forall>sch\<in>set ws. gn_id (si_request sch) \<noteq> i) \<Longrightarrow>
    qstep env calm w (settle env (handleCancelRequest env i (w_queue w)) w)"
| close: "\<not> w_closed w \<Longrightarrow> qstep env calm w (settle env (handleClose env (w_queue w)) (w\<lparr>w_closed := True\<rparr>))"

text \<open>What the store and the encoding promise: documents are found under the id of their item, rows are documents of the collection,
  and a document that was written is found.\<close>

definition collection_ok :: "('a, 'c, 'd, 'f) queue_env \<Rightarrow> bool" where
  "collection_ok env \<longleftrightarrow>
     (\<forall>x i. qe_getId env (qe_setId env x i) = i) \<and>
     (\<forall>c i d v. qe_FindId env c i = Inr d \<longrightarrow> qe_unmarshal env d = (v, None) \<longrightarrow> qe_getId env v = i) \<and>
     (\<forall>c f rows d v. qe_Find env c f = Inr rows \<longrightarrow> Inr d \<in> set rows \<longrightarrow> qe_unmarshal env d = (v, None) \<longrightarrow>
        qe_FindId env c (qe_getId env v) = Inr d) \<and>
     (\<forall>c i d c'. qe_UpsertOne env c (qe_SetId env d i) = Inr c' \<longrightarrow> qe_FindId env c' i = Inr (qe_SetId env d i))"

subsection \<open>Well-formed queues\<close>

definition sch_ok :: "('a, 'c, 'd, 'f) queue_env \<Rightarrow> ('a, 'f) scheduledItem \<Rightarrow> bool" where
  "sch_ok env s \<longleftrightarrow> si_responseCh s = gn_responseCh (si_request s) \<and> request_ok env (si_request s)"

definition queue_ok :: "('a, 'c, 'd, 'f) queue_env \<Rightarrow> ('a, 'c, 'f) Queue \<Rightarrow> bool" where
  "queue_ok env q \<longleftrightarrow>
     (\<forall>i. \<forall>ch\<in>set (entries (q_getByIdWaiters q) i). \<exists>n. ch = IdChan i n) \<and>
     (\<forall>r\<in>set (q_getNextWaiters q) \<union> set (q_getNextScheduledWaiters q). request_ok env r) \<and>
     (\<forall>i s. map_of (q_scheduled q) i = Some s \<longrightarrow> qe_getId env (si_item s) = i \<and> sch_ok env s) \<and>
     (\<forall>i. \<forall>s\<in>set (entries (q_dueWaiters q) i). qe_getId env (si_item s) = i \<and> sch_ok env s) \<and>
     (\<forall>s\<in>set (q_timers q). sch_ok env s) \<and>
     wf_map (q_getByIdWaiters q) \<and> wf_map (q_dueWaiters q) \<and> wf_map (q_scheduled q)"

lemma sch_okD [simp]: "sch_ok env s \<Longrightarrow> request_ok env (si_request s)"
  by (simp add: sch_ok_def)

lemma entries_put [simp]: "entries (put k vs m) j = (if j = k then vs else entries m j)"
  by (simp add: entries_def)

lemma entries_del [simp]: "entries (del k m) j = (if j = k then [] else entries m j)"
  by (simp add: entries_def)

lemma entries_Nil [simp]: "entries [] j = []"
  by (simp add: entries_def)

lemmas queue_prims = respond_def lock_item_def unschedule_def scheduleItem_def Let_def

lemma queue_ok_prims [simp]:
  "queue_ok env (respond ch r q) = queue_ok env q"
  "queue_ok env (lock_item i q) = queue_ok env q"
  by (simp_all add: queue_ok_def queue_prims)

lemma queue_ok_schedule [simp]: "queue_ok env q \<Longrightarrow> request_ok env r \<Longrightarrow> queue_ok env (scheduleItem env r x q)"
  by (auto simp: queue_ok_def queue_prims sch_ok_def)

lemma queue_ok_unschedule [simp]: "queue_ok env q \<Longrightarrow> queue_ok env (unschedule i s q)"
  by (auto simp: queue_ok_def queue_prims split: if_splits)

lemma queue_ok_NextScheduled [simp]: "queue_ok env q \<Longrightarrow> request_ok env r \<Longrightarrow> queue_ok env (handleGetNextScheduled env now r q)"
  unfolding handleGetNextScheduled_def
  by (auto split: prod.splits) (auto simp: queue_ok_def)

lemma queue_ok_Next [simp]: "queue_ok env q \<Longrightarrow> request_ok env r \<Longrightarrow> queue_ok env (handleGetNext env r q)"
  unfolding handleGetNext_def
  by (auto split: prod.splits) (auto simp: queue_ok_def)

lemma queue_ok_ById [simp]: "queue_ok env q \<Longrightarrow> queue_ok env (handleGetById env i (IdChan i n) q)"
  unfolding handleGetById_def
  by (auto split: prod.splits) (auto simp: queue_ok_def)

lemma queue_ok_del [simp]: "queue_ok env q \<Longrightarrow> queue_ok env (q\<lparr>q_scheduled := del i (q_scheduled q)\<rparr>)"
  by (auto simp: queue_ok_def split: if_splits)

lemma queue_ok_Scheduled [simp]: "queue_ok env q \<Longrightarrow> sch_ok env s \<Longrightarrow> queue_ok env (handleScheduledItem env s q)"
  unfolding handleScheduledItem_def Let_def by simp (auto simp: queue_ok_def split: if_splits)

lemma queue_ok_scheduledD: "queue_ok env q \<Longrightarrow> map_of (q_scheduled q) i = Some s \<Longrightarrow> qe_getId env (si_item s) = i \<and> sch_ok env s"
  by (simp add: queue_ok_def)

lemma queue_ok_dueD: "queue_ok env q \<Longrightarrow> s \<in> set (entries (q_dueWaiters q) i) \<Longrightarrow> qe_getId env (si_item s) = i \<and> sch_ok env s"
  by (simp add: queue_ok_def)

lemma queue_ok_check [simp]: "queue_ok env q \<Longrightarrow> queue_ok env (check_scheduled env now x i q)"
  unfolding check_scheduled_def using queue_ok_scheduledD [of env q i] by (auto split: option.splits)

lemma queue_ok_InSchedule [simp]: "queue_ok env q \<Longrightarrow> queue_ok env (checkInSchedule env now visited x q)"
  unfolding checkInSchedule_def by (induction visited arbitrary: q) auto

lemma queue_ok_first [simp]: "queue_ok env q \<Longrightarrow> queue_ok env (snd (first_waiter i r q))"
  unfolding first_waiter_def by (auto simp: queue_ok_def queue_prims split: list.splits)

lemma queue_ok_loop:
  "queue_ok env (snd rq) \<Longrightarrow> \<forall>s\<in>set ws. sch_ok env s \<Longrightarrow> due_loop env now x ws filtered rq = (fs, rq') \<Longrightarrow> queue_ok env (snd rq')"
proof (induction env now x ws filtered rq arbitrary: fs rq' rule: due_loop.induct)
  case (2 env now x w ws filtered responded q)
  then show ?case by (auto split: if_splits)
qed auto

lemma extract_sets: "List.extract P xs = Some (ys, y, zs) \<Longrightarrow> P y \<and> set xs = insert y (set (ys @ zs)) \<and> mset xs = add_mset y (mset (ys @ zs))"
  by (drule extract_SomeE) simp

lemma queue_ok_getById [simp]: "queue_ok env (snd rq) \<Longrightarrow> queue_ok env (snd (checkGetByIdWaiters env x rq))"
  by (simp add: checkGetByIdWaiters_def)

lemma due_loop_filtered: "due_loop env now x ws filtered rq = (fs, rq') \<Longrightarrow> set fs \<subseteq> set filtered \<union> set ws"
proof (induction env now x ws filtered rq arbitrary: fs rq' rule: due_loop.induct)
  case (2 env now x w ws filtered responded q)
  then show ?case by (fastforce split: if_splits)
qed auto

lemma next_scheduled_due [simp]: "q_dueWaiters (handleGetNextScheduled env now r q) = q_dueWaiters q"
  by (auto simp: handleGetNextScheduled_def queue_prims split: prod.splits)

lemma due_loop_due: "due_loop env now x ws filtered rq = (fs, rq') \<Longrightarrow> q_dueWaiters (snd rq') = q_dueWaiters (snd rq)"
proof (induction env now x ws filtered rq arbitrary: fs rq' rule: due_loop.induct)
  case (2 env now x w ws filtered responded q)
  then show ?case by (auto simp: queue_prims split: if_splits)
qed auto

lemma queue_ok_put_due:
  assumes "queue_ok env q" "\<forall>s\<in>set fs. qe_getId env (si_item s) = i \<and> sch_ok env s"
  shows "queue_ok env (q\<lparr>q_dueWaiters := put i fs (q_dueWaiters q)\<rparr>)" "queue_ok env (q\<lparr>q_dueWaiters := del i (q_dueWaiters q)\<rparr>)"
  using assms by (auto simp: queue_ok_def)

lemma queue_ok_due [simp]:
  assumes "queue_ok env (snd rq)"
  shows "queue_ok env (snd (checkDueWaiters env now x rq))"
proof -
  let ?ws = "entries (q_dueWaiters (snd rq)) (qe_getId env x)"
  obtain fs responded q where r: "due_loop env now x ?ws [] rq = (fs, responded, q)" by (metis prod_cases3)
  have ws: "\<forall>s\<in>set ?ws. qe_getId env (si_item s) = qe_getId env x \<and> sch_ok env s"
    using queue_ok_dueD [OF assms] by blast
  then have "queue_ok env q" using queue_ok_loop [OF assms _ r] by auto
  then show ?thesis
    using assms ws due_loop_filtered [OF r] queue_ok_put_due [of env q fs "qe_getId env x"]
    by (auto simp: checkDueWaiters_def Let_def r)
qed

lemma queue_ok_next_waiters:
  assumes "queue_ok env q" "set ws \<subseteq> set (q_getNextWaiters q)"
  shows "queue_ok env (q\<lparr>q_getNextWaiters := ws\<rparr>)"
  using assms by (auto simp: queue_ok_def)

lemma queue_ok_scheduled_waiters:
  assumes "queue_ok env q" "set ws \<subseteq> set (q_getNextScheduledWaiters q)"
  shows "queue_ok env (q\<lparr>q_getNextScheduledWaiters := ws\<rparr>)"
  using assms by (auto simp: queue_ok_def)

lemma queue_ok_requestD:
  "queue_ok env q \<Longrightarrow> r \<in> set (q_getNextWaiters q) \<Longrightarrow> request_ok env r"
  "queue_ok env q \<Longrightarrow> r \<in> set (q_getNextScheduledWaiters q) \<Longrightarrow> request_ok env r"
  by (auto simp: queue_ok_def)

lemma queue_ok_nextScheduled [simp]: "queue_ok env (snd rq) \<Longrightarrow> queue_ok env (snd (checkNextScheduledWaiters env now x rq))"
  unfolding checkNextScheduledWaiters_def Let_def
  by (auto split: prod.splits option.splits dest!: extract_sets intro!: queue_ok_schedule queue_ok_scheduled_waiters
      intro: queue_ok_requestD(2))

lemma queue_ok_getNext [simp]: "queue_ok env (snd rq) \<Longrightarrow> queue_ok env (snd (checkGetNextWaiters env x rq))"
  unfolding checkGetNextWaiters_def
  by (auto split: prod.splits option.splits dest!: extract_sets intro!: queue_ok_next_waiters)

lemma queue_ok_other [simp]:
  "queue_ok env (q\<lparr>q_store := c\<rparr>) = queue_ok env q"
  "queue_ok env (q\<lparr>q_itemLocked := ls\<rparr>) = queue_ok env q"
  "queue_ok env (q\<lparr>q_sent := out\<rparr>) = queue_ok env q"
  "queue_ok env q \<Longrightarrow> queue_ok env (q\<lparr>q_timers := remove1 s (q_timers q)\<rparr>)"
  by (auto simp: queue_ok_def dest: notin_set_remove1)

lemma queue_ok_hand_on [simp]: "queue_ok env q \<Longrightarrow> queue_ok env (hand_on env now visited x q)"
  by (simp add: hand_on_def)

lemma queue_ok_Release [simp]: "queue_ok env q \<Longrightarrow> queue_ok env (snd (handleReleaseItem env now visited i upd q))"
  unfolding handleReleaseItem_def releaseGetByIdWaitersWithError_def Let_def
  by (auto split: option.splits sum.splits prod.splits)

lemma cancel_due_cases:
  assumes "wf_map (q_dueWaiters q)"
  shows "cancel_due i q = q \<or>
    (\<exists>k ws. set ws \<subseteq> set (entries (q_dueWaiters q) k) \<and> cancel_due i q = q\<lparr>q_dueWaiters := put k ws (q_dueWaiters q)\<rparr>)"
proof (cases "List.extract (\<lambda>kws. \<exists>w\<in>set (snd kws). gn_id (si_request w) = i) (q_dueWaiters q)")
  case (Some e)
  obtain xs k ws ys where e: "e = (xs, (k, ws), ys)" by (cases e) auto
  have ws: "entries (q_dueWaiters q) k = ws"
    using extract_sets [OF Some [unfolded e]] assms map_of_wf_in [of "q_dueWaiters q" k ws] by (simp add: entries_def)
  show ?thesis
  proof (cases "List.extract (\<lambda>w. gn_id (si_request w) = i) ws")
    case (Some f)
    obtain bs w cs where f: "f = (bs, w, cs)" by (cases f) auto
    have "set (bs @ cs) \<subseteq> set (entries (q_dueWaiters q) k)" using extract_sets [OF Some [unfolded f]] ws by auto
    moreover have "cancel_due i q = q\<lparr>q_dueWaiters := put k (bs @ cs) (q_dueWaiters q)\<rparr>"
      using \<open>List.extract _ (q_dueWaiters q) = _\<close> Some by (simp add: cancel_due_def e f)
    ultimately show ?thesis by blast
  qed (use Some in \<open>simp add: cancel_due_def e\<close>)
qed (simp add: cancel_due_def)

lemma queue_ok_cancel [simp]: "queue_ok env q \<Longrightarrow> queue_ok env (handleCancelRequest env i q)"
proof -
  assume ok: "queue_ok env q"
  have 1: "queue_ok env (cancel_next env i q)" if "queue_ok env q" for q
    using that queue_ok_next_waiters [OF that]
    by (auto simp: cancel_next_def cancel_waiter_def split: prod.splits option.splits dest!: extract_sets)
  have 2: "queue_ok env (cancel_next_scheduled env i q)" if "queue_ok env q" for q
    using that by (auto simp: cancel_next_scheduled_def cancel_waiter_def queue_ok_def split: prod.splits option.splits dest!: extract_sets)
  have 3: "queue_ok env (cancel_scheduled env i q)" if "queue_ok env q" for q
    using that by (auto simp: cancel_scheduled_def split: prod.splits option.splits)
  have 4: "queue_ok env (cancel_due i q)" if ok: "queue_ok env q" for q
  proof -
    have "wf_map (q_dueWaiters q)" using ok by (simp add: queue_ok_def)
    from cancel_due_cases [OF this, of i] show ?thesis
    proof (elim disjE exE conjE)
      fix k ws assume "set ws \<subseteq> set (entries (q_dueWaiters q) k)" "cancel_due i q = q\<lparr>q_dueWaiters := put k ws (q_dueWaiters q)\<rparr>"
      then show ?thesis using queue_ok_put_due(1) [OF ok, of ws k] queue_ok_dueD [OF ok, of _ k] by (simp add: subset_iff)
    qed (simp add: ok)
  qed
  show ?thesis using ok by (simp add: handleCancelRequest_def 1 2 3 4)
qed

lemma queue_ok_close [simp]: "queue_ok env q \<Longrightarrow> queue_ok env (handleClose env q)"
  by (simp add: handleClose_def queue_ok_def)

subsection \<open>Nothing is handed out twice\<close>

text \<open>
  One part of the work of a handler gives out only items that are not locked, each once, and locks them. Parts compose.
\<close>

definition gives :: "('a, 'c, 'd, 'f) queue_env \<Rightarrow> ('a, 'c, 'f) Queue \<Rightarrow> ('a, 'c, 'f) Queue \<Rightarrow> bool" where
  "gives env q q' \<longleftrightarrow> (\<exists>out. q_sent q' = q_sent q @ out \<and> distinct (map snd (handed_all env out)) \<and>
     snd ` set (handed_all env out) \<inter> set (q_itemLocked q) = {} \<and>
     set (q_itemLocked q) \<union> snd ` set (handed_all env out) \<subseteq> set (q_itemLocked q'))"

lemma handed_all_simps [simp]:
  "handed_all env [] = []" "handed_all env (m # out) = handed env m @ handed_all env out"
  "handed_all env (out @ out') = handed_all env out @ handed_all env out'"
  by (simp_all add: handed_all_def)

lemma gives_same: "q_sent q' = q_sent q \<Longrightarrow> q_itemLocked q' = q_itemLocked q \<Longrightarrow> gives env q q'"
  by (simp add: gives_def)

lemma gives_trans:
  assumes "gives env q q1" "gives env q1 q2"
  shows "gives env q q2"
proof -
  obtain out where 1: "q_sent q1 = q_sent q @ out" "distinct (map snd (handed_all env out))"
    "snd ` set (handed_all env out) \<inter> set (q_itemLocked q) = {}"
    "set (q_itemLocked q) \<union> snd ` set (handed_all env out) \<subseteq> set (q_itemLocked q1)"
    using assms(1) by (auto simp: gives_def)
  obtain out' where 2: "q_sent q2 = q_sent q1 @ out'" "distinct (map snd (handed_all env out'))"
    "snd ` set (handed_all env out') \<inter> set (q_itemLocked q1) = {}"
    "set (q_itemLocked q1) \<union> snd ` set (handed_all env out') \<subseteq> set (q_itemLocked q2)"
    using assms(2) by (auto simp: gives_def)
  have "snd ` set (handed_all env out) \<inter> snd ` set (handed_all env out') = {}" using 1(4) 2(3) by blast
  then have "distinct (map snd (handed_all env (out @ out')))" using 1(2) 2(2) by (simp only: handed_all_simps map_append distinct_append set_map)
  moreover have "snd ` set (handed_all env (out @ out')) \<inter> set (q_itemLocked q) = {}"
    "set (q_itemLocked q) \<union> snd ` set (handed_all env (out @ out')) \<subseteq> set (q_itemLocked q2)"
    using 1(3,4) 2(3,4) by (simp_all only: handed_all_simps set_append image_Un) blast+
  ultimately show ?thesis unfolding gives_def using 1(1) 2(1) by (intro exI [of _ "out @ out'"]) simp
qed

lemma gives_respond_error: "handed env (ch, r) = [] \<Longrightarrow> gives env q (respond ch r q)"
  by (simp add: gives_def respond_def)

lemma gives_lock: "gives env q (lock_item i q)"
  by (auto simp: gives_def lock_item_def)

lemma gives_hand: "\<not> isLocked q i \<Longrightarrow> handed env (ch, r) \<in> {[], [(ch, i)]} \<Longrightarrow> gives env q (respond ch r (lock_item i q))"
  by (auto simp: gives_def respond_def lock_item_def isLocked_def)

lemma gives_schedule [simp]: "gives env q (scheduleItem env r x q)"
  by (rule gives_same) (simp_all add: queue_prims)

lemma gives_unschedule: "gives env q (unschedule i s q)"
  by (rule gives_same) (simp_all add: queue_prims)

lemma gives_back: "gives env (unschedule i s q) q' \<Longrightarrow> gives env q q'"
  using gives_trans [OF gives_unschedule] .

lemma request_ok_chan: "request_ok env r \<Longrightarrow> \<exists>n. gn_responseCh r = NextChan n"
  by (simp add: request_ok_def)

lemma collection_okD:
  assumes "collection_ok env"
  shows "qe_getId env (qe_setId env x i) = i"
    and "qe_FindId env c i = Inr d \<Longrightarrow> qe_unmarshal env d = (v, None) \<Longrightarrow> qe_getId env v = i"
    and "qe_Find env c f = Inr rows \<Longrightarrow> Inr d \<in> set rows \<Longrightarrow> qe_unmarshal env d = (v, None) \<Longrightarrow> qe_FindId env c (qe_getId env v) = Inr d"
    and "qe_UpsertOne env c (qe_SetId env d i) = Inr c' \<Longrightarrow> qe_FindId env c' i = Inr (qe_SetId env d i)"
  using assms unfolding collection_ok_def by blast+

lemma query_rows_found: "query_rows env P rows = (x, None) \<Longrightarrow> P x \<and> (\<exists>d. Inr d \<in> set rows \<and> qe_unmarshal env d = (x, None))"
  by (induction env P rows rule: query_rows.induct) (auto split: prod.splits option.splits if_splits)

lemma storage_query_found:
  assumes "storage_query env c f P = (x, None)" "collection_ok env"
  shows "P x \<and> (\<exists>d. qe_FindId env c (qe_getId env x) = Inr d \<and> qe_unmarshal env d = (x, None))"
proof -
  obtain rows where rows: "qe_Find env c f = Inr rows" "query_rows env P rows = (x, None)"
    using assms(1) by (auto simp: storage_query_def split: sum.splits)
  obtain d where "P x" "Inr d \<in> set rows" "qe_unmarshal env d = (x, None)" using query_rows_found [OF rows(2)] by blast
  with collection_okD(3) [OF assms(2) rows(1)] show ?thesis by blast
qed

lemma storage_get_id: "collection_ok env \<Longrightarrow> storage_get env c i = (x, None) \<Longrightarrow> qe_getId env x = i"
  using collection_okD(2) [of env c i] by (auto simp: storage_get_def split: sum.splits)

lemma gives_NextScheduled:
  assumes "collection_ok env" "request_ok env r"
  shows "gives env q (handleGetNextScheduled env now r q)"
proof -
  let ?P = "\<lambda>info. \<not> isLocked q (qe_getId env info) \<and> \<not> isScheduled env q info \<and> gn_filter r info"
  obtain x err where f: "storage_query env (q_store q) (gn_query r) ?P = (x, err)" by fastforce
  obtain n where n: "gn_responseCh r = NextChan n" using request_ok_chan [OF assms(2)] by blast
  show ?thesis
  proof (cases err)
    case None
    then have "?P x" using storage_query_found [OF f [unfolded None] assms(1)] by blast
    then show ?thesis using None gives_hand [of q "qe_getId env x" env "NextChan n" "(x, None)"]
      by (simp add: handleGetNextScheduled_def f n)
  next
    case (Some e)
    then show ?thesis using gives_respond_error [of env "NextChan n"]
      by (simp add: handleGetNextScheduled_def f n gives_same)
  qed
qed

lemma gives_Next:
  assumes "collection_ok env" "request_ok env r"
  shows "gives env q (handleGetNext env r q)"
proof -
  let ?P = "\<lambda>info. \<not> isLocked q (qe_getId env info) \<and> gn_filter r info"
  obtain x err where f: "storage_query env (q_store q) (gn_query r) ?P = (x, err)" by fastforce
  obtain n where n: "gn_responseCh r = NextChan n" using request_ok_chan [OF assms(2)] by blast
  show ?thesis
  proof (cases err)
    case None
    then have "?P x" using storage_query_found [OF f [unfolded None] assms(1)] by blast
    then show ?thesis using None gives_hand [of q "qe_getId env x" env "NextChan n" "(x, None)"]
      by (simp add: handleGetNext_def f n)
  next
    case (Some e)
    then show ?thesis using gives_respond_error [of env "NextChan n"]
      by (simp add: handleGetNext_def f n gives_same)
  qed
qed

lemma gives_ById: "gives env q (handleGetById env i (IdChan i n) q)"
  unfolding handleGetById_def
  by (auto split: prod.splits intro!: gives_same gives_hand gives_respond_error)

lemma gives_Scheduled:
  assumes "collection_ok env" "sch_ok env s"
  shows "gives env q (handleScheduledItem env s q)"
proof -
  let ?i = "qe_getId env (si_item s)"
  let ?q = "q\<lparr>q_scheduled := del ?i (q_scheduled q)\<rparr>"
  obtain n where n: "si_responseCh s = NextChan n" using assms(2) request_ok_chan [OF sch_okD [OF assms(2)]] by (auto simp: sch_ok_def)
  obtain x err where g: "storage_get env (q_store q) ?i = (x, err)" by fastforce
  have "gives env ?q (respond (si_responseCh s) (x, err) (lock_item ?i ?q))" if "\<not> isLocked ?q ?i"
    using that storage_get_id [OF assms(1), of "q_store q" ?i x] g by (intro gives_hand) (auto simp: n)
  then have "gives env q (respond (si_responseCh s) (x, err) (lock_item ?i ?q))" if "\<not> isLocked ?q ?i"
    using that by (intro gives_trans [OF gives_same [of ?q q]]) simp_all
  then show ?thesis by (auto simp: handleScheduledItem_def Let_def g gives_same)
qed

text \<open>After a release the queue knows the item as the store has it, so that a request whose filter rejects it does not find it.\<close>

definition known :: "('a, 'c, 'd, 'f) queue_env \<Rightarrow> 'a \<Rightarrow> ('a, 'c, 'f) Queue \<Rightarrow> bool" where
  "known env x q \<longleftrightarrow> (\<forall>d v r. qe_FindId env (q_store q) (qe_getId env x) = Inr d \<longrightarrow> qe_unmarshal env d = (v, None) \<longrightarrow>
     request_ok env r \<longrightarrow> gn_filter r v = gn_filter r x)"

lemma stores_same [simp]:
  "q_store (respond ch r q) = q_store q" "q_store (lock_item i q) = q_store q" "q_store (unschedule i s q) = q_store q"
  "q_store (scheduleItem env r' x q) = q_store q"
  by (simp_all add: queue_prims)

lemma store_NextScheduled [simp]: "q_store (handleGetNextScheduled env now r q) = q_store q"
  by (auto simp: handleGetNextScheduled_def split: prod.splits)

lemma known_store: "q_store q' = q_store q \<Longrightarrow> known env x q' = known env x q"
  by (simp add: known_def)

lemma locked_prims [simp]:
  "isLocked (respond ch r q) j = isLocked q j" "isLocked (lock_item i q) j = (j = i \<or> isLocked q j)"
  "isLocked (unschedule i s q) j = isLocked q j" "isLocked (scheduleItem env r' x q) j = isLocked q j"
  by (auto simp: queue_prims isLocked_def)

lemma locked_updates [simp]:
  "isLocked (q\<lparr>q_getNextScheduledWaiters := a\<rparr>) j = isLocked q j" "isLocked (q\<lparr>q_getNextWaiters := a\<rparr>) j = isLocked q j"
  "isLocked (q\<lparr>q_watchers := b\<rparr>) j = isLocked q j" "isLocked (q\<lparr>q_dueWaiters := c\<rparr>) j = isLocked q j"
  "isLocked (q\<lparr>q_getByIdWaiters := d\<rparr>) j = isLocked q j" "isLocked (q\<lparr>q_scheduled := e\<rparr>) j = isLocked q j"
  "isLocked (q\<lparr>q_store := g\<rparr>) j = isLocked q j"
  by (simp_all add: isLocked_def)

lemma NextScheduled_avoids:
  assumes "collection_ok env" "request_ok env r" "known env x q" "\<not> gn_filter r x"
  shows "isLocked (handleGetNextScheduled env now r q) (qe_getId env x) = isLocked q (qe_getId env x)"
proof -
  let ?P = "\<lambda>info. \<not> isLocked q (qe_getId env info) \<and> \<not> isScheduled env q info \<and> gn_filter r info"
  obtain y err where f: "storage_query env (q_store q) (gn_query r) ?P = (y, err)" by fastforce
  show ?thesis
  proof (cases err)
    case None
    then obtain d where d: "?P y" "qe_FindId env (q_store q) (qe_getId env y) = Inr d" "qe_unmarshal env d = (y, None)"
      using storage_query_found [OF f [unfolded None] assms(1)] by blast
    have "qe_getId env y \<noteq> qe_getId env x"
    proof
      assume e: "qe_getId env y = qe_getId env x"
      then have "gn_filter r y = gn_filter r x" using assms(2,3) d(2,3) by (simp add: known_def)
      with d(1) assms(4) show False by blast
    qed
    then show ?thesis using None by (auto simp: handleGetNextScheduled_def f)
  qed (simp add: handleGetNextScheduled_def f)
qed

definition handing :: "('a, 'c, 'd, 'f) queue_env \<Rightarrow> 'a \<Rightarrow> ('a, 'c, 'f) Queue \<Rightarrow> bool \<times> ('a, 'c, 'f) Queue \<Rightarrow> bool" where
  "handing env x q rq \<longleftrightarrow> gives env q (snd rq) \<and> queue_ok env (snd rq) \<and> known env x (snd rq) \<and>
     (fst rq \<or> \<not> isLocked (snd rq) (qe_getId env x))"

lemma handing_check:
  assumes "collection_ok env" "handing env x q0 (False, q)"
  shows "handing env x q0 (False, check_scheduled env now x i q)"
proof (cases "map_of (q_scheduled q) i")
  case (Some s)
  let ?q = "unschedule i s q" and ?r = "si_request s"
  have ok: "queue_ok env q" and k: "known env x ?q" and u: "\<not> isLocked ?q (qe_getId env x)" and g: "gives env q0 ?q"
    using assms(2) gives_trans [OF _ gives_unschedule] by (auto simp: handing_def known_def)
  have r: "request_ok env ?r" using queue_ok_scheduledD [OF ok Some] by simp
  have "handing env x q0 (False, scheduleItem env ?r x ?q)"
    using ok r k u g gives_trans [OF g gives_schedule] by (auto simp: handing_def known_def)
  moreover have "handing env x q0 (False, handleGetNextScheduled env now ?r ?q)" if "\<not> gn_filter ?r x"
    using ok r k u gives_trans [OF g gives_NextScheduled [OF assms(1) r]] NextScheduled_avoids [OF assms(1) r k that]
    by (auto simp: handing_def known_def)
  ultimately show ?thesis using assms(2) Some by (auto simp: check_scheduled_def)
qed (use assms in \<open>simp add: check_scheduled_def\<close>)

lemma handing_InSchedule:
  "collection_ok env \<Longrightarrow> handing env x q0 (False, q) \<Longrightarrow> handing env x q0 (False, checkInSchedule env now visited x q)"
  unfolding checkInSchedule_def by (induction visited arbitrary: q) (auto intro: handing_check)

lemma handing_hand:
  assumes "handing env x q0 (False, q)" "handed env (ch, r) \<in> {[], [(ch, qe_getId env x)]}"
  shows "gives env q0 (respond ch r (lock_item (qe_getId env x) q))"
  using assms gives_trans [OF _ gives_hand [of q "qe_getId env x" env ch r]] by (auto simp: handing_def)

lemma gives_upd:
  "gives env q q' \<Longrightarrow> gives env q (q'\<lparr>q_getByIdWaiters := a\<rparr>)" "gives env q q' \<Longrightarrow> gives env q (q'\<lparr>q_dueWaiters := b\<rparr>)"
  "gives env q q' \<Longrightarrow> gives env q (q'\<lparr>q_getNextWaiters := c\<rparr>)" "gives env q q' \<Longrightarrow> gives env q (q'\<lparr>q_getNextScheduledWaiters := c\<rparr>)"
  by (simp_all add: gives_def)

lemma gives_first:
  assumes "queue_ok env q" "\<not> isLocked q i" "\<And>n. handed env (IdChan i n, r) \<in> {[], [(IdChan i n, i)]}"
  shows "gives env q (snd (first_waiter i r q))"
proof (cases "entries (q_getByIdWaiters q) i")
  case (Cons ch ws)
  then obtain n where "ch = IdChan i n" using assms(1) by (fastforce simp: queue_ok_def)
  then show ?thesis using gives_upd(1) [OF gives_hand [OF assms(2) assms(3) [of n]]] Cons
    by (simp add: first_waiter_def Let_def)
qed (simp add: first_waiter_def gives_same)

lemma handing_getById:
  assumes "handing env x q0 (False, q)"
  shows "handing env x q0 (checkGetByIdWaiters env x (False, q))"
proof -
  let ?rq = "first_waiter (qe_getId env x) (x, None) q"
  have "gives env q0 (snd ?rq)"
    using assms by (intro gives_trans [OF _ gives_first]) (auto simp: handing_def)
  moreover have "known env x (snd ?rq)" "fst ?rq \<or> snd ?rq = q"
    using assms by (auto simp: handing_def known_def first_waiter_def Let_def split: list.split)
  ultimately show ?thesis using assms by (auto simp: handing_def checkGetByIdWaiters_def)
qed

lemma handing_loop:
  "collection_ok env \<Longrightarrow> handing env x q0 rq \<Longrightarrow> \<forall>s\<in>set ws. sch_ok env s \<Longrightarrow> due_loop env now x ws filtered rq = (fs, rq') \<Longrightarrow>
    handing env x q0 rq'"
proof (induction env now x ws filtered rq arbitrary: fs rq' rule: due_loop.induct)
  case (2 env now x w ws filtered responded q)
  have sch: "sch_ok env w" "request_ok env (si_request w)" using "2.prems"(3) by simp_all
  then obtain n where n: "si_responseCh w = NextChan n" using request_ok_chan by (fastforce simp: sch_ok_def)
  have h: "handing env x q0 (True, respond (si_responseCh w) (x, None) (lock_item (qe_getId env x) q))" if "\<not> responded"
    using that "2.prems"(2) handing_hand [of env x q0 q "NextChan n" "(x, None)"] by (simp add: handing_def n known_def)
  have s: "handing env x q0 (responded, handleGetNextScheduled env now (si_request w) q)" if "\<not> gn_filter (si_request w) x"
    using "2.prems"(1,2) that sch NextScheduled_avoids [OF "2.prems"(1) sch(2) _ that]
      gives_trans [OF _ gives_NextScheduled [OF "2.prems"(1) sch(2)]] by (auto simp: handing_def known_def)
  have ws: "\<forall>s\<in>set ws. sch_ok env s" using "2.prems"(3) by simp
  consider "gn_filter (si_request w) x" "\<not> responded" | "gn_filter (si_request w) x" responded | "\<not> gn_filter (si_request w) x" by blast
  then show ?case
  proof cases
    case 1
    show ?thesis by (rule "2.IH"(1) [OF 1 "2.prems"(1) h ws]) (use 1 "2.prems"(4) in auto)
  next
    case 2
    show ?thesis by (rule "2.IH"(2) [OF 2(1) _ "2.prems"(1,2) ws]) (use 2 "2.prems"(4) in auto)
  next
    case 3
    show ?thesis by (rule "2.IH"(3) [OF 3 "2.prems"(1) s ws]) (use 3 "2.prems"(4) in auto)
  qed
qed auto

lemma handing_due:
  assumes "collection_ok env" "handing env x q0 rq"
  shows "handing env x q0 (checkDueWaiters env now x rq)"
proof -
  let ?ws = "entries (q_dueWaiters (snd rq)) (qe_getId env x)"
  obtain fs responded q where r: "due_loop env now x ?ws [] rq = (fs, responded, q)" by (metis prod_cases3)
  have ok: "queue_ok env (snd rq)" using assms(2) by (simp add: handing_def)
  have "handing env x q0 (responded, q)" using handing_loop [OF assms _ r] queue_ok_dueD [OF ok] by blast
  moreover have "checkDueWaiters env now x rq = (if ?ws = [] then rq else
      (responded, q\<lparr>q_dueWaiters := (if fs = [] then del (qe_getId env x) (q_dueWaiters q) else put (qe_getId env x) fs (q_dueWaiters q))\<rparr>))"
    by (simp add: checkDueWaiters_def Let_def r)
  ultimately show ?thesis using assms(2) queue_ok_due [OF ok, of now x] gives_upd(2) [of env q0 q] by (auto simp: handing_def known_def)
qed

lemma handing_nextScheduled:
  assumes "collection_ok env" "handing env x q0 rq"
  shows "handing env x q0 (checkNextScheduledWaiters env now x rq)"
proof -
  obtain responded q where rq: "rq = (responded, q)" by fastforce
  have "gives env q0 (snd (checkNextScheduledWaiters env now x rq))"
  proof (cases "\<not> responded \<and> List.extract (\<lambda>w. gn_filter w x \<and> \<not> isScheduled env q x) (q_getNextScheduledWaiters q) \<noteq> None")
    case True
    then obtain bs w cs where e: "List.extract (\<lambda>w. gn_filter w x \<and> \<not> isScheduled env q x) (q_getNextScheduledWaiters q) = Some (bs, w, cs)"
      and r: "\<not> responded" by auto
    let ?q = "q\<lparr>q_getNextScheduledWaiters := bs @ cs\<rparr>"
    have "w \<in> set (q_getNextScheduledWaiters q)" using extract_sets [OF e] by auto
    then obtain n where n: "gn_responseCh w = NextChan n"
      using assms(2) queue_ok_requestD(2) request_ok_chan by (fastforce simp: rq handing_def)
    have g: "gives env q0 ?q" and u: "\<not> isLocked ?q (qe_getId env x)" using assms(2) r gives_upd(4) by (auto simp: rq handing_def)
    then show ?thesis using r e n gives_trans [OF g gives_schedule] gives_trans [OF g gives_hand [OF u, of env "NextChan n" "(x, None)"]]
      by (simp add: rq checkNextScheduledWaiters_def Let_def)
  qed (use assms(2) in \<open>auto simp: rq checkNextScheduledWaiters_def handing_def split: option.split\<close>)
  moreover have "fst (checkNextScheduledWaiters env now x rq) \<or> \<not> isLocked (snd (checkNextScheduledWaiters env now x rq)) (qe_getId env x)"
    "q_store (snd (checkNextScheduledWaiters env now x rq)) = q_store q"
    using assms(2) by (auto simp: rq checkNextScheduledWaiters_def handing_def Let_def split: option.splits prod.splits)
  ultimately show ?thesis using assms(2) by (auto simp: handing_def known_def rq)
qed

lemma gives_getNext:
  assumes "handing env x q0 rq"
  shows "gives env q0 (snd (checkGetNextWaiters env x rq))"
proof -
  obtain responded q where rq: "rq = (responded, q)" by fastforce
  show ?thesis
  proof (cases "\<not> responded \<and> List.extract (\<lambda>w. gn_filter w x) (q_getNextWaiters q) \<noteq> None")
    case True
    then obtain bs w cs where e: "List.extract (\<lambda>w. gn_filter w x) (q_getNextWaiters q) = Some (bs, w, cs)" and r: "\<not> responded" by auto
    let ?q = "q\<lparr>q_getNextWaiters := bs @ cs\<rparr>"
    have "w \<in> set (q_getNextWaiters q)" using extract_sets [OF e] by auto
    then obtain n where n: "gn_responseCh w = NextChan n"
      using assms queue_ok_requestD(1) request_ok_chan by (fastforce simp: rq handing_def)
    have g: "gives env q0 ?q" and u: "\<not> isLocked ?q (qe_getId env x)" using assms r gives_upd(3) by (auto simp: rq handing_def)
    then show ?thesis using r e n gives_trans [OF g gives_hand [OF u, of env "NextChan n" "(x, None)"]]
      by (simp add: rq checkGetNextWaiters_def)
  qed (use assms in \<open>auto simp: rq checkGetNextWaiters_def handing_def split: option.split\<close>)
qed

lemma gives_hand_on:
  assumes "collection_ok env" "queue_ok env q" "known env x q" "\<not> isLocked q (qe_getId env x)"
  shows "gives env q (hand_on env now visited x q)"
proof -
  have "handing env x q (False, q)" using assms by (simp add: handing_def gives_same)
  then show ?thesis unfolding hand_on_def
    by (intro gives_getNext handing_nextScheduled handing_due handing_getById handing_InSchedule assms)
qed

lemma Release_gives:
  assumes "collection_ok env" "queue_ok env q" "isLocked q i" "\<forall>x. upd = Some x \<longrightarrow> qe_getId env x = i"
  shows "gives env (q\<lparr>q_itemLocked := removeAll i (q_itemLocked q)\<rparr>) (snd (handleReleaseItem env now visited i upd q))"
proof -
  let ?q = "q\<lparr>q_itemLocked := removeAll i (q_itemLocked q)\<rparr>"
  have u: "\<not> isLocked ?q i" by (simp add: isLocked_def)
  show ?thesis
  proof (cases upd)
    case (Some x)
    then have i: "qe_getId env x = i" using assms(4) by simp
    show ?thesis
    proof (cases "storage_set env (q_store q) i x")
      case (Inr c)
      have "qe_FindId env c i = Inr (stored_form env i x)"
        using collection_okD(4) [OF assms(1)] Inr by (simp add: storage_set_def stored_form_def)
      then have "known env x (?q\<lparr>q_store := c\<rparr>)" using i by (auto simp: known_def request_ok_def)
      moreover have "gives env ?q (?q\<lparr>q_store := c\<rparr>)" by (rule gives_same) simp_all
      ultimately show ?thesis
        using gives_trans [OF _ gives_hand_on [OF assms(1)], of ?q "?q\<lparr>q_store := c\<rparr>" x now visited] assms(2,3) u Some Inr i
        by (simp add: handleReleaseItem_def)
    qed (use Some assms(3) in \<open>simp add: handleReleaseItem_def gives_same\<close>)
  next
    case None
    obtain x err where g: "storage_get env (q_store q) i = (x, err)" by fastforce
    show ?thesis
    proof (cases "err = None")
      case True
      then have i: "qe_getId env x = i" using storage_get_id [OF assms(1)] g by blast
      have "known env x ?q" using g True i by (auto simp: known_def storage_get_def)
      then show ?thesis using gives_hand_on [OF assms(1), of ?q x now visited] assms(2,3) u None g True i
        by (simp add: handleReleaseItem_def)
    next
      case False
      have "gives env ?q (snd (first_waiter i (qe_defVal env, Some ErrNotFound) ?q))" by (rule gives_first) (use assms(2) u in auto)
      then show ?thesis using False None g assms(3)
        by (auto simp: handleReleaseItem_def releaseGetByIdWaitersWithError_def gives_same Let_def)
    qed
  qed
qed

lemma gives_errors:
  assumes "q_itemLocked q' = q_itemLocked q" "q_sent q' = q_sent q @ out" "\<forall>m\<in>set out. handed env m = []"
  shows "gives env q q'"
proof -
  have "handed_all env out = []" using assms(3) by (simp add: handed_all_def)
  then show ?thesis using assms(1,2) by (auto simp: gives_def)
qed

lemma no_hand [simp]: "err \<noteq> ErrNotFound \<Longrightarrow> handed env (ch, (x, Some err)) = []"
  by (cases ch) simp_all

lemma gives_Cancel: "gives env q (handleCancelRequest env i q)"
proof -
  have w: "\<forall>m\<in>set out. handed env m = []" if "cancel_waiter env i ws = (ws', out)" for ws ws' out
    using that by (auto simp: cancel_waiter_def split: option.splits)
  have 1: "gives env q (cancel_next env i q)" for q
    using w by (auto simp: cancel_next_def split: prod.split intro!: gives_errors)
  have 2: "gives env q (cancel_next_scheduled env i q)" for q
    using w by (auto simp: cancel_next_scheduled_def split: prod.split intro!: gives_errors)
  have 3: "gives env q (cancel_scheduled env i q)" for q
    by (auto simp: cancel_scheduled_def gives_same split: option.split
        intro!: gives_trans [OF gives_respond_error gives_unschedule])
  have 4: "gives env q (cancel_due i q)" for q
    by (auto simp: cancel_due_def split: option.split intro!: gives_same)
  show ?thesis unfolding handleCancelRequest_def using 1 2 3 4 gives_trans by metis
qed

lemma gives_Close: "gives env q (handleClose env q)"
  by (rule gives_errors) (auto simp: handleClose_def)

text \<open>The invariant of a run: what clients hold is locked and held once.\<close>

definition holds_ok :: "('a, 'c, 'd, 'f) queue_env \<Rightarrow> ('a, 'c, 'f) queue_world \<Rightarrow> bool" where
  "holds_ok env w \<longleftrightarrow> queue_ok env (w_queue w) \<and> distinct (map snd (w_holds w)) \<and>
     snd ` set (w_holds w) \<subseteq> set (q_itemLocked (w_queue w))"

lemma settle_holds:
  assumes "gives env q q'" "queue_ok env q'" "q_sent q = q_sent (w_queue w)" "distinct (map snd (w_holds w))"
    "snd ` set (w_holds w) \<subseteq> set (q_itemLocked q)"
  shows "holds_ok env (settle env q' w)"
proof -
  obtain out where o: "q_sent q' = q_sent q @ out" "distinct (map snd (handed_all env out))"
    "snd ` set (handed_all env out) \<inter> set (q_itemLocked q) = {}"
    "set (q_itemLocked q) \<union> snd ` set (handed_all env out) \<subseteq> set (q_itemLocked q')"
    using assms(1) by (auto simp: gives_def)
  have "snd ` set (w_holds w) \<inter> snd ` set (handed_all env out) = {}" using o(3) assms(5) by blast
  then have "distinct (map snd (w_holds w @ handed_all env out))"
    using o(2) assms(4) by (simp only: map_append distinct_append set_map)
  moreover have "snd ` set (w_holds w @ handed_all env out) \<subseteq> set (q_itemLocked q')"
    using o(4) assms(5) by (simp only: set_append image_Un) blast
  ultimately show ?thesis using assms(2,3) o(1) by (simp add: holds_ok_def settle_def)
qed

lemma settle_same:
  assumes "holds_ok env w" "gives env (w_queue w) q'" "queue_ok env (w_queue w) \<Longrightarrow> queue_ok env q'"
    "w_queue w' = w_queue w" "w_holds w' = w_holds w"
  shows "holds_ok env (settle env q' w')"
  by (rule settle_holds [OF assms(2)]) (use assms(1,3-5) in \<open>auto simp: holds_ok_def\<close>)

lemma release_holds:
  assumes "collection_ok env" "holds_ok env w" "(ch, i) \<in> set (w_holds w)" "\<forall>x. upd = Some x \<longrightarrow> qe_getId env x = i"
  shows "holds_ok env (settle env (snd (handleReleaseItem env now visited i upd (w_queue w))) (w\<lparr>w_holds := remove1 (ch, i) (w_holds w)\<rparr>))"
proof -
  have ok: "queue_ok env (w_queue w)" and d: "distinct (map snd (w_holds w))"
    and l: "snd ` set (w_holds w) \<subseteq> set (q_itemLocked (w_queue w))" using assms(2) by (auto simp: holds_ok_def)
  have "isLocked (w_queue w) i" using assms(3) l by (force simp: isLocked_def)
  note g = Release_gives [OF assms(1) ok this assms(4)]
  have dw: "distinct (w_holds w)" using d by (simp add: distinct_map)
  have "(c, j) \<in> set (w_holds w) \<Longrightarrow> j = i \<Longrightarrow> c = ch" for c j
    using d assms(3) by (metis eq_key_imp_eq_value distinct_map inj_onD prod.inject snd_conv)
  then have s: "snd ` set (remove1 (ch, i) (w_holds w)) \<subseteq> set (q_itemLocked (w_queue w)) - {i}"
    using l dw by (auto simp: set_remove1_eq)
  have r: "distinct (map snd (remove1 (ch, i) (w_holds w)))" using d by (auto simp: distinct_map set_remove1_eq dw intro: inj_on_subset)
  show ?thesis by (rule settle_holds [OF g]) (use ok r s in auto)
qed

lemma qstep_holds:
  assumes "qstep env calm w w'" "collection_ok env" "holds_ok env w"
  shows "holds_ok env w'"
  using assms(1)
proof cases
  case (update ch i visited now x)
  then show ?thesis using release_holds [OF assms(2,3), of ch i "Some (qe_setId env x i)"] collection_okD(1) [OF assms(2)]
    by (simp add: ReleaseAndUpdate_def)
next
  case (release ch i visited now)
  then show ?thesis using release_holds [OF assms(2,3), of ch i None] by (simp add: Release_def)
next
  case (due sch now)
  let ?q = "(w_queue w)\<lparr>q_timers := remove1 sch (q_timers (w_queue w))\<rparr>"
  have "sch_ok env sch" using assms(3) due by (simp add: holds_ok_def queue_ok_def)
  then show ?thesis unfolding due(1)
    by (intro settle_holds [OF gives_Scheduled [OF assms(2), of sch ?q]]) (use assms(3) in \<open>auto simp: holds_ok_def\<close>)
qed (use assms(2,3) in \<open>auto intro!: settle_same [OF assms(3)] gives_ById gives_Next gives_NextScheduled gives_Cancel gives_Close\<close>)

subsection \<open>Every request waits or has one answer\<close>

definition waiting :: "('a, 'c, 'f) Queue \<Rightarrow> chan \<Rightarrow> nat" where
  "waiting q ch =
     count_list (concat (map snd (q_getByIdWaiters q))) ch + count_list (map si_responseCh (concat (map snd (q_dueWaiters q)))) ch +
     count_list (map (\<lambda>kv. si_responseCh (snd kv)) (q_scheduled q)) ch + count_list (map gn_responseCh (q_getNextWaiters q)) ch +
     count_list (map gn_responseCh (q_getNextScheduledWaiters q)) ch"

definition answered :: "('a, 'c, 'f) Queue \<Rightarrow> chan \<Rightarrow> nat" where
  "answered q ch = count_list (map fst (q_sent q)) ch"

definition account :: "('a, 'c, 'f) Queue \<Rightarrow> chan \<Rightarrow> nat" where
  "account q ch = waiting q ch + answered q ch"

lemmas account_defs = account_def waiting_def answered_def

lemma entries_missing: "k \<notin> fst ` set m \<Longrightarrow> entries m k = []"
  using map_of_notin [of m k] by (simp add: entries_def)

lemma count_put_flat:
  assumes "wf_map m"
  shows "count_list (map f (concat (map snd (put k vs m)))) c + count_list (map f (entries m k)) c =
    count_list (map f (concat (map snd m))) c + count_list (map f vs) c"
  using assms
proof (induction k vs m rule: put.induct)
  case (2 k vs k' vs' m)
  then have "entries m k = []" if "k' = k" using that by (simp add: entries_missing)
  then show ?case using 2 by (auto simp: entries_def)
qed simp

lemma count_del_flat:
  assumes "wf_map m"
  shows "count_list (map f (concat (map snd (del k m)))) c + count_list (map f (entries m k)) c = count_list (map f (concat (map snd m))) c"
  using assms
proof (induction m)
  case (Cons kv m)
  obtain k' vs where kv: "kv = (k', vs)" by fastforce
  have "entries m k = []" if "k' = k" using that Cons.prems by (simp add: kv entries_missing)
  then show ?case using Cons by (auto simp: kv entries_def del_def)
qed (simp add: del_def)

lemmas count_put_ids = count_put_flat [where f = "\<lambda>x. x", simplified]
lemmas count_del_ids = count_del_flat [where f = "\<lambda>x. x", simplified]

lemma count_put_new: "map_of m k = None \<Longrightarrow> count_list (map (\<lambda>kv. f (snd kv)) (put k v m)) c =
    count_list (map (\<lambda>kv. f (snd kv)) m) c + (if f v = c then 1 else 0)"
  by (induction k v m rule: put.induct) (auto split: if_splits)

lemma count_del_one: "wf_map m \<Longrightarrow> map_of m k = Some v \<Longrightarrow> count_list (map (\<lambda>kv. f (snd kv)) (del k m)) c + (if f v = c then 1 else 0) =
    count_list (map (\<lambda>kv. f (snd kv)) m) c"
proof (induction m)
  case (Cons kv m)
  obtain k' v' where kv: "kv = (k', v')" by fastforce
  have "del k m = m" if "k' = k" using that Cons.prems by (auto simp: kv del_def filter_id_conv)
  then show ?case using Cons by (auto simp: kv del_def split: if_splits)
qed simp

lemma account_prims [simp]:
  "account (respond ch r q) c = account q c + (if ch = c then 1 else 0)" "account (lock_item i q) c = account q c"
  "account (q\<lparr>q_store := d\<rparr>) c = account q c" "account (q\<lparr>q_itemLocked := ls\<rparr>) c = account q c"
  "account (q\<lparr>q_timers := ts\<rparr>) c = account q c"
  by (simp_all add: account_defs queue_prims)

lemma account_schedule: "\<not> isScheduled env q x \<Longrightarrow> account (scheduleItem env r x q) c = account q c + (if gn_responseCh r = c then 1 else 0)"
  by (simp add: account_defs scheduleItem_def Let_def isScheduled_def count_put_new [where f = si_responseCh])

lemma account_unschedule:
  "wf_map (q_scheduled q) \<Longrightarrow> map_of (q_scheduled q) i = Some s \<Longrightarrow> account (unschedule i s q) c + (if si_responseCh s = c then 1 else 0) = account q c"
  using count_del_one [of "q_scheduled q" i s si_responseCh c] by (simp add: account_defs unschedule_def)

lemma query_filtered: "storage_query env c f P = (x, None) \<Longrightarrow> P x"
  by (auto simp: storage_query_def split: sum.splits dest: query_rows_found)

lemma account_NextScheduled: "account (handleGetNextScheduled env now r q) c = account q c + (if gn_responseCh r = c then 1 else 0)"
proof -
  let ?P = "\<lambda>info. \<not> isLocked q (qe_getId env info) \<and> \<not> isScheduled env q info \<and> gn_filter r info"
  obtain x err where f: "storage_query env (q_store q) (gn_query r) ?P = (x, err)" by fastforce
  have "account (q\<lparr>q_getNextScheduledWaiters := q_getNextScheduledWaiters q @ [r], q_watchers := ws\<rparr>) c =
      account q c + (if gn_responseCh r = c then 1 else 0)" for ws by (simp add: account_defs)
  moreover have "account (scheduleItem env r x q) c = account q c + (if gn_responseCh r = c then 1 else 0)" if "err = None"
    using query_filtered [OF f [unfolded that]] by (simp add: account_schedule)
  ultimately show ?thesis by (simp add: handleGetNextScheduled_def f)
qed

lemma account_Next: "account (handleGetNext env r q) c = account q c + (if gn_responseCh r = c then 1 else 0)"
proof -
  have "account (q\<lparr>q_getNextWaiters := q_getNextWaiters q @ [r], q_watchers := ws\<rparr>) c =
      account q c + (if gn_responseCh r = c then 1 else 0)" for ws by (simp add: account_defs)
  then show ?thesis by (simp add: handleGetNext_def split: prod.split)
qed

lemma queue_ok_maps: "queue_ok env q \<Longrightarrow> wf_map (q_getByIdWaiters q)" "queue_ok env q \<Longrightarrow> wf_map (q_dueWaiters q)" "queue_ok env q \<Longrightarrow> wf_map (q_scheduled q)"
  by (simp_all add: queue_ok_def)

lemma account_ById: "queue_ok env q \<Longrightarrow> account (handleGetById env i ch q) c = account q c + (if ch = c then 1 else 0)"
  using count_put_ids [OF queue_ok_maps(1), of env q i "entries (q_getByIdWaiters q) i @ [ch]" c]
  by (auto simp: handleGetById_def split: prod.split) (simp_all add: account_defs)

lemma account_Scheduled:
  assumes "queue_ok env q" "map_of (q_scheduled q) (qe_getId env (si_item s)) = Some s"
  shows "account (handleScheduledItem env s q) c = account q c"
proof -
  let ?i = "qe_getId env (si_item s)"
  let ?q = "q\<lparr>q_scheduled := del ?i (q_scheduled q)\<rparr>"
  have a: "account ?q c + (if si_responseCh s = c then 1 else 0) = account q c"
    using account_unschedule [OF queue_ok_maps(3) [OF assms(1)] assms(2), of c] by (simp add: account_defs unschedule_def)
  have "account (?q\<lparr>q_dueWaiters := put ?i (entries (q_dueWaiters q) ?i @ [s]) (q_dueWaiters q)\<rparr>) c = account ?q c + (if si_responseCh s = c then 1 else 0)"
    using count_put_flat [OF queue_ok_maps(2) [OF assms(1)], of si_responseCh ?i "entries (q_dueWaiters q) ?i @ [s]" c] by (simp add: account_defs)
  then show ?thesis using a assms(2) by (simp add: handleScheduledItem_def Let_def isScheduled_def)
qed

lemma account_check:
  assumes "queue_ok env q"
  shows "account (check_scheduled env now x i q) c = account q c"
proof (cases "map_of (q_scheduled q) i")
  case (Some s)
  have ch: "gn_responseCh (si_request s) = si_responseCh s" using queue_ok_scheduledD [OF assms Some] by (simp add: sch_ok_def)
  note u = account_unschedule [OF queue_ok_maps(3) [OF assms] Some, of c]
  have "\<not> isScheduled env (unschedule i s q) x" if "i = qe_getId env x \<or> \<not> isScheduled env q x"
    using that by (auto simp: isScheduled_def unschedule_def)
  then show ?thesis using u Some by (auto simp: check_scheduled_def account_schedule account_NextScheduled ch)
qed (simp add: check_scheduled_def)

lemma account_InSchedule: "queue_ok env q \<Longrightarrow> account (checkInSchedule env now visited x q) c = account q c"
  unfolding checkInSchedule_def by (induction visited arbitrary: q) (auto simp: account_check)

lemma account_first:
  assumes "queue_ok env q"
  shows "account (snd (first_waiter i r q)) c = account q c"
proof (cases "entries (q_getByIdWaiters q) i")
  case (Cons ch ws)
  then show ?thesis
    using count_put_ids [OF queue_ok_maps(1) [OF assms], of i ws c] count_del_ids [OF queue_ok_maps(1) [OF assms], of i c]
    by (auto simp: first_waiter_def Let_def account_defs queue_prims split: if_splits)
qed (simp add: first_waiter_def)

lemma account_loop:
  "\<forall>s\<in>set ws. sch_ok env s \<Longrightarrow> due_loop env now x ws filtered rq = (fs, rq') \<Longrightarrow>
    account (snd rq') c + count_list (map si_responseCh fs) c =
    account (snd rq) c + count_list (map si_responseCh filtered) c + count_list (map si_responseCh ws) c"
proof (induction env now x ws filtered rq arbitrary: fs rq' rule: due_loop.induct)
  case (2 env now x w ws filtered responded q)
  have "gn_responseCh (si_request w) = si_responseCh w" using "2.prems"(1) by (simp add: sch_ok_def)
  then show ?case using 2 by (auto simp: account_NextScheduled split: if_splits)
qed simp

lemma account_due:
  assumes "queue_ok env (snd rq)"
  shows "account (snd (checkDueWaiters env now x rq)) c = account (snd rq) c"
proof -
  let ?i = "qe_getId env x"
  let ?ws = "entries (q_dueWaiters (snd rq)) ?i"
  obtain fs responded q where r: "due_loop env now x ?ws [] rq = (fs, responded, q)" by (metis prod_cases3)
  have d: "q_dueWaiters q = q_dueWaiters (snd rq)" using due_loop_due [OF r] by simp
  have "\<forall>s\<in>set ?ws. sch_ok env s" using queue_ok_dueD [OF assms] by blast
  note a = account_loop [OF this r, of c]
  show ?thesis
    using a count_put_flat [OF queue_ok_maps(2) [OF assms], of si_responseCh ?i fs c] count_del_flat [OF queue_ok_maps(2) [OF assms], of si_responseCh ?i c]
    by (auto simp: checkDueWaiters_def Let_def r account_defs d)
qed

lemma count_extract: "List.extract P xs = Some (bs, w, cs) \<Longrightarrow> count_list (map f xs) c = count_list (map f (bs @ cs)) c + (if f w = c then 1 else 0)"
  by (auto dest!: extract_SomeE)

lemma account_nextScheduled: "account (snd (checkNextScheduledWaiters env now x rq)) c = account (snd rq) c"
proof -
  obtain responded q where rq: "rq = (responded, q)" by fastforce
  show ?thesis
  proof (cases "List.extract (\<lambda>w. gn_filter w x \<and> \<not> isScheduled env q x) (q_getNextScheduledWaiters q)")
    case (Some e)
    obtain bs w cs where e: "e = (bs, w, cs)" by (cases e) auto
    let ?q = "q\<lparr>q_getNextScheduledWaiters := bs @ cs\<rparr>"
    have "\<not> isScheduled env ?q x" using extract_sets [OF Some [unfolded e]] by (simp add: isScheduled_def)
    moreover have "account q c = account ?q c + (if gn_responseCh w = c then 1 else 0)"
      using count_extract [OF Some [unfolded e], of gn_responseCh c] by (simp add: account_defs)
    ultimately show ?thesis using Some by (simp add: rq checkNextScheduledWaiters_def e Let_def account_schedule)
  qed (simp add: rq checkNextScheduledWaiters_def)
qed

lemma account_getNext: "account (snd (checkGetNextWaiters env x rq)) c = account (snd rq) c"
proof -
  obtain responded q where rq: "rq = (responded, q)" by fastforce
  show ?thesis
  proof (cases "List.extract (\<lambda>w. gn_filter w x) (q_getNextWaiters q)")
    case (Some e)
    obtain bs w cs where e: "e = (bs, w, cs)" by (cases e) auto
    have "account q c = account (q\<lparr>q_getNextWaiters := bs @ cs\<rparr>) c + (if gn_responseCh w = c then 1 else 0)"
      using count_extract [OF Some [unfolded e], of gn_responseCh c] by (simp add: account_defs)
    then show ?thesis using Some by (simp add: rq checkGetNextWaiters_def e)
  qed (simp add: rq checkGetNextWaiters_def)
qed

lemma account_hand_on: "queue_ok env q \<Longrightarrow> account (hand_on env now visited x q) c = account q c"
  by (simp add: hand_on_def account_getNext account_nextScheduled account_due checkGetByIdWaiters_def account_first [of env] account_InSchedule)

lemma account_Release: "queue_ok env q \<Longrightarrow> account (snd (handleReleaseItem env now visited i upd q)) c = account q c"
  by (auto simp: handleReleaseItem_def Let_def releaseGetByIdWaitersWithError_def account_first account_hand_on
      split: option.split sum.split prod.split)

lemma account_Cancel:
  assumes "queue_ok env q" "\<forall>(k, ws)\<in>set (q_dueWaiters q). \<forall>s\<in>set ws. gn_id (si_request s) \<noteq> i"
  shows "account (handleCancelRequest env i q) c = account q c"
proof -
  have w: "count_list (map gn_responseCh ws') c + count_list (map fst out) c = count_list (map gn_responseCh ws) c"
    if "cancel_waiter env i ws = (ws', out)" for ws ws' out
    using that by (auto simp: cancel_waiter_def split: option.splits dest: count_extract [where f = gn_responseCh and c = c])
  have 1: "account (cancel_next env i q) c = account q c" for q
    using w [of "q_getNextWaiters q"] by (auto simp: cancel_next_def account_defs split: prod.split)
  have 2: "account (cancel_next_scheduled env i q) c = account q c" for q
    using w [of "q_getNextScheduledWaiters q"] by (auto simp: cancel_next_scheduled_def account_defs split: prod.split)
  have 3: "account (cancel_scheduled env i q) c = account q c" if wf: "wf_map (q_scheduled q)" for q
  proof (cases "List.extract (\<lambda>kv. gn_id (si_request (snd kv)) = i) (q_scheduled q)")
    case (Some e)
    obtain bs k s cs where e: "e = (bs, (k, s), cs)" by (cases e) auto
    have "map_of (q_scheduled q) k = Some s" using extract_sets [OF Some [unfolded e]] map_of_wf_in [OF wf] by simp
    then show ?thesis using account_unschedule [of "respond (si_responseCh s) (qe_defVal env, Some ErrCanceled) q" k s c] wf Some
      by (simp add: cancel_scheduled_def e) (simp add: respond_def)
  qed (simp add: cancel_scheduled_def)
  have d: "q_dueWaiters (cancel_scheduled env i (cancel_next_scheduled env i (cancel_next env i q))) = q_dueWaiters q"
    "q_scheduled (cancel_next_scheduled env i (cancel_next env i q)) = q_scheduled q"
    by (auto simp: cancel_scheduled_def cancel_next_scheduled_def cancel_next_def queue_prims split: prod.split option.split)
  have "List.extract (\<lambda>kws. \<exists>w\<in>set (snd kws). gn_id (si_request w) = i) (q_dueWaiters q) = None"
    unfolding extract_None_iff using assms(2) by fastforce
  then show ?thesis using queue_ok_maps(3) [OF assms(1)] by (simp add: handleCancelRequest_def cancel_due_def d 1 2 3)
qed

lemma account_Close: "account (handleClose env q) c = account q c" "waiting (handleClose env q) c = 0"
  by (simp_all add: account_defs handleClose_def comp_def)

definition served :: "('a, 'c, 'd, 'f) queue_env \<Rightarrow> ('a, 'c, 'f) queue_world \<Rightarrow> bool" where
  "served env w \<longleftrightarrow> queue_ok env (w_queue w) \<and> distinct (w_used w) \<and>
     (\<forall>ch. account (w_queue w) ch = (if ch \<in> set (w_used w) then 1 else 0)) \<and> (w_closed w \<longrightarrow> (\<forall>ch. waiting (w_queue w) ch = 0))"

lemma settle_fields [simp]: "w_queue (settle env q w) = q" "w_used (settle env q w) = w_used w" "w_closed (settle env q w) = w_closed w"
  by (simp_all add: settle_def)

lemma qstep_served:
  assumes "qstep env True w w'" "served env w"
  shows "served env w'"
proof -
  have ok: "queue_ok env (w_queue w)" using assms(2) by (simp add: served_def)
  from assms(1) show ?thesis
  proof cases
    case (by_id i n)
    then show ?thesis using assms(2) by (auto simp: served_def account_ById)
  next
    case (get_next r)
    then show ?thesis using assms(2) by (auto simp: served_def account_Next)
  next
    case (get_scheduled r now)
    then show ?thesis using assms(2) by (auto simp: served_def account_NextScheduled)
  next
    case (update ch i visited now x)
    then show ?thesis using assms(2) by (auto simp: served_def account_Release ReleaseAndUpdate_def)
  next
    case (release ch i visited now)
    then show ?thesis using assms(2) by (auto simp: served_def account_Release Release_def)
  next
    case (due sch now)
    have "sch_ok env sch" using ok due by (simp add: queue_ok_def)
    then show ?thesis using assms(2) due account_Scheduled [of env "(w_queue w)\<lparr>q_timers := remove1 sch (q_timers (w_queue w))\<rparr>" sch]
      by (auto simp: served_def)
  next
    case (cancel i)
    then show ?thesis using assms(2) account_Cancel [OF ok, of i] by (auto simp: served_def)
  next
    case close
    then show ?thesis using assms(2) by (auto simp: served_def account_Close)
  qed
qed

subsection \<open>No channel is closed twice\<close>

text \<open>Closing the cancel channel of a timer a second time would panic.\<close>

definition timers_ok :: "('a, 'c, 'f) Queue \<Rightarrow> bool" where
  "timers_ok q \<longleftrightarrow> distinct (map (\<lambda>kv. si_timer (snd kv)) (q_scheduled q) @ q_cancelled q) \<and>
     (\<forall>t\<in>set (map (\<lambda>kv. si_timer (snd kv)) (q_scheduled q) @ q_cancelled q). t < q_nextTimer q)"

lemma timers_same:
  "q_scheduled q' = q_scheduled q \<Longrightarrow> q_cancelled q' = q_cancelled q \<Longrightarrow> q_nextTimer q' = q_nextTimer q \<Longrightarrow> timers_ok q' = timers_ok q"
  by (simp add: timers_ok_def)

lemma timers_prims [simp]:
  "timers_ok (respond ch r q) = timers_ok q" "timers_ok (lock_item i q) = timers_ok q"
  by (rule timers_same; simp add: queue_prims)+

lemma timers_updates [simp]:
  "timers_ok (q\<lparr>q_store := c\<rparr>) = timers_ok q" "timers_ok (q\<lparr>q_itemLocked := ls\<rparr>) = timers_ok q"
  "timers_ok (q\<lparr>q_getByIdWaiters := a\<rparr>) = timers_ok q" "timers_ok (q\<lparr>q_dueWaiters := b\<rparr>) = timers_ok q"
  "timers_ok (q\<lparr>q_getNextWaiters := d\<rparr>) = timers_ok q" "timers_ok (q\<lparr>q_getNextScheduledWaiters := d\<rparr>) = timers_ok q"
  "timers_ok (q\<lparr>q_watchers := e\<rparr>) = timers_ok q" "timers_ok (q\<lparr>q_timers := g\<rparr>) = timers_ok q"
  by (simp_all add: timers_ok_def)

lemma put_values: "set (put k v m) \<subseteq> insert (k, v) (set m)"
  by (induction k v m rule: put.induct) auto

lemma timers_put:
  assumes "distinct (map f m @ ts)" "f (k, v) \<notin> f ` set m" "f (k, v) \<notin> set ts"
  shows "distinct (map f (put k v m) @ ts)"
  using assms
proof (induction k v m rule: put.induct)
  case (2 k v k' v' m)
  then show ?case using put_values [of k v m] by auto
qed simp

lemma timers_schedule [simp]: "timers_ok q \<Longrightarrow> timers_ok (scheduleItem env r x q)"
proof -
  assume ok: "timers_ok q"
  let ?s = "\<lparr>si_timer = q_nextTimer q, si_item = x, si_request = r, si_responseCh = gn_responseCh r\<rparr>"
  have "distinct (map (\<lambda>kv. si_timer (snd kv)) (put (qe_getId env x) ?s (q_scheduled q)) @ q_cancelled q)"
    using ok by (intro timers_put) (auto simp: timers_ok_def)
  moreover have "t < Suc (q_nextTimer q)" if t: "t \<in> set (map (\<lambda>kv. si_timer (snd kv)) (put (qe_getId env x) ?s (q_scheduled q)) @ q_cancelled q)" for t
  proof -
    have "t = q_nextTimer q \<or> t \<in> set (map (\<lambda>kv. si_timer (snd kv)) (q_scheduled q) @ q_cancelled q)"
      using t put_values [of "qe_getId env x" ?s "q_scheduled q"] by auto
    then show ?thesis using ok by (auto simp only: timers_ok_def less_Suc_eq)
  qed
  ultimately show ?thesis unfolding timers_ok_def scheduleItem_def Let_def by simp
qed

lemma del_values: "set (del k m) = set m - {kv. fst kv = k}"
  by (auto simp: del_def)

lemma timers_unschedule:
  assumes "timers_ok q" "map_of (q_scheduled q) i = Some s"
  shows "timers_ok (unschedule i s q)" "timers_ok (q\<lparr>q_scheduled := del i (q_scheduled q)\<rparr>)"
proof -
  let ?f = "\<lambda>kv. si_timer (snd kv)"
  have s: "(i, s) \<in> set (q_scheduled q)" using assms(2) by (rule map_of_SomeD)
  have inj: "inj_on ?f (set (q_scheduled q))" using assms(1) by (simp add: timers_ok_def distinct_map)
  have "si_timer s \<notin> ?f ` set (del i (q_scheduled q))"
  proof
    assume "si_timer s \<in> ?f ` set (del i (q_scheduled q))"
    then obtain kv where "kv \<in> set (del i (q_scheduled q))" and e: "si_timer s = ?f kv" by (rule imageE) blast
    then have kv: "kv \<in> set (q_scheduled q)" "fst kv \<noteq> i" "?f kv = ?f (i, s)" by (simp_all add: del_values)
    then show False using inj_onD [OF inj, of kv "(i, s)"] s by auto
  qed
  moreover have "distinct (map ?f (del i (q_scheduled q)))"
    using assms(1) by (auto simp: timers_ok_def del_def distinct_map intro: inj_on_subset)
  moreover have "si_timer s \<in> ?f ` set (q_scheduled q)" using s by (metis imageI snd_conv)
  ultimately show "timers_ok (unschedule i s q)" "timers_ok (q\<lparr>q_scheduled := del i (q_scheduled q)\<rparr>)"
    using assms(1) by (auto simp: timers_ok_def unschedule_def del_values)
qed

lemma timers_NextScheduled [simp]: "timers_ok q \<Longrightarrow> timers_ok (handleGetNextScheduled env now r q)"
  by (auto simp: handleGetNextScheduled_def split: prod.split)

lemma timers_InSchedule: "timers_ok q \<Longrightarrow> timers_ok (checkInSchedule env now visited x q)"
  unfolding checkInSchedule_def
proof (induction visited arbitrary: q)
  case (Cons i visited)
  have "timers_ok (check_scheduled env now x i q)"
    using Cons.prems timers_unschedule(1) [OF Cons.prems] by (auto simp: check_scheduled_def split: option.split)
  then show ?case using Cons.IH by simp
qed simp

lemma timers_loop: "timers_ok (snd rq) \<Longrightarrow> due_loop env now x ws filtered rq = (fs, rq') \<Longrightarrow> timers_ok (snd rq')"
proof (induction env now x ws filtered rq arbitrary: fs rq' rule: due_loop.induct)
  case (2 env now x w ws filtered responded q)
  then show ?case by (auto split: if_splits)
qed simp

lemma timers_due: "timers_ok (snd rq) \<Longrightarrow> timers_ok (snd (checkDueWaiters env now x rq))"
  using timers_loop [of rq env now x "entries (q_dueWaiters (snd rq)) (qe_getId env x)" "[]"]
  by (auto simp: checkDueWaiters_def Let_def split: prod.split)

lemma timers_first: "timers_ok (snd (first_waiter i r q)) = timers_ok q"
  by (rule timers_same; simp add: first_waiter_def Let_def queue_prims split: list.split)

lemma timers_nextScheduled: "timers_ok (snd rq) \<Longrightarrow> timers_ok (snd (checkNextScheduledWaiters env now x rq))"
  by (auto simp: checkNextScheduledWaiters_def Let_def split: prod.split option.split)

lemma timers_getNext: "timers_ok (snd rq) \<Longrightarrow> timers_ok (snd (checkGetNextWaiters env x rq))"
  by (auto simp: checkGetNextWaiters_def split: prod.split option.split)

lemma timers_hand_on: "timers_ok q \<Longrightarrow> timers_ok (hand_on env now visited x q)"
  unfolding hand_on_def
  by (intro timers_getNext timers_nextScheduled timers_due) (simp add: checkGetByIdWaiters_def timers_first timers_InSchedule)

lemma timers_Release: "timers_ok q \<Longrightarrow> timers_ok (snd (handleReleaseItem env now visited i upd q))"
  by (auto simp: handleReleaseItem_def Let_def releaseGetByIdWaitersWithError_def timers_first timers_hand_on
      split: option.split sum.split prod.split)

lemma timers_Cancel: "queue_ok env q \<Longrightarrow> timers_ok q \<Longrightarrow> timers_ok (handleCancelRequest env i q)"
proof -
  assume ok: "queue_ok env q" and t: "timers_ok q"
  let ?q = "cancel_next_scheduled env i (cancel_next env i q)"
  have q: "timers_ok ?q" "q_scheduled ?q = q_scheduled q"
    using t by (simp_all add: timers_ok_def cancel_next_scheduled_def cancel_next_def split: prod.split)
  have "timers_ok (cancel_scheduled env i ?q)"
  proof (cases "List.extract (\<lambda>kv. gn_id (si_request (snd kv)) = i) (q_scheduled q)")
    case (Some e)
    obtain bs k s cs where e: "e = (bs, (k, s), cs)" by (cases e) auto
    have "map_of (q_scheduled q) k = Some s" using extract_sets [OF Some [unfolded e]] map_of_wf_in [OF queue_ok_maps(3) [OF ok]] by simp
    then show ?thesis using q Some timers_unschedule(1) [of "respond (si_responseCh s) (qe_defVal env, Some ErrCanceled) ?q" k s]
      by (simp add: cancel_scheduled_def e) (simp add: respond_def)
  qed (use q in \<open>simp add: cancel_scheduled_def\<close>)
  then show "timers_ok (handleCancelRequest env i q)"
    by (simp add: handleCancelRequest_def cancel_due_def split: option.split prod.split)
qed

lemma qstep_timers:
  assumes "qstep env calm w w'" "queue_ok env (w_queue w)" "timers_ok (w_queue w)"
  shows "timers_ok (w_queue w')"
  using assms(1)
proof cases
  case (by_id i n)
  then show ?thesis using assms(3) by (auto simp: handleGetById_def split: prod.split)
next
  case (get_next r)
  then show ?thesis using assms(3) by (auto simp: handleGetNext_def split: prod.split)
next
  case (due sch now)
  let ?q = "(w_queue w)\<lparr>q_timers := remove1 sch (q_timers (w_queue w))\<rparr>"
  have "timers_ok ?q" using assms(3) by (simp add: timers_ok_def)
  then have "timers_ok (handleScheduledItem env sch ?q)"
    using timers_unschedule(2) [of ?q "qe_getId env (si_item sch)"]
    by (auto simp: handleScheduledItem_def Let_def isScheduled_def)
  then show ?thesis by (simp add: due(1))
next
  case close
  then show ?thesis using assms(3) by (auto simp: handleClose_def timers_ok_def)
qed (use assms(2,3) in \<open>auto simp: timers_Release timers_Cancel ReleaseAndUpdate_def Release_def\<close>)

subsection \<open>A released item is handed on\<close>

definition got :: "('a, 'c, 'd, 'f) queue_env \<Rightarrow> string \<Rightarrow> ('a, 'c, 'f) Queue \<Rightarrow> ('a, 'c, 'f) Queue \<Rightarrow> bool" where
  "got env i q0 q \<longleftrightarrow> (\<exists>out. q_sent q = q_sent q0 @ out \<and> i \<in> snd ` set (handed_all env out))"

lemma got_later: "got env i q0 q \<Longrightarrow> gives env q q' \<Longrightarrow> got env i q0 q'"
  unfolding got_def gives_def by (metis (no_types, lifting) append_assoc handed_all_simps(3) imageI image_Un UnI1 set_append)

lemma handing_self: "handing env x q0 rq \<Longrightarrow> handing env x (snd rq) rq"
  by (simp add: handing_def gives_same)

lemma got_hand: "gives env q0 q \<Longrightarrow> i \<in> snd ` set (handed env (ch, r)) \<Longrightarrow> got env i q0 (respond ch r (lock_item j q))"
proof -
  assume g: "gives env q0 q" and h: "i \<in> snd ` set (handed env (ch, r))"
  from g obtain out where "q_sent q = q_sent q0 @ out" by (auto simp: gives_def)
  then show "got env i q0 (respond ch r (lock_item j q))"
    unfolding got_def using h by (intro exI [of _ "out @ [(ch, r)]"]) (simp add: respond_def lock_item_def image_Un)
qed

lemma waiter_chans:
  "queue_ok env q \<Longrightarrow> ch \<in> set (entries (q_getByIdWaiters q) i) \<Longrightarrow> \<exists>n. ch = IdChan i n"
  "queue_ok env q \<Longrightarrow> w \<in> set (q_getNextWaiters q) \<Longrightarrow> \<exists>n. gn_responseCh w = NextChan n"
  "queue_ok env q \<Longrightarrow> w \<in> set (q_getNextScheduledWaiters q) \<Longrightarrow> \<exists>n. gn_responseCh w = NextChan n"
  "sch_ok env s \<Longrightarrow> \<exists>n. si_responseCh s = NextChan n"
  unfolding queue_ok_def sch_ok_def request_ok_def by auto

lemma gives_fields: "gives env q0 q \<Longrightarrow> gives env q0 (q\<lparr>q_getNextScheduledWaiters := a\<rparr>)" "gives env q0 q \<Longrightarrow> gives env q0 (q\<lparr>q_getNextWaiters := a\<rparr>)"
  by (simp_all add: gives_def)

lemma first_waiter_got:
  assumes "queue_ok env q" "gives env q0 q" "first_waiter i (x, None) q = (responded, q')"
  shows "responded \<Longrightarrow> got env i q0 q'" "\<not> responded \<Longrightarrow> q' = q \<and> entries (q_getByIdWaiters q) i = []"
proof -
  have "got env i q0 q'" if e: "entries (q_getByIdWaiters q) i = ch # ws" for ch ws
  proof -
    obtain n where "ch = IdChan i n" using waiter_chans(1) [OF assms(1), of ch i] e by auto
    then have "got env i q0 (respond ch (x, None) (lock_item i q))" using got_hand [OF assms(2), of i ch "(x, None)" i] by simp
    moreover have "q_sent q' = q_sent (respond ch (x, None) (lock_item i q))" using assms(3) that by (auto simp: first_waiter_def Let_def)
    ultimately show ?thesis by (simp add: got_def)
  qed
  then show "responded \<Longrightarrow> got env i q0 q'" "\<not> responded \<Longrightarrow> q' = q \<and> entries (q_getByIdWaiters q) i = []"
    using assms(3) by (auto simp: first_waiter_def Let_def split: list.splits)
qed

lemma loop_got:
  "collection_ok env \<Longrightarrow> handing env x q0 rq \<Longrightarrow> \<forall>s\<in>set ws. sch_ok env s \<Longrightarrow> (fst rq \<longrightarrow> got env (qe_getId env x) q0 (snd rq)) \<Longrightarrow>
   due_loop env now x ws filtered rq = (fs, rq') \<Longrightarrow> fst rq' \<longrightarrow> got env (qe_getId env x) q0 (snd rq')"
proof (induction env now x ws filtered rq arbitrary: fs rq' rule: due_loop.induct)
  case (2 env now x w ws filtered responded q)
  have sch: "sch_ok env w" "request_ok env (si_request w)" using "2.prems"(3) by simp_all
  obtain n where n: "si_responseCh w = NextChan n" using waiter_chans(4) [OF sch(1)] by blast
  have ws: "\<forall>s\<in>set ws. sch_ok env s" using "2.prems"(3) by simp
  have one: "due_loop env now x [w] [] (responded, q) = (fs1, rq1) \<Longrightarrow> handing env x q0 rq1" for fs1 rq1
    using handing_loop [OF "2.prems"(1,2), of "[w]"] sch by simp
  have g: "gives env q0 q" using "2.prems"(2) by (simp add: handing_def)
  consider "gn_filter (si_request w) x" "\<not> responded" | "gn_filter (si_request w) x" responded | "\<not> gn_filter (si_request w) x" by blast
  then show ?case
  proof cases
    case 1
    let ?q = "respond (si_responseCh w) (x, None) (lock_item (qe_getId env x) q)"
    have "handing env x q0 (True, ?q)" using one 1 by simp
    moreover have "got env (qe_getId env x) q0 ?q" by (rule got_hand [OF g]) (simp add: n)
    moreover have "due_loop env now x ws filtered (True, ?q) = (fs, rq')" using 1 "2.prems"(5) by simp
    ultimately show ?thesis using "2.IH"(1) [OF 1 "2.prems"(1) _ ws] by simp
  next
    case 2
    show ?thesis by (rule "2.IH"(2) [OF 2(1) _ "2.prems"(1,2) ws]) (use 2 "2.prems"(4,5) in auto)
  next
    case 3
    have "got env (qe_getId env x) q0 (handleGetNextScheduled env now (si_request w) q)" if responded
      using got_later [OF _ gives_NextScheduled [OF "2.prems"(1) sch(2)]] "2.prems"(4) that by simp
    moreover have "handing env x q0 (responded, handleGetNextScheduled env now (si_request w) q)" using one 3 by simp
    moreover have "due_loop env now x ws filtered (responded, handleGetNextScheduled env now (si_request w) q) = (fs, rq')"
      using 3 "2.prems"(5) by simp
    ultimately show ?thesis using "2.IH"(3) [OF 3 "2.prems"(1) _ ws] by simp
  qed
qed auto

lemma due_got:
  assumes "collection_ok env" "handing env x q0 rq" "fst rq \<longrightarrow> got env (qe_getId env x) q0 (snd rq)"
  shows "fst (checkDueWaiters env now x rq) \<longrightarrow> got env (qe_getId env x) q0 (snd (checkDueWaiters env now x rq))"
proof -
  let ?ws = "entries (q_dueWaiters (snd rq)) (qe_getId env x)"
  obtain fs responded q where r: "due_loop env now x ?ws [] rq = (fs, responded, q)" by (metis prod_cases3)
  have "queue_ok env (snd rq)" using assms(2) by (simp add: handing_def)
  then have "responded \<longrightarrow> got env (qe_getId env x) q0 q" using loop_got [OF assms(1,2) _ assms(3) r] queue_ok_dueD by fastforce
  then show ?thesis using assms(3) by (auto simp: checkDueWaiters_def Let_def r got_def)
qed

lemma nextScheduled_got:
  assumes "handing env x q0 rq" "fst rq \<longrightarrow> got env (qe_getId env x) q0 (snd rq)"
  shows "fst (checkNextScheduledWaiters env now x rq) \<longrightarrow> got env (qe_getId env x) q0 (snd (checkNextScheduledWaiters env now x rq))"
proof -
  obtain responded q where rq: "rq = (responded, q)" by fastforce
  have ok: "queue_ok env q" and g: "gives env q0 q" using assms(1) by (simp_all add: rq handing_def)
  have h: "got env (qe_getId env x) q0 (respond (gn_responseCh w) (x, None) (lock_item (qe_getId env x) (q\<lparr>q_getNextScheduledWaiters := ws\<rparr>)))"
    if w: "w \<in> set (q_getNextScheduledWaiters q)" for w ws
  proof -
    obtain n where n: "gn_responseCh w = NextChan n" using waiter_chans(3) [OF ok w] by blast
    show ?thesis by (rule got_hand [OF gives_fields(1) [OF g]]) (simp add: n)
  qed
  show ?thesis
  proof (cases "List.extract (\<lambda>w. gn_filter w x \<and> \<not> isScheduled env q x) (q_getNextScheduledWaiters q)")
    case (Some e)
    obtain bs w cs where e: "e = (bs, w, cs)" by (cases e) auto
    have "w \<in> set (q_getNextScheduledWaiters q)" using extract_sets [OF Some [unfolded e]] by simp
    then show ?thesis using assms(2) h Some by (simp add: rq checkNextScheduledWaiters_def Let_def e)
  qed (use assms(2) in \<open>simp add: rq checkNextScheduledWaiters_def\<close>)
qed

lemma getNext_got:
  assumes "handing env x q0 rq" "fst rq \<longrightarrow> got env (qe_getId env x) q0 (snd rq)"
  shows "got env (qe_getId env x) q0 (snd (checkGetNextWaiters env x rq)) \<or>
    snd (checkGetNextWaiters env x rq) = snd rq \<and> (\<forall>r\<in>set (q_getNextWaiters (snd rq)). \<not> gn_filter r x)"
proof -
  obtain responded q where rq: "rq = (responded, q)" by fastforce
  have ok: "queue_ok env q" and g: "gives env q0 q" using assms(1) by (simp_all add: rq handing_def)
  show ?thesis
  proof (cases "List.extract (\<lambda>w. gn_filter w x) (q_getNextWaiters q)")
    case None
    then show ?thesis using assms(2) by (simp add: rq checkGetNextWaiters_def) (simp add: extract_None_iff)
  next
    case (Some e)
    obtain bs w cs where e: "e = (bs, w, cs)" by (cases e) auto
    have "w \<in> set (q_getNextWaiters q)" using extract_sets [OF Some [unfolded e]] by simp
    then obtain n where n: "gn_responseCh w = NextChan n" using waiter_chans(2) [OF ok] by blast
    have "got env (qe_getId env x) q0 (respond (gn_responseCh w) (x, None) (lock_item (qe_getId env x) (q\<lparr>q_getNextWaiters := bs @ cs\<rparr>)))"
      by (rule got_hand [OF gives_fields(2) [OF g]]) (simp add: n)
    then show ?thesis using assms(2) Some by (auto simp: rq checkGetNextWaiters_def e)
  qed
qed

lemma ids_NextScheduled [simp]: "q_getByIdWaiters (handleGetNextScheduled env now r q) = q_getByIdWaiters q"
  by (auto simp: handleGetNextScheduled_def queue_prims split: prod.split)

lemma ids_loop: "due_loop env now x ws filtered rq = (fs, rq') \<Longrightarrow> q_getByIdWaiters (snd rq') = q_getByIdWaiters (snd rq)"
proof (induction env now x ws filtered rq arbitrary: fs rq' rule: due_loop.induct)
  case (2 env now x w ws filtered responded q)
  then show ?case by (auto simp: queue_prims split: if_splits)
qed auto

lemma ids_due: "q_getByIdWaiters (snd (checkDueWaiters env now x rq)) = q_getByIdWaiters (snd rq)"
proof -
  obtain fs responded q where r: "due_loop env now x (entries (q_dueWaiters (snd rq)) (qe_getId env x)) [] rq = (fs, responded, q)"
    by (metis prod_cases3)
  then show ?thesis using ids_loop [OF r] by (simp add: checkDueWaiters_def Let_def)
qed

lemma ids_nextScheduled: "q_getByIdWaiters (snd (checkNextScheduledWaiters env now x rq)) = q_getByIdWaiters (snd rq)"
  by (simp add: checkNextScheduledWaiters_def Let_def queue_prims split: prod.split option.split)

text \<open>Without an answer, every waiter of the loop was rejected and has a new place.\<close>

lemma loop_left: "due_loop env now x ws filtered rq = (fs, rq') \<Longrightarrow> \<not> fst rq' \<Longrightarrow> \<not> fst rq \<and> fs = filtered"
proof (induction env now x ws filtered rq arbitrary: fs rq' rule: due_loop.induct)
  case (2 env now x w ws filtered responded q)
  then show ?case by (auto split: if_splits)
qed auto

lemma due_left:
  assumes "\<not> fst (checkDueWaiters env now x rq)"
  shows "\<not> fst rq" "entries (q_dueWaiters (snd (checkDueWaiters env now x rq))) (qe_getId env x) = []"
proof -
  let ?ws = "entries (q_dueWaiters (snd rq)) (qe_getId env x)"
  obtain fs responded q where r: "due_loop env now x ?ws [] rq = (fs, responded, q)" by (metis prod_cases3)
  have left: "\<not> fst rq \<and> fs = []" if "?ws \<noteq> []" using loop_left [OF r] assms that by (simp add: checkDueWaiters_def Let_def r)
  show "\<not> fst rq" using left assms by (cases "?ws = []") (simp_all add: checkDueWaiters_def Let_def)
  show "entries (q_dueWaiters (snd (checkDueWaiters env now x rq))) (qe_getId env x) = []"
    using left by (cases "?ws = []") (simp_all add: checkDueWaiters_def Let_def r)
qed

lemma nextScheduled_left:
  assumes "\<not> fst (checkNextScheduledWaiters env now x rq)"
  shows "\<not> fst rq" "\<forall>r\<in>set (q_getNextScheduledWaiters (snd (checkNextScheduledWaiters env now x rq))).
      gn_filter r x \<longrightarrow> isScheduled env (snd (checkNextScheduledWaiters env now x rq)) x"
    "q_dueWaiters (snd (checkNextScheduledWaiters env now x rq)) = q_dueWaiters (snd rq)"
proof -
  obtain responded q where rq: "rq = (responded, q)" by fastforce
  have left: "\<not> responded" using assms by (auto simp: rq checkNextScheduledWaiters_def)
  then show "\<not> fst rq" by (simp add: rq)
  show "\<forall>r\<in>set (q_getNextScheduledWaiters (snd (checkNextScheduledWaiters env now x rq))).
      gn_filter r x \<longrightarrow> isScheduled env (snd (checkNextScheduledWaiters env now x rq)) x"
  proof (cases "List.extract (\<lambda>w. gn_filter w x \<and> \<not> isScheduled env q x) (q_getNextScheduledWaiters q)")
    case None
    have same: "checkNextScheduledWaiters env now x rq = rq" using None left by (simp add: rq checkNextScheduledWaiters_def)
    show ?thesis unfolding same using None by (auto simp: rq extract_None_iff)
  next
    case (Some e)
    obtain bs w cs where e: "e = (bs, w, cs)" by (cases e) auto
    have "isScheduled env (snd (checkNextScheduledWaiters env now x rq)) x"
      using assms left Some by (simp add: rq checkNextScheduledWaiters_def Let_def e isScheduled_def scheduleItem_def split: if_splits)
    then show ?thesis by blast
  qed
  show "q_dueWaiters (snd (checkNextScheduledWaiters env now x rq)) = q_dueWaiters (snd rq)"
    by (simp add: checkNextScheduledWaiters_def Let_def queue_prims split: prod.split option.split)
qed

text \<open>Nobody waits in vain for an item that lies free in the queue.\<close>

definition unwanted :: "('a, 'c, 'd, 'f) queue_env \<Rightarrow> 'a \<Rightarrow> ('a, 'c, 'f) Queue \<Rightarrow> bool" where
  "unwanted env x q \<longleftrightarrow>
     entries (q_getByIdWaiters q) (qe_getId env x) = [] \<and> entries (q_dueWaiters q) (qe_getId env x) = [] \<and>
     (\<forall>r\<in>set (q_getNextScheduledWaiters q). gn_filter r x \<longrightarrow> isScheduled env q x) \<and>
     (\<forall>r\<in>set (q_getNextWaiters q). \<not> gn_filter r x)"

lemma hand_on_serves:
  assumes "collection_ok env" "queue_ok env q" "known env x q" "\<not> isLocked q (qe_getId env x)" "hand_on env now visited x q = q'"
  shows "got env (qe_getId env x) q q' \<or> unwanted env x q'"
proof -
  let ?i = "qe_getId env x"
  let ?q1 = "checkInSchedule env now visited x q"
  let ?r1 = "checkGetByIdWaiters env x (False, ?q1)"
  let ?r2 = "checkDueWaiters env now x ?r1"
  let ?r3 = "checkNextScheduledWaiters env now x ?r2"
  have h0: "handing env x q (False, ?q1)" using handing_InSchedule [OF assms(1), of x q q now visited] assms(2-4) by (simp add: handing_def gives_same)
  have h1: "handing env x q ?r1" using handing_getById [OF h0] .
  have h2: "handing env x q ?r2" using handing_due [OF assms(1) h1] .
  have h3: "handing env x q ?r3" using handing_nextScheduled [OF assms(1) h2] .
  have g1: "fst ?r1 \<longrightarrow> got env ?i q (snd ?r1)" and n1: "\<not> fst ?r1 \<longrightarrow> entries (q_getByIdWaiters (snd ?r1)) ?i = []"
    using first_waiter_got [of env ?q1 q ?i x "fst ?r1" "snd ?r1"] h0 by (auto simp: handing_def checkGetByIdWaiters_def)
  have g3: "fst ?r3 \<longrightarrow> got env ?i q (snd ?r3)"
    using nextScheduled_got [OF h2 due_got [OF assms(1) h1 g1]] .
  have q': "q' = snd (checkGetNextWaiters env x ?r3)" using assms(5) by (simp add: hand_on_def)
  show ?thesis
  proof (cases "fst ?r3")
    case True
    then have "got env ?i q (snd ?r3)" using g3 by simp
    then show ?thesis using got_later gives_getNext [OF handing_self [OF h3]] q' by blast
  next
    case False
    note left3 = nextScheduled_left [OF False]
    note left2 = due_left [OF left3(1)]
    have "entries (q_getByIdWaiters (snd ?r3)) ?i = []" "entries (q_dueWaiters (snd ?r3)) ?i = []"
      using n1 left2 by (simp_all add: ids_due ids_nextScheduled left3(3))
    then show ?thesis using getNext_got [OF h3 g3] left3(2) q' unfolding unwanted_def by metis
  qed
qed

lemma store_check [simp]: "q_store (check_scheduled env now x i q) = q_store q"
  by (simp add: check_scheduled_def split: option.split)

lemma store_InSchedule [simp]: "q_store (checkInSchedule env now visited x q) = q_store q"
  unfolding checkInSchedule_def by (induction visited arbitrary: q) auto

lemma store_loop: "due_loop env now x ws filtered rq = (fs, rq') \<Longrightarrow> q_store (snd rq') = q_store (snd rq)"
proof (induction env now x ws filtered rq arbitrary: fs rq' rule: due_loop.induct)
  case (2 env now x w ws filtered responded q)
  then show ?case by (auto split: if_splits)
qed auto

lemma store_hand_on [simp]: "q_store (hand_on env now visited x q) = q_store q"
proof -
  have 1: "q_store (snd (checkGetNextWaiters env x rq)) = q_store (snd rq)" for rq
    by (simp add: checkGetNextWaiters_def split: prod.split option.split)
  have 2: "q_store (snd (checkNextScheduledWaiters env now x rq)) = q_store (snd rq)" for rq
    by (simp add: checkNextScheduledWaiters_def Let_def split: prod.split option.split)
  have 3: "q_store (snd (checkDueWaiters env now x rq)) = q_store (snd rq)" for rq
  proof -
    obtain fs responded q where r: "due_loop env now x (entries (q_dueWaiters (snd rq)) (qe_getId env x)) [] rq = (fs, responded, q)"
      by (metis prod_cases3)
    then show ?thesis using store_loop [OF r] by (simp add: checkDueWaiters_def Let_def)
  qed
  have 4: "q_store (snd (checkGetByIdWaiters env x rq)) = q_store (snd rq)" for rq
    by (simp add: checkGetByIdWaiters_def first_waiter_def Let_def split: list.split)
  show ?thesis by (simp add: hand_on_def 1 2 3 4)
qed

lemma update_serves:
  assumes "collection_ok env" "queue_ok env q" "isLocked q i" "ReleaseAndUpdate env now visited i x q = (None, q')"
  shows "storage_get env (q_store q') i = qe_unmarshal env (stored_form env i (qe_setId env x i)) \<and>
    (got env i q q' \<or> unwanted env (qe_setId env x i) q')"
proof -
  let ?x = "qe_setId env x i"
  have i: "qe_getId env ?x = i" using collection_okD(1) [OF assms(1)] .
  obtain c where c: "storage_set env (q_store q) i ?x = Inr c"
    using assms(3,4) by (auto simp: ReleaseAndUpdate_def handleReleaseItem_def Let_def split: sum.splits)
  let ?q = "q\<lparr>q_itemLocked := removeAll i (q_itemLocked q), q_store := c\<rparr>"
  have q': "q' = hand_on env now visited ?x ?q"
    using assms(3,4) c by (simp add: ReleaseAndUpdate_def handleReleaseItem_def Let_def)
  have find: "qe_FindId env c i = Inr (stored_form env i ?x)"
    using collection_okD(4) [OF assms(1)] c by (simp add: storage_set_def stored_form_def)
  have "known env ?x ?q" using find i by (auto simp: known_def request_ok_def)
  moreover have "\<not> isLocked ?q (qe_getId env ?x)" by (simp add: isLocked_def i)
  ultimately have "got env i ?q q' \<or> unwanted env ?x q'"
    using hand_on_serves [OF assms(1), of ?q ?x now visited q'] assms(2) q' i by simp
  moreover have "got env i ?q q' = got env i q q'" by (simp add: got_def)
  moreover have "storage_get env (q_store q') i = qe_unmarshal env (stored_form env i ?x)" by (simp add: q' storage_get_def find)
  ultimately show ?thesis by blast
qed

subsection \<open>Properties\<close>

lemma new_world_ok: "holds_ok env (new_world c)" "served env (new_world c)" "timers_ok (w_queue (new_world c))"
  by (simp_all add: holds_ok_def served_def timers_ok_def new_world_def NewQueue_def queue_ok_def account_defs)

lemma run_holds:
  assumes "collection_ok env" "(qstep env calm)\<^sup>*\<^sup>* (new_world c) w"
  shows "holds_ok env w \<and> timers_ok (w_queue w)"
  using assms(2)
proof (induction rule: rtranclp_induct)
  case (step w w')
  then show ?case using qstep_holds [OF step(2) assms(1)] qstep_timers [OF step(2)] by (auto simp: holds_ok_def)
qed (simp add: new_world_ok)

lemma run_served: "(qstep env True)\<^sup>*\<^sup>* (new_world c) w \<Longrightarrow> served env w"
  by (induction rule: rtranclp_induct) (auto simp: new_world_ok intro: qstep_served)

text \<open>An instance: documents are items with an id and a flag, the collection is a list of them.\<close>

type_synonym flagged = "string \<times> bool"

definition find_doc :: "flagged list \<Rightarrow> string \<Rightarrow> queue_error + flagged" where
  "find_doc c i = (case List.find (\<lambda>d. fst d = i) c of None \<Rightarrow> Inl ErrDocNotFound | Some d \<Rightarrow> Inr d)"

definition flag_env :: "(flagged, flagged list, flagged, unit) queue_env" where
  "flag_env = \<lparr>qe_getId = fst, qe_setId = (\<lambda>x i. (i, snd x)), qe_defVal = ([], False), qe_marshal = (\<lambda>x. x), qe_unmarshal = (\<lambda>d. (d, None)),
     qe_SetId = (\<lambda>d i. (i, snd d)), qe_FindId = find_doc, qe_UpsertOne = (\<lambda>c d. Inr (d # filter (\<lambda>e. fst e \<noteq> fst d) c)),
     qe_Find = (\<lambda>c _. Inr (map Inr (filter (\<lambda>d. find_doc c (fst d) = Inr d) c)))\<rparr>"

lemma find_doc_id: "find_doc c i = Inr d \<Longrightarrow> fst d = i"
  by (auto simp: find_doc_def find_Some_iff split: option.splits)

lemma flag_env_ok: "collection_ok flag_env"
proof -
  have "find_doc (d # c) (fst d) = Inr d" for d c by (simp add: find_doc_def)
  then have "find_doc ((i, snd d) # c) i = Inr (i, snd d)" for d :: flagged and c i by (metis fst_conv)
  moreover have "\<forall>c i d. find_doc c i = Inr d \<longrightarrow> fst d = i" using find_doc_id by blast
  ultimately show ?thesis unfolding collection_ok_def flag_env_def by auto
qed

definition flagged_next :: "(flagged, unit) getNextRequest" where
  "flagged_next = \<lparr>gn_id = ''r'', gn_subscribe = True, gn_query = (), gn_filter = snd, gn_scheduledAt = (\<lambda>_. 5), gn_responseCh = NextChan 7\<rparr>"

lemma flagged_next_ok: "request_ok flag_env flagged_next"
  by (simp add: request_ok_def flag_env_def flagged_next_def stored_form_def)

text \<open>Somebody takes the missing item a, somebody else waits for any flagged item, and the first one stores a with its flag.\<close>

definition world_a :: "(flagged, flagged list, unit) queue_world" where
  "world_a = settle flag_env (handleGetById flag_env ''a'' (IdChan ''a'' 0) (NewQueue [])) ((new_world [])\<lparr>w_used := [IdChan ''a'' 0]\<rparr>)"

definition world_b :: "(flagged, flagged list, unit) queue_world" where
  "world_b = settle flag_env (handleGetNext flag_env flagged_next (w_queue world_a)) (world_a\<lparr>w_used := [NextChan 7, IdChan ''a'' 0]\<rparr>)"

definition world_c :: "(flagged, flagged list, unit) queue_world" where
  "world_c = settle flag_env (snd (ReleaseAndUpdate flag_env 0 [] ''a'' ([], True) (w_queue world_b)))
     (world_b\<lparr>w_holds := remove1 (IdChan ''a'' 0, ''a'') (w_holds world_b)\<rparr>)"

lemmas flag_defs = world_a_def world_b_def world_c_def settle_def new_world_def NewQueue_def flag_env_def flagged_next_def find_doc_def
  handleGetById_def handleGetNext_def ReleaseAndUpdate_def handleReleaseItem_def hand_on_def checkGetByIdWaiters_def first_waiter_def
  checkDueWaiters_def checkNextScheduledWaiters_def checkGetNextWaiters_def checkInSchedule_def entries_def storage_get_def storage_set_def
  storage_query_def stored_form_def isLocked_def isScheduled_def queue_prims handed_all_def List.extract_def

lemma world_values:
  "w_holds world_a = [(IdChan ''a'' 0, ''a'')]" "w_holds world_b = [(IdChan ''a'' 0, ''a'')]" "w_holds world_c = [(NextChan 7, ''a'')]"
  "w_used world_c = [NextChan 7, IdChan ''a'' 0]" "answered (w_queue world_c) (NextChan 7) = 1"
  by (simp_all add: flag_defs answered_def)

lemma world_runs: "(qstep flag_env calm)\<^sup>*\<^sup>* (new_world []) world_b" "(qstep flag_env calm)\<^sup>*\<^sup>* (new_world []) world_c"
proof -
  have a: "qstep flag_env calm (new_world []) world_a"
    using qstep.by_id [of "new_world []" "''a''" 0 flag_env calm] by (simp add: world_a_def new_world_def)
  have "\<not> w_closed world_a" "w_used world_a = [IdChan ''a'' 0]" by (simp_all add: world_a_def new_world_def)
  then have b: "qstep flag_env calm world_a world_b"
    using qstep.get_next [of world_a flag_env flagged_next calm] flagged_next_ok by (simp add: world_b_def flagged_next_def)
  have "\<not> w_closed world_b" "q_scheduled (w_queue world_b) = []" by (simp_all add: flag_defs)
  then have c: "qstep flag_env calm world_b world_c"
    using qstep.update [of world_b "IdChan ''a'' 0" "''a''" "[]" flag_env calm 0 "([], True)"] world_values(2) by (simp add: world_c_def)
  show "(qstep flag_env calm)\<^sup>*\<^sup>* (new_world []) world_b" "(qstep flag_env calm)\<^sup>*\<^sup>* (new_world []) world_c" using a b c by auto
qed

text \<open>C5: whatever clients, timers and cancellations do, no two clients hold the same item of the file queue at the same time, what is held is locked,
  and no cancel channel of a timer is closed twice.\<close>

theorem queue_exclusive:
  assumes "collection_ok env" "(qstep env calm)\<^sup>*\<^sup>* (new_world c) w"
  shows "distinct (map snd (w_holds w)) \<and> (\<forall>(ch, i)\<in>set (w_holds w). isLocked (w_queue w) i) \<and> distinct (q_cancelled (w_queue w))"
  using run_holds [OF assms] by (auto simp: holds_ok_def timers_ok_def isLocked_def)

theorem queue_exclusive_witness: "isLocked (w_queue world_c) ''a'' \<and> distinct (map snd (w_holds world_c))"
  using queue_exclusive [OF flag_env_ok world_runs(2)] by (simp add: world_values)

text \<open>C6: in a run without late timers and without cancellations of due requests, every request that the file queue accepted either waits in
  exactly one place and has no answer, or has exactly one answer; after the queue is closed each has its answer.\<close>

theorem queue_answers:
  assumes "(qstep env True)\<^sup>*\<^sup>* (new_world c) w" "ch \<in> set (w_used w)"
  shows "(waiting (w_queue w) ch = 1 \<and> answered (w_queue w) ch = 0 \<or> waiting (w_queue w) ch = 0 \<and> answered (w_queue w) ch = 1) \<and>
    (w_closed w \<longrightarrow> answered (w_queue w) ch = 1)"
proof -
  have "waiting (w_queue w) ch + answered (w_queue w) ch = 1" "w_closed w \<longrightarrow> waiting (w_queue w) ch = 0"
    using run_served [OF assms(1)] assms(2) by (simp_all add: served_def account_def)
  then show ?thesis by auto
qed

theorem queue_answers_witness: "waiting (w_queue world_c) (NextChan 7) = 0"
  using queue_answers [OF world_runs(2), of "NextChan 7"] world_values(4,5) by simp

text \<open>C7: when a client stores and releases an item that it holds, the store has the item afterwards, and either a waiting client gets it, or
  nobody is left behind: no client waits for the item by id, no request that was due for it waits any longer for it, a waiting request for a scheduled item accepts
  it only if it is already in the schedule of a request, and no waiting request for a next item accepts it.\<close>

theorem release_serves:
  assumes "collection_ok env" "(qstep env calm)\<^sup>*\<^sup>* (new_world c) w" "(ch, i) \<in> set (w_holds w)"
    "ReleaseAndUpdate env now visited i x (w_queue w) = (None, q')"
  shows "storage_get env (q_store q') i = qe_unmarshal env (stored_form env i (qe_setId env x i)) \<and>
    (got env i (w_queue w) q' \<or>
     entries (q_getByIdWaiters q') i = [] \<and> entries (q_dueWaiters q') i = [] \<and>
     (\<forall>r\<in>set (q_getNextScheduledWaiters q'). gn_filter r (qe_setId env x i) \<longrightarrow> isScheduled env q' (qe_setId env x i)) \<and>
     (\<forall>r\<in>set (q_getNextWaiters q'). \<not> gn_filter r (qe_setId env x i)))"
proof -
  have ok: "queue_ok env (w_queue w)" using run_holds [OF assms(1,2)] by (simp add: holds_ok_def)
  have "i \<in> snd ` set (w_holds w)" using assms(3) by force
  then have l: "isLocked (w_queue w) i" using run_holds [OF assms(1,2)] by (auto simp: holds_ok_def isLocked_def)
  show ?thesis using update_serves [OF assms(1) ok l assms(4)] collection_okD(1) [OF assms(1)] by (simp add: unwanted_def)
qed

theorem release_serves_witness: "q_store (snd (ReleaseAndUpdate flag_env 0 [] ''a'' ([], True) (w_queue world_b))) = [(''a'', True)] \<and>
    got flag_env ''a'' (w_queue world_b) (snd (ReleaseAndUpdate flag_env 0 [] ''a'' ([], True) (w_queue world_b)))"
proof -
  let ?r = "ReleaseAndUpdate flag_env 0 [] ''a'' ([], True) (w_queue world_b)"
  have "?r = (None, snd ?r)" by (simp add: flag_defs)
  moreover have "got flag_env ''a'' (w_queue world_b) (snd ?r)" by (simp add: flag_defs got_def)
  moreover have "q_store (snd ?r) = [(''a'', True)]" by (simp add: flag_defs)
  ultimately show ?thesis using release_serves [OF flag_env_ok world_runs(1)] world_values(2) by auto
qed

subsection \<open>What goes wrong\<close>

text \<open>A request that waits for its locked due item is dropped by a cancellation without an answer: its caller waits forever.\<close>

lemma cancelled_due_lost:
  assumes "queue_ok env q" "q_getNextWaiters q = []" "q_getNextScheduledWaiters q = []" "q_scheduled q = []"
    "q_dueWaiters q = [(k, [s])]" "gn_id (si_request s) = i"
  shows "account (handleCancelRequest env i q) (si_responseCh s) + 1 = account q (si_responseCh s)"
  using assms by (simp add: handleCancelRequest_def cancel_next_def cancel_next_scheduled_def cancel_waiter_def cancel_scheduled_def cancel_due_def
      List.extract_def account_defs)

text \<open>A timer that fires late, after its item was scheduled for another request, answers its own request and removes the other one from the schedule.\<close>

lemma late_timer_drops:
  assumes "queue_ok env q" "map_of (q_scheduled q) (qe_getId env (si_item s)) = Some s'" "si_responseCh s \<noteq> si_responseCh s'"
  shows "account (handleScheduledItem env s q) (si_responseCh s') + 1 = account q (si_responseCh s')"
proof -
  let ?i = "qe_getId env (si_item s)"
  let ?q = "q\<lparr>q_scheduled := del ?i (q_scheduled q)\<rparr>" and ?c = "si_responseCh s'"
  have a: "account ?q ?c + 1 = account q ?c"
    using account_unschedule [OF queue_ok_maps(3) [OF assms(1)] assms(2), of ?c] by (simp add: account_defs unschedule_def)
  have "account (?q\<lparr>q_dueWaiters := put ?i (entries (q_dueWaiters q) ?i @ [s]) (q_dueWaiters q)\<rparr>) ?c = account ?q ?c"
    using count_put_flat [OF queue_ok_maps(2) [OF assms(1)], of si_responseCh ?i "entries (q_dueWaiters q) ?i @ [s]" ?c] assms(3)
    by (simp add: account_defs)
  then show ?thesis using a assms(2,3) by (simp add: handleScheduledItem_def Let_def isScheduled_def)
qed

text \<open>When the store fails to read a due item, the item is locked although its caller gets an error and holds nothing.\<close>

lemma failed_read_locks:
  assumes "sch_ok env s" "isScheduled env q (si_item s)" "\<not> isLocked q (qe_getId env (si_item s))"
    "storage_get env (q_store q) (qe_getId env (si_item s)) = (x, Some err)"
  shows "isLocked (handleScheduledItem env s q) (qe_getId env (si_item s)) \<and>
    handed_all env (drop (length (q_sent q)) (q_sent (handleScheduledItem env s q))) = []"
proof -
  obtain n where "si_responseCh s = NextChan n" using waiter_chans(4) [OF assms(1)] by blast
  then show ?thesis using assms(2-4) by (simp add: handleScheduledItem_def Let_def) (simp add: respond_def lock_item_def)
qed

end
