(* ===== verification/Spec2Isabelle.thy ===== *)
theory Spec2Isabelle
  imports Prelude Slices SliceDiff GoValue GenericMap SimpleBlocks Utf16 TextBlock Dataview BlockEvents BlockState BlockInsert Normalize SimpleTable
    SliceSteps ObjectData Changes StateApply TextEdit DbFilter DbOrder Subscription ModeMachine UndoHistory FileQueue
begin

text \<open>
  A verification development for the core of anytype-heart, the middleware of the Anytype clients.

  \<^bold>\<open>The program.\<close> Every object (page, type, relation, set) is a tree of blocks with details, a map from
  relation keys to values. An editor works on a chain of states, each of which overlays the
  blocks and details of its parent; applying a state computes what changed, as events for the client,
  as changes for synchronisation and as an action for the undo history. Queries filter and sort
  objects by their details. A space runs its loading, joining and offloading processes through a mode
  machine. The services around this core (network, storage, import, export, the client interface)
  call it and are not modelled.

  \<^bold>\<open>Theories and sources\<close> (paths under src/).
  \<^item> \<open>Prelude\<close>: comparison functions as the locale \<open>comparison\<close> and Go maps as the locale \<open>dict\<close>, both
    interpreted on the model's definitions; lemmas on lists and association lists that all theories share.
  \<^item> \<open>Slices\<close>, \<open>SliceDiff\<close> (util/slice): slice helpers; the difference of two slices as changes and their
    replay. A diff followed by its application gives the new slice.
  \<^item> \<open>GoValue\<close>, \<open>GenericMap\<close> (core/domain): relation values with accessors, order, equality and protobuf
    form; maps of values with nil receivers, merging and differences. The order is a total preorder
    on values without a scalar not-a-number and agrees with equality; round trips; patching.
  \<^item> \<open>SimpleBlocks\<close>, \<open>Utf16\<close>, \<open>TextBlock\<close> (core/block/simple, util/text): the block kinds with their
    \<open>Diff\<close> and \<open>ApplyEvent\<close>; UTF-16 positions; text with marks and the operations that cut, paste,
    split and merge it. Every position keeps its formatting.
  \<^item> \<open>Dataview\<close> (core/block/simple/dataview, util/pbtypes/relationlink.go, part of event.go): queries shown in views,
    the operations on their filters, sorts, relations and orders, the messages for a difference and
    their application. Applied messages give the views, the sources and the target of the new block, and the keys of its links and its orders as
    far as the messages carry them; requests with fresh ids keep ids unambiguous.
  \<^item> \<open>BlockEvents\<close> (core/block/editor/state/event.go): events applied to a block; replaying a diff on the
    old block gives all fields of the new one that the messages carry.
  \<^item> \<open>BlockState\<close>, \<open>BlockInsert\<close> (core/block/editor/state: state.go, position.go, change.go, details.go): the
    chain of states as a list, the walk over the tree, validation, climbing, collecting, unlinking and
    inserting at every position with the recorded changes. Validation accepts exactly trees; moving a
    block beside or into a block that is not below it keeps the tree; flattening a chain keeps what a reader sees; the walks end and are correct
    without cycles.
  \<^item> \<open>Normalize\<close> (core/block/editor/state/normalize.go): the passes that repair a tree before it is applied. The first
    ones give a valid tree with the same blocks; removing groups keeps the order of the document.
  \<^item> \<open>SimpleTable\<close> (core/block/editor/table, core/block/simple/table): tables as blocks, their normalization and the table
    editor, as steps with errors on the chain of states. Normalization brings a table in order and keeps its blocks in
    the document; moving columns and filling rows keep a table in order.
  \<^item> \<open>SliceSteps\<close> (util/slice): a difference of slices applied one change at a time gives the same slice as the
    whole list of changes at once.
  \<^item> \<open>ObjectData\<close> (core/block/editor/state: state.go, details.go, fileinfo.go, change.go): details, relation links,
    types, the nested store with the locale \<open>nested_store\<close>, notifications, devices and files of a chain of states. A
    write to the store is read back and leaves the other paths alone.
  \<^item> \<open>Changes\<close> (core/block/editor/state: change.go, event.go): every kind of change applied to a state, and the
    changes made from messages and differences. Replayed changes of details and collections give what the
    author of the changes has.
  \<^item> \<open>StateApply\<close> (core/block/editor/state: state.go, event.go): the end of an edit: messages, undo action, changes and the
    installation in the parent, which holds exactly the blocks of the tree afterwards.
  \<^item> \<open>TextEdit\<close> (core/block/editor/stext/text.go, core/block/editor/basic/basic.go): what a client does to texts and blocks,
    with errors on the chain of states. Merging texts keeps the tree and all text; a split below the block that is merged again
    gives the document without the selected text.
  \<^item> \<open>DbFilter\<close> (pkg/lib/database: filter.go, quickoptions.go, database.go; util/time/calendar.go): filter requests, the compiler
    to filters, filters on details, periods of the calendar, default filters. The compiled filter has the meaning of
    the request; archived and deleted objects stay hidden unless asked for.
  \<^item> \<open>DbOrder\<close> (pkg/lib/database: order.go, ordermap.go, database.go): comparisons by format, empty
    values, custom orders and the cache of names. Orders are orders and do not depend on the cache.
  \<^item> \<open>Subscription\<close> (core/subscription: cache.go, diff.go, sorted.go, context.go, part of service.go): the sorted
    window of a query, its counters and the messages for a client. A batch of changed objects leaves the
    container, the cache and the client's window in agreement with the objects.
  \<^item> \<open>ModeMachine\<close> (space/internal/spaceprocess/mode): the mode machine as interleaved atomic steps.
    Answers are right, nobody waits forever before the loop stops, and everybody does afterwards.
  \<^item> \<open>FileQueue\<close> (core/files/filesync/filequeue): the handlers of the queue of files to synchronise, and its loop with
    clients, timers and cancellations as a step relation. Nothing is held twice, requests wait or have one answer, and
    released items are handed on.
  \<^item> \<open>UndoHistory\<close> (core/block/undo): the bounded history with grouped actions.

  \<^bold>\<open>Modelling.\<close> Structures are records, interfaces and enumerations datatypes (unknown enumeration
  numbers have a constructor of their own), maps association lists with distinct keys, nil an option.
  Errors are values of sum or option types, panics \<^term>\<open>None\<close>. A float64 is a datatype with
  rationals for the finite numbers; integers are unbounded except where the code converts between
  widths. Loops that may not end are partial functions into options: the theorems about them prove
  that they return. No theory uses fuel. Concurrency occurs in \<open>ModeMachine\<close> and \<open>FileQueue\<close>, as step
  relations at the granularity of the critical sections and of the handled messages.

  \<^bold>\<open>Parameters.\<close> Code outside the repository, and what rests on it alone, is an argument of the definitions that use it, with
  hypotheses that state what is documented: the edit script of mb0/diff, the skip list of huandu/skiplist, the helpers of samber/lo, the
  collator, the functions of the time package, the day in a date object id (util/dateutil), the Unicode case mapping, sorting by \<open>sort.Sort\<close>, generated ids, md5, the
  encoding of anyenc, the comparison of protobuf values, the clock, the bundled relations and the answers of the object store. Their witnesses instantiate them.

  \<^bold>\<open>Not modelled.\<close> In the modelled files: the translation of filters and orders to the query language of
  the store, the deprecated relation dictionary of dataview blocks, the custom normalization of single block kinds, blocks
  whose text is a detail, states made from a snapshot, copies and filters of a state for exports. Other
  parts: editors of single object kinds, typing text with its delayed application, featured relations from templates, the hook that cleans tables, chats, subscriptions of
  dependent objects, import and export, the HTTP interface, file processing, synchronisation and payments, which drive the
  modelled operations with locks, stores, timers and third-party services, and generated code.
\<close>

end
